(* ===== verification/Nd_Prelude.thy ===== *)
theory Nd_Prelude
  imports Main "HOL-Library.Word" "HOL-Library.Monad_Syntax"
begin

unbundle bit_operations_syntax

text \<open>
  Shared vocabulary of the development: the machine types of \<^verbatim>\<open>include/nd_def.h\<close>, the error
  codes, the timeouts, the calculus for operations that may dereference a null or dangling
  link (\<open>'a option\<close>, \<open>None\<close> being that undefined behaviour), the collections of rewrite rules
  and generic list lemmas used by several components.
\<close>

section \<open>Machine types, error codes, timeouts\<close>

type_synonym u8 = "8 word"
type_synonym u32 = "32 word"
type_synonym u64 = "64 word"

datatype nd_err =
    ND_EOK | ND_ERROR | ND_ETIMEOUT | ND_EFULL | ND_EEMPTY | ND_ENOMEM | ND_ENOSYS
  | ND_EBUSY | ND_EIO | ND_EINTR | ND_EINVAL | ND_EPERM | ND_EDEADLK

definition ND_TIMEOUT_FOREVER :: u64 where
  "ND_TIMEOUT_FOREVER = - 1"

definition ND_TIMEOUT_NOWAIT :: u64 where
  "ND_TIMEOUT_NOWAIT = 0"

definition ND_ALIGN :: "u32 \<Rightarrow> u32 \<Rightarrow> u32" where
  "ND_ALIGN sz align = (sz + align - 1) AND NOT (align - 1)"

definition ND_ALIGN_DOWN :: "u32 \<Rightarrow> u32 \<Rightarrow> u32" where
  "ND_ALIGN_DOWN sz align = sz AND NOT (align - 1)"

abbreviation ND_THREAD_PRIORITY_MAX :: nat where
  "ND_THREAD_PRIORITY_MAX \<equiv> 32"

section \<open>Operations that may fault\<close>

text \<open>
  \<open>wp m Q\<close>: the operation \<open>m\<close> does not fault and its result satisfies \<open>Q\<close>. The rules below
  push it through the do-notation, so that a goal about a handler becomes a goal about its
  primitive steps.
\<close>

definition wp :: "'a option \<Rightarrow> ('a \<Rightarrow> bool) \<Rightarrow> bool" where
  "wp m Q = (case m of None \<Rightarrow> False | Some x \<Rightarrow> Q x)"

definition assert_ok :: "bool \<Rightarrow> unit option" where
  "assert_ok b = (if b then Some () else None)"

named_theorems wp_rules
named_theorems frame_simps

lemma wp_Some [simp, wp_rules]: "wp (Some x) Q = Q x"
  by (simp add: wp_def)

lemma wp_None [simp, wp_rules]: "wp None Q = False"
  by (simp add: wp_def)

lemma wp_bind [simp, wp_rules]: "wp (Option.bind m f) Q = wp m (\<lambda>x. wp (f x) Q)"
  by (cases m) simp_all

lemma assert_ok_simps [simp]: "assert_ok True = Some ()" "assert_ok False = None"
  by (simp_all add: assert_ok_def)

lemma wp_assert_ok [simp, wp_rules]: "wp (assert_ok b) Q = (b \<and> Q ())"
  by (simp add: assert_ok_def)

lemma wp_mono: "wp m Q \<Longrightarrow> (\<And>x. m = Some x \<Longrightarrow> Q x \<Longrightarrow> R x) \<Longrightarrow> wp m R"
  by (cases m) simp_all

lemma wp_pair_mono:
  "wp m (\<lambda>(a, b). Q a b) \<Longrightarrow> (\<And>a b. Q a b \<Longrightarrow> R a b) \<Longrightarrow> wp m (\<lambda>(a, b). R a b)"
  by (cases m) auto

lemma wp_pair_conj:
  "wp m (\<lambda>(a, b). Q a b) \<Longrightarrow> wp m (\<lambda>(a, b). R a b) \<Longrightarrow> wp m (\<lambda>(a, b). Q a b \<and> R a b)"
  by (cases m) auto

lemma wp_mono2:
  "wp m (\<lambda>x. wp (g x) Q) \<Longrightarrow> (\<And>y. Q y \<Longrightarrow> R y) \<Longrightarrow> wp m (\<lambda>x. wp (g x) R)"
  by (erule wp_mono) (erule wp_mono, blast)

lemma wp_conj: "wp m Q \<Longrightarrow> wp m R \<Longrightarrow> wp m (\<lambda>x. Q x \<and> R x)"
  by (cases m) simp_all

lemma wp_iff: "wp m Q \<longleftrightarrow> (\<exists>x. m = Some x \<and> Q x)"
  by (cases m) simp_all

lemma wpD: "wp m Q \<Longrightarrow> m = Some x \<Longrightarrow> Q x"
  by simp

lemma wp_map_option [simp, wp_rules]: "wp (map_option f m) Q = wp m (\<lambda>x. Q (f x))"
  by (cases m) simp_all

lemma wp_pairD: "wp m (\<lambda>(a, b). Q a b) \<Longrightarrow> \<exists>a b. m = Some (a, b) \<and> Q a b"
  by (cases m) auto

lemma bind_Some_iff: "Option.bind m f = Some y \<longleftrightarrow> (\<exists>x. m = Some x \<and> f x = Some y)"
  by (cases m) simp_all

section \<open>Lists\<close>

lemma remove1_notin [simp]: "x \<notin> set xs \<Longrightarrow> remove1 x xs = xs"
  by (induction xs) auto

lemma remove1_split: "x \<notin> set xs \<Longrightarrow> remove1 x (xs @ x # ys) = xs @ ys"
  by (induction xs) auto

lemma distinct_set_remove1: "distinct xs \<Longrightarrow> set (remove1 x xs) = set xs - {x}"
  by (rule set_remove1_eq)

lemma set_takeWhile_dropWhile: "set (takeWhile P xs) \<union> set (dropWhile P xs) = set xs"
proof -
  have "set (takeWhile P xs @ dropWhile P xs) = set xs" by (simp only: takeWhile_dropWhile_id)
  then show ?thesis by (simp only: set_append)
qed

lemma takeWhile_dropWhile_mid:
  "set (takeWhile P xs @ x # dropWhile P xs) = insert x (set xs)"
  by (simp only: set_append list.set Un_insert_right set_takeWhile_dropWhile)

lemma distinct_takeWhile_mid:
  "distinct (takeWhile P xs @ x # dropWhile P xs) \<longleftrightarrow> x \<notin> set xs \<and> distinct xs"
proof -
  have "distinct (takeWhile P xs @ dropWhile P xs) = distinct xs"
    by (simp only: takeWhile_dropWhile_id)
  moreover have "x \<in> set xs \<longleftrightarrow> x \<in> set (takeWhile P xs) \<or> x \<in> set (dropWhile P xs)"
    using set_takeWhile_dropWhile [of P xs] by blast
  ultimately show ?thesis
    by (simp only: distinct_append distinct.simps list.set) blast
qed

text \<open>Stable insertion into a sorted sequence: after every element that is not greater.\<close>

definition insort_after :: "('a \<Rightarrow> 'b::linorder) \<Rightarrow> 'a \<Rightarrow> 'a list \<Rightarrow> 'a list" where
  "insort_after f x xs = takeWhile (\<lambda>y. f y \<le> f x) xs @ x # dropWhile (\<lambda>y. f y \<le> f x) xs"

lemma set_insort_after [simp]: "set (insort_after f x xs) = insert x (set xs)"
  unfolding insort_after_def by (rule takeWhile_dropWhile_mid)

lemma distinct_insort_after [simp]:
  "distinct (insort_after f x xs) \<longleftrightarrow> x \<notin> set xs \<and> distinct xs"
  unfolding insort_after_def by (rule distinct_takeWhile_mid)

lemma insort_after_neq_Nil [simp]: "insort_after f x xs \<noteq> []"
  by (simp add: insort_after_def)

lemma insort_after_Nil [simp]: "insort_after f x [] = [x]"
  by (simp add: insort_after_def)

lemma insort_after_Cons:
  "insort_after f x (y # ys) = (if f y \<le> f x then y # insort_after f x ys else x # y # ys)"
  by (simp add: insort_after_def)

lemma sorted_insort_after:
  "sorted (map f xs) \<Longrightarrow> sorted (map f (insort_after f x xs))"
proof (induction xs)
  case Nil
  then show ?case by simp
next
  case (Cons y ys)
  then show ?case by (force simp: insort_after_Cons)
qed

lemma insort_after_cong:
  "(\<And>y. y \<in> insert x (set xs) \<Longrightarrow> f y = g y) \<Longrightarrow> insort_after f x xs = insort_after g x xs"
  by (induction xs) (auto simp: insort_after_Cons)

lemma sorted_remove1_map: "sorted (map f xs) \<Longrightarrow> sorted (map f (remove1 x xs))"
  by (induction xs) (auto dest: notin_set_remove1)

lemma find_greater_Some:
  fixes f :: "'a \<Rightarrow> 'b::linorder"
  assumes "find (\<lambda>p. f p > c) xs = Some p"
  shows "dropWhile (\<lambda>p. f p \<le> c) xs = p # tl (dropWhile (\<lambda>p. f p \<le> c) xs)"
  using assms by (induction xs) (auto split: if_splits)

lemma find_greater_None:
  fixes f :: "'a \<Rightarrow> 'b::linorder"
  assumes "find (\<lambda>p. f p > f x) xs = None"
  shows "insort_after f x xs = xs @ [x]"
  using assms by (induction xs) (auto simp: insort_after_Cons split: if_splits)

lemma takeWhile_neq_split: "p \<notin> set xs \<Longrightarrow> takeWhile (\<lambda>x. x \<noteq> p) (xs @ p # ys) = xs"
  by (induction xs) auto

lemma dropWhile_neq_split: "p \<notin> set xs \<Longrightarrow> dropWhile (\<lambda>x. x \<noteq> p) (xs @ p # ys) = p # ys"
  by (induction xs) auto

end
