(* ===== verification/Nd_List.thy ===== *)
theory Nd_List
  imports Nd_Prelude
begin

text \<open>
  The intrusive doubly linked lists of \<^verbatim>\<open>include/nd_list.h\<close>, on an explicit heap of list nodes:
  every function is the sequence of pointer reads and writes of the source, and \<open>None\<close> is the
  dereference of a null link. \<open>ring\<close> says that the nodes reached from a head are a given
  sequence; the locale \<open>list_system\<close> is the contract the kernel relies on (what every insertion
  and removal does to a family of disjoint lists), and its interpretation at the end shows that
  the pointer code keeps it.
\<close>

section \<open>Nodes and operations\<close>

record 'a list_node =
  nx :: "'a option"
  pv :: "'a option"

type_synonym 'a link_heap = "'a \<Rightarrow> 'a list_node"

definition set_nx :: "'a \<Rightarrow> 'a option \<Rightarrow> 'a link_heap \<Rightarrow> 'a link_heap" where
  "set_nx a v hp = hp(a := (hp a)\<lparr>nx := v\<rparr>)"

definition set_pv :: "'a \<Rightarrow> 'a option \<Rightarrow> 'a link_heap \<Rightarrow> 'a link_heap" where
  "set_pv a v hp = hp(a := (hp a)\<lparr>pv := v\<rparr>)"

definition nd_list_init :: "'a \<Rightarrow> 'a link_heap \<Rightarrow> 'a link_heap" where
  "nd_list_init l hp = set_pv l (Some l) (set_nx l (Some l) hp)"

definition nd_list_insert_after :: "'a \<Rightarrow> 'a \<Rightarrow> 'a link_heap \<Rightarrow> 'a link_heap option" where
  "nd_list_insert_after node new_node hp = do {
     let hp1 = set_nx new_node (nx (hp node)) hp;
     let hp2 = set_pv new_node (Some node) hp1;
     next \<leftarrow> nx (hp2 node);
     let hp3 = set_pv next (Some new_node) hp2;
     Some (set_nx node (Some new_node) hp3)
   }"

definition nd_list_insert_before :: "'a \<Rightarrow> 'a \<Rightarrow> 'a link_heap \<Rightarrow> 'a link_heap option" where
  "nd_list_insert_before node new_node hp = do {
     let hp1 = set_pv new_node (pv (hp node)) hp;
     let hp2 = set_nx new_node (Some node) hp1;
     prev \<leftarrow> pv (hp2 node);
     let hp3 = set_nx prev (Some new_node) hp2;
     Some (set_pv node (Some new_node) hp3)
   }"

definition nd_list_remove :: "'a \<Rightarrow> 'a link_heap \<Rightarrow> 'a link_heap option" where
  "nd_list_remove node hp = do {
     prev \<leftarrow> pv (hp node);
     let hp1 = set_nx prev (nx (hp node)) hp;
     next \<leftarrow> nx (hp1 node);
     let hp2 = set_pv next (pv (hp1 node)) hp1;
     let hp3 = set_nx node None hp2;
     Some (set_pv node None hp3)
   }"

definition nd_list_is_empty :: "'a \<Rightarrow> 'a link_heap \<Rightarrow> bool" where
  "nd_list_is_empty l hp = (nx (hp l) = Some l)"

definition nd_list_is_linked :: "'a \<Rightarrow> 'a link_heap \<Rightarrow> bool" where
  "nd_list_is_linked node hp = (nx (hp node) \<noteq> None)"

text \<open>
  The loop of \<open>nd_list_length\<close>: \<open>None\<close> when it meets a null link or never comes back to the head.
\<close>

partial_function (option) nd_list_length_loop ::
  "'a link_heap \<Rightarrow> 'a \<Rightarrow> 'a option \<Rightarrow> u32 \<Rightarrow> u32 option" where
  "nd_list_length_loop hp l node len =
     (if node = Some l then Some len
      else case node of
             None \<Rightarrow> None
           | Some n \<Rightarrow> nd_list_length_loop hp l (nx (hp n)) (len + 1))"

definition nd_list_length :: "'a \<Rightarrow> 'a link_heap \<Rightarrow> u32 option" where
  "nd_list_length l hp = nd_list_length_loop hp l (nx (hp l)) 0"

text \<open>
  The walk of \<^verbatim>\<open>nd_list_for_each_entry\<close> in \<^verbatim>\<open>kernel/nd_thread.c:nd_thread_wait_insert\<close>: stop before the
  first node whose priority is greater than the new one's, otherwise append.
\<close>

partial_function (option) wait_insert_loop ::
  "('a \<Rightarrow> nat) \<Rightarrow> 'a \<Rightarrow> 'a \<Rightarrow> 'a option \<Rightarrow> 'a link_heap \<Rightarrow> 'a link_heap option" where
  "wait_insert_loop prio l new pos hp =
     (if pos = Some l then nd_list_insert_before l new hp
      else case pos of
             None \<Rightarrow> None
           | Some p \<Rightarrow>
               if prio p > prio new then nd_list_insert_before p new hp
               else wait_insert_loop prio l new (nx (hp p)) hp)"

definition wait_insert_ptr :: "('a \<Rightarrow> nat) \<Rightarrow> 'a \<Rightarrow> 'a \<Rightarrow> 'a link_heap \<Rightarrow> 'a link_heap option" where
  "wait_insert_ptr prio l new hp = wait_insert_loop prio l new (nx (hp l)) hp"

section \<open>Rings\<close>

fun seg :: "'a link_heap \<Rightarrow> 'a \<Rightarrow> 'a list \<Rightarrow> 'a \<Rightarrow> bool" where
  "seg hp a [] b = (nx (hp a) = Some b \<and> pv (hp b) = Some a)"
| "seg hp a (x # xs) b = (nx (hp a) = Some x \<and> pv (hp x) = Some a \<and> seg hp x xs b)"

definition ring :: "'a link_heap \<Rightarrow> 'a \<Rightarrow> 'a list \<Rightarrow> bool" where
  "ring hp l xs = (seg hp l xs l \<and> distinct (l # xs))"

lemma nx_set_nx [simp]: "nx (set_nx a v hp b) = (if b = a then v else nx (hp b))"
  by (simp add: set_nx_def)

lemma pv_set_nx [simp]: "pv (set_nx a v hp b) = pv (hp b)"
  by (simp add: set_nx_def)

lemma nx_set_pv [simp]: "nx (set_pv a v hp b) = nx (hp b)"
  by (simp add: set_pv_def)

lemma pv_set_pv [simp]: "pv (set_pv a v hp b) = (if b = a then v else pv (hp b))"
  by (simp add: set_pv_def)

lemma seg_append: "seg hp a (xs @ y # ys) b \<longleftrightarrow> seg hp a xs y \<and> seg hp y ys b"
  by (induction xs arbitrary: a) auto

lemma seg_nx: "seg hp a xs b \<Longrightarrow> nx (hp a) = Some (hd (xs @ [b]))"
  by (cases xs) auto

lemma seg_pv: "seg hp a xs b \<Longrightarrow> pv (hp b) = Some (last (a # xs))"
  by (induction xs arbitrary: a) auto

text \<open>A segment depends on the \<open>next\<close> fields of all but its end and the \<open>prev\<close> fields of all but
  its start.\<close>

lemma seg_cong:
  assumes "\<And>x. x \<in> set (a # xs) \<Longrightarrow> nx (hp' x) = nx (hp x)"
    and "\<And>x. x \<in> set (xs @ [b]) \<Longrightarrow> pv (hp' x) = pv (hp x)"
  shows "seg hp' a xs b = seg hp a xs b"
  using assms by (induction xs arbitrary: a) auto

lemma ring_cong:
  assumes "\<And>x. x \<in> set (l # xs) \<Longrightarrow> nx (hp' x) = nx (hp x)"
    and "\<And>x. x \<in> set (l # xs) \<Longrightarrow> pv (hp' x) = pv (hp x)"
  shows "ring hp' l xs = ring hp l xs"
proof -
  have "seg hp' l xs l = seg hp l xs l" using assms by (intro seg_cong) auto
  then show ?thesis by (simp add: ring_def)
qed

lemma ring_init: "ring (nd_list_init l hp) l []"
  by (simp add: ring_def nd_list_init_def)

lemma ring_empty_iff: "ring hp l xs \<Longrightarrow> nd_list_is_empty l hp \<longleftrightarrow> xs = []"
  by (cases xs) (auto simp: ring_def nd_list_is_empty_def)

lemma ring_first: "ring hp l (x # xs) \<Longrightarrow> nx (hp l) = Some x"
  by (simp add: ring_def)

text \<open>
  One insertion covers the four uses of the source: the new node goes between two neighbours
  of the ring, reached through \<open>node->next\<close> or through \<open>node->prev\<close>.
\<close>

lemma ring_insert_mid:
  assumes r: "ring hp l (xs @ ys)" and new: "new \<notin> set (l # xs @ ys)"
    and a: "a = last (l # xs)" and b: "b = hd (ys @ [l])"
    and hp': "\<And>x. nx (hp' x) = (if x = a then Some new else if x = new then Some b else nx (hp x))"
             "\<And>x. pv (hp' x) = (if x = b then Some new else if x = new then Some a else pv (hp x))"
  shows "ring hp' l (xs @ new # ys)"
proof -
  have d: "distinct (l # xs @ ys)" and s: "seg hp l (xs @ ys) l" using r by (auto simp: ring_def)
  have nb: "new \<noteq> b" using new b by (cases ys) auto
  have na: "new \<noteq> a" using new a by (cases xs rule: rev_cases) auto
  have 1: "seg hp' l xs new"
  proof (cases xs rule: rev_cases)
    case Nil
    then show ?thesis using a nb na by (auto simp: hp')
  next
    case (snoc xs' z)
    with s have "seg hp l xs' z" by (simp add: seg_append)
    moreover have "seg hp' l xs' z = seg hp l xs' z"
      using d new a b snoc by (intro seg_cong) (cases ys; auto simp: hp')+
    ultimately show ?thesis using snoc a nb na by (auto simp: seg_append hp')
  qed
  have 2: "seg hp' new ys l"
  proof (cases ys)
    case Nil
    then show ?thesis using b nb na by (auto simp: hp')
  next
    case (Cons z ys')
    with s have "seg hp z ys' l" by (simp add: seg_append)
    moreover have "seg hp' z ys' l = seg hp z ys' l"
      using d new a b Cons by (intro seg_cong) (cases xs rule: rev_cases; auto simp: hp')+
    ultimately show ?thesis using Cons b nb na by (auto simp: hp')
  qed
  from 1 2 d new show ?thesis by (auto simp: ring_def seg_append)
qed

text \<open>The operations on one ring: what they do to it, and that they touch nothing else.\<close>

lemma ring_remove_mid:
  assumes r: "ring hp l (xs @ n # ys)" and a: "a = last (l # xs)" and b: "b = hd (ys @ [l])"
    and hp': "\<And>x. x \<noteq> n \<Longrightarrow> nx (hp' x) = (if x = a then Some b else nx (hp x))"
             "\<And>x. x \<noteq> n \<Longrightarrow> pv (hp' x) = (if x = b then Some a else pv (hp x))"
  shows "ring hp' l (xs @ ys)"
proof -
  have d: "distinct (l # xs @ n # ys)" and s: "seg hp l xs n" "seg hp n ys l"
    using r by (auto simp: ring_def seg_append)
  have na: "n \<noteq> a" using d a by (cases xs rule: rev_cases) auto
  have nb: "n \<noteq> b" using d b by (cases ys) auto
  have xn: "x \<noteq> n" if "x \<in> set (l # xs @ ys)" for x using d that by auto
  have "seg hp' l (xs @ ys) l"
  proof (cases ys)
    case Nil
    show ?thesis
    proof (cases xs rule: rev_cases)
      case Nil
      with \<open>ys = []\<close> a b na nb show ?thesis by (auto simp: hp' [OF xn])
    next
      case (snoc xs' z)
      with s have "seg hp l xs' z" by (simp add: seg_append)
      moreover have "seg hp' l xs' z = seg hp l xs' z"
        using d a b snoc \<open>ys = []\<close> by (intro seg_cong) (auto simp: hp' [OF xn])
      ultimately show ?thesis using snoc a b na nb \<open>ys = []\<close> d by (auto simp: seg_append hp' [OF xn])
    qed
  next
    case (Cons y ys')
    with s have sy: "seg hp y ys' l" by simp
    have "seg hp' y ys' l = seg hp y ys' l"
      using d a b Cons by (intro seg_cong) (cases xs rule: rev_cases; auto simp: hp' [OF xn])+
    with sy have 2: "seg hp' y ys' l" by simp
    have 1: "seg hp' l xs y"
    proof (cases xs rule: rev_cases)
      case Nil
      with Cons a b na nb d show ?thesis by (auto simp: hp' [OF xn])
    next
      case (snoc xs' z)
      with s have "seg hp l xs' z" by (simp add: seg_append)
      moreover have "seg hp' l xs' z = seg hp l xs' z"
        using d a b snoc Cons by (intro seg_cong) (auto simp: hp' [OF xn])
      ultimately show ?thesis using snoc a b na nb Cons d by (auto simp: seg_append hp' [OF xn])
    qed
    from 1 2 Cons show ?thesis by (simp add: seg_append)
  qed
  with d show ?thesis by (simp add: ring_def)
qed

lemma ring_neighbours:
  assumes "ring hp l (xs @ n # ys)"
  shows "pv (hp n) = Some (last (l # xs))" and "nx (hp n) = Some (hd (ys @ [l]))"
  using assms seg_pv [of hp l xs n] seg_nx [of hp n ys l] by (auto simp: ring_def seg_append)

lemma ring_head:
  assumes "ring hp l xs"
  shows "pv (hp l) = Some (last (l # xs))" and "nx (hp l) = Some (hd (xs @ [l]))"
  using assms seg_pv [of hp l xs l] seg_nx [of hp l xs l] by (auto simp: ring_def)

lemma insert_after_head:
  assumes "ring hp l xs" and "new \<notin> set (l # xs)"
  shows "wp (nd_list_insert_after l new hp)
           (\<lambda>hp'. ring hp' l (new # xs) \<and> (\<forall>x. x \<notin> set (new # l # xs) \<longrightarrow> hp' x = hp x))"
proof -
  let ?b = "hd (xs @ [l])"
  have nx: "nx (hp l) = Some ?b" using assms(1) by (rule ring_head(2))
  have nl: "new \<noteq> l" using assms(2) by auto
  have mem: "?b \<in> set (l # xs)" by (cases xs) auto
  let ?hp' = "set_nx l (Some new) (set_pv ?b (Some new) (set_pv new (Some l) (set_nx new (Some ?b) hp)))"
  have "ring ?hp' l ([] @ new # xs)"
    using assms nl mem by (intro ring_insert_mid [where a = l and b = ?b and hp = hp]) auto
  moreover have "\<forall>x. x \<notin> set (new # l # xs) \<longrightarrow> ?hp' x = hp x"
    using mem by (auto simp: set_nx_def set_pv_def)
  moreover have "nd_list_insert_after l new hp = Some ?hp'"
    using nx nl by (simp add: nd_list_insert_after_def Let_def)
  ultimately show ?thesis by simp
qed

lemma insert_before_mid:
  assumes "ring hp l (xs @ ys)" and "new \<notin> set (l # xs @ ys)" and "b = hd (ys @ [l])"
  shows "wp (nd_list_insert_before b new hp)
           (\<lambda>hp'. ring hp' l (xs @ new # ys) \<and> (\<forall>x. x \<notin> set (new # l # xs @ ys) \<longrightarrow> hp' x = hp x))"
proof -
  let ?a = "last (l # xs)"
  have pb: "pv (hp b) = Some ?a"
  proof (cases ys)
    case Nil
    then show ?thesis using assms ring_head(1) [of hp l xs] by simp
  next
    case (Cons y ys')
    then show ?thesis using assms ring_neighbours(1) [of hp l xs y ys'] by simp
  qed
  have memb: "b \<in> set (l # xs @ ys)" using assms(3) by (cases ys) auto
  have mema: "?a \<in> set (l # xs @ ys)" by (cases xs rule: rev_cases) auto
  have nb: "new \<noteq> b" "new \<noteq> ?a" using assms(2) memb mema by blast+
  let ?hp' = "set_pv b (Some new) (set_nx ?a (Some new) (set_nx new (Some b) (set_pv new (Some ?a) hp)))"
  have "ring ?hp' l (xs @ new # ys)"
    using nb by (intro ring_insert_mid [OF assms(1,2) refl assms(3)]) auto
  moreover have "\<forall>x. x \<notin> set (new # l # xs @ ys) \<longrightarrow> ?hp' x = hp x"
  proof (intro allI impI)
    fix x assume "x \<notin> set (new # l # xs @ ys)"
    then have "x \<noteq> new" "x \<noteq> b" "x \<noteq> ?a" using memb mema by auto
    then show "?hp' x = hp x" by (simp add: set_nx_def set_pv_def)
  qed
  moreover have "nd_list_insert_before b new hp = Some ?hp'"
    using pb nb by (simp add: nd_list_insert_before_def Let_def del: last.simps)
  ultimately show ?thesis by simp
qed

lemma remove_mid:
  assumes "ring hp l (xs @ n # ys)"
  shows "wp (nd_list_remove n hp)
           (\<lambda>hp'. ring hp' l (xs @ ys) \<and> nx (hp' n) = None \<and> pv (hp' n) = None \<and>
                  (\<forall>x. x \<notin> set (l # xs @ n # ys) \<longrightarrow> hp' x = hp x))"
proof -
  let ?a = "last (l # xs)" and ?b = "hd (ys @ [l])"
  note nb = ring_neighbours [OF assms]
  have d: "distinct (l # xs @ n # ys)" using assms by (simp add: ring_def)
  have mema: "?a \<in> set (l # xs)" by (cases xs rule: rev_cases) auto
  have memb: "?b \<in> set (l # ys)" by (cases ys) auto
  have ne: "?a \<noteq> n" "?b \<noteq> n" using d mema memb by auto
  let ?hp' = "set_pv n None (set_nx n None (set_pv ?b (Some ?a) (set_nx ?a (Some ?b) hp)))"
  have "ring ?hp' l (xs @ ys)"
    using ne by (intro ring_remove_mid [OF assms refl refl]) auto
  moreover have "\<forall>x. x \<notin> set (l # xs @ n # ys) \<longrightarrow> ?hp' x = hp x"
    using mema memb by (auto simp: set_nx_def set_pv_def)
  moreover have "nd_list_remove n hp = Some ?hp'"
    using nb ne by (simp add: nd_list_remove_def Let_def del: last.simps)
  ultimately show ?thesis by simp
qed

section \<open>The loops over a ring\<close>

lemma length_loop_seg:
  assumes "seg hp a xs l" and "l \<notin> set xs"
  shows "nd_list_length_loop hp l (nx (hp a)) len = Some (len + of_nat (length xs))"
  using assms
proof (induction xs arbitrary: a len)
  case Nil
  then show ?case by (simp add: nd_list_length_loop.simps)
next
  case (Cons x xs)
  then show ?case by (auto simp: nd_list_length_loop.simps [of hp l "Some x"] algebra_simps)
qed

lemma nd_list_length_ring: "ring hp l xs \<Longrightarrow> nd_list_length l hp = Some (of_nat (length xs))"
  using length_loop_seg [of hp l xs l 0] by (simp add: ring_def nd_list_length_def)

lemma wait_insert_loop_seg:
  assumes "seg hp a xs l" and "l \<notin> set xs"
  shows "wait_insert_loop prio l new (nx (hp a)) hp =
         nd_list_insert_before (hd (dropWhile (\<lambda>p. prio p \<le> prio new) xs @ [l])) new hp"
  using assms
proof (induction xs arbitrary: a)
  case Nil
  then show ?case by (simp add: wait_insert_loop.simps)
next
  case (Cons x xs)
  then show ?case by (auto simp: wait_insert_loop.simps [of prio l new "Some x"])
qed

text \<open>The walk terminates and puts the new node after every node of no greater priority.\<close>

lemma wait_insert_ptr_ring:
  assumes r: "ring hp l xs" and new: "new \<notin> set (l # xs)"
  shows "wp (wait_insert_ptr prio l new hp)
           (\<lambda>hp'. ring hp' l (insort_after prio new xs) \<and>
                  (\<forall>x. x \<notin> set (new # l # xs) \<longrightarrow> hp' x = hp x))"
proof -
  let ?P = "\<lambda>p. prio p \<le> prio new"
  have e: "wait_insert_ptr prio l new hp =
           nd_list_insert_before (hd (dropWhile ?P xs @ [l])) new hp"
    unfolding wait_insert_ptr_def using r by (intro wait_insert_loop_seg) (auto simp: ring_def)
  have s: "takeWhile ?P xs @ dropWhile ?P xs = xs" by simp
  show ?thesis
    using insert_before_mid [of hp l "takeWhile ?P xs" "dropWhile ?P xs" new] r new
    unfolding e s insort_after_def by simp
qed

section \<open>The contract of a family of lists\<close>

text \<open>
  The kernel keeps many lists (one per ready priority, one per waiting object) whose nodes are
  the threads' \<open>qnode\<close> members: a thread is in at most one of them. \<open>rep h L\<close> says that the
  heap \<open>h\<close> holds the lists \<open>L\<close>.
\<close>

locale list_system =
  fixes rep :: "'h \<Rightarrow> ('k \<Rightarrow> 'n list) \<Rightarrow> bool"
    and ins_tail :: "'k \<Rightarrow> 'n \<Rightarrow> 'h \<Rightarrow> 'h option"
    and ins_head :: "'k \<Rightarrow> 'n \<Rightarrow> 'h \<Rightarrow> 'h option"
    and ins_before :: "'n \<Rightarrow> 'n \<Rightarrow> 'h \<Rightarrow> 'h option"
    and unlink :: "'n \<Rightarrow> 'h \<Rightarrow> 'h option"
    and is_empty :: "'k \<Rightarrow> 'h \<Rightarrow> bool"
    and is_linked :: "'n \<Rightarrow> 'h \<Rightarrow> bool"
  assumes rep_distinct: "rep h L \<Longrightarrow> distinct (L k)"
    and rep_disjoint: "rep h L \<Longrightarrow> n \<in> set (L k) \<Longrightarrow> n \<in> set (L k') \<Longrightarrow> k = k'"
    and ins_tail_rep: "rep h L \<Longrightarrow> \<forall>j. n \<notin> set (L j) \<Longrightarrow>
      wp (ins_tail k n h) (\<lambda>h'. rep h' (L(k := L k @ [n])))"
    and ins_head_rep: "rep h L \<Longrightarrow> \<forall>j. n \<notin> set (L j) \<Longrightarrow>
      wp (ins_head k n h) (\<lambda>h'. rep h' (L(k := n # L k)))"
    and ins_before_rep: "rep h L \<Longrightarrow> \<forall>j. n \<notin> set (L j) \<Longrightarrow> L k = xs @ p # ys \<Longrightarrow>
      wp (ins_before p n h) (\<lambda>h'. rep h' (L(k := xs @ n # p # ys)))"
    and unlink_rep: "rep h L \<Longrightarrow> n \<in> set (L k) \<Longrightarrow>
      wp (unlink n h) (\<lambda>h'. rep h' (L(k := remove1 n (L k))))"
    and unlink_fault: "rep h L \<Longrightarrow> \<forall>j. n \<notin> set (L j) \<Longrightarrow> unlink n h = None"
    and is_empty_rep: "rep h L \<Longrightarrow> is_empty k h \<longleftrightarrow> L k = []"
    and is_linked_rep: "rep h L \<Longrightarrow> is_linked n h \<longleftrightarrow> (\<exists>k. n \<in> set (L k))"
begin

lemma unlink_fresh:
  assumes "rep h L" and "n \<in> set (L k)"
  shows "\<forall>j. n \<notin> set ((L(k := remove1 n (L k))) j)"
  using rep_distinct [OF assms(1), of k] rep_disjoint [OF assms(1,2)] by auto

text \<open>Moving a thread from one list to the tail (or the head) of another one, as waking up does.\<close>

lemma move_tail:
  assumes "rep h L" and "n \<in> set (L k)"
  shows "wp (do { h1 \<leftarrow> unlink n h; ins_tail k' n h1 })
           (\<lambda>h'. rep h' (let M = L(k := remove1 n (L k)) in M(k' := M k' @ [n])))"
proof -
  have "wp (unlink n h) (\<lambda>h1. wp (ins_tail k' n h1)
          (\<lambda>h'. rep h' (let M = L(k := remove1 n (L k)) in M(k' := M k' @ [n]))))"
    using unlink_rep [OF assms]
    unfolding Let_def by (rule wp_mono) (rule ins_tail_rep [OF _ unlink_fresh [OF assms]])
  then show ?thesis by simp
qed

lemma move_head:
  assumes "rep h L" and "n \<in> set (L k)"
  shows "wp (do { h1 \<leftarrow> unlink n h; ins_head k' n h1 })
           (\<lambda>h'. rep h' (let M = L(k := remove1 n (L k)) in M(k' := n # M k')))"
proof -
  have "wp (unlink n h) (\<lambda>h1. wp (ins_head k' n h1)
          (\<lambda>h'. rep h' (let M = L(k := remove1 n (L k)) in M(k' := n # M k'))))"
    using unlink_rep [OF assms]
    unfolding Let_def by (rule wp_mono) (rule ins_head_rep [OF _ unlink_fresh [OF assms]])
  then show ?thesis by simp
qed

lemma unlink_twice:
  assumes "rep h L" and "n \<in> set (L k)"
  shows "wp (unlink n h) (\<lambda>h'. unlink n h' = None \<and> \<not> is_linked n h')"
  using unlink_rep [OF assms]
proof (rule wp_mono)
  fix h' assume "rep h' (L(k := remove1 n (L k)))"
  then show "unlink n h' = None \<and> \<not> is_linked n h'"
    using unlink_fresh [OF assms] unlink_fault is_linked_rep by blast
qed

text \<open>Inserting before the first element of greater priority, or at the tail, is stable sorted
  insertion.\<close>

lemma ordered_insert:
  assumes "rep h L" and "\<forall>j. n \<notin> set (L j)"
  shows "wp (case find (\<lambda>p. prio p > prio n) (L k) of None \<Rightarrow> ins_tail k n h | Some p \<Rightarrow> ins_before p n h)
           (\<lambda>h'. rep h' (L(k := insort_after prio n (L k))))"
proof (cases "find (\<lambda>p. prio p > prio n) (L k)")
  case None
  then show ?thesis using ins_tail_rep [OF assms] find_greater_None [OF None] by simp
next
  case (Some p)
  let ?ys = "tl (dropWhile (\<lambda>q. prio q \<le> prio n) (L k))"
  note d = find_greater_Some [OF Some]
  then have "L k = takeWhile (\<lambda>q. prio q \<le> prio n) (L k) @ p # ?ys"
    by (metis takeWhile_dropWhile_id)
  from ins_before_rep [OF assms this] Some show ?thesis
    unfolding insort_after_def by (subst d) simp
qed

end

section \<open>The pointer code keeps the contract\<close>

text \<open>The addresses of list heads and of the nodes embedded in the objects.\<close>

datatype ('k, 'n) addr = Head 'k | Node 'n

definition lists_rep :: "('k, 'n) addr link_heap \<Rightarrow> ('k \<Rightarrow> 'n list) \<Rightarrow> bool" where
  "lists_rep hp L \<longleftrightarrow>
     (\<forall>k. ring hp (Head k) (map Node (L k))) \<and>
     (\<forall>k k'. k \<noteq> k' \<longrightarrow> set (L k) \<inter> set (L k') = {}) \<and>
     (\<forall>n. (\<forall>k. n \<notin> set (L k)) \<longrightarrow> nx (hp (Node n)) = None \<and> pv (hp (Node n)) = None)"

lemma lists_repD:
  assumes "lists_rep hp L"
  shows "ring hp (Head k) (map Node (L k))"
    and "distinct (L k)"
    and "n \<in> set (L k) \<Longrightarrow> n \<in> set (L k') \<Longrightarrow> k = k'"
    and "\<forall>k. n \<notin> set (L k) \<Longrightarrow> nx (hp (Node n)) = None \<and> pv (hp (Node n)) = None"
proof -
  show r: "ring hp (Head k) (map Node (L k))" using assms by (simp add: lists_rep_def)
  then show "distinct (L k)" by (simp add: ring_def distinct_map)
  show "n \<in> set (L k) \<Longrightarrow> n \<in> set (L k') \<Longrightarrow> k = k'"
    using assms unfolding lists_rep_def by blast
  show "\<forall>k. n \<notin> set (L k) \<Longrightarrow> nx (hp (Node n)) = None \<and> pv (hp (Node n)) = None"
    using assms by (simp add: lists_rep_def)
qed

text \<open>Replacing one list of the family: the others are framed by the untouched part of the heap.\<close>

lemma lists_rep_update:
  assumes rep: "lists_rep hp L"
    and r: "ring hp' (Head k) (map Node ys)"
    and fresh: "\<forall>j. j \<noteq> k \<longrightarrow> n \<notin> set (L j)"
    and sub: "set ys \<subseteq> insert n (set (L k))"
    and frame: "\<forall>x. x \<notin> set (Node n # Head k # map Node (L k)) \<longrightarrow> hp' x = hp x"
    and gone: "\<forall>m\<in>insert n (set (L k)) - set ys. nx (hp' (Node m)) = None \<and> pv (hp' (Node m)) = None"
  shows "lists_rep hp' (L(k := ys))"
  unfolding lists_rep_def
proof (intro conjI allI impI)
  fix j
  show "ring hp' (Head j) (map Node ((L(k := ys)) j))"
  proof (cases "j = k")
    case False
    have eq: "hp' x = hp x" if x: "x \<in> set (Head j # map Node (L j))" for x
    proof (cases x)
      case (Head i)
      then show ?thesis using x False frame by auto
    next
      case (Node m)
      then have "m \<in> set (L j)" using x by auto
      then have "m \<noteq> n" "m \<notin> set (L k)"
        using fresh False lists_repD(3) [OF rep, of m j k] by auto
      then show ?thesis using Node frame by auto
    qed
    have "ring hp' (Head j) (map Node (L j)) = ring hp (Head j) (map Node (L j))"
      by (intro ring_cong) (simp_all only: eq)
    then show ?thesis using False lists_repD(1) [OF rep] by simp
  qed (simp add: r)
next
  fix i j :: 'a assume "i \<noteq> j"
  then show "set ((L(k := ys)) i) \<inter> set ((L(k := ys)) j) = {}"
    using sub fresh lists_repD(3) [OF rep] by (auto split: if_splits; blast)
next
  fix m assume m: "\<forall>j. m \<notin> set ((L(k := ys)) j)"
  show "nx (hp' (Node m)) = None" "pv (hp' (Node m)) = None"
  proof (atomize (full), cases "m \<in> insert n (set (L k))")
    case True
    moreover have "m \<notin> set ys" using m by (metis fun_upd_same)
    ultimately have "m \<in> insert n (set (L k)) - set ys" by (rule DiffI)
    with gone show "nx (hp' (Node m)) = None \<and> pv (hp' (Node m)) = None" by (rule bspec)
  next
    case False
    then have "\<forall>j. m \<notin> set (L j)" using m by (metis fun_upd_other insertI2)
    moreover have "hp' (Node m) = hp (Node m)" using frame False by auto
    ultimately show "nx (hp' (Node m)) = None \<and> pv (hp' (Node m)) = None"
      using lists_repD(4) [OF rep] by simp
  qed
qed

lemma lists_rep_insert:
  assumes "lists_rep hp L" and "\<forall>j. n \<notin> set (L j)" and "set ys = insert n (set (L k))"
    and "wp m (\<lambda>hp'. ring hp' (Head k) (map Node ys) \<and>
               (\<forall>x. x \<notin> set (Node n # Head k # map Node (L k)) \<longrightarrow> hp' x = hp x))"
  shows "wp m (\<lambda>hp'. lists_rep hp' (L(k := ys)))"
  using assms(4)
proof (rule wp_mono)
  fix hp' assume "ring hp' (Head k) (map Node ys) \<and>
               (\<forall>x. x \<notin> set (Node n # Head k # map Node (L k)) \<longrightarrow> hp' x = hp x)"
  then show "lists_rep hp' (L(k := ys))"
    using assms(2,3) by (intro lists_rep_update [OF assms(1), where n = n]) auto
qed

lemma Node_fresh: "\<forall>j. n \<notin> set (L j) \<Longrightarrow> Node n \<notin> set (Head k # map Node (L k))"
  by auto

interpretation ptr: list_system lists_rep
  "\<lambda>k n. nd_list_insert_before (Head k) (Node n)" "\<lambda>k n. nd_list_insert_after (Head k) (Node n)"
  "\<lambda>p n. nd_list_insert_before (Node p) (Node n)" "\<lambda>n. nd_list_remove (Node n)"
  "\<lambda>k. nd_list_is_empty (Head k)" "\<lambda>n. nd_list_is_linked (Node n)"
proof unfold_locales
  fix h :: "('k, 'n) addr link_heap" and L :: "'k \<Rightarrow> 'n list" and k k' n
  assume rep: "lists_rep h L"
  note r = lists_repD(1) [OF rep]
  show "distinct (L k)" by (rule lists_repD(2) [OF rep])
  show "n \<in> set (L k) \<Longrightarrow> n \<in> set (L k') \<Longrightarrow> k = k'" by (rule lists_repD(3) [OF rep])
  show "nd_list_is_empty (Head k) h \<longleftrightarrow> L k = []" using ring_empty_iff [OF r] by simp
  show "wp (nd_list_insert_before (Head k) (Node n) h) (\<lambda>h'. lists_rep h' (L(k := L k @ [n])))"
    if f: "\<forall>j. n \<notin> set (L j)"
    using insert_before_mid [where ys = "[]", simplified, OF r, of "Node n"] Node_fresh [OF f]
    by (intro lists_rep_insert [OF rep f]) auto
  show "wp (nd_list_insert_after (Head k) (Node n) h) (\<lambda>h'. lists_rep h' (L(k := n # L k)))"
    if f: "\<forall>j. n \<notin> set (L j)"
    using insert_after_head [OF r, of "Node n"] Node_fresh [OF f]
    by (intro lists_rep_insert [OF rep f]) auto
  show "wp (nd_list_insert_before (Node p) (Node n) h) (\<lambda>h'. lists_rep h' (L(k := xs @ n # p # ys)))"
    if f: "\<forall>j. n \<notin> set (L j)" and L: "L k = xs @ p # ys" for xs p ys
  proof (rule lists_rep_insert [OF rep f])
    show "set (xs @ n # p # ys) = insert n (set (L k))" using L by auto
    have m: "map Node (L k) = map Node xs @ map Node (p # ys)" using L by simp
    have r': "ring h (Head k) (map Node xs @ map Node (p # ys))" using r [of k] unfolding m .
    have f': "Node n \<notin> set (Head k # map Node xs @ map Node (p # ys))"
      using Node_fresh [OF f, of k] unfolding m .
    show "wp (nd_list_insert_before (Node p) (Node n) h)
      (\<lambda>hp'. ring hp' (Head k) (map Node (xs @ n # p # ys)) \<and>
             (\<forall>x. x \<notin> set (Node n # Head k # map Node (L k)) \<longrightarrow> hp' x = h x))"
      using insert_before_mid [OF r' f', of "Node p"] unfolding m by (simp only: map_append list.map append.simps list.sel simp_thms)
  qed
  show "nd_list_remove (Node n) h = None" if f: "\<forall>j. n \<notin> set (L j)"
    using lists_repD(4) [OF rep f] by (simp add: nd_list_remove_def)
  show "nd_list_is_linked (Node n) h \<longleftrightarrow> (\<exists>k. n \<in> set (L k))"
  proof (cases "\<exists>k. n \<in> set (L k)")
    case True
    then obtain k xs ys where "L k = xs @ n # ys" by (metis split_list)
    then show ?thesis
      using True ring_neighbours(2) [of h "Head k" "map Node xs" "Node n" "map Node ys"] r [of k]
      by (simp add: nd_list_is_linked_def)
  next
    case False
    then show ?thesis using lists_repD(4) [OF rep, of n] by (auto simp: nd_list_is_linked_def)
  qed
  show "wp (nd_list_remove (Node n) h) (\<lambda>h'. lists_rep h' (L(k := remove1 n (L k))))"
    if n: "n \<in> set (L k)"
  proof -
    obtain xs ys where L: "L k = xs @ n # ys" using n by (metis split_list)
    have nxs: "n \<notin> set xs" "n \<notin> set ys" using lists_repD(2) [OF rep, of k] L by auto
    have o: "\<forall>j. j \<noteq> k \<longrightarrow> n \<notin> set (L j)" using lists_repD(3) [OF rep n] by blast
    have r1: "remove1 n (L k) = xs @ ys" using nxs L by (simp add: remove1_split)
    have "wp (nd_list_remove (Node n) h)
           (\<lambda>hp'. ring hp' (Head k) (map Node xs @ map Node ys) \<and> nx (hp' (Node n)) = None \<and>
                  pv (hp' (Node n)) = None \<and>
                  (\<forall>x. x \<notin> set (Head k # map Node xs @ Node n # map Node ys) \<longrightarrow> hp' x = h x))"
      using r [of k] L by (intro remove_mid) simp
    then show ?thesis
      by (rule wp_mono) (use L r1 o in \<open>auto intro!: lists_rep_update [OF rep, where n = n]\<close>)
  qed
qed

section \<open>Properties\<close>

text \<open>Waking up at the level of pointers. Unlinking a node with \<open>nd_list_remove\<close> and inserting it
  before another head moves it from its list to the tail of the other one; all rings stay closed
  and disjoint.\<close>

theorem relink_refines:
  assumes "lists_rep hp L" and "n \<in> set (L k)"
  shows "wp (do { h1 \<leftarrow> nd_list_remove (Node n) hp; nd_list_insert_before (Head k') (Node n) h1 })
           (\<lambda>hp'. lists_rep hp' (let M = L(k := remove1 n (L k)) in M(k' := M k' @ [n])))"
  by (rule ptr.move_tail [OF assms])

text \<open>Two heads, the first with the nodes 0 and 1 in its list.\<close>

definition two_lists :: "(bool, nat) addr link_heap" where
  "two_lists a =
     (case a of
        Head False \<Rightarrow> \<lparr>nx = Some (Node 0), pv = Some (Node 1)\<rparr>
      | Head True \<Rightarrow> \<lparr>nx = Some (Head True), pv = Some (Head True)\<rparr>
      | Node n \<Rightarrow>
          if n = 0 then \<lparr>nx = Some (Node 1), pv = Some (Head False)\<rparr>
          else if n = 1 then \<lparr>nx = Some (Head False), pv = Some (Node 0)\<rparr>
          else \<lparr>nx = None, pv = None\<rparr>)"

definition two_lists_seq :: "bool \<Rightarrow> nat list" where
  "two_lists_seq k = (if k then [] else [0, 1])"

lemma two_lists_ok: "lists_rep two_lists two_lists_seq"
proof -
  have "ring two_lists (Head k) (map Node (two_lists_seq k))" for k
    by (cases k) (simp_all add: ring_def two_lists_def two_lists_seq_def)
  then show ?thesis by (auto simp: lists_rep_def two_lists_seq_def two_lists_def split: if_splits)
qed

theorem relink_refines_witness:
  "wp (do { h1 \<leftarrow> nd_list_remove (Node 0) two_lists; nd_list_insert_before (Head True) (Node 0) h1 })
     (\<lambda>hp'. lists_rep hp' (two_lists_seq(False := [1], True := [0])))"
  using relink_refines [OF two_lists_ok, of 0 False True] by (simp add: two_lists_seq_def)

text \<open>C16: the search loop of \<open>nd_thread_wait_insert\<close> over the pointers ends and does a stable
  insertion by priority.\<close>

definition node_prio :: "('n \<Rightarrow> nat) \<Rightarrow> ('k, 'n) addr \<Rightarrow> nat" where
  "node_prio prio a = (case a of Node t \<Rightarrow> prio t | Head _ \<Rightarrow> 0)"

lemma map_insort_after: "map Node (insort_after prio n xs) = insort_after (node_prio prio) (Node n) (map Node xs)"
  by (simp add: insort_after_def takeWhile_map dropWhile_map comp_def node_prio_def)

theorem wait_insert_refines:
  assumes rep: "lists_rep hp L" and f: "\<forall>j. n \<notin> set (L j)"
  shows "wp (wait_insert_ptr (node_prio prio) (Head k) (Node n) hp)
           (\<lambda>hp'. lists_rep hp' (L(k := insort_after prio n (L k))))"
proof (rule lists_rep_insert [OF rep f])
  show "set (insort_after prio n (L k)) = insert n (set (L k))" by simp
  show "wp (wait_insert_ptr (node_prio prio) (Head k) (Node n) hp)
     (\<lambda>hp'. ring hp' (Head k) (map Node (insort_after prio n (L k))) \<and>
            (\<forall>x. x \<notin> set (Node n # Head k # map Node (L k)) \<longrightarrow> hp' x = hp x))"
    unfolding map_insort_after by (rule wait_insert_ptr_ring [OF lists_repD(1) [OF rep] Node_fresh [OF f]])
qed

theorem wait_insert_refines_witness:
  "wp (wait_insert_ptr (node_prio (\<lambda>t. if t = 1 then 9 else 4)) (Head False) (Node 2) two_lists)
     (\<lambda>hp'. lists_rep hp' (two_lists_seq(False := [0, 2, 1])))"
  using wait_insert_refines [OF two_lists_ok, of 2 "\<lambda>t. if t = 1 then 9 else 4" False]
  by (simp add: two_lists_seq_def insort_after_def)

end
