(* ===== verification/Nd_State.thy ===== *)
theory Nd_State
  imports Nd_List
begin

text \<open>
  The kernel's data: the structures of \<^verbatim>\<open>include/nd_thread.h\<close>, \<^verbatim>\<open>include/nd_timer.h\<close>,
  \<^verbatim>\<open>include/nd_ipc.h\<close> and \<^verbatim>\<open>include/nd_mem.h\<close> and the globals of \<^verbatim>\<open>kernel/nd_scheduler.c\<close>,
  \<^verbatim>\<open>kernel/nd_thread.c\<close> and \<^verbatim>\<open>kernel/nd_timer.c\<close>, as one record \<open>kstate\<close>. Thread control blocks,
  timers and IPC objects are named by numbers (their addresses in the C program).

  The \<open>qnode\<close> member of a thread is in at most one list at a time; \<open>qlists\<close> holds the lists by
  head and \<open>qhome\<close> says which list a node is linked in (\<open>None\<close>: both its links are null). The
  operations below are the uses the kernel makes of \<^verbatim>\<open>nd_list.h\<close>; the interpretation at the end
  shows that they keep the contract that the pointer code of \<open>Nd_List\<close> keeps.
\<close>

section \<open>Data types\<close>

type_synonym tid = nat

datatype nd_thread_stat =
    ND_THREAD_STAT_INIT | ND_THREAD_STAT_READY | ND_THREAD_STAT_RUNNING
  | ND_THREAD_STAT_BLOCK | ND_THREAD_STAT_SUSPEND | ND_THREAD_STAT_DEAD

datatype nd_event_opt = ND_EVENT_AND | ND_EVENT_OR

datatype nd_timer_type = ND_TIMER_TYPE_ONE_SHOT | ND_TIMER_TYPE_PERIODIC

definition ND_THREAD_OPT_ESSENTIAL :: u32 where
  "ND_THREAD_OPT_ESSENTIAL = 1"

text \<open>The heads of the lists that thread nodes can be in.\<close>

datatype list_head =
    ReadyList nat | JoinList tid | SemWait nat | MutexWait nat | EventWait nat
  | SendWait nat | ReadWait nat | PoolWait nat

text \<open>The timers of the system: the two embedded in each thread, and the application's own.\<close>

datatype timer_ref = ThreadTimer tid | SliceTimer tid | UserTimer nat

text \<open>Callback addresses: \<open>thread_timer_callback\<close>, \<open>nd_thread_pend_timeout\<close>,
  \<open>nd_thread_slice_timeout\<close>, or a function of the application.\<close>

datatype timer_callback = CB_delay | CB_pend | CB_slice | CB_user nat

record nd_timer =
  timer_name :: string
  timer_type :: nd_timer_type
  timeout :: u64
  callback :: "timer_callback option"
  arg :: "nat option"
  expire_time :: u64
  node_empty :: bool \<comment> \<open>\<^verbatim>\<open>RB_EMPTY_NODE(&timer->node)\<close>\<close>

record nd_thread =
  sp :: u32
  entry :: u32
  parameter :: u32
  stack_addr :: u32
  stack_size :: u32
  priority :: nat
  init_priority :: nat
  yield :: bool
  error :: nd_err
  stat :: nd_thread_stat
  options :: u32
  time_slice :: u64
  slice_left :: u64
  slice_start :: u64
  event_set :: u32
  event_opt :: nd_event_opt
  name :: string

record nd_sem =
  sem_val :: int

record nd_mutex =
  mutex_priority :: nat
  owner :: "tid option"
  owner_home :: "tid option" \<comment> \<open>the thread whose \<open>taken_list\<close> the node \<open>owner_list\<close> is in\<close>

record nd_event =
  event_flags :: u64

record nd_queue =
  buf :: "u8 list"
  msg_size :: u32
  max_msgs :: u32
  used_msg :: u32
  read_ptr :: u32
  write_ptr :: u32

record nd_mempool =
  start :: u32
  block_size :: u32
  block_count :: u32
  free_count :: u32
  free_list :: u32
  pool_mem :: "u32 \<Rightarrow> u8"

text \<open>
  What the HAL's one-shot timer (\<^verbatim>\<open>nd_hw_hrtimer_*\<close>) was last told: nothing pending, an absolute
  expiry, or an immediate interrupt.
\<close>

datatype hrtimer = HrCleared | HrAt u64 | HrTriggered

text \<open>
  How a port switches context: the Cortex-M ports set PendSV pending (it runs when the kernel
  lock is released), the Cortex-A9 and RISC-V ports switch inside \<open>nd_hw_do_switch\<close>.
\<close>

datatype switch_kind = SwitchDeferred | SwitchImmediate

record kstate =
  port :: switch_kind
  hw_stack_init :: "u32 \<Rightarrow> u32 \<Rightarrow> u32 \<Rightarrow> u32" \<comment> \<open>the port's stack pointer for a new thread\<close>
  tickless :: bool \<comment> \<open>\<^verbatim>\<open>ND_CFG_TICKLESS\<close>\<close>
  nd_current_thread :: "tid option"
  nd_next_thread :: "tid option"
  nd_interrupt_nest_count :: u32
  nd_interrupt_try_switch :: bool
  pendsv :: bool
  k_thread_ready_bit :: u32
  qlists :: "list_head \<Rightarrow> tid list"
  qhome :: "tid \<Rightarrow> list_head option"
  threads :: "tid \<Rightarrow> nd_thread"
  nd_thread_list :: "tid list"
  taken_list :: "tid \<Rightarrow> nat list"
  timers :: "timer_ref \<Rightarrow> nd_timer"
  rbtree :: "timer_ref list" \<comment> \<open>the in-order sequence of the timer tree\<close>
  now :: u64
  hr :: hrtimer
  sems :: "nat \<Rightarrow> nd_sem"
  mutexes :: "nat \<Rightarrow> nd_mutex"
  events :: "nat \<Rightarrow> nd_event"
  queues :: "nat \<Rightarrow> nd_queue"
  pools :: "nat \<Rightarrow> nd_mempool"

section \<open>Field updates\<close>

text \<open>\<open>upd_thread f t s\<close>: assignments to members of thread \<open>t\<close>; the same for the other objects.\<close>

definition upd_thread :: "(nd_thread \<Rightarrow> nd_thread) \<Rightarrow> tid \<Rightarrow> kstate \<Rightarrow> kstate" where
  "upd_thread f t s = s\<lparr>threads := (threads s)(t := f (threads s t))\<rparr>"

definition upd_timer :: "(nd_timer \<Rightarrow> nd_timer) \<Rightarrow> timer_ref \<Rightarrow> kstate \<Rightarrow> kstate" where
  "upd_timer f r s = s\<lparr>timers := (timers s)(r := f (timers s r))\<rparr>"

definition upd_sem :: "(nd_sem \<Rightarrow> nd_sem) \<Rightarrow> nat \<Rightarrow> kstate \<Rightarrow> kstate" where
  "upd_sem f i s = s\<lparr>sems := (sems s)(i := f (sems s i))\<rparr>"

definition upd_mutex :: "(nd_mutex \<Rightarrow> nd_mutex) \<Rightarrow> nat \<Rightarrow> kstate \<Rightarrow> kstate" where
  "upd_mutex f i s = s\<lparr>mutexes := (mutexes s)(i := f (mutexes s i))\<rparr>"

definition upd_event :: "(nd_event \<Rightarrow> nd_event) \<Rightarrow> nat \<Rightarrow> kstate \<Rightarrow> kstate" where
  "upd_event f i s = s\<lparr>events := (events s)(i := f (events s i))\<rparr>"

definition upd_queue :: "(nd_queue \<Rightarrow> nd_queue) \<Rightarrow> nat \<Rightarrow> kstate \<Rightarrow> kstate" where
  "upd_queue f i s = s\<lparr>queues := (queues s)(i := f (queues s i))\<rparr>"

definition upd_pool :: "(nd_mempool \<Rightarrow> nd_mempool) \<Rightarrow> nat \<Rightarrow> kstate \<Rightarrow> kstate" where
  "upd_pool f i s = s\<lparr>pools := (pools s)(i := f (pools s i))\<rparr>"

lemmas upd_defs =
  upd_thread_def upd_timer_def upd_sem_def upd_mutex_def upd_event_def upd_queue_def upd_pool_def

section \<open>List operations on thread nodes\<close>

text \<open>Inserting a node that is already linked, or unlinking one that is not, is a fault.\<close>

definition q_insert_tail :: "list_head \<Rightarrow> tid \<Rightarrow> kstate \<Rightarrow> kstate option" where
  "q_insert_tail k t s = do {
     assert_ok (qhome s t = None);
     Some (s\<lparr>qlists := (qlists s)(k := qlists s k @ [t]), qhome := (qhome s)(t := Some k)\<rparr>)
   }"

definition q_insert_head :: "list_head \<Rightarrow> tid \<Rightarrow> kstate \<Rightarrow> kstate option" where
  "q_insert_head k t s = do {
     assert_ok (qhome s t = None);
     Some (s\<lparr>qlists := (qlists s)(k := t # qlists s k), qhome := (qhome s)(t := Some k)\<rparr>)
   }"

definition q_insert_before :: "tid \<Rightarrow> tid \<Rightarrow> kstate \<Rightarrow> kstate option" where
  "q_insert_before pos t s = do {
     assert_ok (qhome s t = None);
     k \<leftarrow> qhome s pos;
     Some (s\<lparr>qlists := (qlists s)(k := takeWhile (\<lambda>x. x \<noteq> pos) (qlists s k) @ t #
                                       dropWhile (\<lambda>x. x \<noteq> pos) (qlists s k)),
              qhome := (qhome s)(t := Some k)\<rparr>)
   }"

definition q_remove :: "tid \<Rightarrow> kstate \<Rightarrow> kstate option" where
  "q_remove t s = do {
     k \<leftarrow> qhome s t;
     Some (s\<lparr>qlists := (qlists s)(k := remove1 t (qlists s k)), qhome := (qhome s)(t := None)\<rparr>)
   }"

definition q_is_empty :: "list_head \<Rightarrow> kstate \<Rightarrow> bool" where
  "q_is_empty k s = (qlists s k = [])"

definition q_is_linked :: "tid \<Rightarrow> kstate \<Rightarrow> bool" where
  "q_is_linked t s = (qhome s t \<noteq> None)"

text \<open>\<^verbatim>\<open>nd_list_entry(head->next, ...)\<close>: a fault on an empty list, whose \<open>next\<close> is the head itself.\<close>

definition q_first :: "list_head \<Rightarrow> kstate \<Rightarrow> tid option" where
  "q_first k s = (case qlists s k of [] \<Rightarrow> None | t # _ \<Rightarrow> Some t)"

text \<open>\<^verbatim>\<open>nd_list_init\<close> of a head: a fault when nodes are still linked to it.\<close>

definition q_init :: "list_head \<Rightarrow> kstate \<Rightarrow> kstate option" where
  "q_init k s = do {
     assert_ok (qlists s k = []);
     Some (s\<lparr>qlists := (qlists s)(k := [])\<rparr>)
   }"

section \<open>The lists are well formed\<close>

definition lists_ok :: "kstate \<Rightarrow> bool" where
  "lists_ok s \<longleftrightarrow> (\<forall>t k. t \<in> set (qlists s k) \<longleftrightarrow> qhome s t = Some k) \<and> (\<forall>k. distinct (qlists s k))"

lemma lists_okD:
  assumes "lists_ok s"
  shows "t \<in> set (qlists s k) \<longleftrightarrow> qhome s t = Some k" and "distinct (qlists s k)"
  using assms by (simp_all add: lists_ok_def)

text \<open>The kernel-level lists keep the same contract as the pointer code.\<close>

definition krep :: "kstate \<Rightarrow> (list_head \<Rightarrow> tid list) \<Rightarrow> bool" where
  "krep s L \<longleftrightarrow> lists_ok s \<and> qlists s = L"

interpretation kq: list_system krep q_insert_tail q_insert_head q_insert_before q_remove
  q_is_empty q_is_linked
proof unfold_locales
  fix h L k k' and n p :: tid and xs ys
  assume rep: "krep h L"
  then have ok: "lists_ok h" and L: "L = qlists h" by (auto simp: krep_def)
  note D = lists_okD [OF ok]
  have home: "qhome h n = None" if "\<forall>j. n \<notin> set (L j)" using that D(1) L by (metis option.exhaust)
  show "distinct (L k)" using D(2) L by simp
  show "n \<in> set (L k) \<Longrightarrow> n \<in> set (L k') \<Longrightarrow> k = k'" using D(1) L by simp
  show "q_is_empty k h \<longleftrightarrow> L k = []" using L by (simp add: q_is_empty_def)
  show "q_is_linked n h \<longleftrightarrow> (\<exists>k. n \<in> set (L k))" using D(1) L by (auto simp: q_is_linked_def)
  show "q_remove n h = None" if "\<forall>j. n \<notin> set (L j)" using home [OF that] by (simp add: q_remove_def)
  show "wp (q_insert_tail k n h) (\<lambda>h'. krep h' (L(k := L k @ [n])))" if "\<forall>j. n \<notin> set (L j)"
    using home [OF that] D that L by (auto simp: q_insert_tail_def krep_def lists_ok_def)
  show "wp (q_insert_head k n h) (\<lambda>h'. krep h' (L(k := n # L k)))" if "\<forall>j. n \<notin> set (L j)"
    using home [OF that] D that L by (auto simp: q_insert_head_def krep_def lists_ok_def)
  show "wp (q_remove n h) (\<lambda>h'. krep h' (L(k := remove1 n (L k))))" if "n \<in> set (L k)"
    using D that L by (auto simp: q_remove_def krep_def lists_ok_def)
  show "wp (q_insert_before p n h) (\<lambda>h'. krep h' (L(k := xs @ n # p # ys)))"
    if f: "\<forall>j. n \<notin> set (L j)" and "L k = xs @ p # ys"
  proof -
    have q: "qlists h k = xs @ p # ys" using that(2) L by simp
    have p: "p \<notin> set xs" "qhome h p = Some k" using D(2) [of k] D(1) [of p k] q by auto
    note tw = takeWhile_neq_split [OF p(1), of ys] dropWhile_neq_split [OF p(1), of ys]
    have lists: "qlists h = L" using L by simp
    have a: "qhome h t = Some k \<longleftrightarrow> t \<in> set xs \<or> t = p \<or> t \<in> set ys" for t
      using D(1) [of t k] q by auto
    have b: "distinct (xs @ p # ys)" using D(2) [of k] q by simp
    have c: "n \<notin> set xs" "n \<notin> set ys" "n \<noteq> p" using a [of n] home [OF f] by auto
    show ?thesis
      using home [OF f] D that(2) b c unfolding lists q_insert_before_def krep_def lists_ok_def p(2)
      by (auto simp: tw lists a split: if_splits)
  qed
qed

end
