(* ===== verification/Nd_Timer.thy ===== *)
theory Nd_Timer
  imports Nd_State
begin

text \<open>
  \<^verbatim>\<open>kernel/nd_timer.c\<close>, up to the expiry loop (which runs the callbacks and is in \<open>Nd_Expiry\<close>):
  initialising, starting and stopping a timer. The timer tree is its in-order sequence
  \<open>rbtree\<close>, ordered by \<open>expire_time\<close>; a timer goes after all the timers that expire no later,
  which is where the descent of \<open>timer_node_insert\<close> (left only on a strictly greater key) links it.
\<close>

section \<open>Definitions\<close>

abbreviation U64_MAX :: u64 where
  "U64_MAX \<equiv> - 1"

definition ND_NAME_MAX_SIZE :: nat where
  "ND_NAME_MAX_SIZE = 16"

definition nd_hw_get_current :: "kstate \<Rightarrow> u64" where
  "nd_hw_get_current s = now s"

definition nd_hw_hrtimer_set_expire :: "u64 \<Rightarrow> kstate \<Rightarrow> kstate" where
  "nd_hw_hrtimer_set_expire e s = s\<lparr>hr := HrAt e\<rparr>"

definition nd_hw_hrtimer_trigger :: "kstate \<Rightarrow> kstate" where
  "nd_hw_hrtimer_trigger s = s\<lparr>hr := HrTriggered\<rparr>"

definition nd_hw_hrtimer_trigger_clear :: "kstate \<Rightarrow> kstate" where
  "nd_hw_hrtimer_trigger_clear s = s\<lparr>hr := HrCleared\<rparr>"

definition get_leftmost_timer :: "kstate \<Rightarrow> timer_ref option" where
  "get_leftmost_timer s = (case rbtree s of [] \<Rightarrow> None | r # _ \<Rightarrow> Some r)"

definition timer_node_insert :: "timer_ref \<Rightarrow> kstate \<Rightarrow> kstate option" where
  "timer_node_insert r s = do {
     assert_ok (r \<notin> set (rbtree s));
     Some (upd_timer (node_empty_update (\<lambda>_. False)) r
            (s\<lparr>rbtree := insort_after (\<lambda>x. expire_time (timers s x)) r (rbtree s)\<rparr>))
   }"

text \<open>\<^verbatim>\<open>rb_erase\<close> and \<^verbatim>\<open>RB_CLEAR_NODE\<close>: erasing a node that is not in the tree is a fault.\<close>

definition timer_node_erase :: "timer_ref \<Rightarrow> kstate \<Rightarrow> kstate option" where
  "timer_node_erase r s = do {
     assert_ok (r \<in> set (rbtree s));
     Some (upd_timer (node_empty_update (\<lambda>_. True)) r (s\<lparr>rbtree := remove1 r (rbtree s)\<rparr>))
   }"

text \<open>The absolute deadline of tickless mode: a far timeout never wraps.\<close>

definition deadline :: "u64 \<Rightarrow> u64 \<Rightarrow> u64" where
  "deadline tmo t0 = (if tmo \<ge> U64_MAX div 2 then U64_MAX else tmo + t0)"

definition timer_insert :: "timer_ref \<Rightarrow> kstate \<Rightarrow> kstate option" where
  "timer_insert r s =
     (if tickless s then do {
        let t0 = nd_hw_get_current s;
        let s1 = upd_timer (\<lambda>t. t\<lparr>expire_time := deadline (timeout t) t0\<rparr>) r s;
        s2 \<leftarrow> timer_node_insert r s1;
        (case get_leftmost_timer s2 of
           None \<Rightarrow> Some s2
         | Some l \<Rightarrow>
             (let s3 = (if l = r then nd_hw_hrtimer_set_expire (expire_time (timers s2 l)) s2 else s2)
              in Some (if t0 \<ge> expire_time (timers s3 l) then nd_hw_hrtimer_trigger s3 else s3)))
      }
      else timer_node_insert r s)"

definition timer_remove :: "timer_ref \<Rightarrow> kstate \<Rightarrow> kstate option" where
  "timer_remove r s =
     (if node_empty (timers s r) then Some s
      else if tickless s then
        (let leftmost = get_leftmost_timer s in
         if leftmost = Some r then do {
           s1 \<leftarrow> timer_node_erase r s;
           (case get_leftmost_timer s1 of
              None \<Rightarrow> Some (nd_hw_hrtimer_trigger_clear s1)
            | Some l \<Rightarrow>
                (let s2 = nd_hw_hrtimer_set_expire (expire_time (timers s1 l)) s1 in
                 Some (if nd_hw_get_current s2 \<ge> expire_time (timers s2 l)
                       then nd_hw_hrtimer_trigger s2 else s2)))
         }
         else do {
           s1 \<leftarrow> timer_node_erase r s;
           l \<leftarrow> leftmost;
           Some (if nd_hw_get_current s1 \<ge> expire_time (timers s1 l)
                 then nd_hw_hrtimer_trigger s1 else s1)
         })
      else timer_node_erase r s)"

definition nd_timer_init ::
  "timer_ref option \<Rightarrow> string option \<Rightarrow> nd_timer_type \<Rightarrow> u64 \<Rightarrow> timer_callback option \<Rightarrow>
   nat option \<Rightarrow> kstate \<Rightarrow> (nd_err \<times> kstate) option" where
  "nd_timer_init timer nm type tmo cb a s =
     (case timer of
        None \<Rightarrow> Some (ND_EINVAL, s)
      | Some r \<Rightarrow>
          if cb = None then Some (ND_EINVAL, s)
          else if tmo = 0 then Some (ND_EINVAL, s)
          else do {
            assert_ok (r \<notin> set (rbtree s));
            Some (ND_EOK, upd_timer (\<lambda>t. t\<lparr>
              timer_name := (case nm of None \<Rightarrow> [] | Some n \<Rightarrow> take (ND_NAME_MAX_SIZE - 1) n),
              timer_type := type, timeout := tmo, callback := cb, arg := a, node_empty := True\<rparr>) r s)
          })"

definition nd_timer_start :: "timer_ref option \<Rightarrow> kstate \<Rightarrow> (nd_err \<times> kstate) option" where
  "nd_timer_start timer s =
     (case timer of
        None \<Rightarrow> Some (ND_EINVAL, s)
      | Some r \<Rightarrow>
          if callback (timers s r) = None then Some (ND_EINVAL, s)
          else do {
            s1 \<leftarrow> (if \<not> node_empty (timers s r) then timer_remove r s else Some s);
            let s2 = (if tickless s1 then s1
                      else upd_timer (\<lambda>t. t\<lparr>expire_time := nd_hw_get_current s1 + timeout t\<rparr>) r s1);
            s3 \<leftarrow> timer_insert r s2;
            Some (ND_EOK, s3)
          })"

definition nd_timer_stop :: "timer_ref option \<Rightarrow> kstate \<Rightarrow> (nd_err \<times> kstate) option" where
  "nd_timer_stop timer s =
     (case timer of
        None \<Rightarrow> Some (ND_EINVAL, s)
      | Some r \<Rightarrow> do { s1 \<leftarrow> timer_remove r s; Some (ND_EOK, s1) })"

text \<open>A call whose result the caller ignores.\<close>

definition timer_start :: "timer_ref \<Rightarrow> kstate \<Rightarrow> kstate option" where
  "timer_start r s = map_option snd (nd_timer_start (Some r) s)"

definition timer_stop :: "timer_ref \<Rightarrow> kstate \<Rightarrow> kstate option" where
  "timer_stop r s = map_option snd (nd_timer_stop (Some r) s)"

section \<open>The invariant of the timer queue\<close>

definition timers_ok :: "kstate \<Rightarrow> bool" where
  "timers_ok s \<longleftrightarrow>
     distinct (rbtree s) \<and> sorted (map (\<lambda>r. expire_time (timers s r)) (rbtree s)) \<and>
     (\<forall>r. node_empty (timers s r) \<longleftrightarrow> r \<notin> set (rbtree s))"

text \<open>What the timer operations may change: the queue, the timer \<open>r\<close> itself and the hardware timer.\<close>

definition untimed :: "kstate \<Rightarrow> kstate" where
  "untimed s = s\<lparr>rbtree := [], timers := (\<lambda>_. undefined), hr := HrCleared\<rparr>"

definition timer_frame :: "timer_ref \<Rightarrow> kstate \<Rightarrow> kstate \<Rightarrow> bool" where
  "timer_frame r s s' \<longleftrightarrow>
     untimed s' = untimed s \<and> (\<forall>x. x \<noteq> r \<longrightarrow> timers s' x = timers s x) \<and>
     callback (timers s' r) = callback (timers s r) \<and> arg (timers s' r) = arg (timers s r) \<and>
     timer_type (timers s' r) = timer_type (timers s r) \<and>
     timeout (timers s' r) = timeout (timers s r)"

lemma untimed_eqD:
  assumes "untimed s' = untimed s"
  shows "port s' = port s"
    "hw_stack_init s' = hw_stack_init s"
    "tickless s' = tickless s"
    "nd_current_thread s' = nd_current_thread s"
    "nd_next_thread s' = nd_next_thread s"
    "nd_interrupt_nest_count s' = nd_interrupt_nest_count s"
    "nd_interrupt_try_switch s' = nd_interrupt_try_switch s"
    "pendsv s' = pendsv s"
    "k_thread_ready_bit s' = k_thread_ready_bit s"
    "qlists s' = qlists s"
    "qhome s' = qhome s"
    "threads s' = threads s"
    "nd_thread_list s' = nd_thread_list s"
    "taken_list s' = taken_list s"
    "now s' = now s"
    "sems s' = sems s"
    "mutexes s' = mutexes s"
    "events s' = events s"
    "queues s' = queues s"
    "pools s' = pools s"
  using arg_cong [OF assms, of port]
    arg_cong [OF assms, of hw_stack_init]
    arg_cong [OF assms, of tickless]
    arg_cong [OF assms, of nd_current_thread]
    arg_cong [OF assms, of nd_next_thread]
    arg_cong [OF assms, of nd_interrupt_nest_count]
    arg_cong [OF assms, of nd_interrupt_try_switch]
    arg_cong [OF assms, of pendsv]
    arg_cong [OF assms, of k_thread_ready_bit]
    arg_cong [OF assms, of qlists]
    arg_cong [OF assms, of qhome]
    arg_cong [OF assms, of threads]
    arg_cong [OF assms, of nd_thread_list]
    arg_cong [OF assms, of taken_list]
    arg_cong [OF assms, of now]
    arg_cong [OF assms, of sems]
    arg_cong [OF assms, of mutexes]
    arg_cong [OF assms, of events]
    arg_cong [OF assms, of queues]
    arg_cong [OF assms, of pools]
  by (simp_all add: untimed_def)

lemma untimed_hr [simp]: "untimed (s\<lparr>hr := h\<rparr>) = untimed s"
  by (simp add: untimed_def)

lemma untimed_rbtree [simp]: "untimed (s\<lparr>rbtree := q\<rparr>) = untimed s"
  by (simp add: untimed_def)

lemma untimed_upd_timer [simp]: "untimed (upd_timer f r s) = untimed s"
  by (simp add: untimed_def upd_timer_def)

lemma timer_frame_refl: "timer_frame r s s"
  by (simp add: timer_frame_def)

lemma timer_frame_trans: "timer_frame r s s1 \<Longrightarrow> timer_frame r s1 s2 \<Longrightarrow> timer_frame r s s2"
  by (simp add: timer_frame_def)

text \<open>In tickless mode the hardware timer is set for the earliest deadline, or has been triggered.\<close>

definition hr_ok :: "kstate \<Rightarrow> bool" where
  "hr_ok s \<longleftrightarrow> (tickless s \<longrightarrow>
     (case rbtree s of [] \<Rightarrow> True | r # _ \<Rightarrow> hr s = HrTriggered \<or> hr s = HrAt (expire_time (timers s r))))"

lemma timers_okD:
  assumes "timers_ok s"
  shows "distinct (rbtree s)" "sorted (map (\<lambda>r. expire_time (timers s r)) (rbtree s))"
    "node_empty (timers s r) \<longleftrightarrow> r \<notin> set (rbtree s)"
  using assms by (auto simp: timers_ok_def)

lemma timer_node_insert_ok:
  assumes "timers_ok s" and "r \<notin> set (rbtree s)" and "s1 = upd_timer (expire_time_update (\<lambda>_. e)) r s"
  shows "wp (timer_node_insert r s1) (\<lambda>s'. timers_ok s' \<and> timer_frame r s s' \<and>
           rbtree s' = insort_after (\<lambda>x. expire_time (timers s' x)) r (rbtree s) \<and>
           expire_time (timers s' r) = e \<and> hr s' = hr s)"
proof -
  let ?f = "\<lambda>x. expire_time (timers s1 x)"
  let ?s' = "upd_timer (node_empty_update (\<lambda>_. False)) r (s1\<lparr>rbtree := insort_after ?f r (rbtree s)\<rparr>)"
  have f: "(\<lambda>x. expire_time (timers ?s' x)) = ?f" by (auto simp: upd_timer_def)
  have m: "map ?f (rbtree s) = map (\<lambda>x. expire_time (timers s x)) (rbtree s)"
    using assms(2,3) by (auto simp: upd_timer_def)
  then have "sorted (map ?f (insort_after ?f r (rbtree s)))"
    using timers_okD(2) [OF assms(1)] by (intro sorted_insort_after) (simp only:)
  then have "timers_ok ?s'"
    using timers_okD [OF assms(1)] assms(2,3) unfolding timers_ok_def f
    by (auto simp: upd_timer_def)
  moreover have "timer_frame r s ?s'"
    using assms(3) by (simp add: timer_frame_def) (simp add: upd_timer_def)
  moreover have "timer_node_insert r s1 = Some ?s'"
    using assms(2,3) by (simp add: timer_node_insert_def upd_timer_def)
  moreover have "rbtree ?s' = insort_after (\<lambda>x. expire_time (timers ?s' x)) r (rbtree s)"
    unfolding f by (simp add: upd_timer_def)
  moreover have "expire_time (timers ?s' r) = e" "hr ?s' = hr s" using assms(3) by (auto simp: upd_timer_def)
  ultimately show ?thesis by simp
qed

lemma timer_node_erase_ok:
  assumes "timers_ok s" and "r \<in> set (rbtree s)"
  shows "wp (timer_node_erase r s) (\<lambda>s'. timers_ok s' \<and> timer_frame r s s' \<and>
           rbtree s' = remove1 r (rbtree s) \<and> hr s' = hr s \<and>
           (\<forall>x. expire_time (timers s' x) = expire_time (timers s x)))"
proof -
  let ?s' = "upd_timer (node_empty_update (\<lambda>_. True)) r (s\<lparr>rbtree := remove1 r (rbtree s)\<rparr>)"
  have f: "(\<lambda>x. expire_time (timers ?s' x)) = (\<lambda>x. expire_time (timers s x))" by (auto simp: upd_timer_def)
  have "timers_ok ?s'"
    using timers_okD [OF assms(1)] assms(2) sorted_remove1_map unfolding timers_ok_def f
    by (auto simp: upd_timer_def)
  moreover have "timer_frame r s ?s'"
    by (simp add: timer_frame_def) (simp add: upd_timer_def)
  ultimately show ?thesis using assms(2) by (simp add: timer_node_erase_def upd_timer_def)
qed


lemma get_leftmost_None [simp]: "get_leftmost_timer s = None \<longleftrightarrow> rbtree s = []"
  by (simp add: get_leftmost_timer_def split: list.splits)

lemma get_leftmost_Some: "get_leftmost_timer s = Some l \<longleftrightarrow> (\<exists>q. rbtree s = l # q)"
  by (auto simp: get_leftmost_timer_def split: list.splits)

text \<open>The leftmost timer is the one with the earliest deadline.\<close>

lemma leftmost_least:
  assumes "timers_ok s" and "get_leftmost_timer s = Some l" and "r \<in> set (rbtree s)"
  shows "expire_time (timers s l) \<le> expire_time (timers s r)"
  using timers_okD(2) [OF assms(1)] assms(2,3) by (auto simp: get_leftmost_Some)

lemma timer_frame_hr: "timer_frame r s s' \<Longrightarrow> timer_frame r s (s'\<lparr>hr := h\<rparr>)"
  by (simp add: timer_frame_def)

lemma timers_ok_hr [simp]: "timers_ok (s\<lparr>hr := h\<rparr>) = timers_ok s"
  by (simp add: timers_ok_def)

lemma hr_ok_programmed:
  "get_leftmost_timer s = Some l \<Longrightarrow> hr_ok (nd_hw_hrtimer_set_expire (expire_time (timers s l)) s)"
  by (auto simp: hr_ok_def nd_hw_hrtimer_set_expire_def get_leftmost_Some)

lemma hr_ok_triggered [simp]: "hr_ok (nd_hw_hrtimer_trigger s)"
  by (auto simp: hr_ok_def nd_hw_hrtimer_trigger_def split: list.splits)

lemma hr_ok_empty: "rbtree s = [] \<Longrightarrow> hr_ok s"
  by (simp add: hr_ok_def)

lemmas hr_defs = nd_hw_hrtimer_set_expire_def nd_hw_hrtimer_trigger_def nd_hw_hrtimer_trigger_clear_def

lemma timer_insert_ok:
  assumes "timers_ok s" and "r \<notin> set (rbtree s)"
  shows "wp (timer_insert r s) (\<lambda>s'. timers_ok s' \<and> timer_frame r s s' \<and>
           rbtree s' = insort_after (\<lambda>x. expire_time (timers s' x)) r (rbtree s) \<and>
           expire_time (timers s' r) =
             (if tickless s then deadline (timeout (timers s r)) (now s) else expire_time (timers s r)) \<and>
           (hr_ok s \<longrightarrow> hr_ok s'))"
proof (cases "tickless s")
  case False
  have s: "s = upd_timer (expire_time_update (\<lambda>_. expire_time (timers s r))) r s"
    by (simp add: upd_timer_def)
  have "wp (timer_node_insert r s) (\<lambda>s'. timers_ok s' \<and> timer_frame r s s' \<and>
           rbtree s' = insort_after (\<lambda>x. expire_time (timers s' x)) r (rbtree s) \<and>
           expire_time (timers s' r) = expire_time (timers s r) \<and> hr s' = hr s)"
    by (rule timer_node_insert_ok [OF assms s])
  then show ?thesis
    unfolding timer_insert_def using False
    by (auto elim!: wp_mono simp: hr_ok_def timer_frame_def dest: untimed_eqD(3))
next
  case True
  define e where "e = deadline (timeout (timers s r)) (now s)"
  define s1 where "s1 = upd_timer (\<lambda>t. t\<lparr>expire_time := deadline (timeout t) (now s)\<rparr>) r s"
  have s1: "s1 = upd_timer (expire_time_update (\<lambda>_. e)) r s"
    by (simp add: s1_def e_def upd_timer_def)
  obtain s2 where ins: "timer_node_insert r s1 = Some s2" and ok: "timers_ok s2"
    and fr: "timer_frame r s s2" and tree: "rbtree s2 = insort_after (\<lambda>x. expire_time (timers s2 x)) r (rbtree s)"
    and ex: "expire_time (timers s2 r) = e" and hrs: "hr s2 = hr s"
    using timer_node_insert_ok [OF assms s1] unfolding wp_iff by blast
  obtain l q where l: "rbtree s2 = l # q" by (metis tree insort_after_neq_Nil neq_Nil_conv)
  define s3 where "s3 = (if l = r then nd_hw_hrtimer_set_expire (expire_time (timers s2 l)) s2 else s2)"
  define s4 where "s4 = (if now s \<ge> expire_time (timers s3 l) then nd_hw_hrtimer_trigger s3 else s3)"
  have res: "timer_insert r s = Some s4"
    unfolding timer_insert_def using True ins l
    by (simp add: s1_def [symmetric] nd_hw_get_current_def get_leftmost_timer_def s3_def s4_def Let_def)
  have h4: "\<exists>h. s4 = s2\<lparr>hr := h\<rparr>"
    by (auto simp: s4_def s3_def hr_defs intro: exI [of _ "hr s2"])
  have hrok: "hr_ok s4" if "hr_ok s"
  proof (cases "now s \<ge> expire_time (timers s3 l)")
    case False
    show ?thesis
    proof (cases "l = r")
      case True
      with False l show ?thesis by (auto simp: s4_def s3_def hr_ok_def hr_defs)
    next
      case False2: False
      then obtain q' where "rbtree s = l # q'"
        using l tree by (cases "rbtree s") (auto simp: insort_after_Cons split: if_splits)
      with that True False2 l hrs fr False show ?thesis
        by (auto simp: s4_def s3_def hr_ok_def timer_frame_def)
    qed
  qed (simp add: s4_def)
  obtain h where h: "s4 = s2\<lparr>hr := h\<rparr>" using h4 by blast
  have e: "expire_time (timers s4 r) = deadline (timeout (timers s r)) (now s)"
    using ex by (simp add: h e_def)
  have "timers_ok s4" "timer_frame r s s4" using ok fr by (simp_all add: h timer_frame_hr)
  moreover have "rbtree s4 = insort_after (\<lambda>x. expire_time (timers s4 x)) r (rbtree s)"
    unfolding h by (simp add: tree)
  ultimately show ?thesis using hrok e True by (simp add: res)
qed

lemma timer_remove_ok:
  assumes "timers_ok s"
  shows "wp (timer_remove r s) (\<lambda>s'. timers_ok s' \<and> timer_frame r s s' \<and>
           rbtree s' = remove1 r (rbtree s) \<and> (hr_ok s \<longrightarrow> hr_ok s') \<and>
           (\<forall>x. expire_time (timers s' x) = expire_time (timers s x)))"
proof (cases "node_empty (timers s r)")
  case True
  then have "r \<notin> set (rbtree s)" using timers_okD(3) [OF assms] by simp
  with True assms show ?thesis by (simp add: timer_remove_def timer_frame_refl)
next
  case False
  then have mem: "r \<in> set (rbtree s)" using timers_okD(3) [OF assms] by simp
  obtain s1 where er: "timer_node_erase r s = Some s1"
    and post: "timers_ok s1 \<and> timer_frame r s s1 \<and> rbtree s1 = remove1 r (rbtree s) \<and> hr s1 = hr s \<and>
      (\<forall>x. expire_time (timers s1 x) = expire_time (timers s x))"
    using timer_node_erase_ok [OF assms mem] unfolding wp_iff by (elim exE conjE) (rule that, assumption, intro conjI)
  note ok = post [THEN conjunct1] and fr = post [THEN conjunct2, THEN conjunct1]
    and tree = post [THEN conjunct2, THEN conjunct2, THEN conjunct1]
    and hrs = post [THEN conjunct2, THEN conjunct2, THEN conjunct2, THEN conjunct1]
    and ex = post [THEN conjunct2, THEN conjunct2, THEN conjunct2, THEN conjunct2, rule_format]
  have tl: "tickless s1 = tickless s"
    using untimed_eqD(3) fr unfolding timer_frame_def by blast
  obtain h where res: "timer_remove r s = Some (s1\<lparr>hr := h\<rparr>)" and h: "hr_ok s \<longrightarrow> hr_ok (s1\<lparr>hr := h\<rparr>)"
  proof (cases "tickless s")
    case tick: False
    have "timer_remove r s = Some (s1\<lparr>hr := hr s\<rparr>)" using tick False er hrs by (simp add: timer_remove_def)
    moreover have "hr_ok (s1\<lparr>hr := hr s\<rparr>)" using tick tl by (simp add: hr_ok_def)
    ultimately show ?thesis using that by blast
  next
    case tick: True
    obtain l q where l: "rbtree s = l # q" using mem by (cases "rbtree s") auto
    show ?thesis
    proof (cases "l = r")
      case lr: True
      show ?thesis
      proof (cases q)
        case Nil
        then have "timer_remove r s = Some (s1\<lparr>hr := HrCleared\<rparr>)"
          using tick False er l lr tree by (simp add: timer_remove_def get_leftmost_timer_def hr_defs)
        moreover have "hr_ok (s1\<lparr>hr := HrCleared\<rparr>)" using tree l lr Nil by (simp add: hr_ok_def)
        ultimately show ?thesis using that by blast
      next
        case (Cons m q')
        have t1: "rbtree s1 = m # q'" using tree l lr Cons by simp
        let ?h = "if now s1 \<ge> expire_time (timers s1 m) then HrTriggered else HrAt (expire_time (timers s1 m))"
        have "timer_remove r s = Some (s1\<lparr>hr := ?h\<rparr>)"
          using tick False er l lr t1
          by (simp add: timer_remove_def get_leftmost_timer_def hr_defs nd_hw_get_current_def Let_def)
        moreover have "hr_ok (s1\<lparr>hr := ?h\<rparr>)" using t1 by (simp add: hr_ok_def)
        ultimately show ?thesis using that by blast
      qed
    next
      case lr: False
      let ?h = "if now s1 \<ge> expire_time (timers s1 l) then HrTriggered else hr s"
      have "timer_remove r s = Some (s1\<lparr>hr := ?h\<rparr>)"
        using tick False er l lr hrs
        by (simp add: timer_remove_def get_leftmost_timer_def hr_defs nd_hw_get_current_def Let_def)
      moreover have "hr_ok s \<longrightarrow> hr_ok (s1\<lparr>hr := ?h\<rparr>)"
        using tick tl tree l lr ex by (auto simp: hr_ok_def)
      ultimately show ?thesis using that by blast
    qed
  qed
  with ok fr tree ex show ?thesis by (simp add: timer_frame_hr)
qed

lemmas timer_frameD = untimed_eqD [OF timer_frame_def [THEN iffD1, THEN conjunct1]]

lemma timer_frame_upd:
  assumes "timer_frame r s s'"
  shows "timer_frame r s (upd_timer (expire_time_update f) r s')"
  using assms by (simp add: timer_frame_def) (simp add: upd_timer_def)

lemma timers_ok_upd:
  assumes "timers_ok s" and "r \<notin> set (rbtree s)" and "node_empty (f (timers s r)) = node_empty (timers s r)"
  shows "timers_ok (upd_timer f r s)"
proof -
  have "map (\<lambda>x. expire_time (timers (upd_timer f r s) x)) (rbtree s) = map (\<lambda>x. expire_time (timers s x)) (rbtree s)"
    using assms(2) by (auto simp: upd_timer_def)
  then have "sorted (map (\<lambda>x. expire_time (timers (upd_timer f r s) x)) (rbtree s))"
    using timers_okD(2) [OF assms(1)] by (simp only:)
  with timers_okD(1,3) [OF assms(1)] assms(2,3) show ?thesis
    unfolding timers_ok_def by (simp add: upd_timer_def)
qed

lemma nd_timer_start_ok:
  assumes "timers_ok s" and "callback (timers s r) \<noteq> None"
  shows "wp (nd_timer_start (Some r) s) (\<lambda>(e, s'). e = ND_EOK \<and> timers_ok s' \<and> timer_frame r s s' \<and>
           rbtree s' = insort_after (\<lambda>x. expire_time (timers s' x)) r (remove1 r (rbtree s)) \<and>
           expire_time (timers s' r) =
             (if tickless s then deadline (timeout (timers s r)) (now s)
              else now s + timeout (timers s r)) \<and>
           (hr_ok s \<longrightarrow> hr_ok s'))"
proof -
  let ?upd = "\<lambda>s1. if tickless s1 then s1
                 else upd_timer (expire_time_update (\<lambda>_. now s1 + timeout (timers s1 r))) r s1"
  have start: "nd_timer_start (Some r) s = do {
      s1 \<leftarrow> timer_remove r s; s3 \<leftarrow> timer_insert r (?upd s1); Some (ND_EOK, s3) }"
  proof -
    have "(if \<not> node_empty (timers s r) then timer_remove r s else Some s) = timer_remove r s"
      by (simp add: timer_remove_def)
    moreover have "upd_timer (\<lambda>t. t\<lparr>expire_time := now s1 + timeout t\<rparr>) r s1 =
        upd_timer (expire_time_update (\<lambda>_. now s1 + timeout (timers s1 r))) r s1" for s1
      by (simp add: upd_timer_def)
    ultimately show ?thesis using assms(2)
      by (simp only: nd_timer_start_def nd_hw_get_current_def Let_def option.case if_False cong: if_cong)
  qed
  show ?thesis unfolding start wp_bind
  proof (rule wp_mono [OF timer_remove_ok [OF assms(1)]], elim conjE)
    fix s1
    assume s1: "timers_ok s1" "timer_frame r s s1" "rbtree s1 = remove1 r (rbtree s)"
      "hr_ok s \<longrightarrow> hr_ok s1" "\<forall>x. expire_time (timers s1 x) = expire_time (timers s x)"
    have out: "r \<notin> set (rbtree s1)" using s1(3) timers_okD(1) [OF assms(1)] by simp
    have tl: "tickless s1 = tickless s" "now s1 = now s"
      using timer_frameD [OF s1(2)] by simp_all
    have tm: "timeout (timers s1 r) = timeout (timers s r)" using s1(2) by (simp add: timer_frame_def)
    let ?s2 = "?upd s1"
    have ok2: "timers_ok ?s2" using timers_ok_upd [OF s1(1) out] s1(1) by simp
    have fr2: "timer_frame r s ?s2" using timer_frame_upd [OF s1(2)] s1(2) by simp
    have q2: "rbtree ?s2 = remove1 r (rbtree s)" "tickless ?s2 = tickless s" "now ?s2 = now s"
      "timeout (timers ?s2 r) = timeout (timers s r)"
      "\<not> tickless s \<Longrightarrow> expire_time (timers ?s2 r) = now s + timeout (timers s r)"
      using s1(3) tl tm by (simp_all add: upd_timer_def)
    have hr2: "hr_ok s \<Longrightarrow> hr_ok ?s2" using s1(4) tl(1) q2(2) by (cases "tickless s") (simp_all add: hr_ok_def)
    have out2: "r \<notin> set (rbtree ?s2)" using out q2(1) s1(3) by simp
    show "wp (timer_insert r ?s2) (\<lambda>x. wp (Some (ND_EOK, x)) (\<lambda>(e, s').
        e = ND_EOK \<and> timers_ok s' \<and> timer_frame r s s' \<and>
        rbtree s' = insort_after (\<lambda>x. expire_time (timers s' x)) r (remove1 r (rbtree s)) \<and>
        expire_time (timers s' r) =
          (if tickless s then deadline (timeout (timers s r)) (now s) else now s + timeout (timers s r)) \<and>
        (hr_ok s \<longrightarrow> hr_ok s')))"
      unfolding wp_Some prod.case
    proof (rule wp_mono [OF timer_insert_ok [OF ok2 out2]], elim conjE)
      fix s'
      assume s': "timers_ok s'" "timer_frame r ?s2 s'"
        "rbtree s' = insort_after (\<lambda>x. expire_time (timers s' x)) r (rbtree ?s2)"
        "expire_time (timers s' r) = (if tickless ?s2 then deadline (timeout (timers ?s2 r)) (now ?s2)
           else expire_time (timers ?s2 r))" "hr_ok ?s2 \<longrightarrow> hr_ok s'"
      show "ND_EOK = ND_EOK \<and> timers_ok s' \<and> timer_frame r s s' \<and>
        rbtree s' = insort_after (\<lambda>x. expire_time (timers s' x)) r (remove1 r (rbtree s)) \<and>
        expire_time (timers s' r) =
          (if tickless s then deadline (timeout (timers s r)) (now s) else now s + timeout (timers s r)) \<and>
        (hr_ok s \<longrightarrow> hr_ok s')"
        using s'(1,3,4,5) timer_frame_trans [OF fr2 s'(2)] q2 hr2 by (cases "tickless s") simp_all
    qed
  qed
qed

lemma nd_timer_stop_ok:
  assumes "timers_ok s"
  shows "wp (nd_timer_stop (Some r) s) (\<lambda>(e, s'). e = ND_EOK \<and> timers_ok s' \<and> timer_frame r s s' \<and>
           rbtree s' = remove1 r (rbtree s) \<and> (hr_ok s \<longrightarrow> hr_ok s') \<and>
           (\<forall>x. expire_time (timers s' x) = expire_time (timers s x)))"
  using timer_remove_ok [OF assms, of r] by (simp add: nd_timer_stop_def)

end
