(* ===== verification/Nd_Bitops.thy ===== *)
theory Nd_Bitops
  imports Nd_Prelude
begin

text \<open>
  \<^verbatim>\<open>include/nd_bitops.h\<close>: find-first-set, in the version built on the compiler's count of
  trailing zeros and in the portable version with a 256-entry table. Both return one more than
  the index of the lowest set bit, and 0 for 0; the scheduler's ready bitmap relies on it.
\<close>

text \<open>The documented value of \<^verbatim>\<open>__builtin_ctz\<close> on a nonzero argument: the number of zero bits below
  the lowest set one.\<close>

definition builtin_ctz :: "u32 \<Rightarrow> nat" where
  "builtin_ctz w = length (takeWhile (\<lambda>i. \<not> bit w i) [0..<32])"

definition nd_ffs :: "u32 \<Rightarrow> nat" where
  "nd_ffs value = (if value = 0 then 0 else builtin_ctz value + 1)"

definition nd_lowest_bit :: "nat list" where
  "nd_lowest_bit =
    [0, 0, 1, 0, 2, 0, 1, 0, 3, 0, 1, 0, 2, 0, 1, 0,
     4, 0, 1, 0, 2, 0, 1, 0, 3, 0, 1, 0, 2, 0, 1, 0,
     5, 0, 1, 0, 2, 0, 1, 0, 3, 0, 1, 0, 2, 0, 1, 0,
     4, 0, 1, 0, 2, 0, 1, 0, 3, 0, 1, 0, 2, 0, 1, 0,
     6, 0, 1, 0, 2, 0, 1, 0, 3, 0, 1, 0, 2, 0, 1, 0,
     4, 0, 1, 0, 2, 0, 1, 0, 3, 0, 1, 0, 2, 0, 1, 0,
     5, 0, 1, 0, 2, 0, 1, 0, 3, 0, 1, 0, 2, 0, 1, 0,
     4, 0, 1, 0, 2, 0, 1, 0, 3, 0, 1, 0, 2, 0, 1, 0,
     7, 0, 1, 0, 2, 0, 1, 0, 3, 0, 1, 0, 2, 0, 1, 0,
     4, 0, 1, 0, 2, 0, 1, 0, 3, 0, 1, 0, 2, 0, 1, 0,
     5, 0, 1, 0, 2, 0, 1, 0, 3, 0, 1, 0, 2, 0, 1, 0,
     4, 0, 1, 0, 2, 0, 1, 0, 3, 0, 1, 0, 2, 0, 1, 0,
     6, 0, 1, 0, 2, 0, 1, 0, 3, 0, 1, 0, 2, 0, 1, 0,
     4, 0, 1, 0, 2, 0, 1, 0, 3, 0, 1, 0, 2, 0, 1, 0,
     5, 0, 1, 0, 2, 0, 1, 0, 3, 0, 1, 0, 2, 0, 1, 0,
     4, 0, 1, 0, 2, 0, 1, 0, 3, 0, 1, 0, 2, 0, 1, 0]"

definition nd_ffs_table :: "u32 \<Rightarrow> nat" where
  "nd_ffs_table value =
     (if value = 0 then 0
      else if value AND 0xff \<noteq> 0 then nd_lowest_bit ! unat (value AND 0xff) + 1
      else if value AND 0xff00 \<noteq> 0 then nd_lowest_bit ! unat (drop_bit 8 (value AND 0xff00)) + 9
      else if value AND 0xff0000 \<noteq> 0 then nd_lowest_bit ! unat (drop_bit 16 (value AND 0xff0000)) + 17
      else nd_lowest_bit ! unat (drop_bit 24 (value AND 0xff000000)) + 25)"

section \<open>The lowest set bit\<close>

definition lowest_bit :: "u32 \<Rightarrow> nat \<Rightarrow> bool" where
  "lowest_bit w n \<longleftrightarrow> bit w n \<and> (\<forall>i<n. \<not> bit w i)"

lemma lowest_bit_unique: "lowest_bit w m \<Longrightarrow> lowest_bit w n \<Longrightarrow> m = n"
  unfolding lowest_bit_def by (metis linorder_neqE_nat)

lemma word_neq_0_bit: "(w :: u32) \<noteq> 0 \<Longrightarrow> \<exists>n<32. bit w n"
proof (rule ccontr)
  assume "w \<noteq> 0" and "\<not> (\<exists>n<32. bit w n)"
  then have "w = 0" by (intro bit_word_eqI) auto
  with \<open>w \<noteq> 0\<close> show False by simp
qed

lemma builtin_ctz_lowest:
  assumes "w \<noteq> 0"
  shows "lowest_bit w (builtin_ctz w)" and "builtin_ctz w < 32"
proof -
  let ?P = "\<lambda>i. \<not> bit w i"
  obtain n where n: "n < 32" "bit w n" using word_neq_0_bit [OF assms] by blast
  have "length (takeWhile ?P [0..<32]) < length [0..<32]"
  proof (rule ccontr)
    assume "\<not> ?thesis"
    then have "length (takeWhile ?P [0..<32]) = length [0..<32]"
      using length_takeWhile_le [of ?P "[0..<32]"] by linarith
    then have "takeWhile ?P [0..<32] = [0..<32]"
      by (metis takeWhile_eq_take take_all order_refl)
    then have "\<forall>i\<in>set [0..<32]. ?P i" by (simp add: takeWhile_eq_all_conv)
    with n show False by simp
  qed
  then have lt: "builtin_ctz w < 32" and b: "bit w (builtin_ctz w)"
    using nth_length_takeWhile [of ?P "[0..<32]"] by (auto simp: builtin_ctz_def)
  have "\<not> bit w i" if "i < builtin_ctz w" for i
  proof -
    have "i \<in> set (takeWhile ?P [0..<32])"
      using that lt takeWhile_nth [of i ?P "[0..<32]"] nth_mem [of i "takeWhile ?P [0..<32]"]
      by (auto simp: builtin_ctz_def)
    then show ?thesis by (auto dest: set_takeWhileD)
  qed
  with lt b show "lowest_bit w (builtin_ctz w)" "builtin_ctz w < 32" by (auto simp: lowest_bit_def)
qed

lemma nd_ffs_eq_iff: "nd_ffs w = Suc n \<longleftrightarrow> lowest_bit w n"
proof (cases "w = 0")
  case True
  then show ?thesis by (simp add: nd_ffs_def lowest_bit_def)
next
  case False
  then show ?thesis using builtin_ctz_lowest [OF False] lowest_bit_unique
    by (auto simp: nd_ffs_def)
qed

section \<open>The table version\<close>

fun table_ok :: "int \<Rightarrow> nat list \<Rightarrow> bool" where
  "table_ok b [] = True"
| "table_ok b (k # ks) = ((b = 0 \<or> 2 ^ k dvd b \<and> odd (b div 2 ^ k)) \<and> table_ok (b + 1) ks)"

lemma table_ok_nth:
  "table_ok b ks \<Longrightarrow> i < length ks \<Longrightarrow>
   b + int i = 0 \<or> 2 ^ (ks ! i) dvd (b + int i) \<and> odd ((b + int i) div 2 ^ (ks ! i))"
proof (induction ks arbitrary: b i)
  case (Cons k ks)
  show ?case
  proof (cases i)
    case 0
    then show ?thesis using Cons.prems by auto
  next
    case (Suc j)
    have "b + int i = b + 1 + int j" using Suc by simp
    moreover have "ks ! j = (k # ks) ! i" using Suc by simp
    moreover have "table_ok (b + 1) ks" and "j < length ks" using Cons.prems Suc by auto
    ultimately show ?thesis using Cons.IH [of "b + 1" j] by (simp only: simp_thms)
  qed
qed simp

lemma nd_lowest_bit_table: "table_ok 0 nd_lowest_bit"
  by (simp add: nd_lowest_bit_def)

lemma nd_lowest_bit_nth:
  assumes "0 < b" and "b < 256"
  shows "bit b (nd_lowest_bit ! b) \<and> (\<forall>i<nd_lowest_bit ! b. \<not> bit b i)"
proof -
  let ?k = "nd_lowest_bit ! b"
  have "length nd_lowest_bit = 256" by (simp add: nd_lowest_bit_def)
  then have "2 ^ ?k dvd int b \<and> odd (int b div 2 ^ ?k)"
    using table_ok_nth [OF nd_lowest_bit_table, of b] assms by simp
  then have "int (2 ^ ?k) dvd int b \<and> odd (int (b div 2 ^ ?k))" by (simp add: zdiv_int)
  then have k: "2 ^ ?k dvd b" "odd (b div 2 ^ ?k)" unfolding int_dvd_int_iff even_of_nat by blast+
  have "\<not> bit b i" if "i < ?k" for i
  proof -
    have "2 ^ Suc i dvd b" using that k(1) by (meson Suc_leI dvd_trans le_imp_power_dvd)
    then show ?thesis by (auto simp: bit_iff_odd elim!: dvdE)
  qed
  with k(2) show ?thesis by (simp add: bit_iff_odd)
qed

lemma byte_lowest:
  fixes x :: u32
  assumes "x \<noteq> 0" and "unat x < 256"
  shows "lowest_bit x (nd_lowest_bit ! unat x)"
proof -
  have "bit (unat x) (nd_lowest_bit ! unat x) \<and> (\<forall>i<nd_lowest_bit ! unat x. \<not> bit (unat x) i)"
    using assms by (intro nd_lowest_bit_nth) (simp_all add: unat_gt_0)
  then show ?thesis by (simp add: lowest_bit_def bit_unsigned_iff)
qed

lemma bit_byte_mask: "bit (push_bit k (0xff :: u32)) n \<longleftrightarrow> k \<le> n \<and> n < k + 8 \<and> n < 32"
proof -
  have e: "(0xff :: u32) = mask 8" by (simp add: mask_eq_exp_minus_1)
  have b: "bit (mask 8 :: u32) i \<longleftrightarrow> i < 8" for i
    by (subst bit_mask_iff) (auto simp: possible_bit_def)
  show ?thesis unfolding e bit_push_bit_iff b by (auto simp: possible_bit_def)
qed

text \<open>The byte at bit offset \<open>k\<close>, when all the bytes below it are zero.\<close>

lemma byte_at_lowest:
  fixes w :: u32
  assumes m: "m = push_bit k 0xff" and nz: "w AND m \<noteq> 0" and low: "\<forall>i<k. \<not> bit w i"
  shows "lowest_bit w (nd_lowest_bit ! unat (drop_bit k (w AND m)) + k)"
proof -
  let ?x = "drop_bit k (w AND m)"
  have bx: "bit ?x n \<longleftrightarrow> n < 8 \<and> bit w (n + k)" for n
  proof -
    have "bit ?x n = bit (w AND m) (k + n)" by (simp only: bit_drop_bit_eq o_def)
    also have "\<dots> = (bit w (k + n) \<and> n < 8 \<and> k + n < 32)"
      by (simp only: bit_and_iff m bit_byte_mask) auto
    also have "\<dots> = (n < 8 \<and> bit w (n + k))"
      using bit_imp_le_length [of w "k + n"] by (auto simp: add.commute)
    finally show ?thesis .
  qed
  obtain n where "bit w n" "k \<le> n" "n < k + 8"
    using word_neq_0_bit [OF nz] by (auto simp: bit_and_iff m bit_byte_mask)
  then have "bit ?x (n - k)" by (simp only: bx) simp
  then have "?x \<noteq> 0" by (metis bit_0_eq bot_apply bot_bool_def)
  moreover have "?x = take_bit 8 ?x" by (rule bit_word_eqI) (simp only: bit_take_bit_iff bx, auto)
  then have "unat ?x = take_bit 8 (unat ?x)" by (metis unsigned_take_bit_eq)
  then have "unat ?x < 256" using take_bit_nat_less_exp [of 8 "unat ?x"] by simp
  ultimately have "lowest_bit ?x (nd_lowest_bit ! unat ?x)" by (rule byte_lowest)
  then have b: "bit w (nd_lowest_bit ! unat ?x + k)"
    and l: "\<forall>i<nd_lowest_bit ! unat ?x. \<not> bit w (i + k)"
    unfolding lowest_bit_def bx by (auto dest: less_trans)
  have "\<not> bit w i" if "i < nd_lowest_bit ! unat ?x + k" for i
  proof (cases "i < k")
    case False
    then show ?thesis using that l [rule_format, of "i - k"] by simp
  qed (use low in simp)
  with b show ?thesis by (simp add: lowest_bit_def)
qed

lemma and_byte_zero:
  fixes w :: u32
  assumes "w AND push_bit k 0xff = 0" and "k \<le> i" and "i < k + 8" and "i < 32"
  shows "\<not> bit w i"
proof -
  have "bit (w AND push_bit k 0xff) i = bit w i" using assms(2-4) by (simp add: bit_and_iff bit_byte_mask)
  with assms(1) show ?thesis by simp
qed

lemma nd_ffs_table_lowest:
  assumes "w \<noteq> 0"
  shows "\<exists>n. nd_ffs_table w = Suc n \<and> lowest_bit w n"
proof -
  have m: "0xff = push_bit 0 (0xff :: u32)" "0xff00 = push_bit 8 (0xff :: u32)"
    "0xff0000 = push_bit 16 (0xff :: u32)" "0xff000000 = push_bit 24 (0xff :: u32)"
    by (simp_all add: push_bit_eq_mult)
  have low: "\<not> bit w i" if "w AND push_bit k 0xff = 0" "k \<le> i" "i < k + 8" "k \<le> 24" for k i
    using and_byte_zero [OF that(1-3)] that(3,4) by simp
  show ?thesis
  proof (cases "w AND 0xff = 0")
    case False
    from byte_at_lowest [OF m(1) this] False assms show ?thesis
      by (simp add: nd_ffs_table_def)
  next
    case z0: True
    have l0: "\<forall>i<8. \<not> bit w i" using low [of 0, folded m(1), OF z0] by simp
    show ?thesis
    proof (cases "w AND 0xff00 = 0")
      case False
      from byte_at_lowest [OF m(2) this l0] False z0 assms show ?thesis
        by (simp add: nd_ffs_table_def add.commute del: drop_bit_and)
    next
      case z1: True
      have l1: "\<forall>i<16. \<not> bit w i"
      proof (intro allI impI)
        fix i :: nat assume "i < 16"
        then show "\<not> bit w i" using l0 low [of 8, folded m(2), OF z1, of i] by (cases "i < 8") simp_all
      qed
      show ?thesis
      proof (cases "w AND 0xff0000 = 0")
        case False
        from byte_at_lowest [OF m(3) this l1] False z0 z1 assms show ?thesis
          by (simp add: nd_ffs_table_def add.commute del: drop_bit_and)
      next
        case z2: True
        have l2: "\<forall>i<24. \<not> bit w i"
        proof (intro allI impI)
          fix i :: nat assume "i < 24"
          then show "\<not> bit w i" using l1 low [of 16, folded m(3), OF z2, of i] by (cases "i < 16") simp_all
        qed
        have "w AND 0xff000000 \<noteq> 0"
        proof
          assume z3: "w AND 0xff000000 = 0"
          obtain n where n: "n < 32" "bit w n" using word_neq_0_bit [OF assms] by blast
          with l2 low [of 24, folded m(4), OF z3, of n] show False by (cases "n < 24") simp_all
        qed
        from byte_at_lowest [OF m(4) this l2] this z0 z1 z2 assms show ?thesis
          by (simp add: nd_ffs_table_def add.commute del: drop_bit_and)
      qed
    qed
  qed
qed

section \<open>Property\<close>

text \<open>C15: the portable \<open>nd_ffs\<close>, with its table of 256 bytes, computes the same function as the one with
  the count-trailing-zeros instruction, on all 32-bit values.\<close>

theorem nd_ffs_table_eq: "nd_ffs_table w = nd_ffs w"
proof (cases "w = 0")
  case True
  then show ?thesis by (simp add: nd_ffs_table_def nd_ffs_def)
next
  case False
  then obtain n where "nd_ffs_table w = Suc n" "lowest_bit w n" using nd_ffs_table_lowest by blast
  then show ?thesis using nd_ffs_eq_iff [of w n] by simp
qed

end
