(* ===== verification/Nd_Scheduler.thy ===== *)
theory Nd_Scheduler
  imports Nd_Timer Nd_Bitops
begin

text \<open>
  \<^verbatim>\<open>kernel/nd_scheduler.c\<close>: the ready lists and their bitmap, the choice of the next thread, the
  accounting of time slices at a context switch, the deferral of a switch out of interrupts, and
  the delay of the current thread.
\<close>

section \<open>The ready lists\<close>

definition ready_mask :: "nat \<Rightarrow> u32" where
  "ready_mask p = push_bit p 1"

definition nd_thread_ready_add_tail :: "tid \<Rightarrow> kstate \<Rightarrow> kstate option" where
  "nd_thread_ready_add_tail t s =
     (let prio = priority (threads s t) in
      if prio \<ge> ND_THREAD_PRIORITY_MAX then Some s
      else do {
        s1 \<leftarrow> q_insert_tail (ReadyList prio) t s;
        Some (s1\<lparr>k_thread_ready_bit := k_thread_ready_bit s1 OR ready_mask prio\<rparr>)
      })"

definition nd_thread_ready_add_head :: "tid \<Rightarrow> kstate \<Rightarrow> kstate option" where
  "nd_thread_ready_add_head t s =
     (let prio = priority (threads s t) in
      if prio \<ge> ND_THREAD_PRIORITY_MAX then Some s
      else do {
        s1 \<leftarrow> q_insert_head (ReadyList prio) t s;
        Some (s1\<lparr>k_thread_ready_bit := k_thread_ready_bit s1 OR ready_mask prio\<rparr>)
      })"

definition nd_thread_ready_remove :: "tid \<Rightarrow> kstate \<Rightarrow> kstate option" where
  "nd_thread_ready_remove t s =
     (let prio = priority (threads s t) in
      if prio \<ge> ND_THREAD_PRIORITY_MAX then Some s
      else do {
        s1 \<leftarrow> q_remove t s;
        Some (if q_is_empty (ReadyList prio) s1
              then s1\<lparr>k_thread_ready_bit := k_thread_ready_bit s1 AND NOT (ready_mask prio)\<rparr>
              else s1)
      })"

definition nd_get_highest_priority_thread :: "kstate \<Rightarrow> tid option option" where
  "nd_get_highest_priority_thread s =
     (let highest_priority = int (nd_ffs (k_thread_ready_bit s)) - 1 in
      if highest_priority = -1 then Some None
      else map_option Some (q_first (ReadyList (nat highest_priority)) s))"

section \<open>Choosing the next thread\<close>

text \<open>The result, \<open>*rr_rotate\<close>, and the state (the yield request is consumed).\<close>

definition nd_should_switch :: "tid option \<Rightarrow> kstate \<Rightarrow> bool \<times> bool \<times> kstate" where
  "nd_should_switch next s =
     (case (next, nd_current_thread s) of
        (Some n, Some c) \<Rightarrow>
          if priority (threads s n) < priority (threads s c) then (True, False, s)
          else if priority (threads s n) = priority (threads s c) \<and> yield (threads s c)
          then (True, True, upd_thread (yield_update (\<lambda>_. False)) c s)
          else if stat (threads s c) \<noteq> ND_THREAD_STAT_RUNNING then (True, False, s)
          else (False, False, s)
      | _ \<Rightarrow> (False, False, s))"

definition refill_slice :: "nd_thread \<Rightarrow> nd_thread" where
  "refill_slice th = th\<lparr>slice_left := time_slice th, slice_start := 0\<rparr>"

definition nd_schedule_pick_next :: "kstate \<Rightarrow> (tid option \<times> kstate) option" where
  "nd_schedule_pick_next s = do {
     next \<leftarrow> nd_get_highest_priority_thread s;
     (case next of
        None \<Rightarrow> Some (None, s)
      | Some n \<Rightarrow>
          (case nd_should_switch (Some n) s of (switch, rr_rotate, s1) \<Rightarrow>
             if \<not> switch then Some (None, s1)
             else do {
               c \<leftarrow> nd_current_thread s1;
               if stat (threads s1 c) = ND_THREAD_STAT_RUNNING then do {
                 let preempted = priority (threads s1 n) < priority (threads s1 c);
                 let s2 = upd_thread (stat_update (\<lambda>_. ND_THREAD_STAT_READY)) c s1;
                 let s3 = (if rr_rotate \<and> time_slice (threads s2 c) \<noteq> 0
                           then upd_thread refill_slice c s2 else s2);
                 s4 \<leftarrow> (if preempted then nd_thread_ready_add_head c s3
                        else nd_thread_ready_add_tail c s3);
                 Some (Some n, s4)
               }
               else Some (Some n, s1)
             }))
   }"

section \<open>The context switch\<close>

text \<open>The slice of the thread that leaves the processor: what it used is deducted.\<close>

definition charge_slice :: "u64 \<Rightarrow> nd_thread \<Rightarrow> nd_thread" where
  "charge_slice t0 th =
     (if slice_start th \<noteq> 0 \<and> slice_left th \<noteq> 0 then
        (let elapsed = t0 - slice_start th in
         if elapsed \<ge> slice_left th then th\<lparr>slice_left := 0\<rparr>
         else th\<lparr>slice_left := slice_left th - elapsed\<rparr>)
      else th)"

definition slice_out :: "tid option \<Rightarrow> u64 \<Rightarrow> kstate \<Rightarrow> kstate option" where
  "slice_out prev t0 s =
     (case prev of
        None \<Rightarrow> Some s
      | Some p \<Rightarrow>
          if time_slice (threads s p) \<noteq> 0 then do {
            let s1 = upd_thread (charge_slice t0) p s;
            s2 \<leftarrow> timer_stop (SliceTimer p) s1;
            Some (upd_thread (slice_start_update (\<lambda>_. 0)) p s2)
          }
          else Some s)"

text \<open>The slice of the thread that gets the processor: timed only when it has a ready peer.\<close>

definition slice_in :: "tid \<Rightarrow> u64 \<Rightarrow> kstate \<Rightarrow> kstate option" where
  "slice_in c t0 s =
     (let th = threads s c in
      if time_slice th \<noteq> 0 \<and> priority th < ND_THREAD_PRIORITY_MAX \<and>
         \<not> q_is_empty (ReadyList (priority th)) s
      then do {
        let s1 = (if slice_left th = 0 \<or> slice_left th > time_slice th
                  then upd_thread (\<lambda>t. t\<lparr>slice_left := time_slice t\<rparr>) c s else s);
        s2 \<leftarrow> timer_stop (SliceTimer c) s1;
        let s3 = upd_timer (timeout_update (\<lambda>_. slice_left (threads s2 c))) (SliceTimer c) s2;
        let s4 = upd_thread (slice_start_update (\<lambda>_. t0)) c s3;
        timer_start (SliceTimer c) s4
      }
      else if time_slice th \<noteq> 0 then do {
        s1 \<leftarrow> timer_stop (SliceTimer c) s;
        Some (upd_thread refill_slice c s1)
      }
      else Some s)"

definition nd_context_switch_cb :: "tid option \<Rightarrow> kstate \<Rightarrow> kstate option" where
  "nd_context_switch_cb next s =
     (let prev = nd_current_thread s; t0 = nd_hw_get_current s in
      case next of
        None \<Rightarrow> Some s
      | Some n \<Rightarrow> do {
          s1 \<leftarrow> nd_thread_ready_remove n s;
          s2 \<leftarrow> slice_out prev t0 s1;
          let s3 = s2\<lparr>nd_next_thread := None, nd_current_thread := Some n\<rparr>;
          let s4 = upd_thread (stat_update (\<lambda>_. ND_THREAD_STAT_RUNNING)) n s3;
          slice_in n t0 s4
        })"

text \<open>
  \<^verbatim>\<open>nd_hw_do_switch\<close> of the ports: the Cortex-M ones (\<^verbatim>\<open>arch/arm/m3/context.S\<close>) only set PendSV
  pending; the Cortex-A9 and RISC-V ones switch at once.
\<close>

definition nd_hw_do_switch :: "kstate \<Rightarrow> kstate option" where
  "nd_hw_do_switch s =
     (case port s of
        SwitchDeferred \<Rightarrow> Some (s\<lparr>pendsv := True\<rparr>)
      | SwitchImmediate \<Rightarrow> nd_context_switch_cb (nd_next_thread s) s)"

text \<open>The PendSV handler of \<^verbatim>\<open>arch/arm/m3/context.S\<close>, with its first-switch branch.\<close>

definition isr_pendsv :: "kstate \<Rightarrow> kstate option" where
  "isr_pendsv s0 =
     (let s = s0\<lparr>pendsv := False\<rparr> in
      case nd_current_thread s of
        None \<Rightarrow> do {
          n \<leftarrow> nd_get_highest_priority_thread s;
          (case n of None \<Rightarrow> Some s | Some _ \<Rightarrow> nd_context_switch_cb n s)
        }
      | Some _ \<Rightarrow> nd_context_switch_cb (nd_next_thread s) s)"

definition nd_hw_do_switch_first :: "kstate \<Rightarrow> kstate option" where
  "nd_hw_do_switch_first s =
     (case port s of
        SwitchDeferred \<Rightarrow> Some (s\<lparr>pendsv := True\<rparr>)
      | SwitchImmediate \<Rightarrow> do {
          n \<leftarrow> nd_get_highest_priority_thread s;
          (case n of None \<Rightarrow> Some s | Some _ \<Rightarrow> nd_context_switch_cb n s)
        })"

section \<open>Scheduling points\<close>

definition nd_scheduler_start :: "kstate \<Rightarrow> kstate option" where
  "nd_scheduler_start s = nd_hw_do_switch_first s"

definition nd_schedule_core :: "kstate \<Rightarrow> kstate option" where
  "nd_schedule_core s = do {
     (next, s1) \<leftarrow> nd_schedule_pick_next s;
     (case next of
        None \<Rightarrow> Some s1
      | Some n \<Rightarrow> nd_hw_do_switch (s1\<lparr>nd_next_thread := Some n\<rparr>))
   }"

definition nd_schedule_irq_exit :: "kstate \<Rightarrow> kstate option" where
  "nd_schedule_irq_exit s =
     (if \<not> nd_interrupt_try_switch s then Some s
      else do {
        (next, s1) \<leftarrow> nd_schedule_pick_next (s\<lparr>nd_interrupt_try_switch := False\<rparr>);
        (case next of None \<Rightarrow> Some s1 | Some n \<Rightarrow> nd_context_switch_cb (Some n) s1)
      })"

definition nd_scheduler :: "kstate \<Rightarrow> kstate option" where
  "nd_scheduler s =
     (if nd_interrupt_nest_count s > 0 then Some (s\<lparr>nd_interrupt_try_switch := True\<rparr>)
      else nd_schedule_core s)"

definition nd_thread_slice_timeout :: "tid option \<Rightarrow> kstate \<Rightarrow> kstate option" where
  "nd_thread_slice_timeout a s =
     (case a of
        None \<Rightarrow> Some s
      | Some t \<Rightarrow>
          if nd_current_thread s \<noteq> Some t then Some s
          else if priority (threads s t) \<ge> ND_THREAD_PRIORITY_MAX \<or>
                  q_is_empty (ReadyList (priority (threads s t))) s
          then Some s
          else nd_scheduler (upd_thread (\<lambda>th. th\<lparr>yield := True, slice_left := 0, slice_start := 0\<rparr>) t s))"

definition nd_enter_interrupt :: "kstate \<Rightarrow> kstate" where
  "nd_enter_interrupt s = s\<lparr>nd_interrupt_nest_count := nd_interrupt_nest_count s + 1\<rparr>"

definition nd_exit_interrupt :: "kstate \<Rightarrow> kstate" where
  "nd_exit_interrupt s = s\<lparr>nd_interrupt_nest_count := nd_interrupt_nest_count s - 1\<rparr>"

definition nd_try_schedule :: "kstate \<Rightarrow> kstate option" where
  "nd_try_schedule s =
     (if nd_interrupt_nest_count s > 0 then Some s
      else if \<not> nd_interrupt_try_switch s then Some s
      else nd_schedule_core (s\<lparr>nd_interrupt_try_switch := False\<rparr>))"

definition nd_try_schedule_irqsave :: "kstate \<Rightarrow> kstate option" where
  "nd_try_schedule_irqsave s = nd_try_schedule s"

definition nd_thread_yield :: "kstate \<Rightarrow> kstate option" where
  "nd_thread_yield s = do {
     c \<leftarrow> nd_current_thread s;
     nd_scheduler (upd_thread (yield_update (\<lambda>_. True)) c s)
   }"

definition thread_timer_callback :: "tid option \<Rightarrow> kstate \<Rightarrow> kstate option" where
  "thread_timer_callback a s = do {
     t \<leftarrow> a;
     let s1 = upd_thread (stat_update (\<lambda>_. ND_THREAD_STAT_READY)) t s;
     let s2 = (if time_slice (threads s1 t) \<noteq> 0 then upd_thread refill_slice t s1 else s1);
     s3 \<leftarrow> nd_thread_ready_add_tail t s2;
     nd_scheduler s3
   }"

definition nd_thread_delay :: "u64 \<Rightarrow> kstate \<Rightarrow> kstate option" where
  "nd_thread_delay delay s = do {
     c \<leftarrow> nd_current_thread s;
     s1 \<leftarrow> (if time_slice (threads s c) \<noteq> 0 then do {
              s' \<leftarrow> timer_stop (SliceTimer c) s;
              Some (upd_thread refill_slice c s')
            }
            else Some s);
     let s2 = upd_thread (stat_update (\<lambda>_. ND_THREAD_STAT_BLOCK)) c s1;
     let s3 = upd_timer (\<lambda>t. t\<lparr>timeout := delay, callback := Some CB_delay\<rparr>) (ThreadTimer c) s2;
     s4 \<leftarrow> timer_start (ThreadTimer c) s3;
     nd_scheduler s4
   }"

end
