(* ===== verification/Nd_Invariant.thy ===== *)
theory Nd_Invariant
  imports Nd_Scheduler
begin

text \<open>
  The invariant of the kernel. A thread's state, the list its node is in and its timers must agree
  (\<open>thread_ok\<close>); the ready bitmap has a bit for every non-empty ready list (\<open>bits_ok\<close>). An operation
  works on one thread at a time: \<open>kinv X s\<close> is the invariant with the threads of \<open>X\<close> in transit.
\<close>

section \<open>One thread\<close>

definition home_ok :: "nd_thread \<Rightarrow> list_head option \<Rightarrow> bool \<Rightarrow> bool" where
  "home_ok th home armed =
     (case home of
        None \<Rightarrow> stat th \<noteq> ND_THREAD_STAT_READY \<and> (stat th = ND_THREAD_STAT_BLOCK \<longrightarrow> armed)
      | Some (ReadyList p) \<Rightarrow> stat th = ND_THREAD_STAT_READY \<and> p = priority th
      | Some _ \<Rightarrow> stat th = ND_THREAD_STAT_BLOCK)"

definition timer_ok :: "tid \<Rightarrow> nd_thread \<Rightarrow> list_head option \<Rightarrow> nd_timer \<Rightarrow> bool \<Rightarrow> bool" where
  "timer_ok t th home tm armed \<longleftrightarrow>
     (armed \<longrightarrow> stat th = ND_THREAD_STAT_BLOCK \<and>
                callback tm = Some (if home = None then CB_delay else CB_pend)) \<and>
     (stat th \<noteq> ND_THREAD_STAT_INIT \<longrightarrow> arg tm = Some t \<and> timer_type tm = ND_TIMER_TYPE_ONE_SHOT)"

definition slice_ok :: "tid \<Rightarrow> nd_thread \<Rightarrow> nd_timer \<Rightarrow> bool \<Rightarrow> bool \<Rightarrow> bool" where
  "slice_ok t th tm armed cur \<longleftrightarrow>
     (armed \<longrightarrow> cur \<and> time_slice th \<noteq> 0) \<and>
     (stat th \<noteq> ND_THREAD_STAT_INIT \<longrightarrow>
        arg tm = Some t \<and> timer_type tm = ND_TIMER_TYPE_ONE_SHOT \<and> callback tm = Some CB_slice)"

definition thread_ok :: "kstate \<Rightarrow> tid \<Rightarrow> bool" where
  "thread_ok s t \<longleftrightarrow>
     home_ok (threads s t) (qhome s t) (ThreadTimer t \<in> set (rbtree s)) \<and>
     timer_ok t (threads s t) (qhome s t) (timers s (ThreadTimer t)) (ThreadTimer t \<in> set (rbtree s)) \<and>
     slice_ok t (threads s t) (timers s (SliceTimer t)) (SliceTimer t \<in> set (rbtree s))
       (nd_current_thread s = Some t) \<and>
     (stat (threads s t) = ND_THREAD_STAT_RUNNING \<longrightarrow> nd_current_thread s = Some t) \<and>
     (nd_current_thread s = Some t \<longrightarrow> stat (threads s t) \<noteq> ND_THREAD_STAT_INIT) \<and>
     (t \<in> set (nd_thread_list s) \<longleftrightarrow>
        stat (threads s t) \<noteq> ND_THREAD_STAT_INIT \<and> stat (threads s t) \<noteq> ND_THREAD_STAT_DEAD) \<and>
     priority (threads s t) < ND_THREAD_PRIORITY_MAX \<and> init_priority (threads s t) < ND_THREAD_PRIORITY_MAX"

definition same_view :: "kstate \<Rightarrow> kstate \<Rightarrow> tid \<Rightarrow> bool" where
  "same_view s s' t \<longleftrightarrow>
     threads s' t = threads s t \<and> qhome s' t = qhome s t \<and>
     timers s' (ThreadTimer t) = timers s (ThreadTimer t) \<and>
     timers s' (SliceTimer t) = timers s (SliceTimer t) \<and>
     (ThreadTimer t \<in> set (rbtree s') \<longleftrightarrow> ThreadTimer t \<in> set (rbtree s)) \<and>
     (SliceTimer t \<in> set (rbtree s') \<longleftrightarrow> SliceTimer t \<in> set (rbtree s)) \<and>
     (nd_current_thread s' = Some t \<longleftrightarrow> nd_current_thread s = Some t) \<and>
     (t \<in> set (nd_thread_list s') \<longleftrightarrow> t \<in> set (nd_thread_list s))"

lemma thread_ok_same_view: "same_view s s' t \<Longrightarrow> thread_ok s' t = thread_ok s t"
  by (simp add: same_view_def thread_ok_def)

lemma same_view_refl [simp]: "same_view s s t"
  by (simp add: same_view_def)

lemma same_view_trans: "same_view s s1 t \<Longrightarrow> same_view s1 s2 t \<Longrightarrow> same_view s s2 t"
  by (simp add: same_view_def)

text \<open>Only the threads of \<open>X\<close> may have changed between two states.\<close>

definition only :: "tid set \<Rightarrow> kstate \<Rightarrow> kstate \<Rightarrow> bool" where
  "only X s s' \<longleftrightarrow> (\<forall>t. t \<notin> X \<longrightarrow> same_view s s' t)"

lemma only_refl [simp]: "only X s s"
  by (simp add: only_def)

lemma only_trans: "only X s s1 \<Longrightarrow> only X s1 s2 \<Longrightarrow> only X s s2"
  unfolding only_def using same_view_trans by blast

lemma only_mono: "only X s s' \<Longrightarrow> X \<subseteq> Y \<Longrightarrow> only Y s s'"
  by (auto simp: only_def)

section \<open>The whole kernel\<close>

definition bits_ok :: "kstate \<Rightarrow> bool" where
  "bits_ok s \<longleftrightarrow>
     (\<forall>p<ND_THREAD_PRIORITY_MAX. bit (k_thread_ready_bit s) p \<longleftrightarrow> qlists s (ReadyList p) \<noteq> [])"

text \<open>The application's timers call functions of the application: the kernel's callbacks are static.\<close>

definition user_ok :: "kstate \<Rightarrow> bool" where
  "user_ok s \<longleftrightarrow> (\<forall>n f. callback (timers s (UserTimer n)) = Some f \<longrightarrow> (\<exists>k. f = CB_user k))"

definition base_ok :: "kstate \<Rightarrow> bool" where
  "base_ok s \<longleftrightarrow> lists_ok s \<and> timers_ok s \<and> bits_ok s \<and> distinct (nd_thread_list s) \<and> user_ok s"

lemma base_ok_lists: "base_ok s \<Longrightarrow> lists_ok s"
  and base_ok_timers_ok: "base_ok s \<Longrightarrow> timers_ok s"
  and base_ok_bits: "base_ok s \<Longrightarrow> p < ND_THREAD_PRIORITY_MAX \<Longrightarrow>
        bit (k_thread_ready_bit s) p \<longleftrightarrow> qlists s (ReadyList p) \<noteq> []"
  by (simp_all add: base_ok_def bits_ok_def)

definition kinv :: "tid set \<Rightarrow> kstate \<Rightarrow> bool" where
  "kinv X s \<longleftrightarrow> base_ok s \<and> (\<forall>t. t \<notin> X \<longrightarrow> thread_ok s t)"

lemma kinv_only: "kinv X s \<Longrightarrow> only X s s' \<Longrightarrow> base_ok s' \<Longrightarrow> kinv X s'"
  using thread_ok_same_view by (auto simp: kinv_def only_def)

lemma kinv_mono: "kinv X s \<Longrightarrow> X \<subseteq> Y \<Longrightarrow> kinv Y s"
  by (auto simp: kinv_def)

lemma kinv_close: "kinv (insert t X) s \<Longrightarrow> thread_ok s t \<Longrightarrow> kinv X s"
  by (auto simp: kinv_def)

section \<open>What the operations leave alone\<close>

text \<open>The state less what the list, timer and thread updates of a kernel call change.\<close>

definition rest :: "kstate \<Rightarrow> kstate" where
  "rest s = s\<lparr>qlists := (\<lambda>_. []), qhome := (\<lambda>_. None), threads := (\<lambda>_. undefined),
              timers := (\<lambda>_. undefined), rbtree := [], hr := HrCleared, k_thread_ready_bit := 0\<rparr>"

lemma restD:
  assumes "rest s' = rest s"
  shows "port s' = port s" "hw_stack_init s' = hw_stack_init s" "tickless s' = tickless s"
    "nd_current_thread s' = nd_current_thread s" "nd_next_thread s' = nd_next_thread s"
    "nd_interrupt_nest_count s' = nd_interrupt_nest_count s"
    "nd_interrupt_try_switch s' = nd_interrupt_try_switch s" "pendsv s' = pendsv s"
    "nd_thread_list s' = nd_thread_list s" "taken_list s' = taken_list s" "now s' = now s"
    "sems s' = sems s" "mutexes s' = mutexes s" "events s' = events s" "queues s' = queues s"
    "pools s' = pools s"
  using arg_cong [OF assms, of port] arg_cong [OF assms, of hw_stack_init]
    arg_cong [OF assms, of tickless] arg_cong [OF assms, of nd_current_thread]
    arg_cong [OF assms, of nd_next_thread] arg_cong [OF assms, of nd_interrupt_nest_count]
    arg_cong [OF assms, of nd_interrupt_try_switch] arg_cong [OF assms, of pendsv]
    arg_cong [OF assms, of nd_thread_list] arg_cong [OF assms, of taken_list]
    arg_cong [OF assms, of now] arg_cong [OF assms, of sems] arg_cong [OF assms, of mutexes]
    arg_cong [OF assms, of events] arg_cong [OF assms, of queues] arg_cong [OF assms, of pools]
  by (simp_all add: rest_def)

lemma rest_updates [simp]:
  "rest (s\<lparr>qlists := a\<rparr>) = rest s" "rest (s\<lparr>qhome := b\<rparr>) = rest s"
  "rest (s\<lparr>threads := c\<rparr>) = rest s" "rest (s\<lparr>timers := d\<rparr>) = rest s"
  "rest (s\<lparr>rbtree := e\<rparr>) = rest s" "rest (s\<lparr>hr := f\<rparr>) = rest s"
  "rest (s\<lparr>k_thread_ready_bit := g\<rparr>) = rest s"
  "rest (upd_thread h t s) = rest s" "rest (upd_timer i r s) = rest s"
  by (simp_all add: rest_def upd_thread_def upd_timer_def)

lemma timer_frame_rest: "timer_frame r s s' \<Longrightarrow> rest s' = rest s"
proof -
  assume "timer_frame r s s'"
  then have "rest (untimed s') = rest (untimed s)" by (simp add: timer_frame_def)
  then show ?thesis by (simp add: untimed_def)
qed

section \<open>Steps on one thread\<close>

definition is_ready :: "list_head \<Rightarrow> bool" where
  "is_ready k = (\<exists>p. k = ReadyList p)"

lemma is_ready_simps [simp]:
  "is_ready (ReadyList p)" "\<not> is_ready (JoinList t)" "\<not> is_ready (SemWait i)"
  "\<not> is_ready (MutexWait i)" "\<not> is_ready (EventWait i)" "\<not> is_ready (SendWait i)"
  "\<not> is_ready (ReadWait i)" "\<not> is_ready (PoolWait i)"
  by (simp_all add: is_ready_def)

text \<open>Thread \<open>t\<close>'s node was moved: its home is now \<open>h\<close> and the list at \<open>k\<close> is \<open>L\<close>.\<close>

definition relinked :: "tid \<Rightarrow> list_head option \<Rightarrow> list_head \<Rightarrow> tid list \<Rightarrow> kstate \<Rightarrow> kstate \<Rightarrow> bool" where
  "relinked t h k L s s' \<longleftrightarrow>
     rest s' = rest s \<and> threads s' = threads s \<and> timers s' = timers s \<and> rbtree s' = rbtree s \<and>
     hr s' = hr s \<and> qhome s' = (qhome s)(t := h) \<and> qlists s' = (qlists s)(k := L) \<and>
     (\<not> is_ready k \<longrightarrow> k_thread_ready_bit s' = k_thread_ready_bit s)"

lemma relinked_only: "relinked t h k L s s' \<Longrightarrow> only {t} s s'"
  by (auto simp: relinked_def only_def same_view_def dest: restD(4,9))

lemma base_ok_upd_thread [simp]: "base_ok (upd_thread f t s) = base_ok s"
  by (simp add: base_ok_def lists_ok_def timers_ok_def bits_ok_def user_ok_def upd_thread_def)

lemma only_upd_thread [simp]: "only {t} s (upd_thread f t s)"
  by (simp add: only_def same_view_def upd_thread_def)

lemma base_ok_timers:
  assumes "base_ok s" and "timers_ok s'" and "timer_frame r s s'"
  shows "base_ok s'"
proof -
  have "callback (timers s' x) = callback (timers s x)" for x
    using assms(3) by (cases "x = r") (simp_all add: timer_frame_def)
  then show ?thesis
    using assms(1,2) timer_frameD(9,10,11,13) [OF assms(3)]
    by (simp add: base_ok_def lists_ok_def bits_ok_def user_ok_def)
qed

lemma only_timer_frame:
  assumes "timer_frame r s s'" and "r = ThreadTimer t \<or> r = SliceTimer t"
    and "\<And>x. x \<noteq> r \<Longrightarrow> x \<in> set (rbtree s') \<longleftrightarrow> x \<in> set (rbtree s)"
  shows "only {t} s s'"
  unfolding only_def
proof (intro allI impI)
  fix u assume u: "u \<notin> {t}"
  then have "ThreadTimer u \<noteq> r" "SliceTimer u \<noteq> r" using assms(2) by auto
  then show "same_view s s' u"
    using assms(1,3) timer_frameD(4,11,12,13) [OF assms(1)]
    unfolding same_view_def timer_frame_def by simp
qed

lemma base_ok_upd_timer:
  assumes "base_ok s" and "r \<notin> set (rbtree s)" and "node_empty (f (timers s r)) = node_empty (timers s r)"
    and "\<And>n g. r = UserTimer n \<Longrightarrow> callback (f (timers s r)) = Some g \<Longrightarrow> \<exists>k. g = CB_user k"
  shows "base_ok (upd_timer f r s)"
proof -
  have "timers_ok (upd_timer f r s)"
    by (rule timers_ok_upd [OF base_ok_timers_ok [OF assms(1)] assms(2)]) (rule assms(3))
  with assms(1) show ?thesis
    using assms(4) by (auto simp: base_ok_def lists_ok_def bits_ok_def user_ok_def upd_timer_def)
qed

lemma timer_start_ok:
  assumes "base_ok s" and "callback (timers s r) \<noteq> None" and "r = ThreadTimer t \<or> r = SliceTimer t"
  shows "wp (timer_start r s) (\<lambda>s'. base_ok s' \<and> timer_frame r s s' \<and>
           only {t} s s' \<and> set (rbtree s') = insert r (set (rbtree s)) \<and>
           expire_time (timers s' r) =
             (if tickless s then deadline (timeout (timers s r)) (now s)
              else now s + timeout (timers s r)))"
proof -
  have ok: "timers_ok s" using assms(1) by (simp add: base_ok_def)
  obtain s' where start: "nd_timer_start (Some r) s = Some (ND_EOK, s')" and s': "timers_ok s'" "timer_frame r s s'"
    and q: "rbtree s' = insort_after (\<lambda>x. expire_time (timers s' x)) r (remove1 r (rbtree s))"
    and e: "expire_time (timers s' r) = (if tickless s then deadline (timeout (timers s r)) (now s)
              else now s + timeout (timers s r))"
    using wp_pairD [OF nd_timer_start_ok [OF ok assms(2)]] by blast
  have set: "set (rbtree s') = insert r (set (rbtree s))"
    unfolding q using timers_okD(1) [OF ok] by simp
  have "only {t} s s'" by (rule only_timer_frame [OF s'(2) assms(3)]) (simp add: set)
  moreover have "base_ok s'" by (rule base_ok_timers [OF assms(1) s'])
  ultimately show ?thesis using set s'(2) e by (simp add: timer_start_def start)
qed

lemma timer_stop_ok:
  assumes "base_ok s" and "r = ThreadTimer t \<or> r = SliceTimer t"
  shows "wp (timer_stop r s) (\<lambda>s'. base_ok s' \<and> timer_frame r s s' \<and>
           only {t} s s' \<and> set (rbtree s') = set (rbtree s) - {r})"
proof -
  have ok: "timers_ok s" using assms(1) by (simp add: base_ok_def)
  obtain s' where stop: "nd_timer_stop (Some r) s = Some (ND_EOK, s')" and s': "timers_ok s'" "timer_frame r s s'"
    and q: "rbtree s' = remove1 r (rbtree s)"
    using wp_pairD [OF nd_timer_stop_ok [OF ok, of r]] by blast
  have set: "set (rbtree s') = set (rbtree s) - {r}"
    unfolding q using timers_okD(1) [OF ok] by simp
  have "only {t} s s'" by (rule only_timer_frame [OF s'(2) assms(2)]) (simp add: set)
  moreover have "base_ok s'" by (rule base_ok_timers [OF assms(1) s'])
  ultimately show ?thesis using set s'(2) by (simp add: timer_stop_def stop)
qed

lemma lists_ok_link:
  assumes "lists_ok s" and "qhome s t = None" and "set L = insert t (set (qlists s k))" and "distinct L"
    and "qlists s' = (qlists s)(k := L)" and "qhome s' = (qhome s)(t := Some k)"
  shows "lists_ok s'"
  using assms by (auto simp: lists_ok_def)

lemma lists_ok_unlink:
  assumes "lists_ok s" and "qhome s t = Some k"
    and "qlists s' = (qlists s)(k := remove1 t (qlists s k))" and "qhome s' = (qhome s)(t := None)"
  shows "lists_ok s'"
  using assms by (auto simp: lists_ok_def)

lemma base_ok_relinked:
  assumes "base_ok s" and "relinked t h k L s s'" and "lists_ok s'" and "\<not> is_ready k"
  shows "base_ok s'"
  using assms restD(9) [of s' s]
  by (auto simp: base_ok_def user_ok_def relinked_def timers_ok_def bits_ok_def is_ready_def)

lemma bit_ready_mask [simp]: "bit (ready_mask p) q \<longleftrightarrow> p = q \<and> q < 32"
  by (auto simp: ready_mask_def bit_simps)

lemma base_ok_ready_link:
  assumes "base_ok s" and "qhome s t = None" and "p < ND_THREAD_PRIORITY_MAX"
    and "set L = insert t (set (qlists s (ReadyList p)))" and "distinct L"
  shows "base_ok (s\<lparr>qlists := (qlists s)(ReadyList p := L), qhome := (qhome s)(t := Some (ReadyList p)),
           k_thread_ready_bit := k_thread_ready_bit s OR ready_mask p\<rparr>)" (is "base_ok ?s'")
proof -
  have "lists_ok ?s'"
    by (rule lists_ok_link [OF base_ok_lists [OF assms(1)] assms(2,4,5)]) simp_all
  moreover have "L \<noteq> []" using assms(4) by auto
  then have "bits_ok ?s'"
    using base_ok_bits [OF assms(1)] assms(3) by (simp add: bits_ok_def bit_or_iff)
  ultimately show ?thesis using assms(1) by (simp add: base_ok_def timers_ok_def user_ok_def)
qed

lemma nd_thread_ready_add_tail_ok:
  assumes "base_ok s" and "qhome s t = None" and "priority (threads s t) = p" "p < ND_THREAD_PRIORITY_MAX"
  shows "wp (nd_thread_ready_add_tail t s) (\<lambda>s'. base_ok s' \<and>
           relinked t (Some (ReadyList p)) (ReadyList p) (qlists s (ReadyList p) @ [t]) s s')"
proof -
  have "t \<notin> set (qlists s (ReadyList p))" "distinct (qlists s (ReadyList p))"
    using assms(1,2) by (auto simp: base_ok_def lists_okD)
  then show ?thesis
    using base_ok_ready_link [OF assms(1,2,4), of "qlists s (ReadyList p) @ [t]"] assms
    by (simp add: nd_thread_ready_add_tail_def q_insert_tail_def Let_def relinked_def)
qed

lemma nd_thread_ready_add_head_ok:
  assumes "base_ok s" and "qhome s t = None" and "priority (threads s t) = p" "p < ND_THREAD_PRIORITY_MAX"
  shows "wp (nd_thread_ready_add_head t s) (\<lambda>s'. base_ok s' \<and>
           relinked t (Some (ReadyList p)) (ReadyList p) (t # qlists s (ReadyList p)) s s')"
proof -
  have "t \<notin> set (qlists s (ReadyList p))" "distinct (qlists s (ReadyList p))"
    using assms(1,2) by (auto simp: base_ok_def lists_okD)
  then show ?thesis
    using base_ok_ready_link [OF assms(1,2,4), of "t # qlists s (ReadyList p)"] assms
    by (simp add: nd_thread_ready_add_head_def q_insert_head_def Let_def relinked_def)
qed

lemma nd_thread_ready_remove_ok:
  assumes "base_ok s" and "qhome s t = Some (ReadyList p)" and "priority (threads s t) = p"
    "p < ND_THREAD_PRIORITY_MAX"
  shows "wp (nd_thread_ready_remove t s) (\<lambda>s'. base_ok s' \<and>
           relinked t None (ReadyList p) (remove1 t (qlists s (ReadyList p))) s s')"
proof -
  let ?s1 = "s\<lparr>qlists := (qlists s)(ReadyList p := remove1 t (qlists s (ReadyList p))),
              qhome := (qhome s)(t := None)\<rparr>"
  let ?s2 = "if q_is_empty (ReadyList p) ?s1
             then ?s1\<lparr>k_thread_ready_bit := k_thread_ready_bit ?s1 AND NOT (ready_mask p)\<rparr> else ?s1"
  have "lists_ok ?s1"
    by (rule lists_ok_unlink [OF base_ok_lists [OF assms(1)] assms(2)]) simp_all
  then have "lists_ok ?s2" by (simp add: lists_ok_def)
  moreover have "qlists s (ReadyList p) \<noteq> []"
    using assms(1,2) lists_okD(1) [of s t "ReadyList p"] by (auto simp: base_ok_def)
  then have "bits_ok ?s2"
    using base_ok_bits [OF assms(1)] assms(4)
    by (simp add: bits_ok_def bit_and_iff bit_not_iff q_is_empty_def)
  ultimately have "base_ok ?s2" using assms(1) by (simp add: base_ok_def timers_ok_def user_ok_def)
  moreover have "nd_thread_ready_remove t s = Some ?s2"
    using assms by (simp add: nd_thread_ready_remove_def q_remove_def Let_def)
  moreover have "relinked t None (ReadyList p) (remove1 t (qlists s (ReadyList p))) s ?s2"
    by (simp add: relinked_def)
  ultimately show ?thesis by simp
qed

end
