(* ===== verification/Nd_Scheduling.thy ===== *)
theory Nd_Scheduling
  imports Nd_Invariant
begin

text \<open>
  What the scheduler of \<^verbatim>\<open>kernel/nd_scheduler.c\<close> does to the invariant: picking the next thread puts
  the running one back in its ready list, a context switch takes the chosen one out, the slice
  timer runs for the current thread only, and at every scheduling point either the running thread
  has the highest priority of all the threads that can run or a switch to such a thread is owed.
\<close>

section \<open>What scheduling may change\<close>

text \<open>The parts of a thread that scheduling leaves alone.\<close>

definition th_static :: "nd_thread \<Rightarrow> nd_thread" where
  "th_static th = th\<lparr>stat := ND_THREAD_STAT_INIT, yield := False, slice_left := 0, slice_start := 0\<rparr>"

lemma th_staticD:
  assumes "th_static th' = th_static th"
  shows "priority th' = priority th" "init_priority th' = init_priority th" "error th' = error th"
    "options th' = options th" "event_set th' = event_set th" "event_opt th' = event_opt th"
    "time_slice th' = time_slice th" "name th' = name th" "stack_addr th' = stack_addr th"
    "stack_size th' = stack_size th" "sp th' = sp th" "entry th' = entry th" "parameter th' = parameter th"
  using arg_cong [OF assms, of priority] arg_cong [OF assms, of init_priority]
    arg_cong [OF assms, of error] arg_cong [OF assms, of options] arg_cong [OF assms, of event_set]
    arg_cong [OF assms, of event_opt] arg_cong [OF assms, of time_slice] arg_cong [OF assms, of name]
    arg_cong [OF assms, of stack_addr] arg_cong [OF assms, of stack_size] arg_cong [OF assms, of sp]
    arg_cong [OF assms, of entry] arg_cong [OF assms, of parameter]
  by (simp_all add: th_static_def)

lemma th_static_updates [simp]:
  "th_static (stat_update f th) = th_static th" "th_static (yield_update g th) = th_static th"
  "th_static (slice_left_update h th) = th_static th" "th_static (slice_start_update i th) = th_static th"
  "th_static (refill_slice th) = th_static th" "th_static (charge_slice t0 th) = th_static th"
  by (simp_all add: th_static_def refill_slice_def charge_slice_def Let_def)

abbreviation status :: "kstate \<Rightarrow> tid \<Rightarrow> nd_thread_stat" where
  "status s t \<equiv> stat (threads s t)"

abbreviation prio_of :: "kstate \<Rightarrow> tid \<Rightarrow> nat" where
  "prio_of s t \<equiv> priority (threads s t)"

definition runnable :: "nd_thread_stat \<Rightarrow> bool" where
  "runnable st = (st = ND_THREAD_STAT_READY \<or> st = ND_THREAD_STAT_RUNNING)"

definition unsched :: "kstate \<Rightarrow> kstate" where
  "unsched s = (rest s)\<lparr>nd_current_thread := None, nd_next_thread := None,
                        nd_interrupt_try_switch := False, pendsv := False\<rparr>"

lemma unschedD:
  assumes "unsched s' = unsched s"
  shows "port s' = port s" "hw_stack_init s' = hw_stack_init s" "tickless s' = tickless s"
    "nd_interrupt_nest_count s' = nd_interrupt_nest_count s"
    "nd_thread_list s' = nd_thread_list s" "taken_list s' = taken_list s" "now s' = now s"
    "sems s' = sems s" "mutexes s' = mutexes s" "events s' = events s" "queues s' = queues s"
    "pools s' = pools s"
  using arg_cong [OF assms, of port] arg_cong [OF assms, of hw_stack_init]
    arg_cong [OF assms, of tickless] arg_cong [OF assms, of nd_interrupt_nest_count]
    arg_cong [OF assms, of nd_thread_list] arg_cong [OF assms, of taken_list]
    arg_cong [OF assms, of now] arg_cong [OF assms, of sems] arg_cong [OF assms, of mutexes]
    arg_cong [OF assms, of events] arg_cong [OF assms, of queues] arg_cong [OF assms, of pools]
  by (simp_all add: unsched_def rest_def)

lemma unsched_rest: "rest s' = rest s \<Longrightarrow> unsched s' = unsched s"
  by (simp add: unsched_def)

lemma unsched_updates [simp]:
  "unsched (s\<lparr>nd_current_thread := a\<rparr>) = unsched s" "unsched (s\<lparr>nd_next_thread := b\<rparr>) = unsched s"
  "unsched (s\<lparr>nd_interrupt_try_switch := c\<rparr>) = unsched s" "unsched (s\<lparr>pendsv := d\<rparr>) = unsched s"
  "unsched (upd_thread f t s) = unsched s"  "unsched (upd_timer g r s) = unsched s"
  by (simp_all add: unsched_def) (simp_all add: rest_def)

definition sched_frame :: "kstate \<Rightarrow> kstate \<Rightarrow> bool" where
  "sched_frame s s' \<longleftrightarrow>
     unsched s' = unsched s \<and>
     (\<forall>k. \<not> is_ready k \<longrightarrow> qlists s' k = qlists s k) \<and>
     (\<forall>t. th_static (threads s' t) = th_static (threads s t)) \<and>
     (\<forall>t. status s' t = status s t \<or> runnable (status s' t) \<and> runnable (status s t)) \<and>
     (\<forall>r. (\<forall>t. r \<noteq> SliceTimer t) \<longrightarrow>
        timers s' r = timers s r \<and> (r \<in> set (rbtree s') \<longleftrightarrow> r \<in> set (rbtree s)))"

lemma sched_frame_refl [simp]: "sched_frame s s"
  by (simp add: sched_frame_def)

lemma sched_frameD:
  assumes "sched_frame s s'"
  shows "unsched s' = unsched s" and "\<not> is_ready k \<Longrightarrow> qlists s' k = qlists s k"
    and "th_static (threads s' t) = th_static (threads s t)"
    and "status s' t = status s t \<or> runnable (status s' t) \<and> runnable (status s t)"
    and "(\<And>t. r \<noteq> SliceTimer t) \<Longrightarrow> timers s' r = timers s r"
    and "(\<And>t. r \<noteq> SliceTimer t) \<Longrightarrow> r \<in> set (rbtree s') \<longleftrightarrow> r \<in> set (rbtree s)"
  using assms unfolding sched_frame_def by blast+

lemma sched_frame_trans:
  assumes a: "sched_frame s s1" and b: "sched_frame s1 s2"
  shows "sched_frame s s2"
  unfolding sched_frame_def
proof (intro conjI allI impI)
  show "unsched s2 = unsched s" using sched_frameD(1) [OF a] sched_frameD(1) [OF b] by (rule trans [rotated])
  show "qlists s2 k = qlists s k" if "\<not> is_ready k" for k
    using sched_frameD(2) [OF a that] sched_frameD(2) [OF b that] by (rule trans [rotated])
  show "th_static (threads s2 t) = th_static (threads s t)" for t
    using sched_frameD(3) [OF a] sched_frameD(3) [OF b] by (rule trans [rotated])
  show "status s2 t = status s t \<or> runnable (status s2 t) \<and> runnable (status s t)" for t
    using sched_frameD(4) [OF a, of t] sched_frameD(4) [OF b, of t] by metis
  show "timers s2 r = timers s r" "r \<in> set (rbtree s2) \<longleftrightarrow> r \<in> set (rbtree s)"
    if "\<forall>t. r \<noteq> SliceTimer t" for r
    using sched_frameD(5,6) [OF a, of r] sched_frameD(5,6) [OF b, of r] that by simp_all
qed

lemma sched_frame_upd_thread:
  assumes "sched_frame s s'" and "\<And>th. th_static (f th) = th_static th"
    and "stat (f (threads s' t)) = status s' t \<or> runnable (stat (f (threads s' t))) \<and> runnable (status s' t)"
  shows "sched_frame s (upd_thread f t s')"
proof -
  have "sched_frame s' (upd_thread f t s')"
    using assms(2,3) by (simp add: sched_frame_def) (simp add: upd_thread_def)
  with assms(1) show ?thesis by (rule sched_frame_trans)
qed

lemma sched_frame_relinked:
  assumes "relinked t h k L s s'" and "is_ready k"
  shows "sched_frame s s'"
proof -
  have "unsched s' = unsched s" using assms(1) unfolding relinked_def by (intro unsched_rest) simp
  then show ?thesis using assms by (auto simp: sched_frame_def relinked_def)
qed

lemma sched_frame_slice_timer:
  assumes "timer_frame (SliceTimer t) s s'"
    and "\<And>x. x \<noteq> SliceTimer t \<Longrightarrow> x \<in> set (rbtree s') \<longleftrightarrow> x \<in> set (rbtree s)"
  shows "sched_frame s s'"
proof -
  have "timers s' r = timers s r" if "r \<noteq> SliceTimer t" for r
    using assms(1) that by (simp add: timer_frame_def)
  with assms(2) timer_frameD(10,12) [OF assms(1)] unsched_rest [OF timer_frame_rest [OF assms(1)]]
  show ?thesis by (simp add: sched_frame_def)
qed

section \<open>Picking the next thread\<close>

definition highest :: "kstate \<Rightarrow> tid \<Rightarrow> bool" where
  "highest s n \<longleftrightarrow> status s n = ND_THREAD_STAT_READY \<and>
     (\<forall>t. status s t = ND_THREAD_STAT_READY \<longrightarrow> prio_of s n \<le> prio_of s t)"

lemma kinvD:
  assumes "kinv X s"
  shows "base_ok s" and "t \<notin> X \<Longrightarrow> thread_ok s t"
  using assms by (auto simp: kinv_def)

lemma ready_home:
  assumes "thread_ok s t"
  shows "status s t = ND_THREAD_STAT_READY \<longleftrightarrow> qhome s t = Some (ReadyList (prio_of s t))"
  using assms by (auto simp: thread_ok_def home_ok_def split: option.splits list_head.splits)

lemma ready_home_prio:
  assumes "thread_ok s t" and "qhome s t = Some (ReadyList p)"
  shows "p = prio_of s t" "status s t = ND_THREAD_STAT_READY" "p < ND_THREAD_PRIORITY_MAX"
  using assms by (auto simp: thread_ok_def home_ok_def)

lemma nd_get_highest_priority_thread_ok:
  assumes "kinv {} s"
  shows "wp (nd_get_highest_priority_thread s) (\<lambda>r. case r of
           None \<Rightarrow> \<forall>t. status s t \<noteq> ND_THREAD_STAT_READY
         | Some n \<Rightarrow> highest s n \<and> (\<exists>L. qlists s (ReadyList (prio_of s n)) = n # L))"
proof -
  note base = kinvD(1) [OF assms] and tok = kinvD(2) [OF assms, simplified]
  have ready: "status s t = ND_THREAD_STAT_READY \<longleftrightarrow> t \<in> set (qlists s (ReadyList (prio_of s t)))" for t
    using ready_home [OF tok] lists_okD(1) [OF base_ok_lists [OF base]] by simp
  have bits: "bit (k_thread_ready_bit s) p" if "status s t = ND_THREAD_STAT_READY" "p = prio_of s t" for t p
    using that ready [of t] base_ok_bits [OF base] tok [of t] by (auto simp: thread_ok_def)
  show ?thesis
  proof (cases "nd_ffs (k_thread_ready_bit s)")
    case 0
    then have "k_thread_ready_bit s = 0" by (simp add: nd_ffs_def split: if_splits)
    with bits have "\<forall>t. status s t \<noteq> ND_THREAD_STAT_READY" by auto
    with 0 show ?thesis by (simp add: nd_get_highest_priority_thread_def)
  next
    case (Suc p)
    then have low: "lowest_bit (k_thread_ready_bit s) p" by (simp add: nd_ffs_eq_iff)
    then have p: "p < 32" "bit (k_thread_ready_bit s) p"
      using bit_imp_le_length [of "k_thread_ready_bit s" p] by (auto simp: lowest_bit_def)
    then obtain n L where L: "qlists s (ReadyList p) = n # L"
      using base_ok_bits [OF base] by (metis neq_Nil_conv)
    then have "n \<in> set (qlists s (ReadyList p))" by simp
    then have home: "qhome s n = Some (ReadyList p)"
      using lists_okD(1) [OF base_ok_lists [OF base]] by blast
    then have n: "prio_of s n = p" "status s n = ND_THREAD_STAT_READY"
      using ready_home_prio [OF tok home] by simp_all
    moreover have "p \<le> prio_of s t" if "status s t = ND_THREAD_STAT_READY" for t
      using bits [OF that refl] low by (auto simp: lowest_bit_def not_le [symmetric])
    ultimately have "highest s n" by (simp add: highest_def)
    with n(1) L Suc show ?thesis
      by (simp add: nd_get_highest_priority_thread_def q_first_def)
  qed
qed


lemmas thread_ok_defs = thread_ok_def home_ok_def timer_ok_def slice_ok_def

text \<open>A thread that is neither ready nor blocked has its node and its timer out of every queue.\<close>

lemma idle_home:
  assumes "thread_ok s t" and "status s t \<noteq> ND_THREAD_STAT_READY" "status s t \<noteq> ND_THREAD_STAT_BLOCK"
  shows "qhome s t = None" "ThreadTimer t \<notin> set (rbtree s)"
  using assms by (auto simp: thread_ok_defs split: option.splits list_head.splits)

lemma relinkedD:
  assumes "relinked t h k L s s'"
  shows "rest s' = rest s" "threads s' = threads s" "timers s' = timers s" "rbtree s' = rbtree s"
    "hr s' = hr s" "qhome s' = (qhome s)(t := h)" "qlists s' = (qlists s)(k := L)"
    "nd_current_thread s' = nd_current_thread s" "nd_thread_list s' = nd_thread_list s"
  using assms restD(4,9) [of s' s] by (auto simp: relinked_def)

lemma kinv_relinked:
  assumes "kinv {t} s" and "relinked t h k L s s'" and "base_ok s'"
  shows "kinv {t} s'"
  using kinv_only [OF assms(1) relinked_only [OF assms(2)] assms(3)] .

lemma kinv_step:
  assumes "kinv {t} s" and "only {t} s s'" and "base_ok s'" and "thread_ok s' t"
  shows "kinv {} s'"
  using kinv_only [OF assms(1-3)] assms(4) by (rule kinv_close)

lemma kinv_upd_thread: "kinv {t} s \<Longrightarrow> kinv {t} (upd_thread f t s)"
  using kinv_only [OF _ only_upd_thread] kinvD(1) base_ok_upd_thread by metis

text \<open>A thread in transit that is complete but for its place in the ready list.\<close>

definition readying :: "kstate \<Rightarrow> tid \<Rightarrow> bool" where
  "readying s t \<longleftrightarrow> qhome s t = None \<and> status s t = ND_THREAD_STAT_READY \<and>
     ThreadTimer t \<notin> set (rbtree s) \<and>
     timer_ok t (threads s t) None (timers s (ThreadTimer t)) False \<and>
     slice_ok t (threads s t) (timers s (SliceTimer t)) (SliceTimer t \<in> set (rbtree s))
       (nd_current_thread s = Some t) \<and>
     t \<in> set (nd_thread_list s) \<and>
     prio_of s t < ND_THREAD_PRIORITY_MAX \<and> init_priority (threads s t) < ND_THREAD_PRIORITY_MAX"

lemma thread_ok_readied:
  assumes "readying s t" and "relinked t (Some (ReadyList (prio_of s t))) k L s s'"
  shows "thread_ok s' t"
  using assms(1) unfolding thread_ok_def relinkedD [OF assms(2)] readying_def
  by (simp add: home_ok_def timer_ok_def)

lemma ready_add_ok:
  assumes "kinv {t} s" and "readying s t" and "p = prio_of s t"
  shows "wp (nd_thread_ready_add_tail t s) (\<lambda>s'. kinv {} s' \<and>
           relinked t (Some (ReadyList p)) (ReadyList p) (qlists s (ReadyList p) @ [t]) s s')"
    and "wp (nd_thread_ready_add_head t s) (\<lambda>s'. kinv {} s' \<and>
           relinked t (Some (ReadyList p)) (ReadyList p) (t # qlists s (ReadyList p)) s s')"
proof -
  have pre: "base_ok s" "qhome s t = None" "prio_of s t = p" "p < ND_THREAD_PRIORITY_MAX"
    using assms kinvD(1) by (auto simp: readying_def)
  have close: "kinv {} s'" if "base_ok s'" "relinked t (Some (ReadyList p)) (ReadyList p) L s s'" for s' L
    using kinv_relinked [OF assms(1) that(2,1)] thread_ok_readied [OF assms(2)] that(2) assms(3)
    by (intro kinv_close [of t "{}"]) simp_all
  show "wp (nd_thread_ready_add_tail t s) (\<lambda>s'. kinv {} s' \<and>
           relinked t (Some (ReadyList p)) (ReadyList p) (qlists s (ReadyList p) @ [t]) s s')"
    by (rule wp_mono [OF nd_thread_ready_add_tail_ok [OF pre]]) (use close in blast)
  show "wp (nd_thread_ready_add_head t s) (\<lambda>s'. kinv {} s' \<and>
           relinked t (Some (ReadyList p)) (ReadyList p) (t # qlists s (ReadyList p)) s s')"
    by (rule wp_mono [OF nd_thread_ready_add_head_ok [OF pre]]) (use close in blast)
qed

text \<open>The running thread goes back to the ready list.\<close>

lemma put_back_ok:
  assumes "kinv {} s" and "nd_current_thread s = Some c" and "status s c = ND_THREAD_STAT_RUNNING"
    and f: "\<And>th. th_static (f th) = th_static th" "stat (f (threads s c)) = ND_THREAD_STAT_READY"
    and add: "add = nd_thread_ready_add_tail \<and> L = qlists s (ReadyList (prio_of s c)) @ [c] \<or>
              add = nd_thread_ready_add_head \<and> L = c # qlists s (ReadyList (prio_of s c))"
  shows "wp (add c (upd_thread f c s)) (\<lambda>s'. kinv {} s' \<and> sched_frame s s' \<and> rest s' = rest s \<and>
           threads s' = (threads s)(c := f (threads s c)) \<and>
           qlists s' = (qlists s)(ReadyList (prio_of s c) := L))"
proof -
  let ?s = "upd_thread f c s"
  note tok = kinvD(2) [OF assms(1), of c, simplified]
  note home = idle_home [OF tok, unfolded assms(3), simplified]
  note st = th_staticD [OF f(1) [of "threads s c"]]
  have sel: "threads ?s c = f (threads s c)" "qhome ?s = qhome s" "timers ?s = timers s"
    "rbtree ?s = rbtree s" "nd_current_thread ?s = nd_current_thread s"
    "nd_thread_list ?s = nd_thread_list s" "qlists ?s = qlists s"
    by (simp_all add: upd_thread_def)
  have r: "readying ?s c"
    using tok home assms(2,3) unfolding readying_def sel f(2) st
    by (simp add: thread_ok_def timer_ok_def slice_ok_def f(2) st)
  have k: "kinv {c} ?s" using kinv_upd_thread [OF kinv_mono [OF assms(1)]] by blast
  have p: "prio_of s c = prio_of ?s c" by (simp add: sel st)
  have fr: "sched_frame s s'" if "relinked c (Some (ReadyList (prio_of s c))) (ReadyList (prio_of s c)) L ?s s'" for s'
  proof (rule sched_frame_trans [OF _ sched_frame_relinked [OF that]])
    show "sched_frame s ?s" using f assms(3) by (intro sched_frame_upd_thread) (simp_all add: runnable_def)
  qed simp
  have post: "kinv {} s' \<and> sched_frame s s' \<and> rest s' = rest s \<and>
      threads s' = (threads s)(c := f (threads s c)) \<and> qlists s' = (qlists s)(ReadyList (prio_of s c) := L)"
    if "kinv {} s' \<and> relinked c (Some (ReadyList (prio_of s c))) (ReadyList (prio_of s c)) L ?s s'" for s'
  proof (intro conjI)
    note rel = that [THEN conjunct2]
    show "kinv {} s'" by (rule that [THEN conjunct1])
    show "sched_frame s s'" by (rule fr [OF rel])
    show "rest s' = rest s" by (simp add: relinkedD(1) [OF rel])
    show "threads s' = (threads s)(c := f (threads s c))"
      by (simp add: relinkedD(2) [OF rel] upd_thread_def)
    show "qlists s' = (qlists s)(ReadyList (prio_of s c) := L)"
      by (simp add: relinkedD(7) [OF rel] upd_thread_def)
  qed
  from add show ?thesis
  proof (elim disjE conjE)
    assume a: "add = nd_thread_ready_add_tail" "L = qlists s (ReadyList (prio_of s c)) @ [c]"
    then have L: "L = qlists ?s (ReadyList (prio_of s c)) @ [c]" by (simp only: sel)
    show ?thesis unfolding a(1) by (rule wp_mono [OF ready_add_ok(1) [OF k r p, folded L] post])
  next
    assume a: "add = nd_thread_ready_add_head" "L = c # qlists s (ReadyList (prio_of s c))"
    then have L: "L = c # qlists ?s (ReadyList (prio_of s c))" by (simp only: sel)
    show ?thesis unfolding a(1) by (rule wp_mono [OF ready_add_ok(2) [OF k r p, folded L] post])
  qed
qed


lemma upd_thread_upd_thread: "upd_thread f t (upd_thread g t s) = upd_thread (f \<circ> g) t s"
  by (simp add: upd_thread_def)

lemma upd_thread_sel [simp]:
  "threads (upd_thread f t s) = (threads s)(t := f (threads s t))"
  "qlists (upd_thread f t s) = qlists s" "qhome (upd_thread f t s) = qhome s"
  "timers (upd_thread f t s) = timers s" "rbtree (upd_thread f t s) = rbtree s"
  "nd_current_thread (upd_thread f t s) = nd_current_thread s"
  "nd_thread_list (upd_thread f t s) = nd_thread_list s"
  "nd_next_thread (upd_thread f t s) = nd_next_thread s"
  "nd_interrupt_nest_count (upd_thread f t s) = nd_interrupt_nest_count s"
  "nd_interrupt_try_switch (upd_thread f t s) = nd_interrupt_try_switch s"
  "pendsv (upd_thread f t s) = pendsv s" "port (upd_thread f t s) = port s"
  "tickless (upd_thread f t s) = tickless s" "now (upd_thread f t s) = now s"
  "hr (upd_thread f t s) = hr s" "taken_list (upd_thread f t s) = taken_list s"
  "sems (upd_thread f t s) = sems s" "mutexes (upd_thread f t s) = mutexes s"
  "events (upd_thread f t s) = events s" "queues (upd_thread f t s) = queues s"
  "pools (upd_thread f t s) = pools s" "k_thread_ready_bit (upd_thread f t s) = k_thread_ready_bit s"
  by (simp_all add: upd_thread_def)

text \<open>An assignment to the yield flag or the slice of a thread does not touch the invariant.\<close>

lemma thread_ok_upd_thread:
  assumes "thread_ok s u" and "th_static (f (threads s t)) = th_static (threads s t)"
    and "stat (f (threads s t)) = status s t"
  shows "thread_ok (upd_thread f t s) u"
  using assms(1,3) th_staticD [OF assms(2)] unfolding thread_ok_def
  by (cases "u = t") (auto simp: home_ok_def timer_ok_def slice_ok_def split: option.splits list_head.splits)

lemma kinv_benign:
  assumes "kinv X s" and "th_static (f (threads s t)) = th_static (threads s t)"
    and "stat (f (threads s t)) = status s t"
  shows "kinv X (upd_thread f t s)"
  using assms thread_ok_upd_thread [where f = f and t = t and s = s] by (simp add: kinv_def)

text \<open>The relation between the picked thread and the state it leaves.\<close>

text \<open>The thread in front of the ready list of its priority.\<close>

definition front :: "kstate \<Rightarrow> tid \<Rightarrow> bool" where
  "front s n \<longleftrightarrow> (\<exists>L. qlists s (ReadyList (prio_of s n)) = n # L)"

definition picked :: "tid \<Rightarrow> tid \<Rightarrow> kstate \<Rightarrow> kstate \<Rightarrow> bool" where
  "picked c n s s' \<longleftrightarrow> highest s n \<and> front s n \<and> highest s' n \<and> status s' c \<noteq> ND_THREAD_STAT_RUNNING \<and>
     (\<forall>t. t \<noteq> c \<longrightarrow> threads s' t = threads s t) \<and>
     (if status s c = ND_THREAD_STAT_RUNNING then
        status s' c = ND_THREAD_STAT_READY \<and>
        qlists s' = (qlists s)(ReadyList (prio_of s c) :=
          (if prio_of s n < prio_of s c then c # qlists s (ReadyList (prio_of s c))
           else qlists s (ReadyList (prio_of s c)) @ [c]))
      else status s' c = status s c \<and> qlists s' = qlists s)"

lemma pick_ok_readied:
  assumes "kinv {} s" and "nd_current_thread s = Some c" and "status s c = ND_THREAD_STAT_RUNNING"
    and "highest s n" and "prio_of s n \<le> prio_of s c" and fr: "front s n"
    and f: "\<And>th. th_static (f th) = th_static th" "stat (f (threads s c)) = ND_THREAD_STAT_READY"
    and add: "add = (if prio_of s n < prio_of s c then nd_thread_ready_add_head else nd_thread_ready_add_tail)"
  shows "wp (add c (upd_thread f c s)) (\<lambda>s'. kinv {} s' \<and> sched_frame s s' \<and> rest s' = rest s \<and> picked c n s s')"
proof (rule wp_mono [OF put_back_ok [OF assms(1-3) f]])
  let ?L = "if prio_of s n < prio_of s c then c # qlists s (ReadyList (prio_of s c))
            else qlists s (ReadyList (prio_of s c)) @ [c]"
  show "add = nd_thread_ready_add_tail \<and> ?L = qlists s (ReadyList (prio_of s c)) @ [c] \<or>
        add = nd_thread_ready_add_head \<and> ?L = c # qlists s (ReadyList (prio_of s c))"
    using add by simp
  fix s'
  assume s': "kinv {} s' \<and> sched_frame s s' \<and> rest s' = rest s \<and>
           threads s' = (threads s)(c := f (threads s c)) \<and>
           qlists s' = (qlists s)(ReadyList (prio_of s c) := ?L)"
  have "highest s' n"
    using assms(3,4,5) s' f(2) th_staticD(1) [OF f(1) [of "threads s c"]]
    by (auto simp: highest_def)
  then show "kinv {} s' \<and> sched_frame s s' \<and> rest s' = rest s \<and> picked c n s s'"
    using s' assms(3,4) fr f(2) by (simp add: picked_def)
qed

lemma nd_schedule_pick_next_ok:
  assumes k: "kinv {} s" and cur: "nd_current_thread s = Some c"
  shows "wp (nd_schedule_pick_next s) (\<lambda>(r, s'). kinv {} s' \<and> sched_frame s s' \<and> rest s' = rest s \<and>
           (case r of
              None \<Rightarrow> s' = s \<and> (if status s c = ND_THREAD_STAT_RUNNING
                             then \<forall>t. status s t = ND_THREAD_STAT_READY \<longrightarrow> prio_of s c \<le> prio_of s t \<and>
                               (yield (threads s c) \<longrightarrow> prio_of s c < prio_of s t)
                             else \<forall>t. status s t \<noteq> ND_THREAD_STAT_READY)
            | Some n \<Rightarrow> picked c n s s'))"
proof -
  obtain r where r: "nd_get_highest_priority_thread s = Some r"
    and hi: "case r of None \<Rightarrow> \<forall>t. status s t \<noteq> ND_THREAD_STAT_READY | Some n \<Rightarrow> highest s n \<and> front s n"
    using nd_get_highest_priority_thread_ok [OF k] by (auto simp: wp_iff front_def split: option.splits)
  show ?thesis
  proof (cases r)
    case None
    with r hi k show ?thesis by (simp add: nd_schedule_pick_next_def)
  next
    case (Some n)
    with hi have n: "highest s n" "front s n" by simp_all
    let ?p = "prio_of s n" and ?q = "prio_of s c" and ?run = "status s c = ND_THREAD_STAT_RUNNING"
    let ?y = "upd_thread (yield_update (\<lambda>_. False)) c s"
    consider (pre) "?p < ?q" | (rot) "?p = ?q" "yield (threads s c)"
      | (off) "\<not> ?p < ?q" "\<not> (?p = ?q \<and> yield (threads s c))" "\<not> ?run"
      | (stay) "\<not> ?p < ?q" "\<not> (?p = ?q \<and> yield (threads s c))" "?run" by blast
    then show ?thesis
    proof cases
      case pre
      show ?thesis
      proof (cases ?run)
        case True
        with pre have eq: "nd_schedule_pick_next s = map_option (Pair (Some n))
            (nd_thread_ready_add_head c (upd_thread (stat_update (\<lambda>_. ND_THREAD_STAT_READY)) c s))"
          by (simp add: nd_schedule_pick_next_def r Some nd_should_switch_def cur map_option_case
              split: option.splits)
        show ?thesis unfolding eq wp_map_option prod.case option.case
          by (rule pick_ok_readied [OF k cur True n(1) _ n(2)]) (use pre in simp_all)
      next
        case False
        with pre r Some cur k n show ?thesis
          by (simp add: nd_schedule_pick_next_def nd_should_switch_def picked_def)
      qed
    next
      case rot
      show ?thesis
      proof (cases ?run)
        case True
        let ?f = "(if time_slice (threads s c) \<noteq> 0 then refill_slice else id) \<circ>
                  stat_update (\<lambda>_. ND_THREAD_STAT_READY) \<circ> yield_update (\<lambda>_. False)"
        have eq: "nd_schedule_pick_next s = map_option (Pair (Some n))
            (nd_thread_ready_add_tail c (upd_thread ?f c s))"
          using rot True
          by (simp add: nd_schedule_pick_next_def r Some nd_should_switch_def cur map_option_case
              upd_thread_upd_thread comp_assoc split: option.splits)
        show ?thesis unfolding eq wp_map_option prod.case option.case
          by (rule pick_ok_readied [OF k cur True n(1) _ n(2)]) (use rot in \<open>simp_all add: refill_slice_def\<close>)
      next
        case False
        have "kinv {} ?y" by (rule kinv_benign [OF k]) simp_all
        moreover have "sched_frame s ?y" by (rule sched_frame_upd_thread) simp_all
        moreover have "picked c n s ?y" using n False by (auto simp: picked_def highest_def)
        ultimately show ?thesis using rot r Some cur False
          by (simp add: nd_schedule_pick_next_def nd_should_switch_def)
      qed
    next
      case off
      with r Some cur k n show ?thesis
        by (cases "?p = ?q") (simp_all add: nd_schedule_pick_next_def nd_should_switch_def picked_def)
    next
      case stay
      with r Some cur k n show ?thesis
        by (auto simp: nd_schedule_pick_next_def nd_should_switch_def highest_def)
    qed
  qed
qed


section \<open>Time slices\<close>

definition slice_stopped :: "tid \<Rightarrow> kstate \<Rightarrow> kstate \<Rightarrow> bool" where
  "slice_stopped p s s' \<longleftrightarrow>
     timer_frame (SliceTimer p) s s' \<and> set (rbtree s') = set (rbtree s) - {SliceTimer p}"

lemma slice_stoppedD:
  assumes "slice_stopped p s s'"
  shows "rest s' = rest s" "sched_frame s s'" "threads s' = threads s" "qlists s' = qlists s"
    "qhome s' = qhome s" "nd_current_thread s' = nd_current_thread s"
    "nd_thread_list s' = nd_thread_list s"
    "SliceTimer t \<in> set (rbtree s') \<longleftrightarrow> SliceTimer t \<in> set (rbtree s) \<and> t \<noteq> p"
    "ThreadTimer t \<in> set (rbtree s') \<longleftrightarrow> ThreadTimer t \<in> set (rbtree s)"
    "timers s' (ThreadTimer t) = timers s (ThreadTimer t)"
    "callback (timers s' (SliceTimer t)) = callback (timers s (SliceTimer t))"
    "arg (timers s' (SliceTimer t)) = arg (timers s (SliceTimer t))"
    "timer_type (timers s' (SliceTimer t)) = timer_type (timers s (SliceTimer t))"
proof -
  have fr: "timer_frame (SliceTimer p) s s'" and set: "set (rbtree s') = set (rbtree s) - {SliceTimer p}"
    using assms by (simp_all add: slice_stopped_def)
  show "rest s' = rest s" by (rule timer_frame_rest [OF fr])
  show "sched_frame s s'" by (rule sched_frame_slice_timer [OF fr]) (simp add: set)
  show "threads s' = threads s" "qlists s' = qlists s" "qhome s' = qhome s"
    "nd_current_thread s' = nd_current_thread s" "nd_thread_list s' = nd_thread_list s"
    using timer_frameD [OF fr] by simp_all
  show "SliceTimer t \<in> set (rbtree s') \<longleftrightarrow> SliceTimer t \<in> set (rbtree s) \<and> t \<noteq> p"
    "ThreadTimer t \<in> set (rbtree s') \<longleftrightarrow> ThreadTimer t \<in> set (rbtree s)"
    by (auto simp: set)
  show "timers s' (ThreadTimer t) = timers s (ThreadTimer t)"
    "callback (timers s' (SliceTimer t)) = callback (timers s (SliceTimer t))"
    "arg (timers s' (SliceTimer t)) = arg (timers s (SliceTimer t))"
    "timer_type (timers s' (SliceTimer t)) = timer_type (timers s (SliceTimer t))"
    using fr by (cases "t = p"; simp add: timer_frame_def)+
qed

lemma slice_stop_ok:
  assumes "base_ok s"
  shows "wp (timer_stop (SliceTimer p) s) (\<lambda>s'. base_ok s' \<and> slice_stopped p s s')"
  by (rule wp_mono [OF timer_stop_ok [OF assms, of "SliceTimer p" p]]) (simp_all add: slice_stopped_def)

lemma thread_ok_slice_stopped: "thread_ok s t \<Longrightarrow> slice_stopped p s s' \<Longrightarrow> thread_ok s' t"
  unfolding thread_ok_def timer_ok_def slice_ok_def by (simp only: slice_stoppedD) blast

lemma readying_slice_stopped: "readying s t \<Longrightarrow> slice_stopped p s s' \<Longrightarrow> readying s' t"
  unfolding readying_def timer_ok_def slice_ok_def by (simp only: slice_stoppedD) simp

lemma kinv_slice_stopped: "kinv X s \<Longrightarrow> slice_stopped p s s' \<Longrightarrow> base_ok s' \<Longrightarrow> kinv X s'"
  using thread_ok_slice_stopped by (auto simp: kinv_def)

lemma readying_upd_thread:
  assumes "readying s u" and "th_static (f (threads s t)) = th_static (threads s t)"
    and "stat (f (threads s t)) = status s t"
  shows "readying (upd_thread f t s) u"
  using assms(1,3) th_staticD [OF assms(2)] unfolding readying_def
  by (cases "u = t") (auto simp: timer_ok_def slice_ok_def)

text \<open>The states a slice operation may reach: thread statuses and ready lists stay.\<close>

definition slice_frame :: "kstate \<Rightarrow> kstate \<Rightarrow> bool" where
  "slice_frame s s' \<longleftrightarrow> sched_frame s s' \<and> rest s' = rest s \<and> qlists s' = qlists s \<and>
     qhome s' = qhome s \<and> (\<forall>t. status s' t = status s t)"

lemma slice_frame_stopped: "slice_stopped p s s' \<Longrightarrow> slice_frame s s'"
  by (simp add: slice_frame_def slice_stoppedD)

lemma slice_frame_upd_thread:
  assumes "\<And>th. th_static (f th) = th_static th" and "stat (f (threads s t)) = status s t"
  shows "slice_frame s (upd_thread f t s)"
proof -
  have "sched_frame s (upd_thread f t s)"
    by (rule sched_frame_upd_thread [OF sched_frame_refl assms(1)]) (simp add: assms(2))
  with assms(2) show ?thesis by (simp add: slice_frame_def)
qed

lemma slice_frame_trans: "slice_frame s s1 \<Longrightarrow> slice_frame s1 s2 \<Longrightarrow> slice_frame s s2"
  unfolding slice_frame_def using sched_frame_trans by auto

lemma stat_charge [simp]: "stat (charge_slice t0 th) = stat th"
  by (simp add: charge_slice_def Let_def)

lemma stat_refill [simp]: "stat (refill_slice th) = stat th"
  by (simp add: refill_slice_def)

lemma slice_out_ok:
  assumes "kinv X s" and "readying s n" and "\<And>p. prev = Some p \<Longrightarrow> p \<noteq> n \<Longrightarrow> thread_ok s p"
  shows "wp (slice_out prev t0 s) (\<lambda>s'. kinv X s' \<and> readying s' n \<and> slice_frame s s' \<and>
           (\<forall>p. prev = Some p \<longrightarrow> SliceTimer p \<notin> set (rbtree s')))"
proof (cases prev)
  case None
  with assms show ?thesis by (simp add: slice_out_def slice_frame_def)
next
  case (Some p)
  show ?thesis
  proof (cases "time_slice (threads s p) = 0")
    case True
    have "SliceTimer p \<notin> set (rbtree s)"
      using assms(2) assms(3) [OF Some] True
      by (cases "p = n") (auto simp: thread_ok_def readying_def slice_ok_def)
    with True Some assms show ?thesis by (simp add: slice_out_def slice_frame_def)
  next
    case False
    let ?s1 = "upd_thread (charge_slice t0) p s"
    let ?f = "slice_start_update (\<lambda>_. 0)"
    have 1: "kinv X ?s1" "readying ?s1 n" "slice_frame s ?s1"
      using kinv_benign [OF assms(1)] readying_upd_thread [OF assms(2)] slice_frame_upd_thread by simp_all
    have "wp (timer_stop (SliceTimer p) ?s1) (\<lambda>s2. kinv X (upd_thread ?f p s2) \<and>
        readying (upd_thread ?f p s2) n \<and> slice_frame s (upd_thread ?f p s2) \<and>
        SliceTimer p \<notin> set (rbtree (upd_thread ?f p s2)))"
    proof (rule wp_mono [OF slice_stop_ok [OF kinvD(1) [OF 1(1)]]], elim conjE, intro conjI)
      fix s2
      assume s2: "base_ok s2" "slice_stopped p ?s1 s2"
      have k: "kinv X s2" by (rule kinv_slice_stopped [OF 1(1) s2(2,1)])
      have r: "readying s2 n" by (rule readying_slice_stopped [OF 1(2) s2(2)])
      show "kinv X (upd_thread ?f p s2)" by (rule kinv_benign [OF k]) simp_all
      show "readying (upd_thread ?f p s2) n" by (rule readying_upd_thread [OF r]) simp_all
      show "slice_frame s (upd_thread ?f p s2)"
        by (rule slice_frame_trans [OF slice_frame_trans [OF 1(3) slice_frame_stopped [OF s2(2)]]])
          (rule slice_frame_upd_thread; simp)
      show "SliceTimer p \<notin> set (rbtree (upd_thread ?f p s2))"
        using slice_stoppedD(8) [OF s2(2)] by simp
    qed
    with False Some show ?thesis by (simp add: slice_out_def Let_def)
  qed
qed


lemma slice_frame_refl [simp]: "slice_frame s s"
  by (simp add: slice_frame_def)

lemma thread_ok_current:
  assumes "thread_ok s c" and "nd_current_thread s = Some c"
  shows "status s c \<noteq> ND_THREAD_STAT_INIT"
    "arg (timers s (SliceTimer c)) = Some c" "callback (timers s (SliceTimer c)) = Some CB_slice"
    "timer_type (timers s (SliceTimer c)) = ND_TIMER_TYPE_ONE_SHOT"
    "arg (timers s (ThreadTimer c)) = Some c"
    "timer_type (timers s (ThreadTimer c)) = ND_TIMER_TYPE_ONE_SHOT"
  using assms by (auto simp: thread_ok_def timer_ok_def slice_ok_def)

lemma slice_start_ok:
  assumes k: "kinv {} s" and cur: "nd_current_thread s = Some n" and "time_slice (threads s n) \<noteq> 0"
  shows "wp (timer_start (SliceTimer n) s) (\<lambda>s'. kinv {} s' \<and> slice_frame s s')"
proof -
  note tok = kinvD(2) [OF k, of n, simplified]
  have cb: "callback (timers s (SliceTimer n)) \<noteq> None" using thread_ok_current(3) [OF tok cur] by simp
  show ?thesis
  proof (rule wp_mono [OF timer_start_ok [OF kinvD(1) [OF k] cb]], simp, elim conjE, intro conjI)
    fix s'
    assume s': "base_ok s'" "timer_frame (SliceTimer n) s s'" "only {n} s s'"
      "set (rbtree s') = insert (SliceTimer n) (set (rbtree s))"
    note fr = timer_frameD [OF s'(2)]
    have sl: "callback (timers s' (SliceTimer n)) = callback (timers s (SliceTimer n))"
      "arg (timers s' (SliceTimer n)) = arg (timers s (SliceTimer n))"
      "timer_type (timers s' (SliceTimer n)) = timer_type (timers s (SliceTimer n))"
      "timers s' (ThreadTimer n) = timers s (ThreadTimer n)"
      using s'(2) by (simp_all add: timer_frame_def)
    have "thread_ok s' n"
      using tok assms(2,3) unfolding thread_ok_def slice_ok_def by (simp add: fr sl s'(4))
    then show "kinv {} s'" by (intro kinv_step [OF kinv_mono [OF k] s'(3,1)]) simp_all
    show "slice_frame s s'"
      using sched_frame_slice_timer [OF s'(2)] s'(4) timer_frame_rest [OF s'(2)]
      by (simp add: slice_frame_def fr)
  qed
qed

lemma kinv_upd_slice_timeout:
  assumes "kinv {} s" and "SliceTimer n \<notin> set (rbtree s)"
  shows "kinv {} (upd_timer (timeout_update f) (SliceTimer n) s)" (is "kinv {} ?s'")
    "slice_frame s (upd_timer (timeout_update f) (SliceTimer n) s)"
proof -
  have b: "base_ok ?s'" by (rule base_ok_upd_timer [OF kinvD(1) [OF assms(1)] assms(2)]) simp_all
  have "thread_ok ?s' t" for t
    using kinvD(2) [OF assms(1), of t] unfolding thread_ok_def timer_ok_def slice_ok_def
    by (cases "t = n") (simp_all add: upd_timer_def)
  with b show "kinv {} ?s'" by (simp add: kinv_def)
  have "timers ?s' r = timers s r" if "\<forall>t. r \<noteq> SliceTimer t" for r using that by (simp add: upd_timer_def)
  then show "slice_frame s ?s'" by (simp add: slice_frame_def sched_frame_def) (simp add: upd_timer_def)
qed

lemma slice_in_ok:
  assumes k: "kinv {} s" and cur: "nd_current_thread s = Some n"
  shows "wp (slice_in n t0 s) (\<lambda>s'. kinv {} s' \<and> slice_frame s s')"
proof (cases "time_slice (threads s n) = 0")
  case True
  with k show ?thesis by (simp add: slice_in_def)
next
  case ts: False
  show ?thesis
  proof (cases "prio_of s n < ND_THREAD_PRIORITY_MAX \<and> \<not> q_is_empty (ReadyList (prio_of s n)) s")
    case True
    let ?s1 = "if slice_left (threads s n) = 0 \<or> slice_left (threads s n) > time_slice (threads s n)
               then upd_thread (\<lambda>t. t\<lparr>slice_left := time_slice t\<rparr>) n s else s"
    let ?s3 = "\<lambda>s2. upd_timer (timeout_update (\<lambda>_. slice_left (threads s2 n))) (SliceTimer n) s2"
    let ?s4 = "\<lambda>s2. upd_thread (slice_start_update (\<lambda>_. t0)) n (?s3 s2)"
    have 1: "kinv {} ?s1" "slice_frame s ?s1" "nd_current_thread ?s1 = Some n"
      "time_slice (threads ?s1 n) \<noteq> 0"
      using kinv_benign [OF k] slice_frame_upd_thread k cur ts by (simp_all add: th_static_def)
    have "wp (timer_stop (SliceTimer n) ?s1) (\<lambda>s2. wp (timer_start (SliceTimer n) (?s4 s2))
            (\<lambda>s'. kinv {} s' \<and> slice_frame s s'))"
    proof (rule wp_mono [OF slice_stop_ok [OF kinvD(1) [OF 1(1)]]], elim conjE)
      fix s2
      assume s2: "base_ok s2" "slice_stopped n ?s1 s2"
      have k2: "kinv {} s2" by (rule kinv_slice_stopped [OF 1(1) s2(2,1)])
      have out: "SliceTimer n \<notin> set (rbtree s2)" using slice_stoppedD(8) [OF s2(2)] by simp
      note 3 = kinv_upd_slice_timeout [OF k2 out, of "\<lambda>_. slice_left (threads s2 n)"]
      have k4: "kinv {} (?s4 s2)" by (rule kinv_benign [OF 3(1)]) simp_all
      have f4: "slice_frame s (?s4 s2)"
        by (rule slice_frame_trans [OF slice_frame_trans [OF slice_frame_trans
            [OF 1(2) slice_frame_stopped [OF s2(2)]] 3(2)] slice_frame_upd_thread]) simp_all
      have sel: "threads (?s3 s2) = threads s2" "nd_current_thread (?s3 s2) = nd_current_thread s2"
        by (simp_all add: upd_timer_def)
      have cur4: "nd_current_thread (?s4 s2) = Some n" "time_slice (threads (?s4 s2) n) \<noteq> 0"
        using 1(3,4) slice_stoppedD(3,6) [OF s2(2)] sel by simp_all
      show "wp (timer_start (SliceTimer n) (?s4 s2)) (\<lambda>s'. kinv {} s' \<and> slice_frame s s')"
        by (rule wp_mono [OF slice_start_ok [OF k4 cur4]]) (use slice_frame_trans [OF f4] in blast)
    qed
    with True ts show ?thesis by (simp add: slice_in_def Let_def)
  next
    case False
    have "wp (timer_stop (SliceTimer n) s) (\<lambda>s1. kinv {} (upd_thread refill_slice n s1) \<and>
            slice_frame s (upd_thread refill_slice n s1))"
    proof (rule wp_mono [OF slice_stop_ok [OF kinvD(1) [OF k]]], elim conjE, intro conjI)
      fix s1
      assume s1: "base_ok s1" "slice_stopped n s s1"
      have k1: "kinv {} s1" by (rule kinv_slice_stopped [OF k s1(2,1)])
      show "kinv {} (upd_thread refill_slice n s1)" by (rule kinv_benign [OF k1]) simp_all
      show "slice_frame s (upd_thread refill_slice n s1)"
        by (rule slice_frame_trans [OF slice_frame_stopped [OF s1(2)] slice_frame_upd_thread]) simp_all
    qed
    with False ts show ?thesis by (auto simp: slice_in_def Let_def)
  qed
qed


section \<open>The context switch\<close>

definition switched :: "tid \<Rightarrow> kstate \<Rightarrow> kstate \<Rightarrow> bool" where
  "switched n s s' \<longleftrightarrow>
     nd_current_thread s' = Some n \<and> nd_next_thread s' = None \<and>
     nd_interrupt_try_switch s' = nd_interrupt_try_switch s \<and> pendsv s' = pendsv s \<and>
     status s' n = ND_THREAD_STAT_RUNNING \<and> (\<forall>t. t \<noteq> n \<longrightarrow> status s' t = status s t) \<and>
     qlists s' = (qlists s)(ReadyList (prio_of s n) := remove1 n (qlists s (ReadyList (prio_of s n))))"

lemma slice_frameD:
  assumes "slice_frame s s'"
  shows "sched_frame s s'" "rest s' = rest s" "qlists s' = qlists s" "qhome s' = qhome s"
    "status s' t = status s t" "nd_current_thread s' = nd_current_thread s"
    "nd_next_thread s' = nd_next_thread s" "nd_interrupt_try_switch s' = nd_interrupt_try_switch s"
    "pendsv s' = pendsv s"
  using assms restD(4,5,7,8) [of s' s] by (simp_all add: slice_frame_def)

lemma take_processor:
  assumes k: "kinv {n} s" and r: "readying s n"
    and off: "\<And>p. nd_current_thread s = Some p \<Longrightarrow> p \<noteq> n \<Longrightarrow>
                status s p \<noteq> ND_THREAD_STAT_RUNNING \<and> SliceTimer p \<notin> set (rbtree s)"
  shows "kinv {} (upd_thread (stat_update (\<lambda>_. ND_THREAD_STAT_RUNNING)) n
           (s\<lparr>nd_next_thread := None, nd_current_thread := Some n\<rparr>))" (is "kinv {} ?s'")
proof -
  have "base_ok ?s'"
    using kinvD(1) [OF k] by (simp add: base_ok_def lists_ok_def timers_ok_def bits_ok_def user_ok_def)
  moreover have "thread_ok ?s' t" for t
  proof (cases "t = n")
    case True
    with r show ?thesis
      by (simp add: thread_ok_def readying_def home_ok_def timer_ok_def slice_ok_def)
  next
    case False
    with kinvD(2) [OF k, of t] off [of t] show ?thesis
      unfolding thread_ok_def slice_ok_def by (cases "nd_current_thread s = Some t") simp_all
  qed
  ultimately show ?thesis by (simp add: kinv_def)
qed

lemma nd_context_switch_cb_ok:
  assumes k: "kinv {} s" and n: "status s n = ND_THREAD_STAT_READY"
    and off: "\<And>c. nd_current_thread s = Some c \<Longrightarrow> status s c \<noteq> ND_THREAD_STAT_RUNNING"
  shows "wp (nd_context_switch_cb (Some n) s) (\<lambda>s'. kinv {} s' \<and> sched_frame s s' \<and> switched n s s')"
proof -
  let ?p = "prio_of s n" and ?run = "stat_update (\<lambda>_. ND_THREAD_STAT_RUNNING)"
  let ?s3 = "\<lambda>s2. s2\<lparr>nd_next_thread := None, nd_current_thread := Some n\<rparr>"
  note tok = kinvD(2) [OF k, simplified]
  have home: "qhome s n = Some (ReadyList ?p)" "?p < ND_THREAD_PRIORITY_MAX"
    using ready_home [OF tok] n tok [of n] by (simp_all add: thread_ok_def)
  have def': "nd_context_switch_cb (Some n) s = do {
      s1 \<leftarrow> nd_thread_ready_remove n s;
      s2 \<leftarrow> slice_out (nd_current_thread s) (now s) s1;
      slice_in n (now s) (upd_thread ?run n (?s3 s2)) }"
    by (simp add: nd_context_switch_cb_def nd_hw_get_current_def Let_def)
  show ?thesis unfolding def' wp_bind
  proof (rule wp_mono [OF nd_thread_ready_remove_ok [OF kinvD(1) [OF k] home(1) refl home(2)]], elim conjE)
    fix s1
    assume s1: "base_ok s1" and rel: "relinked n None (ReadyList ?p) (remove1 n (qlists s (ReadyList ?p))) s s1"
    note R = relinkedD [OF rel]
    have k1: "kinv {n} s1" by (rule kinv_relinked [OF kinv_mono [OF k] rel s1]) simp
    have r1: "readying s1 n"
      using tok [of n] n home unfolding readying_def thread_ok_def R
      by (auto simp: timer_ok_def)
    have ok1: "thread_ok s1 c" if "nd_current_thread s = Some c" "c \<noteq> n" for c
      using kinvD(2) [OF k1] that by simp
    show "wp (slice_out (nd_current_thread s) (now s) s1) (\<lambda>s2. wp (slice_in n (now s)
            (upd_thread ?run n (?s3 s2))) (\<lambda>s'. kinv {} s' \<and> sched_frame s s' \<and> switched n s s'))"
    proof (rule wp_mono [OF slice_out_ok [OF k1 r1 ok1]], assumption, assumption, elim conjE)
      fix s2
      assume s2: "kinv {n} s2" "readying s2 n" "slice_frame s1 s2"
        "\<forall>p. nd_current_thread s = Some p \<longrightarrow> SliceTimer p \<notin> set (rbtree s2)"
      note F = slice_frameD [OF s2(3)]
      let ?s4 = "upd_thread ?run n (?s3 s2)"
      have k4: "kinv {} ?s4"
        by (rule take_processor [OF s2(1,2)]) (use s2(4) off F(5,6) R(2,8) in auto)
      have cur4: "nd_current_thread ?s4 = Some n" by simp
      have "sched_frame s1 (?s3 s2)" using F(1) by (simp add: sched_frame_def)
      then have "sched_frame s1 ?s4"
        using s2(2) by (intro sched_frame_upd_thread) (simp_all add: readying_def runnable_def)
      then have f4: "sched_frame s ?s4"
        using sched_frame_relinked [OF rel] sched_frame_trans by simp
      have sw: "switched n s ?s4"
        using F R restD(5,7,8) [OF R(1)] by (simp add: switched_def)
      show "wp (slice_in n (now s) ?s4) (\<lambda>s'. kinv {} s' \<and> sched_frame s s' \<and> switched n s s')"
      proof (rule wp_mono [OF slice_in_ok [OF k4 cur4]], elim conjE, intro conjI)
        fix s'
        assume s': "kinv {} s'" "slice_frame ?s4 s'"
        show "kinv {} s'" by (rule s'(1))
        show "sched_frame s s'" by (rule sched_frame_trans [OF f4 slice_frameD(1) [OF s'(2)]])
        show "switched n s s'" using sw slice_frameD [OF s'(2)] by (simp add: switched_def)
      qed
    qed
  qed
qed

section \<open>Scheduling points\<close>

lemma kinv_fields [simp]:
  "kinv X (s\<lparr>nd_next_thread := a\<rparr>) = kinv X s" "kinv X (s\<lparr>pendsv := b\<rparr>) = kinv X s"
  "kinv X (s\<lparr>nd_interrupt_try_switch := c\<rparr>) = kinv X s"
  "kinv X (s\<lparr>nd_interrupt_nest_count := d\<rparr>) = kinv X s" "kinv X (s\<lparr>now := e\<rparr>) = kinv X s"
  "kinv X (s\<lparr>taken_list := f\<rparr>) = kinv X s" "kinv X (s\<lparr>sems := g\<rparr>) = kinv X s"
  "kinv X (s\<lparr>mutexes := h\<rparr>) = kinv X s" "kinv X (s\<lparr>events := i\<rparr>) = kinv X s"
  "kinv X (s\<lparr>queues := j\<rparr>) = kinv X s" "kinv X (s\<lparr>pools := k\<rparr>) = kinv X s"
  by (simp_all add: kinv_def base_ok_def lists_ok_def timers_ok_def bits_ok_def user_ok_def thread_ok_def)

text \<open>The current thread: it runs, or a switch away from it is pending.\<close>

definition cur_link :: "kstate \<Rightarrow> bool" where
  "cur_link s \<longleftrightarrow>
     (nd_interrupt_try_switch s \<longrightarrow> nd_interrupt_nest_count s \<noteq> 0) \<and>
     (\<forall>c. nd_current_thread s = Some c \<longrightarrow>
        (if pendsv s
         then port s = SwitchDeferred \<and> status s c \<noteq> ND_THREAD_STAT_RUNNING \<and>
              (\<exists>n. nd_next_thread s = Some n \<and> status s n = ND_THREAD_STAT_READY)
         else nd_next_thread s = None))"

definition cur_ok :: "kstate \<Rightarrow> bool" where
  "cur_ok s \<longleftrightarrow> cur_link s \<and>
     (\<forall>c. nd_current_thread s = Some c \<longrightarrow> \<not> pendsv s \<longrightarrow> \<not> nd_interrupt_try_switch s \<longrightarrow>
        status s c = ND_THREAD_STAT_RUNNING)"

text \<open>The kernel invariant; \<open>i\<close> is the idle thread.\<close>

definition kernel_ok :: "tid \<Rightarrow> kstate \<Rightarrow> bool" where
  "kernel_ok i s \<longleftrightarrow> kinv {} s \<and> cur_ok s \<and> runnable (status s i)"

text \<open>No higher-priority thread waits for the processor, unless a switch is owed to it.\<close>

definition scheduled :: "kstate \<Rightarrow> bool" where
  "scheduled s \<longleftrightarrow> (\<forall>c. nd_current_thread s = Some c \<longrightarrow> \<not> nd_interrupt_try_switch s \<longrightarrow>
     (if pendsv s then (\<exists>n. nd_next_thread s = Some n \<and> highest s n)
      else status s c = ND_THREAD_STAT_RUNNING \<and>
           (\<forall>t. status s t = ND_THREAD_STAT_READY \<longrightarrow> prio_of s c \<le> prio_of s t)))"

text \<open>One run of \<open>nd_schedule_core\<close>.\<close>

definition sched_step :: "tid \<Rightarrow> kstate \<Rightarrow> kstate \<Rightarrow> bool" where
  "sched_step c s s' \<longleftrightarrow>
      s' = s \<and> status s c = ND_THREAD_STAT_RUNNING \<and>
       (\<forall>t. status s t = ND_THREAD_STAT_READY \<longrightarrow> prio_of s c \<le> prio_of s t \<and>
          (yield (threads s c) \<longrightarrow> prio_of s c < prio_of s t)) \<or>
     (\<exists>n s1. picked c n s s1 \<and> rest s1 = rest s \<and> sched_frame s s1 \<and>
        (case port s of
           SwitchDeferred \<Rightarrow> s' = s1\<lparr>nd_next_thread := Some n, pendsv := True\<rparr>
         | SwitchImmediate \<Rightarrow> switched n s1 s'))"

lemma goI:
  assumes "picked c n s s1" and "rest s1 = rest s" and "sched_frame s s1"
  shows "port s = SwitchImmediate \<Longrightarrow> switched n s1 s' \<Longrightarrow> sched_step c s s'"
    and "port s = SwitchDeferred \<Longrightarrow> sched_step c s (s1\<lparr>nd_next_thread := Some n, pendsv := True\<rparr>)"
  unfolding sched_step_def using assms
  by (intro disjI2 exI [of _ n] exI [of _ s1], simp)+

lemma runnable_ready: 
  assumes "kinv {} s" and "runnable (status s i)" and "nd_current_thread s = Some c"
    and "status s c \<noteq> ND_THREAD_STAT_RUNNING"
  shows "status s i = ND_THREAD_STAT_READY"
  using assms kinvD(2) [OF assms(1), of i] by (auto simp: runnable_def thread_ok_def)

lemma sched_frame_fields [simp]:
  "sched_frame s (s'\<lparr>nd_next_thread := a\<rparr>) = sched_frame s s'"
  "sched_frame s (s'\<lparr>pendsv := b\<rparr>) = sched_frame s s'"
  "sched_frame s (s'\<lparr>nd_interrupt_try_switch := c\<rparr>) = sched_frame s s'"
  "sched_frame (s\<lparr>nd_next_thread := a\<rparr>) s' = sched_frame s s'"
  "sched_frame (s\<lparr>nd_interrupt_try_switch := c\<rparr>) s' = sched_frame s s'"
  by (simp_all add: sched_frame_def)

lemma switched_next [simp]: "switched n (s\<lparr>nd_next_thread := a\<rparr>) s' = switched n s s'"
  by (simp add: switched_def)

lemma nd_schedule_core_ok:
  assumes k: "kinv {} s" and cur: "nd_current_thread s = Some c" and idle: "runnable (status s i)"
  shows "wp (nd_schedule_core s) (\<lambda>s'. kinv {} s' \<and> sched_frame s s' \<and> sched_step c s s')"
  unfolding nd_schedule_core_def wp_bind
proof (rule wp_mono [OF nd_schedule_pick_next_ok [OF k cur]], clarify)
  fix r s1
  assume s1: "kinv {} s1" "sched_frame s s1" "rest s1 = rest s"
    and r: "case r of None \<Rightarrow> s1 = s \<and> (if status s c = ND_THREAD_STAT_RUNNING
                             then \<forall>t. status s t = ND_THREAD_STAT_READY \<longrightarrow> prio_of s c \<le> prio_of s t \<and>
                               (yield (threads s c) \<longrightarrow> prio_of s c < prio_of s t)
                             else \<forall>t. status s t \<noteq> ND_THREAD_STAT_READY)
            | Some n \<Rightarrow> picked c n s s1"
  note R = restD [OF s1(3)]
  show "wp (case r of None \<Rightarrow> Some s1 | Some n \<Rightarrow> nd_hw_do_switch (s1\<lparr>nd_next_thread := Some n\<rparr>))
         (\<lambda>s'. kinv {} s' \<and> sched_frame s s' \<and> sched_step c s s')"
  proof (cases r)
    case None
    with r s1 runnable_ready [OF k idle cur] show ?thesis
      by (auto simp: sched_step_def split: if_splits)
  next
    case (Some n)
    with r have p: "picked c n s s1" by simp
    show ?thesis
    proof (cases "port s")
      case SwitchDeferred
      with Some R(1) s1 goI [OF p s1(3,2)] show ?thesis by (simp add: nd_hw_do_switch_def)
    next
      case SwitchImmediate
      have n: "status (s1\<lparr>nd_next_thread := Some n\<rparr>) n = ND_THREAD_STAT_READY"
        using p by (simp add: picked_def highest_def)
      have off: "status (s1\<lparr>nd_next_thread := Some n\<rparr>) d \<noteq> ND_THREAD_STAT_RUNNING"
        if "nd_current_thread (s1\<lparr>nd_next_thread := Some n\<rparr>) = Some d" for d
        using that R(4) cur p by (simp add: picked_def)
      have k1: "kinv {} (s1\<lparr>nd_next_thread := Some n\<rparr>)" using s1(1) by simp
      have "wp (nd_context_switch_cb (Some n) (s1\<lparr>nd_next_thread := Some n\<rparr>))
              (\<lambda>s'. kinv {} s' \<and> sched_frame s s' \<and> sched_step c s s')"
      proof (rule wp_mono [OF nd_context_switch_cb_ok [OF k1 n off]], assumption, elim conjE, intro conjI)
        fix s'
        assume s': "kinv {} s'" "sched_frame (s1\<lparr>nd_next_thread := Some n\<rparr>) s'"
          "switched n (s1\<lparr>nd_next_thread := Some n\<rparr>) s'"
        show "kinv {} s'" by (rule s'(1))
        show "sched_frame s s'" by (rule sched_frame_trans [OF s1(2)]) (use s'(2) in simp)
        show "sched_step c s s'" using goI(1) [OF p s1(3,2) SwitchImmediate] s'(3) by simp
      qed
      with Some SwitchImmediate R(1) show ?thesis by (simp add: nd_hw_do_switch_def)
    qed
  qed
qed


lemma runnable_frame: "sched_frame s s' \<Longrightarrow> runnable (status s i) \<Longrightarrow> runnable (status s' i)"
  using sched_frameD(4) [of s s' i] by auto

lemma sched_step_ok:
  assumes k: "kinv {} s'" and fr: "sched_frame s s'" and st: "sched_step c s s'"
    and cur: "nd_current_thread s = Some c" and link: "cur_link s" and idle: "runnable (status s i)"
    and tr: "\<not> nd_interrupt_try_switch s"
  shows "kernel_ok i s'" and "scheduled s'" and "\<not> nd_interrupt_try_switch s'"
proof -
  have run: "runnable (status s' i)" by (rule runnable_frame [OF fr idle])
  from st consider (stay) "s' = s" "status s c = ND_THREAD_STAT_RUNNING"
      "\<forall>t. status s t = ND_THREAD_STAT_READY \<longrightarrow> prio_of s c \<le> prio_of s t"
    | (go) n s1 where "picked c n s s1" "rest s1 = rest s" "sched_frame s s1" "case port s of
          SwitchDeferred \<Rightarrow> s' = s1\<lparr>nd_next_thread := Some n, pendsv := True\<rparr>
        | SwitchImmediate \<Rightarrow> switched n s1 s'"
    unfolding sched_step_def by blast
  then have "cur_ok s' \<and> scheduled s' \<and> \<not> nd_interrupt_try_switch s'"
  proof cases
    case stay
    with link cur tr show ?thesis
      by (cases "pendsv s") (simp_all add: cur_ok_def cur_link_def scheduled_def)
  next
    case go
    note R = restD [OF go(2)]
    have p1: "prio_of s' u = prio_of s1 u" for u
      using th_staticD(1) [OF sched_frameD(3) [OF go(3)]] th_staticD(1) [OF sched_frameD(3) [OF fr]]
      by simp
    show ?thesis
    proof (cases "port s")
      case SwitchDeferred
      with go(4) have "s' = s1\<lparr>nd_next_thread := Some n, pendsv := True\<rparr>" by simp
      with go(1) R link cur tr SwitchDeferred show ?thesis
        by (simp add: cur_ok_def cur_link_def scheduled_def picked_def highest_def)
    next
      case SwitchImmediate
      with go(4) have sw: "switched n s1 s'" by simp
      have np: "\<not> pendsv s'"
        using link cur SwitchImmediate sw R(8)
        by (cases "pendsv s") (simp_all add: cur_link_def switched_def)
      moreover have "prio_of s' n \<le> prio_of s' t" if "status s' t = ND_THREAD_STAT_READY" for t
      proof -
        have "t \<noteq> n" using sw that by (auto simp: switched_def)
        with sw that have "status s1 t = ND_THREAD_STAT_READY" by (simp add: switched_def)
        with go(1) show ?thesis by (simp add: picked_def highest_def p1)
      qed
      ultimately show ?thesis
        using sw R tr by (simp add: cur_ok_def cur_link_def scheduled_def switched_def)
    qed
  qed
  with k run show "kernel_ok i s'" "scheduled s'" "\<not> nd_interrupt_try_switch s'"
    by (simp_all add: kernel_ok_def)
qed


lemma nd_schedule_core_start:
  assumes "kinv {} s" and "nd_current_thread s = None"
  shows "nd_schedule_core s = Some s"
proof -
  obtain r where "nd_get_highest_priority_thread s = Some r"
    using nd_get_highest_priority_thread_ok [OF assms(1)] by (auto simp: wp_iff)
  with assms(2) show ?thesis
    by (cases r) (simp_all add: nd_schedule_core_def nd_schedule_pick_next_def nd_should_switch_def)
qed

text \<open>Every scheduling point restores the invariant of the current thread.\<close>

definition sched_out :: "kstate \<Rightarrow> kstate \<Rightarrow> bool" where
  "sched_out s s' \<longleftrightarrow>
     (if nd_interrupt_nest_count s > 0 then s' = s\<lparr>nd_interrupt_try_switch := True\<rparr>
      else case nd_current_thread s of None \<Rightarrow> s' = s | Some c \<Rightarrow> sched_step c s s')"

lemma nd_scheduler_ok:
  assumes k: "kinv {} s" and link: "cur_link s" and idle: "runnable (status s i)"
  shows "wp (nd_scheduler s) (\<lambda>s'. kernel_ok i s' \<and> scheduled s' \<and> sched_frame s s' \<and> sched_out s s')"
proof (cases "nd_interrupt_nest_count s > 0")
  case True
  with k link idle show ?thesis
    by (simp add: nd_scheduler_def kernel_ok_def cur_ok_def cur_link_def scheduled_def sched_out_def word_gt_0)
next
  case nest: False
  then have tr: "\<not> nd_interrupt_try_switch s" using link by (auto simp: cur_link_def word_gt_0)
  show ?thesis
  proof (cases "nd_current_thread s")
    case None
    with nest nd_schedule_core_start [OF k None] k link idle show ?thesis
      by (simp add: nd_scheduler_def kernel_ok_def cur_ok_def scheduled_def sched_out_def)
  next
    case (Some c)
    have "wp (nd_schedule_core s) (\<lambda>s'. kernel_ok i s' \<and> scheduled s' \<and> sched_frame s s' \<and> sched_step c s s')"
      by (rule wp_mono [OF nd_schedule_core_ok [OF k Some idle]])
        (use sched_step_ok [OF _ _ _ Some link idle tr] in blast)
    with nest Some show ?thesis by (simp add: nd_scheduler_def sched_out_def)
  qed
qed

lemma kernel_okD:
  assumes "kernel_ok i s"
  shows "kinv {} s" "cur_link s" "runnable (status s i)" "base_ok s" "thread_ok s t"
    "nd_current_thread s = Some c \<Longrightarrow> \<not> pendsv s \<Longrightarrow> \<not> nd_interrupt_try_switch s \<Longrightarrow>
       status s c = ND_THREAD_STAT_RUNNING"
  using assms kinvD by (auto simp: kernel_ok_def cur_ok_def)

text \<open>Leaving an interrupt: the deferred switch is made, and only then.\<close>

lemma nd_try_schedule_ok:
  assumes k: "kinv {} s" and idle: "runnable (status s i)"
    and link: "cur_link (s\<lparr>nd_interrupt_try_switch := False\<rparr>)"
    and run: "\<not> nd_interrupt_try_switch s \<Longrightarrow> kernel_ok i s \<and> scheduled s"
    and nest: "nd_interrupt_nest_count s = 0"
  shows "wp (nd_try_schedule s) (\<lambda>s'. kernel_ok i s' \<and> scheduled s' \<and> sched_frame s s' \<and>
           \<not> nd_interrupt_try_switch s')"
proof (cases "nd_interrupt_try_switch s")
  case False
  with run nest show ?thesis by (simp add: nd_try_schedule_def)
next
  case True
  let ?s = "s\<lparr>nd_interrupt_try_switch := False\<rparr>"
  have k': "kinv {} ?s" using k by simp
  have idle': "runnable (status ?s i)" using idle by simp
  have "wp (nd_scheduler ?s) (\<lambda>s'. kernel_ok i s' \<and> scheduled s' \<and> sched_frame s s' \<and>
           \<not> nd_interrupt_try_switch s')"
  proof (rule wp_mono [OF nd_scheduler_ok [OF k' link idle']], elim conjE, intro conjI)
    fix s'
    assume s': "kernel_ok i s'" "scheduled s'" "sched_frame ?s s'"
    show "kernel_ok i s'" "scheduled s'" "sched_frame s s'" using s' by simp_all
    show "\<not> nd_interrupt_try_switch s'"
      using kernel_okD(2) [OF s'(1)] unschedD(4) [OF sched_frameD(1) [OF s'(3)]] nest
      by (auto simp: cur_link_def)
  qed
  with True nest show ?thesis by (simp add: nd_try_schedule_def nd_scheduler_def)
qed


text \<open>The PendSV handler makes the switch that is owed.\<close>

lemma isr_pendsv_ok:
  assumes ok: "kernel_ok i s" and p: "pendsv s" and c: "nd_current_thread s = Some c"
  shows "wp (isr_pendsv s) (\<lambda>s'. kernel_ok i s' \<and> sched_frame s s' \<and> \<not> pendsv s' \<and>
           nd_interrupt_try_switch s' = nd_interrupt_try_switch s \<and>
           (\<exists>n. nd_next_thread s = Some n \<and> nd_current_thread s' = Some n \<and>
                status s' n = ND_THREAD_STAT_RUNNING) \<and>
           (scheduled s \<longrightarrow> scheduled s'))"
proof -
  let ?s = "s\<lparr>pendsv := False\<rparr>"
  obtain n where n: "nd_next_thread s = Some n" "status s n = ND_THREAD_STAT_READY"
    and off: "status s c \<noteq> ND_THREAD_STAT_RUNNING"
    using kernel_okD(2) [OF ok] p c by (auto simp: cur_link_def)
  have k: "kinv {} ?s" using kernel_okD(1) [OF ok] by simp
  have def': "isr_pendsv s = nd_context_switch_cb (Some n) ?s"
    by (simp add: isr_pendsv_def c n)
  show ?thesis unfolding def'
  proof (rule wp_mono [OF nd_context_switch_cb_ok [OF k]])
    show "status ?s n = ND_THREAD_STAT_READY" using n by simp
    show "status ?s d \<noteq> ND_THREAD_STAT_RUNNING" if "nd_current_thread ?s = Some d" for d
      using that c off by simp
    fix s'
    assume s': "kinv {} s' \<and> sched_frame ?s s' \<and> switched n ?s s'"
    then have fr: "sched_frame s s'" by (simp add: sched_frame_def)
    have sw: "nd_current_thread s' = Some n" "\<not> pendsv s'" "nd_next_thread s' = None"
      "nd_interrupt_try_switch s' = nd_interrupt_try_switch s" "status s' n = ND_THREAD_STAT_RUNNING"
      "t \<noteq> n \<Longrightarrow> status s' t = status s t" for t using s' by (auto simp: switched_def)
    have pr: "prio_of s' t = prio_of s t" for t using th_staticD(1) [OF sched_frameD(3) [OF fr]] .
    have "kernel_ok i s'"
      using s' sw kernel_okD(2,3) [OF ok] runnable_frame [OF fr] unschedD(4) [OF sched_frameD(1) [OF fr]]
      by (simp add: kernel_ok_def cur_ok_def cur_link_def)
    moreover have "scheduled s'" if "scheduled s"
      unfolding scheduled_def
    proof (intro allI impI)
      fix d assume d: "nd_current_thread s' = Some d" and "\<not> nd_interrupt_try_switch s'"
      with that c p n sw have h: "highest s n" by (simp add: scheduled_def)
      have "prio_of s' n \<le> prio_of s' t" if "status s' t = ND_THREAD_STAT_READY" for t
      proof -
        have "t \<noteq> n" using sw(5) that by auto
        with sw(6) [of t] that h show ?thesis by (simp add: highest_def pr)
      qed
      with d sw show "if pendsv s' then \<exists>n. nd_next_thread s' = Some n \<and> highest s' n
        else status s' d = ND_THREAD_STAT_RUNNING \<and>
             (\<forall>t. status s' t = ND_THREAD_STAT_READY \<longrightarrow> prio_of s' d \<le> prio_of s' t)" by simp
    qed
    ultimately show "kernel_ok i s' \<and> sched_frame s s' \<and> \<not> pendsv s' \<and>
           nd_interrupt_try_switch s' = nd_interrupt_try_switch s \<and>
           (\<exists>n. nd_next_thread s = Some n \<and> nd_current_thread s' = Some n \<and>
                status s' n = ND_THREAD_STAT_RUNNING) \<and>
           (scheduled s \<longrightarrow> scheduled s')"
      using fr sw n by blast
  qed
qed

section \<open>Making a thread ready\<close>

text \<open>A thread whose wait is over: its timer is off, only its node and status are still to change.\<close>

definition settled :: "kstate \<Rightarrow> tid \<Rightarrow> bool" where
  "settled s t \<longleftrightarrow> ThreadTimer t \<notin> set (rbtree s) \<and>
     arg (timers s (ThreadTimer t)) = Some t \<and>
     timer_type (timers s (ThreadTimer t)) = ND_TIMER_TYPE_ONE_SHOT \<and>
     (SliceTimer t \<in> set (rbtree s) \<longrightarrow> nd_current_thread s = Some t \<and> time_slice (threads s t) \<noteq> 0) \<and>
     arg (timers s (SliceTimer t)) = Some t \<and>
     timer_type (timers s (SliceTimer t)) = ND_TIMER_TYPE_ONE_SHOT \<and>
     callback (timers s (SliceTimer t)) = Some CB_slice \<and>
     t \<in> set (nd_thread_list s) \<and>
     prio_of s t < ND_THREAD_PRIORITY_MAX \<and> init_priority (threads s t) < ND_THREAD_PRIORITY_MAX"

lemma readying_iff:
  "readying s t \<longleftrightarrow> settled s t \<and> qhome s t = None \<and> status s t = ND_THREAD_STAT_READY"
  unfolding readying_def settled_def timer_ok_def slice_ok_def by auto

definition alive :: "nd_thread_stat \<Rightarrow> bool" where
  "alive st = (st \<noteq> ND_THREAD_STAT_INIT \<and> st \<noteq> ND_THREAD_STAT_DEAD)"

lemma thread_ok_settled:
  assumes "thread_ok s t" and "alive (status s t)" and "ThreadTimer t \<notin> set (rbtree s)"
  shows "settled s t"
  using assms by (auto simp: thread_ok_def settled_def timer_ok_def slice_ok_def alive_def)

lemma settled_relinked: "relinked t h k L s s' \<Longrightarrow> settled s' u = settled s u"
  unfolding settled_def by (simp only: relinkedD)

lemma settled_upd_thread [simp]:
  assumes "\<And>th. priority (f th) = priority th" "\<And>th. init_priority (f th) = init_priority th"
    "\<And>th. time_slice (f th) = time_slice th"
  shows "settled (upd_thread f t s) u = settled s u"
  using assms by (simp add: settled_def)

text \<open>Stopping a thread's timer settles it.\<close>

definition timer_stopped :: "tid \<Rightarrow> kstate \<Rightarrow> kstate \<Rightarrow> bool" where
  "timer_stopped t s s' \<longleftrightarrow> base_ok s' \<and> timer_frame (ThreadTimer t) s s' \<and> only {t} s s' \<and>
     set (rbtree s') = set (rbtree s) - {ThreadTimer t}"

lemma timer_stopped_ok: "base_ok s \<Longrightarrow> wp (timer_stop (ThreadTimer t) s) (timer_stopped t s)"
  by (rule wp_mono [OF timer_stop_ok [of s "ThreadTimer t" t]]) (simp_all add: timer_stopped_def)

lemma timer_stoppedD:
  assumes "timer_stopped t s s'"
  shows "base_ok s'" "rest s' = rest s" "only {t} s s'" "threads s' = threads s" "qlists s' = qlists s"
    "qhome s' = qhome s" "nd_current_thread s' = nd_current_thread s"
    "nd_thread_list s' = nd_thread_list s" "k_thread_ready_bit s' = k_thread_ready_bit s"
    "timers s' (SliceTimer u) = timers s (SliceTimer u)"
    "SliceTimer u \<in> set (rbtree s') \<longleftrightarrow> SliceTimer u \<in> set (rbtree s)"
    "ThreadTimer u \<in> set (rbtree s') \<longleftrightarrow> ThreadTimer u \<in> set (rbtree s) \<and> u \<noteq> t"
    "arg (timers s' (ThreadTimer t)) = arg (timers s (ThreadTimer t))"
    "timer_type (timers s' (ThreadTimer t)) = timer_type (timers s (ThreadTimer t))"
proof -
  have fr: "timer_frame (ThreadTimer t) s s'" and set: "set (rbtree s') = set (rbtree s) - {ThreadTimer t}"
    and "base_ok s'" "only {t} s s'"
    using assms by (simp_all add: timer_stopped_def)
  then show "base_ok s'" "only {t} s s'" by simp_all
  show "rest s' = rest s" by (rule timer_frame_rest [OF fr])
  show "threads s' = threads s" "qlists s' = qlists s" "qhome s' = qhome s"
    "nd_current_thread s' = nd_current_thread s" "nd_thread_list s' = nd_thread_list s"
    "k_thread_ready_bit s' = k_thread_ready_bit s"
    using timer_frameD [OF fr] by simp_all
  show "timers s' (SliceTimer u) = timers s (SliceTimer u)"
    "arg (timers s' (ThreadTimer t)) = arg (timers s (ThreadTimer t))"
    "timer_type (timers s' (ThreadTimer t)) = timer_type (timers s (ThreadTimer t))"
    using fr by (simp_all add: timer_frame_def)
  show "SliceTimer u \<in> set (rbtree s') \<longleftrightarrow> SliceTimer u \<in> set (rbtree s)"
    "ThreadTimer u \<in> set (rbtree s') \<longleftrightarrow> ThreadTimer u \<in> set (rbtree s) \<and> u \<noteq> t"
    by (auto simp: set)
qed

lemma settled_stopped:
  assumes "thread_ok s t" and "alive (status s t)" and "timer_stopped t s s'"
  shows "settled s' t"
  using assms(1,2) unfolding thread_ok_def timer_ok_def slice_ok_def settled_def alive_def
  by (simp add: timer_stoppedD [OF assms(3)])

lemma kinv_timer_stopped: "kinv {t} s \<Longrightarrow> timer_stopped t s s' \<Longrightarrow> kinv {t} s'"
  using kinv_only timer_stoppedD(1,3) by blast

lemma cur_link_ready:
  assumes "cur_link s" and "rest s' = rest s"
    and "\<And>u. u \<noteq> t \<Longrightarrow> status s' u = status s u" and "status s' t = ND_THREAD_STAT_READY"
  shows "cur_link s'"
proof -
  note R = restD [OF assms(2)]
  show ?thesis unfolding cur_link_def R
  proof (intro conjI allI impI)
    show "nd_interrupt_nest_count s \<noteq> 0" if "nd_interrupt_try_switch s"
      using assms(1) that by (simp add: cur_link_def)
    fix c assume c: "nd_current_thread s = Some c"
    show "if pendsv s then port s = SwitchDeferred \<and> status s' c \<noteq> ND_THREAD_STAT_RUNNING \<and>
              (\<exists>n. nd_next_thread s = Some n \<and> status s' n = ND_THREAD_STAT_READY)
          else nd_next_thread s = None"
    proof (cases "pendsv s")
      case True
      then obtain n where n: "nd_next_thread s = Some n" "status s n = ND_THREAD_STAT_READY"
        and o: "port s = SwitchDeferred" "status s c \<noteq> ND_THREAD_STAT_RUNNING"
        using assms(1) c by (auto simp: cur_link_def)
      have "status s' n = ND_THREAD_STAT_READY" using n(2) assms(3,4) by (cases "n = t") simp_all
      moreover have "status s' c \<noteq> ND_THREAD_STAT_RUNNING" using o(2) assms(3,4) by (cases "c = t") simp_all
      ultimately show ?thesis using True n(1) o(1) by simp
    next
      case False
      with assms(1) c show ?thesis by (simp add: cur_link_def)
    qed
  qed
qed

text \<open>The state after \<open>t\<close> was put at the tail of its ready list.\<close>

definition readied :: "tid \<Rightarrow> kstate \<Rightarrow> kstate \<Rightarrow> bool" where
  "readied t s s' \<longleftrightarrow> kinv {} s' \<and>
     relinked t (Some (ReadyList (prio_of s t))) (ReadyList (prio_of s t)) (qlists s (ReadyList (prio_of s t)) @ [t]) s s'"

lemma ready_then_schedule:
  assumes k: "kinv {t} s" and r: "readying s t" and link: "cur_link s" and idle: "runnable (status s i)"
  shows "wp (do { s1 \<leftarrow> nd_thread_ready_add_tail t s; nd_scheduler s1 })
           (\<lambda>s'. kernel_ok i s' \<and> scheduled s' \<and> (\<exists>s1. readied t s s1 \<and> sched_frame s1 s' \<and> sched_out s1 s'))"
  unfolding wp_bind
proof (rule wp_mono [OF ready_add_ok(1) [OF k r refl]], elim conjE)
  fix s1
  assume s1: "kinv {} s1" and rel: "relinked t (Some (ReadyList (prio_of s t))) (ReadyList (prio_of s t))
      (qlists s (ReadyList (prio_of s t)) @ [t]) s s1"
  have st: "status s t = ND_THREAD_STAT_READY" using r by (simp add: readying_def)
  have l1: "cur_link s1"
    by (rule cur_link_ready [OF link relinkedD(1) [OF rel], of t]) (simp_all add: relinkedD(2) [OF rel] st)
  have i1: "runnable (status s1 i)" using idle relinkedD(2) [OF rel] by simp
  show "wp (nd_scheduler s1) (\<lambda>s'. kernel_ok i s' \<and> scheduled s' \<and>
          (\<exists>s1. readied t s s1 \<and> sched_frame s1 s' \<and> sched_out s1 s'))"
    by (rule wp_mono [OF nd_scheduler_ok [OF s1 l1 i1]]) (use s1 rel in \<open>auto simp: readied_def\<close>)
qed

end
