(* ===== verification/Nd_Calls.thy ===== *)
theory Nd_Calls
  imports Nd_Scheduling
begin

text \<open>
  What a kernel call keeps (\<open>kernel_ok\<close>), what it leaves alone (\<open>sync_frame\<close>), and the calls of
  \<^verbatim>\<open>kernel/nd_scheduler.c\<close> that a thread or a timer makes: yield, delay, the slice and delay callbacks,
  and the interrupt entry and exit.
\<close>

section \<open>What the kernel calls leave alone\<close>

text \<open>The IPC objects are as they were, and no thread has joined a wait list.\<close>

definition sync_frame :: "kstate \<Rightarrow> kstate \<Rightarrow> bool" where
  "sync_frame s s' \<longleftrightarrow>
     sems s' = sems s \<and> mutexes s' = mutexes s \<and> events s' = events s \<and> queues s' = queues s \<and>
     pools s' = pools s \<and> taken_list s' = taken_list s \<and> port s' = port s \<and>
     tickless s' = tickless s \<and> now s' = now s \<and>
     nd_interrupt_nest_count s' = nd_interrupt_nest_count s \<and>
     (\<forall>k. \<not> is_ready k \<longrightarrow> set (qlists s' k) \<subseteq> set (qlists s k)) \<and>
     (\<forall>e t. t \<in> set (qlists s' (EventWait e)) \<longrightarrow>
        event_set (threads s' t) = event_set (threads s t) \<and>
        event_opt (threads s' t) = event_opt (threads s t))"

lemma sync_frameD:
  assumes "sync_frame s s'"
  shows "sems s' = sems s" "mutexes s' = mutexes s" "events s' = events s" "queues s' = queues s"
     "pools s' = pools s" "taken_list s' = taken_list s" "port s' = port s"
     "tickless s' = tickless s" "now s' = now s"
     "nd_interrupt_nest_count s' = nd_interrupt_nest_count s"
     "\<not> is_ready k \<Longrightarrow> set (qlists s' k) \<subseteq> set (qlists s k)"
     "t \<in> set (qlists s' (EventWait e)) \<Longrightarrow> event_set (threads s' t) = event_set (threads s t)"
     "t \<in> set (qlists s' (EventWait e)) \<Longrightarrow> event_opt (threads s' t) = event_opt (threads s t)"
  using assms unfolding sync_frame_def by blast+

lemma sync_frame_refl [simp]: "sync_frame s s"
  by (simp add: sync_frame_def)

lemma sync_frame_trans:
  assumes a: "sync_frame s s1" and b: "sync_frame s1 s2"
  shows "sync_frame s s2"
  unfolding sync_frame_def
proof (intro conjI allI impI)
  show "sems s2 = sems s" "mutexes s2 = mutexes s" "events s2 = events s" "queues s2 = queues s"
     "pools s2 = pools s" "taken_list s2 = taken_list s" "port s2 = port s"
     "tickless s2 = tickless s" "now s2 = now s"
     "nd_interrupt_nest_count s2 = nd_interrupt_nest_count s"
    using sync_frameD(1-10) [OF a] sync_frameD(1-10) [OF b] by simp_all
  show "set (qlists s2 k) \<subseteq> set (qlists s k)" if "\<not> is_ready k" for k
    using sync_frameD(11) [OF a that] sync_frameD(11) [OF b that] by blast
  fix e t assume t: "t \<in> set (qlists s2 (EventWait e))"
  then have "t \<in> set (qlists s1 (EventWait e))" using sync_frameD(11) [OF b, of "EventWait e"] by auto
  then show "event_set (threads s2 t) = event_set (threads s t)"
    "event_opt (threads s2 t) = event_opt (threads s t)"
    using sync_frameD(12,13) [OF a] sync_frameD(12,13) [OF b t] by simp_all
qed

lemma sync_frame_sched:
  assumes "sched_frame s s'"
  shows "sync_frame s s'"
proof -
  have "event_set (threads s' t) = event_set (threads s t)"
    "event_opt (threads s' t) = event_opt (threads s t)" for t
    using th_staticD(5,6) [OF sched_frameD(3) [OF assms]] by simp_all
  moreover have "set (qlists s' k) \<subseteq> set (qlists s k)" if "\<not> is_ready k" for k
    using sched_frameD(2) [OF assms that] by simp
  ultimately show ?thesis
    using unschedD [OF sched_frameD(1) [OF assms]] by (simp add: sync_frame_def)
qed

lemma sync_frame_relinked:
  assumes "relinked t h k L s s'" and "is_ready k \<or> set L \<subseteq> set (qlists s k)"
  shows "sync_frame s s'"
  using assms restD [OF relinkedD(1) [OF assms(1)]] relinkedD(2,7) [OF assms(1)]
  by (auto simp: sync_frame_def)

lemma sync_frame_stopped: "timer_stopped t s s' \<Longrightarrow> sync_frame s s'"
  using restD [OF timer_stoppedD(2)] timer_stoppedD(4,5) by (simp add: sync_frame_def)

lemma sync_frame_upd_thread:
  assumes "\<And>th. event_set (f th) = event_set th" "\<And>th. event_opt (f th) = event_opt th"
  shows "sync_frame s (upd_thread f t s)"
  using assms by (simp add: sync_frame_def)

lemma sync_frame_readied: "readied t s s1 \<Longrightarrow> sync_frame s s1"
  unfolding readied_def by (elim conjE, rule sync_frame_relinked, assumption) simp

section \<open>Yielding, sleeping and the timer callbacks\<close>

text \<open>A thread calls the kernel: interrupts are not nested and no switch is owed.\<close>

definition calling :: "tid \<Rightarrow> tid \<Rightarrow> kstate \<Rightarrow> bool" where
  "calling i c s \<longleftrightarrow> kernel_ok i s \<and> nd_current_thread s = Some c \<and>
     nd_interrupt_nest_count s = 0 \<and> \<not> pendsv s"

lemma callingD:
  assumes "calling i c s"
  shows "kernel_ok i s" "nd_current_thread s = Some c" "nd_interrupt_nest_count s = 0" "\<not> pendsv s"
    "\<not> nd_interrupt_try_switch s" "status s c = ND_THREAD_STAT_RUNNING" "kinv {} s" "thread_ok s c"
    "qhome s c = None" "ThreadTimer c \<notin> set (rbtree s)" "runnable (status s i)" "cur_link s"
    "nd_next_thread s = None" "alive (status s c)" "base_ok s"
proof -
  show a: "kernel_ok i s" "nd_current_thread s = Some c" "nd_interrupt_nest_count s = 0" "\<not> pendsv s"
    using assms by (simp_all add: calling_def)
  show "cur_link s" by (rule kernel_okD(2) [OF a(1)])
  then show b: "\<not> nd_interrupt_try_switch s" "nd_next_thread s = None"
    using a(2-4) by (auto simp: cur_link_def)
  show c: "status s c = ND_THREAD_STAT_RUNNING" by (rule kernel_okD(6) [OF a(1,2,4) b(1)])
  show "kinv {} s" "thread_ok s c" "runnable (status s i)" "base_ok s" using kernel_okD [OF a(1)] by simp_all
  then show "qhome s c = None" "ThreadTimer c \<notin> set (rbtree s)" using idle_home c by auto
  show "alive (status s c)" by (simp add: c alive_def)
qed

lemma nd_thread_yield_ok:
  assumes "calling i c s"
  shows "wp (nd_thread_yield s) (\<lambda>s'. kernel_ok i s' \<and> scheduled s' \<and> sched_frame s s' \<and>
           sched_step c (upd_thread (yield_update (\<lambda>_. True)) c s) s')"
proof -
  let ?s = "upd_thread (yield_update (\<lambda>_. True)) c s"
  note C = callingD [OF assms]
  have k: "kinv {} ?s" by (rule kinv_benign [OF C(7)]) simp_all
  have link: "cur_link ?s" using C by (simp add: cur_link_def)
  have idle: "runnable (status ?s i)" using C(11) by (cases "i = c") simp_all
  have fr: "sched_frame s ?s" by (rule sched_frame_upd_thread) simp_all
  have "wp (nd_scheduler ?s) (\<lambda>s'. kernel_ok i s' \<and> scheduled s' \<and> sched_frame s s' \<and> sched_step c ?s s')"
    by (rule wp_mono [OF nd_scheduler_ok [OF k link idle]])
      (use sched_frame_trans [OF fr] C in \<open>simp add: sched_out_def\<close>)
  with C(2) show ?thesis by (simp add: nd_thread_yield_def)
qed

lemma cur_link_threads:
  assumes "cur_link s" and "rest s' = rest s" and "\<And>t. status s' t = status s t"
  shows "cur_link s'"
  using assms(1,3) by (simp add: cur_link_def restD [OF assms(2)])

lemma nd_thread_slice_timeout_ok:
  assumes "kernel_ok i s"
  shows "wp (nd_thread_slice_timeout (Some t) s) (\<lambda>s'. kernel_ok i s' \<and> sched_frame s s' \<and>
           (scheduled s \<longrightarrow> scheduled s'))"
proof -
  let ?s = "upd_thread (\<lambda>th. th\<lparr>yield := True, slice_left := 0, slice_start := 0\<rparr>) t s"
  note K = kernel_okD [OF assms]
  have f: "th_static (th\<lparr>yield := True, slice_left := 0, slice_start := 0\<rparr>) = th_static th" for th
    by (simp add: th_static_def)
  have k: "kinv {} ?s" by (rule kinv_benign [OF K(1)]) (simp_all add: f)
  have link: "cur_link ?s" by (rule cur_link_threads [OF K(2)]) simp_all
  have idle: "runnable (status ?s i)" using K(3) by (cases "i = t") simp_all
  have fr: "sched_frame s ?s" by (rule sched_frame_upd_thread) (simp_all add: f)
  have "wp (nd_scheduler ?s) (\<lambda>s'. kernel_ok i s' \<and> sched_frame s s' \<and> (scheduled s \<longrightarrow> scheduled s'))"
    by (rule wp_mono [OF nd_scheduler_ok [OF k link idle]]) (use sched_frame_trans [OF fr] in simp)
  with assms show ?thesis by (simp add: nd_thread_slice_timeout_def)
qed

text \<open>The delay is over: the timer has left the tree and its callback readies the thread.\<close>

lemma thread_timer_callback_ok:
  assumes k: "kinv {t} s" and st: "settled s t" and home: "qhome s t = None"
    and link: "cur_link s" and idle: "runnable (status s i)"
  shows "wp (thread_timer_callback (Some t) s) (\<lambda>s'. kernel_ok i s' \<and> scheduled s' \<and> sync_frame s s' \<and>
           runnable (status s' t))"
proof -
  let ?s1 = "upd_thread (stat_update (\<lambda>_. ND_THREAD_STAT_READY)) t s"
  let ?s2 = "if time_slice (threads ?s1 t) \<noteq> 0 then upd_thread refill_slice t ?s1 else ?s1"
  have k2: "kinv {t} ?s2" using kinv_upd_thread k by simp
  have "settled ?s2 t" using st by (simp add: refill_slice_def)
  then have r2: "readying ?s2 t" using home by (simp add: readying_iff)
  have l2: "cur_link ?s2" by (rule cur_link_ready [OF link, of _ t]) simp_all
  have i2: "runnable (status ?s2 i)" using idle by (simp add: runnable_def)
  have fr: "sync_frame s ?s2"
    by (simp add: sync_frame_def) (simp add: refill_slice_def)
  have def': "thread_timer_callback (Some t) s = do { s3 \<leftarrow> nd_thread_ready_add_tail t ?s2; nd_scheduler s3 }"
    by (simp add: thread_timer_callback_def)
  show ?thesis unfolding def'
  proof (rule wp_mono [OF ready_then_schedule [OF k2 r2 l2 i2]], elim conjE exE, intro conjI)
    fix s' s1
    assume s': "kernel_ok i s'" "scheduled s'" "readied t ?s2 s1" "sched_frame s1 s'"
    show "kernel_ok i s'" "scheduled s'" using s' by simp_all
    show "sync_frame s s'"
      by (rule sync_frame_trans [OF fr sync_frame_trans [OF sync_frame_readied [OF s'(3)] sync_frame_sched [OF s'(4)]]])
    have "runnable (status s1 t)" using s'(3) relinkedD(2) by (auto simp: readied_def runnable_def)
    then show "runnable (status s' t)" by (rule runnable_frame [OF s'(4)])
  qed
qed

lemma upd_timer_sel [simp]:
  "timers (upd_timer f r s) = (timers s)(r := f (timers s r))"
  "threads (upd_timer f r s) = threads s" "rbtree (upd_timer f r s) = rbtree s"
  "qlists (upd_timer f r s) = qlists s" "qhome (upd_timer f r s) = qhome s"
  "nd_current_thread (upd_timer f r s) = nd_current_thread s"
  "nd_thread_list (upd_timer f r s) = nd_thread_list s" "now (upd_timer f r s) = now s"
  "tickless (upd_timer f r s) = tickless s"
  by (simp_all add: upd_timer_def)

lemma only_upd_timer [simp]: "only {t} s (upd_timer f (ThreadTimer t) s)"
  by (simp add: only_def same_view_def)

text \<open>The current thread arms its timer and leaves the processor.\<close>

definition expiry :: "kstate \<Rightarrow> u64 \<Rightarrow> u64" where
  "expiry s tmo = (if tickless s then deadline tmo (now s) else now s + tmo)"

definition armed_for :: "timer_callback \<Rightarrow> u64 \<Rightarrow> tid \<Rightarrow> kstate \<Rightarrow> bool" where
  "armed_for cb e t s \<longleftrightarrow> ThreadTimer t \<in> set (rbtree s) \<and>
     expire_time (timers s (ThreadTimer t)) = e \<and> callback (timers s (ThreadTimer t)) = Some cb"

lemma arm_ok:
  assumes k: "kinv {c} s" and b: "status s c = ND_THREAD_STAT_BLOCK" and st: "settled s c"
    and cb: "cb = (if qhome s c = None then CB_delay else CB_pend)"
    and home: "\<And>p. qhome s c \<noteq> Some (ReadyList p)"
    and f: "f = (\<lambda>t. t\<lparr>timeout := tmo, callback := Some cb\<rparr>) \<or>
            f = (\<lambda>t. t\<lparr>timeout := tmo, callback := Some cb, arg := Some c\<rparr>)"
  shows "wp (timer_start (ThreadTimer c) (upd_timer f (ThreadTimer c) s))
           (\<lambda>s'. kinv {} s' \<and> rest s' = rest s \<and> threads s' = threads s \<and> qlists s' = qlists s \<and>
                 qhome s' = qhome s \<and> armed_for cb (expiry s tmo) c s')"
proof -
  let ?s = "upd_timer f (ThreadTimer c) s"
  have out: "ThreadTimer c \<notin> set (rbtree s)" using st by (simp add: settled_def)
  have b1: "base_ok ?s" using base_ok_upd_timer [OF kinvD(1) [OF k] out, of f] f by auto
  have k1: "kinv {c} ?s" by (rule kinv_only [OF k _ b1]) simp
  have tm: "callback (timers ?s (ThreadTimer c)) = Some cb" "arg (timers ?s (ThreadTimer c)) = Some c"
    "timer_type (timers ?s (ThreadTimer c)) = ND_TIMER_TYPE_ONE_SHOT"
    "timeout (timers ?s (ThreadTimer c)) = tmo"
    using f st by (auto simp: settled_def)
  then have cbn: "callback (timers ?s (ThreadTimer c)) \<noteq> None" by simp
  show ?thesis
  proof (rule wp_mono [OF timer_start_ok [OF b1 cbn, of c]], simp, elim conjE)
    fix s'
    assume s': "base_ok s'" "timer_frame (ThreadTimer c) ?s s'" "only {c} ?s s'"
      "set (rbtree s') = insert (ThreadTimer c) (set (rbtree ?s))"
      "expire_time (timers s' (ThreadTimer c)) =
        (if tickless ?s then deadline (timeout (timers ?s (ThreadTimer c))) (now ?s)
         else now ?s + timeout (timers ?s (ThreadTimer c)))"
    have fr: "threads s' = threads s" "qlists s' = qlists s" "qhome s' = qhome s"
      "nd_current_thread s' = nd_current_thread s" "nd_thread_list s' = nd_thread_list s"
      using timer_frameD [OF s'(2)] by simp_all
    have r: "rest s' = rest s" using timer_frame_rest [OF s'(2)] by simp
    have t': "callback (timers s' (ThreadTimer c)) = Some cb" "arg (timers s' (ThreadTimer c)) = Some c"
      "timer_type (timers s' (ThreadTimer c)) = ND_TIMER_TYPE_ONE_SHOT"
      "timers s' (SliceTimer c) = timers s (SliceTimer c)"
      using s'(2) tm unfolding timer_frame_def by simp_all
    have "home_ok (threads s c) (qhome s c) True"
      using b home by (auto simp: home_ok_def split: option.splits list_head.splits)
    then have "thread_ok s' c"
      using st b unfolding thread_ok_def timer_ok_def slice_ok_def settled_def fr t' s'(4)
      by (simp add: cb)
    then have "kinv {} s'" by (rule kinv_step [OF k1 s'(3,1)])
    moreover have "armed_for cb (expiry s tmo) c s'"
      unfolding armed_for_def expiry_def using s'(4,5) t'(1) tm(4) by simp
    ultimately show "kinv {} s' \<and> rest s' = rest s \<and> threads s' = threads s \<and> qlists s' = qlists s \<and>
                 qhome s' = qhome s \<and> armed_for cb (expiry s tmo) c s'"
      using r fr by blast
  qed
qed

lemma cur_link_calling:
  assumes "calling i c s" and "rest s' = rest s"
  shows "cur_link s'"
  using callingD(2,4,5,13) [OF assms(1)] by (simp add: cur_link_def restD [OF assms(2)])

lemma armed_frame: "sched_frame s s' \<Longrightarrow> armed_for cb e t s \<Longrightarrow> armed_for cb e t s'"
  using sched_frameD(5,6) [of s s' "ThreadTimer t"] by (simp add: armed_for_def)

lemma status_frame: "sched_frame s s' \<Longrightarrow> \<not> runnable (status s t) \<Longrightarrow> status s' t = status s t"
  using sched_frameD(4) by blast

lemma runnable_simps [simp]:
  "runnable ND_THREAD_STAT_READY" "runnable ND_THREAD_STAT_RUNNING" "\<not> runnable ND_THREAD_STAT_BLOCK"
  "\<not> runnable ND_THREAD_STAT_SUSPEND" "\<not> runnable ND_THREAD_STAT_INIT" "\<not> runnable ND_THREAD_STAT_DEAD"
  by (simp_all add: runnable_def)

lemma blocked_frame:
  "sched_frame s s' \<Longrightarrow> status s t = ND_THREAD_STAT_BLOCK \<Longrightarrow> status s' t = ND_THREAD_STAT_BLOCK"
  using status_frame by fastforce

text \<open>The slice of a thread that goes to sleep is full again when it wakes up.\<close>

definition drop_slice :: "tid \<Rightarrow> kstate \<Rightarrow> kstate option" where
  "drop_slice c s = (if time_slice (threads s c) \<noteq> 0 then do {
              s' \<leftarrow> timer_stop (SliceTimer c) s;
              Some (upd_thread refill_slice c s')
            }
            else Some s)"

lemma drop_slice_ok:
  assumes "kinv {} s"
  shows "wp (drop_slice c s) (\<lambda>s'. kinv {} s' \<and> slice_frame s s')"
proof (cases "time_slice (threads s c) = 0")
  case True
  with assms show ?thesis by (simp add: drop_slice_def)
next
  case False
  have "wp (timer_stop (SliceTimer c) s) (\<lambda>s1. kinv {} (upd_thread refill_slice c s1) \<and>
          slice_frame s (upd_thread refill_slice c s1))"
  proof (rule wp_mono [OF slice_stop_ok [OF kinvD(1) [OF assms]]], elim conjE, intro conjI)
    fix s1
    assume s1: "base_ok s1" "slice_stopped c s s1"
    have k1: "kinv {} s1" by (rule kinv_slice_stopped [OF assms s1(2,1)])
    show "kinv {} (upd_thread refill_slice c s1)" by (rule kinv_benign [OF k1]) simp_all
    show "slice_frame s (upd_thread refill_slice c s1)"
      by (rule slice_frame_trans [OF slice_frame_stopped [OF s1(2)] slice_frame_upd_thread]) simp_all
  qed
  with False show ?thesis by (simp add: drop_slice_def)
qed

lemma nd_thread_delay_ok:
  assumes C: "calling i c s" and "c \<noteq> i"
  shows "wp (nd_thread_delay delay s) (\<lambda>s'. kernel_ok i s' \<and> scheduled s' \<and> sync_frame s s' \<and>
           status s' c = ND_THREAD_STAT_BLOCK \<and> armed_for CB_delay (expiry s delay) c s')"
proof -
  let ?blk = "stat_update (\<lambda>_. ND_THREAD_STAT_BLOCK)"
  let ?f = "\<lambda>t. t\<lparr>timeout := delay, callback := Some CB_delay\<rparr>"
  have def': "nd_thread_delay delay s = do {
      s1 \<leftarrow> drop_slice c s;
      s4 \<leftarrow> timer_start (ThreadTimer c) (upd_timer ?f (ThreadTimer c) (upd_thread ?blk c s1));
      nd_scheduler s4 }"
    by (simp add: nd_thread_delay_def callingD(2) [OF C] drop_slice_def Let_def)
  show ?thesis unfolding def' wp_bind
  proof (rule wp_mono [OF drop_slice_ok [OF callingD(7) [OF C]]], elim conjE)
    fix s1
    assume k1: "kinv {} s1" and f1: "slice_frame s s1"
    note F = slice_frameD [OF f1]
    let ?s2 = "upd_thread ?blk c s1"
    have st1: "status s1 c = ND_THREAD_STAT_RUNNING" using callingD(6) [OF C] F(5) by simp
    note home = idle_home [OF kinvD(2) [OF k1, simplified, of c], unfolded st1, simplified]
    have "settled s1 c"
      by (rule thread_ok_settled) (use kinvD(2) [OF k1] st1 home in \<open>simp_all add: alive_def\<close>)
    then have st2: "settled ?s2 c" by simp
    have k2: "kinv {c} ?s2" using kinv_upd_thread [OF kinv_mono [OF k1]] by blast
    have exp: "expiry ?s2 delay = expiry s delay"
      using restD(3,11) [OF F(2)] by (simp add: expiry_def)
    have f2: "sync_frame s ?s2"
      by (rule sync_frame_trans [OF sync_frame_sched [OF F(1)] sync_frame_upd_thread]) simp_all
    show "wp (timer_start (ThreadTimer c) (upd_timer ?f (ThreadTimer c) ?s2)) (\<lambda>s4. wp (nd_scheduler s4)
       (\<lambda>s'. kernel_ok i s' \<and> scheduled s' \<and> sync_frame s s' \<and>
           status s' c = ND_THREAD_STAT_BLOCK \<and> armed_for CB_delay (expiry s delay) c s'))"
    proof (rule wp_mono [OF arm_ok [OF k2 _ st2, where cb = CB_delay and f = ?f and tmo = delay]])
      fix s4
      assume "kinv {} s4 \<and> rest s4 = rest ?s2 \<and> threads s4 = threads ?s2 \<and> qlists s4 = qlists ?s2 \<and>
        qhome s4 = qhome ?s2 \<and> armed_for CB_delay (expiry ?s2 delay) c s4"
      then have s4: "kinv {} s4" "rest s4 = rest ?s2" "threads s4 = threads ?s2" "qlists s4 = qlists ?s2"
        "qhome s4 = qhome ?s2" "armed_for CB_delay (expiry ?s2 delay) c s4" by blast+
      have link: "cur_link s4" by (rule cur_link_calling [OF C]) (simp add: s4(2) F(2))
      have idle: "runnable (status s4 i)" using callingD(11) [OF C] F(5) assms(2) by (simp add: s4(3))
      have "status s4 c = ND_THREAD_STAT_BLOCK" by (simp add: s4(3))
      moreover have "sync_frame ?s2 s4"
        using s4(3,4) restD [OF s4(2)] by (simp add: sync_frame_def)
      ultimately show "wp (nd_scheduler s4) (\<lambda>s'. kernel_ok i s' \<and> scheduled s' \<and> sync_frame s s' \<and>
           status s' c = ND_THREAD_STAT_BLOCK \<and> armed_for CB_delay (expiry s delay) c s')"
        using s4(6) exp f2
        by (intro wp_mono [OF nd_scheduler_ok [OF s4(1) link idle]])
          (auto intro: armed_frame sync_frame_trans sync_frame_sched blocked_frame)
    qed (simp_all add: home)
  qed
qed


section \<open>Interrupts\<close>

lemma scheduled_cong:
  assumes "nd_current_thread s' = nd_current_thread s" "nd_next_thread s' = nd_next_thread s"
    "nd_interrupt_try_switch s' = nd_interrupt_try_switch s" "pendsv s' = pendsv s" "threads s' = threads s"
  shows "scheduled s' = scheduled s"
  by (simp only: scheduled_def highest_def assms)

lemma nd_enter_interrupt_ok:
  assumes "kernel_ok i s" and "nd_interrupt_nest_count s \<noteq> - 1"
  shows "kernel_ok i (nd_enter_interrupt s)" "scheduled s \<Longrightarrow> scheduled (nd_enter_interrupt s)"
    "nd_interrupt_nest_count (nd_enter_interrupt s) > 0"
proof -
  have "nd_interrupt_nest_count s + 1 \<noteq> 0"
    using assms(2) by (simp add: eq_neg_iff_add_eq_0)
  then show "kernel_ok i (nd_enter_interrupt s)" "nd_interrupt_nest_count (nd_enter_interrupt s) > 0"
    using assms(1)
    by (simp_all add: nd_enter_interrupt_def kernel_ok_def cur_ok_def cur_link_def word_gt_0)
  show "scheduled s \<Longrightarrow> scheduled (nd_enter_interrupt s)"
    using scheduled_cong [of "nd_enter_interrupt s" s] by (simp add: nd_enter_interrupt_def)
qed

text \<open>The way out of an interrupt on the ports that defer the switch (\<^verbatim>\<open>nd_try_schedule_irqsave\<close>) \<dots>\<close>

lemma exit_then_try_schedule_ok:
  assumes ok: "kernel_ok i s" and nest: "nd_interrupt_nest_count s > 0"
    and sch: "\<not> nd_interrupt_try_switch s \<Longrightarrow> scheduled s"
  shows "wp (nd_try_schedule_irqsave (nd_exit_interrupt s)) (\<lambda>s'. kernel_ok i s' \<and> sync_frame (nd_exit_interrupt s) s' \<and>
           sched_frame (nd_exit_interrupt s) s' \<and> (nd_interrupt_try_switch s' \<longrightarrow> nd_interrupt_nest_count s' \<noteq> 0) \<and>
           (\<not> nd_interrupt_try_switch s' \<longrightarrow> scheduled s'))"
proof -
  let ?s = "nd_exit_interrupt s"
  note K = kernel_okD [OF ok]
  have f: "kinv {} ?s" "nd_current_thread ?s = nd_current_thread s" "pendsv ?s = pendsv s"
    "nd_next_thread ?s = nd_next_thread s" "threads ?s = threads s" "port ?s = port s"
    "nd_interrupt_try_switch ?s = nd_interrupt_try_switch s"
    "nd_interrupt_nest_count ?s = nd_interrupt_nest_count s - 1"
    using K(1) by (simp_all add: nd_exit_interrupt_def)
  have sch': "scheduled ?s = scheduled s" by (rule scheduled_cong) (simp_all add: f)
  show ?thesis
  proof (cases "nd_interrupt_nest_count ?s = 0")
    case True
    have "wp (nd_try_schedule ?s) (\<lambda>s'. kernel_ok i s' \<and> scheduled s' \<and> sched_frame ?s s' \<and>
           \<not> nd_interrupt_try_switch s')"
    proof (rule nd_try_schedule_ok [OF f(1)])
      show "runnable (status ?s i)" using K(3) by (simp add: f)
      show "cur_link (?s\<lparr>nd_interrupt_try_switch := False\<rparr>)" using K(2) by (simp add: cur_link_def f)
      show "kernel_ok i ?s \<and> scheduled ?s" if "\<not> nd_interrupt_try_switch ?s"
        using that sch sch' ok by (simp add: kernel_ok_def cur_ok_def cur_link_def f)
    qed (rule True)
    then show ?thesis unfolding nd_try_schedule_irqsave_def
      by (rule wp_mono) (simp add: sync_frame_sched)
  next
    case False
    with ok sch f sch' show ?thesis
      by (simp add: nd_try_schedule_irqsave_def nd_try_schedule_def kernel_ok_def cur_ok_def cur_link_def word_gt_0)
  qed
qed


text \<open>\<dots> and on those that switch at once (\<^verbatim>\<open>nd_schedule_irq_exit\<close>, in the assembly of the Cortex-A9
  and RISC-V ports, after the last nested interrupt).\<close>

lemma nd_schedule_irq_exit_ok:
  assumes k: "kinv {} s" and idle: "runnable (status s i)" and im: "port s = SwitchImmediate"
    and link: "cur_link (s\<lparr>nd_interrupt_try_switch := False\<rparr>)"
    and run: "\<not> nd_interrupt_try_switch s \<Longrightarrow> kernel_ok i s \<and> scheduled s"
    and cur: "nd_current_thread s = Some c"
  shows "wp (nd_schedule_irq_exit s) (\<lambda>s'. kernel_ok i s' \<and> scheduled s' \<and> sched_frame s s' \<and>
           \<not> nd_interrupt_try_switch s' \<and> nd_current_thread s' \<noteq> None)"
proof (cases "nd_interrupt_try_switch s")
  case False
  with run cur show ?thesis by (simp add: nd_schedule_irq_exit_def)
next
  case True
  let ?s = "s\<lparr>nd_interrupt_try_switch := False\<rparr>"
  have k': "kinv {} ?s" and cur': "nd_current_thread ?s = Some c" and idle': "runnable (status ?s i)"
    and im': "port ?s = SwitchImmediate" and tr: "\<not> nd_interrupt_try_switch ?s"
    using k cur idle im by simp_all
  have "wp (nd_schedule_pick_next ?s) (\<lambda>(r, s1). wp (case r of None \<Rightarrow> Some s1
            | Some n \<Rightarrow> nd_context_switch_cb (Some n) s1)
          (\<lambda>s'. kinv {} s' \<and> sched_frame ?s s' \<and> sched_step c ?s s'))"
  proof (rule wp_mono [OF nd_schedule_pick_next_ok [OF k' cur']], clarify)
    fix r s1
    assume s1: "kinv {} s1" "sched_frame ?s s1" "rest s1 = rest ?s"
      and r: "case r of None \<Rightarrow> s1 = ?s \<and> (if status ?s c = ND_THREAD_STAT_RUNNING
                             then \<forall>t. status ?s t = ND_THREAD_STAT_READY \<longrightarrow> prio_of ?s c \<le> prio_of ?s t \<and>
                               (yield (threads ?s c) \<longrightarrow> prio_of ?s c < prio_of ?s t)
                             else \<forall>t. status ?s t \<noteq> ND_THREAD_STAT_READY)
            | Some n \<Rightarrow> picked c n ?s s1"
    show "wp (case r of None \<Rightarrow> Some s1 | Some n \<Rightarrow> nd_context_switch_cb (Some n) s1)
          (\<lambda>s'. kinv {} s' \<and> sched_frame ?s s' \<and> sched_step c ?s s')"
    proof (cases r)
      case None
      with r s1 runnable_ready [OF k' idle' cur'] show ?thesis
        by (auto simp: sched_step_def split: if_splits)
    next
      case (Some n)
      with r have p: "picked c n ?s s1" by simp
      have n: "status s1 n = ND_THREAD_STAT_READY" using p by (simp add: picked_def highest_def)
      have off: "status s1 d \<noteq> ND_THREAD_STAT_RUNNING" if "nd_current_thread s1 = Some d" for d
        using that restD(4) [OF s1(3)] cur p by (simp add: picked_def)
      have "wp (nd_context_switch_cb (Some n) s1) (\<lambda>s'. kinv {} s' \<and> sched_frame ?s s' \<and> sched_step c ?s s')"
        by (rule wp_mono [OF nd_context_switch_cb_ok [OF s1(1) n off]])
          (use goI(1) [OF p s1(3,2) im'] sched_frame_trans [OF s1(2)] in blast)+
      with Some show ?thesis by simp
    qed
  qed
  then have "wp (nd_schedule_irq_exit s) (\<lambda>s'. kinv {} s' \<and> sched_frame ?s s' \<and> sched_step c ?s s')"
    using True by (simp add: nd_schedule_irq_exit_def case_prod_unfold)
  then show ?thesis
  proof (rule wp_mono, elim conjE)
    fix s' assume s': "kinv {} s'" "sched_frame ?s s'" "sched_step c ?s s'"
    have "nd_current_thread s' \<noteq> None" using s'(3) im' cur' by (auto simp: sched_step_def switched_def)
    with s' sched_step_ok [OF s' cur' link idle' tr]
    show "kernel_ok i s' \<and> scheduled s' \<and> sched_frame s s' \<and> \<not> nd_interrupt_try_switch s' \<and> nd_current_thread s' \<noteq> None"
      by simp
  qed
qed

text \<open>The exit from the last nested interrupt as a whole.\<close>

lemma irq_exit_ok:
  assumes ok: "kernel_ok i s" and sch: "scheduled s" and im: "port s = SwitchImmediate" and n: "nd_interrupt_nest_count s = 1"
    and t: "nd_current_thread s = Some t"
  shows "wp (nd_schedule_irq_exit (nd_exit_interrupt s)) (\<lambda>s'. kernel_ok i s' \<and> scheduled s' \<and> nd_interrupt_nest_count s' = 0 \<and>
    sched_frame (nd_exit_interrupt s) s' \<and> (\<exists>u. nd_current_thread s' = Some u \<and> u \<in> set (nd_thread_list s)))"
proof -
  let ?s = "nd_exit_interrupt s"
  note K = kernel_okD [OF ok]
  have "wp (nd_schedule_irq_exit ?s) (\<lambda>s'. kernel_ok i s' \<and> scheduled s' \<and> sched_frame ?s s' \<and>
      \<not> nd_interrupt_try_switch s' \<and> nd_current_thread s' \<noteq> None)"
  proof (rule nd_schedule_irq_exit_ok)
    show "cur_link (?s\<lparr>nd_interrupt_try_switch := False\<rparr>)" using K(2) by (simp add: nd_exit_interrupt_def cur_link_def cong: if_cong)
    have "scheduled ?s = scheduled s" by (rule scheduled_cong) (simp_all add: nd_exit_interrupt_def)
    then show "kernel_ok i ?s \<and> scheduled ?s" if "\<not> nd_interrupt_try_switch ?s"
      using that ok sch by (simp add: kernel_ok_def cur_ok_def cur_link_def nd_exit_interrupt_def cong: if_cong)
  qed (use K im t in \<open>simp_all add: nd_exit_interrupt_def\<close>)
  then show ?thesis
  proof (rule wp_mono, elim conjE)
    fix s' assume s': "kernel_ok i s'" "scheduled s'" "sched_frame ?s s'" "\<not> nd_interrupt_try_switch s'" "nd_current_thread s' \<noteq> None"
    note U = unschedD [OF sched_frameD(1) [OF s'(3)]]
    obtain u where u: "nd_current_thread s' = Some u" using s'(5) by auto
    have "\<not> pendsv s'" using kernel_okD(2) [OF s'(1)] u U(1) im by (auto simp: cur_link_def nd_exit_interrupt_def split: if_splits)
    then have "status s' u = ND_THREAD_STAT_RUNNING" using kernel_okD(6) [OF s'(1) u] s'(4) by blast
    then have "u \<in> set (nd_thread_list s)"
      using kernel_okD(5) [OF s'(1), of u] U(5) by (simp add: thread_ok_def nd_exit_interrupt_def)
    with s' u U(4) n show "kernel_ok i s' \<and> scheduled s' \<and> nd_interrupt_nest_count s' = 0 \<and>
      sched_frame ?s s' \<and> (\<exists>u. nd_current_thread s' = Some u \<and> u \<in> set (nd_thread_list s))"
      by (simp add: nd_exit_interrupt_def)
  qed
qed

section \<open>Fields outside the invariant\<close>

lemma kernel_ok_fields [simp]:
  "kernel_ok i (s\<lparr>sems := a\<rparr>) = kernel_ok i s" "kernel_ok i (s\<lparr>mutexes := b\<rparr>) = kernel_ok i s"
  "kernel_ok i (s\<lparr>events := c\<rparr>) = kernel_ok i s" "kernel_ok i (s\<lparr>queues := d\<rparr>) = kernel_ok i s"
  "kernel_ok i (s\<lparr>pools := e\<rparr>) = kernel_ok i s" "kernel_ok i (s\<lparr>taken_list := f\<rparr>) = kernel_ok i s"
  by (simp_all add: kernel_ok_def cur_ok_def cur_link_def cong: if_cong)

lemma scheduled_fields [simp]:
  "scheduled (s\<lparr>sems := a\<rparr>) = scheduled s" "scheduled (s\<lparr>mutexes := b\<rparr>) = scheduled s"
  "scheduled (s\<lparr>events := c\<rparr>) = scheduled s" "scheduled (s\<lparr>queues := d\<rparr>) = scheduled s"
  "scheduled (s\<lparr>pools := e\<rparr>) = scheduled s" "scheduled (s\<lparr>taken_list := f\<rparr>) = scheduled s"
  by (rule scheduled_cong; simp)+

lemma cur_link_status:
  assumes "nd_current_thread s' = nd_current_thread s" "nd_next_thread s' = nd_next_thread s"
    "nd_interrupt_try_switch s' = nd_interrupt_try_switch s" "pendsv s' = pendsv s" "port s' = port s"
    "nd_interrupt_nest_count s' = nd_interrupt_nest_count s" "\<And>t. status s' t = status s t"
  shows "cur_link s' = cur_link s"
  by (simp only: cur_link_def assms)

end
