(* ===== verification/Nd_Sample.thy ===== *)
theory Nd_Sample
  imports Nd_Calls
begin

text \<open>
  A concrete state of the kernel, at which the theorems about its operations are instantiated:
  nine threads (0 is the idle thread, 1 is running and owns mutex 0, 2 is ready at the same
  priority, 3 to 6 wait for a semaphore, a mutex, an event and the end of thread 2, 7 sleeps until
  tick 50, 8 is suspended), an application timer 0, and the tick count at 50.
\<close>

section \<open>A concrete state\<close>

definition sample_thread :: "nat \<Rightarrow> nd_thread_stat \<Rightarrow> nd_thread" where
  "sample_thread p st =
     \<lparr>sp = 0, entry = 0x8000, parameter = 0, stack_addr = 0x20000000, stack_size = 512, priority = p,
      init_priority = p, yield = False, error = ND_EOK, stat = st, options = 0, time_slice = 0,
      slice_left = 0, slice_start = 0, event_set = 0, event_opt = ND_EVENT_OR, name = ''t''\<rparr>"

definition sample_timer :: "timer_callback option \<Rightarrow> nat option \<Rightarrow> nd_timer" where
  "sample_timer cb a =
     \<lparr>timer_name = '''', timer_type = ND_TIMER_TYPE_ONE_SHOT, timeout = 20, callback = cb, arg = a,
      expire_time = 0, node_empty = True\<rparr>"

definition sample_threads :: "tid \<Rightarrow> nd_thread" where
  "sample_threads t =
     (if t = 0 then (sample_thread 31 ND_THREAD_STAT_READY)\<lparr>options := ND_THREAD_OPT_ESSENTIAL\<rparr>
      else if t = 1 then sample_thread 10 ND_THREAD_STAT_RUNNING
      else if t = 2 then sample_thread 10 ND_THREAD_STAT_READY
      else if t = 3 then sample_thread 5 ND_THREAD_STAT_BLOCK
      else if t = 4 then sample_thread 12 ND_THREAD_STAT_BLOCK
      else if t = 5 then (sample_thread 8 ND_THREAD_STAT_BLOCK)\<lparr>event_set := 6\<rparr>
      else if t = 6 then sample_thread 9 ND_THREAD_STAT_BLOCK
      else if t = 7 then sample_thread 4 ND_THREAD_STAT_BLOCK
      else if t = 8 then sample_thread 3 ND_THREAD_STAT_SUSPEND
      else sample_thread 0 ND_THREAD_STAT_INIT)"

definition sample_home :: "tid \<Rightarrow> list_head option" where
  "sample_home t =
     (if t = 0 then Some (ReadyList 31) else if t = 2 then Some (ReadyList 10)
      else if t = 3 then Some (SemWait 0) else if t = 4 then Some (MutexWait 0)
      else if t = 5 then Some (EventWait 0) else if t = 6 then Some (JoinList 2) else None)"

definition sample_lists :: "list_head \<Rightarrow> tid list" where
  "sample_lists k =
     (if k = ReadyList 31 then [0] else if k = ReadyList 10 then [2] else if k = SemWait 0 then [3]
      else if k = MutexWait 0 then [4] else if k = EventWait 0 then [5] else if k = JoinList 2 then [6]
      else [])"

definition sample_timers :: "timer_ref \<Rightarrow> nd_timer" where
  "sample_timers r =
     (case r of
        ThreadTimer t \<Rightarrow>
          if t = 7 then (sample_timer (Some CB_delay) (Some 7))\<lparr>expire_time := 50, node_empty := False\<rparr>
          else sample_timer None (if t < 9 then Some t else None)
      | SliceTimer t \<Rightarrow> sample_timer (if t < 9 then Some CB_slice else None) (if t < 9 then Some t else None)
      | UserTimer n \<Rightarrow> if n = 0 then sample_timer (Some (CB_user 0)) None else sample_timer None None)"

definition sample :: "switch_kind \<Rightarrow> kstate" where
  "sample pt =
     \<lparr>port = pt, hw_stack_init = (\<lambda>e p a. a - 64), tickless = False, nd_current_thread = Some 1,
      nd_next_thread = None, nd_interrupt_nest_count = 0, nd_interrupt_try_switch = False, pendsv = False,
      k_thread_ready_bit = 0x80000400, qlists = sample_lists, qhome = sample_home,
      threads = sample_threads, nd_thread_list = [0, 1, 2, 3, 4, 5, 6, 7, 8],
      taken_list = (\<lambda>t. if t = 1 then [0] else []), timers = sample_timers, rbtree = [ThreadTimer 7],
      now = 50, hr = HrCleared, sems = (\<lambda>i. \<lparr>sem_val = (if i = 1 then 2 else 0)\<rparr>),
      mutexes = (\<lambda>m. if m = 0 then \<lparr>mutex_priority = 10, owner = Some 1, owner_home = Some 1\<rparr>
                     else \<lparr>mutex_priority = 32, owner = None, owner_home = None\<rparr>),
      events = (\<lambda>e. \<lparr>event_flags = 0\<rparr>),
      queues = (\<lambda>q. \<lparr>buf = replicate 8 0, msg_size = 4, max_msgs = 2, used_msg = (if q = 1 then 2 else 0),
                     read_ptr = 0, write_ptr = (if q = 1 then 2 else 0)\<rparr>),
      pools = (\<lambda>p. \<lparr>start = 0, block_size = 0, block_count = 0, free_count = 0, free_list = 0,
                    pool_mem = (\<lambda>a. 0)\<rparr>)\<rparr>"

lemma sample_lists_ok: "lists_ok (sample pt)"
proof -
  have "t \<in> set (sample_lists k) \<longleftrightarrow> sample_home t = Some k" for t k
    unfolding sample_lists_def sample_home_def by (cases k) auto
  moreover have "distinct (sample_lists k)" for k unfolding sample_lists_def by simp
  ultimately show ?thesis by (simp add: lists_ok_def sample_def)
qed

lemma sample_timers_ok: "timers_ok (sample pt)"
  by (auto simp: timers_ok_def sample_def sample_timers_def sample_timer_def split: timer_ref.splits)

lemma sample_bits_ok: "bits_ok (sample pt)"
proof -
  have "\<forall>p \<in> set [0..<32]. bit (0x80000400 :: u32) p \<longleftrightarrow> p = 31 \<or> p = 10" by code_simp
  then show ?thesis by (auto simp: bits_ok_def sample_def sample_lists_def)
qed

lemma sample_user_ok: "user_ok (sample pt)"
  by (auto simp: user_ok_def sample_def sample_timers_def sample_timer_def split: if_splits)

lemmas sample_defs = sample_def sample_threads_def sample_thread_def sample_home_def
  sample_timers_def sample_timer_def

lemma sample_thread_ok: "thread_ok (sample pt) t"
proof (cases "t < 9")
  case True
  then have "t = 0 \<or> t = 1 \<or> t = 2 \<or> t = 3 \<or> t = 4 \<or> t = 5 \<or> t = 6 \<or> t = 7 \<or> t = 8" by arith
  then show ?thesis
    by (elim disjE) (simp_all add: thread_ok_def home_ok_def timer_ok_def slice_ok_def sample_defs)
next
  case False
  then show ?thesis
    by (simp add: thread_ok_def home_ok_def timer_ok_def slice_ok_def sample_defs)
qed

lemma sample_ok: "kernel_ok 0 (sample pt)"
  using sample_lists_ok sample_timers_ok sample_bits_ok sample_user_ok sample_thread_ok
  by (simp add: kernel_ok_def kinv_def base_ok_def cur_ok_def cur_link_def runnable_def) 
     (simp add: sample_defs)

lemma sample_scheduled: "scheduled (sample pt)"
  by (auto simp: scheduled_def sample_defs split: if_splits)

lemma sample_calling: "calling 0 1 (sample pt)"
  using sample_ok by (simp add: calling_def) (simp add: sample_def)

text \<open>The same state in an interrupt handler.\<close>

definition sample_irq :: "switch_kind \<Rightarrow> kstate" where
  "sample_irq pt = nd_enter_interrupt (sample pt)"

lemma sample_irq_ok:
  "kernel_ok 0 (sample_irq pt)" "scheduled (sample_irq pt)" "nd_interrupt_nest_count (sample_irq pt) > 0"
  unfolding sample_irq_def
  using nd_enter_interrupt_ok [OF sample_ok [of pt]] sample_scheduled [of pt]
  by (simp_all add: sample_def)

section \<open>Properties\<close>

text \<open>C7: a thread that yields goes to the end of the ready list of its priority, and the thread in
  front of that list runs next (round robin): at once on the ports that switch in
  \<open>nd_hw_do_switch\<close>, after PendSV on the others.\<close>

theorem yield_round_robin:
  assumes C: "calling i c s" and sch: "scheduled s" and q: "qlists s (ReadyList (prio_of s c)) = n # L"
  shows "wp (nd_thread_yield s) (\<lambda>s'. kernel_ok i s' \<and> scheduled s' \<and> status s' c = ND_THREAD_STAT_READY \<and>
           (case port s of
              SwitchImmediate \<Rightarrow> nd_current_thread s' = Some n \<and> status s' n = ND_THREAD_STAT_RUNNING \<and>
                qlists s' (ReadyList (prio_of s c)) = L @ [c]
            | SwitchDeferred \<Rightarrow> pendsv s' \<and> nd_next_thread s' = Some n \<and>
                qlists s' (ReadyList (prio_of s c)) = n # L @ [c]))"
proof (rule wp_mono [OF nd_thread_yield_ok [OF C]], elim conjE)
  let ?s = "upd_thread (yield_update (\<lambda>_. True)) c s"
  fix s' assume s': "kernel_ok i s'" "scheduled s'" "sched_frame s s'" "sched_step c ?s s'"
  note D = callingD [OF C]
  note K = kinvD(2) [OF D(7), simplified]
  have least: "prio_of s c \<le> prio_of s t" if "status s t = ND_THREAD_STAT_READY" for t
    using sch D(2,4,5) that by (simp add: scheduled_def)
  have "qhome s n = Some (ReadyList (prio_of s c))"
    using q lists_okD(1) [OF base_ok_lists [OF D(15)], of n "ReadyList (prio_of s c)"] by simp
  from ready_home_prio [OF K this] have n: "prio_of s n = prio_of s c" "status s n = ND_THREAD_STAT_READY"
    by simp_all
  then have nc: "n \<noteq> c" using D(6) by auto
  from s'(4) obtain m s1 where p: "picked c m ?s s1" and r: "rest s1 = rest ?s"
    and sw: "case port s of SwitchDeferred \<Rightarrow> s' = s1\<lparr>nd_next_thread := Some m, pendsv := True\<rparr>
       | SwitchImmediate \<Rightarrow> switched m s1 s'"
    unfolding sched_step_def using n nc by (auto dest: spec [of _ n])
  have m: "highest ?s m" "front ?s m" using p by (simp_all add: picked_def)
  have st: "status ?s t = status s t" "prio_of ?s t = prio_of s t" for t by simp_all
  have "prio_of s m = prio_of s c"
    using m(1) n least [of m] unfolding highest_def st by (metis le_antisym)
  with m(2) q have mn: "m = n" by (cases "m = c") (auto simp: front_def)
  have q1: "qlists s1 = (qlists s)(ReadyList (prio_of s c) := n # L @ [c])"
    and c1: "status s1 c = ND_THREAD_STAT_READY" and n1: "prio_of s1 n = prio_of s c"
    using p mn q n D(6) nc by (simp_all add: picked_def)
  show "kernel_ok i s' \<and> scheduled s' \<and> status s' c = ND_THREAD_STAT_READY \<and>
           (case port s of
              SwitchImmediate \<Rightarrow> nd_current_thread s' = Some n \<and> status s' n = ND_THREAD_STAT_RUNNING \<and>
                qlists s' (ReadyList (prio_of s c)) = L @ [c]
            | SwitchDeferred \<Rightarrow> pendsv s' \<and> nd_next_thread s' = Some n \<and>
                qlists s' (ReadyList (prio_of s c)) = n # L @ [c])"
    using s'(1,2) sw q1 c1 n1 nc mn by (cases "port s") (simp_all add: switched_def)
qed

theorem yield_round_robin_witness:
  "wp (nd_thread_yield (sample SwitchImmediate)) (\<lambda>s'. nd_current_thread s' = Some 2 \<and>
     qlists s' (ReadyList 10) = [1])"
  by (rule wp_mono [OF yield_round_robin [OF sample_calling sample_scheduled, of SwitchImmediate 2 "[]"]])
    (simp_all add: sample_defs sample_lists_def)

text \<open>The PendSV handler switches to the thread chosen by the scheduler, keeps the kernel well
  formed, and afterwards a most urgent runnable thread is running.\<close>

theorem pendsv_switches:
  assumes ok: "kernel_ok i s" and p: "pendsv s" and c: "nd_current_thread s = Some c" and sch: "scheduled s"
    and tr: "\<not> nd_interrupt_try_switch s"
  shows "wp (isr_pendsv s) (\<lambda>s'. kernel_ok i s' \<and> nd_current_thread s' = nd_next_thread s \<and>
           (\<forall>n. nd_current_thread s' = Some n \<longrightarrow> status s' n = ND_THREAD_STAT_RUNNING \<and>
              (\<forall>t. status s' t = ND_THREAD_STAT_READY \<longrightarrow> prio_of s' n \<le> prio_of s' t)))"
proof (rule wp_mono [OF isr_pendsv_ok [OF ok p c]], elim conjE exE)
  fix s' n
  assume a: "kernel_ok i s'" "\<not> pendsv s'" "nd_interrupt_try_switch s' = nd_interrupt_try_switch s"
    "nd_next_thread s = Some n" "nd_current_thread s' = Some n" "scheduled s \<longrightarrow> scheduled s'"
  then have "scheduled s'" using sch by simp
  with a tr show "kernel_ok i s' \<and> nd_current_thread s' = nd_next_thread s \<and>
           (\<forall>n. nd_current_thread s' = Some n \<longrightarrow> status s' n = ND_THREAD_STAT_RUNNING \<and>
              (\<forall>t. status s' t = ND_THREAD_STAT_READY \<longrightarrow> prio_of s' n \<le> prio_of s' t))"
    by (simp add: scheduled_def)
qed

text \<open>The sample state after a yield on a port that defers the switch.\<close>

lemma sample_yielded:
  obtains s where "kernel_ok 0 s" "scheduled s" "pendsv s" "nd_next_thread s = Some 2"
    "nd_current_thread s = Some 1" "\<not> nd_interrupt_try_switch s"
    "nd_thread_yield (sample SwitchDeferred) = Some s"
proof -
  let ?P = "\<lambda>s. kernel_ok 0 s \<and> scheduled s \<and> pendsv s \<and> nd_next_thread s = Some 2 \<and>
     nd_current_thread s = Some 1 \<and> \<not> nd_interrupt_try_switch s"
  have "nd_ffs 0x80000400 = 11" by code_simp
  then have "wp (nd_thread_yield (sample SwitchDeferred)) (\<lambda>s. pendsv s \<and> nd_next_thread s = Some 2 \<and>
     nd_current_thread s = Some 1 \<and> \<not> nd_interrupt_try_switch s)"
    by (simp add: nd_thread_yield_def nd_scheduler_def nd_schedule_core_def nd_schedule_pick_next_def
        nd_get_highest_priority_thread_def nd_should_switch_def nd_thread_ready_add_tail_def
        nd_hw_do_switch_def q_insert_tail_def q_first_def sample_defs sample_lists_def upd_thread_def Let_def)
  with nd_thread_yield_ok [OF sample_calling, of SwitchDeferred]
  have "wp (nd_thread_yield (sample SwitchDeferred)) ?P" by (auto simp: wp_iff)
  then show thesis using that by (auto simp: wp_iff)
qed

theorem pendsv_switches_witness:
  "\<exists>s. nd_thread_yield (sample SwitchDeferred) = Some s \<and>
     wp (isr_pendsv s) (\<lambda>s'. kernel_ok 0 s' \<and> nd_current_thread s' = Some 2)"
proof -
  obtain s where s: "kernel_ok 0 s" "scheduled s" "pendsv s" "nd_next_thread s = Some 2"
    "nd_current_thread s = Some 1" "\<not> nd_interrupt_try_switch s"
    "nd_thread_yield (sample SwitchDeferred) = Some s"
    by (rule sample_yielded)
  have "wp (isr_pendsv s) (\<lambda>s'. kernel_ok 0 s' \<and> nd_current_thread s' = Some 2)"
    by (rule wp_mono [OF pendsv_switches [OF s(1,3,5,2,6)]]) (simp add: s(4))
  with s(7) show ?thesis by blast
qed

text \<open>A sleeping thread is blocked, out of every list, until the timer armed for the end of the
  delay expires; meanwhile a most urgent ready thread runs.\<close>

theorem delay_correct:
  assumes C: "calling i c s" and ci: "c \<noteq> i"
  shows "wp (nd_thread_delay delay s) (\<lambda>s'. kernel_ok i s' \<and> scheduled s' \<and>
           status s' c = ND_THREAD_STAT_BLOCK \<and> qhome s' c = None \<and> armed_for CB_delay (expiry s delay) c s' \<and>
           sems s' = sems s \<and> mutexes s' = mutexes s \<and> events s' = events s)"
proof (rule wp_mono [OF nd_thread_delay_ok [OF C ci]], elim conjE)
  fix s' assume s': "kernel_ok i s'" "scheduled s'" "sync_frame s s'"
    "status s' c = ND_THREAD_STAT_BLOCK" "armed_for CB_delay (expiry s delay) c s'"
  have "timer_ok c (threads s' c) (qhome s' c) (timers s' (ThreadTimer c)) (ThreadTimer c \<in> set (rbtree s'))"
    using kernel_okD(5) [OF s'(1), of c] by (simp add: thread_ok_def)
  with s'(5) have "qhome s' c = None" by (auto simp: timer_ok_def armed_for_def split: if_splits)
  with s' sync_frameD(1-3) [OF s'(3)] show "kernel_ok i s' \<and> scheduled s' \<and>
           status s' c = ND_THREAD_STAT_BLOCK \<and> qhome s' c = None \<and> armed_for CB_delay (expiry s delay) c s' \<and>
           sems s' = sems s \<and> mutexes s' = mutexes s \<and> events s' = events s"
    by simp
qed

theorem delay_witness:
  "wp (nd_thread_delay 7 (sample SwitchDeferred)) (\<lambda>s'. status s' 1 = ND_THREAD_STAT_BLOCK \<and>
     armed_for CB_delay 57 1 s')"
  by (rule wp_mono [OF delay_correct [OF sample_calling]]) (simp_all add: sample_def expiry_def)

end
