(* ===== verification/Nd_Thread.thy ===== *)
theory Nd_Thread
  imports Nd_Sample
begin

text \<open>
  \<^verbatim>\<open>kernel/nd_thread.c\<close>: the life cycle of a thread (create, suspend, resume, abort, join) and the
  two services that all the IPC objects share, pending on a wait list and waking up from it.
\<close>

section \<open>Waiting\<close>

definition nd_thread_list_init :: "kstate \<Rightarrow> kstate option" where
  "nd_thread_list_init s = do { assert_ok (nd_thread_list s = []); Some (s\<lparr>nd_thread_list := []\<rparr>) }"

definition nd_thread_pend_timeout :: "tid option \<Rightarrow> kstate \<Rightarrow> kstate option" where
  "nd_thread_pend_timeout a s = do {
     t \<leftarrow> a;
     let s1 = upd_thread (\<lambda>th. th\<lparr>stat := ND_THREAD_STAT_READY, error := ND_ETIMEOUT\<rparr>) t s;
     s2 \<leftarrow> q_remove t s1;
     s3 \<leftarrow> nd_thread_ready_add_tail t s2;
     nd_scheduler s3
   }"

text \<open>The loop looks for the first waiting thread of lower urgency (a greater number).\<close>

definition nd_thread_wait_insert :: "list_head \<Rightarrow> tid \<Rightarrow> kstate \<Rightarrow> kstate option" where
  "nd_thread_wait_insert k t s =
     (case find (\<lambda>pos. priority (threads s pos) > priority (threads s t)) (qlists s k) of
        Some pos \<Rightarrow> q_insert_before pos t s
      | None \<Rightarrow> q_insert_tail k t s)"

definition nd_thread_pend :: "list_head \<Rightarrow> u64 \<Rightarrow> kstate \<Rightarrow> kstate option" where
  "nd_thread_pend k tmo s = do {
     c \<leftarrow> nd_current_thread s;
     s1 \<leftarrow> nd_thread_wait_insert k c s;
     let s2 = upd_thread (\<lambda>th. th\<lparr>error := ND_EOK, stat := ND_THREAD_STAT_BLOCK\<rparr>) c s1;
     if tmo \<noteq> ND_TIMEOUT_FOREVER then
       timer_start (ThreadTimer c)
         (upd_timer (\<lambda>t. t\<lparr>timeout := tmo, callback := Some CB_pend, arg := Some c\<rparr>) (ThreadTimer c) s2)
     else Some s2
   }"

definition nd_thread_wakeup :: "list_head \<Rightarrow> kstate \<Rightarrow> (tid \<times> kstate) option" where
  "nd_thread_wakeup k s = do {
     t \<leftarrow> q_first k s;
     s1 \<leftarrow> timer_stop (ThreadTimer t) s;
     let s2 = upd_thread (\<lambda>th. th\<lparr>error := ND_EOK, stat := ND_THREAD_STAT_READY\<rparr>) t s1;
     s3 \<leftarrow> q_remove t s2;
     s4 \<leftarrow> nd_thread_ready_add_tail t s3;
     Some (t, s4)
   }"

section \<open>Suspend and resume\<close>

definition nd_thread_resume :: "tid \<Rightarrow> kstate \<Rightarrow> (nd_err \<times> kstate) option" where
  "nd_thread_resume t s =
     (if stat (threads s t) \<noteq> ND_THREAD_STAT_SUSPEND then Some (ND_ERROR, s)
      else do {
        s1 \<leftarrow> nd_thread_ready_add_tail t (upd_thread (stat_update (\<lambda>_. ND_THREAD_STAT_READY)) t s);
        s2 \<leftarrow> nd_scheduler s1;
        Some (ND_EOK, s2)
      })"

definition nd_thread_suspend :: "tid \<Rightarrow> kstate \<Rightarrow> (nd_err \<times> kstate) option" where
  "nd_thread_suspend t s =
     (if taken_list s t \<noteq> [] then Some (ND_EPERM, s)
      else case stat (threads s t) of
        ND_THREAD_STAT_READY \<Rightarrow> do {
          s1 \<leftarrow> nd_thread_ready_remove t s;
          Some (ND_EOK, upd_thread (stat_update (\<lambda>_. ND_THREAD_STAT_SUSPEND)) t s1)
        }
      | ND_THREAD_STAT_RUNNING \<Rightarrow> do {
          s1 \<leftarrow> nd_scheduler (upd_thread (stat_update (\<lambda>_. ND_THREAD_STAT_SUSPEND)) t s);
          Some (ND_EOK, s1)
        }
      | ND_THREAD_STAT_BLOCK \<Rightarrow> do {
          let s1 = upd_thread (stat_update (\<lambda>_. ND_THREAD_STAT_SUSPEND)) t s;
          s2 \<leftarrow> (if q_is_linked t s1 then q_remove t s1 else Some s1);
          s3 \<leftarrow> timer_stop (ThreadTimer t) s2;
          s4 \<leftarrow> nd_scheduler s3;
          Some (ND_EOK, s4)
        }
      | _ \<Rightarrow> Some (ND_ERROR, s))"

section \<open>Termination of a thread\<close>

definition nd_is_thread_essential :: "tid \<Rightarrow> kstate \<Rightarrow> bool" where
  "nd_is_thread_essential t s = (options (threads s t) AND ND_THREAD_OPT_ESSENTIAL \<noteq> 0)"

definition nd_is_thread_dead :: "tid \<Rightarrow> kstate \<Rightarrow> bool" where
  "nd_is_thread_dead t s = (stat (threads s t) = ND_THREAD_STAT_DEAD)"

text \<open>\<^verbatim>\<open>while (!nd_list_is_empty(&thread->join_list)) nd_thread_wakeup(&thread->join_list);\<close>
  \<open>None\<close> is a fault or a loop that does not end.\<close>

partial_function (option) wake_joiners :: "tid \<Rightarrow> kstate \<Rightarrow> kstate option" where
  "wake_joiners t s =
     (if q_is_empty (JoinList t) s then Some s
      else Option.bind (nd_thread_wakeup (JoinList t) s) (\<lambda>(_, s1). wake_joiners t s1))"

definition nd_thread_halt :: "tid \<Rightarrow> kstate \<Rightarrow> kstate option" where
  "nd_thread_halt t s =
     (if stat (threads s t) = ND_THREAD_STAT_DEAD then Some s
      else do {
        s1 \<leftarrow> (case stat (threads s t) of
                 ND_THREAD_STAT_READY \<Rightarrow> nd_thread_ready_remove t s
               | ND_THREAD_STAT_BLOCK \<Rightarrow> if q_is_linked t s then q_remove t s else Some s
               | _ \<Rightarrow> Some s);
        let s2 = upd_thread (stat_update (\<lambda>_. ND_THREAD_STAT_DEAD)) t s1;
        s3 \<leftarrow> timer_stop (ThreadTimer t) s2;
        s4 \<leftarrow> timer_stop (SliceTimer t) s3;
        assert_ok (t \<in> set (nd_thread_list s4));
        let s5 = s4\<lparr>nd_thread_list := remove1 t (nd_thread_list s4)\<rparr>;
        s6 \<leftarrow> wake_joiners t s5;
        if nd_current_thread s6 = Some t then nd_scheduler s6 else Some s6
      })"

definition nd_thread_abort :: "tid option \<Rightarrow> kstate \<Rightarrow> (nd_err \<times> kstate) option" where
  "nd_thread_abort a s =
     (case a of
        None \<Rightarrow> Some (ND_EINVAL, s)
      | Some t \<Rightarrow>
          if nd_is_thread_dead t s then Some (ND_EOK, s)
          else if nd_is_thread_essential t s then Some (ND_EPERM, s)
          else do { s1 \<leftarrow> nd_thread_halt t s; Some (ND_EOK, s1) })"

text \<open>
  Blocking calls return an error code or, when the caller was put to sleep, nothing yet: what they
  return is the caller's \<open>error\<close> when it runs again.
\<close>

definition nd_wait_result :: "tid \<Rightarrow> kstate \<Rightarrow> nd_err" where
  "nd_wait_result t s = error (threads s t)"

definition nd_thread_join :: "tid option \<Rightarrow> u64 \<Rightarrow> kstate \<Rightarrow> (nd_err option \<times> kstate) option" where
  "nd_thread_join a tmo s =
     (case a of
        None \<Rightarrow> Some (Some ND_EINVAL, s)
      | Some t \<Rightarrow>
          if nd_current_thread s = Some t then Some (Some ND_EDEADLK, s)
          else if stat (threads s t) = ND_THREAD_STAT_DEAD then Some (Some ND_EOK, s)
          else if tmo = ND_TIMEOUT_NOWAIT then Some (Some ND_EBUSY, s)
          else do {
            s1 \<leftarrow> nd_thread_pend (JoinList t) tmo s;
            s2 \<leftarrow> nd_scheduler s1;
            Some (None, s2)
          })"

section \<open>Creation\<close>

text \<open>
  Initialising nodes that are still linked would cut the lists they are in: a fault. The stack
  itself is modelled in \<open>Nd_Context\<close>; here only its bounds and the initial stack pointer are kept.
\<close>

definition nd_thread_init ::
  "tid \<Rightarrow> string \<Rightarrow> u32 \<Rightarrow> nat \<Rightarrow> u32 \<Rightarrow> u32 \<Rightarrow> u32 \<Rightarrow> u64 \<Rightarrow> kstate \<Rightarrow> (nd_err \<times> kstate) option" where
  "nd_thread_init t nm ent prio par stk stksz tslice s = do {
     assert_ok (qhome s t = None \<and> t \<notin> set (nd_thread_list s) \<and> taken_list s t = [] \<and>
                qlists s (JoinList t) = [] \<and>
                ThreadTimer t \<notin> set (rbtree s) \<and> SliceTimer t \<notin> set (rbtree s));
     let nm' = take (ND_NAME_MAX_SIZE - 1) nm;
     let s1 = upd_thread (\<lambda>th. th\<lparr>name := nm', entry := ent, parameter := par, priority := prio,
                init_priority := prio, stack_addr := stk, stack_size := stksz,
                time_slice := tslice, slice_left := tslice, slice_start := 0,
                yield := False, stat := ND_THREAD_STAT_INIT,
                event_set := 0, event_opt := ND_EVENT_AND,
                sp := hw_stack_init s ent par (stk + stksz)\<rparr>) t s;
     let s2 = upd_timer (\<lambda>x. x\<lparr>timer_name := nm', arg := Some t,
                timer_type := ND_TIMER_TYPE_ONE_SHOT, node_empty := True\<rparr>) (ThreadTimer t) s1;
     let s3 = upd_timer (\<lambda>x. x\<lparr>timer_name := nm', arg := Some t,
                timer_type := ND_TIMER_TYPE_ONE_SHOT, callback := Some CB_slice,
                node_empty := True\<rparr>) (SliceTimer t) s2;
     Some (ND_EOK, s3)
   }"

definition nd_thread_create ::
  "tid option \<Rightarrow> string option \<Rightarrow> u32 \<Rightarrow> nat \<Rightarrow> u32 \<Rightarrow> u32 \<Rightarrow> u32 \<Rightarrow> u32 \<Rightarrow> u64 \<Rightarrow>
   kstate \<Rightarrow> (nd_err \<times> kstate) option" where
  "nd_thread_create thread nm ent prio par stk stksz opts tslice s =
     (case (thread, nm) of
        (Some t, Some n) \<Rightarrow>
          if ent = 0 \<or> stk = 0 \<or> stksz = 0 \<or> prio \<ge> ND_THREAD_PRIORITY_MAX then Some (ND_EINVAL, s)
          else do {
            (e, s1) \<leftarrow> nd_thread_init t n ent prio par stk stksz tslice s;
            if e \<noteq> ND_EOK then Some (ND_ERROR, s1)
            else do {
              let s2 = upd_thread (\<lambda>th. th\<lparr>options := opts, stat := ND_THREAD_STAT_READY\<rparr>) t s1;
              let s3 = s2\<lparr>nd_thread_list := nd_thread_list s2 @ [t]\<rparr>;
              s4 \<leftarrow> nd_thread_ready_add_tail t s3;
              s5 \<leftarrow> nd_scheduler s4;
              Some (ND_EOK, s5)
            }
          }
      | _ \<Rightarrow> Some (ND_EINVAL, s))"

text \<open>\<^verbatim>\<open>nd_scheduler_init\<close>: empty ready lists and the idle thread.\<close>

fun init_ready_lists :: "nat \<Rightarrow> kstate \<Rightarrow> kstate option" where
  "init_ready_lists 0 s = Some s"
| "init_ready_lists (Suc n) s = do {
     s1 \<leftarrow> init_ready_lists n s;
     q_init (ReadyList n) s1
   }"

definition nd_scheduler_init :: "tid \<Rightarrow> u32 \<Rightarrow> u32 \<Rightarrow> u32 \<Rightarrow> kstate \<Rightarrow> kstate option" where
  "nd_scheduler_init idle idle_entry idle_stack idle_size s = do {
     s1 \<leftarrow> nd_thread_list_init s;
     s2 \<leftarrow> init_ready_lists ND_THREAD_PRIORITY_MAX s1;
     map_option snd (nd_thread_create (Some idle) (Some ''idle'') idle_entry
       (ND_THREAD_PRIORITY_MAX - 1) 0 idle_stack idle_size ND_THREAD_OPT_ESSENTIAL 0 s2)
   }"

text \<open>\<^verbatim>\<open>nd_thread_entry\<close>: after the entry function (a parameter: what it did to the state) returns,
  the current thread is aborted.\<close>

definition nd_thread_entry :: "(kstate \<Rightarrow> kstate option) \<Rightarrow> kstate \<Rightarrow> kstate option" where
  "nd_thread_entry ent s = do {
     s1 \<leftarrow> ent s;
     map_option snd (nd_thread_abort (nd_current_thread s1) s1)
   }"

section \<open>Wait lists\<close>

text \<open>The wait list is in order of priority, first come first served within one priority.\<close>

lemma nd_thread_wait_insert_ok:
  assumes b: "base_ok s" and home: "qhome s t = None" and nr: "\<not> is_ready k"
  shows "wp (nd_thread_wait_insert k t s) (\<lambda>s'. base_ok s' \<and>
           relinked t (Some k) k (insort_after (prio_of s) t (qlists s k)) s s')"
proof -
  let ?L = "insort_after (prio_of s) t (qlists s k)"
  let ?s' = "s\<lparr>qlists := (qlists s)(k := ?L), qhome := (qhome s)(t := Some k)\<rparr>"
  note D = lists_okD [OF base_ok_lists [OF b]]
  have out: "t \<notin> set (qlists s k)" using D(1) home by simp
  have "nd_thread_wait_insert k t s = Some ?s'"
  proof (cases "find (\<lambda>pos. prio_of s pos > prio_of s t) (qlists s k)")
    case None
    with find_greater_None [of "prio_of s" t "qlists s k"] home show ?thesis
      by (simp add: nd_thread_wait_insert_def q_insert_tail_def)
  next
    case (Some pos)
    let ?a = "takeWhile (\<lambda>y. prio_of s y \<le> prio_of s t) (qlists s k)"
      and ?b = "tl (dropWhile (\<lambda>y. prio_of s y \<le> prio_of s t) (qlists s k))"
    note dw = find_greater_Some [OF Some]
    have split: "qlists s k = ?a @ pos # ?b"
      using takeWhile_dropWhile_id [of "\<lambda>y. prio_of s y \<le> prio_of s t" "qlists s k"] dw by simp
    then have "pos \<in> set (qlists s k)" by (metis in_set_conv_decomp)
    then have hp: "qhome s pos = Some k" using D(1) by simp
    have pa: "pos \<notin> set ?a" using find_Some_iff [THEN iffD1, OF Some] set_takeWhileD by fastforce
    have tw: "takeWhile (\<lambda>x. x \<noteq> pos) (qlists s k) = ?a" "dropWhile (\<lambda>x. x \<noteq> pos) (qlists s k) = pos # ?b"
      using takeWhile_neq_split [OF pa, of ?b] dropWhile_neq_split [OF pa, of ?b] split by simp_all
    have "?L = takeWhile (\<lambda>x. x \<noteq> pos) (qlists s k) @ t # dropWhile (\<lambda>x. x \<noteq> pos) (qlists s k)"
      unfolding insort_after_def tw by (rule arg_cong [OF dw])
    with Some home hp show ?thesis
      by (simp add: nd_thread_wait_insert_def q_insert_before_def)
  qed
  moreover have "lists_ok ?s'"
    by (rule lists_ok_link [OF base_ok_lists [OF b] home, of ?L k]) (use D(2) out in simp_all)
  moreover have rel: "relinked t (Some k) k ?L s ?s'" by (simp add: relinked_def)
  ultimately show ?thesis using base_ok_relinked [OF b rel _ nr] by simp
qed

text \<open>The effect of one operation on the wait lists: the one at \<open>k\<close> is now \<open>L\<close>.\<close>

definition wait_frame :: "list_head \<Rightarrow> tid list \<Rightarrow> kstate \<Rightarrow> kstate \<Rightarrow> bool" where
  "wait_frame k L s s' \<longleftrightarrow>
     sems s' = sems s \<and> mutexes s' = mutexes s \<and> events s' = events s \<and> queues s' = queues s \<and>
     pools s' = pools s \<and> taken_list s' = taken_list s \<and> port s' = port s \<and>
     tickless s' = tickless s \<and> now s' = now s \<and>
     nd_interrupt_nest_count s' = nd_interrupt_nest_count s \<and>
     (\<forall>j. \<not> is_ready j \<longrightarrow> qlists s' j = (if j = k then L else qlists s j)) \<and>
     (\<forall>t. event_set (threads s' t) = event_set (threads s t) \<and>
          event_opt (threads s' t) = event_opt (threads s t) \<and> prio_of s' t = prio_of s t \<and>
          init_priority (threads s' t) = init_priority (threads s t))"

lemma wait_frameD:
  assumes "wait_frame k L s s'"
  shows "sems s' = sems s" "mutexes s' = mutexes s" "events s' = events s" "queues s' = queues s"
    "pools s' = pools s" "taken_list s' = taken_list s" "port s' = port s" "tickless s' = tickless s"
    "now s' = now s" "nd_interrupt_nest_count s' = nd_interrupt_nest_count s"
    "\<not> is_ready j \<Longrightarrow> qlists s' j = (if j = k then L else qlists s j)"
    "event_set (threads s' t) = event_set (threads s t)"
    "event_opt (threads s' t) = event_opt (threads s t)" "prio_of s' t = prio_of s t"
    "init_priority (threads s' t) = init_priority (threads s t)"
  using assms unfolding wait_frame_def by blast+

lemma wait_frame_sched:
  assumes a: "wait_frame k L s s1" and b: "sched_frame s1 s'"
  shows "wait_frame k L s s'"
  unfolding wait_frame_def
  using wait_frameD [OF a] unschedD [OF sched_frameD(1) [OF b]] sched_frameD(2) [OF b]
    th_staticD(1,2,5,6) [OF sched_frameD(3) [OF b]]
  by simp

lemma sync_frame_wait: "wait_frame k L s s' \<Longrightarrow> set L \<subseteq> set (qlists s k) \<Longrightarrow> sync_frame s s'"
  by (simp add: sync_frame_def wait_frame_def)

section \<open>Pending on a wait list and waking up\<close>

text \<open>Thread \<open>c\<close> waits in the list at \<open>k\<close>, its timer armed unless it waits for ever.\<close>

definition waits :: "list_head \<Rightarrow> u64 \<Rightarrow> tid \<Rightarrow> kstate \<Rightarrow> kstate \<Rightarrow> bool" where
  "waits k tmo c s s' \<longleftrightarrow>
     status s' c = ND_THREAD_STAT_BLOCK \<and> qhome s' c = Some k \<and> error (threads s' c) = ND_EOK \<and>
     (if tmo = ND_TIMEOUT_FOREVER then ThreadTimer c \<notin> set (rbtree s')
      else armed_for CB_pend (expiry s tmo) c s')"

lemma nd_thread_pend_ok:
  assumes C: "calling i c s" and "c \<noteq> i" and nr: "\<not> is_ready k"
  shows "wp (nd_thread_pend k tmo s) (\<lambda>s'. kinv {} s' \<and> cur_link s' \<and> runnable (status s' i) \<and>
           rest s' = rest s \<and> waits k tmo c s s' \<and>
           wait_frame k (insort_after (prio_of s) c (qlists s k)) s s')"
proof -
  let ?L = "insort_after (prio_of s) c (qlists s k)"
  let ?g = "\<lambda>th. th\<lparr>error := ND_EOK, stat := ND_THREAD_STAT_BLOCK\<rparr>"
  let ?f = "\<lambda>t. t\<lparr>timeout := tmo, callback := Some CB_pend, arg := Some c\<rparr>"
  have def': "nd_thread_pend k tmo s = do { s1 \<leftarrow> nd_thread_wait_insert k c s;
      if tmo \<noteq> ND_TIMEOUT_FOREVER
      then timer_start (ThreadTimer c) (upd_timer ?f (ThreadTimer c) (upd_thread ?g c s1))
      else Some (upd_thread ?g c s1) }"
    by (simp add: nd_thread_pend_def callingD(2) [OF C] Let_def)
  show ?thesis unfolding def' wp_bind
  proof (rule wp_mono [OF nd_thread_wait_insert_ok [OF callingD(15,9) [OF C] nr]], elim conjE)
    fix s1
    assume b1: "base_ok s1" and rel: "relinked c (Some k) k ?L s s1"
    note R = relinkedD [OF rel]
    let ?s2 = "upd_thread ?g c s1"
    have k2: "kinv {c} ?s2"
      by (rule kinv_upd_thread [OF kinv_relinked [OF kinv_mono [OF callingD(7) [OF C]] rel b1]]) simp
    have "settled s c" by (rule thread_ok_settled [OF callingD(8,14,10) [OF C]])
    then have st2: "settled ?s2 c" using settled_relinked [OF rel] by simp
    have home: "qhome ?s2 c = Some k" by (simp add: R)
    have hn: "qhome ?s2 c \<noteq> Some (ReadyList p)" for p using home nr by auto
    have wf2: "wait_frame k ?L s ?s2"
      using restD [OF R(1)] by (simp add: wait_frame_def R)
    have idle: "runnable (status ?s2 i)" using callingD(11) [OF C] assms(2) by (simp add: R(2))
    have exp: "expiry ?s2 tmo = expiry s tmo" using restD(3,11) [OF R(1)] by (simp add: expiry_def)
    have link: "cur_link s'" if "rest s' = rest ?s2" for s'
      by (rule cur_link_calling [OF C]) (simp add: that R(1))
    show "wp (if tmo \<noteq> ND_TIMEOUT_FOREVER
        then timer_start (ThreadTimer c) (upd_timer ?f (ThreadTimer c) ?s2) else Some ?s2)
        (\<lambda>s'. kinv {} s' \<and> cur_link s' \<and> runnable (status s' i) \<and> rest s' = rest s \<and>
              waits k tmo c s s' \<and> wait_frame k ?L s s')"
    proof (cases "tmo = ND_TIMEOUT_FOREVER")
      case True
      have "thread_ok ?s2 c"
        using st2 nr unfolding thread_ok_def settled_def timer_ok_def slice_ok_def
        by (auto simp: home_ok_def R split: list_head.splits)
      then have "kinv {} ?s2" by (rule kinv_close [OF k2])
      moreover have "waits k tmo c s ?s2"
        using True st2 by (simp add: waits_def R settled_def)
      ultimately show ?thesis using True wf2 idle link [of ?s2] R(1) by simp
    next
      case False
      have "wp (timer_start (ThreadTimer c) (upd_timer ?f (ThreadTimer c) ?s2))
        (\<lambda>s'. kinv {} s' \<and> cur_link s' \<and> runnable (status s' i) \<and> rest s' = rest s \<and>
              waits k tmo c s s' \<and> wait_frame k ?L s s')"
      proof (rule wp_mono [OF arm_ok [OF k2 _ st2 _ hn, where cb = CB_pend and f = ?f and tmo = tmo]])
        fix s'
        assume "kinv {} s' \<and> rest s' = rest ?s2 \<and> threads s' = threads ?s2 \<and> qlists s' = qlists ?s2 \<and>
          qhome s' = qhome ?s2 \<and> armed_for CB_pend (expiry ?s2 tmo) c s'"
        then have s': "kinv {} s'" "rest s' = rest ?s2" "threads s' = threads ?s2" "qlists s' = qlists ?s2"
          "qhome s' = qhome ?s2" "armed_for CB_pend (expiry s tmo) c s'" unfolding exp by blast+
        have "wait_frame k ?L s s'"
          using wait_frameD [OF wf2] restD [OF s'(2)] by (simp add: wait_frame_def s'(3,4))
        moreover have "waits k tmo c s s'"
          using False s'(6) home by (simp add: waits_def s'(3,5))
        ultimately show "kinv {} s' \<and> cur_link s' \<and> runnable (status s' i) \<and> rest s' = rest s \<and>
              waits k tmo c s s' \<and> wait_frame k ?L s s'"
          using s'(1) idle link [OF s'(2)] R(1) s'(2) by (simp add: s'(3))
      qed (simp_all add: R)
      with False show ?thesis by simp
    qed
  qed
qed

lemma waits_frame:
  assumes fr: "sched_frame s1 s'" and k: "kinv {} s'" and w: "waits k tmo c s s1" and nr: "\<not> is_ready k"
    and q: "c \<in> set (qlists s1 k)"
  shows "waits k tmo c s s'"
proof -
  have st: "status s' c = ND_THREAD_STAT_BLOCK"
    using w by (intro blocked_frame [OF fr]) (simp add: waits_def)
  have "c \<in> set (qlists s' k)" using q sched_frameD(2) [OF fr nr] by simp
  then have "qhome s' c = Some k" using lists_okD(1) [OF base_ok_lists [OF kinvD(1) [OF k]]] by simp
  moreover have "error (threads s' c) = error (threads s1 c)"
    using th_staticD(3) [OF sched_frameD(3) [OF fr]] .
  moreover have "ThreadTimer c \<in> set (rbtree s') \<longleftrightarrow> ThreadTimer c \<in> set (rbtree s1)"
    using sched_frameD(6) [OF fr] by simp
  ultimately show ?thesis using st w armed_frame [OF fr] by (simp add: waits_def split: if_splits)
qed

lemma pend_then_schedule:
  assumes C: "calling i c s" and "c \<noteq> i" and nr: "\<not> is_ready k"
  shows "wp (do { s1 \<leftarrow> nd_thread_pend k tmo s; nd_scheduler s1 }) (\<lambda>s'. kernel_ok i s' \<and> scheduled s' \<and>
           waits k tmo c s s' \<and> wait_frame k (insort_after (prio_of s) c (qlists s k)) s s')"
  unfolding wp_bind
proof (rule wp_mono [OF nd_thread_pend_ok [OF assms]], elim conjE)
  fix s1
  assume s1: "kinv {} s1" "cur_link s1" "runnable (status s1 i)" "waits k tmo c s s1"
    "wait_frame k (insort_after (prio_of s) c (qlists s k)) s s1"
  have q: "c \<in> set (qlists s1 k)" using wait_frameD(11) [OF s1(5) nr] by simp
  show "wp (nd_scheduler s1) (\<lambda>s'. kernel_ok i s' \<and> scheduled s' \<and>
           waits k tmo c s s' \<and> wait_frame k (insort_after (prio_of s) c (qlists s k)) s s')"
    by (rule wp_mono [OF nd_scheduler_ok [OF s1(1-3)]])
      (use waits_frame [OF _ _ s1(4) nr q] wait_frame_sched [OF s1(5)] kernel_okD(1) in blast)
qed


text \<open>Thread \<open>t\<close> was the first in the list at \<open>k\<close> and is ready now.\<close>

definition woken :: "list_head \<Rightarrow> tid \<Rightarrow> kstate \<Rightarrow> kstate \<Rightarrow> bool" where
  "woken k t s s' \<longleftrightarrow>
     threads s' = (threads s)(t := (threads s t)\<lparr>error := ND_EOK, stat := ND_THREAD_STAT_READY\<rparr>) \<and>
     ThreadTimer t \<notin> set (rbtree s') \<and>
     qlists s' = (qlists s)(k := remove1 t (qlists s k),
       ReadyList (prio_of s t) := qlists s (ReadyList (prio_of s t)) @ [t])"

lemma waiting_home:
  assumes "kinv {} s" and "t \<in> set (qlists s k)" and "\<not> is_ready k"
  shows "qhome s t = Some k" "status s t = ND_THREAD_STAT_BLOCK"
proof -
  show h: "qhome s t = Some k"
    using lists_okD(1) [OF base_ok_lists [OF kinvD(1) [OF assms(1)]]] assms(2) by simp
  show "status s t = ND_THREAD_STAT_BLOCK"
    using kinvD(2) [OF assms(1), of t] h assms(3) by (auto simp: thread_ok_def home_ok_def split: list_head.splits)
qed

text \<open>Unlinking a settled thread from a wait list.\<close>

lemma q_remove_ok:
  assumes k: "kinv {t} s" and home: "qhome s t = Some k" and nr: "\<not> is_ready k"
  shows "wp (q_remove t s) (\<lambda>s'. kinv {t} s' \<and> relinked t None k (remove1 t (qlists s k)) s s')"
proof -
  let ?s' = "s\<lparr>qlists := (qlists s)(k := remove1 t (qlists s k)), qhome := (qhome s)(t := None)\<rparr>"
  have rel: "relinked t None k (remove1 t (qlists s k)) s ?s'" by (simp add: relinked_def)
  have "lists_ok ?s'"
    by (rule lists_ok_unlink [OF base_ok_lists [OF kinvD(1) [OF k]] home]) simp_all
  then have "base_ok ?s'" using base_ok_relinked [OF kinvD(1) [OF k] rel _ nr] by simp
  then have "kinv {t} ?s'" by (rule kinv_relinked [OF k rel])
  with rel home show ?thesis by (simp add: q_remove_def)
qed

lemma nd_thread_wakeup_ok:
  assumes k: "kinv {} s" and link: "cur_link s" and idle: "runnable (status s i)"
    and q: "qlists s k = t # L" and nr: "\<not> is_ready k"
  shows "wp (nd_thread_wakeup k s) (\<lambda>(u, s'). u = t \<and> kinv {} s' \<and> cur_link s' \<and> runnable (status s' i) \<and>
           rest s' = rest s \<and> woken k t s s')"
proof -
  let ?g = "\<lambda>th. th\<lparr>error := ND_EOK, stat := ND_THREAD_STAT_READY\<rparr>"
  note h = waiting_home [OF k, of t k, unfolded q, simplified, OF nr]
  have p: "prio_of s t < ND_THREAD_PRIORITY_MAX" using kinvD(2) [OF k, of t] by (simp add: thread_ok_def)
  have def': "nd_thread_wakeup k s = do { s1 \<leftarrow> timer_stop (ThreadTimer t) s;
      s3 \<leftarrow> q_remove t (upd_thread ?g t s1);
      s4 \<leftarrow> nd_thread_ready_add_tail t s3; Some (t, s4) }"
    by (simp add: nd_thread_wakeup_def q_first_def q Let_def)
  show ?thesis unfolding def' wp_bind wp_Some prod.case
  proof (rule wp_mono [OF timer_stopped_ok [OF kinvD(1) [OF k]]])
    fix s1
    assume ts: "timer_stopped t s s1"
    note T = timer_stoppedD [OF ts]
    let ?s2 = "upd_thread ?g t s1"
    have k2: "kinv {t} ?s2" by (rule kinv_upd_thread [OF kinv_timer_stopped [OF kinv_mono [OF k] ts]]) simp
    have "settled s1 t"
      by (rule settled_stopped [OF kinvD(2) [OF k] _ ts]) (simp_all add: h alive_def)
    then have st2: "settled ?s2 t" by simp
    have home2: "qhome ?s2 t = Some k" by (simp add: T h)
    show "wp (q_remove t ?s2) (\<lambda>s3. wp (nd_thread_ready_add_tail t s3) (\<lambda>s4. t = t \<and> kinv {} s4 \<and>
            cur_link s4 \<and> runnable (status s4 i) \<and> rest s4 = rest s \<and> woken k t s s4))"
    proof (rule wp_mono [OF q_remove_ok [OF k2 home2 nr]], elim conjE)
      fix s3
      assume k3: "kinv {t} s3" and rel: "relinked t None k (remove1 t (qlists ?s2 k)) ?s2 s3"
      note R = relinkedD [OF rel]
      have r3: "readying s3 t"
        using st2 settled_relinked [OF rel] by (simp add: readying_iff R)
      have rest3: "rest s3 = rest s" by (simp add: R(1) T(2))
      have link3: "cur_link s3"
        by (rule cur_link_ready [OF link rest3, of t]) (simp_all add: R T)
      have idle3: "runnable (status s3 i)" using idle by (simp add: R T)
      show "wp (nd_thread_ready_add_tail t s3) (\<lambda>s4. t = t \<and> kinv {} s4 \<and> cur_link s4 \<and>
              runnable (status s4 i) \<and> rest s4 = rest s \<and> woken k t s s4)"
      proof (rule wp_mono [OF ready_add_ok(1) [OF k3 r3 refl]], elim conjE)
        fix s4
        assume k4: "kinv {} s4" and rel4: "relinked t (Some (ReadyList (prio_of s3 t))) (ReadyList (prio_of s3 t))
            (qlists s3 (ReadyList (prio_of s3 t)) @ [t]) s3 s4"
        note S = relinkedD [OF rel4]
        have "cur_link s4"
          by (rule cur_link_threads [OF link3 S(1)]) (simp add: S)
        moreover have "k \<noteq> ReadyList j" for j using nr by auto
        then have "woken k t s s4"
          using st2 settled_relinked [OF rel] nr
          by (auto simp: woken_def S R T settled_def)
        ultimately show "t = t \<and> kinv {} s4 \<and> cur_link s4 \<and> runnable (status s4 i) \<and>
            rest s4 = rest s \<and> woken k t s s4"
          using k4 idle3 by (simp add: S rest3)
      qed
    qed
  qed
qed

lemma wait_frame_woken:
  assumes "woken k t s s'" and "rest s' = rest s"
  shows "wait_frame k (remove1 t (qlists s k)) s s'"
  using assms restD [OF assms(2)] by (auto simp: wait_frame_def woken_def)

lemma wakeup_then_schedule:
  assumes k: "kinv {} s" and link: "cur_link s" and idle: "runnable (status s i)"
    and q: "qlists s k = t # L" and nr: "\<not> is_ready k"
  shows "wp (do { (_, s1) \<leftarrow> nd_thread_wakeup k s; nd_scheduler s1 }) (\<lambda>s'. kernel_ok i s' \<and> scheduled s' \<and>
           wait_frame k L s s' \<and> runnable (status s' t) \<and> error (threads s' t) = ND_EOK \<and>
           ThreadTimer t \<notin> set (rbtree s') \<and> (\<exists>s1. woken k t s s1 \<and> sched_out s1 s'))"
  unfolding wp_bind
proof (rule wp_mono [OF nd_thread_wakeup_ok [OF assms]], clarify)
  fix s1
  assume s1: "kinv {} s1" "cur_link s1" "runnable (status s1 i)" "rest s1 = rest s" "woken k t s s1"
  have wf: "wait_frame k L s s1" using wait_frame_woken [OF s1(5,4)] by (simp add: q)
  have t1: "runnable (status s1 t)" "error (threads s1 t) = ND_EOK" "ThreadTimer t \<notin> set (rbtree s1)"
    using s1(5) by (simp_all add: woken_def)
  show "wp (nd_scheduler s1) (\<lambda>s'. kernel_ok i s' \<and> scheduled s' \<and>
           wait_frame k L s s' \<and> runnable (status s' t) \<and> error (threads s' t) = ND_EOK \<and>
           ThreadTimer t \<notin> set (rbtree s') \<and> (\<exists>s1. woken k t s s1 \<and> sched_out s1 s'))"
  proof (rule wp_mono [OF nd_scheduler_ok [OF s1(1-3)]], elim conjE, intro conjI)
    fix s'
    assume s': "kernel_ok i s'" "scheduled s'" "sched_frame s1 s'" "sched_out s1 s'"
    show "kernel_ok i s'" "scheduled s'" using s' by simp_all
    show "wait_frame k L s s'" by (rule wait_frame_sched [OF wf s'(3)])
    show "runnable (status s' t)" by (rule runnable_frame [OF s'(3) t1(1)])
    show "error (threads s' t) = ND_EOK" using th_staticD(3) [OF sched_frameD(3) [OF s'(3)]] t1(2) by simp
    show "ThreadTimer t \<notin> set (rbtree s')" using sched_frameD(6) [OF s'(3)] t1(3) by simp
    show "\<exists>s1. woken k t s s1 \<and> sched_out s1 s'" using s1(5) s'(4) by blast
  qed
qed

text \<open>The timeout of a wait: the callback runs with the timer out of the tree.\<close>

lemma nd_thread_pend_timeout_ok:
  assumes k: "kinv {t} s" and st: "settled s t" and home: "qhome s t = Some k" and nr: "\<not> is_ready k"
    and link: "cur_link s" and idle: "runnable (status s i)"
  shows "wp (nd_thread_pend_timeout (Some t) s) (\<lambda>s'. kernel_ok i s' \<and> scheduled s' \<and> sync_frame s s' \<and>
           wait_frame k (remove1 t (qlists s k)) s s' \<and> runnable (status s' t) \<and>
           error (threads s' t) = ND_ETIMEOUT)"
proof -
  let ?g = "\<lambda>th. th\<lparr>stat := ND_THREAD_STAT_READY, error := ND_ETIMEOUT\<rparr>"
  let ?s1 = "upd_thread ?g t s" and ?L = "remove1 t (qlists s k)"
  have k1: "kinv {t} ?s1" by (rule kinv_upd_thread [OF k])
  have h1: "qhome ?s1 t = Some k" by (simp add: home)
  have def': "nd_thread_pend_timeout (Some t) s = do { s2 \<leftarrow> q_remove t ?s1;
      s3 \<leftarrow> nd_thread_ready_add_tail t s2; nd_scheduler s3 }"
    by (simp add: nd_thread_pend_timeout_def Let_def)
  show ?thesis unfolding def' wp_bind [of "q_remove t ?s1"]
  proof (rule wp_mono [OF q_remove_ok [OF k1 h1 nr]], elim conjE)
    fix s2
    assume k2: "kinv {t} s2" and rel: "relinked t None k (remove1 t (qlists ?s1 k)) ?s1 s2"
    note R = relinkedD [OF rel]
    have r2: "readying s2 t" using st settled_relinked [OF rel] by (simp add: readying_iff R)
    have rest2: "rest s2 = rest s" by (simp add: R(1))
    have link2: "cur_link s2" by (rule cur_link_ready [OF link rest2, of t]) (simp_all add: R)
    have idle2: "runnable (status s2 i)" using idle by (cases "i = t") (simp_all add: R)
    have wf2: "wait_frame k ?L s s2" using restD [OF rest2] by (simp add: wait_frame_def R)
    have sf2: "sync_frame s s2"
      using restD [OF rest2] by (simp add: sync_frame_def R) (meson set_remove1_subset)
    show "wp (do { s3 \<leftarrow> nd_thread_ready_add_tail t s2; nd_scheduler s3 }) (\<lambda>s'. kernel_ok i s' \<and>
        scheduled s' \<and> sync_frame s s' \<and> wait_frame k ?L s s' \<and> runnable (status s' t) \<and>
        error (threads s' t) = ND_ETIMEOUT)"
    proof (rule wp_mono [OF ready_then_schedule [OF k2 r2 link2 idle2]], elim conjE exE, intro conjI)
      fix s' s3
      assume s': "kernel_ok i s'" "scheduled s'" "readied t s2 s3" "sched_frame s3 s'"
      note S = relinkedD [OF s'(3) [unfolded readied_def, THEN conjunct2]]
      have wf3: "wait_frame k ?L s s3"
        using wait_frameD [OF wf2] restD [OF S(1)] by (simp add: wait_frame_def S)
      show "kernel_ok i s'" "scheduled s'" using s' by simp_all
      show "sync_frame s s'"
        by (rule sync_frame_trans [OF sf2 sync_frame_trans [OF sync_frame_readied [OF s'(3)] sync_frame_sched [OF s'(4)]]])
      show "wait_frame k ?L s s'" by (rule wait_frame_sched [OF wf3 s'(4)])
      have "runnable (status s3 t)" by (simp add: S R)
      then show "runnable (status s' t)" by (rule runnable_frame [OF s'(4)])
      show "error (threads s' t) = ND_ETIMEOUT"
        using th_staticD(3) [OF sched_frameD(3) [OF s'(4)], of t] by (simp add: S R)
    qed
  qed
qed

section \<open>Suspend and resume\<close>

text \<open>What \<open>settled\<close> says besides the timer being off.\<close>

definition static_ok :: "kstate \<Rightarrow> tid \<Rightarrow> bool" where
  "static_ok s t \<longleftrightarrow>
     arg (timers s (ThreadTimer t)) = Some t \<and>
     timer_type (timers s (ThreadTimer t)) = ND_TIMER_TYPE_ONE_SHOT \<and>
     (SliceTimer t \<in> set (rbtree s) \<longrightarrow> nd_current_thread s = Some t \<and> time_slice (threads s t) \<noteq> 0) \<and>
     arg (timers s (SliceTimer t)) = Some t \<and>
     timer_type (timers s (SliceTimer t)) = ND_TIMER_TYPE_ONE_SHOT \<and>
     callback (timers s (SliceTimer t)) = Some CB_slice \<and>
     t \<in> set (nd_thread_list s) \<and>
     prio_of s t < ND_THREAD_PRIORITY_MAX \<and> init_priority (threads s t) < ND_THREAD_PRIORITY_MAX"

lemma settled_iff: "settled s t \<longleftrightarrow> ThreadTimer t \<notin> set (rbtree s) \<and> static_ok s t"
  by (auto simp: settled_def static_ok_def)

lemma thread_ok_static: "thread_ok s t \<Longrightarrow> alive (status s t) \<Longrightarrow> static_ok s t"
  by (auto simp: thread_ok_def static_ok_def timer_ok_def slice_ok_def alive_def)

lemma static_ok_relinked: "relinked t h k L s s' \<Longrightarrow> static_ok s' u = static_ok s u"
  unfolding static_ok_def by (simp only: relinkedD)

lemma static_ok_upd_thread [simp]:
  assumes "\<And>th. priority (f th) = priority th" "\<And>th. init_priority (f th) = init_priority th"
    "\<And>th. time_slice (f th) = time_slice th"
  shows "static_ok (upd_thread f t s) u = static_ok s u"
  using assms by (simp add: static_ok_def)

lemma static_ok_stopped: "static_ok s t \<Longrightarrow> timer_stopped t s s' \<Longrightarrow> settled s' t"
  unfolding static_ok_def settled_def by (simp only: timer_stoppedD) simp

text \<open>Unlink a thread from the wait list it may be in, and stop its timer.\<close>

definition unwait :: "tid \<Rightarrow> kstate \<Rightarrow> kstate option" where
  "unwait t s = do {
     s1 \<leftarrow> (if q_is_linked t s then q_remove t s else Some s);
     timer_stop (ThreadTimer t) s1 }"

lemma unwait_ok:
  assumes k: "kinv {t} s" and st: "static_ok s t" and home: "\<And>p. qhome s t \<noteq> Some (ReadyList p)"
  shows "wp (unwait t s) (\<lambda>s'. kinv {t} s' \<and> settled s' t \<and> qhome s' t = None \<and> rest s' = rest s \<and>
           threads s' = threads s \<and> sync_frame s s' \<and> (\<forall>j. \<not> is_ready j \<longrightarrow> qlists s' j = remove1 t (qlists s j)))"
proof -
  have stop: "wp (timer_stop (ThreadTimer t) s1) (\<lambda>s'. kinv {t} s' \<and> settled s' t \<and> qhome s' t = None \<and>
       rest s' = rest s \<and> threads s' = threads s \<and> sync_frame s s' \<and>
       (\<forall>j. \<not> is_ready j \<longrightarrow> qlists s' j = remove1 t (qlists s j)))"
    if s1: "kinv {t} s1" "static_ok s1 t" "qhome s1 t = None" "rest s1 = rest s" "threads s1 = threads s"
      "sync_frame s s1"
      "\<And>j. \<not> is_ready j \<Longrightarrow> qlists s1 j = remove1 t (qlists s j)" for s1
  proof (rule wp_mono [OF timer_stopped_ok [OF kinvD(1) [OF s1(1)]]])
    fix s' assume ts: "timer_stopped t s1 s'"
    note T = timer_stoppedD [OF ts]
    show "kinv {t} s' \<and> settled s' t \<and> qhome s' t = None \<and> rest s' = rest s \<and>
       threads s' = threads s \<and> sync_frame s s' \<and> (\<forall>j. \<not> is_ready j \<longrightarrow> qlists s' j = remove1 t (qlists s j))"
      using kinv_timer_stopped [OF s1(1) ts] static_ok_stopped [OF s1(2) ts] s1
        sync_frame_trans [OF s1(6) sync_frame_stopped [OF ts]] by (simp add: T)
  qed
  show ?thesis
  proof (cases "qhome s t")
    case None
    then have "t \<notin> set (qlists s j)" for j
      using lists_okD(1) [OF base_ok_lists [OF kinvD(1) [OF k]]] by simp
    with None stop [of s] k st show ?thesis by (simp add: unwait_def q_is_linked_def)
  next
    case (Some j)
    with home have nr: "\<not> is_ready j" by (auto simp: is_ready_def)
    have "wp (q_remove t s) (\<lambda>s1. wp (timer_stop (ThreadTimer t) s1) (\<lambda>s'. kinv {t} s' \<and> settled s' t \<and>
       qhome s' t = None \<and> rest s' = rest s \<and> threads s' = threads s \<and> sync_frame s s' \<and>
       (\<forall>j. \<not> is_ready j \<longrightarrow> qlists s' j = remove1 t (qlists s j))))"
    proof (rule wp_mono [OF q_remove_ok [OF k Some nr]], elim conjE)
      fix s1
      assume k1: "kinv {t} s1" and rel: "relinked t None j (remove1 t (qlists s j)) s s1"
      note R = relinkedD [OF rel]
      have "t \<notin> set (qlists s l)" if "l \<noteq> j" for l
        using lists_okD(1) [OF base_ok_lists [OF kinvD(1) [OF k]]] Some that by simp
      then have "qlists s1 l = remove1 t (qlists s l)" for l by (simp add: R)
      then show "wp (timer_stop (ThreadTimer t) s1) (\<lambda>s'. kinv {t} s' \<and> settled s' t \<and>
       qhome s' t = None \<and> rest s' = rest s \<and> threads s' = threads s \<and> sync_frame s s' \<and>
       (\<forall>j. \<not> is_ready j \<longrightarrow> qlists s' j = remove1 t (qlists s j)))"
        by (intro stop) (use k1 st static_ok_relinked [OF rel] sync_frame_relinked [OF rel]
            set_remove1_subset [of t "qlists s j"] in \<open>simp_all add: R\<close>)
    qed
    with Some show ?thesis by (simp add: unwait_def q_is_linked_def)
  qed
qed

lemma cur_link_leave:
  assumes "cur_link s" and "rest s' = rest s"
    and "\<And>u. u \<noteq> t \<Longrightarrow> status s' u = status s u" and "status s' t \<noteq> ND_THREAD_STAT_RUNNING"
    and "nd_current_thread s \<noteq> None \<Longrightarrow> pendsv s \<Longrightarrow> nd_next_thread s \<noteq> Some t"
  shows "cur_link s'"
proof -
  note R = restD [OF assms(2)]
  show ?thesis unfolding cur_link_def R
  proof (intro conjI allI impI)
    show "nd_interrupt_nest_count s \<noteq> 0" if "nd_interrupt_try_switch s"
      using assms(1) that by (simp add: cur_link_def)
    fix c assume c: "nd_current_thread s = Some c"
    show "if pendsv s then port s = SwitchDeferred \<and> status s' c \<noteq> ND_THREAD_STAT_RUNNING \<and>
              (\<exists>n. nd_next_thread s = Some n \<and> status s' n = ND_THREAD_STAT_READY)
          else nd_next_thread s = None"
    proof (cases "pendsv s")
      case True
      then obtain n where n: "nd_next_thread s = Some n" "status s n = ND_THREAD_STAT_READY"
        and o: "port s = SwitchDeferred" "status s c \<noteq> ND_THREAD_STAT_RUNNING"
        using assms(1) c by (auto simp: cur_link_def)
      have "status s' n = ND_THREAD_STAT_READY" using n assms(3,5) True c by (cases "n = t") simp_all
      moreover have "status s' c \<noteq> ND_THREAD_STAT_RUNNING" using o(2) assms(3,4) by (cases "c = t") simp_all
      ultimately show ?thesis using True n(1) o(1) by simp
    next
      case False
      with assms(1) c show ?thesis by (simp add: cur_link_def)
    qed
  qed
qed

lemma nd_thread_resume_ok:
  assumes ok: "kernel_ok i s"
  shows "wp (nd_thread_resume t s) (\<lambda>(e, s'). kernel_ok i s' \<and> sync_frame s s' \<and>
           (scheduled s \<longrightarrow> scheduled s') \<and>
           (if status s t = ND_THREAD_STAT_SUSPEND then e = ND_EOK \<and> runnable (status s' t)
            else e = ND_ERROR \<and> s' = s))"
proof (cases "status s t = ND_THREAD_STAT_SUSPEND")
  case False
  with ok show ?thesis by (simp add: nd_thread_resume_def)
next
  case True
  let ?s = "upd_thread (stat_update (\<lambda>_. ND_THREAD_STAT_READY)) t s"
  note K = kernel_okD [OF ok]
  have home: "qhome s t = None" "ThreadTimer t \<notin> set (rbtree s)" using idle_home [OF K(5)] True by auto
  have "settled s t" by (rule thread_ok_settled [OF K(5) _ home(2)]) (simp add: True alive_def)
  then have r: "readying ?s t" by (simp add: readying_iff home)
  have k: "kinv {t} ?s" by (rule kinv_upd_thread [OF kinv_mono [OF K(1)]]) simp
  have link: "cur_link ?s" by (rule cur_link_ready [OF K(2), of _ t]) simp_all
  have idle: "runnable (status ?s i)" using K(3) by (cases "i = t") simp_all
  have sf: "sync_frame s ?s" by (rule sync_frame_upd_thread) simp_all
  have def': "nd_thread_resume t s = do { s1 \<leftarrow> nd_thread_ready_add_tail t ?s;
      s2 \<leftarrow> nd_scheduler s1; Some (ND_EOK, s2) }"
    using True by (simp add: nd_thread_resume_def)
  show ?thesis unfolding def' wp_bind wp_Some prod.case
  proof (rule wp_mono2 [OF ready_then_schedule [OF k r link idle, unfolded wp_bind]], elim conjE exE)
    fix s' s1
    assume s': "kernel_ok i s'" "scheduled s'" "readied t ?s s1" "sched_frame s1 s'"
    have "runnable (status s1 t)" using s'(3) relinkedD(2) by (auto simp: readied_def)
    then have "runnable (status s' t)" by (rule runnable_frame [OF s'(4)])
    moreover have "sync_frame s s'"
      by (rule sync_frame_trans [OF sf sync_frame_trans [OF sync_frame_readied [OF s'(3)] sync_frame_sched [OF s'(4)]]])
    ultimately show "kernel_ok i s' \<and> sync_frame s s' \<and> (scheduled s \<longrightarrow> scheduled s') \<and>
      (if status s t = ND_THREAD_STAT_SUSPEND then ND_EOK = ND_EOK \<and> runnable (status s' t)
       else ND_EOK = ND_ERROR \<and> s' = s)" using s' True by simp
  qed
qed

lemma not_armed:
  "thread_ok s t \<Longrightarrow> status s t \<noteq> ND_THREAD_STAT_BLOCK \<Longrightarrow> ThreadTimer t \<notin> set (rbtree s)"
  by (auto simp: thread_ok_def timer_ok_def)

lemma thread_ok_off:
  assumes "settled s t" and "qhome s t = None" and "status s t = ND_THREAD_STAT_SUSPEND"
  shows "thread_ok s t"
  using assms unfolding thread_ok_def settled_def
  by (auto simp: home_ok_def timer_ok_def slice_ok_def)

lemma alive_listed: "thread_ok s t \<Longrightarrow> alive (status s t) \<longleftrightarrow> t \<in> set (nd_thread_list s)"
  by (auto simp: thread_ok_def alive_def)

lemma scheduled_leave:
  assumes sch: "scheduled s" and r: "rest s' = rest s"
    and same: "\<And>u. u \<noteq> t \<Longrightarrow> threads s' u = threads s u"
    and t: "status s' t \<noteq> ND_THREAD_STAT_READY" "status s t \<noteq> ND_THREAD_STAT_RUNNING"
    and n: "pendsv s \<Longrightarrow> nd_next_thread s \<noteq> Some t"
  shows "scheduled s'"
  unfolding scheduled_def restD [OF r]
proof (intro allI impI)
  fix c assume c: "nd_current_thread s = Some c" "\<not> nd_interrupt_try_switch s"
  have ready: "status s' u = ND_THREAD_STAT_READY \<Longrightarrow> u \<noteq> t \<and> threads s' u = threads s u" for u
    using t(1) same by metis
  show "if pendsv s then \<exists>n. nd_next_thread s = Some n \<and> highest s' n
        else status s' c = ND_THREAD_STAT_RUNNING \<and>
             (\<forall>u. status s' u = ND_THREAD_STAT_READY \<longrightarrow> prio_of s' c \<le> prio_of s' u)"
  proof (cases "pendsv s")
    case True
    with sch c obtain n where n': "nd_next_thread s = Some n" "highest s n" by (auto simp: scheduled_def)
    then have "n \<noteq> t" using n True by auto
    then have n: "threads s' n = threads s n" by (rule same)
    have "prio_of s' n \<le> prio_of s' u" if u: "status s' u = ND_THREAD_STAT_READY" for u
      using conjunct2 [OF ready [OF u]] u n'(2) by (simp add: highest_def n)
    then have "highest s' n" using n'(2) n by (simp add: highest_def)
    with True n'(1) show ?thesis by simp
  next
    case False
    with sch c have r: "status s c = ND_THREAD_STAT_RUNNING"
      "\<And>u. status s u = ND_THREAD_STAT_READY \<Longrightarrow> prio_of s c \<le> prio_of s u" by (auto simp: scheduled_def)
    have ct: "threads s' c = threads s c" using t(2) r(1) by (intro same) auto
    have "prio_of s' c \<le> prio_of s' u" if u: "status s' u = ND_THREAD_STAT_READY" for u
      using conjunct2 [OF ready [OF u]] u r(2) [of u] by (simp add: ct)
    with r(1) ct False show ?thesis by simp
  qed
qed

lemma nd_thread_suspend_ready:
  assumes ok: "kernel_ok i s" and t: "t \<noteq> i" and free: "taken_list s t = []"
    and nx: "pendsv s \<Longrightarrow> nd_next_thread s \<noteq> Some t" and st: "status s t = ND_THREAD_STAT_READY"
  shows "wp (nd_thread_suspend t s) (\<lambda>(e, s'). kernel_ok i s' \<and> sync_frame s s' \<and>
           (scheduled s \<longrightarrow> scheduled s') \<and> e = ND_EOK \<and> status s' t = ND_THREAD_STAT_SUSPEND)"
proof -
  let ?f = "stat_update (\<lambda>_. ND_THREAD_STAT_SUSPEND)"
  note K = kernel_okD [OF ok]
  have h: "qhome s t = Some (ReadyList (prio_of s t))" "prio_of s t < ND_THREAD_PRIORITY_MAX"
    "ThreadTimer t \<notin> set (rbtree s)"
    using ready_home [OF K(5), of t] st K(5) [of t] not_armed [OF K(5), of t] by (simp_all add: thread_ok_def)
  have se: "settled s t" by (rule thread_ok_settled [OF K(5) _ h(3)]) (simp add: st alive_def)
  have def': "nd_thread_suspend t s = do { s1 \<leftarrow> nd_thread_ready_remove t s; Some (ND_EOK, upd_thread ?f t s1) }"
    using st free by (simp add: nd_thread_suspend_def)
  show ?thesis unfolding def' wp_bind wp_Some prod.case
  proof (rule wp_mono [OF nd_thread_ready_remove_ok [OF K(4) h(1) refl h(2)]], elim conjE, intro conjI)
    fix s1
    assume b1: "base_ok s1" and rel: "relinked t None (ReadyList (prio_of s t))
        (remove1 t (qlists s (ReadyList (prio_of s t)))) s s1"
    note R = relinkedD [OF rel]
    let ?s = "upd_thread ?f t s1"
    have rest': "rest ?s = rest s" by (simp add: R(1))
    have "kinv {t} ?s" by (rule kinv_upd_thread [OF kinv_relinked [OF kinv_mono [OF K(1)] rel b1]]) simp
    moreover have "thread_ok ?s t"
      by (rule thread_ok_off) (use se settled_relinked [OF rel] in \<open>simp_all add: R\<close>)
    ultimately have k: "kinv {} ?s" by (rule kinv_close)
    have "cur_link ?s"
      by (rule cur_link_leave [OF K(2) rest', of t]) (use nx in \<open>simp_all add: R\<close>)
    moreover have "status ?s c = ND_THREAD_STAT_RUNNING"
      if "nd_current_thread s = Some c" "\<not> pendsv s" "\<not> nd_interrupt_try_switch s" for c
      using K(6) [OF that] st by (cases "c = t") (simp_all add: R)
    ultimately show "kernel_ok i ?s"
      using k K(3) t restD [OF rest'] by (simp add: kernel_ok_def cur_ok_def R(2,8))
    show "sync_frame s ?s"
      by (rule sync_frame_trans [OF sync_frame_relinked [OF rel] sync_frame_upd_thread]) simp_all
    show "scheduled s \<longrightarrow> scheduled ?s"
      using scheduled_leave [OF _ rest', of t] nx st by (simp add: R)
    show "ND_EOK = ND_EOK" "status ?s t = ND_THREAD_STAT_SUSPEND" by simp_all
  qed
qed

lemma nd_thread_suspend_running:
  assumes ok: "kernel_ok i s" and t: "t \<noteq> i" and free: "taken_list s t = []"
    and st: "status s t = ND_THREAD_STAT_RUNNING"
  shows "wp (nd_thread_suspend t s) (\<lambda>(e, s'). kernel_ok i s' \<and> sync_frame s s' \<and>
           scheduled s' \<and> e = ND_EOK \<and> status s' t = ND_THREAD_STAT_SUSPEND)"
proof -
  let ?s = "upd_thread (stat_update (\<lambda>_. ND_THREAD_STAT_SUSPEND)) t s"
  note K = kernel_okD [OF ok]
  have h: "qhome s t = None" "ThreadTimer t \<notin> set (rbtree s)" using idle_home [OF K(5)] st by auto
  have c: "nd_current_thread s = Some t" using K(5) [of t] st by (simp add: thread_ok_def)
  have np: "pendsv s \<Longrightarrow> nd_next_thread s \<noteq> Some t" using K(2) c st by (auto simp: cur_link_def)
  have se: "settled s t" by (rule thread_ok_settled [OF K(5) _ h(2)]) (simp add: st alive_def)
  have "kinv {t} ?s" by (rule kinv_upd_thread [OF kinv_mono [OF K(1)]]) simp
  moreover have "thread_ok ?s t" by (rule thread_ok_off) (use se h in simp_all)
  ultimately have k: "kinv {} ?s" by (rule kinv_close)
  have link: "cur_link ?s" by (rule cur_link_leave [OF K(2), of _ t]) (use np in simp_all)
  have idle: "runnable (status ?s i)" using K(3) t by simp
  have sf: "sync_frame s ?s" by (rule sync_frame_upd_thread) simp_all
  have def': "nd_thread_suspend t s = do { s1 \<leftarrow> nd_scheduler ?s; Some (ND_EOK, s1) }"
    using st free by (simp add: nd_thread_suspend_def)
  show ?thesis unfolding def' wp_bind wp_Some prod.case
    by (rule wp_mono [OF nd_scheduler_ok [OF k link idle]])
      (use sync_frame_trans [OF sf sync_frame_sched] status_frame [of ?s _ t] in force)
qed

lemma nd_thread_suspend_block:
  assumes ok: "kernel_ok i s" and free: "taken_list s t = []" and st: "status s t = ND_THREAD_STAT_BLOCK"
  shows "wp (nd_thread_suspend t s) (\<lambda>(e, s'). kernel_ok i s' \<and> sync_frame s s' \<and>
           scheduled s' \<and> e = ND_EOK \<and> status s' t = ND_THREAD_STAT_SUSPEND)"
proof -
  let ?s1 = "upd_thread (stat_update (\<lambda>_. ND_THREAD_STAT_SUSPEND)) t s"
  note K = kernel_okD [OF ok]
  have ti: "t \<noteq> i" using K(3) st by (auto simp: runnable_def)
  have k1: "kinv {t} ?s1" by (rule kinv_upd_thread [OF kinv_mono [OF K(1)]]) simp
  have st1: "static_ok ?s1 t" using thread_ok_static [OF K(5)] st by (simp add: alive_def)
  have h1: "qhome ?s1 t \<noteq> Some (ReadyList p)" for p
    using K(5) [of t] st by (auto simp: thread_ok_def home_ok_def)
  have np: "nd_next_thread s \<noteq> Some t" if "nd_current_thread s \<noteq> None" "pendsv s"
    using K(2) that st by (auto simp: cur_link_def)
  have def': "nd_thread_suspend t s = do { s3 \<leftarrow> unwait t ?s1; s4 \<leftarrow> nd_scheduler s3; Some (ND_EOK, s4) }"
    using st free by (simp add: nd_thread_suspend_def unwait_def)
  show ?thesis unfolding def' wp_bind wp_Some prod.case
  proof (rule wp_mono [OF unwait_ok [OF k1 st1 h1]], elim conjE)
    fix s3
    assume s3: "kinv {t} s3" "settled s3 t" "qhome s3 t = None" "rest s3 = rest ?s1"
      "threads s3 = threads ?s1" "sync_frame ?s1 s3"
    have k3: "kinv {} s3" by (rule kinv_close [OF s3(1) thread_ok_off [OF s3(2,3)]]) (simp add: s3(5))
    have link: "cur_link s3" by (rule cur_link_leave [OF K(2), of _ t]) (use s3(4,5) np in simp_all)
    have idle: "runnable (status s3 i)" using K(3) ti by (simp add: s3(5))
    have sf: "sync_frame s s3"
      by (rule sync_frame_trans [OF sync_frame_upd_thread s3(6)]) simp_all
    have t3: "status s3 t = ND_THREAD_STAT_SUSPEND" by (simp add: s3(5))
    show "wp (nd_scheduler s3) (\<lambda>s'. kernel_ok i s' \<and> sync_frame s s' \<and> scheduled s' \<and> ND_EOK = ND_EOK \<and>
        status s' t = ND_THREAD_STAT_SUSPEND)"
      by (rule wp_mono [OF nd_scheduler_ok [OF k3 link idle]])
        (use sync_frame_trans [OF sf sync_frame_sched] status_frame [of s3 _ t] t3 in force)
  qed
qed


section \<open>Termination\<close>

text \<open>Every joiner is woken up: the loop ends, and the join list is empty.\<close>

lemma wake_joiners_ok:
  assumes "kinv {} s" and "cur_link s" and "runnable (status s i)"
  shows "wp (wake_joiners t s) (\<lambda>s'. kinv {} s' \<and> cur_link s' \<and> runnable (status s' i) \<and> rest s' = rest s \<and>
           wait_frame (JoinList t) [] s s' \<and> sync_frame s s' \<and>
           (\<forall>j. j \<notin> set (qlists s (JoinList t)) \<longrightarrow> threads s' j = threads s j) \<and>
           (\<forall>j \<in> set (qlists s (JoinList t)).
              status s' j = ND_THREAD_STAT_READY \<and> error (threads s' j) = ND_EOK))"
  using assms
proof (induction "qlists s (JoinList t)" arbitrary: s)
  case Nil
  then show ?case
    by (simp add: wake_joiners.simps [of t s] q_is_empty_def wait_frame_def)
next
  case (Cons u L)
  note q = Cons.hyps(2) [symmetric] and k = Cons.prems(1)
  have step: "wake_joiners t s = Option.bind (nd_thread_wakeup (JoinList t) s) (\<lambda>(_, s1). wake_joiners t s1)"
    by (subst wake_joiners.simps) (simp add: q_is_empty_def q)
  show ?case unfolding step wp_bind
  proof (rule wp_mono [OF nd_thread_wakeup_ok [OF Cons.prems q is_ready_simps(2)]], clarify)
    fix s1
    assume s1: "kinv {} s1" "cur_link s1" "runnable (status s1 i)" "rest s1 = rest s"
      "woken (JoinList t) u s s1"
    have wf: "wait_frame (JoinList t) L s s1" using wait_frame_woken [OF s1(5,4)] by (simp add: q)
    have L: "L = qlists s1 (JoinList t)" using wait_frameD(11) [OF wf, of "JoinList t"] by simp
    have th: "threads s1 = (threads s)(u := (threads s u)\<lparr>error := ND_EOK, stat := ND_THREAD_STAT_READY\<rparr>)"
      using s1(5) by (simp add: woken_def)
    have u: "u \<notin> set L" using lists_okD(2) [OF base_ok_lists [OF kinvD(1) [OF k]], of "JoinList t"] q by simp
    have sf1: "sync_frame s s1"
      using wait_frameD(1-11) [OF wf] q by (simp add: sync_frame_def th subset_insertI)
    show "wp (wake_joiners t s1) (\<lambda>s'. kinv {} s' \<and> cur_link s' \<and> runnable (status s' i) \<and> rest s' = rest s \<and>
           wait_frame (JoinList t) [] s s' \<and> sync_frame s s' \<and>
           (\<forall>j. j \<notin> set (qlists s (JoinList t)) \<longrightarrow> threads s' j = threads s j) \<and>
           (\<forall>j \<in> set (qlists s (JoinList t)).
              status s' j = ND_THREAD_STAT_READY \<and> error (threads s' j) = ND_EOK))"
    proof (rule wp_mono [OF Cons.hyps(1) [OF L s1(1-3)]], elim conjE, intro conjI)
      fix s'
      assume s': "kinv {} s'" "cur_link s'" "runnable (status s' i)" "rest s' = rest s1"
        "wait_frame (JoinList t) [] s1 s'" "sync_frame s1 s'"
        "\<forall>j. j \<notin> set (qlists s1 (JoinList t)) \<longrightarrow> threads s' j = threads s1 j"
        "\<forall>j \<in> set (qlists s1 (JoinList t)).
              status s' j = ND_THREAD_STAT_READY \<and> error (threads s' j) = ND_EOK"
      show "kinv {} s'" "cur_link s'" "runnable (status s' i)" "rest s' = rest s" using s' s1(4) by simp_all
      show "wait_frame (JoinList t) [] s s'"
        using wait_frameD [OF wf] wait_frameD [OF s'(5)] by (simp add: wait_frame_def)
      show "sync_frame s s'" by (rule sync_frame_trans [OF sf1 s'(6)])
      show "\<forall>j. j \<notin> set (qlists s (JoinList t)) \<longrightarrow> threads s' j = threads s j"
        using s'(7) by (simp add: q L [symmetric] th)
      show "\<forall>j \<in> set (qlists s (JoinList t)).
              status s' j = ND_THREAD_STAT_READY \<and> error (threads s' j) = ND_EOK"
        using s'(7,8) u by (simp add: q L [symmetric] th)
    qed
  qed
qed


text \<open>\<open>nd_thread_halt\<close> up to the waking of the joiners: the thread is out of every queue.\<close>

definition halt_unlink :: "tid \<Rightarrow> kstate \<Rightarrow> kstate option" where
  "halt_unlink t s = (case stat (threads s t) of
                 ND_THREAD_STAT_READY \<Rightarrow> nd_thread_ready_remove t s
               | ND_THREAD_STAT_BLOCK \<Rightarrow> if q_is_linked t s then q_remove t s else Some s
               | _ \<Rightarrow> Some s)"

lemma halt_unlink_ok:
  assumes k: "kinv {} s" and al: "alive (status s t)"
  shows "wp (halt_unlink t s) (\<lambda>s1. kinv {t} s1 \<and> static_ok s1 t \<and> qhome s1 t = None \<and>
           rest s1 = rest s \<and> threads s1 = threads s \<and> sync_frame s s1 \<and>
           (\<forall>j. \<not> is_ready j \<longrightarrow> set (qlists s1 j) = set (qlists s j) - {t}))"
proof -
  note tok = kinvD(2) [OF k, of t, simplified] and base = kinvD(1) [OF k]
  note D = lists_okD [OF base_ok_lists [OF base]]
  have st: "static_ok s t" by (rule thread_ok_static [OF tok al])
  have k': "kinv {t} s" by (rule kinv_mono [OF k]) simp
  have unlinked: ?thesis if "halt_unlink t s = Some s" "qhome s t = None"
    using that k' st D(1) by auto
  have post: "kinv {t} s1 \<and> static_ok s1 t \<and> qhome s1 t = None \<and>
           rest s1 = rest s \<and> threads s1 = threads s \<and> sync_frame s s1 \<and>
           (\<forall>j. \<not> is_ready j \<longrightarrow> set (qlists s1 j) = set (qlists s j) - {t})"
    if k1: "kinv {t} s1" and home: "qhome s t = Some h" and rel: "relinked t None h (remove1 t (qlists s h)) s s1"
    for s1 h
  proof -
    note R = relinkedD [OF rel]
    have "set (qlists s1 j) = set (qlists s j) - {t}" for j
      using D(1) [of t j] D(2) [of h] home by (auto simp: R)
    with k1 st static_ok_relinked [OF rel] sync_frame_relinked [OF rel] set_remove1_subset [of t "qlists s h"]
    show ?thesis by (simp add: R)
  qed
  show ?thesis
  proof (cases "status s t = ND_THREAD_STAT_READY")
    case True
    then have home: "qhome s t = Some (ReadyList (prio_of s t))" "prio_of s t < ND_THREAD_PRIORITY_MAX"
      using ready_home [OF tok] tok by (simp_all add: thread_ok_def)
    have "wp (nd_thread_ready_remove t s) (\<lambda>s1. kinv {t} s1 \<and> static_ok s1 t \<and> qhome s1 t = None \<and>
           rest s1 = rest s \<and> threads s1 = threads s \<and> sync_frame s s1 \<and>
           (\<forall>j. \<not> is_ready j \<longrightarrow> set (qlists s1 j) = set (qlists s j) - {t}))"
      by (rule wp_mono [OF nd_thread_ready_remove_ok [OF base home(1) refl home(2)]])
        (use post [OF _ home(1)] kinv_relinked [OF k'] in blast)
    with True show ?thesis by (simp add: halt_unlink_def)
  next
    case nready: False
    show ?thesis
    proof (cases "status s t = ND_THREAD_STAT_BLOCK \<and> qhome s t \<noteq> None")
      case True
      then obtain h where home: "qhome s t = Some h" by auto
      then have nr: "\<not> is_ready h" using tok True by (auto simp: thread_ok_def home_ok_def is_ready_def)
      have "wp (q_remove t s) (\<lambda>s1. kinv {t} s1 \<and> static_ok s1 t \<and> qhome s1 t = None \<and>
           rest s1 = rest s \<and> threads s1 = threads s \<and> sync_frame s s1 \<and>
           (\<forall>j. \<not> is_ready j \<longrightarrow> set (qlists s1 j) = set (qlists s j) - {t}))"
        by (rule wp_mono [OF q_remove_ok [OF k' home nr]]) (use post [OF _ home] in blast)
      with True home show ?thesis by (simp add: halt_unlink_def q_is_linked_def)
    next
      case False
      then have "qhome s t = None" using idle_home(1) [OF tok nready] by blast
      moreover from this have "halt_unlink t s = Some s"
        using nready by (simp add: halt_unlink_def q_is_linked_def split: nd_thread_stat.splits)
      ultimately show ?thesis by (rule unlinked [rotated])
    qed
  qed
qed

lemma thread_ok_dead:
  assumes "settled s t" and "qhome s t = None" and "status s t = ND_THREAD_STAT_DEAD"
    and "SliceTimer t \<notin> set (rbtree s)" and "distinct (nd_thread_list s)"
  shows "thread_ok (s\<lparr>nd_thread_list := remove1 t (nd_thread_list s)\<rparr>) t"
  using assms unfolding thread_ok_def settled_def
  by (simp add: home_ok_def timer_ok_def slice_ok_def)

lemma kinv_unlist:
  assumes "kinv {t} s"
  shows "kinv {t} (s\<lparr>nd_thread_list := remove1 t (nd_thread_list s)\<rparr>)" (is "kinv {t} ?s'")
proof -
  have "base_ok ?s'" using kinvD(1) [OF assms]
    by (simp add: base_ok_def lists_ok_def timers_ok_def bits_ok_def user_ok_def distinct_remove1)
  moreover have "only {t} s ?s'" by (simp add: only_def same_view_def)
  ultimately show ?thesis using kinv_only [OF assms] by blast
qed

definition halted :: "tid \<Rightarrow> kstate \<Rightarrow> kstate option" where
  "halted t s = do {
     s1 \<leftarrow> halt_unlink t s;
     s3 \<leftarrow> timer_stop (ThreadTimer t) (upd_thread (stat_update (\<lambda>_. ND_THREAD_STAT_DEAD)) t s1);
     s4 \<leftarrow> timer_stop (SliceTimer t) s3;
     assert_ok (t \<in> set (nd_thread_list s4));
     Some (s4\<lparr>nd_thread_list := remove1 t (nd_thread_list s4)\<rparr>) }"

lemma halted_ok:
  assumes k: "kinv {} s" and al: "alive (status s t)"
  shows "wp (halted t s) (\<lambda>s'. kinv {} s' \<and> nd_thread_list s' = remove1 t (nd_thread_list s) \<and>
           rest (s'\<lparr>nd_thread_list := nd_thread_list s\<rparr>) = rest s \<and>
           threads s' = (threads s)(t := (threads s t)\<lparr>stat := ND_THREAD_STAT_DEAD\<rparr>) \<and> sync_frame s s' \<and>
           (\<forall>j. \<not> is_ready j \<longrightarrow> set (qlists s' j) = set (qlists s j) - {t}))"
  unfolding halted_def wp_bind
proof (rule wp_mono [OF halt_unlink_ok [OF assms]], elim conjE)
  fix s1
  assume s1: "kinv {t} s1" "static_ok s1 t" "qhome s1 t = None" "rest s1 = rest s"
    "threads s1 = threads s" "sync_frame s s1"
    "\<forall>j. \<not> is_ready j \<longrightarrow> set (qlists s1 j) = set (qlists s j) - {t}"
  let ?s2 = "upd_thread (stat_update (\<lambda>_. ND_THREAD_STAT_DEAD)) t s1"
  have k2: "kinv {t} ?s2" by (rule kinv_upd_thread [OF s1(1)])
  show "wp (timer_stop (ThreadTimer t) ?s2) (\<lambda>s3. wp (timer_stop (SliceTimer t) s3) (\<lambda>s4.
      wp (assert_ok (t \<in> set (nd_thread_list s4))) (\<lambda>_. wp (Some (s4\<lparr>nd_thread_list := remove1 t (nd_thread_list s4)\<rparr>))
      (\<lambda>s'. kinv {} s' \<and> nd_thread_list s' = remove1 t (nd_thread_list s) \<and>
           rest (s'\<lparr>nd_thread_list := nd_thread_list s\<rparr>) = rest s \<and>
           threads s' = (threads s)(t := (threads s t)\<lparr>stat := ND_THREAD_STAT_DEAD\<rparr>) \<and> sync_frame s s' \<and>
           (\<forall>j. \<not> is_ready j \<longrightarrow> set (qlists s' j) = set (qlists s j) - {t})))))"
  proof (rule wp_mono [OF timer_stopped_ok [OF kinvD(1) [OF k2]]])
    fix s3 assume ts: "timer_stopped t ?s2 s3"
    note T = timer_stoppedD [OF ts]
    have k3: "kinv {t} s3" by (rule kinv_timer_stopped [OF k2 ts])
    have se3: "settled s3 t" by (rule static_ok_stopped [OF _ ts]) (simp add: s1(2))
    show "wp (timer_stop (SliceTimer t) s3) (\<lambda>s4. wp (assert_ok (t \<in> set (nd_thread_list s4)))
      (\<lambda>_. wp (Some (s4\<lparr>nd_thread_list := remove1 t (nd_thread_list s4)\<rparr>))
      (\<lambda>s'. kinv {} s' \<and> nd_thread_list s' = remove1 t (nd_thread_list s) \<and>
           rest (s'\<lparr>nd_thread_list := nd_thread_list s\<rparr>) = rest s \<and>
           threads s' = (threads s)(t := (threads s t)\<lparr>stat := ND_THREAD_STAT_DEAD\<rparr>) \<and> sync_frame s s' \<and>
           (\<forall>j. \<not> is_ready j \<longrightarrow> set (qlists s' j) = set (qlists s j) - {t}))))"
    proof (rule wp_mono [OF slice_stop_ok [OF kinvD(1) [OF k3]]], elim conjE)
      fix s4 assume b4: "base_ok s4" and ss: "slice_stopped t s3 s4"
      note S = slice_stoppedD [OF ss]
      let ?s5 = "s4\<lparr>nd_thread_list := remove1 t (nd_thread_list s4)\<rparr>"
      have k4: "kinv {t} s4" by (rule kinv_slice_stopped [OF k3 ss b4])
      have se4: "settled s4 t"
        using se3 unfolding settled_def by (simp add: S)
      have l4: "nd_thread_list s4 = nd_thread_list s"
        using restD(9) [OF s1(4)] by (simp add: S T)
      have "thread_ok ?s5 t"
        by (rule thread_ok_dead [OF se4]) (use b4 in \<open>simp_all add: S T s1 base_ok_def\<close>)
      then have k5: "kinv {} ?s5" by (rule kinv_close [OF kinv_unlist [OF k4]])
      have "sync_frame s s4"
        by (rule sync_frame_trans [OF sync_frame_trans [OF sync_frame_trans [OF s1(6)
            sync_frame_upd_thread] sync_frame_stopped [OF ts]] sync_frame_sched [OF S(2)]]) simp_all
      then have sf: "sync_frame s ?s5" by (simp add: sync_frame_def)
      have "rest (?s5\<lparr>nd_thread_list := nd_thread_list s\<rparr>) = rest (s4\<lparr>nd_thread_list := nd_thread_list s4\<rparr>)"
        by (simp add: l4)
      also have "\<dots> = rest s" by (simp add: S(1) T(2) s1(4))
      finally have r: "rest (?s5\<lparr>nd_thread_list := nd_thread_list s\<rparr>) = rest s" .
      have "t \<in> set (nd_thread_list s4)" using se4 by (simp add: settled_def)
      then show "wp (assert_ok (t \<in> set (nd_thread_list s4))) (\<lambda>_. wp (Some ?s5)
        (\<lambda>s'. kinv {} s' \<and> nd_thread_list s' = remove1 t (nd_thread_list s) \<and>
           rest (s'\<lparr>nd_thread_list := nd_thread_list s\<rparr>) = rest s \<and>
           threads s' = (threads s)(t := (threads s t)\<lparr>stat := ND_THREAD_STAT_DEAD\<rparr>) \<and> sync_frame s s' \<and>
           (\<forall>j. \<not> is_ready j \<longrightarrow> set (qlists s' j) = set (qlists s j) - {t})))"
        using k5 l4 r sf s1(7) by (simp add: S T s1(5))
    qed
  qed
qed


lemma cur_link_unlist [simp]: "cur_link (s\<lparr>nd_thread_list := l\<rparr>) = cur_link s"
  by (simp add: cur_link_def cong: if_cong)

lemma nd_thread_halt_ok:
  assumes ok: "kernel_ok i s" and ti: "t \<noteq> i" and al: "alive (status s t)"
    and nx: "pendsv s \<Longrightarrow> nd_next_thread s \<noteq> Some t"
  shows "wp (nd_thread_halt t s) (\<lambda>s'. kernel_ok i s' \<and> sync_frame s s' \<and>
           status s' t = ND_THREAD_STAT_DEAD \<and> t \<notin> set (nd_thread_list s') \<and>
           qlists s' (JoinList t) = [] \<and>
           (\<forall>j \<in> set (qlists s (JoinList t)). j \<noteq> t \<longrightarrow>
              runnable (status s' j) \<and> error (threads s' j) = ND_EOK) \<and>
           (nd_current_thread s = Some t \<longrightarrow> scheduled s'))"
proof -
  note K = kernel_okD [OF ok]
  have def': "nd_thread_halt t s = do { s5 \<leftarrow> halted t s; s6 \<leftarrow> wake_joiners t s5;
      if nd_current_thread s6 = Some t then nd_scheduler s6 else Some s6 }"
    using al by (simp add: nd_thread_halt_def halted_def halt_unlink_def alive_def Let_def)
  show ?thesis unfolding def' wp_bind
  proof (rule wp_mono [OF halted_ok [OF K(1) al]], elim conjE)
    fix s5
    assume s5: "kinv {} s5" "nd_thread_list s5 = remove1 t (nd_thread_list s)"
      "rest (s5\<lparr>nd_thread_list := nd_thread_list s\<rparr>) = rest s"
      "threads s5 = (threads s)(t := (threads s t)\<lparr>stat := ND_THREAD_STAT_DEAD\<rparr>)" "sync_frame s s5"
      "\<forall>j. \<not> is_ready j \<longrightarrow> set (qlists s5 j) = set (qlists s j) - {t}"
    note R = restD [OF s5(3), simplified]
    have "cur_link (s5\<lparr>nd_thread_list := nd_thread_list s\<rparr>)"
      by (rule cur_link_leave [OF K(2) s5(3), of t]) (use nx in \<open>simp_all add: s5(4)\<close>)
    then have link5: "cur_link s5" by simp
    have idle5: "runnable (status s5 i)" using K(3) ti by (simp add: s5(4))
    have J5: "set (qlists s5 (JoinList t)) = set (qlists s (JoinList t)) - {t}" using s5(6) by simp
    show "wp (wake_joiners t s5) (\<lambda>s6. wp (if nd_current_thread s6 = Some t then nd_scheduler s6 else Some s6)
        (\<lambda>s'. kernel_ok i s' \<and> sync_frame s s' \<and>
           status s' t = ND_THREAD_STAT_DEAD \<and> t \<notin> set (nd_thread_list s') \<and>
           qlists s' (JoinList t) = [] \<and>
           (\<forall>j \<in> set (qlists s (JoinList t)). j \<noteq> t \<longrightarrow>
              runnable (status s' j) \<and> error (threads s' j) = ND_EOK) \<and>
           (nd_current_thread s = Some t \<longrightarrow> scheduled s')))"
    proof (rule wp_mono [OF wake_joiners_ok [OF s5(1) link5 idle5]], elim conjE)
      fix s6
      assume s6: "kinv {} s6" "cur_link s6" "runnable (status s6 i)" "rest s6 = rest s5"
        "wait_frame (JoinList t) [] s5 s6" "sync_frame s5 s6"
        "\<forall>j. j \<notin> set (qlists s5 (JoinList t)) \<longrightarrow> threads s6 j = threads s5 j"
        "\<forall>j \<in> set (qlists s5 (JoinList t)).
           status s6 j = ND_THREAD_STAT_READY \<and> error (threads s6 j) = ND_EOK"
      note Q = restD [OF s6(4)]
      have cur6: "nd_current_thread s6 = nd_current_thread s" by (simp add: Q R)
      have t6: "status s6 t = ND_THREAD_STAT_DEAD" using s6(7) J5 by (simp add: s5(4))
      have l6: "t \<notin> set (nd_thread_list s6)"
        using kinvD(2) [OF s6(1), of t] t6 by (simp add: thread_ok_def)
      have sf6: "sync_frame s s6" by (rule sync_frame_trans [OF s5(5) s6(6)])
      have j6: "runnable (status s6 j) \<and> error (threads s6 j) = ND_EOK"
        if "j \<in> set (qlists s (JoinList t))" "j \<noteq> t" for j
        using s6(8) that J5 by auto
      have e6: "qlists s6 (JoinList t) = []" using wait_frameD(11) [OF s6(5)] by simp
      show "wp (if nd_current_thread s6 = Some t then nd_scheduler s6 else Some s6)
        (\<lambda>s'. kernel_ok i s' \<and> sync_frame s s' \<and>
           status s' t = ND_THREAD_STAT_DEAD \<and> t \<notin> set (nd_thread_list s') \<and>
           qlists s' (JoinList t) = [] \<and>
           (\<forall>j \<in> set (qlists s (JoinList t)). j \<noteq> t \<longrightarrow>
              runnable (status s' j) \<and> error (threads s' j) = ND_EOK) \<and>
           (nd_current_thread s = Some t \<longrightarrow> scheduled s'))"
      proof (cases "nd_current_thread s = Some t")
        case True
        have "wp (nd_scheduler s6) (\<lambda>s'. kernel_ok i s' \<and> sync_frame s s' \<and>
           status s' t = ND_THREAD_STAT_DEAD \<and> t \<notin> set (nd_thread_list s') \<and>
           qlists s' (JoinList t) = [] \<and>
           (\<forall>j \<in> set (qlists s (JoinList t)). j \<noteq> t \<longrightarrow>
              runnable (status s' j) \<and> error (threads s' j) = ND_EOK) \<and>
           (nd_current_thread s = Some t \<longrightarrow> scheduled s'))"
        proof (rule wp_mono [OF nd_scheduler_ok [OF s6(1-3)]], elim conjE, intro conjI ballI impI)
          fix s' assume s': "kernel_ok i s'" "scheduled s'" "sched_frame s6 s'"
          show "kernel_ok i s'" "scheduled s'" by fact+
          show "sync_frame s s'" by (rule sync_frame_trans [OF sf6 sync_frame_sched [OF s'(3)]])
          show "status s' t = ND_THREAD_STAT_DEAD" using status_frame [OF s'(3), of t] t6 by simp
          show "t \<notin> set (nd_thread_list s')" using unschedD(5) [OF sched_frameD(1) [OF s'(3)]] l6 by simp
          show "qlists s' (JoinList t) = []" using sched_frameD(2) [OF s'(3)] e6 by simp
          fix j assume j: "j \<in> set (qlists s (JoinList t))" "j \<noteq> t"
          show "runnable (status s' j)" by (rule runnable_frame [OF s'(3)]) (use j6 [OF j] in simp)
          show "error (threads s' j) = ND_EOK"
            using th_staticD(3) [OF sched_frameD(3) [OF s'(3)], of j] j6 [OF j] by simp
        qed
        with cur6 True show ?thesis by simp
      next
        case False
        have "status s6 c = ND_THREAD_STAT_RUNNING"
          if c: "nd_current_thread s6 = Some c" "\<not> pendsv s6" "\<not> nd_interrupt_try_switch s6" for c
        proof -
          have r: "status s c = ND_THREAD_STAT_RUNNING"
            using K(6) [of c] c by (simp add: cur6 Q R)
          have "c \<noteq> t" using False c(1) cur6 by auto
          moreover have "c \<notin> set (qlists s5 (JoinList t))"
            using waiting_home(2) [OF s5(1), of c "JoinList t"] r \<open>c \<noteq> t\<close> by (auto simp: s5(4))
          ultimately show ?thesis using s6(7) r by (simp add: s5(4))
        qed
        then have "kernel_ok i s6" using s6 by (simp add: kernel_ok_def cur_ok_def)
        with False cur6 sf6 t6 l6 e6 j6 show ?thesis by simp
      qed
    qed
  qed
qed

lemma nd_thread_abort_ok:
  assumes ok: "kernel_ok i s" and es: "nd_is_thread_essential i s"
    and st: "status s t \<noteq> ND_THREAD_STAT_INIT" and nx: "pendsv s \<Longrightarrow> nd_next_thread s \<noteq> Some t"
  shows "wp (nd_thread_abort (Some t) s) (\<lambda>(e, s').
           if status s t = ND_THREAD_STAT_DEAD then e = ND_EOK \<and> s' = s
           else if nd_is_thread_essential t s then e = ND_EPERM \<and> s' = s
           else e = ND_EOK \<and> kernel_ok i s' \<and> sync_frame s s' \<and>
             status s' t = ND_THREAD_STAT_DEAD \<and> t \<notin> set (nd_thread_list s') \<and>
             qlists s' (JoinList t) = [] \<and>
             (\<forall>j \<in> set (qlists s (JoinList t)). j \<noteq> t \<longrightarrow>
                runnable (status s' j) \<and> error (threads s' j) = ND_EOK) \<and>
             (nd_current_thread s = Some t \<longrightarrow> scheduled s'))"
proof (cases "status s t = ND_THREAD_STAT_DEAD \<or> nd_is_thread_essential t s")
  case True
  then show ?thesis by (auto simp: nd_thread_abort_def nd_is_thread_dead_def)
next
  case False
  then have "t \<noteq> i" "alive (status s t)" using es st by (auto simp: alive_def)
  from nd_thread_halt_ok [OF ok this nx] False show ?thesis
    by (simp add: nd_thread_abort_def nd_is_thread_dead_def)
qed

section \<open>Join\<close>

lemma nd_thread_join_ok:
  assumes C: "calling i c s" and "c \<noteq> i"
  shows "wp (nd_thread_join (Some t) tmo s) (\<lambda>(r, s').
           if t = c then r = Some ND_EDEADLK \<and> s' = s
           else if status s t = ND_THREAD_STAT_DEAD then r = Some ND_EOK \<and> s' = s
           else if tmo = ND_TIMEOUT_NOWAIT then r = Some ND_EBUSY \<and> s' = s
           else r = None \<and> kernel_ok i s' \<and> scheduled s' \<and> waits (JoinList t) tmo c s s' \<and>
             wait_frame (JoinList t) (insort_after (prio_of s) c (qlists s (JoinList t))) s s')"
proof (cases "t = c \<or> status s t = ND_THREAD_STAT_DEAD \<or> tmo = ND_TIMEOUT_NOWAIT")
  case True
  with callingD(2) [OF C] show ?thesis by (auto simp: nd_thread_join_def)
next
  case False
  with callingD(2) [OF C] pend_then_schedule [OF assms, of "JoinList t" tmo]
  show ?thesis by (simp add: nd_thread_join_def)
qed

section \<open>Creating threads\<close>

text \<open>A control block that can be (re)initialised: no thread yet, or one that is dead and gone.\<close>

definition unused :: "kstate \<Rightarrow> tid \<Rightarrow> bool" where
  "unused s t \<longleftrightarrow> \<not> alive (status s t) \<and> nd_current_thread s \<noteq> Some t \<and> taken_list s t = [] \<and>
     qlists s (JoinList t) = []"

lemma unusedD:
  assumes "thread_ok s t" and "unused s t"
  shows "qhome s t = None" "t \<notin> set (nd_thread_list s)" "ThreadTimer t \<notin> set (rbtree s)"
    "SliceTimer t \<notin> set (rbtree s)" "taken_list s t = []" "qlists s (JoinList t) = []"
proof -
  have st: "status s t = ND_THREAD_STAT_INIT \<or> status s t = ND_THREAD_STAT_DEAD"
    and c: "nd_current_thread s \<noteq> Some t"
    using assms(2) by (auto simp: unused_def alive_def)
  show "qhome s t = None" "ThreadTimer t \<notin> set (rbtree s)" using idle_home [OF assms(1)] st by auto
  show "t \<notin> set (nd_thread_list s)" using assms(1) st by (auto simp: thread_ok_def)
  show "SliceTimer t \<notin> set (rbtree s)" using assms(1) c by (simp add: thread_ok_def slice_ok_def)
  show "taken_list s t = []" "qlists s (JoinList t) = []" using assms(2) by (simp_all add: unused_def)
qed

lemma base_ok_list_add:
  assumes "base_ok s" and "t \<notin> set (nd_thread_list s)"
  shows "base_ok (s\<lparr>nd_thread_list := nd_thread_list s @ [t]\<rparr>)"
  using assms by (simp add: base_ok_def lists_ok_def timers_ok_def bits_ok_def user_ok_def)

definition created ::
  "tid \<Rightarrow> string \<Rightarrow> u32 \<Rightarrow> nat \<Rightarrow> u32 \<Rightarrow> u32 \<Rightarrow> u32 \<Rightarrow> u32 \<Rightarrow> u64 \<Rightarrow> kstate \<Rightarrow> nd_thread \<Rightarrow> bool" where
  "created t n ent pri par stk stksz opts tslice s th \<longleftrightarrow>
     stat th = ND_THREAD_STAT_READY \<and> entry th = ent \<and> parameter th = par \<and> priority th = pri \<and>
     init_priority th = pri \<and> stack_addr th = stk \<and> stack_size th = stksz \<and> options th = opts \<and>
     time_slice th = tslice \<and> slice_left th = tslice \<and> slice_start th = 0 \<and> \<not> yield th \<and>
     event_set th = 0 \<and> name th = take (ND_NAME_MAX_SIZE - 1) n \<and> sp th = hw_stack_init s ent par (stk + stksz)"

lemma nd_thread_create_ok:
  assumes k: "kinv {} s" and link: "cur_link s" and idle: "i = t \<or> runnable (status s i)"
    and un: "unused s t"
  shows "wp (nd_thread_create (Some t) (Some n) ent pri par stk stksz opts tslice s) (\<lambda>(e, s').
           if ent = 0 \<or> stk = 0 \<or> stksz = 0 \<or> pri \<ge> ND_THREAD_PRIORITY_MAX then e = ND_EINVAL \<and> s' = s
           else e = ND_EOK \<and> kernel_ok i s' \<and> scheduled s' \<and> sync_frame s s' \<and>
             nd_thread_list s' = nd_thread_list s @ [t] \<and>
             (\<exists>s1 s2. readied t s1 s2 \<and> sched_frame s2 s' \<and> sched_out s2 s' \<and> rest s1 = rest (s\<lparr>nd_thread_list := nd_thread_list s @ [t]\<rparr>) \<and>
                threads s1 = (threads s)(t := threads s1 t) \<and>
                created t n ent pri par stk stksz opts tslice s (threads s1 t)))"
proof (cases "ent = 0 \<or> stk = 0 \<or> stksz = 0 \<or> pri \<ge> ND_THREAD_PRIORITY_MAX")
  case True
  then show ?thesis by (simp add: nd_thread_create_def)
next
  case ok: False
  note tok = kinvD(2) [OF k, of t, simplified] and base = kinvD(1) [OF k]
  note U = unusedD [OF tok un]
  let ?nm = "take (ND_NAME_MAX_SIZE - 1) n"
  let ?g = "\<lambda>th. th\<lparr>name := ?nm, entry := ent, parameter := par, priority := pri,
                init_priority := pri, stack_addr := stk, stack_size := stksz,
                time_slice := tslice, slice_left := tslice, slice_start := 0,
                yield := False, stat := ND_THREAD_STAT_INIT,
                event_set := 0, event_opt := ND_EVENT_AND,
                sp := hw_stack_init s ent par (stk + stksz)\<rparr>"
  let ?f = "\<lambda>x. x\<lparr>timer_name := ?nm, arg := Some t, timer_type := ND_TIMER_TYPE_ONE_SHOT, node_empty := True\<rparr>"
  let ?h = "\<lambda>x. x\<lparr>timer_name := ?nm, arg := Some t, timer_type := ND_TIMER_TYPE_ONE_SHOT,
                callback := Some CB_slice, node_empty := True\<rparr>"
  let ?o = "\<lambda>th. th\<lparr>options := opts, stat := ND_THREAD_STAT_READY\<rparr>"
  define s1 where "s1 = upd_thread ?g t s"
  define s2 where "s2 = upd_timer ?f (ThreadTimer t) s1"
  define s3 where "s3 = upd_timer ?h (SliceTimer t) s2"
  define s4 where "s4 = upd_thread ?o t s3"
  define s5 where "s5 = s4\<lparr>nd_thread_list := nd_thread_list s4 @ [t]\<rparr>"
  have def': "nd_thread_create (Some t) (Some n) ent pri par stk stksz opts tslice s = do {
      s6 \<leftarrow> nd_thread_ready_add_tail t s5; s7 \<leftarrow> nd_scheduler s6; Some (ND_EOK, s7) }"
    using ok U by (simp add: nd_thread_create_def nd_thread_init_def Let_def s5_def s4_def s3_def s2_def s1_def)
  have ne: "node_empty (timers s (ThreadTimer t))" "node_empty (timers s (SliceTimer t))"
    using timers_okD(3) [OF base_ok_timers_ok [OF base]] U by simp_all
  have b2: "base_ok s2" unfolding s2_def s1_def
    by (rule base_ok_upd_timer) (use base U ne in simp_all)
  have b3: "base_ok s3" unfolding s3_def
    by (rule base_ok_upd_timer [OF b2]) (use U ne in \<open>simp_all add: s2_def s1_def\<close>)
  have l4: "nd_thread_list s4 = nd_thread_list s" by (simp add: s4_def s3_def s2_def s1_def)
  have b5: "base_ok s5" unfolding s5_def
    by (rule base_ok_list_add) (use b3 U l4 in \<open>simp_all add: s4_def\<close>)
  have o5: "only {t} s s5"
    by (simp add: only_def same_view_def s5_def s4_def s3_def s2_def s1_def)
  have k5: "kinv {t} s5" by (rule kinv_only [OF kinv_mono [OF k] o5 b5]) simp
  have r5: "readying s5 t"
    using ok U by (simp add: readying_def timer_ok_def slice_ok_def s5_def s4_def s3_def s2_def s1_def)
  have th5: "threads s5 = (threads s)(t := ?o (?g (threads s t)))"
    by (simp add: s5_def s4_def s3_def s2_def s1_def)
  have rest4: "rest s4 = rest s" by (simp add: s4_def s3_def s2_def s1_def)
  have rest_list: "rest (u\<lparr>nd_thread_list := l\<rparr>) = (rest u)\<lparr>nd_thread_list := l\<rparr>" for u l
    by (simp add: rest_def)
  have rest5: "rest s5 = rest (s\<lparr>nd_thread_list := nd_thread_list s @ [t]\<rparr>)"
    unfolding rest_list s5_def rest4 l4 ..
  have "cur_link s4"
    by (rule cur_link_ready [OF link rest4, of t]) (simp_all add: s4_def s3_def s2_def s1_def)
  then have l5: "cur_link s5" by (simp add: s5_def)
  have i5: "runnable (status s5 i)" using idle by (auto simp: th5)
  have q5: "qlists s5 = qlists s" by (simp add: s5_def s4_def s3_def s2_def s1_def)
  have tw: "t \<notin> set (qlists s (EventWait e))" for e
    using lists_okD(1) [OF base_ok_lists [OF base]] U(1) by simp
  have "sync_frame s s4" using restD [OF rest4] tw
    by (auto simp: sync_frame_def s4_def s3_def s2_def s1_def)
  then have sf5: "sync_frame s s5" by (simp add: sync_frame_def s5_def)
  have post: "kernel_ok i s' \<and> scheduled s' \<and> sync_frame s s' \<and> nd_thread_list s' = nd_thread_list s @ [t] \<and>
      (\<exists>s1 s2. readied t s1 s2 \<and> sched_frame s2 s' \<and> sched_out s2 s' \<and> rest s1 = rest (s\<lparr>nd_thread_list := nd_thread_list s @ [t]\<rparr>) \<and> threads s1 = (threads s)(t := threads s1 t) \<and>
         created t n ent pri par stk stksz opts tslice s (threads s1 t))"
    if P: "kernel_ok i s' \<and> scheduled s' \<and> (\<exists>s1. readied t s5 s1 \<and> sched_frame s1 s' \<and> sched_out s1 s')" for s'
  proof -
    obtain s6 where s6: "readied t s5 s6" "sched_frame s6 s'" "sched_out s6 s'" using P by blast
    note R = relinkedD [OF s6(1) [unfolded readied_def, THEN conjunct2]]
    have "sync_frame s s'"
      by (rule sync_frame_trans [OF sf5 sync_frame_trans [OF sync_frame_readied [OF s6(1)] sync_frame_sched [OF s6(2)]]])
    moreover have "nd_thread_list s' = nd_thread_list s @ [t]"
      using unschedD(5) [OF sched_frameD(1) [OF s6(2)]] R(9) l4 by (simp add: s5_def)
    moreover have "threads s5 = (threads s)(t := threads s5 t)" by (simp add: th5)
    moreover have "created t n ent pri par stk stksz opts tslice s (threads s5 t)"
      by (simp add: th5 created_def)
    ultimately show ?thesis using P s6 rest5 by blast
  qed
  have "wp (nd_thread_ready_add_tail t s5) (\<lambda>s6. wp (nd_scheduler s6) (\<lambda>s'. kernel_ok i s' \<and> scheduled s' \<and>
      sync_frame s s' \<and> nd_thread_list s' = nd_thread_list s @ [t] \<and>
      (\<exists>s1 s2. readied t s1 s2 \<and> sched_frame s2 s' \<and> sched_out s2 s' \<and> rest s1 = rest (s\<lparr>nd_thread_list := nd_thread_list s @ [t]\<rparr>) \<and> threads s1 = (threads s)(t := threads s1 t) \<and>
         created t n ent pri par stk stksz opts tslice s (threads s1 t))))"
    by (rule wp_mono2 [OF ready_then_schedule [OF k5 r5 l5 i5, unfolded wp_bind] post])
  with ok show ?thesis by (simp add: def')
qed

section \<open>Booting\<close>

text \<open>The kernel's memory before \<^verbatim>\<open>nd_scheduler_init\<close>: all zero.\<close>

definition boot_ok :: "kstate \<Rightarrow> bool" where
  "boot_ok s \<longleftrightarrow>
     nd_current_thread s = None \<and> nd_next_thread s = None \<and> nd_interrupt_nest_count s = 0 \<and>
     \<not> nd_interrupt_try_switch s \<and> \<not> pendsv s \<and> k_thread_ready_bit s = 0 \<and>
     (\<forall>k. qlists s k = []) \<and> (\<forall>t. qhome s t = None) \<and> nd_thread_list s = [] \<and>
     (\<forall>t. taken_list s t = []) \<and> rbtree s = [] \<and>
     (\<forall>r. node_empty (timers s r) \<and> callback (timers s r) = None) \<and>
     (\<forall>t. status s t = ND_THREAD_STAT_INIT \<and> prio_of s t = 0 \<and> init_priority (threads s t) = 0)"

lemma boot_kinv: "boot_ok s \<Longrightarrow> kinv {} s" "boot_ok s \<Longrightarrow> cur_link s"
  by (simp_all add: boot_ok_def kinv_def base_ok_def lists_ok_def timers_ok_def bits_ok_def user_ok_def
      thread_ok_def home_ok_def timer_ok_def slice_ok_def cur_link_def)

lemma init_ready_lists_boot: "boot_ok s \<Longrightarrow> init_ready_lists n s = Some s"
proof (induction n)
  case (Suc n)
  then have "(qlists s)(ReadyList n := []) = qlists s" by (auto simp: boot_ok_def)
  with Suc show ?case by (simp add: q_init_def boot_ok_def)
qed simp

lemma nd_scheduler_init_ok:
  assumes b: "boot_ok s" and "ient \<noteq> 0" "istk \<noteq> 0" "isz \<noteq> 0"
  shows "wp (nd_scheduler_init i ient istk isz s) (\<lambda>s'. kernel_ok i s' \<and> nd_thread_list s' = [i] \<and>
           nd_current_thread s' = None \<and> sync_frame s s' \<and> nd_is_thread_essential i s' \<and>
           prio_of s' i = ND_THREAD_PRIORITY_MAX - 1 \<and> status s' i = ND_THREAD_STAT_READY \<and>
           \<not> pendsv s' \<and> \<not> nd_interrupt_try_switch s')"
proof -
  have un: "unused s i" using b by (simp add: boot_ok_def unused_def alive_def)
  have list: "nd_thread_list_init s = Some s" using b by (simp add: boot_ok_def nd_thread_list_init_def)
  have def': "nd_scheduler_init i ient istk isz s = map_option snd (nd_thread_create (Some i) (Some ''idle'') ient
       (ND_THREAD_PRIORITY_MAX - 1) 0 istk isz ND_THREAD_OPT_ESSENTIAL 0 s)"
    by (simp add: nd_scheduler_init_def list init_ready_lists_boot [OF b])
  show ?thesis unfolding def' wp_map_option
  proof (rule wp_mono [OF nd_thread_create_ok [OF boot_kinv(1) [OF b] boot_kinv(2) [OF b] _ un, of i]], simp)
    fix r
    assume "case r of (e, s') \<Rightarrow>
      if ient = 0 \<or> istk = 0 \<or> isz = 0 \<or> ND_THREAD_PRIORITY_MAX - 1 \<ge> ND_THREAD_PRIORITY_MAX
      then e = ND_EINVAL \<and> s' = s
      else e = ND_EOK \<and> kernel_ok i s' \<and> scheduled s' \<and> sync_frame s s' \<and>
             nd_thread_list s' = nd_thread_list s @ [i] \<and>
             (\<exists>s1 s2. readied i s1 s2 \<and> sched_frame s2 s' \<and> sched_out s2 s' \<and> rest s1 = rest (s\<lparr>nd_thread_list := nd_thread_list s @ [i]\<rparr>) \<and>
                threads s1 = (threads s)(i := threads s1 i) \<and>
                created i ''idle'' ient (ND_THREAD_PRIORITY_MAX - 1) 0 istk isz ND_THREAD_OPT_ESSENTIAL 0 s
                  (threads s1 i))"
    then obtain e s' s1 s2 where r: "r = (e, s')" and s': "kernel_ok i s'" "sync_frame s s'"
      "nd_thread_list s' = [i]" "readied i s1 s2" "sched_out s2 s'"
      "rest s1 = rest (s\<lparr>nd_thread_list := nd_thread_list s @ [i]\<rparr>)"
      and c: "created i ''idle'' ient (ND_THREAD_PRIORITY_MAX - 1) 0 istk isz ND_THREAD_OPT_ESSENTIAL 0 s (threads s1 i)"
      using assms(2-4) b by (auto simp: boot_ok_def)
    note R = relinkedD [OF s'(4) [unfolded readied_def, THEN conjunct2]]
    have s2: "nd_current_thread s2 = None" "nd_interrupt_nest_count s2 = 0" "\<not> pendsv s2"
      "\<not> nd_interrupt_try_switch s2"
      using restD(4,6,7,8) [OF R(1)] restD(4,6,7,8) [OF s'(6)] b by (simp_all add: boot_ok_def)
    then have "s' = s2" using s'(5) by (simp add: sched_out_def)
    with s' c R(2) s2
    show "(\<lambda>s'. kernel_ok i s' \<and> nd_thread_list s' = [i] \<and>
           nd_current_thread s' = None \<and> sync_frame s s' \<and> nd_is_thread_essential i s' \<and>
           prio_of s' i = ND_THREAD_PRIORITY_MAX - 1 \<and> status s' i = ND_THREAD_STAT_READY \<and>
           \<not> pendsv s' \<and> \<not> nd_interrupt_try_switch s') (snd r)"
      by (simp add: r created_def nd_is_thread_essential_def ND_THREAD_OPT_ESSENTIAL_def)
  qed
qed

section \<open>Starting the scheduler\<close>

lemma first_switch_ok:
  assumes ok: "kernel_ok i s" and cur: "nd_current_thread s = None" and p: "\<not> pendsv s"
    and tr: "\<not> nd_interrupt_try_switch s"
  shows "wp (do { n \<leftarrow> nd_get_highest_priority_thread s;
                  (case n of None \<Rightarrow> Some s | Some _ \<Rightarrow> nd_context_switch_cb n s) })
           (\<lambda>s'. kernel_ok i s' \<and> scheduled s' \<and> sched_frame s s' \<and>
              (\<exists>n. highest s n \<and> nd_current_thread s' = Some n \<and> status s' n = ND_THREAD_STAT_RUNNING))"
proof -
  note K = kernel_okD [OF ok]
  have "status s i = ND_THREAD_STAT_READY"
    using K(3) K(5) [of i] cur by (auto simp: runnable_def thread_ok_def)
  then obtain n where r: "nd_get_highest_priority_thread s = Some (Some n)" and n: "highest s n"
    using nd_get_highest_priority_thread_ok [OF K(1)] by (auto simp: wp_iff split: option.splits)
  have rn: "status s n = ND_THREAD_STAT_READY" using n by (simp add: highest_def)
  have off: "nd_current_thread s = Some c \<Longrightarrow> status s c \<noteq> ND_THREAD_STAT_RUNNING" for c using cur by simp
  have "wp (nd_context_switch_cb (Some n) s) (\<lambda>s'. kernel_ok i s' \<and> scheduled s' \<and> sched_frame s s' \<and>
          (\<exists>n. highest s n \<and> nd_current_thread s' = Some n \<and> status s' n = ND_THREAD_STAT_RUNNING))"
  proof (rule wp_mono [OF nd_context_switch_cb_ok [OF K(1) rn off]], assumption, elim conjE)
    fix s' assume s': "kinv {} s'" "sched_frame s s'" "switched n s s'"
    have pr: "prio_of s' u = prio_of s u" for u by (rule th_staticD(1) [OF sched_frameD(3) [OF s'(2)]])
    have st: "status s u = ND_THREAD_STAT_READY" if "status s' u = ND_THREAD_STAT_READY" for u
      using s'(3) that by (cases "u = n") (auto simp: switched_def)
    have "scheduled s'" "cur_link s'"
      using s'(3) p tr n st by (auto simp: scheduled_def switched_def highest_def pr cur_link_def)
    moreover have "kernel_ok i s'"
      using s' \<open>cur_link s'\<close> runnable_frame [OF s'(2) K(3)]
      by (auto simp: kernel_ok_def cur_ok_def switched_def)
    ultimately show "kernel_ok i s' \<and> scheduled s' \<and> sched_frame s s' \<and>
          (\<exists>n. highest s n \<and> nd_current_thread s' = Some n \<and> status s' n = ND_THREAD_STAT_RUNNING)"
      using s' n by (auto simp: switched_def)
  qed
  with r show ?thesis by simp
qed

lemma boot_started:
  assumes b: "boot_ok s" and "ient \<noteq> 0" "istk \<noteq> 0" "isz \<noteq> 0"
  shows "wp (do { s1 \<leftarrow> nd_scheduler_init i ient istk isz s;
                  s2 \<leftarrow> nd_scheduler_start s1;
                  if pendsv s2 then isr_pendsv s2 else Some s2 })
           (\<lambda>s'. kernel_ok i s' \<and> scheduled s' \<and> nd_thread_list s' = [i] \<and> nd_current_thread s' = Some i \<and>
              nd_is_thread_essential i s' \<and> prio_of s' i = ND_THREAD_PRIORITY_MAX - 1 \<and> sync_frame s s')"
proof -
  have run: "wp (do { n \<leftarrow> nd_get_highest_priority_thread s1;
                  (case n of None \<Rightarrow> Some s1 | Some _ \<Rightarrow> nd_context_switch_cb n s1) })
           (\<lambda>s'. kernel_ok i s' \<and> scheduled s' \<and> nd_thread_list s' = [i] \<and> nd_current_thread s' = Some i \<and>
              nd_is_thread_essential i s' \<and> prio_of s' i = ND_THREAD_PRIORITY_MAX - 1 \<and> \<not> pendsv s' \<and> sync_frame s1 s')"
    if s1: "kernel_ok i s1" "nd_thread_list s1 = [i]" "nd_current_thread s1 = None"
      "nd_is_thread_essential i s1" "prio_of s1 i = ND_THREAD_PRIORITY_MAX - 1" "\<not> pendsv s1"
      "\<not> nd_interrupt_try_switch s1" for s1
  proof (rule wp_mono [OF first_switch_ok [OF s1(1,3,6,7)]], elim conjE exE)
    fix s' n assume s': "kernel_ok i s'" "scheduled s'" "sched_frame s1 s'" "highest s1 n"
      "nd_current_thread s' = Some n" "status s' n = ND_THREAD_STAT_RUNNING"
    have "n \<in> set (nd_thread_list s1)"
      using kernel_okD(5) [OF s1(1), of n] s'(4) by (simp add: thread_ok_def highest_def)
    then have n: "n = i" using s1(2) by simp
    note S = th_staticD [OF sched_frameD(3) [OF s'(3)]] and U = unschedD [OF sched_frameD(1) [OF s'(3)]]
    have "\<not> pendsv s'" using kernel_okD(2) [OF s'(1)] s'(5,6) by (auto simp: cur_link_def)
    then show "kernel_ok i s' \<and> scheduled s' \<and> nd_thread_list s' = [i] \<and> nd_current_thread s' = Some i \<and>
              nd_is_thread_essential i s' \<and> prio_of s' i = ND_THREAD_PRIORITY_MAX - 1 \<and> \<not> pendsv s' \<and> sync_frame s1 s'"
      using s' n s1 S(1) [of i] S(4) [of i] U(5) sync_frame_sched [OF s'(3)] by (simp add: nd_is_thread_essential_def)
  qed
  show ?thesis unfolding wp_bind
  proof (rule wp_mono [OF nd_scheduler_init_ok [OF assms]], elim conjE)
    fix s1 assume fr: "sync_frame s s1" and s1: "kernel_ok i s1" "nd_thread_list s1 = [i]" "nd_current_thread s1 = None"
      "nd_is_thread_essential i s1" "prio_of s1 i = ND_THREAD_PRIORITY_MAX - 1" "\<not> pendsv s1"
      "\<not> nd_interrupt_try_switch s1"
    have f: "s1\<lparr>pendsv := False\<rparr> = s1" using s1(6) by simp
    show "wp (nd_scheduler_start s1) (\<lambda>s2. wp (if pendsv s2 then isr_pendsv s2 else Some s2)
           (\<lambda>s'. kernel_ok i s' \<and> scheduled s' \<and> nd_thread_list s' = [i] \<and> nd_current_thread s' = Some i \<and>
              nd_is_thread_essential i s' \<and> prio_of s' i = ND_THREAD_PRIORITY_MAX - 1 \<and> sync_frame s s'))"
      using run [OF s1] s1(3) f sync_frame_trans [OF fr]
      by (cases "port s1") (auto simp: nd_scheduler_start_def nd_hw_do_switch_first_def isr_pendsv_def Let_def
          wp_iff)
  qed
qed

section \<open>Properties\<close>

text \<open>Booting. From zeroed kernel data \<open>nd_scheduler_init\<close> and \<open>nd_scheduler_start\<close> (and the first
  PendSV on the ports that defer the switch) establish the invariant of the kernel, with the
  essential idle thread running at the lowest priority.\<close>

theorem boot_correct:
  assumes b: "boot_ok s" and "ient \<noteq> 0" "istk \<noteq> 0" "isz \<noteq> 0"
  shows "wp (do { s1 \<leftarrow> nd_scheduler_init i ient istk isz s;
                  s2 \<leftarrow> nd_scheduler_start s1;
                  if pendsv s2 then isr_pendsv s2 else Some s2 })
           (\<lambda>s'. kernel_ok i s' \<and> scheduled s' \<and> nd_thread_list s' = [i] \<and> nd_current_thread s' = Some i \<and>
              nd_is_thread_essential i s' \<and> prio_of s' i = ND_THREAD_PRIORITY_MAX - 1)"
  by (rule wp_mono [OF boot_started [OF assms]]) simp

text \<open>The state before \<open>nd_scheduler_init\<close>: zeroed data.\<close>

definition power_on :: "switch_kind \<Rightarrow> kstate" where
  "power_on pt = (sample pt)\<lparr>nd_current_thread := None, k_thread_ready_bit := 0, qlists := (\<lambda>k. []),
     qhome := (\<lambda>t. None), threads := (\<lambda>t. sample_thread 0 ND_THREAD_STAT_INIT), nd_thread_list := [],
     taken_list := (\<lambda>t. []), timers := (\<lambda>r. sample_timer None None), rbtree := [], now := 0,
     mutexes := (\<lambda>m. \<lparr>mutex_priority = 0, owner = None, owner_home = None\<rparr>),
     queues := (\<lambda>j. \<lparr>buf = [], msg_size = 0, max_msgs = 0, used_msg = 0, read_ptr = 0, write_ptr = 0\<rparr>)\<rparr>"

lemma power_on_ok: "boot_ok (power_on pt)"
  by (simp add: boot_ok_def power_on_def sample_def sample_thread_def sample_timer_def)

theorem boot_witness:
  "wp (do { s1 \<leftarrow> nd_scheduler_init 0 0x8000 0x20000000 256 (power_on SwitchDeferred);
            s2 \<leftarrow> nd_scheduler_start s1;
            if pendsv s2 then isr_pendsv s2 else Some s2 })
     (\<lambda>s'. kernel_ok 0 s' \<and> nd_current_thread s' = Some 0)"
  by (rule wp_mono [OF boot_correct [OF power_on_ok]]) simp_all

text \<open>C13: creating a thread in a control block that is not in use. A null thread or name, a null entry or stack, a stack
  of no size or a priority out of range is refused and changes nothing. Otherwise the new thread has the entry,
  parameter, priority, stack, options and time slice given, its name cut to the size of the field, the stack pointer the
  port computes for them, waits for no event, is runnable and last in the list of threads, and the scheduler has run.\<close>

theorem thread_create_correct:
  assumes k: "kernel_ok i s" and un: "unused s t" and ti: "t \<noteq> i"
  shows "nd_thread_create None nm ent pri par stk stksz opts tslice s = Some (ND_EINVAL, s) \<and>
         nd_thread_create (Some t) None ent pri par stk stksz opts tslice s = Some (ND_EINVAL, s) \<and>
         wp (nd_thread_create (Some t) (Some n) ent pri par stk stksz opts tslice s) (\<lambda>(e, s').
           if ent = 0 \<or> stk = 0 \<or> stksz = 0 \<or> pri \<ge> ND_THREAD_PRIORITY_MAX then e = ND_EINVAL \<and> s' = s
           else e = ND_EOK \<and> kernel_ok i s' \<and> scheduled s' \<and> nd_thread_list s' = nd_thread_list s @ [t] \<and>
             runnable (status s' t) \<and> prio_of s' t = pri \<and> init_priority (threads s' t) = pri \<and>
             entry (threads s' t) = ent \<and> parameter (threads s' t) = par \<and>
             stack_addr (threads s' t) = stk \<and> stack_size (threads s' t) = stksz \<and>
             sp (threads s' t) = hw_stack_init s ent par (stk + stksz) \<and> options (threads s' t) = opts \<and>
             time_slice (threads s' t) = tslice \<and> event_set (threads s' t) = 0 \<and>
             name (threads s' t) = take (ND_NAME_MAX_SIZE - 1) n \<and> sync_frame s s')"
proof (intro conjI)
  show "nd_thread_create None nm ent pri par stk stksz opts tslice s = Some (ND_EINVAL, s)"
    "nd_thread_create (Some t) None ent pri par stk stksz opts tslice s = Some (ND_EINVAL, s)"
    by (cases nm; simp add: nd_thread_create_def)+
  show "wp (nd_thread_create (Some t) (Some n) ent pri par stk stksz opts tslice s) (\<lambda>(e, s').
           if ent = 0 \<or> stk = 0 \<or> stksz = 0 \<or> pri \<ge> ND_THREAD_PRIORITY_MAX then e = ND_EINVAL \<and> s' = s
           else e = ND_EOK \<and> kernel_ok i s' \<and> scheduled s' \<and> nd_thread_list s' = nd_thread_list s @ [t] \<and>
             runnable (status s' t) \<and> prio_of s' t = pri \<and> init_priority (threads s' t) = pri \<and>
             entry (threads s' t) = ent \<and> parameter (threads s' t) = par \<and>
             stack_addr (threads s' t) = stk \<and> stack_size (threads s' t) = stksz \<and>
             sp (threads s' t) = hw_stack_init s ent par (stk + stksz) \<and> options (threads s' t) = opts \<and>
             time_slice (threads s' t) = tslice \<and> event_set (threads s' t) = 0 \<and>
             name (threads s' t) = take (ND_NAME_MAX_SIZE - 1) n \<and> sync_frame s s')"
  proof (cases "ent = 0 \<or> stk = 0 \<or> stksz = 0 \<or> pri \<ge> ND_THREAD_PRIORITY_MAX")
    case True
    then show ?thesis by (simp add: nd_thread_create_def)
  next
    case False
    show ?thesis
    proof (rule wp_pair_mono [OF nd_thread_create_ok [OF kernel_okD(1) [OF k] kernel_okD(2) [OF k] disjI2 [OF kernel_okD(3) [OF k]] un]])
      fix e s'
      assume "if ent = 0 \<or> stk = 0 \<or> stksz = 0 \<or> pri \<ge> ND_THREAD_PRIORITY_MAX then e = ND_EINVAL \<and> s' = s
           else e = ND_EOK \<and> kernel_ok i s' \<and> scheduled s' \<and> sync_frame s s' \<and>
             nd_thread_list s' = nd_thread_list s @ [t] \<and>
             (\<exists>s1 s2. readied t s1 s2 \<and> sched_frame s2 s' \<and> sched_out s2 s' \<and> rest s1 = rest (s\<lparr>nd_thread_list := nd_thread_list s @ [t]\<rparr>) \<and>
                threads s1 = (threads s)(t := threads s1 t) \<and>
                created t n ent pri par stk stksz opts tslice s (threads s1 t))"
      with False obtain s1 s2 where s': "e = ND_EOK" "kernel_ok i s'" "scheduled s'" "sync_frame s s'"
          "nd_thread_list s' = nd_thread_list s @ [t]"
        and rd: "readied t s1 s2" and fr: "sched_frame s2 s'"
        and cr: "created t n ent pri par stk stksz opts tslice s (threads s1 t)" by auto
      have "threads s2 = threads s1" by (rule relinkedD(2) [OF rd [unfolded readied_def, THEN conjunct2]])
      with cr have st: "runnable (status s2 t)" and th: "created t n ent pri par stk stksz opts tslice s (threads s2 t)"
        by (simp_all add: created_def runnable_def)
      note S = th_staticD [OF sched_frameD(3) [OF fr, of t]]
      from False s' S th runnable_frame [OF fr st]
      show "if ent = 0 \<or> stk = 0 \<or> stksz = 0 \<or> pri \<ge> ND_THREAD_PRIORITY_MAX then e = ND_EINVAL \<and> s' = s
           else e = ND_EOK \<and> kernel_ok i s' \<and> scheduled s' \<and> nd_thread_list s' = nd_thread_list s @ [t] \<and>
             runnable (status s' t) \<and> prio_of s' t = pri \<and> init_priority (threads s' t) = pri \<and>
             entry (threads s' t) = ent \<and> parameter (threads s' t) = par \<and>
             stack_addr (threads s' t) = stk \<and> stack_size (threads s' t) = stksz \<and>
             sp (threads s' t) = hw_stack_init s ent par (stk + stksz) \<and> options (threads s' t) = opts \<and>
             time_slice (threads s' t) = tslice \<and> event_set (threads s' t) = 0 \<and>
             name (threads s' t) = take (ND_NAME_MAX_SIZE - 1) n \<and> sync_frame s s'"
        by (simp add: created_def)
    qed
  qed
qed

theorem thread_create_witness:
  "wp (nd_thread_create (Some 9) (Some ''worker'') 0x8100 3 77 0x20001000 512 0 5 (sample SwitchDeferred))
     (\<lambda>(e, s'). e = ND_EOK \<and> runnable (status s' 9) \<and> prio_of s' 9 = 3 \<and> name (threads s' 9) = ''worker'' \<and>
        entry (threads s' 9) = 0x8100 \<and> parameter (threads s' 9) = 77 \<and> time_slice (threads s' 9) = 5 \<and>
        sp (threads s' 9) = 0x200011C0)"
proof -
  have "unused (sample SwitchDeferred) 9"
    by (simp add: unused_def alive_def sample_defs sample_lists_def)
  note create = conjunct2 [OF conjunct2 [OF thread_create_correct [OF sample_ok this]]]
  show ?thesis by (rule wp_pair_mono [OF create]) (auto simp: ND_NAME_MAX_SIZE_def sample_def)
qed

text \<open>Suspending and resuming. A thread that holds no mutex can be suspended when it is ready,
  running or blocked; \<open>nd_thread_resume\<close> then makes it runnable again with its priority unchanged.
  Both keep the invariants of the kernel.\<close>

theorem suspend_resume:
  assumes ok: "kernel_ok i s" and t: "t \<noteq> i" and free: "taken_list s t = []"
    and nx: "pendsv s \<Longrightarrow> nd_next_thread s \<noteq> Some t"
    and st: "status s t \<in> {ND_THREAD_STAT_READY, ND_THREAD_STAT_RUNNING, ND_THREAD_STAT_BLOCK}"
  shows "wp (nd_thread_suspend t s) (\<lambda>(e, s1). e = ND_EOK \<and> kernel_ok i s1 \<and> status s1 t = ND_THREAD_STAT_SUSPEND \<and>
           (scheduled s \<longrightarrow> scheduled s1) \<and>
           wp (nd_thread_resume t s1) (\<lambda>(e', s2). e' = ND_EOK \<and> kernel_ok i s2 \<and> runnable (status s2 t) \<and>
             (scheduled s \<longrightarrow> scheduled s2)))"
proof -
  have susp: "wp (nd_thread_suspend t s) (\<lambda>(e, s1). e = ND_EOK \<and> kernel_ok i s1 \<and>
      status s1 t = ND_THREAD_STAT_SUSPEND \<and> (scheduled s \<longrightarrow> scheduled s1))"
    using st
  proof (elim insertE emptyE)
    assume "status s t = ND_THREAD_STAT_READY"
    from nd_thread_suspend_ready [OF ok t free nx this] show ?thesis by (rule wp_pair_mono) simp_all
  next
    assume "status s t = ND_THREAD_STAT_RUNNING"
    from nd_thread_suspend_running [OF ok t free this] show ?thesis by (rule wp_pair_mono) simp
  next
    assume "status s t = ND_THREAD_STAT_BLOCK"
    from nd_thread_suspend_block [OF ok free this] show ?thesis by (rule wp_pair_mono) simp
  qed
  show ?thesis
    by (rule wp_pair_mono [OF susp], elim conjE, intro conjI)
      (simp_all, rule wp_pair_mono [OF nd_thread_resume_ok], auto)
qed

theorem suspend_resume_witness:
  "wp (nd_thread_suspend 2 (sample SwitchDeferred)) (\<lambda>(e, s1). e = ND_EOK \<and>
     wp (nd_thread_resume 2 s1) (\<lambda>(e', s2). e' = ND_EOK \<and> runnable (status s2 2)))"
proof -
  have "wp (nd_thread_suspend 2 (sample SwitchDeferred)) (\<lambda>(e, s1). e = ND_EOK \<and> kernel_ok 0 s1 \<and>
     status s1 2 = ND_THREAD_STAT_SUSPEND \<and> (scheduled (sample SwitchDeferred) \<longrightarrow> scheduled s1) \<and>
     wp (nd_thread_resume 2 s1) (\<lambda>(e', s2). e' = ND_EOK \<and> kernel_ok 0 s2 \<and> runnable (status s2 2) \<and>
       (scheduled (sample SwitchDeferred) \<longrightarrow> scheduled s2)))"
    by (rule suspend_resume [OF sample_ok]) (simp_all add: sample_defs)
  then show ?thesis by (rule wp_pair_mono) (elim conjE, intro conjI, simp, erule wp_pair_mono, simp)
qed

text \<open>C14: aborting a thread. Essential threads are protected, a dead one stays as it is; any other one
  is dead afterwards, out of every list and of the thread list, and all threads that joined it
  have been woken with \<open>ND_EOK\<close> (the loop over the joiners ends).\<close>

theorem abort_correct:
  assumes ok: "kernel_ok i s" and es: "nd_is_thread_essential i s"
    and st: "status s t \<noteq> ND_THREAD_STAT_INIT" and nx: "pendsv s \<Longrightarrow> nd_next_thread s \<noteq> Some t"
  shows "wp (nd_thread_abort (Some t) s) (\<lambda>(e, s').
           if status s t = ND_THREAD_STAT_DEAD then e = ND_EOK \<and> s' = s
           else if nd_is_thread_essential t s then e = ND_EPERM \<and> s' = s
           else e = ND_EOK \<and> kernel_ok i s' \<and> status s' t = ND_THREAD_STAT_DEAD \<and> qhome s' t = None \<and>
             ThreadTimer t \<notin> set (rbtree s') \<and> t \<notin> set (nd_thread_list s') \<and> qlists s' (JoinList t) = [] \<and>
             (\<forall>j \<in> set (qlists s (JoinList t)). j \<noteq> t \<longrightarrow>
                runnable (status s' j) \<and> error (threads s' j) = ND_EOK) \<and>
             (nd_current_thread s = Some t \<longrightarrow> scheduled s'))"
proof (rule wp_pair_mono [OF nd_thread_abort_ok [OF ok es st nx]], assumption)
  fix e s'
  assume post: "if status s t = ND_THREAD_STAT_DEAD then e = ND_EOK \<and> s' = s
           else if nd_is_thread_essential t s then e = ND_EPERM \<and> s' = s
           else e = ND_EOK \<and> kernel_ok i s' \<and> sync_frame s s' \<and>
             status s' t = ND_THREAD_STAT_DEAD \<and> t \<notin> set (nd_thread_list s') \<and>
             qlists s' (JoinList t) = [] \<and>
             (\<forall>j \<in> set (qlists s (JoinList t)). j \<noteq> t \<longrightarrow>
                runnable (status s' j) \<and> error (threads s' j) = ND_EOK) \<and>
             (nd_current_thread s = Some t \<longrightarrow> scheduled s')"
  have "qhome s' t = None" "ThreadTimer t \<notin> set (rbtree s')"
    if "kernel_ok i s'" "status s' t = ND_THREAD_STAT_DEAD"
    using kernel_okD(5) [OF that(1), of t] that(2)
    by (auto simp: thread_ok_def home_ok_def timer_ok_def split: option.splits list_head.splits)
  with post show "if status s t = ND_THREAD_STAT_DEAD then e = ND_EOK \<and> s' = s
           else if nd_is_thread_essential t s then e = ND_EPERM \<and> s' = s
           else e = ND_EOK \<and> kernel_ok i s' \<and> status s' t = ND_THREAD_STAT_DEAD \<and> qhome s' t = None \<and>
             ThreadTimer t \<notin> set (rbtree s') \<and> t \<notin> set (nd_thread_list s') \<and> qlists s' (JoinList t) = [] \<and>
             (\<forall>j \<in> set (qlists s (JoinList t)). j \<noteq> t \<longrightarrow>
                runnable (status s' j) \<and> error (threads s' j) = ND_EOK) \<and>
             (nd_current_thread s = Some t \<longrightarrow> scheduled s')"
    by (simp split: if_splits)
qed

theorem abort_witness:
  "wp (nd_thread_abort (Some 2) (sample SwitchDeferred)) (\<lambda>(e, s'). e = ND_EOK \<and>
     status s' 2 = ND_THREAD_STAT_DEAD \<and> runnable (status s' 6))"
proof -
  have e: "nd_is_thread_essential 0 (sample SwitchDeferred)" "\<not> nd_is_thread_essential 2 (sample SwitchDeferred)"
    "status (sample SwitchDeferred) 2 = ND_THREAD_STAT_READY" "\<not> pendsv (sample SwitchDeferred)"
    "6 \<in> set (qlists (sample SwitchDeferred) (JoinList 2))"
    by (simp_all add: nd_is_thread_essential_def sample_defs sample_lists_def ND_THREAD_OPT_ESSENTIAL_def)
  show ?thesis
    by (rule wp_pair_mono [OF abort_correct [OF sample_ok e(1), of 2]]) (use e in auto)
qed

end
