(* ===== verification/Nd_Sem.thy ===== *)
theory Nd_Sem
  imports Nd_Thread
begin

text \<open>\<^verbatim>\<open>kernel/nd_sem.c\<close>: counting semaphores. The count is a C \<open>int\<close>: its overflow is a fault.\<close>

definition INT32_MAX :: int where
  "INT32_MAX = 2147483647"

definition nd_sem_init :: "nat \<Rightarrow> int \<Rightarrow> kstate \<Rightarrow> kstate option" where
  "nd_sem_init i init_val s =
     q_init (SemWait i) (upd_sem (sem_val_update (\<lambda>_. init_val)) i s)"

definition nd_sem_release :: "nat \<Rightarrow> kstate \<Rightarrow> (nd_err \<times> kstate) option" where
  "nd_sem_release i s =
     (if q_is_empty (SemWait i) s then do {
        assert_ok (sem_val (sems s i) < INT32_MAX);
        Some (ND_EOK, upd_sem (\<lambda>x. x\<lparr>sem_val := sem_val x + 1\<rparr>) i s)
      }
      else do {
        (_, s1) \<leftarrow> nd_thread_wakeup (SemWait i) s;
        s2 \<leftarrow> nd_scheduler s1;
        Some (ND_EOK, s2)
      })"

definition nd_sem_take :: "nat \<Rightarrow> u64 \<Rightarrow> kstate \<Rightarrow> (nd_err option \<times> kstate) option" where
  "nd_sem_take i tmo s =
     (if sem_val (sems s i) > 0 then
        Some (Some ND_EOK, upd_sem (\<lambda>x. x\<lparr>sem_val := sem_val x - 1\<rparr>) i s)
      else if tmo = ND_TIMEOUT_NOWAIT then Some (Some ND_EBUSY, s)
      else do {
        s1 \<leftarrow> nd_thread_pend (SemWait i) tmo s;
        s2 \<leftarrow> nd_scheduler s1;
        Some (None, s2)
      })"

section \<open>Correctness\<close>

text \<open>A semaphore with tokens left has no waiter.\<close>

definition sem_ok :: "kstate \<Rightarrow> bool" where
  "sem_ok s \<longleftrightarrow> (\<forall>i. sem_val (sems s i) > 0 \<longrightarrow> qlists s (SemWait i) = [])"

lemma nd_sem_take_ok:
  assumes C: "calling i c s" and "c \<noteq> i"
  shows "wp (nd_sem_take m tmo s) (\<lambda>(r, s').
           if sem_val (sems s m) > 0
           then r = Some ND_EOK \<and> s' = upd_sem (\<lambda>x. x\<lparr>sem_val := sem_val x - 1\<rparr>) m s
           else if tmo = ND_TIMEOUT_NOWAIT then r = Some ND_EBUSY \<and> s' = s
           else r = None \<and> kernel_ok i s' \<and> scheduled s' \<and> waits (SemWait m) tmo c s s' \<and>
             wait_frame (SemWait m) (insort_after (prio_of s) c (qlists s (SemWait m))) s s')"
  using pend_then_schedule [OF assms, of "SemWait m" tmo] by (simp add: nd_sem_take_def)

lemma nd_sem_release_ok:
  assumes ok: "kernel_ok i s" and "qlists s (SemWait m) = [] \<Longrightarrow> sem_val (sems s m) < INT32_MAX"
  shows "wp (nd_sem_release m s) (\<lambda>(e, s'). e = ND_EOK \<and> kernel_ok i s' \<and> (scheduled s \<longrightarrow> scheduled s') \<and>
           (case qlists s (SemWait m) of
              [] \<Rightarrow> s' = upd_sem (\<lambda>x. x\<lparr>sem_val := sem_val x + 1\<rparr>) m s
            | t # L \<Rightarrow> wait_frame (SemWait m) L s s' \<and> runnable (status s' t) \<and>
                error (threads s' t) = ND_EOK \<and> ThreadTimer t \<notin> set (rbtree s')))"
proof (cases "qlists s (SemWait m)")
  case Nil
  with assms show ?thesis by (simp add: nd_sem_release_def q_is_empty_def upd_sem_def)
next
  case (Cons t L)
  note K = kernel_okD [OF ok]
  have "wp (nd_thread_wakeup (SemWait m) s) (\<lambda>x. wp (nd_scheduler (snd x)) (\<lambda>s'. kernel_ok i s' \<and> scheduled s' \<and>
      wait_frame (SemWait m) L s s' \<and> runnable (status s' t) \<and>
      error (threads s' t) = ND_EOK \<and> ThreadTimer t \<notin> set (rbtree s')))"
    using wakeup_then_schedule [OF K(1-3) Cons is_ready_simps(3)]
    by (auto simp: case_prod_unfold elim!: wp_mono)
  with Cons show ?thesis
    by (auto simp: nd_sem_release_def q_is_empty_def case_prod_unfold elim!: wp_mono)
qed

lemma sem_ok_take:
  assumes "sem_ok s" and "calling i c s" and "c \<noteq> i"
  shows "wp (nd_sem_take m tmo s) (\<lambda>(r, s'). sem_ok s')"
proof (rule wp_mono [OF nd_sem_take_ok [OF assms(2,3)]], clarify)
  fix r s'
  assume "if sem_val (sems s m) > 0
           then r = Some ND_EOK \<and> s' = upd_sem (\<lambda>x. x\<lparr>sem_val := sem_val x - 1\<rparr>) m s
           else if tmo = ND_TIMEOUT_NOWAIT then r = Some ND_EBUSY \<and> s' = s
           else r = None \<and> kernel_ok i s' \<and> scheduled s' \<and> waits (SemWait m) tmo c s s' \<and>
             wait_frame (SemWait m) (insort_after (prio_of s) c (qlists s (SemWait m))) s s'"
  with assms(1) show "sem_ok s'"
    by (auto simp: sem_ok_def upd_sem_def wait_frameD split: if_splits)
qed

lemma sem_ok_sync: "sem_ok s \<Longrightarrow> sync_frame s s' \<Longrightarrow> sem_ok s'"
  unfolding sem_ok_def by (metis empty_subsetI is_ready_simps(3) set_empty subset_antisym sync_frameD(1,11))

lemma sem_ok_wait:
  "sem_ok s \<Longrightarrow> wait_frame k L s s' \<Longrightarrow> (\<And>m. k = SemWait m \<Longrightarrow> sem_val (sems s m) \<le> 0) \<Longrightarrow> sem_ok s'"
  by (force simp: sem_ok_def wait_frameD)

lemma sem_ok_release:
  assumes sok: "sem_ok s" and ok: "kernel_ok i s" and "qlists s (SemWait m) = [] \<Longrightarrow> sem_val (sems s m) < INT32_MAX"
  shows "wp (nd_sem_release m s) (\<lambda>(e, s'). sem_ok s')"
proof (cases "qlists s (SemWait m)")
  case Nil
  with sok show ?thesis
    by (intro wp_mono [OF nd_sem_release_ok [OF assms(2,3)]]) (auto simp: sem_ok_def upd_sem_def split: if_splits)
next
  case (Cons t L)
  then have "sem_val (sems s m) \<le> 0"
    using sok unfolding sem_ok_def by (metis list.distinct(1) not_less)
  then have "wait_frame (SemWait m) L s s' \<Longrightarrow> sem_ok s'" for s'
    using sem_ok_wait [OF sok, of "SemWait m" L s'] by simp
  with Cons show ?thesis
    by (intro wp_mono [OF nd_sem_release_ok [OF assms(2,3)]]) auto
qed

lemma sample_sem_ok: "sem_ok (sample pt)"
  by (simp add: sem_ok_def sample_def sample_lists_def)

section \<open>Properties\<close>

text \<open>C10: taking a semaphore. With a token the caller goes on at once and one token less is left;
  without one a caller that will not wait gets \<open>ND_EBUSY\<close> and nothing changes; any other caller
  blocks in the wait list behind the waiters of its priority or a more urgent one, with a timer for
  its timeout, and the most urgent ready thread runs next. No semaphore ends up with both tokens
  and waiters.\<close>

theorem sem_take_correct:
  assumes C: "calling i c s" and ci: "c \<noteq> i" and sok: "sem_ok s"
  shows "wp (nd_sem_take m tmo s) (\<lambda>(r, s'). sem_ok s' \<and>
           (if sem_val (sems s m) > 0
            then r = Some ND_EOK \<and> s' = upd_sem (\<lambda>x. x\<lparr>sem_val := sem_val x - 1\<rparr>) m s
            else if tmo = ND_TIMEOUT_NOWAIT then r = Some ND_EBUSY \<and> s' = s
            else r = None \<and> kernel_ok i s' \<and> scheduled s' \<and> waits (SemWait m) tmo c s s' \<and>
              qlists s' (SemWait m) = insort_after (prio_of s) c (qlists s (SemWait m)) \<and> sems s' = sems s))"
  by (rule wp_mono [OF wp_conj [OF sem_ok_take [OF sok C ci] nd_sem_take_ok [OF C ci]]])
    (auto simp: wait_frameD split: if_splits)

theorem sem_take_witness:
  "wp (nd_sem_take 0 20 (sample SwitchDeferred)) (\<lambda>(r, s'). r = None \<and> status s' 1 = ND_THREAD_STAT_BLOCK \<and>
     qlists s' (SemWait 0) = [3, 1] \<and> armed_for CB_pend 70 1 s')"
  by (rule wp_mono [OF sem_take_correct [OF sample_calling _ sample_sem_ok]])
    (auto simp: waits_def sample_def sample_lists_def sample_threads_def sample_thread_def expiry_def
       ND_TIMEOUT_NOWAIT_def ND_TIMEOUT_FOREVER_def insort_after_def)

text \<open>C11: releasing a semaphore. With nobody waiting the count goes up by one; otherwise exactly the
  first waiter is woken (it leaves the wait list, its timeout is cancelled, its wait returns
  \<open>ND_EOK\<close>), and the count stays as it is. The kernel stays well formed and scheduled.\<close>

theorem sem_release_correct:
  assumes ok: "kernel_ok i s" and sok: "sem_ok s"
    and room: "qlists s (SemWait m) = [] \<Longrightarrow> sem_val (sems s m) < INT32_MAX"
  shows "wp (nd_sem_release m s) (\<lambda>(e, s'). sem_ok s' \<and> e = ND_EOK \<and> kernel_ok i s' \<and>
           (scheduled s \<longrightarrow> scheduled s') \<and>
           (case qlists s (SemWait m) of
              [] \<Rightarrow> s' = upd_sem (\<lambda>x. x\<lparr>sem_val := sem_val x + 1\<rparr>) m s
            | t # L \<Rightarrow> qlists s' (SemWait m) = L \<and> sems s' = sems s \<and> runnable (status s' t) \<and>
                error (threads s' t) = ND_EOK \<and> ThreadTimer t \<notin> set (rbtree s')))"
  by (rule wp_mono [OF wp_conj [OF sem_ok_release [OF sok ok room] nd_sem_release_ok [OF ok room]]])
    (auto simp: wait_frameD split: list.splits)

theorem sem_release_witness:
  "wp (nd_sem_release 0 (sample SwitchImmediate)) (\<lambda>(e, s'). e = ND_EOK \<and> qlists s' (SemWait 0) = [] \<and>
     runnable (status s' 3))"
  by (rule wp_mono [OF sem_release_correct [OF sample_ok sample_sem_ok]])
    (auto simp: sample_def sample_lists_def)

end
