(* ===== verification/Nd_Mutex.thy ===== *)
theory Nd_Mutex
  imports Nd_Thread
begin

text \<open>
  \<^verbatim>\<open>kernel/nd_mutex.c\<close>: mutexes with priority inheritance. \<open>taken_list s t\<close> is the sequence of the
  mutexes whose \<open>owner_list\<close> node is linked in thread \<open>t\<close>'s \<open>taken_list\<close>.
\<close>

text \<open>\<open>nd_list_insert_after(&t->mutex.taken_list, &m->owner_list)\<close> and \<open>nd_list_remove(&m->owner_list)\<close>;
  an unlinked \<open>owner_list\<close> points to itself or is null.\<close>

definition taken_insert :: "tid \<Rightarrow> nat \<Rightarrow> kstate \<Rightarrow> kstate option" where
  "taken_insert t m s = do {
     assert_ok (owner_home (mutexes s m) = None);
     Some (upd_mutex (owner_home_update (\<lambda>_. Some t)) m
       (s\<lparr>taken_list := (taken_list s)(t := m # taken_list s t)\<rparr>))
   }"

definition taken_remove :: "nat \<Rightarrow> kstate \<Rightarrow> kstate option" where
  "taken_remove m s = do {
     t \<leftarrow> owner_home (mutexes s m);
     Some (upd_mutex (owner_home_update (\<lambda>_. None)) m
       (s\<lparr>taken_list := (taken_list s)(t := remove1 m (taken_list s t))\<rparr>))
   }"

definition nd_mutex_init :: "nat \<Rightarrow> kstate \<Rightarrow> kstate option" where
  "nd_mutex_init m s = do {
     assert_ok (owner_home (mutexes s m) = None);
     q_init (MutexWait m)
       (upd_mutex (\<lambda>x. x\<lparr>owner := None, mutex_priority := ND_THREAD_PRIORITY_MAX\<rparr>) m s)
   }"

definition nd_thread_change_priority :: "tid \<Rightarrow> nat \<Rightarrow> kstate \<Rightarrow> kstate option" where
  "nd_thread_change_priority t new_priority s =
     (if stat (threads s t) = ND_THREAD_STAT_READY then do {
        s1 \<leftarrow> nd_thread_ready_remove t s;
        nd_thread_ready_add_head t (upd_thread (priority_update (\<lambda>_. new_priority)) t s1)
      }
      else Some (upd_thread (priority_update (\<lambda>_. new_priority)) t s))"

text \<open>The loop over the taken mutexes: the least of their recorded priorities and the start value.\<close>

fun restored_priority :: "(nat \<Rightarrow> nd_mutex) \<Rightarrow> nat list \<Rightarrow> nat \<Rightarrow> nat" where
  "restored_priority mx [] p = p"
| "restored_priority mx (m # ms) p =
     restored_priority mx ms (if mutex_priority (mx m) < p then mutex_priority (mx m) else p)"

definition nd_mutex_restore_priority :: "tid \<Rightarrow> kstate \<Rightarrow> kstate" where
  "nd_mutex_restore_priority t s =
     upd_thread (\<lambda>th. th\<lparr>priority := restored_priority (mutexes s) (taken_list s t) (init_priority th)\<rparr>) t s"

definition nd_mutex_unlock :: "nat \<Rightarrow> kstate \<Rightarrow> (nd_err \<times> kstate) option" where
  "nd_mutex_unlock m s =
     (if owner (mutexes s m) \<noteq> nd_current_thread s then Some (ND_EPERM, s)
      else do {
        s1 \<leftarrow> taken_remove m s;
        c \<leftarrow> nd_current_thread s1;
        let s2 = nd_mutex_restore_priority c s1;
        if q_is_empty (MutexWait m) s2 then
          Some (ND_EOK,
            upd_mutex (\<lambda>x. x\<lparr>owner := None, mutex_priority := ND_THREAD_PRIORITY_MAX\<rparr>) m s2)
        else do {
          (w, s3) \<leftarrow> nd_thread_wakeup (MutexWait m) s2;
          s4 \<leftarrow> taken_insert w m (upd_mutex (owner_update (\<lambda>_. Some w)) m s3);
          s5 \<leftarrow> nd_scheduler s4;
          Some (ND_EOK, s5)
        }
      })"

definition nd_mutex_lock :: "nat \<Rightarrow> u64 \<Rightarrow> kstate \<Rightarrow> (nd_err option \<times> kstate) option" where
  "nd_mutex_lock m tmo s =
     (if owner (mutexes s m) = nd_current_thread s then Some (Some ND_EDEADLK, s)
      else case owner (mutexes s m) of
        None \<Rightarrow> do {
          c \<leftarrow> nd_current_thread s;
          s1 \<leftarrow> taken_insert c m (upd_mutex (owner_update (\<lambda>_. Some c)) m s);
          Some (Some ND_EOK, s1)
        }
      | Some t \<Rightarrow> do {
          c \<leftarrow> nd_current_thread s;
          let p = priority (threads s c);
          s1 \<leftarrow> (if priority (threads s t) > p
                 then nd_thread_change_priority t p (upd_mutex (mutex_priority_update (\<lambda>_. p)) m s)
                 else Some s);
          if tmo = ND_TIMEOUT_NOWAIT then Some (Some ND_EBUSY, s1)
          else do {
            s2 \<leftarrow> nd_thread_pend (MutexWait m) tmo s1;
            s3 \<leftarrow> nd_scheduler s2;
            Some (None, s3)
          }
        })"

section \<open>The invariant\<close>

text \<open>Ownership and the owners' lists of taken mutexes agree; a free mutex has no waiter.\<close>

definition mutex_ok :: "kstate \<Rightarrow> bool" where
  "mutex_ok s \<longleftrightarrow>
     (\<forall>m. owner_home (mutexes s m) = owner (mutexes s m)) \<and>
     (\<forall>m t. m \<in> set (taken_list s t) \<longleftrightarrow> owner (mutexes s m) = Some t) \<and>
     (\<forall>t. distinct (taken_list s t)) \<and>
     (\<forall>m. owner (mutexes s m) = None \<longrightarrow> qlists s (MutexWait m) = [])"

lemma mutex_okD:
  assumes "mutex_ok s"
  shows "owner_home (mutexes s m) = owner (mutexes s m)"
    "m \<in> set (taken_list s t) \<longleftrightarrow> owner (mutexes s m) = Some t" "distinct (taken_list s t)"
    "owner (mutexes s m) = None \<Longrightarrow> qlists s (MutexWait m) = []"
  using assms unfolding mutex_ok_def by blast+

text \<open>A change of priority keeps the invariant: a ready thread moves to the head of its new list.\<close>

definition reprio :: "tid \<Rightarrow> nat \<Rightarrow> kstate \<Rightarrow> kstate \<Rightarrow> bool" where
  "reprio t p s s' \<longleftrightarrow> rest s' = rest s \<and> threads s' = (threads s)(t := (threads s t)\<lparr>priority := p\<rparr>) \<and>
     (\<forall>k. \<not> is_ready k \<longrightarrow> qlists s' k = qlists s k)"

lemma kinv_reprio_off:
  assumes k: "kinv {} s" and nr: "status s t \<noteq> ND_THREAD_STAT_READY" and p: "p < ND_THREAD_PRIORITY_MAX"
  shows "kinv {} (upd_thread (priority_update (\<lambda>_. p)) t s)"
proof -
  have "thread_ok (upd_thread (priority_update (\<lambda>_. p)) t s) t"
    using kinvD(2) [OF k, of t] nr p
    by (auto simp: thread_ok_def home_ok_def timer_ok_def slice_ok_def split: option.splits list_head.splits)
  then show ?thesis
    by (rule kinv_close [OF kinv_upd_thread [OF kinv_mono [OF k]], rotated]) simp
qed

lemma change_priority_ok:
  assumes k: "kinv {} s" and p: "p < ND_THREAD_PRIORITY_MAX"
  shows "wp (nd_thread_change_priority t p s) (\<lambda>s'. kinv {} s' \<and> reprio t p s s')"
proof (cases "status s t = ND_THREAD_STAT_READY")
  case False
  with kinv_reprio_off [OF k False p] show ?thesis
    by (simp add: nd_thread_change_priority_def reprio_def)
next
  case True
  note tok = kinvD(2) [OF k, of t, simplified]
  let ?f = "priority_update (\<lambda>_. p)"
  have home: "qhome s t = Some (ReadyList (prio_of s t))" "prio_of s t < ND_THREAD_PRIORITY_MAX"
    using ready_home [OF tok] True tok by (simp_all add: thread_ok_def)
  have se: "settled s t"
    by (rule thread_ok_settled [OF tok _ not_armed [OF tok]]) (simp_all add: True alive_def)
  have def': "nd_thread_change_priority t p s = do { s1 \<leftarrow> nd_thread_ready_remove t s;
      nd_thread_ready_add_head t (upd_thread ?f t s1) }"
    using True by (simp add: nd_thread_change_priority_def)
  show ?thesis unfolding def' wp_bind
  proof (rule wp_mono [OF nd_thread_ready_remove_ok [OF kinvD(1) [OF k] home(1) refl home(2)]], elim conjE)
    fix s1
    assume b1: "base_ok s1" and rel: "relinked t None (ReadyList (prio_of s t))
        (remove1 t (qlists s (ReadyList (prio_of s t)))) s s1"
    note R = relinkedD [OF rel]
    let ?s2 = "upd_thread ?f t s1"
    have k2: "kinv {t} ?s2" by (rule kinv_upd_thread [OF kinv_relinked [OF kinv_mono [OF k] rel b1]]) simp
    have r2: "readying ?s2 t"
      using se p unfolding readying_iff settled_def by (simp add: R True)
    show "wp (nd_thread_ready_add_head t ?s2) (\<lambda>s'. kinv {} s' \<and> reprio t p s s')"
    proof (rule wp_mono [OF ready_add_ok(2) [OF k2 r2 refl]], elim conjE)
      fix s' assume s': "kinv {} s'" and rel': "relinked t (Some (ReadyList (prio_of ?s2 t)))
        (ReadyList (prio_of ?s2 t)) (t # qlists ?s2 (ReadyList (prio_of ?s2 t))) ?s2 s'"
      note S = relinkedD [OF rel']
      have "reprio t p s s'" by (auto simp: reprio_def S R)
      with s' show "kinv {} s' \<and> reprio t p s s'" by simp
    qed
  qed
qed

lemma reprioD:
  assumes "reprio t p s s'"
  shows "rest s' = rest s" "status s' u = status s u" "prio_of s' u = (if u = t then p else prio_of s u)"
    "\<not> is_ready k \<Longrightarrow> qlists s' k = qlists s k" "error (threads s' u) = error (threads s u)"
    "event_set (threads s' u) = event_set (threads s u)"
    "event_opt (threads s' u) = event_opt (threads s u)"
    "init_priority (threads s' u) = init_priority (threads s u)"
  using assms by (simp_all add: reprio_def)

lemma kernel_ok_reprio:
  assumes ok: "kernel_ok i s" and k: "kinv {} s'" and r: "reprio t p s s'"
  shows "kernel_ok i s'"
proof -
  note R = restD [OF reprioD(1) [OF r]]
  have "cur_link s'" by (rule cur_link_threads [OF kernel_okD(2) [OF ok] reprioD(1) [OF r] reprioD(2) [OF r]])
  with k kernel_okD(3,6) [OF ok] show ?thesis
    by (simp add: kernel_ok_def cur_ok_def R reprioD(2) [OF r])
qed

lemma sync_frame_reprio: "reprio t p s s' \<Longrightarrow> sync_frame s s'"
  using restD [OF reprioD(1)] reprioD by (simp add: sync_frame_def)

section \<open>Locking\<close>

text \<open>The owner inherits the priority of a more urgent caller, before anything else is decided.\<close>

definition boost :: "nat \<Rightarrow> tid \<Rightarrow> nat \<Rightarrow> kstate \<Rightarrow> kstate option" where
  "boost m t p s = (if priority (threads s t) > p
                 then nd_thread_change_priority t p (upd_mutex (mutex_priority_update (\<lambda>_. p)) m s)
                 else Some s)"

definition boosted :: "nat \<Rightarrow> tid \<Rightarrow> nat \<Rightarrow> kstate \<Rightarrow> kstate \<Rightarrow> bool" where
  "boosted m t p s s' \<longleftrightarrow>
     (if prio_of s t > p then reprio t p (upd_mutex (mutex_priority_update (\<lambda>_. p)) m s) s' else s' = s)"

lemma upd_mutex_sel [simp]:
  "threads (upd_mutex f m s) = threads s" "kinv X (upd_mutex f m s) = kinv X s"
  "kernel_ok i (upd_mutex f m s) = kernel_ok i s" "scheduled (upd_mutex f m s) = scheduled s"
  "qlists (upd_mutex f m s) = qlists s" "taken_list (upd_mutex f m s) = taken_list s"
  "mutexes (upd_mutex f m s) = (mutexes s)(m := f (mutexes s m))"
  "nd_current_thread (upd_mutex f m s) = nd_current_thread s" "pendsv (upd_mutex f m s) = pendsv s"
  "nd_interrupt_nest_count (upd_mutex f m s) = nd_interrupt_nest_count s"
  "nd_interrupt_try_switch (upd_mutex f m s) = nd_interrupt_try_switch s"
  "sems (upd_mutex f m s) = sems s" "events (upd_mutex f m s) = events s"
  "queues (upd_mutex f m s) = queues s" "pools (upd_mutex f m s) = pools s"
  "cur_link (upd_mutex f m s) = cur_link s" "nd_next_thread (upd_mutex f m s) = nd_next_thread s"
  by (simp_all add: upd_mutex_def cur_link_def cong: if_cong)

lemma boost_ok:
  assumes C: "calling i c s" and t: "t \<noteq> c" and p: "p = prio_of s c"
  shows "wp (boost m t p s) (\<lambda>s'. calling i c s' \<and> boosted m t p s s' \<and> (scheduled s \<longrightarrow> scheduled s'))"
proof (cases "prio_of s t > p")
  case False
  with C show ?thesis by (simp add: boost_def boosted_def)
next
  case True
  let ?s = "upd_mutex (mutex_priority_update (\<lambda>_. p)) m s"
  have k: "kinv {} ?s" using callingD(7) [OF C] by simp
  have p32: "p < ND_THREAD_PRIORITY_MAX" using callingD(8) [OF C] p by (simp add: thread_ok_def)
  have "wp (nd_thread_change_priority t p ?s) (\<lambda>s'. calling i c s' \<and> boosted m t p s s' \<and> (scheduled s \<longrightarrow> scheduled s'))"
  proof (rule wp_mono [OF change_priority_ok [OF k p32]], elim conjE)
    fix s' assume k': "kinv {} s'" and r: "reprio t p ?s s'"
    note R = restD [OF reprioD(1) [OF r]]
    have "kernel_ok i ?s" using callingD(1) [OF C] by simp
    then have "kernel_ok i s'" by (rule kernel_ok_reprio [OF _ k' r])
    then have C': "calling i c s'" using callingD(2-4) [OF C] by (simp add: calling_def R)
    have "scheduled s'" if "scheduled s"
      using that callingD(2,4,5) [OF C] t p True
      by (auto simp: scheduled_def R reprioD(2,3) [OF r])
    with C' True r show "calling i c s' \<and> boosted m t p s s' \<and> (scheduled s \<longrightarrow> scheduled s')"
      by (simp add: boosted_def)
  qed
  with True show ?thesis by (simp add: boost_def)
qed

lemma nd_mutex_lock_ok:
  assumes C: "calling i c s" and ci: "c \<noteq> i" and mok: "mutex_ok s"
  shows "wp (nd_mutex_lock m tmo s) (\<lambda>(r, s').
           case owner (mutexes s m) of
             None \<Rightarrow> r = Some ND_EOK \<and>
               s' = upd_mutex (\<lambda>x. x\<lparr>owner := Some c, owner_home := Some c\<rparr>) m
                      (s\<lparr>taken_list := (taken_list s)(c := m # taken_list s c)\<rparr>)
           | Some t \<Rightarrow>
               if t = c then r = Some ND_EDEADLK \<and> s' = s
               else \<exists>s1. calling i c s1 \<and> boosted m t (prio_of s c) s s1 \<and> (scheduled s \<longrightarrow> scheduled s1) \<and>
                 (if tmo = ND_TIMEOUT_NOWAIT then r = Some ND_EBUSY \<and> s' = s1
                  else r = None \<and> kernel_ok i s' \<and> scheduled s' \<and> waits (MutexWait m) tmo c s1 s' \<and>
                    wait_frame (MutexWait m) (insort_after (prio_of s1) c (qlists s1 (MutexWait m))) s1 s'))"
proof (cases "owner (mutexes s m)")
  case None
  then have "owner_home (mutexes s m) = None" using mutex_okD(1) [OF mok] by simp
  with None callingD(2) [OF C] show ?thesis
    by (simp add: nd_mutex_lock_def taken_insert_def) (simp add: upd_mutex_def comp_def)
next
  case (Some t)
  note cur = callingD(2) [OF C]
  show ?thesis
  proof (cases "t = c")
    case True
    with Some cur show ?thesis by (simp add: nd_mutex_lock_def)
  next
    case False
    have def': "nd_mutex_lock m tmo s = do { s1 \<leftarrow> boost m t (prio_of s c) s;
        if tmo = ND_TIMEOUT_NOWAIT then Some (Some ND_EBUSY, s1)
        else do { s2 \<leftarrow> nd_thread_pend (MutexWait m) tmo s1; s3 \<leftarrow> nd_scheduler s2; Some (None, s3) } }"
      using Some False cur by (simp add: nd_mutex_lock_def boost_def Let_def)
    have "wp (nd_mutex_lock m tmo s) (\<lambda>(r, s'). \<exists>s1. calling i c s1 \<and> boosted m t (prio_of s c) s s1 \<and>
        (scheduled s \<longrightarrow> scheduled s1) \<and>
        (if tmo = ND_TIMEOUT_NOWAIT then r = Some ND_EBUSY \<and> s' = s1
         else r = None \<and> kernel_ok i s' \<and> scheduled s' \<and> waits (MutexWait m) tmo c s1 s' \<and>
           wait_frame (MutexWait m) (insort_after (prio_of s1) c (qlists s1 (MutexWait m))) s1 s'))"
      unfolding def' wp_bind
    proof (rule wp_mono [OF boost_ok [OF C False refl]], elim conjE)
      fix s1
      assume s1: "calling i c s1" "boosted m t (prio_of s c) s s1" "scheduled s \<longrightarrow> scheduled s1"
      show "wp (if tmo = ND_TIMEOUT_NOWAIT then Some (Some ND_EBUSY, s1)
        else do { s2 \<leftarrow> nd_thread_pend (MutexWait m) tmo s1; s3 \<leftarrow> nd_scheduler s2; Some (None, s3) })
       (\<lambda>(r, s'). \<exists>s1. calling i c s1 \<and> boosted m t (prio_of s c) s s1 \<and>
        (scheduled s \<longrightarrow> scheduled s1) \<and>
        (if tmo = ND_TIMEOUT_NOWAIT then r = Some ND_EBUSY \<and> s' = s1
         else r = None \<and> kernel_ok i s' \<and> scheduled s' \<and> waits (MutexWait m) tmo c s1 s' \<and>
           wait_frame (MutexWait m) (insort_after (prio_of s1) c (qlists s1 (MutexWait m))) s1 s'))"
      proof (cases "tmo = ND_TIMEOUT_NOWAIT")
        case True
        with s1 show ?thesis by auto
      next
        case nw: False
        have "wp (nd_thread_pend (MutexWait m) tmo s1) (\<lambda>s2. wp (nd_scheduler s2) (\<lambda>s'. \<exists>s1. calling i c s1 \<and>
            boosted m t (prio_of s c) s s1 \<and> (scheduled s \<longrightarrow> scheduled s1) \<and>
            kernel_ok i s' \<and> scheduled s' \<and> waits (MutexWait m) tmo c s1 s' \<and>
            wait_frame (MutexWait m) (insort_after (prio_of s1) c (qlists s1 (MutexWait m))) s1 s'))"
          by (rule wp_mono2 [OF pend_then_schedule [OF s1(1) ci is_ready_simps(4), unfolded wp_bind]])
            (use s1 in blast)
        with nw show ?thesis by simp
      qed
    qed
    with Some False show ?thesis by simp
  qed
qed

section \<open>Unlocking\<close>

lemma restored_priority_eq:
  "restored_priority mx ms p = Min (insert p (set (map (\<lambda>m. mutex_priority (mx m)) ms)))"
proof (induction ms arbitrary: p)
  case (Cons m ms)
  have "insert p (set (map (\<lambda>m. mutex_priority (mx m)) (m # ms))) =
    insert (mutex_priority (mx m)) (insert p (set (map (\<lambda>m. mutex_priority (mx m)) ms)))" by auto
  with Cons show ?case
    by (cases "set (map (\<lambda>m. mutex_priority (mx m)) ms) = {}") (auto simp: min_def)
qed simp

lemma restored_priority_le: "restored_priority mx ms p \<le> p"
  by (simp add: restored_priority_eq)

text \<open>The state when the mutex is out of the caller's list and its priority is recomputed.\<close>

definition released :: "tid \<Rightarrow> nat \<Rightarrow> kstate \<Rightarrow> kstate" where
  "released c m s = nd_mutex_restore_priority c
     (upd_mutex (owner_home_update (\<lambda>_. None)) m (s\<lparr>taken_list := (taken_list s)(c := remove1 m (taken_list s c))\<rparr>))"

lemma released_eq:
  "released c m s = upd_thread (priority_update (\<lambda>_. restored_priority (mutexes s)
       (remove1 m (taken_list s c)) (init_priority (threads s c)))) c
     (upd_mutex (owner_home_update (\<lambda>_. None)) m (s\<lparr>taken_list := (taken_list s)(c := remove1 m (taken_list s c))\<rparr>))"
proof -
  have "restored_priority (mx(m := owner_home_update (\<lambda>_. None) (mx m))) ms p = restored_priority mx ms p" for mx ms p
    by (induction mx ms p rule: restored_priority.induct) auto
  then show ?thesis
    by (simp add: released_def nd_mutex_restore_priority_def) (simp add: upd_thread_def)
qed

lemma released_sel [simp]:
  "qlists (released c m s) = qlists s" "mutexes (released c m s) = (mutexes s)(m := (mutexes s m)\<lparr>owner_home := None\<rparr>)"
  "taken_list (released c m s) = (taken_list s)(c := remove1 m (taken_list s c))"
  "nd_current_thread (released c m s) = nd_current_thread s"
  "prio_of (released c m s) c = restored_priority (mutexes s) (remove1 m (taken_list s c)) (init_priority (threads s c))"
  "status (released c m s) t = status s t"
  "sems (released c m s) = sems s" "events (released c m s) = events s"
  by (simp_all add: released_eq)

lemma released_ok:
  assumes C: "calling i c s"
  shows "calling i c (released c m s)"
proof -
  let ?s0 = "upd_mutex (owner_home_update (\<lambda>_. None)) m (s\<lparr>taken_list := (taken_list s)(c := remove1 m (taken_list s c))\<rparr>)"
  let ?p = "restored_priority (mutexes s) (remove1 m (taken_list s c)) (init_priority (threads s c))"
  have k0: "kinv {} ?s0" using callingD(7) [OF C] by simp
  have p: "?p < ND_THREAD_PRIORITY_MAX"
    using restored_priority_le [of "mutexes s" "remove1 m (taken_list s c)" "init_priority (threads s c)"]
      callingD(8) [OF C] by (simp add: thread_ok_def)
  have "status ?s0 c \<noteq> ND_THREAD_STAT_READY" using callingD(6) [OF C] by simp
  from kinv_reprio_off [OF k0 this p] have k: "kinv {} (released c m s)" by (simp add: released_eq)
  have link: "cur_link (released c m s)"
    using callingD(12) [OF C] cur_link_status [of "released c m s" s]
    by (simp add: released_eq upd_mutex_def upd_thread_def)
  have "kernel_ok i (released c m s)"
    using k link callingD(4,5,6,2,11) [OF C]
    by (simp add: kernel_ok_def cur_ok_def)
  then show ?thesis using callingD(2-4) [OF C] by (simp add: calling_def) (simp add: released_eq)
qed

definition given :: "nat \<Rightarrow> tid \<Rightarrow> kstate \<Rightarrow> kstate" where
  "given m w s = upd_mutex (owner_home_update (\<lambda>_. Some w)) m
     ((upd_mutex (owner_update (\<lambda>_. Some w)) m s)\<lparr>taken_list := (taken_list s)(w := m # taken_list s w)\<rparr>)"

lemma nd_mutex_unlock_ok:
  assumes C: "calling i c s" and mok: "mutex_ok s"
  shows "wp (nd_mutex_unlock m s) (\<lambda>(e, s').
           if owner (mutexes s m) \<noteq> Some c then e = ND_EPERM \<and> s' = s
           else case qlists s (MutexWait m) of
             [] \<Rightarrow> e = ND_EOK \<and> kernel_ok i s' \<and>
               s' = upd_mutex (\<lambda>x. x\<lparr>owner := None, mutex_priority := ND_THREAD_PRIORITY_MAX\<rparr>) m (released c m s)
           | w # L \<Rightarrow> e = ND_EOK \<and> kernel_ok i s' \<and> scheduled s' \<and> runnable (status s' w) \<and>
               error (threads s' w) = ND_EOK \<and> ThreadTimer w \<notin> set (rbtree s') \<and>
               wait_frame (MutexWait m) L (given m w (released c m s)) s')"
proof (cases "owner (mutexes s m) = Some c")
  case False
  with callingD(2) [OF C] show ?thesis by (simp add: nd_mutex_unlock_def)
next
  case own: True
  note cur = callingD(2) [OF C]
  let ?s2 = "released c m s"
  note C2 = released_ok [OF C, of m]
  have oh: "owner_home (mutexes s m) = Some c" using mutex_okD(1) [OF mok] own by simp
  have def': "nd_mutex_unlock m s = (if q_is_empty (MutexWait m) ?s2 then
          Some (ND_EOK, upd_mutex (\<lambda>x. x\<lparr>owner := None, mutex_priority := ND_THREAD_PRIORITY_MAX\<rparr>) m ?s2)
        else do {
          (w, s3) \<leftarrow> nd_thread_wakeup (MutexWait m) ?s2;
          s4 \<leftarrow> taken_insert w m (upd_mutex (owner_update (\<lambda>_. Some w)) m s3);
          s5 \<leftarrow> nd_scheduler s4;
          Some (ND_EOK, s5) })"
    using own oh cur by (simp add: nd_mutex_unlock_def taken_remove_def released_def)
  show ?thesis
  proof (cases "qlists s (MutexWait m)")
    case Nil
    with own callingD(1) [OF C2] show ?thesis by (simp add: def' q_is_empty_def)
  next
    case (Cons w L)
    then have q: "qlists ?s2 (MutexWait m) = w # L" by simp
    have "wp (nd_mutex_unlock m s) (\<lambda>(e, s'). e = ND_EOK \<and> kernel_ok i s' \<and> scheduled s' \<and>
               runnable (status s' w) \<and>
               error (threads s' w) = ND_EOK \<and> ThreadTimer w \<notin> set (rbtree s') \<and>
               wait_frame (MutexWait m) L (given m w ?s2) s')"
    proof -
      have "wp (nd_thread_wakeup (MutexWait m) ?s2) (\<lambda>(u, s3).
          wp (taken_insert u m (upd_mutex (owner_update (\<lambda>_. Some u)) m s3)) (\<lambda>s4. wp (nd_scheduler s4) (\<lambda>s'.
            kernel_ok i s' \<and> scheduled s' \<and> runnable (status s' w) \<and> error (threads s' w) = ND_EOK \<and>
            ThreadTimer w \<notin> set (rbtree s') \<and> wait_frame (MutexWait m) L (given m w ?s2) s')))"
      proof (rule wp_mono [OF nd_thread_wakeup_ok [OF callingD(7,12,11) [OF C2] q is_ready_simps(4)]], clarify)
        fix s3
        assume s3: "kinv {} s3" "cur_link s3" "runnable (status s3 i)" "rest s3 = rest ?s2"
          "woken (MutexWait m) w ?s2 s3"
        note R = restD [OF s3(4)]
        have wf: "wait_frame (MutexWait m) L ?s2 s3" using wait_frame_woken [OF s3(5,4)] by (simp add: Cons)
        have w3: "status s3 w = ND_THREAD_STAT_READY" "error (threads s3 w) = ND_EOK"
          "ThreadTimer w \<notin> set (rbtree s3)" using s3(5) by (simp_all add: woken_def)
        have ins: "taken_insert w m (upd_mutex (owner_update (\<lambda>_. Some w)) m s3) = Some (given m w s3)"
          using R(13) by (simp add: taken_insert_def given_def)
        have g: "kinv {} (given m w s3)" "runnable (status (given m w s3) i)" "cur_link (given m w s3)"
          using s3(1-3) cur_link_status [of "given m w s3" s3]
          by (simp_all add: given_def upd_mutex_def)
        have wf': "wait_frame (MutexWait m) L (given m w ?s2) (given m w s3)"
          using wait_frameD [OF wf] by (simp add: wait_frame_def given_def upd_mutex_def)
        show "wp (taken_insert w m (upd_mutex (owner_update (\<lambda>_. Some w)) m s3)) (\<lambda>s4. wp (nd_scheduler s4) (\<lambda>s'.
            kernel_ok i s' \<and> scheduled s' \<and> runnable (status s' w) \<and> error (threads s' w) = ND_EOK \<and>
            ThreadTimer w \<notin> set (rbtree s') \<and> wait_frame (MutexWait m) L (given m w ?s2) s'))"
          unfolding ins wp_Some
        proof (rule wp_mono [OF nd_scheduler_ok [OF g(1,3,2)]], elim conjE, intro conjI)
          fix s' assume s': "kernel_ok i s'" "scheduled s'" "sched_frame (given m w s3) s'"
          show "kernel_ok i s'" "scheduled s'" by fact+
          show "runnable (status s' w)"
            by (rule runnable_frame [OF s'(3)]) (use w3 in \<open>simp add: given_def upd_mutex_def\<close>)
          show "error (threads s' w) = ND_EOK"
            using th_staticD(3) [OF sched_frameD(3) [OF s'(3)], of w] w3
            by (simp add: given_def upd_mutex_def)
          show "ThreadTimer w \<notin> set (rbtree s')"
            using sched_frameD(6) [OF s'(3), of "ThreadTimer w"] w3 by (simp add: given_def upd_mutex_def)
          show "wait_frame (MutexWait m) L (given m w ?s2) s'" by (rule wait_frame_sched [OF wf' s'(3)])
        qed
      qed
      with q show ?thesis
        by (auto simp: def' q_is_empty_def case_prod_unfold elim!: wp_mono)
    qed
    with own Cons show ?thesis by simp
  qed
qed


section \<open>The ownership invariant\<close>

lemma mutex_ok_frame:
  assumes "mutex_ok s" and "mutexes s' = mutexes s" "taken_list s' = taken_list s"
    and "\<And>m. set (qlists s' (MutexWait m)) \<subseteq> set (qlists s (MutexWait m))"
  shows "mutex_ok s'"
  using assms mutex_okD(4) [OF assms(1)] unfolding mutex_ok_def by (metis list.set(1) set_empty subset_empty)

lemma mutex_ok_sync:
  assumes "mutex_ok s" and "sync_frame s s'"
  shows "mutex_ok s'"
  by (rule mutex_ok_frame [OF assms(1) sync_frameD(2,6,11) [OF assms(2)]]) simp

lemma mutex_ok_wait:
  assumes "mutex_ok s" and "wait_frame k L s s'" and "\<And>m. k = MutexWait m \<Longrightarrow> owner (mutexes s m) \<noteq> None"
  shows "mutex_ok s'"
  using mutex_okD [OF assms(1)] wait_frameD(2,6,11) [OF assms(2)] assms(3)
  by (auto simp: mutex_ok_def)

lemma mutex_ok_boosted:
  assumes "mutex_ok s" and "boosted m t p s s'"
  shows "mutex_ok s'"
proof (cases "prio_of s t > p")
  case False
  with assms show ?thesis by (simp add: boosted_def)
next
  case True
  with assms(2) have r: "reprio t p (upd_mutex (mutex_priority_update (\<lambda>_. p)) m s) s'"
    by (simp add: boosted_def)
  show ?thesis
    using mutex_okD [OF assms(1)] restD(10,13) [OF reprioD(1) [OF r]] reprioD(4) [OF r]
    by (auto simp: mutex_ok_def)
qed

lemma mutex_ok_lock:
  assumes C: "calling i c s" and ci: "c \<noteq> i" and mok: "mutex_ok s"
  shows "wp (nd_mutex_lock m tmo s) (\<lambda>(r, s'). mutex_ok s')"
proof (rule wp_mono [OF nd_mutex_lock_ok [OF assms, of m tmo]], clarify)
  fix r s'
  assume L: "case owner (mutexes s m) of
             None \<Rightarrow> r = Some ND_EOK \<and>
               s' = upd_mutex (\<lambda>x. x\<lparr>owner := Some c, owner_home := Some c\<rparr>) m
                      (s\<lparr>taken_list := (taken_list s)(c := m # taken_list s c)\<rparr>)
           | Some t \<Rightarrow>
               if t = c then r = Some ND_EDEADLK \<and> s' = s
               else \<exists>s1. calling i c s1 \<and> boosted m t (prio_of s c) s s1 \<and> (scheduled s \<longrightarrow> scheduled s1) \<and>
                 (if tmo = ND_TIMEOUT_NOWAIT then r = Some ND_EBUSY \<and> s' = s1
                  else r = None \<and> kernel_ok i s' \<and> scheduled s' \<and> waits (MutexWait m) tmo c s1 s' \<and>
                    wait_frame (MutexWait m) (insort_after (prio_of s1) c (qlists s1 (MutexWait m))) s1 s')"
  show "mutex_ok s'"
  proof (cases "owner (mutexes s m)")
    case None
    with L mutex_okD [OF mok] show ?thesis by (auto simp: mutex_ok_def)
  next
    case (Some t)
    show ?thesis
    proof (cases "t = c")
      case True
      with L Some mok show ?thesis by simp
    next
      case False
      with L Some obtain s1 where s1: "boosted m t (prio_of s c) s s1"
        and o: "s' = s1 \<or> wait_frame (MutexWait m) (insort_after (prio_of s1) c (qlists s1 (MutexWait m))) s1 s'"
        by (auto split: if_splits)
      have m1: "mutex_ok s1" by (rule mutex_ok_boosted [OF mok s1])
      have "owner (mutexes s1 m) \<noteq> None"
        using s1 Some restD(13) [OF reprioD(1)] by (auto simp: boosted_def split: if_splits)
      with o m1 mutex_ok_wait [OF m1] show ?thesis by auto
    qed
  qed
qed

lemma mutex_ok_unlock:
  assumes C: "calling i c s" and mok: "mutex_ok s"
  shows "wp (nd_mutex_unlock m s) (\<lambda>(e, s'). mutex_ok s')"
proof (rule wp_mono [OF nd_mutex_unlock_ok [OF assms, of m]], clarify)
  fix e s'
  assume U: "if owner (mutexes s m) \<noteq> Some c then e = ND_EPERM \<and> s' = s
           else case qlists s (MutexWait m) of
             [] \<Rightarrow> e = ND_EOK \<and> kernel_ok i s' \<and>
               s' = upd_mutex (\<lambda>x. x\<lparr>owner := None, mutex_priority := ND_THREAD_PRIORITY_MAX\<rparr>) m (released c m s)
           | w # L \<Rightarrow> e = ND_EOK \<and> kernel_ok i s' \<and> scheduled s' \<and> runnable (status s' w) \<and>
               error (threads s' w) = ND_EOK \<and> ThreadTimer w \<notin> set (rbtree s') \<and>
               wait_frame (MutexWait m) L (given m w (released c m s)) s'"
  note M = mutex_okD [OF mok]
  show "mutex_ok s'"
  proof (cases "owner (mutexes s m) = Some c")
    case False
    with U mok show ?thesis by simp
  next
    case own: True
    show ?thesis
    proof (cases "qlists s (MutexWait m)")
      case Nil
      with U own have s': "s' = upd_mutex (\<lambda>x. x\<lparr>owner := None, mutex_priority := ND_THREAD_PRIORITY_MAX\<rparr>) m
          (released c m s)" by simp
      show ?thesis unfolding mutex_ok_def s' using M own Nil by auto
    next
      case (Cons w L)
      with U own have wf: "wait_frame (MutexWait m) L (given m w (released c m s)) s'" by simp
      have "mutex_ok (given m w (released c m s))"
        unfolding mutex_ok_def given_def using M own Cons by auto
      then show ?thesis by (rule mutex_ok_wait [OF _ wf]) (simp add: given_def)
    qed
  qed
qed

lemma sample_mutex_ok: "mutex_ok (sample pt)"
  by (auto simp: mutex_ok_def sample_def sample_lists_def)

section \<open>Properties\<close>

text \<open>What a lock attempt of a thread of priority \<open>p\<close> does to mutex \<open>m\<close> and its owner \<open>t\<close>: the owner runs at the more urgent of
  the two priorities, and the mutex records \<open>p\<close> if that was a change.\<close>

definition inherits :: "nat \<Rightarrow> tid \<Rightarrow> nat \<Rightarrow> kstate \<Rightarrow> kstate \<Rightarrow> bool" where
  "inherits m t p s s' \<longleftrightarrow>
     (\<forall>u. prio_of s' u = (if u = t then min (prio_of s t) p else prio_of s u)) \<and>
     (\<forall>u. init_priority (threads s' u) = init_priority (threads s u)) \<and>
     (\<forall>k. mutexes s' k = (if k = m \<and> p < prio_of s t then (mutexes s m)\<lparr>mutex_priority := p\<rparr> else mutexes s k)) \<and>
     taken_list s' = taken_list s"

lemma boosted_inherits:
  assumes "boosted m t p s s1"
  shows "inherits m t p s s1 \<and> qlists s1 (MutexWait m) = qlists s (MutexWait m)"
  using assms restD(10,13) [of s1 "upd_mutex (mutex_priority_update (\<lambda>_. p)) m s"]
  by (auto simp: inherits_def boosted_def reprio_def min_def split: if_splits)

lemma inherits_waits:
  assumes b: "boosted m t p s s1"
    and wf: "wait_frame (MutexWait m) (insort_after (prio_of s1) c (qlists s1 (MutexWait m))) s1 s'"
  shows "inherits m t p s s' \<and> (\<exists>f. (\<forall>u. u \<noteq> t \<longrightarrow> f u = prio_of s u) \<and> f t = min (prio_of s t) p \<and>
       qlists s' (MutexWait m) = insort_after f c (qlists s (MutexWait m)))"
proof
  note I = conjunct1 [OF boosted_inherits [OF b]] conjunct2 [OF boosted_inherits [OF b]] and W = wait_frameD [OF wf]
  show "inherits m t p s s'" using I(1) W by (simp add: inherits_def)
  show "\<exists>f. (\<forall>u. u \<noteq> t \<longrightarrow> f u = prio_of s u) \<and> f t = min (prio_of s t) p \<and>
       qlists s' (MutexWait m) = insort_after f c (qlists s (MutexWait m))"
    by (rule exI [of _ "prio_of s1"]) (use W(11) [of "MutexWait m"] I in \<open>simp add: inherits_def\<close>)
qed

lemma lock_waits:
  assumes C: "calling i c s" and ci: "c \<noteq> i" and mok: "mutex_ok s"
    and t: "owner (mutexes s m) = Some t" "t \<noteq> c" and tmo: "tmo \<noteq> ND_TIMEOUT_NOWAIT"
  shows "wp (nd_mutex_lock m tmo s) (\<lambda>(r, s'). mutex_ok s' \<and> r = None \<and> kernel_ok i s' \<and> scheduled s' \<and>
           status s' c = ND_THREAD_STAT_BLOCK \<and> qhome s' c = Some (MutexWait m) \<and> inherits m t (prio_of s c) s s' \<and>
           (\<exists>f. (\<forall>u. u \<noteq> t \<longrightarrow> f u = prio_of s u) \<and> f t = min (prio_of s t) (prio_of s c) \<and>
              qlists s' (MutexWait m) = insort_after f c (qlists s (MutexWait m))))"
proof -
  obtain r s' where e: "nd_mutex_lock m tmo s = Some (r, s')"
    using mutex_ok_lock [OF C ci mok, of m tmo] by (auto simp: wp_iff)
  obtain s1 where s': "r = None" "kernel_ok i s'" "scheduled s'" "waits (MutexWait m) tmo c s1 s'"
    and b: "boosted m t (prio_of s c) s s1"
    and wf: "wait_frame (MutexWait m) (insort_after (prio_of s1) c (qlists s1 (MutexWait m))) s1 s'"
    using wpD [OF nd_mutex_lock_ok [OF C ci mok] e] t tmo by auto
  from inherits_waits [OF b wf] s' wpD [OF mutex_ok_lock [OF C ci mok] e] show ?thesis
    by (simp add: e waits_def)
qed

text \<open>The sample state with mutex 1 held by thread 4, which waits for mutex 0.\<close>

definition sample_nested :: "switch_kind \<Rightarrow> kstate" where
  "sample_nested pt = (sample pt)\<lparr>taken_list := (\<lambda>t. if t = 1 then [0] else if t = 4 then [1] else []),
     mutexes := (mutexes (sample pt))(1 := \<lparr>mutex_priority = 32, owner = Some 4, owner_home = Some 4\<rparr>)\<rparr>"

lemma sample_nested_calling: "calling 0 1 (sample_nested pt)"
proof -
  have "thread_ok (sample_nested pt) t" for t
    using sample_thread_ok [of pt t] by (simp add: thread_ok_def sample_nested_def)
  moreover have "base_ok (sample_nested pt)" using kernel_okD(4) [OF sample_ok [of pt]]
    by (simp add: base_ok_def lists_ok_def timers_ok_def bits_ok_def user_ok_def sample_nested_def)
  ultimately have "kernel_ok 0 (sample_nested pt)"
    using sample_ok [of pt] by (simp add: kernel_ok_def kinv_def cur_ok_def cur_link_def sample_nested_def)
  then show ?thesis using sample_calling [of pt] by (simp add: calling_def sample_nested_def)
qed

lemma sample_nested_mutex_ok: "mutex_ok (sample_nested pt)"
  by (auto simp: mutex_ok_def sample_nested_def sample_def sample_lists_def)

text \<open>C4: locking a mutex. A free mutex goes to the caller and joins its taken list; the owner gets \<open>ND_EDEADLK\<close>. Anybody
  else who waits blocks in the mutex's wait list, in priority order, and the owner inherits: it runs at the caller's priority if
  that is more urgent, which the mutex then records, while no other thread's priority, no base priority and no other mutex
  changes. A caller that does not wait gets \<open>ND_EBUSY\<close>, and the owner, the wait list and the taken lists stay as they are
  (priorities do not: \<open>mutex_trylock_boosts\<close>). Owners, taken lists and wait lists stay consistent.\<close>

theorem mutex_lock_correct:
  assumes C: "calling i c s" and ci: "c \<noteq> i" and mok: "mutex_ok s"
  shows "wp (nd_mutex_lock m tmo s) (\<lambda>(r, s'). mutex_ok s' \<and>
           (case owner (mutexes s m) of
              None \<Rightarrow> r = Some ND_EOK \<and> owner (mutexes s' m) = Some c \<and> taken_list s' c = m # taken_list s c \<and>
                mutex_priority (mutexes s' m) = mutex_priority (mutexes s m) \<and> threads s' = threads s
            | Some t \<Rightarrow> owner (mutexes s' m) = Some t \<and>
                (if t = c then r = Some ND_EDEADLK \<and> s' = s
                 else if tmo = ND_TIMEOUT_NOWAIT
                 then r = Some ND_EBUSY \<and> qlists s' (MutexWait m) = qlists s (MutexWait m) \<and> taken_list s' = taken_list s
                 else r = None \<and> kernel_ok i s' \<and> scheduled s' \<and> status s' c = ND_THREAD_STAT_BLOCK \<and>
                   qhome s' c = Some (MutexWait m) \<and>
                   prio_of s' t = min (prio_of s t) (prio_of s c) \<and> (\<forall>u. u \<noteq> t \<longrightarrow> prio_of s' u = prio_of s u) \<and>
                   (\<forall>u. init_priority (threads s' u) = init_priority (threads s u)) \<and>
                   mutex_priority (mutexes s' m) =
                     (if prio_of s c < prio_of s t then prio_of s c else mutex_priority (mutexes s m)) \<and>
                   (\<forall>k. k \<noteq> m \<longrightarrow> mutexes s' k = mutexes s k) \<and>
                   (\<exists>f. (\<forall>u. u \<noteq> t \<longrightarrow> f u = prio_of s u) \<and> f t = min (prio_of s t) (prio_of s c) \<and>
                     qlists s' (MutexWait m) = insort_after f c (qlists s (MutexWait m))))))"
proof -
  note post = wp_pair_conj [OF mutex_ok_lock [OF C ci mok, of m tmo] nd_mutex_lock_ok [OF C ci mok, of m tmo]]
  show ?thesis
  proof (cases "owner (mutexes s m)")
    case None
    then show ?thesis by (intro wp_pair_mono [OF post]) simp
  next
    case (Some t)
    show ?thesis
    proof (cases "t = c \<or> tmo = ND_TIMEOUT_NOWAIT")
      case True
      with Some show ?thesis
        by (intro wp_pair_mono [OF post]) (auto simp: inherits_def dest!: boosted_inherits)
    next
      case False
      then have f: "t \<noteq> c" "tmo \<noteq> ND_TIMEOUT_NOWAIT" by simp_all
      show ?thesis
        by (rule wp_pair_mono [OF lock_waits [OF C ci mok Some f]]) (use Some f in \<open>simp add: inherits_def\<close>)
    qed
  qed
qed

theorem mutex_lock_witness:
  "wp (nd_mutex_lock 1 0 (sample SwitchDeferred)) (\<lambda>(r, s'). r = Some ND_EOK \<and> taken_list s' 1 = [1, 0]) \<and>
   wp (nd_mutex_lock 1 5 (sample_nested SwitchDeferred)) (\<lambda>(r, s'). r = None \<and> prio_of s' 4 = 10 \<and>
     mutex_priority (mutexes s' 1) = 10 \<and> qlists s' (MutexWait 1) = [1])"
proof
  show "wp (nd_mutex_lock 1 0 (sample SwitchDeferred)) (\<lambda>(r, s'). r = Some ND_EOK \<and> taken_list s' 1 = [1, 0])"
    by (rule wp_pair_mono [OF mutex_lock_correct [OF sample_calling _ sample_mutex_ok]])
      (auto simp: sample_def)
  show "wp (nd_mutex_lock 1 5 (sample_nested SwitchDeferred)) (\<lambda>(r, s'). r = None \<and> prio_of s' 4 = 10 \<and>
     mutex_priority (mutexes s' 1) = 10 \<and> qlists s' (MutexWait 1) = [1])"
    by (rule wp_pair_mono [OF mutex_lock_correct [OF sample_nested_calling _ sample_nested_mutex_ok]])
      (auto simp: ND_TIMEOUT_NOWAIT_def sample_nested_def sample_def sample_lists_def sample_threads_def sample_thread_def)
qed

text \<open>An attempt to lock without waiting changes priorities. The caller of a mutex that a less urgent thread owns gets
  \<open>ND_EBUSY\<close> and nobody waits, but the owner is left at the caller's priority, which the mutex records.
  (\<^verbatim>\<open>doc/ipc.md\<close> has the owner inherit only when a thread is really blocked: the code raises the priority before it
  looks at the timeout.)\<close>

theorem mutex_trylock_boosts:
  assumes C: "calling i c s" and ci: "c \<noteq> i" and mok: "mutex_ok s"
    and t: "owner (mutexes s m) = Some t" "t \<noteq> c" and p: "prio_of s c < prio_of s t"
  shows "wp (nd_mutex_lock m ND_TIMEOUT_NOWAIT s) (\<lambda>(r, s'). r = Some ND_EBUSY \<and> calling i c s' \<and>
           qlists s' (MutexWait m) = qlists s (MutexWait m) \<and> owner (mutexes s' m) = Some t \<and>
           prio_of s' t = prio_of s c \<and> init_priority (threads s' t) = init_priority (threads s t) \<and>
           mutex_priority (mutexes s' m) = prio_of s c)"
  by (rule wp_pair_mono [OF nd_mutex_lock_ok [OF C ci mok]])
    (use t p in \<open>auto simp: inherits_def dest!: boosted_inherits\<close>)

theorem mutex_trylock_boosts_witness:
  "wp (nd_mutex_lock 1 ND_TIMEOUT_NOWAIT (sample_nested SwitchImmediate)) (\<lambda>(r, s'). r = Some ND_EBUSY \<and>
     prio_of s' 4 = 10 \<and> qlists s' (MutexWait 1) = [])"
  by (rule wp_pair_mono [OF mutex_trylock_boosts [OF sample_nested_calling _ sample_nested_mutex_ok]])
    (auto simp: sample_nested_def sample_def sample_lists_def sample_threads_def sample_thread_def)

text \<open>C5: unlocking a mutex. Only the owner may; otherwise nothing changes. The owner falls back to the
  most urgent of its own priority and the priorities recorded in the mutexes it still holds. The
  mutex goes to the first waiter, which is woken with \<open>ND_EOK\<close> and has the mutex in its taken list,
  or becomes free if nobody waits.\<close>

theorem mutex_unlock_correct:
  assumes C: "calling i c s" and mok: "mutex_ok s"
  shows "wp (nd_mutex_unlock m s) (\<lambda>(e, s'). mutex_ok s' \<and>
           (if owner (mutexes s m) \<noteq> Some c then e = ND_EPERM \<and> s' = s
            else e = ND_EOK \<and> kernel_ok i s' \<and>
              prio_of s' c = Min (insert (init_priority (threads s c))
                ((\<lambda>k. mutex_priority (mutexes s k)) ` (set (taken_list s c) - {m}))) \<and>
              (case qlists s (MutexWait m) of
                 [] \<Rightarrow> owner (mutexes s' m) = None
               | w # L \<Rightarrow> owner (mutexes s' m) = Some w \<and> qlists s' (MutexWait m) = L \<and> scheduled s' \<and>
                   runnable (status s' w) \<and> error (threads s' w) = ND_EOK \<and> ThreadTimer w \<notin> set (rbtree s'))))"
proof (rule wp_pair_mono [OF wp_pair_conj [OF mutex_ok_unlock [OF C mok] nd_mutex_unlock_ok [OF C mok]]], elim conjE)
  fix e s'
  assume mok': "mutex_ok s'"
    and post: "if owner (mutexes s m) \<noteq> Some c then e = ND_EPERM \<and> s' = s
           else case qlists s (MutexWait m) of
             [] \<Rightarrow> e = ND_EOK \<and> kernel_ok i s' \<and>
               s' = upd_mutex (\<lambda>x. x\<lparr>owner := None, mutex_priority := ND_THREAD_PRIORITY_MAX\<rparr>) m (released c m s)
           | w # L \<Rightarrow> e = ND_EOK \<and> kernel_ok i s' \<and> scheduled s' \<and> runnable (status s' w) \<and>
               error (threads s' w) = ND_EOK \<and> ThreadTimer w \<notin> set (rbtree s') \<and>
               wait_frame (MutexWait m) L (given m w (released c m s)) s'"
  have p: "prio_of (released c m s) c = Min (insert (init_priority (threads s c))
                ((\<lambda>k. mutex_priority (mutexes s k)) ` (set (taken_list s c) - {m})))"
    using mutex_okD(3) [OF mok, of c] by (simp add: restored_priority_eq)
  have g: "prio_of (given m w s1) u = prio_of s1 u" "owner (mutexes (given m w s1) m) = Some w" for w s1 u
    by (simp_all add: given_def)
  show "mutex_ok s' \<and>
           (if owner (mutexes s m) \<noteq> Some c then e = ND_EPERM \<and> s' = s
            else e = ND_EOK \<and> kernel_ok i s' \<and>
              prio_of s' c = Min (insert (init_priority (threads s c))
                ((\<lambda>k. mutex_priority (mutexes s k)) ` (set (taken_list s c) - {m}))) \<and>
              (case qlists s (MutexWait m) of
                 [] \<Rightarrow> owner (mutexes s' m) = None
               | w # L \<Rightarrow> owner (mutexes s' m) = Some w \<and> qlists s' (MutexWait m) = L \<and> scheduled s' \<and>
                   runnable (status s' w) \<and> error (threads s' w) = ND_EOK \<and> ThreadTimer w \<notin> set (rbtree s')))"
  proof (cases "qlists s (MutexWait m)")
    case Nil
    with mok' post p show ?thesis by auto
  next
    case (Cons w L)
    show ?thesis
    proof (cases "owner (mutexes s m) = Some c")
      case True
      with post Cons have wf: "wait_frame (MutexWait m) L (given m w (released c m s)) s'" by simp
      from mok' post Cons True p g wait_frameD(2,11,14) [OF wf] show ?thesis by simp
    next
      case False
      with mok' post show ?thesis by simp
    qed
  qed
qed

theorem mutex_unlock_witness:
  "wp (nd_mutex_unlock 0 (sample SwitchDeferred)) (\<lambda>(e, s'). e = ND_EOK \<and> owner (mutexes s' 0) = Some 4 \<and>
     prio_of s' 1 = 10 \<and> runnable (status s' 4))"
  by (rule wp_pair_mono [OF mutex_unlock_correct [OF sample_calling sample_mutex_ok]])
    (auto simp: sample_def sample_lists_def sample_threads_def sample_thread_def)

end
