(* ===== verification/Nd_Event.thy ===== *)
theory Nd_Event
  imports Nd_Thread
begin

text \<open>
  \<^verbatim>\<open>kernel/nd_event.c\<close>: event groups. The flags are kept in 64 bits, the masks of the API in 32;
  \<open>ucast\<close> is the conversion C makes.
\<close>

definition nd_event_init :: "nat \<Rightarrow> kstate \<Rightarrow> kstate option" where
  "nd_event_init e s = q_init (EventWait e) (upd_event (event_flags_update (\<lambda>_. 0)) e s)"

definition nd_event_is_satisfied :: "u32 \<Rightarrow> u32 \<Rightarrow> nd_event_opt \<Rightarrow> bool" where
  "nd_event_is_satisfied flags wanted opt =
     (if opt = ND_EVENT_AND \<and> flags AND wanted = wanted then True
      else if opt = ND_EVENT_OR \<and> flags AND wanted \<noteq> 0 then True
      else False)"

definition nd_event_wakeup :: "tid \<Rightarrow> kstate \<Rightarrow> kstate option" where
  "nd_event_wakeup t s = do {
     s1 \<leftarrow> q_remove t s;
     s2 \<leftarrow> timer_stop (ThreadTimer t) s1;
     nd_thread_ready_add_tail t (upd_thread (stat_update (\<lambda>_. ND_THREAD_STAT_READY)) t s2)
   }"

text \<open>\<open>flags &= ~wanted\<close>, the complement taken in 32 bits and widened.\<close>

definition event_clear :: "u32 \<Rightarrow> nat \<Rightarrow> kstate \<Rightarrow> kstate" where
  "event_clear wanted e s = upd_event (\<lambda>x. x\<lparr>event_flags := event_flags x AND ucast (NOT wanted)\<rparr>) e s"

text \<open>The safe iteration saves the successor before the body may unlink the node: it visits the
  list as it was.\<close>

fun event_send_loop :: "nat \<Rightarrow> tid list \<Rightarrow> kstate \<Rightarrow> kstate option" where
  "event_send_loop e [] s = Some s"
| "event_send_loop e (t # ts) s =
     (let th = threads s t in
      if nd_event_is_satisfied (ucast (event_flags (events s e))) (event_set th) (event_opt th)
      then do {
        s1 \<leftarrow> nd_event_wakeup t (event_clear (event_set th) e s);
        event_send_loop e ts s1
      }
      else event_send_loop e ts s)"

definition nd_event_send :: "nat \<Rightarrow> u32 \<Rightarrow> kstate \<Rightarrow> (nd_err \<times> kstate) option" where
  "nd_event_send e wanted s = do {
     let s1 = upd_event (\<lambda>x. x\<lparr>event_flags := event_flags x OR ucast wanted\<rparr>) e s;
     s2 \<leftarrow> event_send_loop e (qlists s1 (EventWait e)) s1;
     s3 \<leftarrow> nd_scheduler s2;
     Some (ND_EOK, s3)
   }"

definition nd_event_recv ::
  "nat \<Rightarrow> u32 \<Rightarrow> nd_event_opt \<Rightarrow> u64 \<Rightarrow> kstate \<Rightarrow> (nd_err option \<times> kstate) option" where
  "nd_event_recv e wanted opt tmo s = do {
     c \<leftarrow> nd_current_thread s;
     let s1 = upd_thread (\<lambda>th. th\<lparr>event_set := wanted, event_opt := opt\<rparr>) c s;
     if nd_event_is_satisfied (ucast (event_flags (events s1 e))) wanted opt
     then Some (Some ND_EOK, event_clear wanted e s1)
     else if tmo = ND_TIMEOUT_NOWAIT then Some (Some ND_EBUSY, s1)
     else do {
       s2 \<leftarrow> nd_thread_pend (EventWait e) tmo s1;
       s3 \<leftarrow> nd_scheduler s2;
       Some (None, s3)
     }
   }"

section \<open>Waiting for events\<close>

text \<open>No thread waits for events that are there.\<close>

definition event_ok :: "kstate \<Rightarrow> bool" where
  "event_ok s \<longleftrightarrow> (\<forall>e t. t \<in> set (qlists s (EventWait e)) \<longrightarrow>
     \<not> nd_event_is_satisfied (ucast (event_flags (events s e))) (event_set (threads s t)) (event_opt (threads s t)))"

lemma event_ok_sync:
  assumes "event_ok s" and "sync_frame s s'"
  shows "event_ok s'"
  unfolding event_ok_def
proof (intro allI impI)
  fix e t assume t: "t \<in> set (qlists s' (EventWait e))"
  then have "t \<in> set (qlists s (EventWait e))" using sync_frameD(11) [OF assms(2), of "EventWait e"] by auto
  with assms(1) show "\<not> nd_event_is_satisfied (ucast (event_flags (events s' e)))
      (event_set (threads s' t)) (event_opt (threads s' t))"
    using sync_frameD(12,13) [OF assms(2) t] by (simp add: event_ok_def sync_frameD(3) [OF assms(2)])
qed

text \<open>Clearing flags satisfies nobody.\<close>

lemma satisfied_mono:
  assumes "nd_event_is_satisfied (ucast (f AND g :: u64)) w opt"
  shows "nd_event_is_satisfied (ucast f) w opt"
proof (cases opt)
  case ND_EVENT_AND
  with assms have a: "ucast (f AND g) AND w = w" by (simp add: nd_event_is_satisfied_def split: if_splits)
  have "(ucast f AND w :: u32) = w"
  proof (rule bit_eqI)
    fix n
    show "bit (ucast f AND w :: u32) n = bit w n"
      using arg_cong [OF a, of "\<lambda>x. bit x n"] by (auto simp: bit_and_iff bit_ucast_iff)
  qed
  with ND_EVENT_AND show ?thesis by (simp add: nd_event_is_satisfied_def)
next
  case ND_EVENT_OR
  with assms have a: "ucast (f AND g) AND w \<noteq> 0" by (simp add: nd_event_is_satisfied_def split: if_splits)
  have "(ucast f AND w :: u32) \<noteq> 0"
  proof
    assume z: "(ucast f AND w :: u32) = 0"
    have "ucast (f AND g) AND w = 0"
    proof (rule bit_eqI)
      fix n
      show "bit (ucast (f AND g) AND w) n = bit (0 :: u32) n"
        using arg_cong [OF z, of "\<lambda>x. bit x n"] by (auto simp: bit_and_iff bit_ucast_iff)
    qed
    with a show False by simp
  qed
  with ND_EVENT_OR show ?thesis by (simp add: nd_event_is_satisfied_def)
qed

lemma upd_event_sel [simp]:
  "threads (upd_event f e s) = threads s" "kinv X (upd_event f e s) = kinv X s"
  "kernel_ok i (upd_event f e s) = kernel_ok i s" "scheduled (upd_event f e s) = scheduled s"
  "qlists (upd_event f e s) = qlists s" "qhome (upd_event f e s) = qhome s"
  "events (upd_event f e s) = (events s)(e := f (events s e))"
  "cur_link (upd_event f e s) = cur_link s" "rbtree (upd_event f e s) = rbtree s"
  "timers (upd_event f e s) = timers s" "mutexes (upd_event f e s) = mutexes s"
  "sems (upd_event f e s) = sems s" "taken_list (upd_event f e s) = taken_list s"
  by (simp_all add: upd_event_def cur_link_def cong: if_cong)

lemma kinv_upd_fields:
  assumes k: "kinv X s" and "stat (f (threads s t)) = status s t" "priority (f (threads s t)) = prio_of s t"
    "init_priority (f (threads s t)) = init_priority (threads s t)"
    "time_slice (f (threads s t)) = time_slice (threads s t)"
  shows "kinv X (upd_thread f t s)"
proof -
  have "thread_ok (upd_thread f t s) u = thread_ok s u" for u
    using assms(2-5) by (cases "u = t") (simp_all add: thread_ok_def home_ok_def timer_ok_def slice_ok_def cong: option.case_cong list_head.case_cong)
  with k show ?thesis by (simp add: kinv_def)
qed

lemma event_ok_clear:
  assumes "event_ok s"
  shows "event_ok (event_clear w e s)"
  unfolding event_ok_def
proof (intro allI impI notI)
  fix j t
  assume t: "t \<in> set (qlists (event_clear w e s) (EventWait j))"
    and sat: "nd_event_is_satisfied (ucast (event_flags (events (event_clear w e s) j)))
      (event_set (threads (event_clear w e s) t)) (event_opt (threads (event_clear w e s) t))"
  have "nd_event_is_satisfied (ucast (event_flags (events s j))) (event_set (threads s t)) (event_opt (threads s t))"
  proof (cases "j = e")
    case True
    with sat show ?thesis by (simp add: event_clear_def) (erule satisfied_mono)
  next
    case False
    with sat show ?thesis by (simp add: event_clear_def)
  qed
  with t assms show False by (simp add: event_ok_def event_clear_def)
qed

text \<open>The caller records what it waits for.\<close>

definition asking :: "tid \<Rightarrow> u32 \<Rightarrow> nd_event_opt \<Rightarrow> kstate \<Rightarrow> kstate" where
  "asking c wanted opt s = upd_thread (\<lambda>th. th\<lparr>event_set := wanted, event_opt := opt\<rparr>) c s"

lemma asking_ok:
  assumes C: "calling i c s"
  shows "calling i c (asking c wanted opt s)" and "scheduled s \<Longrightarrow> scheduled (asking c wanted opt s)"
proof -
  have k: "kinv {} (asking c wanted opt s)" unfolding asking_def
    by (rule kinv_upd_fields [OF callingD(7) [OF C]]) simp_all
  have st: "status (asking c wanted opt s) t = status s t" for t by (simp add: asking_def)
  have "cur_link (asking c wanted opt s) = cur_link s"
    by (rule cur_link_status) (simp_all add: asking_def)
  with k callingD [OF C] show "calling i c (asking c wanted opt s)"
    by (simp add: calling_def kernel_ok_def cur_ok_def st) (simp add: asking_def)
  have "highest (asking c wanted opt s) n = highest s n" for n by (auto simp: highest_def asking_def)
  then show "scheduled s \<Longrightarrow> scheduled (asking c wanted opt s)"
    using callingD(2,4) [OF C] by (auto simp: scheduled_def st) (auto simp: asking_def)
qed

lemma nd_event_recv_ok:
  assumes C: "calling i c s" and "c \<noteq> i"
  shows "wp (nd_event_recv e wanted opt tmo s) (\<lambda>(r, s').
           if nd_event_is_satisfied (ucast (event_flags (events s e))) wanted opt
           then r = Some ND_EOK \<and> s' = event_clear wanted e (asking c wanted opt s)
           else if tmo = ND_TIMEOUT_NOWAIT then r = Some ND_EBUSY \<and> s' = asking c wanted opt s
           else r = None \<and> kernel_ok i s' \<and> scheduled s' \<and>
             waits (EventWait e) tmo c (asking c wanted opt s) s' \<and>
             wait_frame (EventWait e) (insort_after (prio_of s) c (qlists s (EventWait e)))
               (asking c wanted opt s) s')"
proof -
  have s1: "upd_thread (\<lambda>th. th\<lparr>event_set := wanted, event_opt := opt\<rparr>) c s = asking c wanted opt s"
    by (simp add: asking_def)
  have ev: "events (asking c wanted opt s) = events s" "qlists (asking c wanted opt s) = qlists s"
    "prio_of (asking c wanted opt s) t = prio_of s t" for t by (simp_all add: asking_def)
  have p: "prio_of (asking c wanted opt s) = prio_of s" by (rule ext) (rule ev(3))
  show ?thesis
    using pend_then_schedule [OF asking_ok(1) [OF C] assms(2), of "EventWait e" tmo wanted opt] callingD(2) [OF C]
    by (simp add: nd_event_recv_def Let_def s1 ev p)
qed

lemma event_ok_recv:
  assumes C: "calling i c s" and "c \<noteq> i" and ok: "event_ok s"
  shows "wp (nd_event_recv e wanted opt tmo s) (\<lambda>(r, s'). event_ok s')"
proof -
  have cw: "c \<notin> set (qlists s (EventWait j))" for j
    using waiting_home(2) [OF callingD(7) [OF C], of c "EventWait j"] callingD(6) [OF C] by auto
  have ask: "event_ok (asking c wanted opt s)"
    using ok cw by (auto simp: event_ok_def asking_def)
  have clr: "event_ok (event_clear wanted e (asking c wanted opt s))"
    by (rule event_ok_clear [OF ask])
  show ?thesis
  proof (rule wp_mono [OF nd_event_recv_ok [OF assms(1,2), of e wanted opt tmo]], clarify)
    fix r s'
    assume R: "if nd_event_is_satisfied (ucast (event_flags (events s e))) wanted opt
           then r = Some ND_EOK \<and> s' = event_clear wanted e (asking c wanted opt s)
           else if tmo = ND_TIMEOUT_NOWAIT then r = Some ND_EBUSY \<and> s' = asking c wanted opt s
           else r = None \<and> kernel_ok i s' \<and> scheduled s' \<and>
             waits (EventWait e) tmo c (asking c wanted opt s) s' \<and>
             wait_frame (EventWait e) (insort_after (prio_of s) c (qlists s (EventWait e)))
               (asking c wanted opt s) s'"
    show "event_ok s'"
    proof (cases "nd_event_is_satisfied (ucast (event_flags (events s e))) wanted opt \<or> tmo = ND_TIMEOUT_NOWAIT")
      case True
      with R clr ask show ?thesis by (auto split: if_splits)
    next
      case False
      with R have wf: "wait_frame (EventWait e) (insort_after (prio_of s) c (qlists s (EventWait e)))
               (asking c wanted opt s) s'" by simp
      note W = wait_frameD [OF wf]
      show ?thesis unfolding event_ok_def
      proof (intro allI impI)
        fix j t assume t: "t \<in> set (qlists s' (EventWait j))"
        show "\<not> nd_event_is_satisfied (ucast (event_flags (events s' j)))
            (event_set (threads s' t)) (event_opt (threads s' t))"
        proof (cases "j = e \<and> t = c")
          case True
          with False show ?thesis by (simp add: W) (simp add: asking_def)
        next
          case nc: False
          have "t \<in> set (qlists s (EventWait j))" using t nc W(11) [of "EventWait j"] by (auto simp: asking_def split: if_splits)
          with ask show ?thesis by (simp add: W event_ok_def) (simp add: asking_def)
        qed
      qed
    qed
  qed
qed


section \<open>Sending events\<close>

text \<open>What a send should do, as a function of the flags and the waiting threads in order: each one
  that is satisfied at its turn is served and consumes its flags.\<close>

fun serve :: "u64 \<Rightarrow> (tid \<Rightarrow> u32) \<Rightarrow> (tid \<Rightarrow> nd_event_opt) \<Rightarrow> tid list \<Rightarrow> u64 \<times> tid list" where
  "serve f w opt [] = (f, [])"
| "serve f w opt (t # ts) =
     (if nd_event_is_satisfied (ucast f) (w t) (opt t)
      then (case serve (f AND ucast (NOT (w t))) w opt ts of (f', ss) \<Rightarrow> (f', t # ss))
      else serve f w opt ts)"

lemma serve_subset: "set (snd (serve f w opt ts)) \<subseteq> set ts"
  by (induction f w opt ts rule: serve.induct) (auto split: prod.splits)

lemma serve_cong:
  "(\<And>t. t \<in> set ts \<Longrightarrow> w t = w' t \<and> opt t = opt' t) \<Longrightarrow> serve f w opt ts = serve f w' opt' ts"
  by (induction f w opt ts rule: serve.induct) (auto split: prod.splits)

text \<open>The flags only shrink while threads are served.\<close>

lemma serve_shrinks: "\<exists>g. fst (serve f w opt ts) = f AND g"
proof (induction f w opt ts rule: serve.induct)
  case (1 f w opt)
  show ?case by (intro exI [of _ "- 1"]) simp
next
  case (2 f w opt t ts)
  show ?case
  proof (cases "nd_event_is_satisfied (ucast f) (w t) (opt t)")
    case True
    from 2(1) [OF True] obtain g where "fst (serve (f AND ucast (NOT (w t))) w opt ts) = (f AND ucast (NOT (w t))) AND g"
      by blast
    with True show ?thesis
      by (auto simp: and.assoc split: prod.splits intro!: exI [of _ "ucast (NOT (w t)) AND g"])
  next
    case False
    with 2(2) [OF False] show ?thesis by simp
  qed
qed

text \<open>Nobody who was left out is satisfied in the end.\<close>

lemma serve_unsatisfied:
  assumes "t \<in> set ts" and "t \<notin> set (snd (serve f w opt ts))"
  shows "\<not> nd_event_is_satisfied (ucast (fst (serve f w opt ts))) (w t) (opt t)"
  using assms
proof (induction f w opt ts rule: serve.induct)
  case (2 f w opt u ts)
  show ?case
  proof (cases "nd_event_is_satisfied (ucast f) (w u) (opt u)")
    case True
    with 2 show ?thesis by (auto split: prod.splits)
  next
    case False
    show ?thesis
    proof (cases "t \<in> set ts")
      case True
      with 2(2) [OF False] 2(4) False show ?thesis by simp
    next
      case t: False
      obtain g where g: "fst (serve f w opt ts) = f AND g" using serve_shrinks by blast
      show ?thesis
      proof
        assume "nd_event_is_satisfied (ucast (fst (serve f w opt (u # ts)))) (w t) (opt t)"
        then have "nd_event_is_satisfied (ucast (f AND g)) (w t) (opt t)" using False g by simp
        then have "nd_event_is_satisfied (ucast f) (w t) (opt t)" by (rule satisfied_mono)
        with False t 2(3) show False by simp
      qed
    qed
  qed
qed simp

lemma nd_event_wakeup_ok:
  assumes k: "kinv {} s" and link: "cur_link s" and idle: "runnable (status s i)"
    and q: "t \<in> set (qlists s (EventWait e))"
  shows "wp (nd_event_wakeup t s) (\<lambda>s'. kinv {} s' \<and> cur_link s' \<and> runnable (status s' i) \<and> rest s' = rest s \<and>
           threads s' = (threads s)(t := (threads s t)\<lparr>stat := ND_THREAD_STAT_READY\<rparr>) \<and>
           (\<forall>j. \<not> is_ready j \<longrightarrow> qlists s' j = remove1 t (qlists s j)))"
proof -
  let ?g = "stat_update (\<lambda>_. ND_THREAD_STAT_READY)"
  note h = waiting_home [OF k q is_ready_simps(5)]
  have st: "static_ok s t" by (rule thread_ok_static [OF kinvD(2) [OF k]]) (simp_all add: h alive_def)
  have def': "nd_event_wakeup t s = do { s2 \<leftarrow> unwait t s; nd_thread_ready_add_tail t (upd_thread ?g t s2) }"
    using h by (simp add: nd_event_wakeup_def unwait_def q_is_linked_def)
  show ?thesis unfolding def' wp_bind
  proof (rule wp_mono [OF unwait_ok [OF kinv_mono [OF k] st]], simp, simp add: h, elim conjE)
    fix s2
    assume s2: "kinv {t} s2" "settled s2 t" "qhome s2 t = None" "rest s2 = rest s" "threads s2 = threads s"
      "sync_frame s s2" "\<forall>j. \<not> is_ready j \<longrightarrow> qlists s2 j = remove1 t (qlists s j)"
    let ?s3 = "upd_thread ?g t s2"
    have k3: "kinv {t} ?s3" by (rule kinv_upd_thread [OF s2(1)])
    have r3: "readying ?s3 t" using s2(2,3) by (simp add: readying_iff)
    have rest3: "rest ?s3 = rest s" by (simp add: s2(4))
    have link3: "cur_link ?s3" by (rule cur_link_ready [OF link rest3, of t]) (simp_all add: s2(5))
    show "wp (nd_thread_ready_add_tail t ?s3) (\<lambda>s'. kinv {} s' \<and> cur_link s' \<and> runnable (status s' i) \<and>
           rest s' = rest s \<and>
           threads s' = (threads s)(t := (threads s t)\<lparr>stat := ND_THREAD_STAT_READY\<rparr>) \<and>
           (\<forall>j. \<not> is_ready j \<longrightarrow> qlists s' j = remove1 t (qlists s j)))"
    proof (rule wp_mono [OF ready_add_ok(1) [OF k3 r3 refl]], elim conjE)
      fix s' assume k': "kinv {} s'" and rel: "relinked t (Some (ReadyList (prio_of ?s3 t)))
        (ReadyList (prio_of ?s3 t)) (qlists ?s3 (ReadyList (prio_of ?s3 t)) @ [t]) ?s3 s'"
      note R = relinkedD [OF rel]
      have l': "cur_link s'" by (rule cur_link_threads [OF link3 R(1)]) (simp add: R)
      have i': "runnable (status s' i)" using idle by (cases "i = t") (simp_all add: R s2(5))
      show "kinv {} s' \<and> cur_link s' \<and> runnable (status s' i) \<and> rest s' = rest s \<and>
           threads s' = (threads s)(t := (threads s t)\<lparr>stat := ND_THREAD_STAT_READY\<rparr>) \<and>
           (\<forall>j. \<not> is_ready j \<longrightarrow> qlists s' j = remove1 t (qlists s j))"
        using k' l' i' s2(4,5,7) by (auto simp: R)
    qed
  qed
qed


lemma remove1_filter: "distinct xs \<Longrightarrow> remove1 x xs = filter (\<lambda>y. y \<noteq> x) xs"
  by (induction xs) (auto simp: filter_id_conv)

definition wants :: "kstate \<Rightarrow> tid \<Rightarrow> u32" where
  "wants s t = event_set (threads s t)"

definition mode :: "kstate \<Rightarrow> tid \<Rightarrow> nd_event_opt" where
  "mode s t = event_opt (threads s t)"

definition flags :: "kstate \<Rightarrow> nat \<Rightarrow> u64" where
  "flags s e = event_flags (events s e)"

text \<open>The threads \<open>ss\<close> were served, and the flags left are \<open>f\<close>.\<close>

definition served :: "nat \<Rightarrow> u64 \<Rightarrow> tid list \<Rightarrow> kstate \<Rightarrow> kstate \<Rightarrow> bool" where
  "served e f ss s s' \<longleftrightarrow>
     events s' = (events s)(e := (events s e)\<lparr>event_flags := f\<rparr>) \<and>
     rest (s'\<lparr>events := events s\<rparr>) = rest s \<and>
     (\<forall>t. threads s' t = (if t \<in> set ss then (threads s t)\<lparr>stat := ND_THREAD_STAT_READY\<rparr> else threads s t)) \<and>
     (\<forall>j. \<not> is_ready j \<longrightarrow> qlists s' j = filter (\<lambda>t. t \<notin> set ss) (qlists s j))"

lemma rest_events: "rest (s\<lparr>events := x\<rparr>) = (rest s)\<lparr>events := x\<rparr>"
  by (simp add: rest_def)

lemma rest_events_swap:
  assumes "rest (s'\<lparr>events := x\<rparr>) = rest (s\<lparr>events := x\<rparr>)"
  shows "rest (s'\<lparr>events := y\<rparr>) = rest (s\<lparr>events := y\<rparr>)"
proof -
  have "(rest (s'\<lparr>events := x\<rparr>))\<lparr>events := y\<rparr> = (rest (s\<lparr>events := x\<rparr>))\<lparr>events := y\<rparr>"
    by (simp only: assms)
  then show ?thesis by (simp add: rest_events)
qed

lemma event_send_loop_ok:
  assumes "kinv {} s" and "cur_link s" and "runnable (status s i)"
    and "set ts \<subseteq> set (qlists s (EventWait e))" and "distinct ts"
  shows "wp (event_send_loop e ts s) (\<lambda>s'. kinv {} s' \<and> cur_link s' \<and> runnable (status s' i) \<and>
           served e (fst (serve (flags s e) (wants s) (mode s) ts))
             (snd (serve (flags s e) (wants s) (mode s) ts)) s s')"
  using assms
proof (induction ts arbitrary: s)
  case Nil
  then show ?case by (simp add: served_def flags_def)
next
  case (Cons t ts)
  let ?sat = "nd_event_is_satisfied (ucast (flags s e)) (wants s t) (mode s t)"
  show ?case
  proof (cases ?sat)
    case False
    have sub: "set ts \<subseteq> set (qlists s (EventWait e))" "distinct ts" using Cons.prems by simp_all
    from Cons.IH [OF Cons.prems(1-3) sub] False show ?thesis
      by (simp add: flags_def wants_def mode_def)
  next
    case True
    let ?s0 = "event_clear (event_set (threads s t)) e s"
    let ?f1 = "flags s e AND ucast (NOT (wants s t))"
    let ?ss = "snd (serve ?f1 (wants s) (mode s) ts)" and ?ff = "fst (serve ?f1 (wants s) (mode s) ts)"
    have def': "event_send_loop e (t # ts) s = do { s1 \<leftarrow> nd_event_wakeup t ?s0; event_send_loop e ts s1 }"
      using True by (simp add: flags_def wants_def mode_def Let_def)
    have sv: "serve (flags s e) (wants s) (mode s) (t # ts) = (?ff, t # ?ss)"
      using True by (simp split: prod.split)
    have c0: "kinv {} ?s0" "cur_link ?s0" "runnable (status ?s0 i)" "t \<in> set (qlists ?s0 (EventWait e))"
      using Cons.prems by (simp_all add: event_clear_def)
    show ?thesis unfolding def' sv fst_conv snd_conv wp_bind
    proof (rule wp_mono [OF nd_event_wakeup_ok [OF c0]], elim conjE)
      fix s1
      assume s1: "kinv {} s1" "cur_link s1" "runnable (status s1 i)" "rest s1 = rest ?s0"
        "threads s1 = (threads ?s0)(t := (threads ?s0 t)\<lparr>stat := ND_THREAD_STAT_READY\<rparr>)"
        "\<forall>j. \<not> is_ready j \<longrightarrow> qlists s1 j = remove1 t (qlists ?s0 j)"
      have ev: "events s1 = (events s)(e := (events s e)\<lparr>event_flags := ?f1\<rparr>)"
        using restD(14) [OF s1(4)] by (simp add: event_clear_def flags_def wants_def)
      have th: "threads s1 = (threads s)(t := (threads s t)\<lparr>stat := ND_THREAD_STAT_READY\<rparr>)"
        using s1(5) by (simp add: event_clear_def)
      have w: "wants s1 = wants s" "mode s1 = mode s" "flags s1 e = ?f1"
        by (auto simp: wants_def mode_def flags_def th ev)
      have ql: "qlists s1 j = filter (\<lambda>x. x \<noteq> t) (qlists s j)" if "\<not> is_ready j" for j
        using s1(6) that lists_okD(2) [OF base_ok_lists [OF kinvD(1) [OF Cons.prems(1)]], of j]
        using remove1_filter by (simp add: event_clear_def)
      have sub: "set ts \<subseteq> set (qlists s1 (EventWait e))" "distinct ts"
        using Cons.prems(4,5) ql [of "EventWait e"] by auto
      show "wp (event_send_loop e ts s1) (\<lambda>s'. kinv {} s' \<and> cur_link s' \<and> runnable (status s' i) \<and>
          served e ?ff (t # ?ss) s s')"
      proof (rule wp_mono [OF Cons.IH [OF s1(1-3) sub, unfolded w]], elim conjE)
        fix s' assume s': "kinv {} s'" "cur_link s'" "runnable (status s' i)" "served e ?ff ?ss s1 s'"
        have r: "rest (s'\<lparr>events := events s\<rparr>) = rest s"
        proof -
          have s1e: "s1\<lparr>events := events s1\<rparr> = s1" by simp
          have "rest (s'\<lparr>events := events s1\<rparr>) = rest (s1\<lparr>events := events s1\<rparr>)"
            unfolding s1e using s'(4) by (simp add: served_def)
          then have "rest (s'\<lparr>events := events s\<rparr>) = rest (s1\<lparr>events := events s\<rparr>)"
            by (rule rest_events_swap)
          also have "\<dots> = rest s"
            by (simp add: rest_events s1(4)) (simp add: rest_def event_clear_def upd_event_def)
          finally show ?thesis .
        qed
        have "served e ?ff (t # ?ss) s s'"
          using s'(4) r ql by (auto simp: served_def ev th intro: filter_cong)
        with s' show "kinv {} s' \<and> cur_link s' \<and> runnable (status s' i) \<and> served e ?ff (t # ?ss) s s'"
          by blast
      qed
    qed
  qed
qed


text \<open>The state after a send: flags, wait lists and the threads that were served.\<close>

definition sent :: "nat \<Rightarrow> u64 \<Rightarrow> tid list \<Rightarrow> kstate \<Rightarrow> kstate \<Rightarrow> bool" where
  "sent e f ss s s' \<longleftrightarrow>
     events s' = (events s)(e := (events s e)\<lparr>event_flags := f\<rparr>) \<and>
     sems s' = sems s \<and> mutexes s' = mutexes s \<and> taken_list s' = taken_list s \<and>
     queues s' = queues s \<and> pools s' = pools s \<and>
     nd_interrupt_nest_count s' = nd_interrupt_nest_count s \<and> now s' = now s \<and> port s' = port s \<and>
     (\<forall>j. \<not> is_ready j \<longrightarrow> qlists s' j = filter (\<lambda>t. t \<notin> set ss) (qlists s j)) \<and>
     (\<forall>t \<in> set ss. runnable (status s' t)) \<and>
     (\<forall>t. error (threads s' t) = error (threads s t)) \<and> wants s' = wants s \<and> mode s' = mode s"

lemma sent_served:
  assumes "served e f ss s s1" and "sched_frame s1 s'"
  shows "sent e f ss s s'"
proof -
  note U = unschedD [OF sched_frameD(1) [OF assms(2)]]
  note R = restD [OF conjunct1 [OF conjunct2 [OF assms(1) [unfolded served_def]]], simplified]
  have th: "threads s1 t = (if t \<in> set ss then (threads s t)\<lparr>stat := ND_THREAD_STAT_READY\<rparr> else threads s t)" for t
    using assms(1) by (simp add: served_def)
  note S = th_staticD [OF sched_frameD(3) [OF assms(2)]]
  have r: "runnable (status s' t)" if "t \<in> set ss" for t
    by (rule runnable_frame [OF assms(2)]) (simp add: th that)
  have "wants s' = wants s" "mode s' = mode s" by (auto simp: wants_def mode_def S(5,6) th)
  moreover have "error (threads s' t) = error (threads s t)" for t by (simp add: S(3) th)
  ultimately show ?thesis
    using r U R assms(1) sched_frameD(2) [OF assms(2)] unfolding sent_def served_def by simp
qed

lemma nd_event_send_ok:
  assumes ok: "kernel_ok i s" and sv: "serve (flags s e OR ucast wanted) (wants s) (mode s) (qlists s (EventWait e)) = (f, ss)"
  shows "wp (nd_event_send e wanted s) (\<lambda>(r, s'). r = ND_EOK \<and> kernel_ok i s' \<and> scheduled s' \<and> sent e f ss s s')"
proof -
  let ?s1 = "upd_event (\<lambda>x. x\<lparr>event_flags := event_flags x OR ucast wanted\<rparr>) e s"
  note K = kernel_okD [OF ok]
  have w1: "flags ?s1 e = flags s e OR ucast wanted" "wants ?s1 = wants s" "mode ?s1 = mode s"
    by (simp_all add: flags_def wants_def mode_def fun_eq_iff)
  have c1: "kinv {} ?s1" "cur_link ?s1" "runnable (status ?s1 i)"
    "set (qlists s (EventWait e)) \<subseteq> set (qlists ?s1 (EventWait e))" "distinct (qlists s (EventWait e))"
    using K lists_okD(2) [OF base_ok_lists [OF K(4)]] by simp_all
  have def': "nd_event_send e wanted s = do { s2 \<leftarrow> event_send_loop e (qlists s (EventWait e)) ?s1;
      s3 \<leftarrow> nd_scheduler s2; Some (ND_EOK, s3) }"
    by (simp add: nd_event_send_def Let_def)
  show ?thesis unfolding def' wp_bind wp_Some prod.case
  proof (rule wp_mono [OF event_send_loop_ok [OF c1]], elim conjE)
    fix s2
    assume s2: "kinv {} s2" "cur_link s2" "runnable (status s2 i)"
      "served e (fst (serve (flags ?s1 e) (wants ?s1) (mode ?s1) (qlists s (EventWait e))))
         (snd (serve (flags ?s1 e) (wants ?s1) (mode ?s1) (qlists s (EventWait e)))) ?s1 s2"
    then have sv1: "served e f ss ?s1 s2" by (simp only: w1 sv fst_conv snd_conv)
    have sv2: "served e f ss s s2"
    proof -
      have "rest (s2\<lparr>events := events ?s1\<rparr>) = rest (s\<lparr>events := events ?s1\<rparr>)"
        using sv1 by (simp add: served_def) (simp add: upd_event_def)
      then have "rest (s2\<lparr>events := events s\<rparr>) = rest (s\<lparr>events := events s\<rparr>)"
        by (rule rest_events_swap)
      with sv1 show ?thesis by (simp add: served_def)
    qed
    show "wp (nd_scheduler s2) (\<lambda>s'. ND_EOK = ND_EOK \<and> kernel_ok i s' \<and> scheduled s' \<and> sent e f ss s s')"
      by (rule wp_mono [OF nd_scheduler_ok [OF s2(1-3)]]) (use sent_served [OF sv2] in blast)
  qed
qed

lemma event_ok_send:
  assumes ok: "kernel_ok i s" and ev: "event_ok s"
  shows "wp (nd_event_send e wanted s) (\<lambda>(r, s'). event_ok s')"
proof -
  obtain f ss where sv: "serve (flags s e OR ucast wanted) (wants s) (mode s) (qlists s (EventWait e)) = (f, ss)"
    by fastforce
  show ?thesis
  proof (rule wp_mono [OF nd_event_send_ok [OF ok sv]], clarify)
    fix s' assume S: "sent e f ss s s'"
    show "event_ok s'" unfolding event_ok_def
    proof (intro allI impI)
      fix j t assume t: "t \<in> set (qlists s' (EventWait j))"
      then have t': "t \<in> set (qlists s (EventWait j))" "t \<notin> set ss" using S by (simp_all add: sent_def)
      have w: "event_set (threads s' t) = wants s t" "event_opt (threads s' t) = mode s t"
        using S by (auto simp: sent_def wants_def mode_def fun_eq_iff)
      show "\<not> nd_event_is_satisfied (ucast (event_flags (events s' j)))
          (event_set (threads s' t)) (event_opt (threads s' t))"
      proof (cases "j = e")
        case True
        with serve_unsatisfied [of t "qlists s (EventWait e)" "flags s e OR ucast wanted" "wants s" "mode s"] t' sv S
        show ?thesis unfolding w by (simp add: sent_def)
      next
        case False
        with t' ev S show ?thesis unfolding w by (simp add: sent_def event_ok_def wants_def mode_def)
      qed
    qed
  qed
qed

lemma sample_event_ok: "event_ok (sample pt)"
  by (auto simp: event_ok_def sample_def sample_lists_def nd_event_is_satisfied_def sample_threads_def sample_thread_def)

section \<open>Properties\<close>

text \<open>C8: sending events. The outcome is that of the reference function \<open>serve\<close>: the flags are added,
  the waiting threads are visited in order, every one whose condition holds at its turn is woken and
  consumes its flags. The others keep their order, and nobody is left waiting for a condition
  that holds (\<open>event_ok\<close>).\<close>

theorem event_send_correct:
  assumes ok: "kernel_ok i s" and ev: "event_ok s"
  shows "wp (nd_event_send e wanted s) (\<lambda>(r, s'). r = ND_EOK \<and> kernel_ok i s' \<and> scheduled s' \<and> event_ok s' \<and>
           (case serve (flags s e OR ucast wanted) (wants s) (mode s) (qlists s (EventWait e)) of (f, ss) \<Rightarrow>
              flags s' e = f \<and> (\<forall>t \<in> set ss. runnable (status s' t)) \<and>
              qlists s' (EventWait e) = filter (\<lambda>t. t \<notin> set ss) (qlists s (EventWait e))))"
proof -
  obtain f ss where sv: "serve (flags s e OR ucast wanted) (wants s) (mode s) (qlists s (EventWait e)) = (f, ss)"
    by fastforce
  show ?thesis unfolding sv prod.case
    by (rule wp_pair_mono [OF wp_pair_conj [OF event_ok_send [OF ok ev] nd_event_send_ok [OF ok sv]]])
      (simp add: sent_def flags_def)
qed

theorem event_send_witness:
  "wp (nd_event_send 0 2 (sample SwitchDeferred)) (\<lambda>(r, s'). r = ND_EOK \<and> flags s' 0 = 0 \<and>
     qlists s' (EventWait 0) = [] \<and> runnable (status s' 5))"
proof -
  have v: "serve (flags (sample SwitchDeferred) 0 OR ucast (2 :: u32)) (wants (sample SwitchDeferred))
      (mode (sample SwitchDeferred)) (qlists (sample SwitchDeferred) (EventWait 0)) = (0, [5])"
    by (simp add: sample_defs sample_lists_def flags_def wants_def mode_def nd_event_is_satisfied_def)
  show ?thesis
    by (rule wp_pair_mono [OF event_send_correct
          [OF sample_ok sample_event_ok, of 0 2 SwitchDeferred, unfolded v prod.case]])
      (simp add: sample_def sample_lists_def)
qed

text \<open>C9: receiving events. A caller whose condition already holds consumes its flags and goes on;
  otherwise it gets \<open>ND_EBUSY\<close> if it does not wait, or blocks in priority order with the condition
  recorded in its control block.\<close>

theorem event_recv_correct:
  assumes C: "calling i c s" and ci: "c \<noteq> i" and ev: "event_ok s"
  shows "wp (nd_event_recv e wanted opt tmo s) (\<lambda>(r, s'). event_ok s' \<and>
           (if nd_event_is_satisfied (ucast (flags s e)) wanted opt
            then r = Some ND_EOK \<and> flags s' e = flags s e AND ucast (NOT wanted) \<and> qlists s' = qlists s
            else flags s' e = flags s e \<and> wants s' c = wanted \<and> mode s' c = opt \<and>
              (if tmo = ND_TIMEOUT_NOWAIT then r = Some ND_EBUSY \<and> qlists s' = qlists s
               else r = None \<and> kernel_ok i s' \<and> scheduled s' \<and> status s' c = ND_THREAD_STAT_BLOCK \<and>
                 qlists s' (EventWait e) = insort_after (prio_of s) c (qlists s (EventWait e)))))"
  by (rule wp_pair_mono [OF wp_pair_conj [OF event_ok_recv [OF C ci ev] nd_event_recv_ok [OF C ci]]])
    (auto simp: flags_def wants_def mode_def event_clear_def asking_def waits_def wait_frameD split: if_splits)

theorem event_recv_witness:
  "wp (nd_event_recv 0 1 ND_EVENT_AND 0 (sample SwitchImmediate)) (\<lambda>(r, s'). r = Some ND_EBUSY \<and> wants s' 1 = 1)"
  by (rule wp_pair_mono [OF event_recv_correct [OF sample_calling _ sample_event_ok]])
    (auto simp: sample_def flags_def nd_event_is_satisfied_def ND_TIMEOUT_NOWAIT_def)

end
