(* ===== verification/Nd_Expiry.thy ===== *)
theory Nd_Expiry
  imports Nd_Thread
begin

text \<open>
  The expiry loop of \<^verbatim>\<open>kernel/nd_timer.c\<close> and the tick interrupt that runs it
  (\<^verbatim>\<open>arch/arm/m3/systick.c\<close>). The callbacks of the application's timers are a parameter.
\<close>

type_synonym user_callback = "nat \<Rightarrow> nat option \<Rightarrow> kstate \<Rightarrow> kstate option"

definition run_callback :: "user_callback \<Rightarrow> timer_callback \<Rightarrow> nat option \<Rightarrow> kstate \<Rightarrow> kstate option" where
  "run_callback ucb cb a s =
     (case cb of
        CB_delay \<Rightarrow> thread_timer_callback a s
      | CB_pend \<Rightarrow> nd_thread_pend_timeout a s
      | CB_slice \<Rightarrow> nd_thread_slice_timeout a s
      | CB_user n \<Rightarrow> ucb n a s)"

text \<open>The end of \<open>timer_expired\<close>: the hardware timer is set to the next deadline.\<close>

definition timer_rearm :: "kstate \<Rightarrow> kstate" where
  "timer_rearm s =
     (if tickless s then
        (case get_leftmost_timer s of
           Some l \<Rightarrow>
             (let s1 = nd_hw_hrtimer_set_expire (expire_time (timers s l)) s in
              if nd_hw_get_current s1 \<ge> expire_time (timers s1 l)
              then nd_hw_hrtimer_trigger s1 else s1)
         | None \<Rightarrow> nd_hw_hrtimer_trigger_clear s)
      else s)"

text \<open>One round of the loop for the expired timer \<open>r\<close>.\<close>

definition expire_one :: "user_callback \<Rightarrow> timer_ref \<Rightarrow> kstate \<Rightarrow> kstate option" where
  "expire_one ucb r s = do {
     s1 \<leftarrow> timer_node_erase r s;
     s2 \<leftarrow> (if timer_type (timers s1 r) = ND_TIMER_TYPE_PERIODIC
            then timer_node_insert r
                   (upd_timer (\<lambda>t. t\<lparr>expire_time := expire_time t + timeout t\<rparr>) r s1)
            else Some s1);
     (case callback (timers s2 r) of
        None \<Rightarrow> Some s2
      | Some cb \<Rightarrow> run_callback ucb cb (arg (timers s2 r)) s2)
   }"

partial_function (option) timer_expired :: "user_callback \<Rightarrow> kstate \<Rightarrow> kstate option" where
  "timer_expired ucb s =
     (case get_leftmost_timer s of
        None \<Rightarrow> Some (if tickless s then nd_hw_hrtimer_trigger_clear s else s)
      | Some r \<Rightarrow>
          if nd_hw_get_current s < expire_time (timers s r) then Some (timer_rearm s)
          else Option.bind (expire_one ucb r s) (\<lambda>s1. timer_expired ucb s1))"

definition nd_timer_process :: "user_callback \<Rightarrow> kstate \<Rightarrow> kstate option" where
  "nd_timer_process ucb s = timer_expired ucb s"

definition nd_hw_tick_update :: "kstate \<Rightarrow> kstate" where
  "nd_hw_tick_update s = s\<lparr>now := now s + 1\<rparr>"

definition isr_systick :: "user_callback \<Rightarrow> kstate \<Rightarrow> kstate option" where
  "isr_systick ucb s = do {
     let s1 = nd_hw_tick_update (nd_enter_interrupt s);
     s2 \<leftarrow> nd_timer_process ucb s1;
     nd_try_schedule_irqsave (nd_exit_interrupt s2)
   }"

section \<open>Timers of the application\<close>

lemma sync_frame_timer: "timer_frame r s s' \<Longrightarrow> sync_frame s s'"
  using restD [OF timer_frame_rest] timer_frameD(10,12) by (simp add: sync_frame_def)

text \<open>An operation on an application's timer keeps every thread as it is.\<close>

lemma kernel_ok_user_timer:
  assumes ok: "kernel_ok i s" and fr: "timer_frame (UserTimer n) s s'" and b: "timers_ok s'"
    and tree: "\<And>x. x \<noteq> UserTimer n \<Longrightarrow> x \<in> set (rbtree s') \<longleftrightarrow> x \<in> set (rbtree s)"
  shows "kernel_ok i s'" and "scheduled s \<Longrightarrow> scheduled s'"
proof -
  note R = restD [OF timer_frame_rest [OF fr]] and T = timer_frameD [OF fr]
  have base: "base_ok s'" by (rule base_ok_timers [OF kernel_okD(4) [OF ok] b fr])
  have tm: "timers s' (ThreadTimer t) = timers s (ThreadTimer t)"
    "timers s' (SliceTimer t) = timers s (SliceTimer t)" for t
    using fr by (simp_all add: timer_frame_def)
  have "same_view s s' t" for t
    using tree [of "ThreadTimer t"] tree [of "SliceTimer t"] tm T R unfolding same_view_def by simp
  then have "only {} s s'" by (simp add: only_def)
  then have k: "kinv {} s'" using kinv_only [OF kernel_okD(1) [OF ok] _ base] by blast
  have "cur_link s'"
    using kernel_okD(2) [OF ok] cur_link_status [of s' s] R T by simp
  with k kernel_okD(3,6) [OF ok] show "kernel_ok i s'"
    by (simp add: kernel_ok_def cur_ok_def R T)
  show "scheduled s \<Longrightarrow> scheduled s'" using scheduled_cong [of s' s] R T by simp
qed

lemma nd_timer_start_user:
  assumes ok: "kernel_ok i s"
  shows "wp (nd_timer_start (Some (UserTimer n)) s) (\<lambda>(e, s').
           if callback (timers s (UserTimer n)) = None then e = ND_EINVAL \<and> s' = s
           else e = ND_EOK \<and> kernel_ok i s' \<and> (scheduled s \<longrightarrow> scheduled s') \<and> sync_frame s s' \<and>
             UserTimer n \<in> set (rbtree s') \<and>
             expire_time (timers s' (UserTimer n)) = expiry s (timeout (timers s (UserTimer n))))"
proof (cases "callback (timers s (UserTimer n)) = None")
  case True
  then show ?thesis by (simp add: nd_timer_start_def)
next
  case False
  have tok: "timers_ok s" using kernel_okD(4) [OF ok] by (rule base_ok_timers_ok)
  show ?thesis
  proof (rule wp_mono [OF nd_timer_start_ok [OF tok False]], clarify)
    fix e s'
    assume s': "timers_ok s'" "timer_frame (UserTimer n) s s'"
      "rbtree s' = insort_after (\<lambda>x. expire_time (timers s' x)) (UserTimer n) (remove1 (UserTimer n) (rbtree s))"
      "expire_time (timers s' (UserTimer n)) = (if tickless s then deadline (timeout (timers s (UserTimer n))) (now s)
              else now s + timeout (timers s (UserTimer n)))"
    have "x \<in> set (rbtree s') \<longleftrightarrow> x \<in> set (rbtree s)" if "x \<noteq> UserTimer n" for x
      using that timers_okD(1) [OF tok] by (simp add: s'(3))
    from kernel_ok_user_timer [OF ok s'(2,1) this] sync_frame_timer [OF s'(2)] s'(3,4) False
    show "if callback (timers s (UserTimer n)) = None then ND_EOK = ND_EINVAL \<and> s' = s
           else ND_EOK = ND_EOK \<and> kernel_ok i s' \<and> (scheduled s \<longrightarrow> scheduled s') \<and> sync_frame s s' \<and>
             UserTimer n \<in> set (rbtree s') \<and>
             expire_time (timers s' (UserTimer n)) = expiry s (timeout (timers s (UserTimer n)))"
      by (simp add: expiry_def)
  qed
qed

lemma nd_timer_stop_user:
  assumes ok: "kernel_ok i s"
  shows "wp (nd_timer_stop (Some (UserTimer n)) s) (\<lambda>(e, s'). e = ND_EOK \<and> kernel_ok i s' \<and>
           (scheduled s \<longrightarrow> scheduled s') \<and> sync_frame s s' \<and> UserTimer n \<notin> set (rbtree s'))"
proof -
  have tok: "timers_ok s" using kernel_okD(4) [OF ok] by (rule base_ok_timers_ok)
  show ?thesis
  proof (rule wp_mono [OF nd_timer_stop_ok [OF tok, of "UserTimer n"]], clarify)
    fix s'
    assume s': "timers_ok s'" "timer_frame (UserTimer n) s s'" "rbtree s' = remove1 (UserTimer n) (rbtree s)"
    have "x \<in> set (rbtree s') \<longleftrightarrow> x \<in> set (rbtree s)" if "x \<noteq> UserTimer n" for x
      using that timers_okD(1) [OF tok] by (simp add: s'(3))
    from kernel_ok_user_timer [OF ok s'(2,1) this] sync_frame_timer [OF s'(2)] s'(3) timers_okD(1) [OF tok]
    show "ND_EOK = ND_EOK \<and> kernel_ok i s' \<and> (scheduled s \<longrightarrow> scheduled s') \<and> sync_frame s s' \<and>
      UserTimer n \<notin> set (rbtree s')" by simp
  qed
qed

section \<open>One expired timer\<close>

text \<open>What the application's callbacks must keep: the invariant, and a property \<open>J\<close> of the objects
  that the kernel's own callbacks keep as well.\<close>

definition callbacks_ok :: "tid \<Rightarrow> (kstate \<Rightarrow> bool) \<Rightarrow> user_callback \<Rightarrow> bool" where
  "callbacks_ok i J ucb \<longleftrightarrow>
     (\<forall>s s'. J s \<longrightarrow> sync_frame s s' \<longrightarrow> J s') \<and>
     (\<forall>n a s. kernel_ok i s \<longrightarrow> J s \<longrightarrow>
        wp (ucb n a s) (\<lambda>s'. kernel_ok i s' \<and> J s' \<and> (scheduled s \<longrightarrow> scheduled s') \<and>
          nd_interrupt_nest_count s' = nd_interrupt_nest_count s))"

lemma callbacks_okD:
  assumes "callbacks_ok i J ucb"
  shows "J s \<Longrightarrow> sync_frame s s' \<Longrightarrow> J s'"
    and "kernel_ok i s \<Longrightarrow> J s \<Longrightarrow> wp (ucb n a s) (\<lambda>s'. kernel_ok i s' \<and> J s' \<and> (scheduled s \<longrightarrow> scheduled s') \<and>
          nd_interrupt_nest_count s' = nd_interrupt_nest_count s)"
  using assms unfolding callbacks_ok_def by blast+

lemma erase_ok:
  assumes "base_ok s" and "r \<in> set (rbtree s)"
  shows "wp (timer_node_erase r s) (\<lambda>s'. base_ok s' \<and> timer_frame r s s' \<and>
           set (rbtree s') = set (rbtree s) - {r} \<and> rbtree s' = remove1 r (rbtree s) \<and>
           (\<forall>x. expire_time (timers s' x) = expire_time (timers s x)))"
  by (rule wp_mono [OF timer_node_erase_ok [OF base_ok_timers_ok [OF assms(1)] assms(2)]])
    (use base_ok_timers [OF assms(1)] timers_okD(1) [OF base_ok_timers_ok [OF assms(1)]] in auto)

lemma erased_thread:
  assumes ok: "kernel_ok i s" and r: "ThreadTimer t \<in> set (rbtree s)"
    and b: "base_ok s1" and fr: "timer_frame (ThreadTimer t) s s1"
    and set: "set (rbtree s1) = set (rbtree s) - {ThreadTimer t}"
  shows "kinv {t} s1" "settled s1 t" "cur_link s1" "qhome s1 t = qhome s t" "status s t = ND_THREAD_STAT_BLOCK"
    "timer_type (timers s1 (ThreadTimer t)) = ND_TIMER_TYPE_ONE_SHOT" "arg (timers s1 (ThreadTimer t)) = Some t"
    "callback (timers s1 (ThreadTimer t)) = Some (if qhome s t = None then CB_delay else CB_pend)"
    "\<And>k. qhome s t = Some k \<Longrightarrow> \<not> is_ready k"
proof -
  have ts: "timer_stopped t s s1"
    using only_timer_frame [OF fr, of t] b fr set by (simp add: timer_stopped_def)
  note tok = kernel_okD(5) [OF ok, of t]
  show bl: "status s t = ND_THREAD_STAT_BLOCK" using tok r by (simp add: thread_ok_def timer_ok_def)
  then have al: "alive (status s t)" by (simp add: alive_def)
  show "kinv {t} s1" by (rule kinv_timer_stopped [OF kinv_mono [OF kernel_okD(1) [OF ok]] ts]) simp
  show "settled s1 t" by (rule settled_stopped [OF tok al ts])
  show "cur_link s1" by (rule cur_link_threads [OF kernel_okD(2) [OF ok] timer_frame_rest [OF fr]])
      (simp add: timer_frameD(12) [OF fr])
  show "qhome s1 t = qhome s t" using timer_frameD [OF fr] by simp
  have "callback (timers s1 (ThreadTimer t)) = callback (timers s (ThreadTimer t))"
    "timer_type (timers s1 (ThreadTimer t)) = timer_type (timers s (ThreadTimer t))"
    "arg (timers s1 (ThreadTimer t)) = arg (timers s (ThreadTimer t))"
    using fr by (simp_all add: timer_frame_def)
  with tok r bl show "timer_type (timers s1 (ThreadTimer t)) = ND_TIMER_TYPE_ONE_SHOT"
    "arg (timers s1 (ThreadTimer t)) = Some t"
    "callback (timers s1 (ThreadTimer t)) = Some (if qhome s t = None then CB_delay else CB_pend)"
    by (simp_all add: thread_ok_def timer_ok_def)
  show "\<not> is_ready k" if "qhome s t = Some k" for k
    using tok bl that by (auto simp: thread_ok_def home_ok_def is_ready_def)
qed

lemma expire_one_thread:
  assumes ok: "kernel_ok i s" and r: "ThreadTimer t \<in> set (rbtree s)"
  shows "wp (expire_one ucb (ThreadTimer t) s) (\<lambda>s'. kernel_ok i s' \<and> scheduled s' \<and> sync_frame s s' \<and>
           runnable (status s' t))"
  unfolding expire_one_def wp_bind
proof (rule wp_mono [OF erase_ok [OF kernel_okD(4) [OF ok] r]], elim conjE)
  fix s1
  assume s1: "base_ok s1" "timer_frame (ThreadTimer t) s s1" "set (rbtree s1) = set (rbtree s) - {ThreadTimer t}"
  note E = erased_thread [OF ok r s1]
  have idle: "runnable (status s1 i)" using kernel_okD(3) [OF ok] timer_frameD(12) [OF s1(2)] by simp
  have sf: "sync_frame s s1" by (rule sync_frame_timer [OF s1(2)])
  have cb: "wp (run_callback ucb (if qhome s t = None then CB_delay else CB_pend) (Some t) s1)
      (\<lambda>s'. kernel_ok i s' \<and> scheduled s' \<and> sync_frame s s' \<and> runnable (status s' t))"
  proof (cases "qhome s t")
    case None
    have "wp (thread_timer_callback (Some t) s1)
      (\<lambda>s'. kernel_ok i s' \<and> scheduled s' \<and> sync_frame s s' \<and> runnable (status s' t))"
      by (rule wp_mono [OF thread_timer_callback_ok [OF E(1,2) _ E(3) idle]])
        (use None E(4) sync_frame_trans [OF sf] in auto)
    with None show ?thesis by (simp add: run_callback_def)
  next
    case (Some k)
    have "wp (nd_thread_pend_timeout (Some t) s1)
      (\<lambda>s'. kernel_ok i s' \<and> scheduled s' \<and> sync_frame s s' \<and> runnable (status s' t))"
      by (rule wp_mono [OF nd_thread_pend_timeout_ok [OF E(1,2) _ E(9) [OF Some] E(3) idle]])
        (use Some E(4) sync_frame_trans [OF sf] in auto)
    with Some show ?thesis by (simp add: run_callback_def)
  qed
  then show "wp (if timer_type (timers s1 (ThreadTimer t)) = ND_TIMER_TYPE_PERIODIC
            then timer_node_insert (ThreadTimer t)
                   (upd_timer (\<lambda>x. x\<lparr>expire_time := expire_time x + timeout x\<rparr>) (ThreadTimer t) s1)
            else Some s1) (\<lambda>s2. wp (case callback (timers s2 (ThreadTimer t)) of
        None \<Rightarrow> Some s2
      | Some cb \<Rightarrow> run_callback ucb cb (arg (timers s2 (ThreadTimer t))) s2)
      (\<lambda>s'. kernel_ok i s' \<and> scheduled s' \<and> sync_frame s s' \<and> runnable (status s' t)))"
    by (simp add: E(6,7,8))
qed

lemma expire_one_slice:
  assumes ok: "kernel_ok i s" and r: "SliceTimer t \<in> set (rbtree s)"
  shows "wp (expire_one ucb (SliceTimer t) s) (\<lambda>s'. kernel_ok i s' \<and> (scheduled s \<longrightarrow> scheduled s') \<and> sync_frame s s')"
  unfolding expire_one_def wp_bind
proof (rule wp_mono [OF erase_ok [OF kernel_okD(4) [OF ok] r]], elim conjE)
  fix s1
  assume s1: "base_ok s1" "timer_frame (SliceTimer t) s s1" "set (rbtree s1) = set (rbtree s) - {SliceTimer t}"
  have ss: "slice_stopped t s s1" using s1 by (simp add: slice_stopped_def)
  note S = slice_stoppedD [OF ss]
  note R = restD [OF S(1)]
  have c: "nd_current_thread s = Some t" using kernel_okD(5) [OF ok, of t] r by (simp add: thread_ok_def slice_ok_def)
  note cur = thread_ok_current [OF kernel_okD(5) [OF ok] c]
  have k1: "kinv {} s1" by (rule kinv_slice_stopped [OF kernel_okD(1) [OF ok] ss s1(1)])
  have "cur_link s1" by (rule cur_link_threads [OF kernel_okD(2) [OF ok] S(1)]) (simp add: S)
  with k1 kernel_okD(3,6) [OF ok] have ok1: "kernel_ok i s1" by (simp add: kernel_ok_def cur_ok_def S R)
  have sch: "scheduled s1 = scheduled s" by (rule scheduled_cong) (simp_all add: R S)
  have sf: "sync_frame s s1" by (rule sync_frame_timer [OF s1(2)])
  have "wp (nd_thread_slice_timeout (Some t) s1) (\<lambda>s'. kernel_ok i s' \<and> (scheduled s \<longrightarrow> scheduled s') \<and> sync_frame s s')"
    by (rule wp_mono [OF nd_thread_slice_timeout_ok [OF ok1]])
      (use sync_frame_trans [OF sf sync_frame_sched] sch in blast)
  then show "wp (if timer_type (timers s1 (SliceTimer t)) = ND_TIMER_TYPE_PERIODIC
            then timer_node_insert (SliceTimer t)
                   (upd_timer (\<lambda>x. x\<lparr>expire_time := expire_time x + timeout x\<rparr>) (SliceTimer t) s1)
            else Some s1) (\<lambda>s2. wp (case callback (timers s2 (SliceTimer t)) of
        None \<Rightarrow> Some s2
      | Some cb \<Rightarrow> run_callback ucb cb (arg (timers s2 (SliceTimer t))) s2)
      (\<lambda>s'. kernel_ok i s' \<and> (scheduled s \<longrightarrow> scheduled s') \<and> sync_frame s s'))"
    by (simp add: S cur run_callback_def)
qed


lemma expire_one_user:
  assumes ok: "kernel_ok i s" and r: "UserTimer n \<in> set (rbtree s)" and cb: "callbacks_ok i J ucb" and J: "J s"
  shows "wp (expire_one ucb (UserTimer n) s) (\<lambda>s'. kernel_ok i s' \<and> (scheduled s \<longrightarrow> scheduled s') \<and> J s' \<and>
           nd_interrupt_nest_count s' = nd_interrupt_nest_count s)"
  unfolding expire_one_def wp_bind
proof (rule wp_mono [OF erase_ok [OF kernel_okD(4) [OF ok] r]], elim conjE)
  let ?r = "UserTimer n"
  fix s1
  assume s1: "base_ok s1" "timer_frame ?r s s1" "set (rbtree s1) = set (rbtree s) - {?r}"
  let ?e = "expire_time (timers s1 ?r) + timeout (timers s1 ?r)"
  have call: "wp (case callback (timers s2 ?r) of None \<Rightarrow> Some s2
      | Some cb \<Rightarrow> run_callback ucb cb (arg (timers s2 ?r)) s2)
      (\<lambda>s'. kernel_ok i s' \<and> (scheduled s \<longrightarrow> scheduled s') \<and> J s' \<and>
           nd_interrupt_nest_count s' = nd_interrupt_nest_count s)"
    if s2: "timers_ok s2" "timer_frame ?r s s2" "\<And>x. x \<noteq> ?r \<Longrightarrow> x \<in> set (rbtree s2) \<longleftrightarrow> x \<in> set (rbtree s)" for s2
  proof -
    note K2 = kernel_ok_user_timer [OF ok s2(2,1,3)]
    have J2: "J s2" by (rule callbacks_okD(1) [OF cb J sync_frame_timer [OF s2(2)]])
    have n2: "nd_interrupt_nest_count s2 = nd_interrupt_nest_count s" using timer_frameD [OF s2(2)] by simp
    show ?thesis
    proof (cases "callback (timers s2 ?r)")
      case None
      with K2 J2 n2 show ?thesis by simp
    next
      case (Some f)
      then obtain k where "f = CB_user k"
        using base_ok_timers [OF kernel_okD(4) [OF ok] s2(1,2)] by (auto simp: base_ok_def user_ok_def)
      with Some n2 show ?thesis
        by (simp add: run_callback_def)
          (rule wp_mono [OF callbacks_okD(2) [OF cb K2(1) J2]], use K2(2) n2 in auto)
    qed
  qed
  show "wp (if timer_type (timers s1 ?r) = ND_TIMER_TYPE_PERIODIC
            then timer_node_insert ?r
                   (upd_timer (\<lambda>x. x\<lparr>expire_time := expire_time x + timeout x\<rparr>) ?r s1)
            else Some s1) (\<lambda>s2. wp (case callback (timers s2 ?r) of
        None \<Rightarrow> Some s2
      | Some cb \<Rightarrow> run_callback ucb cb (arg (timers s2 ?r)) s2)
      (\<lambda>s'. kernel_ok i s' \<and> (scheduled s \<longrightarrow> scheduled s') \<and> J s' \<and>
           nd_interrupt_nest_count s' = nd_interrupt_nest_count s))"
  proof (cases "timer_type (timers s1 ?r) = ND_TIMER_TYPE_PERIODIC")
    case True
    have u: "upd_timer (\<lambda>x. x\<lparr>expire_time := expire_time x + timeout x\<rparr>) ?r s1 =
        upd_timer (expire_time_update (\<lambda>_. ?e)) ?r s1" by (simp add: upd_timer_def)
    have out: "?r \<notin> set (rbtree s1)" using s1(3) by simp
    have "wp (timer_node_insert ?r (upd_timer (\<lambda>x. x\<lparr>expire_time := expire_time x + timeout x\<rparr>) ?r s1))
      (\<lambda>s2. wp (case callback (timers s2 ?r) of None \<Rightarrow> Some s2
        | Some cb \<Rightarrow> run_callback ucb cb (arg (timers s2 ?r)) s2)
      (\<lambda>s'. kernel_ok i s' \<and> (scheduled s \<longrightarrow> scheduled s') \<and> J s' \<and>
           nd_interrupt_nest_count s' = nd_interrupt_nest_count s))"
    proof (rule wp_mono [OF timer_node_insert_ok [OF base_ok_timers_ok [OF s1(1)] out u]], elim conjE)
      fix s2
      assume s2: "timers_ok s2" "timer_frame ?r s1 s2"
        "rbtree s2 = insort_after (\<lambda>x. expire_time (timers s2 x)) ?r (rbtree s1)"
      show "wp (case callback (timers s2 ?r) of None \<Rightarrow> Some s2
        | Some cb \<Rightarrow> run_callback ucb cb (arg (timers s2 ?r)) s2)
        (\<lambda>s'. kernel_ok i s' \<and> (scheduled s \<longrightarrow> scheduled s') \<and> J s' \<and>
           nd_interrupt_nest_count s' = nd_interrupt_nest_count s)"
        by (rule call [OF s2(1) timer_frame_trans [OF s1(2) s2(2)]]) (simp add: s2(3) s1(3))
    qed
    with True show ?thesis by simp
  next
    case False
    with call [OF base_ok_timers_ok [OF s1(1)] s1(2)] s1(3) show ?thesis by simp
  qed
qed

lemma expire_one_ok:
  assumes ok: "kernel_ok i s" and r: "r \<in> set (rbtree s)" and cb: "callbacks_ok i J ucb" and J: "J s"
  shows "wp (expire_one ucb r s) (\<lambda>s'. kernel_ok i s' \<and> (scheduled s \<longrightarrow> scheduled s') \<and> J s' \<and>
           nd_interrupt_nest_count s' = nd_interrupt_nest_count s)"
proof (cases r)
  case (ThreadTimer t)
  show ?thesis unfolding ThreadTimer
    by (rule wp_mono [OF expire_one_thread [OF ok r [unfolded ThreadTimer]]])
      (use callbacks_okD(1) [OF cb J] sync_frameD(10) in blast)
next
  case (SliceTimer t)
  show ?thesis unfolding SliceTimer
    by (rule wp_mono [OF expire_one_slice [OF ok r [unfolded SliceTimer]]])
      (use callbacks_okD(1) [OF cb J] sync_frameD(10) in blast)
next
  case (UserTimer n)
  show ?thesis unfolding UserTimer by (rule expire_one_user [OF ok r [unfolded UserTimer] cb J])
qed

section \<open>The expiry loop\<close>

definition due :: "kstate \<Rightarrow> timer_ref \<Rightarrow> bool" where
  "due s r \<longleftrightarrow> r \<in> set (rbtree s) \<and> expire_time (timers s r) \<le> now s"

lemma timer_expired_step:
  "timer_expired ucb s = (case get_leftmost_timer s of
        None \<Rightarrow> Some (if tickless s then nd_hw_hrtimer_trigger_clear s else s)
      | Some r \<Rightarrow>
          if now s < expire_time (timers s r) then Some (timer_rearm s)
          else Option.bind (expire_one ucb r s) (timer_expired ucb))"
  by (simp add: timer_expired.simps [of ucb s] nd_hw_get_current_def cong: option.case_cong if_cong)

lemma kernel_ok_hr [simp]: "kernel_ok i (s\<lparr>hr := h\<rparr>) = kernel_ok i s"
proof -
  have "thread_ok (s\<lparr>hr := h\<rparr>) t = thread_ok s t" for t by (simp add: thread_ok_def)
  then show ?thesis
    by (simp add: kernel_ok_def cur_ok_def cur_link_def kinv_def base_ok_def lists_ok_def timers_ok_def
        bits_ok_def user_ok_def cong: if_cong)
qed

lemma scheduled_hr [simp]: "scheduled (s\<lparr>hr := h\<rparr>) = scheduled s"
  by (rule scheduled_cong) simp_all

lemma sync_frame_hr [simp]: "sync_frame s (s'\<lparr>hr := h\<rparr>) = sync_frame s s'"
  by (simp add: sync_frame_def)

lemma hr_only: "\<exists>h. s = s\<lparr>hr := h\<rparr>" "\<exists>h. s\<lparr>hr := x\<rparr> = s\<lparr>hr := h\<rparr>"
  by (rule exI [of _ "hr s"], simp) (rule exI [of _ x], simp)

lemma timer_rearm_eq: "\<exists>h. timer_rearm s = s\<lparr>hr := h\<rparr>"
proof (cases "tickless s")
  case True
  then show ?thesis
    by (auto simp: timer_rearm_def hr_defs Let_def intro: hr_only split: option.split)
next
  case False
  then show ?thesis using hr_only(1) by (simp add: timer_rearm_def)
qed

text \<open>After the loop no timer is due, and the hardware timer is set for the next one.\<close>

lemma timer_expired_ok:
  assumes "timer_expired ucb s = Some s'"
    and "kernel_ok i s" and "J s" and "callbacks_ok i J ucb"
  shows "kernel_ok i s' \<and> J s' \<and> (scheduled s \<longrightarrow> scheduled s') \<and> (\<forall>r. \<not> due s' r) \<and>
         nd_interrupt_nest_count s' = nd_interrupt_nest_count s"
  using assms
proof (induction rule: timer_expired.raw_induct [rotated, consumes 1])
  case (1 te ucb s s')
  note ok = 1(3) and J = 1(4) and cb = 1(5)
  have stop: "kernel_ok i (s\<lparr>hr := h\<rparr>) \<and> J (s\<lparr>hr := h\<rparr>) \<and> (scheduled s \<longrightarrow> scheduled (s\<lparr>hr := h\<rparr>)) \<and>
      nd_interrupt_nest_count (s\<lparr>hr := h\<rparr>) = nd_interrupt_nest_count s" for h
    using ok callbacks_okD(1) [OF cb J, of "s\<lparr>hr := h\<rparr>"] by simp
  have self: "s\<lparr>hr := hr s\<rparr> = s" by simp
  show ?case
  proof (cases "get_leftmost_timer s")
    case None
    then have "rbtree s = []" by simp
    moreover have "\<exists>h. s' = s\<lparr>hr := h\<rparr>" using 1(2) None self
      by (auto simp: nd_hw_hrtimer_trigger_clear_def intro: hr_only split: if_splits)
    ultimately show ?thesis using stop by (auto simp: due_def)
  next
    case (Some r)
    then have mem: "r \<in> set (rbtree s)" by (auto simp: get_leftmost_Some)
    show ?thesis
    proof (cases "now s < expire_time (timers s r)")
      case True
      with 1(2) Some have "s' = timer_rearm s" by (simp add: nd_hw_get_current_def)
      then obtain h where h: "s' = s\<lparr>hr := h\<rparr>" using timer_rearm_eq [of s] by auto
      have "\<not> due s x" for x
        using leftmost_least [OF base_ok_timers_ok [OF kernel_okD(4) [OF ok]] Some, of x] True
        by (auto simp: due_def)
      with stop [of h] h show ?thesis by (simp add: due_def)
    next
      case False
      with 1(2) Some obtain s1 where s1: "expire_one ucb r s = Some s1" and te: "te ucb s1 = Some s'"
        by (auto simp: nd_hw_get_current_def bind_Some_iff)
      have "kernel_ok i s1 \<and> (scheduled s \<longrightarrow> scheduled s1) \<and> J s1 \<and>
          nd_interrupt_nest_count s1 = nd_interrupt_nest_count s"
        using wpD [OF expire_one_ok [OF ok mem cb J] s1] .
      with 1(1) [OF te _ _ cb] show ?thesis by auto
    qed
  qed
qed

section \<open>The expiry loop ends, and wakes up every thread that is due\<close>

text \<open>A quiet callback neither touches the timers nor takes a thread off the processor.\<close>

definition quiet :: "user_callback \<Rightarrow> bool" where
  "quiet ucb \<longleftrightarrow> (\<forall>n a s s'. ucb n a s = Some s' \<longrightarrow>
     timers s' = timers s \<and> rbtree s' = rbtree s \<and> now s' = now s \<and>
     (\<forall>t. runnable (status s t) \<longrightarrow> runnable (status s' t)))"

definition calm :: "kstate \<Rightarrow> kstate \<Rightarrow> bool" where
  "calm s s' \<longleftrightarrow> timers s' = timers s \<and> rbtree s' = rbtree s \<and> now s' = now s \<and>
     (\<forall>t. runnable (status s t) \<longrightarrow> runnable (status s' t))"

lemma calm_refl: "calm s s"
  by (simp add: calm_def)

lemma calm_trans: "calm s s' \<Longrightarrow> calm s' s'' \<Longrightarrow> calm s s''"
  by (simp add: calm_def)

lemma calm_ready_add_tail: "nd_thread_ready_add_tail t s = Some s' \<Longrightarrow> calm s s'"
  by (auto simp: nd_thread_ready_add_tail_def q_insert_tail_def calm_def bind_Some_iff assert_ok_def Let_def
      split: if_splits)

lemma calm_remove: "q_remove t s = Some s' \<Longrightarrow> calm s s'"
  by (auto simp: q_remove_def calm_def bind_Some_iff)

lemma calm_scheduler_nested:
  "nd_scheduler s = Some s' \<Longrightarrow> nd_interrupt_nest_count s > 0 \<Longrightarrow> calm s s'"
  by (auto simp: nd_scheduler_def calm_def split: if_splits)

lemma nest_ready_add_tail:
  "nd_thread_ready_add_tail t s = Some s' \<Longrightarrow> nd_interrupt_nest_count s' = nd_interrupt_nest_count s"
  by (auto simp: nd_thread_ready_add_tail_def q_insert_tail_def bind_Some_iff assert_ok_def Let_def
      split: if_splits)

lemma nest_remove: "q_remove t s = Some s' \<Longrightarrow> nd_interrupt_nest_count s' = nd_interrupt_nest_count s"
  by (auto simp: q_remove_def bind_Some_iff)

lemma run_callback_calm:
  assumes cb: "run_callback ucb cb a s = Some s'" and n: "nd_interrupt_nest_count s > 0" and q: "quiet ucb"
  shows "calm s s'"
proof (cases cb)
  case CB_delay
  with cb obtain t s2 where s2: "nd_thread_ready_add_tail t (let s1 = upd_thread (stat_update (\<lambda>_. ND_THREAD_STAT_READY)) t s
        in if time_slice (threads s1 t) \<noteq> 0 then upd_thread refill_slice t s1 else s1) = Some s2"
    and s': "nd_scheduler s2 = Some s'"
    by (auto simp: run_callback_def thread_timer_callback_def bind_Some_iff Let_def)
  have "nd_interrupt_nest_count s2 > 0"
    using nest_ready_add_tail [OF s2] n by (simp add: upd_thread_def Let_def)
  moreover have "calm s (let s1 = upd_thread (stat_update (\<lambda>_. ND_THREAD_STAT_READY)) t s
        in if time_slice (threads s1 t) \<noteq> 0 then upd_thread refill_slice t s1 else s1)"
    by (simp add: calm_def refill_slice_def upd_thread_def Let_def)
  ultimately show ?thesis
    using calm_trans calm_ready_add_tail [OF s2] calm_scheduler_nested [OF s'] by blast
next
  case CB_pend
  with cb obtain t s1 s2 where
    s1: "q_remove t (upd_thread (\<lambda>th. th\<lparr>stat := ND_THREAD_STAT_READY, error := ND_ETIMEOUT\<rparr>) t s) = Some s1"
    and s2: "nd_thread_ready_add_tail t s1 = Some s2" and s': "nd_scheduler s2 = Some s'"
    by (auto simp: run_callback_def nd_thread_pend_timeout_def bind_Some_iff Let_def)
  have "nd_interrupt_nest_count s2 > 0"
    using nest_remove [OF s1] nest_ready_add_tail [OF s2] n by (simp add: upd_thread_def)
  moreover have "calm s (upd_thread (\<lambda>th. th\<lparr>stat := ND_THREAD_STAT_READY, error := ND_ETIMEOUT\<rparr>) t s)"
    by (simp add: calm_def upd_thread_def)
  ultimately show ?thesis
    using calm_trans calm_remove [OF s1] calm_ready_add_tail [OF s2] calm_scheduler_nested [OF s'] by blast
next
  case CB_slice
  with cb n show ?thesis
    by (auto simp: run_callback_def nd_thread_slice_timeout_def nd_scheduler_def calm_def upd_thread_def
        split: if_splits option.splits)
next
  case (CB_user n)
  with cb q show ?thesis by (simp add: run_callback_def quiet_def calm_def)
qed

text \<open>What one round does to the timers.\<close>

definition fired :: "timer_ref \<Rightarrow> kstate \<Rightarrow> kstate \<Rightarrow> bool" where
  "fired r s s' \<longleftrightarrow> now s' = now s \<and>
     (\<forall>x. x \<noteq> r \<longrightarrow> timers s' x = timers s x \<and> (x \<in> set (rbtree s') \<longleftrightarrow> x \<in> set (rbtree s))) \<and>
     (r \<in> set (rbtree s') \<longrightarrow> timer_type (timers s r) = ND_TIMER_TYPE_PERIODIC \<and>
        expire_time (timers s' r) = expire_time (timers s r) + timeout (timers s r)) \<and>
     timeout (timers s' r) = timeout (timers s r) \<and> timer_type (timers s' r) = timer_type (timers s r) \<and>
     (\<forall>t. runnable (status s t) \<longrightarrow> runnable (status s' t))"

lemma erased_fired:
  assumes "timer_node_erase r s = Some s1" and "distinct (rbtree s)"
  shows "fired r s s1" and "r \<notin> set (rbtree s1)"
    and "nd_interrupt_nest_count s1 = nd_interrupt_nest_count s"
    and "distinct (rbtree s1)"
    and "timer_type (timers s1 r) = timer_type (timers s r)"
    and "expire_time (timers s1 r) = expire_time (timers s r)"
    and "timeout (timers s1 r) = timeout (timers s r)"
  using assms by (auto simp: timer_node_erase_def assert_ok_def fired_def upd_timer_def split: if_splits)

lemma reinsert_fired:
  assumes "timer_node_insert r (upd_timer (\<lambda>t. t\<lparr>expire_time := expire_time t + timeout t\<rparr>) r s1) = Some s2"
    and "r \<notin> set (rbtree s1)" and "distinct (rbtree s1)"
  shows "now s2 = now s1" and "\<And>x. x \<noteq> r \<Longrightarrow> timers s2 x = timers s1 x \<and> (x \<in> set (rbtree s2) \<longleftrightarrow> x \<in> set (rbtree s1))"
    and "expire_time (timers s2 r) = expire_time (timers s1 r) + timeout (timers s1 r)"
    and "timeout (timers s2 r) = timeout (timers s1 r)" and "timer_type (timers s2 r) = timer_type (timers s1 r)"
    and "\<And>t. status s2 t = status s1 t"
    and "nd_interrupt_nest_count s2 = nd_interrupt_nest_count s1"
  using assms by (auto simp: timer_node_insert_def assert_ok_def upd_timer_def Let_def split: if_splits)

lemma expire_one_fired:
  assumes e: "expire_one ucb r s = Some s'" and n: "nd_interrupt_nest_count s > 0" and q: "quiet ucb"
    and tok: "timers_ok s" and r: "r \<in> set (rbtree s)"
  shows "fired r s s'"
proof -
  have d: "distinct (rbtree s)" by (rule timers_okD(1) [OF tok])
  from e obtain s1 s2 where s1: "timer_node_erase r s = Some s1"
    and s2: "(if timer_type (timers s1 r) = ND_TIMER_TYPE_PERIODIC
            then timer_node_insert r
                   (upd_timer (\<lambda>t. t\<lparr>expire_time := expire_time t + timeout t\<rparr>) r s1)
            else Some s1) = Some s2"
    and s': "(case callback (timers s2 r) of None \<Rightarrow> Some s2
      | Some cb \<Rightarrow> run_callback ucb cb (arg (timers s2 r)) s2) = Some s'"
    by (auto simp: expire_one_def bind_Some_iff)
  note E = erased_fired [OF s1 d]
  have f2: "fired r s s2 \<and> nd_interrupt_nest_count s2 = nd_interrupt_nest_count s"
  proof (cases "timer_type (timers s1 r)")
    case ND_TIMER_TYPE_ONE_SHOT
    with s2 E show ?thesis by simp
  next
    case ND_TIMER_TYPE_PERIODIC
    with s2 have "timer_node_insert r (upd_timer (\<lambda>t. t\<lparr>expire_time := expire_time t + timeout t\<rparr>) r s1) = Some s2"
      by simp
    note I = reinsert_fired [OF this E(2,4)]
    from E(1) show ?thesis unfolding fired_def
      using ND_TIMER_TYPE_PERIODIC by (simp add: I(1,3,4,5,6,7) I(2) E(3,5,6,7) [symmetric])
  qed
  show ?thesis
  proof (cases "callback (timers s2 r)")
    case None
    with s' f2 show ?thesis by simp
  next
    case (Some cb)
    then have "run_callback ucb cb (arg (timers s2 r)) s2 = Some s'" using s' by simp
    from run_callback_calm [OF this _ q] f2 n show ?thesis unfolding calm_def fired_def by simp
  qed
qed

text \<open>How far the due timers are behind; every round makes this smaller.\<close>

definition lateness :: "kstate \<Rightarrow> timer_ref \<Rightarrow> nat" where
  "lateness s r = (if expire_time (timers s r) \<le> now s
                   then Suc (unat (now s) - unat (expire_time (timers s r))) else 0)"

definition backlog :: "kstate \<Rightarrow> nat" where
  "backlog s = (\<Sum>r \<in> set (rbtree s). lateness s r)"

definition steady :: "kstate \<Rightarrow> bool" where
  "steady s \<longleftrightarrow> (\<forall>r \<in> set (rbtree s). timer_type (timers s r) = ND_TIMER_TYPE_PERIODIC \<longrightarrow>
     0 < timeout (timers s r) \<and> unat (now s) + unat (timeout (timers s r)) < 2 ^ 64)"

lemma fired_steady: 
  assumes "steady s" and "fired r s s'" and r: "r \<in> set (rbtree s)"
  shows "steady s'"
  unfolding steady_def
proof (intro ballI impI)
  fix x assume x: "x \<in> set (rbtree s')" "timer_type (timers s' x) = ND_TIMER_TYPE_PERIODIC"
  show "0 < timeout (timers s' x) \<and> unat (now s') + unat (timeout (timers s' x)) < 2 ^ 64"
  proof (cases "x = r")
    case True
    with x assms show ?thesis by (simp add: fired_def steady_def)
  next
    case False
    with x assms show ?thesis by (simp add: fired_def steady_def)
  qed
qed

lemma fired_backlog:
  assumes st: "steady s" and f: "fired r s s'" and d: "due s r"
  shows "backlog s' < backlog s"
proof -
  let ?S = "set (rbtree s)" and ?S' = "set (rbtree s')"
  have r: "r \<in> ?S" and e: "expire_time (timers s r) \<le> now s" using d by (simp_all add: due_def)
  have eq: "?S' - {r} = ?S - {r}" using f by (auto simp: fired_def)
  have lat: "lateness s' x = lateness s x" if "x \<noteq> r" for x using f that by (simp add: fired_def lateness_def)
  then have rest: "(\<Sum>x \<in> ?S' - {r}. lateness s' x) = (\<Sum>x \<in> ?S - {r}. lateness s x)"
    unfolding eq by (intro sum.cong) auto
  have own: "backlog s = lateness s r + (\<Sum>x \<in> ?S - {r}. lateness s x)"
    unfolding backlog_def using r by (simp add: sum.remove)
  show ?thesis
  proof (cases "r \<in> ?S'")
    case False
    then have "?S' - {r} = ?S'" by auto
    with own rest e show ?thesis by (simp add: backlog_def lateness_def)
  next
    case True
    then have p: "timer_type (timers s r) = ND_TIMER_TYPE_PERIODIC"
      "expire_time (timers s' r) = expire_time (timers s r) + timeout (timers s r)" and n: "now s' = now s"
      using f by (simp_all add: fired_def)
    then have t: "0 < timeout (timers s r)" "unat (now s) + unat (timeout (timers s r)) < 2 ^ 64"
      using st r by (auto simp: steady_def)
    have le: "unat (expire_time (timers s r)) \<le> unat (now s)" using e by (simp add: word_le_nat_alt)
    then have "unat (expire_time (timers s' r)) = unat (expire_time (timers s r)) + unat (timeout (timers s r))"
      unfolding p(2) using t(2) by (subst unat_add_lem [THEN iffD1]) auto
    moreover have "0 < unat (timeout (timers s r))" using t(1) by (simp add: unat_gt_0 word_gt_0)
    ultimately have "lateness s' r < lateness s r"
      using le e n by (auto simp: lateness_def word_le_nat_alt)
    moreover have "backlog s' = lateness s' r + (\<Sum>x \<in> ?S' - {r}. lateness s' x)"
      unfolding backlog_def using True by (simp add: sum.remove)
    ultimately show ?thesis using own rest by simp
  qed
qed

lemma timer_expired_total:
  assumes "kernel_ok i s" and "J s" and "callbacks_ok i J ucb" and "quiet ucb"
    and "nd_interrupt_nest_count s > 0" and "steady s"
  shows "wp (timer_expired ucb s) (\<lambda>s'. now s' = now s \<and>
           (\<forall>t. due s (ThreadTimer t) \<or> runnable (status s t) \<longrightarrow> runnable (status s' t)) \<and>
           (\<forall>r \<in> set (rbtree s). \<not> due s r \<longrightarrow> r \<in> set (rbtree s') \<and> timers s' r = timers s r))"
  using assms
proof (induction "backlog s" arbitrary: s rule: less_induct)
  case less
  note ok = less.prems(1) and J = less.prems(2) and cb = less.prems(3)
  note step = timer_expired_step [of ucb s]
  have tok: "timers_ok s" by (rule base_ok_timers_ok [OF kernel_okD(4) [OF ok]])
  show ?case
  proof (cases "get_leftmost_timer s")
    case None
    then have "rbtree s = []" by simp
    with None show ?thesis by (subst step) (simp add: due_def nd_hw_hrtimer_trigger_clear_def get_leftmost_timer_def)
  next
    case (Some r)
    then have mem: "r \<in> set (rbtree s)" by (auto simp: get_leftmost_Some)
    show ?thesis
    proof (cases "now s < expire_time (timers s r)")
      case True
      obtain h where h: "timer_rearm s = s\<lparr>hr := h\<rparr>" using timer_rearm_eq [of s] by auto
      have "\<not> due s x" for x using leftmost_least [OF tok Some, of x] True by (auto simp: due_def)
      with Some True h show ?thesis by (subst step) simp
    next
      case False
      then have d: "due s r" using mem by (simp add: due_def)
      have st: "timer_expired ucb s = Option.bind (expire_one ucb r s) (timer_expired ucb)"
        by (subst step) (use Some False in simp)
      obtain s1 where s1: "expire_one ucb r s = Some s1"
        and k1: "kernel_ok i s1" "J s1" "nd_interrupt_nest_count s1 = nd_interrupt_nest_count s"
        using expire_one_ok [OF ok mem cb J] by (auto simp: wp_iff)
      have f: "fired r s s1" by (rule expire_one_fired [OF s1 less.prems(5,4) tok mem])
      have n1: "nd_interrupt_nest_count s1 > 0" using less.prems(5) k1(3) by simp
      have b: "backlog s1 < backlog s" by (rule fired_backlog [OF less.prems(6) f d])
      have rt: "runnable (status s1 t)" if "r = ThreadTimer t" for t
        using wpD [OF expire_one_thread [OF ok] s1 [unfolded that]] mem that by auto
      have keep: "due s (ThreadTimer t) \<or> runnable (status s t) \<Longrightarrow>
          due s1 (ThreadTimer t) \<or> runnable (status s1 t)" for t
        using rt [of t] f by (cases "r = ThreadTimer t") (auto simp: due_def fired_def)
      have keep2: "x \<in> set (rbtree s1) \<and> timers s1 x = timers s x \<and> \<not> due s1 x"
        if "x \<in> set (rbtree s)" "\<not> due s x" for x
      proof -
        have "x \<noteq> r" using that d by auto
        with that f show ?thesis by (simp add: fired_def due_def)
      qed
      show ?thesis unfolding st wp_bind s1 wp_Some
      proof (rule wp_mono [OF less.hyps [OF b k1(1,2) cb less.prems(4) n1 fired_steady [OF less.prems(6) f mem]]])
        fix s' assume s': "now s' = now s1 \<and>
           (\<forall>t. due s1 (ThreadTimer t) \<or> runnable (status s1 t) \<longrightarrow> runnable (status s' t)) \<and>
           (\<forall>r \<in> set (rbtree s1). \<not> due s1 r \<longrightarrow> r \<in> set (rbtree s') \<and> timers s' r = timers s1 r)"
        have "now s' = now s" using s' f by (simp add: fired_def)
        moreover have "runnable (status s' t)" if "due s (ThreadTimer t) \<or> runnable (status s t)" for t
          using s' keep [OF that] by blast
        moreover have "x \<in> set (rbtree s') \<and> timers s' x = timers s x" if "x \<in> set (rbtree s)" "\<not> due s x" for x
          using s' keep2 [OF that] by metis
        ultimately show "now s' = now s \<and>
           (\<forall>t. due s (ThreadTimer t) \<or> runnable (status s t) \<longrightarrow> runnable (status s' t)) \<and>
           (\<forall>r \<in> set (rbtree s). \<not> due s r \<longrightarrow> r \<in> set (rbtree s') \<and> timers s' r = timers s r)" by blast
      qed
    qed
  qed
qed

section \<open>The tick interrupt\<close>

lemma kernel_ok_tick: "kernel_ok i (nd_hw_tick_update s) = kernel_ok i s"
  "scheduled (nd_hw_tick_update s) = scheduled s"
proof -
  have "thread_ok (nd_hw_tick_update s) t = thread_ok s t" for t
    by (simp add: thread_ok_def nd_hw_tick_update_def)
  then show "kernel_ok i (nd_hw_tick_update s) = kernel_ok i s"
    by (simp add: kernel_ok_def cur_ok_def cur_link_def kinv_def base_ok_def lists_ok_def timers_ok_def
        bits_ok_def user_ok_def nd_hw_tick_update_def)
  show "scheduled (nd_hw_tick_update s) = scheduled s"
    by (rule scheduled_cong) (simp_all add: nd_hw_tick_update_def)
qed

abbreviation ticked :: "kstate \<Rightarrow> kstate" where
  "ticked s \<equiv> nd_hw_tick_update (nd_enter_interrupt s)"

lemma ticked_fields:
  "threads (ticked s) = threads s" "timers (ticked s) = timers s" "rbtree (ticked s) = rbtree s"
  "now (ticked s) = now s + 1" "nd_interrupt_try_switch (ticked s) = nd_interrupt_try_switch s"
  "nd_interrupt_nest_count (ticked s) = nd_interrupt_nest_count s + 1"
  by (simp_all add: nd_hw_tick_update_def nd_enter_interrupt_def)

text \<open>One round of the interrupt handler: it ends, and every thread whose timer was due can run.\<close>

lemma isr_systick_ok:
  assumes ok: "kernel_ok i s" and sch: "scheduled s" and n: "nd_interrupt_nest_count s \<noteq> - 1"
    and J: "J (ticked s)" and cb: "callbacks_ok i J ucb" and q: "quiet ucb" and st: "steady (ticked s)"
  shows "wp (isr_systick ucb s) (\<lambda>s'. kernel_ok i s' \<and> now s' = now s + 1 \<and>
           (\<not> nd_interrupt_try_switch s' \<longrightarrow> scheduled s') \<and>
           nd_interrupt_nest_count s' = nd_interrupt_nest_count s \<and>
           (\<exists>s1. J s1 \<and> sync_frame (nd_exit_interrupt s1) s') \<and>
           (\<forall>t. due (ticked s) (ThreadTimer t) \<or> runnable (status s t) \<longrightarrow> runnable (status s' t)) \<and>
           (\<forall>r. (\<forall>t. r \<noteq> SliceTimer t) \<longrightarrow> \<not> due s' r))"
proof -
  let ?s = "ticked s"
  note E = nd_enter_interrupt_ok [OF ok n]
  have k1: "kernel_ok i ?s" and g1: "scheduled ?s" using E sch by (simp_all add: kernel_ok_tick)
  have n1: "nd_interrupt_nest_count ?s > 0" using E(3) by (simp add: nd_hw_tick_update_def)
  obtain s1 where s1: "timer_expired ucb ?s = Some s1" and w1: "now s1 = now ?s"
      "\<forall>t. due ?s (ThreadTimer t) \<or> runnable (status ?s t) \<longrightarrow> runnable (status s1 t)"
    using timer_expired_total [OF k1 J cb q n1 st] by (auto simp: wp_iff)
  have k2: "kernel_ok i s1" "J s1" "scheduled s1" "\<forall>r. \<not> due s1 r"
    "nd_interrupt_nest_count s1 = nd_interrupt_nest_count ?s"
    using timer_expired_ok [OF s1 k1 J cb] g1 by simp_all
  have n2: "nd_interrupt_nest_count s1 > 0" using k2(5) n1 by simp
  have "wp (nd_try_schedule_irqsave (nd_exit_interrupt s1)) (\<lambda>s'. kernel_ok i s' \<and> now s' = now s + 1 \<and>
           (\<not> nd_interrupt_try_switch s' \<longrightarrow> scheduled s') \<and>
           nd_interrupt_nest_count s' = nd_interrupt_nest_count s \<and>
           (\<exists>s1. J s1 \<and> sync_frame (nd_exit_interrupt s1) s') \<and>
           (\<forall>t. due (ticked s) (ThreadTimer t) \<or> runnable (status s t) \<longrightarrow> runnable (status s' t)) \<and>
           (\<forall>r. (\<forall>t. r \<noteq> SliceTimer t) \<longrightarrow> \<not> due s' r))"
  proof (rule wp_mono [OF exit_then_try_schedule_ok [OF k2(1) n2 k2(3)]], elim conjE)
    fix s' assume s': "kernel_ok i s'" "sync_frame (nd_exit_interrupt s1) s'" "sched_frame (nd_exit_interrupt s1) s'"
      "\<not> nd_interrupt_try_switch s' \<longrightarrow> scheduled s'"
    have a: "now s' = now s + 1" "nd_interrupt_nest_count s' = nd_interrupt_nest_count s"
      using sync_frameD(9,10) [OF s'(2)] w1 k2(5) by (simp_all add: nd_exit_interrupt_def ticked_fields)
    have b: "runnable (status s' t)" if "due ?s (ThreadTimer t) \<or> runnable (status s t)" for t
      using runnable_frame [OF s'(3), of t] w1(2) that
      by (auto simp: nd_exit_interrupt_def ticked_fields)
    have c: "\<not> due s' r" if "\<forall>t. r \<noteq> SliceTimer t" for r
      using sched_frameD(5,6) [OF s'(3), of r] that k2(4) a(1) w1(1)
      by (auto simp: due_def nd_exit_interrupt_def ticked_fields)
    show "kernel_ok i s' \<and> now s' = now s + 1 \<and>
           (\<not> nd_interrupt_try_switch s' \<longrightarrow> scheduled s') \<and>
           nd_interrupt_nest_count s' = nd_interrupt_nest_count s \<and>
           (\<exists>s1. J s1 \<and> sync_frame (nd_exit_interrupt s1) s') \<and>
           (\<forall>t. due (ticked s) (ThreadTimer t) \<or> runnable (status s t) \<longrightarrow> runnable (status s' t)) \<and>
           (\<forall>r. (\<forall>t. r \<noteq> SliceTimer t) \<longrightarrow> \<not> due s' r)"
      using s' a b c k2(2) by blast
  qed
  then show ?thesis by (simp add: isr_systick_def nd_timer_process_def s1 Let_def)
qed

section \<open>Properties\<close>


lemma no_callbacks: "callbacks_ok i (\<lambda>_. True) (\<lambda>n a s. Some s)" "quiet (\<lambda>n a s. Some s)"
  by (simp_all add: callbacks_ok_def quiet_def)


text \<open>C12: starting a timer. It is in the queue of pending timers exactly once, with its deadline at now
  plus its timeout (saturated in tickless mode), behind the timers that expire no later and before
  those that expire later; the queue stays sorted and the hardware timer stays programmed for
  its head.\<close>

theorem timer_start_correct:
  assumes ok: "timers_ok s" and cb: "callback (timers s r) \<noteq> None" and h: "hr_ok s"
  shows "wp (nd_timer_start (Some r) s) (\<lambda>(e, s'). e = ND_EOK \<and> timers_ok s' \<and> hr_ok s' \<and>
           r \<in> set (rbtree s') \<and> expire_time (timers s' r) = expiry s (timeout (timers s r)) \<and>
           (\<exists>a b. rbtree s' = a @ r # b \<and> remove1 r (rbtree s) = a @ b \<and>
              (\<forall>x \<in> set a. expire_time (timers s' x) \<le> expire_time (timers s' r)) \<and>
              (\<forall>x \<in> set b. expire_time (timers s' r) < expire_time (timers s' x))))"
proof (rule wp_pair_mono [OF nd_timer_start_ok [OF ok cb]], elim conjE)
  fix e s'
  assume s': "e = ND_EOK" "timers_ok s'" "hr_ok s \<longrightarrow> hr_ok s'"
    "rbtree s' = insort_after (\<lambda>x. expire_time (timers s' x)) r (remove1 r (rbtree s))"
    "expire_time (timers s' r) = (if tickless s then deadline (timeout (timers s r)) (now s)
              else now s + timeout (timers s r))"
  let ?f = "\<lambda>x. expire_time (timers s' x)"
  define a where "a = takeWhile (\<lambda>y. ?f y \<le> ?f r) (remove1 r (rbtree s))"
  define b where "b = dropWhile (\<lambda>y. ?f y \<le> ?f r) (remove1 r (rbtree s))"
  have q: "rbtree s' = a @ r # b" using s'(4) unfolding insort_after_def a_def b_def .
  have ab: "remove1 r (rbtree s) = a @ b" by (simp add: a_def b_def)
  have "sorted (map ?f (rbtree s'))" by (rule timers_okD(2) [OF s'(2)])
  then have srt: "sorted (map ?f b)" by (simp add: q sorted_append)
  have lt: "?f r < ?f x" if "x \<in> set b" for x
  proof (cases b)
    case Nil
    with that show ?thesis by simp
  next
    case (Cons y ys)
    then have "\<not> ?f y \<le> ?f r"
      using hd_dropWhile [of "\<lambda>y. ?f y \<le> ?f r" "remove1 r (rbtree s)"] unfolding b_def by simp
    moreover have "?f y \<le> ?f x" using srt that Cons by auto
    ultimately show ?thesis by simp
  qed
  have le: "?f x \<le> ?f r" if "x \<in> set a" for x
    using set_takeWhileD [OF that [unfolded a_def]] by simp
  from q ab lt le have "\<exists>a b. rbtree s' = a @ r # b \<and> remove1 r (rbtree s) = a @ b \<and>
              (\<forall>x \<in> set a. ?f x \<le> ?f r) \<and> (\<forall>x \<in> set b. ?f r < ?f x)" by blast
  moreover have "r \<in> set (rbtree s')" unfolding q by simp
  ultimately show "e = ND_EOK \<and> timers_ok s' \<and> hr_ok s' \<and> r \<in> set (rbtree s') \<and>
      expire_time (timers s' r) = expiry s (timeout (timers s r)) \<and>
      (\<exists>a b. rbtree s' = a @ r # b \<and> remove1 r (rbtree s) = a @ b \<and>
              (\<forall>x \<in> set a. ?f x \<le> ?f r) \<and> (\<forall>x \<in> set b. ?f r < ?f x))"
    using s'(1,2,3,5) h by (simp add: expiry_def)
qed

theorem timer_start_witness:
  "wp (nd_timer_start (Some (UserTimer 0)) (sample SwitchDeferred)) (\<lambda>(e, s'). e = ND_EOK \<and>
     expire_time (timers s' (UserTimer 0)) = 70)"
  by (rule wp_pair_mono [OF timer_start_correct [OF sample_timers_ok]])
    (simp_all add: sample_defs hr_ok_def expiry_def)

text \<open>Stopping a timer. It is no longer pending, nothing else in the queue changes, and stopping it
  again, or before it was ever started, does nothing to the queue.\<close>

theorem timer_stop_correct:
  assumes ok: "timers_ok s" and h: "hr_ok s"
  shows "wp (nd_timer_stop (Some r) s) (\<lambda>(e, s'). e = ND_EOK \<and> timers_ok s' \<and> hr_ok s' \<and>
           r \<notin> set (rbtree s') \<and> rbtree s' = filter (\<lambda>x. x \<noteq> r) (rbtree s) \<and>
           wp (nd_timer_stop (Some r) s') (\<lambda>(e', s''). e' = ND_EOK \<and> rbtree s'' = rbtree s'))"
proof (rule wp_pair_mono [OF nd_timer_stop_ok [OF ok]], elim conjE)
  fix e s' assume s': "e = ND_EOK" "timers_ok s'" "rbtree s' = remove1 r (rbtree s)" "hr_ok s \<longrightarrow> hr_ok s'"
  have d: "distinct (rbtree s)" by (rule timers_okD(1) [OF ok])
  have again: "wp (nd_timer_stop (Some r) s') (\<lambda>(e', s''). e' = ND_EOK \<and> rbtree s'' = rbtree s')"
    by (rule wp_pair_mono [OF nd_timer_stop_ok [OF s'(2)]]) (use d s'(3) in \<open>simp add: remove1_idem\<close>)
  show "e = ND_EOK \<and> timers_ok s' \<and> hr_ok s' \<and> r \<notin> set (rbtree s') \<and>
      rbtree s' = filter (\<lambda>x. x \<noteq> r) (rbtree s) \<and>
      wp (nd_timer_stop (Some r) s') (\<lambda>(e', s''). e' = ND_EOK \<and> rbtree s'' = rbtree s')"
    using s' h d again by (simp add: distinct_remove1_removeAll removeAll_filter_not_eq)
      (metis (mono_tags, lifting))
qed

theorem timer_stop_witness:
  "wp (nd_timer_stop (Some (ThreadTimer 7)) (sample SwitchDeferred)) (\<lambda>(e, s'). rbtree s' = [])"
  by (rule wp_pair_mono [OF timer_stop_correct [OF sample_timers_ok]]) (simp_all add: sample_defs hr_ok_def)

end
