(* ===== verification/Nd_Fifo.thy ===== *)
theory Nd_Fifo
  imports Nd_Prelude
begin

text \<open>
  The contract of a bounded first-in first-out buffer, which the message queues
  (\<^verbatim>\<open>kernel/nd_queue.c\<close>) and the receive ring of the shell's UART
  (\<^verbatim>\<open>bsp/raspi-pico2/shell_port.c\<close>) promise.
\<close>

text \<open>Putting a list of messages one by one, and getting \<open>n\<close> of them.\<close>

fun put_all :: "('m \<Rightarrow> 'q \<Rightarrow> 'q option) \<Rightarrow> 'm list \<Rightarrow> 'q \<Rightarrow> 'q option" where
  "put_all put [] q = Some q"
| "put_all put (m # ms) q = Option.bind (put m q) (put_all put ms)"

fun get_all :: "('q \<Rightarrow> ('m \<times> 'q) option) \<Rightarrow> nat \<Rightarrow> 'q \<Rightarrow> ('m list \<times> 'q) option" where
  "get_all get 0 q = Some ([], q)"
| "get_all get (Suc n) q =
     Option.bind (get q) (\<lambda>(m, q1). map_option (\<lambda>(ms, q2). (m # ms, q2)) (get_all get n q1))"

locale fifo =
  fixes ok :: "'q \<Rightarrow> bool" and cap :: "'q \<Rightarrow> nat" and contents :: "'q \<Rightarrow> 'm list"
    and good :: "'q \<Rightarrow> 'm \<Rightarrow> bool" and put :: "'m \<Rightarrow> 'q \<Rightarrow> 'q option" and get :: "'q \<Rightarrow> ('m \<times> 'q) option"
  assumes put_law: "ok q \<Longrightarrow> good q m \<Longrightarrow> length (contents q) < cap q \<Longrightarrow>
      wp (put m q) (\<lambda>q'. ok q' \<and> contents q' = contents q @ [m] \<and> cap q' = cap q \<and> good q' = good q)"
    and get_law: "ok q \<Longrightarrow> contents q \<noteq> [] \<Longrightarrow>
      wp (get q) (\<lambda>(m, q'). ok q' \<and> contents q = m # contents q' \<and> cap q' = cap q \<and> good q' = good q)"
    and bounded: "ok q \<Longrightarrow> length (contents q) \<le> cap q"
begin

lemma put_all_law:
  assumes "ok q" and "\<forall>m \<in> set ms. good q m" and "length (contents q) + length ms \<le> cap q"
  shows "wp (put_all put ms q) (\<lambda>q'. ok q' \<and> contents q' = contents q @ ms \<and> cap q' = cap q \<and> good q' = good q)"
  using assms
proof (induction ms arbitrary: q)
  case (Cons m ms)
  have "wp (put m q) (\<lambda>q'. ok q' \<and> contents q' = contents q @ [m] \<and> cap q' = cap q \<and> good q' = good q)"
    by (rule put_law) (use Cons.prems in simp_all)
  then have "wp (put m q) (\<lambda>q1. wp (put_all put ms q1)
      (\<lambda>q'. ok q' \<and> contents q' = contents q @ m # ms \<and> cap q' = cap q \<and> good q' = good q))"
  proof (rule wp_mono, elim conjE)
    fix q1 assume q1: "ok q1" "contents q1 = contents q @ [m]" "cap q1 = cap q" "good q1 = good q"
    show "wp (put_all put ms q1) (\<lambda>q'. ok q' \<and> contents q' = contents q @ m # ms \<and> cap q' = cap q \<and> good q' = good q)"
      by (rule wp_mono [OF Cons.IH [OF q1(1)]]) (use q1 Cons.prems in simp_all)
  qed
  then show ?case by simp
qed simp

lemma get_all_law:
  assumes "ok q" and "contents q = xs @ ys"
  shows "wp (get_all get (length xs) q) (\<lambda>(ms, q'). ms = xs \<and> ok q' \<and> contents q' = ys \<and> cap q' = cap q \<and> good q' = good q)"
  using assms
proof (induction xs arbitrary: q)
  case (Cons x xs)
  then have "contents q \<noteq> []" by simp
  have "wp (get q) (\<lambda>(m, q1). wp (get_all get (length xs) q1)
      (\<lambda>(ms, q'). m # ms = x # xs \<and> ok q' \<and> contents q' = ys \<and> cap q' = cap q \<and> good q' = good q))"
  proof (rule wp_pair_mono [OF get_law [OF Cons.prems(1) \<open>contents q \<noteq> []\<close>]], elim conjE)
    fix m q1 assume q1: "ok q1" "contents q = m # contents q1" "cap q1 = cap q" "good q1 = good q"
    then have "contents q1 = xs @ ys" "m = x" using Cons.prems(2) by simp_all
    then show "wp (get_all get (length xs) q1)
      (\<lambda>(ms, q'). m # ms = x # xs \<and> ok q' \<and> contents q' = ys \<and> cap q' = cap q \<and> good q' = good q)"
      by (intro wp_pair_mono [OF Cons.IH [OF q1(1)]]) (use q1 in simp_all)
  qed
  then show ?case by (simp add: case_prod_unfold)
qed simp

text \<open>What goes in comes out, in order, and leaves the buffer empty.\<close>

lemma drain:
  assumes "ok q" and "\<forall>m \<in> set ms. good q m" and "length (contents q) + length ms \<le> cap q"
  shows "wp (put_all put ms q) (\<lambda>q'. wp (get_all get (length (contents q) + length ms) q')
           (\<lambda>(xs, q''). xs = contents q @ ms \<and> contents q'' = [] \<and> ok q''))"
proof (rule wp_mono [OF put_all_law [OF assms]], elim conjE)
  fix q' assume q': "ok q'" "contents q' = contents q @ ms"
  have "wp (get_all get (length (contents q @ ms)) q') (\<lambda>(xs, q''). xs = contents q @ ms \<and> contents q'' = [] \<and> ok q'')"
    by (rule wp_pair_mono [OF get_all_law [OF q'(1), of _ "[]"]]) (use q' in simp_all)
  then show "wp (get_all get (length (contents q) + length ms) q')
           (\<lambda>(xs, q''). xs = contents q @ ms \<and> contents q'' = [] \<and> ok q'')" by simp
qed

end

end
