(* ===== verification/Nd_Queue.thy ===== *)
theory Nd_Queue
  imports Nd_Thread Nd_Fifo
begin

text \<open>
  Message queues (\<^verbatim>\<open>kernel/nd_queue.c\<close>): a ring of \<open>max_msgs\<close> slots of \<open>msg_size\<close> bytes with
  free-running 32-bit read and write counters, a list of threads waiting to send and one of threads
  waiting to receive. The ring by itself (\<open>ring_put\<close>, \<open>ring_get\<close>) is an instance of the
  \<open>fifo\<close> contract; the calls are shown to keep the kernel's invariant on the ports that switch at
  once, and to fault on the ports that defer the switch when they have to wait.
\<close>


section \<open>Operations\<close>

text \<open>Reading and writing a slice of the buffer; outside it the C code corrupts memory: a fault.\<close>

definition write_bytes :: "nat \<Rightarrow> u8 list \<Rightarrow> u8 list \<Rightarrow> u8 list option" where
  "write_bytes off bs b =
     (if off + length bs \<le> length b then Some (take off b @ bs @ drop (off + length bs) b) else None)"

definition read_bytes :: "nat \<Rightarrow> nat \<Rightarrow> u8 list \<Rightarrow> u8 list option" where
  "read_bytes off n b = (if off + n \<le> length b then Some (take n (drop off b)) else None)"

text \<open>\<^verbatim>\<open>(ptr & (max_msgs - 1)) * msg_size\<close>, in 32 bits.\<close>

definition slot :: "nd_queue \<Rightarrow> u32 \<Rightarrow> nat" where
  "slot q p = unat ((p AND (max_msgs q - 1)) * msg_size q)"

definition nd_queue_init :: "nat \<Rightarrow> u8 list \<Rightarrow> u32 \<Rightarrow> u32 \<Rightarrow> kstate \<Rightarrow> (nd_err \<times> kstate) option" where
  "nd_queue_init i b msz mx s =
     (if mx AND (mx - 1) \<noteq> 0 \<or> mx < 1 then Some (ND_EINVAL, s)
      else do {
        let s1 = upd_queue (\<lambda>q. q\<lparr>buf := b, msg_size := msz, max_msgs := mx, used_msg := 0,
                                  write_ptr := 0, read_ptr := 0\<rparr>) i s;
        s2 \<leftarrow> q_init (ReadWait i) s1;
        s3 \<leftarrow> q_init (SendWait i) s2;
        Some (ND_EOK, s3)
      })"

text \<open>The part after the loop: the message is copied, and the first waiter of the other side woken.\<close>

definition ring_put :: "u8 list \<Rightarrow> nd_queue \<Rightarrow> nd_queue option" where
  "ring_put msg q = do {
     b \<leftarrow> write_bytes (slot q (write_ptr q)) msg (buf q);
     Some (q\<lparr>buf := b, write_ptr := write_ptr q + 1, used_msg := used_msg q + 1\<rparr>)
   }"

definition ring_get :: "nd_queue \<Rightarrow> (u8 list \<times> nd_queue) option" where
  "ring_get q = do {
     msg \<leftarrow> read_bytes (slot q (read_ptr q)) (unat (msg_size q)) (buf q);
     Some (msg, q\<lparr>read_ptr := read_ptr q + 1, used_msg := used_msg q - 1\<rparr>)
   }"

definition queue_put :: "nat \<Rightarrow> u8 list \<Rightarrow> kstate \<Rightarrow> kstate option" where
  "queue_put i msg s = do {
     assert_ok (length msg = unat (msg_size (queues s i)));
     q \<leftarrow> ring_put msg (queues s i);
     let s1 = upd_queue (\<lambda>_. q) i s;
     if \<not> q_is_empty (ReadWait i) s1 then do {
       (_, s2) \<leftarrow> nd_thread_wakeup (ReadWait i) s1;
       nd_scheduler s2
     }
     else Some s1
   }"

definition queue_get :: "nat \<Rightarrow> kstate \<Rightarrow> (u8 list \<times> kstate) option" where
  "queue_get i s = do {
     (msg, q) \<leftarrow> ring_get (queues s i);
     let s1 = upd_queue (\<lambda>_. q) i s;
     if \<not> q_is_empty (SendWait i) s1 then do {
       (_, s2) \<leftarrow> nd_thread_wakeup (SendWait i) s1;
       s3 \<leftarrow> nd_scheduler s2;
       Some (msg, s3)
     }
     else Some (msg, s1)
   }"

text \<open>
  The loops. What a caller that has to wait does between two tests of the count is one \<open>wait_pass\<close>. When \<open>nd_scheduler\<close>
  has switched to another thread, the caller goes on later, at the test of its error (\<open>queue_send_resume\<close>,
  \<open>queue_recv_resume\<close>): it is \<open>Away\<close>, and the result of the call is \<open>None\<close>. When it has not, because the switch is
  deferred to PendSV or to the end of the interrupt, the caller makes the test at once and goes round \<open>Again\<close>.
\<close>

datatype pass = Away | Again | Stop nd_err

definition wait_pass :: "list_head \<Rightarrow> u64 \<Rightarrow> kstate \<Rightarrow> (pass \<times> kstate) option" where
  "wait_pass k tmo s = do {
     s1 \<leftarrow> nd_thread_pend k tmo s;
     s2 \<leftarrow> nd_scheduler s1;
     if nd_current_thread s2 \<noteq> nd_current_thread s then Some (Away, s2)
     else do {
       c \<leftarrow> nd_current_thread s2;
       Some (if error (threads s2 c) = ND_ETIMEOUT then Stop (error (threads s2 c)) else Again, s2)
     }
   }"

partial_function (option) nd_queue_send ::
  "nat \<Rightarrow> u8 list \<Rightarrow> u64 \<Rightarrow> kstate \<Rightarrow> (nd_err option \<times> kstate) option" where
  "nd_queue_send i msg tmo s =
     (if used_msg (queues s i) = max_msgs (queues s i) then
        if tmo = ND_TIMEOUT_NOWAIT then Some (Some ND_EFULL, s)
        else
          Option.bind (wait_pass (SendWait i) tmo s) (\<lambda>(p, s1).
            case p of Away \<Rightarrow> Some (None, s1) | Stop e \<Rightarrow> Some (Some e, s1) | Again \<Rightarrow> nd_queue_send i msg tmo s1)
      else map_option (\<lambda>s1. (Some ND_EOK, s1)) (queue_put i msg s))"

definition queue_send_resume ::
  "nat \<Rightarrow> u8 list \<Rightarrow> u64 \<Rightarrow> kstate \<Rightarrow> (nd_err option \<times> kstate) option" where
  "queue_send_resume i msg tmo s = do {
     c \<leftarrow> nd_current_thread s;
     if error (threads s c) = ND_ETIMEOUT then Some (Some (error (threads s c)), s)
     else nd_queue_send i msg tmo s
   }"

partial_function (option) nd_queue_recv ::
  "nat \<Rightarrow> u64 \<Rightarrow> kstate \<Rightarrow> ((nd_err \<times> u8 list) option \<times> kstate) option" where
  "nd_queue_recv i tmo s =
     (if used_msg (queues s i) = 0 then
        if tmo = ND_TIMEOUT_NOWAIT then Some (Some (ND_EEMPTY, []), s)
        else
          Option.bind (wait_pass (ReadWait i) tmo s) (\<lambda>(p, s1).
            case p of Away \<Rightarrow> Some (None, s1) | Stop e \<Rightarrow> Some (Some (e, []), s1) | Again \<Rightarrow> nd_queue_recv i tmo s1)
      else map_option (\<lambda>(msg, s1). (Some (ND_EOK, msg), s1)) (queue_get i s))"

definition queue_recv_resume ::
  "nat \<Rightarrow> u64 \<Rightarrow> kstate \<Rightarrow> ((nd_err \<times> u8 list) option \<times> kstate) option" where
  "queue_recv_resume i tmo s = do {
     c \<leftarrow> nd_current_thread s;
     if error (threads s c) = ND_ETIMEOUT then Some (Some (error (threads s c), []), s)
     else nd_queue_recv i tmo s
   }"

section \<open>The ring buffer\<close>

text \<open>A queue holds a sequence of messages; \<open>msgs\<close> reads them off the ring.\<close>

definition queue_ok :: "nd_queue \<Rightarrow> bool" where
  "queue_ok q \<longleftrightarrow> (\<exists>k<32. max_msgs q = 2 ^ k) \<and> used_msg q \<le> max_msgs q \<and>
     write_ptr q = read_ptr q + used_msg q \<and>
     unat (max_msgs q) * unat (msg_size q) < 2 ^ 32 \<and>
     length (buf q) = unat (max_msgs q) * unat (msg_size q)"

definition msg_at :: "nd_queue \<Rightarrow> u32 \<Rightarrow> u8 list" where
  "msg_at q p = take (unat (msg_size q)) (drop (slot q p) (buf q))"

definition msgs :: "nd_queue \<Rightarrow> u8 list list" where
  "msgs q = map (\<lambda>i. msg_at q (read_ptr q + of_nat i)) [0..<unat (used_msg q)]"

lemma unat_pow2: "k < 32 \<Longrightarrow> unat ((2 :: u32) ^ k) = 2 ^ k"
proof -
  assume "k < 32"
  then have "(2 :: nat) ^ k < 2 ^ 32" by (intro power_strict_increasing) simp_all
  then have "unat (of_nat (2 ^ k) :: u32) = 2 ^ k" by (simp only: unat_of_nat) simp
  then show ?thesis by simp
qed

lemma mask_mod: "unat ((p :: u32) AND (2 ^ k - 1)) = unat p mod 2 ^ k"
proof -
  have "p AND (2 ^ k - 1) = take_bit k p" by (simp add: take_bit_eq_mask mask_eq_exp_minus_1)
  moreover have "unat (take_bit k p) = take_bit k (unat p)" by (rule unsigned_take_bit_eq)
  ultimately show ?thesis by (simp only: take_bit_eq_mod [where 'a = nat])
qed

lemma queue_okD:
  assumes "queue_ok q"
  shows "0 < unat (max_msgs q)" "unat (max_msgs q) dvd 2 ^ 32" "unat (used_msg q) \<le> unat (max_msgs q)"
    "unat (max_msgs q) * unat (msg_size q) < 2 ^ 32"
    "length (buf q) = unat (max_msgs q) * unat (msg_size q)" "write_ptr q = read_ptr q + used_msg q"
proof -
  obtain k where k: "k < 32" "max_msgs q = 2 ^ k" using assms by (auto simp: queue_ok_def)
  then have m: "unat (max_msgs q) = 2 ^ k" using unat_pow2 by simp
  show "0 < unat (max_msgs q)" unfolding m by simp
  show "unat (max_msgs q) dvd 2 ^ 32" unfolding m using k(1) by (intro le_imp_power_dvd) simp
  show "unat (used_msg q) \<le> unat (max_msgs q)" "unat (max_msgs q) * unat (msg_size q) < 2 ^ 32"
    "length (buf q) = unat (max_msgs q) * unat (msg_size q)" "write_ptr q = read_ptr q + used_msg q"
    using assms by (simp_all add: queue_ok_def word_le_nat_alt)
qed

lemma slot_eq:
  assumes "queue_ok q"
  shows "slot q p = unat p mod unat (max_msgs q) * unat (msg_size q)"
proof -
  note Q = queue_okD [OF assms]
  obtain k where k: "k < 32" "max_msgs q = 2 ^ k" using assms by (auto simp: queue_ok_def)
  then have m: "unat (p AND (max_msgs q - 1)) = unat p mod unat (max_msgs q)"
    using mask_mod [of p k] unat_pow2 [OF k(1)] by simp
  have "unat p mod unat (max_msgs q) * unat (msg_size q) \<le> unat (max_msgs q) * unat (msg_size q)"
    using Q(1) by (intro mult_le_mono1) (simp add: less_imp_le)
  with Q(4) have "unat (p AND (max_msgs q - 1)) * unat (msg_size q) < 2 ^ 32" unfolding m by linarith
  then have "unat ((p AND (max_msgs q - 1)) * msg_size q) = unat (p AND (max_msgs q - 1)) * unat (msg_size q)"
    by (simp add: unat_word_ariths)
  then show ?thesis unfolding slot_def m .
qed

text \<open>Two positions of the ring less than its size apart are different slots.\<close>

lemma mod_add_neq:
  assumes "a mod m = (a + d) mod m" and "d < (m :: nat)"
  shows "d = 0"
proof -
  from assms(1) have "m dvd (a + d) - a" by (metis mod_eq_dvd_iff_nat le_add1)
  with assms(2) show ?thesis by (auto dest: dvd_imp_le)
qed

lemma unat_add_mod:
  assumes "m dvd 2 ^ 32"
  shows "unat ((p :: u32) + of_nat i) mod m = (unat p + i) mod m"
proof -
  have "unat (p + of_nat i) = (unat p + i) mod 2 ^ 32" by (simp add: unat_word_ariths unat_of_nat mod_simps)
  then show ?thesis using assms by (simp add: mod_mod_cancel)
qed

text \<open>What is written at one slot, and what it leaves alone.\<close>

lemma write_bytes_at:
  assumes "off + length bs \<le> length b" and "write_bytes off bs b = Some b'"
  shows "length b' = length b" and "take (length bs) (drop off b') = bs"
    and "x + n \<le> off \<or> off + length bs \<le> x \<Longrightarrow> take n (drop x b') = take n (drop x b)"
proof -
  have b': "b' = take off b @ bs @ drop (off + length bs) b" using assms by (simp add: write_bytes_def)
  have l: "length (take off b) = off" "min (length b) off = off" using assms(1) by simp_all
  show lb: "length b' = length b" using assms(1) by (simp add: b')
  show "take (length bs) (drop off b') = bs" by (simp add: b' l)
  assume x: "x + n \<le> off \<or> off + length bs \<le> x"
  show "take n (drop x b') = take n (drop x b)"
  proof (intro nth_equalityI)
    show len: "length (take n (drop x b')) = length (take n (drop x b))"
      by (simp add: lb)
    fix j assume j: "j < length (take n (drop x b'))"
    have "x + j < off \<or> off + length bs \<le> x + j" using x j by auto
    moreover have "x + j < length b" using j lb by (auto simp: less_diff_conv)
    ultimately have "b' ! (x + j) = b ! (x + j)"
      using assms(1) by (auto simp: b' nth_append)
    moreover have "x \<le> length b" using \<open>x + j < length b\<close> by simp
    ultimately show "take n (drop x b') ! j = take n (drop x b) ! j" using j lb by simp
  qed
qed

lemma slots_apart:
  assumes ok: "queue_ok q" and ij: "i < j" "j - i < unat (max_msgs q)"
  shows "slot q (p + of_nat i) + unat (msg_size q) \<le> slot q (p + of_nat j) \<or>
         slot q (p + of_nat j) + unat (msg_size q) \<le> slot q (p + of_nat i)"
proof -
  let ?m = "unat (max_msgs q)" and ?n = "unat (msg_size q)"
  let ?a = "(unat p + i) mod ?m" and ?b = "(unat p + j) mod ?m"
  have "?a \<noteq> ?b"
  proof
    assume "?a = ?b"
    then have "(unat p + i) mod ?m = ((unat p + i) + (j - i)) mod ?m" using ij(1) by simp
    from mod_add_neq [OF this ij(2)] ij(1) show False by simp
  qed
  then have "Suc ?a \<le> ?b \<or> Suc ?b \<le> ?a" by linarith
  then have "Suc ?a * ?n \<le> ?b * ?n \<or> Suc ?b * ?n \<le> ?a * ?n" using mult_le_mono1 by blast
  then show ?thesis
    unfolding slot_eq [OF ok] unat_add_mod [OF queue_okD(2) [OF ok]] by (simp add: add.commute)
qed

lemma slot_bound:
  assumes ok: "queue_ok q"
  shows "slot q p + unat (msg_size q) \<le> length (buf q)"
proof -
  have "Suc (unat p mod unat (max_msgs q)) \<le> unat (max_msgs q)"
    using queue_okD(1) [OF ok] by (simp add: Suc_leI)
  then have "Suc (unat p mod unat (max_msgs q)) * unat (msg_size q) \<le> unat (max_msgs q) * unat (msg_size q)"
    by (rule mult_le_mono1)
  then show ?thesis unfolding slot_eq [OF ok] queue_okD(5) [OF ok] by simp
qed

lemma ring_put_ok:
  assumes ok: "queue_ok q" and len: "length msg = unat (msg_size q)" and room: "used_msg q \<noteq> max_msgs q"
  shows "wp (ring_put msg q) (\<lambda>q'. queue_ok q' \<and> msgs q' = msgs q @ [msg] \<and>
           max_msgs q' = max_msgs q \<and> msg_size q' = msg_size q)"
proof -
  let ?n = "unat (msg_size q)" and ?u = "unat (used_msg q)" and ?m = "unat (max_msgs q)"
  note Q = queue_okD [OF ok]
  have um: "?u < ?m" using Q(3) room by (metis le_neq_implies_less word_unat_eq_iff)
  have "used_msg q < max_msgs q" using um by (simp add: word_less_nat_alt)
  have "?m < 2 ^ LENGTH(32)" by (rule unsigned_less)
  then have u1: "unat (used_msg q + 1) = Suc ?u" using um by (simp add: unat_word_ariths)
  have wp: "write_ptr q = read_ptr q + of_nat ?u" using Q(6) by simp
  let ?off = "slot q (write_ptr q)"
  have fit: "?off + length msg \<le> length (buf q)" using slot_bound [OF ok] len by simp
  then obtain b' where b': "write_bytes ?off msg (buf q) = Some b'" by (simp add: write_bytes_def)
  note W = write_bytes_at [OF fit b']
  define q' where "q' = q\<lparr>buf := b', write_ptr := write_ptr q + 1, used_msg := used_msg q + 1\<rparr>"
  have sl: "slot q' p = slot q p" for p by (simp add: q'_def slot_def)
  have "queue_ok q'"
    using ok um u1 W(1) by (auto simp: queue_ok_def q'_def word_le_nat_alt algebra_simps)
  moreover have "msg_at q' (read_ptr q' + of_nat i) = (msgs q @ [msg]) ! i" if i: "i < Suc ?u" for i
  proof (cases "i < ?u")
    case True
    then have "slot q (read_ptr q + of_nat i) + ?n \<le> ?off \<or> ?off + length msg \<le> slot q (read_ptr q + of_nat i)"
      using slots_apart [OF ok True, of "read_ptr q"] um wp len by auto
    from W(3) [OF this] True show ?thesis
      by (simp add: msg_at_def sl msgs_def nth_append) (simp add: q'_def)
  next
    case False
    with i have "i = ?u" by simp
    then have "of_nat i = used_msg q" by simp
    then have "slot q (read_ptr q + of_nat i) = ?off" using Q(6) by simp
    then show ?thesis using W(2) len \<open>i = ?u\<close>
      by (simp add: msg_at_def sl msgs_def nth_append) (simp add: q'_def)
  qed
  then have "msgs q' = msgs q @ [msg]"
    by (intro nth_equalityI) (simp_all add: msgs_def q'_def u1 del: upt_Suc)
  ultimately show ?thesis by (simp add: ring_put_def b' q'_def)
qed

lemma ring_get_ok:
  assumes ok: "queue_ok q" and some: "used_msg q \<noteq> 0"
  shows "wp (ring_get q) (\<lambda>(msg, q'). queue_ok q' \<and> msgs q = msg # msgs q' \<and>
           max_msgs q' = max_msgs q \<and> msg_size q' = msg_size q)"
proof -
  let ?u = "unat (used_msg q)"
  note Q = queue_okD [OF ok]
  let ?msg = "msg_at q (read_ptr q)"
  define q' where "q' = q\<lparr>read_ptr := read_ptr q + 1, used_msg := used_msg q - 1\<rparr>"
  have u0: "0 < ?u" using some by (simp add: unat_gt_0)
  have u1: "unat (used_msg q - 1) = ?u - 1" using u0 by (simp add: unat_minus_one some)
  have get: "ring_get q = Some (?msg, q')"
    using slot_bound [OF ok] by (simp add: ring_get_def read_bytes_def msg_at_def q'_def)
  have "queue_ok q'" using ok u1 u0
    by (auto simp: queue_ok_def q'_def word_le_nat_alt)
  moreover have "msgs q = ?msg # msgs q'"
  proof (rule nth_equalityI)
    show "length (msgs q) = length (?msg # msgs q')" using u0 u1 by (simp add: msgs_def q'_def)
    fix i assume "i < length (msgs q)"
    then have i: "i < ?u" by (simp add: msgs_def)
    show "msgs q ! i = (?msg # msgs q') ! i"
    proof (cases i)
      case 0
      with i show ?thesis by (simp add: msgs_def)
    next
      case (Suc j)
      with i u1 have j: "j < ?u - 1" "[0..<?u - 1] ! j = j" by simp_all
      with Suc i u1 show ?thesis by (simp add: msgs_def q'_def msg_at_def slot_def add.assoc)
    qed
  qed
  ultimately show ?thesis by (simp add: get q'_def)
qed

section \<open>Sending and receiving\<close>

lemma upd_queue_sel [simp]:
  "threads (upd_queue f i s) = threads s" "kernel_ok j (upd_queue f i s) = kernel_ok j s"
  "scheduled (upd_queue f i s) = scheduled s" "qlists (upd_queue f i s) = qlists s"
  "queues (upd_queue f i s) = (queues s)(i := f (queues s i))"
  "nd_current_thread (upd_queue f i s) = nd_current_thread s"
  "sems (upd_queue f i s) = sems s" "mutexes (upd_queue f i s) = mutexes s" "events (upd_queue f i s) = events s"
  by (simp_all add: upd_queue_def)

text \<open>The transfer and the wake-up of the other side.\<close>

lemma queue_put_ok:
  assumes ok: "kernel_ok i s" and q: "queue_ok (queues s j)" and room: "used_msg (queues s j) \<noteq> max_msgs (queues s j)"
    and len: "length msg = unat (msg_size (queues s j))"
  shows "wp (queue_put j msg s) (\<lambda>s'. kernel_ok i s' \<and> (scheduled s \<longrightarrow> scheduled s') \<and>
           queue_ok (queues s' j) \<and> msgs (queues s' j) = msgs (queues s j) @ [msg] \<and>
           (\<forall>k. k \<noteq> j \<longrightarrow> queues s' k = queues s k) \<and>
           sync_frame (upd_queue (\<lambda>_. queues s' j) j s) s' \<and>
           (case qlists s (ReadWait j) of [] \<Rightarrow> qlists s' = qlists s \<and> threads s' = threads s
            | t # L \<Rightarrow> qlists s' (ReadWait j) = L \<and> runnable (status s' t) \<and> error (threads s' t) = ND_EOK))"
proof -
  obtain r where r: "ring_put msg (queues s j) = Some r" "queue_ok r" "msgs r = msgs (queues s j) @ [msg]"
    using ring_put_ok [OF q len room] by (auto simp: wp_iff)
  let ?s = "upd_queue (\<lambda>_. r) j s"
  have k: "kernel_ok i ?s" using ok by simp
  note K = kernel_okD [OF k]
  show ?thesis
  proof (cases "qlists s (ReadWait j)")
    case Nil
    with r k len show ?thesis by (simp add: queue_put_def q_is_empty_def)
  next
    case (Cons t L)
    then have q': "qlists ?s (ReadWait j) = t # L" by simp
    have e: "queue_put j msg s = do { (_, s1) \<leftarrow> nd_thread_wakeup (ReadWait j) ?s; nd_scheduler s1 }"
      using r len Cons by (simp add: queue_put_def q_is_empty_def)
    show ?thesis unfolding e
    proof (rule wp_mono [OF wakeup_then_schedule [OF K(1-3) q' is_ready_simps(7)]], elim conjE)
      fix s' assume s': "kernel_ok i s'" "scheduled s'" "runnable (status s' t)" "error (threads s' t) = ND_EOK"
        and wf: "wait_frame (ReadWait j) L ?s s'"
      from s' r Cons wait_frameD(4) [OF wf] wait_frameD(11) [OF wf, of "ReadWait j"]
      show "kernel_ok i s' \<and> (scheduled s \<longrightarrow> scheduled s') \<and>
           queue_ok (queues s' j) \<and> msgs (queues s' j) = msgs (queues s j) @ [msg] \<and>
           (\<forall>k. k \<noteq> j \<longrightarrow> queues s' k = queues s k) \<and>
           sync_frame (upd_queue (\<lambda>_. queues s' j) j s) s' \<and>
           (case qlists s (ReadWait j) of [] \<Rightarrow> qlists s' = qlists s \<and> threads s' = threads s
            | t # L \<Rightarrow> qlists s' (ReadWait j) = L \<and> runnable (status s' t) \<and> error (threads s' t) = ND_EOK)"
        using sync_frame_wait [OF wf] by auto
    qed
  qed
qed

lemma queue_get_ok:
  assumes ok: "kernel_ok i s" and q: "queue_ok (queues s j)" and some: "used_msg (queues s j) \<noteq> 0"
  shows "wp (queue_get j s) (\<lambda>(msg, s'). kernel_ok i s' \<and> (scheduled s \<longrightarrow> scheduled s') \<and>
           queue_ok (queues s' j) \<and> msgs (queues s j) = msg # msgs (queues s' j) \<and>
           (\<forall>k. k \<noteq> j \<longrightarrow> queues s' k = queues s k) \<and>
           sync_frame (upd_queue (\<lambda>_. queues s' j) j s) s' \<and>
           (case qlists s (SendWait j) of [] \<Rightarrow> qlists s' = qlists s \<and> threads s' = threads s
            | t # L \<Rightarrow> qlists s' (SendWait j) = L \<and> runnable (status s' t) \<and> error (threads s' t) = ND_EOK))"
proof -
  obtain m r where r: "ring_get (queues s j) = Some (m, r)" "queue_ok r" "msgs (queues s j) = m # msgs r"
    using ring_get_ok [OF q some] by (auto simp: wp_iff)
  let ?s = "upd_queue (\<lambda>_. r) j s"
  have k: "kernel_ok i ?s" using ok by simp
  note K = kernel_okD [OF k]
  show ?thesis
  proof (cases "qlists s (SendWait j)")
    case Nil
    with r k show ?thesis by (simp add: queue_get_def q_is_empty_def)
  next
    case (Cons t L)
    then have q': "qlists ?s (SendWait j) = t # L" by simp
    have e: "queue_get j s = map_option (Pair m)
        (do { (_, s1) \<leftarrow> nd_thread_wakeup (SendWait j) ?s; nd_scheduler s1 })"
      using r Cons by (cases "nd_thread_wakeup (SendWait j) ?s")
        (auto simp: queue_get_def q_is_empty_def map_option_case split: option.splits)
    show ?thesis unfolding e wp_map_option prod.case
    proof (rule wp_mono [OF wakeup_then_schedule [OF K(1-3) q' is_ready_simps(6)]], elim conjE)
      fix s' assume s': "kernel_ok i s'" "scheduled s'" "runnable (status s' t)" "error (threads s' t) = ND_EOK"
        and wf: "wait_frame (SendWait j) L ?s s'"
      from s' r Cons wait_frameD(4) [OF wf] wait_frameD(11) [OF wf, of "SendWait j"]
      show "kernel_ok i s' \<and> (scheduled s \<longrightarrow> scheduled s') \<and>
           queue_ok (queues s' j) \<and> msgs (queues s j) = m # msgs (queues s' j) \<and>
           (\<forall>k. k \<noteq> j \<longrightarrow> queues s' k = queues s k) \<and>
           sync_frame (upd_queue (\<lambda>_. queues s' j) j s) s' \<and>
           (case qlists s (SendWait j) of [] \<Rightarrow> qlists s' = qlists s \<and> threads s' = threads s
            | t # L \<Rightarrow> qlists s' (SendWait j) = L \<and> runnable (status s' t) \<and> error (threads s' t) = ND_EOK)"
        using sync_frame_wait [OF wf] by auto
    qed
  qed
qed

text \<open>Waiting on a list, on the two kinds of port.\<close>

lemma wait_switches:
  assumes C: "calling i c s" and ci: "c \<noteq> i" and nr: "\<not> is_ready k"
  shows "wp (nd_thread_pend k tmo s) (\<lambda>s1. wp (nd_scheduler s1) (\<lambda>s'. kernel_ok i s' \<and> scheduled s' \<and>
           waits k tmo c s s' \<and> wait_frame k (insort_after (prio_of s) c (qlists s k)) s s' \<and>
           (nd_current_thread s' = Some c \<longleftrightarrow> port s = SwitchDeferred)))"
proof (rule wp_mono [OF nd_thread_pend_ok [OF C ci nr]], elim conjE)
  fix s1 assume s1: "kinv {} s1" "cur_link s1" "runnable (status s1 i)" "rest s1 = rest s" "waits k tmo c s s1"
    "wait_frame k (insort_after (prio_of s) c (qlists s k)) s s1"
  note R = restD [OF s1(4)]
  have b1: "status s1 c = ND_THREAD_STAT_BLOCK" using s1(5) by (simp add: waits_def)
  show "wp (nd_scheduler s1) (\<lambda>s'. kernel_ok i s' \<and> scheduled s' \<and> waits k tmo c s s' \<and>
      wait_frame k (insort_after (prio_of s) c (qlists s k)) s s' \<and>
      (nd_current_thread s' = Some c \<longleftrightarrow> port s = SwitchDeferred))"
  proof (rule wp_mono [OF nd_scheduler_ok [OF s1(1-3)]], elim conjE)
    fix s' assume s': "kernel_ok i s'" "scheduled s'" "sched_frame s1 s'" "sched_out s1 s'"
    have q: "c \<in> set (qlists s1 k)" using wait_frameD(11) [OF s1(6) nr] by simp
    have st: "sched_step c s1 s'" using s'(4) R(4,6) callingD(2,3) [OF C] by (simp add: sched_out_def)
    then obtain n s2 where p: "picked c n s1 s2" and r2: "rest s2 = rest s1"
      and sw: "case port s1 of SwitchDeferred \<Rightarrow> s' = s2\<lparr>nd_next_thread := Some n, pendsv := True\<rparr>
         | SwitchImmediate \<Rightarrow> switched n s2 s'"
      unfolding sched_step_def using b1 by auto
    have "n \<noteq> c" using p b1 by (auto simp: picked_def highest_def)
    then have "nd_current_thread s' = Some c \<longleftrightarrow> port s = SwitchDeferred"
      using sw R(1,4) restD(4) [OF r2] callingD(2) [OF C] by (cases "port s") (simp_all add: switched_def)
    with s' waits_frame [OF s'(3) kernel_okD(1) [OF s'(1)] s1(5) nr q] wait_frame_sched [OF s1(6) s'(3)]
    show "kernel_ok i s' \<and> scheduled s' \<and> waits k tmo c s s' \<and>
      wait_frame k (insort_after (prio_of s) c (qlists s k)) s s' \<and>
      (nd_current_thread s' = Some c \<longleftrightarrow> port s = SwitchDeferred)"
      by simp
  qed
qed

lemma wait_pass_ok:
  assumes C: "calling i c s" and ci: "c \<noteq> i" and nr: "\<not> is_ready k"
  shows "wp (wait_pass k tmo s) (\<lambda>(p, s'). kernel_ok i s' \<and> scheduled s' \<and> waits k tmo c s s' \<and>
           wait_frame k (insort_after (prio_of s) c (qlists s k)) s s' \<and>
           (if port s = SwitchDeferred then p = Again \<and> nd_current_thread s' = Some c else p = Away))"
  unfolding wait_pass_def wp_bind
  by (rule wp_mono2 [OF wait_switches [OF C ci nr]]) (use callingD(2) [OF C] in \<open>auto simp: waits_def\<close>)

lemma send_step: "nd_queue_send i msg tmo s =
     (if used_msg (queues s i) = max_msgs (queues s i) then
        if tmo = ND_TIMEOUT_NOWAIT then Some (Some ND_EFULL, s)
        else
          Option.bind (wait_pass (SendWait i) tmo s) (\<lambda>(p, s1).
            case p of Away \<Rightarrow> Some (None, s1) | Stop e \<Rightarrow> Some (Some e, s1) | Again \<Rightarrow> nd_queue_send i msg tmo s1)
      else map_option (\<lambda>s1. (Some ND_EOK, s1)) (queue_put i msg s))"
  by (rule nd_queue_send.simps)

lemma recv_step: "nd_queue_recv i tmo s =
     (if used_msg (queues s i) = 0 then
        if tmo = ND_TIMEOUT_NOWAIT then Some (Some (ND_EEMPTY, []), s)
        else
          Option.bind (wait_pass (ReadWait i) tmo s) (\<lambda>(p, s1).
            case p of Away \<Rightarrow> Some (None, s1) | Stop e \<Rightarrow> Some (Some (e, []), s1) | Again \<Rightarrow> nd_queue_recv i tmo s1)
      else map_option (\<lambda>(msg, s1). (Some (ND_EOK, msg), s1)) (queue_get i s))"
  by (rule nd_queue_recv.simps)

lemma nd_queue_send_ok:
  assumes C: "calling i c s" and ci: "c \<noteq> i" and q: "queue_ok (queues s j)"
    and len: "length msg = unat (msg_size (queues s j))" and im: "port s = SwitchImmediate"
  shows "wp (nd_queue_send j msg tmo s) (\<lambda>(r, s').
           if used_msg (queues s j) = max_msgs (queues s j) then
             if tmo = ND_TIMEOUT_NOWAIT then r = Some ND_EFULL \<and> s' = s
             else r = None \<and> kernel_ok i s' \<and> scheduled s' \<and> waits (SendWait j) tmo c s s' \<and>
               wait_frame (SendWait j) (insort_after (prio_of s) c (qlists s (SendWait j))) s s'
           else r = Some ND_EOK \<and> kernel_ok i s' \<and> (scheduled s \<longrightarrow> scheduled s') \<and>
             queue_ok (queues s' j) \<and> msgs (queues s' j) = msgs (queues s j) @ [msg] \<and>
             (\<forall>k. k \<noteq> j \<longrightarrow> queues s' k = queues s k) \<and>
             (case qlists s (ReadWait j) of [] \<Rightarrow> qlists s' = qlists s \<and> threads s' = threads s
              | t # L \<Rightarrow> qlists s' (ReadWait j) = L \<and> runnable (status s' t) \<and> error (threads s' t) = ND_EOK))"
proof (cases "used_msg (queues s j) = max_msgs (queues s j)")
  case False
  then show ?thesis
    by (subst send_step) (use queue_put_ok [OF callingD(1) [OF C] q False len] in \<open>auto elim!: wp_mono\<close>)
next
  case full: True
  show ?thesis
  proof (cases "tmo = ND_TIMEOUT_NOWAIT")
    case True
    then show ?thesis by (subst send_step) (simp add: full)
  next
    case False
    with wait_pass_ok [OF C ci is_ready_simps(6) [of j], of tmo] show ?thesis
      by (subst send_step) (auto simp: full im wp_iff)
  qed
qed

lemma nd_queue_recv_ok:
  assumes C: "calling i c s" and ci: "c \<noteq> i" and q: "queue_ok (queues s j)" and im: "port s = SwitchImmediate"
  shows "wp (nd_queue_recv j tmo s) (\<lambda>(r, s').
           if used_msg (queues s j) = 0 then
             if tmo = ND_TIMEOUT_NOWAIT then r = Some (ND_EEMPTY, []) \<and> s' = s
             else r = None \<and> kernel_ok i s' \<and> scheduled s' \<and> waits (ReadWait j) tmo c s s' \<and>
               wait_frame (ReadWait j) (insort_after (prio_of s) c (qlists s (ReadWait j))) s s'
           else \<exists>msg. r = Some (ND_EOK, msg) \<and> kernel_ok i s' \<and> (scheduled s \<longrightarrow> scheduled s') \<and>
             queue_ok (queues s' j) \<and> msgs (queues s j) = msg # msgs (queues s' j) \<and>
             (\<forall>k. k \<noteq> j \<longrightarrow> queues s' k = queues s k) \<and>
             (case qlists s (SendWait j) of [] \<Rightarrow> qlists s' = qlists s \<and> threads s' = threads s
              | t # L \<Rightarrow> qlists s' (SendWait j) = L \<and> runnable (status s' t) \<and> error (threads s' t) = ND_EOK))"
proof (cases "used_msg (queues s j) = 0")
  case False
  then show ?thesis
    by (subst recv_step) (use queue_get_ok [OF callingD(1) [OF C] q False] in \<open>auto simp: wp_iff\<close>)
next
  case empty: True
  show ?thesis
  proof (cases "tmo = ND_TIMEOUT_NOWAIT")
    case True
    then show ?thesis by (subst recv_step) (simp add: empty)
  next
    case False
    with wait_pass_ok [OF C ci is_ready_simps(7) [of j], of tmo] show ?thesis
      by (subst recv_step) (auto simp: empty im wp_iff)
  qed
qed

text \<open>
  On a port that defers the switch the loop comes round while the caller is blocked, still the current thread, and in the
  wait list: the second pass begins by linking a node that is linked.
\<close>

lemma wait_insert_linked: "qhome s t = Some j \<Longrightarrow> nd_thread_wait_insert k t s = None"
  by (simp add: nd_thread_wait_insert_def q_insert_before_def q_insert_tail_def split: option.splits)

lemma pass_linked: "nd_current_thread s = Some c \<Longrightarrow> qhome s c = Some j \<Longrightarrow> wait_pass k tmo s = None"
  by (simp add: wait_pass_def nd_thread_pend_def wait_insert_linked)

definition blocked_running :: "list_head \<Rightarrow> tid \<Rightarrow> kstate \<Rightarrow> kstate \<Rightarrow> bool" where
  "blocked_running k c s s1 \<longleftrightarrow> nd_current_thread s1 = Some c \<and> status s1 c = ND_THREAD_STAT_BLOCK \<and>
     qhome s c = None \<and> qhome s1 c = Some k \<and> qlists s1 k = insort_after (prio_of s) c (qlists s k) \<and>
     nd_thread_wait_insert k c s1 = None"

lemma wait_pass_deferred:
  assumes C: "calling i c s" and ci: "c \<noteq> i" and df: "port s = SwitchDeferred" and nr: "\<not> is_ready k"
  obtains s1 where "wait_pass k tmo s = Some (Again, s1)" "blocked_running k c s s1" "wait_pass k tmo s1 = None"
    "queues s1 = queues s" "pools s1 = pools s"
proof -
  obtain s1 where s1: "wait_pass k tmo s = Some (Again, s1)" "waits k tmo c s s1" "nd_current_thread s1 = Some c"
    and wf: "wait_frame k (insort_after (prio_of s) c (qlists s k)) s s1"
    using wait_pass_ok [OF C ci nr, of tmo] df by (auto simp: wp_iff)
  have h: "qhome s1 c = Some k" "status s1 c = ND_THREAD_STAT_BLOCK" using s1(2) by (simp_all add: waits_def)
  then have "blocked_running k c s s1"
    using s1(3) callingD(9) [OF C] wait_frameD(11) [OF wf nr] wait_insert_linked [OF h(1)] by (simp add: blocked_running_def)
  then show thesis using that [OF s1(1) _ pass_linked [OF s1(3) h(1)]] wait_frameD(4,5) [OF wf] by blast
qed

section \<open>The ring is a bounded first-in first-out buffer\<close>

lemma length_msgs: "length (msgs q) = unat (used_msg q)"
  by (simp add: msgs_def)

interpretation ring: fifo queue_ok "\<lambda>q. unat (max_msgs q)" msgs
  "\<lambda>q m. length m = unat (msg_size q)" ring_put ring_get
proof unfold_locales
  fix q and m :: "u8 list"
  assume ok: "queue_ok q"
  show "length (msgs q) \<le> unat (max_msgs q)" using queue_okD(3) [OF ok] by (simp add: length_msgs)
  show "wp (ring_put m q) (\<lambda>q'. queue_ok q' \<and> msgs q' = msgs q @ [m] \<and> unat (max_msgs q') = unat (max_msgs q) \<and>
      (\<lambda>m. length m = unat (msg_size q')) = (\<lambda>m. length m = unat (msg_size q)))"
    if "length m = unat (msg_size q)" and "length (msgs q) < unat (max_msgs q)"
    by (rule wp_mono [OF ring_put_ok [OF ok that(1)]]) (use that(2) in \<open>auto simp: length_msgs\<close>)
  show "wp (ring_get q) (\<lambda>(m, q'). queue_ok q' \<and> msgs q = m # msgs q' \<and> unat (max_msgs q') = unat (max_msgs q) \<and>
      (\<lambda>m. length m = unat (msg_size q')) = (\<lambda>m. length m = unat (msg_size q)))"
    if "msgs q \<noteq> []"
    by (rule wp_pair_mono [OF ring_get_ok [OF ok]]) (use that in \<open>auto simp: msgs_def\<close>)
qed

section \<open>Initialisation\<close>

lemma and_pred_zero_nat: "(n :: nat) \<noteq> 0 \<Longrightarrow> n AND (n - 1) = 0 \<Longrightarrow> \<exists>k. n = 2 ^ k"
proof (induction n rule: less_induct)
  case (less n)
  have rec: "n AND (n - 1) = of_bool (odd n \<and> odd (n - 1)) + 2 * ((n div 2) AND ((n - 1) div 2))"
    by (rule and_rec)
  show ?case
  proof (cases "odd n")
    case True
    then have "(n - 1) div 2 = n div 2" by (auto elim: oddE)
    with rec less.prems have "n div 2 = 0" by simp
    with True have "n = 2 ^ 0" by (auto elim: oddE)
    then show ?thesis by blast
  next
    case False
    then have "n div 2 \<noteq> 0" "(n - 1) div 2 = n div 2 - 1" using less.prems(1) by (auto elim!: evenE)
    moreover from this rec less.prems(2) have "(n div 2) AND (n div 2 - 1) = 0" by simp
    ultimately obtain k where "n div 2 = 2 ^ k" using less.IH [of "n div 2"] less.prems(1) by auto
    with False have "n = 2 ^ Suc k" by (auto elim: evenE)
    then show ?thesis by blast
  qed
qed

lemma power_of_two_iff: "(mx :: u32) AND (mx - 1) = 0 \<and> mx \<ge> 1 \<longleftrightarrow> (\<exists>k<32. mx = 2 ^ k)"
proof
  assume a: "mx AND (mx - 1) = 0 \<and> mx \<ge> 1"
  then have nz: "mx \<noteq> 0" by auto
  have "unat mx AND (unat mx - 1) = unat (mx AND (mx - 1))"
    unfolding unsigned_and_eq using unat_minus_one [OF nz] by simp
  then obtain k where k: "unat mx = 2 ^ k"
    using and_pred_zero_nat [of "unat mx"] a nz by (auto simp: unat_eq_0)
  have "(2 :: nat) ^ k < 2 ^ LENGTH(32)" unfolding k [symmetric] by (rule unsigned_less)
  then have "k < LENGTH(32)" by (rule power_less_imp_less_exp [rotated]) simp
  then have "k < 32" by simp
  moreover have "mx = 2 ^ k"
    using \<open>k < 32\<close> k by (intro word_unat_eq_iff [THEN iffD2]) (simp only: unat_pow2)
  ultimately show "\<exists>k<32. mx = 2 ^ k" by blast
next
  assume "\<exists>k<32. mx = 2 ^ k"
  then obtain k where k: "k < 32" "mx = 2 ^ k" by blast
  have u: "unat mx = 2 ^ k" using unat_pow2 k by simp
  have "unat (mx AND (mx - 1)) = 0" unfolding k(2) mask_mod unat_pow2 [OF k(1)] by simp
  moreover have "1 \<le> mx" using u by (simp add: word_le_nat_alt)
  ultimately show "mx AND (mx - 1) = 0 \<and> mx \<ge> 1" by (simp add: unat_eq_0)
qed


lemma nd_queue_init_ok:
  assumes ok: "kernel_ok i s" and idle: "qlists s (ReadWait j) = []" "qlists s (SendWait j) = []"
  shows "wp (nd_queue_init j b sz mx s) (\<lambda>(e, s').
           if \<exists>k<32. mx = 2 ^ k then e = ND_EOK \<and> kernel_ok i s' \<and> (scheduled s \<longrightarrow> scheduled s') \<and>
             msgs (queues s' j) = [] \<and> max_msgs (queues s' j) = mx \<and> msg_size (queues s' j) = sz \<and>
             (unat mx * unat sz < 2 ^ 32 \<and> length b = unat mx * unat sz \<longrightarrow> queue_ok (queues s' j)) \<and>
             (\<forall>k. k \<noteq> j \<longrightarrow> queues s' k = queues s k)
           else e = ND_EINVAL \<and> s' = s)"
proof (cases "\<exists>k<32. mx = 2 ^ k")
  case False
  then have "mx AND (mx - 1) \<noteq> 0 \<or> mx < 1" using power_of_two_iff [of mx] by (auto simp: not_le)
  with False show ?thesis by (simp add: nd_queue_init_def)
next
  case True
  then have n: "\<not> (mx AND (mx - 1) \<noteq> 0 \<or> mx < 1)" using power_of_two_iff [of mx] by (auto simp: not_le)
  have e: "s\<lparr>queues := X, qlists := (qlists s)(ReadWait j := [], SendWait j := [])\<rparr> = s\<lparr>queues := X\<rparr>" for X
    using idle by (simp add: fun_upd_idem)
  let ?f = "\<lambda>q. q\<lparr>buf := b, msg_size := sz, max_msgs := mx, used_msg := 0, write_ptr := 0, read_ptr := 0\<rparr>"
  have "nd_queue_init j b sz mx s = Some (ND_EOK, upd_queue ?f j s)"
    using n idle by (simp add: nd_queue_init_def q_init_def upd_queue_def fun_upd_idem)
  with True ok show ?thesis by (auto simp: msgs_def queue_ok_def)
qed


section \<open>Properties\<close>

lemma sample_queue_ok: "queue_ok (queues (sample pt) j)"
proof -
  have "(2 :: u32) = 2 ^ 1" by simp
  then have "\<exists>k<32. (2 :: u32) = 2 ^ k" by (intro exI [of _ 1]) simp
  then show ?thesis by (simp add: queue_ok_def sample_def)
qed

text \<open>C17: sending, on a port that switches at once. With room the message goes behind the ones in the
  queue and the first thread waiting to receive is woken; on a full queue a caller that will not wait
  gets \<open>ND_EFULL\<close> and nothing changes, any other is blocked in the send list in priority order, with its
  timeout armed, and another thread runs. The kernel and the ring stay well formed.\<close>

theorem queue_send_correct:
  assumes C: "calling i c s" and ci: "c \<noteq> i" and q: "queue_ok (queues s j)"
    and len: "length msg = unat (msg_size (queues s j))" and im: "port s = SwitchImmediate"
  shows "wp (nd_queue_send j msg tmo s) (\<lambda>(r, s'). kernel_ok i s' \<and> queue_ok (queues s' j) \<and>
           (if used_msg (queues s j) = max_msgs (queues s j) then
              if tmo = ND_TIMEOUT_NOWAIT then r = Some ND_EFULL \<and> s' = s
              else r = None \<and> scheduled s' \<and> waits (SendWait j) tmo c s s' \<and> queues s' = queues s \<and>
                qlists s' (SendWait j) = insort_after (prio_of s) c (qlists s (SendWait j))
            else r = Some ND_EOK \<and> (scheduled s \<longrightarrow> scheduled s') \<and>
              msgs (queues s' j) = msgs (queues s j) @ [msg] \<and> (\<forall>k. k \<noteq> j \<longrightarrow> queues s' k = queues s k) \<and>
              (case qlists s (ReadWait j) of [] \<Rightarrow> qlists s' = qlists s \<and> threads s' = threads s
               | t # L \<Rightarrow> qlists s' (ReadWait j) = L \<and> runnable (status s' t) \<and> error (threads s' t) = ND_EOK)))"
  by (rule wp_pair_mono [OF nd_queue_send_ok [OF C ci q len im]])
    (use q callingD(1) [OF C] in \<open>auto simp: wait_frameD split: if_splits list.splits\<close>)

theorem queue_send_witness:
  "wp (nd_queue_send 0 [1, 2, 3, 4] 10 (sample SwitchImmediate)) (\<lambda>(r, s'). r = Some ND_EOK \<and>
     msgs (queues s' 0) = [[1, 2, 3, 4]]) \<and>
   wp (nd_queue_send 1 [1, 2, 3, 4] 10 (sample SwitchImmediate)) (\<lambda>(r, s'). r = None \<and>
     qlists s' (SendWait 1) = [1])"
proof
  show "wp (nd_queue_send 0 [1, 2, 3, 4] 10 (sample SwitchImmediate)) (\<lambda>(r, s'). r = Some ND_EOK \<and>
     msgs (queues s' 0) = [[1, 2, 3, 4]])"
    by (rule wp_pair_mono [OF queue_send_correct [OF sample_calling _ sample_queue_ok]])
      (auto simp: sample_def msgs_def)
  show "wp (nd_queue_send 1 [1, 2, 3, 4] 10 (sample SwitchImmediate)) (\<lambda>(r, s'). r = None \<and>
     qlists s' (SendWait 1) = [1])"
    by (rule wp_pair_mono [OF queue_send_correct [OF sample_calling _ sample_queue_ok]])
      (auto simp: sample_def sample_lists_def ND_TIMEOUT_NOWAIT_def)
qed

text \<open>C18: receiving, on a port that switches at once. The oldest message is returned and leaves the
  queue, and the first thread waiting to send is woken; on an empty queue a caller that will not wait
  gets \<open>ND_EEMPTY\<close>, any other is blocked in the receive list in priority order.\<close>

theorem queue_recv_correct:
  assumes C: "calling i c s" and ci: "c \<noteq> i" and q: "queue_ok (queues s j)" and im: "port s = SwitchImmediate"
  shows "wp (nd_queue_recv j tmo s) (\<lambda>(r, s'). kernel_ok i s' \<and> queue_ok (queues s' j) \<and>
           (if used_msg (queues s j) = 0 then
              if tmo = ND_TIMEOUT_NOWAIT then r = Some (ND_EEMPTY, []) \<and> s' = s
              else r = None \<and> scheduled s' \<and> waits (ReadWait j) tmo c s s' \<and> queues s' = queues s \<and>
                qlists s' (ReadWait j) = insort_after (prio_of s) c (qlists s (ReadWait j))
            else (\<exists>msg. r = Some (ND_EOK, msg) \<and> msgs (queues s j) = msg # msgs (queues s' j)) \<and>
              (scheduled s \<longrightarrow> scheduled s') \<and> (\<forall>k. k \<noteq> j \<longrightarrow> queues s' k = queues s k) \<and>
              (case qlists s (SendWait j) of [] \<Rightarrow> qlists s' = qlists s \<and> threads s' = threads s
               | t # L \<Rightarrow> qlists s' (SendWait j) = L \<and> runnable (status s' t) \<and> error (threads s' t) = ND_EOK)))"
  by (rule wp_pair_mono [OF nd_queue_recv_ok [OF C ci q im]])
    (use q callingD(1) [OF C] in \<open>auto simp: wait_frameD split: if_splits list.splits\<close>)

theorem queue_recv_witness:
  "wp (nd_queue_recv 1 10 (sample SwitchImmediate)) (\<lambda>(r, s'). (\<exists>m. r = Some (ND_EOK, m)) \<and>
     length (msgs (queues s' 1)) = 1)"
proof -
  have "length (msgs (queues (sample SwitchImmediate) 1)) = 2"
    by (simp add: length_msgs) (simp add: sample_def)
  then show ?thesis
    by (intro wp_pair_mono [OF queue_recv_correct [OF sample_calling _ sample_queue_ok]]) (auto simp: sample_def)
qed

text \<open>C20: on the ports that leave the switch to PendSV, a send to a full queue or a receive from an empty one that has to
  wait goes wrong. The first pass of the loop links the caller, who was in no list, into the wait list in priority order and
  blocks it, but returns to it; the count is as it was, so the loop goes on, and the second pass links the same node
  again. That is the fault: the call is not one that runs forever.\<close>

theorem queue_wait_faults_deferred:
  assumes C: "calling i c s" and ci: "c \<noteq> i" and df: "port s = SwitchDeferred" and tmo: "tmo \<noteq> ND_TIMEOUT_NOWAIT"
  shows "(used_msg (queues s j) = max_msgs (queues s j) \<longrightarrow>
            (\<exists>s1. wait_pass (SendWait j) tmo s = Some (Again, s1) \<and> blocked_running (SendWait j) c s s1 \<and>
               queues s1 = queues s \<and> nd_queue_send j msg tmo s = nd_queue_send j msg tmo s1 \<and>
               wait_pass (SendWait j) tmo s1 = None \<and> nd_queue_send j msg tmo s = None)) \<and>
         (used_msg (queues s j) = 0 \<longrightarrow>
            (\<exists>s1. wait_pass (ReadWait j) tmo s = Some (Again, s1) \<and> blocked_running (ReadWait j) c s s1 \<and>
               queues s1 = queues s \<and> nd_queue_recv j tmo s = nd_queue_recv j tmo s1 \<and>
               wait_pass (ReadWait j) tmo s1 = None \<and> nd_queue_recv j tmo s = None))"
proof (intro conjI impI)
  assume full: "used_msg (queues s j) = max_msgs (queues s j)"
  obtain s1 where s1: "wait_pass (SendWait j) tmo s = Some (Again, s1)" "blocked_running (SendWait j) c s s1"
    "wait_pass (SendWait j) tmo s1 = None" "queues s1 = queues s"
    by (rule wait_pass_deferred [OF C ci df is_ready_simps(6)])
  have "nd_queue_send j msg tmo s1 = None" by (subst send_step) (simp add: s1 full tmo)
  moreover have "nd_queue_send j msg tmo s = nd_queue_send j msg tmo s1" by (subst send_step) (simp add: s1 full tmo)
  ultimately show "\<exists>s1. wait_pass (SendWait j) tmo s = Some (Again, s1) \<and> blocked_running (SendWait j) c s s1 \<and>
      queues s1 = queues s \<and> nd_queue_send j msg tmo s = nd_queue_send j msg tmo s1 \<and>
      wait_pass (SendWait j) tmo s1 = None \<and> nd_queue_send j msg tmo s = None" using s1 by auto
next
  assume empty: "used_msg (queues s j) = 0"
  obtain s1 where s1: "wait_pass (ReadWait j) tmo s = Some (Again, s1)" "blocked_running (ReadWait j) c s s1"
    "wait_pass (ReadWait j) tmo s1 = None" "queues s1 = queues s"
    by (rule wait_pass_deferred [OF C ci df is_ready_simps(7)])
  have "nd_queue_recv j tmo s1 = None" by (subst recv_step) (simp add: s1 empty tmo)
  moreover have "nd_queue_recv j tmo s = nd_queue_recv j tmo s1" by (subst recv_step) (simp add: s1 empty tmo)
  ultimately show "\<exists>s1. wait_pass (ReadWait j) tmo s = Some (Again, s1) \<and> blocked_running (ReadWait j) c s s1 \<and>
      queues s1 = queues s \<and> nd_queue_recv j tmo s = nd_queue_recv j tmo s1 \<and>
      wait_pass (ReadWait j) tmo s1 = None \<and> nd_queue_recv j tmo s = None" using s1 by auto
qed

theorem queue_wait_faults_deferred_witness:
  "\<exists>s1. wait_pass (SendWait 1) 10 (sample SwitchDeferred) = Some (Again, s1) \<and> qlists s1 (SendWait 1) = [1] \<and>
     wait_pass (SendWait 1) 10 s1 = None \<and> nd_queue_send 1 [1, 2, 3, 4] 10 (sample SwitchDeferred) = None"
proof -
  have "port (sample SwitchDeferred) = SwitchDeferred" "(10 :: u64) \<noteq> ND_TIMEOUT_NOWAIT"
    by (simp_all add: sample_def ND_TIMEOUT_NOWAIT_def)
  from queue_wait_faults_deferred [OF sample_calling _ this, of 1 "[1, 2, 3, 4]"]
  show ?thesis by (auto simp: blocked_running_def sample_def sample_lists_def)
qed

text \<open>C19: what goes into the ring comes out of it, in the same order. Any messages of the right size that
  fit can be put, and that many gets, after those already there, return exactly them and leave the ring empty;
  the counters may wrap on the way.\<close>

theorem queue_fifo:
  assumes "queue_ok q" and "\<forall>m \<in> set ms. length m = unat (msg_size q)"
    and "length (msgs q) + length ms \<le> unat (max_msgs q)"
  shows "wp (put_all ring_put ms q) (\<lambda>q'. wp (get_all ring_get (length (msgs q) + length ms) q')
           (\<lambda>(xs, q''). xs = msgs q @ ms \<and> msgs q'' = [] \<and> queue_ok q''))"
  by (rule ring.drain [OF assms])

definition wrapping_queue :: nd_queue where
  "wrapping_queue = \<lparr>buf = replicate 4 0, msg_size = 2, max_msgs = 2, used_msg = 0, read_ptr = - 1, write_ptr = - 1\<rparr>"

theorem queue_fifo_witness:
  "wp (put_all ring_put [[1, 2], [3, 4]] wrapping_queue) (\<lambda>q'. wp (get_all ring_get 2 q')
     (\<lambda>(xs, q''). xs = [[1, 2], [3, 4]] \<and> queue_ok q''))"
proof -
  have "\<exists>k<32. (2 :: u32) = 2 ^ k" by (intro exI [of _ 1]) simp
  then have ok: "queue_ok wrapping_queue" by (simp add: queue_ok_def wrapping_queue_def)
  have "msgs wrapping_queue = []" by (simp add: msgs_def wrapping_queue_def)
  moreover have "wp (put_all ring_put [[1, 2], [3, 4]] wrapping_queue)
     (\<lambda>q'. wp (get_all ring_get (length (msgs wrapping_queue) + length [[1, 2], [3, 4 :: u8]]) q')
     (\<lambda>(xs, q''). xs = msgs wrapping_queue @ [[1, 2], [3, 4]] \<and> msgs q'' = [] \<and> queue_ok q''))"
    by (rule queue_fifo [OF ok]) (simp_all add: msgs_def wrapping_queue_def)
  ultimately show ?thesis by (auto simp: wp_iff numeral_2_eq_2 simp del: put_all.simps get_all.simps)
qed

text \<open>\<open>nd_queue_init\<close> accepts exactly the powers of two that fit in 32 bits as the number of messages,
  and makes an empty, well-formed queue of them; any other number is refused with \<open>ND_EINVAL\<close> and nothing
  changes.\<close>

theorem queue_init_correct:
  assumes ok: "kernel_ok i s" and idle: "qlists s (ReadWait j) = []" "qlists s (SendWait j) = []"
  shows "wp (nd_queue_init j b sz mx s) (\<lambda>(e, s').
           if \<exists>k<32. mx = 2 ^ k then e = ND_EOK \<and> kernel_ok i s' \<and> (scheduled s \<longrightarrow> scheduled s') \<and>
             msgs (queues s' j) = [] \<and> max_msgs (queues s' j) = mx \<and> msg_size (queues s' j) = sz \<and>
             (unat mx * unat sz < 2 ^ 32 \<and> length b = unat mx * unat sz \<longrightarrow> queue_ok (queues s' j)) \<and>
             (\<forall>k. k \<noteq> j \<longrightarrow> queues s' k = queues s k)
           else e = ND_EINVAL \<and> s' = s)"
  by (rule nd_queue_init_ok [OF assms])

theorem queue_init_witness:
  "wp (nd_queue_init 2 (replicate 12 0) 3 4 (sample SwitchDeferred)) (\<lambda>(e, s'). e = ND_EOK \<and> queue_ok (queues s' 2))"
proof -
  have "\<exists>k<32. (4 :: u32) = 2 ^ k" by (intro exI [of _ 2]) simp
  then show ?thesis
    by (intro wp_pair_mono [OF queue_init_correct [OF sample_ok, of SwitchDeferred 2]])
      (simp_all add: sample_def sample_lists_def)
qed

end
