(* ===== verification/Nd_Memory.thy ===== *)
theory Nd_Memory
  imports Nd_Prelude
begin

text \<open>The byte-addressed memory of the target: 32-bit little-endian words over bytes, word accesses as the code
  makes them through a \<^verbatim>\<open>nd_uint32_t *\<close>, and what stores leave for later loads. \<open>load_word\<close> and \<open>store_word\<close> fault on an
  unaligned address; \<open>load32\<close> and \<open>store32\<close>, which the memory pools use for their links, take the four bytes at any.\<close>

section \<open>Loads and stores\<close>

type_synonym mem = "u32 \<Rightarrow> u8"

text \<open>A word in memory: four bytes, the least significant first.\<close>

definition load32 :: "(u32 \<Rightarrow> u8) \<Rightarrow> u32 \<Rightarrow> u32" where
  "load32 m a = ucast (m a) OR push_bit 8 (ucast (m (a + 1))) OR push_bit 16 (ucast (m (a + 2))) OR
     push_bit 24 (ucast (m (a + 3)))"

definition store32 :: "u32 \<Rightarrow> u32 \<Rightarrow> (u32 \<Rightarrow> u8) \<Rightarrow> (u32 \<Rightarrow> u8)" where
  "store32 a v m = m(a := ucast v, a + 1 := ucast (drop_bit 8 v), a + 2 := ucast (drop_bit 16 v),
     a + 3 := ucast (drop_bit 24 v))"

definition word_aligned :: "u32 \<Rightarrow> bool" where
  "word_aligned p \<longleftrightarrow> p mod 4 = 0"

definition load_word :: "u32 \<Rightarrow> mem \<Rightarrow> u32 option" where
  "load_word p m = (if word_aligned p then Some (load32 m p) else None)"

definition store_word :: "u32 \<Rightarrow> u32 \<Rightarrow> mem \<Rightarrow> mem option" where
  "store_word p v m = (if word_aligned p then Some (store32 p v m) else None)"

section \<open>Loads after stores\<close>

lemma load32_store32 [simp]: "load32 (store32 a v m) a = v"
proof -
  have d: "a + 1 \<noteq> a" "a + 2 \<noteq> a" "a + 3 \<noteq> a" "a + 1 \<noteq> a + 2" "a + 1 \<noteq> a + 3" "a + 2 \<noteq> a + 3" by simp_all
  show ?thesis
  proof (rule bit_word_eqI)
    fix n :: nat
    assume n: "n < LENGTH(32)"
    show "bit (load32 (store32 a v m) a) n \<longleftrightarrow> bit v n"
    proof (cases "n < 16")
      case True
      then show ?thesis using n by (auto simp: load32_def store32_def bit_simps d)
    next
      case ge: False
      then have e: "16 + (n - 16) = n" "n < 24 \<or> 24 + (n - 24) = n" by auto
      with ge n show ?thesis by (auto simp: load32_def store32_def bit_simps d)
    qed
  qed
qed

lemma far_apart:
  assumes "unat a + 4 \<le> unat b \<or> unat b + 4 \<le> unat a" and "unat (a :: u32) + 4 \<le> 2 ^ 32" "unat b + 4 \<le> 2 ^ 32"
    and "i < 4" "k < 4"
  shows "a + of_nat i \<noteq> b + of_nat k"
proof
  have u: "unat (x + of_nat l) = unat x + l" if "unat x + 4 \<le> 2 ^ 32" "l < 4" for x :: u32 and l
    using that by (simp add: unat_word_ariths unat_of_nat)
  assume "a + of_nat i = b + of_nat k"
  then have "unat a + i = unat b + k" using u [of a i] u [of b k] assms by simp
  with assms show False by auto
qed

lemma load32_store32_far [simp]:
  assumes "unat a + 4 \<le> unat b \<or> unat b + 4 \<le> unat a" and "unat (a :: u32) + 4 \<le> 2 ^ 32" "unat b + 4 \<le> 2 ^ 32"
  shows "load32 (store32 a v m) b = load32 m b"
proof -
  note F = far_apart [OF assms]
  have "b + of_nat k \<notin> {a, a + 1, a + 2, a + 3}" if "k < 4" for k
    using F [of 0 k] F [of 1 k] F [of 2 k] F [of 3 k] that by auto
  from this [of 0] this [of 1] this [of 2] this [of 3] show ?thesis
    by (simp add: load32_def store32_def)
qed

end
