(* ===== verification/Nd_Mempool.thy ===== *)
theory Nd_Mempool
  imports Nd_Queue Nd_Memory
begin

text \<open>
  Memory pools (\<^verbatim>\<open>kernel/nd_mempool.c\<close>): blocks of one size in memory given by the caller, the free ones
  linked through their first word. The memory of a pool is a function from addresses to bytes, so that what
  the links are is what the stores left there.
\<close>


section \<open>The operations\<close>

definition pool_links :: "u32 \<Rightarrow> u32 \<Rightarrow> u32 \<Rightarrow> (u32 \<Rightarrow> u8) \<Rightarrow> (u32 \<Rightarrow> u8)" where
  "pool_links st bs n = fold (\<lambda>i m.
     store32 (st + i * bs) (if i < n - 1 then st + (i + 1) * bs else 0) m) (map of_nat [0..<unat n])"

definition nd_mempool_init :: "nat \<Rightarrow> u32 \<Rightarrow> u32 \<Rightarrow> u32 \<Rightarrow> kstate \<Rightarrow> kstate option" where
  "nd_mempool_init j st bs n s = do {
     let s1 = upd_pool (\<lambda>p. p\<lparr>start := st, block_size := ND_ALIGN bs 4, block_count := n, free_count := n\<rparr>) j s;
     s2 \<leftarrow> q_init (PoolWait j) s1;
     Some (upd_pool (\<lambda>p. p\<lparr>pool_mem := pool_links st bs n (pool_mem p), free_list := st\<rparr>) j s2)
   }"

text \<open>The part of \<open>nd_mempool_alloc\<close> after the loop, and the part of \<open>nd_mempool_free\<close> before the wake-up.\<close>

definition pool_pop :: "nd_mempool \<Rightarrow> u32 \<times> nd_mempool" where
  "pool_pop p = (free_list p, p\<lparr>free_list := load32 (pool_mem p) (free_list p), free_count := free_count p - 1\<rparr>)"

definition pool_push :: "u32 \<Rightarrow> nd_mempool \<Rightarrow> nd_mempool" where
  "pool_push a p = p\<lparr>pool_mem := store32 a (free_list p) (pool_mem p), free_list := a, free_count := free_count p + 1\<rparr>"

partial_function (option) nd_mempool_alloc :: "nat \<Rightarrow> u64 \<Rightarrow> kstate \<Rightarrow> (u32 option \<times> kstate) option" where
  "nd_mempool_alloc j tmo s =
     (if free_count (pools s j) = 0 then
        if tmo = ND_TIMEOUT_NOWAIT then Some (Some 0, s)
        else
          Option.bind (wait_pass (PoolWait j) tmo s) (\<lambda>(p, s1).
            case p of Away \<Rightarrow> Some (None, s1) | Stop e \<Rightarrow> Some (Some 0, s1) | Again \<Rightarrow> nd_mempool_alloc j tmo s1)
      else let (a, p) = pool_pop (pools s j) in Some (Some a, upd_pool (\<lambda>_. p) j s))"

definition mempool_alloc_resume :: "nat \<Rightarrow> u64 \<Rightarrow> kstate \<Rightarrow> (u32 option \<times> kstate) option" where
  "mempool_alloc_resume j tmo s = do {
     c \<leftarrow> nd_current_thread s;
     if error (threads s c) = ND_ETIMEOUT then Some (Some 0, s)
     else nd_mempool_alloc j tmo s
   }"

text \<open>\<open>dbg\<close> is \<^verbatim>\<open>ND_CFG_DEBUG\<close>; a failed assertion does not return.\<close>

definition nd_mempool_free :: "bool \<Rightarrow> nat \<Rightarrow> u32 \<Rightarrow> kstate \<Rightarrow> kstate option" where
  "nd_mempool_free dbg j a s = do {
     let p = pools s j;
     assert_ok (dbg \<longrightarrow> a \<ge> start p \<and> a < start p + block_size p * block_count p \<and>
                (a - start p) mod block_size p = 0);
     let s1 = upd_pool (pool_push a) j s;
     if \<not> q_is_empty (PoolWait j) s1 then do {
       (_, s2) \<leftarrow> nd_thread_wakeup (PoolWait j) s1;
       nd_scheduler s2
     }
     else Some s1
   }"

section \<open>The free list\<close>

text \<open>The addresses of the blocks, and the chain of free blocks that starts at \<open>a\<close>.\<close>

definition pool_blocks :: "nd_mempool \<Rightarrow> u32 list" where
  "pool_blocks p = map (\<lambda>i. start p + of_nat i * block_size p) [0..<unat (block_count p)]"

fun chain :: "(u32 \<Rightarrow> u8) \<Rightarrow> u32 \<Rightarrow> u32 list \<Rightarrow> bool" where
  "chain m a [] \<longleftrightarrow> a = 0"
| "chain m a (b # bs) \<longleftrightarrow> a = b \<and> chain m (load32 m a) bs"

definition pool_fits :: "nd_mempool \<Rightarrow> bool" where
  "pool_fits p \<longleftrightarrow> 4 \<le> unat (block_size p) \<and>
     unat (start p) + unat (block_count p) * unat (block_size p) < 2 ^ 32"

definition pool_ok :: "nd_mempool \<Rightarrow> u32 list \<Rightarrow> bool" where
  "pool_ok p F \<longleftrightarrow> pool_fits p \<and> chain (pool_mem p) (free_list p) F \<and> distinct F \<and>
     set F \<subseteq> set (pool_blocks p) \<and> unat (free_count p) = length F"

text \<open>The free blocks as the links give them: a walk along the list, as long as the pool says it is.\<close>

fun walk :: "(u32 \<Rightarrow> u8) \<Rightarrow> u32 \<Rightarrow> nat \<Rightarrow> u32 list" where
  "walk m a 0 = []"
| "walk m a (Suc n) = a # walk m (load32 m a) n"

definition free_blocks :: "nd_mempool \<Rightarrow> u32 list" where
  "free_blocks p = walk (pool_mem p) (free_list p) (unat (free_count p))"

lemma chain_walk: "chain m a F \<Longrightarrow> walk m a (length F) = F"
  by (induction F arbitrary: a) auto

lemma free_blocks_eq: "pool_ok p F \<Longrightarrow> free_blocks p = F"
  using chain_walk by (simp add: free_blocks_def pool_ok_def)

lemma block_addr:
  assumes "pool_fits p" and "i < unat (block_count p)"
  shows "unat (start p + of_nat i * block_size p) = unat (start p) + i * unat (block_size p)"
    and "unat (start p) + i * unat (block_size p) + unat (block_size p) < 2 ^ 32"
proof -
  have "Suc i * unat (block_size p) \<le> unat (block_count p) * unat (block_size p)"
    using assms(2) by (intro mult_le_mono1) simp
  then have le: "unat (start p) + i * unat (block_size p) + unat (block_size p) < 2 ^ 32"
    using assms(1) by (simp add: pool_fits_def)
  then show "unat (start p) + i * unat (block_size p) + unat (block_size p) < 2 ^ 32" .
  have "unat (block_count p) < 2 ^ LENGTH(32)" by (rule unsigned_less)
  with assms(2) have "i < 2 ^ LENGTH(32)" by (rule less_trans)
  then have i: "unat (of_nat i :: u32) = i" by (simp add: unat_of_nat)
  have m: "unat (of_nat i * block_size p) = i * unat (block_size p)"
    using le by (simp add: unat_word_ariths i)
  show "unat (start p + of_nat i * block_size p) = unat (start p) + i * unat (block_size p)"
    using le by (simp add: unat_word_ariths i)
qed

text \<open>Two blocks are at least a block size, and so at least a pointer, apart.\<close>

lemma blocks_apart:
  assumes p: "pool_fits p" and a: "a \<in> set (pool_blocks p)" and b: "b \<in> set (pool_blocks p)" and ne: "a \<noteq> b"
  shows "unat a + unat (block_size p) \<le> unat b \<or> unat b + unat (block_size p) \<le> unat a"
proof -
  obtain i where i: "i < unat (block_count p)" "a = start p + of_nat i * block_size p"
    using a by (auto simp: pool_blocks_def)
  obtain k where k: "k < unat (block_count p)" "b = start p + of_nat k * block_size p"
    using b by (auto simp: pool_blocks_def)
  have "i \<noteq> k" using i k ne by auto
  then have "Suc i * unat (block_size p) \<le> k * unat (block_size p) \<or> Suc k * unat (block_size p) \<le> i * unat (block_size p)"
    by (metis linorder_neqE_nat Suc_leI mult_le_mono1)
  then show ?thesis
    unfolding i(2) k(2) block_addr(1) [OF p i(1)] block_addr(1) [OF p k(1)] by auto
qed

lemma block_in_pool:
  assumes p: "pool_fits p" and a: "a \<in> set (pool_blocks p)"
  shows "unat (start p) \<le> unat a \<and>
    unat a + unat (block_size p) \<le> unat (start p) + unat (block_count p) * unat (block_size p)"
proof -
  obtain k where k: "k < unat (block_count p)" "a = start p + of_nat k * block_size p"
    using a by (auto simp: pool_blocks_def)
  have "Suc k * unat (block_size p) \<le> unat (block_count p) * unat (block_size p)" using k(1) by (intro mult_le_mono1) simp
  moreover have "unat a = unat (start p) + k * unat (block_size p)" using block_addr(1) [OF p k(1)] k(2) by simp
  ultimately show ?thesis unfolding mult_Suc by linarith
qed

lemma block_word:
  assumes p: "pool_fits p" and a: "a \<in> set (pool_blocks p)"
  shows "unat a + unat (block_size p) < 2 ^ 32" "unat a + 4 \<le> 2 ^ 32"
proof -
  obtain i where i: "i < unat (block_count p)" "a = start p + of_nat i * block_size p"
    using a by (auto simp: pool_blocks_def)
  show le: "unat a + unat (block_size p) < 2 ^ 32"
    unfolding i(2) block_addr(1) [OF p i(1)] by (rule block_addr(2) [OF p i(1)])
  have "4 \<le> unat (block_size p)" using p by (simp add: pool_fits_def)
  with le show "unat a + 4 \<le> 2 ^ 32" by linarith
qed

lemma distinct_blocks: "pool_fits p \<Longrightarrow> distinct (pool_blocks p)"
proof -
  assume p: "pool_fits p"
  have "i = k" if i: "i < unat (block_count p)" and k: "k < unat (block_count p)"
    and e: "start p + of_nat i * block_size p = start p + of_nat k * block_size p" for i k
  proof -
    have "i * unat (block_size p) = k * unat (block_size p)"
      using block_addr(1) [OF p i] block_addr(1) [OF p k] unfolding e by linarith
    moreover have "unat (block_size p) \<noteq> 0" using p by (simp add: pool_fits_def)
    ultimately show ?thesis by (metis mult_right_cancel)
  qed
  then show ?thesis by (auto simp: pool_blocks_def distinct_map inj_on_def)
qed

lemma chain_cong:
  "(\<And>b. b \<in> set F \<Longrightarrow> load32 m' b = load32 m b) \<Longrightarrow> chain m' a F = chain m a F"
  by (induction F arbitrary: a) auto

lemma chain_append: "chain m a (F @ [b]) \<Longrightarrow> load32 m b = 0"
  by (induction F arbitrary: a) auto

lemma pool_pop_ok:
  assumes "pool_ok p F" and "free_count p \<noteq> 0"
  shows "\<exists>a G. F = a # G \<and> fst (pool_pop p) = a \<and> pool_ok (snd (pool_pop p)) G \<and>
           pool_blocks (snd (pool_pop p)) = pool_blocks p"
proof -
  obtain a G where F: "F = a # G"
    using assms by (cases F) (auto simp: pool_ok_def unat_eq_0)
  have "unat (free_count p - 1) = unat (free_count p) - 1" by (rule unat_minus_one [OF assms(2)])
  with assms(1) F show ?thesis
    by (auto simp: pool_pop_def pool_ok_def pool_fits_def pool_blocks_def)
qed

lemma pool_push_ok:
  assumes p: "pool_ok p F" and a: "a \<in> set (pool_blocks p)" "a \<notin> set F"
  shows "pool_ok (pool_push a p) (a # F)" and "pool_blocks (pool_push a p) = pool_blocks p"
proof -
  have fit: "pool_fits p" using p by (simp add: pool_ok_def)
  show b: "pool_blocks (pool_push a p) = pool_blocks p" by (simp add: pool_push_def pool_blocks_def)
  have far: "load32 (store32 a v m) b = load32 m b" if "b \<in> set F" for b v m
  proof -
    have b: "b \<in> set (pool_blocks p)" "a \<noteq> b" using p a that by (auto simp: pool_ok_def)
    show ?thesis
      by (rule load32_store32_far)
        (use blocks_apart [OF fit a(1) b] block_word(2) [OF fit a(1)] block_word(2) [OF fit b(1)] fit
         in \<open>auto simp: pool_fits_def\<close>)
  qed
  have "card (set (a # F)) \<le> card (set (pool_blocks p))"
    by (rule card_mono) (use p a in \<open>auto simp: pool_ok_def\<close>)
  then have "length (a # F) \<le> length (pool_blocks p)"
    using p a(2) distinct_card [OF distinct_blocks [OF fit]] distinct_card [of "a # F"] by (simp add: pool_ok_def)
  then have le: "Suc (unat (free_count p)) \<le> unat (block_count p)" using p by (simp add: pool_ok_def pool_blocks_def)
  have "unat (block_count p) < 2 ^ LENGTH(32)" by (rule unsigned_less)
  then have u: "unat (free_count p + 1) = Suc (unat (free_count p))"
    using le by (simp add: unat_word_ariths)
  have "chain (store32 a (free_list p) (pool_mem p)) (free_list p) F = chain (pool_mem p) (free_list p) F"
    by (rule chain_cong) (rule far)
  then show "pool_ok (pool_push a p) (a # F)"
    using p a u b unfolding pool_ok_def by (simp add: pool_push_def pool_fits_def)
qed


text \<open>The loop of \<open>nd_mempool_init\<close> links every block to the next one.\<close>

definition link_of :: "u32 \<Rightarrow> u32 \<Rightarrow> u32 \<Rightarrow> u32 \<Rightarrow> u32" where
  "link_of st bs n i = (if i < n - 1 then st + (i + 1) * bs else 0)"

lemma pool_links_load:
  assumes p: "pool_fits p" and j: "j < unat (block_count p)"
  shows "load32 (pool_links (start p) (block_size p) (block_count p) m) (start p + of_nat j * block_size p) =
    link_of (start p) (block_size p) (block_count p) (of_nat j)"
proof -
  let ?B = "\<lambda>i. start p + of_nat i * block_size p"
  let ?st = "\<lambda>i m. store32 (?B i) (link_of (start p) (block_size p) (block_count p) (of_nat i)) m"
  have "load32 (fold ?st [0..<k] m) (?B j) = link_of (start p) (block_size p) (block_count p) (of_nat j)"
    if "j < k" "k \<le> unat (block_count p)" for k
    using that
  proof (induction k)
    case (Suc k)
    show ?case
    proof (cases "j = k")
      case False
      with Suc.prems have k: "j < k" "k < unat (block_count p)" by simp_all
      then have in_blocks: "?B k \<in> set (pool_blocks p)" "?B j \<in> set (pool_blocks p)"
        using j by (auto simp: pool_blocks_def)
      have ne: "?B k \<noteq> ?B j"
      proof
        assume "?B k = ?B j"
        then have "unat (?B k) = unat (?B j)" by simp
        then have "k * unat (block_size p) = j * unat (block_size p)"
          unfolding block_addr(1) [OF p k(2)] block_addr(1) [OF p j] by simp
        with k(1) p show False by (simp add: pool_fits_def)
      qed
      have "load32 (?st k (fold ?st [0..<k] m)) (?B j) = load32 (fold ?st [0..<k] m) (?B j)"
        by (rule load32_store32_far)
          (use blocks_apart [OF p in_blocks ne] block_word(2) [OF p in_blocks(1)]
             block_word(2) [OF p in_blocks(2)] p in \<open>auto simp: pool_fits_def\<close>)
      with Suc.IH k show ?thesis by simp
    qed simp
  qed simp
  from this [OF j order.refl] show ?thesis
    by (simp add: pool_links_def fold_map o_def link_of_def)
qed

lemma init_chain:
  assumes p: "pool_fits p" and k: "k \<le> unat (block_count p)" and n: "block_count p \<noteq> 0"
    and m: "pool_mem p = pool_links (start p) (block_size p) (block_count p) m0"
  shows "chain (pool_mem p) (if k = unat (block_count p) then 0 else start p + of_nat k * block_size p)
           (drop k (pool_blocks p))"
  using k
proof (induction "unat (block_count p) - k" arbitrary: k)
  case 0
  then show ?case by (simp add: pool_blocks_def)
next
  case (Suc d)
  then have k: "k < unat (block_count p)" by simp
  have dr: "drop k (pool_blocks p) = (start p + of_nat k * block_size p) # drop (Suc k) (pool_blocks p)"
    unfolding pool_blocks_def drop_map drop_upt using k by (simp add: upt_conv_Cons)
  have "unat (block_count p) < 2 ^ LENGTH(32)" by (rule unsigned_less)
  with k have "k < 2 ^ LENGTH(32)" by (rule less_trans)
  then have uk: "unat (of_nat k :: u32) = k" by (simp add: unat_of_nat)
  have "(of_nat k :: u32) < block_count p - 1 \<longleftrightarrow> Suc k \<noteq> unat (block_count p)"
    using k by (simp add: word_less_nat_alt unat_minus_one [OF n] uk) arith
  then have "load32 (pool_mem p) (start p + of_nat k * block_size p) =
      (if Suc k = unat (block_count p) then 0 else start p + of_nat (Suc k) * block_size p)"
    using pool_links_load [OF p k] m by (simp add: link_of_def add.commute)
  with Suc.hyps(1) [of "Suc k"] Suc.hyps(2) k show ?case unfolding dr by simp
qed

lemma align_word [simp]: "bs AND 3 = 0 \<Longrightarrow> ND_ALIGN bs 4 = bs"
proof -
  assume a: "bs AND 3 = 0"
  have "bs + 4 - 1 = bs + 3" by simp
  also have "\<dots> = bs OR 3" using a by (rule disjunctive_add_eq_or)
  finally have e: "bs + 4 - 1 = bs OR 3" .
  have "(bs OR 3) AND NOT 3 = bs"
  proof (rule bit_word_eqI)
    fix n assume "n < LENGTH(32)"
    then have "bit bs n \<Longrightarrow> \<not> bit (3 :: u32) n" using a by (metis bit_0_eq bit_and_iff bot_apply bot_bool_def)
    moreover have "bit ((bs OR 3) AND NOT 3) n \<longleftrightarrow> (bit bs n \<or> bit (3 :: u32) n) \<and> \<not> bit (3 :: u32) n"
      using \<open>n < LENGTH(32)\<close> unfolding bit_and_iff bit_or_iff bit_not_iff by simp
    ultimately show "bit ((bs OR 3) AND NOT 3) n \<longleftrightarrow> bit bs n" by blast
  qed
  then show ?thesis unfolding ND_ALIGN_def e by simp
qed

text \<open>The alignment macro rounds up to a multiple of four, as long as that does not wrap.\<close>

lemma align_4:
  assumes "unat bs + 3 < 2 ^ 32"
  shows "unat (ND_ALIGN bs 4) = (unat bs + 3) div 4 * 4"
proof -
  have u: "unat (bs + 3) = unat bs + 3" using assms by (simp add: unat_word_ariths)
  have three: "(3 :: u32) = mask 2" by (simp add: mask_eq_exp_minus_1)
  have "x AND NOT 3 = push_bit 2 (drop_bit 2 x)" for x :: u32
  proof (rule bit_word_eqI)
    fix n assume n: "n < LENGTH(32)"
    have i: "\<not> n < 2 \<Longrightarrow> Suc (Suc (n - 2)) = n" by simp
    have m: "bit (3 :: u32) n \<longleftrightarrow> n < 2" using n by (simp add: three bit_mask_iff)
    show "bit (x AND NOT 3) n \<longleftrightarrow> bit (push_bit 2 (drop_bit 2 x)) n"
      using n unfolding bit_and_iff bit_not_iff m by (cases "n < 2") (simp_all add: bit_simps i)
  qed
  then have "unat (ND_ALIGN bs 4) = unat (push_bit 2 (drop_bit 2 (bs + 3)))" by (simp add: ND_ALIGN_def add.commute)
  also have "\<dots> = (unat bs + 3) div 4 * 4"
    using u assms by (simp add: push_bit_eq_mult drop_bit_eq_div unat_word_ariths unat_div)
  finally show ?thesis .
qed

text \<open>The holder of a block may write all of it: the free list is elsewhere.\<close>

lemma pool_ok_write:
  assumes p: "pool_ok p F" and a: "a \<in> set (pool_blocks p)" "a \<notin> set F"
    and x: "unat a \<le> unat x" "unat x < unat a + unat (block_size p)"
  shows "pool_ok (p\<lparr>pool_mem := (pool_mem p)(x := v)\<rparr>) F"
proof -
  have fit: "pool_fits p" using p by (simp add: pool_ok_def)
  have "load32 ((pool_mem p)(x := v)) b = load32 (pool_mem p) b" if "b \<in> set F" for b
  proof -
    have b: "b \<in> set (pool_blocks p)" "a \<noteq> b" using p a that by (auto simp: pool_ok_def)
    have u: "unat (b + of_nat k) = unat b + k" if "k < 4" for k
      using block_word(2) [OF fit b(1)] that by (simp add: unat_word_ariths unat_of_nat)
    have "b + of_nat k \<noteq> x" if "k < 4" for k
    proof
      assume "b + of_nat k = x"
      then have "unat x = unat b + k" using u [OF that] by simp
      with x that blocks_apart [OF fit a(1) b] fit show False by (auto simp: pool_fits_def)
    qed
    from this [of 0] this [of 1] this [of 2] this [of 3] show ?thesis by (simp add: load32_def)
  qed
  then have "chain ((pool_mem p)(x := v)) (free_list p) F = chain (pool_mem p) (free_list p) F"
    by (rule chain_cong)
  with p show ?thesis by (simp add: pool_ok_def pool_fits_def pool_blocks_def)
qed

lemma block_asserts:
  assumes fit: "pool_fits p" and a: "a \<in> set (pool_blocks p)"
  shows "a \<ge> start p \<and> a < start p + block_size p * block_count p \<and> (a - start p) mod block_size p = 0"
proof -
  obtain i where i: "i < unat (block_count p)" "a = start p + of_nat i * block_size p"
    using a by (auto simp: pool_blocks_def)
  note B = block_addr [OF fit i(1)]
  have e: "unat (start p + block_size p * block_count p) = unat (start p) + unat (block_count p) * unat (block_size p)"
    using fit by (simp add: pool_fits_def unat_word_ariths mult.commute)
  have "Suc i * unat (block_size p) \<le> unat (block_count p) * unat (block_size p)"
    using i(1) by (intro mult_le_mono1) simp
  then have "i * unat (block_size p) + unat (block_size p) \<le> unat (block_count p) * unat (block_size p)"
    unfolding mult_Suc by linarith
  moreover have "4 \<le> unat (block_size p)" using fit by (simp add: pool_fits_def)
  ultimately have "unat a < unat (start p + block_size p * block_count p)"
    unfolding i(2) B(1) e by linarith
  moreover have "unat (start p) \<le> unat a" unfolding i(2) B(1) by simp
  moreover have "a - start p = of_nat i * block_size p" by (simp add: i(2))
  moreover have "unat (of_nat i * block_size p) = i * unat (block_size p)"
  proof -
    have "unat (block_count p) < 2 ^ LENGTH(32)" by (rule unsigned_less)
    with i(1) have "i < 2 ^ LENGTH(32)" by (rule less_trans)
    then have "unat (of_nat i :: u32) = i" by (simp add: unat_of_nat)
    with B(2) show ?thesis by (simp add: unat_word_ariths)
  qed
  then have "unat (of_nat i * block_size p mod block_size p) = 0" by (simp add: unat_mod_distrib)
  ultimately show ?thesis by (simp add: word_le_nat_alt word_less_nat_alt unat_eq_0)
qed

section \<open>The calls\<close>

lemma upd_pool_sel [simp]:
  "threads (upd_pool f i s) = threads s" "kernel_ok j (upd_pool f i s) = kernel_ok j s"
  "scheduled (upd_pool f i s) = scheduled s" "qlists (upd_pool f i s) = qlists s"
  "pools (upd_pool f i s) = (pools s)(i := f (pools s i))"
  "nd_current_thread (upd_pool f i s) = nd_current_thread s"
  by (simp_all add: upd_pool_def)

lemma alloc_step: "nd_mempool_alloc j tmo s =
     (if free_count (pools s j) = 0 then
        if tmo = ND_TIMEOUT_NOWAIT then Some (Some 0, s)
        else
          Option.bind (wait_pass (PoolWait j) tmo s) (\<lambda>(p, s1).
            case p of Away \<Rightarrow> Some (None, s1) | Stop e \<Rightarrow> Some (Some 0, s1) | Again \<Rightarrow> nd_mempool_alloc j tmo s1)
      else let (a, p) = pool_pop (pools s j) in Some (Some a, upd_pool (\<lambda>_. p) j s))"
  by (rule nd_mempool_alloc.simps)

lemma is_ready_pool: "\<not> is_ready (PoolWait j)"
  by (simp add: is_ready_def)

lemma nd_mempool_alloc_waits:
  assumes C: "calling i c s" and ci: "c \<noteq> i" and e: "free_count (pools s j) = 0"
    and tmo: "tmo \<noteq> ND_TIMEOUT_NOWAIT" and im: "port s = SwitchImmediate"
  shows "wp (nd_mempool_alloc j tmo s) (\<lambda>(r, s'). r = None \<and> kernel_ok i s' \<and> scheduled s' \<and>
           waits (PoolWait j) tmo c s s' \<and>
           wait_frame (PoolWait j) (insort_after (prio_of s) c (qlists s (PoolWait j))) s s')"
  using wait_pass_ok [OF C ci is_ready_pool [of j], of tmo] by (subst alloc_step) (auto simp: e tmo im wp_iff)

lemma nd_mempool_free_ok:
  assumes ok: "kernel_ok i s" and p: "pool_ok (pools s j) F"
    and a: "a \<in> set (pool_blocks (pools s j))" "a \<notin> set F"
  shows "wp (nd_mempool_free dbg j a s) (\<lambda>s'. kernel_ok i s' \<and> (scheduled s \<longrightarrow> scheduled s') \<and>
           pools s' = (pools s)(j := pool_push a (pools s j)) \<and> sync_frame (upd_pool (pool_push a) j s) s' \<and>
           (case qlists s (PoolWait j) of [] \<Rightarrow> qlists s' = qlists s \<and> threads s' = threads s
            | t # L \<Rightarrow> qlists s' (PoolWait j) = L \<and> runnable (status s' t) \<and> error (threads s' t) = ND_EOK))"
proof -
  let ?s = "upd_pool (pool_push a) j s"
  have as: "dbg \<longrightarrow> a \<ge> start (pools s j) \<and> a < start (pools s j) + block_size (pools s j) * block_count (pools s j) \<and>
      (a - start (pools s j)) mod block_size (pools s j) = 0"
    using block_asserts [OF _ a(1)] p by (simp add: pool_ok_def)
  have k: "kernel_ok i ?s" using ok by simp
  note K = kernel_okD [OF k]
  show ?thesis
  proof (cases "qlists s (PoolWait j)")
    case Nil
    with k as show ?thesis by (simp add: nd_mempool_free_def q_is_empty_def Let_def)
  next
    case (Cons t L)
    then have q': "qlists ?s (PoolWait j) = t # L" by simp
    have e: "nd_mempool_free dbg j a s = do { (_, s1) \<leftarrow> nd_thread_wakeup (PoolWait j) ?s; nd_scheduler s1 }"
      using as Cons by (simp add: nd_mempool_free_def q_is_empty_def Let_def)
    show ?thesis unfolding e
    proof (rule wp_mono [OF wakeup_then_schedule [OF K(1-3) q' is_ready_pool]], elim conjE)
      fix s' assume s': "kernel_ok i s'" "scheduled s'" "runnable (status s' t)" "error (threads s' t) = ND_EOK"
        and wf: "wait_frame (PoolWait j) L ?s s'"
      have "sync_frame ?s s'" by (rule sync_frame_wait [OF wf]) (use q' in auto)
      with s' Cons wait_frameD(5) [OF wf] wait_frameD(11) [OF wf is_ready_pool]
      show "kernel_ok i s' \<and> (scheduled s \<longrightarrow> scheduled s') \<and>
           pools s' = (pools s)(j := pool_push a (pools s j)) \<and> sync_frame (upd_pool (pool_push a) j s) s' \<and>
           (case qlists s (PoolWait j) of [] \<Rightarrow> qlists s' = qlists s \<and> threads s' = threads s
            | t # L \<Rightarrow> qlists s' (PoolWait j) = L \<and> runnable (status s' t) \<and> error (threads s' t) = ND_EOK)"
        by simp
    qed
  qed
qed

lemma nd_mempool_init_ok:
  assumes ok: "kernel_ok i s" and idle: "qlists s (PoolWait j) = []"
    and bs: "bs AND 3 = 0" "4 \<le> unat bs" and n: "n \<noteq> 0" and fit: "unat st + unat n * unat bs < 2 ^ 32"
  shows "wp (nd_mempool_init j st bs n s) (\<lambda>s'. kernel_ok i s' \<and> (scheduled s \<longrightarrow> scheduled s') \<and>
           pool_ok (pools s' j) (pool_blocks (pools s' j)) \<and>
           pool_blocks (pools s' j) = map (\<lambda>i. st + of_nat i * bs) [0..<unat n] \<and>
           (\<forall>k. k \<noteq> j \<longrightarrow> pools s' k = pools s k))"
proof -
  define p where "p = (pools s j)\<lparr>start := st, block_size := bs, block_count := n, free_count := n,
    pool_mem := pool_links st bs n (pool_mem (pools s j)), free_list := st\<rparr>"
  have e: "nd_mempool_init j st bs n s = Some (upd_pool (\<lambda>_. p) j s)"
    using bs(1) idle by (simp add: nd_mempool_init_def q_init_def p_def upd_pool_def fun_upd_idem)
  have pf: "pool_fits p" using bs fit by (simp add: pool_fits_def p_def)
  have "chain (pool_mem p) st (pool_blocks p)"
    using init_chain [OF pf, of 0 "pool_mem (pools s j)"] n by (simp add: p_def unat_eq_0)
  then have "pool_ok p (pool_blocks p)"
    using pf distinct_blocks [OF pf] by (simp add: pool_ok_def) (simp add: p_def pool_blocks_def)
  with e ok show ?thesis by (simp add: pool_blocks_def) (simp add: p_def)
qed


section \<open>Properties\<close>

text \<open>A pool of two blocks of eight bytes at address 256, with no block taken.\<close>

lemma sample_kpool: "kernel_ok 0 (sample pt)" "qlists (sample pt) (PoolWait j) = []"
  by (simp_all add: sample_ok) (simp add: sample_def sample_lists_def)

definition sample_pool :: nd_mempool where
  "sample_pool = \<lparr>start = 256, block_size = 8, block_count = 2, free_count = 2, free_list = 256,
     pool_mem = pool_links 256 8 2 (\<lambda>a. 0)\<rparr>"

lemma sample_pool_fits: "pool_fits sample_pool"
  by (simp add: pool_fits_def sample_pool_def)

lemma sample_pool_blocks: "pool_blocks sample_pool = [256, 264]"
  by (simp add: pool_blocks_def sample_pool_def upt_rec)

lemma sample_pool_ok: "pool_ok sample_pool [256, 264]"
  using init_chain [OF sample_pool_fits, of 0 "\<lambda>a. 0"] sample_pool_fits sample_pool_blocks
  by (auto simp: pool_ok_def sample_pool_def)

definition pool_sample :: "switch_kind \<Rightarrow> kstate" where
  "pool_sample pt = upd_pool (\<lambda>_. sample_pool) 0 (sample pt)"

lemma pool_sample_simps [simp]:
  "pools (pool_sample pt) 0 = sample_pool" "kernel_ok 0 (pool_sample pt)" "qlists (pool_sample pt) (PoolWait j) = []"
  by (simp_all add: pool_sample_def sample_kpool)

text \<open>C21: \<open>nd_mempool_init\<close>. For every size and number of blocks it returns with \<open>n\<close> blocks free, the list at the
  start of the memory, the block size rounded up to a multiple of the pointer size, and nothing else changed. If the
  size already is such a multiple (and not 0), there is a block, and the blocks lie below the end of the address space, the
  free list holds every block once, from first to last; no two blocks overlap and all lie in the memory given.\<close>

theorem mempool_init_correct:
  assumes ok: "kernel_ok i s" and idle: "qlists s (PoolWait j) = []"
  shows "wp (nd_mempool_init j st bs n s) (\<lambda>s'. kernel_ok i s' \<and> qlists s' = qlists s \<and> threads s' = threads s \<and>
           start (pools s' j) = st \<and> block_count (pools s' j) = n \<and> free_count (pools s' j) = n \<and> free_list (pools s' j) = st \<and>
           (unat bs + 3 < 2 ^ 32 \<longrightarrow> unat (block_size (pools s' j)) = (unat bs + 3) div 4 * 4) \<and>
           (\<forall>k. k \<noteq> j \<longrightarrow> pools s' k = pools s k) \<and>
           (bs AND 3 = 0 \<and> 4 \<le> unat bs \<and> n \<noteq> 0 \<and> unat st + unat n * unat bs < 2 ^ 32 \<longrightarrow>
              pool_ok (pools s' j) (pool_blocks (pools s' j)) \<and>
              pool_blocks (pools s' j) = map (\<lambda>i. st + of_nat i * bs) [0..<unat n] \<and>
              (\<forall>a \<in> set (pool_blocks (pools s' j)). unat st \<le> unat a \<and> unat a + unat bs \<le> unat st + unat n * unat bs \<and>
                 (\<forall>b \<in> set (pool_blocks (pools s' j)). a \<noteq> b \<longrightarrow> unat a + unat bs \<le> unat b \<or> unat b + unat bs \<le> unat a))))"
proof -
  define p where "p = (pools s j)\<lparr>start := st, block_size := ND_ALIGN bs 4, block_count := n, free_count := n,
    pool_mem := pool_links st bs n (pool_mem (pools s j)), free_list := st\<rparr>"
  have e: "nd_mempool_init j st bs n s = Some (upd_pool (\<lambda>_. p) j s)"
    using idle by (simp add: nd_mempool_init_def q_init_def p_def upd_pool_def fun_upd_idem)
  have f: "start p = st" "block_size p = ND_ALIGN bs 4" "block_count p = n" "free_count p = n" "free_list p = st"
    by (simp_all add: p_def)
  have P: "bs AND 3 = 0 \<and> 4 \<le> unat bs \<and> n \<noteq> 0 \<and> unat st + unat n * unat bs < 2 ^ 32 \<longrightarrow>
      pool_ok p (pool_blocks p) \<and> pool_blocks p = map (\<lambda>i. st + of_nat i * bs) [0..<unat n] \<and>
      (\<forall>a \<in> set (pool_blocks p). unat st \<le> unat a \<and> unat a + unat bs \<le> unat st + unat n * unat bs \<and>
         (\<forall>b \<in> set (pool_blocks p). a \<noteq> b \<longrightarrow> unat a + unat bs \<le> unat b \<or> unat b + unat bs \<le> unat a))"
  proof (intro impI, elim conjE)
    assume c: "bs AND 3 = 0" "4 \<le> unat bs" "n \<noteq> 0" "unat st + unat n * unat bs < 2 ^ 32"
    then have g: "block_size p = bs" and pf: "pool_fits p" by (simp_all add: f pool_fits_def)
    have "pool_ok p (pool_blocks p) \<and> pool_blocks p = map (\<lambda>i. st + of_nat i * bs) [0..<unat n]"
      using wpD [OF nd_mempool_init_ok [OF ok idle c] e] by auto
    then show "pool_ok p (pool_blocks p) \<and> pool_blocks p = map (\<lambda>i. st + of_nat i * bs) [0..<unat n] \<and>
      (\<forall>a \<in> set (pool_blocks p). unat st \<le> unat a \<and> unat a + unat bs \<le> unat st + unat n * unat bs \<and>
         (\<forall>b \<in> set (pool_blocks p). a \<noteq> b \<longrightarrow> unat a + unat bs \<le> unat b \<or> unat b + unat bs \<le> unat a))"
      using blocks_apart [OF pf, unfolded g] block_in_pool [OF pf, unfolded g f(1,3)] by blast
  qed
  show ?thesis unfolding e wp_Some upd_pool_sel fun_upd_same
    by (intro conjI; (rule P | simp add: f ok align_4))
qed

theorem mempool_init_witness:
  "wp (nd_mempool_init 0 256 8 2 (sample SwitchDeferred)) (\<lambda>s'. pool_blocks (pools s' 0) = [256, 264]) \<and>
   wp (nd_mempool_init 0 256 6 2 (sample SwitchDeferred)) (\<lambda>s'. unat (block_size (pools s' 0)) = 8)"
  by (intro conjI; rule wp_mono [OF mempool_init_correct [OF sample_kpool]]) (simp_all add: upt_rec)

text \<open>C22: \<open>nd_mempool_alloc\<close>. With a free block, the first of the free list is returned, is in it no longer, and
  whatever its holder writes in it leaves the free list as it is. With none, a caller that will not wait gets a
  null pointer; any other is blocked in priority order on the ports that switch at once; on those that defer the
  switch the loop comes back to the blocked caller and links its node a second time, which is a fault.\<close>

theorem mempool_alloc_correct:
  assumes C: "calling i c s" and ci: "c \<noteq> i" and p: "pool_ok (pools s j) F"
  shows "if F = [] \<and> tmo \<noteq> ND_TIMEOUT_NOWAIT \<and> port s = SwitchDeferred
         then \<exists>s1. wait_pass (PoolWait j) tmo s = Some (Again, s1) \<and> blocked_running (PoolWait j) c s s1 \<and>
           pools s1 = pools s \<and> nd_mempool_alloc j tmo s = nd_mempool_alloc j tmo s1 \<and>
           wait_pass (PoolWait j) tmo s1 = None \<and> nd_mempool_alloc j tmo s = None
         else wp (nd_mempool_alloc j tmo s) (\<lambda>(r, s'). kernel_ok i s' \<and>
           (case F of
              a # G \<Rightarrow> r = Some a \<and> a \<notin> set G \<and> pool_ok (pools s' j) G \<and> (\<forall>k. k \<noteq> j \<longrightarrow> pools s' k = pools s k) \<and>
                (\<forall>x v. unat a \<le> unat x \<and> unat x < unat a + unat (block_size (pools s j)) \<longrightarrow>
                   pool_ok ((pools s' j)\<lparr>pool_mem := (pool_mem (pools s' j))(x := v)\<rparr>) G)
            | [] \<Rightarrow> if tmo = ND_TIMEOUT_NOWAIT then r = Some 0 \<and> s' = s
                else r = None \<and> scheduled s' \<and> waits (PoolWait j) tmo c s s' \<and> pools s' = pools s \<and>
                  qlists s' (PoolWait j) = insort_after (prio_of s) c (qlists s (PoolWait j))))"
proof (cases F)
  case Nil
  then have e: "free_count (pools s j) = 0" using p by (simp add: pool_ok_def unat_eq_0)
  show ?thesis
  proof (cases "tmo = ND_TIMEOUT_NOWAIT")
    case True
    have "nd_mempool_alloc j tmo s = Some (Some 0, s)" by (subst alloc_step) (simp add: e True)
    then show ?thesis by (simp add: Nil True callingD(1) [OF C])
  next
    case False
    show ?thesis
    proof (cases "port s")
      case SwitchDeferred
      obtain s1 where s1: "wait_pass (PoolWait j) tmo s = Some (Again, s1)" "blocked_running (PoolWait j) c s s1"
        "wait_pass (PoolWait j) tmo s1 = None" "pools s1 = pools s"
        by (rule wait_pass_deferred [OF C ci SwitchDeferred is_ready_pool])
      have "nd_mempool_alloc j tmo s1 = None" by (subst alloc_step) (simp add: s1 e False)
      moreover have "nd_mempool_alloc j tmo s = nd_mempool_alloc j tmo s1" by (subst alloc_step) (simp add: s1 e False)
      ultimately show ?thesis using s1 Nil False SwitchDeferred by auto
    next
      case SwitchImmediate
      have "wp (nd_mempool_alloc j tmo s) (\<lambda>(r, s'). kernel_ok i s' \<and> r = None \<and> scheduled s' \<and>
          waits (PoolWait j) tmo c s s' \<and> pools s' = pools s \<and>
          qlists s' (PoolWait j) = insort_after (prio_of s) c (qlists s (PoolWait j)))"
        by (rule wp_pair_mono [OF nd_mempool_alloc_waits [OF C ci e False SwitchImmediate]])
          (auto simp: wait_frameD(5,11) is_ready_pool)
      then show ?thesis by (simp add: Nil False SwitchImmediate)
    qed
  qed
next
  case (Cons a G)
  then have ne: "free_count (pools s j) \<noteq> 0" using p by (auto simp: pool_ok_def)
  define q where "q = snd (pool_pop (pools s j))"
  have q: "fst (pool_pop (pools s j)) = a" "pool_ok q G" "pool_blocks q = pool_blocks (pools s j)"
    using pool_pop_ok [OF p ne] Cons by (auto simp: q_def)
  have bsz: "block_size q = block_size (pools s j)" by (simp add: q_def pool_pop_def)
  have a: "a \<in> set (pool_blocks q)" "a \<notin> set G" using p Cons unfolding q(3) by (auto simp: pool_ok_def)
  have "nd_mempool_alloc j tmo s = Some (Some a, upd_pool (\<lambda>_. q) j s)"
    by (subst alloc_step) (simp add: ne case_prod_unfold q(1) q_def)
  then show ?thesis
    using Cons callingD(1) [OF C] q(2) a(2) pool_ok_write [OF q(2) a] unfolding bsz by simp
qed

lemma pool_sample_calling: "calling 0 1 (pool_sample pt)"
  using sample_calling [of pt] unfolding calling_def by (simp add: pool_sample_def upd_pool_def)

theorem mempool_alloc_witness:
  "wp (nd_mempool_alloc 0 10 (pool_sample SwitchDeferred)) (\<lambda>(r, s'). r = Some 256 \<and> pool_ok (pools s' 0) [264])"
proof -
  have "wp (nd_mempool_alloc 0 10 (pool_sample SwitchDeferred)) (\<lambda>(r, s'). kernel_ok 0 s' \<and> r = Some 256 \<and>
      256 \<notin> set [264 :: u32] \<and> pool_ok (pools s' 0) [264] \<and> (\<forall>k. k \<noteq> 0 \<longrightarrow> pools s' k = pools (pool_sample SwitchDeferred) k) \<and>
      (\<forall>x v. 256 \<le> unat x \<and> unat x < 264 \<longrightarrow> pool_ok ((pools s' 0)\<lparr>pool_mem := (pool_mem (pools s' 0))(x := v)\<rparr>) [264]))"
    using mempool_alloc_correct [OF pool_sample_calling [of SwitchDeferred], of 0 "[256, 264]" 10]
    by (simp add: sample_pool_ok) (simp add: sample_pool_def)
  then show ?thesis by (rule wp_pair_mono) simp
qed

text \<open>C23: \<open>nd_mempool_free\<close> of a block that is not free puts it first in the free list, passes the debug
  assertions, and wakes the first thread waiting for a block; the kernel and the pool stay well formed.\<close>

theorem mempool_free_correct:
  assumes ok: "kernel_ok i s" and p: "pool_ok (pools s j) F"
    and a: "a \<in> set (pool_blocks (pools s j))" "a \<notin> set F"
  shows "wp (nd_mempool_free dbg j a s) (\<lambda>s'. kernel_ok i s' \<and> (scheduled s \<longrightarrow> scheduled s') \<and>
           pool_ok (pools s' j) (a # F) \<and> (\<forall>k. k \<noteq> j \<longrightarrow> pools s' k = pools s k) \<and>
           (case qlists s (PoolWait j) of [] \<Rightarrow> qlists s' = qlists s \<and> threads s' = threads s
            | t # L \<Rightarrow> qlists s' (PoolWait j) = L \<and> runnable (status s' t) \<and> error (threads s' t) = ND_EOK))"
  by (rule wp_mono [OF nd_mempool_free_ok [OF assms]]) (use pool_push_ok(1) [OF p a] in simp)

theorem mempool_free_witness:
  "\<exists>s. nd_mempool_alloc 0 10 (pool_sample SwitchDeferred) = Some (Some 256, s) \<and>
     wp (nd_mempool_free True 0 256 s) (\<lambda>s'. pool_ok (pools s' 0) [256, 264])"
proof -
  define q where "q = snd (pool_pop sample_pool)"
  have q: "fst (pool_pop sample_pool) = 256" "pool_ok q [264]" "pool_blocks q = [256, 264]"
    using pool_pop_ok [OF sample_pool_ok] sample_pool_blocks by (auto simp: q_def sample_pool_def)
  let ?s = "upd_pool (\<lambda>_. q) 0 (pool_sample SwitchDeferred)"
  have "free_count sample_pool \<noteq> 0" by (simp add: sample_pool_def)
  then have "nd_mempool_alloc 0 10 (pool_sample SwitchDeferred) = Some (Some 256, ?s)"
    by (subst alloc_step) (simp add: case_prod_unfold q(1) q_def)
  moreover have "wp (nd_mempool_free True 0 256 ?s) (\<lambda>s'. pool_ok (pools s' 0) [256, 264])"
    by (rule wp_mono [OF mempool_free_correct [of 0 _ 0 "[264]"]]) (simp_all add: q)
  ultimately show ?thesis by blast
qed

text \<open>A block that is freed while nobody waits is the next one allocated, and the pool is then as it
  was before: the same blocks are free, in the same order.\<close>

theorem mempool_free_alloc:
  assumes ok: "kernel_ok i s" and p: "pool_ok (pools s j) F" and nw: "qlists s (PoolWait j) = []"
    and a: "a \<in> set (pool_blocks (pools s j))" "a \<notin> set F"
  shows "wp (nd_mempool_free dbg j a s) (\<lambda>s1. wp (nd_mempool_alloc j tmo s1) (\<lambda>(r, s2).
           r = Some a \<and> pool_ok (pools s2 j) F \<and> free_list (pools s2 j) = free_list (pools s j) \<and>
           free_count (pools s2 j) = free_count (pools s j)))"
proof (rule wp_mono [OF nd_mempool_free_ok [OF ok p a]], elim conjE)
  fix s1 :: kstate assume s1: "pools s1 = (pools s)(j := pool_push a (pools s j))"
  let ?q = "pool_push a (pools s j)"
  note q = pool_push_ok(1) [OF p a]
  have ne: "free_count ?q \<noteq> 0" using q by (auto simp: pool_ok_def)
  have "nd_mempool_alloc j tmo s1 = Some (Some a, upd_pool (\<lambda>_. snd (pool_pop ?q)) j s1)"
    by (subst alloc_step) (use ne in \<open>simp add: s1 case_prod_unfold pool_pop_def pool_push_def\<close>)
  moreover have "pool_ok (snd (pool_pop ?q)) F" using pool_pop_ok [OF q ne] by auto
  ultimately show "wp (nd_mempool_alloc j tmo s1) (\<lambda>(r, s2).
           r = Some a \<and> pool_ok (pools s2 j) F \<and> free_list (pools s2 j) = free_list (pools s j) \<and>
           free_count (pools s2 j) = free_count (pools s j))"
    by (simp add: s1) (simp add: pool_pop_def pool_push_def)
qed

theorem mempool_free_alloc_witness:
  "\<exists>s. nd_mempool_alloc 0 10 (pool_sample SwitchDeferred) = Some (Some 256, s) \<and>
     wp (nd_mempool_free True 0 256 s) (\<lambda>s1. wp (nd_mempool_alloc 0 0 s1) (\<lambda>(r, s2). r = Some 256))"
proof -
  define q where "q = snd (pool_pop sample_pool)"
  have q: "fst (pool_pop sample_pool) = 256" "pool_ok q [264]" "pool_blocks q = [256, 264]"
    using pool_pop_ok [OF sample_pool_ok] sample_pool_blocks by (auto simp: q_def sample_pool_def)
  let ?s = "upd_pool (\<lambda>_. q) 0 (pool_sample SwitchDeferred)"
  have "free_count sample_pool \<noteq> 0" by (simp add: sample_pool_def)
  then have "nd_mempool_alloc 0 10 (pool_sample SwitchDeferred) = Some (Some 256, ?s)"
    by (subst alloc_step) (simp add: case_prod_unfold q(1) q_def)
  moreover have "wp (nd_mempool_free True 0 256 ?s) (\<lambda>s1. wp (nd_mempool_alloc 0 0 s1) (\<lambda>(r, s2). r = Some 256))"
    by (rule wp_mono2 [OF mempool_free_alloc [of 0 _ 0 "[264]"]]) (auto simp: q)
  ultimately show ?thesis by blast
qed

end
