(* ===== verification/Nd_Kernel.thy ===== *)
theory Nd_Kernel
  imports Nd_Sem Nd_Mutex Nd_Event Nd_Expiry Nd_Mempool
begin

text \<open>
  The kernel as a whole: the calls of the application as one data type, their execution, the
  interrupts around them, and the invariant that joins the scheduler's with those of the
  semaphores, mutexes, event groups, message queues and memory pools. \<open>kstep\<close> is the step relation, \<open>kreach\<close> its closure.
\<close>

section \<open>The calls of the application\<close>

text \<open>
  Every function of the kernel's interface on threads, timers and the objects they wait for (the memory heap has a state of its own). \<open>QueueSendResume\<close>, \<open>QueueRecvResume\<close> and
  \<open>PoolAllocResume\<close> are the rest of a call whose caller was switched away from while it waited; the other blocking
  calls have nothing left to do then but to return \<open>nd_wait_result\<close>. A timer's callback is given by its number.
\<close>

datatype kcall =
    Yield
  | Delay u64
  | SemInit nat int
  | SemTake nat u64
  | SemRelease nat
  | MutexInit nat
  | MutexLock nat u64
  | MutexUnlock nat
  | EventInit nat
  | EventSend nat u32
  | EventRecv nat u32 nd_event_opt u64
  | QueueInit nat "u8 list" u32 u32
  | QueueSend nat "u8 list" u64
  | QueueSendResume nat "u8 list" u64
  | QueueRecv nat u64
  | QueueRecvResume nat u64
  | PoolInit nat u32 u32 u32
  | PoolAlloc nat u64
  | PoolAllocResume nat u64
  | PoolFree bool nat u32
  | Join tid u64
  | Suspend tid
  | Resume tid
  | Abort tid
  | TimerInit nat "string option" nd_timer_type u64 "nat option" "nat option"
  | TimerStart nat
  | TimerStop nat
  | Create tid string u32 nat u32 u32 u32 u32 u64

fun kcall_exec :: "kcall \<Rightarrow> kstate \<Rightarrow> kstate option" where
  "kcall_exec Yield s = nd_thread_yield s"
| "kcall_exec (Delay d) s = nd_thread_delay d s"
| "kcall_exec (SemInit m v) s = nd_sem_init m v s"
| "kcall_exec (SemTake m tmo) s = map_option snd (nd_sem_take m tmo s)"
| "kcall_exec (SemRelease m) s = map_option snd (nd_sem_release m s)"
| "kcall_exec (MutexInit m) s = nd_mutex_init m s"
| "kcall_exec (MutexLock m tmo) s = map_option snd (nd_mutex_lock m tmo s)"
| "kcall_exec (MutexUnlock m) s = map_option snd (nd_mutex_unlock m s)"
| "kcall_exec (EventInit e) s = nd_event_init e s"
| "kcall_exec (EventSend e w) s = map_option snd (nd_event_send e w s)"
| "kcall_exec (EventRecv e w opt tmo) s = map_option snd (nd_event_recv e w opt tmo s)"
| "kcall_exec (QueueInit j b msz mx) s = map_option snd (nd_queue_init j b msz mx s)"
| "kcall_exec (QueueSend j msg tmo) s = map_option snd (nd_queue_send j msg tmo s)"
| "kcall_exec (QueueSendResume j msg tmo) s = map_option snd (queue_send_resume j msg tmo s)"
| "kcall_exec (QueueRecv j tmo) s = map_option snd (nd_queue_recv j tmo s)"
| "kcall_exec (QueueRecvResume j tmo) s = map_option snd (queue_recv_resume j tmo s)"
| "kcall_exec (PoolInit j st bs n) s = nd_mempool_init j st bs n s"
| "kcall_exec (PoolAlloc j tmo) s = map_option snd (nd_mempool_alloc j tmo s)"
| "kcall_exec (PoolAllocResume j tmo) s = map_option snd (mempool_alloc_resume j tmo s)"
| "kcall_exec (PoolFree dbg j a) s = nd_mempool_free dbg j a s"
| "kcall_exec (Join t tmo) s = map_option snd (nd_thread_join (Some t) tmo s)"
| "kcall_exec (Suspend t) s = map_option snd (nd_thread_suspend t s)"
| "kcall_exec (Resume t) s = map_option snd (nd_thread_resume t s)"
| "kcall_exec (Abort t) s = map_option snd (nd_thread_abort (Some t) s)"
| "kcall_exec (TimerInit n nm ty tmo cb a) s =
     map_option snd (nd_timer_init (Some (UserTimer n)) nm ty tmo (map_option CB_user cb) a s)"
| "kcall_exec (TimerStart n) s = map_option snd (nd_timer_start (Some (UserTimer n)) s)"
| "kcall_exec (TimerStop n) s = map_option snd (nd_timer_stop (Some (UserTimer n)) s)"
| "kcall_exec (Create t n ent pri par stk stksz opts tslice) s =
     map_option snd (nd_thread_create (Some t) (Some n) ent pri par stk stksz opts tslice s)"

text \<open>
  What a call needs that the kernel does not check.
  \<^item> An object in use is not initialised again: no thread waits for it, the mutex has no owner, the timer is not pending,
    the thread's control block was never used.
  \<^item> The buffer of a queue has the size of its messages, the memory of a pool holds its blocks, whose size is a multiple of 4.
  \<^item> Queues and pools are initialised before they are used, a message has the queue's size, and only a block that is taken is
    freed.
  \<^item> On a port that defers the switch, a call on a queue or a pool does not have to wait (where it has to, it faults:
    \<open>queue_wait_faults_deferred\<close>, \<open>mempool_alloc_correct\<close>).
  \<^item> The count of a semaphore does not overflow.
  \<^item> The idle thread \<open>i\<close> is not suspended or aborted, a thread that never was created is not aborted, and the thread that is
    suspended or aborted is not the one a pending PendSV is about to switch to (the code leaves \<open>nd_next_thread\<close> as it is then).
\<close>

definition queue_ready :: "nat \<Rightarrow> bool \<Rightarrow> u64 \<Rightarrow> kstate \<Rightarrow> bool" where
  "queue_ready j busy tmo s \<longleftrightarrow> max_msgs (queues s j) \<noteq> 0 \<and>
     (port s = SwitchDeferred \<and> busy \<longrightarrow> tmo = ND_TIMEOUT_NOWAIT)"

definition send_legal :: "nat \<Rightarrow> u8 list \<Rightarrow> u64 \<Rightarrow> kstate \<Rightarrow> bool" where
  "send_legal j msg tmo s \<longleftrightarrow> length msg = unat (msg_size (queues s j)) \<and>
     queue_ready j (used_msg (queues s j) = max_msgs (queues s j)) tmo s"

definition recv_legal :: "nat \<Rightarrow> u64 \<Rightarrow> kstate \<Rightarrow> bool" where
  "recv_legal j tmo s \<longleftrightarrow> queue_ready j (used_msg (queues s j) = 0) tmo s"

definition alloc_legal :: "nat \<Rightarrow> u64 \<Rightarrow> kstate \<Rightarrow> bool" where
  "alloc_legal j tmo s \<longleftrightarrow> block_count (pools s j) \<noteq> 0 \<and>
     (port s = SwitchDeferred \<and> free_count (pools s j) = 0 \<longrightarrow> tmo = ND_TIMEOUT_NOWAIT)"

text \<open>A block the application holds.\<close>

definition taken :: "nd_mempool \<Rightarrow> u32 \<Rightarrow> bool" where
  "taken p a \<longleftrightarrow> block_count p \<noteq> 0 \<and> a \<in> set (pool_blocks p) \<and> a \<notin> set (free_blocks p)"

fun legal :: "tid \<Rightarrow> kcall \<Rightarrow> kstate \<Rightarrow> bool" where
  "legal i (SemInit m v) s = (qlists s (SemWait m) = [] \<and> - INT32_MAX - 1 \<le> v \<and> v \<le> INT32_MAX)"
| "legal i (SemRelease m) s = (qlists s (SemWait m) = [] \<longrightarrow> sem_val (sems s m) < INT32_MAX)"
| "legal i (MutexInit m) s = (owner (mutexes s m) = None)"
| "legal i (EventInit e) s = (qlists s (EventWait e) = [])"
| "legal i (QueueInit j b msz mx) s = (qlists s (ReadWait j) = [] \<and> qlists s (SendWait j) = [] \<and>
     unat mx * unat msz < 2 ^ 32 \<and> length b = unat mx * unat msz)"
| "legal i (QueueSend j msg tmo) s = send_legal j msg tmo s"
| "legal i (QueueSendResume j msg tmo) s = send_legal j msg tmo s"
| "legal i (QueueRecv j tmo) s = recv_legal j tmo s"
| "legal i (QueueRecvResume j tmo) s = recv_legal j tmo s"
| "legal i (PoolInit j st bs n) s = (qlists s (PoolWait j) = [] \<and>
     bs AND 3 = 0 \<and> 4 \<le> unat bs \<and> n \<noteq> 0 \<and> unat st + unat n * unat bs < 2 ^ 32)"
| "legal i (PoolAlloc j tmo) s = alloc_legal j tmo s"
| "legal i (PoolAllocResume j tmo) s = alloc_legal j tmo s"
| "legal i (PoolFree dbg j a) s = taken (pools s j) a"
| "legal i (Suspend t) s = (t \<noteq> i \<and> (pendsv s \<longrightarrow> nd_next_thread s \<noteq> Some t))"
| "legal i (Abort t) s =
     (t \<noteq> i \<and> status s t \<noteq> ND_THREAD_STAT_INIT \<and> (pendsv s \<longrightarrow> nd_next_thread s \<noteq> Some t))"
| "legal i (TimerInit n nm ty tmo cb a) s = (UserTimer n \<notin> set (rbtree s))"
| "legal i (Create t n ent pri par stk stksz opts tslice) s = (unused s t \<and> t \<noteq> i)"
| "legal i _ s = True"

text \<open>The calls that are allowed in an interrupt handler: those that do not act on the current thread.\<close>

fun isr_safe :: "kcall \<Rightarrow> bool" where
  "isr_safe (SemInit m v) = True"
| "isr_safe (SemTake m tmo) = (tmo = ND_TIMEOUT_NOWAIT)"
| "isr_safe (SemRelease m) = True"
| "isr_safe (MutexInit m) = True"
| "isr_safe (EventInit e) = True"
| "isr_safe (EventSend e w) = True"
| "isr_safe (QueueInit j b msz mx) = True"
| "isr_safe (QueueSend j msg tmo) = (tmo = ND_TIMEOUT_NOWAIT)"
| "isr_safe (QueueRecv j tmo) = (tmo = ND_TIMEOUT_NOWAIT)"
| "isr_safe (PoolInit j st bs n) = True"
| "isr_safe (PoolAlloc j tmo) = (tmo = ND_TIMEOUT_NOWAIT)"
| "isr_safe (PoolFree dbg j a) = True"
| "isr_safe (Suspend t) = True"
| "isr_safe (Resume t) = True"
| "isr_safe (Abort t) = True"
| "isr_safe (TimerInit n nm ty tmo cb a) = True"
| "isr_safe (TimerStart n) = True"
| "isr_safe (TimerStop n) = True"
| "isr_safe (Create t n ent pri par stk stksz opts tslice) = True"
| "isr_safe _ = False"

section \<open>The invariant of the kernel\<close>

text \<open>Every queue and every pool that has been initialised is well formed.\<close>

definition buffers_ok :: "kstate \<Rightarrow> bool" where
  "buffers_ok s \<longleftrightarrow>
     (\<forall>j. max_msgs (queues s j) \<noteq> 0 \<longrightarrow> queue_ok (queues s j)) \<and>
     (\<forall>j. block_count (pools s j) \<noteq> 0 \<longrightarrow> pool_ok (pools s j) (free_blocks (pools s j)))"

definition ipc_ok :: "kstate \<Rightarrow> bool" where
  "ipc_ok s \<longleftrightarrow> sem_ok s \<and> mutex_ok s \<and> event_ok s \<and> buffers_ok s"

definition sys_ok :: "tid \<Rightarrow> kstate \<Rightarrow> bool" where
  "sys_ok i s \<longleftrightarrow> kernel_ok i s \<and> ipc_ok s"

lemma sys_okD:
  assumes "sys_ok i s"
  shows "kernel_ok i s" "sem_ok s" "mutex_ok s" "event_ok s" "buffers_ok s" "ipc_ok s"
  using assms by (simp_all add: sys_ok_def ipc_ok_def)

lemma sys_okI: "kernel_ok i s \<Longrightarrow> sem_ok s \<Longrightarrow> mutex_ok s \<Longrightarrow> event_ok s \<Longrightarrow> buffers_ok s \<Longrightarrow> sys_ok i s"
  by (simp add: sys_ok_def ipc_ok_def)

lemma buffers_ok_cong: "buffers_ok s \<Longrightarrow> queues s' = queues s \<Longrightarrow> pools s' = pools s \<Longrightarrow> buffers_ok s'"
  by (simp add: buffers_ok_def)

lemma buffers_ok_wait: "buffers_ok s \<Longrightarrow> wait_frame k L s s' \<Longrightarrow> buffers_ok s'"
  by (erule buffers_ok_cong) (simp_all add: wait_frameD)

lemma buffers_ok_upd [simp]:
  "buffers_ok (upd_sem f m s) = buffers_ok s" "buffers_ok (upd_mutex g m s) = buffers_ok s"
  "buffers_ok (upd_event h m s) = buffers_ok s" "buffers_ok (upd_thread e t s) = buffers_ok s"
  "buffers_ok (s\<lparr>taken_list := l\<rparr>) = buffers_ok s"
  by (simp_all add: buffers_ok_def upd_sem_def upd_mutex_def upd_event_def upd_thread_def)

lemma ipc_ok_sync: "ipc_ok s \<Longrightarrow> sync_frame s s' \<Longrightarrow> ipc_ok s'"
  using sem_ok_sync mutex_ok_sync event_ok_sync buffers_ok_cong [OF _ sync_frameD(4,5)] unfolding ipc_ok_def by blast

text \<open>An operation that leaves the other objects' data, their waiters and what these wait for alone.\<close>

lemma event_ok_frame:
  assumes "event_ok s" and "events s' = events s"
    and "\<And>e. set (qlists s' (EventWait e)) \<subseteq> set (qlists s (EventWait e))"
    and "\<And>t. event_set (threads s' t) = event_set (threads s t) \<and> event_opt (threads s' t) = event_opt (threads s t)"
  shows "event_ok s'"
  using assms unfolding event_ok_def by (metis subsetD)

lemma sem_ok_frame:
  assumes "sem_ok s" and "sems s' = sems s" and "\<And>m. set (qlists s' (SemWait m)) \<subseteq> set (qlists s (SemWait m))"
  shows "sem_ok s'"
  using assms unfolding sem_ok_def by (metis set_empty subset_empty)

lemma event_ok_wait:
  assumes "event_ok s" and "wait_frame k L s s'" and "\<And>e. k \<noteq> EventWait e"
  shows "event_ok s'"
proof (rule event_ok_frame [OF assms(1)])
  note W = wait_frameD [OF assms(2)]
  show "events s' = events s" by (rule W(3))
  show "set (qlists s' (EventWait e)) \<subseteq> set (qlists s (EventWait e))" for e
    using W(11) [of "EventWait e"] assms(3) [of e] by simp
  show "event_set (threads s' t) = event_set (threads s t) \<and> event_opt (threads s' t) = event_opt (threads s t)" for t
    using W(12,13) by blast
qed

lemma ipc_ok_wait_other:
  assumes "ipc_ok s" and "wait_frame k L s s'" and "\<And>m. k \<noteq> SemWait m" and "\<And>m. k \<noteq> MutexWait m"
    and "\<And>e. k \<noteq> EventWait e"
  shows "ipc_ok s'"
  unfolding ipc_ok_def
  using assms sem_ok_wait [OF _ assms(2)] mutex_ok_wait [OF _ assms(2)] event_ok_wait [OF _ assms(2)] buffers_ok_wait [OF _ assms(2)]
  by (simp add: ipc_ok_def)

section \<open>Every call keeps it\<close>

lemma sem_take_sys:
  assumes ok: "sys_ok i s" and C: "calling i c s" and ci: "c \<noteq> i"
  shows "wp (nd_sem_take m tmo s) (\<lambda>(r, s'). sys_ok i s')"
proof -
  have ipc: "sem_ok s" "mutex_ok s" "event_ok s" "buffers_ok s" using ok by (simp_all add: sys_ok_def ipc_ok_def)
  show ?thesis
  proof (rule wp_pair_mono [OF wp_pair_conj [OF sem_ok_take [OF ipc(1) C ci] nd_sem_take_ok [OF C ci]]], elim conjE)
    fix r s' assume sem: "sem_ok s'" and post: "if sem_val (sems s m) > 0
           then r = Some ND_EOK \<and> s' = upd_sem (\<lambda>x. x\<lparr>sem_val := sem_val x - 1\<rparr>) m s
           else if tmo = ND_TIMEOUT_NOWAIT then r = Some ND_EBUSY \<and> s' = s
           else r = None \<and> kernel_ok i s' \<and> scheduled s' \<and> waits (SemWait m) tmo c s s' \<and>
             wait_frame (SemWait m) (insort_after (prio_of s) c (qlists s (SemWait m))) s s'"
    consider (upd) "s' = upd_sem (\<lambda>x. x\<lparr>sem_val := sem_val x - 1\<rparr>) m s" | (same) "s' = s"
      | (wait) "kernel_ok i s'" "wait_frame (SemWait m) (insort_after (prio_of s) c (qlists s (SemWait m))) s s'"
      using post by (auto split: if_splits)
    then show "sys_ok i s'"
    proof cases
      case upd
      then have "buffers_ok s'" using ipc(4) by simp
      moreover from upd have "mutex_ok s'" "event_ok s'" "kernel_ok i s'"
        using ok mutex_ok_frame [OF ipc(2), of s'] event_ok_frame [OF ipc(3), of s']
        by (simp_all add: upd_sem_def sys_ok_def)
      ultimately show ?thesis using sem by (simp add: sys_ok_def ipc_ok_def)
    next
      case same
      with ok show ?thesis by simp
    next
      case wait
      then show ?thesis
        using sem mutex_ok_wait [OF ipc(2) wait(2)] event_ok_wait [OF ipc(3) wait(2)] buffers_ok_wait [OF ipc(4) wait(2)]
        by (simp add: sys_ok_def ipc_ok_def)
    qed
  qed
qed

lemma sem_release_sys:
  assumes ok: "sys_ok i s" and room: "qlists s (SemWait m) = [] \<Longrightarrow> sem_val (sems s m) < INT32_MAX"
  shows "wp (nd_sem_release m s) (\<lambda>(r, s'). sys_ok i s')"
proof -
  have ipc: "sem_ok s" "mutex_ok s" "event_ok s" "kernel_ok i s" "buffers_ok s" using ok by (simp_all add: sys_ok_def ipc_ok_def)
  show ?thesis
  proof (rule wp_pair_mono [OF wp_pair_conj [OF sem_ok_release [OF ipc(1,4) room] nd_sem_release_ok [OF ipc(4) room]]],
      assumption, assumption, elim conjE)
    fix r s' assume sem: "sem_ok s'" and k: "kernel_ok i s'" and post: "case qlists s (SemWait m) of
              [] \<Rightarrow> s' = upd_sem (\<lambda>x. x\<lparr>sem_val := sem_val x + 1\<rparr>) m s
            | t # L \<Rightarrow> wait_frame (SemWait m) L s s' \<and> runnable (status s' t) \<and>
                error (threads s' t) = ND_EOK \<and> ThreadTimer t \<notin> set (rbtree s')"
    show "sys_ok i s'"
    proof (cases "qlists s (SemWait m)")
      case Nil
      with post have "buffers_ok s'" using ipc(5) by simp
      moreover from Nil post have "mutex_ok s'" "event_ok s'"
        using mutex_ok_frame [OF ipc(2), of s'] event_ok_frame [OF ipc(3), of s']
        by (simp_all add: upd_sem_def)
      ultimately show ?thesis using sem k by (simp add: sys_ok_def ipc_ok_def)
    next
      case (Cons t L)
      with post have w: "wait_frame (SemWait m) L s s'" by simp
      then show ?thesis
        using sem k mutex_ok_wait [OF ipc(2) w] event_ok_wait [OF ipc(3) w] buffers_ok_wait [OF ipc(5) w]
        by (simp add: sys_ok_def ipc_ok_def)
    qed
  qed
qed

lemma mutex_lock_sys:
  assumes ok: "sys_ok i s" and C: "calling i c s" and ci: "c \<noteq> i"
  shows "wp (nd_mutex_lock m tmo s) (\<lambda>(r, s'). sys_ok i s')"
proof -
  have ipc: "sem_ok s" "mutex_ok s" "event_ok s" "buffers_ok s" using ok by (simp_all add: sys_ok_def ipc_ok_def)
  have boosted: "sem_ok s1 \<and> event_ok s1 \<and> buffers_ok s1" if b: "boosted m t (prio_of s c) s s1" for t s1
  proof (cases "prio_of s t > prio_of s c")
    case True
    with b have r: "reprio t (prio_of s c) (upd_mutex (mutex_priority_update (\<lambda>_. prio_of s c)) m s) s1"
      by (simp add: boosted_def)
    note R = reprioD [OF r] and Q = restD [OF reprioD(1) [OF r]]
    show ?thesis
      by (intro conjI sem_ok_frame [OF ipc(1)] event_ok_frame [OF ipc(3)] buffers_ok_cong [OF ipc(4)])
        (simp_all add: R Q upd_mutex_def)
  next
    case False
    with b ipc show ?thesis by (simp add: boosted_def)
  qed
  show ?thesis
  proof (rule wp_pair_mono [OF wp_pair_conj [OF mutex_ok_lock [OF C ci ipc(2)] nd_mutex_lock_ok [OF C ci ipc(2)]]], elim conjE)
    fix r s' assume mx: "mutex_ok s'" and post: "case owner (mutexes s m) of
             None \<Rightarrow> r = Some ND_EOK \<and>
               s' = upd_mutex (\<lambda>x. x\<lparr>owner := Some c, owner_home := Some c\<rparr>) m
                      (s\<lparr>taken_list := (taken_list s)(c := m # taken_list s c)\<rparr>)
           | Some t \<Rightarrow>
               if t = c then r = Some ND_EDEADLK \<and> s' = s
               else \<exists>s1. calling i c s1 \<and> boosted m t (prio_of s c) s s1 \<and> (scheduled s \<longrightarrow> scheduled s1) \<and>
                 (if tmo = ND_TIMEOUT_NOWAIT then r = Some ND_EBUSY \<and> s' = s1
                  else r = None \<and> kernel_ok i s' \<and> scheduled s' \<and> waits (MutexWait m) tmo c s1 s' \<and>
                    wait_frame (MutexWait m) (insort_after (prio_of s1) c (qlists s1 (MutexWait m))) s1 s')"
    consider (take) "s' = upd_mutex (\<lambda>x. x\<lparr>owner := Some c, owner_home := Some c\<rparr>) m
                      (s\<lparr>taken_list := (taken_list s)(c := m # taken_list s c)\<rparr>)"
      | (same) "s' = s"
      | (busy) t where "calling i c s'" "boosted m t (prio_of s c) s s'"
      | (wait) t s1 where "boosted m t (prio_of s c) s s1" "kernel_ok i s'"
          "wait_frame (MutexWait m) (insort_after (prio_of s1) c (qlists s1 (MutexWait m))) s1 s'"
      using post by (auto split: option.splits if_splits)
    then show "sys_ok i s'"
    proof cases
      case take
      then have "sem_ok s'" "event_ok s'" "kernel_ok i s'" "buffers_ok s'"
        using ok ipc(4) sem_ok_frame [OF ipc(1), of s'] event_ok_frame [OF ipc(3), of s']
        by (simp_all add: sys_ok_def)
      with mx show ?thesis by (simp add: sys_ok_def ipc_ok_def)
    next
      case same
      with ok show ?thesis by simp
    next
      case (busy t)
      with mx boosted [of t s'] callingD(1) [OF busy(1)] show ?thesis by (simp add: sys_ok_def ipc_ok_def)
    next
      case (wait t s1)
      then show ?thesis
        using mx boosted [OF wait(1)] sem_ok_wait [OF _ wait(3)] event_ok_wait [OF _ wait(3)] buffers_ok_wait [OF _ wait(3)]
        by (simp add: sys_ok_def ipc_ok_def)
    qed
  qed
qed

lemma mutex_unlock_sys:
  assumes ok: "sys_ok i s" and C: "calling i c s"
  shows "wp (nd_mutex_unlock m s) (\<lambda>(r, s'). sys_ok i s')"
proof -
  have ipc: "sem_ok s" "mutex_ok s" "event_ok s" "buffers_ok s" using ok by (simp_all add: sys_ok_def ipc_ok_def)
  have rel: "sem_ok s1 \<and> event_ok s1 \<and> buffers_ok s1"
    if "queues s1 = queues s" "pools s1 = pools s" "qlists s1 = qlists s" "sems s1 = sems s" "events s1 = events s"
      "\<And>t. event_set (threads s1 t) = event_set (threads s t) \<and> event_opt (threads s1 t) = event_opt (threads s t)" for s1
    by (intro conjI sem_ok_frame [OF ipc(1)] event_ok_frame [OF ipc(3)] buffers_ok_cong [OF ipc(4)]) (simp_all add: that)
  have r1: "queues (released c m s) = queues s" "pools (released c m s) = pools s" "qlists (released c m s) = qlists s" "sems (released c m s) = sems s" "events (released c m s) = events s"
    by (simp_all add: released_eq)
  have r2: "event_set (threads (released c m s) t) = event_set (threads s t) \<and>
      event_opt (threads (released c m s) t) = event_opt (threads s t)" for t
    by (simp add: released_eq)
  show ?thesis
  proof (rule wp_pair_mono [OF wp_pair_conj [OF mutex_ok_unlock [OF C ipc(2)] nd_mutex_unlock_ok [OF C ipc(2)]]], elim conjE)
    fix e s' assume mx: "mutex_ok s'" and post: "if owner (mutexes s m) \<noteq> Some c then e = ND_EPERM \<and> s' = s
           else case qlists s (MutexWait m) of
             [] \<Rightarrow> e = ND_EOK \<and> kernel_ok i s' \<and>
               s' = upd_mutex (\<lambda>x. x\<lparr>owner := None, mutex_priority := ND_THREAD_PRIORITY_MAX\<rparr>) m (released c m s)
           | w # L \<Rightarrow> e = ND_EOK \<and> kernel_ok i s' \<and> scheduled s' \<and> runnable (status s' w) \<and>
               error (threads s' w) = ND_EOK \<and> ThreadTimer w \<notin> set (rbtree s') \<and>
               wait_frame (MutexWait m) L (given m w (released c m s)) s'"
    consider (same) "s' = s"
      | (free) "kernel_ok i s'" "s' = upd_mutex (\<lambda>x. x\<lparr>owner := None, mutex_priority := ND_THREAD_PRIORITY_MAX\<rparr>) m (released c m s)"
      | (give) w L where "kernel_ok i s'" "wait_frame (MutexWait m) L (given m w (released c m s)) s'"
      using post by (auto split: list.splits if_splits)
    then show "sys_ok i s'"
    proof cases
      case same
      with ok show ?thesis by simp
    next
      case free
      have "sem_ok s' \<and> event_ok s' \<and> buffers_ok s'" unfolding free(2)
        by (rule rel) (simp_all add: r1 r2)
      with mx free(1) show ?thesis by (simp add: sys_ok_def ipc_ok_def)
    next
      case (give w L)
      have "sem_ok (given m w (released c m s)) \<and> event_ok (given m w (released c m s)) \<and> buffers_ok (given m w (released c m s))"
        by (rule rel) (simp_all add: given_def r1 r2)
      then show ?thesis
        using mx give sem_ok_wait [OF _ give(2)] event_ok_wait [OF _ give(2)] buffers_ok_wait [OF _ give(2)]
        by (simp add: sys_ok_def ipc_ok_def)
    qed
  qed
qed

lemma event_send_sys:
  assumes ok: "sys_ok i s"
  shows "wp (nd_event_send e w s) (\<lambda>(r, s'). sys_ok i s')"
proof -
  have ipc: "sem_ok s" "mutex_ok s" "event_ok s" "kernel_ok i s" "buffers_ok s" using ok by (simp_all add: sys_ok_def ipc_ok_def)
  obtain f ss where sv: "serve (flags s e OR ucast w) (wants s) (mode s) (qlists s (EventWait e)) = (f, ss)"
    by fastforce
  show ?thesis
  proof (rule wp_pair_mono [OF wp_pair_conj [OF event_ok_send [OF ipc(4,3)] nd_event_send_ok [OF ipc(4) sv]]], elim conjE)
    fix r s' assume ev: "event_ok s'" and k: "kernel_ok i s'" and sent: "sent e f ss s s'"
    have "sem_ok s'" "mutex_ok s'" "buffers_ok s'"
      by (rule sem_ok_frame [OF ipc(1)] mutex_ok_frame [OF ipc(2)] buffers_ok_cong [OF ipc(5)]; use sent in \<open>simp add: sent_def\<close>)+
    with ev k show "sys_ok i s'" by (simp add: sys_ok_def ipc_ok_def)
  qed
qed

lemma event_recv_sys:
  assumes ok: "sys_ok i s" and C: "calling i c s" and ci: "c \<noteq> i"
  shows "wp (nd_event_recv e w opt tmo s) (\<lambda>(r, s'). sys_ok i s')"
proof -
  have ipc: "sem_ok s" "mutex_ok s" "event_ok s" "buffers_ok s" using ok by (simp_all add: sys_ok_def ipc_ok_def)
  let ?a = "asking c w opt s"
  have a: "sem_ok ?a \<and> mutex_ok ?a \<and> buffers_ok ?a"
    by (intro conjI sem_ok_frame [OF ipc(1)] mutex_ok_frame [OF ipc(2)]) (simp_all add: asking_def ipc(4))
  show ?thesis
  proof (rule wp_pair_mono [OF wp_pair_conj [OF event_ok_recv [OF C ci ipc(3)] nd_event_recv_ok [OF C ci]]], elim conjE)
    fix r s' assume ev: "event_ok s'" and post: "if nd_event_is_satisfied (ucast (event_flags (events s e))) w opt
           then r = Some ND_EOK \<and> s' = event_clear w e ?a
           else if tmo = ND_TIMEOUT_NOWAIT then r = Some ND_EBUSY \<and> s' = ?a
           else r = None \<and> kernel_ok i s' \<and> scheduled s' \<and> waits (EventWait e) tmo c ?a s' \<and>
             wait_frame (EventWait e) (insort_after (prio_of s) c (qlists s (EventWait e))) ?a s'"
    have ka: "kernel_ok i ?a" using asking_ok [OF C, of w opt] callingD(1) by blast
    consider (got) "s' = event_clear w e ?a" | (busy) "s' = ?a"
      | (wait) "kernel_ok i s'" "wait_frame (EventWait e) (insort_after (prio_of s) c (qlists s (EventWait e))) ?a s'"
      using post by (auto split: if_splits)
    then show "sys_ok i s'"
    proof cases
      case got
      have "buffers_ok s'" using a by (simp add: got event_clear_def)
      moreover have "sem_ok s'" "mutex_ok s'"
        using a sem_ok_frame [of ?a s'] mutex_ok_frame [of ?a s'] by (simp_all add: got event_clear_def upd_event_def)
      ultimately show ?thesis using ev ka by (simp add: sys_ok_def ipc_ok_def got event_clear_def upd_event_def)
    next
      case busy
      with a ev ka show ?thesis by (simp add: sys_ok_def ipc_ok_def)
    next
      case wait
      then show ?thesis
        using a ev sem_ok_wait [OF _ wait(2)] mutex_ok_wait [OF _ wait(2)] buffers_ok_wait [OF _ wait(2)]
        by (simp add: sys_ok_def ipc_ok_def)
    qed
  qed
qed

lemma sys_ok_sync: "sys_ok i s \<Longrightarrow> kernel_ok i s' \<Longrightarrow> sync_frame s s' \<Longrightarrow> sys_ok i s'"
  using ipc_ok_sync unfolding sys_ok_def by blast

lemma join_sys:
  assumes ok: "sys_ok i s" and C: "calling i c s" and ci: "c \<noteq> i"
  shows "wp (nd_thread_join (Some t) tmo s) (\<lambda>(r, s'). sys_ok i s')"
proof (rule wp_pair_mono [OF nd_thread_join_ok [OF C ci, of t tmo]])
  fix r s' assume post: "if t = c then r = Some ND_EDEADLK \<and> s' = s
           else if status s t = ND_THREAD_STAT_DEAD then r = Some ND_EOK \<and> s' = s
           else if tmo = ND_TIMEOUT_NOWAIT then r = Some ND_EBUSY \<and> s' = s
           else r = None \<and> kernel_ok i s' \<and> scheduled s' \<and> waits (JoinList t) tmo c s s' \<and>
             wait_frame (JoinList t) (insort_after (prio_of s) c (qlists s (JoinList t))) s s'"
  then consider "s' = s" | "kernel_ok i s'" "wait_frame (JoinList t) (insort_after (prio_of s) c (qlists s (JoinList t))) s s'"
    by (auto split: if_splits)
  then show "sys_ok i s'"
  proof cases
    case 2
    with ok ipc_ok_wait_other [OF _ 2(2)] show ?thesis by (simp add: sys_ok_def)
  qed (use ok in simp)
qed

lemma suspend_sys:
  assumes ok: "sys_ok i s" and t: "t \<noteq> i" and nx: "pendsv s \<Longrightarrow> nd_next_thread s \<noteq> Some t"
  shows "wp (nd_thread_suspend t s) (\<lambda>(r, s'). sys_ok i s')"
proof (cases "taken_list s t = []")
  case False
  with ok show ?thesis by (simp add: nd_thread_suspend_def)
next
  case free: True
  have k: "kernel_ok i s" using ok by (simp add: sys_ok_def)
  show ?thesis
  proof (cases "status s t")
    case ND_THREAD_STAT_READY
    from nd_thread_suspend_ready [OF k t free nx this] show ?thesis
      by (rule wp_pair_mono) (use sys_ok_sync [OF ok] in simp_all)
  next
    case ND_THREAD_STAT_RUNNING
    from nd_thread_suspend_running [OF k t free this] show ?thesis
      by (rule wp_pair_mono) (use sys_ok_sync [OF ok] in simp)
  next
    case ND_THREAD_STAT_BLOCK
    from nd_thread_suspend_block [OF k free this] show ?thesis
      by (rule wp_pair_mono) (use sys_ok_sync [OF ok] in simp)
  qed (use ok free in \<open>simp_all add: nd_thread_suspend_def\<close>)
qed

lemma abort_sys:
  assumes ok: "sys_ok i s" and t: "t \<noteq> i" and st: "status s t \<noteq> ND_THREAD_STAT_INIT"
    and nx: "pendsv s \<Longrightarrow> nd_next_thread s \<noteq> Some t"
  shows "wp (nd_thread_abort (Some t) s) (\<lambda>(r, s'). sys_ok i s')"
proof (cases "status s t = ND_THREAD_STAT_DEAD \<or> nd_is_thread_essential t s")
  case True
  with ok show ?thesis by (auto simp: nd_thread_abort_def nd_is_thread_dead_def)
next
  case False
  have k: "kernel_ok i s" using ok by (simp add: sys_ok_def)
  from False st have al: "alive (status s t)" by (simp add: alive_def)
  have "wp (nd_thread_halt t s) (sys_ok i)"
    by (rule wp_mono [OF nd_thread_halt_ok [OF k t al nx]], assumption, elim conjE, intro sys_ok_sync [OF ok])
  with False show ?thesis by (auto simp: nd_thread_abort_def nd_is_thread_dead_def)
qed

lemma timer_stop_sys:
  assumes ok: "sys_ok i s"
  shows "wp (nd_timer_stop (Some (UserTimer n)) s) (\<lambda>(r, s'). sys_ok i s')"
proof -
  have k: "kernel_ok i s" using ok by (simp add: sys_ok_def)
  show ?thesis
    by (rule wp_pair_mono [OF nd_timer_stop_user [OF k]]) (use sys_ok_sync [OF ok] in simp)
qed

lemma timer_start_sys:
  assumes ok: "sys_ok i s"
  shows "wp (nd_timer_start (Some (UserTimer n)) s) (\<lambda>(r, s'). sys_ok i s')"
proof -
  have k: "kernel_ok i s" using ok by (simp add: sys_ok_def)
  show ?thesis
    by (rule wp_pair_mono [OF nd_timer_start_user [OF k]])
      (use ok sys_ok_sync [OF ok] in \<open>simp split: if_splits\<close>)
qed

lemma create_sys:
  assumes ok: "sys_ok i s" and un: "unused s t"
  shows "wp (nd_thread_create (Some t) (Some n) ent pri par stk stksz opts tslice s) (\<lambda>(r, s'). sys_ok i s')"
proof -
  have k: "kernel_ok i s" using ok by (simp add: sys_ok_def)
  show ?thesis
    by (rule wp_pair_mono [OF nd_thread_create_ok
          [OF kernel_okD(1) [OF k] kernel_okD(2) [OF k] disjI2 [OF kernel_okD(3) [OF k]] un]])
      (use ok sys_ok_sync [OF ok] in \<open>auto split: if_splits\<close>)
qed

text \<open>Initialising an object that is not in use.\<close>

lemma q_init_idle: "qlists s k = [] \<Longrightarrow> q_init k s = Some s"
  by (simp add: q_init_def fun_upd_idem)

lemma sem_init_sys:
  assumes ok: "sys_ok i s" and idle: "qlists s (SemWait m) = []"
  shows "wp (nd_sem_init m v s) (sys_ok i)"
proof -
  note S = sys_okD [OF ok]
  let ?s = "upd_sem (sem_val_update (\<lambda>_. v)) m s"
  have "nd_sem_init m v s = Some ?s" using idle by (simp add: nd_sem_init_def q_init_idle upd_sem_def)
  moreover have "sem_ok ?s" using S(2) idle by (simp add: sem_ok_def upd_sem_def)
  moreover have "mutex_ok ?s" "event_ok ?s" "kernel_ok i ?s"
    using S(1) mutex_ok_frame [OF S(3), of ?s] event_ok_frame [OF S(4), of ?s] by (simp_all add: upd_sem_def)
  ultimately show ?thesis using S(5) by (simp add: sys_okI)
qed

lemma mutex_init_sys:
  assumes ok: "sys_ok i s" and idle: "owner (mutexes s m) = None"
  shows "wp (nd_mutex_init m s) (sys_ok i)"
proof -
  note S = sys_okD [OF ok]
  let ?s = "upd_mutex (\<lambda>x. x\<lparr>owner := None, mutex_priority := ND_THREAD_PRIORITY_MAX\<rparr>) m s"
  have "nd_mutex_init m s = Some ?s"
    using mutex_okD(1,4) [OF S(3), of m] idle by (simp add: nd_mutex_init_def q_init_idle)
  moreover have "mutex_ok ?s"
    using S(3) mutex_okD(1) [OF S(3), of m] idle by (auto simp: mutex_ok_def)
  moreover have "sem_ok ?s" "event_ok ?s"
    using sem_ok_frame [OF S(2), of ?s] event_ok_frame [OF S(4), of ?s] by simp_all
  ultimately show ?thesis using S(1,5) by (simp add: sys_okI)
qed

lemma event_init_sys:
  assumes ok: "sys_ok i s" and idle: "qlists s (EventWait e) = []"
  shows "wp (nd_event_init e s) (sys_ok i)"
proof -
  note S = sys_okD [OF ok]
  let ?s = "upd_event (event_flags_update (\<lambda>_. 0)) e s"
  have "nd_event_init e s = Some ?s" using idle by (simp add: nd_event_init_def q_init_idle upd_event_def)
  moreover have "event_ok ?s" using S(4) idle by (auto simp: event_ok_def upd_event_def)
  moreover have "mutex_ok ?s" "sem_ok ?s" "kernel_ok i ?s"
    using S(1) mutex_ok_frame [OF S(3), of ?s] sem_ok_frame [OF S(2), of ?s] by (simp_all add: upd_event_def)
  ultimately show ?thesis using S(5) by (simp add: sys_okI)
qed

lemma timer_init_sys:
  assumes ok: "sys_ok i s" and idle: "UserTimer n \<notin> set (rbtree s)"
  shows "wp (nd_timer_init (Some (UserTimer n)) nm ty tmo (map_option CB_user cb) a s) (\<lambda>(r, s'). sys_ok i s')"
proof (cases "cb = None \<or> tmo = 0")
  case True
  with ok show ?thesis by (auto simp: nd_timer_init_def)
next
  case False
  then obtain k where k: "cb = Some k" by auto
  note S = sys_okD [OF ok] and K = kernel_okD [OF sys_okD(1) [OF ok]]
  define f :: "nd_timer \<Rightarrow> nd_timer" where "f = (\<lambda>t. t\<lparr>timer_name := (case nm of None \<Rightarrow> [] | Some n \<Rightarrow> take (ND_NAME_MAX_SIZE - 1) n),
      timer_type := ty, timeout := tmo, callback := Some (CB_user k), arg := a, node_empty := True\<rparr>)"
  let ?s = "upd_timer f (UserTimer n) s"
  have e: "nd_timer_init (Some (UserTimer n)) nm ty tmo (map_option CB_user cb) a s = Some (ND_EOK, ?s)"
    using False idle k by (simp add: nd_timer_init_def f_def)
  have "node_empty (timers s (UserTimer n))"
    using base_ok_timers_ok [OF K(4)] idle by (simp add: timers_ok_def)
  then have b: "base_ok ?s" by (intro base_ok_upd_timer [OF K(4) idle]) (auto simp: f_def)
  have "only {} s ?s" by (simp add: only_def same_view_def)
  then have "kinv {} ?s" using kinv_only [OF K(1) _ b] by blast
  then have "kernel_ok i ?s" using S(1) by (simp add: kernel_ok_def cur_ok_def cur_link_def upd_timer_def cong: if_cong)
  moreover have "sync_frame s ?s" by (simp add: sync_frame_def upd_timer_def)
  ultimately show ?thesis using sys_ok_sync [OF ok] e by simp
qed

text \<open>Queues and pools. A call changes one of them and then at most wakes a thread, or its caller waits.\<close>

lemma sys_ok_upd_queue:
  "sys_ok i s \<Longrightarrow> (max_msgs q \<noteq> 0 \<Longrightarrow> queue_ok q) \<Longrightarrow> sys_ok i (upd_queue (\<lambda>_. q) j s)"
  by (simp add: sys_ok_def ipc_ok_def sem_ok_def mutex_ok_def event_ok_def buffers_ok_def upd_queue_def)

lemma sys_ok_upd_pool:
  "sys_ok i s \<Longrightarrow> (block_count p \<noteq> 0 \<Longrightarrow> pool_ok p (free_blocks p)) \<Longrightarrow> sys_ok i (upd_pool (\<lambda>_. p) j s)"
  by (simp add: sys_ok_def ipc_ok_def sem_ok_def mutex_ok_def event_ok_def buffers_ok_def upd_pool_def)

lemma sys_ok_waits:
  assumes ok: "sys_ok i s" and k: "kernel_ok i s'" and w: "wait_frame h L s s'"
    and h: "h = SendWait j \<or> h = ReadWait j \<or> h = PoolWait j"
  shows "sys_ok i s'"
  using ipc_ok_wait_other [OF sys_okD(6) [OF ok] w] k h by (auto simp: sys_ok_def)

text \<open>Where a call has to wait, its caller is the running thread of a port that switches at once.\<close>

definition may_wait :: "tid \<Rightarrow> tid \<Rightarrow> u64 \<Rightarrow> kstate \<Rightarrow> bool" where
  "may_wait i c tmo s \<longleftrightarrow> tmo = ND_TIMEOUT_NOWAIT \<or> calling i c s \<and> c \<noteq> i \<and> port s = SwitchImmediate"

lemma queue_send_sys:
  assumes ok: "sys_ok i s" and init: "max_msgs (queues s j) \<noteq> 0" and len: "length msg = unat (msg_size (queues s j))"
    and w: "used_msg (queues s j) = max_msgs (queues s j) \<Longrightarrow> may_wait i c tmo s"
  shows "wp (nd_queue_send j msg tmo s) (\<lambda>(r, s'). sys_ok i s')"
proof -
  note S = sys_okD [OF ok]
  have q: "queue_ok (queues s j)" using S(5) init by (simp add: buffers_ok_def)
  show ?thesis
  proof (cases "used_msg (queues s j) = max_msgs (queues s j)")
    case False
    show ?thesis
    proof (subst send_step, simp add: False, rule wp_mono [OF queue_put_ok [OF S(1) q False len]], elim conjE)
      fix s' assume s': "kernel_ok i s'" "queue_ok (queues s' j)" "sync_frame (upd_queue (\<lambda>_. queues s' j) j s) s'"
      show "sys_ok i s'" by (rule sys_ok_sync [OF sys_ok_upd_queue [OF ok] s'(1,3)]) (rule s'(2))
    qed
  next
    case full: True
    show ?thesis
    proof (cases "tmo = ND_TIMEOUT_NOWAIT")
      case True
      with ok show ?thesis by (subst send_step) (simp add: full)
    next
      case False
      with w full have c: "calling i c s" "c \<noteq> i" "port s = SwitchImmediate" by (auto simp: may_wait_def)
      show ?thesis
        by (rule wp_pair_mono [OF nd_queue_send_ok [OF c(1,2) q len c(3)]])
          (use full False sys_ok_waits [OF ok] in auto)
    qed
  qed
qed

lemma queue_recv_sys:
  assumes ok: "sys_ok i s" and init: "max_msgs (queues s j) \<noteq> 0"
    and w: "used_msg (queues s j) = 0 \<Longrightarrow> may_wait i c tmo s"
  shows "wp (nd_queue_recv j tmo s) (\<lambda>(r, s'). sys_ok i s')"
proof -
  note S = sys_okD [OF ok]
  have q: "queue_ok (queues s j)" using S(5) init by (simp add: buffers_ok_def)
  show ?thesis
  proof (cases "used_msg (queues s j) = 0")
    case False
    have "wp (queue_get j s) (\<lambda>(msg, s'). sys_ok i s')"
    proof (rule wp_pair_mono [OF queue_get_ok [OF S(1) q False]], elim conjE)
      fix s' assume s': "kernel_ok i s'" "queue_ok (queues s' j)" "sync_frame (upd_queue (\<lambda>_. queues s' j) j s) s'"
      show "sys_ok i s'" by (rule sys_ok_sync [OF sys_ok_upd_queue [OF ok] s'(1,3)]) (rule s'(2))
    qed
    then show ?thesis by (subst recv_step) (auto simp: False wp_iff)
  next
    case empty: True
    show ?thesis
    proof (cases "tmo = ND_TIMEOUT_NOWAIT")
      case True
      with ok show ?thesis by (subst recv_step) (simp add: empty)
    next
      case False
      with w empty have c: "calling i c s" "c \<noteq> i" "port s = SwitchImmediate" by (auto simp: may_wait_def)
      show ?thesis
        by (rule wp_pair_mono [OF nd_queue_recv_ok [OF c(1,2) q c(3)]])
          (use empty False sys_ok_waits [OF ok] in auto)
    qed
  qed
qed

lemma queue_init_sys:
  assumes ok: "sys_ok i s" and idle: "qlists s (ReadWait j) = []" "qlists s (SendWait j) = []"
    and size: "unat mx * unat msz < 2 ^ 32" "length b = unat mx * unat msz"
  shows "wp (nd_queue_init j b msz mx s) (\<lambda>(r, s'). sys_ok i s')"
proof (cases "\<exists>k<32. mx = 2 ^ k")
  case False
  then show ?thesis
    by (intro wp_pair_mono [OF nd_queue_init_ok [OF sys_okD(1) [OF ok] idle]]) (use ok in auto)
next
  case True
  let ?q = "(queues s j)\<lparr>buf := b, msg_size := msz, max_msgs := mx, used_msg := 0, write_ptr := 0, read_ptr := 0\<rparr>"
  have n: "\<not> (mx AND (mx - 1) \<noteq> 0 \<or> mx < 1)" using power_of_two_iff [of mx] True by (auto simp: not_le)
  have e: "nd_queue_init j b msz mx s = Some (ND_EOK, upd_queue (\<lambda>_. ?q) j s)"
    using n idle by (simp add: nd_queue_init_def q_init_idle upd_queue_def)
  have "queue_ok ?q" using wp_pairD [OF nd_queue_init_ok [OF sys_okD(1) [OF ok] idle, of b msz mx]] True size e by auto
  then show ?thesis using sys_ok_upd_queue [OF ok] e by simp
qed

lemma pool_init_sys:
  assumes ok: "sys_ok i s" and idle: "qlists s (PoolWait j) = []"
    and bs: "bs AND 3 = 0" "4 \<le> unat bs" "n \<noteq> 0" "unat st + unat n * unat bs < 2 ^ 32"
  shows "wp (nd_mempool_init j st bs n s) (sys_ok i)"
proof -
  let ?p = "(pools s j)\<lparr>start := st, block_size := bs, block_count := n, free_count := n,
    pool_mem := pool_links st bs n (pool_mem (pools s j)), free_list := st\<rparr>"
  have e: "nd_mempool_init j st bs n s = Some (upd_pool (\<lambda>_. ?p) j s)"
    using bs(1) idle by (simp add: nd_mempool_init_def q_init_idle upd_pool_def)
  have "pool_ok ?p (pool_blocks ?p)" using wpD [OF nd_mempool_init_ok [OF sys_okD(1) [OF ok] idle bs] e] by auto
  then show ?thesis using sys_ok_upd_pool [OF ok, of ?p j] free_blocks_eq e by simp
qed

lemma pool_alloc_sys:
  assumes ok: "sys_ok i s" and init: "block_count (pools s j) \<noteq> 0"
    and w: "free_count (pools s j) = 0 \<Longrightarrow> may_wait i c tmo s"
  shows "wp (nd_mempool_alloc j tmo s) (\<lambda>(r, s'). sys_ok i s')"
proof -
  note S = sys_okD [OF ok]
  have p: "pool_ok (pools s j) (free_blocks (pools s j))" using S(5) init by (simp add: buffers_ok_def)
  show ?thesis
  proof (cases "free_count (pools s j) = 0")
    case False
    define q where "q = snd (pool_pop (pools s j))"
    have "pool_ok q (free_blocks q)" using pool_pop_ok [OF p False] free_blocks_eq by (auto simp: q_def)
    then have "sys_ok i (upd_pool (\<lambda>_. q) j s)" by (intro sys_ok_upd_pool [OF ok])
    then show ?thesis by (subst alloc_step) (simp add: False case_prod_unfold q_def Let_def)
  next
    case empty: True
    show ?thesis
    proof (cases "tmo = ND_TIMEOUT_NOWAIT")
      case True
      with ok show ?thesis by (subst alloc_step) (simp add: empty)
    next
      case False
      with w empty have c: "calling i c s" "c \<noteq> i" "port s = SwitchImmediate" by (auto simp: may_wait_def)
      show ?thesis
        by (rule wp_pair_mono [OF nd_mempool_alloc_waits [OF c(1,2) empty False c(3)]])
          (use sys_ok_waits [OF ok] in auto)
    qed
  qed
qed

lemma takenD:
  assumes "sys_ok i s" and "taken (pools s j) a"
  shows "pool_ok (pools s j) (free_blocks (pools s j))" "a \<in> set (pool_blocks (pools s j))"
    "a \<notin> set (free_blocks (pools s j))"
  using sys_okD(5) [OF assms(1)] assms(2) by (simp_all add: taken_def buffers_ok_def)

lemma pool_free_sys:
  assumes ok: "sys_ok i s" and t: "taken (pools s j) a"
  shows "wp (nd_mempool_free dbg j a s) (sys_ok i)"
proof (rule wp_mono [OF nd_mempool_free_ok [OF sys_okD(1) [OF ok] takenD [OF ok t]]], elim conjE)
  fix s' assume s': "kernel_ok i s'" "sync_frame (upd_pool (pool_push a) j s) s'"
  have "pool_ok (pool_push a (pools s j)) (a # free_blocks (pools s j))" by (rule pool_push_ok [OF takenD [OF ok t]])
  from sys_ok_upd_pool [OF ok, of "pool_push a (pools s j)" j] this free_blocks_eq [OF this]
  have "sys_ok i (upd_pool (pool_push a) j s)" by (simp add: upd_pool_def)
  then show "sys_ok i s'" by (rule sys_ok_sync [OF _ s'])
qed

text \<open>The rest of a call after its caller was away: the wait has timed out, or the call starts over.\<close>

lemma resume_sys:
  assumes "sys_ok i s" and "calling i c s" and "wp (m s) (\<lambda>(r, s'). sys_ok i s')"
  shows "wp (Option.bind (nd_current_thread s) (\<lambda>c. if error (threads s c) = ND_ETIMEOUT then Some (x c, s) else m s))
    (\<lambda>(r, s'). sys_ok i s')"
  using assms callingD(2) [OF assms(2)] by simp

text \<open>Every legal call returns, without a fault, and keeps the invariant.\<close>

lemma sem_take_nowait_sys:
  assumes ok: "sys_ok i s"
  shows "wp (nd_sem_take m ND_TIMEOUT_NOWAIT s) (\<lambda>(r, s'). sys_ok i s')"
proof (cases "sem_val (sems s m) > 0")
  case False
  with ok show ?thesis by (simp add: nd_sem_take_def)
next
  case True
  note S = sys_okD [OF ok]
  let ?s = "upd_sem (\<lambda>x. x\<lparr>sem_val := sem_val x - 1\<rparr>) m s"
  have "sem_ok ?s" using S(2) True by (auto simp: sem_ok_def upd_sem_def)
  moreover have "mutex_ok ?s" "event_ok ?s" "kernel_ok i ?s"
    using S(1) mutex_ok_frame [OF S(3), of ?s] event_ok_frame [OF S(4), of ?s] by (simp_all add: upd_sem_def)
  ultimately show ?thesis using S(5) True by (simp add: nd_sem_take_def sys_okI)
qed

lemma kcall_sys:
  assumes ok: "sys_ok i s" and lg: "legal i k s" and c: "isr_safe k \<or> calling i c s \<and> c \<noteq> i"
  shows "wp (kcall_exec k s) (sys_ok i)"
proof -
  have pairs: "wp m (\<lambda>(r, s'). Q s') \<Longrightarrow> wp (map_option snd m) Q" for m :: "('a \<times> kstate) option" and Q
    by (simp add: case_prod_unfold)
  have kok: "kernel_ok i s" using ok by (simp add: sys_ok_def)
  have im: "port s \<noteq> SwitchDeferred \<Longrightarrow> port s = SwitchImmediate" by (cases "port s") simp_all
  have send: "wp (nd_queue_send j msg tmo s) (\<lambda>(r, s'). sys_ok i s')"
    if "send_legal j msg tmo s" "tmo = ND_TIMEOUT_NOWAIT \<or> calling i c s \<and> c \<noteq> i" for j msg tmo
    by (rule queue_send_sys [OF ok, where c = c]) (use that im in \<open>auto simp: send_legal_def queue_ready_def may_wait_def\<close>)
  have recv: "wp (nd_queue_recv j tmo s) (\<lambda>(r, s'). sys_ok i s')"
    if "recv_legal j tmo s" "tmo = ND_TIMEOUT_NOWAIT \<or> calling i c s \<and> c \<noteq> i" for j tmo
    by (rule queue_recv_sys [OF ok, where c = c]) (use that im in \<open>auto simp: recv_legal_def queue_ready_def may_wait_def\<close>)
  have alloc: "wp (nd_mempool_alloc j tmo s) (\<lambda>(r, s'). sys_ok i s')"
    if "alloc_legal j tmo s" "tmo = ND_TIMEOUT_NOWAIT \<or> calling i c s \<and> c \<noteq> i" for j tmo
    by (rule pool_alloc_sys [OF ok, where c = c]) (use that im in \<open>auto simp: alloc_legal_def may_wait_def\<close>)
  show ?thesis
  proof (cases k)
    case Yield
    with c have C: "calling i c s" by simp
    have "wp (nd_thread_yield s) (sys_ok i)"
      by (rule wp_mono [OF nd_thread_yield_ok [OF C]]) (use sys_ok_sync [OF ok] sync_frame_sched in blast)
    with Yield show ?thesis by simp
  next
    case (Delay d)
    with c have C: "calling i c s" "c \<noteq> i" by simp_all
    have "wp (nd_thread_delay d s) (sys_ok i)"
      by (rule wp_mono [OF nd_thread_delay_ok [OF C]]) (use sys_ok_sync [OF ok] in blast)
    with Delay show ?thesis by simp
  next
    case (SemInit m v)
    with lg sem_init_sys [OF ok, of m v] show ?thesis by simp
  next
    case (SemTake m tmo)
    then have "tmo = ND_TIMEOUT_NOWAIT \<or> calling i c s \<and> c \<noteq> i" using c by simp
    then have "wp (nd_sem_take m tmo s) (\<lambda>(r, s'). sys_ok i s')"
      using sem_take_sys [OF ok, of c m tmo] sem_take_nowait_sys [OF ok] by blast
    from pairs [OF this] SemTake show ?thesis by simp
  next
    case (SemRelease m)
    with lg pairs [OF sem_release_sys [OF ok, of m]] show ?thesis by simp
  next
    case (MutexInit m)
    with lg mutex_init_sys [OF ok, of m] show ?thesis by simp
  next
    case (MutexLock m tmo)
    with c pairs [OF mutex_lock_sys [OF ok, of c m tmo]] show ?thesis by simp
  next
    case (MutexUnlock m)
    with c pairs [OF mutex_unlock_sys [OF ok, of c m]] show ?thesis by simp
  next
    case (EventInit e)
    with lg event_init_sys [OF ok, of e] show ?thesis by simp
  next
    case (EventSend e w)
    with pairs [OF event_send_sys [OF ok, of e w]] show ?thesis by simp
  next
    case (EventRecv e w opt tmo)
    with c pairs [OF event_recv_sys [OF ok, of c e w opt tmo]] show ?thesis by simp
  next
    case (QueueInit j b msz mx)
    with lg pairs [OF queue_init_sys [OF ok, of j mx msz b]] show ?thesis by simp
  next
    case (QueueSend j msg tmo)
    with lg c pairs [OF send [of j msg tmo]] show ?thesis by simp
  next
    case (QueueSendResume j msg tmo)
    with lg c have L: "send_legal j msg tmo s" and C: "calling i c s" "c \<noteq> i" by simp_all
    with pairs [OF resume_sys [where m = "nd_queue_send j msg tmo", OF ok C(1) send [OF L]]] QueueSendResume show ?thesis by (simp add: queue_send_resume_def)
  next
    case (QueueRecv j tmo)
    with lg c pairs [OF recv [of j tmo]] show ?thesis by simp
  next
    case (QueueRecvResume j tmo)
    with lg c have L: "recv_legal j tmo s" and C: "calling i c s" "c \<noteq> i" by simp_all
    with pairs [OF resume_sys [where m = "nd_queue_recv j tmo", OF ok C(1) recv [OF L]]] QueueRecvResume show ?thesis by (simp add: queue_recv_resume_def)
  next
    case (PoolInit j st bs n)
    with lg pool_init_sys [OF ok, of j bs n st] show ?thesis by simp
  next
    case (PoolAlloc j tmo)
    with lg c pairs [OF alloc [of j tmo]] show ?thesis by simp
  next
    case (PoolAllocResume j tmo)
    with lg c have L: "alloc_legal j tmo s" and C: "calling i c s" "c \<noteq> i" by simp_all
    with pairs [OF resume_sys [where m = "nd_mempool_alloc j tmo", OF ok C(1) alloc [OF L]]] PoolAllocResume show ?thesis by (simp add: mempool_alloc_resume_def)
  next
    case (PoolFree dbg j a)
    with lg pool_free_sys [OF ok, of j a dbg] show ?thesis by simp
  next
    case (Join t tmo)
    with c pairs [OF join_sys [OF ok, of c t tmo]] show ?thesis by simp
  next
    case (Suspend t)
    with lg pairs [OF suspend_sys [OF ok, of t]] show ?thesis by simp
  next
    case (Resume t)
    have "wp (nd_thread_resume t s) (\<lambda>(r, s'). sys_ok i s')"
      by (rule wp_pair_mono [OF nd_thread_resume_ok [OF kok]]) (use sys_ok_sync [OF ok] in simp)
    from pairs [OF this] Resume show ?thesis by simp
  next
    case (Abort t)
    with lg pairs [OF abort_sys [OF ok, of t]] show ?thesis by simp
  next
    case (TimerInit n nm ty tmo cb a)
    with lg pairs [OF timer_init_sys [OF ok, of n nm ty tmo cb a]] show ?thesis by simp
  next
    case (TimerStart n)
    with pairs [OF timer_start_sys [OF ok, of n]] show ?thesis by simp
  next
    case (TimerStop n)
    with pairs [OF timer_stop_sys [OF ok, of n]] show ?thesis by simp
  next
    case (Create t n ent pri par stk stksz opts tslice)
    with lg pairs [OF create_sys [OF ok, of t n ent pri par stk stksz opts tslice]] show ?thesis by simp
  qed
qed

section \<open>The kernel as a step relation\<close>

text \<open>
  A step is a call of the running thread (with interrupts' work done: \<open>calling\<close>), a call in an interrupt handler, a store of
  the application into a block of a pool that it holds, PendSV, the entry of an interrupt, the passing of time where it is
  read from a counter (tickless), the processing of the timers in a handler, with or without a tick, or the exit of an
  interrupt: through \<^verbatim>\<open>nd_try_schedule_irqsave\<close> (Cortex-M, and the handlers of drivers), or through
  \<^verbatim>\<open>nd_schedule_irq_exit\<close>, which the assembly of the Cortex-A9 and RISC-V ports calls when the handler has returned.
\<close>

inductive kstep :: "tid \<Rightarrow> user_callback \<Rightarrow> kstate \<Rightarrow> kstate \<Rightarrow> bool" for i ucb where
  call: "calling i c s \<Longrightarrow> c \<noteq> i \<Longrightarrow> legal i k s \<Longrightarrow> kcall_exec k s = Some s' \<Longrightarrow> kstep i ucb s s'"
| isr_call: "nd_interrupt_nest_count s > 0 \<Longrightarrow> isr_safe k \<Longrightarrow> legal i k s \<Longrightarrow> kcall_exec k s = Some s' \<Longrightarrow>
    kstep i ucb s s'"
| store: "taken (pools s j) a \<Longrightarrow> unat a \<le> unat x \<Longrightarrow> unat x < unat a + unat (block_size (pools s j)) \<Longrightarrow>
    kstep i ucb s (upd_pool (\<lambda>p. p\<lparr>pool_mem := (pool_mem p)(x := v)\<rparr>) j s)"
| pendsv_isr: "pendsv s \<Longrightarrow> nd_current_thread s \<noteq> None \<Longrightarrow> isr_pendsv s = Some s' \<Longrightarrow> kstep i ucb s s'"
| enter: "nd_interrupt_nest_count s \<noteq> - 1 \<Longrightarrow> kstep i ucb s (nd_enter_interrupt s)"
| time: "tickless s \<Longrightarrow> now s \<le> n \<Longrightarrow> kstep i ucb s (s\<lparr>now := n\<rparr>)"
| tick: "nd_interrupt_nest_count s > 0 \<Longrightarrow> nd_timer_process ucb (nd_hw_tick_update s) = Some s' \<Longrightarrow> kstep i ucb s s'"
| hrtimer_isr: "nd_interrupt_nest_count s > 0 \<Longrightarrow> nd_timer_process ucb s = Some s' \<Longrightarrow> kstep i ucb s s'"
| leave: "nd_interrupt_nest_count s > 0 \<Longrightarrow> nd_try_schedule_irqsave (nd_exit_interrupt s) = Some s' \<Longrightarrow>
    kstep i ucb s s'"
| irq_leave: "port s = SwitchImmediate \<Longrightarrow> nd_interrupt_nest_count s = 1 \<Longrightarrow> nd_current_thread s \<noteq> None \<Longrightarrow>
    nd_schedule_irq_exit (nd_exit_interrupt s) = Some s' \<Longrightarrow> kstep i ucb s s'"

inductive kreach :: "tid \<Rightarrow> user_callback \<Rightarrow> kstate \<Rightarrow> kstate \<Rightarrow> bool" for i ucb s0 where
  here: "kreach i ucb s0 s0"
| more: "kreach i ucb s0 s \<Longrightarrow> kstep i ucb s s' \<Longrightarrow> kreach i ucb s0 s'"

lemma exit_idle:
  assumes "kernel_ok i s" and "\<not> nd_interrupt_try_switch s"
  shows "kernel_ok i (nd_exit_interrupt s)"
  using assms by (simp add: kernel_ok_def cur_ok_def cur_link_def nd_exit_interrupt_def)

lemma leave_ok:
  assumes ok: "kernel_ok i s" and n: "nd_interrupt_nest_count s > 0"
  shows "wp (nd_try_schedule_irqsave (nd_exit_interrupt s)) (\<lambda>s'. kernel_ok i s' \<and> sync_frame (nd_exit_interrupt s) s')"
proof (cases "nd_interrupt_try_switch s")
  case True
  then show ?thesis by (intro wp_mono [OF exit_then_try_schedule_ok [OF ok n]]) simp_all
next
  case False
  then have "nd_try_schedule_irqsave (nd_exit_interrupt s) = Some (nd_exit_interrupt s)"
    by (simp add: nd_try_schedule_irqsave_def nd_try_schedule_def nd_exit_interrupt_def)
  with exit_idle [OF ok False] show ?thesis by simp
qed

lemma irq_leave_ok:
  assumes ok: "kernel_ok i s" and im: "port s = SwitchImmediate" and n: "nd_interrupt_nest_count s = 1"
    and c: "nd_current_thread s = Some c"
  shows "wp (nd_schedule_irq_exit (nd_exit_interrupt s)) (\<lambda>s'. kernel_ok i s' \<and> sync_frame (nd_exit_interrupt s) s')"
proof (cases "nd_interrupt_try_switch s")
  case False
  then have "nd_schedule_irq_exit (nd_exit_interrupt s) = Some (nd_exit_interrupt s)"
    by (simp add: nd_schedule_irq_exit_def nd_exit_interrupt_def)
  with exit_idle [OF ok False] show ?thesis by simp
next
  case True
  note K = kernel_okD [OF ok]
  let ?s = "nd_exit_interrupt s"
  have "wp (nd_schedule_irq_exit ?s) (\<lambda>s'. kernel_ok i s' \<and> scheduled s' \<and> sched_frame ?s s' \<and>
      \<not> nd_interrupt_try_switch s' \<and> nd_current_thread s' \<noteq> None)"
    by (rule nd_schedule_irq_exit_ok)
      (use True K(1-3) im n c in \<open>auto simp: nd_exit_interrupt_def cur_link_def split: if_splits\<close>)
  then show ?thesis by (rule wp_mono) (simp add: sync_frame_sched)
qed

lemma ipc_ok_fields:
  assumes "sems s' = sems s" "mutexes s' = mutexes s" "events s' = events s" "queues s' = queues s" "pools s' = pools s"
    "qlists s' = qlists s" "threads s' = threads s" "taken_list s' = taken_list s"
  shows "ipc_ok s' = ipc_ok s"
  unfolding ipc_ok_def sem_ok_def mutex_ok_def event_ok_def buffers_ok_def assms ..

lemma kernel_ok_now: "kernel_ok i (s\<lparr>now := n\<rparr>) = kernel_ok i s"
  by (simp add: kernel_ok_def cur_ok_def cur_link_def kinv_def base_ok_def lists_ok_def timers_ok_def
      bits_ok_def user_ok_def thread_ok_def)

lemma timer_process_sys:
  assumes "nd_timer_process ucb s = Some s'" and "kernel_ok i s" and "ipc_ok s" and "callbacks_ok i ipc_ok ucb"
  shows "sys_ok i s'"
  using timer_expired_ok [OF assms(1) [unfolded nd_timer_process_def] assms(2-4)] by (simp add: sys_ok_def)

lemma kstep_sys:
  assumes st: "kstep i ucb s s'" and ok: "sys_ok i s" and cb: "callbacks_ok i ipc_ok ucb"
  shows "sys_ok i s'"
proof -
  have k: "kernel_ok i s" and ipc: "ipc_ok s" using ok by (simp_all add: sys_ok_def)
  have ipc_exit: "ipc_ok (nd_exit_interrupt s)"
    using ipc ipc_ok_fields [of "nd_exit_interrupt s" s] by (simp add: nd_exit_interrupt_def)
  from st show ?thesis
  proof (cases rule: kstep.cases)
    case (call c k)
    then show ?thesis using wpD [OF kcall_sys [OF ok call(3)] call(4)] by blast
  next
    case (isr_call k)
    then show ?thesis using wpD [OF kcall_sys [OF ok isr_call(3)] isr_call(4)] by blast
  next
    case (store j a x v)
    let ?p = "(pools s j)\<lparr>pool_mem := (pool_mem (pools s j))(x := v)\<rparr>"
    have "pool_ok ?p (free_blocks (pools s j))"
      by (rule pool_ok_write [OF takenD [OF ok store(2)] store(3,4)])
    with sys_ok_upd_pool [OF ok, of ?p j] free_blocks_eq [OF this] show ?thesis
      by (simp add: store(1) upd_pool_def)
  next
    case pendsv_isr
    then obtain c where c: "nd_current_thread s = Some c" by auto
    from wpD [OF isr_pendsv_ok [OF k pendsv_isr(1) c] pendsv_isr(3)] show ?thesis
      using sys_ok_sync [OF ok] sync_frame_sched by blast
  next
    case enter
    have "ipc_ok (nd_enter_interrupt s) = ipc_ok s"
      by (rule ipc_ok_fields) (simp_all add: nd_enter_interrupt_def)
    with nd_enter_interrupt_ok(1) [OF k enter(2)] ipc show ?thesis by (simp add: enter(1) sys_ok_def)
  next
    case (time n)
    have "ipc_ok (s\<lparr>now := n\<rparr>) = ipc_ok s" by (rule ipc_ok_fields) simp_all
    with k ipc show ?thesis by (simp add: time(1) sys_ok_def kernel_ok_now)
  next
    case tick
    have "ipc_ok (nd_hw_tick_update s) = ipc_ok s"
      by (rule ipc_ok_fields) (simp_all add: nd_hw_tick_update_def)
    with timer_process_sys [OF tick(2) _ _ cb] k ipc show ?thesis by (simp add: kernel_ok_tick)
  next
    case hrtimer_isr
    show ?thesis by (rule timer_process_sys [OF hrtimer_isr(2) k ipc cb])
  next
    case leave
    from wpD [OF leave_ok [OF k leave(1)] leave(2)] show ?thesis
      using ipc_ok_sync [OF ipc_exit] by (simp add: sys_ok_def)
  next
    case irq_leave
    then obtain c where "nd_current_thread s = Some c" by auto
    from wpD [OF irq_leave_ok [OF k irq_leave(1,2) this] irq_leave(4)] show ?thesis
      using ipc_ok_sync [OF ipc_exit] by (simp add: sys_ok_def)
  qed
qed

lemma kreach_sys:
  assumes "kreach i ucb s0 s" and "sys_ok i s0" and "callbacks_ok i ipc_ok ucb"
  shows "sys_ok i s"
  using assms(1) by induction (use assms(2,3) kstep_sys in blast)+

end
