(* ===== verification/Nd_Startup.thy ===== *)
theory Nd_Startup
  imports Nd_Kernel
begin

text \<open>
  From reset to any moment of the run, as the \<^verbatim>\<open>main\<close> of the boards does it (\<^verbatim>\<open>bsp/vexpress-a9-qemu/main.c\<close>): zeroed data,
  \<^verbatim>\<open>nd_scheduler_init\<close>, the calls of \<^verbatim>\<open>nd_app_init\<close> (interrupts are locked, there is no thread yet), \<^verbatim>\<open>nd_scheduler_start\<close>,
  and then the steps of the kernel. The invariant holds from the first switch on.
\<close>

section \<open>The start of the system\<close>

text \<open>Zeroed mutexes, queues and pools.\<close>

definition zeroed :: "kstate \<Rightarrow> bool" where
  "zeroed s \<longleftrightarrow> (\<forall>m. owner (mutexes s m) = None \<and> owner_home (mutexes s m) = None) \<and>
     (\<forall>j. max_msgs (queues s j) = 0) \<and> (\<forall>j. block_count (pools s j) = 0)"

text \<open>What an application does before the scheduler runs: it initialises its objects, creates threads and starts timers.\<close>

fun setup_call :: "kcall \<Rightarrow> bool" where
  "setup_call (SemInit m v) = True"
| "setup_call (MutexInit m) = True"
| "setup_call (EventInit e) = True"
| "setup_call (QueueInit j b msz mx) = True"
| "setup_call (PoolInit j st bs n) = True"
| "setup_call (TimerInit n nm ty tmo cb a) = True"
| "setup_call (TimerStart n) = True"
| "setup_call (TimerStop n) = True"
| "setup_call (Create t n ent pri par stk stksz opts tslice) = True"
| "setup_call _ = False"

inductive ksetup :: "tid \<Rightarrow> kstate \<Rightarrow> kstate \<Rightarrow> bool" for i s0 where
  none: "ksetup i s0 s0"
| more: "ksetup i s0 s \<Longrightarrow> setup_call k \<Longrightarrow> legal i k s \<Longrightarrow> kcall_exec k s = Some s' \<Longrightarrow> ksetup i s0 s'"

text \<open>The state \<open>s'\<close> comes about in a run from power on at \<open>s\<close>.\<close>

definition kernel_run :: "tid \<Rightarrow> user_callback \<Rightarrow> kstate \<Rightarrow> kstate \<Rightarrow> bool" where
  "kernel_run i ucb s s' \<longleftrightarrow> boot_ok s \<and> zeroed s \<and>
     (\<exists>ient istk isz s1 s2 s3 s0. ient \<noteq> 0 \<and> istk \<noteq> 0 \<and> isz \<noteq> 0 \<and>
        nd_scheduler_init i ient istk isz s = Some s1 \<and> ksetup i s1 s2 \<and> nd_scheduler_start s2 = Some s3 \<and>
        (if pendsv s3 then isr_pendsv s3 else Some s3) = Some s0 \<and> kreach i ucb s0 s')"

section \<open>The invariant during the start\<close>

definition unstarted :: "kstate \<Rightarrow> bool" where
  "unstarted s \<longleftrightarrow> nd_current_thread s = None \<and> \<not> pendsv s \<and> nd_interrupt_nest_count s = 0"

lemma unstarted_rest: "rest s' = rest s \<Longrightarrow> unstarted s' = unstarted s"
  using restD [of s' s] by (simp add: unstarted_def)

lemma unstarted_no_try: "kernel_ok i s \<Longrightarrow> unstarted s \<Longrightarrow> \<not> nd_interrupt_try_switch s"
  using kernel_okD(2) by (auto simp: unstarted_def cur_link_def)

lemma create_unstarted:
  assumes ok: "kernel_ok i s" and u: "unstarted s" and un: "unused s t"
  shows "wp (nd_thread_create (Some t) (Some n) ent pri par stk stksz opts tslice s) (\<lambda>(r, s'). unstarted s')"
proof -
  note K = kernel_okD [OF ok]
  show ?thesis
  proof (rule wp_pair_mono [OF nd_thread_create_ok [OF K(1,2) disjI2 [OF K(3)] un]])
    fix e s' assume post: "if ent = 0 \<or> stk = 0 \<or> stksz = 0 \<or> pri \<ge> ND_THREAD_PRIORITY_MAX then e = ND_EINVAL \<and> s' = s
           else e = ND_EOK \<and> kernel_ok i s' \<and> scheduled s' \<and> sync_frame s s' \<and>
             nd_thread_list s' = nd_thread_list s @ [t] \<and>
             (\<exists>s1 s2. readied t s1 s2 \<and> sched_frame s2 s' \<and> sched_out s2 s' \<and>
                rest s1 = rest (s\<lparr>nd_thread_list := nd_thread_list s @ [t]\<rparr>) \<and>
                threads s1 = (threads s)(t := threads s1 t) \<and>
                created t n ent pri par stk stksz opts tslice s (threads s1 t))"
    show "unstarted s'"
    proof (cases "ent = 0 \<or> stk = 0 \<or> stksz = 0 \<or> pri \<ge> ND_THREAD_PRIORITY_MAX")
      case False
      with post obtain s1 s2 where r: "readied t s1 s2" "sched_out s2 s'" "rest s1 = rest (s\<lparr>nd_thread_list := nd_thread_list s @ [t]\<rparr>)"
        by (auto simp: not_le)
      have "unstarted s1" using unstarted_rest [OF r(3)] u by (simp add: unstarted_def)
      then have "unstarted s2" using r(1) relinkedD(1) [of t _ _ _ s1 s2] unstarted_rest [of s2 s1] by (auto simp: readied_def)
      with r(2) show ?thesis by (simp add: sched_out_def unstarted_def)
    qed (use post u in auto)
  qed
qed

lemma timer_unstarted:
  assumes ok: "kernel_ok i s" and u: "unstarted s"
  shows "wp (nd_timer_start (Some (UserTimer n)) s) (\<lambda>(r, s'). unstarted s')"
    and "wp (nd_timer_stop (Some (UserTimer n)) s) (\<lambda>(r, s'). unstarted s')"
proof -
  have T: "timers_ok s" using kernel_okD(4) [OF ok] by (rule base_ok_timers_ok)
  have f: "unstarted s'" if "timer_frame (UserTimer n) s s'" for s'
    using unstarted_rest [OF timer_frame_rest [OF that]] u by blast
  show "wp (nd_timer_start (Some (UserTimer n)) s) (\<lambda>(r, s'). unstarted s')"
  proof (cases "callback (timers s (UserTimer n)) = None")
    case True
    with u show ?thesis by (simp add: nd_timer_start_def)
  next
    case False
    show ?thesis by (rule wp_pair_mono [OF nd_timer_start_ok [OF T False]]) (use f in auto)
  qed
  show "wp (nd_timer_stop (Some (UserTimer n)) s) (\<lambda>(r, s'). unstarted s')"
    by (rule wp_pair_mono [OF nd_timer_stop_ok [OF T]]) (use f in auto)
qed

text \<open>A call that only initialises an object changes nothing of the scheduler.\<close>

lemma init_unstarted:
  assumes u: "unstarted s" and e: "kcall_exec k s = Some s'" and lg: "legal i k s"
    and k: "\<exists>m v. k = SemInit m v \<or> k = MutexInit m \<or> k = EventInit m" and mx: "mutex_ok s"
  shows "unstarted s'"
  using k e lg u mutex_okD(1,4) [OF mx]
  by (auto simp: unstarted_def nd_sem_init_def nd_mutex_init_def nd_event_init_def q_init_idle upd_sem_def upd_mutex_def upd_event_def)

lemma buffer_init_unstarted:
  assumes u: "unstarted s" and e: "kcall_exec k s = Some s'" and lg: "legal i k s"
    and k: "(\<exists>j b msz mx. k = QueueInit j b msz mx) \<or> (\<exists>j st bs n. k = PoolInit j st bs n)"
  shows "unstarted s'"
  using k e lg u
  by (auto simp: unstarted_def nd_queue_init_def nd_mempool_init_def q_init_idle upd_queue_def upd_pool_def split: if_splits)

lemma timer_init_unstarted:
  assumes u: "unstarted s" and e: "nd_timer_init (Some (UserTimer n)) nm ty tmo cb a s = Some (r, s')"
    and lg: "UserTimer n \<notin> set (rbtree s)"
  shows "unstarted s'"
  using e lg u by (auto simp: unstarted_def nd_timer_init_def upd_timer_def split: if_splits option.splits)

lemma setup_unstarted:
  assumes ok: "sys_ok i s" and u: "unstarted s" and k: "setup_call k" and lg: "legal i k s"
    and e: "kcall_exec k s = Some s'"
  shows "unstarted s'"
proof -
  note S = sys_okD [OF ok]
  have pairs: "wp m (\<lambda>(r, s'). unstarted s') \<Longrightarrow> map_option snd m = Some s' \<Longrightarrow> unstarted s'"
    for m :: "('a \<times> kstate) option" by (auto simp: wp_iff)
  show ?thesis
  proof (cases k)
    case (TimerInit n nm ty tmo cb a)
    with e lg timer_init_unstarted [OF u] show ?thesis by auto
  next
    case (TimerStart n)
    with e pairs [OF timer_unstarted(1) [OF S(1) u]] show ?thesis by simp
  next
    case (TimerStop n)
    with e pairs [OF timer_unstarted(2) [OF S(1) u]] show ?thesis by simp
  next
    case (Create t n ent pri par stk stksz opts tslice)
    with lg have "unused s t" by simp
    from pairs [OF create_unstarted [OF S(1) u this]] e Create show ?thesis by simp
  qed (use k init_unstarted [OF u e lg _ S(3)] buffer_init_unstarted [OF u e lg] in simp_all)
qed

lemma ksetup_sys:
  assumes "ksetup i s0 s" and "sys_ok i s0" and "unstarted s0"
  shows "sys_ok i s \<and> unstarted s"
  using assms(1)
proof induction
  case (more s k s')
  have "isr_safe k" using more(2) by (cases k) simp_all
  then have "wp (kcall_exec k s) (sys_ok i)" using kcall_sys [OF _ more(3)] more(5) by blast
  with more setup_unstarted [of i s k s'] show ?case by (simp add: wp_iff)
qed (use assms(2,3) in simp)

lemma start_sys:
  assumes ok: "sys_ok i s" and u: "unstarted s"
  shows "wp (do { s3 \<leftarrow> nd_scheduler_start s; if pendsv s3 then isr_pendsv s3 else Some s3 })
    (\<lambda>s'. sys_ok i s' \<and> nd_interrupt_nest_count s' = 0)"
proof -
  note S = sys_okD [OF ok]
  have U: "nd_current_thread s = None" "\<not> pendsv s" "s\<lparr>pendsv := False\<rparr> = s" using u by (simp_all add: unstarted_def)
  have run: "wp (do { n \<leftarrow> nd_get_highest_priority_thread s;
                  (case n of None \<Rightarrow> Some s | Some _ \<Rightarrow> nd_context_switch_cb n s) })
      (\<lambda>s'. sys_ok i s' \<and> \<not> pendsv s' \<and> nd_interrupt_nest_count s' = 0)"
  proof (rule wp_mono [OF first_switch_ok [OF S(1) U(1,2) unstarted_no_try [OF S(1) u]]], elim conjE exE)
    fix s' n assume s': "kernel_ok i s'" "sched_frame s s'" "nd_current_thread s' = Some n" "status s' n = ND_THREAD_STAT_RUNNING"
    have "\<not> pendsv s'" using kernel_okD(2) [OF s'(1)] s'(3,4) by (auto simp: cur_link_def)
    with sys_ok_sync [OF ok s'(1) sync_frame_sched [OF s'(2)]] sync_frameD(10) [OF sync_frame_sched [OF s'(2)]] u
    show "sys_ok i s' \<and> \<not> pendsv s' \<and> nd_interrupt_nest_count s' = 0" by (simp add: unstarted_def)
  qed
  define first where "first = (do { n \<leftarrow> nd_get_highest_priority_thread s;
                  (case n of None \<Rightarrow> Some s | Some _ \<Rightarrow> nd_context_switch_cb n s) })"
  from run obtain x where x: "first = Some x" "sys_ok i x" "\<not> pendsv x" "nd_interrupt_nest_count x = 0" by (auto simp: wp_iff first_def)
  show ?thesis
  proof (cases "port s")
    case SwitchDeferred
    then have "nd_scheduler_start s = Some (s\<lparr>pendsv := True\<rparr>)" "isr_pendsv (s\<lparr>pendsv := True\<rparr>) = first"
      by (simp_all add: nd_scheduler_start_def nd_hw_do_switch_first_def isr_pendsv_def U first_def)
    with x show ?thesis by simp
  next
    case SwitchImmediate
    then have "nd_scheduler_start s = first" by (simp add: nd_scheduler_start_def nd_hw_do_switch_first_def first_def)
    with x show ?thesis by simp
  qed
qed

lemma boot_sys:
  assumes b: "boot_ok s" and z: "zeroed s" and idle: "ient \<noteq> 0" "istk \<noteq> 0" "isz \<noteq> 0"
  shows "wp (nd_scheduler_init i ient istk isz s) (\<lambda>s'. sys_ok i s' \<and> unstarted s')"
proof (rule wp_mono [OF nd_scheduler_init_ok [OF b idle, of i]], elim conjE)
  fix s' assume s': "kernel_ok i s'" "nd_current_thread s' = None" "sync_frame s s'" "\<not> pendsv s'"
  have "ipc_ok s" using b z by (simp add: ipc_ok_def sem_ok_def mutex_ok_def event_ok_def buffers_ok_def boot_ok_def zeroed_def)
  with ipc_ok_sync [OF _ s'(3)] s' sync_frameD(10) [OF s'(3)] b
  show "sys_ok i s' \<and> unstarted s'" by (simp add: sys_ok_def unstarted_def boot_ok_def)
qed

lemma kernel_run_sys:
  assumes "kernel_run i ucb s s'" and cb: "callbacks_ok i ipc_ok ucb"
  shows "sys_ok i s'"
proof -
  from assms(1) obtain ient istk isz s1 s2 s3 s0 where b: "boot_ok s" "zeroed s"
    and idle: "ient \<noteq> 0" "istk \<noteq> 0" "isz \<noteq> 0" and init: "nd_scheduler_init i ient istk isz s = Some s1"
    and app: "ksetup i s1 s2" and start: "nd_scheduler_start s2 = Some s3"
      "(if pendsv s3 then isr_pendsv s3 else Some s3) = Some s0" and run: "kreach i ucb s0 s'"
    unfolding kernel_run_def by blast
  have s1: "sys_ok i s1" "unstarted s1" using wpD [OF boot_sys [OF b idle] init] by simp_all
  from ksetup_sys [OF app s1] have s2: "sys_ok i s2" "unstarted s2" by simp_all
  have "sys_ok i s0" using wpD [OF start_sys [OF s2], of s0] start by simp
  then show ?thesis by (rule kreach_sys [OF run _ cb])
qed

lemma no_callbacks_ipc: "callbacks_ok i ipc_ok (\<lambda>n a s. Some s)"
  using ipc_ok_sync unfolding callbacks_ok_def by auto

lemma power_on_zeroed: "zeroed (power_on pt)"
  by (simp add: zeroed_def power_on_def sample_def)

text \<open>A run: the application initialises a queue, and after the start an interrupt handler sets up a timer and starts it.\<close>

lemma sample_run:
  "\<exists>s'. kernel_run 0 (\<lambda>n a s. Some s) (power_on pt) s' \<and> UserTimer 0 \<in> set (rbtree s')"
proof -
  let ?u = "\<lambda>n a s. Some s"
  let ?q = "QueueInit 0 (replicate 8 0) 4 2"
  let ?t = "TimerInit 0 None ND_TIMER_PERIODIC 5 (Some 0) None"
  obtain s1 where s1: "nd_scheduler_init 0 0x8000 0x20000000 256 (power_on pt) = Some s1" "sys_ok 0 s1" "unstarted s1"
    using boot_sys [OF power_on_ok power_on_zeroed, of "0x8000" "0x20000000" 256 0 pt] by (auto simp: wp_iff)
  have "sync_frame (power_on pt) s1"
    using wpD [OF nd_scheduler_init_ok [OF power_on_ok, of "0x8000" "0x20000000" 256 0 pt] s1(1)] by simp
  from sync_frameD(11) [OF this, of "ReadWait 0"] sync_frameD(11) [OF this, of "SendWait 0"]
  have q: "legal 0 ?q s1" by (simp add: power_on_def)
  obtain s2 where s2: "kcall_exec ?q s1 = Some s2" using kcall_sys [OF s1(2) q] by (auto simp: wp_iff)
  have set: "ksetup 0 s1 s2" by (rule ksetup.more [OF ksetup.none _ q s2]) simp
  have u2: "sys_ok 0 s2" "unstarted s2" using ksetup_sys [OF set s1(2,3)] by simp_all
  obtain s0 where s0: "(do { s3 \<leftarrow> nd_scheduler_start s2; if pendsv s3 then isr_pendsv s3 else Some s3 }) = Some s0"
    and ok0: "sys_ok 0 s0" and n0: "nd_interrupt_nest_count s0 = 0" using start_sys [OF u2] by (auto simp: wp_iff)
  obtain s3 where s3: "nd_scheduler_start s2 = Some s3" "(if pendsv s3 then isr_pendsv s3 else Some s3) = Some s0"
    using s0 by (cases "nd_scheduler_start s2") auto
  let ?e = "nd_enter_interrupt s0"
  have e: "kstep 0 ?u s0 ?e" by (rule kstep.enter) (simp add: n0)
  have oke: "sys_ok 0 ?e" by (rule kstep_sys [OF e ok0 no_callbacks_ipc])
  have ne: "nd_interrupt_nest_count ?e > 0" by (simp add: nd_enter_interrupt_def n0)
  obtain r a where a: "nd_timer_stop (Some (UserTimer 0)) ?e = Some (r, a)" "kernel_ok 0 a" "sync_frame ?e a" "UserTimer 0 \<notin> set (rbtree a)"
    using nd_timer_stop_user [OF sys_okD(1) [OF oke], of 0] by (auto simp: wp_iff)
  have na: "nd_interrupt_nest_count a > 0" using sync_frameD(10) [OF a(3)] ne by simp
  have oka: "sys_ok 0 a" by (rule sys_ok_sync [OF oke a(2,3)])
  have st: "kstep 0 ?u ?e a" by (rule kstep.isr_call [OF ne, of "TimerStop 0"]) (simp_all add: a)
  have lt: "legal 0 ?t a" using a(4) by simp
  define f :: "nd_timer \<Rightarrow> nd_timer" where "f = (\<lambda>t. t\<lparr>timer_name := [], timer_type := ND_TIMER_PERIODIC, timeout := 5,
      callback := Some (CB_user 0), arg := None, node_empty := True\<rparr>)"
  define b where "b = upd_timer f (UserTimer 0) a"
  have b: "kcall_exec ?t a = Some b" using a(4) by (simp add: nd_timer_init_def b_def f_def)
  have nb: "nd_interrupt_nest_count b > 0" and cb: "callback (timers b (UserTimer 0)) = Some (CB_user 0)"
    using na by (simp_all add: b_def upd_timer_def f_def)
  have okb: "sys_ok 0 b" using wpD [OF kcall_sys [OF oka lt] b] by simp
  have it: "kstep 0 ?u a b" by (rule kstep.isr_call [OF na _ lt b]) simp
  obtain s' where s': "nd_timer_start (Some (UserTimer 0)) b = Some (ND_EOK, s')" "UserTimer 0 \<in> set (rbtree s')"
    using nd_timer_start_user [OF sys_okD(1) [OF okb], of 0] cb by (auto simp: wp_iff)
  have tt: "kstep 0 ?u b s'" by (rule kstep.isr_call [OF nb, of "TimerStart 0"]) (simp_all add: s')
  have "kreach 0 ?u s0 s'" by (intro kreach.more [OF _ tt] kreach.more [OF _ it] kreach.more [OF _ st] kreach.more [OF _ e] kreach.here)
  then have "kernel_run 0 ?u (power_on pt) s'"
    unfolding kernel_run_def
    by (intro conjI power_on_ok power_on_zeroed exI [of _ "0x8000"] exI [of _ "0x20000000"] exI [of _ 256]
        exI [of _ s1] exI [of _ s2] exI [of _ s3] exI [of _ s0])
      (use s1(1) set s3 in simp_all)
  with s'(2) show ?thesis by blast
qed

end
