(* ===== verification/Nd_Rbtree.thy ===== *)
theory Nd_Rbtree
  imports Nd_Prelude "HOL-Library.Tree"
begin

text \<open>
  The red-black tree of \<^verbatim>\<open>lib/rbtree.c\<close> and \<^verbatim>\<open>include/lib/rbtree.h\<close>: nodes at 32-bit addresses,
  the parent and the colour of a node packed into one word. A step that reads or writes through a
  null pointer is a fault. This theory holds the data and all the functions; what they
  compute is the matter of the theories that follow.
\<close>

section \<open>Nodes\<close>

record rb_node =
  rb_parent_color :: u32
  rb_right :: u32
  rb_left :: u32

record rb_tree =
  nodes :: "u32 \<Rightarrow> rb_node"
  rb_root :: u32

definition load_node :: "u32 \<Rightarrow> rb_tree \<Rightarrow> rb_node option" where
  "load_node p s = (if p = 0 then None else Some (nodes s p))"

definition store_node :: "(rb_node \<Rightarrow> rb_node) \<Rightarrow> u32 \<Rightarrow> rb_tree \<Rightarrow> rb_tree option" where
  "store_node f p s = (if p = 0 then None else Some (s\<lparr>nodes := (nodes s)(p := f (nodes s p))\<rparr>))"

definition left_of :: "u32 \<Rightarrow> rb_tree \<Rightarrow> u32 option" where
  "left_of p s = map_option rb_left (load_node p s)"

definition right_of :: "u32 \<Rightarrow> rb_tree \<Rightarrow> u32 option" where
  "right_of p s = map_option rb_right (load_node p s)"

definition set_left :: "u32 \<Rightarrow> u32 \<Rightarrow> rb_tree \<Rightarrow> rb_tree option" where
  "set_left p x s = store_node (rb_left_update (\<lambda>_. x)) p s"

definition set_right :: "u32 \<Rightarrow> u32 \<Rightarrow> rb_tree \<Rightarrow> rb_tree option" where
  "set_right p x s = store_node (rb_right_update (\<lambda>_. x)) p s"

definition set_root :: "u32 \<Rightarrow> rb_tree \<Rightarrow> rb_tree option" where
  "set_root x s = Some (s\<lparr>rb_root := x\<rparr>)"

definition RB_RED :: u32 where "RB_RED = 0"
definition RB_BLACK :: u32 where "RB_BLACK = 1"

definition rb_parent :: "u32 \<Rightarrow> rb_tree \<Rightarrow> u32 option" where
  "rb_parent r s = map_option (\<lambda>n. rb_parent_color n AND NOT 3) (load_node r s)"

definition rb_color :: "u32 \<Rightarrow> rb_tree \<Rightarrow> u32 option" where
  "rb_color r s = map_option (\<lambda>n. rb_parent_color n AND 1) (load_node r s)"

definition rb_is_red :: "u32 \<Rightarrow> rb_tree \<Rightarrow> bool option" where
  "rb_is_red r s = map_option (\<lambda>c. c = 0) (rb_color r s)"

definition rb_is_black :: "u32 \<Rightarrow> rb_tree \<Rightarrow> bool option" where
  "rb_is_black r s = map_option (\<lambda>c. c \<noteq> 0) (rb_color r s)"

definition rb_set_red :: "u32 \<Rightarrow> rb_tree \<Rightarrow> rb_tree option" where
  "rb_set_red r s = store_node (rb_parent_color_update (\<lambda>w. w AND NOT 1)) r s"

definition rb_set_black :: "u32 \<Rightarrow> rb_tree \<Rightarrow> rb_tree option" where
  "rb_set_black r s = store_node (rb_parent_color_update (\<lambda>w. w OR 1)) r s"

definition rb_set_parent :: "u32 \<Rightarrow> u32 \<Rightarrow> rb_tree \<Rightarrow> rb_tree option" where
  "rb_set_parent rb p s = store_node (rb_parent_color_update (\<lambda>w. (w AND 3) OR p)) rb s"

definition rb_set_color :: "u32 \<Rightarrow> u32 \<Rightarrow> rb_tree \<Rightarrow> rb_tree option" where
  "rb_set_color rb c s = store_node (rb_parent_color_update (\<lambda>w. (w AND NOT 1) OR c)) rb s"

definition RB_EMPTY_ROOT :: "rb_tree \<Rightarrow> bool" where
  "RB_EMPTY_ROOT s = (rb_root s = 0)"

definition RB_EMPTY_NODE :: "u32 \<Rightarrow> rb_tree \<Rightarrow> bool option" where
  "RB_EMPTY_NODE n s = map_option (\<lambda>p. p = n) (rb_parent n s)"

definition RB_CLEAR_NODE :: "u32 \<Rightarrow> rb_tree \<Rightarrow> rb_tree option" where
  "RB_CLEAR_NODE n s = rb_set_parent n n s"

definition rb_init_node :: "u32 \<Rightarrow> rb_tree \<Rightarrow> rb_tree option" where
  "rb_init_node rb s = do {
     s \<leftarrow> store_node (\<lambda>n. n\<lparr>rb_parent_color := 0, rb_right := 0, rb_left := 0\<rparr>) rb s;
     RB_CLEAR_NODE rb s
   }"

text \<open>A place that holds a pointer to a node: \<^verbatim>\<open>struct rb_node **\<close>.\<close>

datatype rb_link = RootLink | LeftLink u32 | RightLink u32

fun read_link :: "rb_link \<Rightarrow> rb_tree \<Rightarrow> u32 option" where
  "read_link RootLink s = Some (rb_root s)"
| "read_link (LeftLink p) s = left_of p s"
| "read_link (RightLink p) s = right_of p s"

fun write_link :: "rb_link \<Rightarrow> u32 \<Rightarrow> rb_tree \<Rightarrow> rb_tree option" where
  "write_link RootLink x s = set_root x s"
| "write_link (LeftLink p) x s = set_left p x s"
| "write_link (RightLink p) x s = set_right p x s"

definition rb_link_node :: "u32 \<Rightarrow> u32 \<Rightarrow> rb_link \<Rightarrow> rb_tree \<Rightarrow> rb_tree option" where
  "rb_link_node node parent link s = do {
     s \<leftarrow> store_node (\<lambda>n. n\<lparr>rb_parent_color := parent, rb_left := 0, rb_right := 0\<rparr>) node s;
     write_link link node s
   }"

section \<open>Rotations\<close>

definition rb_rotate_left :: "u32 \<Rightarrow> rb_tree \<Rightarrow> rb_tree option" where
  "rb_rotate_left node s = do {
     right \<leftarrow> right_of node s;
     parent \<leftarrow> rb_parent node s;
     rl \<leftarrow> left_of right s;
     s \<leftarrow> set_right node rl s;
     s \<leftarrow> (if rl \<noteq> 0 then rb_set_parent rl node s else Some s);
     s \<leftarrow> set_left right node s;
     s \<leftarrow> rb_set_parent right parent s;
     s \<leftarrow> (if parent \<noteq> 0 then do {
             pl \<leftarrow> left_of parent s;
             if node = pl then set_left parent right s else set_right parent right s
           }
           else set_root right s);
     rb_set_parent node right s
   }"

definition rb_rotate_right :: "u32 \<Rightarrow> rb_tree \<Rightarrow> rb_tree option" where
  "rb_rotate_right node s = do {
     left \<leftarrow> left_of node s;
     parent \<leftarrow> rb_parent node s;
     lr \<leftarrow> right_of left s;
     s \<leftarrow> set_left node lr s;
     s \<leftarrow> (if lr \<noteq> 0 then rb_set_parent lr node s else Some s);
     s \<leftarrow> set_right left node s;
     s \<leftarrow> rb_set_parent left parent s;
     s \<leftarrow> (if parent \<noteq> 0 then do {
             pr \<leftarrow> right_of parent s;
             if node = pr then set_right parent left s else set_left parent left s
           }
           else set_root left s);
     rb_set_parent node left s
   }"

section \<open>Insertion\<close>

text \<open>The two halves of the loop body of \<open>rb_insert_color\<close>: the node to go on with, and the tree.\<close>

definition red_or_null :: "u32 \<Rightarrow> rb_tree \<Rightarrow> bool option" where
  "red_or_null u s = (if u = 0 then Some False else rb_is_red u s)"

definition insert_fix_left :: "u32 \<Rightarrow> u32 \<Rightarrow> u32 \<Rightarrow> rb_tree \<Rightarrow> (u32 \<times> rb_tree) option" where
  "insert_fix_left node parent gparent s = do {
     uncle \<leftarrow> right_of gparent s;
     ur \<leftarrow> red_or_null uncle s;
     if ur then do {
       s \<leftarrow> rb_set_black uncle s;
       s \<leftarrow> rb_set_black parent s;
       s \<leftarrow> rb_set_red gparent s;
       Some (gparent, s)
     }
     else do {
       pr \<leftarrow> right_of parent s;
       (node, parent, s) \<leftarrow> (if pr = node then map_option (\<lambda>s. (parent, node, s)) (rb_rotate_left parent s)
                             else Some (node, parent, s));
       s \<leftarrow> rb_set_black parent s;
       s \<leftarrow> rb_set_red gparent s;
       s \<leftarrow> rb_rotate_right gparent s;
       Some (node, s)
     }
   }"

definition insert_fix_right :: "u32 \<Rightarrow> u32 \<Rightarrow> u32 \<Rightarrow> rb_tree \<Rightarrow> (u32 \<times> rb_tree) option" where
  "insert_fix_right node parent gparent s = do {
     uncle \<leftarrow> left_of gparent s;
     ur \<leftarrow> red_or_null uncle s;
     if ur then do {
       s \<leftarrow> rb_set_black uncle s;
       s \<leftarrow> rb_set_black parent s;
       s \<leftarrow> rb_set_red gparent s;
       Some (gparent, s)
     }
     else do {
       pl \<leftarrow> left_of parent s;
       (node, parent, s) \<leftarrow> (if pl = node then map_option (\<lambda>s. (parent, node, s)) (rb_rotate_right parent s)
                             else Some (node, parent, s));
       s \<leftarrow> rb_set_black parent s;
       s \<leftarrow> rb_set_red gparent s;
       s \<leftarrow> rb_rotate_left gparent s;
       Some (node, s)
     }
   }"

definition insert_step :: "u32 \<Rightarrow> u32 \<Rightarrow> rb_tree \<Rightarrow> (u32 \<times> rb_tree) option" where
  "insert_step node parent s = do {
     gparent \<leftarrow> rb_parent parent s;
     gl \<leftarrow> left_of gparent s;
     if parent = gl then insert_fix_left node parent gparent s
     else insert_fix_right node parent gparent s
   }"

partial_function (option) insert_loop :: "u32 \<Rightarrow> rb_tree \<Rightarrow> rb_tree option" where
  "insert_loop node s =
     Option.bind (rb_parent node s) (\<lambda>parent.
     Option.bind (red_or_null parent s) (\<lambda>red.
       if red then Option.bind (insert_step node parent s) (\<lambda>r. insert_loop (fst r) (snd r))
       else Some s))"

definition rb_insert_color :: "u32 \<Rightarrow> rb_tree \<Rightarrow> rb_tree option" where
  "rb_insert_color node s = do {
     s \<leftarrow> insert_loop node s;
     rb_set_black (rb_root s) s
   }"

section \<open>Removal\<close>

definition black_or_null :: "u32 \<Rightarrow> rb_tree \<Rightarrow> bool option" where
  "black_or_null n s = (if n = 0 then Some True else rb_is_black n s)"

text \<open>The two halves of the loop body of \<^verbatim>\<open>__rb_erase_color\<close>: \<open>Inl\<close> the node and its parent to go on
  with, \<open>Inr\<close> the node after \<^verbatim>\<open>break\<close>.\<close>

definition erase_fix_left :: "u32 \<Rightarrow> rb_tree \<Rightarrow> ((u32 \<times> u32 + u32) \<times> rb_tree) option" where
  "erase_fix_left parent s = do {
     other \<leftarrow> right_of parent s;
     red \<leftarrow> rb_is_red other s;
     (other, s) \<leftarrow> (if red then do {
         s \<leftarrow> rb_set_black other s;
         s \<leftarrow> rb_set_red parent s;
         s \<leftarrow> rb_rotate_left parent s;
         other \<leftarrow> right_of parent s;
         Some (other, s)
       } else Some (other, s));
     ol \<leftarrow> left_of other s;
     bl \<leftarrow> black_or_null ol s;
     orr \<leftarrow> right_of other s;
     br \<leftarrow> black_or_null orr s;
     if bl \<and> br then do {
       s \<leftarrow> rb_set_red other s;
       pp \<leftarrow> rb_parent parent s;
       Some (Inl (parent, pp), s)
     }
     else do {
       (other, s) \<leftarrow> (if br then do {
           s \<leftarrow> rb_set_black ol s;
           s \<leftarrow> rb_set_red other s;
           s \<leftarrow> rb_rotate_right other s;
           other \<leftarrow> right_of parent s;
           Some (other, s)
         } else Some (other, s));
       c \<leftarrow> rb_color parent s;
       s \<leftarrow> rb_set_color other c s;
       s \<leftarrow> rb_set_black parent s;
       orr \<leftarrow> right_of other s;
       s \<leftarrow> rb_set_black orr s;
       s \<leftarrow> rb_rotate_left parent s;
       Some (Inr (rb_root s), s)
     }
   }"

definition erase_fix_right :: "u32 \<Rightarrow> rb_tree \<Rightarrow> ((u32 \<times> u32 + u32) \<times> rb_tree) option" where
  "erase_fix_right parent s = do {
     other \<leftarrow> left_of parent s;
     red \<leftarrow> rb_is_red other s;
     (other, s) \<leftarrow> (if red then do {
         s \<leftarrow> rb_set_black other s;
         s \<leftarrow> rb_set_red parent s;
         s \<leftarrow> rb_rotate_right parent s;
         other \<leftarrow> left_of parent s;
         Some (other, s)
       } else Some (other, s));
     ol \<leftarrow> left_of other s;
     bl \<leftarrow> black_or_null ol s;
     orr \<leftarrow> right_of other s;
     br \<leftarrow> black_or_null orr s;
     if bl \<and> br then do {
       s \<leftarrow> rb_set_red other s;
       pp \<leftarrow> rb_parent parent s;
       Some (Inl (parent, pp), s)
     }
     else do {
       (other, s) \<leftarrow> (if bl then do {
           s \<leftarrow> rb_set_black orr s;
           s \<leftarrow> rb_set_red other s;
           s \<leftarrow> rb_rotate_left other s;
           other \<leftarrow> left_of parent s;
           Some (other, s)
         } else Some (other, s));
       c \<leftarrow> rb_color parent s;
       s \<leftarrow> rb_set_color other c s;
       s \<leftarrow> rb_set_black parent s;
       ol \<leftarrow> left_of other s;
       s \<leftarrow> rb_set_black ol s;
       s \<leftarrow> rb_rotate_right parent s;
       Some (Inr (rb_root s), s)
     }
   }"

definition erase_step :: "u32 \<Rightarrow> u32 \<Rightarrow> rb_tree \<Rightarrow> ((u32 \<times> u32 + u32) \<times> rb_tree) option" where
  "erase_step node parent s = do {
     pl \<leftarrow> left_of parent s;
     if pl = node then erase_fix_left parent s else erase_fix_right parent s
   }"

partial_function (option) erase_loop :: "u32 \<Rightarrow> u32 \<Rightarrow> rb_tree \<Rightarrow> (u32 \<times> rb_tree) option" where
  "erase_loop node parent s =
     Option.bind (black_or_null node s) (\<lambda>black.
       if black \<and> node \<noteq> rb_root s then
         Option.bind (erase_step node parent s) (\<lambda>r.
           case fst r of Inl np \<Rightarrow> erase_loop (fst np) (snd np) (snd r) | Inr n \<Rightarrow> Some (n, snd r))
       else Some (node, s))"

definition rb_erase_color :: "u32 \<Rightarrow> u32 \<Rightarrow> rb_tree \<Rightarrow> rb_tree option" where
  "rb_erase_color node parent s = do {
     (n, s) \<leftarrow> erase_loop node parent s;
     if n \<noteq> 0 then rb_set_black n s else Some s
   }"

text \<open>\<^verbatim>\<open>while (n->rb_left) n = n->rb_left\<close>, and to the right.\<close>

partial_function (option) go_left :: "u32 \<Rightarrow> rb_tree \<Rightarrow> u32 option" where
  "go_left n s = Option.bind (left_of n s) (\<lambda>l. if l = 0 then Some n else go_left l s)"

partial_function (option) go_right :: "u32 \<Rightarrow> rb_tree \<Rightarrow> u32 option" where
  "go_right n s = Option.bind (right_of n s) (\<lambda>r. if r = 0 then Some n else go_right r s)"

text \<open>A node with two children changes places with its successor, which is unlinked.\<close>

definition replace_child :: "u32 \<Rightarrow> u32 \<Rightarrow> u32 \<Rightarrow> rb_tree \<Rightarrow> rb_tree option" where
  "replace_child parent old new s =
     (if parent \<noteq> 0 then do {
        pl \<leftarrow> left_of parent s;
        if pl = old then set_left parent new s else set_right parent new s
      }
      else set_root new s)"

definition rb_erase :: "u32 \<Rightarrow> rb_tree \<Rightarrow> rb_tree option" where
  "rb_erase node s = do {
     nl \<leftarrow> left_of node s;
     nr \<leftarrow> right_of node s;
     (child, parent, color, s) \<leftarrow>
       (if nl = 0 \<or> nr = 0 then do {
          let child = (if nl = 0 then nr else nl);
          parent \<leftarrow> rb_parent node s;
          color \<leftarrow> rb_color node s;
          s \<leftarrow> (if child \<noteq> 0 then rb_set_parent child parent s else Some s);
          s \<leftarrow> replace_child parent node child s;
          Some (child, parent, color, s)
        }
        else do {
          let old = node;
          node \<leftarrow> go_left nr s;
          op \<leftarrow> rb_parent old s;
          s \<leftarrow> replace_child op old node s;
          child \<leftarrow> right_of node s;
          parent \<leftarrow> rb_parent node s;
          color \<leftarrow> rb_color node s;
          (parent, s) \<leftarrow>
            (if parent = old then Some (node, s)
             else do {
               s \<leftarrow> (if child \<noteq> 0 then rb_set_parent child parent s else Some s);
               s \<leftarrow> set_left parent child s;
               onr \<leftarrow> right_of old s;
               s \<leftarrow> set_right node onr s;
               onr \<leftarrow> right_of old s;
               s \<leftarrow> rb_set_parent onr node s;
               Some (parent, s)
             });
          on \<leftarrow> load_node old s;
          s \<leftarrow> store_node (\<lambda>n. n\<lparr>rb_parent_color := rb_parent_color on, rb_left := rb_left on\<rparr>) node s;
          onl \<leftarrow> left_of old s;
          s \<leftarrow> rb_set_parent onl node s;
          Some (child, parent, color, s)
        });
     if color = RB_BLACK then rb_erase_color child parent s else Some s
   }"

section \<open>Traversal and replacement\<close>

definition rb_first :: "rb_tree \<Rightarrow> u32 option" where
  "rb_first s = (if rb_root s = 0 then Some 0 else go_left (rb_root s) s)"

definition rb_last :: "rb_tree \<Rightarrow> u32 option" where
  "rb_last s = (if rb_root s = 0 then Some 0 else go_right (rb_root s) s)"

partial_function (option) up_while_right :: "u32 \<Rightarrow> rb_tree \<Rightarrow> u32 option" where
  "up_while_right node s =
     Option.bind (rb_parent node s) (\<lambda>parent.
       if parent = 0 then Some 0
       else Option.bind (right_of parent s) (\<lambda>pr. if node = pr then up_while_right parent s else Some parent))"

partial_function (option) up_while_left :: "u32 \<Rightarrow> rb_tree \<Rightarrow> u32 option" where
  "up_while_left node s =
     Option.bind (rb_parent node s) (\<lambda>parent.
       if parent = 0 then Some 0
       else Option.bind (left_of parent s) (\<lambda>pl. if node = pl then up_while_left parent s else Some parent))"

definition rb_next :: "u32 \<Rightarrow> rb_tree \<Rightarrow> u32 option" where
  "rb_next node s = do {
     p \<leftarrow> rb_parent node s;
     if p = node then Some 0
     else do {
       r \<leftarrow> right_of node s;
       if r \<noteq> 0 then go_left r s else up_while_right node s
     }
   }"

definition rb_prev :: "u32 \<Rightarrow> rb_tree \<Rightarrow> u32 option" where
  "rb_prev node s = do {
     p \<leftarrow> rb_parent node s;
     if p = node then Some 0
     else do {
       l \<leftarrow> left_of node s;
       if l \<noteq> 0 then go_right l s else up_while_left node s
     }
   }"

definition rb_replace_node :: "u32 \<Rightarrow> u32 \<Rightarrow> rb_tree \<Rightarrow> rb_tree option" where
  "rb_replace_node victim new s = do {
     parent \<leftarrow> rb_parent victim s;
     s \<leftarrow> replace_child parent victim new s;
     l \<leftarrow> left_of victim s;
     s \<leftarrow> (if l \<noteq> 0 then rb_set_parent l new s else Some s);
     r \<leftarrow> right_of victim s;
     s \<leftarrow> (if r \<noteq> 0 then rb_set_parent r new s else Some s);
     v \<leftarrow> load_node victim s;
     store_node (\<lambda>_. v) new s
   }"

section \<open>Augmented trees\<close>

text \<open>The callback \<open>func\<close> and its \<open>data\<close> are the caller's; \<open>func\<close> reads the tree and updates the data.\<close>

partial_function (option) rb_augment_path ::
  "(u32 \<Rightarrow> rb_tree \<Rightarrow> 'd \<Rightarrow> 'd option) \<Rightarrow> u32 \<Rightarrow> rb_tree \<Rightarrow> 'd \<Rightarrow> 'd option" where
  "rb_augment_path func node s d =
     Option.bind (func node s d) (\<lambda>d.
     Option.bind (rb_parent node s) (\<lambda>parent.
       if parent = 0 then Some d
       else
         Option.bind (left_of parent s) (\<lambda>pl.
         Option.bind (right_of parent s) (\<lambda>pr.
         Option.bind (if node = pl \<and> pr \<noteq> 0 then func pr s d else if pl \<noteq> 0 then func pl s d else Some d) (\<lambda>d.
           rb_augment_path func parent s d)))))"

definition rb_augment_insert ::
  "(u32 \<Rightarrow> rb_tree \<Rightarrow> 'd \<Rightarrow> 'd option) \<Rightarrow> u32 \<Rightarrow> rb_tree \<Rightarrow> 'd \<Rightarrow> 'd option" where
  "rb_augment_insert func node s d = do {
     l \<leftarrow> left_of node s;
     r \<leftarrow> right_of node s;
     rb_augment_path func (if l \<noteq> 0 then l else if r \<noteq> 0 then r else node) s d
   }"

definition rb_augment_erase_begin :: "u32 \<Rightarrow> rb_tree \<Rightarrow> u32 option" where
  "rb_augment_erase_begin node s = do {
     l \<leftarrow> left_of node s;
     r \<leftarrow> right_of node s;
     if r = 0 \<and> l = 0 then rb_parent node s
     else if r = 0 then Some l
     else if l = 0 then Some r
     else do {
       deepest \<leftarrow> rb_next node s;
       dr \<leftarrow> right_of deepest s;
       if dr \<noteq> 0 then Some dr
       else do {
         dp \<leftarrow> rb_parent deepest s;
         if dp \<noteq> node then Some dp else Some deepest
       }
     }
   }"

definition rb_augment_erase_end ::
  "(u32 \<Rightarrow> rb_tree \<Rightarrow> 'd \<Rightarrow> 'd option) \<Rightarrow> u32 \<Rightarrow> rb_tree \<Rightarrow> 'd \<Rightarrow> 'd option" where
  "rb_augment_erase_end func node s d = (if node \<noteq> 0 then rb_augment_path func node s d else Some d)"

section \<open>The timer tree\<close>

text \<open>The descent of \<^verbatim>\<open>timer_node_insert\<close> in \<^verbatim>\<open>kernel/nd_timer.c\<close>; \<open>key\<close> gives the \<^verbatim>\<open>expire_time\<close> of the
  timer that a node belongs to.\<close>

partial_function (option) find_link ::
  "(u32 \<Rightarrow> u64) \<Rightarrow> u64 \<Rightarrow> u32 \<Rightarrow> rb_link \<Rightarrow> rb_tree \<Rightarrow> (u32 \<times> rb_link) option" where
  "find_link key k parent link s =
     Option.bind (read_link link s) (\<lambda>p.
       if p = 0 then Some (parent, link)
       else find_link key k p (if key p > k then LeftLink p else RightLink p) s)"

definition timer_node_insert_ptr :: "(u32 \<Rightarrow> u64) \<Rightarrow> u32 \<Rightarrow> rb_tree \<Rightarrow> rb_tree option" where
  "timer_node_insert_ptr key node s = do {
     (parent, link) \<leftarrow> find_link key (key node) 0 RootLink s;
     s \<leftarrow> rb_link_node node parent link s;
     rb_insert_color node s
   }"

end
