(* ===== verification/Nd_Rbtree_Rep.thy ===== *)
theory Nd_Rbtree_Rep
  imports Nd_Rbtree
begin

text \<open>
  What the nodes of \<open>Nd_Rbtree\<close> stand for. A subtree is represented by a \<open>tree\<close> of the library whose labels
  are an address and a colour, and the rest of the tree around it by a context, the path from the subtree to
  the root with the sibling subtrees on the way (a zipper). Rotations and recolourings are
  shown to change exactly the subtree in focus.
\<close>

section \<open>Both directions at once\<close>

datatype dir = L | R

fun opp :: "dir \<Rightarrow> dir" where
  "opp L = R"
| "opp R = L"

lemma opp_opp [simp]: "opp (opp d) = d" and opp_neq [simp]: "opp d \<noteq> d" "d \<noteq> opp d"
  by (cases d; simp)+

definition child_of :: "dir \<Rightarrow> u32 \<Rightarrow> rb_tree \<Rightarrow> u32 option" where
  "child_of d p s = (case d of L \<Rightarrow> left_of p s | R \<Rightarrow> right_of p s)"

definition set_child :: "dir \<Rightarrow> u32 \<Rightarrow> u32 \<Rightarrow> rb_tree \<Rightarrow> rb_tree option" where
  "set_child d p x s = (case d of L \<Rightarrow> set_left p x s | R \<Rightarrow> set_right p x s)"

definition rotate_to :: "dir \<Rightarrow> u32 \<Rightarrow> rb_tree \<Rightarrow> rb_tree option" where
  "rotate_to d node s = do {
     y \<leftarrow> child_of (opp d) node s;
     parent \<leftarrow> rb_parent node s;
     m \<leftarrow> child_of d y s;
     s \<leftarrow> set_child (opp d) node m s;
     s \<leftarrow> (if m \<noteq> 0 then rb_set_parent m node s else Some s);
     s \<leftarrow> set_child d y node s;
     s \<leftarrow> rb_set_parent y parent s;
     s \<leftarrow> (if parent \<noteq> 0 then do {
             pc \<leftarrow> child_of d parent s;
             if node = pc then set_child d parent y s else set_child (opp d) parent y s
           }
           else set_root y s);
     rb_set_parent node y s
   }"

lemma rotations: "rb_rotate_left = rotate_to L" "rb_rotate_right = rotate_to R"
  by (rule ext, rule ext, simp add: rb_rotate_left_def rb_rotate_right_def rotate_to_def child_of_def set_child_def cong: if_cong)+

definition insert_fix :: "dir \<Rightarrow> u32 \<Rightarrow> u32 \<Rightarrow> u32 \<Rightarrow> rb_tree \<Rightarrow> (u32 \<times> rb_tree) option" where
  "insert_fix d node parent gparent s = do {
     uncle \<leftarrow> child_of (opp d) gparent s;
     ur \<leftarrow> red_or_null uncle s;
     if ur then do {
       s \<leftarrow> rb_set_black uncle s;
       s \<leftarrow> rb_set_black parent s;
       s \<leftarrow> rb_set_red gparent s;
       Some (gparent, s)
     }
     else do {
       pr \<leftarrow> child_of (opp d) parent s;
       (node, parent, s) \<leftarrow> (if pr = node then map_option (\<lambda>s. (parent, node, s)) (rotate_to d parent s)
                             else Some (node, parent, s));
       s \<leftarrow> rb_set_black parent s;
       s \<leftarrow> rb_set_red gparent s;
       s \<leftarrow> rotate_to (opp d) gparent s;
       Some (node, s)
     }
   }"

lemma insert_fixes: "insert_fix_left = insert_fix L" "insert_fix_right = insert_fix R"
  by (rule ext, rule ext, rule ext, rule ext, simp add: insert_fix_left_def insert_fix_right_def insert_fix_def child_of_def rotations cong: if_cong)+

section \<open>The fields of a node\<close>

definition aligned :: "u32 \<Rightarrow> bool" where
  "aligned p \<longleftrightarrow> p AND 3 = 0"

definition ch :: "rb_tree \<Rightarrow> dir \<Rightarrow> u32 \<Rightarrow> u32" where
  "ch s d a = (case d of L \<Rightarrow> rb_left (nodes s a) | R \<Rightarrow> rb_right (nodes s a))"

definition par :: "rb_tree \<Rightarrow> u32 \<Rightarrow> u32" where
  "par s a = rb_parent_color (nodes s a) AND NOT 3"

datatype color = Red | Black

definition col :: "rb_tree \<Rightarrow> u32 \<Rightarrow> color" where
  "col s a = (if rb_parent_color (nodes s a) AND 1 = 0 then Red else Black)"

definition put :: "(rb_node \<Rightarrow> rb_node) \<Rightarrow> u32 \<Rightarrow> rb_tree \<Rightarrow> rb_tree" where
  "put f p s = s\<lparr>nodes := (nodes s)(p := f (nodes s p))\<rparr>"

definition put_ch :: "dir \<Rightarrow> u32 \<Rightarrow> u32 \<Rightarrow> rb_tree \<Rightarrow> rb_tree" where
  "put_ch d p x = put (case d of L \<Rightarrow> rb_left_update (\<lambda>_. x) | R \<Rightarrow> rb_right_update (\<lambda>_. x)) p"

definition put_par :: "u32 \<Rightarrow> u32 \<Rightarrow> rb_tree \<Rightarrow> rb_tree" where
  "put_par p x = put (rb_parent_color_update (\<lambda>w. (w AND 3) OR x)) p"

definition put_col :: "u32 \<Rightarrow> color \<Rightarrow> rb_tree \<Rightarrow> rb_tree" where
  "put_col p c = put (rb_parent_color_update (\<lambda>w. case c of Red \<Rightarrow> w AND NOT 1 | Black \<Rightarrow> w OR 1)) p"

lemma accessors:
  assumes "p \<noteq> 0"
  shows "child_of d p s = Some (ch s d p)" "rb_parent p s = Some (par s p)"
    "rb_is_red p s = Some (col s p = Red)" "rb_is_black p s = Some (col s p = Black)"
    "set_child d p x s = Some (put_ch d p x s)" "rb_set_parent p x s = Some (put_par p x s)"
    "rb_set_red p s = Some (put_col p Red s)" "rb_set_black p s = Some (put_col p Black s)"
    "left_of p s = Some (ch s L p)" "right_of p s = Some (ch s R p)"
  using assms
  by (simp_all add: child_of_def left_of_def right_of_def load_node_def ch_def rb_parent_def par_def rb_is_red_def
      rb_is_black_def rb_color_def col_def set_child_def set_left_def set_right_def store_node_def put_ch_def put_def
      rb_set_parent_def put_par_def rb_set_red_def rb_set_black_def put_col_def split: dir.split)

lemma put_fields [simp]:
  "ch (put_ch d p x s) e a = (if a = p \<and> e = d then x else ch s e a)"
  "par (put_ch d p x s) a = par s a" "col (put_ch d p x s) a = col s a"
  "ch (put_par p x s) e a = ch s e a" "ch (put_col p c s) e a = ch s e a"
  "rb_root (put_ch d p x s) = rb_root s" "rb_root (put_par p x s) = rb_root s" "rb_root (put_col p c s) = rb_root s"
  by (auto simp: ch_def par_def col_def put_ch_def put_par_def put_col_def put_def split: dir.split)

lemma root_fields [simp]:
  "ch (s\<lparr>rb_root := x\<rparr>) d a = ch s d a" "par (s\<lparr>rb_root := x\<rparr>) a = par s a" "col (s\<lparr>rb_root := x\<rparr>) a = col s a"
  by (simp_all add: ch_def par_def col_def split: dir.split)

lemma bit_3: "bit (3 :: u32) n \<longleftrightarrow> n < 2"
proof -
  have e: "(3 :: u32) = mask 2" by (simp add: mask_eq_exp_minus_1)
  show ?thesis unfolding e bit_mask_iff by auto
qed

lemma alignedD: "aligned p \<Longrightarrow> n < 2 \<Longrightarrow> \<not> bit p n"
proof
  assume a: "aligned p" and n: "n < 2" "bit p n"
  then have "bit (p AND 3) n" unfolding bit_and_iff bit_3 by simp
  with a show False by (simp add: aligned_def)
qed

lemma put_par_fields [simp]:
  assumes "aligned x"
  shows "par (put_par p x s) a = (if a = p then x else par s a)" "col (put_par p x s) a = col s a"
proof -
  have "((w AND 3) OR x) AND NOT 3 = x" for w
  proof (rule bit_word_eqI)
    fix n assume n: "n < LENGTH(32)"
    have "bit (((w AND 3) OR x) AND NOT 3) n \<longleftrightarrow> ((bit w n \<and> bit (3 :: u32) n) \<or> bit x n) \<and> \<not> bit (3 :: u32) n"
      using n unfolding bit_and_iff bit_or_iff bit_not_iff by simp
    with alignedD [OF assms, of n] bit_3 [of n]
    show "bit (((w AND 3) OR x) AND NOT 3) n \<longleftrightarrow> bit x n" by argo
  qed
  then show "par (put_par p x s) a = (if a = p then x else par s a)" by (simp add: par_def put_par_def put_def)
  have "((w AND 3) OR x) AND 1 = w AND 1" for w
  proof (rule bit_word_eqI)
    fix n assume n: "n < LENGTH(32)"
    have "bit (((w AND 3) OR x) AND 1) n \<longleftrightarrow> ((bit w n \<and> bit (3 :: u32) n) \<or> bit x n) \<and> n = 0"
      unfolding bit_and_iff bit_or_iff by (auto simp: bit_1_iff)
    also have "\<dots> \<longleftrightarrow> bit (w AND 1) n" using alignedD [OF assms, of n] by (auto simp: bit_3 bit_and_iff bit_1_iff)
    finally show "bit (((w AND 3) OR x) AND 1) n \<longleftrightarrow> bit (w AND 1) n" .
  qed
  then show "col (put_par p x s) a = col s a" by (simp add: col_def put_par_def put_def)
qed

lemma put_col_fields [simp]:
  "par (put_col p c s) a = par s a" "col (put_col p c s) a = (if a = p then c else col s a)"
proof -
  have low: "(w AND NOT 1) AND NOT 3 = w AND NOT 3" "(w OR 1) AND NOT 3 = w AND NOT 3" for w :: u32
  proof -
    have "bit (1 :: u32) n \<Longrightarrow> bit (3 :: u32) n" for n by (simp add: bit_1_iff bit_3)
    then show "(w AND NOT 1) AND NOT 3 = w AND NOT 3" "(w OR 1) AND NOT 3 = w AND NOT 3"
      by (intro bit_word_eqI; unfold bit_and_iff bit_or_iff bit_not_iff; blast)+
  qed
  show "par (put_col p c s) a = par s a"
    using low by (cases c) (simp_all add: par_def put_col_def put_def)
  have "(w AND NOT 1) AND 1 = 0" "(w OR 1) AND 1 = 1" for w :: u32
    by (intro bit_word_eqI; unfold bit_and_iff bit_or_iff bit_not_iff; auto simp: bit_1_iff)+
  then show "col (put_col p c s) a = (if a = p then c else col s a)"
    by (cases c) (simp_all add: col_def put_col_def put_def)
qed


section \<open>Trees and contexts\<close>

type_synonym rtree = "(u32 \<times> color) tree"

definition mk :: "dir \<Rightarrow> rtree \<Rightarrow> u32 \<Rightarrow> color \<Rightarrow> rtree \<Rightarrow> rtree" where
  "mk d t a c u = (case d of L \<Rightarrow> Node t (a, c) u | R \<Rightarrow> Node u (a, c) t)"

lemma mk_opp: "mk (opp d) t a c u = mk d u a c t"
  by (cases d) (simp_all add: mk_def)

fun addrs :: "rtree \<Rightarrow> u32 list" where
  "addrs Leaf = []"
| "addrs (Node l (a, c) r) = addrs l @ a # addrs r"

fun rep :: "rb_tree \<Rightarrow> u32 \<Rightarrow> u32 \<Rightarrow> rtree \<Rightarrow> bool" where
  "rep s p q Leaf \<longleftrightarrow> p = 0"
| "rep s p q (Node l (a, c) r) \<longleftrightarrow> p = a \<and> par s a = q \<and> col s a = c \<and> rep s (ch s L a) a l \<and> rep s (ch s R a) a r"

lemma rep_mk [simp]: "rep s p q (mk d t a c u) \<longleftrightarrow>
    p = a \<and> par s a = q \<and> col s a = c \<and> rep s (ch s d a) a t \<and> rep s (ch s (opp d) a) a u"
  by (cases d) (auto simp: mk_def)

lemma addrs_mk: "addrs (mk d t a c u) = (if d = L then addrs t @ a # addrs u else addrs u @ a # addrs t)"
  by (cases d) (auto simp: mk_def)

lemma set_addrs_mk [simp]: "set (addrs (mk d t a c u)) = insert a (set (addrs t) \<union> set (addrs u))"
  by (auto simp: addrs_mk)

lemma mk_cases: obtains "t = Leaf" | x a c y where "t = mk d x a c y"
proof (cases t)
  case (Node l v r)
  show thesis
  proof (cases d)
    case L
    show thesis by (rule that(2) [of l "fst v" "snd v" r]) (simp add: Node L mk_def)
  next
    case R
    show thesis by (rule that(2) [of r "fst v" "snd v" l]) (simp add: Node R mk_def)
  qed
qed (use that(1) in blast)

type_synonym frame = "dir \<times> u32 \<times> color \<times> rtree"

fun around :: "rb_tree \<Rightarrow> u32 \<Rightarrow> u32 \<Rightarrow> frame list \<Rightarrow> bool" where
  "around s p q [] \<longleftrightarrow> q = 0 \<and> rb_root s = p"
| "around s p q ((d, a, c, t) # K) \<longleftrightarrow> q = a \<and> ch s d a = p \<and> col s a = c \<and>
     rep s (ch s (opp d) a) a t \<and> around s a (par s a) K"

fun before :: "frame list \<Rightarrow> u32 list" where
  "before [] = []"
| "before ((d, a, c, t) # K) = (if d = L then before K else before K @ addrs t @ [a])"

fun after :: "frame list \<Rightarrow> u32 list" where
  "after [] = []"
| "after ((d, a, c, t) # K) = (if d = L then a # addrs t @ after K else after K)"

definition cset :: "frame list \<Rightarrow> u32 set" where
  "cset K = set (before K) \<union> set (after K)"

lemma cset_simps [simp]: "cset [] = {}" "cset ((d, a, c, t) # K) = insert a (set (addrs t) \<union> cset K)"
  by (auto simp: cset_def)

fun plug :: "rtree \<Rightarrow> frame list \<Rightarrow> rtree" where
  "plug t [] = t"
| "plug t ((d, a, c, u) # K) = plug (mk d t a c u) K"

lemma addrs_plug: "addrs (plug t K) = before K @ addrs t @ after K"
  by (induction t K rule: plug.induct) (simp_all add: addrs_mk)

text \<open>The nodes in their order: distinct, not null and aligned.\<close>

definition seq_ok :: "u32 list \<Rightarrow> bool" where
  "seq_ok xs \<longleftrightarrow> distinct xs \<and> (\<forall>a \<in> set xs. a \<noteq> 0 \<and> aligned a)"

text \<open>The subtree \<open>t\<close> at \<open>p\<close>, whose parent is \<open>q\<close>, in the context \<open>K\<close>.\<close>

definition foc :: "rb_tree \<Rightarrow> u32 \<Rightarrow> u32 \<Rightarrow> rtree \<Rightarrow> frame list \<Rightarrow> bool" where
  "foc s p q t K \<longleftrightarrow> rep s p q t \<and> around s p q K \<and> seq_ok (before K @ addrs t @ after K)"

lemma seq_okD:
  assumes "seq_ok (before K @ addrs t @ after K)"
  shows "a \<in> set (addrs t) \<Longrightarrow> a \<notin> cset K" "a \<in> cset K \<Longrightarrow> a \<notin> set (addrs t)"
    "a \<in> set (addrs t) \<Longrightarrow> a \<noteq> 0 \<and> aligned a" "a \<in> cset K \<Longrightarrow> a \<noteq> 0 \<and> aligned a"
    "distinct (addrs t)"
  using assms by (auto simp: seq_ok_def cset_def)

lemma seq_ok_mk_iff:
  "seq_ok (xs @ addrs (mk d t a c u) @ ys) \<longleftrightarrow> seq_ok (a # addrs t @ addrs u @ xs @ ys)"
  by (cases d) (auto simp: seq_ok_def addrs_mk)

lemma seq_ok_mk:
  assumes "seq_ok (before K @ addrs (mk d t a c u) @ after K)"
  shows "a \<noteq> 0" "aligned a" "a \<notin> set (addrs t)" "a \<notin> set (addrs u)" "a \<notin> cset K"
    "set (addrs t) \<inter> set (addrs u) = {}" "set (addrs t) \<inter> cset K = {}" "set (addrs u) \<inter> cset K = {}"
    "0 \<notin> set (addrs t)" "0 \<notin> set (addrs u)" "0 \<notin> cset K"
    "distinct (addrs t)" "distinct (addrs u)" "distinct (before K @ after K)"
proof -
  define ys where "ys = before K @ after K"
  have k: "cset K = set ys" by (simp add: ys_def cset_def)
  from assms have D: "distinct (a # addrs t @ addrs u @ ys)" and Z: "\<forall>b \<in> set (a # addrs t @ addrs u @ ys). b \<noteq> 0 \<and> aligned b"
    unfolding seq_ok_mk_iff by (auto simp: seq_ok_def ys_def)
  show "a \<noteq> 0" "aligned a" using Z by simp_all
  show "a \<notin> set (addrs t)" "a \<notin> set (addrs u)" "a \<notin> cset K" using D unfolding k by simp_all
  show "set (addrs t) \<inter> set (addrs u) = {}" "set (addrs t) \<inter> cset K = {}" "set (addrs u) \<inter> cset K = {}"
    using D unfolding k by (simp_all add: Int_Un_distrib)
  show "0 \<notin> set (addrs t)" "0 \<notin> set (addrs u)" "0 \<notin> cset K" using Z unfolding k by auto
  show "distinct (addrs t)" "distinct (addrs u)" "distinct (before K @ after K)" using D unfolding ys_def by simp_all
qed

text \<open>Moving the focus to a child and back.\<close>

lemma foc_down: "foc s p q (mk d t a c u) K \<longleftrightarrow>
    p = a \<and> q = par s a \<and> foc s (ch s d a) a t ((d, a, c, u) # K)"
  by (cases d) (auto simp: foc_def mk_def)

lemma foc_aligned: "foc s p q t K \<Longrightarrow> aligned q"
  by (cases K) (auto simp: foc_def seq_ok_def cset_def aligned_def split: if_splits prod.splits)

lemma rep_root: "rep s p q t \<Longrightarrow> p = 0 \<or> p \<in> set (addrs t)"
  by (cases t) auto

lemma rep_null: "rep s p q t \<Longrightarrow> p \<noteq> 0 \<longleftrightarrow> t \<noteq> Leaf" if "0 \<notin> set (addrs t)"
  using that by (cases t) auto

text \<open>What a state change must leave alone for a subtree, or the context, to stand.\<close>

lemma rep_same:
  assumes "rep s p q t" "\<And>a d. a \<in> set (addrs t) \<Longrightarrow> ch s' d a = ch s d a"
    "\<And>a. a \<in> set (addrs t) \<Longrightarrow> col s' a = col s a" "\<And>a. a \<in> set (addrs t) \<Longrightarrow> par s' a = par s a"
  shows "rep s' p q t"
  using assms by (induction t arbitrary: p q) auto

text \<open>The subtree may be given a new parent.\<close>

lemma rep_frame:
  assumes "rep s p q t"
    and "\<And>a d. a \<in> set (addrs t) \<Longrightarrow> ch s' d a = ch s d a" "\<And>a. a \<in> set (addrs t) \<Longrightarrow> col s' a = col s a"
    and "\<And>a. a \<in> set (addrs t) \<Longrightarrow> a \<noteq> p \<Longrightarrow> par s' a = par s a"
    and "p \<in> set (addrs t) \<Longrightarrow> par s' p = q'" and "distinct (addrs t)"
  shows "rep s' p q' t"
proof (cases t)
  case (Node l v r)
  obtain a c where v: "v = (a, c)" by (cases v)
  have p: "p = a" "rep s (ch s L a) a l" "rep s (ch s R a) a r" using assms(1) Node v by simp_all
  have "rep s' (ch s L a) a l" by (rule rep_same [OF p(2)]) (use assms(2-6) Node v p(1) in auto)
  moreover have "rep s' (ch s R a) a r" by (rule rep_same [OF p(3)]) (use assms(2-6) Node v p(1) in auto)
  ultimately show ?thesis using assms Node v p by simp
qed (use assms in simp)

lemma around_frame:
  assumes "around s p q K"
    and "\<And>a d. a \<in> cset K \<Longrightarrow> ch s' d a = ch s d a" "\<And>a. a \<in> cset K \<Longrightarrow> col s' a = col s a"
    and "\<And>a. a \<in> cset K \<Longrightarrow> par s' a = par s a" and "rb_root s' = rb_root s"
    and "distinct (before K @ after K)"
  shows "around s' p q K"
  using assms
proof (induction K arbitrary: p q)
  case (Cons f K)
  obtain d a c t where f: "f = (d, a, c, t)" by (cases f)
  have "rep s' (ch s (opp d) a) a t"
    by (rule rep_same [of s]) (use Cons.prems(1-4) f in auto)
  moreover have "distinct (before K @ after K)" using Cons.prems(6) f by (auto split: if_splits)
  then have "around s' a (par s a) K" using Cons f by auto
  ultimately show ?case using Cons.prems f by auto
qed simp


section \<open>The pointer to a subtree\<close>

definition relink :: "frame list \<Rightarrow> u32 \<Rightarrow> rb_tree \<Rightarrow> rb_tree" where
  "relink K x s = (case K of [] \<Rightarrow> s\<lparr>rb_root := x\<rparr> | (d, a, c, t) # _ \<Rightarrow> put_ch d a x s)"

lemma relink_fields [simp]: "par (relink K x s) a = par s a" "col (relink K x s) a = col s a"
  by (simp_all add: relink_def split: list.split prod.split)

lemma relink_ch [simp]: "a \<notin> cset K \<Longrightarrow> ch (relink K x s) d a = ch s d a"
  by (auto simp: relink_def split: list.split prod.split)

text \<open>\<open>p\<close> is the child of \<open>q\<close> that the context says it is.\<close>

definition linked :: "rb_tree \<Rightarrow> u32 \<Rightarrow> u32 \<Rightarrow> frame list \<Rightarrow> bool" where
  "linked s p q K \<longleftrightarrow> (case K of [] \<Rightarrow> q = 0
     | (d, a, c, t) # _ \<Rightarrow> q = a \<and> a \<noteq> 0 \<and> ch s d a = p \<and> ch s (opp d) a \<noteq> p)"

lemma foc_linked:
  assumes "foc s p q t K" and "t \<noteq> Leaf"
  shows "linked s p q K"
proof (cases K)
  case Nil
  then show ?thesis using assms by (simp add: foc_def linked_def)
next
  case (Cons f K')
  obtain d a c u where f: "f = (d, a, c, u)" by (cases f)
  have p: "p \<in> set (addrs t)" using assms by (cases t) (auto simp: foc_def)
  have "rep s (ch s (opp d) a) a u" using assms(1) Cons f by (simp add: foc_def)
  then have "ch s (opp d) a = 0 \<or> ch s (opp d) a \<in> cset K" using rep_root Cons f by fastforce
  moreover have "seq_ok (before K @ addrs t @ after K)" using assms(1) by (simp add: foc_def)
  ultimately have "ch s (opp d) a \<noteq> p" using p by (auto dest: seq_okD)
  moreover have "a \<noteq> 0" using seq_okD(4) [OF \<open>seq_ok (before K @ addrs t @ after K)\<close>, of a] Cons f by simp
  ultimately show ?thesis using assms(1) Cons f by (simp add: foc_def linked_def)
qed

lemma relink_eq:
  assumes "linked s p q K"
  shows "(if q \<noteq> 0 then do {
            pc \<leftarrow> child_of d q s;
            if p = pc then set_child d q y s else set_child (opp d) q y s
          } else set_root y s) = Some (relink K y s)"
proof (cases K)
  case (Cons f K')
  obtain e a c u where f: "f = (e, a, c, u)" by (cases f)
  with assms Cons have a: "q = a" "a \<noteq> 0" "ch s e a = p" "ch s (opp e) a \<noteq> p" by (simp_all add: linked_def)
  show ?thesis
  proof (cases "e = d")
    case True
    with a Cons f show ?thesis by (simp add: accessors relink_def)
  next
    case False
    then have "d = opp e" by (cases d; cases e) simp_all
    with a Cons f show ?thesis by (auto simp: accessors relink_def)
  qed
qed (use assms in \<open>simp add: linked_def set_root_def relink_def\<close>)

lemma replace_child_relink:
  assumes "linked s p q K"
  shows "replace_child q p y s = Some (relink K y s)"
proof -
  have "replace_child q p y s = (if q \<noteq> 0 then do {
            pc \<leftarrow> child_of L q s;
            if p = pc then set_child L q y s else set_child (opp L) q y s
          } else set_root y s)"
    by (simp add: replace_child_def child_of_def set_child_def eq_commute [where a = p] cong: if_cong)
  also have "\<dots> = Some (relink K y s)" by (rule relink_eq [OF assms])
  finally show ?thesis .
qed

text \<open>After relinking, a new subtree stands in the place of the old one.\<close>

lemma around_relink:
  assumes "around s p q K" and "distinct (before K @ after K)"
    and "\<And>a d. a \<in> cset K \<Longrightarrow> ch s' d a = ch (relink K y s) d a"
    and "\<And>a. a \<in> cset K \<Longrightarrow> col s' a = col s a" "\<And>a. a \<in> cset K \<Longrightarrow> par s' a = par s a"
    and "rb_root s' = rb_root (relink K y s)"
  shows "around s' y q K"
proof (cases K)
  case Nil
  with assms show ?thesis by (simp add: relink_def)
next
  case (Cons f K')
  obtain d a c t where f: "f = (d, a, c, t)" by (cases f)
  have c: "ch s' e b = (if b = a \<and> e = d then y else ch s e b)" if "b \<in> cset K" for b e
    using assms(3) [OF that, of e] Cons f by (simp add: relink_def)
  have dis: "distinct (before K' @ after K')" "a \<notin> set (addrs t)" "a \<notin> cset K'" "distinct (addrs t)"
    using assms(2) Cons f by (auto simp: cset_def split: if_splits)
  have ct: "ch s' e b = ch s e b" if "b \<in> set (addrs t) \<or> b \<in> cset K'" for b e
  proof -
    have "b \<in> cset K" "b \<noteq> a" using that dis Cons f by auto
    then show ?thesis by (simp add: c)
  qed
  have in_K: "a \<in> cset K" "b \<in> set (addrs t) \<Longrightarrow> b \<in> cset K" "b \<in> cset K' \<Longrightarrow> b \<in> cset K" for b
    using Cons f by auto
  have A: "q = a" "col s a = c" "rep s (ch s (opp d) a) a t" "around s a (par s a) K'"
    using assms(1) Cons f by simp_all
  have root: "rb_root s' = rb_root s" using assms(6) Cons f by (simp add: relink_def)
  have "rep s' (ch s (opp d) a) a t"
    by (rule rep_same [OF A(3)]) (use assms(4,5) in_K ct in blast)+
  moreover have "around s' a (par s a) K'"
    by (rule around_frame [OF A(4)]) (use assms(4,5) in_K ct root dis in blast)+
  ultimately show ?thesis using A c [OF in_K(1)] assms(4,5) in_K(1) unfolding Cons f by simp
qed

section \<open>Changes to the subtree in focus\<close>

lemma foc_put_col:
  assumes "foc s p q (mk d t p c u) K"
  shows "foc (put_col p c' s) p q (mk d t p c' u) K"
proof -
  have S: "seq_ok (before K @ addrs (mk d t p c u) @ after K)" using assms by (simp add: foc_def)
  note D = seq_ok_mk [OF S]
  have dis: "distinct (before K @ after K)" "distinct (addrs t)" "distinct (addrs u)"
    using S by (auto simp: seq_ok_def addrs_mk split: if_splits)
  have R: "rep s (ch s d p) p t" "rep s (ch s (opp d) p) p u" "around s p q K" using assms by (simp_all add: foc_def)
  have "rep (put_col p c' s) (ch s d p) p t" by (rule rep_same [OF R(1)]) (use D in auto)
  moreover have "rep (put_col p c' s) (ch s (opp d) p) p u" by (rule rep_same [OF R(2)]) (use D in auto)
  moreover have "around (put_col p c' s) p q K" by (rule around_frame [OF R(3)]) (use D dis in auto)
  ultimately show ?thesis using assms S by (simp add: foc_def addrs_mk)
qed

lemma foc_rotate:
  assumes F: "foc s x q (mk d A x cx (mk d B y cy C)) K"
  shows "wp (rotate_to d x s) (\<lambda>s'. foc s' y q (mk d (mk d A x cx B) y cy C) K)"
proof -
  have S: "seq_ok (before K @ addrs (mk d A x cx (mk d B y cy C)) @ after K)" using F by (simp add: foc_def)
  have al: "aligned q" by (rule foc_aligned [OF F])
  have R: "ch s (opp d) x = y" "par s x = q" "col s x = cx" "rep s (ch s d x) x A" "par s y = x" "col s y = cy"
    "rep s (ch s d y) y B" "rep s (ch s (opp d) y) y C" "around s x q K"
    using F by (auto simp: foc_def)
  have "foc s y x (mk d B y cy C) ((opp d, x, cx, A) # K)"
    using F foc_down [of s x q "opp d" "mk d B y cy C" x cx A K] R(1) by (simp add: mk_opp)
  then have S2: "seq_ok (before ((opp d, x, cx, A) # K) @ addrs (mk d B y cy C) @ after ((opp d, x, cx, A) # K))"
    by (simp add: foc_def)
  note N1 = seq_ok_mk [OF S] and N2 = seq_ok_mk [OF S2]
  have N: "x \<noteq> 0" "y \<noteq> 0" "aligned x" "aligned y" "x \<noteq> y" "x \<notin> cset K" "y \<notin> cset K"
    using N1 N2 by simp_all
  have X: "distinct (before K @ after K)" "distinct (addrs A)" "distinct (addrs B)" "distinct (addrs C)"
    by (rule N1(14) N1(12) N2(12) N2(13))+
  have A: "a \<notin> cset K \<and> a \<notin> set (addrs B) \<and> a \<noteq> x \<and> a \<noteq> y" if "a \<in> set (addrs A)" for a
    using that N1(3,6,7) by auto
  have B: "a \<notin> cset K \<and> a \<noteq> 0 \<and> a \<noteq> x \<and> a \<noteq> y" if "a \<in> set (addrs B)" for a
    using that N1(4,8,10) N2(3) by auto
  have C: "a \<notin> cset K \<and> a \<notin> set (addrs B) \<and> a \<noteq> x \<and> a \<noteq> y" if "a \<in> set (addrs C)" for a
    using that N1(4,8,10) N2(4,6) by auto
  have K: "a \<notin> set (addrs B) \<and> a \<noteq> 0 \<and> a \<noteq> x \<and> a \<noteq> y" if "a \<in> cset K" for a
    using that N1(8,11) N(6,7) by auto
  define m where "m = ch s d y"
  have m: "m = 0 \<or> m \<in> set (addrs B)" using rep_root [OF R(7)] by (simp add: m_def)
  define s1 where "s1 = put_ch (opp d) x m s"
  define s2 where "s2 = (if m \<noteq> 0 then put_par m x s1 else s1)"
  define s4 where "s4 = put_par y q (put_ch d y x s2)"
  define s5 where "s5 = put_par x y (relink K y s4)"
  have link: "linked s4 x q K"
  proof -
    have "linked s x q K" by (rule foc_linked [OF F]) (cases d; simp add: mk_def)
    moreover have "ch s4 e a = ch s e a" if "a \<in> cset K" for a e
      using that N by (auto simp: s4_def s2_def s1_def)
    ultimately show ?thesis by (auto simp: linked_def split: list.splits)
  qed
  have sp: "rb_set_parent x y = (\<lambda>s. Some (put_par x y s))" by (rule ext) (simp add: accessors [OF N(1)])
  have "rotate_to d x s = Option.bind
      (if q \<noteq> 0 then do {
         pc \<leftarrow> child_of d q s4;
         if x = pc then set_child d q y s4 else set_child (opp d) q y s4
       } else set_root y s4) (rb_set_parent x y)"
    by (cases "m = 0") (simp_all add: rotate_to_def accessors [OF N(1)] accessors [OF N(2)] accessors(6) R(1,2)
        m_def [symmetric] s1_def s2_def s4_def sp cong: if_cong)
  then have run: "rotate_to d x s = Some s5"
    unfolding relink_eq [OF link] by (simp add: accessors [OF N(1)] s5_def)
  have C5: "ch s5 e a = (if a = x \<and> e = opp d then m else if a = y \<and> e = d then x else ch s e a)"
    if "a \<notin> cset K" for a e
    using that N by (auto simp: s5_def s4_def s2_def s1_def)
  have P5: "par s5 a = (if a = x then y else if a = y then q else if m \<noteq> 0 \<and> a = m then x else par s a)" for a
    using N al by (simp add: s5_def s4_def s2_def s1_def)
  have L5: "col s5 a = col s a" for a using N al by (simp add: s5_def s4_def s2_def s1_def)
  have CK: "ch s5 e a = ch (relink K y s) e a" if "a \<in> cset K" for a e
    using K [OF that] by (auto simp: s5_def s4_def s2_def s1_def relink_def split: list.split prod.split)
  have root: "rb_root s5 = rb_root (relink K y s)"
    by (auto simp: s5_def s4_def s2_def s1_def relink_def split: list.split prod.split)
  have "rep s5 (ch s d x) x A"
    by (rule rep_same [OF R(4)]) (use A m in \<open>auto simp: C5 P5 L5\<close>)
  moreover have "rep s5 m x B"
    by (rule rep_frame [OF R(7) [folded m_def]]) (use B X(3) m in \<open>auto simp: C5 P5 L5\<close>)
  moreover have "rep s5 (ch s (opp d) y) y C"
    by (rule rep_same [OF R(8)]) (use C m in \<open>auto simp: C5 P5 L5\<close>)
  moreover have "around s5 y q K"
    by (rule around_relink [OF R(9) X(1), where y = y]) (use K m CK root in \<open>auto simp: P5 L5\<close>)
  moreover have "seq_ok (before K @ addrs (mk d (mk d A x cx B) y cy C) @ after K)"
    using S by (simp add: addrs_mk split: if_splits)
  ultimately have "foc s5 y q (mk d (mk d A x cx B) y cy C) K"
    using N R by (simp add: foc_def C5 P5 L5)
  with run show ?thesis by simp
qed

end
