(* ===== verification/Nd_Rbtree_Insert.thy ===== *)
theory Nd_Rbtree_Insert
  imports Nd_Rbtree_Rep
begin

text \<open>
  Insertion into the red-black tree: the descent and \<open>rb_insert_color\<close> end, put the node where the
  order of the keys wants it, and keep the tree balanced.
\<close>

section \<open>Balance\<close>

fun color_of :: "rtree \<Rightarrow> color" where
  "color_of Leaf = Black"
| "color_of (Node l (a, c) r) = c"

fun invc :: "rtree \<Rightarrow> bool" where
  "invc Leaf = True"
| "invc (Node l (a, c) r) = (invc l \<and> invc r \<and> (c = Red \<longrightarrow> color_of l = Black \<and> color_of r = Black))"

fun bh :: "rtree \<Rightarrow> nat" where
  "bh Leaf = 0"
| "bh (Node l (a, c) r) = bh l + (if c = Black then 1 else 0)"

fun invh :: "rtree \<Rightarrow> bool" where
  "invh Leaf = True"
| "invh (Node l (a, c) r) = (invh l \<and> invh r \<and> bh l = bh r)"

lemma color_of_mk [simp]: "color_of (mk d t a c u) = c"
  by (cases d) (simp_all add: mk_def)

lemma invc_mk [simp]: "invc (mk d t a c u) \<longleftrightarrow>
    invc t \<and> invc u \<and> (c = Red \<longrightarrow> color_of t = Black \<and> color_of u = Black)"
  by (cases d) (auto simp: mk_def)

lemma invh_mk [simp]: "invh (mk d t a c u) \<longleftrightarrow> invh t \<and> invh u \<and> bh t = bh u"
  by (cases d) (auto simp: mk_def)

lemma bh_mk [simp]: "bh t = bh u \<Longrightarrow> bh (mk d t a c u) = bh t + (if c = Black then 1 else 0)"
  by (cases d) (auto simp: mk_def)

text \<open>A red-black tree: the two conditions, and a black root.\<close>

definition rbt :: "rtree \<Rightarrow> bool" where
  "rbt t \<longleftrightarrow> invc t \<and> invh t \<and> color_of t = Black"

definition tree_at :: "rb_tree \<Rightarrow> rtree \<Rightarrow> bool" where
  "tree_at s t \<longleftrightarrow> foc s (rb_root s) 0 t []"

text \<open>The conditions on the context of a subtree of black height \<open>n\<close>.\<close>

fun cinv :: "nat \<Rightarrow> frame list \<Rightarrow> bool" where
  "cinv n [] = True"
| "cinv n ((d, a, c, u) # K) = (invc u \<and> invh u \<and> bh u = n \<and>
     (c = Red \<longrightarrow> color_of u = Black \<and> (\<exists>d' a' u' K'. K = (d', a', Black, u') # K')) \<and>
     cinv (if c = Black then Suc n else n) K)"

definition red_frame :: "frame list \<Rightarrow> bool" where
  "red_frame K \<longleftrightarrow> (\<exists>d a u K'. K = (d, a, Red, u) # K')"

lemma plug_inv:
  assumes "cinv (bh t) K" and "invc t" "invh t" and "red_frame K \<Longrightarrow> color_of t = Black"
  shows "invc (plug t K) \<and> invh (plug t K)"
  using assms
proof (induction t K rule: plug.induct)
  case (2 t d a c u K)
  show ?case unfolding plug.simps
  proof (rule 2(1))
    show "cinv (bh (mk d t a c u)) K" "invh (mk d t a c u)" using 2(2,4) by (auto split: if_splits)
    show "invc (mk d t a c u)" using 2(2-5) by (auto simp: red_frame_def)
    show "color_of (mk d t a c u) = Black" if "red_frame K" using that 2(2) by (cases c) (auto simp: red_frame_def)
  qed
qed simp

lemma plug_black:
  assumes "cinv n K" and "K \<noteq> []"
  shows "color_of (plug t K) = Black"
  using assms
proof (induction t K arbitrary: n rule: plug.induct)
  case (2 t d a c u K)
  then show ?case by (cases K; cases c) auto
qed simp

lemma foc_plug: "foc s p q t K \<Longrightarrow> tree_at s (plug t K)"
proof (induction t K arbitrary: p q rule: plug.induct)
  case (1 t)
  then show ?case by (auto simp: tree_at_def foc_def)
next
  case (2 t d a c u K)
  have "foc s a (par s a) (mk d t a c u) K"
    using 2(2) by (cases d) (auto simp: foc_def mk_def)
  with 2(1) show ?case by simp
qed

section \<open>One round of the repair\<close>

lemma foc_up: "foc s p q t ((d, a, c, u) # K) \<Longrightarrow> foc s a (par s a) (mk d t a c u) K"
  by (cases d) (auto simp: foc_def mk_def)

lemma foc_down': "foc s a q (mk d t a c u) K \<Longrightarrow> foc s (ch s d a) a t ((d, a, c, u) # K)"
  by (simp add: foc_down)

lemma foc_par: "foc s a q (mk d t a c u) K \<Longrightarrow> par s a = q"
  by (simp add: foc_def)

lemma foc_ch: "foc s a q (mk d (mk e x p c' y) a c u) K \<Longrightarrow> ch s d a = p"
  by (simp add: foc_def)

text \<open>Recolouring a child of the node in focus.\<close>

lemma foc_put_col_child:
  assumes "foc s g q (mk d (mk e x p c y) g cg u) K"
  shows "foc (put_col p c' s) g q (mk d (mk e x p c' y) g cg u) K"
proof -
  have "foc s p g (mk e x p c y) ((d, g, cg, u) # K)"
    using foc_down' [OF assms] foc_ch [OF assms] by simp
  from foc_up [OF foc_put_col [OF this, of c']] foc_par [OF assms] show ?thesis by simp
qed

lemma foc_nonzero:
  assumes "foc s p q t K"
  shows "a \<in> set (addrs t) \<Longrightarrow> a \<noteq> 0" "a \<in> cset K \<Longrightarrow> a \<noteq> 0"
  using assms seq_okD unfolding foc_def by blast+

lemma red_or_null_rep:
  assumes "rep s p q t" and "0 \<notin> set (addrs t)"
  shows "red_or_null p s = Some (color_of t = Red)"
  using assms by (cases t) (auto simp: red_or_null_def accessors)

text \<open>A red node over a red child on the same side, below a black grandparent: the grandparent is
  rotated down.\<close>

lemma fix_rotate:
  assumes F: "foc s g q (mk d (mk d (mk e y x Red z) m Red w) g Black u) K"
  shows "wp (do { s \<leftarrow> rb_set_black m s; s \<leftarrow> rb_set_red g s; rotate_to (opp d) g s })
     (\<lambda>s'. foc s' m q (mk d (mk e y x Red z) m Black (mk d w g Red u)) K \<and>
       rb_parent x s' = Some m \<and> red_or_null m s' = Some False)"
proof -
  have nz: "x \<noteq> 0" "m \<noteq> 0" "g \<noteq> 0" using foc_nonzero(1) [OF F] by auto
  let ?s = "put_col g Red (put_col m Black s)"
  have "foc ?s g q (mk d (mk d (mk e y x Red z) m Black w) g Red u) K"
    by (rule foc_put_col [OF foc_put_col_child [OF F]])
  then have "foc ?s g q (mk (opp d) u g Red (mk (opp d) w m Black (mk e y x Red z))) K"
    by (simp add: mk_opp)
  then have "wp (rotate_to (opp d) g ?s)
      (\<lambda>s'. foc s' m q (mk (opp d) (mk (opp d) u g Red w) m Black (mk e y x Red z)) K)"
    by (rule foc_rotate)
  then have "wp (rotate_to (opp d) g ?s) (\<lambda>s'. foc s' m q (mk d (mk e y x Red z) m Black (mk d w g Red u)) K)"
    by (simp add: mk_opp)
  then show ?thesis
    by (simp add: accessors nz) (erule wp_mono, simp add: accessors nz foc_def red_or_null_def)
qed


text \<open>The direction of the loop body: the parent is the child of the grandparent that the context says.\<close>

lemma insert_step_dir:
  assumes F: "foc s p g (mk e t p c u) ((d, g, cg, v) # K)"
  shows "insert_step n p s = insert_fix d n p g s"
proof -
  have nz: "p \<noteq> 0" "g \<noteq> 0" using foc_nonzero [OF F] by auto
  have "mk e t p c u \<noteq> Leaf" by (cases e) (simp_all add: mk_def)
  then have "ch s d g = p" "ch s (opp d) g \<noteq> p" using foc_linked [OF F] by (simp_all add: linked_def)
  moreover have "par s p = g" using foc_par [OF F] .
  ultimately show ?thesis
    using nz by (cases d) (simp_all add: insert_step_def accessors insert_fixes)
qed

lemma insert_fix_red:
  assumes F: "foc s p g (mk e t p Red u) ((d, g, Black, v) # K)" and v: "color_of v = Red"
  shows "wp (insert_fix d n p g s) (\<lambda>(n', s'). n' = g \<and> (\<exists>q v'. foc s' g q (mk d (mk e t p Black u) g Red v') K \<and>
           addrs v' = addrs v \<and> bh v' = Suc (bh v) \<and> color_of v' = Black \<and> (invc v \<longrightarrow> invc v') \<and> (invh v \<longrightarrow> invh v')))"
proof -
  obtain a k b where V: "v = mk L a k Red b"
    using v by (cases v) (auto simp: mk_def)
  let ?t = "mk e t p Red u" and ?s1 = "put_col k Black s"
  have G: "foc s g (par s g) (mk d ?t g Black v) K" by (rule foc_up [OF F])
  have nz: "g \<noteq> 0" "p \<noteq> 0" "k \<noteq> 0" using foc_nonzero(1) [OF G] V by auto
  have uncle: "ch s (opp d) g = k" "col s k = Red" using G V by (simp_all add: foc_def)
  have "foc s g (par s g) (mk (opp d) (mk L a k Red b) g Black ?t) K" using G V by (simp add: mk_opp)
  from foc_put_col_child [OF this, of Black]
  have "foc ?s1 g (par s g) (mk d ?t g Black (mk L a k Black b)) K" by (simp add: mk_opp)
  from foc_put_col [OF foc_put_col_child [OF this, of Black], of Red]
  have R: "foc (put_col g Red (put_col p Black ?s1)) g (par s g) (mk d (mk e t p Black u) g Red (mk L a k Black b)) K" .
  have run: "insert_fix d n p g s = Some (g, put_col g Red (put_col p Black ?s1))"
    using nz uncle by (simp add: insert_fix_def accessors red_or_null_def)
  have "\<exists>q v'. foc (put_col g Red (put_col p Black ?s1)) g q (mk d (mk e t p Black u) g Red v') K \<and>
           addrs v' = addrs v \<and> bh v' = Suc (bh v) \<and> color_of v' = Black \<and> (invc v \<longrightarrow> invc v') \<and> (invh v \<longrightarrow> invh v')"
    by (rule exI [of _ "par s g"], rule exI [of _ "mk L a k Black b"]) (use R V in \<open>simp add: addrs_mk mk_def\<close>)
  then show ?thesis unfolding run wp_Some prod.case by blast
qed

text \<open>With a black uncle the repair ends: the subtree is balanced, and its root black.\<close>

lemma insert_fix_black:
  assumes F: "foc s n p (mk f a n Red b) ((e, p, Red, u) # (d, g, Black, v) # K)"
    and v: "color_of v = Black"
    and C: "invc (mk f a n Red b)" "invc u" "color_of u = Black" "invc v"
    and H: "invh (mk f a n Red b)" "invh u" "invh v" "bh u = bh (mk f a n Red b)" "bh v = bh u"
  shows "wp (insert_fix d n p g s) (\<lambda>(n', s'). n' \<noteq> 0 \<and> (\<exists>m. rb_parent n' s' = Some m \<and> red_or_null m s' = Some False) \<and>
           (\<exists>q m T. foc s' m q T K \<and> addrs T = addrs (mk d (mk e (mk f a n Red b) p Red u) g Black v) \<and>
             invc T \<and> invh T \<and> bh T = Suc (bh v) \<and> color_of T = Black))"
proof -
  let ?t = "mk f a n Red b"
  have P: "foc s p g (mk e ?t p Red u) ((d, g, Black, v) # K)"
    using foc_up [OF F] F by (simp add: foc_def)
  have G: "foc s g (par s g) (mk d (mk e ?t p Red u) g Black v) K" by (rule foc_up [OF P])
  have nz: "g \<noteq> 0" "p \<noteq> 0" "n \<noteq> 0" using foc_nonzero(1) [OF G] by auto
  have sides: "ch s e p = n" "ch s (opp e) p \<noteq> n"
    using foc_linked [OF F] by (cases f; simp add: linked_def mk_def)+
  have "0 \<notin> set (addrs v)" using foc_nonzero(1) [OF G] by auto
  with G v have uncle: "red_or_null (ch s (opp d) g) s = Some False"
    using red_or_null_rep [of s "ch s (opp d) g" g v] by (simp add: foc_def)
  have fin: "wp (do { s \<leftarrow> rb_set_black m s1; s \<leftarrow> rb_set_red g s; s \<leftarrow> rotate_to (opp d) g s; Some (x, s) })
      (\<lambda>(n', s'). n' \<noteq> 0 \<and> (\<exists>m. rb_parent n' s' = Some m \<and> red_or_null m s' = Some False) \<and>
           (\<exists>q m T. foc s' m q T K \<and> addrs T = addrs (mk d (mk e ?t p Red u) g Black v) \<and>
             invc T \<and> invh T \<and> bh T = Suc (bh v) \<and> color_of T = Black))"
    if F1: "foc s1 g q (mk d (mk d (mk h y x Red z) m Red w) g Black v) K"
      and A: "addrs (mk d (mk h y x Red z) m Red w) = addrs (mk e ?t p Red u)"
      and I: "invc (mk h y x Red z)" "invc w" "color_of w = Black" "invh (mk h y x Red z)" "invh w"
        "bh w = bh v" "bh (mk h y x Red z) = bh v" for s1 q h y x z m w
  proof -
    have "x \<noteq> 0" using foc_nonzero(1) [OF F1] by simp
    let ?T = "mk d (mk h y x Red z) m Black (mk d w g Red v)"
    have T: "addrs ?T = addrs (mk d (mk e ?t p Red u) g Black v)" "invc ?T" "invh ?T" "bh ?T = Suc (bh v)"
      "color_of ?T = Black"
      using I C H v by (cases d; simp add: A [symmetric] addrs_mk [of L] addrs_mk [of R])+
    have "wp (do { s \<leftarrow> rb_set_black m s1; s \<leftarrow> rb_set_red g s; rotate_to (opp d) g s })
      (\<lambda>s'. (\<exists>m. rb_parent x s' = Some m \<and> red_or_null m s' = Some False) \<and>
         (\<exists>q m T. foc s' m q T K \<and> addrs T = addrs (mk d (mk e ?t p Red u) g Black v) \<and>
             invc T \<and> invh T \<and> bh T = Suc (bh v) \<and> color_of T = Black))"
      by (rule wp_mono [OF fix_rotate [OF F1]]) (use T in blast)
    then show ?thesis using \<open>x \<noteq> 0\<close> by simp
  qed
  show ?thesis
  proof (cases "e = d")
    case True
    have "wp (do { s \<leftarrow> rb_set_black p s; s \<leftarrow> rb_set_red g s; s \<leftarrow> rotate_to (opp d) g s; Some (n, s) })
      (\<lambda>(n', s'). n' \<noteq> 0 \<and> (\<exists>m. rb_parent n' s' = Some m \<and> red_or_null m s' = Some False) \<and>
           (\<exists>q m T. foc s' m q T K \<and> addrs T = addrs (mk d (mk e ?t p Red u) g Black v) \<and>
             invc T \<and> invh T \<and> bh T = Suc (bh v) \<and> color_of T = Black))"
      by (rule fin [OF G [unfolded True]]) (use C H True in simp_all)
    then show ?thesis using True sides nz uncle by (simp add: insert_fix_def accessors)
  next
    case False
    then have e: "e = opp d" by (cases d; cases e) simp_all
    define y where "y = (if f = d then a else b)"
    define z where "z = (if f = d then b else a)"
    have "f = d \<or> f = opp d" by (cases d; cases f) simp_all
    then have t: "mk f a n Red b = mk d y n Red z" by (auto simp: y_def z_def mk_opp)
    have "foc s p g (mk d u p Red (mk d y n Red z)) ((d, g, Black, v) # K)"
      using P unfolding e mk_opp t .
    then have rot: "wp (rotate_to d p s) (\<lambda>s1. foc s1 n g (mk d (mk d u p Red y) n Red z) ((d, g, Black, v) # K))"
      by (rule foc_rotate)
    have A: "addrs (mk d (mk d u p Red y) n Red z) = addrs (mk e ?t p Red u)"
      unfolding e mk_opp t by (cases d; simp add: addrs_mk [of L] addrs_mk [of R])
    have "wp (rotate_to d p s) (\<lambda>s1. wp (do { s \<leftarrow> rb_set_black n s1; s \<leftarrow> rb_set_red g s; s \<leftarrow> rotate_to (opp d) g s; Some (p, s) })
      (\<lambda>(n', s'). n' \<noteq> 0 \<and> (\<exists>m. rb_parent n' s' = Some m \<and> red_or_null m s' = Some False) \<and>
           (\<exists>q m T. foc s' m q T K \<and> addrs T = addrs (mk d (mk e ?t p Red u) g Black v) \<and>
             invc T \<and> invh T \<and> bh T = Suc (bh v) \<and> color_of T = Black)))"
      by (rule wp_mono [OF rot], rule fin [OF foc_up _ ], assumption, rule A) (use C H t in simp_all)
    then show ?thesis using e sides nz uncle by (simp add: insert_fix_def accessors)
  qed
qed


section \<open>The loop\<close>

lemma insert_loop_step:
  "insert_loop node s = Option.bind (rb_parent node s) (\<lambda>parent.
     Option.bind (red_or_null parent s) (\<lambda>red.
       if red then Option.bind (insert_step node parent s) (\<lambda>r. insert_loop (fst r) (snd r))
       else Some s))"
  by (rule insert_loop.simps)

lemma insert_loop_stop:
  "rb_parent n s = Some m \<Longrightarrow> red_or_null m s = Some False \<Longrightarrow> insert_loop n s = Some s"
  by (subst insert_loop_step) simp

text \<open>The result: a tree with the same nodes in the same order, balanced but for a red root.\<close>

definition repaired :: "rtree \<Rightarrow> rb_tree \<Rightarrow> bool" where
  "repaired t s \<longleftrightarrow> (\<exists>T. tree_at s T \<and> addrs T = addrs t \<and> invc T \<and> invh T)"

lemma repaired_cong: "addrs t = addrs t' \<Longrightarrow> repaired t = repaired t'"
  by (rule ext) (simp add: repaired_def)

lemma plug_repaired:
  assumes "foc s p q t K" and "cinv (bh t) K" "invc t" "invh t" "red_frame K \<Longrightarrow> color_of t = Black"
    and "addrs (plug t K) = addrs T"
  shows "repaired T s"
  using foc_plug [OF assms(1)] plug_inv [OF assms(2-5)] assms(6) unfolding repaired_def by blast

lemma insert_loop_ok:
  assumes "foc s n q (mk f a n Red b) K" and "invc (mk f a n Red b)" "invh (mk f a n Red b)"
    and "cinv (bh (mk f a n Red b)) K"
  shows "wp (insert_loop n s) (repaired (plug (mk f a n Red b) K))"
  using assms
proof (induction K arbitrary: s n q f a b rule: length_induct)
  case (1 K)
  note F = 1(2)
  let ?t = "mk f a n Red b"
  have nz: "n \<noteq> 0" using foc_nonzero(1) [OF F] by simp
  have q: "par s n = q" by (rule foc_par [OF F])
  show ?case
  proof (cases "red_frame K")
    case False
    have "red_or_null q s = Some False"
    proof (cases K)
      case Nil
      then show ?thesis using F by (simp add: foc_def red_or_null_def)
    next
      case (Cons fr K')
      obtain d p c u where fr: "fr = (d, p, c, u)" by (cases fr)
      then have "c = Black" using False Cons by (cases c) (auto simp: red_frame_def)
      moreover have "p \<noteq> 0" using foc_nonzero(2) [OF F, of p] Cons fr by simp
      ultimately show ?thesis using F Cons fr by (auto simp: foc_def red_or_null_def accessors)
    qed
    then have "insert_loop n s = Some s" using nz q by (intro insert_loop_stop) (simp_all add: accessors)
    moreover have "repaired (plug ?t K) s"
      by (rule plug_repaired [OF F]) (use 1 False in simp_all)
    ultimately show ?thesis by simp
  next
    case True
    then obtain e p u K1 where K1: "K = (e, p, Red, u) # K1" by (auto simp: red_frame_def)
    with 1(5) obtain d g v K2 where K2: "K1 = (d, g, Black, v) # K2" by auto
    have cu: "color_of u = Black" "invc u" "invh u" "bh u = bh ?t" "invc v" "invh v" "bh v = bh u" "cinv (Suc (bh v)) K2"
      using 1(5) K1 K2 by simp_all
    have qp: "q = p" using F K1 by (simp add: foc_def)
    have P: "foc s p g (mk e ?t p Red u) ((d, g, Black, v) # K2)"
    proof -
      have "par s p = g" using F unfolding K1 K2 by (simp add: foc_def)
      with foc_up [OF F [unfolded K1]] show ?thesis unfolding K2 by simp
    qed
    have pz: "p \<noteq> 0" "col s p = Red" using foc_nonzero(1) [OF P] P by (auto simp: foc_def)
    have step: "insert_loop n s = Option.bind (insert_fix d n p g s) (\<lambda>r. insert_loop (fst r) (snd r))"
      by (subst insert_loop_step) (simp add: accessors nz q qp red_or_null_def pz insert_step_dir [OF P])
    have plug: "plug ?t K = plug (mk d (mk e ?t p Red u) g Black v) K2" by (simp add: K1 K2)
    show ?thesis
    proof (cases "color_of v = Red")
      case True
      have "wp (insert_fix d n p g s) (\<lambda>(n', s'). wp (insert_loop n' s') (repaired (plug ?t K)))"
      proof (rule wp_pair_mono [OF insert_fix_red [OF P True]], elim conjE exE)
        fix n' s' q' v'
        assume n': "n' = g" and F': "foc s' g q' (mk d (mk e ?t p Black u) g Red v') K2"
          and v': "addrs v' = addrs v" "bh v' = Suc (bh v)" "color_of v' = Black" "invc v \<longrightarrow> invc v'" "invh v \<longrightarrow> invh v'"
        have "wp (insert_loop g s') (repaired (plug (mk d (mk e ?t p Black u) g Red v') K2))"
          by (rule 1(1) [rule_format, OF _ F']) (use K1 K2 1(3,4) cu v' in simp_all)
        moreover have "addrs (plug (mk d (mk e ?t p Black u) g Red v') K2) = addrs (plug ?t K)"
          unfolding plug by (simp add: addrs_plug addrs_mk v')
        then have "repaired (plug (mk d (mk e ?t p Black u) g Red v') K2) = repaired (plug ?t K)"
          by (rule repaired_cong)
        ultimately show "wp (insert_loop n' s') (repaired (plug ?t K))" by (simp add: n')
      qed
      then show ?thesis unfolding step by (simp add: case_prod_unfold)
    next
      case False
      then have v: "color_of v = Black" by (cases "color_of v") simp_all
      have FB: "foc s n p ?t ((e, p, Red, u) # (d, g, Black, v) # K2)" using F unfolding K1 K2 qp .
      have H: "invc u" "color_of u = Black" "invc v" "invh ?t" "invh u" "invh v" "bh u = bh ?t" "bh v = bh u" "invc ?t"
        using 1(3,4) cu by simp_all
      have "wp (insert_fix d n p g s) (\<lambda>(n', s'). wp (insert_loop n' s') (repaired (plug ?t K)))"
      proof (rule wp_pair_mono [OF insert_fix_black [OF FB v H(9) H(1-8)]], elim conjE exE)
        fix n' s' m q' r T
        assume stop: "rb_parent n' s' = Some m" "red_or_null m s' = Some False"
          and T: "foc s' r q' T K2" "addrs T = addrs (mk d (mk e ?t p Red u) g Black v)" "invc T" "invh T"
            "bh T = Suc (bh v)" "color_of T = Black"
        have "repaired (plug ?t K) s'"
          by (rule plug_repaired [OF T(1)]) (use T cu plug in \<open>simp_all add: addrs_plug\<close>)
        then show "wp (insert_loop n' s') (repaired (plug ?t K))" by (simp add: insert_loop_stop [OF stop])
      qed
      then show ?thesis unfolding step by (simp add: case_prod_unfold)
    qed
  qed
qed

lemma rb_insert_color_ok:
  assumes F: "foc s n q (Node Leaf (n, Red) Leaf) K" and K: "cinv 0 K"
  shows "wp (rb_insert_color n s) (\<lambda>s'. \<exists>T. tree_at s' T \<and> rbt T \<and> addrs T = before K @ n # after K)"
proof -
  let ?t = "mk L Leaf n Red Leaf"
  have t: "?t = Node Leaf (n, Red) Leaf" by (simp add: mk_def)
  have "wp (insert_loop n s) (repaired (plug ?t K))"
    by (rule insert_loop_ok) (use F K t in simp_all)
  then have "wp (insert_loop n s) (\<lambda>s1. wp (rb_set_black (rb_root s1) s1)
      (\<lambda>s'. \<exists>T. tree_at s' T \<and> rbt T \<and> addrs T = before K @ n # after K))"
  proof (rule wp_mono)
    fix s1 assume "repaired (plug ?t K) s1"
    then obtain T where T: "tree_at s1 T" "addrs T = before K @ n # after K" "invc T" "invh T"
      by (auto simp: repaired_def addrs_plug t)
    then have "T \<noteq> Leaf" by auto
    then obtain l a c r where Tr: "T = mk L l a c r" using mk_cases by metis
    with T(1) have F1: "foc s1 a 0 (mk L l a c r) []" "rb_root s1 = a" by (auto simp: tree_at_def foc_def)
    then have az: "a \<noteq> 0" using foc_nonzero(1) [OF F1(1)] by simp
    from foc_put_col [OF F1(1), of Black] have "tree_at (put_col a Black s1) (mk L l a Black r)"
      by (simp add: tree_at_def F1(2))
    moreover have "rbt (mk L l a Black r)" using T(3,4) Tr by (simp add: rbt_def)
    moreover have "addrs (mk L l a Black r) = before K @ n # after K" using T(2) Tr by (simp add: addrs_mk)
    ultimately show "wp (rb_set_black (rb_root s1) s1) (\<lambda>s'. \<exists>T. tree_at s' T \<and> rbt T \<and> addrs T = before K @ n # after K)"
      using az F1(2) by (auto simp: accessors)
  qed
  then show ?thesis by (simp add: rb_insert_color_def)
qed

section \<open>Linking a new node\<close>

text \<open>Every subtree of a red-black tree is in a context that satisfies \<open>cinv\<close>.\<close>

lemma plug_cinv:
  assumes "invc (plug t K)" "invh (plug t K)" "color_of (plug t K) = Black"
  shows "cinv (bh t) K \<and> invc t \<and> invh t \<and> (red_frame K \<longrightarrow> color_of t = Black)"
  using assms
proof (induction t K rule: plug.induct)
  case (1 t)
  then show ?case by (simp add: red_frame_def)
next
  case (2 t d a c u K)
  let ?m = "mk d t a c u"
  have IH: "cinv (bh ?m) K" "invc ?m" "invh ?m" "red_frame K \<Longrightarrow> c = Black" using 2 by auto
  have "\<exists>d' a' u' K'. K = (d', a', Black, u') # K'" if "c = Red"
  proof (cases K)
    case Nil
    with 2(4) that show ?thesis by simp
  next
    case (Cons f K')
    obtain d' a' c' u' where f: "f = (d', a', c', u')" by (cases f)
    have "c' = Black" using IH(4) that Cons f by (cases c') (auto simp: red_frame_def)
    with Cons f show ?thesis by blast
  qed
  with IH(1-3) show ?case by (cases c) (auto simp: red_frame_def)
qed

fun link_for :: "frame list \<Rightarrow> rb_link" where
  "link_for [] = RootLink"
| "link_for ((L, a, c, t) # K) = LeftLink a"
| "link_for ((R, a, c, t) # K) = RightLink a"

lemma read_link_for:
  assumes "foc s p q t K"
  shows "read_link (link_for K) s = Some p"
proof (cases K rule: link_for.cases)
  case 1
  with assms show ?thesis by (simp add: foc_def)
next
  case (2 a c u K')
  with assms foc_nonzero(2) [OF assms, of a] show ?thesis by (simp add: foc_def accessors)
next
  case (3 a c u K')
  with assms foc_nonzero(2) [OF assms, of a] show ?thesis by (simp add: foc_def accessors)
qed

lemma write_link_for:
  assumes "foc s p q t K"
  shows "write_link (link_for K) x s' = Some (relink K x s')"
proof (cases K rule: link_for.cases)
  case 1
  with assms show ?thesis by (simp add: set_root_def relink_def)
next
  case (2 a c u K')
  with foc_nonzero(2) [OF assms, of a] accessors(5) [of a L] show ?thesis by (simp add: relink_def set_child_def)
next
  case (3 a c u K')
  with foc_nonzero(2) [OF assms, of a] accessors(5) [of a R] show ?thesis by (simp add: relink_def set_child_def)
qed

lemma rb_link_node_ok:
  assumes F: "foc s 0 q Leaf K" and n: "n \<noteq> 0" "aligned n" "n \<notin> cset K"
  shows "wp (rb_link_node n q (link_for K) s) (\<lambda>s'. foc s' n q (Node Leaf (n, Red) Leaf) K)"
proof -
  let ?s1 = "put (\<lambda>x. x\<lparr>rb_parent_color := q, rb_left := 0, rb_right := 0\<rparr>) n s"
  let ?s = "relink K n ?s1"
  have al: "aligned q" by (rule foc_aligned [OF F])
  have S: "seq_ok (before K @ after K)" "around s 0 q K" using F by (simp_all add: foc_def)
  have "distinct (before K @ after K)" using S(1) by (simp add: seq_ok_def)
  have q: "q AND NOT 3 = q" "q AND 1 = 0"
  proof -
    have a: "\<not> bit q i" if "bit (3 :: u32) i" for i using alignedD [OF al, of i] bit_3 that by blast
    show "q AND NOT 3 = q"
      by (rule bit_word_eqI, unfold bit_and_iff bit_not_iff) (use a in auto)
    show "q AND 1 = 0"
    proof (rule bit_word_eqI)
      fix i
      show "bit (q AND 1) i \<longleftrightarrow> bit (0 :: u32) i"
        unfolding bit_and_iff bit_1_iff using alignedD [OF al, of 0] by (cases "i = 0") simp_all
    qed
  qed
  have n1: "ch ?s1 d n = 0" "par ?s1 n = q" "col ?s1 n = Red" for d
    using q by (simp_all add: put_def ch_def par_def col_def split: dir.split)
  have o1: "ch ?s1 d a = ch s d a" "par ?s1 a = par s a" "col ?s1 a = col s a" if "a \<noteq> n" for d a
    using that by (simp_all add: put_def ch_def par_def col_def split: dir.split)
  have root: "rb_root ?s1 = rb_root s" by (simp add: put_def)
  have "around ?s n q K"
  proof (rule around_relink [OF S(2) \<open>distinct (before K @ after K)\<close>])
    show "ch ?s d a = ch (relink K n s) d a" if "a \<in> cset K" for a d
      using that n(3) o1(1) by (cases "a = n") (auto simp: relink_def split: list.split prod.split)
    show "col ?s a = col s a" "par ?s a = par s a" if "a \<in> cset K" for a
      using that n(3) o1 by (metis relink_fields)+
    show "rb_root ?s = rb_root (relink K n s)"
      by (auto simp: relink_def root split: list.split prod.split)
  qed
  moreover have "seq_ok (before K @ addrs (Node Leaf (n, Red) Leaf) @ after K)"
    using S(1) n by (auto simp: seq_ok_def cset_def)
  ultimately have "foc ?s n q (Node Leaf (n, Red) Leaf) K"
    using n n1 by (simp add: foc_def)
  moreover have "rb_link_node n q (link_for K) s = Some ?s"
    using n(1) write_link_for [OF F] by (simp add: rb_link_node_def store_node_def put_def)
  ultimately show ?thesis by simp
qed

section \<open>The descent\<close>

lemma find_link_step:
  "find_link key k parent link s = Option.bind (read_link link s) (\<lambda>p.
     if p = 0 then Some (parent, link)
     else find_link key k p (if key p > k then LeftLink p else RightLink p) s)"
  by (rule find_link.simps)

lemma find_link_ok:
  assumes "foc s p q t K" and "sorted (map key (addrs t))"
    and "\<forall>a \<in> set (before K). key a \<le> k" "\<forall>a \<in> set (after K). k < key a"
  shows "wp (find_link key k q (link_for K) s) (\<lambda>(q', link). \<exists>K'. foc s 0 q' Leaf K' \<and> link = link_for K' \<and>
           plug Leaf K' = plug t K \<and> (\<forall>a \<in> set (before K'). key a \<le> k) \<and> (\<forall>a \<in> set (after K'). k < key a))"
  using assms
proof (induction t arbitrary: p q K)
  case Leaf
  then have "p = 0" by (simp add: foc_def)
  with Leaf read_link_for [OF Leaf(1)] show ?case by (subst find_link_step) auto
next
  case (Node l v r)
  obtain a c where v: "v = (a, c)" by (cases v)
  have nz: "a \<noteq> 0" "p = a" using foc_nonzero(1) [OF Node(3), of a] Node(3) v by (simp_all add: foc_def)
  have srt: "sorted (map key (addrs l))" "sorted (map key (addrs r))"
    "\<forall>b \<in> set (addrs l). key b \<le> key a" "\<forall>b \<in> set (addrs r). key a \<le> key b"
    using Node(4) v by (auto simp: sorted_append)
  show ?case
  proof (cases "key a > k")
    case True
    have "foc s (ch s L a) a l ((L, a, c, r) # K)"
      using foc_down' [of s a q L l c r K] Node(3) v nz by (simp add: mk_def)
    then have "wp (find_link key k a (link_for ((L, a, c, r) # K)) s) (\<lambda>(q', link). \<exists>K'. foc s 0 q' Leaf K' \<and> link = link_for K' \<and>
           plug Leaf K' = plug l ((L, a, c, r) # K) \<and> (\<forall>a \<in> set (before K'). key a \<le> k) \<and> (\<forall>a \<in> set (after K'). k < key a))"
      by (rule Node(1)) (use srt True Node(5,6) in auto)
    then show ?thesis
      using True nz v by (subst find_link_step) (simp add: read_link_for [OF Node(3)] mk_def)
  next
    case False
    have "foc s (ch s R a) a r ((R, a, c, l) # K)"
      using foc_down' [of s a q R r c l K] Node(3) v nz by (simp add: mk_def)
    then have "wp (find_link key k a (link_for ((R, a, c, l) # K)) s) (\<lambda>(q', link). \<exists>K'. foc s 0 q' Leaf K' \<and> link = link_for K' \<and>
           plug Leaf K' = plug r ((R, a, c, l) # K) \<and> (\<forall>a \<in> set (before K'). key a \<le> k) \<and> (\<forall>a \<in> set (after K'). k < key a))"
      by (rule Node(2)) (use srt False Node(5,6) in auto)
    then show ?thesis
      using False nz v by (subst find_link_step) (simp add: read_link_for [OF Node(3)] mk_def)
  qed
qed

lemma insort_after_split:
  assumes "\<forall>a \<in> set xs. f a \<le> f n" "\<forall>a \<in> set ys. f n < f a"
  shows "insort_after f n (xs @ ys) = xs @ n # ys"
proof -
  have "takeWhile (\<lambda>y. f y \<le> f n) (xs @ ys) = xs @ takeWhile (\<lambda>y. f y \<le> f n) ys"
    using assms(1) by (simp add: takeWhile_append)
  moreover have "dropWhile (\<lambda>y. f y \<le> f n) (xs @ ys) = dropWhile (\<lambda>y. f y \<le> f n) ys"
    using assms(1) by (simp add: dropWhile_append)
  moreover have "takeWhile (\<lambda>y. f y \<le> f n) ys = [] \<and> dropWhile (\<lambda>y. f y \<le> f n) ys = ys"
    using assms(2) by (cases ys) (auto simp: not_le)
  ultimately show ?thesis by (simp add: insort_after_def)
qed

lemma timer_node_insert_ptr_ok:
  assumes t: "tree_at s T" "rbt T" and srt: "sorted (map key (addrs T))"
    and n: "n \<noteq> 0" "aligned n" "n \<notin> set (addrs T)"
  shows "wp (timer_node_insert_ptr key n s) (\<lambda>s'. \<exists>T'. tree_at s' T' \<and> rbt T' \<and>
           addrs T' = insort_after key n (addrs T))"
proof -
  have "wp (find_link key (key n) 0 (link_for []) s) (\<lambda>(q', link). \<exists>K'. foc s 0 q' Leaf K' \<and> link = link_for K' \<and>
           plug Leaf K' = plug T [] \<and> (\<forall>a \<in> set (before K'). key a \<le> key n) \<and> (\<forall>a \<in> set (after K'). key n < key a))"
    by (rule find_link_ok) (use t srt in \<open>simp_all add: tree_at_def\<close>)
  then obtain q K where run: "find_link key (key n) 0 RootLink s = Some (q, link_for K)" and F: "foc s 0 q Leaf K"
    and K: "plug Leaf K = T" "\<forall>a \<in> set (before K). key a \<le> key n" "\<forall>a \<in> set (after K). key n < key a"
    by (auto simp: wp_iff)
  have A: "addrs T = before K @ after K" using addrs_plug [of Leaf K] K(1) by simp
  then have "n \<notin> cset K" using n(3) by (simp add: cset_def)
  note link = rb_link_node_ok [OF F n(1,2) this]
  have c: "cinv 0 K" using plug_cinv [of Leaf K] t(2) K(1) by (simp add: rbt_def)
  have order: "insort_after key n (addrs T) = before K @ n # after K"
    unfolding A by (rule insort_after_split [OF K(2,3)])
  have "wp (rb_link_node n q (link_for K) s) (\<lambda>s1. wp (rb_insert_color n s1) (\<lambda>s'. \<exists>T'. tree_at s' T' \<and> rbt T' \<and>
           addrs T' = insort_after key n (addrs T)))"
    unfolding order by (rule wp_mono [OF link]) (rule rb_insert_color_ok [OF _ c])
  then show ?thesis by (simp add: timer_node_insert_ptr_def run)
qed

section \<open>First and next\<close>

lemma go_left_ok:
  assumes "foc s p q t K" and "t \<noteq> Leaf"
  shows "go_left p s = Some (hd (addrs t))"
  using assms
proof (induction t arbitrary: p q K)
  case (Node l v r)
  obtain a c where v: "v = (a, c)" by (cases v)
  have nz: "a \<noteq> 0" "p = a" using foc_nonzero(1) [OF Node(3), of a] Node(3) v by (simp_all add: foc_def)
  have D: "foc s (ch s L a) a l ((L, a, c, r) # K)"
    using foc_down' [of s a q L l c r K] Node(3) v nz by (simp add: mk_def)
  show ?case
  proof (cases "l = Leaf")
    case True
    with D have "ch s L a = 0" by (simp add: foc_def)
    with True nz v show ?thesis by (subst go_left.simps) (simp add: accessors)
  next
    case False
    then have "ch s L a \<noteq> 0" using D foc_nonzero(1) [OF D] by (cases l) (auto simp: foc_def)
    moreover have "addrs l \<noteq> []" using False by (cases l) auto
    ultimately show ?thesis using Node(1) [OF D False] nz v by (subst go_left.simps) (simp add: accessors)
  qed
qed simp

lemma go_right_ok:
  assumes "foc s p q t K" and "t \<noteq> Leaf"
  shows "go_right p s = Some (last (addrs t))"
  using assms
proof (induction t arbitrary: p q K)
  case (Node l v r)
  obtain a c where v: "v = (a, c)" by (cases v)
  have nz: "a \<noteq> 0" "p = a" using foc_nonzero(1) [OF Node(3), of a] Node(3) v by (simp_all add: foc_def)
  have D: "foc s (ch s R a) a r ((R, a, c, l) # K)"
    using foc_down' [of s a q R r c l K] Node(3) v nz by (simp add: mk_def)
  show ?case
  proof (cases "r = Leaf")
    case True
    with D have "ch s R a = 0" by (simp add: foc_def)
    with True nz v show ?thesis by (subst go_right.simps) (simp add: accessors)
  next
    case False
    then have "ch s R a \<noteq> 0" using D foc_nonzero(1) [OF D] by (cases r) (auto simp: foc_def)
    moreover have "addrs r \<noteq> []" using False by (cases r) auto
    ultimately show ?thesis using Node(2) [OF D False] nz v by (subst go_right.simps) (simp add: accessors)
  qed
qed simp

lemma rb_first_ok:
  assumes "tree_at s T"
  shows "rb_first s = Some (if T = Leaf then 0 else hd (addrs T))"
    and "rb_last s = Some (if T = Leaf then 0 else last (addrs T))"
proof -
  have F: "foc s (rb_root s) 0 T []" using assms by (simp add: tree_at_def)
  have "rb_root s = 0 \<longleftrightarrow> T = Leaf" using F foc_nonzero(1) [OF F] by (cases T) (auto simp: foc_def)
  with go_left_ok [OF F] go_right_ok [OF F] show "rb_first s = Some (if T = Leaf then 0 else hd (addrs T))"
    "rb_last s = Some (if T = Leaf then 0 else last (addrs T))"
    by (simp_all add: rb_first_def rb_last_def)
qed

text \<open>Climbing to the first ancestor on the other side.\<close>

lemma up_while_right_ok:
  assumes "foc s p q t K" and "t \<noteq> Leaf"
  shows "up_while_right p s = Some (case after K of [] \<Rightarrow> 0 | a # _ \<Rightarrow> a)"
  using assms
proof (induction K arbitrary: p q t)
  case Nil
  then have "p \<noteq> 0" "par s p = 0" using foc_nonzero(1) [OF Nil(1)] by (cases t; auto simp: foc_def)+
  then show ?case by (subst up_while_right.simps) (simp add: accessors)
next
  case (Cons f K)
  obtain d a c u where f: "f = (d, a, c, u)" by (cases f)
  have p: "p \<noteq> 0" "par s p = q" using foc_nonzero(1) [OF Cons(2)] Cons(2,3) by (cases t; auto simp: foc_def)+
  have a: "q = a" "a \<noteq> 0" "ch s d a = p" "ch s (opp d) a \<noteq> p"
    using foc_linked [OF Cons(2,3)] f by (simp_all add: linked_def)
  show ?case
  proof (cases d)
    case L
    then show ?thesis using p a f by (subst up_while_right.simps) (simp add: accessors)
  next
    case R
    have up: "foc s a (par s a) (mk d t a c u) K" using foc_up [of s p q t d a c u K] Cons(2) f a by simp
    have "mk d t a c u \<noteq> Leaf" by (cases d) (simp_all add: mk_def)
    from Cons(1) [OF up this] show ?thesis using p a f R by (subst up_while_right.simps) (simp add: accessors)
  qed
qed

lemma up_while_left_ok:
  assumes "foc s p q t K" and "t \<noteq> Leaf"
  shows "up_while_left p s = Some (if before K = [] then 0 else last (before K))"
  using assms
proof (induction K arbitrary: p q t)
  case Nil
  then have "p \<noteq> 0" "par s p = 0" using foc_nonzero(1) [OF Nil(1)] by (cases t; auto simp: foc_def)+
  then show ?case by (subst up_while_left.simps) (simp add: accessors)
next
  case (Cons f K)
  obtain d a c u where f: "f = (d, a, c, u)" by (cases f)
  have p: "p \<noteq> 0" "par s p = q" using foc_nonzero(1) [OF Cons(2)] Cons(2,3) by (cases t; auto simp: foc_def)+
  have a: "q = a" "a \<noteq> 0" "ch s d a = p" "ch s (opp d) a \<noteq> p"
    using foc_linked [OF Cons(2,3)] f by (simp_all add: linked_def)
  show ?case
  proof (cases d)
    case R
    then show ?thesis using p a f by (subst up_while_left.simps) (simp add: accessors)
  next
    case L
    have up: "foc s a (par s a) (mk d t a c u) K" using foc_up [of s p q t d a c u K] Cons(2) f a by simp
    have "mk d t a c u \<noteq> Leaf" by (cases d) (simp_all add: mk_def)
    from Cons(1) [OF up this] show ?thesis using p a f L by (subst up_while_left.simps) (simp add: accessors)
  qed
qed

text \<open>Every node of the tree can be put in focus.\<close>

lemma focus_on:
  assumes "foc s p q t K" and "a \<in> set (addrs t)"
  shows "\<exists>q' d x c y K'. foc s a q' (mk d x a c y) K' \<and> plug (mk d x a c y) K' = plug t K"
  using assms
proof (induction t arbitrary: p q K)
  case (Node l v r)
  obtain b c where v: "v = (b, c)" by (cases v)
  have pb: "p = b" using Node(3) v by (simp add: foc_def)
  have D: "foc s (ch s L b) b l ((L, b, c, r) # K)" "foc s (ch s R b) b r ((R, b, c, l) # K)"
    using foc_down' [of s b q L l c r K] foc_down' [of s b q R r c l K] Node(3) v pb by (simp_all add: mk_def)
  consider "a \<in> set (addrs l)" | "a = b" | "a \<in> set (addrs r)" using Node(4) v by auto
  then show ?case
  proof cases
    case 1
    from Node(1) [OF D(1) 1] show ?thesis using v by (simp add: mk_def)
  next
    case 2
    with Node(3) v pb show ?thesis
      by (intro exI [of _ q] exI [of _ L] exI [of _ l] exI [of _ c] exI [of _ r] exI [of _ K]) (simp add: mk_def)
  next
    case 3
    from Node(2) [OF D(2) 3] show ?thesis using v by (simp add: mk_def)
  qed
qed simp

lemma focus_node:
  assumes "tree_at s T" and "a \<in> set (addrs T)"
  obtains q l c r K where "foc s a q (Node l (a, c) r) K" "plug (Node l (a, c) r) K = T"
proof -
  obtain q d x c y K where F: "foc s a q (mk d x a c y) K" "plug (mk d x a c y) K = T"
    using focus_on [of s _ 0 T "[]"] assms unfolding tree_at_def by force
  show thesis by (cases d) (use F that in \<open>auto simp: mk_def\<close>)
qed

lemma rb_next_ok:
  assumes T: "tree_at s T" "addrs T = xs @ a # ys"
  shows "rb_next a s = Some (case ys of [] \<Rightarrow> 0 | b # _ \<Rightarrow> b)"
    and "rb_prev a s = Some (if xs = [] then 0 else last xs)"
proof -
  obtain q l c r K where F: "foc s a q (Node l (a, c) r) K" "plug (Node l (a, c) r) K = T"
    using focus_node [OF T(1)] T(2) by (metis in_set_conv_decomp)
  have nz: "a \<noteq> 0" using foc_nonzero(1) [OF F(1)] by simp
  have A: "addrs T = (before K @ addrs l) @ a # (addrs r @ after K)" using addrs_plug [of "Node l (a, c) r" K] F(2) by simp
  have dis: "distinct (addrs T)" using T(1) by (simp add: tree_at_def foc_def seq_ok_def)
  have "a \<notin> set xs" "a \<notin> set ys" using dis unfolding T(2) by simp_all
  moreover have "xs @ a # ys = (before K @ addrs l) @ a # (addrs r @ after K)" using T(2) A by simp
  ultimately have S: "xs = before K @ addrs l" "ys = addrs r @ after K"
    using append_Cons_eq_iff [of a xs ys "before K @ addrs l" "addrs r @ after K"] by simp_all
  have pa: "par s a = q" "q \<noteq> a"
  proof -
    show "par s a = q" using F(1) by (simp add: foc_def)
    show "q \<noteq> a"
    proof (cases K)
      case Nil
      then show ?thesis using F(1) nz by (simp add: foc_def)
    next
      case (Cons f K')
      obtain e b cb u where f: "f = (e, b, cb, u)" by (cases f)
      have "q = b" "b \<in> cset K" using F(1) Cons f by (simp_all add: foc_def)
      moreover have "a \<notin> cset K" using seq_okD(1) [of K "Node l (a, c) r" a] F(1) by (simp add: foc_def)
      ultimately show ?thesis by blast
    qed
  qed
  have D: "foc s (ch s L a) a l ((L, a, c, r) # K)" "foc s (ch s R a) a r ((R, a, c, l) # K)"
    using foc_down' [of s a q L l c r K] foc_down' [of s a q R r c l K] F(1) by (simp_all add: mk_def)
  have null: "ch s L a = 0 \<longleftrightarrow> l = Leaf" "ch s R a = 0 \<longleftrightarrow> r = Leaf"
    using D foc_nonzero(1) [OF D(1)] foc_nonzero(1) [OF D(2)] by (cases l; cases r; force simp: foc_def)+
  have ne: "t \<noteq> Leaf \<Longrightarrow> addrs t \<noteq> []" for t by (cases t) auto
  show "rb_next a s = Some (case ys of [] \<Rightarrow> 0 | b # _ \<Rightarrow> b)"
  proof (cases "r = Leaf")
    case True
    then show ?thesis
      using nz pa null up_while_right_ok [OF F(1)] S(2) by (simp add: rb_next_def accessors)
  next
    case False
    then show ?thesis
      using nz pa null go_left_ok [OF D(2) False] S(2) ne [OF False]
      by (simp add: rb_next_def accessors split: list.split) (metis hd_append2 list.sel(1))
  qed
  show "rb_prev a s = Some (if xs = [] then 0 else last xs)"
  proof (cases "l = Leaf")
    case True
    then show ?thesis
      using nz pa null up_while_left_ok [OF F(1)] S(1) by (simp add: rb_prev_def accessors)
  next
    case False
    then show ?thesis
      using nz pa null go_right_ok [OF D(1) False] S(1) ne [OF False] by (simp add: rb_prev_def accessors)
  qed
qed

end
