(* ===== verification/Nd_Rbtree_Erase.thy ===== *)
theory Nd_Rbtree_Erase
  imports Nd_Rbtree_Insert
begin

text \<open>
  Removal from the red-black tree: the repair loop \<open>rb_erase_color\<close> ends and balances a tree that is short by one
  at the node it starts from; \<open>rb_erase\<close> takes one node out and leaves the others in their order, in a
  red-black tree; \<open>rb_replace_node\<close> puts a new node in the place of an old one.
\<close>

section \<open>Both directions of the repair\<close>

definition erase_fix :: "dir \<Rightarrow> u32 \<Rightarrow> rb_tree \<Rightarrow> ((u32 \<times> u32 + u32) \<times> rb_tree) option" where
  "erase_fix d parent s = do {
     other \<leftarrow> child_of (opp d) parent s;
     red \<leftarrow> rb_is_red other s;
     (other, s) \<leftarrow> (if red then do {
         s \<leftarrow> rb_set_black other s;
         s \<leftarrow> rb_set_red parent s;
         s \<leftarrow> rotate_to d parent s;
         other \<leftarrow> child_of (opp d) parent s;
         Some (other, s)
       } else Some (other, s));
     near \<leftarrow> child_of d other s;
     bn \<leftarrow> black_or_null near s;
     far \<leftarrow> child_of (opp d) other s;
     bf \<leftarrow> black_or_null far s;
     if bn \<and> bf then do {
       s \<leftarrow> rb_set_red other s;
       pp \<leftarrow> rb_parent parent s;
       Some (Inl (parent, pp), s)
     }
     else do {
       (other, s) \<leftarrow> (if bf then do {
           s \<leftarrow> rb_set_black near s;
           s \<leftarrow> rb_set_red other s;
           s \<leftarrow> rotate_to (opp d) other s;
           other \<leftarrow> child_of (opp d) parent s;
           Some (other, s)
         } else Some (other, s));
       c \<leftarrow> rb_color parent s;
       s \<leftarrow> rb_set_color other c s;
       s \<leftarrow> rb_set_black parent s;
       far \<leftarrow> child_of (opp d) other s;
       s \<leftarrow> rb_set_black far s;
       s \<leftarrow> rotate_to d parent s;
       Some (Inr (rb_root s), s)
     }
   }"

lemma erase_fixes: "erase_fix_left = erase_fix L" "erase_fix_right = erase_fix R"
proof -
  show "erase_fix_left = erase_fix L"
    by (rule ext, rule ext, simp add: erase_fix_left_def erase_fix_def child_of_def rotations cong: if_cong)
  have reads: "Option.bind (left_of x s) (\<lambda>ol. Option.bind (black_or_null ol s) (\<lambda>bl.
        Option.bind (right_of x s) (\<lambda>r. Option.bind (black_or_null r s) (\<lambda>br. f ol bl r br)))) =
      Option.bind (right_of x s) (\<lambda>r. Option.bind (black_or_null r s) (\<lambda>br.
        Option.bind (left_of x s) (\<lambda>ol. Option.bind (black_or_null ol s) (\<lambda>bl. f ol bl r br))))" for x s f
    by (cases "left_of x s"; cases "right_of x s";
        simp add: black_or_null_def rb_is_black_def rb_color_def load_node_def split: option.split)
  show "erase_fix_right = erase_fix R"
    by (rule ext, rule ext, simp add: erase_fix_right_def erase_fix_def child_of_def rotations reads conj_commute cong: if_cong)
qed

section \<open>Colours as words\<close>

lemma rb_color_col: "p \<noteq> 0 \<Longrightarrow> rb_color p s = Some (case col s p of Red \<Rightarrow> 0 | Black \<Rightarrow> 1)"
proof -
  assume p: "p \<noteq> 0"
  have "w AND 1 \<noteq> 0 \<Longrightarrow> w AND 1 = 1" for w :: u32
    by (simp add: and_one_eq odd_iff_mod_2_eq_one)
  with p show ?thesis by (simp add: rb_color_def load_node_def col_def)
qed

lemma rb_set_color_col: "p \<noteq> 0 \<Longrightarrow> rb_set_color p (case c of Red \<Rightarrow> 0 | Black \<Rightarrow> 1) s = Some (put_col p c s)"
proof -
  assume p: "p \<noteq> 0"
  have "(w AND NOT 1) OR 1 = w OR (1 :: u32)" for w
    by (rule bit_word_eqI) (auto simp: bit_and_iff bit_or_iff bit_not_iff bit_1_iff)
  with p show ?thesis by (cases c) (simp_all add: rb_set_color_def store_node_def put_col_def put_def)
qed

lemma black_or_null_rep:
  assumes "rep s p q t" and "0 \<notin> set (addrs t)"
  shows "black_or_null p s = Some (color_of t = Black)"
  using assms by (cases t) (auto simp: black_or_null_def accessors)


section \<open>One round\<close>

fun blacken :: "rtree \<Rightarrow> rtree" where
  "blacken Leaf = Leaf"
| "blacken (Node l (a, c) r) = Node l (a, Black) r"

lemma blacken_simps [simp]:
  "blacken (mk d t a c u) = mk d t a Black u" "addrs (blacken t) = addrs t" "color_of (blacken t) = Black"
  "invh (blacken t) = invh t" "color_of t = Black \<Longrightarrow> blacken t = t"
  "bh (blacken t) = (if color_of t = Red then Suc (bh t) else bh t)"
  by (cases d; simp add: mk_def) (cases t rule: blacken.cases; auto intro: color.exhaust)+

text \<open>The sibling is black and has a red child: the repair ends.\<close>

definition finish_erase :: "dir \<Rightarrow> u32 \<Rightarrow> u32 \<Rightarrow> rb_tree \<Rightarrow> ((u32 \<times> u32 + u32) \<times> rb_tree) option" where
  "finish_erase d parent other s = do {
     c \<leftarrow> rb_color parent s;
     s \<leftarrow> rb_set_color other c s;
     s \<leftarrow> rb_set_black parent s;
     far \<leftarrow> child_of (opp d) other s;
     s \<leftarrow> rb_set_black far s;
     s \<leftarrow> rotate_to d parent s;
     Some (Inr (rb_root s), s)
   }"

lemma finish_erase_ok:
  assumes F: "foc s p q (mk d t p cp (mk d x k Black (mk e y f Red z))) K"
  shows "wp (finish_erase d p k s) (\<lambda>(r, s'). r = Inr (rb_root s') \<and>
           foc s' k q (mk d (mk d t p Black x) k cp (mk e y f Black z)) K)"
proof -
  let ?F = "mk e y f Red z"
  have nz: "p \<noteq> 0" "k \<noteq> 0" "f \<noteq> 0" "p \<noteq> k" "p \<noteq> f" "k \<noteq> f"
  proof -
    show "p \<noteq> 0" "k \<noteq> 0" "f \<noteq> 0" using foc_nonzero(1) [OF F] by auto
    have S: "seq_ok (before K @ addrs (mk d t p cp (mk d x k Black ?F)) @ after K)" using F by (simp add: foc_def)
    then show "p \<noteq> k" "p \<noteq> f" using seq_ok_mk(4) [OF S] by auto
    have "distinct (addrs (mk d x k Black ?F))" by (rule seq_ok_mk(13) [OF S])
    then show "k \<noteq> f" by (auto simp: addrs_mk [of d x] split: if_splits)
  qed
  have R: "col s p = cp" "ch s (opp d) k = f" using F by (auto simp: foc_def)
  let ?s = "put_col f Black (put_col p Black (put_col k cp s))"
  have "foc (put_col p Black (put_col k cp s)) p q (mk d t p Black (mk d x k cp ?F)) K"
  proof -
    have "foc s p q (mk (opp d) (mk d x k Black ?F) p cp t) K" using F by (simp add: mk_opp)
    from foc_put_col [OF foc_put_col_child [OF this, of cp], of Black] show ?thesis by (simp add: mk_opp)
  qed
  then have "foc (put_col p Black (put_col k cp s)) p q (mk (opp d) (mk (opp d) ?F k cp x) p Black t) K"
    by (simp add: mk_opp)
  from foc_down' [OF this] foc_ch [OF this] foc_par [OF this]
  have "foc (put_col p Black (put_col k cp s)) k p (mk (opp d) ?F k cp x) ((opp d, p, Black, t) # K)" and "par s p = q" by simp_all
  from foc_up [OF foc_put_col_child [OF this(1), of Black]] this(2)
  have "foc ?s p q (mk (opp d) (mk (opp d) (mk e y f Black z) k cp x) p Black t) K" by simp
  then have "foc ?s p q (mk d t p Black (mk d x k cp (mk e y f Black z))) K" by (simp add: mk_opp)
  then have "wp (rotate_to d p ?s) (\<lambda>s'. foc s' k q (mk d (mk d t p Black x) k cp (mk e y f Black z)) K)"
    by (rule foc_rotate)
  then have "wp (rotate_to d p ?s) (\<lambda>s'. rb_root s' = rb_root s' \<and> foc s' k q (mk d (mk d t p Black x) k cp (mk e y f Black z)) K)"
    by simp
  moreover have "finish_erase d p k s = Option.bind (rotate_to d p ?s) (\<lambda>s. Some (Inr (rb_root s), s))"
    using nz R by (simp add: finish_erase_def rb_color_col rb_set_color_col accessors)
  ultimately show ?thesis by simp
qed


text \<open>The part of the loop body in which the sibling is black.\<close>

definition black_sibling :: "dir \<Rightarrow> u32 \<Rightarrow> u32 \<Rightarrow> rb_tree \<Rightarrow> ((u32 \<times> u32 + u32) \<times> rb_tree) option" where
  "black_sibling d parent other s = do {
     near \<leftarrow> child_of d other s;
     bn \<leftarrow> black_or_null near s;
     far \<leftarrow> child_of (opp d) other s;
     bf \<leftarrow> black_or_null far s;
     if bn \<and> bf then do {
       s \<leftarrow> rb_set_red other s;
       pp \<leftarrow> rb_parent parent s;
       Some (Inl (parent, pp), s)
     }
     else do {
       (other, s) \<leftarrow> (if bf then do {
           s \<leftarrow> rb_set_black near s;
           s \<leftarrow> rb_set_red other s;
           s \<leftarrow> rotate_to (opp d) other s;
           other \<leftarrow> child_of (opp d) parent s;
           Some (other, s)
         } else Some (other, s));
       finish_erase d parent other s
     }
   }"

lemma erase_fix_split:
  "erase_fix d parent s = do {
     other \<leftarrow> child_of (opp d) parent s;
     red \<leftarrow> rb_is_red other s;
     (other, s) \<leftarrow> (if red then do {
         s \<leftarrow> rb_set_black other s;
         s \<leftarrow> rb_set_red parent s;
         s \<leftarrow> rotate_to d parent s;
         other \<leftarrow> child_of (opp d) parent s;
         Some (other, s)
       } else Some (other, s));
     black_sibling d parent other s
   }"
  unfolding erase_fix_def black_sibling_def finish_erase_def ..

text \<open>What a round leaves: either the whole subtree is repaired, or it is short by one and the parent is next.\<close>

definition rest_ok :: "rtree \<Rightarrow> frame list \<Rightarrow> nat \<Rightarrow> u32 \<Rightarrow> (u32 \<times> u32 + u32) \<Rightarrow> rb_tree \<Rightarrow> bool" where
  "rest_ok m K h p r s' \<longleftrightarrow> (\<exists>q k T. foc s' k q T K \<and> addrs T = addrs m \<and> invh T \<and>
     (case r of
        Inl (n, q') \<Rightarrow> n = p \<and> k = p \<and> q' = q \<and> invc (blacken T) \<and> Suc (bh T) = h \<and>
          (color_of m = Red \<longrightarrow> color_of T = Red) \<and> T \<noteq> Leaf
      | Inr n \<Rightarrow> n = rb_root s' \<and> invc T \<and> bh T = h \<and> color_of T = color_of m))"

lemma red_mk:
  assumes "color_of t \<noteq> Black"
  obtains a n b where "t = mk d a n Red b"
proof (rule mk_cases [where t = t and d = d])
  assume "t = Leaf"
  with assms show thesis by simp
next
  fix x a c y assume t: "t = mk d x a c y"
  with assms have "c = Red" by (cases c) auto
  with t that show thesis by blast
qed

lemma rest_okE:
  assumes "rest_ok m K h p r s'"
  obtains (on) q T where "r = Inl (p, q)" "foc s' p q T K" "addrs T = addrs m" "invh T" "invc (blacken T)"
      "Suc (bh T) = h" "color_of m = Red \<longrightarrow> color_of T = Red"
    | (over) q k T where "r = Inr (rb_root s')" "foc s' k q T K" "addrs T = addrs m" "invh T" "invc T" "bh T = h"
      "color_of T = color_of m"
proof -
  obtain q k T where T: "foc s' k q T K" "addrs T = addrs m" "invh T"
    and r: "case r of
        Inl (n, q') \<Rightarrow> n = p \<and> k = p \<and> q' = q \<and> invc (blacken T) \<and> Suc (bh T) = h \<and>
          (color_of m = Red \<longrightarrow> color_of T = Red) \<and> T \<noteq> Leaf
      | Inr n \<Rightarrow> n = rb_root s' \<and> invc T \<and> bh T = h \<and> color_of T = color_of m"
    using assms unfolding rest_ok_def by blast
  show thesis
  proof (cases r)
    case (Inl nq)
    then show thesis using T r by (intro on [of q T]) (auto split: prod.splits)
  next
    case (Inr n)
    then show thesis using T r by (intro over [of k q T]) auto
  qed
qed

lemma black_sibling_ok:
  assumes F: "foc s p q (mk d t p cp (mk d x k Black y)) K"
    and t: "invc t" "invh t" "color_of t = Black"
    and o: "invc x" "invc y" "invh x" "invh y" "bh x = bh y" "bh t = bh x"
  shows "wp (black_sibling d p k s) (\<lambda>(r, s').
           rest_ok (mk d t p cp (mk d x k Black y)) K (Suc (bh x) + (if cp = Black then 1 else 0)) p r s')"
proof -
  let ?m = "mk d t p cp (mk d x k Black y)" and ?h = "Suc (bh x) + (if cp = Black then 1 else 0)"
  have nz: "p \<noteq> 0" "k \<noteq> 0" using foc_nonzero(1) [OF F] by auto
  have O: "foc s k p (mk (opp d) y k Black x) ((opp d, p, cp, t) # K)" "par s p = q"
  proof -
    have "foc s p q (mk (opp d) (mk (opp d) y k Black x) p cp t) K" using F by (simp add: mk_opp)
    from foc_down' [OF this] foc_ch [OF this] foc_par [OF this]
    show "foc s k p (mk (opp d) y k Black x) ((opp d, p, cp, t) # K)" "par s p = q" by simp_all
  qed
  have zero: "0 \<notin> set (addrs x)" "0 \<notin> set (addrs y)" using foc_nonzero(1) [OF F] by auto
  have reps: "rep s (ch s d k) k x" "rep s (ch s (opp d) k) k y" using O(1) by (simp_all add: foc_def)
  note reads = black_or_null_rep [OF reps(1) zero(1)] black_or_null_rep [OF reps(2) zero(2)]
  show ?thesis
  proof (cases "color_of y = Black")
    case far: True
    show ?thesis
    proof (cases "color_of x = Black")
      case near: True
      have "foc (put_col k Red s) p q (mk d t p cp (mk d x k Red y)) K"
        using foc_up [OF foc_put_col [OF O(1), of Red]] O(2) by (simp add: mk_opp)
      then have "rest_ok ?m K ?h p (Inl (p, q)) (put_col k Red s)"
        unfolding rest_ok_def using t o far near
        by (intro exI [of _ q] exI [of _ p] exI [of _ "mk d t p cp (mk d x k Red y)"])
          (cases d; simp add: addrs_mk; simp add: mk_def)
      then show ?thesis using near far nz reads O(2) by (simp add: black_sibling_def accessors)
    next
      case near: False
      obtain a n b where X: "x = mk d a n Red b" by (rule red_mk [OF near])
      have n: "n \<noteq> 0" "ch s d k = n" using foc_nonzero(1) [OF F] O(1) X by (auto simp: foc_def)
      let ?s = "put_col k Red (put_col n Black s)"
      have "foc s k p (mk d (mk d a n Red b) k Black y) ((opp d, p, cp, t) # K)"
        using O(1) X by (simp add: mk_opp)
      from foc_put_col [OF foc_put_col_child [OF this, of Black], of Red]
      have "foc ?s k p (mk (opp d) y k Red (mk (opp d) b n Black a)) ((opp d, p, cp, t) # K)"
        by (simp add: mk_opp)
      then have rot: "wp (rotate_to (opp d) k ?s)
          (\<lambda>s1. foc s1 n p (mk (opp d) (mk (opp d) y k Red b) n Black a) ((opp d, p, cp, t) # K))"
        by (rule foc_rotate)
      have "wp (rotate_to (opp d) k ?s) (\<lambda>s1. ch s1 (opp d) p = n \<and>
          wp (finish_erase d p n s1) (\<lambda>(r, s'). rest_ok ?m K ?h p r s'))"
      proof (rule wp_mono [OF rot])
        fix s1 assume F1: "foc s1 n p (mk (opp d) (mk (opp d) y k Red b) n Black a) ((opp d, p, cp, t) # K)"
        then have F2: "foc s1 p (par s1 p) (mk d t p cp (mk d a n Black (mk d b k Red y))) K"
          using foc_up [OF F1] by (simp add: mk_opp)
        have "wp (finish_erase d p n s1) (\<lambda>(r, s'). rest_ok ?m K ?h p r s')"
        proof (rule wp_pair_mono [OF finish_erase_ok [OF F2]], elim conjE)
          fix r :: "u32 \<times> u32 + u32" and s' assume r: "r = Inr (rb_root s')"
            and F': "foc s' n (par s1 p) (mk d (mk d t p Black a) n cp (mk d b k Black y)) K"
          show "rest_ok ?m K ?h p r s'"
            unfolding rest_ok_def using t o far X F' r
            by (intro exI [of _ "par s1 p"] exI [of _ n] exI [of _ "mk d (mk d t p Black a) n cp (mk d b k Black y)"])
              (cases d; simp add: addrs_mk)
        qed
        moreover have "ch s1 (opp d) p = n" using F1 by (simp add: foc_def)
        ultimately show "ch s1 (opp d) p = n \<and> wp (finish_erase d p n s1) (\<lambda>(r, s'). rest_ok ?m K ?h p r s')" by simp
      qed
      then show ?thesis using near far nz n reads
        by - (cases cp; simp add: black_sibling_def accessors case_prod_unfold; erule wp_mono; simp)
    qed
  next
    case far: False
    obtain a f b where Y: "y = mk d a f Red b" by (rule red_mk [OF far])
    have "wp (finish_erase d p k s) (\<lambda>(r, s'). rest_ok ?m K ?h p r s')"
    proof (rule wp_pair_mono [OF finish_erase_ok [OF F [unfolded Y]]], elim conjE)
      fix r :: "u32 \<times> u32 + u32" and s' assume r: "r = Inr (rb_root s')"
        and F': "foc s' k q (mk d (mk d t p Black x) k cp (mk d a f Black b)) K"
      show "rest_ok ?m K ?h p r s'"
        unfolding rest_ok_def using t o far Y F' r
        by (intro exI [of _ q] exI [of _ k] exI [of _ "mk d (mk d t p Black x) k cp (mk d a f Black b)"])
          (cases d; simp add: addrs_mk)
    qed
    then show ?thesis using far nz reads by (simp add: black_sibling_def accessors)
  qed
qed


lemma erase_fix_ok:
  assumes F: "foc s p q (mk d t p cp u) K"
    and t: "invc t" "invh t" "color_of t = Black"
    and u: "invc u" "invh u" "bh u = Suc (bh t)" "cp = Red \<Longrightarrow> color_of u = Black"
  shows "wp (erase_fix d p s) (\<lambda>(r, s').
      rest_ok (mk d t p cp u) K (Suc (bh u) - (if cp = Red then 1 else 0)) p r s' \<or>
      (\<exists>k c z. cp = Black \<and> rest_ok (mk d t p Red c) ((d, k, Black, z) # K) (bh u) p r s' \<and>
         addrs (mk d (mk d t p Red c) k Black z) = addrs (mk d t p cp u) \<and>
         invc z \<and> invh z \<and> bh z = bh u))"
proof -
  have nz: "p \<noteq> 0" using foc_nonzero(1) [OF F] by auto
  have "u \<noteq> Leaf" using u(3) by auto
  then obtain x k c y where U: "u = mk d x k c y" using mk_cases [where t = u and d = d] by metis
  have k: "k \<noteq> 0" "ch s (opp d) p = k" "col s k = c" using foc_nonzero(1) [OF F] F U by (auto simp: foc_def)
  have step: "erase_fix d p s = Option.bind (if c = Red then do {
         s \<leftarrow> rb_set_black k s; s \<leftarrow> rb_set_red p s; s \<leftarrow> rotate_to d p s;
         other \<leftarrow> child_of (opp d) p s; Some (other, s) } else Some (k, s))
      (\<lambda>(other, s). black_sibling d p other s)"
    using nz k unfolding erase_fix_split by (simp add: accessors cong: if_cong)
  show ?thesis
  proof (cases c)
    case Black
    have "wp (black_sibling d p k s) (\<lambda>(r, s').
        rest_ok (mk d t p cp (mk d x k Black y)) K (Suc (bh x) + (if cp = Black then 1 else 0)) p r s')"
      by (rule black_sibling_ok) (use F U Black t u in auto)
    moreover have "bh x = bh t" using u U Black by simp
    ultimately show ?thesis
      unfolding step using U Black u(3) by (cases cp) (auto elim!: wp_mono simp: \<open>u = mk d x k c y\<close> intro: disjI1)
  next
    case Red
    then have cp: "cp = Black" using u(4) U by (cases cp) auto
    have inv: "invc x" "invc y" "color_of x = Black" "color_of y = Black" "invh x" "invh y" "bh x = bh y"
      "bh x = Suc (bh t)"
      using u U Red by auto
    have "x \<noteq> Leaf" using inv(8) by auto
    then obtain a m e b where "x = mk d a m e b" using mk_cases [where t = x and d = d] by metis
    with inv(3) have X: "x = mk d a m Black b" by simp
    let ?s = "put_col p Red (put_col k Black s)"
    have "foc s p q (mk (opp d) (mk d x k Red y) p Black t) K" using F U Red cp by (simp add: mk_opp)
    from foc_put_col [OF foc_put_col_child [OF this, of Black], of Red]
    have "foc ?s p q (mk d t p Red (mk d x k Black y)) K" by (simp add: mk_opp)
    then have rot: "wp (rotate_to d p ?s) (\<lambda>s1. foc s1 k q (mk d (mk d t p Red x) k Black y) K)"
      by (rule foc_rotate)
    have "wp (rotate_to d p ?s) (\<lambda>s1. ch s1 (opp d) p = m \<and> wp (black_sibling d p m s1) (\<lambda>(r, s').
        rest_ok (mk d t p Red x) ((d, k, Black, y) # K) (bh u) p r s'))"
    proof (rule wp_mono [OF rot])
      fix s1 assume F1: "foc s1 k q (mk d (mk d t p Red x) k Black y) K"
      have F2: "foc s1 p k (mk d t p Red (mk d a m Black b)) ((d, k, Black, y) # K)"
        using foc_down' [OF F1] foc_ch [OF F1] X by simp
      have "wp (black_sibling d p m s1) (\<lambda>(r, s').
          rest_ok (mk d t p Red (mk d a m Black b)) ((d, k, Black, y) # K) (Suc (bh a) + (if Red = Black then 1 else 0)) p r s')"
        by (rule black_sibling_ok [OF F2 t]) (use inv X in auto)
      moreover have "Suc (bh a) = bh u" using inv X U Red by simp
      ultimately show "ch s1 (opp d) p = m \<and> wp (black_sibling d p m s1) (\<lambda>(r, s').
          rest_ok (mk d t p Red x) ((d, k, Black, y) # K) (bh u) p r s')"
        using F2 X by (simp add: foc_def)
    qed
    moreover have "addrs (mk d (mk d t p Red x) k Black y) = addrs (mk d t p cp u)" "bh y = bh u"
      using U Red inv by (cases d; simp add: addrs_mk)+
    ultimately show ?thesis
      unfolding step using Red nz k cp inv(2,6)
      by (simp add: accessors) (erule wp_mono, auto elim!: wp_mono)
  qed
qed


section \<open>The loop\<close>

definition erased :: "u32 list \<Rightarrow> rb_tree \<Rightarrow> bool" where
  "erased xs s \<longleftrightarrow> (\<exists>T. tree_at s T \<and> rbt T \<and> addrs T = xs)"

definition erase_end :: "u32 \<times> rb_tree \<Rightarrow> rb_tree option" where
  "erase_end r = (if fst r \<noteq> 0 then rb_set_black (fst r) (snd r) else Some (snd r))"

lemma rb_erase_color_end: "rb_erase_color n q s = Option.bind (erase_loop n q s) erase_end"
  by (simp add: rb_erase_color_def erase_end_def [abs_def] case_prod_unfold)

lemma erase_end_ok:
  assumes F: "foc s n q t K" and t: "invc (blacken t)" "invh t" and K: "cinv (bh (blacken t)) K"
  shows "wp (erase_end (n, s)) (erased (addrs (plug t K)))"
proof -
  have same: "addrs (plug (blacken t) K) = addrs (plug t K)" by (simp add: addrs_plug)
  have "rbt (plug (blacken t) K)"
    using plug_inv [OF K t(1)] t(2) plug_black [OF K, of "blacken t"] by (cases "K = []") (auto simp: rbt_def)
  then have fin: "erased (addrs (plug t K)) s'" if "foc s' p q' (blacken t) K" for s' p q'
    using foc_plug [OF that] same unfolding erased_def by metis
  show ?thesis
  proof (rule mk_cases [where t = t and d = L])
    assume l: "t = Leaf"
    then have "n = 0" using F by (simp add: foc_def)
    moreover have "erased (addrs (plug t K)) s" by (rule fin) (use F l in simp)
    ultimately show ?thesis by (simp add: erase_end_def)
  next
    fix x a c y assume m: "t = mk L x a c y"
    have n: "n = a" "n \<noteq> 0" using F foc_nonzero(1) [OF F, of n] m by (auto simp: foc_def)
    have "erased (addrs (plug t K)) (put_col n Black s)"
      by (rule fin) (use foc_put_col [of s n q L x c y K Black] F m n in simp)
    then show ?thesis using n by (simp add: erase_end_def accessors)
  qed
qed

lemma erase_end_root:
  assumes F: "foc s p q t K" and t: "invc t" "invh t" and K: "cinv (bh t) K" "red_frame K \<Longrightarrow> color_of t = Black"
    "K = [] \<Longrightarrow> color_of t = Black"
  shows "wp (erase_end (rb_root s, s)) (erased (addrs (plug t K)))"
proof -
  have i: "invc (plug t K)" "invh (plug t K)" using plug_inv [OF K(1) t K(2)] by auto
  have b: "color_of (plug t K) = Black" using plug_black [OF K(1), of t] K(3) by (cases "K = []") auto
  have "foc s (rb_root s) 0 (plug t K) []" using foc_plug [OF F] by (simp add: tree_at_def)
  from erase_end_ok [OF this] i b show ?thesis by simp
qed

lemma around_root: "around s p q K \<Longrightarrow> rb_root s = p \<or> rb_root s \<in> cset K"
proof (induction K arbitrary: p q)
  case (Cons f K)
  obtain d a c t where "f = (d, a, c, t)" by (cases f)
  with Cons show ?case by fastforce
qed simp

lemma erase_step_dir:
  assumes F: "foc s n p t ((d, p, cp, u) # K)" and u: "u \<noteq> Leaf"
  shows "erase_step n p s = erase_fix d p s"
proof -
  have p: "p \<noteq> 0" using foc_nonzero(2) [OF F, of p] by simp
  have c: "ch s d p = n" "rep s (ch s (opp d) p) p u" "rep s n p t" using F by (simp_all add: foc_def)
  have S: "seq_ok (before ((d, p, cp, u) # K) @ addrs t @ after ((d, p, cp, u) # K))" using F by (simp add: foc_def)
  have "ch s (opp d) p \<in> set (addrs u)" using c(2) u by (cases u) auto
  then have "ch s (opp d) p \<in> cset ((d, p, cp, u) # K)" by simp
  with seq_okD [OF S] rep_root [OF c(3)] have "ch s (opp d) p \<noteq> n" by metis
  with p c(1) show ?thesis by (cases d) (simp_all add: erase_step_def erase_fixes accessors)
qed

lemma erase_loop_stop:
  "black_or_null n s = Some b \<Longrightarrow> \<not> b \<or> n = rb_root s \<Longrightarrow> erase_loop n q s = Some (n, s)"
  by (subst erase_loop.simps) auto

lemma erase_loop_red:
  assumes F: "foc s n q t K" and red: "color_of t = Red"
  shows "erase_loop n q s = Some (n, s)"
  by (rule erase_loop_stop [of _ _ False])
    (use F red black_or_null_rep [of s n q t] foc_nonzero(1) [OF F] in \<open>auto simp: foc_def\<close>)

lemma rb_erase_color_ok:
  assumes "foc s n q t K" and "invc (blacken t)" "invh t" and "cinv (Suc (bh t)) K"
  shows "wp (rb_erase_color n q s) (erased (addrs (plug t K)))"
  using assms
proof (induction K arbitrary: s n q t)
  case Nil
  then have F: "foc s n 0 t []" "n = rb_root s" "q = 0" by (auto simp: foc_def)
  have "erase_loop n q s = Some (n, s)"
    by (rule erase_loop_stop [OF black_or_null_rep [of s n 0 t]])
      (use F foc_nonzero(1) [OF F(1)] in \<open>auto simp: foc_def\<close>)
  with erase_end_ok [OF F(1) Nil(2,3)] F(3) show ?case by (simp add: rb_erase_color_end)
next
  case (Cons fr K)
  obtain d p cp u where fr: "fr = (d, p, cp, u)" by (cases fr)
  have u: "invc u" "invh u" "bh u = Suc (bh t)" "cp = Red \<Longrightarrow> color_of u = Black"
    and K: "cp = Red \<Longrightarrow> \<exists>d' a' u' K'. K = (d', a', Black, u') # K'" "cinv (if cp = Black then Suc (bh u) else bh u) K"
    using Cons(5) fr by auto
  show ?case
  proof (cases "color_of t = Red")
    case True
    with erase_end_ok [OF Cons(2,3,4)] Cons(5) erase_loop_red [OF Cons(2) True]
    show ?thesis by (simp add: rb_erase_color_end)
  next
    case False
    then have t: "color_of t = Black" "invc t" using Cons(3) by (cases "color_of t"; simp)+
    have q: "q = p" using Cons(2) fr by (simp add: foc_def)
    have F: "foc s n p t ((d, p, cp, u) # K)" using Cons(2) fr q by simp
    have G: "foc s p (par s p) (mk d t p cp u) K" by (rule foc_up [OF F])
    have une: "u \<noteq> Leaf" using u(3) by auto
    have "n \<noteq> rb_root s"
    proof -
      have S: "seq_ok (before ((d, p, cp, u) # K) @ addrs t @ after ((d, p, cp, u) # K))" using F by (simp add: foc_def)
      have "around s p (par s p) K" using G by (simp add: foc_def)
      then have r: "rb_root s \<in> cset ((d, p, cp, u) # K)" using around_root by fastforce
      have "rep s n p t" using F by (simp add: foc_def)
      from rep_root [OF this] have "n = 0 \<or> n \<in> set (addrs t)" .
      with seq_okD(2,4) [OF S r] show ?thesis by metis
    qed
    moreover have "black_or_null n s = Some True"
      using black_or_null_rep [of s n p t] F foc_nonzero(1) [OF F] t by (auto simp: foc_def)
    ultimately have "erase_loop n q s = Option.bind (erase_fix d p s) (\<lambda>r.
        case fst r of Inl np \<Rightarrow> erase_loop (fst np) (snd np) (snd r) | Inr n \<Rightarrow> Some (n, snd r))"
      by (subst erase_loop.simps) (simp add: q erase_step_dir [OF F une])
    then have run: "rb_erase_color n q s = Option.bind (erase_fix d p s) (\<lambda>(r, s').
        case r of Inl (n', q') \<Rightarrow> rb_erase_color n' q' s' | Inr n' \<Rightarrow> erase_end (n', s'))"
      unfolding rb_erase_color_end
      by (auto simp: case_prod_unfold intro!: arg_cong [where f = "Option.bind (erase_fix d p s)"] split: sum.split)
    have X: "addrs (plug t (fr # K)) = before K @ addrs (mk d t p cp u) @ after K"
      by (simp add: fr addrs_plug)
    have "wp (erase_fix d p s) (\<lambda>(r, s'). wp (case r of Inl (n', q') \<Rightarrow> rb_erase_color n' q' s' | Inr n' \<Rightarrow> erase_end (n', s'))
        (erased (addrs (plug t (fr # K)))))"
    proof (rule wp_pair_mono [OF erase_fix_ok [OF G t(2) Cons(4) t(1) u]], assumption, erule disjE)
      fix r :: "u32 \<times> u32 + u32" and s'
      assume "rest_ok (mk d t p cp u) K (Suc (bh u) - (if cp = Red then 1 else 0)) p r s'"
      then show "wp (case r of Inl (n', q') \<Rightarrow> rb_erase_color n' q' s' | Inr n' \<Rightarrow> erase_end (n', s'))
        (erased (addrs (plug t (fr # K))))"
      proof (cases rule: rest_okE)
        case (on q' T)
        have "wp (rb_erase_color p q' s') (erased (addrs (plug T K)))"
          by (rule Cons(1) [OF on(2,5,4)]) (use on(6) K(2) in \<open>cases cp; simp\<close>)
        moreover have "addrs (plug T K) = addrs (plug t (fr # K))" unfolding X by (simp add: addrs_plug on(3))
        ultimately show ?thesis using on(1) by simp
      next
        case (over q' k T)
        have c: "color_of T = cp" using over(7) by simp
        have h: "cinv (bh T) K" using over(6) K(2) by (cases cp) simp_all
        have b: "color_of T = Black" if "red_frame K \<or> K = []"
          using K(1) that c by (cases cp) (auto simp: red_frame_def)
        have "wp (erase_end (rb_root s', s')) (erased (addrs (plug T K)))"
          by (rule erase_end_root [OF over(2,5,4) h]) (use b in simp_all)
        moreover have "addrs (plug T K) = addrs (plug t (fr # K))" unfolding X by (simp add: addrs_plug over(3))
        ultimately show ?thesis using over(1) by simp
      qed
    next
      fix r :: "u32 \<times> u32 + u32" and s'
      assume "\<exists>k c z. cp = Black \<and> rest_ok (mk d t p Red c) ((d, k, Black, z) # K) (bh u) p r s' \<and>
         addrs (mk d (mk d t p Red c) k Black z) = addrs (mk d t p cp u) \<and> invc z \<and> invh z \<and> bh z = bh u"
      then obtain k c z where z: "cp = Black" "addrs (mk d (mk d t p Red c) k Black z) = addrs (mk d t p cp u)"
          "invc z" "invh z" "bh z = bh u"
        and rest: "rest_ok (mk d t p Red c) ((d, k, Black, z) # K) (bh u) p r s'" by blast
      let ?K = "(d, k, Black, z) # K"
      have cK: "cinv (bh u) ?K" using z K(2) by simp
      have A: "addrs (plug T ?K) = addrs (plug t (fr # K))" if "addrs T = addrs (mk d t p Red c)" for T
      proof -
        have "addrs (mk d T k Black z) = addrs (mk d t p cp u)"
          unfolding z(2) [symmetric] by (simp add: addrs_mk [of d] that)
        then show ?thesis unfolding X by (simp add: addrs_plug)
      qed
      from rest show "wp (case r of Inl (n', q') \<Rightarrow> rb_erase_color n' q' s' | Inr n' \<Rightarrow> erase_end (n', s'))
        (erased (addrs (plug t (fr # K))))"
      proof (cases rule: rest_okE)
        case (on q' T)
        then have red: "color_of T = Red" by simp
        have "wp (erase_end (p, s')) (erased (addrs (plug t (fr # K))))"
          unfolding A [OF on(3), symmetric] by (rule erase_end_ok [OF on(2,5,4)]) (use on(6) red cK in simp)
        then show ?thesis
          using erase_loop_red [OF on(2) red] on(1) by (simp add: rb_erase_color_end)
      next
        case (over q' k' T)
        have "wp (erase_end (rb_root s', s')) (erased (addrs (plug t (fr # K))))"
          unfolding A [OF over(3), symmetric] by (rule erase_end_root [OF over(2,5,4)]) (use over(6) cK in \<open>auto simp: red_frame_def\<close>)
        then show ?thesis by (simp add: over(1))
      qed
    qed
    then show ?thesis unfolding run by (simp add: case_prod_unfold)
  qed
qed

section \<open>Taking a node out\<close>

fun root_of :: "rtree \<Rightarrow> u32" where
  "root_of Leaf = 0"
| "root_of (Node l (a, c) r) = a"

fun top_of :: "frame list \<Rightarrow> u32" where
  "top_of [] = 0"
| "top_of ((d, a, c, t) # K) = a"

lemma foc_ends: "foc s p q t K \<Longrightarrow> p = root_of t \<and> q = top_of K"
  by (cases t rule: root_of.cases; cases K rule: top_of.cases) (simp_all add: foc_def)

lemma foc_up_list: "foc s p q t (J @ K) \<Longrightarrow> foc s (root_of (plug t J)) (top_of K) (plug t J) K"
proof (induction t J arbitrary: p q rule: plug.induct)
  case (1 t)
  then show ?case using foc_ends [OF 1] by simp
next
  case (2 t d a c u J)
  then show ?case using foc_up [of s p q t d a c u "J @ K"] by simp
qed

lemma foc_down_list: "foc s p q (plug t J) K \<Longrightarrow> foc s (root_of t) (top_of (J @ K)) t (J @ K)"
proof (induction t J arbitrary: p q rule: plug.induct)
  case (1 t)
  then show ?case using foc_ends [of s p q t K] by simp
next
  case (2 t d a c u J)
  have F: "foc s (root_of (mk d t a c u)) (top_of (J @ K)) (mk d t a c u) (J @ K)"
    by (rule 2(1)) (use 2(2) in simp)
  have "root_of (mk d t a c u) = a" by (cases d) (simp_all add: mk_def)
  with F have "foc s (ch s d a) a t ((d, a, c, u) # J @ K)" using foc_down' by metis
  with foc_ends [OF this] show ?case by simp
qed

text \<open>A node with at most one child: the child takes its place.\<close>

lemma foc_unlink:
  assumes F: "foc s a q (mk d t a c Leaf) K"
  defines "p \<equiv> ch s d a"
  defines "s1 \<equiv> (if p \<noteq> 0 then put_par p q s else s)"
  shows "foc (relink K p s1) p q t K"
proof -
  have al: "aligned q" by (rule foc_aligned [OF F])
  have S: "seq_ok (before K @ addrs (mk d t a c Leaf) @ after K)" using F by (simp add: foc_def)
  note D = seq_ok_mk [OF S]
  have R: "rep s p a t" "around s a q K" using F by (simp_all add: foc_def p_def)
  have p: "p = 0 \<or> p \<in> set (addrs t)" using rep_root [OF R(1)] .
  have T: "b \<notin> cset K" if "b \<in> set (addrs t)" for b using D(7) that by blast
  have C: "ch s1 e b = ch s e b" "col s1 b = col s b" "par s1 b = (if b = p \<and> p \<noteq> 0 then q else par s b)"
    "rb_root s1 = rb_root s" for b e
    using al by (simp_all add: s1_def)
  have "rep (relink K p s1) p q t"
    by (rule rep_frame [OF R(1)]) (use T C D p in auto)
  moreover have "around (relink K p s1) p q K"
    by (rule around_relink [OF R(2) D(14)])
      (use C D(7) p in \<open>auto simp: relink_def split: list.split prod.split\<close>)
  moreover have "seq_ok (before K @ addrs t @ after K)"
    using S unfolding seq_ok_mk_iff by (auto simp: seq_ok_def)
  ultimately show ?thesis by (simp add: foc_def)
qed

text \<open>A new node with the fields of an old one takes its place.\<close>

lemma foc_replace:
  assumes F: "foc s a q (Node l (a, c) r) K"
    and y: "y \<noteq> 0" "aligned y" "y \<notin> set (addrs (Node l (a, c) r))" "y \<notin> cset K"
    and Y: "\<And>d. ch s' d y = ch s d a" "par s' y = q" "col s' y = c"
    and B: "\<And>b d. b \<in> set (addrs l) \<union> set (addrs r) \<Longrightarrow> ch s' d b = ch s d b"
      "\<And>b. b \<in> set (addrs l) \<union> set (addrs r) \<Longrightarrow> col s' b = col s b"
      "\<And>b. b \<in> set (addrs l) \<union> set (addrs r) \<Longrightarrow>
         par s' b = (if b = ch s L a \<or> b = ch s R a then y else par s b)"
    and K: "\<And>b d. b \<in> cset K \<Longrightarrow> ch s' d b = ch (relink K y s) d b" "\<And>b. b \<in> cset K \<Longrightarrow> col s' b = col s b"
      "\<And>b. b \<in> cset K \<Longrightarrow> par s' b = par s b" "rb_root s' = rb_root (relink K y s)"
  shows "foc s' y q (Node l (y, c) r) K"
proof -
  have M: "Node l (a, c) r = mk L l a c r" by (simp add: mk_def)
  have S: "seq_ok (before K @ addrs (mk L l a c r) @ after K)" using F by (simp add: foc_def M [symmetric])
  note D = seq_ok_mk [OF S]
  have R: "rep s (ch s L a) a l" "rep s (ch s R a) a r" "around s a q K" using F by (simp_all add: foc_def)
  have roots: "ch s L a = 0 \<or> ch s L a \<in> set (addrs l)" "ch s R a = 0 \<or> ch s R a \<in> set (addrs r)"
    using rep_root R by blast+
  have "rep s' (ch s L a) y l"
    by (rule rep_frame [OF R(1)]) (use B D(6,9,12) roots in auto)
  moreover have "rep s' (ch s R a) y r"
    by (rule rep_frame [OF R(2)]) (use B D(6,10,13) roots in auto)
  moreover have "around s' y q K" by (rule around_relink [OF R(3) D(14) K])
  moreover have "seq_ok (before K @ addrs (Node l (y, c) r) @ after K)"
  proof -
    have "seq_ok (before K @ addrs (mk L l y c r) @ after K)"
      using S y unfolding seq_ok_mk_iff by (auto simp: seq_ok_def cset_def)
    then show ?thesis by (simp add: mk_def)
  qed
  ultimately show ?thesis using Y by (simp add: foc_def)
qed

text \<open>The leftmost node of a subtree, in its context: a path of left turns.\<close>

lemma leftmost_focus:
  assumes "foc s p q t K" and "t \<noteq> Leaf"
  shows "\<exists>y c r J. go_left p s = Some y \<and> foc s y (top_of (J @ K)) (Node Leaf (y, c) r) (J @ K) \<and>
           plug (Node Leaf (y, c) r) J = t \<and> before (J @ K) = before K \<and> (J = [] \<longleftrightarrow> y = p) \<and>
           (\<forall>f \<in> set J. fst f = L)"
  using assms
proof (induction t arbitrary: p q K)
  case (Node l v r)
  obtain a c where v: "v = (a, c)" by (cases v)
  have nz: "a \<noteq> 0" "p = a" using foc_nonzero(1) [OF Node(3), of a] Node(3) v by (simp_all add: foc_def)
  have D: "foc s (ch s L a) a l ((L, a, c, r) # K)"
    using foc_down' [of s a q L l c r K] Node(3) v nz by (simp add: mk_def)
  show ?case
  proof (cases "l = Leaf")
    case True
    then have "ch s L a = 0" using D by (simp add: foc_def)
    then have "go_left p s = Some a" using nz by (subst go_left.simps) (simp add: accessors)
    moreover have "foc s a (top_of ([] @ K)) (Node Leaf (a, c) r) ([] @ K)"
      using Node(3) foc_ends [OF Node(3)] v True nz by simp
    ultimately show ?thesis using v True nz
      by (intro exI [of _ a] exI [of _ c] exI [of _ r] exI [of _ "[]"]) simp
  next
    case False
    then have ne: "ch s L a \<noteq> 0" using D foc_nonzero(1) [OF D] by (cases l) (auto simp: foc_def)
    from Node(1) [OF D False] obtain y c' r' J where
      y: "go_left (ch s L a) s = Some y" "foc s y (top_of (J @ (L, a, c, r) # K)) (Node Leaf (y, c') r') (J @ (L, a, c, r) # K)"
        "plug (Node Leaf (y, c') r') J = l" "before (J @ (L, a, c, r) # K) = before K" "\<forall>f \<in> set J. fst f = L"
      by auto
    have "go_left p s = Some y" using nz ne y(1) by (subst go_left.simps) (simp add: accessors)
    moreover have "plug (Node Leaf (y, c') r') (J @ [(L, a, c, r)]) = Node l v r"
    proof -
      have "plug x (J @ [(L, a, c, r)]) = mk L (plug x J) a c r" for x by (induction x J rule: plug.induct) simp_all
      then show ?thesis by (simp add: y(3) v mk_def)
    qed
    moreover have "y \<noteq> p"
    proof -
      have "y \<notin> cset (J @ (L, a, c, r) # K)" using seq_okD(1) [of "J @ (L, a, c, r) # K" "Node Leaf (y, c') r'" y] y(2)
        by (simp add: foc_def)
      moreover have "a \<in> cset (J @ (L, a, c, r) # K)" by (induction J) auto
      ultimately show ?thesis using nz by blast
    qed
    ultimately show ?thesis using y
      by (intro exI [of _ y] exI [of _ c'] exI [of _ r'] exI [of _ "J @ [(L, a, c, r)]"]) simp
  qed
qed simp

section \<open>Replacing a node\<close>

lemma rb_replace_node_ok:
  assumes T: "tree_at s T" "addrs T = xs @ a # ys" and y: "y \<noteq> 0" "aligned y" "y \<notin> set (addrs T)"
  shows "wp (rb_replace_node a y s) (\<lambda>s'. \<exists>T'. tree_at s' T' \<and> addrs T' = xs @ y # ys \<and> (rbt T \<longrightarrow> rbt T'))"
proof -
  obtain q l c r K where F: "foc s a q (Node l (a, c) r) K" "plug (Node l (a, c) r) K = T"
    using focus_node [OF T(1)] T(2) by (metis in_set_conv_decomp)
  have M: "Node l (a, c) r = mk L l a c r" by (simp add: mk_def)
  have S: "seq_ok (before K @ addrs (mk L l a c r) @ after K)" using F(1) by (simp add: foc_def M [symmetric])
  note D = seq_ok_mk [OF S]
  have A: "addrs T = (before K @ addrs l) @ a # (addrs r @ after K)" using addrs_plug [of "Node l (a, c) r" K] F(2) by simp
  have "a \<notin> set xs" "a \<notin> set ys"
    using T by (simp_all add: tree_at_def foc_def seq_ok_def)
  then have X: "xs = before K @ addrs l" "ys = addrs r @ after K"
    using append_Cons_eq_iff [of a xs ys "before K @ addrs l" "addrs r @ after K"] T(2) A by simp_all
  have yn: "y \<notin> set (addrs l)" "y \<notin> set (addrs r)" "y \<notin> cset K" "y \<noteq> a" using y(3) unfolding A by (auto simp: cset_def)
  have R: "rep s (ch s L a) a l" "rep s (ch s R a) a r" "par s a = q" "col s a = c" using F(1) by (simp_all add: foc_def)
  have roots: "ch s L a = 0 \<or> ch s L a \<in> set (addrs l)" "ch s R a = 0 \<or> ch s R a \<in> set (addrs r)"
    using rep_root R by blast+
  have lk: "linked s a q K" by (rule foc_linked [OF F(1)]) simp
  define s1 where "s1 = relink K y s"
  define s2 where "s2 = (if ch s L a \<noteq> 0 then put_par (ch s L a) y s1 else s1)"
  define s3 where "s3 = (if ch s R a \<noteq> 0 then put_par (ch s R a) y s2 else s2)"
  define s4 where "s4 = put (\<lambda>_. nodes s3 a) y s3"
  have c1: "ch s1 d a = ch s d a" for d using D(5) by (simp add: s1_def)
  have run: "rb_replace_node a y s = Some s4"
    using D(1) y(1) c1
    by (simp add: rb_replace_node_def accessors R(3) replace_child_relink [OF lk] s1_def [symmetric] load_node_def
        store_node_def s4_def put_def s3_def s2_def)
  have f3: "ch s3 d b = ch s1 d b" "col s3 b = col s1 b"
    "par s3 b = (if b = ch s L a \<and> b \<noteq> 0 \<or> b = ch s R a \<and> b \<noteq> 0 then y else par s1 b)"
    "rb_root s3 = rb_root s1" for d b
    using y(2) by (auto simp: s3_def s2_def)
  have f4: "ch s4 d b = ch s3 d (if b = y then a else b)" "col s4 b = col s3 (if b = y then a else b)"
    "par s4 b = par s3 (if b = y then a else b)" "rb_root s4 = rb_root s3" for d b
    by (simp_all add: s4_def put_def ch_def col_def par_def split: dir.split)
  have "foc s4 y q (Node l (y, c) r) K"
  proof (rule foc_replace [OF F(1) y(1,2)])
    show "y \<notin> set (addrs (Node l (a, c) r))" "y \<notin> cset K" using yn by simp_all
    show "ch s4 d y = ch s d a" "col s4 y = c" for d using f4 f3 c1 R(4) by (simp_all add: s1_def)
    show "par s4 y = q" using f4 f3 R(3) D roots by (auto simp: s1_def)
    fix b
    { assume b: "b \<in> set (addrs l) \<union> set (addrs r)"
      then have bk: "b \<notin> cset K" "b \<noteq> y" "b \<noteq> 0" using D(7,8,9,10) yn by auto
      show "ch s4 d b = ch s d b" "col s4 b = col s b" for d using bk f4 f3 by (simp_all add: s1_def)
      show "par s4 b = (if b = ch s L a \<or> b = ch s R a then y else par s b)"
        using bk f4 f3 by (auto simp: s1_def) }
    { assume b: "b \<in> cset K"
      then have bk: "b \<noteq> y" "b \<noteq> a" "b \<noteq> ch s L a" "b \<noteq> ch s R a" using D(5,7,8,11) yn roots by auto
      show "ch s4 d b = ch (relink K y s) d b" "col s4 b = col s b" "par s4 b = par s b" for d
        using bk f4 f3 by (simp_all add: s1_def) }
    show "rb_root s4 = rb_root (relink K y s)" using f4 f3 by (simp add: s1_def)
  qed
  then have "tree_at s4 (plug (Node l (y, c) r) K)" by (rule foc_plug)
  moreover have "addrs (plug (Node l (y, c) r) K) = xs @ y # ys" by (simp add: addrs_plug X)
  moreover have "rbt (plug (Node l (y, c) r) K)" if "rbt T"
  proof -
    have P: "cinv (bh (Node l (a, c) r)) K \<and> invc (Node l (a, c) r) \<and> invh (Node l (a, c) r) \<and>
        (red_frame K \<longrightarrow> color_of (Node l (a, c) r) = Black)"
      by (rule plug_cinv) (use that F(2) in \<open>simp_all add: rbt_def\<close>)
    then have P': "cinv (bh (Node l (y, c) r)) K" "invc (Node l (y, c) r)" "invh (Node l (y, c) r)"
      "red_frame K \<Longrightarrow> color_of (Node l (y, c) r) = Black"
      unfolding bh.simps invc.simps invh.simps color_of.simps by blast+
    have "color_of (plug (Node l (y, c) r) K) = Black"
    proof (cases "K = []")
      case True
      then show ?thesis using that F(2) by (auto simp: rbt_def)
    qed (use plug_black [OF P'(1)] in blast)
    with plug_inv [OF P'] show ?thesis by (simp add: rbt_def)
  qed
  ultimately show ?thesis using run by auto
qed

section \<open>Erasing\<close>

text \<open>After the node is out: the repair runs when it was black.\<close>

lemma erase_tail:
  assumes F: "foc s p q t K" and t: "invc t" "invh t" and K: "cinv (bh t + (if c = Black then 1 else 0)) K"
    and red: "c = Red \<Longrightarrow> color_of t = Black \<and> K \<noteq> []"
  shows "wp (if (case c of Red \<Rightarrow> 0 | Black \<Rightarrow> 1) = RB_BLACK then rb_erase_color p q s else Some s)
    (erased (addrs (plug t K)))"
proof (cases c)
  case Black
  have "invc (blacken t)" using t(1) by (cases t rule: blacken.cases) auto
  from rb_erase_color_ok [OF F this t(2)] K Black show ?thesis by (simp add: RB_BLACK_def)
next
  case Red
  have i: "invc (plug t K)" "invh (plug t K)" using plug_inv [of t K] t K red Red by auto
  have b: "color_of (plug t K) = Black" by (rule plug_black) (use K red Red in auto)
  with i foc_plug [OF F] have "erased (addrs (plug t K)) s" by (auto simp: erased_def rbt_def)
  with Red show ?thesis by (simp add: RB_BLACK_def)
qed

text \<open>The part of \<open>rb_erase\<close> for a node with at most one child.\<close>

lemma erase_one:
  assumes F: "foc s a q (mk d t a c Leaf) K" and T: "rbt (plug (mk d t a c Leaf) K)" and p: "p = ch s d a"
  shows "wp (do {
      s \<leftarrow> (if p \<noteq> 0 then rb_set_parent p q s else Some s);
      s \<leftarrow> replace_child q a p s;
      if (case c of Red \<Rightarrow> 0 | Black \<Rightarrow> 1) = RB_BLACK then rb_erase_color p q s else Some s })
    (erased (addrs (plug t K)))" (is "wp ?run _")
proof -
  let ?m = "mk d t a c Leaf" and ?p = p
  define s1 where "s1 = (if ?p \<noteq> 0 then put_par ?p q s else s)"
  have M: "?m \<noteq> Leaf" by (cases d) (simp_all add: mk_def)
  have S: "seq_ok (before K @ addrs ?m @ after K)" using F by (simp add: foc_def)
  have "linked s1 a q K"
    using foc_linked [OF F M] by (auto simp: s1_def linked_def split: list.splits)
  then have rc: "replace_child q a ?p s1 = Some (relink K ?p s1)" by (rule replace_child_relink)
  have a: "a \<noteq> 0" "a \<notin> cset K" using seq_ok_mk [OF S] by simp_all
  have U: "foc (relink K ?p s1) ?p q t K" unfolding s1_def p by (rule foc_unlink [OF F])
  have P: "cinv (bh ?m) K \<and> invc ?m \<and> invh ?m \<and> (red_frame K \<longrightarrow> color_of ?m = Black)"
    by (rule plug_cinv) (use T in \<open>simp_all add: rbt_def\<close>)
  have h: "bh ?m = bh t + (if c = Black then 1 else 0)" using P by (intro bh_mk) simp
  have "c = Red \<Longrightarrow> K \<noteq> []" using T by (cases "K = []") (auto simp: rbt_def)
  then have "wp (if (case c of Red \<Rightarrow> 0 | Black \<Rightarrow> 1) = RB_BLACK then rb_erase_color ?p q (relink K ?p s1) else Some (relink K ?p s1))
      (erased (addrs (plug t K)))"
    by (intro erase_tail [OF U]) (use P h in auto)
  moreover have "?run = (if (case c of Red \<Rightarrow> 0 | Black \<Rightarrow> 1) = RB_BLACK then rb_erase_color ?p q (relink K ?p s1) else Some (relink K ?p s1))"
    using rc by (cases "?p = 0") (simp_all add: accessors s1_def)
  ultimately show ?thesis by simp
qed


text \<open>The part for a node with two children: the state before the repair.\<close>

lemma cinv_rename: "cinv n (J @ (d, a, c, t) # K) = cinv n (J @ (d, y, c, t) # K)"
proof (induction J arbitrary: n)
  case (Cons f J)
  obtain d' a' c' t' where f: "f = (d', a', c', t')" by (cases f)
  have "(\<exists>d'' a'' u' K'. J @ (d, a, c, t) # K = (d'', a'', Black, u') # K') \<longleftrightarrow>
        (\<exists>d'' a'' u' K'. J @ (d, y, c, t) # K = (d'', a'', Black, u') # K')"
    by (cases J) auto
  with Cons f show ?case by simp
qed simp

lemma before_after_rename:
  "a \<noteq> y \<Longrightarrow> \<forall>f \<in> set J. fst f = L \<Longrightarrow>
   before (J @ (R, y, c, t) # K) = before K @ addrs t @ [y] \<and> after (J @ (R, y, c, t) # K) = after (J @ (R, a, c, t) # K)"
proof (induction J)
  case (Cons f J)
  obtain d' a' c' t' where f: "f = (d', a', c', t')" by (cases f)
  with Cons show ?case by auto
qed simp

text \<open>\<^verbatim>\<open>node->rb_parent_color = old->rb_parent_color; node->rb_left = old->rb_left\<close>.\<close>

definition half_copy :: "u32 \<Rightarrow> u32 \<Rightarrow> rb_tree \<Rightarrow> rb_tree" where
  "half_copy a y s = put (\<lambda>n. n\<lparr>rb_parent_color := rb_parent_color (nodes s a), rb_left := rb_left (nodes s a)\<rparr>) y s"

lemma half_copy_fields [simp]:
  "ch (half_copy a y s) d b = (if b = y \<and> d = L then ch s L a else ch s d b)"
  "par (half_copy a y s) b = (if b = y then par s a else par s b)"
  "col (half_copy a y s) b = (if b = y then col s a else col s b)" "rb_root (half_copy a y s) = rb_root s"
  by (auto simp: half_copy_def put_def ch_def par_def col_def split: dir.split)

text \<open>The successor \<open>y\<close>, with right child \<open>p\<close> and parent \<open>w\<close>, is taken out of its place and put in that of \<open>a\<close>.\<close>

definition swap_out :: "frame list \<Rightarrow> u32 \<Rightarrow> u32 \<Rightarrow> u32 \<Rightarrow> u32 \<Rightarrow> rb_tree \<Rightarrow> rb_tree" where
  "swap_out K a y p w s =
     (let s1 = relink K y s;
          s2 = (if w = a then s1
                else put_par (ch s R a) y (put_ch R y (ch s R a) (put_ch L w p (if p \<noteq> 0 then put_par p w s1 else s1))))
      in put_par (ch s L a) y (half_copy a y s2))"

lemma set_sides:
  "p \<noteq> 0 \<Longrightarrow> set_left p x s = Some (put_ch L p x s)" "p \<noteq> 0 \<Longrightarrow> set_right p x s = Some (put_ch R p x s)"
  by (simp_all add: set_left_def set_right_def store_node_def put_ch_def put_def)

lemma rb_erase_two:
  assumes nz: "a \<noteq> 0" "y \<noteq> 0" "w \<noteq> 0" "ch s L a \<noteq> 0" "ch s R a \<noteq> 0" "y \<noteq> a" "aligned y" "aligned w"
    and lk: "linked s a q K" "par s a = q" and lm: "go_left (ch s R a) s = Some y"
    and yf: "ch s R y = p" "par s y = w" "col s y = cy" and out: "a \<notin> cset K" "y \<notin> cset K" "w = a \<or> w \<notin> cset K"
    and pw: "p \<noteq> a" "w \<noteq> y"
  shows "rb_erase a s = (if (case cy of Red \<Rightarrow> 0 | Black \<Rightarrow> 1) = RB_BLACK
     then rb_erase_color p (if w = a then y else w) (swap_out K a y p w s) else Some (swap_out K a y p w s))"
proof -
  have hc: "Option.bind (load_node a s') (\<lambda>on. Option.bind
        (store_node (\<lambda>n. n\<lparr>rb_parent_color := rb_parent_color on, rb_left := rb_left on\<rparr>) y s') f) = f (half_copy a y s')" for s' f
    using nz by (simp add: load_node_def store_node_def half_copy_def put_def)
  have c1: "ch (relink K y s) d a = ch s d a" "ch (relink K y s) d y = ch s d y" for d using out by simp_all
  show ?thesis
  proof (cases "w = a")
    case True
    then show ?thesis
      using nz lk(2) lm yf c1
      by (simp add: rb_erase_def accessors set_sides replace_child_relink [OF lk(1)] rb_color_col hc swap_out_def Let_def)
  next
    case False
    then show ?thesis
      using nz lk(2) lm yf c1 pw
      by (cases "p = 0") (simp_all add: rb_erase_def accessors set_sides replace_child_relink [OF lk(1)] rb_color_col hc swap_out_def Let_def)
  qed
qed


lemma swap_out_fields:
  assumes "aligned y" "aligned w" and "y \<noteq> a" "w \<noteq> y" "p \<noteq> y" "a \<notin> cset K" "y \<notin> cset K"
  shows "ch (swap_out K a y p w s) d b =
      (if b = y then (if d = L then ch s L a else if w = a then ch s R y else ch s R a)
       else if b = w \<and> w \<noteq> a \<and> d = L then p else ch (relink K y s) d b)"
    and "col (swap_out K a y p w s) b = (if b = y then col s a else col s b)"
    and "par (swap_out K a y p w s) b =
      (if b = ch s L a then y
       else if b = y then (if w \<noteq> a \<and> a = ch s R a then y else if w \<noteq> a \<and> p \<noteq> 0 \<and> a = p then w else par s a)
       else if w \<noteq> a \<and> b = ch s R a then y else if w \<noteq> a \<and> p \<noteq> 0 \<and> b = p then w else par s b)"
    and "rb_root (swap_out K a y p w s) = rb_root (relink K y s)"
  using assms by (cases d; auto simp: swap_out_def Let_def)+

lemma swap_out_foc:
  assumes F: "foc s a q (Node l (a, c) r) K" and l: "l \<noteq> Leaf"
    and Y: "foc s y w (Node Leaf (y, cy) ry) (J @ (R, a, c, l) # K)" and r: "plug (Node Leaf (y, cy) ry) J = r"
    and J: "J = [] \<longleftrightarrow> y = ch s R a" "\<forall>f \<in> set J. fst f = L"
  defines "p \<equiv> ch s R y"
  shows "foc (swap_out K a y p w s) p (if w = a then y else w) ry (J @ (R, y, c, l) # K)"
proof -
  let ?s7 = "swap_out K a y p w s" and ?K0 = "J @ (R, a, c, l) # K"
  define s1 where "s1 = (if p \<noteq> 0 then put_par p w s else s)"
  define sA where "sA = relink ?K0 p s1"
  have Ym: "Node Leaf (y, cy) ry = mk R ry y cy Leaf" by (simp add: mk_def)
  have SY: "seq_ok (before ?K0 @ addrs (mk R ry y cy Leaf) @ after ?K0)" using Y by (simp add: foc_def Ym)
  note DY = seq_ok_mk [OF SY]
  have inK0: "set (before ?K0) \<union> set (after ?K0) = cset ?K0" by (simp add: cset_def)
  have alw: "aligned w" by (rule foc_aligned [OF Y])
  have w: "w = top_of ?K0" using foc_ends [OF Y] by simp
  have csub: "cset K \<subseteq> cset ?K0" "a \<in> cset ?K0" "set (addrs l) \<subseteq> cset ?K0" by (induction J; auto)+
  have wK0: "w \<in> cset ?K0" unfolding w by (cases J rule: top_of.cases) simp_all
  have reps: "rep s p y ry" using Y by (simp add: foc_def p_def)
  have p: "p = 0 \<or> p \<in> set (addrs ry)" by (rule rep_root [OF reps])
  have ya: "y \<noteq> a" "w \<noteq> y" "p \<noteq> y" "p \<noteq> a \<or> p = 0" "p \<noteq> w \<or> p = 0" "y \<notin> cset K" "y \<noteq> 0" "aligned y"
    using DY csub wK0 p by auto
  have Fm: "Node l (a, c) r = mk L l a c r" by (simp add: mk_def)
  have SF: "seq_ok (before K @ addrs (mk L l a c r) @ after K)" using F by (simp add: foc_def Fm [symmetric])
  note DF = seq_ok_mk [OF SF]
  have A: "foc sA p w ry ?K0" unfolding sA_def s1_def p_def by (rule foc_unlink [OF Y [unfolded Ym]])
  define r' where "r' = plug ry J"
  have "foc sA (root_of r') a r' ((R, a, c, l) # K)"
    using foc_up_list [OF A] by (simp add: r'_def)
  then have "foc sA a (par sA a) (Node l (a, c) r') K" using foc_up by (fastforce simp: mk_def)
  then have FA: "foc sA a q (Node l (a, c) r') K" using foc_ends F by metis
  have rsub: "set (addrs r) = insert y (set (addrs r'))"
    unfolding r [symmetric] r'_def by (auto simp: addrs_plug)
  have "y \<notin> set (addrs r')"
  proof -
    have "distinct (addrs r)" by (rule DF(13))
    then show ?thesis unfolding r [symmetric] r'_def by (auto simp: addrs_plug)
  qed
  have onl: "ch s L a \<noteq> 0" "ch s L a \<in> set (addrs l)"
    using F l DF by (cases l; auto simp: foc_def)+
  have onr: "ch s R a \<in> set (addrs r)" "ch s R a \<noteq> 0"
  proof -
    have "rep s (ch s R a) a r" using F by (simp add: foc_def)
    moreover have "r \<noteq> Leaf" using rsub by auto
    ultimately show "ch s R a \<in> set (addrs r)" by (cases r) auto
    then show "ch s R a \<noteq> 0" using DF(10) by auto
  qed
  have wJ: "w = a \<longleftrightarrow> J = []" "J \<noteq> [] \<Longrightarrow> w \<in> set (addrs r')"
  proof -
    have wr: "w \<in> set (addrs r')" if "J \<noteq> []"
      using w that unfolding r'_def by (cases J rule: top_of.cases) (auto simp: addrs_plug split: if_splits)
    then show "J \<noteq> [] \<Longrightarrow> w \<in> set (addrs r')" .
    have "w = a" if "J = []" unfolding w that by simp
    moreover have "w \<noteq> a" if "J \<noteq> []"
    proof -
      have "w \<in> set (addrs r)" unfolding rsub using wr [OF that] by simp
      with DF(4) show ?thesis by blast
    qed
    ultimately show "w = a \<longleftrightarrow> J = []" by blast
  qed
  have sub: "b \<notin> cset K \<and> b \<noteq> y \<and> b \<noteq> a \<and> b \<noteq> 0" if "b \<in> set (addrs l) \<union> set (addrs r')" for b
  proof -
    have b: "b \<in> set (addrs l) \<or> b \<in> set (addrs r')" "b \<in> set (addrs l) \<or> b \<in> set (addrs r)" using that rsub by auto
    have "y \<notin> set (addrs l)" using DY(5) csub(3) by blast
    with b(1) \<open>y \<notin> set (addrs r')\<close> have "b \<noteq> y" by auto
    with b(2) DF(3,4,7,8,9,10) show ?thesis by auto
  qed
  have pr: "p = 0 \<or> p \<in> set (addrs r')" using p unfolding r'_def by (auto simp: addrs_plug)
  have sA: "par sA b = (if p \<noteq> 0 \<and> b = p then w else par s b)" "col sA b = col s b" "rb_root sA = rb_root s"
    "ch sA d b = (if J = [] then if b = a \<and> d = R then p else ch s d b else if b = w \<and> d = L then p else ch s d b)" for b d
  proof -
    show "par sA b = (if p \<noteq> 0 \<and> b = p then w else par s b)" "col sA b = col s b"
      using alw by (simp_all add: sA_def s1_def)
    have "\<exists>d t c K'. ?K0 = (d, w, c, t) # K' \<and> d = (if J = [] then R else L)"
      using w J(2) by (cases J) auto
    then obtain e t' c' K' where K0: "?K0 = (e, w, c', t') # K'" "e = (if J = [] then R else L)" by blast
    show "rb_root sA = rb_root s" unfolding sA_def K0 by (simp add: relink_def s1_def)
    show "ch sA d b = (if J = [] then if b = a \<and> d = R then p else ch s d b else if b = w \<and> d = L then p else ch s d b)"
      unfolding sA_def K0 using K0(2) wJ(1) by (auto simp: relink_def s1_def)
  qed
  note S7 = swap_out_fields [OF ya(8) alw ya(1,2,3) DF(5) ya(6), of s]
  have parp: "p \<noteq> 0 \<Longrightarrow> par s p = y" using reps p DY(9) by (cases ry) auto
  have "foc ?s7 y q (Node l (y, c) r') K"
  proof (rule foc_replace [OF FA ya(7,8)])
    show "y \<notin> set (addrs (Node l (a, c) r'))" "y \<notin> cset K"
      using sub ya \<open>y \<notin> set (addrs r')\<close> DY(5) csub by auto
    show "ch ?s7 d y = ch sA d a" for d
      unfolding S7(1) sA(4) using wJ(1) p_def by (cases d) auto
    show "par ?s7 y = q"
    proof -
      have "par s a = q" using F by (simp add: foc_def)
      moreover have "ch s L a \<in> cset ?K0" by (rule subsetD [OF csub(3) onl(2)])
      then have "y \<noteq> ch s L a" by (rule contrapos_pn) (erule subst, rule DY(5))
      moreover have "ch s R a \<noteq> a" by (rule contrapos_nn [OF DF(4)]) (use onr(1) in simp)
      ultimately show ?thesis unfolding S7(3) using ya(4) by auto
    qed
    show "col ?s7 y = c" unfolding S7(2) using F by (simp add: foc_def)
    fix b
    { assume b: "b \<in> set (addrs l) \<union> set (addrs r')"
      note B = sub [OF b]
      show "ch ?s7 d b = ch sA d b" for d unfolding S7(1) sA(4) using B wJ(1) by auto
      show "col ?s7 b = col sA b" unfolding S7(2) sA(2) using B by simp
      show "par ?s7 b = (if b = ch sA L a \<or> b = ch sA R a then y else par sA b)"
      proof (cases "J = []")
        case True
        then have "par ?s7 b = (if b = ch s L a then y else par s b)" unfolding S7(3) using B wJ(1) by simp
        moreover have "ch sA L a = ch s L a" "ch sA R a = p" using True by (simp_all add: sA(4))
        moreover have "b = p \<Longrightarrow> par s b = y" using parp B by blast
        ultimately show ?thesis by (auto simp: sA(1))
      next
        case False
        then have "par ?s7 b = (if b = ch s L a then y else if b = ch s R a then y
            else if p \<noteq> 0 \<and> b = p then w else par s b)"
          unfolding S7(3) using B wJ(1) by simp
        moreover have "a \<noteq> w" using False wJ(1) by blast
        then have "ch sA L a = ch s L a" "ch sA R a = ch s R a" using False by (simp_all add: sA(4))
        ultimately show ?thesis by (simp add: sA(1))
      qed }
    { assume b: "b \<in> cset K"
      have B: "b \<noteq> y" "b \<noteq> a" "b \<noteq> ch s L a" "b \<noteq> ch s R a" "J \<noteq> [] \<longrightarrow> b \<noteq> w" "b \<noteq> p"
      proof -
        have d: "b \<notin> set (addrs l)" "b \<notin> set (addrs r)" "b \<noteq> 0" "b \<noteq> a" using b DF(5,7,8,11) by auto
        then have d': "b \<notin> set (addrs r')" unfolding rsub by simp
        show "b \<noteq> a" by (rule d(4))
        show "b \<noteq> y" using b ya(6) by blast
        show "b \<noteq> ch s L a" using d(1) onl(2) by blast
        show "b \<noteq> ch s R a" using d(2) onr(1) by blast
        show "J \<noteq> [] \<longrightarrow> b \<noteq> w" using d' wJ(2) by blast
        show "b \<noteq> p" using d' d(3) pr by blast
      qed
      show "ch ?s7 d b = ch (relink K y sA) d b" for d
      proof -
        have "ch ?s7 d b = ch (relink K y s) d b" unfolding S7(1) using B wJ(1) by auto
        also have "\<dots> = ch (relink K y sA) d b"
          using B sA(4) by (auto simp: relink_def split: list.split prod.split)
        finally show ?thesis .
      qed
      show "col ?s7 b = col sA b" unfolding S7(2) sA(2) using B by simp
      show "par ?s7 b = par sA b" unfolding S7(3) sA(1) using B by auto }
    show "rb_root ?s7 = rb_root (relink K y sA)"
      unfolding S7(4) using sA(3) by (auto simp: relink_def split: list.split prod.split)
  qed
  then have "foc ?s7 y q (mk R r' y c l) K" by (simp add: mk_def)
  from foc_down_list [OF foc_down' [OF this, unfolded r'_def]]
  have "foc ?s7 (root_of ry) (top_of (J @ (R, y, c, l) # K)) ry (J @ (R, y, c, l) # K)" .
  moreover have "root_of ry = p" using foc_ends [OF A] by simp
  moreover have "top_of (J @ (R, y, c, l) # K) = (if w = a then y else w)"
    using w wJ(1) by (cases J rule: top_of.cases) auto
  ultimately show ?thesis by simp
qed

lemma plug_append: "plug t (J @ K) = plug (plug t J) K"
  by (induction t J rule: plug.induct) simp_all

lemma rb_erase_both:
  assumes F: "foc s a q (Node l (a, c) r) K" and T: "rbt (plug (Node l (a, c) r) K)"
    and l: "l \<noteq> Leaf" and r: "r \<noteq> Leaf"
  shows "wp (rb_erase a s) (erased (before K @ addrs l @ addrs r @ after K))"
proof -
  have Fm: "Node l (a, c) r = mk L l a c r" "Node l (a, c) r = mk R r a c l" by (simp_all add: mk_def)
  have SF: "seq_ok (before K @ addrs (mk L l a c r) @ after K)" using F by (simp add: foc_def Fm(1) [symmetric])
  note DF = seq_ok_mk [OF SF]
  have q: "par s a = q" "linked s a q K" using F foc_linked [OF F] by (simp_all add: foc_def)
  have DR: "foc s (ch s R a) a r ((R, a, c, l) # K)" using foc_down' F unfolding Fm(2) by blast
  obtain y cy ry J where lm: "go_left (ch s R a) s = Some y"
    and Y: "foc s y (top_of (J @ (R, a, c, l) # K)) (Node Leaf (y, cy) ry) (J @ (R, a, c, l) # K)"
    and P: "plug (Node Leaf (y, cy) ry) J = r" and B: "before (J @ (R, a, c, l) # K) = before ((R, a, c, l) # K)"
    and J: "J = [] \<longleftrightarrow> y = ch s R a" "\<forall>f \<in> set J. fst f = L"
    using leftmost_focus [OF DR r] by blast
  define w where "w = top_of (J @ (R, a, c, l) # K)"
  define p where "p = ch s R y"
  let ?K0 = "J @ (R, a, c, l) # K"
  have Y': "foc s y w (Node Leaf (y, cy) ry) ?K0" using Y by (simp add: w_def)
  have Ym: "Node Leaf (y, cy) ry = mk R ry y cy Leaf" by (simp add: mk_def)
  have SY: "seq_ok (before ?K0 @ addrs (mk R ry y cy Leaf) @ after ?K0)" using Y by (simp add: foc_def Ym)
  note DY = seq_ok_mk [OF SY]
  have mem: "a \<in> cset ?K0" "w \<in> cset ?K0" "cset K \<subseteq> cset ?K0"
  proof -
    show "a \<in> cset ?K0" "cset K \<subseteq> cset ?K0" by (induction J; auto)+
    show "w \<in> cset ?K0" unfolding w_def by (cases J rule: top_of.cases) simp_all
  qed
  have yv: "ch s R y = p" "par s y = w" "col s y = cy" "rep s p y ry" using Y' by (simp_all add: foc_def p_def)
  have "p = 0 \<or> p \<in> set (addrs ry)" by (rule rep_root [OF yv(4)])
  then have pa: "p \<noteq> a" using DY(7) mem(1) DF(1) by auto
  have kids: "ch s L a \<noteq> 0" "ch s R a \<noteq> 0"
    using F l r DF(9,10) by (cases l; cases r; auto simp: foc_def)+
  have wa: "w = a \<or> w \<notin> cset K"
  proof (cases J rule: top_of.cases)
    case (2 d b cb tb J')
    have "w \<in> set (addrs r)" unfolding P [symmetric] w_def 2 by (auto simp: addrs_plug)
    then show ?thesis using DF(8) by blast
  qed (simp add: w_def)
  have nz: "w \<noteq> 0" "y \<noteq> a" "w \<noteq> y" "y \<notin> cset K" using DY mem by auto
  have run: "rb_erase a s = (if (case cy of Red \<Rightarrow> 0 | Black \<Rightarrow> 1) = RB_BLACK
     then rb_erase_color p (if w = a then y else w) (swap_out K a y p w s) else Some (swap_out K a y p w s))"
    by (rule rb_erase_two [OF DF(1) DY(1) nz(1) kids nz(2) DY(2) foc_aligned [OF Y'] q(2,1) lm yv(1-3) DF(5) nz(4) wa pa nz(3)])
  have F7: "foc (swap_out K a y p w s) p (if w = a then y else w) ry (J @ (R, y, c, l) # K)"
    unfolding p_def by (rule swap_out_foc [OF F l Y' P J])
  have "plug (Node Leaf (y, cy) ry) ?K0 = plug (Node l (a, c) r) K"
    by (simp add: plug_append P Fm(2))
  then have C: "cinv (bh (Node Leaf (y, cy) ry)) ?K0 \<and> invc (Node Leaf (y, cy) ry) \<and> invh (Node Leaf (y, cy) ry) \<and>
      (red_frame ?K0 \<longrightarrow> color_of (Node Leaf (y, cy) ry) = Black)"
    by (intro plug_cinv) (use T in \<open>simp_all add: rbt_def\<close>)
  have "wp (if (case cy of Red \<Rightarrow> 0 | Black \<Rightarrow> 1) = RB_BLACK
     then rb_erase_color p (if w = a then y else w) (swap_out K a y p w s) else Some (swap_out K a y p w s))
     (erased (addrs (plug ry (J @ (R, y, c, l) # K))))"
    by (rule erase_tail [OF F7]) (use C cinv_rename [of _ J R a c l K y] in \<open>auto split: if_splits\<close>)
  moreover have "addrs (plug ry (J @ (R, y, c, l) # K)) = before K @ addrs l @ addrs r @ after K"
  proof -
    have "addrs (plug ry (J @ (R, y, c, l) # K)) = before K @ addrs l @ y # addrs ry @ after ?K0"
      using before_after_rename [of a y J c l K] nz(2) J(2) by (simp add: addrs_plug)
    moreover have "before ?K0 @ y # addrs ry @ after ?K0 = before K @ addrs l @ a # addrs r @ after K"
    proof -
      have "addrs (plug (Node Leaf (y, cy) ry) ?K0) = addrs (plug (Node l (a, c) r) K)"
        by (simp add: plug_append P Fm(2))
      then show ?thesis by (simp add: addrs_plug)
    qed
    ultimately show ?thesis using B by simp
  qed
  ultimately show ?thesis unfolding run by simp
qed

lemma rb_erase_ok:
  assumes T: "tree_at s T" "rbt T" "addrs T = xs @ a # ys"
  shows "wp (rb_erase a s) (erased (xs @ ys))"
proof -
  obtain q l c r K where F: "foc s a q (Node l (a, c) r) K" "plug (Node l (a, c) r) K = T"
    using focus_node [OF T(1)] T(3) by (metis in_set_conv_decomp)
  have A: "addrs T = (before K @ addrs l) @ a # (addrs r @ after K)" using addrs_plug [of "Node l (a, c) r" K] F(2) by simp
  have "a \<notin> set xs" "a \<notin> set ys" using T(1,3) by (simp_all add: tree_at_def foc_def seq_ok_def)
  then have X: "xs = before K @ addrs l" "ys = addrs r @ after K"
    using append_Cons_eq_iff [of a xs ys "before K @ addrs l" "addrs r @ after K"] T(3) A by simp_all
  have nz: "a \<noteq> 0" using foc_nonzero(1) [OF F(1)] by simp
  have q: "par s a = q" "col s a = c" using F(1) by (simp_all add: foc_def)
  have D: "foc s (ch s L a) a l ((L, a, c, r) # K)" "foc s (ch s R a) a r ((R, a, c, l) # K)"
    using foc_down' [of s a q L l c r K] foc_down' [of s a q R r c l K] F(1) by (simp_all add: mk_def)
  have null: "ch s L a = 0 \<longleftrightarrow> l = Leaf" "ch s R a = 0 \<longleftrightarrow> r = Leaf"
    using D foc_nonzero(1) [OF D(1)] foc_nonzero(1) [OF D(2)] by (cases l; cases r; force simp: foc_def)+
  consider "l = Leaf" | "l \<noteq> Leaf" "r = Leaf" | "l \<noteq> Leaf" "r \<noteq> Leaf" by blast
  then show ?thesis
  proof cases
    case 1
    have M: "mk R r a c Leaf = Node l (a, c) r" by (simp add: mk_def 1)
    note run = erase_one [of s a q R r c K "ch s R a", unfolded M, OF F(1) T(2) [folded F(2)] refl]
    from 1 null(1) have "ch s L a = 0" by simp
    with run X 1 show ?thesis
      by (simp add: rb_erase_def accessors [OF nz] rb_color_col [OF nz] q addrs_plug Let_def cong: if_cong)
  next
    case 2
    have M: "mk L l a c Leaf = Node l (a, c) r" by (simp add: mk_def 2)
    note run = erase_one [of s a q L l c K "ch s L a", unfolded M, OF F(1) T(2) [folded F(2)] refl]
    from 2 null have "ch s L a \<noteq> 0" "ch s R a = 0" by simp_all
    with run X 2 show ?thesis
      by (simp add: rb_erase_def accessors [OF nz] rb_color_col [OF nz] q addrs_plug Let_def cong: if_cong)
  next
    case 3
    from rb_erase_both [OF F(1) _ 3] F(2) T(2) X show ?thesis by simp
  qed
qed

end
