(* ===== verification/Nd_Timer_Tree.thy ===== *)
theory Nd_Timer_Tree
  imports Nd_Timer Nd_Rbtree_Erase
begin

text \<open>The timer queue twice. The contract \<open>timer_tree\<close> says what \<^verbatim>\<open>kernel/nd_timer.c\<close> wants of its queue: insertion behind
  all that expire no later, removal of any node, and the first node. It has two implementations: the sequence
  that the kernel state has in \<open>rbtree\<close>, and the red-black tree of \<^verbatim>\<open>lib/rbtree.c\<close> on a heap of nodes; here is the proof
  that the second refines the first, and what follows for the order in which timers come out.\<close>

section \<open>The contract of a timer queue\<close>

text \<open>\<open>n\<close> times: take the first node out.\<close>

fun pop_all :: "('s \<Rightarrow> 'n option option) \<Rightarrow> ('n \<Rightarrow> 's \<Rightarrow> 's option) \<Rightarrow> nat \<Rightarrow> 's \<Rightarrow> ('n list \<times> 's) option" where
  "pop_all first del 0 s = Some ([], s)"
| "pop_all first del (Suc n) s =
     Option.bind (first s) (\<lambda>f. Option.bind f (\<lambda>a. Option.bind (del a s) (\<lambda>s1.
       map_option (\<lambda>(as, s2). (a # as, s2)) (pop_all first del n s1))))"

fun insert_all :: "('n \<Rightarrow> 's \<Rightarrow> 's option) \<Rightarrow> 'n list \<Rightarrow> 's \<Rightarrow> 's option" where
  "insert_all ins [] s = Some s"
| "insert_all ins (a # as) s = Option.bind (ins a s) (insert_all ins as)"

locale timer_tree =
  fixes rep :: "'s \<Rightarrow> 'n list \<Rightarrow> bool" and key :: "'s \<Rightarrow> 'n \<Rightarrow> 'k::linorder" and fresh :: "'n \<Rightarrow> bool"
    and ins :: "'n \<Rightarrow> 's \<Rightarrow> 's option" and del :: "'n \<Rightarrow> 's \<Rightarrow> 's option"
    and first :: "'s \<Rightarrow> 'n option option"
  assumes insert_law: "rep s xs \<Longrightarrow> sorted (map (key s) xs) \<Longrightarrow> fresh a \<Longrightarrow> a \<notin> set xs \<Longrightarrow>
      wp (ins a s) (\<lambda>s'. rep s' (insort_after (key s) a xs) \<and> key s' = key s)"
    and erase_law: "rep s (xs @ a # ys) \<Longrightarrow> wp (del a s) (\<lambda>s'. rep s' (xs @ ys) \<and> key s' = key s)"
    and first_law: "rep s xs \<Longrightarrow> first s = Some (case xs of [] \<Rightarrow> None | a # _ \<Rightarrow> Some a)"
begin

lemma insert_all_law:
  assumes "rep s xs" "sorted (map (key s) xs)" "\<forall>a \<in> set as. fresh a" "distinct (as @ xs)"
  shows "wp (insert_all ins as s) (\<lambda>s'. \<exists>ys. rep s' ys \<and> sorted (map (key s) ys) \<and> set ys = set xs \<union> set as \<and>
    length ys = length xs + length as \<and> key s' = key s)"
  using assms
proof (induction as arbitrary: s xs)
  case (Cons a as)
  have step: "wp (ins a s) (\<lambda>s'. rep s' (insort_after (key s) a xs) \<and> key s' = key s)"
    by (rule insert_law) (use Cons.prems in simp_all)
  have "wp (ins a s) (\<lambda>s1. wp (insert_all ins as s1) (\<lambda>s'. \<exists>ys. rep s' ys \<and> sorted (map (key s) ys) \<and>
      set ys = set xs \<union> set (a # as) \<and> length ys = length xs + length (a # as) \<and> key s' = key s))"
  proof (rule wp_mono [OF step], elim conjE)
    fix s1 assume s1: "rep s1 (insort_after (key s) a xs)" "key s1 = key s"
    have len: "length (insort_after (key s) a xs) = Suc (length xs)"
    proof -
      let ?P = "\<lambda>y. key s y \<le> key s a"
      have "length (takeWhile ?P xs) + length (dropWhile ?P xs) = length xs"
        unfolding length_append [symmetric] by simp
      then show ?thesis unfolding insort_after_def by simp
    qed
    have srt: "sorted (map (key s) (insort_after (key s) a xs))" by (rule sorted_insort_after [OF Cons.prems(2)])
    have "wp (insert_all ins as s1) (\<lambda>s'. \<exists>ys. rep s' ys \<and> sorted (map (key s1) ys) \<and>
        set ys = set (insort_after (key s) a xs) \<union> set as \<and>
        length ys = length (insort_after (key s) a xs) + length as \<and> key s' = key s1)"
      by (rule Cons.IH [OF s1(1)]) (use Cons.prems(3,4) srt in \<open>simp_all add: s1(2)\<close>)
    then show "wp (insert_all ins as s1) (\<lambda>s'. \<exists>ys. rep s' ys \<and> sorted (map (key s) ys) \<and>
      set ys = set xs \<union> set (a # as) \<and> length ys = length xs + length (a # as) \<and> key s' = key s)"
      unfolding s1(2) len by (rule wp_mono) auto
  qed
  then show ?case by simp
qed auto

lemma pop_all_law:
  assumes "rep s (xs @ ys)"
  shows "wp (pop_all first del (length xs) s) (\<lambda>(as, s'). as = xs \<and> rep s' ys \<and> key s' = key s)"
  using assms
proof (induction xs arbitrary: s)
  case (Cons x xs)
  have f: "first s = Some (Some x)" using first_law [OF Cons.prems] by simp
  have step: "wp (del x s) (\<lambda>s'. rep s' ([] @ xs @ ys) \<and> key s' = key s)"
    by (rule erase_law) (use Cons.prems in simp)
  have "wp (del x s) (\<lambda>s1. wp (pop_all first del (length xs) s1) (\<lambda>(as, s'). x # as = x # xs \<and> rep s' ys \<and> key s' = key s))"
  proof (rule wp_mono [OF step], elim conjE)
    fix s1 assume s1: "rep s1 ([] @ xs @ ys)" "key s1 = key s"
    show "wp (pop_all first del (length xs) s1) (\<lambda>(as, s'). x # as = x # xs \<and> rep s' ys \<and> key s' = key s)"
      by (rule wp_pair_mono [OF Cons.IH]) (use s1 in simp_all)
  qed
  then show ?case by (simp add: f case_prod_unfold)
qed simp

text \<open>Timers come out of an empty queue that they were put into by their deadline.\<close>

lemma sorts:
  assumes "rep s []" and "\<forall>a \<in> set as. fresh a" and "distinct as"
  shows "wp (insert_all ins as s) (\<lambda>s1. wp (pop_all first del (length as) s1)
           (\<lambda>(bs, s'). rep s' [] \<and> set bs = set as \<and> length bs = length as \<and> sorted (map (key s) bs)))"
proof -
  have all: "wp (insert_all ins as s) (\<lambda>s'. \<exists>ys. rep s' ys \<and> sorted (map (key s) ys) \<and> set ys = set as \<and>
      length ys = length as \<and> key s' = key s)"
    using insert_all_law [OF assms(1), of as] assms(2,3) by simp
  show ?thesis
  proof (rule wp_mono [OF all], elim exE conjE)
    fix s1 ys assume ys: "rep s1 ys" "sorted (map (key s) ys)" "set ys = set as" "length ys = length as"
  then have "rep s1 (ys @ [])" by simp
  from pop_all_law [OF this] ys show "wp (pop_all first del (length as) s1)
      (\<lambda>(bs, s'). rep s' [] \<and> set bs = set as \<and> length bs = length as \<and> sorted (map (key s) bs))"
    by (auto elim!: wp_mono)
qed
qed

end

section \<open>The two timer queues\<close>

text \<open>\<^verbatim>\<open>rb_erase(&timer->node, &rbtree_root); RB_CLEAR_NODE(&timer->node)\<close>, and \<^verbatim>\<open>get_leftmost_timer\<close>, on the pointers.\<close>

definition timer_node_erase_ptr :: "u32 \<Rightarrow> rb_tree \<Rightarrow> rb_tree option" where
  "timer_node_erase_ptr n s = do { s \<leftarrow> rb_erase n s; RB_CLEAR_NODE n s }"

definition get_leftmost_ptr :: "rb_tree \<Rightarrow> u32 option option" where
  "get_leftmost_ptr s = map_option (\<lambda>n. if n \<noteq> 0 then Some n else None) (rb_first s)"

text \<open>The kernel model's queue is the sequence itself.\<close>

interpretation kqueue: timer_tree "\<lambda>s xs. rbtree s = xs \<and> distinct xs" "\<lambda>s r. expire_time (timers s r)" "\<lambda>r. True"
  timer_node_insert timer_node_erase "\<lambda>s. Some (get_leftmost_timer s)"
proof unfold_locales
  fix s :: kstate and xs a ys
  show "wp (timer_node_insert a s) (\<lambda>s'. (rbtree s' = insort_after (\<lambda>r. expire_time (timers s r)) a xs \<and>
        distinct (insort_after (\<lambda>r. expire_time (timers s r)) a xs)) \<and>
        (\<lambda>r. expire_time (timers s' r)) = (\<lambda>r. expire_time (timers s r)))"
    if "rbtree s = xs \<and> distinct xs" and "a \<notin> set xs"
    using that by (auto simp: timer_node_insert_def upd_timer_def)
  show "wp (timer_node_erase a s) (\<lambda>s'. (rbtree s' = xs @ ys \<and> distinct (xs @ ys)) \<and>
        (\<lambda>r. expire_time (timers s' r)) = (\<lambda>r. expire_time (timers s r)))"
    if "rbtree s = xs @ a # ys \<and> distinct (xs @ a # ys)"
    using that by (auto simp: timer_node_erase_def upd_timer_def remove1_split)
  show "Some (get_leftmost_timer s) = Some (case xs of [] \<Rightarrow> None | a # _ \<Rightarrow> Some a)"
    if "rbtree s = xs \<and> distinct xs"
    using that by (simp add: get_leftmost_timer_def)
qed

definition holds_seq :: "rb_tree \<Rightarrow> u32 list \<Rightarrow> bool" where
  "holds_seq s xs \<longleftrightarrow> erased xs s"

lemma tree_at_clear:
  assumes "tree_at s T" "a \<notin> set (addrs T)" "a \<noteq> 0" "aligned a"
  shows "tree_at (put_par a a s) T"
proof -
  have R: "rep s (rb_root s) 0 T" using assms(1) by (simp add: tree_at_def foc_def)
  have "rep (put_par a a s) (rb_root s) 0 T" by (rule rep_same [OF R]) (use assms in auto)
  with assms(1) show ?thesis by (simp add: tree_at_def foc_def)
qed

lemma timer_node_erase_ptr_ok:
  assumes "holds_seq s (xs @ a # ys)"
  shows "wp (timer_node_erase_ptr a s) (\<lambda>s'. holds_seq s' (xs @ ys))"
proof -
  obtain T where T: "tree_at s T" "rbt T" "addrs T = xs @ a # ys" using assms by (auto simp: holds_seq_def erased_def)
  have a: "a \<noteq> 0" "aligned a" "a \<notin> set (xs @ ys)" using T(1,3) by (auto simp: tree_at_def foc_def seq_ok_def)
  have "wp (rb_erase a s) (\<lambda>s1. wp (RB_CLEAR_NODE a s1) (\<lambda>s'. holds_seq s' (xs @ ys)))"
  proof (rule wp_mono [OF rb_erase_ok [OF T]])
    fix s1 assume "erased (xs @ ys) s1"
    then obtain T' where "tree_at s1 T'" "rbt T'" "addrs T' = xs @ ys" by (auto simp: erased_def)
    with a tree_at_clear [of s1 T' a] have "holds_seq (put_par a a s1) (xs @ ys)"
      by (auto simp: holds_seq_def erased_def)
    then show "wp (RB_CLEAR_NODE a s1) (\<lambda>s'. holds_seq s' (xs @ ys))"
      using a by (simp add: RB_CLEAR_NODE_def accessors)
  qed
  then show ?thesis by (simp add: timer_node_erase_ptr_def)
qed

text \<open>The pointer tree, for any deadlines \<open>key\<close> of the nodes.\<close>

lemma ptr_queue:
  "timer_tree holds_seq (\<lambda>s. key) (\<lambda>a. a \<noteq> 0 \<and> aligned a) (timer_node_insert_ptr key) timer_node_erase_ptr get_leftmost_ptr"
proof unfold_locales
  fix s :: rb_tree and xs ys and a :: u32
  show "wp (timer_node_insert_ptr key a s) (\<lambda>s'. holds_seq s' (insort_after key a xs) \<and> key = key)"
    if q: "holds_seq s xs" and srt: "sorted (map key xs)" and a: "a \<noteq> 0 \<and> aligned a" "a \<notin> set xs"
  proof -
    obtain T where T: "tree_at s T" "rbt T" "addrs T = xs" using q by (auto simp: holds_seq_def erased_def)
    show ?thesis
      by (rule wp_mono [OF timer_node_insert_ptr_ok [OF T(1,2)]]) (use T(3) srt a in \<open>auto simp: holds_seq_def erased_def\<close>)
  qed
  show "wp (timer_node_erase_ptr a s) (\<lambda>s'. holds_seq s' (xs @ ys) \<and> key = key)" if "holds_seq s (xs @ a # ys)"
    using timer_node_erase_ptr_ok [OF that] by simp
  show "get_leftmost_ptr s = Some (case xs of [] \<Rightarrow> None | a # _ \<Rightarrow> Some a)" if q: "holds_seq s xs"
  proof -
    obtain T where T: "tree_at s T" "addrs T = xs" using q by (auto simp: holds_seq_def erased_def)
    have nz: "\<forall>a \<in> set xs. a \<noteq> 0" using T by (auto simp: tree_at_def foc_def seq_ok_def)
    have "T = Leaf \<longleftrightarrow> xs = []" using T(2) by (cases T) auto
    with rb_first_ok(1) [OF T(1)] T(2) nz show ?thesis
      by (cases xs) (simp_all add: get_leftmost_ptr_def)
  qed
qed

interpretation pqueue: timer_tree holds_seq "\<lambda>s. key" "\<lambda>a. a \<noteq> 0 \<and> aligned a" "timer_node_insert_ptr key"
  timer_node_erase_ptr get_leftmost_ptr for key :: "u32 \<Rightarrow> u64"
  by (rule ptr_queue)

section \<open>Balance bounds the depth\<close>

lemma invc_height: "invc t \<Longrightarrow> invh t \<Longrightarrow> height t \<le> 2 * bh t + (if color_of t = Black then 0 else 1)"
proof (induction t)
  case (Node l v r)
  obtain a c where "v = (a, c)" by (cases v)
  with Node show ?case by (cases c; auto split: if_splits)
qed simp

lemma invh_size: "invh t \<Longrightarrow> 2 ^ bh t \<le> Suc (length (addrs t))"
proof (induction t)
  case (Node l v r)
  obtain a c where "v = (a, c)" by (cases v)
  with Node show ?case by (cases c) (auto simp: algebra_simps)
qed simp

section \<open>Properties\<close>

lemma insort_after_map:
  assumes "\<forall>t \<in> insert r (set xs). key (addr t) = f t"
  shows "insort_after key (addr r) (map addr xs) = map addr (insort_after f r xs)"
  using assms by (induction xs) (auto simp: insort_after_Cons)

text \<open>A tree of one node, at address 16, and the empty tree.\<close>

definition empty_tree :: rb_tree where
  "empty_tree = \<lparr>nodes = (\<lambda>a. \<lparr>rb_parent_color = 0, rb_right = 0, rb_left = 0\<rparr>), rb_root = 0\<rparr>"

definition one_node :: rb_tree where
  "one_node = put_col 16 Black (empty_tree\<lparr>rb_root := 16\<rparr>)"

lemma aligned_16 [simp]: "aligned 0" "aligned 16" "aligned 32" "aligned 48"
  unfolding aligned_def by simp_all

lemma empty_tree_seq: "holds_seq empty_tree []"
  by (auto simp: holds_seq_def erased_def tree_at_def foc_def rbt_def empty_tree_def seq_ok_def intro!: exI [of _ Leaf])

lemma one_node_seq: "holds_seq one_node [16]"
proof -
  have "par one_node 16 = 0" "col one_node 16 = Black" "ch one_node d 16 = 0" "rb_root one_node = 16" for d
    by (simp_all add: one_node_def) (simp_all add: empty_tree_def par_def ch_def split: dir.split)
  then have "tree_at one_node (Node Leaf (16, Black) Leaf)"
    by (simp add: tree_at_def foc_def seq_ok_def)
  then show ?thesis by (force simp: holds_seq_def erased_def rbt_def)
qed

text \<open>C24: the timer queue of the kernel model is the in-order sequence of the red-black tree of the code. When
  the tree of \<^verbatim>\<open>lib/rbtree.c\<close> holds the timers' nodes in the order of \<open>rbtree\<close>, then inserting a timer by the descent of
  \<open>timer_node_insert\<close> and \<open>rb_insert_color\<close>, erasing one with \<open>rb_erase\<close>, and finding the first with
  \<open>rb_first\<close> return, and do to the tree what the model does to the sequence; the tree stays a red-black tree.\<close>

theorem timer_queue_refines:
  assumes q: "holds_seq ps (map addr (rbtree ks))" and d: "distinct (rbtree ks)"
    and key: "\<forall>t \<in> insert r (set (rbtree ks)). key (addr t) = expire_time (timers ks t)"
    and srt: "sorted (map (\<lambda>t. expire_time (timers ks t)) (rbtree ks))"
    and r: "addr r \<noteq> 0" "aligned (addr r)" "inj_on addr (insert r (set (rbtree ks)))"
  shows "(r \<notin> set (rbtree ks) \<longrightarrow> wp (timer_node_insert r ks) (\<lambda>ks'.
            wp (timer_node_insert_ptr key (addr r) ps) (\<lambda>ps'. holds_seq ps' (map addr (rbtree ks'))))) \<and>
         (r \<in> set (rbtree ks) \<longrightarrow> wp (timer_node_erase r ks) (\<lambda>ks'.
            wp (timer_node_erase_ptr (addr r) ps) (\<lambda>ps'. holds_seq ps' (map addr (rbtree ks'))))) \<and>
         get_leftmost_ptr ps = Some (map_option addr (get_leftmost_timer ks))"
proof (intro conjI impI)
  let ?f = "\<lambda>t. expire_time (timers ks t)"
  have m: "map key (map addr (rbtree ks)) = map ?f (rbtree ks)" using key by simp
  show "wp (timer_node_insert r ks) (\<lambda>ks'. wp (timer_node_insert_ptr key (addr r) ps) (\<lambda>ps'. holds_seq ps' (map addr (rbtree ks'))))"
    if new: "r \<notin> set (rbtree ks)"
  proof (rule wp_mono [OF kqueue.insert_law [of ks "rbtree ks"]])
    show "rbtree ks = rbtree ks \<and> distinct (rbtree ks)" using d by simp
    show "sorted (map ?f (rbtree ks))" "True" "r \<notin> set (rbtree ks)" using srt new by simp_all
    fix ks' assume "(rbtree ks' = insort_after ?f r (rbtree ks) \<and> distinct (insort_after ?f r (rbtree ks))) \<and>
        (\<lambda>t. expire_time (timers ks' t)) = ?f"
    then have "map addr (rbtree ks') = insort_after key (addr r) (map addr (rbtree ks))"
      using insort_after_map [of r "rbtree ks" key addr ?f] key by simp
    moreover have "wp (timer_node_insert_ptr key (addr r) ps)
        (\<lambda>ps'. holds_seq ps' (insort_after key (addr r) (map addr (rbtree ks))) \<and> key = key)"
    proof (rule pqueue.insert_law [OF q])
      show "sorted (map key (map addr (rbtree ks)))" unfolding m by (rule srt)
      show "addr r \<noteq> 0 \<and> aligned (addr r)" using r by simp
      show "addr r \<notin> set (map addr (rbtree ks))" using r(3) new by (auto simp: inj_on_def)
    qed
    ultimately show "wp (timer_node_insert_ptr key (addr r) ps) (\<lambda>ps'. holds_seq ps' (map addr (rbtree ks')))"
      by (auto elim!: wp_mono)
  qed
  show "wp (timer_node_erase r ks) (\<lambda>ks'. wp (timer_node_erase_ptr (addr r) ps) (\<lambda>ps'. holds_seq ps' (map addr (rbtree ks'))))"
    if old: "r \<in> set (rbtree ks)"
  proof -
    obtain xs ys where s: "rbtree ks = xs @ r # ys" using old by (meson in_set_conv_decomp)
    have "wp (timer_node_erase_ptr (addr r) ps) (\<lambda>ps'. holds_seq ps' (map addr xs @ map addr ys) \<and> key = key)"
      by (rule pqueue.erase_law) (use q s in simp)
    then have e: "wp (timer_node_erase_ptr (addr r) ps) (\<lambda>ps'. holds_seq ps' (map addr (xs @ ys)))" by simp
    have k: "wp (timer_node_erase r ks) (\<lambda>ks'. (rbtree ks' = xs @ ys \<and> distinct (xs @ ys)) \<and>
        (\<lambda>t. expire_time (timers ks' t)) = (\<lambda>t. expire_time (timers ks t)))"
      by (rule kqueue.erase_law) (use d s in simp)
    show ?thesis by (rule wp_mono [OF k]) (use e in simp)
  qed
  show "get_leftmost_ptr ps = Some (map_option addr (get_leftmost_timer ks))"
    using pqueue.first_law [OF q] by (simp add: get_leftmost_timer_def split: list.split)
qed

theorem timer_queue_refines_witness:
  "\<exists>ks :: kstate. wp (timer_node_insert (UserTimer 1) ks) (\<lambda>ks'.
     wp (timer_node_insert_ptr (\<lambda>a. if a = 16 then 50 else 40) 32 one_node) (\<lambda>ps'. holds_seq ps' [32, 16]))"
proof -
  define t :: "u64 \<Rightarrow> nd_timer" where "t e = \<lparr>timer_name = [], timer_type = ND_TIMER_TYPE_ONE_SHOT, timeout = 1,
    callback = None, arg = None, expire_time = e, node_empty = True\<rparr>" for e
  define ks :: kstate where "ks = undefined\<lparr>rbtree := [UserTimer 0],
    timers := \<lambda>r. if r = UserTimer 0 then t 50 else t 40\<rparr>"
  let ?addr = "\<lambda>r. if r = UserTimer 0 then 16 else 32"
  have "wp (timer_node_insert (UserTimer 1) ks) (\<lambda>ks'.
      wp (timer_node_insert_ptr (\<lambda>a. if a = 16 then 50 else 40) (?addr (UserTimer 1)) one_node)
        (\<lambda>ps'. holds_seq ps' (map ?addr (rbtree ks'))))"
    using timer_queue_refines [of one_node ?addr ks "UserTimer 1" "\<lambda>a. if a = 16 then 50 else 40"]
    by (simp add: ks_def t_def one_node_seq)
  then have "wp (timer_node_insert (UserTimer 1) ks) (\<lambda>ks'.
     wp (timer_node_insert_ptr (\<lambda>a. if a = 16 then 50 else 40) 32 one_node) (\<lambda>ps'. holds_seq ps' [32, 16]))"
    by (simp add: timer_node_insert_def ks_def t_def upd_timer_def insort_after_def)
  then show ?thesis by blast
qed

text \<open>C25: \<open>rb_erase\<close> returns, takes the node out, keeps the others in their order, and leaves a red-black
  tree: no red node has a red child, every path has the same number of black nodes, and every parent pointer
  is right.\<close>

theorem rb_erase_correct:
  assumes "tree_at s T" and "invc T" "invh T" "color_of T = Black" and "addrs T = xs @ a # ys"
  shows "wp (rb_erase a s) (\<lambda>s'. \<exists>T'. tree_at s' T' \<and> addrs T' = xs @ ys \<and>
           invc T' \<and> invh T' \<and> color_of T' = Black)"
  using rb_erase_ok [OF assms(1) _ assms(5)] assms(2-4) by (auto simp: rbt_def erased_def elim!: wp_mono)

theorem rb_erase_witness:
  "wp (timer_node_insert_ptr (\<lambda>a. ucast a) 32 one_node) (\<lambda>s. wp (rb_erase 16 s)
     (\<lambda>s'. \<exists>T'. tree_at s' T' \<and> addrs T' = [32]))"
proof (rule wp_mono [OF pqueue.insert_law [OF one_node_seq, of "\<lambda>a. ucast a" 32]])
  fix s assume "holds_seq s (insort_after (\<lambda>a. ucast a :: u64) 32 [16]) \<and> (\<lambda>a :: u32. ucast a :: u64) = (\<lambda>a. ucast a)"
  then have "holds_seq s ([] @ 16 # [32])" by (simp add: insort_after_def)
  then obtain T where T: "tree_at s T" "invc T" "invh T" "color_of T = Black" "addrs T = [] @ 16 # [32]"
    by (auto simp: holds_seq_def erased_def rbt_def)
  show "wp (rb_erase 16 s) (\<lambda>s'. \<exists>T'. tree_at s' T' \<and> addrs T' = [32])"
    by (rule wp_mono [OF rb_erase_correct [OF T]]) auto
qed simp_all

text \<open>The walk over the tree is the walk over the sequence of its nodes: \<open>rb_first\<close> and \<open>rb_last\<close> return the two
  ends, \<open>rb_next\<close> and \<open>rb_prev\<close> the neighbours of a node, and a null pointer where there is none.\<close>

theorem rb_walk_correct:
  assumes "tree_at s T" and "addrs T = xs @ a # ys"
  shows "rb_first s = Some (hd (xs @ [a])) \<and> rb_last s = Some (last (a # ys)) \<and>
         rb_next a s = Some (case ys of [] \<Rightarrow> 0 | b # _ \<Rightarrow> b) \<and>
         rb_prev a s = Some (if xs = [] then 0 else last xs)"
proof -
  have "T \<noteq> Leaf" using assms(2) by auto
  with rb_first_ok [OF assms(1)] rb_next_ok [OF assms] assms(2) show ?thesis
    by (simp add: hd_append)
qed

theorem rb_walk_witness: "rb_first one_node = Some 16 \<and> rb_next 16 one_node = Some 0"
proof -
  obtain T where "tree_at one_node T" "addrs T = [] @ 16 # []"
    using one_node_seq by (auto simp: holds_seq_def erased_def)
  from rb_walk_correct [OF this] show ?thesis by simp
qed

text \<open>Timers come out by their deadline. Any distinct nodes inserted into an empty tree, in any order, and then
  taken out from the left, one by one, come out in the order of their deadlines, all of them, and leave it
  empty; every loop on the way ends.\<close>

theorem timer_tree_sorts:
  assumes "holds_seq s []" and "\<forall>a \<in> set as. a \<noteq> 0 \<and> aligned a" and "distinct as"
  shows "wp (insert_all (timer_node_insert_ptr key) as s) (\<lambda>s1.
           wp (pop_all get_leftmost_ptr timer_node_erase_ptr (length as) s1)
             (\<lambda>(bs, s'). holds_seq s' [] \<and> set bs = set as \<and> length bs = length as \<and> sorted (map key bs)))"
  by (rule pqueue.sorts [OF assms])

theorem timer_tree_sorts_witness:
  "wp (insert_all (timer_node_insert_ptr (\<lambda>a. - ucast a)) [16, 32] empty_tree) (\<lambda>s1.
     wp (pop_all get_leftmost_ptr timer_node_erase_ptr 2 s1)
       (\<lambda>(bs, s'). set bs = {16, 32} \<and> sorted (map (\<lambda>a. - ucast a :: u64) bs)))"
proof -
  have "wp (insert_all (timer_node_insert_ptr (\<lambda>a. - ucast a)) [16, 32] empty_tree) (\<lambda>s1.
     wp (pop_all get_leftmost_ptr timer_node_erase_ptr (length [16, 32 :: u32]) s1)
       (\<lambda>(bs, s'). holds_seq s' [] \<and> set bs = set [16, 32] \<and> length bs = length [16, 32 :: u32] \<and>
          sorted (map (\<lambda>a. - ucast a :: u64) bs)))"
    by (rule timer_tree_sorts [OF empty_tree_seq]) simp_all
  then show ?thesis by (auto simp: wp_iff numeral_2_eq_2 simp del: insert_all.simps pop_all.simps)
qed

text \<open>The tree is balanced: a tree of \<open>n\<close> nodes is at most \<open>2 log (n + 1)\<close> deep, which bounds
  the steps of the descent of \<open>timer_node_insert\<close>, of \<open>rb_first\<close> and of the repair loops.\<close>

theorem rb_depth_bound:
  assumes "tree_at s T" and "rbt T"
  shows "2 ^ (height T div 2) \<le> Suc (length (addrs T))"
proof -
  have "height T \<le> 2 * bh T" using invc_height [of T] assms(2) by (simp add: rbt_def)
  then have "(2 :: nat) ^ (height T div 2) \<le> 2 ^ bh T" by (intro power_increasing) simp_all
  also have "\<dots> \<le> Suc (length (addrs T))" using invh_size assms(2) by (simp add: rbt_def)
  finally show ?thesis .
qed

theorem rb_depth_bound_witness: "\<exists>T. tree_at one_node T \<and> 2 ^ (height T div 2) \<le> (2 :: nat)"
proof -
  obtain T where "tree_at one_node T" "rbt T" "addrs T = [16]"
    using one_node_seq by (auto simp: holds_seq_def erased_def)
  with rb_depth_bound [OF this(1,2)] show ?thesis by auto
qed

end
