(* ===== verification/Nd_Memcpy.thy ===== *)
theory Nd_Memcpy
  imports Nd_Memory
begin

text \<open>\<^verbatim>\<open>nd_memcpy\<close> of \<^verbatim>\<open>kernel/nd_klibc.c\<close>, on little-endian targets: the version for GNU compilers, which copies words
  and shifts them where source and destination are not aligned alike, and the byte loop for the others. The state of
  the copy after \<open>k\<close> bytes is \<open>copied d s m k\<close>; each loop is proved to go from one such state to a later one.\<close>

section \<open>The copy\<close>

text \<open>\<open>k\<close> times \<^verbatim>\<open>*d++ = *s++\<close>; the state of a copy is the two pointers and the memory.\<close>

fun copy_bytes :: "nat \<Rightarrow> u32 \<times> u32 \<times> mem \<Rightarrow> u32 \<times> u32 \<times> mem" where
  "copy_bytes 0 st = st"
| "copy_bytes (Suc k) (d, s, m) = copy_bytes k (d + 1, s + 1, m(d := m s))"

text \<open>\<^verbatim>\<open>if (n & c)\<close> followed by \<open>c\<close> of them.\<close>

definition bytes_if :: "u32 \<Rightarrow> nat \<Rightarrow> u32 \<times> u32 \<times> mem \<Rightarrow> u32 \<times> u32 \<times> mem" where
  "bytes_if n c st = (if n AND of_nat c \<noteq> 0 then copy_bytes c st else st)"

text \<open>The version for compilers without the GNU extensions.\<close>

definition nd_memcpy_bytes :: "u32 \<Rightarrow> u32 \<Rightarrow> u32 \<Rightarrow> mem \<Rightarrow> u32 \<times> mem" where
  "nd_memcpy_bytes d s n m = (let (_, _, m1) = copy_bytes (unat n) (d, s, m) in (d, m1))"

lemma unat_shrinks: "c \<le> n \<Longrightarrow> 0 < c \<Longrightarrow> unat (n - c) < unat (n :: u32)"
  by (simp add: unat_sub word_le_nat_alt word_less_nat_alt)

function align_src :: "u32 \<Rightarrow> u32 \<Rightarrow> u32 \<Rightarrow> mem \<Rightarrow> u32 \<times> u32 \<times> u32 \<times> mem" where
  "align_src d s n m =
     (if \<not> word_aligned s \<and> n \<noteq> 0 then align_src (d + 1) (s + 1) (n - 1) (m(d := m s)) else (d, s, n, m))"
  by pat_completeness auto

termination by (relation "measure (\<lambda>(d, s, n, m). unat n)") (auto intro!: unat_shrinks simp: word_le_nat_alt unat_gt_0 Suc_le_eq)

declare align_src.simps [simp del]

definition copy_word :: "u32 \<Rightarrow> u32 \<Rightarrow> mem \<Rightarrow> mem option" where
  "copy_word d s m = do { w \<leftarrow> load_word s m; store_word d w m }"

function block_loop :: "u32 \<Rightarrow> u32 \<Rightarrow> u32 \<Rightarrow> mem \<Rightarrow> (u32 \<times> u32 \<times> u32 \<times> mem) option" where
  "block_loop d s n m =
     (if n \<ge> 16 then do {
        m1 \<leftarrow> copy_word (d + 0) (s + 0) m;
        m2 \<leftarrow> copy_word (d + 4) (s + 4) m1;
        m3 \<leftarrow> copy_word (d + 8) (s + 8) m2;
        m4 \<leftarrow> copy_word (d + 12) (s + 12) m3;
        block_loop (d + 16) (s + 16) (n - 16) m4
      }
      else Some (d, s, n, m))"
  by pat_completeness auto

termination by (relation "measure (\<lambda>(d, s, n, m). unat n)") (auto intro: unat_shrinks)

declare block_loop.simps [simp del]

text \<open>The branch for pointers of the same alignment.\<close>

definition copy_aligned :: "u32 \<Rightarrow> u32 \<Rightarrow> u32 \<Rightarrow> mem \<Rightarrow> mem option" where
  "copy_aligned d s n m = do {
     (d, s, n, m) \<leftarrow> block_loop d s n m;
     (d, s, m) \<leftarrow> (if n AND 8 \<noteq> 0 then do {
         m1 \<leftarrow> copy_word (d + 0) (s + 0) m;
         m2 \<leftarrow> copy_word (d + 4) (s + 4) m1;
         Some (d + 8, s + 8, m2) } else Some (d, s, m));
     (d, s, m) \<leftarrow> (if n AND 4 \<noteq> 0 then do {
         m1 \<leftarrow> copy_word (d + 0) (s + 0) m;
         Some (d + 4, s + 4, m1) } else Some (d, s, m));
     let (d, s, m) = bytes_if n 2 (d, s, m);
     Some (if n AND 1 \<noteq> 0 then m(d := m s) else m)
   }"

text \<open>The three loops for a destination that is \<open>off\<close> bytes past a word boundary: each word stored is made of
  the end of one word of the source and the beginning of the next, and each word of the source is loaded
  once.\<close>

function shift_loop :: "nat \<Rightarrow> u32 \<Rightarrow> u32 \<Rightarrow> u32 \<Rightarrow> u32 \<Rightarrow> mem \<Rightarrow> (u32 \<times> u32 \<times> u32 \<times> mem) option" where
  "shift_loop off d s n x m =
     (if unat n \<ge> 16 + off then do {
        y \<leftarrow> load_word (s + of_nat off) m;
        m1 \<leftarrow> store_word (d + 0) (drop_bit (32 - 8 * off) x OR push_bit (8 * off) y) m;
        x1 \<leftarrow> load_word (s + (of_nat off + 4)) m1;
        m2 \<leftarrow> store_word (d + 4) (drop_bit (32 - 8 * off) y OR push_bit (8 * off) x1) m1;
        y1 \<leftarrow> load_word (s + (of_nat off + 8)) m2;
        m3 \<leftarrow> store_word (d + 8) (drop_bit (32 - 8 * off) x1 OR push_bit (8 * off) y1) m2;
        x2 \<leftarrow> load_word (s + (of_nat off + 12)) m3;
        m4 \<leftarrow> store_word (d + 12) (drop_bit (32 - 8 * off) y1 OR push_bit (8 * off) x2) m3;
        shift_loop off (d + 16) (s + 16) (n - 16) x2 m4
      }
      else Some (d, s, n, m))"
  by pat_completeness auto

termination by (relation "measure (\<lambda>(off, d, s, n, x, m). unat n)") (auto intro!: unat_shrinks simp: word_le_nat_alt)

declare shift_loop.simps [simp del]

definition copy_shifted :: "nat \<Rightarrow> u32 \<Rightarrow> u32 \<Rightarrow> u32 \<Rightarrow> mem \<Rightarrow> (u32 \<times> u32 \<times> u32 \<times> mem) option" where
  "copy_shifted off d s n m = do {
     x \<leftarrow> load_word s m;
     let (d, s, m) = copy_bytes (4 - off) (d, s, m);
     shift_loop off d s (n - of_nat (4 - off)) x m
   }"

definition copy_tail :: "u32 \<Rightarrow> u32 \<Rightarrow> u32 \<Rightarrow> mem \<Rightarrow> mem" where
  "copy_tail d s n m =
     (let (d, s, m) = bytes_if n 16 (d, s, m);
          (d, s, m) = bytes_if n 8 (d, s, m);
          (d, s, m) = bytes_if n 4 (d, s, m);
          (d, s, m) = bytes_if n 2 (d, s, m)
      in if n AND 1 \<noteq> 0 then m(d := m s) else m)"

definition nd_memcpy :: "u32 \<Rightarrow> u32 \<Rightarrow> u32 \<Rightarrow> mem \<Rightarrow> (u32 \<times> mem) option" where
  "nd_memcpy dest src n m = do {
     let (d, s, n, m) = align_src dest src n m;
     if word_aligned d then do {
       m1 \<leftarrow> copy_aligned d s n m;
       Some (dest, m1)
     }
     else do {
       (d, s, n, m) \<leftarrow> (if n \<ge> 32 then
           (if d mod 4 = 1 then copy_shifted 1 d s n m
            else if d mod 4 = 2 then copy_shifted 2 d s n m
            else copy_shifted 3 d s n m)
         else Some (d, s, n, m));
       Some (dest, copy_tail d s n m)
     }
   }"


section \<open>The state of a copy\<close>

text \<open>Memory after the first \<open>k\<close> bytes; source and destination do not share an address.\<close>

definition copied :: "u32 \<Rightarrow> u32 \<Rightarrow> mem \<Rightarrow> nat \<Rightarrow> mem" where
  "copied d s m k = (\<lambda>x. if unat (x - d) < k then m (s + (x - d)) else m x)"

definition apart :: "u32 \<Rightarrow> u32 \<Rightarrow> nat \<Rightarrow> bool" where
  "apart d s N \<longleftrightarrow> (\<forall>i<N. \<forall>j<N. d + of_nat i \<noteq> s + of_nat j)"

text \<open>The pointers and the memory when \<open>k\<close> bytes are done.\<close>

definition at_byte :: "u32 \<Rightarrow> u32 \<Rightarrow> mem \<Rightarrow> nat \<Rightarrow> u32 \<times> u32 \<times> mem" where
  "at_byte d s m k = (d + of_nat k, s + of_nat k, copied d s m k)"

lemma copied_0 [simp]: "copied d s m 0 = m"
  by (simp add: copied_def)

lemma copied_src:
  assumes "apart d s N" "k \<le> N" "j < N"
  shows "copied d s m k (s + of_nat j) = m (s + of_nat j)"
proof -
  have "\<not> unat (s + of_nat j - d) < k"
  proof
    assume lt: "unat (s + of_nat j - d) < k"
    have "d + of_nat (unat (s + of_nat j - d)) = s + of_nat j" by simp
    moreover have "unat (s + of_nat j - d) < N" using lt assms(2) by simp
    ultimately show False using assms(1,3) unfolding apart_def by metis
  qed
  then show ?thesis by (simp add: copied_def)
qed

lemma copied_Suc:
  assumes "apart d s N" "k < N" "N < 2 ^ 32"
  shows "(copied d s m k)(d + of_nat k := copied d s m k (s + of_nat k)) = copied d s m (Suc k)"
proof
  fix x
  have k: "unat (of_nat k :: u32) = k" using assms by (simp add: unat_of_nat)
  have "x = d + of_nat k \<longleftrightarrow> unat (x - d) = k"
  proof
    assume "unat (x - d) = k"
    then have "of_nat k = x - d" by auto
    then show "x = d + of_nat k" by simp
  qed (simp add: k)
  then show "((copied d s m k)(d + of_nat k := copied d s m k (s + of_nat k))) x = copied d s m (Suc k) x"
    using copied_src [of d s N k k] assms by (auto simp: copied_def k less_Suc_eq)
qed

lemma copy_bytes_at:
  assumes "apart d s N" "k + j \<le> N" "N < 2 ^ 32"
  shows "copy_bytes j (at_byte d s m k) = at_byte d s m (k + j)"
  using assms(2)
proof (induction j arbitrary: k)
  case (Suc j)
  have "copy_bytes (Suc j) (at_byte d s m k) = copy_bytes j (at_byte d s m (Suc k))"
    using copied_Suc [OF assms(1) _ assms(3), of k] Suc.prems by (simp add: at_byte_def algebra_simps)
  also have "\<dots> = at_byte d s m (Suc k + j)" using Suc by (intro Suc.IH) simp
  finally show ?case by simp
qed simp

section \<open>Words and bytes\<close>

lemma bit_load32:
  assumes "q < 4" "r < 8"
  shows "bit (load32 m p) (8 * q + r) \<longleftrightarrow> bit (m (p + of_nat q)) r"
proof -
  have no: "\<not> bit (b :: u8) (8 + i)" for b i using bit_imp_le_length [of b "8 + i"] by auto
  have no2: "\<not> bit (b :: u8) (16 + i)" "\<not> bit b (24 + i)" for b i
    using no [of b "8 + i"] no [of b "16 + i"] by simp_all
  from assms(1) consider "q = 0" | "q = 1" | "q = 2" | "q = 3" by linarith
  then show ?thesis
    by cases (use assms(2) no no2 in \<open>auto simp: load32_def bit_simps\<close>)
qed

lemma bytes_of_load:
  "ucast (load32 m p) = m p" "ucast (drop_bit 8 (load32 m p)) = m (p + 1)"
  "ucast (drop_bit 16 (load32 m p)) = m (p + 2)" "ucast (drop_bit 24 (load32 m p)) = m (p + 3)"
  using bit_load32 [of 0 _ m p] bit_load32 [of 1 _ m p] bit_load32 [of 2 _ m p] bit_load32 [of 3 _ m p]
  by (intro bit_word_eqI; simp add: bit_simps)+

lemma store_loaded:
  "store32 d (load32 m p) m' = m'(d := m p, d + 1 := m (p + 1), d + 2 := m (p + 2), d + 3 := m (p + 3))"
  by (simp add: store32_def bytes_of_load)

lemma store_copied:
  assumes "apart d s N" "k + 4 \<le> N" "N < 2 ^ 32"
  shows "store32 (d + of_nat k) (load32 m (s + of_nat k)) (copied d s m k) = copied d s m (k + 4)"
proof -
  have step: "(copied d s m (k + i))(d + of_nat (k + i) := m (s + of_nat (k + i))) = copied d s m (Suc (k + i))"
    if "i < 4" for i
    using copied_Suc [OF assms(1) _ assms(3), of "k + i" m] copied_src [OF assms(1), of "k + i" "k + i" m] that assms(2)
    by simp
  from step [of 0] step [of 1] step [of 2] step [of 3] show ?thesis
    by (simp add: store_loaded algebra_simps numeral_eq_Suc)
qed

lemma load_copied:
  assumes "apart d s N" "k \<le> N" "j + 4 \<le> N"
  shows "load32 (copied d s m k) (s + of_nat j) = load32 m (s + of_nat j)"
proof -
  have "copied d s m k (s + of_nat (j + i)) = m (s + of_nat (j + i))" if "i < 4" for i
    using copied_src [OF assms(1,2), of "j + i"] that assms(3) by simp
  from this [of 0] this [of 1] this [of 2] this [of 3] show ?thesis
    by (simp add: load32_def algebra_simps)
qed

text \<open>Two neighbouring words shifted together are the word that straddles them.\<close>

lemma straddle:
  assumes "off = 1 \<or> off = 2 \<or> off = 3"
  shows "drop_bit (32 - 8 * off) (load32 m p) OR push_bit (8 * off) (load32 m (p + 4)) = load32 m (p + of_nat (4 - off))"
proof (rule bit_word_eqI)
  fix n :: nat assume "n < LENGTH(32)"
  then obtain q r where n: "n = 8 * q + r" "q < 4" "r < 8"
    by (intro that [of "n div 8" "n mod 8"]) simp_all
  show "bit (drop_bit (32 - 8 * off) (load32 m p) OR push_bit (8 * off) (load32 m (p + 4))) n \<longleftrightarrow>
      bit (load32 m (p + of_nat (4 - off))) n"
  proof (cases "q < off")
    case True
    have "bit (load32 m p) (32 - 8 * off + n) \<longleftrightarrow> bit (m (p + of_nat (4 - off + q))) r"
      using bit_load32 [of "4 - off + q" r m p] n True assms by (auto simp: algebra_simps)
    with True n assms bit_load32 [OF n(2,3), of m "p + of_nat (4 - off)"] show ?thesis
      by (auto simp: bit_simps algebra_simps)
  next
    case False
    have "bit (load32 m (p + 4)) (n - 8 * off) \<longleftrightarrow> bit (m (p + 4 + of_nat (q - off))) r"
      using bit_load32 [of "q - off" r m "p + 4"] n False assms by (auto simp: algebra_simps)
    moreover have "bit (drop_bit (32 - 8 * off) (load32 m p)) n = False"
      using n False assms bit_imp_le_length [of "load32 m p" "32 - 8 * off + n"] by (auto simp: bit_simps)
    moreover have "p + 4 + of_nat (q - off) = p + of_nat (4 - off) + of_nat q"
      using False assms n(2) by (auto simp: of_nat_diff)
    ultimately show ?thesis using False n assms bit_load32 [OF n(2,3), of m "p + of_nat (4 - off)"]
      by (auto simp: bit_simps ac_simps)
  qed
qed

lemma mod4_add:
  assumes "c mod 4 = 0"
  shows "(p + c) mod 4 = (p :: u32) mod 4"
proof -
  have c: "unat c mod 4 = 0" using arg_cong [OF assms, of unat] by (simp add: unat_mod)
  have "unat (p + c) mod 4 = (unat p + unat c) mod 4"
    unfolding unat_word_ariths by (rule mod_mod_cancel) simp
  also have "\<dots> = unat p mod 4" using c by presburger
  finally have "unat ((p + c) mod 4) = unat (p mod 4)" by (simp add: unat_mod)
  then show ?thesis by (rule unsigned_word_eqI)
qed

lemma word_aligned_add [simp]:
  "word_aligned (p + 4) = word_aligned p" "word_aligned (p + 8) = word_aligned p"
  "word_aligned (p + 12) = word_aligned p" "word_aligned (p + 16) = word_aligned p"
  by (simp_all add: mod4_add word_aligned_def)

lemma word_aligned_add_assoc [simp]:
  assumes "c = 4 \<or> c = 8 \<or> c = 12 \<or> c = 16"
  shows "word_aligned (p + (q + c)) = word_aligned (p + q)" "word_aligned (p + (q + (r + c))) = word_aligned (p + (q + r))"
  using assms word_aligned_add [of "p + q"] word_aligned_add [of "p + (q + r)"] by (auto simp: add.assoc)

section \<open>The loops\<close>

lemma copy_word_at:
  assumes "apart d s N" "k + 4 \<le> N" "N < 2 ^ 32" "p = d + of_nat k" "q = s + of_nat k" "word_aligned p" "word_aligned q"
  shows "copy_word p q (copied d s m k) = Some (copied d s m (k + 4))"
  using store_copied [OF assms(1-3), of m] load_copied [OF assms(1) _ assms(2), of k m] assms(2,4-7)
  by (simp add: copy_word_def load_word_def store_word_def)

lemma align_src_at:
  assumes "apart d s N" "N < 2 ^ 32" "k + unat n = N"
  shows "\<exists>k' n'. align_src (d + of_nat k) (s + of_nat k) n (copied d s m k) =
      (d + of_nat k', s + of_nat k', n', copied d s m k') \<and> k' + unat n' = N \<and>
      (n' = 0 \<or> word_aligned (s + of_nat k'))"
  using assms(3)
proof (induction "unat n" arbitrary: n k rule: less_induct)
  case less
  show ?case
  proof (cases "\<not> word_aligned (s + of_nat k) \<and> n \<noteq> 0")
    case True
    then have n: "unat (n - 1) = unat n - 1" "unat n > 0" by (simp_all add: unat_minus_one unat_gt_0)
    have "(copied d s m k)(d + of_nat k := copied d s m k (s + of_nat k)) = copied d s m (Suc k)"
      by (rule copied_Suc [OF assms(1) _ assms(2)]) (use n less.prems in simp)
    then have "align_src (d + of_nat k) (s + of_nat k) n (copied d s m k) =
        align_src (d + of_nat (Suc k)) (s + of_nat (Suc k)) (n - 1) (copied d s m (Suc k))"
      using True by (subst align_src.simps) (simp add: algebra_simps)
    moreover note less.hyps [of "n - 1" "Suc k"]
    ultimately show ?thesis using n less.prems by simp
  next
    case False
    then show ?thesis using less.prems by (subst align_src.simps) auto
  qed
qed

lemma block_loop_at:
  assumes "apart d s N" "N < 2 ^ 32" "k + unat n = N" "word_aligned (d + of_nat k)" "word_aligned (s + of_nat k)"
  shows "\<exists>k' n'. block_loop (d + of_nat k) (s + of_nat k) n (copied d s m k) =
      Some (d + of_nat k', s + of_nat k', n', copied d s m k') \<and> k' + unat n' = N \<and> unat n' < 16 \<and>
      word_aligned (d + of_nat k') \<and> word_aligned (s + of_nat k')"
  using assms(3-5)
proof (induction "unat n" arbitrary: n k rule: less_induct)
  case less
  show ?case
  proof (cases "n \<ge> 16")
    case True
    then have n: "unat (n - 16) = unat n - 16" "unat n \<ge> 16"
      by (simp_all add: unat_sub word_le_nat_alt)
    note w = copy_word_at [OF assms(1) _ assms(2), where m = m]
    have e: "d + of_nat k + 16 = d + of_nat (k + 16)" "s + of_nat k + 16 = s + of_nat (k + 16)"
      "k + 4 + 4 = k + 8" "k + 8 + 4 = k + 12" "k + 12 + 4 = k + 16" by simp_all
    have "block_loop (d + of_nat k) (s + of_nat k) n (copied d s m k) =
        block_loop (d + of_nat (k + 16)) (s + of_nat (k + 16)) (n - 16) (copied d s m (k + 16))"
      using True w [of k "d + of_nat k" "s + of_nat k"] w [of "k + 4" "d + of_nat k + 4" "s + of_nat k + 4"]
        w [of "k + 8" "d + of_nat k + 8" "s + of_nat k + 8"] w [of "k + 12" "d + of_nat k + 12" "s + of_nat k + 12"]
        less.prems n by (subst block_loop.simps) (simp add: e)
    moreover have "word_aligned (d + of_nat (k + 16))" "word_aligned (s + of_nat (k + 16))"
      using less.prems by (simp_all flip: e(1,2))
    moreover note less.hyps [of "n - 16" "k + 16"]
    ultimately show ?thesis using n less.prems(1) by simp
  next
    case False
    then show ?thesis using less.prems by (subst block_loop.simps) (auto simp: word_le_nat_alt)
  qed
qed

lemma shift_loop_at:
  assumes "apart d s N" "N < 2 ^ 32" "off = 1 \<or> off = 2 \<or> off = 3"
    and "k + unat n = N" "4 - off \<le> k"
    and "word_aligned (d + of_nat k)" "word_aligned (s + of_nat k + of_nat off)"
    and "x = load32 m (s + of_nat (k + off - 4))"
  shows "\<exists>k' n' x'. shift_loop off (d + of_nat k) (s + of_nat k) n x (copied d s m k) =
      Some (d + of_nat k', s + of_nat k', n', copied d s m k') \<and> k' + unat n' = N \<and> unat n' < 16 + off"
  using assms(4-)
proof (induction "unat n" arbitrary: n k x rule: less_induct)
  case less
  show ?case
  proof (cases "unat n \<ge> 16 + off")
    case True
    then have n: "unat (n - 16) = unat n - 16" "unat n \<ge> 16"
      by (simp_all add: unat_sub word_le_nat_alt)
    let ?w = "\<lambda>j. load32 m (s + of_nat j)"
    have ld: "load_word (s + of_nat k + (of_nat off + of_nat i)) (copied d s m k') = Some (?w (k + off + i))"
      if "i = 0 \<or> i = 4 \<or> i = 8 \<or> i = 12" "k' \<le> N" for i k'
      using load_copied [OF assms(1) that(2), of "k + off + i" m] that(1) True less.prems
      by (auto simp: load_word_def algebra_simps)
    have sw: "drop_bit (32 - 8 * off) (?w (k + off + i - 4)) OR push_bit (8 * off) (?w (k + off + i)) = ?w (k + i)" for i
    proof -
      have "s + of_nat (k + off + i - 4) + 4 = s + of_nat (k + off + i)"
        "s + of_nat (k + off + i - 4) + of_nat (4 - off) = s + of_nat (k + i)"
        using less.prems(2) assms(3) by (auto simp: of_nat_diff)
      with straddle [OF assms(3), of m "s + of_nat (k + off + i - 4)"] show ?thesis by simp
    qed
    have st: "store_word (d + of_nat k + of_nat i) (?w (k + i)) (copied d s m (k + i)) = Some (copied d s m (k + i + 4))"
      if "i = 0 \<or> i = 4 \<or> i = 8 \<or> i = 12" for i
      using store_copied [OF assms(1) _ assms(2), of "k + i" m] that True less.prems
      by (auto simp: store_word_def algebra_simps)
    have e: "d + of_nat k + 16 = d + of_nat (k + 16)" "s + of_nat k + 16 = s + of_nat (k + 16)" by simp_all
    have k: "k \<le> N" "k + 4 \<le> N" "k + 8 \<le> N" "k + 12 \<le> N" using True less.prems by simp_all
    have sum: "k + off + 4 - 4 = k + off" "k + off + 8 - 4 = k + off + 4" "k + off + 12 - 4 = k + off + 8"
      "k + off + 16 - 4 = k + off + 12" by simp_all
    have run: "shift_loop off (d + of_nat k) (s + of_nat k) n x (copied d s m k) =
        shift_loop off (d + of_nat (k + 16)) (s + of_nat (k + 16)) (n - 16) (?w (k + 16 + off - 4)) (copied d s m (k + 16))"
      using True less.prems(5) ld [of 0 k] ld [of 4 "k + 4"] ld [of 8 "k + 8"] ld [of 12 "k + 12"] k
        sw [of 0] sw [of 4] sw [of 8] sw [of 12] st [of 0] st [of 4] st [of 8] st [of 12]
      unfolding e [symmetric] by (subst shift_loop.simps) (simp add: sum ac_simps)
    have "word_aligned (d + of_nat (k + 16))" "word_aligned (s + of_nat (k + 16) + of_nat off)"
      using less.prems(3,4) by (simp_all add: ac_simps)
    with less.hyps [of "n - 16" "k + 16", OF _ _ _ _ _ refl] n less.prems(1,2) show ?thesis
      unfolding run by simp
  next
    case False
    then show ?thesis using less.prems by (subst shift_loop.simps) (auto simp: word_le_nat_alt)
  qed
qed

text \<open>The value of one bit of the count, and the count as the sum of its bits.\<close>

definition bit_val :: "u32 \<Rightarrow> nat \<Rightarrow> nat" where
  "bit_val n j = (if n AND 2 ^ j \<noteq> 0 then 2 ^ j else 0)"

lemma mod_bit_val: "unat n mod 2 ^ Suc j = bit_val n j + unat n mod 2 ^ j"
proof -
  have "n AND 2 ^ j \<noteq> 0 \<longleftrightarrow> bit (unat n) j"
    by (auto simp: and_exp_eq_0_iff_not_bit bit_unsigned_iff dest: bit_imp_le_length)
  then show ?thesis
    using take_bit_Suc_from_most [of j "unat n"] by (simp add: bit_val_def take_bit_eq_mod)
qed

lemma sum_of_bits:
  "unat n < 32 \<Longrightarrow> unat n = bit_val n 4 + bit_val n 3 + bit_val n 2 + bit_val n 1 + bit_val n 0"
  "unat n < 16 \<Longrightarrow> unat n = bit_val n 3 + bit_val n 2 + bit_val n 1 + bit_val n 0"
  using mod_bit_val [of n 4] mod_bit_val [of n 3] mod_bit_val [of n 2] mod_bit_val [of n 1] mod_bit_val [of n 0]
  by simp_all

lemma bytes_if_at:
  assumes "apart d s N" "N < 2 ^ 32" "k + bit_val n j \<le> N" "c = 2 ^ j"
  shows "bytes_if n c (d + of_nat k, s + of_nat k, copied d s m k) =
     (d + of_nat (k + bit_val n j), s + of_nat (k + bit_val n j), copied d s m (k + bit_val n j))"
  using copy_bytes_at [OF assms(1) _ assms(2), of k "2 ^ j" m] assms(3,4) by (auto simp: bytes_if_def bit_val_def at_byte_def)

lemma last_byte_at:
  assumes "apart d s N" "N < 2 ^ 32" "k + bit_val n 0 = N"
  shows "(if n AND 1 \<noteq> 0 then (copied d s m k)(d + of_nat k := copied d s m k (s + of_nat k)) else copied d s m k) =
     copied d s m N"
  using copied_Suc [OF assms(1) _ assms(2), of k m] assms(3) by (auto simp: bit_val_def)

lemma copy_tail_at:
  assumes "apart d s N" "N < 2 ^ 32" "k + unat n = N" "unat n < 32"
  shows "copy_tail (d + of_nat k) (s + of_nat k) n (copied d s m k) = copied d s m N"
proof -
  note b = bytes_if_at [OF assms(1,2), where m = m and n = n]
  define k4 where "k4 = k + bit_val n 4"
  define k3 where "k3 = k4 + bit_val n 3"
  define k2 where "k2 = k3 + bit_val n 2"
  define k1 where "k1 = k2 + bit_val n 1"
  note defs = k4_def k3_def k2_def k1_def
  have le: "k + bit_val n 4 \<le> N" "k4 + bit_val n 3 \<le> N" "k3 + bit_val n 2 \<le> N" "k2 + bit_val n 1 \<le> N"
    and eq: "k1 + bit_val n 0 = N"
    using sum_of_bits(1) [OF assms(4)] assms(3) unfolding defs by linarith+
  have steps: "bytes_if n 16 (d + of_nat k, s + of_nat k, copied d s m k) = (d + of_nat k4, s + of_nat k4, copied d s m k4)"
    "bytes_if n 8 (d + of_nat k4, s + of_nat k4, copied d s m k4) = (d + of_nat k3, s + of_nat k3, copied d s m k3)"
    "bytes_if n 4 (d + of_nat k3, s + of_nat k3, copied d s m k3) = (d + of_nat k2, s + of_nat k2, copied d s m k2)"
    "bytes_if n 2 (d + of_nat k2, s + of_nat k2, copied d s m k2) = (d + of_nat k1, s + of_nat k1, copied d s m k1)"
    using b [OF le(1), of 16] b [OF le(2), of 8] b [OF le(3), of 4] b [OF le(4), of 2]
    by (simp_all flip: defs del: of_nat_add One_nat_def)
  show ?thesis
    unfolding copy_tail_def Let_def steps prod.case by (rule last_byte_at [OF assms(1,2) eq])
qed

lemma copy_aligned_at:
  assumes "apart d s N" "N < 2 ^ 32" "k + unat n = N" "word_aligned (d + of_nat k)" "word_aligned (s + of_nat k)"
  shows "copy_aligned (d + of_nat k) (s + of_nat k) n (copied d s m k) = Some (copied d s m N)"
proof -
  obtain k' n' where loop: "block_loop (d + of_nat k) (s + of_nat k) n (copied d s m k) =
      Some (d + of_nat k', s + of_nat k', n', copied d s m k')" and n': "k' + unat n' = N" "unat n' < 16"
      "word_aligned (d + of_nat k')" "word_aligned (s + of_nat k')"
    using block_loop_at [OF assms] by blast
  note w = copy_word_at [OF assms(1) _ assms(2), where m = m, OF _ refl refl]
  define k3 where "k3 = k' + bit_val n' 3"
  define k2 where "k2 = k3 + bit_val n' 2"
  define k1 where "k1 = k2 + bit_val n' 1"
  have le: "k3 \<le> N" "k2 \<le> N" "k2 + bit_val n' 1 \<le> N" and eq: "k1 + bit_val n' 0 = N"
    using sum_of_bits(2) [OF n'(2)] n'(1) unfolding k3_def k2_def k1_def by linarith+
  have al: "word_aligned (d + of_nat k3)" "word_aligned (s + of_nat k3)"
    using n'(3,4) by (simp_all add: k3_def bit_val_def add.assoc [symmetric])
  have two: "(if n' AND 8 \<noteq> 0 then do {
         m1 \<leftarrow> copy_word (d + of_nat k' + 0) (s + of_nat k' + 0) (copied d s m k');
         m2 \<leftarrow> copy_word (d + of_nat k' + 4) (s + of_nat k' + 4) m1;
         Some (d + of_nat k' + 8, s + of_nat k' + 8, m2) } else Some (d + of_nat k', s + of_nat k', copied d s m k')) =
      Some (d + of_nat k3, s + of_nat k3, copied d s m k3)"
    using w [of k'] w [of "k' + 4"] n'(3,4) le(1) by (auto simp: k3_def bit_val_def add.assoc)
  have one: "(if n' AND 4 \<noteq> 0 then do {
         m1 \<leftarrow> copy_word (d + of_nat k3 + 0) (s + of_nat k3 + 0) (copied d s m k3);
         Some (d + of_nat k3 + 4, s + of_nat k3 + 4, m1) } else Some (d + of_nat k3, s + of_nat k3, copied d s m k3)) =
      Some (d + of_nat k2, s + of_nat k2, copied d s m k2)"
    using w [of k3] al le(2) by (auto simp: k2_def bit_val_def add.assoc)
  have bytes: "bytes_if n' 2 (d + of_nat k2, s + of_nat k2, copied d s m k2) = (d + of_nat k1, s + of_nat k1, copied d s m k1)"
    unfolding k1_def by (rule bytes_if_at [OF assms(1,2) le(3)]) simp
  show ?thesis
    unfolding copy_aligned_def loop bind.bind_lunit prod.case two one bytes Let_def
    by (simp only: last_byte_at [OF assms(1,2) eq])
qed

lemma copy_shifted_at:
  assumes "apart d s N" "N < 2 ^ 32" "off = 1 \<or> off = 2 \<or> off = 3" "k + unat n = N" "unat n \<ge> 32"
    and "(d + of_nat k) mod 4 = of_nat off" "word_aligned (s + of_nat k)"
  shows "\<exists>k' n'. copy_shifted off (d + of_nat k) (s + of_nat k) n (copied d s m k) =
      Some (d + of_nat k', s + of_nat k', n', copied d s m k') \<and> k' + unat n' = N \<and> unat n' < 32"
proof -
  let ?k = "k + (4 - off)"
  have x: "load_word (s + of_nat k) (copied d s m k) = Some (load32 m (s + of_nat k))"
    using load_copied [OF assms(1), of k k m] assms(4,5,7) by (simp add: load_word_def)
  have b: "copy_bytes (4 - off) (d + of_nat k, s + of_nat k, copied d s m k) = (d + of_nat ?k, s + of_nat ?k, copied d s m ?k)"
    using copy_bytes_at [OF assms(1) _ assms(2), of k "4 - off" m] assms(3-5) by (auto simp: at_byte_def)
  have n: "unat (n - of_nat (4 - off)) = unat n - (4 - off)"
    using assms(3,5) by (auto simp: unat_sub word_le_nat_alt unat_of_nat)
  have al: "word_aligned (d + of_nat ?k)" "word_aligned (s + of_nat ?k + of_nat off)"
  proof -
    have "s + of_nat ?k + of_nat off = s + of_nat k + 4" using assms(3) by auto
    then show "word_aligned (s + of_nat ?k + of_nat off)" using assms(7) word_aligned_add(1) [of "s + of_nat k"] by (simp only:)
    show "word_aligned (d + of_nat ?k)"
    proof -
      have "unat (d + of_nat k) mod 4 = off" using arg_cong [OF assms(6), of unat] assms(3) by (auto simp: unat_mod unat_of_nat)
      moreover have "unat (d + of_nat k + of_nat (4 - off)) mod 4 = (unat (d + of_nat k) + unat (of_nat (4 - off) :: u32)) mod 4"
        unfolding unat_word_ariths by (rule mod_mod_cancel) simp
      moreover have "unat (of_nat (4 - off) :: u32) = 4 - off" by (simp add: unat_of_nat)
      moreover have "(i + (4 - off)) mod 4 = 0" if "i mod 4 = off" for i using assms(3) that by presburger
      ultimately have "unat ((d + of_nat k + of_nat (4 - off)) mod 4) = 0" by (simp add: unat_mod)
      then show ?thesis by (simp add: word_aligned_def unat_eq_zero add.assoc)
    qed
  qed
  have "\<exists>k' n'. shift_loop off (d + of_nat ?k) (s + of_nat ?k) (n - of_nat (4 - off)) (load32 m (s + of_nat k)) (copied d s m ?k) =
      Some (d + of_nat k', s + of_nat k', n', copied d s m k') \<and> k' + unat n' = N \<and> unat n' < 16 + off"
    using shift_loop_at [OF assms(1-3), of ?k "n - of_nat (4 - off)" _ m] al n assms(3-5) by fastforce
  then show ?thesis unfolding copy_shifted_def x bind.bind_lunit b Let_def prod.case using assms(3) by fastforce
qed


lemma word_below_4: "w < 4 \<Longrightarrow> w = 0 \<or> w = 1 \<or> w = 2 \<or> (w :: u32) = 3"
proof -
  assume "w < 4"
  then have "unat w = 0 \<or> unat w = 1 \<or> unat w = 2 \<or> unat w = 3" by (auto simp: word_less_nat_alt)
  then show ?thesis by (auto simp: word_unat_eq_iff)
qed

lemma nd_memcpy_copied:
  assumes a: "apart dest src (unat n)"
  shows "nd_memcpy dest src n m = Some (dest, copied dest src m (unat n))"
proof -
  let ?N = "unat n" and ?d = "\<lambda>k. dest + of_nat k :: u32" and ?s = "\<lambda>k. src + of_nat k :: u32"
  have N: "?N < 2 ^ 32" using unsigned_less [of n] by simp
  obtain k n' where al: "align_src dest src n m = (?d k, ?s k, n', copied dest src m k)"
    and k: "k + unat n' = ?N" and s4: "n' = 0 \<or> word_aligned (?s k)"
    using align_src_at [OF a N, of 0 n m] by auto
  show ?thesis
  proof (cases "word_aligned (?d k)")
    case True
    have "copy_aligned (?d k) (?s k) n' (copied dest src m k) = Some (copied dest src m ?N)"
    proof (cases "word_aligned (?s k)")
      case sa: True
      show ?thesis by (rule copy_aligned_at [OF a N k True sa])
    next
      case False
      then have n': "n' = 0" "k = ?N" using s4 k by simp_all
      have "copy_aligned p q 0 M = Some M" for p q M
        by (simp add: copy_aligned_def block_loop.simps bytes_if_def)
      then show ?thesis unfolding n' .
    qed
    then show ?thesis by (simp add: nd_memcpy_def al True)
  next
    case False
    obtain k' n'' where un: "(if n' \<ge> 32 then
           (if ?d k mod 4 = 1 then copy_shifted 1 (?d k) (?s k) n' (copied dest src m k)
            else if ?d k mod 4 = 2 then copy_shifted 2 (?d k) (?s k) n' (copied dest src m k)
            else copy_shifted 3 (?d k) (?s k) n' (copied dest src m k))
         else Some (?d k, ?s k, n', copied dest src m k)) = Some (?d k', ?s k', n'', copied dest src m k')"
      and k': "k' + unat n'' = ?N" "unat n'' < 32"
    proof (cases "n' \<ge> 32")
      case True
      then have ge: "unat n' \<ge> 32" "word_aligned (?s k)" using s4 by (auto simp: word_le_nat_alt)
      have "?d k mod 4 < 4" by (rule word_mod_less_divisor) simp
      then consider "?d k mod 4 = of_nat 1" | "?d k mod 4 = of_nat 2" | "?d k mod 4 = of_nat 3"
        using False word_below_4 [of "?d k mod 4"] by (auto simp: word_aligned_def)
      then show ?thesis
      proof cases
        case 1
        then show ?thesis using copy_shifted_at [OF a N _ k ge(1) 1 ge(2)] that True by auto
      next
        case 2
        then show ?thesis using copy_shifted_at [OF a N _ k ge(1) 2 ge(2)] that True by auto
      next
        case 3
        then show ?thesis using copy_shifted_at [OF a N _ k ge(1) 3 ge(2)] that True by auto
      qed
    next
      case False
      then show ?thesis using that k by (auto simp: word_le_nat_alt)
    qed
    show ?thesis
      using copy_tail_at [OF a N k'] by (simp add: nd_memcpy_def al False un)
  qed
qed

text \<open>C31: the word-wise \<open>nd_memcpy\<close> is the byte-wise one. For any length and any alignment of two regions that share
  no byte it returns the destination, makes no unaligned word access, and leaves in memory what the loop
  \<^verbatim>\<open>for (; n; n--) *d++ = *s++\<close> leaves: the source at the destination, and nothing else changed.\<close>

theorem memcpy_correct:
  assumes "\<forall>i<unat n. \<forall>j<unat n. dest + of_nat i \<noteq> src + of_nat j"
  shows "nd_memcpy dest src n m = Some (nd_memcpy_bytes dest src n m) \<and>
         nd_memcpy dest src n m = Some (dest, \<lambda>x. if x - dest < n then m (src + (x - dest)) else m x)"
proof -
  have a: "apart dest src (unat n)" using assms by (simp add: apart_def)
  have N: "unat n < 2 ^ 32" using unsigned_less [of n] by simp
  have "copied dest src m (unat n) = (\<lambda>x. if x - dest < n then m (src + (x - dest)) else m x)"
    by (auto simp: copied_def word_less_nat_alt)
  moreover have "nd_memcpy_bytes dest src n m = (dest, copied dest src m (unat n))"
    using copy_bytes_at [OF a, of 0 "unat n" m] N by (simp add: nd_memcpy_bytes_def at_byte_def)
  ultimately show ?thesis using nd_memcpy_copied [OF a, of m] by simp
qed

theorem memcpy_witness:
  "nd_memcpy 0x2001 0x1000 50 (\<lambda>a. ucast a) = Some (nd_memcpy_bytes 0x2001 0x1000 50 (\<lambda>a. ucast a))"
proof (rule conjunct1 [OF memcpy_correct], intro allI impI)
  fix i j :: nat assume "i < unat (50 :: u32)" "j < unat (50 :: u32)"
  then have "unat (0x2001 + of_nat i :: u32) = 0x2001 + i" "unat (0x1000 + of_nat j :: u32) = 0x1000 + j"
    by (simp_all add: unat_word_ariths unat_of_nat)
  moreover have "0x2001 + i \<noteq> 0x1000 + j" using \<open>j < _\<close> by simp
  ultimately show "(0x2001 :: u32) + of_nat i \<noteq> 0x1000 + of_nat j" by metis
qed

end
