(* ===== verification/Nd_Strings.thy ===== *)
theory Nd_Strings
  imports Nd_Memory
begin

text \<open>The string functions of \<^verbatim>\<open>kernel/nd_klibc.c\<close> on the byte-addressed memory. A loop over a string ends at its null
  byte; without one it may not end, so the loops are partial functions and each lemma about one is about strings
  that \<open>str_at\<close> places in memory.\<close>

section \<open>Strings\<close>

partial_function (option) strlen_loop :: "u32 \<Rightarrow> mem \<Rightarrow> u32 option" where
  "strlen_loop sc m = (if m sc \<noteq> 0 then strlen_loop (sc + 1) m else Some sc)"

definition nd_strlen :: "u32 \<Rightarrow> mem \<Rightarrow> u32 option" where
  "nd_strlen s m = map_option (\<lambda>sc. sc - s) (strlen_loop s m)"

text \<open>A loop \<^verbatim>\<open>while (count--)\<close> that stores the byte \<open>c\<close>.\<close>

fun fill_loop :: "nat \<Rightarrow> u32 \<Rightarrow> u8 \<Rightarrow> mem \<Rightarrow> mem" where
  "fill_loop 0 p c m = m"
| "fill_loop (Suc n) p c m = fill_loop n (p + 1) c (m(p := c))"

definition nd_memset :: "u32 \<Rightarrow> u32 \<Rightarrow> u32 \<Rightarrow> mem \<Rightarrow> u32 \<times> mem" where
  "nd_memset s c count m = (s, fill_loop (unat count) s (ucast c) m)"

fun strncpy_loop :: "nat \<Rightarrow> u32 \<Rightarrow> u32 \<Rightarrow> mem \<Rightarrow> nat \<times> u32 \<times> mem" where
  "strncpy_loop 0 d s m = (0, d, m)"
| "strncpy_loop (Suc n) d s m =
     (if m s \<noteq> 0 then strncpy_loop n (d + 1) (s + 1) (m(d := m s)) else (Suc n, d, m))"

definition nd_strncpy :: "u32 \<Rightarrow> u32 \<Rightarrow> u32 \<Rightarrow> mem \<Rightarrow> u32 \<times> mem" where
  "nd_strncpy dest src count m =
     (let (n, d, m1) = strncpy_loop (unat count) dest src m in (dest, fill_loop n d 0 m1))"

partial_function (option) nd_strcmp :: "u32 \<Rightarrow> u32 \<Rightarrow> mem \<Rightarrow> int option" where
  "nd_strcmp cs ct m =
     (if m cs \<noteq> 0 \<and> m cs = m ct then nd_strcmp (cs + 1) (ct + 1) m
      else Some (uint (m cs) - uint (m ct)))"

partial_function (option) is_delim :: "u8 \<Rightarrow> u32 \<Rightarrow> mem \<Rightarrow> bool option" where
  "is_delim c delimiters m =
     (if m delimiters \<noteq> 0 then
        if c = m delimiters then Some True else is_delim c (delimiters + 1) m
      else Some False)"

text \<open>The two loops of \<open>nd_strtok_r\<close>: over delimiters, and over the rest.\<close>

partial_function (option) skip_delims :: "u32 \<Rightarrow> u32 \<Rightarrow> mem \<Rightarrow> u32 option" where
  "skip_delims str delim m =
     (if m str \<noteq> 0 then Option.bind (is_delim (m str) delim m) (\<lambda>b.
        if b then skip_delims (str + 1) delim m else Some str)
      else Some str)"

partial_function (option) skip_token :: "u32 \<Rightarrow> u32 \<Rightarrow> mem \<Rightarrow> u32 option" where
  "skip_token str delim m =
     (if m str \<noteq> 0 then Option.bind (is_delim (m str) delim m) (\<lambda>b.
        if b then Some str else skip_token (str + 1) delim m)
      else Some str)"

text \<open>The result is the token or null, the new \<open>*saveptr\<close>, and the memory.\<close>

definition nd_strtok_r :: "u32 \<Rightarrow> u32 \<Rightarrow> u32 \<Rightarrow> mem \<Rightarrow> (u32 \<times> u32 \<times> mem) option" where
  "nd_strtok_r str delim saveptr m = do {
     let str = (if str = 0 then saveptr else str);
     str \<leftarrow> skip_delims str delim m;
     if m str = 0 then Some (0, str, m)
     else do {
       let token_start = str;
       str \<leftarrow> skip_token str delim m;
       if m str = 0 then Some (token_start, str, m)
       else Some (token_start, str + 1, m(str := 0))
     }
   }"

section \<open>Strings in memory\<close>

fun str_at :: "mem \<Rightarrow> u32 \<Rightarrow> u8 list \<Rightarrow> bool" where
  "str_at m p [] \<longleftrightarrow> m p = 0"
| "str_at m p (c # cs) \<longleftrightarrow> m p = c \<and> c \<noteq> 0 \<and> str_at m (p + 1) cs"

lemma str_at_nth: "str_at m p xs \<Longrightarrow> i < length xs \<Longrightarrow> m (p + of_nat i) = xs ! i \<and> xs ! i \<noteq> 0"
proof (induction xs arbitrary: p i)
  case (Cons c cs)
  show ?case
  proof (cases i)
    case (Suc j)
    then show ?thesis using Cons.IH [of "p + 1" j] Cons.prems by (simp add: add.assoc)
  qed (use Cons.prems in simp)
qed simp

lemma str_at_end: "str_at m p xs \<Longrightarrow> m (p + of_nat (length xs)) = 0"
proof (induction xs arbitrary: p)
  case (Cons c cs)
  then show ?case using Cons.IH [of "p + 1"] by (simp add: add.assoc)
qed simp

lemma str_at_length:
  assumes "str_at m p xs"
  shows "length xs < 2 ^ 32"
proof (rule ccontr)
  assume "\<not> length xs < 2 ^ 32"
  then obtain i where i: "length xs = i + 2 ^ 32" by (metis le_add_diff_inverse2 linorder_not_less)
  have "(of_nat (2 ^ 32) :: u32) = 0" by simp
  then have "m (p + of_nat i) = 0" using str_at_end [OF assms] by (simp only: i of_nat_add add_0_right)
  with str_at_nth [OF assms, of i] i show False by simp
qed

lemma strlen_loop_ok: "str_at m p xs \<Longrightarrow> strlen_loop p m = Some (p + of_nat (length xs))"
proof (induction xs arbitrary: p)
  case (Cons c cs)
  then show ?case by (subst strlen_loop.simps) (simp add: algebra_simps)
qed (simp add: strlen_loop.simps)

lemma nd_strlen_ok: "str_at m p xs \<Longrightarrow> nd_strlen p m = Some (of_nat (length xs)) \<and> unat (of_nat (length xs) :: u32) = length xs"
  using strlen_loop_ok [of m p xs] str_at_length [of m p xs] by (simp add: nd_strlen_def unat_of_nat)

section \<open>Copying, filling and comparing\<close>

lemma unat32: "unat (v :: u32) < 4294967296"
proof -
  have "unat v < 2 ^ LENGTH(32)" by (rule unsigned_less)
  then show ?thesis by simp
qed

lemma str_at_append: "str_at m p (xs @ ys) \<Longrightarrow> str_at m (p + of_nat (length xs)) ys"
proof (induction xs arbitrary: p)
  case (Cons c cs)
  then show ?case using Cons.IH [of "p + 1"] by (simp add: add.assoc)
qed simp

lemma str_at_cong:
  "(\<And>i. i \<le> length xs \<Longrightarrow> m' (p + of_nat i) = m (p + of_nat i)) \<Longrightarrow> str_at m' p xs = str_at m p xs"
proof (induction xs arbitrary: p)
  case (Cons c cs)
  have "str_at m' (p + 1) cs = str_at m (p + 1) cs"
  proof (rule Cons.IH)
    fix i assume "i \<le> length cs"
    with Cons.prems [of "Suc i"] show "m' (p + 1 + of_nat i) = m (p + 1 + of_nat i)" by (simp add: add.assoc)
  qed
  moreover have "m' p = m p" using Cons.prems [of 0] by simp
  ultimately show ?case by simp
next
  case Nil
  from Nil [of 0] show ?case by simp
qed

text \<open>A null byte within reach makes a string.\<close>

lemma str_at_exists: "m (p + of_nat n) = 0 \<Longrightarrow> \<exists>L. length L \<le> n \<and> str_at m p L"
proof (induction n arbitrary: p)
  case 0
  then show ?case by (intro exI [of _ "[]"]) simp
next
  case (Suc n)
  show ?case
  proof (cases "m p = 0")
    case True
    then show ?thesis by (intro exI [of _ "[]"]) simp
  next
    case False
    obtain L where "length L \<le> n" "str_at m (p + 1) L"
      using Suc.IH [of "p + 1"] Suc.prems by (auto simp: add.assoc)
    with False show ?thesis by (intro exI [of _ "m p # L"]) simp
  qed
qed

lemma fill_loop_at:
  "n \<le> 2 ^ 32 \<Longrightarrow> fill_loop n p c m x = (if unat (x - p) < n then c else m x)"
proof (induction n arbitrary: p m)
  case (Suc n)
  have "unat (x - p) < Suc n \<longleftrightarrow> x = p \<or> unat (x - (p + 1)) < n"
  proof (cases "x = p")
    case False
    then have "x - p \<noteq> 0" by simp
    then have "unat (x - p - 1) = unat (x - p) - 1" "unat (x - p) > 0"
      by (simp_all add: unat_minus_one unat_gt_0)
    then show ?thesis using False by (auto simp: diff_diff_eq)
  qed simp
  moreover have "unat (p - (p + 1)) = 2 ^ 32 - 1" by (simp add: unsigned_minus_1_eq_mask mask_eq_exp_minus_1)
  ultimately show ?case using Suc by auto
qed simp

lemma nd_memset_at: "nd_memset s v n m = (s, \<lambda>x. if x - s < n then ucast v else m x)"
proof -
  have "unat n \<le> 2 ^ 32" using unat32 [of n] by simp
  then show ?thesis by (auto simp: nd_memset_def fill_loop_at word_less_nat_alt)
qed

text \<open>\<open>nd_strncpy\<close> writes nothing but its \<open>count\<close> bytes.\<close>

lemma strncpy_loop_at:
  "strncpy_loop n d s m = (k, d', m') \<Longrightarrow> k \<le> n \<and> d' = d + of_nat (n - k) \<and>
     (\<forall>x. (\<forall>i<n. x \<noteq> d + of_nat i) \<longrightarrow> m' x = m x)"
proof (induction n d s m rule: strncpy_loop.induct)
  case (2 n d s m)
  show ?case
  proof (cases "m s = 0")
    case False
    with "2.prems" have run: "strncpy_loop n (d + 1) (s + 1) (m(d := m s)) = (k, d', m')" by simp
    note IH = "2.IH" [OF False run]
    have "m' x = m x" if "\<forall>i<Suc n. x \<noteq> d + of_nat i" for x
    proof -
      have "x \<noteq> d + 1 + of_nat i" if "i < n" for i
        using \<open>\<forall>i<Suc n. x \<noteq> d + of_nat i\<close> [rule_format, of "Suc i"] that by (simp add: add.assoc)
      moreover have "x \<noteq> d" using that [rule_format, of 0] by simp
      ultimately show ?thesis using IH by simp
    qed
    with IH show ?thesis by (auto simp: Suc_diff_le add.assoc)
  qed (use "2.prems" in simp)
qed simp

lemma nd_strncpy_frame:
  assumes "\<forall>i<unat n. x \<noteq> d + of_nat i"
  shows "fst (nd_strncpy d s n m) = d" "snd (nd_strncpy d s n m) x = m x"
proof -
  obtain k d' m' where l: "strncpy_loop (unat n) d s m = (k, d', m')" by (cases "strncpy_loop (unat n) d s m")
  note L = strncpy_loop_at [OF l]
  have k: "k \<le> 2 ^ 32" using L unat32 [of n] by simp
  have "\<not> unat (x - d') < k"
  proof
    assume "unat (x - d') < k"
    then have "unat n - k + unat (x - d') < unat n" using conjunct1 [OF L] by linarith
    moreover have "x = d + of_nat (unat n - k + unat (x - d'))" using L by (simp add: algebra_simps)
    ultimately show False using assms by metis
  qed
  then show "fst (nd_strncpy d s n m) = d" "snd (nd_strncpy d s n m) x = m x"
    using L assms k by (simp_all add: nd_strncpy_def l fill_loop_at)
qed

text \<open>Comparison ends if one of the two is a string, and decides equality if both are.\<close>

lemma nd_strcmp_returns:
  "str_at m cs xs \<or> str_at m ct xs \<Longrightarrow> \<exists>r. nd_strcmp cs ct m = Some r"
proof (induction xs arbitrary: cs ct)
  case Nil
  then show ?case by (subst nd_strcmp.simps) auto
next
  case (Cons c xs)
  then show ?case using Cons.IH [of "cs + 1" "ct + 1"] by (subst nd_strcmp.simps) auto
qed

lemma nd_strcmp_eq:
  "str_at m cs xs \<Longrightarrow> str_at m ct ys \<Longrightarrow> \<exists>r. nd_strcmp cs ct m = Some r \<and> (r = 0 \<longleftrightarrow> xs = ys)"
proof (induction xs arbitrary: cs ct ys)
  case Nil
  then show ?case by (cases ys) (subst nd_strcmp.simps; auto simp: uint_0_iff)+
next
  case (Cons c xs)
  show ?case
  proof (cases ys)
    case Nil
    then show ?thesis using Cons.prems by (subst nd_strcmp.simps) (auto simp: uint_0_iff)
  next
    case (Cons d zs)
    then show ?thesis using Cons.IH [of "cs + 1" "ct + 1" zs] Cons.prems
      by (subst nd_strcmp.simps) (auto simp: word_uint_eq_iff)
  qed
qed

section \<open>Tokens\<close>

text \<open>The tokens of a string: the maximal runs of characters that are not delimiters.\<close>

lemma tokens_shorter:
  assumes "dropWhile (\<lambda>c. c \<in> D) L \<noteq> []"
  shows "length (dropWhile (\<lambda>c. c \<notin> D) (dropWhile (\<lambda>c. c \<in> D) L)) < length L"
proof -
  let ?ys = "dropWhile (\<lambda>c. c \<in> D) L"
  have "hd ?ys \<notin> D" using hd_dropWhile [OF assms] .
  then have "length (dropWhile (\<lambda>c. c \<notin> D) ?ys) < length ?ys"
    using assms length_dropWhile_le [of "\<lambda>c. c \<notin> D" "tl ?ys"] by (cases ?ys) auto
  also have "\<dots> \<le> length L" by (rule length_dropWhile_le)
  finally show ?thesis .
qed

function tokens :: "u8 set \<Rightarrow> u8 list \<Rightarrow> u8 list list" where
  "tokens D L =
     (let ys = dropWhile (\<lambda>c. c \<in> D) L in
      if ys = [] then [] else takeWhile (\<lambda>c. c \<notin> D) ys # tokens D (dropWhile (\<lambda>c. c \<notin> D) ys))"
  by pat_completeness auto

termination by (relation "measure (\<lambda>(D, L). length L)") (auto intro: tokens_shorter)

declare tokens.simps [simp del]

lemma is_delim_ok: "str_at m d D \<Longrightarrow> is_delim c d m = Some (c \<in> set D)"
proof (induction D arbitrary: d)
  case (Cons x D)
  then show ?case by (subst is_delim.simps) auto
qed (simp add: is_delim.simps)

lemma skip_delims_ok:
  assumes "str_at m d D"
  shows "str_at m p L \<Longrightarrow> skip_delims p d m = Some (p + of_nat (length (takeWhile (\<lambda>c. c \<in> set D) L)))"
proof (induction L arbitrary: p)
  case (Cons c L)
  then show ?case by (subst skip_delims.simps) (auto simp: is_delim_ok [OF assms] add.assoc)
qed (simp add: skip_delims.simps)

lemma skip_token_ok:
  assumes "str_at m d D"
  shows "str_at m p L \<Longrightarrow> skip_token p d m = Some (p + of_nat (length (takeWhile (\<lambda>c. c \<notin> set D) L)))"
proof (induction L arbitrary: p)
  case (Cons c L)
  then show ?case by (subst skip_token.simps) (auto simp: is_delim_ok [OF assms] add.assoc)
qed (simp add: skip_token.simps)

lemma offsets_apart:
  assumes "i < 2 ^ 32" "j < 2 ^ 32"
  shows "(p :: u32) + of_nat i = p + of_nat j \<longleftrightarrow> i = j"
proof
  assume "p + of_nat i = p + of_nat j"
  then have "unat (of_nat i :: u32) = unat (of_nat j :: u32)" by simp
  then show "i = j" using assms by (simp add: unat_of_nat)
qed simp

lemma str_at_cut:
  "str_at m p (t @ rest) \<Longrightarrow> length t < 2 ^ 32 \<Longrightarrow> str_at (m(p + of_nat (length t) := 0)) p t"
proof (induction t arbitrary: p)
  case (Cons c t)
  have "p \<noteq> p + of_nat (length (c # t))"
    using offsets_apart [of 0 "length (c # t)" p] Cons.prems(2) by auto
  moreover have "p + 1 + of_nat (length t) = p + of_nat (length (c # t))" by (simp add: add.assoc)
  moreover have "str_at (m(p + 1 + of_nat (length t) := 0)) (p + 1) t" by (rule Cons.IH) (use Cons.prems in simp_all)
  ultimately have "str_at (m(p + of_nat (length (c # t)) := 0)) (p + 1) t" by (simp only:)
  with \<open>p \<noteq> _\<close> Cons.prems(1) show ?case by (simp only: append.simps str_at.simps fun_upd_other) simp
qed simp

text \<open>One call, from the string \<open>R\<close> at offset \<open>k\<close> of a line at \<open>p\<close>: there is no token left, or the next token is at
  offset \<open>k'\<close>, is a string of its own now, and the rest is behind it.\<close>

definition line_frame :: "u32 \<Rightarrow> nat \<Rightarrow> nat \<Rightarrow> mem \<Rightarrow> mem \<Rightarrow> bool" where
  "line_frame p k n m m' \<longleftrightarrow> (\<forall>x. (\<forall>i. k \<le> i \<and> i < k + n \<longrightarrow> x \<noteq> p + of_nat i) \<longrightarrow> m' x = m x)"

lemma nd_strtok_r_ok:
  assumes p: "(if str = 0 then sv else str) = p + of_nat k" and R: "str_at m (p + of_nat k) R" "k + length R < 2 ^ 32"
    and d: "str_at m d D"
  shows "if tokens (set D) R = [] then nd_strtok_r str d sv m = Some (0, p + of_nat (k + length R), m)
    else \<exists>k' o' R' m'. nd_strtok_r str d sv m = Some (p + of_nat k', p + of_nat o', m') \<and>
       str_at m' (p + of_nat k') (hd (tokens (set D) R)) \<and> str_at m' (p + of_nat o') R' \<and>
       tokens (set D) R' = tl (tokens (set D) R) \<and> line_frame p k (length R) m m' \<and>
       k \<le> k' \<and> k' + length (hd (tokens (set D) R)) \<le> o' \<and> o' + length R' = k + length R \<and>
       (R' = [] \<or> k' + length (hd (tokens (set D) R)) < o')"
proof -
  let ?D = "\<lambda>c. c \<in> set D" let ?n = "\<lambda>c. c \<notin> set D"
  define ys where "ys = dropWhile ?D R"
  define a where "a = length (takeWhile ?D R)"
  have lenR: "length R = a + length ys" "R = takeWhile ?D R @ ys"
    unfolding a_def ys_def by (simp_all flip: length_append)
  have ys: "str_at m (p + of_nat (k + a)) ys"
    using str_at_append [of m "p + of_nat k" "takeWhile ?D R" ys] R(1) lenR(2) by (simp add: a_def add.assoc)
  have skip: "skip_delims (p + of_nat k) d m = Some (p + of_nat (k + a))"
    using skip_delims_ok [OF d R(1)] by (simp add: a_def add.assoc)
  show ?thesis
  proof (cases ys)
    case Nil
    then have "tokens (set D) R = []" by (subst tokens.simps) (simp add: ys_def [symmetric])
    moreover have "m (p + of_nat (k + a)) = 0" using ys Nil by simp
    ultimately show ?thesis using skip lenR Nil by (simp add: nd_strtok_r_def p)
  next
    case (Cons y ys')
    define t where "t = takeWhile ?n ys"
    define rest where "rest = dropWhile ?n ys"
    have tok: "tokens (set D) R = t # tokens (set D) rest"
      using Cons by (subst tokens.simps) (simp add: ys_def [symmetric] t_def rest_def)
    have lenY: "length ys = length t + length rest" "ys = t @ rest"
      unfolding t_def rest_def by (simp_all flip: length_append)
    have rest: "str_at m (p + of_nat (k + a + length t)) rest"
      using str_at_append [of m "p + of_nat (k + a)" t rest] ys lenY(2) by (simp add: add.assoc)
    have nz: "m (p + of_nat (k + a)) \<noteq> 0" using ys Cons by simp
    have skip2: "skip_token (p + of_nat (k + a)) d m = Some (p + of_nat (k + a + length t))"
      using skip_token_ok [OF d ys] by (simp add: t_def add.assoc)
    show ?thesis
    proof (cases rest)
      case Nil
      have "nd_strtok_r str d sv m = Some (p + of_nat (k + a), p + of_nat (k + a + length t), m)"
        using skip skip2 nz rest Nil by (simp add: nd_strtok_r_def p)
      moreover have "str_at m (p + of_nat (k + a)) t" using ys lenY(2) Nil by simp
      moreover have "tokens (set D) [] = []" by (simp add: tokens.simps)
      ultimately show ?thesis
        unfolding tok list.sel if_not_P [OF list.distinct(2)]
        using rest lenR(1) lenY(1) Nil
        by (intro exI [of _ "k + a"] exI [of _ "k + a + length t"] exI [of _ "[]"] exI [of _ m])
          (auto simp: line_frame_def simp del: of_nat_add)
    next
      case (Cons r rs)
      let ?q = "k + a + length t"
      define m' where "m' = m(p + of_nat ?q := 0)"
      have apart: "p + of_nat i \<noteq> p + of_nat ?q" if "i \<noteq> ?q" "i < 2 ^ 32" for i
        using offsets_apart [of i ?q p] that R(2) lenR(1) lenY(1) by simp
      have "nd_strtok_r str d sv m = Some (p + of_nat (k + a), p + of_nat (?q + 1), m')"
        using skip skip2 nz rest Cons by (simp add: nd_strtok_r_def p m'_def add.assoc)
      moreover have "str_at m' (p + of_nat (k + a)) t"
        using str_at_cut [of m "p + of_nat (k + a)" t rest] ys lenY lenR(1) R(2) by (simp add: m'_def add.assoc)
      moreover have "str_at m' (p + of_nat (?q + 1)) rs"
      proof -
        have "str_at m (p + of_nat (?q + 1)) rs" using rest Cons by (simp add: ac_simps)
        moreover have "m' (p + of_nat (?q + 1) + of_nat i) = m (p + of_nat (?q + 1) + of_nat i)" if "i \<le> length rs" for i
        proof -
          have "p + of_nat (?q + 1) + of_nat i = p + of_nat (?q + 1 + i)" by (simp add: add.assoc)
          with apart [of "?q + 1 + i"] that R(2) lenR(1) lenY(1) Cons show ?thesis by (simp add: m'_def)
        qed
        ultimately show ?thesis using str_at_cong by blast
      qed
      moreover have "tokens (set D) rest = tokens (set D) rs"
      proof -
        have "r \<in> set D" using Cons hd_dropWhile [of ?n ys] by (simp add: rest_def)
        then show ?thesis unfolding Cons by (subst (1 2) tokens.simps) simp
      qed
      moreover have "line_frame p k (length R) m m'"
      proof -
        have "k \<le> ?q \<and> ?q < k + length R" using lenR(1) lenY(1) Cons by simp
        then show ?thesis unfolding line_frame_def m'_def by (metis fun_upd_other)
      qed
      ultimately show ?thesis
        unfolding tok list.sel if_not_P [OF list.distinct(2)]
        using lenR(1) lenY(1) Cons
        by (intro exI [of _ "k + a"] exI [of _ "?q + 1"] exI [of _ rs] exI [of _ m']) (auto simp del: of_nat_add)
    qed
  qed
qed

end
