(* ===== verification/Nd_Printf.thy ===== *)
theory Nd_Printf
  imports Nd_Strings
begin

text \<open>\<^verbatim>\<open>nd_vsnprintf\<close> of \<^verbatim>\<open>kernel/nd_klibc.c\<close>: the code, its specification \<open>render\<close> on lists of bytes, and the proof that the
  code leaves in the buffer what the specification says, cut to the size of the buffer.\<close>

section \<open>Formatted output\<close>

text \<open>
  The bytes of the characters in the format: 32 blank, 37 \<^verbatim>\<open>%\<close>, 45 \<^verbatim>\<open>-\<close>, 48 to 57 the digits, 97 \<^verbatim>\<open>a\<close>, 99 \<^verbatim>\<open>c\<close>, 100 \<^verbatim>\<open>d\<close>,
  108 \<^verbatim>\<open>l\<close>, 115 \<^verbatim>\<open>s\<close>, 117 \<^verbatim>\<open>u\<close>, 120 \<^verbatim>\<open>x\<close>. The state of the output is \<^verbatim>\<open>written\<close> and the memory.
\<close>

definition buf_putc :: "u32 \<Rightarrow> u32 \<Rightarrow> u8 \<Rightarrow> u32 \<times> mem \<Rightarrow> u32 \<times> mem" where
  "buf_putc buf sz c = (\<lambda>(written, m).
     if written < sz - 1 then (written + 1, m(buf + written := c)) else (written, m))"

text \<open>What \<^verbatim>\<open>out\<close> points to: the local \<^verbatim>\<open>tmp_buf\<close> or a literal, or a string in memory.\<close>

datatype out_ptr = Local "u8 list" | At u32

fun out_char :: "out_ptr \<Rightarrow> nat \<Rightarrow> mem \<Rightarrow> u8 option" where
  "out_char (Local xs) i m = (if i < length xs then Some (xs ! i) else None)"
| "out_char (At p) i m = Some (m (p + of_nat i))"

fun buf_putn :: "u32 \<Rightarrow> u32 \<Rightarrow> out_ptr \<Rightarrow> nat \<Rightarrow> nat \<Rightarrow> u32 \<times> mem \<Rightarrow> (u32 \<times> mem) option" where
  "buf_putn buf sz str i 0 st = Some st"
| "buf_putn buf sz str i (Suc len) st = do {
     c \<leftarrow> out_char str i (snd st);
     buf_putn buf sz str (Suc i) len (buf_putc buf sz c st)
   }"

fun buf_pad :: "u32 \<Rightarrow> u32 \<Rightarrow> nat \<Rightarrow> u32 \<times> mem \<Rightarrow> u32 \<times> mem" where
  "buf_pad buf sz 0 st = st"
| "buf_pad buf sz (Suc count) st = buf_pad buf sz count (buf_putc buf sz 32 st)"

text \<open>\<^verbatim>\<open>tmp_buf[len++] = c\<close>: the array has 24 bytes, its first \<^verbatim>\<open>len\<close> are the list.\<close>

definition tmp_put :: "u8 \<Rightarrow> u8 list \<Rightarrow> u8 list option" where
  "tmp_put c tmp_buf = (if length tmp_buf < 24 then Some (tmp_buf @ [c]) else None)"

lemma unat_div_less: "0 < v \<Longrightarrow> 1 < unat c \<Longrightarrow> unat (v div c) < unat (v :: u32)"
  by (simp add: unat_div word_less_nat_alt)

function dec_loop :: "u32 \<Rightarrow> u8 list \<Rightarrow> u8 list option" where
  "dec_loop value tmp_buf =
     (if value > 0 then Option.bind (tmp_put (ucast (value mod 10) + 48) tmp_buf) (dec_loop (value div 10))
      else Some tmp_buf)"
  by pat_completeness auto

termination by (relation "measure (\<lambda>(v, xs). unat v)") (auto intro: unat_div_less)

lemma unat_drop_less: "0 < v \<Longrightarrow> unat (drop_bit 4 v) < unat (v :: u32)"
  using unat_div_less [of v 16] by (simp add: drop_bit_eq_div)

function hex_loop :: "u32 \<Rightarrow> u8 list \<Rightarrow> u8 list option" where
  "hex_loop num tmp_buf =
     (if num > 0 then
        (let digit = ucast (num AND 0xF) :: u8 in
         Option.bind (tmp_put (if digit < 10 then 48 + digit else 97 + digit - 10) tmp_buf) (hex_loop (drop_bit 4 num)))
      else Some tmp_buf)"
  by pat_completeness auto

termination by (relation "measure (\<lambda>(v, xs). unat v)") (auto intro: unat_drop_less)

declare dec_loop.simps [simp del] hex_loop.simps [simp del]

text \<open>\<^verbatim>\<open>for (i = start, j = len - 1; i < j; i++, j--)\<close> swap.\<close>

fun rev_loop :: "nat \<Rightarrow> nat \<Rightarrow> u8 list \<Rightarrow> u8 list" where
  "rev_loop i j tmp_buf =
     (if i < j then rev_loop (i + 1) (j - 1) (tmp_buf[i := tmp_buf ! j, j := tmp_buf ! i]) else tmp_buf)"

declare rev_loop.simps [simp del]

definition rev_from :: "nat \<Rightarrow> u8 list \<Rightarrow> u8 list" where
  "rev_from start tmp_buf = rev_loop start (length tmp_buf - 1) tmp_buf"

text \<open>The next argument of the call; arguments are words, \<^verbatim>\<open>int\<close> and \<^verbatim>\<open>long\<close> have the same size.\<close>

fun va_arg :: "u32 list \<Rightarrow> (u32 \<times> u32 list) option" where
  "va_arg [] = None"
| "va_arg (a # args) = Some (a, args)"

text \<open>The conversion of a signed number. Its negation wraps for the smallest one, where it is undefined in C.\<close>

definition fmt_d :: "u32 \<Rightarrow> u8 list option" where
  "fmt_d num = do {
     (tmp_buf, value) \<leftarrow> (if num <s 0 then map_option (\<lambda>t. (t, - num)) (tmp_put 45 []) else Some ([], num));
     if value = 0 then tmp_put 48 tmp_buf
     else do {
       let start = length tmp_buf;
       tmp_buf \<leftarrow> dec_loop value tmp_buf;
       Some (rev_from start tmp_buf)
     }
   }"

definition fmt_u :: "u32 \<Rightarrow> u8 list option" where
  "fmt_u num =
     (if num = 0 then tmp_put 48 [] else map_option (rev_from 0) (dec_loop num []))"

definition fmt_x :: "u32 \<Rightarrow> u8 list option" where
  "fmt_x num =
     (if num = 0 then tmp_put 48 [] else map_option (rev_from 0) (hex_loop num []))"

text \<open>The \<^verbatim>\<open>switch\<close>: \<^verbatim>\<open>out\<close>, \<^verbatim>\<open>len\<close> and the remaining arguments.\<close>

definition null_text :: "u8 list" where "null_text = [40, 110, 117, 108, 108, 41]"

definition convert :: "u8 \<Rightarrow> u32 list \<Rightarrow> mem \<Rightarrow> (out_ptr \<times> nat \<times> u32 list) option" where
  "convert c args m =
     (if c = 100 then do { (a, args) \<leftarrow> va_arg args; t \<leftarrow> fmt_d a; Some (Local t, length t, args) }
      else if c = 117 then do { (a, args) \<leftarrow> va_arg args; t \<leftarrow> fmt_u a; Some (Local t, length t, args) }
      else if c = 120 then do { (a, args) \<leftarrow> va_arg args; t \<leftarrow> fmt_x a; Some (Local t, length t, args) }
      else if c = 115 then do {
        (s, args) \<leftarrow> va_arg args;
        if s \<noteq> 0 then do { len \<leftarrow> nd_strlen s m; Some (At s, unat len, args) }
        else Some (Local null_text, length null_text, args) }
      else if c = 99 then do { (a, args) \<leftarrow> va_arg args; Some (Local [ucast a], 1, args) }
      else if c = 37 then Some (Local [37], 1, args)
      else Some (Local [37, c], 2, args))"

partial_function (option) width_loop :: "u32 \<Rightarrow> u32 \<Rightarrow> mem \<Rightarrow> (u32 \<times> u32) option" where
  "width_loop fmt width m =
     (if 48 \<le> m fmt \<and> m fmt \<le> 57 then width_loop (fmt + 1) (width * 10 + (ucast (m fmt) - 48)) m
      else Some (fmt, width))"

text \<open>One conversion, from the character after \<^verbatim>\<open>%\<close>.\<close>

definition directive :: "u32 \<Rightarrow> u32 \<Rightarrow> u32 \<Rightarrow> u32 list \<Rightarrow> u32 \<times> mem \<Rightarrow> (u32 \<times> u32 list \<times> u32 \<times> mem) option" where
  "directive buf sz fmt args st = do {
     let m = snd st;
     let (left_align, fmt) = (if m fmt = 45 then (True, fmt + 1) else (False, fmt));
     (fmt, width) \<leftarrow> width_loop fmt 0 m;
     let fmt = (if m fmt = 108 then fmt + 1 else fmt);
     (out, len, args) \<leftarrow> convert (m fmt) args m;
     let st = (if \<not> left_align \<and> unat width > len then buf_pad buf sz (unat width - len) st else st);
     st \<leftarrow> buf_putn buf sz out 0 len st;
     let st = (if left_align \<and> unat width > len then buf_pad buf sz (unat width - len) st else st);
     Some (fmt + 1, args, st)
   }"

partial_function (option) format_loop :: "u32 \<Rightarrow> u32 \<Rightarrow> u32 \<Rightarrow> u32 list \<Rightarrow> u32 \<times> mem \<Rightarrow> (u32 \<times> mem) option" where
  "format_loop buf sz fmt args st =
     (if snd st fmt \<noteq> 0 \<and> fst st < sz - 1 then
        if snd st fmt \<noteq> 37 then
          format_loop buf sz (fmt + 1) args (fst st + 1, (snd st)(buf + fst st := snd st fmt))
        else Option.bind (directive buf sz (fmt + 1) args st) (\<lambda>(fmt', args', st').
          format_loop buf sz fmt' args' st')
      else Some st)"

definition nd_vsnprintf :: "u32 \<Rightarrow> u32 \<Rightarrow> u32 \<Rightarrow> u32 list \<Rightarrow> mem \<Rightarrow> (u32 \<times> mem) option" where
  "nd_vsnprintf buf sz fmt args m =
     (if sz = 0 then Some (0, m)
      else do {
        (written, m1) \<leftarrow> format_loop buf sz fmt args (0, m);
        Some (written, m1(buf + written := 0))
      })"

definition nd_snprintf :: "u32 \<Rightarrow> u32 \<Rightarrow> u32 \<Rightarrow> u32 list \<Rightarrow> mem \<Rightarrow> (u32 \<times> mem) option" where
  "nd_snprintf buf sz fmt args m = nd_vsnprintf buf sz fmt args m"


section \<open>What formatted output should be\<close>

text \<open>Numerals, the most significant digit first.\<close>

fun dec :: "nat \<Rightarrow> u8 list" where
  "dec n = (if n < 10 then [48 + of_nat n] else dec (n div 10) @ [48 + of_nat (n mod 10)])"

fun hex :: "nat \<Rightarrow> u8 list" where
  "hex n = (if n < 16 then [if n < 10 then 48 + of_nat n else 87 + of_nat n]
            else hex (n div 16) @ [if n mod 16 < 10 then 48 + of_nat (n mod 16) else 87 + of_nat (n mod 16)])"

declare dec.simps [simp del] hex.simps [simp del]

definition dec_int :: "int \<Rightarrow> u8 list" where
  "dec_int i = (if i < 0 then 45 # dec (nat (- i)) else dec (nat i))"

text \<open>An argument as the caller means it: a number, or a string.\<close>

datatype varg = Num u32 | Str "u8 list"

fun convert_spec :: "u8 \<Rightarrow> varg list \<Rightarrow> (u8 list \<times> varg list) option" where
  "convert_spec c (Num a # args) =
     (if c = 100 then Some (dec_int (sint a), args)
      else if c = 117 then Some (dec (unat a), args)
      else if c = 120 then Some (hex (unat a), args)
      else if c = 115 then (if a = 0 then Some (null_text, args) else None)
      else if c = 99 then Some ([ucast a], args)
      else Some (if c = 37 then [37] else [37, c], Num a # args))"
| "convert_spec c (Str xs # args) =
     (if c = 100 \<or> c = 117 \<or> c = 120 \<or> c = 99 then None
      else if c = 115 then Some (xs, args)
      else Some (if c = 37 then [37] else [37, c], Str xs # args))"
| "convert_spec c [] =
     (if c = 100 \<or> c = 117 \<or> c = 120 \<or> c = 99 \<or> c = 115 then None
      else Some (if c = 37 then [37] else [37, c], []))"

definition pad :: "bool \<Rightarrow> u32 \<Rightarrow> u8 list \<Rightarrow> u8 list" where
  "pad left_align width t =
     (let blanks = replicate (unat width - length t) 32 in if left_align then t @ blanks else blanks @ t)"

abbreviation digit :: "u8 \<Rightarrow> bool" where "digit c \<equiv> 48 \<le> c \<and> c \<le> 57"

text \<open>A directive after its \<^verbatim>\<open>%\<close>: alignment, width, conversion character, and what follows it.\<close>

fun drop_char :: "u8 \<Rightarrow> u8 list \<Rightarrow> u8 list" where
  "drop_char c [] = []"
| "drop_char c (x # xs) = (if x = c then xs else x # xs)"

definition parse_directive :: "u8 list \<Rightarrow> (bool \<times> u32 \<times> u8 \<times> u8 list) option" where
  "parse_directive F =
     (let F1 = drop_char 45 F;
          width = foldl (\<lambda>w c. w * 10 + (ucast c - 48)) 0 (takeWhile digit F1)
      in case drop_char 108 (dropWhile digit F1) of
           [] \<Rightarrow> None
         | c # rest \<Rightarrow> Some (F \<noteq> [] \<and> hd F = 45, width, c, rest))"

lemma length_drop_char: "length (drop_char c xs) \<le> length xs"
  by (cases xs) auto

lemma parse_directive_shorter: "parse_directive F = Some (l, w, c, rest) \<Longrightarrow> length rest < length F"
  using length_drop_char [of 45 F] length_drop_char [of 108 "dropWhile digit (drop_char 45 F)"]
    length_dropWhile_le [of digit "drop_char 45 F"]
  by (auto simp: parse_directive_def Let_def split: list.splits)

function render :: "u8 list \<Rightarrow> varg list \<Rightarrow> u8 list option" where
  "render F args =
     (case F of
        [] \<Rightarrow> Some []
      | c # cs \<Rightarrow>
          if c \<noteq> 37 then map_option ((#) c) (render cs args)
          else (case parse_directive cs of
                  None \<Rightarrow> None
                | Some (l, w, k, rest) \<Rightarrow>
                    (case convert_spec k args of
                       None \<Rightarrow> None
                     | Some (t, args') \<Rightarrow> map_option ((@) (pad l w t)) (render rest args'))))"
  by pat_completeness auto

termination
  by (relation "measure (\<lambda>(F, args). length F)") (auto dest: parse_directive_shorter)

declare render.simps [simp del]

section \<open>Numerals\<close>

lemma length_dec: "n < 10 ^ Suc k \<Longrightarrow> length (dec n) \<le> Suc k"
proof (induction n arbitrary: k rule: dec.induct)
  case (1 n)
  show ?case
  proof (cases "n < 10")
    case True
    then show ?thesis by (subst dec.simps) simp
  next
    case False
    then obtain k' where k: "k = Suc k'" using "1.prems" by (cases k) auto
    have "n div 10 < 10 ^ Suc k'" using "1.prems" by (simp add: k div_less_dividend less_mult_imp_div_less)
    with "1.IH" [OF False this] False show ?thesis by (subst dec.simps) (simp add: k)
  qed
qed

lemma length_hex: "n < 16 ^ Suc k \<Longrightarrow> length (hex n) \<le> Suc k"
proof (induction n arbitrary: k rule: hex.induct)
  case (1 n)
  show ?case
  proof (cases "n < 16")
    case True
    then show ?thesis by (subst hex.simps) simp
  next
    case False
    then obtain k' where k: "k = Suc k'" using "1.prems" by (cases k) auto
    have "n div 16 < 16 ^ Suc k'" using "1.prems" by (simp add: k div_less_dividend less_mult_imp_div_less)
    with "1.IH" [OF False this] False show ?thesis by (subst hex.simps) (simp add: k)
  qed
qed

lemma dec_loop_dec:
  assumes "0 < v" "length xs + length (dec (unat v)) \<le> 24"
  shows "dec_loop v xs = Some (xs @ rev (dec (unat v)))"
  using assms
proof (induction v xs rule: dec_loop.induct)
  case (1 v xs)
  have c: "ucast (v mod 10) + 48 = (48 + of_nat (unat v mod 10) :: u8)"
    by (simp add: word_unat_eq_iff unat_mod unsigned_ucast_eq take_bit_eq_mod unat_word_ariths unat_of_nat)
  have len: "length xs < 24" using "1.prems"(2) by (subst (asm) dec.simps) (auto split: if_splits)
  then have put: "tmp_put (ucast (v mod 10) + 48) xs = Some (xs @ [48 + of_nat (unat v mod 10)])"
    by (simp add: tmp_put_def c)
  show ?case
  proof (cases "unat v < 10")
    case True
    then have "v div 10 = 0" by (simp add: word_unat_eq_iff unat_div)
    then show ?thesis using "1.prems" put True
      by (subst dec_loop.simps) (simp add: dec_loop.simps [of 0] dec.simps [of "unat v"])
  next
    case False
    have "0 < v div 10" using False by (simp add: word_less_nat_alt unat_div)
    moreover have d: "dec (unat v) = dec (unat (v div 10)) @ [48 + of_nat (unat v mod 10)]"
      using False by (subst dec.simps) (simp add: unat_div)
    ultimately have "dec_loop (v div 10) (xs @ [48 + of_nat (unat v mod 10)]) =
        Some ((xs @ [48 + of_nat (unat v mod 10)]) @ rev (dec (unat (v div 10))))"
      using "1.IH" [OF "1.prems"(1), of "xs @ [48 + of_nat (unat v mod 10)]"] "1.prems"(2) put by simp
    then show ?thesis using "1.prems"(1) put d by (subst dec_loop.simps) simp
  qed
qed


lemma hex_loop_hex:
  assumes "0 < v" "length xs + length (hex (unat v)) \<le> 24"
  shows "hex_loop v xs = Some (xs @ rev (hex (unat v)))"
  using assms
proof (induction v xs rule: hex_loop.induct)
  case (1 v xs)
  let ?c = "\<lambda>n :: nat. (if n < 10 then 48 + of_nat n else 87 + of_nat n) :: u8"
  let ?d = "ucast (v AND 0xF) :: u8"
  have e: "unat ?d = unat v mod 16"
  proof -
    have "v AND 0xF = take_bit 4 v" by (simp add: take_bit_eq_mask mask_eq_exp_minus_1)
    then have "unat (v AND 0xF) = unat v mod 16" by (simp add: unsigned_take_bit_eq take_bit_eq_mod unat_mod)
    then show ?thesis by (simp add: unsigned_ucast_eq take_bit_eq_mod)
  qed
  have put: "tmp_put (if ?d < 10 then 48 + ?d else 97 + ?d - 10) xs = Some (xs @ [?c (unat v mod 16)])"
  proof -
    have "?d = of_nat (unat v mod 16)" unfolding e [symmetric] by simp
    moreover have "length xs < 24" using "1.prems"(2) by (subst (asm) hex.simps) (auto split: if_splits)
    moreover have "?d < 10 \<longleftrightarrow> unat v mod 16 < 10" by (simp add: word_less_nat_alt e)
    ultimately show ?thesis by (simp add: tmp_put_def)
  qed
  show ?case
  proof (cases "unat v < 16")
    case True
    then have "drop_bit 4 v = 0" by (simp add: word_unat_eq_iff unat_drop_bit_eq drop_bit_eq_div unat_div)
    then show ?thesis using "1.prems" put True
      by (subst hex_loop.simps) (simp add: hex_loop.simps [of 0] hex.simps [of "unat v"] Let_def)
  next
    case False
    have "0 < drop_bit 4 v" using False by (simp add: word_less_nat_alt unat_drop_bit_eq drop_bit_eq_div unat_div)
    moreover have d: "hex (unat v) = hex (unat (drop_bit 4 v)) @ [?c (unat v mod 16)]"
      using False by (subst hex.simps) (simp add: unat_drop_bit_eq drop_bit_eq_div unat_div)
    ultimately have "hex_loop (drop_bit 4 v) (xs @ [?c (unat v mod 16)]) =
        Some ((xs @ [?c (unat v mod 16)]) @ rev (hex (unat (drop_bit 4 v))))"
      using "1.IH" [OF "1.prems"(1) refl, of "xs @ [?c (unat v mod 16)]"] "1.prems"(2) put by simp
    then show ?thesis using "1.prems"(1) put d by (subst hex_loop.simps) (simp add: Let_def)
  qed
qed

lemma rev_loop_rev:
  "rev_loop (length xs) (length xs + length ys - 1) (xs @ ys @ zs) = xs @ rev ys @ zs"
proof (induction "length ys" arbitrary: xs ys zs rule: less_induct)
  case less
  show ?case
  proof (cases ys)
    case Nil
    have "\<not> length xs < length xs - 1" by simp
    with Nil show ?thesis by (subst rev_loop.simps) (simp only: list.size rev.simps append.simps add_0_right if_False)
  next
    case (Cons y ys')
    note y = this
    show ?thesis
    proof (cases ys' rule: rev_cases)
      case Nil
      then show ?thesis using y by (subst rev_loop.simps) simp
    next
      case (snoc mid z)
      have "rev_loop (length xs) (length xs + length ys - 1) (xs @ ys @ zs) =
          rev_loop (length (xs @ [z])) (length (xs @ [z]) + length mid - 1) ((xs @ [z]) @ mid @ (y # zs))"
        by (subst rev_loop.simps) (simp add: y snoc nth_append list_update_append)
      then show ?thesis using less [of mid "xs @ [z]" "y # zs"] by (simp add: y snoc)
    qed
  qed
qed

lemma rev_from: "rev_from (length xs) (xs @ ys) = xs @ rev ys"
  using rev_loop_rev [of xs ys "[]"] by (simp add: rev_from_def)

lemma sint_nat:
  "0 \<le> sint (v :: u32) \<Longrightarrow> nat (sint v) = unat v" "sint v < 0 \<Longrightarrow> nat (- sint v) = unat (- v)"
proof -
  have r: "- 2147483648 \<le> sint v" "sint v < 2147483648"
    using sint_greater_eq [of v] sint_less [of v] by simp_all
  have u: "uint v = sint v mod 4294967296" using uint_sint [of v] by (simp add: take_bit_eq_mod)
  show "nat (sint v) = unat v" if "0 \<le> sint v"
    using u r that by (simp add: unat_eq_nat_uint)
  have "uint (- v) = (- sint v) mod 4294967296"
    using u by (simp add: uint_word_ariths mod_minus_eq)
  then show "nat (- sint v) = unat (- v)" if "sint v < 0"
    using r that by (simp add: unat_eq_nat_uint)
qed

lemma fmt_d_dec: "fmt_d num = Some (dec_int (sint num))"
proof -
  have len: "length (dec (unat v)) \<le> 10" for v :: u32
    using length_dec [of "unat v" 9] unat32 [of v] by simp
  have d0: "dec 0 = [48]" by (simp add: dec.simps)
  show ?thesis
  proof (cases "num <s 0")
    case True
    then have neg: "sint num < 0" and nz: "- num \<noteq> 0" by (auto simp: word_sless_alt)
    have "nat (- sint num) = unat (- num)" by (rule sint_nat(2) [OF neg])
    with True neg nz show ?thesis
      using dec_loop_dec [of "- num" "[45]"] len [of "- num"] rev_from [of "[45]"]
      by (simp add: fmt_d_def tmp_put_def dec_int_def word_gt_0)
  next
    case False
    then have pos: "\<not> sint num < 0" by (simp add: word_sless_alt)
    have "nat (sint num) = unat num" using sint_nat(1) [of num] pos by simp
    with False pos show ?thesis
      using dec_loop_dec [of num "[]"] len [of num] rev_from [of "[]"]
      by (auto simp: fmt_d_def tmp_put_def dec_int_def word_gt_0 d0)
  qed
qed

lemma fmt_u_dec: "fmt_u num = Some (dec (unat num))"
  using dec_loop_dec [of num "[]"] length_dec [of "unat num" 9] unat32 [of num] rev_from [of "[]"]
  by (auto simp: fmt_u_def tmp_put_def word_gt_0 dec.simps [of 0])

lemma fmt_x_hex: "fmt_x num = Some (hex (unat num))"
  using hex_loop_hex [of num "[]"] length_hex [of "unat num" 7] unat32 [of num] rev_from [of "[]"]
  by (auto simp: fmt_x_def tmp_put_def word_gt_0 hex.simps [of 0])


section \<open>The output\<close>

text \<open>A string that shares no byte with the output buffer.\<close>

definition in_buf :: "u32 \<Rightarrow> u32 \<Rightarrow> u32 \<Rightarrow> bool" where
  "in_buf buf sz p \<longleftrightarrow> p - buf < sz"

fun clear_of :: "u32 \<Rightarrow> u32 \<Rightarrow> u32 \<Rightarrow> u8 list \<Rightarrow> bool" where
  "clear_of buf sz p [] \<longleftrightarrow> \<not> in_buf buf sz p"
| "clear_of buf sz p (c # cs) \<longleftrightarrow> \<not> in_buf buf sz p \<and> clear_of buf sz (p + 1) cs"

text \<open>Memory with \<open>t\<close> at \<open>buf\<close>, and the state of the output after \<open>u\<close> has been written to it: what does not fit is dropped.\<close>

definition wrote :: "u32 \<Rightarrow> mem \<Rightarrow> u8 list \<Rightarrow> mem" where
  "wrote buf m t = (\<lambda>x. if unat (x - buf) < length t then t ! unat (x - buf) else m x)"

definition out_state :: "u32 \<Rightarrow> u32 \<Rightarrow> mem \<Rightarrow> u8 list \<Rightarrow> u32 \<times> mem" where
  "out_state buf sz m u = (let t = take (unat (sz - 1)) u in (of_nat (length t), wrote buf m t))"

lemma wrote_Nil [simp]: "wrote buf m [] = m"
  by (simp add: wrote_def)

lemma wrote_snoc:
  assumes "length t < 2 ^ 32"
  shows "(wrote buf m t)(buf + of_nat (length t) := c) = wrote buf m (t @ [c])"
proof
  fix x
  have l: "unat (of_nat (length t) :: u32) = length t" using assms by (simp add: unat_of_nat)
  have "x = buf + of_nat (length t) \<longleftrightarrow> unat (x - buf) = length t"
  proof
    assume "unat (x - buf) = length t"
    then have "of_nat (length t) = x - buf" by (metis of_nat_unat ucast_id)
    then show "x = buf + of_nat (length t)" by simp
  qed (simp add: l)
  then show "((wrote buf m t)(buf + of_nat (length t) := c)) x = wrote buf m (t @ [c]) x"
    by (auto simp: wrote_def l nth_append less_Suc_eq)
qed

lemma wrote_outside: "length t \<le> unat sz \<Longrightarrow> \<not> in_buf buf sz x \<Longrightarrow> wrote buf m t x = m x"
  by (simp add: wrote_def in_buf_def word_less_nat_alt)

lemma out_state_mem:
  assumes "sz \<noteq> 0" "\<not> in_buf buf sz x"
  shows "snd (out_state buf sz m u) x = m x"
  using assms unat_minus_one [of sz] by (auto simp: out_state_def Let_def intro!: wrote_outside)

lemma out_state_putc:
  assumes "sz \<noteq> 0"
  shows "buf_putc buf sz c (out_state buf sz m u) = out_state buf sz m (u @ [c])"
proof -
  let ?n = "unat (sz - 1)"
  have n: "?n < 2 ^ 32" using unat32 [of "sz - 1"] by simp
  show ?thesis
  proof (cases "length u < ?n")
    case True
    then have "of_nat (length u) < sz - 1" using n by (simp add: word_less_nat_alt unat_of_nat)
    with True n show ?thesis
      by (simp add: out_state_def buf_putc_def wrote_snoc add.commute)
  next
    case False
    then have "(of_nat (length (take ?n u)) :: u32) = sz - 1" by simp
    with False show ?thesis by (simp add: out_state_def buf_putc_def)
  qed
qed

lemma out_state_pad:
  "sz \<noteq> 0 \<Longrightarrow> buf_pad buf sz n (out_state buf sz m u) = out_state buf sz m (u @ replicate n 32)"
  by (induction n arbitrary: u) (simp_all add: out_state_putc)

lemma out_state_putn:
  assumes "sz \<noteq> 0" "\<And>u j. j < length t \<Longrightarrow> out_char str (i + j) (snd (out_state buf sz m u)) = Some (t ! j)"
  shows "buf_putn buf sz str i (length t) (out_state buf sz m u) = Some (out_state buf sz m (u @ t))"
  using assms(2)
proof (induction t arbitrary: i u)
  case (Cons c t)
  have "out_char str (Suc i + j) (snd (out_state buf sz m u)) = Some (t ! j)" if "j < length t" for u j
    using Cons.prems [of "Suc j"] that by simp
  from Cons.IH [OF this] Cons.prems [of 0] show ?case by (simp add: out_state_putc [OF assms(1)])
qed simp


section \<open>Formatting\<close>

fun arg_ok :: "mem \<Rightarrow> u32 \<Rightarrow> u32 \<Rightarrow> u32 \<Rightarrow> varg \<Rightarrow> bool" where
  "arg_ok m buf sz w (Num v) \<longleftrightarrow> w = v"
| "arg_ok m buf sz w (Str xs) \<longleftrightarrow> w \<noteq> 0 \<and> str_at m w xs \<and> clear_of buf sz w xs"

lemma str_out:
  assumes "sz \<noteq> 0"
  shows "clear_of buf sz p F \<Longrightarrow> str_at (snd (out_state buf sz m u)) p F = str_at m p F"
  by (induction F arbitrary: p) (auto simp: out_state_mem [OF assms])

lemma clear_of_nth: "clear_of buf sz p xs \<Longrightarrow> i \<le> length xs \<Longrightarrow> \<not> in_buf buf sz (p + of_nat i)"
proof (induction xs arbitrary: p i)
  case (Cons c cs)
  show ?case
  proof (cases i)
    case (Suc j)
    then show ?thesis using Cons.IH [of "p + 1" j] Cons.prems by (simp add: add.assoc)
  qed (use Cons.prems in simp)
qed simp

lemma skip_digits:
  "str_at m p F \<Longrightarrow> width_loop p w m = Some (p + of_nat (length (takeWhile digit F)),
     foldl (\<lambda>w c. w * 10 + (ucast c - 48)) w (takeWhile digit F))"
  "str_at m p F \<Longrightarrow> str_at m (p + of_nat (length (takeWhile digit F))) (dropWhile digit F)"
  "clear_of buf sz p F \<Longrightarrow> clear_of buf sz (p + of_nat (length (takeWhile digit F))) (dropWhile digit F)"
proof (induction F arbitrary: p w)
  case (Cons c cs)
  {
    case 1
    then show ?case using Cons.IH(1) [of "p + 1"] by (subst width_loop.simps) (auto simp: add.assoc)
  next
    case 2
    then show ?case using Cons.IH(2) [of "p + 1"] by (auto simp: add.assoc)
  next
    case 3
    then show ?case using Cons.IH(3) [of "p + 1"] by (auto simp: add.assoc)
  }
qed (simp_all add: width_loop.simps)

lemma skip_char:
  assumes "c \<noteq> 0"
  shows "str_at m p F \<Longrightarrow> str_at m (if m p = c then p + 1 else p) (drop_char c F)"
    "str_at m p F \<Longrightarrow> clear_of buf sz p F \<Longrightarrow> clear_of buf sz (if m p = c then p + 1 else p) (drop_char c F)"
    "str_at m p F \<Longrightarrow> m p = c \<longleftrightarrow> F \<noteq> [] \<and> hd F = c"
  using assms by (cases F; auto)+

lemma convert_ok:
  assumes sz: "sz \<noteq> 0" and args: "list_all2 (arg_ok m buf sz) args vargs"
    and spec: "convert_spec k vargs = Some (t, vargs')"
  shows "\<exists>out args'. convert k args (snd (out_state buf sz m u)) = Some (out, length t, args') \<and>
    list_all2 (arg_ok m buf sz) args' vargs' \<and>
    (\<forall>u j. j < length t \<longrightarrow> out_char out j (snd (out_state buf sz m u)) = Some (t ! j))"
proof (cases vargs)
  case Nil
  then show ?thesis using args spec by (auto simp: convert_def split: if_splits)
next
  case (Cons v vs)
  obtain a as where a: "args = a # as" "arg_ok m buf sz a v" "list_all2 (arg_ok m buf sz) as vs"
    using args Cons by (auto simp: list_all2_Cons2)
  show ?thesis
  proof (cases v)
    case (Num w)
    with a have "a = w" by simp
    then show ?thesis using spec a args unfolding Cons Num
      by (auto simp: convert_def fmt_d_dec fmt_u_dec fmt_x_hex split: if_splits)
  next
    case (Str xs)
    have s: "a \<noteq> 0" "str_at m a xs" "clear_of buf sz a xs" using a(2) Str by simp_all
    have M: "str_at (snd (out_state buf sz m u)) a xs" for u using str_out [OF sz s(3)] s(2) by simp
    show ?thesis
    proof (cases "k = 115")
      case True
      then show ?thesis using spec s(1) a nd_strlen_ok [OF M [of u]] str_at_nth [OF M]
        unfolding Cons Str by (auto simp: convert_def)
    next
      case False
      then show ?thesis using spec a args unfolding Cons Str
        by (auto simp: convert_def split: if_splits)
    qed
  qed
qed

lemma directive_ok:
  assumes sz: "sz \<noteq> 0" and F: "str_at m p F" "clear_of buf sz p F"
    and args: "list_all2 (arg_ok m buf sz) args vargs"
    and parse: "parse_directive F = Some (l, w, k, rest)" and spec: "convert_spec k vargs = Some (t, vargs')"
  shows "\<exists>p' args'. directive buf sz p args (out_state buf sz m u) = Some (p', args', out_state buf sz m (u @ pad l w t)) \<and>
    str_at m p' rest \<and> clear_of buf sz p' rest \<and> list_all2 (arg_ok m buf sz) args' vargs'"
proof -
  let ?M = "snd (out_state buf sz m u)"
  have agree: "str_at ?M q G = str_at m q G" if "clear_of buf sz q G" for q G using str_out [OF sz that] .
  have M: "str_at ?M p F" using agree F by simp
  define p1 where "p1 = (if ?M p = 45 then p + 1 else p)"
  define F1 where "F1 = drop_char 45 F"
  have 1: "str_at ?M p1 F1" "clear_of buf sz p1 F1"
    using skip_char(1,2) [of 45 ?M p F] M F(2) unfolding p1_def F1_def by simp_all
  define p2 where "p2 = p1 + of_nat (length (takeWhile digit F1))"
  define F2 where "F2 = dropWhile digit F1"
  have 2: "str_at ?M p2 F2" "clear_of buf sz p2 F2"
    using skip_digits(2,3) 1 unfolding p2_def F2_def by blast+
  define p3 where "p3 = (if ?M p2 = 108 then p2 + 1 else p2)"
  have 3: "str_at ?M p3 (drop_char 108 F2)" "clear_of buf sz p3 (drop_char 108 F2)"
    using skip_char(1,2) [of 108 ?M p2 F2] 2 unfolding p3_def by simp_all
  have P: "drop_char 108 F2 = k # rest" "l \<longleftrightarrow> ?M p = 45" "w = foldl (\<lambda>w c. w * 10 + (ucast c - 48)) 0 (takeWhile digit F1)"
    using parse skip_char(3) [OF _ M, of 45]
    by (auto simp: parse_directive_def Let_def F1_def F2_def split: list.splits)
  have k: "?M p3 = k" and rest: "str_at ?M (p3 + 1) rest" "clear_of buf sz (p3 + 1) rest" using 3 P(1) by simp_all
  obtain out args' where c: "convert k args ?M = Some (out, length t, args')"
      "list_all2 (arg_ok m buf sz) args' vargs'"
      "\<And>u j. j < length t \<Longrightarrow> out_char out (0 + j) (snd (out_state buf sz m u)) = Some (t ! j)"
    using convert_ok [OF sz args spec, of u] by auto
  note putn = out_state_putn [OF sz c(3)]
  have "directive buf sz p args (out_state buf sz m u) = Some (p3 + 1, args', out_state buf sz m (u @ pad l w t))"
  proof -
    have wl: "width_loop p1 0 ?M = Some (p2, w)" using skip_digits(1) [OF 1(1), of 0] unfolding p2_def P(3) .
    have first: "(if ?M p = 45 then (True, p + 1) else (False, p)) = (l, p1)" using P(2) by (simp add: p1_def)
    show ?thesis
      unfolding directive_def Let_def first prod.case wl bind.bind_lunit
      unfolding p3_def [symmetric] k c(1) bind.bind_lunit prod.case
      by (auto simp: out_state_pad [OF sz] putn pad_def Let_def)
  qed
  moreover have "str_at m (p3 + 1) rest" using rest agree by blast
  ultimately show ?thesis using rest(2) c(2) by blast
qed

lemma out_state_full:
  assumes "\<not> fst (out_state buf sz m u) < sz - 1"
  shows "out_state buf sz m (u @ v) = out_state buf sz m u"
proof -
  have "\<not> length u < unat (sz - 1)"
    using assms unat32 [of "sz - 1"] by (auto simp: out_state_def word_less_nat_alt unat_of_nat)
  then show ?thesis by (simp add: out_state_def)
qed

lemma format_loop_ok:
  assumes sz: "sz \<noteq> 0"
  shows "render F vargs = Some t \<Longrightarrow> str_at m p F \<Longrightarrow> clear_of buf sz p F \<Longrightarrow>
    list_all2 (arg_ok m buf sz) args vargs \<Longrightarrow>
    format_loop buf sz p args (out_state buf sz m u) = Some (out_state buf sz m (u @ t))"
proof (induction F vargs arbitrary: p args u t rule: render.induct)
  case (1 F vargs)
  let ?M = "snd (out_state buf sz m u)"
  have M: "str_at ?M p F" using str_out [OF sz "1.prems"(3)] "1.prems"(2) by simp
  show ?case
  proof (cases "F = [] \<or> \<not> fst (out_state buf sz m u) < sz - 1")
    case True
    then show ?thesis
      using out_state_full [of buf sz m u] M "1.prems"(1)
      by (subst format_loop.simps) (auto simp: render.simps [of "[]"])
  next
    case False
    then obtain c cs where F: "F = c # cs" by (cases F) auto
    have c: "?M p = c" "c \<noteq> 0" and cs: "str_at m (p + 1) cs" "clear_of buf sz (p + 1) cs"
      using M "1.prems"(2,3) F by simp_all
    show ?thesis
    proof (cases "c = 37")
      case no: False
      then obtain t' where t: "render cs vargs = Some t'" "t = c # t'"
        using "1.prems"(1) by (subst (asm) render.simps) (auto simp: F)
      have put: "(fst (out_state buf sz m u) + 1, ?M(buf + fst (out_state buf sz m u) := c)) = out_state buf sz m (u @ [c])"
        using out_state_putc [OF sz, of buf c m u] False by (simp add: buf_putc_def case_prod_beta)
      show ?thesis
        using "1.IH"(1) [OF F no t(1) cs "1.prems"(4), of "u @ [c]"] False c no
        by (subst format_loop.simps) (simp add: put t(2))
    next
      case True
      obtain l w k rest t1 vargs' t2 where
        parse: "parse_directive cs = Some (l, w, k, rest)" and conv: "convert_spec k vargs = Some (t1, vargs')" and
        r: "render rest vargs' = Some t2" "t = pad l w t1 @ t2"
        using "1.prems"(1) True by (subst (asm) render.simps) (auto simp: F split: option.splits)
      obtain p' args' where d: "directive buf sz (p + 1) args (out_state buf sz m u) = Some (p', args', out_state buf sz m (u @ pad l w t1))"
        and p': "str_at m p' rest" "clear_of buf sz p' rest" "list_all2 (arg_ok m buf sz) args' vargs'"
        using directive_ok [OF sz cs "1.prems"(4) parse conv] by blast
      have "\<not> c \<noteq> 37" using True by simp
      from "1.IH"(2) [OF F this parse refl refl refl conv refl r(1) p', of "u @ pad l w t1"]
      show ?thesis using False c True by (subst format_loop.simps) (simp add: d r(2))
    qed
  qed
qed

text \<open>C32: \<open>nd_vsnprintf\<close> against its specification. When the format and the string arguments are strings outside the
  buffer and the format is well formed (\<open>render\<close> gives the text), the call returns; the buffer holds as much of
  the text as fits, cut after \<^verbatim>\<open>size - 1\<close> bytes, and a null byte; the result is the number of bytes written; no other
  byte of memory has changed, and the local buffer of 24 bytes is never overrun.\<close>

theorem vsnprintf_correct:
  assumes "sz \<noteq> 0" and "str_at m fmt F" and "clear_of buf sz fmt F"
    and "list_all2 (arg_ok m buf sz) args vargs" and "render F vargs = Some text"
  shows "nd_vsnprintf buf sz fmt args m =
      Some (of_nat (min (length text) (unat sz - 1)), wrote buf m (take (unat sz - 1) text @ [0])) \<and>
    (\<forall>x. \<not> in_buf buf sz x \<longrightarrow> wrote buf m (take (unat sz - 1) text @ [0]) x = m x)"
proof -
  have n: "unat (sz - 1) = unat sz - 1" "unat sz \<noteq> 0" using assms(1) by (simp_all add: unat_minus_one unat_eq_zero)
  let ?t = "take (unat sz - 1) text"
  have "format_loop buf sz fmt args (0, m) = Some (out_state buf sz m text)"
    using format_loop_ok [OF assms(1,5,2,3,4), of "[]"] by (simp add: out_state_def)
  moreover have "length ?t < unat sz" "length ?t < 2 ^ 32" using n(2) unat32 [of sz] by auto
  ultimately show ?thesis
    using assms(1) n wrote_outside [of "?t @ [0]" sz buf _ m] wrote_snoc [of ?t buf m 0]
    by (simp add: nd_vsnprintf_def out_state_def Let_def)
qed


text \<open>\<^verbatim>\<open>nd_snprintf(buf, 7, "%d %3s|", -5, "ok")\<close>: the text is \<^verbatim>\<open>-5  ok|\<close>, of which six bytes fit.\<close>

definition sample_mem :: mem where
  "sample_mem = (\<lambda>_. 0)(0x1000 := 37, 0x1001 := 100, 0x1002 := 32, 0x1003 := 37, 0x1004 := 51, 0x1005 := 115,
     0x1006 := 124, 0x3000 := 111, 0x3001 := 107)"

theorem vsnprintf_witness:
  "\<exists>m'. nd_vsnprintf 0x2000 7 0x1000 [- 5, 0x3000] sample_mem = Some (6, m') \<and>
     map m' [0x2000, 0x2001, 0x2002, 0x2003, 0x2004, 0x2005, 0x2006] = [45, 53, 32, 32, 111, 107, 0]"
proof -
  have r: "render [37, 100, 32, 37, 51, 115, 124] [Num (- 5), Str [111, 107]] = Some [45, 53, 32, 32, 111, 107, 124]"
    by code_simp
  have "nd_vsnprintf 0x2000 7 0x1000 [- 5, 0x3000] sample_mem =
      Some (of_nat (min (length [45, 53, 32, 32, 111, 107, 124 :: u8]) (unat (7 :: u32) - 1)),
        wrote 0x2000 sample_mem (take (unat (7 :: u32) - 1) [45, 53, 32, 32, 111, 107, 124] @ [0]))"
    by (rule vsnprintf_correct [THEN conjunct1, OF _ _ _ _ r]) (simp_all add: sample_mem_def in_buf_def)
  then show ?thesis by (intro exI conjI, simp) (simp add: wrote_def)
qed

end
