(* ===== verification/Nd_Shell.thy ===== *)
theory Nd_Shell
  imports Nd_Printf "HOL-Library.Signed_Division"
begin

text \<open>The shell (\<^verbatim>\<open>components/shell/src/nd_shell.c\<close>): line editing, history, splitting of the line and execution of commands.
  Its arrays are in the byte memory of \<open>Nd_Memory\<close>, so that the string functions of \<^verbatim>\<open>nd_klibc.c\<close> work on them as they do in
  the code. What \<^verbatim>\<open>shell_putc\<close> sends is a list of bytes, the input is another, and the functions of the commands
  are a parameter.\<close>

section \<open>The state\<close>

text \<open>\<^verbatim>\<open>SHELL_BUFFER_SIZE\<close> and \<^verbatim>\<open>ARGC_MAX\<close>; \<^verbatim>\<open>SHELL_HISTORY_DEPTH\<close> is written out as 8.\<close>

abbreviation (input) SHELL_BUFFER_SIZE :: u32 where "SHELL_BUFFER_SIZE \<equiv> 128"

abbreviation (input) ARGC_MAX :: nat where "ARGC_MAX \<equiv> 8"

datatype shell_input_state = SHELL_INPUT_NORMAL | SHELL_INPUT_ESC | SHELL_INPUT_CSI

text \<open>
  The statics of the shell. \<open>shell_buf\<close>, \<open>history\<close> and \<open>space\<close> are the addresses of the line, of the rows of the history and
  of the literal \<^verbatim>\<open>" "\<close>; \<open>browse_pos\<close> is a signed byte; \<open>out\<close> is what \<^verbatim>\<open>shell_putc\<close> has been given.
\<close>

record shell =
  smem :: mem
  shell_buf :: u32
  shell_len :: u8
  shell_last_line_end :: u8
  history :: u32
  hist_count :: u8
  write_pos :: u8
  browse_pos :: u8
  input_state :: shell_input_state
  space :: u32
  out :: "u8 list"

text \<open>A command: the addresses of its name and description, and a number for the function.\<close>

record nd_shell_cmd =
  cmd_name :: u32
  cmd_desc :: u32
  cmd_func :: nat

section \<open>Output\<close>

definition shell_putc :: "u8 \<Rightarrow> shell \<Rightarrow> shell" where
  "shell_putc c s = s\<lparr>out := out s @ [c]\<rparr>"

text \<open>\<^verbatim>\<open>shell_puts\<close> of a literal, and of a string in memory.\<close>

definition shell_puts :: "u8 list \<Rightarrow> shell \<Rightarrow> shell" where
  "shell_puts cs s = fold shell_putc cs s"

partial_function (option) shell_puts_at :: "u32 \<Rightarrow> shell \<Rightarrow> shell option" where
  "shell_puts_at p s = (if smem s p \<noteq> 0 then shell_puts_at (p + 1) (shell_putc (smem s p) s) else Some s)"

text \<open>The texts of the shell: the prompt, the end of a line, the answer to an unknown command, the separator of the help.\<close>

definition SHELL_PROMPT :: "u8 list" where
  "SHELL_PROMPT = [110, 101, 114, 100, 64, 114, 116, 111, 115, 58, 126, 36, 32]"

definition not_found_text :: "u8 list" where
  "not_found_text = [99, 111, 109, 109, 97, 110, 100, 32, 110, 111, 116, 32, 102, 111, 117, 110, 100, 13, 10]"

definition erase_char :: "shell \<Rightarrow> shell" where
  "erase_char s = shell_putc 8 (shell_putc 32 (shell_putc 8 s))"

section \<open>Editing the line\<close>

definition shell_is_line_end :: "u8 \<Rightarrow> shell \<Rightarrow> bool \<times> shell" where
  "shell_is_line_end c s =
     (if c \<noteq> 13 \<and> c \<noteq> 10 then (False, s\<lparr>shell_last_line_end := 0\<rparr>)
      else if shell_last_line_end s = 0 \<or> c = shell_last_line_end s then (True, s\<lparr>shell_last_line_end := c\<rparr>)
      else (False, s))"

fun rubout_loop :: "nat \<Rightarrow> shell \<Rightarrow> shell" where
  "rubout_loop 0 s = s"
| "rubout_loop (Suc n) s = rubout_loop n (erase_char (s\<lparr>shell_len := shell_len s - 1\<rparr>))"

function replace_loop :: "out_ptr \<Rightarrow> shell \<Rightarrow> shell option" where
  "replace_loop line s =
     Option.bind (out_char line (unat (shell_len s)) (smem s)) (\<lambda>c.
       if c \<noteq> 0 \<and> shell_len s < 127 then
         replace_loop line (shell_putc c
           (s\<lparr>smem := (smem s)(shell_buf s + ucast (shell_len s) := c), shell_len := shell_len s + 1\<rparr>))
       else Some s)"
  by pat_completeness auto

termination
  by (relation "measure (\<lambda>(line, s). 127 - unat (shell_len s))")
    (auto simp: shell_putc_def word_less_nat_alt unat_word_ariths)

declare replace_loop.simps [simp del]

definition shell_replace_input :: "out_ptr \<Rightarrow> shell \<Rightarrow> shell option" where
  "shell_replace_input line s = do {
     s1 \<leftarrow> replace_loop line (rubout_loop (unat (shell_len s)) s);
     Some (s1\<lparr>smem := (smem s1)(shell_buf s1 + ucast (shell_len s1) := 0)\<rparr>)
   }"

text \<open>The index is an \<^verbatim>\<open>int\<close> expression of the two bytes, with the remainder of C.\<close>

definition shell_history_browse_index :: "shell \<Rightarrow> u8" where
  "shell_history_browse_index s = word_of_int ((uint (write_pos s) + 8 - 1 - sint (browse_pos s)) smod 8)"

definition history_row :: "u8 \<Rightarrow> shell \<Rightarrow> u32" where
  "history_row i s = history s + ucast i * SHELL_BUFFER_SIZE"

definition shell_history_prev :: "shell \<Rightarrow> shell option" where
  "shell_history_prev s =
     (if hist_count s = 0 \<or> sint (browse_pos s) \<ge> sint (hist_count s - 1) then Some s
      else do {
        let s1 = s\<lparr>browse_pos := browse_pos s + 1\<rparr>;
        shell_replace_input (At (history_row (shell_history_browse_index s1) s1)) s1
      })"

definition shell_history_next :: "shell \<Rightarrow> shell option" where
  "shell_history_next s =
     (if sint (browse_pos s) < 0 then Some s
      else do {
        let s1 = s\<lparr>browse_pos := browse_pos s - 1\<rparr>;
        if sint (browse_pos s1) < 0 then shell_replace_input (Local [0]) s1
        else shell_replace_input (At (history_row (shell_history_browse_index s1) s1)) s1
      })"

definition shell_handle_ansi :: "u8 \<Rightarrow> shell \<Rightarrow> (bool \<times> shell) option" where
  "shell_handle_ansi c s =
     (case input_state s of
        SHELL_INPUT_NORMAL \<Rightarrow>
          Some (if c = 0x1B then (True, s\<lparr>input_state := SHELL_INPUT_ESC\<rparr>) else (False, s))
      | SHELL_INPUT_ESC \<Rightarrow>
          Some (True, if c = 91 then s\<lparr>input_state := SHELL_INPUT_CSI\<rparr> else s\<lparr>input_state := SHELL_INPUT_NORMAL\<rparr>)
      | SHELL_INPUT_CSI \<Rightarrow> do {
          s1 \<leftarrow> (if c = 65 then shell_history_prev s
                 else if c = 66 then shell_history_next s
                 else Some s);
          Some (True, s1\<lparr>input_state := SHELL_INPUT_NORMAL\<rparr>)
        })"

text \<open>The part of \<open>shell_input\<close> behind the escape sequences: the end of a line, deletion, and printable characters.\<close>

definition shell_edit :: "u8 \<Rightarrow> shell \<Rightarrow> bool \<times> shell" where
  "shell_edit c s =
     (let (line_end, s1) = shell_is_line_end c s in
      if line_end then
        (let s2 = shell_puts [13, 10] s1 in
         (True, s2\<lparr>smem := (smem s2)(shell_buf s2 + ucast (shell_len s2) := 0), browse_pos := - 1\<rparr>))
      else if c = 0x08 \<or> c = 0x7F then
        (False, if shell_len s1 > 0
                then (erase_char (s1\<lparr>shell_len := shell_len s1 - 1\<rparr>))\<lparr>browse_pos := - 1\<rparr> else s1)
      else if c \<ge> 0x20 \<and> c \<le> 0x7E then
        (False, if shell_len s1 < 127
                then shell_putc c (s1\<lparr>browse_pos := - 1, smem := (smem s1)(shell_buf s1 + ucast (shell_len s1) := c),
                       shell_len := shell_len s1 + 1\<rparr>) else s1)
      else (False, s1))"

definition shell_input :: "u8 \<Rightarrow> shell \<Rightarrow> (bool \<times> shell) option" where
  "shell_input c s = do {
     (ansi, s1) \<leftarrow> shell_handle_ansi c s;
     Some (if ansi then (False, s1) else shell_edit c s1)
   }"

section \<open>Commands\<close>

fun parse_loop :: "nat \<Rightarrow> u32 \<Rightarrow> u32 \<Rightarrow> u32 \<Rightarrow> u32 list \<Rightarrow> mem \<Rightarrow> (u32 list \<times> mem) option" where
  "parse_loop 0 delim token save_ptr argv m = Some (argv, m)"
| "parse_loop (Suc n) delim token save_ptr argv m =
     (if token \<noteq> 0 then do {
        (token1, save_ptr1, m1) \<leftarrow> nd_strtok_r 0 delim save_ptr m;
        parse_loop n delim token1 save_ptr1 (argv @ [token]) m1
      }
      else Some (argv, m))"

definition shell_parse :: "u32 \<Rightarrow> u32 \<Rightarrow> nat \<Rightarrow> mem \<Rightarrow> (u32 list \<times> mem) option" where
  "shell_parse delim cmd_line max_argc m = do {
     (token, save_ptr, m1) \<leftarrow> nd_strtok_r cmd_line delim 0 m;
     parse_loop max_argc delim token save_ptr [] m1
   }"

fun shell_find :: "nd_shell_cmd list \<Rightarrow> u32 \<Rightarrow> mem \<Rightarrow> nd_shell_cmd option option" where
  "shell_find [] name m = Some None"
| "shell_find (cmd # cmds) name m =
     (if cmd_name cmd \<noteq> 0 then do {
        r \<leftarrow> nd_strcmp name (cmd_name cmd) m;
        if r = 0 then Some (Some cmd) else shell_find cmds name m
      }
      else shell_find cmds name m)"

definition shell_history_init :: "shell \<Rightarrow> shell" where
  "shell_history_init s = s\<lparr>input_state := SHELL_INPUT_NORMAL, hist_count := 0, write_pos := 0, browse_pos := - 1\<rparr>"

definition shell_history_is_last_duplicate :: "u32 \<Rightarrow> shell \<Rightarrow> bool option" where
  "shell_history_is_last_duplicate line s =
     (if hist_count s = 0 then Some False
      else map_option (\<lambda>r. r = 0)
        (nd_strcmp (history_row (word_of_int ((uint (write_pos s) + 8 - 1) smod 8)) s) line (smem s)))"

definition shell_history_save :: "u32 \<Rightarrow> shell \<Rightarrow> shell option" where
  "shell_history_save buf s = do {
     dup \<leftarrow> shell_history_is_last_duplicate buf s;
     if dup then Some s
     else do {
       let (_, m1) = nd_strncpy (history_row (write_pos s) s) buf SHELL_BUFFER_SIZE (smem s);
       let s1 = s\<lparr>smem := m1\<rparr>;
       let s2 = (if hist_count s1 < 8 then s1\<lparr>hist_count := hist_count s1 + 1\<rparr> else s1);
       Some (s2\<lparr>write_pos := word_of_int ((uint (write_pos s2) + 1) smod 8)\<rparr>)
     }
   }"

text \<open>What a command does: from the number of its function and its arguments to the state.\<close>

type_synonym shell_func = "nat \<Rightarrow> u32 list \<Rightarrow> shell \<Rightarrow> shell option"

text \<open>The body of the loop of \<open>nd_shell_task_entry\<close>, for one character of input.\<close>

definition shell_execute :: "shell_func \<Rightarrow> nd_shell_cmd list \<Rightarrow> shell \<Rightarrow> shell option" where
  "shell_execute func cmds s = do {
     s1 \<leftarrow> shell_history_save (shell_buf s) s;
     (argv, m1) \<leftarrow> shell_parse (space s1) (shell_buf s1) ARGC_MAX (smem s1);
     let s2 = s1\<lparr>smem := m1\<rparr>;
     (case argv of
        [] \<Rightarrow> Some s2
      | name # _ \<Rightarrow> do {
          cmd \<leftarrow> shell_find cmds name (smem s2);
          (case cmd of
             Some cmd \<Rightarrow> func (cmd_func cmd) argv s2
           | None \<Rightarrow> Some (shell_puts not_found_text s2))
        })
   }"

definition shell_step :: "shell_func \<Rightarrow> nd_shell_cmd list \<Rightarrow> u8 \<Rightarrow> shell \<Rightarrow> shell option" where
  "shell_step func cmds c s = do {
     (ready, s1) \<leftarrow> shell_input c s;
     if \<not> ready then Some s1
     else do {
       s2 \<leftarrow> (if shell_len s1 > 0 then shell_execute func cmds s1 else Some s1);
       Some (shell_puts SHELL_PROMPT (s2\<lparr>shell_len := 0\<rparr>))
     }
   }"

fun nd_shell_task_loop :: "shell_func \<Rightarrow> nd_shell_cmd list \<Rightarrow> u8 list \<Rightarrow> shell \<Rightarrow> shell option" where
  "nd_shell_task_loop func cmds [] s = Some s"
| "nd_shell_task_loop func cmds (c # cs) s = do {
     s1 \<leftarrow> shell_step func cmds c s;
     nd_shell_task_loop func cmds cs s1
   }"

text \<open>The task on a finite input.\<close>

definition nd_shell_task_entry :: "shell_func \<Rightarrow> nd_shell_cmd list \<Rightarrow> u8 list \<Rightarrow> shell \<Rightarrow> shell option" where
  "nd_shell_task_entry func cmds input s =
     nd_shell_task_loop func cmds input (shell_puts SHELL_PROMPT (shell_history_init s))"

fun help_loop :: "nd_shell_cmd list \<Rightarrow> shell \<Rightarrow> shell option" where
  "help_loop [] s = Some s"
| "help_loop (cmd # cmds) s =
     (if cmd_name cmd = 0 \<or> cmd_desc cmd = 0 then help_loop cmds s
      else do {
        s1 \<leftarrow> shell_puts_at (cmd_name cmd) (shell_puts [32, 45, 32] s);
        s2 \<leftarrow> shell_puts_at (cmd_desc cmd) (shell_puts [32, 45, 32] s1);
        help_loop cmds (shell_puts [13, 10] s2)
      })"

definition nd_shell_help :: "nd_shell_cmd list \<Rightarrow> shell \<Rightarrow> shell option" where
  "nd_shell_help cmds s = help_loop cmds (shell_puts [13, 10] s)"


section \<open>Splitting the line\<close>

lemma line_frame_trans:
  "line_frame p k n m m1 \<Longrightarrow> line_frame p k' n' m1 m2 \<Longrightarrow> k \<le> k' \<Longrightarrow> k' + n' = k + n \<Longrightarrow> line_frame p k n m m2"
  unfolding line_frame_def by simp

lemma str_at_line_frame:
  assumes "line_frame p k n m m'" "k + n < 2 ^ 32" "o1 + length t < 2 ^ 32" "n = 0 \<or> o1 + length t < k"
  shows "str_at m' (p + of_nat o1) t = str_at m (p + of_nat o1) t"
proof (rule str_at_cong)
  fix i assume i: "i \<le> length t"
  have "p + of_nat (o1 + i) \<noteq> p + of_nat j" if "k \<le> j \<and> j < k + n" for j
    using offsets_apart [of "o1 + i" j p] that i assms(2-4) by auto
  then show "m' (p + of_nat o1 + of_nat i) = m (p + of_nat o1 + of_nat i)"
    using assms(1) by (simp add: line_frame_def add.assoc)
qed

lemma str_at_line_frame_other:
  assumes "line_frame p k n m m'" "k + n \<le> N" "\<forall>i<N. \<forall>j\<le>length D. p + of_nat i \<noteq> d + of_nat j"
  shows "str_at m' d D = str_at m d D"
proof (rule str_at_cong)
  fix j assume "j \<le> length D"
  then have "d + of_nat j \<noteq> p + of_nat i" if "i < k + n" for i using assms(2,3) that by (metis less_le_trans)
  then show "m' (d + of_nat j) = m (d + of_nat j)" using assms(1) by (simp add: line_frame_def)
qed

lemma nth_tokens:
  assumes "length as = min n (Suc (length ts))" "n \<noteq> 0 \<longrightarrow> hd as = a" "str_at m a t"
    "\<forall>i. 0 < i \<and> i < length as \<longrightarrow> str_at m (as ! i) (ts ! (i - 1))" "i < length as"
  shows "str_at m (as ! i) ((t # ts) ! i)"
proof (cases i)
  case 0
  with assms(1,2,5) have "as ! 0 = a" by (metis hd_conv_nth list.size(3) min_0L not_less_zero)
  with 0 assms(3) show ?thesis by simp
next
  case (Suc j)
  with assms(4,5) show ?thesis by force
qed

text \<open>The loop, with the first token found and the string \<open>R\<close> behind it at offset \<open>k\<close>.\<close>

lemma parse_loop_ok:
  assumes D: "\<forall>i<N. \<forall>j\<le>length D. p + of_nat i \<noteq> d + of_nat j" and N: "N < 2 ^ 32"
    and nz: "\<forall>i<N. p + of_nat i \<noteq> 0"
  shows "token \<noteq> 0 \<Longrightarrow> str_at m (p + of_nat k) R \<Longrightarrow> k + length R < N \<Longrightarrow> str_at m d D \<Longrightarrow>
    \<exists>as m'. parse_loop n d token (p + of_nat k) argv m = Some (argv @ as, m') \<and>
      length as = min n (Suc (length (tokens (set D) R))) \<and> (n \<noteq> 0 \<longrightarrow> hd as = token) \<and>
      (\<forall>i. 0 < i \<and> i < length as \<longrightarrow> str_at m' (as ! i) (tokens (set D) R ! (i - 1))) \<and>
      line_frame p k (length R) m m' \<and> str_at m' d D"
proof (induction n arbitrary: token k R m argv)
  case 0
  then show ?case by (simp add: line_frame_def)
next
  case (Suc n)
  have p0: "p + of_nat k \<noteq> 0" using nz Suc.prems(3) by simp
  have lt: "k + length R < 2 ^ 32" using Suc.prems(3) N by simp
  note S = nd_strtok_r_ok [of 0 "p + of_nat k" p k m R d D, simplified, OF Suc.prems(2) _ Suc.prems(4)]
  show ?case
  proof (cases "tokens (set D) R = []")
    case True
    then have "parse_loop (Suc n) d token (p + of_nat k) argv m = Some (argv @ [token], m)"
      using S lt Suc.prems(1) by (cases n) simp_all
    with True show ?thesis using Suc.prems(4) by (intro exI [of _ "[token]"] exI [of _ m]) (simp add: line_frame_def)
  next
    case False
    obtain t ts where T: "tokens (set D) R = t # ts" using False by (cases "tokens (set D) R") auto
    obtain k' o' R' m1 where s: "nd_strtok_r 0 d (p + of_nat k) m = Some (p + of_nat k', p + of_nat o', m1)"
      "str_at m1 (p + of_nat k') t" "str_at m1 (p + of_nat o') R'" "tokens (set D) R' = ts"
      "line_frame p k (length R) m m1" "k \<le> k'" "k' + length t \<le> o'" "o' + length R' = k + length R"
      "R' = [] \<or> k' + length t < o'"
      using S lt T by auto
    have d1: "str_at m1 d D" using str_at_line_frame_other [OF s(5) _ D] Suc.prems(3,4) by simp
    have tok: "p + of_nat k' \<noteq> 0" using nz s(7,8) Suc.prems(3) by simp
    obtain as m' where r: "parse_loop n d (p + of_nat k') (p + of_nat o') (argv @ [token]) m1 = Some ((argv @ [token]) @ as, m')"
      "length as = min n (Suc (length ts))" "n \<noteq> 0 \<longrightarrow> hd as = p + of_nat k'"
      "\<forall>i. 0 < i \<and> i < length as \<longrightarrow> str_at m' (as ! i) (ts ! (i - 1))"
      "line_frame p o' (length R') m1 m'" "str_at m' d D"
      using Suc.IH [OF tok s(3) _ d1, of "argv @ [token]"] s(4,8) Suc.prems(3) by auto
    have "str_at m' (p + of_nat k') t"
      using str_at_line_frame [OF r(5), of k' t] s(2,7,8,9) lt by auto
    from nth_tokens [OF r(2,3) this r(4)]
    have toks: "str_at m' ((token # as) ! i) ((t # ts) ! (i - 1))" if "0 < i" "i < length (token # as)" for i
      using that by (cases i) auto
    show ?thesis
    proof (intro exI conjI)
      show "parse_loop (Suc n) d token (p + of_nat k) argv m = Some (argv @ (token # as), m')"
        using Suc.prems(1) s(1) r(1) by simp
      show "length (token # as) = min (Suc n) (Suc (length (tokens (set D) R)))" using r(2) T by simp
      show "Suc n \<noteq> 0 \<longrightarrow> hd (token # as) = token" by simp
      show "\<forall>i. 0 < i \<and> i < length (token # as) \<longrightarrow> str_at m' ((token # as) ! i) (tokens (set D) R ! (i - 1))"
        using toks T by simp
      show "line_frame p k (length R) m m'" by (rule line_frame_trans [OF s(5) r(5)]) (use s in simp_all)
      show "str_at m' d D" by (rule r(6))
    qed
  qed
qed

lemma shell_parse_ok:
  assumes L: "str_at m p L" and d: "str_at m d D"
    and D: "\<forall>i\<le>length L. \<forall>j\<le>length D. p + of_nat i \<noteq> d + of_nat j" and nz: "\<forall>i\<le>length L. p + of_nat i \<noteq> 0"
    and len: "Suc (length L) < 2 ^ 32"
  shows "\<exists>argv m'. shell_parse d p n m = Some (argv, m') \<and>
      length argv = min n (length (tokens (set D) L)) \<and>
      (\<forall>i < length argv. str_at m' (argv ! i) (tokens (set D) L ! i)) \<and> line_frame p 0 (length L) m m'"
proof -
  have p0: "p \<noteq> 0" using nz by (auto dest: spec [of _ 0])
  note S = nd_strtok_r_ok [of p 0 p 0 m L d D, simplified, OF L _ d]
  show ?thesis
  proof (cases "tokens (set D) L = []")
    case True
    then have "shell_parse d p n m = Some ([], m)" using S len by (cases n) (simp_all add: shell_parse_def)
    with True show ?thesis by (simp add: line_frame_def)
  next
    case False
    obtain t ts where T: "tokens (set D) L = t # ts" using False by (cases "tokens (set D) L") auto
    obtain k' o' R' m1 where s: "nd_strtok_r p d 0 m = Some (p + of_nat k', p + of_nat o', m1)"
      "str_at m1 (p + of_nat k') t" "str_at m1 (p + of_nat o') R'" "tokens (set D) R' = ts"
      "line_frame p 0 (length L) m m1" "k' + length t \<le> o'" "o' + length R' = length L"
      "R' = [] \<or> k' + length t < o'"
      using S len T by auto
    let ?N = "Suc (length L)"
    have D': "\<forall>i<?N. \<forall>j\<le>length D. p + of_nat i \<noteq> d + of_nat j" and nz': "\<forall>i<?N. p + of_nat i \<noteq> 0"
      using D nz by (simp_all add: less_Suc_eq_le)
    have d1: "str_at m1 d D" using str_at_line_frame_other [OF s(5) _ D'] d by simp
    have tok: "p + of_nat k' \<noteq> 0" using nz s(6,7) by simp
    obtain as m' where r: "parse_loop n d (p + of_nat k') (p + of_nat o') [] m1 = Some (as, m')"
      "length as = min n (Suc (length ts))" "n \<noteq> 0 \<longrightarrow> hd as = p + of_nat k'"
      "\<forall>i. 0 < i \<and> i < length as \<longrightarrow> str_at m' (as ! i) (ts ! (i - 1))" "line_frame p o' (length R') m1 m'"
      using parse_loop_ok [OF D' len nz' tok s(3) _ d1, of n "[]"] s(4,7) by auto
    have "str_at m' (p + of_nat k') t"
      using str_at_line_frame [OF r(5), of k' t] s(2,6,7,8) len by auto
    note toks = nth_tokens [OF r(2,3) this r(4)]
    have "line_frame p 0 (length L) m m'" by (rule line_frame_trans [OF s(5) r(5)]) (use s in simp_all)
    then show ?thesis using s(1) r(1,2) T toks by (simp add: shell_parse_def)
  qed
qed


section \<open>The invariant\<close>

definition in_arrays :: "shell \<Rightarrow> u32 \<Rightarrow> bool" where
  "in_arrays s x \<longleftrightarrow> x - shell_buf s < 128 \<or> x - history s < 1024"

text \<open>Where the linker has put things: the arrays do not wrap, do not overlap, and the literal is elsewhere.\<close>

definition layout_ok :: "shell \<Rightarrow> bool" where
  "layout_ok s \<longleftrightarrow>
     shell_buf s \<noteq> 0 \<and> unat (shell_buf s) + 128 \<le> 2 ^ 32 \<and> unat (history s) + 1024 \<le> 2 ^ 32 \<and>
     (unat (shell_buf s) + 128 \<le> unat (history s) \<or> unat (history s) + 1024 \<le> unat (shell_buf s)) \<and>
     str_at (smem s) (space s) [32] \<and> \<not> in_arrays s (space s) \<and> \<not> in_arrays s (space s + 1)"

text \<open>The indexes are in their ranges; \<open>browse_pos\<close> is -1 or an index below the number of lines kept.\<close>

definition indexes_ok :: "shell \<Rightarrow> bool" where
  "indexes_ok s \<longleftrightarrow> shell_len s \<le> 127 \<and> write_pos s < 8 \<and> hist_count s \<le> 8 \<and> browse_pos s + 1 \<le> hist_count s"

definition shell_frame :: "shell \<Rightarrow> shell \<Rightarrow> bool" where
  "shell_frame s s' \<longleftrightarrow> shell_buf s' = shell_buf s \<and> history s' = history s \<and> space s' = space s \<and>
     (\<forall>x. \<not> in_arrays s x \<longrightarrow> smem s' x = smem s x)"

lemma shell_frame_refl [simp]: "shell_frame s s"
  by (simp add: shell_frame_def)

lemma shell_frame_trans: "shell_frame s s1 \<Longrightarrow> shell_frame s1 s2 \<Longrightarrow> shell_frame s s2"
  by (simp add: shell_frame_def in_arrays_def)

lemma layout_ok_frame: "layout_ok s \<Longrightarrow> shell_frame s s' \<Longrightarrow> layout_ok s'"
  by (simp add: layout_ok_def shell_frame_def in_arrays_def)

lemma layout_ok_updates [simp]:
  "layout_ok (s\<lparr>shell_len := a\<rparr>) = layout_ok s" "layout_ok (s\<lparr>browse_pos := a\<rparr>) = layout_ok s"
  "layout_ok (s\<lparr>out := cs\<rparr>) = layout_ok s" "layout_ok (s\<lparr>input_state := st\<rparr>) = layout_ok s"
  "layout_ok (s\<lparr>shell_last_line_end := a\<rparr>) = layout_ok s" "layout_ok (s\<lparr>hist_count := a\<rparr>) = layout_ok s"
  "layout_ok (s\<lparr>write_pos := a\<rparr>) = layout_ok s"
  by (simp_all add: layout_ok_def in_arrays_def)

lemma in_arrays_updates [simp]:
  "in_arrays (s\<lparr>shell_len := a\<rparr>) = in_arrays s" "in_arrays (s\<lparr>browse_pos := a\<rparr>) = in_arrays s"
  "in_arrays (s\<lparr>out := cs\<rparr>) = in_arrays s" "in_arrays (s\<lparr>input_state := st\<rparr>) = in_arrays s"
  "in_arrays (s\<lparr>shell_last_line_end := a\<rparr>) = in_arrays s" "in_arrays (s\<lparr>hist_count := a\<rparr>) = in_arrays s"
  "in_arrays (s\<lparr>write_pos := a\<rparr>) = in_arrays s" "in_arrays (s\<lparr>smem := m\<rparr>) = in_arrays s"
  by (simp_all add: in_arrays_def fun_eq_iff)

lemma shell_puts_eq: "shell_puts cs s = s\<lparr>out := out s @ cs\<rparr>"
  by (induction cs arbitrary: s) (simp_all add: shell_puts_def shell_putc_def)

lemma erase_char_eq: "erase_char s = s\<lparr>out := out s @ [8, 32, 8]\<rparr>"
  by (simp add: erase_char_def shell_putc_def)

lemma rubout_loop_eq: "\<exists>cs. rubout_loop n s = s\<lparr>shell_len := shell_len s - of_nat n, out := cs\<rparr>"
proof (induction n arbitrary: s)
  case 0
  show ?case by (intro exI [of _ "out s"]) simp
next
  case (Suc n)
  obtain cs where "rubout_loop n (erase_char (s\<lparr>shell_len := shell_len s - 1\<rparr>)) =
      (erase_char (s\<lparr>shell_len := shell_len s - 1\<rparr>))\<lparr>shell_len := shell_len s - 1 - of_nat n, out := cs\<rparr>"
    using Suc.IH [of "erase_char (s\<lparr>shell_len := shell_len s - 1\<rparr>)"] by (auto simp: erase_char_eq)
  then show ?case by (intro exI [of _ cs]) (simp add: erase_char_eq diff_diff_eq)
qed

lemma buf_slot: "n \<le> 127 \<Longrightarrow> in_arrays s (shell_buf s + ucast (n :: u8))"
  by (simp add: in_arrays_def word_less_nat_alt word_le_nat_alt unsigned_ucast_eq take_bit_eq_mod)

lemma frame_buf_write:
  "n \<le> 127 \<Longrightarrow> shell_frame s (s\<lparr>smem := (smem s)(shell_buf s + ucast (n :: u8) := c)\<rparr>)"
  using buf_slot [of n s] by (auto simp: shell_frame_def)

section \<open>Editing keeps the invariant\<close>

abbreviation kept :: "shell \<Rightarrow> shell \<Rightarrow> bool" where
  "kept s s' \<equiv> shell_frame s s' \<and> indexes_ok s'"

text \<open>Only the line, its length and the output have changed.\<close>

definition edited :: "shell \<Rightarrow> shell \<Rightarrow> bool" where
  "edited s s' \<longleftrightarrow> shell_frame s s' \<and> shell_len s' \<le> 127 \<and> write_pos s' = write_pos s \<and>
     hist_count s' = hist_count s \<and> browse_pos s' = browse_pos s"

lemma edited_trans: "edited s s1 \<Longrightarrow> edited s1 s2 \<Longrightarrow> edited s s2"
  using shell_frame_trans by (auto simp: edited_def)

lemma edited_kept: "edited s s' \<Longrightarrow> indexes_ok s \<Longrightarrow> kept s s'"
  by (simp add: edited_def indexes_ok_def)

lemma edited_put:
  assumes "shell_len s < 127"
  shows "edited s (shell_putc c (s\<lparr>smem := (smem s)(shell_buf s + ucast (shell_len s) := c), shell_len := shell_len s + 1\<rparr>))"
proof -
  have "shell_len s + 1 \<le> 127" using assms by (simp add: word_le_nat_alt word_less_nat_alt unat_word_ariths)
  moreover have "in_arrays s (shell_buf s + ucast (shell_len s))" using assms by (intro buf_slot) simp
  ultimately show ?thesis by (auto simp: edited_def shell_putc_def shell_frame_def)
qed

lemma replace_loop_ok:
  "shell_len s \<le> 127 \<Longrightarrow> wp (replace_loop (At p) s) (edited s)"
proof (induction "At p" s rule: replace_loop.induct)
  case (1 s)
  let ?c = "smem s (p + of_nat (unat (shell_len s)))"
  let ?s = "shell_putc ?c (s\<lparr>smem := (smem s)(shell_buf s + ucast (shell_len s) := ?c), shell_len := shell_len s + 1\<rparr>)"
  show ?case
  proof (cases "?c \<noteq> 0 \<and> shell_len s < 127")
    case True
    have e: "edited s ?s" using edited_put True by blast
    have "wp (replace_loop (At p) ?s) (edited ?s)"
      by (rule "1.hyps") (use True e in \<open>simp_all add: edited_def\<close>)
    then have "wp (replace_loop (At p) ?s) (edited s)" by (rule wp_mono) (use edited_trans e in blast)
    with True show ?thesis by (subst replace_loop.simps) simp
  next
    case False
    then show ?thesis using "1.prems" by (subst replace_loop.simps) (auto simp: edited_def)
  qed
qed

lemma shell_replace_input_ok:
  assumes "line = Local [0] \<or> (\<exists>p. line = At p)"
  shows "wp (shell_replace_input line s) (edited s)"
proof -
  obtain cs where e: "rubout_loop (unat (shell_len s)) s = s\<lparr>shell_len := 0, out := cs\<rparr>"
    using rubout_loop_eq [of "unat (shell_len s)" s] by auto
  let ?s = "s\<lparr>shell_len := 0, out := cs\<rparr>"
  have start: "edited s ?s" by (auto simp: edited_def shell_frame_def)
  have "wp (replace_loop line ?s) (edited ?s)"
    using assms
  proof (elim disjE exE)
    show ?thesis if "line = Local [0]" using that by (subst replace_loop.simps) (simp add: edited_def)
    show ?thesis if "line = At p" for p unfolding that by (rule replace_loop_ok) simp
  qed
  then have r: "wp (replace_loop line ?s) (edited s)" by (rule wp_mono) (use edited_trans [OF start] in blast)
  have "wp (replace_loop line ?s) (\<lambda>s1. edited s (s1\<lparr>smem := (smem s1)(shell_buf s1 + ucast (shell_len s1) := 0)\<rparr>))"
  proof (rule wp_mono [OF r])
    fix s1 assume "edited s s1"
    then show "edited s (s1\<lparr>smem := (smem s1)(shell_buf s1 + ucast (shell_len s1) := 0)\<rparr>)"
      using shell_frame_trans [OF _ frame_buf_write [of "shell_len s1" s1 0]] by (simp add: edited_def)
  qed
  then show ?thesis by (simp add: shell_replace_input_def e wp_bind)
qed

text \<open>The browsing position as a signed number.\<close>

lemma sint_browse:
  assumes "b + 1 \<le> c" "c \<le> 8"
  shows "sint (b :: u8) = uint (b + 1) - 1"
proof -
  have fin: "\<forall>n \<in> set [0..<9]. sint (of_nat n - 1 :: u8) = int n - 1" by code_simp
  have "unat (b + 1) < 9" using assms by (simp add: word_le_nat_alt)
  then have "sint (of_nat (unat (b + 1)) - 1 :: u8) = int (unat (b + 1)) - 1" by (intro fin [rule_format]) simp
  then show ?thesis by simp
qed

lemma shell_history_prev_ok:
  assumes "indexes_ok s"
  shows "wp (shell_history_prev s) (kept s)"
proof (cases "hist_count s = 0 \<or> sint (browse_pos s) \<ge> sint (hist_count s - 1)")
  case True
  then show ?thesis using assms by (simp add: shell_history_prev_def)
next
  case False
  note ix = assms [unfolded indexes_ok_def]
  let ?s = "s\<lparr>browse_pos := browse_pos s + 1\<rparr>"
  have "sint (hist_count s - 1) = uint (hist_count s) - 1"
    using sint_browse [of "hist_count s - 1" "hist_count s"] ix by simp
  then have "browse_pos s + 1 < hist_count s"
    using False sint_browse [of "browse_pos s" "hist_count s"] ix by (simp add: word_less_def)
  then have "browse_pos ?s + 1 \<le> hist_count ?s"
    using inc_le [of "browse_pos s + 1" "hist_count s"] by (simp add: add.commute)
  then have ok: "indexes_ok ?s" using ix by (simp add: indexes_ok_def)
  have f: "shell_frame s ?s" by (simp add: shell_frame_def)
  have "wp (shell_replace_input (At (history_row (shell_history_browse_index ?s) ?s)) ?s) (edited ?s)"
    by (rule shell_replace_input_ok) simp
  then have "wp (shell_replace_input (At (history_row (shell_history_browse_index ?s) ?s)) ?s) (kept s)"
    by (rule wp_mono) (use edited_kept [OF _ ok] shell_frame_trans [OF f] in blast)
  with False show ?thesis by (simp add: shell_history_prev_def Let_def)
qed

lemma shell_history_next_ok:
  assumes "indexes_ok s"
  shows "wp (shell_history_next s) (kept s)"
proof (cases "sint (browse_pos s) < 0")
  case True
  then show ?thesis using assms by (simp add: shell_history_next_def)
next
  case False
  note ix = assms [unfolded indexes_ok_def]
  let ?s = "s\<lparr>browse_pos := browse_pos s - 1\<rparr>"
  have "browse_pos s + 1 \<noteq> 0" using False sint_browse [of "browse_pos s" "hist_count s"] ix by auto
  then have "unat (browse_pos s + 1 - 1) = unat (browse_pos s + 1) - 1" by (rule unat_minus_one)
  then have "browse_pos ?s + 1 \<le> hist_count ?s" using ix by (auto simp: word_le_nat_alt)
  then have ok: "indexes_ok ?s" using ix by (simp add: indexes_ok_def)
  have f: "shell_frame s ?s" by (simp add: shell_frame_def)
  have k: "wp (shell_replace_input line ?s) (kept s)" if "line = Local [0] \<or> (\<exists>p. line = At p)" for line
    by (rule wp_mono [OF shell_replace_input_ok [OF that]]) (use edited_kept [OF _ ok] shell_frame_trans [OF f] in blast)
  show ?thesis using False k by (simp add: shell_history_next_def Let_def)
qed


lemma kept_trans: "shell_frame s s1 \<Longrightarrow> kept s1 s' \<Longrightarrow> kept s s'"
  using shell_frame_trans by blast

lemma kept_fields [simp]:
  "shell_frame s (s'\<lparr>input_state := st\<rparr>) = shell_frame s s'" "indexes_ok (s'\<lparr>input_state := st\<rparr>) = indexes_ok s'"
  "shell_frame s (s'\<lparr>shell_last_line_end := a\<rparr>) = shell_frame s s'" "indexes_ok (s'\<lparr>shell_last_line_end := a\<rparr>) = indexes_ok s'"
  "shell_frame s (s'\<lparr>out := cs\<rparr>) = shell_frame s s'" "indexes_ok (s'\<lparr>out := cs\<rparr>) = indexes_ok s'"
  "shell_frame s (s'\<lparr>browse_pos := b\<rparr>) = shell_frame s s'" "shell_frame s (s'\<lparr>shell_len := b\<rparr>) = shell_frame s s'"
  "shell_frame s (s'\<lparr>out := cs, smem := m\<rparr>) = shell_frame s (s'\<lparr>smem := m\<rparr>)"
  "shell_frame s (s'\<lparr>browse_pos := b, smem := m\<rparr>) = shell_frame s (s'\<lparr>smem := m\<rparr>)"
  by (simp_all add: shell_frame_def indexes_ok_def)

lemma shell_handle_ansi_ok:
  assumes "indexes_ok s"
  shows "wp (shell_handle_ansi c s) (\<lambda>(ansi, s'). kept s s')"
proof -
  have "wp (if c = 65 then shell_history_prev s else if c = 66 then shell_history_next s else Some s) (kept s)"
    using assms shell_history_prev_ok shell_history_next_ok by simp
  then show ?thesis using assms
    by (auto simp: shell_handle_ansi_def wp_bind elim!: wp_mono split: shell_input_state.split)
qed

text \<open>When a line is complete it is a string in the buffer.\<close>

lemma shell_edit_ok:
  assumes a: "indexes_ok s" and r: "shell_edit c s = (ready, s')"
  shows "kept s s' \<and> (ready \<longrightarrow> smem s' (shell_buf s' + ucast (shell_len s')) = 0)"
proof -
  obtain le s2 where l: "shell_is_line_end c s = (le, s2)" by (cases "shell_is_line_end c s")
  have s2: "kept s s2" using a l by (auto simp: shell_is_line_end_def split: if_splits)
  have len: "shell_len s2 \<le> 127" using s2 by (simp add: indexes_ok_def)
  have w: "shell_frame s (s2\<lparr>smem := (smem s2)(shell_buf s2 + ucast (shell_len s2) := d)\<rparr>)" for d
    using shell_frame_trans [OF _ frame_buf_write [OF len]] s2 by blast
  consider (done_line) "le"
    | (del) "\<not> le" "c = 0x08 \<or> c = 0x7F" "shell_len s2 > 0"
    | (put) "\<not> le" "\<not> (c = 0x08 \<or> c = 0x7F)" "c \<ge> 0x20 \<and> c \<le> 0x7E" "shell_len s2 < 127"
    | (skip) "\<not> ready" "s' = s2"
    using r l by (auto simp: shell_edit_def split: if_splits)
  then show ?thesis
  proof cases
    case done_line
    then have "s' = s2\<lparr>out := out s2 @ [13, 10], smem := (smem s2)(shell_buf s2 + ucast (shell_len s2) := 0), browse_pos := - 1\<rparr>"
      using r l by (simp add: shell_edit_def shell_puts_eq)
    then show ?thesis using w [of 0] s2 by (simp add: indexes_ok_def)
  next
    case del
    then have s': "\<not> ready" "s' = s2\<lparr>shell_len := shell_len s2 - 1, out := out s2 @ [8, 32, 8], browse_pos := - 1\<rparr>"
      using r l by (auto simp: shell_edit_def erase_char_eq)
    have "shell_len s2 - 1 \<le> 127" using len del(3) by (auto simp: word_le_nat_alt unat_minus_one word_gt_0)
    then show ?thesis using s2 s' by (simp add: indexes_ok_def)
  next
    case put
    then have s': "\<not> ready" "s' = s2\<lparr>browse_pos := - 1, smem := (smem s2)(shell_buf s2 + ucast (shell_len s2) := c),
        shell_len := shell_len s2 + 1, out := out s2 @ [c]\<rparr>"
      using r l by (auto simp: shell_edit_def shell_putc_def)
    have "shell_len s2 + 1 \<le> 127" using inc_le [OF put(4)] by (simp add: add.commute)
    then show ?thesis using s2 s' w [of c] by (simp add: indexes_ok_def)
  next
    case skip
    then show ?thesis using s2 by simp
  qed
qed

lemma shell_input_ok:
  assumes "indexes_ok s"
  shows "wp (shell_input c s) (\<lambda>(ready, s'). kept s s' \<and> (ready \<longrightarrow> smem s' (shell_buf s' + ucast (shell_len s')) = 0))"
  unfolding shell_input_def wp_bind
proof (rule wp_mono [OF shell_handle_ansi_ok [OF assms]], clarify)
  fix ansi s1 assume s1: "shell_frame s s1" "indexes_ok s1"
  show "wp (Some (if ansi then (False, s1) else shell_edit c s1))
      (\<lambda>(ready, s'). kept s s' \<and> (ready \<longrightarrow> smem s' (shell_buf s' + ucast (shell_len s')) = 0))"
    using s1 shell_edit_ok [OF s1(2), of c] shell_frame_trans [OF s1(1)] by (cases "shell_edit c s1") auto
qed

section \<open>Executing a line\<close>

lemma history_slot:
  assumes "i < 8" "n < 128"
  shows "in_arrays s (history_row i s + of_nat n)"
proof -
  have "unat (ucast i * 128 + of_nat n :: u32) = unat i * 128 + n"
    using assms by (simp add: unat_word_ariths unsigned_ucast_eq take_bit_eq_mod word_less_nat_alt unat_of_nat)
  moreover have "unat i * 128 + n < 1024" using assms by (simp add: word_less_nat_alt)
  ultimately have "ucast i * 128 + of_nat n < (1024 :: u32)" by (simp add: word_less_nat_alt)
  then show ?thesis by (simp add: in_arrays_def history_row_def add.assoc)
qed

text \<open>The row of the history and the line are apart.\<close>

lemma history_not_line:
  assumes "layout_ok s" "i < 8" "n < 128" "k < 128"
  shows "history_row i s + of_nat n \<noteq> shell_buf s + of_nat k"
proof -
  have "unat (ucast i * 128 + of_nat n :: u32) = unat i * 128 + n" "unat i * 128 + n < 1024"
    using assms by (simp_all add: unat_word_ariths unsigned_ucast_eq take_bit_eq_mod word_less_nat_alt unat_of_nat)
  then have "unat (history_row i s + of_nat n) = unat (history s) + (unat i * 128 + n)" "unat i * 128 + n < 1024"
    using assms(1) unfolding history_row_def add.assoc by (simp_all add: layout_ok_def unat_word_ariths)
  moreover have "unat (shell_buf s + of_nat k) = unat (shell_buf s) + k"
    using assms(1,4) by (simp add: layout_ok_def unat_word_ariths unat_of_nat)
  ultimately have "unat (history_row i s + of_nat n) \<noteq> unat (shell_buf s + of_nat k)"
    using assms(1,4) by (auto simp: layout_ok_def)
  then show ?thesis by metis
qed

lemma shell_history_save_ok:
  assumes lay: "layout_ok s" and ix: "indexes_ok s" and L: "str_at (smem s) (shell_buf s) L" "length L \<le> 127"
  shows "wp (shell_history_save (shell_buf s) s) (\<lambda>s'. kept s s' \<and> str_at (smem s') (shell_buf s') L)"
proof -
  obtain b where dup: "shell_history_is_last_duplicate (shell_buf s) s = Some b"
  proof -
    have "\<exists>v. nd_strcmp row (shell_buf s) (smem s) = Some v" for row using nd_strcmp_returns L(1) by blast
    then show ?thesis using that by (cases "hist_count s = 0") (fastforce simp: shell_history_is_last_duplicate_def)+
  qed
  define m1 where "m1 = snd (nd_strncpy (history_row (write_pos s) s) (shell_buf s) 128 (smem s))"
  have wp8: "write_pos s < 8" using ix by (simp add: indexes_ok_def)
  have frame: "m1 x = smem s x" if "\<not> in_arrays s x" for x
    unfolding m1_def using that history_slot [OF wp8] by (intro nd_strncpy_frame(2)) auto
  have line: "str_at m1 (shell_buf s) L"
  proof -
    have "m1 (shell_buf s + of_nat k) = smem s (shell_buf s + of_nat k)" if "k \<le> length L" for k
      unfolding m1_def
    proof (rule nd_strncpy_frame(2), intro allI impI)
      fix i :: nat assume "i < unat (128 :: u32)"
      then show "shell_buf s + of_nat k \<noteq> history_row (write_pos s) s + of_nat i"
        using history_not_line [OF lay wp8, of i k] that L(2) by (auto dest: sym)
    qed
    then show ?thesis using L(1) str_at_cong by blast
  qed
  have next_wp: "word_of_int ((uint (write_pos s) + 1) smod 8) < (8 :: u8)"
  proof -
    have "\<forall>n \<in> set [0..<8]. word_of_int ((int n + 1) smod 8) < (8 :: u8)" by code_simp
    then have "word_of_int ((int (unat (write_pos s)) + 1) smod 8) < (8 :: u8)"
      by (rule bspec) (use wp8 in \<open>simp add: word_less_nat_alt\<close>)
    then show ?thesis by simp
  qed
  have next_c: "hist_count s + 1 \<le> 8 \<and> browse_pos s + 1 \<le> hist_count s + 1" if "hist_count s < 8"
  proof -
    have "unat (hist_count s + 1) = unat (hist_count s) + 1"
      using that by (simp add: word_less_nat_alt unat_word_ariths)
    then have "hist_count s \<le> hist_count s + 1" by (simp add: word_le_nat_alt)
    then show ?thesis using inc_le [OF that] ix by (auto simp: indexes_ok_def add.commute)
  qed
  show ?thesis
    using frame line next_wp next_c ix L(1)
    by (cases "nd_strncpy (history_row (write_pos s) s) (shell_buf s) 128 (smem s)")
      (auto simp: shell_history_save_def dup m1_def Let_def shell_frame_def indexes_ok_def)
qed


text \<open>
  What a command may do. It is code of the application, and runs on the shell's thread between two lines. It has to return; it
  cannot name the static variables of \<^verbatim>\<open>nd_shell.c\<close>, so these are as before; it prints what it likes, and it writes at the addresses
  \<open>W\<close> only, which may be any, its arguments and the shell's arrays included, but for the constant string \<^verbatim>\<open>" "\<close>.
\<close>

definition commands_rely :: "u32 set \<Rightarrow> shell_func \<Rightarrow> bool" where
  "commands_rely W func \<longleftrightarrow> (\<forall>k argv s. layout_ok s \<longrightarrow> wp (func k argv s) (\<lambda>s'.
     s'\<lparr>smem := smem s, out := out s\<rparr> = s \<and> (\<forall>x. x \<notin> W \<longrightarrow> smem s' x = smem s x)))"

text \<open>Only the shell's arrays and the addresses \<open>W\<close> have been written.\<close>

definition writes_only :: "u32 set \<Rightarrow> shell \<Rightarrow> shell \<Rightarrow> bool" where
  "writes_only W s s' \<longleftrightarrow> shell_buf s' = shell_buf s \<and> history s' = history s \<and> space s' = space s \<and>
     (\<forall>x. x \<notin> W \<longrightarrow> \<not> in_arrays s x \<longrightarrow> smem s' x = smem s x)"

abbreviation kept_but :: "u32 set \<Rightarrow> shell \<Rightarrow> shell \<Rightarrow> bool" where
  "kept_but W s s' \<equiv> writes_only W s s' \<and> indexes_ok s'"

lemma writes_only_frame: "shell_frame s s' \<Longrightarrow> writes_only W s s'"
  by (simp add: writes_only_def shell_frame_def)

lemma writes_only_trans: "writes_only W s s1 \<Longrightarrow> writes_only W s1 s2 \<Longrightarrow> writes_only W s s2"
  by (simp add: writes_only_def in_arrays_def)

lemma layout_ok_writes:
  "layout_ok s \<Longrightarrow> writes_only W s s' \<Longrightarrow> space s \<notin> W \<Longrightarrow> space s + 1 \<notin> W \<Longrightarrow> layout_ok s'"
  by (simp add: layout_ok_def writes_only_def in_arrays_def)

lemma command_ok:
  assumes "commands_rely W func" and "layout_ok s" and "indexes_ok s"
  shows "wp (func k argv s) (kept_but W s)"
proof -
  have "wp (func k argv s) (\<lambda>s'. s'\<lparr>smem := smem s, out := out s\<rparr> = s \<and> (\<forall>x. x \<notin> W \<longrightarrow> smem s' x = smem s x))"
    using assms(1,2) by (simp add: commands_rely_def)
  then show ?thesis
  proof (rule wp_mono, elim conjE)
    fix s' assume e: "s'\<lparr>smem := smem s, out := out s\<rparr> = s" and m: "\<forall>x. x \<notin> W \<longrightarrow> smem s' x = smem s x"
    have "shell_buf s' = shell_buf s" "history s' = history s" "space s' = space s" "shell_len s' = shell_len s"
      "write_pos s' = write_pos s" "hist_count s' = hist_count s" "browse_pos s' = browse_pos s"
      using arg_cong [OF e, of shell_buf] arg_cong [OF e, of history] arg_cong [OF e, of space] arg_cong [OF e, of shell_len]
        arg_cong [OF e, of write_pos] arg_cong [OF e, of hist_count] arg_cong [OF e, of browse_pos] by simp_all
    with m assms(3) show "kept_but W s s'" by (simp add: writes_only_def indexes_ok_def)
  qed
qed

lemma shell_find_returns:
  assumes "str_at m name L"
  shows "\<exists>r. shell_find cmds name m = Some r"
proof (induction cmds)
  case (Cons cmd cmds)
  obtain r where "nd_strcmp name (cmd_name cmd) m = Some r" using nd_strcmp_returns assms by blast
  with Cons.IH show ?case by auto
qed simp

lemma shell_execute_ok:
  assumes lay: "layout_ok s" and ix: "indexes_ok s" and nul: "smem s (shell_buf s + ucast (shell_len s)) = 0"
    and func: "commands_rely W func"
  shows "wp (shell_execute func cmds s) (kept_but W s)"
proof -
  have len: "unat (shell_len s) \<le> 127" using ix by (simp add: indexes_ok_def word_le_nat_alt)
  obtain L where L: "length L \<le> unat (shell_len s)" "str_at (smem s) (shell_buf s) L"
    using str_at_exists [of "smem s" "shell_buf s" "unat (shell_len s)"] nul by auto
  show ?thesis
    unfolding shell_execute_def wp_bind
  proof (rule wp_mono [OF shell_history_save_ok [OF lay ix L(2)]], use L(1) len in simp, elim conjE)
    fix s1 assume f1: "shell_frame s s1" and ix1: "indexes_ok s1" and L1: "str_at (smem s1) (shell_buf s1) L"
    have lay1: "layout_ok s1" by (rule layout_ok_frame [OF lay f1])
    have inl: "in_arrays s1 (shell_buf s1 + of_nat i)" if "i \<le> length L" for i
    proof -
      have "unat (of_nat i :: u32) < 128" using that L(1) len by (simp add: unat_of_nat)
      then show ?thesis by (simp add: in_arrays_def word_less_nat_alt)
    qed
    have sp: "shell_buf s1 + of_nat i \<noteq> space s1 + of_nat j" if "i \<le> length L" "j \<le> length [32 :: u8]" for i j
    proof -
      have "j = 0 \<or> j = 1" using that by auto
      then have "\<not> in_arrays s1 (space s1 + of_nat j)" using lay1 by (auto simp: layout_ok_def)
      then show ?thesis using inl [OF that(1)] by metis
    qed
    have nz: "shell_buf s1 + of_nat i \<noteq> 0" if "i \<le> length L" for i
    proof -
      have "unat (shell_buf s1 + of_nat i) = unat (shell_buf s1) + i"
        using lay1 that L(1) len by (simp add: layout_ok_def unat_word_ariths unat_of_nat)
      moreover have "unat (shell_buf s1) \<noteq> 0" using lay1 by (simp add: layout_ok_def unat_eq_zero)
      ultimately show ?thesis by (metis add_is_0 unat_0)
    qed
    obtain argv m' where parse: "shell_parse (space s1) (shell_buf s1) ARGC_MAX (smem s1) = Some (argv, m')"
      and toks: "\<forall>i < length argv. str_at m' (argv ! i) (tokens (set [32]) L ! i)"
      and fr: "line_frame (shell_buf s1) 0 (length L) (smem s1) m'"
      using shell_parse_ok [OF L1, of "space s1" "[32]" ARGC_MAX] lay1 sp nz L(1) len
      by (auto simp: layout_ok_def)
    let ?s2 = "s1\<lparr>smem := m'\<rparr>"
    have "m' x = smem s1 x" if "\<not> in_arrays s1 x" for x
      using fr inl that unfolding line_frame_def by (metis add_0 less_imp_le)
    then have f2: "shell_frame s1 ?s2" by (simp add: shell_frame_def)
    have k2: "shell_frame s ?s2" "indexes_ok ?s2" "layout_ok ?s2"
      using shell_frame_trans [OF f1 f2] ix1 layout_ok_frame [OF lay1 f2] by (simp_all add: indexes_ok_def)
    have run: "wp (case argv of [] \<Rightarrow> Some ?s2
        | name # _ \<Rightarrow> do {
            cmd \<leftarrow> shell_find cmds name (smem ?s2);
            (case cmd of Some cmd \<Rightarrow> func (cmd_func cmd) argv ?s2 | None \<Rightarrow> Some (shell_puts not_found_text ?s2))
          }) (kept_but W s)"
    proof (cases argv)
      case Nil
      then show ?thesis using k2 writes_only_frame by simp
    next
      case (Cons name args)
      obtain r where find: "shell_find cmds name m' = Some r"
        using shell_find_returns toks Cons by fastforce
      show ?thesis
      proof (cases r)
        case None
        then show ?thesis using find Cons k2 writes_only_frame [of s "?s2\<lparr>out := cs\<rparr>" for cs] by (simp add: shell_puts_eq)
      next
        case (Some cmd)
        have "wp (func (cmd_func cmd) argv ?s2) (kept_but W s)"
          by (rule wp_mono [OF command_ok [OF func k2(3,2)]]) (use writes_only_trans [OF writes_only_frame [OF k2(1)]] in blast)
        then show ?thesis using find Cons Some by simp
      qed
    qed
    show "wp (shell_parse (space s1) (shell_buf s1) ARGC_MAX (smem s1)) (\<lambda>x. wp (case x of (argv, m1) \<Rightarrow>
        let s2 = s1\<lparr>smem := m1\<rparr> in case argv of [] \<Rightarrow> Some s2
        | name # _ \<Rightarrow> do {
            cmd \<leftarrow> shell_find cmds name (smem s2);
            (case cmd of Some cmd \<Rightarrow> func (cmd_func cmd) argv s2 | None \<Rightarrow> Some (shell_puts not_found_text s2))
          }) (kept_but W s))"
      using run unfolding parse wp_Some prod.case Let_def .
  qed
qed

lemma shell_step_ok:
  assumes lay: "layout_ok s" and ix: "indexes_ok s" and func: "commands_rely W func"
  shows "wp (shell_step func cmds c s) (kept_but W s)"
  unfolding shell_step_def wp_bind
proof (rule wp_mono [OF shell_input_ok [OF ix]], clarify)
  fix ready s1 assume f1: "shell_frame s s1" and ix1: "indexes_ok s1"
    and nul: "ready \<longrightarrow> smem s1 (shell_buf s1 + ucast (shell_len s1)) = 0"
  have lay1: "layout_ok s1" by (rule layout_ok_frame [OF lay f1])
  have "wp (if shell_len s1 > 0 then shell_execute func cmds s1 else Some s1)
      (\<lambda>s2. kept_but W s (shell_puts SHELL_PROMPT (s2\<lparr>shell_len := 0\<rparr>)))" if ready
  proof (rule wp_mono [where Q = "kept_but W s1"])
    show "wp (if shell_len s1 > 0 then shell_execute func cmds s1 else Some s1) (kept_but W s1)"
      using shell_execute_ok [OF lay1 ix1 _ func] nul that ix1 writes_only_frame [of s1 s1 W] by simp
    fix s2 assume "kept_but W s1 s2"
    then show "kept_but W s (shell_puts SHELL_PROMPT (s2\<lparr>shell_len := 0\<rparr>))"
      using writes_only_trans [OF writes_only_frame [OF f1], of W s2] by (simp add: shell_puts_eq indexes_ok_def writes_only_def)
  qed
  then show "wp (if \<not> ready then Some s1
     else do {
       s2 \<leftarrow> (if shell_len s1 > 0 then shell_execute func cmds s1 else Some s1);
       Some (shell_puts SHELL_PROMPT (s2\<lparr>shell_len := 0\<rparr>))
     }) (kept_but W s)"
    using writes_only_frame [OF f1] ix1 by (simp add: wp_bind)
qed

lemma nd_shell_task_loop_ok:
  assumes func: "commands_rely W func"
  shows "layout_ok s \<Longrightarrow> indexes_ok s \<Longrightarrow> space s \<notin> W \<Longrightarrow> space s + 1 \<notin> W \<Longrightarrow>
    wp (nd_shell_task_loop func cmds cs s) (kept_but W s)"
proof (induction cs arbitrary: s)
  case Nil
  then show ?case using writes_only_frame [of s s W] by simp
next
  case (Cons c cs)
  have "wp (shell_step func cmds c s) (\<lambda>s1. wp (nd_shell_task_loop func cmds cs s1) (kept_but W s))"
  proof (rule wp_mono [OF shell_step_ok [OF Cons.prems(1,2) func]], elim conjE)
    fix s1 assume s1: "writes_only W s s1" "indexes_ok s1"
    have "space s1 = space s" using s1(1) by (simp add: writes_only_def)
    with Cons.IH [OF layout_ok_writes [OF Cons.prems(1) s1(1) Cons.prems(3,4)] s1(2)] Cons.prems(3,4)
    have "wp (nd_shell_task_loop func cmds cs s1) (kept_but W s1)" by simp
    then show "wp (nd_shell_task_loop func cmds cs s1) (kept_but W s)"
      by (rule wp_mono) (use writes_only_trans [OF s1(1)] in blast)
  qed
  then show ?case by (simp add: wp_bind)
qed


section \<open>The help command\<close>

lemma shell_puts_at_ok: "str_at (smem s) p xs \<Longrightarrow> shell_puts_at p s = Some (s\<lparr>out := out s @ xs\<rparr>)"
proof (induction xs arbitrary: p s)
  case (Cons c xs)
  then show ?case using Cons.IH [of "shell_putc c s" "p + 1"]
    by (subst shell_puts_at.simps) (simp add: shell_putc_def)
qed (simp add: shell_puts_at.simps)

text \<open>\<open>help\<close> on a table of strings satisfies what is asked of a command.\<close>

lemma nd_shell_help_ok:
  assumes "\<forall>cmd \<in> set cmds. cmd_name cmd \<noteq> 0 \<and> cmd_desc cmd \<noteq> 0 \<longrightarrow>
    (\<exists>xs ys. str_at (smem s) (cmd_name cmd) xs \<and> str_at (smem s) (cmd_desc cmd) ys)"
  shows "\<exists>cs. nd_shell_help cmds s = Some (s\<lparr>out := cs\<rparr>)"
proof -
  have "\<exists>cs. help_loop cmds (s\<lparr>out := os\<rparr>) = Some (s\<lparr>out := cs\<rparr>)" for os
    using assms
  proof (induction cmds arbitrary: os)
    case (Cons cmd cmds)
    show ?case
    proof (cases "cmd_name cmd = 0 \<or> cmd_desc cmd = 0")
      case True
      then show ?thesis using Cons by auto
    next
      case False
      then obtain xs ys where "str_at (smem s) (cmd_name cmd) xs" "str_at (smem s) (cmd_desc cmd) ys"
        using Cons.prems by auto
      with False Cons show ?thesis by (simp add: shell_puts_eq shell_puts_at_ok)
    qed
  qed auto
  from this [of "out s @ [13, 10]"] show ?thesis by (simp add: nd_shell_help_def shell_puts_eq)
qed

section \<open>Properties\<close>

lemma browse_index_bound:
  assumes "indexes_ok s"
  shows "shell_history_browse_index s < 8"
proof -
  have fin: "\<forall>n \<in> set [0..<8]. \<forall>b \<in> set [0..<9]. word_of_int ((int n + 8 - 1 - (int b - 1)) smod 8) < (8 :: u8)"
    by code_simp
  have w: "unat (write_pos s) \<in> set [0..<8]" and b: "unat (browse_pos s + 1) \<in> set [0..<9]"
    using assms by (auto simp: indexes_ok_def word_le_nat_alt word_less_nat_alt)
  have "sint (browse_pos s) = uint (browse_pos s + 1) - 1"
    using assms sint_browse by (auto simp: indexes_ok_def)
  then show ?thesis using bspec [OF bspec [OF fin w] b] by (simp add: shell_history_browse_index_def)
qed

text \<open>C33: the shell stays well formed, as long as its commands return and stay out of what is not theirs (\<open>commands_rely\<close>: the
  static variables of \<^verbatim>\<open>nd_shell.c\<close> and the constant \<^verbatim>\<open>" "\<close>; they may write anything else, in the line and the
  history as well). For any input and any table of commands, the task returns to its loop each time: all loops of the editor, the history, the
  parser and the search for the command end; the length of the line, the position in the history and the browsing position
  stay in their ranges, so that no access is outside the arrays; and no memory changes but the line, the history and what the
  commands themselves write. Without commands nothing is asked.\<close>

theorem shell_well_formed:
  assumes "layout_ok s" and "shell_len s \<le> 127" and "commands_rely W func" and "space s \<notin> W" "space s + 1 \<notin> W"
  shows "wp (nd_shell_task_entry func cmds input s) (\<lambda>s'.
    shell_len s' \<le> 127 \<and> write_pos s' < 8 \<and> hist_count s' \<le> 8 \<and> browse_pos s' + 1 \<le> hist_count s' \<and>
    shell_history_browse_index s' < 8 \<and>
    shell_buf s' = shell_buf s \<and> history s' = history s \<and> space s' = space s \<and>
    (\<forall>x. x \<in> W \<or> x - shell_buf s < 128 \<or> x - history s < 1024 \<or> smem s' x = smem s x))"
proof -
  let ?s = "shell_puts SHELL_PROMPT (shell_history_init s)"
  have s: "indexes_ok ?s" "shell_frame s ?s" "space ?s = space s"
    using assms(2) by (simp_all add: shell_puts_eq shell_history_init_def indexes_ok_def shell_frame_def)
  have "wp (nd_shell_task_entry func cmds input s) (kept_but W s)"
    unfolding nd_shell_task_entry_def
    by (rule wp_mono [OF nd_shell_task_loop_ok [OF assms(3) layout_ok_frame [OF assms(1) s(2)] s(1)]])
      (use assms(4,5) s(3) writes_only_trans [OF writes_only_frame [OF s(2)]] in auto)
  then show ?thesis
    by (rule wp_mono) (use browse_index_bound in \<open>auto simp: indexes_ok_def writes_only_def in_arrays_def\<close>)
qed

text \<open>A shell with its line at 0x1000, its history at 0x2000, the blank at 0x800 and a command \<^verbatim>\<open>hi\<close> that sets the byte at
  0x5000 and overwrites its first argument.\<close>

definition sample_shell :: shell where
  "sample_shell = \<lparr>smem = (\<lambda>_. 0)(0x800 := 32, 0x900 := 104, 0x901 := 105), shell_buf = 0x1000, shell_len = 0,
     shell_last_line_end = 0, history = 0x2000, hist_count = 0, write_pos = 0, browse_pos = - 1,
     input_state = SHELL_INPUT_NORMAL, space = 0x800, out = []\<rparr>"

definition sample_command :: shell_func where
  "sample_command k argv s = Some (shell_puts [120] (s\<lparr>smem := (smem s)(0x5000 := 1, 0x1000 := 42)\<rparr>))"

theorem shell_well_formed_witness:
  "\<exists>s'. nd_shell_task_entry sample_command [\<lparr>cmd_name = 0x900, cmd_desc = 0, cmd_func = 3\<rparr>]
       [104, 106, 127, 105, 13, 27, 91, 65] sample_shell = Some s' \<and> shell_len s' \<le> 127 \<and> smem s' 0x5001 = 0"
proof -
  have "layout_ok sample_shell" by (simp add: layout_ok_def sample_shell_def in_arrays_def)
  moreover have "commands_rely {0x5000, 0x1000} sample_command"
    by (simp add: commands_rely_def sample_command_def shell_puts_eq)
  ultimately obtain s' where s': "nd_shell_task_entry sample_command [\<lparr>cmd_name = 0x900, cmd_desc = 0, cmd_func = 3\<rparr>]
       [104, 106, 127, 105, 13, 27, 91, 65] sample_shell = Some s'" "shell_len s' \<le> 127"
    and m: "\<forall>x. x \<in> {0x5000, 0x1000} \<or> x - shell_buf sample_shell < 128 \<or> x - history sample_shell < 1024 \<or>
      smem s' x = smem sample_shell x"
    using shell_well_formed [of sample_shell "{0x5000, 0x1000}" sample_command "[\<lparr>cmd_name = 0x900, cmd_desc = 0, cmd_func = 3\<rparr>]"
        "[104, 106, 127, 105, 13, 27, 91, 65]"]
    by (auto simp: wp_iff sample_shell_def)
  have "smem s' 0x5001 = 0" using m [THEN spec, of "0x5001"] by (simp add: sample_shell_def)
  with s' show ?thesis by blast
qed

text \<open>C34: the words of a line. \<open>shell_parse\<close> returns pointers to the first \<open>max_argc\<close> words of the line, the maximal runs of
  non-blanks, each ended by a null byte put into the line; nothing but the line is written.\<close>

theorem shell_parse_correct:
  assumes "str_at m line L" and "str_at m delim [32]" and "length L < 2 ^ 32 - 1"
    and "\<forall>i \<le> length L. line + of_nat i \<notin> {0, delim, delim + 1}"
  shows "\<exists>argv m'. shell_parse delim line max_argc m = Some (argv, m') \<and>
    length argv = min max_argc (length (tokens {32} L)) \<and>
    (\<forall>i < length argv. str_at m' (argv ! i) (tokens {32} L ! i)) \<and>
    (\<forall>x. (\<forall>i < length L. x \<noteq> line + of_nat i) \<longrightarrow> m' x = m x)"
proof -
  have "\<forall>i\<le>length L. \<forall>j\<le>length [32 :: u8]. line + of_nat i \<noteq> delim + of_nat j"
    using assms(4) by (auto simp: le_Suc_eq)
  moreover have "\<forall>i\<le>length L. line + of_nat i \<noteq> 0" using assms(4) by simp
  ultimately show ?thesis
    using shell_parse_ok [OF assms(1,2), of max_argc] assms(3) by (simp add: line_frame_def)
qed

theorem shell_parse_witness:
  "\<exists>argv m'. shell_parse 0x800 0x1000 8 ((\<lambda>_. 0)(0x800 := 32, 0x1000 := 32, 0x1001 := 112, 0x1002 := 115, 0x1003 := 32, 0x1004 := 32, 0x1005 := 97))
     = Some (argv, m') \<and> length argv = 2 \<and> str_at m' (argv ! 0) [112, 115] \<and> str_at m' (argv ! 1) [97]"
proof -
  let ?m = "(\<lambda>_. 0)(0x800 := 32, 0x1000 := 32, 0x1001 := 112, 0x1002 := 115, 0x1003 := 32, 0x1004 := 32, 0x1005 := 97) :: mem"
  have t: "tokens {32} [32, 112, 115, 32, 32, 97] = [[112, 115], [97 :: u8]]"
    by (simp add: tokens.simps)
  have a: "\<forall>i \<le> length [32, 112, 115, 32, 32, 97 :: u8]. (0x1000 :: u32) + of_nat i \<notin> {0, 0x800, 0x800 + 1}"
    by (auto simp: le_Suc_eq)
  have "str_at ?m 0x1000 [32, 112, 115, 32, 32, 97]" "str_at ?m 0x800 [32]" by simp_all
  from shell_parse_correct [OF this _ a, of 8] show ?thesis by (fastforce simp: t)
qed

end
