(* ===== verification/Nd_Memheap.thy ===== *)
theory Nd_Memheap
  imports Nd_Memcpy Nd_Strings
begin

text \<open>The memory heap (\<^verbatim>\<open>kernel/nd_memheap.c\<close>) and the system heap on top of it (\<^verbatim>\<open>kernel/nd_mem.c\<close>): the code, and what
  each operation on the two lists does to the links of the headers.\<close>

section \<open>The data\<close>

text \<open>The header of a block; the lowest bit of \<open>next_item\<close> says that the block is in use.\<close>

record nd_memheap_item =
  magic :: u32
  item_pool :: u32
  next_item :: u32
  prev_item :: u32
  next_free :: u32
  prev_free :: u32

text \<open>
  The headers by their addresses, the other fields of the heaps by the address of the heap, and the bytes of the
  blocks. \<open>debug\<close> is \<^verbatim>\<open>ND_CFG_DEBUG\<close>, which adds the field \<open>magic\<close> to a header. The sentinels \<^verbatim>\<open>start_item\<close> and \<^verbatim>\<open>end_item\<close> are
  the first two fields of a heap.
\<close>

record memheaps =
  items :: "u32 \<Rightarrow> nd_memheap_item"
  start_addr :: "u32 \<Rightarrow> u32"
  pool_size :: "u32 \<Rightarrow> u32"
  available_size :: "u32 \<Rightarrow> u32"
  heap_waiters :: "u32 \<Rightarrow> nat list"
  bytes :: mem
  debug :: bool

definition ND_MEMHEAP_MAGIC :: u32 where "ND_MEMHEAP_MAGIC = 0x1ea01ea0"

definition item_size :: "memheaps \<Rightarrow> u32" where
  "item_size s = (if debug s then 24 else 20)"

abbreviation (input) start_item :: "u32 \<Rightarrow> u32" where "start_item heap \<equiv> heap"

definition end_item :: "u32 \<Rightarrow> memheaps \<Rightarrow> u32" where
  "end_item heap s = heap + item_size s"

definition load_item :: "u32 \<Rightarrow> memheaps \<Rightarrow> nd_memheap_item option" where
  "load_item a s = (if a = 0 then None else Some (items s a))"

definition store_item :: "(nd_memheap_item \<Rightarrow> nd_memheap_item) \<Rightarrow> u32 \<Rightarrow> memheaps \<Rightarrow> memheaps option" where
  "store_item f a s = (if a = 0 then None else Some (s\<lparr>items := (items s)(a := f (items s a))\<rparr>))"

section \<open>Headers\<close>

definition ITEM_IS_USED :: "u32 \<Rightarrow> memheaps \<Rightarrow> bool option" where
  "ITEM_IS_USED item s = map_option (\<lambda>i. next_item i AND 1 \<noteq> 0) (load_item item s)"

definition ITEM_IS_FREE :: "u32 \<Rightarrow> memheaps \<Rightarrow> bool option" where
  "ITEM_IS_FREE item s = map_option Not (ITEM_IS_USED item s)"

definition ITEM_SET_USED :: "u32 \<Rightarrow> memheaps \<Rightarrow> memheaps option" where
  "ITEM_SET_USED item s = store_item (next_item_update (\<lambda>n. n OR 1)) item s"

definition ITEM_SET_FREE :: "u32 \<Rightarrow> memheaps \<Rightarrow> memheaps option" where
  "ITEM_SET_FREE item s = store_item (next_item_update (\<lambda>n. n AND NOT 1)) item s"

definition item_next :: "u32 \<Rightarrow> memheaps \<Rightarrow> u32 option" where
  "item_next item s = map_option (\<lambda>i. next_item i AND NOT 1) (load_item item s)"

definition item_prev :: "u32 \<Rightarrow> memheaps \<Rightarrow> u32 option" where
  "item_prev item s = map_option prev_item (load_item item s)"

definition item_next_free :: "u32 \<Rightarrow> memheaps \<Rightarrow> u32 option" where
  "item_next_free item s = map_option next_free (load_item item s)"

definition item_prev_free :: "u32 \<Rightarrow> memheaps \<Rightarrow> u32 option" where
  "item_prev_free item s = map_option prev_free (load_item item s)"

definition item_set_next :: "u32 \<Rightarrow> u32 \<Rightarrow> memheaps \<Rightarrow> memheaps option" where
  "item_set_next item nxt s = store_item (next_item_update (\<lambda>n. nxt OR (n AND 1))) item s"

definition item_data_size :: "u32 \<Rightarrow> memheaps \<Rightarrow> u32 option" where
  "item_data_size item s = map_option (\<lambda>n. n - item - item_size s) (item_next item s)"

definition item_split_at :: "u32 \<Rightarrow> u32 \<Rightarrow> memheaps \<Rightarrow> u32" where
  "item_split_at item offset s = item + item_size s + offset"

definition item_to_data :: "u32 \<Rightarrow> memheaps \<Rightarrow> u32" where
  "item_to_data item s = item + item_size s"

definition data_to_item :: "u32 \<Rightarrow> memheaps \<Rightarrow> u32" where
  "data_to_item ptr s = ptr - item_size s"

definition item_init :: "u32 \<Rightarrow> u32 \<Rightarrow> memheaps \<Rightarrow> memheaps option" where
  "item_init item heap s =
     store_item (\<lambda>i. (if debug s then i\<lparr>magic := ND_MEMHEAP_MAGIC\<rparr> else i)\<lparr>item_pool := heap\<rparr>) item s"

section \<open>The two lists\<close>

definition phys_list_insert_after :: "u32 \<Rightarrow> u32 \<Rightarrow> memheaps \<Rightarrow> memheaps option" where
  "phys_list_insert_after anchor new_item s = do {
     n \<leftarrow> item_next anchor s;
     s \<leftarrow> store_item (next_item_update (\<lambda>_. n)) new_item s;
     s \<leftarrow> store_item (prev_item_update (\<lambda>_. anchor)) new_item s;
     n \<leftarrow> item_next anchor s;
     s \<leftarrow> store_item (prev_item_update (\<lambda>_. new_item)) n s;
     item_set_next anchor new_item s
   }"

definition free_list_insert_after :: "u32 \<Rightarrow> u32 \<Rightarrow> memheaps \<Rightarrow> memheaps option" where
  "free_list_insert_after anchor item s = do {
     n \<leftarrow> item_next_free anchor s;
     s \<leftarrow> store_item (next_free_update (\<lambda>_. n)) item s;
     s \<leftarrow> store_item (prev_free_update (\<lambda>_. anchor)) item s;
     n \<leftarrow> item_next_free anchor s;
     s \<leftarrow> store_item (prev_free_update (\<lambda>_. item)) n s;
     store_item (next_free_update (\<lambda>_. item)) anchor s
   }"

definition phys_list_remove :: "u32 \<Rightarrow> memheaps \<Rightarrow> memheaps option" where
  "phys_list_remove item s = do {
     p \<leftarrow> item_prev item s;
     n \<leftarrow> item_next item s;
     s \<leftarrow> item_set_next p n s;
     n \<leftarrow> item_next item s;
     p \<leftarrow> item_prev item s;
     store_item (prev_item_update (\<lambda>_. p)) n s
   }"

definition free_list_remove :: "u32 \<Rightarrow> memheaps \<Rightarrow> memheaps option" where
  "free_list_remove item s = do {
     p \<leftarrow> item_prev_free item s;
     n \<leftarrow> item_next_free item s;
     s \<leftarrow> store_item (next_free_update (\<lambda>_. n)) p s;
     n \<leftarrow> item_next_free item s;
     p \<leftarrow> item_prev_free item s;
     store_item (prev_free_update (\<lambda>_. p)) n s
   }"

definition free_list_replace :: "u32 \<Rightarrow> u32 \<Rightarrow> memheaps \<Rightarrow> memheaps option" where
  "free_list_replace old_item new_item s = do {
     p \<leftarrow> item_prev_free old_item s;
     s \<leftarrow> store_item (prev_free_update (\<lambda>_. p)) new_item s;
     n \<leftarrow> item_next_free old_item s;
     s \<leftarrow> store_item (next_free_update (\<lambda>_. n)) new_item s;
     n \<leftarrow> item_next_free old_item s;
     s \<leftarrow> store_item (prev_free_update (\<lambda>_. new_item)) n s;
     p \<leftarrow> item_prev_free old_item s;
     store_item (next_free_update (\<lambda>_. new_item)) p s
   }"

definition add_available :: "u32 \<Rightarrow> u32 \<Rightarrow> memheaps \<Rightarrow> memheaps" where
  "add_available heap n s = s\<lparr>available_size := (available_size s)(heap := available_size s heap + n)\<rparr>"

section \<open>Allocation\<close>

definition memheap_coalesce :: "u32 \<Rightarrow> u32 \<Rightarrow> memheaps \<Rightarrow> memheaps option" where
  "memheap_coalesce heap item s = do {
     d \<leftarrow> item_data_size item s;
     let s = add_available heap d s;
     nxt \<leftarrow> item_next item s;
     free \<leftarrow> ITEM_IS_FREE nxt s;
     s \<leftarrow> (if free then do {
          s \<leftarrow> free_list_remove nxt s;
          s \<leftarrow> phys_list_remove nxt s;
          Some (add_available heap (item_size s) s)
        } else Some s);
     p \<leftarrow> item_prev item s;
     free \<leftarrow> ITEM_IS_FREE p s;
     (item, s) \<leftarrow> (if free then do {
          s \<leftarrow> phys_list_remove item s;
          let s = add_available heap (item_size s) s;
          p \<leftarrow> item_prev item s;
          Some (p, s)
        } else do {
          s \<leftarrow> free_list_insert_after (start_item heap) item s;
          Some (item, s)
        });
     ITEM_SET_FREE item s
   }"

text \<open>The search for the first free block that is large enough; the result is the block or the sentinel.\<close>

partial_function (option) find_fit :: "u32 \<Rightarrow> u32 \<Rightarrow> u32 \<Rightarrow> u32 \<Rightarrow> memheaps \<Rightarrow> (u32 \<times> u32) option" where
  "find_fit heap sz item block_size s =
     (if item \<noteq> start_item heap then
        Option.bind (item_data_size item s) (\<lambda>d.
          if d \<ge> sz then Some (item, d)
          else Option.bind (item_next_free item s) (\<lambda>n. find_fit heap sz n d s))
      else Some (item, block_size))"

definition memheap_alloc :: "u32 \<Rightarrow> u32 \<Rightarrow> memheaps \<Rightarrow> (u32 \<times> memheaps) option" where
  "memheap_alloc heap sz s = do {
     first \<leftarrow> item_next_free (start_item heap) s;
     (item, block_size) \<leftarrow> find_fit heap sz first 0 s;
     if item = start_item heap then Some (0, s)
     else do {
       s \<leftarrow> (if block_size \<ge> sz + item_size s then do {
            let new_item = item_split_at item sz s;
            s \<leftarrow> item_init new_item heap s;
            s \<leftarrow> free_list_replace item new_item s;
            s \<leftarrow> phys_list_insert_after item new_item s;
            Some (add_available heap (- (sz + item_size s)) s)
          } else do {
            s \<leftarrow> free_list_remove item s;
            Some (add_available heap (- block_size) s)
          });
       s \<leftarrow> ITEM_SET_USED item s;
       Some (item_to_data item s, s)
     }
   }"

text \<open>In the debug configuration a header without its magic number fails an assertion.\<close>

definition check_magic :: "u32 \<Rightarrow> memheaps \<Rightarrow> unit option" where
  "check_magic item s = do {
     i \<leftarrow> load_item item s;
     assert_ok (debug s \<longrightarrow> magic i = ND_MEMHEAP_MAGIC)
   }"

definition memheap_free :: "u32 \<Rightarrow> memheaps \<Rightarrow> memheaps option" where
  "memheap_free ptr s = do {
     let item = data_to_item ptr s;
     check_magic item s;
     i \<leftarrow> load_item item s;
     memheap_coalesce (item_pool i) item s
   }"

definition nd_memheap_init :: "u32 \<Rightarrow> u32 \<Rightarrow> u32 \<Rightarrow> memheaps \<Rightarrow> (nd_err \<times> memheaps) option" where
  "nd_memheap_init heap addr sz s = do {
     let s = s\<lparr>start_addr := (start_addr s)(heap := addr), pool_size := (pool_size s)(heap := sz),
               available_size := (available_size s)(heap := sz - item_size s), heap_waiters := (heap_waiters s)(heap := [])\<rparr>;
     let item_0 = addr;
     s \<leftarrow> item_init (start_item heap) heap s;
     s \<leftarrow> store_item (\<lambda>i. i\<lparr>next_item := item_0, prev_item := item_0, next_free := item_0, prev_free := item_0\<rparr>) (start_item heap) s;
     s \<leftarrow> ITEM_SET_USED (start_item heap) s;
     s \<leftarrow> item_init item_0 heap s;
     s \<leftarrow> store_item (\<lambda>i. i\<lparr>next_item := end_item heap s, prev_item := start_item heap,
            next_free := start_item heap, prev_free := start_item heap\<rparr>) item_0 s;
     s \<leftarrow> item_init (end_item heap s) heap s;
     s \<leftarrow> store_item (\<lambda>i. i\<lparr>next_item := start_item heap, prev_item := item_0\<rparr>) (end_item heap s) s;
     s \<leftarrow> ITEM_SET_USED (end_item heap s) s;
     Some (ND_EOK, s)
   }"

definition nd_memheap_alloc :: "u32 \<Rightarrow> u32 \<Rightarrow> memheaps \<Rightarrow> (u32 \<times> memheaps) option" where
  "nd_memheap_alloc heap sz s = memheap_alloc heap sz s"

definition nd_memheap_free :: "u32 \<Rightarrow> memheaps \<Rightarrow> memheaps option" where
  "nd_memheap_free ptr s = (if ptr = 0 then Some s else memheap_free ptr s)"

definition nd_memheap_realloc :: "u32 \<Rightarrow> u32 \<Rightarrow> u32 \<Rightarrow> memheaps \<Rightarrow> (u32 \<times> memheaps) option" where
  "nd_memheap_realloc heap ptr sz s =
     (if ptr = 0 then memheap_alloc heap sz s
      else do {
        let item = data_to_item ptr s;
        block_size \<leftarrow> item_data_size item s;
        check_magic item s;
        if sz = block_size then Some (ptr, s)
        else if sz < block_size then
          (if block_size - sz \<ge> item_size s then do {
             let new_item = item_split_at item sz s;
             s \<leftarrow> item_init new_item heap s;
             s \<leftarrow> phys_list_insert_after item new_item s;
             s \<leftarrow> memheap_coalesce heap new_item s;
             Some (ptr, s)
           } else Some (ptr, s))
        else do {
          nxt \<leftarrow> item_next item s;
          next_block_size \<leftarrow> item_data_size nxt s;
          free \<leftarrow> ITEM_IS_FREE nxt s;
          if free \<and> block_size + item_size s + next_block_size \<ge> sz then do {
            s \<leftarrow> (if block_size + next_block_size - sz \<ge> item_size s then do {
                 let new_item = item_split_at item sz s;
                 s \<leftarrow> free_list_remove nxt s;
                 s \<leftarrow> phys_list_remove nxt s;
                 s \<leftarrow> item_init new_item heap s;
                 s \<leftarrow> phys_list_insert_after item new_item s;
                 free_list_insert_after (start_item heap) new_item s
               } else do {
                 s \<leftarrow> free_list_remove nxt s;
                 s \<leftarrow> phys_list_remove nxt s;
                 Some (add_available heap (item_size s) s)
               });
            Some (ptr, add_available heap (- (sz - block_size)) s)
          }
          else do {
            (new_ptr, s) \<leftarrow> memheap_alloc heap sz s;
            if new_ptr = 0 then Some (0, s)
            else do {
              (_, m) \<leftarrow> nd_memcpy new_ptr ptr block_size (bytes s);
              s \<leftarrow> memheap_free ptr (s\<lparr>bytes := m\<rparr>);
              Some (new_ptr, s)
            }
          }
        }
      })"

section \<open>The system heap\<close>

text \<open>\<open>k_system_heap\<close> is the address of the static heap of \<^verbatim>\<open>kernel/nd_mem.c\<close>.\<close>

definition nd_system_heap_init :: "u32 \<Rightarrow> u32 \<Rightarrow> u32 \<Rightarrow> memheaps \<Rightarrow> (nd_err \<times> memheaps) option" where
  "nd_system_heap_init k_system_heap addr sz s = nd_memheap_init k_system_heap addr sz s"

definition nd_malloc :: "u32 \<Rightarrow> u32 \<Rightarrow> memheaps \<Rightarrow> (u32 \<times> memheaps) option" where
  "nd_malloc k_system_heap sz s = nd_memheap_alloc k_system_heap sz s"

definition nd_free :: "u32 \<Rightarrow> memheaps \<Rightarrow> memheaps option" where
  "nd_free ptr s = nd_memheap_free ptr s"

definition nd_realloc :: "u32 \<Rightarrow> u32 \<Rightarrow> u32 \<Rightarrow> memheaps \<Rightarrow> (u32 \<times> memheaps) option" where
  "nd_realloc k_system_heap ptr sz s = nd_memheap_realloc k_system_heap ptr sz s"

definition nd_calloc :: "u32 \<Rightarrow> u32 \<Rightarrow> u32 \<Rightarrow> memheaps \<Rightarrow> (u32 \<times> memheaps) option" where
  "nd_calloc k_system_heap count sz s =
     (if sz = 0 \<or> count = 0 then Some (0, s)
      else do {
        let total = (ucast count :: u64) * ucast sz;
        if total > 0xFFFFFFFF then Some (0, s)
        else do {
          (ptr, s) \<leftarrow> nd_malloc k_system_heap (ucast total) s;
          Some (ptr, if ptr \<noteq> 0 then s\<lparr>bytes := snd (nd_memset ptr 0 (ucast total) (bytes s))\<rparr> else s)
        }
      })"

section \<open>What the operations do to the fields\<close>

definition nx :: "memheaps \<Rightarrow> u32 \<Rightarrow> u32" where "nx s = (\<lambda>a. next_item (items s a) AND NOT 1)"
definition in_use :: "memheaps \<Rightarrow> u32 \<Rightarrow> bool" where "in_use s = (\<lambda>a. bit (next_item (items s a)) 0)"
definition pv :: "memheaps \<Rightarrow> u32 \<Rightarrow> u32" where "pv s = (\<lambda>a. prev_item (items s a))"
definition nf :: "memheaps \<Rightarrow> u32 \<Rightarrow> u32" where "nf s = (\<lambda>a. next_free (items s a))"
definition pf :: "memheaps \<Rightarrow> u32 \<Rightarrow> u32" where "pf s = (\<lambda>a. prev_free (items s a))"

lemmas fields = nx_def in_use_def pv_def nf_def pf_def

text \<open>Everything of a state but the links and flags of the headers.\<close>

definition same_heap :: "memheaps \<Rightarrow> memheaps \<Rightarrow> bool" where
  "same_heap s s' \<longleftrightarrow> start_addr s' = start_addr s \<and> pool_size s' = pool_size s \<and> debug s' = debug s \<and>
     heap_waiters s' = heap_waiters s \<and> bytes s' = bytes s \<and>
     (\<forall>a. item_pool (items s' a) = item_pool (items s a) \<and> magic (items s' a) = magic (items s a))"

lemma same_heap_refl [simp]: "same_heap s s"
  by (simp add: same_heap_def)

lemma same_heap_trans: "same_heap s s1 \<Longrightarrow> same_heap s1 s2 \<Longrightarrow> same_heap s s2"
  by (simp add: same_heap_def)

lemma flag_words:
  "(a AND NOT 1) AND NOT 1 = (a AND NOT 1 :: u32)" "\<not> bit (a AND NOT 1 :: u32) 0" "a AND 1 \<noteq> 0 \<longleftrightarrow> bit (a :: u32) 0"
  "\<not> bit b 0 \<Longrightarrow> b AND NOT 1 = (b :: u32)"
  "\<not> bit b 0 \<Longrightarrow> (b OR (a AND 1)) AND NOT 1 = (b :: u32)" "\<not> bit b 0 \<Longrightarrow> bit (b OR (a AND 1)) 0 = bit (a :: u32) 0"
  "(a OR 1) AND NOT 1 = (a AND NOT 1 :: u32)" "bit (a OR 1 :: u32) 0"
proof -
  note bits = bit_and_iff bit_or_iff bit_not_iff bit_1_iff
  show "(a AND NOT 1) AND NOT 1 = (a AND NOT 1 :: u32)" by (simp only: and.assoc and.idem)
  show "\<not> bit (a AND NOT 1 :: u32) 0" unfolding bits by simp
  show "a AND 1 \<noteq> 0 \<longleftrightarrow> bit (a :: u32) 0" using and_exp_eq_0_iff_not_bit [of a 0] by simp
  show "b AND NOT 1 = (b :: u32)" if "\<not> bit b 0"
    by (rule bit_word_eqI, unfold bits) (use that in \<open>auto intro: gr0I\<close>)
  show "(b OR (a AND 1)) AND NOT 1 = (b :: u32)" if "\<not> bit b 0"
    by (rule bit_word_eqI, unfold bits) (use that in \<open>auto intro: gr0I\<close>)
  show "bit (b OR (a AND 1)) 0 = bit (a :: u32) 0" if "\<not> bit b 0"
    unfolding bits using that by simp
  show "(a OR 1) AND NOT 1 = (a AND NOT 1 :: u32)"
    by (rule bit_word_eqI, unfold bits) auto
  show "bit (a OR 1 :: u32) 0" unfolding bits by simp
qed


lemma not_1: "NOT (1 :: u32) = - 2"
  by simp

lemmas accessors = load_item_def store_item_def item_next_def item_prev_def item_next_free_def item_prev_free_def
  item_set_next_def ITEM_IS_USED_def ITEM_IS_FREE_def ITEM_SET_USED_def ITEM_SET_FREE_def item_init_def item_data_size_def

lemma nx_even [simp]: "\<not> bit (nx s a) 0"
  by (simp only: nx_def flag_words not_False_eq_True)

lemma read_fields [simp]:
  "a \<noteq> 0 \<Longrightarrow> item_next a s = Some (nx s a)" "a \<noteq> 0 \<Longrightarrow> item_prev a s = Some (pv s a)"
  "a \<noteq> 0 \<Longrightarrow> item_next_free a s = Some (nf s a)" "a \<noteq> 0 \<Longrightarrow> item_prev_free a s = Some (pf s a)"
  "a \<noteq> 0 \<Longrightarrow> ITEM_IS_FREE a s = Some (\<not> in_use s a)"
  "a \<noteq> 0 \<Longrightarrow> item_data_size a s = Some (nx s a - a - item_size s)"
  by (simp_all only: fields accessors if_False option.map flag_words)

text \<open>The state with other links.\<close>

definition put_links :: "(u32 \<Rightarrow> u32) \<Rightarrow> (u32 \<Rightarrow> bool) \<Rightarrow> (u32 \<Rightarrow> u32) \<Rightarrow> (u32 \<Rightarrow> u32) \<Rightarrow> (u32 \<Rightarrow> u32) \<Rightarrow>
    memheaps \<Rightarrow> memheaps \<Rightarrow> bool" where
  "put_links n u p fn fp s s' \<longleftrightarrow> nx s' = n \<and> in_use s' = u \<and> pv s' = p \<and> nf s' = fn \<and> pf s' = fp \<and>
     available_size s' = available_size s \<and> same_heap s s'"

lemma set_fields:
  assumes "a \<noteq> 0"
  shows "\<not> bit v 0 \<Longrightarrow> wp (store_item (next_item_update (\<lambda>_. v)) a s)
      (put_links ((nx s)(a := v)) ((in_use s)(a := False)) (pv s) (nf s) (pf s) s)"
    "\<not> bit v 0 \<Longrightarrow> wp (item_set_next a v s) (put_links ((nx s)(a := v)) (in_use s) (pv s) (nf s) (pf s) s)"
    "wp (store_item (prev_item_update (\<lambda>_. v)) a s) (put_links (nx s) (in_use s) ((pv s)(a := v)) (nf s) (pf s) s)"
    "wp (store_item (next_free_update (\<lambda>_. v)) a s) (put_links (nx s) (in_use s) (pv s) ((nf s)(a := v)) (pf s) s)"
    "wp (store_item (prev_free_update (\<lambda>_. v)) a s) (put_links (nx s) (in_use s) (pv s) (nf s) ((pf s)(a := v)) s)"
    "wp (ITEM_SET_USED a s) (put_links (nx s) ((in_use s)(a := True)) (pv s) (nf s) (pf s) s)"
    "wp (ITEM_SET_FREE a s) (put_links (nx s) ((in_use s)(a := False)) (pv s) (nf s) (pf s) s)"
  using assms
  by (auto simp: put_links_def same_heap_def fields accessors flag_words flag_words [unfolded not_1] fun_eq_iff simp del: bit_0)

lemma put_linksD:
  assumes "put_links n u p fn fp s s'"
  shows "nx s' = n" "in_use s' = u" "pv s' = p" "nf s' = fn" "pf s' = fp" "available_size s' = available_size s"
    "same_heap s s'" "item_size s' = item_size s"
  using assms by (simp_all add: put_links_def same_heap_def item_size_def)

lemma put_links_trans:
  "put_links n1 u1 p1 f1 g1 s s1 \<Longrightarrow> put_links n u p f g s1 s2 \<Longrightarrow> put_links n u p f g s s2"
  by (auto simp: put_links_def intro: same_heap_trans)


lemma wpE: "wp m Q \<Longrightarrow> (\<And>x. m = Some x \<Longrightarrow> Q x \<Longrightarrow> thesis) \<Longrightarrow> thesis"
  by (auto simp: wp_iff)

lemma phys_list_insert_after_ok:
  assumes "a \<noteq> 0" "n \<noteq> 0" "nx s a \<noteq> 0" "n \<noteq> a" "n \<noteq> nx s a" "\<not> bit n 0"
  shows "wp (phys_list_insert_after a n s) (put_links ((nx s)(n := nx s a, a := n)) ((in_use s)(n := False))
    ((pv s)(n := a, nx s a := n)) (nf s) (pf s) s)"
proof -
  obtain s1 where 1: "store_item (next_item_update (\<lambda>_. nx s a)) n s = Some s1"
    and p1: "put_links ((nx s)(n := nx s a)) ((in_use s)(n := False)) (pv s) (nf s) (pf s) s s1"
    by (rule wpE [OF set_fields(1) [OF assms(2) nx_even]])
  obtain s2 where 2: "store_item (prev_item_update (\<lambda>_. a)) n s1 = Some s2"
    and p2: "put_links (nx s1) (in_use s1) ((pv s1)(n := a)) (nf s1) (pf s1) s1 s2"
    using set_fields(3) [OF assms(2)] by (auto simp: wp_iff)
  note D1 = put_linksD [OF p1] and D2 = put_linksD [OF p2]
  have b: "nx s2 a = nx s a" using assms by (simp add: D1 D2)
  obtain s3 where 3: "store_item (prev_item_update (\<lambda>_. n)) (nx s a) s2 = Some s3"
    and p3: "put_links (nx s2) (in_use s2) ((pv s2)(nx s a := n)) (nf s2) (pf s2) s2 s3"
    using set_fields(3) [OF assms(3)] by (auto simp: wp_iff)
  note D3 = put_linksD [OF p3]
  have "wp (item_set_next a n s3) (put_links ((nx s3)(a := n)) (in_use s3) (pv s3) (nf s3) (pf s3) s3)"
    by (rule set_fields(2) [OF assms(1,6)])
  then show ?thesis
    unfolding phys_list_insert_after_def read_fields(1) [OF assms(1)] bind.bind_lunit 1 2 b 3
    by (rule wp_mono)
      (use p1 p2 p3 in \<open>auto intro: put_links_trans simp: D1(1-5) D2(1-5) D3(1-5)\<close>)
qed

lemma free_list_insert_after_ok:
  assumes "a \<noteq> 0" "i \<noteq> 0" "nf s a \<noteq> 0" "i \<noteq> a"
  shows "wp (free_list_insert_after a i s) (put_links (nx s) (in_use s) (pv s)
    ((nf s)(i := nf s a, a := i)) ((pf s)(i := a, nf s a := i)) s)"
proof -
  obtain s1 where 1: "store_item (next_free_update (\<lambda>_. nf s a)) i s = Some s1"
    and p1: "put_links (nx s) (in_use s) (pv s) ((nf s)(i := nf s a)) (pf s) s s1"
    using set_fields(4) [OF assms(2)] by (auto simp: wp_iff)
  obtain s2 where 2: "store_item (prev_free_update (\<lambda>_. a)) i s1 = Some s2"
    and p2: "put_links (nx s1) (in_use s1) (pv s1) (nf s1) ((pf s1)(i := a)) s1 s2"
    using set_fields(5) [OF assms(2)] by (auto simp: wp_iff)
  note D1 = put_linksD [OF p1] and D2 = put_linksD [OF p2]
  have b: "nf s2 a = nf s a" using assms by (simp add: D1 D2)
  obtain s3 where 3: "store_item (prev_free_update (\<lambda>_. i)) (nf s a) s2 = Some s3"
    and p3: "put_links (nx s2) (in_use s2) (pv s2) (nf s2) ((pf s2)(nf s a := i)) s2 s3"
    using set_fields(5) [OF assms(3)] by (auto simp: wp_iff)
  note D3 = put_linksD [OF p3]
  have "wp (store_item (next_free_update (\<lambda>_. i)) a s3) (put_links (nx s3) (in_use s3) (pv s3) ((nf s3)(a := i)) (pf s3) s3)"
    by (rule set_fields(4) [OF assms(1)])
  then show ?thesis
    unfolding free_list_insert_after_def read_fields(3) [OF assms(1)] bind.bind_lunit 1 2 b 3
    by (rule wp_mono)
      (use p1 p2 p3 in \<open>auto intro: put_links_trans simp: D1(1-5) D2(1-5) D3(1-5)\<close>)
qed

lemma phys_list_remove_ok:
  assumes "i \<noteq> 0" "pv s i \<noteq> 0" "nx s i \<noteq> 0" "pv s i \<noteq> i"
  shows "wp (phys_list_remove i s) (put_links ((nx s)(pv s i := nx s i)) (in_use s) ((pv s)(nx s i := pv s i)) (nf s) (pf s) s)"
proof -
  obtain s1 where 1: "item_set_next (pv s i) (nx s i) s = Some s1"
    and p1: "put_links ((nx s)(pv s i := nx s i)) (in_use s) (pv s) (nf s) (pf s) s s1"
    by (rule wpE [OF set_fields(2) [OF assms(2) nx_even]])
  note D1 = put_linksD [OF p1]
  have "wp (store_item (prev_item_update (\<lambda>_. pv s i)) (nx s i) s1)
      (put_links (nx s1) (in_use s1) ((pv s1)(nx s i := pv s i)) (nf s1) (pf s1) s1)"
    by (rule set_fields(3) [OF assms(3)])
  then have "wp (store_item (prev_item_update (\<lambda>_. pv s i)) (nx s i) s1)
      (put_links ((nx s)(pv s i := nx s i)) (in_use s) ((pv s)(nx s i := pv s i)) (nf s) (pf s) s)"
    by (rule wp_mono) (use p1 in \<open>auto intro: put_links_trans simp: D1(1-5)\<close>)
  then show ?thesis using assms by (simp add: phys_list_remove_def 1 D1(1-5))
qed

lemma free_list_remove_ok:
  assumes "i \<noteq> 0" "pf s i \<noteq> 0" "nf s i \<noteq> 0" "pf s i \<noteq> i"
  shows "wp (free_list_remove i s) (put_links (nx s) (in_use s) (pv s) ((nf s)(pf s i := nf s i)) ((pf s)(nf s i := pf s i)) s)"
proof -
  obtain s1 where 1: "store_item (next_free_update (\<lambda>_. nf s i)) (pf s i) s = Some s1"
    and p1: "put_links (nx s) (in_use s) (pv s) ((nf s)(pf s i := nf s i)) (pf s) s s1"
    using set_fields(4) [OF assms(2)] by (auto simp: wp_iff)
  note D1 = put_linksD [OF p1]
  have "wp (store_item (prev_free_update (\<lambda>_. pf s i)) (nf s i) s1)
      (put_links (nx s1) (in_use s1) (pv s1) (nf s1) ((pf s1)(nf s i := pf s i)) s1)"
    by (rule set_fields(5) [OF assms(3)])
  then have "wp (store_item (prev_free_update (\<lambda>_. pf s i)) (nf s i) s1)
      (put_links (nx s) (in_use s) (pv s) ((nf s)(pf s i := nf s i)) ((pf s)(nf s i := pf s i)) s)"
    by (rule wp_mono) (use p1 in \<open>auto intro: put_links_trans simp: D1(1-5)\<close>)
  then show ?thesis using assms by (simp add: free_list_remove_def 1 D1(1-5))
qed

lemma free_list_replace_ok:
  assumes "old \<noteq> 0" "i \<noteq> 0" "pf s old \<noteq> 0" "nf s old \<noteq> 0" "i \<noteq> old" "nf s old \<noteq> old"
  shows "wp (free_list_replace old i s) (put_links (nx s) (in_use s) (pv s)
    ((nf s)(i := nf s old, pf s old := i)) ((pf s)(i := pf s old, nf s old := i)) s)"
proof -
  obtain s1 where 1: "store_item (prev_free_update (\<lambda>_. pf s old)) i s = Some s1"
    and p1: "put_links (nx s) (in_use s) (pv s) (nf s) ((pf s)(i := pf s old)) s s1"
    using set_fields(5) [OF assms(2)] by (auto simp: wp_iff)
  note D1 = put_linksD [OF p1]
  obtain s2 where 2: "store_item (next_free_update (\<lambda>_. nf s old)) i s1 = Some s2"
    and p2: "put_links (nx s1) (in_use s1) (pv s1) ((nf s1)(i := nf s old)) (pf s1) s1 s2"
    using set_fields(4) [OF assms(2)] by (auto simp: wp_iff)
  note D2 = put_linksD [OF p2]
  obtain s3 where 3: "store_item (prev_free_update (\<lambda>_. i)) (nf s old) s2 = Some s3"
    and p3: "put_links (nx s2) (in_use s2) (pv s2) (nf s2) ((pf s2)(nf s old := i)) s2 s3"
    using set_fields(5) [OF assms(4)] by (auto simp: wp_iff)
  note D3 = put_linksD [OF p3]
  have "wp (store_item (next_free_update (\<lambda>_. i)) (pf s old) s3)
      (put_links (nx s3) (in_use s3) (pv s3) ((nf s3)(pf s old := i)) (pf s3) s3)"
    by (rule set_fields(4) [OF assms(3)])
  then have "wp (store_item (next_free_update (\<lambda>_. i)) (pf s old) s3) (put_links (nx s) (in_use s) (pv s)
    ((nf s)(i := nf s old, pf s old := i)) ((pf s)(i := pf s old, nf s old := i)) s)"
    by (rule wp_mono) (use p1 p2 p3 in \<open>auto intro: put_links_trans simp: D1(1-5) D2(1-5) D3(1-5)\<close>)
  then show ?thesis using assms by (simp add: free_list_replace_def 1 2 3 D1(1-5) D2(1-5) D3(1-5))
qed

end
