(* ===== verification/Nd_Memheap_Chain.thy ===== *)
theory Nd_Memheap_Chain
  imports Nd_Memheap
begin

text \<open>The two lists of a memory heap as sequences: the ring of the free blocks (\<open>free_ring\<close>) and the chain of all blocks in the
  order of their addresses (\<open>block_chain\<close>), and what insertion, removal and replacement do to them.\<close>

section \<open>Lists that are linked both ways\<close>

fun linked :: "(u32 \<Rightarrow> u32) \<Rightarrow> (u32 \<Rightarrow> u32) \<Rightarrow> u32 list \<Rightarrow> bool" where
  "linked n p (x # y # zs) \<longleftrightarrow> n x = y \<and> p y = x \<and> linked n p (y # zs)"
| "linked n p _ \<longleftrightarrow> True"

lemma linked_append: "linked n p (xs @ a # ys) \<longleftrightarrow> linked n p (xs @ [a]) \<and> linked n p (a # ys)"
  by (induction xs rule: induct_list012) (cases ys; auto)+

lemma linked_cong:
  "\<forall>x \<in> set (butlast L). n' x = n x \<Longrightarrow> \<forall>x \<in> set (tl L). p' x = p x \<Longrightarrow> linked n' p' L = linked n p L"
  by (induction L rule: induct_list012) auto

lemma linked_at: "linked n p (xs @ a # b # ys) \<Longrightarrow> n a = b \<and> p b = a"
  using linked_append [of n p xs a "b # ys"] by simp

lemma tl_snoc: "tl (xs @ [a]) = (if xs = [] then [] else tl xs @ [a])"
  by (cases xs) auto

lemma ends_distinct:
  assumes "distinct (butlast (xs @ a # b # ys))" "distinct (tl (xs @ a # b # ys))"
  shows "a \<notin> set xs" "a \<notin> set (butlast (b # ys))" "b \<notin> set ys" "b \<notin> set (tl (xs @ [a]))"
proof -
  show "a \<notin> set xs" "a \<notin> set (butlast (b # ys))" using assms(1) by (auto simp: butlast_append)
  show "b \<notin> set ys" "b \<notin> set (tl (xs @ [a]))" using assms(2) by (cases xs; auto)+
qed

lemma linked_insert:
  assumes L: "linked n p (xs @ a # b # ys)" and d: "distinct (butlast (xs @ a # b # ys))" "distinct (tl (xs @ a # b # ys))"
    and i: "i \<notin> set (xs @ a # b # ys)"
  shows "linked (n(i := b, a := i)) (p(i := a, b := i)) (xs @ a # i # b # ys)"
proof -
  note D = ends_distinct [OF d]
  have s: "linked n p (xs @ [a])" "linked n p (b # ys)"
    using L linked_append [of n p xs a "b # ys"] by auto
  have "i \<notin> set (tl (xs @ [a]))" using i by (cases xs) auto
  then have "linked (n(i := b, a := i)) (p(i := a, b := i)) (xs @ [a])"
    by (subst linked_cong [where n = n and p = p]) (use s(1) i D in auto)
  moreover have "linked (n(i := b, a := i)) (p(i := a, b := i)) (b # ys)"
    by (subst linked_cong [where n = n and p = p]) (use s(2) i D in \<open>auto simp del: butlast.simps dest: in_set_butlastD\<close>)
  moreover have "i \<noteq> a" "i \<noteq> b" using i by auto
  ultimately show ?thesis
    by (subst linked_append) (cases "a = b"; simp)
qed

lemma linked_remove:
  assumes L: "linked n p (xs @ a # i # b # ys)" and d: "distinct (butlast (xs @ a # b # ys))" "distinct (tl (xs @ a # b # ys))"
  shows "linked (n(a := b)) (p(b := a)) (xs @ a # b # ys)"
proof -
  note D = ends_distinct [OF d]
  have s: "linked n p (xs @ [a])" "linked n p (b # ys)"
    using L linked_append [of n p xs a "i # b # ys"] by auto
  have "linked (n(a := b)) (p(b := a)) (xs @ [a])"
    by (subst linked_cong [where n = n and p = p]) (use s(1) D in auto)
  moreover have "linked (n(a := b)) (p(b := a)) (b # ys)"
    by (subst linked_cong [where n = n and p = p]) (use s(2) D in \<open>auto simp del: butlast.simps\<close>)
  ultimately show ?thesis by (subst linked_append) simp
qed

lemma linked_replace:
  assumes "linked n p (xs @ a # i # b # ys)" and d: "distinct (butlast (xs @ a # b # ys))" "distinct (tl (xs @ a # b # ys))"
    and j: "j \<notin> set (xs @ a # b # ys)"
  shows "linked (n(j := b, a := j)) (p(j := a, b := j)) (xs @ a # j # b # ys)"
proof -
  have "linked (n(a := b)) (p(b := a)) (xs @ a # b # ys)" by (rule linked_remove [OF assms(1-3)])
  then have "linked ((n(a := b))(j := b, a := j)) ((p(b := a))(j := a, b := j)) (xs @ a # j # b # ys)"
    using d j by (rule linked_insert)
  then show ?thesis using j by (simp add: fun_upd_twist)
qed

text \<open>Blocks in the order of their offsets, each with room for its header; no two neighbours are free.\<close>

fun spaced :: "(u32 \<Rightarrow> nat) \<Rightarrow> nat \<Rightarrow> u32 list \<Rightarrow> bool" where
  "spaced ofs k (x # y # zs) \<longleftrightarrow> ofs x + k \<le> ofs y \<and> spaced ofs k (y # zs)"
| "spaced ofs k _ \<longleftrightarrow> True"

fun no_two_free :: "(u32 \<Rightarrow> bool) \<Rightarrow> u32 list \<Rightarrow> bool" where
  "no_two_free u (x # y # zs) \<longleftrightarrow> (u x \<or> u y) \<and> no_two_free u (y # zs)"
| "no_two_free u _ \<longleftrightarrow> True"

lemma spaced_append: "spaced ofs k (xs @ a # ys) \<longleftrightarrow> spaced ofs k (xs @ [a]) \<and> spaced ofs k (a # ys)"
  by (induction xs rule: induct_list012) (cases ys; auto)+

lemma no_two_free_append: "no_two_free u (xs @ a # ys) \<longleftrightarrow> no_two_free u (xs @ [a]) \<and> no_two_free u (a # ys)"
  by (induction xs rule: induct_list012) (cases ys; auto)+

lemma no_two_free_cong: "\<forall>x \<in> set L. u' x = u x \<Longrightarrow> no_two_free u' L = no_two_free u L"
  by (induction L rule: induct_list012) auto

lemma spaced_first: "spaced ofs k (x # xs) \<Longrightarrow> y \<in> set xs \<Longrightarrow> ofs x + k \<le> ofs y"
  by (induction xs arbitrary: x) (auto, fastforce)

lemma spaced_last: "spaced ofs k (xs @ [y]) \<Longrightarrow> x \<in> set xs \<Longrightarrow> ofs x + k \<le> ofs y"
proof -
  assume s: "spaced ofs k (xs @ [y])" and "x \<in> set xs"
  then obtain l r where "xs = l @ x # r" by (auto dest: split_list)
  with s spaced_append [of ofs k l x "r @ [y]"] show ?thesis by (auto intro: spaced_first)
qed

lemma spaced_distinct: "spaced ofs k xs \<Longrightarrow> 0 < k \<Longrightarrow> distinct xs"
proof (induction xs)
  case (Cons x xs)
  then have "spaced ofs k xs" by (cases xs) auto
  moreover have "x \<notin> set xs" using spaced_first [OF Cons.prems(1), of x] Cons.prems(2) by auto
  ultimately show ?case using Cons by simp
qed simp

text \<open>The same with the two parts of the list around the element.\<close>

lemma linked_around:
  assumes "linked n p (l @ x # r)"
  shows "l \<noteq> [] \<Longrightarrow> p x = last l \<and> n (last l) = x" "r \<noteq> [] \<Longrightarrow> n x = hd r \<and> p (hd r) = x"
proof -
  show "n x = hd r \<and> p (hd r) = x" if "r \<noteq> []"
    using that assms linked_at [of n p l x "hd r" "tl r"] by simp
  show "p x = last l \<and> n (last l) = x" if "l \<noteq> []"
    using that assms linked_at [of n p "butlast l" "last l" x r] by (cases l rule: rev_cases) auto
qed

lemma linked_unlink:
  assumes "linked n p (l @ x # r)" "l \<noteq> []" "r \<noteq> []" "distinct (butlast (l @ r))" "distinct (tl (l @ r))"
  shows "linked (n(last l := hd r)) (p(hd r := last l)) (l @ r)"
proof -
  obtain l' a where l: "l = l' @ [a]" using assms(2) by (cases l rule: rev_cases) auto
  obtain b r' where r: "r = b # r'" using assms(3) by (cases r) auto
  show ?thesis using linked_remove [of n p l' a x b r'] assms(1,4,5) by (simp add: l r)
qed

lemma linked_enter:
  assumes "linked n p (l @ r)" "l \<noteq> []" "r \<noteq> []" "distinct (butlast (l @ r))" "distinct (tl (l @ r))" "x \<notin> set (l @ r)"
  shows "linked (n(x := hd r, last l := x)) (p(x := last l, hd r := x)) (l @ x # r)"
proof -
  obtain l' a where l: "l = l' @ [a]" using assms(2) by (cases l rule: rev_cases) auto
  obtain b r' where r: "r = b # r'" using assms(3) by (cases r) auto
  show ?thesis using linked_insert [of n p l' a b r' x] assms(1,4-) by (simp add: l r)
qed

lemma linked_swap:
  assumes "linked n p (l @ x # r)" "l \<noteq> []" "r \<noteq> []" "distinct (butlast (l @ r))" "distinct (tl (l @ r))" "y \<notin> set (l @ r)"
  shows "linked (n(y := hd r, last l := y)) (p(y := last l, hd r := y)) (l @ y # r)"
proof -
  obtain l' a where l: "l = l' @ [a]" using assms(2) by (cases l rule: rev_cases) auto
  obtain b r' where r: "r = b # r'" using assms(3) by (cases r) auto
  show ?thesis using linked_replace [of n p l' a x b r' y] assms(1,4-) by (simp add: l r)
qed

section \<open>The free ring\<close>

definition free_ring :: "u32 \<Rightarrow> u32 list \<Rightarrow> memheaps \<Rightarrow> bool" where
  "free_ring heap F s \<longleftrightarrow> linked (nf s) (pf s) (heap # F @ [heap]) \<and> distinct (heap # F) \<and> 0 \<notin> set (heap # F)"

definition same_chain :: "memheaps \<Rightarrow> memheaps \<Rightarrow> bool" where
  "same_chain s s' \<longleftrightarrow> nx s' = nx s \<and> pv s' = pv s \<and> in_use s' = in_use s \<and> same_heap s s'"

lemma ring_ends: "free_ring heap (F1 @ F2) s \<Longrightarrow> distinct (butlast ((heap # F1) @ F2 @ [heap])) \<and> distinct (tl ((heap # F1) @ F2 @ [heap]))"
  by (auto simp: free_ring_def butlast_append)

lemma ring_remove:
  assumes "free_ring heap (F1 @ x # F2) s"
  shows "wp (free_list_remove x s) (\<lambda>s'. free_ring heap (F1 @ F2) s' \<and> same_chain s s' \<and> available_size s' = available_size s)"
proof -
  let ?l = "heap # F1" and ?r = "F2 @ [heap]"
  have L: "linked (nf s) (pf s) (?l @ x # ?r)" and d: "distinct (heap # F1 @ x # F2)" "0 \<notin> set (heap # F1 @ x # F2)"
    using assms by (auto simp: free_ring_def)
  note A = linked_around [OF L]
  have R: "linked ((nf s)(last ?l := hd ?r)) ((pf s)(hd ?r := last ?l)) (?l @ ?r)"
    by (rule linked_unlink [OF L]) (use d in \<open>auto simp: butlast_append\<close>)
  have "last ?l \<in> set ?l" "hd ?r \<in> set ?r" by (rule last_in_set, simp, rule hd_in_set, simp)
  then have "x \<noteq> 0" "pf s x \<noteq> 0" "nf s x \<noteq> 0" "pf s x \<noteq> x" using A d by auto
  moreover have "linked ((nf s)(pf s x := nf s x)) ((pf s)(nf s x := pf s x)) (heap # (F1 @ F2) @ [heap])"
    using R A by simp
  ultimately show ?thesis using d
    by (intro wp_mono [OF free_list_remove_ok]) (simp_all add: free_ring_def same_chain_def put_links_def)
qed

lemma ring_insert:
  assumes "free_ring heap F s" "x \<notin> set (heap # F)" "x \<noteq> 0"
  shows "wp (free_list_insert_after heap x s)
    (\<lambda>s'. free_ring heap (x # F) s' \<and> same_chain s s' \<and> available_size s' = available_size s)"
proof -
  let ?l = "[heap]" and ?r = "F @ [heap]"
  have L: "linked (nf s) (pf s) (?l @ ?r)" and d: "distinct (heap # F)" "0 \<notin> set (heap # F)"
    using assms by (auto simp: free_ring_def)
  have b: "nf s heap = hd ?r" "hd ?r \<in> set ?r" using linked_around(2) [of "nf s" "pf s" "[]" heap ?r] L hd_in_set [of ?r] by simp_all
  have R: "linked ((nf s)(x := hd ?r, last ?l := x)) ((pf s)(x := last ?l, hd ?r := x)) (?l @ x # ?r)"
    by (rule linked_enter [OF L]) (use d assms(2) in \<open>auto simp: butlast_append\<close>)
  have "heap \<noteq> 0" "x \<noteq> 0" "nf s heap \<noteq> 0" "x \<noteq> heap" using b d assms by auto
  moreover have "linked ((nf s)(x := nf s heap, heap := x)) ((pf s)(x := heap, nf s heap := x)) (heap # (x # F) @ [heap])"
    using R b by simp
  ultimately show ?thesis using d assms(2,3)
    by (intro wp_mono [OF free_list_insert_after_ok]) (simp_all add: free_ring_def same_chain_def put_links_def)
qed

lemma ring_replace:
  assumes "free_ring heap (F1 @ x # F2) s" "y \<notin> set (heap # F1 @ x # F2)" "y \<noteq> 0"
  shows "wp (free_list_replace x y s)
    (\<lambda>s'. free_ring heap (F1 @ y # F2) s' \<and> same_chain s s' \<and> available_size s' = available_size s)"
proof -
  let ?l = "heap # F1" and ?r = "F2 @ [heap]"
  have L: "linked (nf s) (pf s) (?l @ x # ?r)" and d: "distinct (heap # F1 @ x # F2)" "0 \<notin> set (heap # F1 @ x # F2)"
    using assms by (auto simp: free_ring_def)
  note A = linked_around [OF L]
  have R: "linked ((nf s)(y := hd ?r, last ?l := y)) ((pf s)(y := last ?l, hd ?r := y)) (?l @ y # ?r)"
    by (rule linked_swap [OF L]) (use d assms in \<open>auto simp: butlast_append\<close>)
  have "last ?l \<in> set ?l" "hd ?r \<in> set ?r" by (rule last_in_set, simp, rule hd_in_set, simp)
  then have "x \<noteq> 0" "y \<noteq> 0" "pf s x \<noteq> 0" "nf s x \<noteq> 0" "y \<noteq> x" "nf s x \<noteq> x" using A d assms by auto
  moreover have "linked ((nf s)(y := nf s x, pf s x := y)) ((pf s)(y := pf s x, nf s x := y)) (heap # (F1 @ y # F2) @ [heap])"
    using R A by simp
  ultimately show ?thesis using d assms(2,3)
    by (intro wp_mono [OF free_list_replace_ok]) (auto simp: free_ring_def same_chain_def put_links_def)
qed

section \<open>The chain of blocks\<close>

text \<open>
  \<open>heap_place\<close>: the pool starts at \<open>addr\<close> and is \<open>P\<close> bytes long, does not wrap around the address space and does not
  contain the \<^verbatim>\<open>nd_memheap_t\<close> at \<open>heap\<close>; \<open>k\<close> is the size of a header.
\<close>

definition offset :: "u32 \<Rightarrow> u32 \<Rightarrow> nat" where
  "offset addr x = unat (x - addr)"

abbreviation hdr :: "memheaps \<Rightarrow> nat" where
  "hdr s \<equiv> unat (item_size s)"

definition heap_place :: "u32 \<Rightarrow> u32 \<Rightarrow> nat \<Rightarrow> nat \<Rightarrow> bool" where
  "heap_place heap addr P k \<longleftrightarrow> heap \<noteq> 0 \<and> addr \<noteq> 0 \<and> even heap \<and> even addr \<and> unat addr + P \<le> 2 ^ 32 \<and>
     P \<le> offset addr heap \<and> offset addr heap + 2 * k \<le> 2 ^ 32 \<and> unat heap + 2 * k \<le> 2 ^ 32"

definition laid_out :: "nat \<Rightarrow> u32 \<Rightarrow> nat \<Rightarrow> u32 list \<Rightarrow> bool" where
  "laid_out k addr P xs \<longleftrightarrow> xs \<noteq> [] \<and> hd xs = addr \<and> spaced (offset addr) k xs \<and>
     (\<forall>x \<in> set xs. offset addr x + k \<le> P \<and> even x)"

definition owned :: "u32 \<Rightarrow> u32 \<Rightarrow> memheaps \<Rightarrow> bool" where
  "owned heap x s \<longleftrightarrow> item_pool (items s x) = heap \<and> (debug s \<longrightarrow> magic (items s x) = ND_MEMHEAP_MAGIC)"

definition block_chain :: "u32 \<Rightarrow> u32 \<Rightarrow> u32 list \<Rightarrow> memheaps \<Rightarrow> bool" where
  "block_chain heap addr xs s \<longleftrightarrow> heap_place heap addr (unat (pool_size s heap)) (hdr s) \<and>
     laid_out (hdr s) addr (unat (pool_size s heap)) xs \<and>
     linked (nx s) (pv s) (heap # xs @ [end_item heap s]) \<and> (\<forall>x \<in> set xs. owned heap x s)"

definition same_ring :: "memheaps \<Rightarrow> memheaps \<Rightarrow> bool" where
  "same_ring s s' \<longleftrightarrow> nf s' = nf s \<and> pf s' = pf s \<and> same_heap s s' \<and> available_size s' = available_size s"

lemma hdr_simps: "hdr s = (if debug s then 24 else 20)" "0 < hdr s" "even (item_size s)" "hdr s \<le> 24"
  by (simp_all add: item_size_def)

lemma offset_self [simp]: "offset a a = 0"
  by (simp add: offset_def)

lemma offset_inj: "offset a x = offset a y \<longleftrightarrow> x = y"
  by (simp add: offset_def flip: word_unat_eq_iff)

lemma unat_plus: "unat a + unat b < 2 ^ 32 \<Longrightarrow> unat (a + b :: u32) = unat a + unat b"
  by (simp add: unat_word_ariths)

lemma offset_add: "offset a x + unat n < 2 ^ 32 \<Longrightarrow> offset a (x + n) = offset a x + unat n"
  using unat_plus [of "x - a" n] by (simp add: offset_def algebra_simps)

lemma offset_end:
  assumes "heap_place heap addr P (hdr s)"
  shows "offset addr (end_item heap s) = offset addr heap + hdr s" "end_item heap s \<noteq> 0" "even (end_item heap s)"
proof -
  show "offset addr (end_item heap s) = offset addr heap + hdr s"
    using assms hdr_simps(2) [of s] unfolding heap_place_def end_item_def by (intro offset_add) linarith
  have "unat (heap + item_size s) = unat heap + hdr s"
    using assms hdr_simps(2) [of s] unfolding heap_place_def by (intro unat_plus) linarith
  then show "end_item heap s \<noteq> 0" unfolding end_item_def using hdr_simps(2) [of s] by fastforce
  show "even (end_item heap s)" using assms hdr_simps(3) [of s] by (simp add: end_item_def heap_place_def)
qed

lemma block_nonzero:
  assumes "heap_place heap addr P k" "offset addr x + k \<le> P" "0 < k"
  shows "x \<noteq> 0"
proof
  assume "x = 0"
  then have "unat (- addr) + unat addr < 2 ^ 32" using assms by (simp add: offset_def heap_place_def)
  from unat_plus [OF this] have "unat addr = 0" by simp
  with assms(1) show False by (simp add: heap_place_def unat_eq_0)
qed

lemma chain_blocks:
  assumes "block_chain heap addr xs s"
  shows "distinct (heap # xs @ [end_item heap s])" "\<forall>x \<in> set (heap # xs @ [end_item heap s]). x \<noteq> 0 \<and> even x"
proof -
  let ?k = "hdr s" and ?P = "unat (pool_size s heap)" and ?o = "offset addr"
  have pl: "heap_place heap addr ?P ?k" and lo: "laid_out ?k addr ?P xs" using assms by (simp_all add: block_chain_def)
  note E = offset_end [OF pl] and k = hdr_simps(2) [of s]
  have b: "?o x < ?o heap" if "x \<in> set xs" for x
    using lo pl k that by (auto simp: laid_out_def heap_place_def)
  then have "heap \<notin> set xs" "end_item heap s \<notin> set xs" using E(1) by fastforce+
  moreover have "heap \<noteq> end_item heap s" using E(1) k by fastforce
  moreover have "distinct xs" using lo k by (auto simp: laid_out_def intro: spaced_distinct)
  ultimately show "distinct (heap # xs @ [end_item heap s])" by auto
  have "\<forall>x \<in> set xs. x \<noteq> 0 \<and> even x"
    using block_nonzero [OF pl _ k] lo unfolding laid_out_def by blast
  then show "\<forall>x \<in> set (heap # xs @ [end_item heap s]). x \<noteq> 0 \<and> even x"
    using E(2,3) pl by (simp add: heap_place_def)
qed

lemma spaced_drop: "spaced ofs k (ls @ p # x # rs) \<Longrightarrow> spaced ofs k (ls @ p # rs)"
proof -
  assume "spaced ofs k (ls @ p # x # rs)"
  then have "spaced ofs k (ls @ [p])" "spaced ofs k (p # x # rs)" using spaced_append by blast+
  moreover then have "spaced ofs k (p # rs)" by (cases rs) auto
  ultimately show ?thesis using spaced_append by blast
qed

lemma spaced_put:
  assumes "spaced ofs k (ls @ a # rs)" "ofs a + k \<le> ofs i" "rs \<noteq> [] \<Longrightarrow> ofs i + k \<le> ofs (hd rs)"
  shows "spaced ofs k (ls @ a # i # rs)"
proof -
  have "spaced ofs k (ls @ [a])" "spaced ofs k (a # rs)" using assms(1) spaced_append by blast+
  moreover then have "spaced ofs k (a # i # rs)" using assms(2,3) by (cases rs) auto
  ultimately show ?thesis using spaced_append by blast
qed

lemma laid_out_drop: "laid_out k addr P (ls @ p # x # rs) \<Longrightarrow> laid_out k addr P (ls @ p # rs)"
  using spaced_drop [of "offset addr" k ls p x rs] by (auto simp: laid_out_def hd_append)

lemma laid_out_put:
  "laid_out k addr P (ls @ a # rs) \<Longrightarrow> offset addr a + k \<le> offset addr i \<Longrightarrow>
    (rs \<noteq> [] \<Longrightarrow> offset addr i + k \<le> offset addr (hd rs)) \<Longrightarrow> offset addr i + k \<le> P \<Longrightarrow> even i \<Longrightarrow>
    laid_out k addr P (ls @ a # i # rs)"
  using spaced_put [of "offset addr" k ls a rs i] by (auto simp: laid_out_def hd_append)

lemma chain_links:
  assumes "block_chain heap addr (ls @ x # rs) s"
  shows "nx s x = hd (rs @ [end_item heap s])" "pv s x = last (heap # ls)" "nx s (last (heap # ls)) = x"
    "pv s (hd (rs @ [end_item heap s])) = x"
proof -
  have "linked (nx s) (pv s) ((heap # ls) @ x # rs @ [end_item heap s])" using assms by (simp add: block_chain_def)
  from linked_around [OF this] show "nx s x = hd (rs @ [end_item heap s])" "pv s x = last (heap # ls)"
    "nx s (last (heap # ls)) = x" "pv s (hd (rs @ [end_item heap s])) = x" by simp_all
qed

lemma same_heapD:
  assumes "same_heap s s'"
  shows "item_size s' = item_size s" "end_item heap s' = end_item heap s" "pool_size s' = pool_size s"
    "owned heap x s' = owned heap x s" "bytes s' = bytes s" "start_addr s' = start_addr s" "debug s' = debug s"
  using assms by (simp_all add: same_heap_def item_size_def end_item_def owned_def)

lemma chain_same:
  assumes "same_heap s s'"
  shows "block_chain heap addr xs s' \<longleftrightarrow> heap_place heap addr (unat (pool_size s heap)) (hdr s) \<and>
     laid_out (hdr s) addr (unat (pool_size s heap)) xs \<and>
     linked (nx s') (pv s') (heap # xs @ [end_item heap s]) \<and> (\<forall>x \<in> set xs. owned heap x s)"
  by (simp add: block_chain_def same_heapD [OF assms])

lemma chain_remove:
  assumes "block_chain heap addr (ls @ p # x # rs) s"
  shows "wp (phys_list_remove x s) (\<lambda>s'. block_chain heap addr (ls @ p # rs) s' \<and> same_ring s s' \<and>
    in_use s' = in_use s \<and> nx s' = (nx s)(p := nx s x) \<and> pv s' x = p)"
proof -
  let ?l = "heap # ls @ [p]" and ?r = "rs @ [end_item heap s]"
  have L: "linked (nx s) (pv s) (?l @ x # ?r)" and d: "distinct (?l @ x # ?r)" and z: "\<forall>y \<in> set (?l @ x # ?r). y \<noteq> 0"
    using assms chain_blocks [OF assms] by (auto simp: block_chain_def)
  note A = linked_around [OF L]
  have R: "linked ((nx s)(last ?l := hd ?r)) ((pv s)(hd ?r := last ?l)) (?l @ ?r)"
    by (rule linked_unlink [OF L]) (use d in \<open>auto simp: butlast_append\<close>)
  have "hd ?r \<in> set ?r" by (rule hd_in_set) simp
  then have "x \<noteq> 0" "pv s x \<noteq> 0" "nx s x \<noteq> 0" "pv s x \<noteq> x" "nx s x \<noteq> x" using A d z by auto
  moreover have "linked ((nx s)(pv s x := nx s x)) ((pv s)(nx s x := pv s x)) (heap # (ls @ p # rs) @ [end_item heap s])"
    using R A by simp
  moreover have "laid_out (hdr s) addr (unat (pool_size s heap)) (ls @ p # rs)"
    using assms unfolding block_chain_def by (blast intro: laid_out_drop)
  moreover have "pv s x = p" using A by simp
  ultimately show ?thesis using assms [unfolded block_chain_def]
    by (intro wp_mono [OF phys_list_remove_ok]) (simp_all add: chain_same [of s] same_ring_def put_links_def)
qed

lemma chain_insert:
  assumes ch: "block_chain heap addr (ls @ a # rs) s" and i: "offset addr a + hdr s \<le> offset addr i"
    "rs \<noteq> [] \<Longrightarrow> offset addr i + hdr s \<le> offset addr (hd rs)" "offset addr i + hdr s \<le> unat (pool_size s heap)"
    "even i" "owned heap i s"
  shows "wp (phys_list_insert_after a i s) (\<lambda>s'. block_chain heap addr (ls @ a # i # rs) s' \<and> same_ring s s' \<and>
    in_use s' = (in_use s)(i := False) \<and> nx s' = (nx s)(i := nx s a, a := i))"
proof -
  let ?l = "heap # ls @ [a]" and ?r = "rs @ [end_item heap s]" and ?P = "unat (pool_size s heap)"
  have L: "linked (nx s) (pv s) (?l @ ?r)" and d: "distinct (?l @ ?r)" and z: "\<forall>y \<in> set (?l @ ?r). y \<noteq> 0"
    using ch chain_blocks [OF ch] by (auto simp: block_chain_def)
  have pl: "heap_place heap addr ?P (hdr s)" and lo: "laid_out (hdr s) addr ?P (ls @ a # rs)" using ch by (simp_all add: block_chain_def)
  have sp: "spaced (offset addr) (hdr s) (ls @ a # i # rs)"
    using laid_out_put [OF lo i(1-4)] by (simp add: laid_out_def)
  have "offset addr i < offset addr heap" using i(3) pl hdr_simps(2) [of s] by (simp add: heap_place_def)
  then have "i \<noteq> heap" "i \<noteq> end_item heap s" using offset_end [OF pl] by fastforce+
  moreover have "distinct (ls @ a # i # rs)" by (rule spaced_distinct [OF sp hdr_simps(2)])
  ultimately have new: "i \<notin> set (?l @ ?r)" by auto
  have b: "nx s a = hd ?r" "hd ?r \<in> set ?r" using chain_links(1) [OF ch] hd_in_set [of ?r] by simp_all
  have R: "linked ((nx s)(i := hd ?r, last ?l := i)) ((pv s)(i := last ?l, hd ?r := i)) (?l @ i # ?r)"
    by (rule linked_enter [OF L]) (use d new in \<open>auto simp: butlast_append\<close>)
  have "i \<noteq> 0" by (rule block_nonzero [OF pl i(3) hdr_simps(2)])
  moreover have "a \<noteq> 0" "nx s a \<noteq> 0" "i \<noteq> a" "i \<noteq> nx s a" using b z new by auto
  moreover have "linked ((nx s)(i := nx s a, a := i)) ((pv s)(i := a, nx s a := i)) (heap # (ls @ a # i # rs) @ [end_item heap s])"
    using R b by simp
  moreover have "laid_out (hdr s) addr ?P (ls @ a # i # rs)"
    by (rule laid_out_put [OF lo i(1-4)])
  moreover have "\<not> bit i 0" using i(4) by (simp add: bit_0)
  ultimately show ?thesis using ch [unfolded block_chain_def] i(5)
    by (intro wp_mono [OF phys_list_insert_after_ok]) (simp_all add: chain_same [of s] same_ring_def put_links_def)
qed

end
