(* ===== verification/Nd_Memheap_Inv.thy ===== *)
theory Nd_Memheap_Inv
  imports Nd_Memheap_Chain
begin

text \<open>The invariant of a memory heap (\<open>heap_ok\<close>), with the blocks the program has as a map from addresses to sizes; freeing
  and allocating keep it.\<close>

section \<open>Merging a block with its free neighbours\<close>

text \<open>The heap as a whole; \<open>u\<close> are the blocks that are not in the free ring.\<close>

definition heap_shape :: "u32 \<Rightarrow> u32 \<Rightarrow> u32 list \<Rightarrow> u32 list \<Rightarrow> (u32 \<Rightarrow> bool) \<Rightarrow> memheaps \<Rightarrow> bool" where
  "heap_shape heap addr xs F u s \<longleftrightarrow> block_chain heap addr xs s \<and> free_ring heap F s \<and> set F = {x \<in> set xs. \<not> u x} \<and>
     no_two_free u xs \<and> u heap \<and> u (end_item heap s)"

definition agree :: "u32 \<Rightarrow> u32 list \<Rightarrow> u32 \<Rightarrow> (u32 \<Rightarrow> bool) \<Rightarrow> memheaps \<Rightarrow> bool" where
  "agree heap xs item u s \<longleftrightarrow> (\<forall>x \<in> set (heap # xs @ [end_item heap s]). x \<noteq> item \<longrightarrow> in_use s x = u x)"

lemma add_available_simps [simp]:
  "nx (add_available h n s) = nx s" "pv (add_available h n s) = pv s" "nf (add_available h n s) = nf s"
  "pf (add_available h n s) = pf s" "in_use (add_available h n s) = in_use s" "same_heap s0 (add_available h n s) = same_heap s0 s"
  "same_heap (add_available h n s) s0 = same_heap s s0"
  "block_chain heap addr xs (add_available h n s) = block_chain heap addr xs s" "free_ring heap F (add_available h n s) = free_ring heap F s"
  "item_size (add_available h n s) = item_size s" "end_item heap (add_available h n s) = end_item heap s"
  "heap_shape heap addr xs F u (add_available h n s) = heap_shape heap addr xs F u s"
  "agree heap xs i u (add_available h n s) = agree heap xs i u s"
  "available_size (add_available h n s) h = available_size s h + n"
  by (simp_all add: add_available_def fields same_heap_def block_chain_def free_ring_def item_size_def end_item_def owned_def heap_shape_def agree_def)

lemma shape_addrs: "heap_shape heap addr xs F u s \<Longrightarrow> x \<in> set (heap # xs @ [end_item heap s]) \<Longrightarrow> x \<noteq> 0"
  using chain_blocks(2) unfolding heap_shape_def by blast

lemma no_two_free_drop:
  assumes "no_two_free u (ls @ p # x # rs)" "u p \<or> rs = [] \<or> u (hd rs)"
  shows "no_two_free u (ls @ p # rs)"
proof -
  have "no_two_free u (ls @ [p])" "no_two_free u (p # x # rs)" using assms(1) no_two_free_append by blast+
  moreover then have "no_two_free u (p # rs)" using assms(2) by (cases rs) auto
  ultimately show ?thesis using no_two_free_append by blast
qed

definition absorb_next :: "u32 \<Rightarrow> u32 \<Rightarrow> memheaps \<Rightarrow> memheaps option" where
  "absorb_next heap item s = do {
     nxt \<leftarrow> item_next item s;
     free \<leftarrow> ITEM_IS_FREE nxt s;
     (if free then do {
          s \<leftarrow> free_list_remove nxt s;
          s \<leftarrow> phys_list_remove nxt s;
          Some (add_available heap (item_size s) s)
        } else Some s)
   }"

lemma absorb_next_ok:
  assumes sh: "heap_shape heap addr (ls @ item # rs) F u s" and u: "u item" and ag: "agree heap (ls @ item # rs) item u s"
  shows "wp (absorb_next heap item s) (\<lambda>s'. \<exists>rs' F'. heap_shape heap addr (ls @ item # rs') F' u s' \<and>
    (rs' = [] \<or> u (hd rs')) \<and> filter u rs' = filter u rs \<and> (rs' \<noteq> [] \<longrightarrow> last rs' = last rs) \<and> set rs' \<subseteq> set rs \<and>
    in_use s' = in_use s \<and> (\<forall>x. x \<noteq> item \<longrightarrow> nx s' x = nx s x) \<and> same_heap s s' \<and>
    available_size s' heap + of_nat (length rs') * item_size s = available_size s heap + of_nat (length rs) * item_size s)"
proof -
  let ?n = "hd (rs @ [end_item heap s])"
  have ch: "block_chain heap addr (ls @ item # rs) s" and rg: "free_ring heap F s" using sh by (simp_all add: heap_shape_def)
  have n: "nx s item = ?n" by (rule chain_links(1) [OF ch])
  have nin: "?n \<in> set (rs @ [end_item heap s])" by (rule hd_in_set) simp
  then have n0: "?n \<noteq> 0" "item \<noteq> 0" "?n \<noteq> item" using shape_addrs [OF sh] chain_blocks(1) [OF ch] by auto
  have iu: "in_use s ?n = u ?n" using ag nin n0 by (auto simp: agree_def)
  show ?thesis
  proof (cases "u ?n")
    case True
    then have "rs = [] \<or> u (hd rs)" by (cases rs) auto
    moreover have "absorb_next heap item s = Some s" using True n n0 iu by (simp add: absorb_next_def)
    ultimately show ?thesis using sh by simp (rule exI [of _ rs], blast)
  next
    case False
    then obtain n rs' where rs: "rs = n # rs'" using sh by (cases rs) (auto simp: heap_shape_def)
    with False have un: "\<not> u n" by simp
    have "n \<in> set F" using un rs sh by (simp add: heap_shape_def)
    then obtain F1 F2 where F: "F = F1 @ n # F2" by (auto dest: split_list)
    obtain s1 where s1: "free_list_remove n s = Some s1" and r1: "free_ring heap (F1 @ F2) s1" "same_chain s s1"
      "available_size s1 = available_size s" by (rule wpE [OF ring_remove [OF rg [unfolded F]]]) blast
    have c1: "block_chain heap addr (ls @ item # n # rs') s1" using ch r1 
      by (simp add: rs chain_same [of s s1] same_chain_def) (simp add: block_chain_def)
    obtain s2 where s2: "phys_list_remove n s1 = Some s2" and r2: "block_chain heap addr (ls @ item # rs') s2" "same_ring s1 s2"
      "in_use s2 = in_use s1" "nx s2 = (nx s1)(item := nx s1 n)" 
      by (rule wpE [OF chain_remove [OF c1]]) blast
    have "free_ring heap (F1 @ F2) s2" using r1(1) r2(2) by (simp add: free_ring_def same_ring_def)
    moreover have "set (F1 @ F2) = {x \<in> set (ls @ item # rs'). \<not> u x}"
      using sh rg chain_blocks(1) [OF ch] by (auto simp: heap_shape_def rs F free_ring_def)
    moreover have nf: "no_two_free u (ls @ item # n # rs')" using sh by (simp add: heap_shape_def rs)
    have "no_two_free u (ls @ item # rs')" by (rule no_two_free_drop [OF nf]) (simp add: u)
    moreover have "rs' = [] \<or> u (hd rs')"
      using nf un no_two_free_append [of u "ls @ [item]" n rs'] by (cases rs') auto
    moreover have "same_heap s s2" using r1 r2 by (auto simp: same_chain_def same_ring_def intro: same_heap_trans)
    ultimately have "heap_shape heap addr (ls @ item # rs') (F1 @ F2) u s2" "rs' = [] \<or> u (hd rs')" and hp: "same_heap s s2"
      using r2(1) sh by (simp_all add: heap_shape_def same_heapD(2) [of s s2])
    moreover have "absorb_next heap item s = Some (add_available heap (item_size s2) s2)"
      using n n0 iu s1 s2 un by (simp add: absorb_next_def rs)
    moreover have "in_use s2 = in_use s" "\<forall>x. x \<noteq> item \<longrightarrow> nx s2 x = nx s x" "available_size s2 heap = available_size s heap"
      using r1 r2 by (simp_all add: same_chain_def same_ring_def)
    ultimately show ?thesis using un same_heapD(1) [OF hp]
      by simp (rule exI [of _ rs'], auto simp: rs algebra_simps)
  qed
qed

lemma shape_cong:
  assumes "heap_shape heap addr xs F u s" "\<forall>x \<in> set (heap # xs @ [end_item heap s]). u' x = u x"
  shows "heap_shape heap addr xs F u' s"
proof -
  have "no_two_free u' xs = no_two_free u xs" by (rule no_two_free_cong) (use assms(2) in simp)
  moreover have "{x \<in> set xs. \<not> u' x} = {x \<in> set xs. \<not> u x}" using assms(2) by auto
  ultimately show ?thesis using assms by (simp add: heap_shape_def)
qed

text \<open>Setting the flag of a block to what it should be.\<close>

definition flagged :: "u32 \<Rightarrow> u32 \<Rightarrow> u32 list \<Rightarrow> u32 list \<Rightarrow> (u32 \<Rightarrow> bool) \<Rightarrow> memheaps \<Rightarrow> memheaps \<Rightarrow> bool" where
  "flagged heap addr xs F u s s' \<longleftrightarrow> heap_shape heap addr xs F (in_use s') s' \<and> (\<forall>x \<in> set xs. in_use s' x = u x) \<and>
     nx s' = nx s \<and> same_heap s s' \<and> available_size s' = available_size s"

lemma flag_ok:
  assumes sh: "heap_shape heap addr xs F u s" and ag: "agree heap xs item u s" and i: "item \<in> set xs"
  shows "\<not> u item \<Longrightarrow> wp (ITEM_SET_FREE item s) (flagged heap addr xs F u s)"
    "u item \<Longrightarrow> wp (ITEM_SET_USED item s) (flagged heap addr xs F u s)"
proof -
  have i0: "item \<noteq> 0" using shape_addrs [OF sh] i by simp
  have fin: "flagged heap addr xs F u s s'"
    if "put_links (nx s) ((in_use s)(item := u item)) (pv s) (nf s) (pf s) s s'" for s'
  proof -
    have iu: "\<forall>x \<in> set (heap # xs @ [end_item heap s]). in_use s' x = u x" and hp: "same_heap s s'"
      using ag that by (auto simp: put_links_def agree_def)
    have "block_chain heap addr xs s'" using sh that unfolding chain_same [OF hp] by (simp add: heap_shape_def block_chain_def put_links_def)
    moreover have "free_ring heap F s" using sh by (simp add: heap_shape_def)
    then have "free_ring heap F s'" using that by (simp add: free_ring_def put_links_def)
    ultimately have "heap_shape heap addr xs F u s'"
      using sh by (simp add: heap_shape_def same_heapD(2) [OF hp])
    then have "heap_shape heap addr xs F (in_use s') s'"
      by (rule shape_cong) (use iu in \<open>simp add: same_heapD(2) [OF hp]\<close>)
    then show ?thesis using iu that by (simp add: flagged_def put_links_def)
  qed
  show "wp (ITEM_SET_FREE item s) (flagged heap addr xs F u s)" if "\<not> u item"
    by (rule wp_mono [OF set_fields(7) [OF i0]]) (use that fin in simp)
  show "wp (ITEM_SET_USED item s) (flagged heap addr xs F u s)" if "u item"
    by (rule wp_mono [OF set_fields(6) [OF i0]]) (use that fin in simp)
qed

lemma no_two_free_release:
  assumes "no_two_free u (ls @ x # rs)" "ls = [] \<or> u (last ls)" "rs = [] \<or> u (hd rs)" "x \<notin> set ls" "x \<notin> set rs"
  shows "no_two_free (u(x := False)) (ls @ x # rs)"
proof -
  have *: "no_two_free u (ls @ [x])" "no_two_free u (x # rs)" using assms(1) no_two_free_append by blast+
  have "no_two_free (u(x := False)) rs" using *(2) assms(5)
    by (subst no_two_free_cong [where u = u]) (auto, cases rs, auto)
  then have "no_two_free (u(x := False)) (x # rs)" using assms(3,5) by (cases rs) auto
  moreover have "no_two_free (u(x := False)) (ls @ [x])"
  proof (cases ls rule: rev_cases)
    case (snoc l y)
    have "no_two_free (u(x := False)) (l @ [y])" using *(1) assms(4) snoc no_two_free_append [of u l y "[x]"]
      by (subst no_two_free_cong [where u = u]) auto
    with snoc show ?thesis using assms(2,4) no_two_free_append [of "u(x := False)" l y "[x]"] by auto
  qed simp
  ultimately show ?thesis using no_two_free_append by blast
qed

definition absorb_prev :: "u32 \<Rightarrow> u32 \<Rightarrow> memheaps \<Rightarrow> memheaps option" where
  "absorb_prev heap item s = do {
     p \<leftarrow> item_prev item s;
     free \<leftarrow> ITEM_IS_FREE p s;
     (item, s) \<leftarrow> (if free then do {
          s \<leftarrow> phys_list_remove item s;
          let s = add_available heap (item_size s) s;
          p \<leftarrow> item_prev item s;
          Some (p, s)
        } else do {
          s \<leftarrow> free_list_insert_after (start_item heap) item s;
          Some (item, s)
        });
     ITEM_SET_FREE item s
   }"

lemma memheap_coalesce_steps:
  "memheap_coalesce heap item s = do {
     d \<leftarrow> item_data_size item s;
     s \<leftarrow> absorb_next heap item (add_available heap d s);
     absorb_prev heap item s
   }"
  by (simp add: memheap_coalesce_def absorb_next_def absorb_prev_def Let_def)

text \<open>\<open>released\<close>: the block \<open>item\<close> between \<open>ls\<close> and \<open>rs\<close> has become free, the others in use are what they were.\<close>

definition released :: "u32 \<Rightarrow> u32 \<Rightarrow> u32 list \<Rightarrow> u32 list \<Rightarrow> (u32 \<Rightarrow> bool) \<Rightarrow> memheaps \<Rightarrow> memheaps \<Rightarrow> bool" where
  "released heap addr ls rs u s s' \<longleftrightarrow> (\<exists>xs F. heap_shape heap addr xs F (in_use s') s' \<and>
     filter (in_use s') xs = filter u (ls @ rs) \<and> (rs = [] \<or> \<not> u (last rs) \<longrightarrow> \<not> in_use s' (last xs)) \<and>
     (\<forall>x \<in> set (ls @ rs). u x \<longrightarrow> nx s' x = nx s x) \<and> same_heap s s' \<and>
     available_size s' heap + of_nat (length xs) * item_size s =
       available_size s heap + of_nat (length (ls @ rs) + 1) * item_size s)"

lemma absorb_prev_merge:
  assumes sh: "heap_shape heap addr (ls @ p # item # rs) F u s" and u: "u item" "\<not> u p" "rs = [] \<or> u (hd rs)"
    and ag: "agree heap (ls @ p # item # rs) item u s"
  shows "wp (absorb_prev heap item s) (released heap addr (ls @ [p]) rs u s)"
proof -
  have ch: "block_chain heap addr (ls @ p # item # rs) s" and rg: "free_ring heap F s"
    and F: "set F = {x \<in> set (ls @ p # item # rs). \<not> u x}" using sh by (simp_all add: heap_shape_def)
  have d: "distinct (heap # ls @ p # item # rs @ [end_item heap s])" "p \<noteq> 0" "item \<noteq> 0"
    using chain_blocks [OF ch] by auto
  have pv: "pv s item = p" using chain_links(2) [of heap addr "ls @ [p]" item rs s] ch by simp
  have free: "\<not> in_use s p" using ag u d by (simp add: agree_def)
  obtain s1 where s1: "phys_list_remove item s = Some s1" and r1: "block_chain heap addr (ls @ p # rs) s1" "same_ring s s1"
    "in_use s1 = in_use s" "nx s1 = (nx s)(p := nx s item)" "pv s1 item = p"
    by (rule wpE [OF chain_remove [OF ch]]) blast
  have hp: "same_heap s s1" using r1(2) by (simp add: same_ring_def)
  have "free_ring heap F s1" using rg r1(2) by (simp add: free_ring_def same_ring_def)
  moreover have "no_two_free u (ls @ p # rs)"
    by (rule no_two_free_drop) (use sh u in \<open>auto simp: heap_shape_def\<close>)
  moreover have "set F = {x \<in> set (ls @ p # rs). \<not> u x}" using F u by auto
  ultimately have sh1: "heap_shape heap addr (ls @ p # rs) F u s1"
    using r1(1) sh by (simp add: heap_shape_def same_heapD(2) [OF hp])
  let ?s = "add_available heap (item_size s1) s1"
  have "agree heap (ls @ p # rs) p u s1" using ag d r1(3) by (auto simp: agree_def same_heapD(2) [OF hp])
  then have w: "wp (ITEM_SET_FREE p ?s) (flagged heap addr (ls @ p # rs) F u ?s)"
    using sh1 u by (intro flag_ok) simp_all
  have "absorb_prev heap item s = ITEM_SET_FREE p ?s"
    using d pv free s1 r1(5) read_fields(2) [of item ?s] by (simp add: absorb_prev_def Let_def del: read_fields) (simp add: read_fields)
  moreover have "released heap addr (ls @ [p]) rs u s s'" if f: "flagged heap addr (ls @ p # rs) F u ?s s'" for s'
  proof -
    have "filter (in_use s') (ls @ p # rs) = filter u (ls @ p # rs)"
      by (rule filter_cong) (use f in \<open>auto simp: flagged_def\<close>)
    moreover have "rs = [] \<or> \<not> u (last rs) \<longrightarrow> \<not> in_use s' (last (ls @ p # rs))"
      using f u by (auto simp: flagged_def)
    moreover have "same_heap s s'" "\<forall>x \<in> set ((ls @ [p]) @ rs). u x \<longrightarrow> nx s' x = nx s x"
      using f hp r1(4) u by (auto simp: flagged_def intro: same_heap_trans)
    ultimately show ?thesis
      using f r1(2) u unfolding released_def flagged_def
      by (intro exI [of _ "ls @ p # rs"] exI [of _ F])
        (simp add: same_ring_def same_heapD(1) [OF hp] algebra_simps)
  qed
  ultimately show ?thesis using wp_mono [OF w] by simp
qed

lemma absorb_prev_keep:
  assumes sh: "heap_shape heap addr (ls @ item # rs) F u s" and u: "u item" "ls = [] \<or> u (last ls)" "rs = [] \<or> u (hd rs)"
    and ag: "agree heap (ls @ item # rs) item u s"
  shows "wp (absorb_prev heap item s) (released heap addr ls rs u s)"
proof -
  let ?u = "u(item := False)" and ?p = "last (heap # ls)"
  have ch: "block_chain heap addr (ls @ item # rs) s" and rg: "free_ring heap F s"
    and F: "set F = {x \<in> set (ls @ item # rs). \<not> u x}" using sh by (simp_all add: heap_shape_def)
  have d: "distinct (heap # ls @ item # rs @ [end_item heap s])" "item \<noteq> 0" using chain_blocks [OF ch] by auto
  have "?p \<in> set (heap # ls)" by (rule last_in_set) simp
  then have p: "?p \<noteq> item" "?p \<in> set (heap # (ls @ item # rs) @ [end_item heap s])" using d(1) by (auto split del: if_split)
  moreover have "?p \<noteq> 0" by (rule shape_addrs [OF sh p(2)])
  moreover have "in_use s ?p = u ?p" using ag p unfolding agree_def by blast
  moreover have "u ?p" using u(2) sh unfolding heap_shape_def by (cases ls) auto
  moreover have "pv s item = ?p" using chain_links(2) [OF ch] .
  ultimately have e: "absorb_prev heap item s = do { s \<leftarrow> free_list_insert_after heap item s; ITEM_SET_FREE item s }"
    using d by (simp add: absorb_prev_def)
  have "item \<notin> set (heap # F)" using F u d by auto
  then obtain s1 where s1: "free_list_insert_after heap item s = Some s1" and r1: "free_ring heap (item # F) s1" "same_chain s s1"
      "available_size s1 = available_size s" by (rule wpE [OF ring_insert [OF rg _ d(2)]]) blast
  have hp: "same_heap s s1" using r1(2) by (simp add: same_chain_def)
  have "block_chain heap addr (ls @ item # rs) s1" unfolding chain_same [OF hp] using ch r1(2) by (simp add: block_chain_def same_chain_def)
  moreover have "no_two_free ?u (ls @ item # rs)"
    by (rule no_two_free_release) (use sh u d in \<open>auto simp: heap_shape_def\<close>)
  moreover have "set (item # F) = {x \<in> set (ls @ item # rs). \<not> ?u x}" using F d by auto
  ultimately have sh1: "heap_shape heap addr (ls @ item # rs) (item # F) ?u s1"
    using r1(1) sh d by (simp add: heap_shape_def same_heapD(2) [OF hp]) auto
  have "agree heap (ls @ item # rs) item ?u s1"
    using ag r1(2) by (auto simp: agree_def same_chain_def same_heapD(2) [OF hp])
  then have w: "wp (ITEM_SET_FREE item s1) (flagged heap addr (ls @ item # rs) (item # F) ?u s1)"
    using sh1 by (intro flag_ok) simp_all
  have rel: "released heap addr ls rs u s s'" if f: "flagged heap addr (ls @ item # rs) (item # F) ?u s1 s'" for s'
  proof -
    have iu: "\<forall>x \<in> set (ls @ item # rs). in_use s' x = ?u x" using f unfolding flagged_def by blast
    have "filter (in_use s') (ls @ item # rs) = filter ?u (ls @ item # rs)"
      by (rule filter_cong [OF refl]) (rule iu [rule_format])
    also have "\<dots> = filter u (ls @ rs)"
    proof -
      have "filter ?u ls = filter u ls" "filter ?u rs = filter u rs" by (rule filter_cong; use d in auto)+
      then show ?thesis by simp
    qed
    finally have "filter (in_use s') (ls @ item # rs) = filter u (ls @ rs)" .
    moreover have "rs = [] \<or> \<not> u (last rs) \<longrightarrow> \<not> in_use s' (last (ls @ item # rs))"
      using bspec [OF iu, of "last (ls @ item # rs)"] by (cases rs rule: rev_cases) auto
    moreover have "same_heap s s'" "\<forall>x \<in> set (ls @ rs). u x \<longrightarrow> nx s' x = nx s x"
      using f hp r1(2) by (auto simp: flagged_def same_chain_def intro: same_heap_trans)
    ultimately show ?thesis
      using f r1(3) unfolding released_def flagged_def
      by (intro exI [of _ "ls @ item # rs"] exI [of _ "item # F"])
        (simp add: same_heapD(1) [OF hp] algebra_simps)
  qed
  show ?thesis unfolding e s1 bind.bind_lunit by (rule wp_mono [OF w]) (rule rel)
qed

lemma absorb_prev_ok:
  assumes sh: "heap_shape heap addr (ls @ item # rs) F u s" and u: "u item" "rs = [] \<or> u (hd rs)"
    and ag: "agree heap (ls @ item # rs) item u s"
  shows "wp (absorb_prev heap item s) (released heap addr ls rs u s)"
proof (cases "ls = [] \<or> u (last ls)")
  case True
  with absorb_prev_keep [OF sh u(1) True u(2) ag] show ?thesis by simp
next
  case False
  then obtain l p where ls: "ls = l @ [p]" "\<not> u p" by (cases ls rule: rev_cases) auto
  with absorb_prev_merge [of heap addr l p item rs F u s] sh u ag show ?thesis by simp
qed

section \<open>The invariant\<close>

definition room :: "memheaps \<Rightarrow> u32 \<Rightarrow> u32" where
  "room s x = nx s x - x - item_size s"

text \<open>\<^verbatim>\<open>available_size\<close> is what the pool has besides the headers and the blocks in use.\<close>

definition accounted :: "u32 \<Rightarrow> u32 list \<Rightarrow> (u32 \<Rightarrow> bool) \<Rightarrow> memheaps \<Rightarrow> bool" where
  "accounted heap xs u s \<longleftrightarrow> available_size s heap + of_nat (length xs) * item_size s +
     sum_list (map (room s) (filter u xs)) = pool_size s heap"

text \<open>The blocks the program has, by the address it was given, with the size it asked for.\<close>

definition live_blocks :: "u32 list \<Rightarrow> memheaps \<Rightarrow> (u32 \<rightharpoonup> u32) \<Rightarrow> bool" where
  "live_blocks xs s live \<longleftrightarrow> dom live = (\<lambda>x. item_to_data x s) ` set (filter (in_use s) xs) \<and>
     (\<forall>p n. live p = Some n \<longrightarrow> n \<le> room s (data_to_item p s))"

definition heap_ok :: "u32 \<Rightarrow> u32 \<Rightarrow> (u32 \<rightharpoonup> u32) \<Rightarrow> memheaps \<Rightarrow> bool" where
  "heap_ok heap addr live s \<longleftrightarrow> (\<exists>xs F. heap_shape heap addr xs F (in_use s) s \<and> accounted heap xs (in_use s) s \<and>
     \<not> in_use s (last xs) \<and> live_blocks xs s live)"

lemma data_item [simp]: "data_to_item (item_to_data x s) s = x" "item_to_data (data_to_item x s) s = x"
  by (simp_all add: data_to_item_def item_to_data_def)

lemma coalesce_ok:
  assumes sh: "heap_shape heap addr (ls @ item # rs) F u s" and u: "u item" and ag: "agree heap (ls @ item # rs) item u s"
    and ac: "accounted heap (ls @ item # rs) u s"
  shows "wp (memheap_coalesce heap item s) (\<lambda>s'. \<exists>xs F. heap_shape heap addr xs F (in_use s') s' \<and>
    accounted heap xs (in_use s') s' \<and> filter (in_use s') xs = filter u (ls @ rs) \<and>
    (rs = [] \<or> \<not> u (last rs) \<longrightarrow> \<not> in_use s' (last xs)) \<and>
    (\<forall>x \<in> set (ls @ rs). u x \<longrightarrow> nx s' x = nx s x) \<and> same_heap s s')"
proof -
  let ?s = "add_available heap (room s item) s"
  have i0: "item \<noteq> 0" and d: "distinct (ls @ item # rs)"
    using shape_addrs [OF sh] sh chain_blocks(1) [of heap addr "ls @ item # rs" s] by (auto simp: heap_shape_def)
  obtain s1 rs' F' where s1: "absorb_next heap item ?s = Some s1" and sh1: "heap_shape heap addr (ls @ item # rs') F' u s1"
    and r: "rs' = [] \<or> u (hd rs')" "filter u rs' = filter u rs" "rs' \<noteq> [] \<longrightarrow> last rs' = last rs" "set rs' \<subseteq> set rs"
    and eq: "in_use s1 = in_use s" "\<forall>x. x \<noteq> item \<longrightarrow> nx s1 x = nx s x" "same_heap s s1"
    and av: "available_size s1 heap + of_nat (length rs') * item_size s =
      available_size s heap + room s item + of_nat (length rs) * item_size s"
    using absorb_next_ok [of heap addr ls item rs F u ?s] sh u ag by (auto simp: wp_iff)
  have "agree heap (ls @ item # rs') item u s1" using ag eq(1) r(4) by (auto simp: agree_def same_heapD(2) [OF eq(3)])
  from absorb_prev_ok [OF sh1 u r(1) this]
  obtain s2 xs F2 where s2: "absorb_prev heap item s1 = Some s2" and sh2: "heap_shape heap addr xs F2 (in_use s2) s2"
    and f: "filter (in_use s2) xs = filter u (ls @ rs')" "rs' = [] \<or> \<not> u (last rs') \<longrightarrow> \<not> in_use s2 (last xs)"
    and nx: "\<forall>x \<in> set (ls @ rs'). u x \<longrightarrow> nx s2 x = nx s1 x" and hp: "same_heap s1 s2"
    and av2: "available_size s2 heap + of_nat (length xs) * item_size s1 =
       available_size s1 heap + of_nat (length (ls @ rs') + 1) * item_size s1"
    by (auto simp: released_def wp_iff)
  note z = same_heapD(1) [OF eq(3)] same_heapD(1,3) [OF hp] same_heapD(3) [OF eq(3)]
  have f': "filter (in_use s2) xs = filter u (ls @ rs)" using f(1) r(2) by simp
  have nx': "nx s2 x = nx s x" if "x \<in> set (ls @ rs)" "u x" for x
  proof -
    have "x \<in> set (ls @ rs')" using that arg_cong [OF r(2), of set] by auto
    then show ?thesis using nx eq(2) d that by auto
  qed
  have m: "map (room s2) (filter u (ls @ rs)) = map (room s) (filter u (ls @ rs))"
    by (rule map_cong [OF refl]) (use nx' in \<open>auto simp: room_def z\<close>)
  have av1: "available_size s1 heap = available_size s heap + room s item + of_nat (length rs) * item_size s
      - of_nat (length rs') * item_size s" using av by (simp add: eq_diff_eq)
  have "accounted heap xs (in_use s2) s2"
    using ac av2 u unfolding accounted_def f' m z av1 by (simp add: algebra_simps)
  moreover have "memheap_coalesce heap item s = Some s2"
    using i0 s1 s2 by (simp add: memheap_coalesce_steps room_def)
  ultimately show ?thesis using sh2 f' f(2) r(3,4) nx' same_heap_trans [OF eq(3) hp] by auto
qed

text \<open>Where a block ends.\<close>

lemma chain_geometry:
  assumes "block_chain heap addr xs s"
  shows "heap_place heap addr (unat (pool_size s heap)) (hdr s)" "laid_out (hdr s) addr (unat (pool_size s heap)) xs"
    "x \<in> set xs \<Longrightarrow> offset addr x + hdr s \<le> unat (pool_size s heap)" "x \<in> set xs \<Longrightarrow> owned heap x s"
  using assms by (auto simp: block_chain_def laid_out_def)

lemma room_offset:
  assumes ch: "block_chain heap addr (ls @ x # rs) s"
  shows "offset addr x + hdr s + unat (room s x) = offset addr (hd (rs @ [end_item heap s]))"
proof -
  let ?n = "hd (rs @ [end_item heap s])"
  note pl = chain_geometry(1) [OF ch] and lo = chain_geometry(2) [OF ch]
  have "offset addr x + hdr s \<le> offset addr ?n"
  proof (cases rs)
    case Nil
    then show ?thesis using offset_end(1) [OF pl] chain_geometry(3) [OF ch, of x] pl by (simp add: heap_place_def)
  next
    case (Cons n r)
    then show ?thesis using lo spaced_append [of "offset addr" "hdr s" ls x "n # r"] by (simp add: laid_out_def)
  qed
  moreover have "room s x = (?n - addr) - (x + item_size s - addr)" using chain_links(1) [OF ch] by (simp add: room_def)
  moreover have "offset addr (x + item_size s) = offset addr x + hdr s"
    by (rule offset_add) (use calculation(1) unat32 [of "?n - addr"] in \<open>simp add: offset_def\<close>)
  ultimately show ?thesis unfolding offset_def by (simp only: unat_sub word_le_nat_alt)
qed

lemma data_offset:
  assumes ch: "block_chain heap addr xs s" and x: "x \<in> set xs"
  shows "offset addr (item_to_data x s) = offset addr x + hdr s"
  unfolding item_to_data_def
  by (rule offset_add) (use chain_geometry(1) [OF ch] chain_geometry(3) [OF ch x] hdr_simps(2) [of s] in \<open>simp add: heap_place_def\<close>)

lemma inner_block:
  assumes ch: "block_chain heap addr xs s" and x: "x \<in> set xs" "x \<noteq> last xs"
  obtains ls n rs where "xs = ls @ x # n # rs" "offset addr x + hdr s + unat (room s x) = offset addr n"
    "offset addr n + hdr s \<le> unat (pool_size s heap)"
proof -
  obtain ls r where xs: "xs = ls @ x # r" using x by (auto dest: split_list)
  with x obtain n rs where "r = n # rs" by (cases r) auto
  with xs room_offset [of heap addr ls x r s] ch chain_geometry(3) [OF ch, of n] show thesis by (intro that) auto
qed

lemma live_blocksD:
  assumes "live_blocks xs s live" "live p = Some n"
  shows "data_to_item p s \<in> set xs" "in_use s (data_to_item p s)" "n \<le> room s (data_to_item p s)"
proof -
  have "p \<in> (\<lambda>x. item_to_data x s) ` set (filter (in_use s) xs)" "n \<le> room s (data_to_item p s)"
    using assms by (auto simp: live_blocks_def)
  then show "data_to_item p s \<in> set xs" "in_use s (data_to_item p s)" "n \<le> room s (data_to_item p s)" by auto
qed

lemma live_item:
  assumes "heap_ok heap addr live s" "live p = Some n"
  obtains xs F where "heap_shape heap addr xs F (in_use s) s" "accounted heap xs (in_use s) s" "\<not> in_use s (last xs)"
    "live_blocks xs s live" "data_to_item p s \<in> set xs" "in_use s (data_to_item p s)" "n \<le> room s (data_to_item p s)"
proof -
  obtain xs F where h: "heap_shape heap addr xs F (in_use s) s" "accounted heap xs (in_use s) s" "\<not> in_use s (last xs)"
    "live_blocks xs s live" using assms(1) by (auto simp: heap_ok_def)
  with live_blocksD [OF h(4) assms(2)] show thesis using that by blast
qed

lemma set_filter_without:
  "distinct (ls @ x # r) \<Longrightarrow> set (filter u (ls @ r)) = set (filter u (ls @ x # r)) - {x}"
  by auto

lemma memheap_free_ok:
  assumes ok: "heap_ok heap addr live s" and p: "live p = Some n"
  shows "wp (nd_memheap_free p s) (\<lambda>s'. heap_ok heap addr (live(p := None)) s' \<and> same_heap s s')"
proof -
  let ?x = "data_to_item p s"
  obtain xs F where h: "heap_shape heap addr xs F (in_use s) s" "accounted heap xs (in_use s) s" "\<not> in_use s (last xs)"
    "live_blocks xs s live" and x: "?x \<in> set xs" "in_use s ?x" by (rule live_item [OF ok p])
  have ch: "block_chain heap addr xs s" using h(1) by (simp add: heap_shape_def)
  obtain ls r where xs: "xs = ls @ ?x # r" using x by (auto dest: split_list)
  have ne: "?x \<noteq> last xs" using x h(3) by auto
  then have r: "r \<noteq> []" "\<not> in_use s (last r)" using h(3) xs by (auto split: if_splits)
  have d: "distinct xs" using chain_blocks(1) [OF ch] by simp
  obtain s' xs' F' where s': "memheap_coalesce heap ?x s = Some s'" and h': "heap_shape heap addr xs' F' (in_use s') s'"
    "accounted heap xs' (in_use s') s'" "filter (in_use s') xs' = filter (in_use s) (ls @ r)" "\<not> in_use s' (last xs')"
    "\<forall>y \<in> set (ls @ r). in_use s y \<longrightarrow> nx s' y = nx s y" and hp: "same_heap s s'"
    using coalesce_ok [of heap addr ls ?x r F "in_use s" s] h(1,2) xs x(2) r by (auto simp: wp_iff agree_def)
  have "live_blocks xs' s' (live(p := None))"
    unfolding live_blocks_def
  proof (intro conjI allI impI)
    have "set (filter (in_use s') xs') = set (filter (in_use s) xs) - {?x}"
      using set_filter_without [of ls ?x r "in_use s"] d h'(3) by (simp flip: xs)
    then show "dom (live(p := None)) = (\<lambda>x. item_to_data x s') ` set (filter (in_use s') xs')"
      using h(4) by (auto simp: live_blocks_def item_to_data_def data_to_item_def same_heapD(1) [OF hp])
  next
    fix q m assume q: "(live(p := None)) q = Some m"
    then have "live q = Some m" "data_to_item q s \<noteq> ?x" by (auto simp: data_to_item_def split: if_splits)
    with live_blocksD [OF h(4), of q m] xs
    have y: "data_to_item q s \<in> set (ls @ r)" "in_use s (data_to_item q s)" "m \<le> room s (data_to_item q s)"
      by (metis Un_iff set_append set_ConsD)+
    then show "m \<le> room s' (data_to_item q s')" using h'(5) by (simp add: room_def data_to_item_def same_heapD(1) [OF hp])
  qed
  with h' have "heap_ok heap addr (live(p := None)) s'" by (auto simp: heap_ok_def)
  moreover have "nd_memheap_free p s = Some s'"
  proof -
    have "offset addr p + hdr s \<le> unat (pool_size s heap)"
      by (rule inner_block [OF ch x(1) ne]) (use data_offset [OF ch x(1)] in simp)
    then have "p \<noteq> 0" by (rule block_nonzero [OF chain_geometry(1) [OF ch] _ hdr_simps(2)])
    moreover have "?x \<noteq> 0" using shape_addrs [OF h(1)] x by simp
    ultimately show ?thesis using chain_geometry(4) [OF ch x(1)] s'
      by (simp add: nd_memheap_free_def memheap_free_def check_magic_def load_item_def owned_def)
  qed
  ultimately show ?thesis using hp by simp
qed

section \<open>Allocation\<close>

lemma linked_tl: "linked n p (x # L) \<Longrightarrow> linked n p L"
  by (cases L) auto

lemma find_fit_ring:
  assumes "linked (nf s) (pf s) (G @ [heap])" "heap \<notin> set G" "0 \<notin> set G"
  shows "\<exists>d'. find_fit heap sz (hd (G @ [heap])) d s =
    Some (case find (\<lambda>x. sz \<le> room s x) G of None \<Rightarrow> (heap, d') | Some x \<Rightarrow> (x, room s x))"
  using assms
proof (induction G arbitrary: d)
  case Nil
  then show ?case by (subst find_fit.simps) simp
next
  case (Cons x G)
  have n: "nf s x = hd (G @ [heap])" using Cons.prems(1) linked_around(2) [of "nf s" "pf s" "[]" x "G @ [heap]"] by simp
  have "linked (nf s) (pf s) (G @ [heap])" using Cons.prems(1) by (cases G) auto
  with Cons.IH [of "room s x"] Cons.prems n show ?case
    by (subst find_fit.simps) (auto simp: room_def)
qed

text \<open>A request fits if the last block, which is never given out as a whole, has room for it and one more header.\<close>

definition fits :: "u32 \<Rightarrow> u32 \<Rightarrow> u32 \<Rightarrow> memheaps \<Rightarrow> bool" where
  "fits heap addr n s \<longleftrightarrow> offset addr (pv s (end_item heap s)) + 2 * hdr s + unat n \<le> unat (pool_size s heap)"

lemma fits_last:
  assumes "block_chain heap addr xs s"
  shows "fits heap addr n s \<longleftrightarrow> offset addr (last xs) + 2 * hdr s + unat n \<le> unat (pool_size s heap)"
proof -
  have "xs \<noteq> []" using assms by (simp add: block_chain_def laid_out_def)
  then show ?thesis using chain_links(4) [of heap addr "butlast xs" "last xs" "[]" s] assms by (simp add: fits_def)
qed

lemma room_bound:
  assumes ch: "block_chain heap addr xs s" and x: "x \<in> set xs"
  shows "unat (room s x) + 2 * hdr s \<le> 2 ^ 32"
proof -
  obtain ls r where xs: "xs = ls @ x # r" using x by (auto dest: split_list)
  note pl = chain_geometry(1) [OF ch]
  have "offset addr (hd (r @ [end_item heap s])) \<le> offset addr heap + hdr s"
    using offset_end(1) [OF pl] chain_geometry(3) [OF ch, of "hd r"] pl xs by (cases r) (simp_all add: heap_place_def)
  then show ?thesis using room_offset [of heap addr ls x r s] ch xs pl by (simp add: heap_place_def)
qed

lemma fits_block:
  assumes ch: "block_chain heap addr xs s" and x: "x \<in> set xs" and f: "fits heap addr n s" and n: "n \<le> room s x"
  shows "offset addr x + hdr s + unat n + hdr s \<le> unat (pool_size s heap)"
proof (cases "x = last xs")
  case True
  then show ?thesis using f fits_last [OF ch] by simp
next
  case False
  show ?thesis by (rule inner_block [OF ch x False]) (use n in \<open>simp add: word_le_nat_alt\<close>)
qed

lemma item_init_ok:
  assumes "a \<noteq> 0"
  shows "wp (item_init a heap s) (\<lambda>s'. owned heap a s' \<and> (\<forall>x. x \<noteq> a \<longrightarrow> items s' x = items s x) \<and>
    nx s' = nx s \<and> pv s' = pv s \<and> nf s' = nf s \<and> pf s' = pf s \<and> in_use s' = in_use s \<and>
    pool_size s' = pool_size s \<and> start_addr s' = start_addr s \<and> available_size s' = available_size s \<and>
    bytes s' = bytes s \<and> debug s' = debug s \<and> heap_waiters s' = heap_waiters s)"
  using assms by (auto simp: item_init_def store_item_def owned_def fields)

text \<open>What no operation changes.\<close>

definition same_pool :: "memheaps \<Rightarrow> memheaps \<Rightarrow> bool" where
  "same_pool s s' \<longleftrightarrow> start_addr s' = start_addr s \<and> pool_size s' = pool_size s \<and> debug s' = debug s \<and>
     heap_waiters s' = heap_waiters s \<and> bytes s' = bytes s"

lemma same_poolD:
  assumes "same_pool s s'"
  shows "item_size s' = item_size s" "end_item heap s' = end_item heap s" "pool_size s' = pool_size s" "debug s' = debug s"
    "data_to_item p s' = data_to_item p s" "item_to_data p s' = item_to_data p s"
  using assms by (simp_all add: same_pool_def item_size_def end_item_def data_to_item_def item_to_data_def)

lemma same_pool_trans: "same_pool s s1 \<Longrightarrow> same_pool s1 s2 \<Longrightarrow> same_pool s s2"
  by (simp add: same_pool_def)

lemma same_heap_pool: "same_heap s s' \<Longrightarrow> same_pool s s'"
  by (simp add: same_heap_def same_pool_def)

lemma item_init_chain:
  assumes ch: "block_chain heap addr xs s" and a: "a \<noteq> 0" "a \<notin> set xs" and rg: "free_ring heap F s"
  shows "wp (item_init a heap s) (\<lambda>s'. owned heap a s' \<and> block_chain heap addr xs s' \<and> free_ring heap F s' \<and> same_pool s s' \<and>
    nx s' = nx s \<and> in_use s' = in_use s \<and> available_size s' = available_size s)"
proof (rule wp_mono [OF item_init_ok [OF a(1)]])
  fix s'
  assume i: "owned heap a s' \<and> (\<forall>x. x \<noteq> a \<longrightarrow> items s' x = items s x) \<and>
    nx s' = nx s \<and> pv s' = pv s \<and> nf s' = nf s \<and> pf s' = pf s \<and> in_use s' = in_use s \<and>
    pool_size s' = pool_size s \<and> start_addr s' = start_addr s \<and> available_size s' = available_size s \<and>
    bytes s' = bytes s \<and> debug s' = debug s \<and> heap_waiters s' = heap_waiters s"
  then have p: "same_pool s s'" by (simp add: same_pool_def)
  have "\<forall>x \<in> set xs. owned heap x s'" using ch a i by (auto simp: block_chain_def owned_def)
  then have "block_chain heap addr xs s'" using ch i by (simp add: block_chain_def same_poolD [OF p])
  then show "owned heap a s' \<and> block_chain heap addr xs s' \<and> free_ring heap F s' \<and> same_pool s s' \<and>
    nx s' = nx s \<and> in_use s' = in_use s \<and> available_size s' = available_size s"
    using rg i p by (simp add: free_ring_def)
qed

text \<open>Cutting a block: what is behind \<open>n\<close> bytes becomes a block of its own, in the place of the old one in the ring.\<close>

lemma split_place:
  assumes ch: "block_chain heap addr (ls @ x # rs) s" and n: "unat n + hdr s \<le> unat (room s x)" "even n"
    and f: "offset addr x + hdr s + unat n + hdr s \<le> unat (pool_size s heap)"
  defines "y \<equiv> item_split_at x n s"
  shows "offset addr y = offset addr x + hdr s + unat n" "rs \<noteq> [] \<Longrightarrow> offset addr y + hdr s \<le> offset addr (hd rs)"
    "even y" "y \<noteq> 0" "y \<notin> set (heap # (ls @ x # rs) @ [end_item heap s])"
proof -
  note pl = chain_geometry(1) [OF ch] and dt = data_offset [OF ch, of x]
  have lt: "offset addr x + hdr s + unat n < 2 ^ 32" using f pl hdr_simps(2) [of s] by (simp add: heap_place_def)
  then show o: "offset addr y = offset addr x + hdr s + unat n"
    using offset_add [of addr "item_to_data x s" n] dt by (simp add: y_def item_split_at_def item_to_data_def)
  show r: "offset addr y + hdr s \<le> offset addr (hd rs)" if "rs \<noteq> []"
    using room_offset [OF ch] n(1) that o by simp
  show e: "even y" using chain_blocks(2) [OF ch] n(2) hdr_simps(3) [of s] by (simp add: y_def item_split_at_def)
  show "y \<noteq> 0" by (rule block_nonzero [OF pl _ hdr_simps(2)]) (use o f in simp)
  have "laid_out (hdr s) addr (unat (pool_size s heap)) (ls @ x # y # rs)"
    by (rule laid_out_put [OF chain_geometry(2) [OF ch] _ r _ e]) (use o f in simp_all)
  then have "distinct (ls @ x # y # rs)" unfolding laid_out_def using spaced_distinct hdr_simps(2) [of s] by blast
  moreover have "y \<noteq> heap" "y \<noteq> end_item heap s"
    using o f offset_end(1) [OF pl] pl hdr_simps(2) [of s] by (auto simp: heap_place_def)
  ultimately show "y \<notin> set (heap # (ls @ x # rs) @ [end_item heap s])" by auto
qed

lemma no_two_free_split:
  assumes "no_two_free u (ls @ x # rs)" "\<not> u x" "x \<notin> set ls" "x \<notin> set rs" "y \<notin> set (ls @ x # rs)"
  shows "no_two_free (u(x := True, y := False)) (ls @ x # y # rs)"
proof -
  let ?u = "u(x := True, y := False)"
  have *: "no_two_free u (ls @ [x])" "no_two_free u (x # rs)" using assms(1) no_two_free_append by blast+
  have "no_two_free ?u rs" using *(2) assms(4,5) by (subst no_two_free_cong [where u = u]) (auto, cases rs, auto)
  moreover have "rs = [] \<or> ?u (hd rs)" using *(2) assms(2,4,5) by (cases rs) auto
  ultimately have "no_two_free ?u (x # y # rs)" using assms(5) by (cases rs) auto
  moreover have "no_two_free ?u (ls @ [x])"
  proof (cases ls rule: rev_cases)
    case (snoc l z)
    have "no_two_free ?u (l @ [z])" using *(1) assms(3,5) snoc no_two_free_append [of u l z "[x]"]
      by (subst no_two_free_cong [where u = u]) auto
    with snoc show ?thesis using assms(5) no_two_free_append [of ?u l z "[x]"] by auto
  qed simp
  ultimately show ?thesis using no_two_free_append by blast
qed

definition cut :: "u32 \<Rightarrow> u32 \<Rightarrow> u32 list \<Rightarrow> u32 \<Rightarrow> u32 \<Rightarrow> u32 list \<Rightarrow> memheaps \<Rightarrow> memheaps \<Rightarrow> bool" where
  "cut heap addr ls x y rs s s' \<longleftrightarrow> (\<exists>F. heap_shape heap addr (ls @ x # y # rs) F (in_use s') s') \<and>
     accounted heap (ls @ x # y # rs) (in_use s') s' \<and> in_use s' x \<and> \<not> in_use s' y \<and> nx s' x = y \<and>
     (\<forall>z \<in> set (ls @ rs). in_use s' z = in_use s z \<and> nx s' z = nx s z) \<and> same_pool s s'"

lemma accounted_split:
  assumes ac: "accounted heap (ls @ x # rs) (in_use s) s" and "\<not> in_use s x" "in_use s' x" "\<not> in_use s' y"
    and rest: "\<And>z. z \<in> set (ls @ rs) \<Longrightarrow> in_use s' z = in_use s z \<and> nx s' z = nx s z"
    and nx: "nx s' x = item_split_at x n s" and sp: "same_pool s s'"
    and av: "available_size s' heap = available_size s heap - (n + item_size s)"
  shows "accounted heap (ls @ x # y # rs) (in_use s') s'"
proof -
  note z = same_poolD [OF sp]
  have "room s' x = n" using nx by (simp add: room_def z item_split_at_def)
  moreover have "filter (in_use s') ls = filter (in_use s) ls" "filter (in_use s') rs = filter (in_use s) rs"
    by (rule filter_cong [OF refl]; use rest in simp)+
  moreover have "map (room s') (filter (in_use s) ls) = map (room s) (filter (in_use s) ls)"
    "map (room s') (filter (in_use s) rs) = map (room s) (filter (in_use s) rs)"
    by (rule map_cong [OF refl]; use rest in \<open>simp add: room_def z\<close>)+
  ultimately show ?thesis
    using assms(1-4) unfolding accounted_def by (simp add: z av algebra_simps del: map_eq_conv)
qed

lemma alloc_split_ok:
  assumes sh: "heap_shape heap addr (ls @ x # rs) F (in_use s) s" and ac: "accounted heap (ls @ x # rs) (in_use s) s"
    and x: "\<not> in_use s x" and n: "unat n + hdr s \<le> unat (room s x)" "even n"
    and f: "offset addr x + hdr s + unat n + hdr s \<le> unat (pool_size s heap)" and y: "y = item_split_at x n s"
  shows "wp (do {
      s \<leftarrow> item_init y heap s;
      s \<leftarrow> free_list_replace x y s;
      s \<leftarrow> phys_list_insert_after x y s;
      ITEM_SET_USED x (add_available heap (- (n + item_size s)) s)
    }) (cut heap addr ls x y rs s)"
proof -
  have ch: "block_chain heap addr (ls @ x # rs) s" and rg: "free_ring heap F s"
    and F: "set F = {z \<in> set (ls @ x # rs). \<not> in_use s z}" using sh by (simp_all add: heap_shape_def)
  note Y = split_place [OF ch n f, folded y]
  have d: "distinct (heap # (ls @ x # rs) @ [end_item heap s])" using chain_blocks [OF ch] by simp
  obtain F1 F2 where Fx: "F = F1 @ x # F2" using F x by (fastforce dest: split_list)
  obtain s1 where s1: "item_init y heap s = Some s1" and r1: "owned heap y s1" "block_chain heap addr (ls @ x # rs) s1"
    "free_ring heap F s1" "same_pool s s1" "nx s1 = nx s" "in_use s1 = in_use s" "available_size s1 = available_size s"
    using item_init_chain [OF ch Y(4) _ rg] Y(5) by (auto simp: wp_iff)
  note z1 = same_poolD [OF r1(4)]
  have "y \<notin> set (heap # F1 @ x # F2)" using Y(5) F Fx by auto
  then obtain s2 where s2: "free_list_replace x y s1 = Some s2" and r2: "free_ring heap (F1 @ y # F2) s2" "same_chain s1 s2"
    "available_size s2 = available_size s1" using ring_replace [OF r1(3) [unfolded Fx] _ Y(4)] by (auto simp: wp_iff)
  have h2: "same_heap s1 s2" using r2 by (simp add: same_chain_def)
  note z2 = same_heapD(1,2,3) [OF h2] z1
  have ch2: "block_chain heap addr (ls @ x # rs) s2"
    unfolding chain_same [OF h2] using r1(2) r2(2) by (simp add: block_chain_def same_chain_def)
  obtain s3 where s3: "phys_list_insert_after x y s2 = Some s3" and r3: "block_chain heap addr (ls @ x # y # rs) s3" "same_ring s2 s3"
    "in_use s3 = (in_use s2)(y := False)" "nx s3 = (nx s2)(y := nx s2 x, x := y)"
    using chain_insert [OF ch2, of y] Y f r1(1) by (auto simp: wp_iff z2 same_heapD(4) [OF h2])
  have h3: "same_heap s2 s3" using r3 by (simp add: same_ring_def)
  note z3 = same_heapD(1,2,3) [OF h3] z2
  let ?u = "(in_use s)(x := True, y := False)"
  have "set (F1 @ y # F2) = {z \<in> set (ls @ x # y # rs). \<not> ?u z}" 
    using F rg Y(5) d unfolding Fx free_ring_def by auto
  moreover have "no_two_free ?u (ls @ x # y # rs)"
    by (rule no_two_free_split) (use sh x d Y(5) in \<open>auto simp: heap_shape_def\<close>)
  moreover have "free_ring heap (F1 @ y # F2) s3" using r2(1) r3(2) by (simp add: free_ring_def same_ring_def)
  ultimately have sh3: "heap_shape heap addr (ls @ x # y # rs) (F1 @ y # F2) ?u s3"
    using r3(1) sh d Y(5) by (simp add: heap_shape_def z3) auto
  have "agree heap (ls @ x # y # rs) x ?u s3" using r3(3) r2(2) r1(6) by (auto simp: agree_def same_chain_def)
  then obtain s4 where s4: "ITEM_SET_USED x (add_available heap (- (n + item_size s3)) s3) = Some s4"
    and r4: "flagged heap addr (ls @ x # y # rs) (F1 @ y # F2) ?u (add_available heap (- (n + item_size s3)) s3) s4"
    using flag_ok(2) [of heap addr "ls @ x # y # rs" "F1 @ y # F2" ?u "add_available heap (- (n + item_size s3)) s3" x] sh3 Y(5)
    by (auto simp: wp_iff)
  have h4: "same_heap s3 s4" and nx4: "nx s4 = (nx s)(y := nx s x, x := y)" and av4: "available_size s4 heap = available_size s heap - (n + item_size s)"
    using r4 r3(4) r2 r1(5,7) r3(2) by (simp_all add: flagged_def same_chain_def same_ring_def z3)
  have sp: "same_pool s s4" using r1(4) h2 h3 h4 by (meson same_heap_pool same_pool_trans)
  note z4 = same_poolD [OF sp]
  have iu: "\<forall>z \<in> set (ls @ x # y # rs). in_use s4 z = ?u z" using r4 unfolding flagged_def by blast
  have rest: "in_use s4 z = in_use s z \<and> nx s4 z = nx s z" if "z \<in> set (ls @ rs)" for z
    using bspec [OF iu, of z] that d Y(5) by (auto simp: nx4)
  have "in_use s4 x" "\<not> in_use s4 y" "nx s4 x = y" using iu Y(5) by (auto simp: nx4)
  moreover have "accounted heap (ls @ x # y # rs) (in_use s4) s4"
    by (rule accounted_split [OF ac x]) (use calculation rest sp av4 in \<open>simp_all add: y\<close>)
  moreover have "heap_shape heap addr (ls @ x # y # rs) (F1 @ y # F2) (in_use s4) s4" using r4 by (simp add: flagged_def)
  ultimately have "cut heap addr ls x y rs s s4"
    using rest sp \<open>in_use s4 x\<close> \<open>\<not> in_use s4 y\<close> \<open>nx s4 x = y\<close> unfolding cut_def by blast
  then show ?thesis using s1 s2 s3 s4 by (simp add: z3)
qed

definition taken :: "u32 \<Rightarrow> u32 \<Rightarrow> u32 list \<Rightarrow> u32 \<Rightarrow> u32 list \<Rightarrow> memheaps \<Rightarrow> memheaps \<Rightarrow> bool" where
  "taken heap addr ls x rs s s' \<longleftrightarrow> (\<exists>F. heap_shape heap addr (ls @ x # rs) F (in_use s') s') \<and>
     accounted heap (ls @ x # rs) (in_use s') s' \<and> in_use s' x \<and>
     (\<forall>z \<in> set (ls @ rs). in_use s' z = in_use s z) \<and> nx s' = nx s \<and> same_pool s s'"

lemma no_two_free_take: "no_two_free u xs \<Longrightarrow> no_two_free (u(x := True)) xs"
  by (induction xs rule: induct_list012) auto

lemma alloc_whole_ok:
  assumes sh: "heap_shape heap addr (ls @ x # rs) F (in_use s) s" and ac: "accounted heap (ls @ x # rs) (in_use s) s"
    and x: "\<not> in_use s x"
  shows "wp (do {
      s1 \<leftarrow> free_list_remove x s;
      ITEM_SET_USED x (add_available heap (- room s x) s1)
    }) (taken heap addr ls x rs s)"
proof -
  have ch: "block_chain heap addr (ls @ x # rs) s" and rg: "free_ring heap F s"
    and F: "set F = {z \<in> set (ls @ x # rs). \<not> in_use s z}" using sh by (simp_all add: heap_shape_def)
  have d: "distinct (heap # (ls @ x # rs) @ [end_item heap s])" using chain_blocks [OF ch] by simp
  obtain F1 F2 where Fx: "F = F1 @ x # F2" using F x by (fastforce dest: split_list)
  obtain s1 where s1: "free_list_remove x s = Some s1" and r1: "free_ring heap (F1 @ F2) s1" "same_chain s s1"
    "available_size s1 = available_size s" using ring_remove [OF rg [unfolded Fx]] by (auto simp: wp_iff)
  have h1: "same_heap s s1" using r1 by (simp add: same_chain_def)
  let ?u = "(in_use s)(x := True)" and ?s = "add_available heap (- room s x) s1"
  have "block_chain heap addr (ls @ x # rs) s1" unfolding chain_same [OF h1] using ch r1(2) by (simp add: block_chain_def same_chain_def)
  moreover have "set (F1 @ F2) = {z \<in> set (ls @ x # rs). \<not> ?u z}" using F rg unfolding Fx free_ring_def by auto
  moreover have "no_two_free ?u (ls @ x # rs)" by (rule no_two_free_take) (use sh in \<open>simp add: heap_shape_def\<close>)
  ultimately have sh1: "heap_shape heap addr (ls @ x # rs) (F1 @ F2) ?u ?s"
    using r1(1) sh by (simp add: heap_shape_def same_heapD(2) [OF h1])
  have "agree heap (ls @ x # rs) x ?u ?s" using r1(2) by (auto simp: agree_def same_chain_def)
  then obtain s2 where s2: "ITEM_SET_USED x ?s = Some s2" and r2: "flagged heap addr (ls @ x # rs) (F1 @ F2) ?u ?s s2"
    using flag_ok(2) [OF sh1, of x] by (auto simp: wp_iff)
  have sp: "same_pool s s2" using h1 r2 by (auto simp: flagged_def intro: same_pool_trans same_heap_pool)
  have iu: "\<forall>z \<in> set (ls @ x # rs). in_use s2 z = ?u z" and nx: "nx s2 = nx s" 
    and av: "available_size s2 heap = available_size s heap - room s x" using r2 r1 by (auto simp: flagged_def same_chain_def)
  have rest: "in_use s2 z = in_use s z" if "z \<in> set (ls @ rs)" for z using bspec [OF iu, of z] that d by auto
  have "filter (in_use s2) ls = filter (in_use s) ls" "filter (in_use s2) rs = filter (in_use s) rs"
    by (rule filter_cong [OF refl]; use rest in simp)+
  moreover have "room s2 = room s" by (rule ext) (simp add: room_def nx same_poolD [OF sp])
  moreover have "in_use s2 x" using iu by simp
  ultimately have "accounted heap (ls @ x # rs) (in_use s2) s2"
    using ac x unfolding accounted_def by (simp add: same_poolD [OF sp] av algebra_simps)
  then have "taken heap addr ls x rs s s2" using rest sp nx \<open>in_use s2 x\<close> r2 unfolding taken_def flagged_def by blast
  then show ?thesis using s1 s2 by simp
qed

lemma live_blocks_add:
  assumes lv: "live_blocks xs s live" and st: "set (filter (in_use s') xs') = insert x (set (filter (in_use s) xs))"
    and rm: "\<And>z. z \<in> set xs \<Longrightarrow> in_use s z \<Longrightarrow> room s' z = room s z" and n: "n \<le> room s' x" "\<not> in_use s x"
    and sp: "same_pool s s'"
  shows "live_blocks xs' s' (live(item_to_data x s \<mapsto> n))" "live (item_to_data x s) = None"
proof -
  show "live (item_to_data x s) = None"
    using live_blocksD(2) [OF lv, of "item_to_data x s"] n(2) by (cases "live (item_to_data x s)") auto
  have "m \<le> room s' (data_to_item p s')" if "(live(item_to_data x s \<mapsto> n)) p = Some m" for p m
  proof (cases "p = item_to_data x s")
    case True
    then show ?thesis using that n(1) by (simp add: same_poolD [OF sp])
  next
    case False
    then show ?thesis using that live_blocksD [OF lv, of p m] rm by (simp add: same_poolD [OF sp])
  qed
  then show "live_blocks xs' s' (live(item_to_data x s \<mapsto> n))"
    using lv unfolding live_blocks_def st by (simp add: same_poolD [OF sp])
qed

lemma last_block:
  assumes sh: "heap_shape heap addr xs F (in_use s) s" and last: "\<not> in_use s (last xs)" and f: "fits heap addr n s"
  shows "last xs \<in> set F" "unat n + hdr s \<le> unat (room s (last xs))"
proof -
  have ch: "block_chain heap addr xs s" using sh by (simp add: heap_shape_def)
  then have ne: "xs \<noteq> []" by (simp add: block_chain_def laid_out_def)
  then show "last xs \<in> set F" using sh last by (simp add: heap_shape_def)
  have "offset addr (last xs) + hdr s + unat (room s (last xs)) = offset addr heap + hdr s"
    using room_offset [of heap addr "butlast xs" "last xs" "[]" s] ch ne offset_end(1) [OF chain_geometry(1) [OF ch]] by simp
  then show "unat n + hdr s \<le> unat (room s (last xs))"
    using f fits_last [OF ch] chain_geometry(1) [OF ch] by (simp add: heap_place_def)
qed

lemma heap_ok_cut:
  assumes lv: "live_blocks (ls @ x # rs) s live" and x: "\<not> in_use s x" and last: "\<not> in_use s (last (ls @ x # rs))"
    and c: "cut heap addr ls x y rs s s'" and y: "y = item_split_at x n s"
  shows "item_to_data x s' = item_to_data x s \<and> live (item_to_data x s) = None \<and>
    heap_ok heap addr (live(item_to_data x s \<mapsto> n)) s' \<and> same_pool s s'"
proof -
  have sp: "same_pool s s'" and iu: "in_use s' x" "\<not> in_use s' y" "\<forall>z \<in> set (ls @ rs). in_use s' z = in_use s z \<and> nx s' z = nx s z"
    and nx: "nx s' x = y" using c by (auto simp: cut_def)
  have "set (filter (in_use s') (ls @ x # y # rs)) = insert x (set (filter (in_use s) (ls @ x # rs)))" using iu x by auto
  moreover have "room s' z = room s z" if "z \<in> set (ls @ x # rs)" "in_use s z" for z
    using iu(3) that x by (auto simp: room_def same_poolD [OF sp])
  moreover have "n \<le> room s' x" by (simp add: room_def nx same_poolD [OF sp] y item_split_at_def)
  ultimately have "live_blocks (ls @ x # y # rs) s' (live(item_to_data x s \<mapsto> n))" "live (item_to_data x s) = None"
    using live_blocks_add [OF lv _ _ _ x sp] by blast+
  moreover have "\<not> in_use s' (last (ls @ x # y # rs))" using iu last by (cases rs rule: rev_cases) auto
  ultimately show ?thesis using c sp unfolding cut_def heap_ok_def by (auto simp: same_poolD [OF sp])
qed

lemma heap_ok_taken:
  assumes lv: "live_blocks (ls @ x # rs) s live" and x: "\<not> in_use s x" and last: "\<not> in_use s (last (ls @ x # rs))"
    "x \<noteq> last (ls @ x # rs)" and n: "n \<le> room s x" and c: "taken heap addr ls x rs s s'"
  shows "item_to_data x s' = item_to_data x s \<and> live (item_to_data x s) = None \<and>
    heap_ok heap addr (live(item_to_data x s \<mapsto> n)) s' \<and> same_pool s s'"
proof -
  have sp: "same_pool s s'" and iu: "in_use s' x" "\<forall>z \<in> set (ls @ rs). in_use s' z = in_use s z" and nx: "nx s' = nx s"
    using c by (auto simp: taken_def)
  have "set (filter (in_use s') (ls @ x # rs)) = insert x (set (filter (in_use s) (ls @ x # rs)))" using iu x by auto
  moreover have rm: "room s' z = room s z" for z by (simp add: room_def nx same_poolD [OF sp])
  ultimately have "live_blocks (ls @ x # rs) s' (live(item_to_data x s \<mapsto> n))" "live (item_to_data x s) = None"
    using live_blocks_add [OF lv _ _ _ x sp] n [folded rm] by blast+
  moreover have "\<not> in_use s' (last (ls @ x # rs))" using iu last by (cases rs rule: rev_cases) auto
  ultimately show ?thesis using c sp unfolding taken_def heap_ok_def by (auto simp: same_poolD [OF sp])
qed

lemma memheap_alloc_ok:
  assumes ok: "heap_ok heap addr live s" and n: "even n" and f: "fits heap addr n s"
  shows "wp (nd_memheap_alloc heap n s) (\<lambda>(p, s'). p \<noteq> 0 \<and> live p = None \<and>
    heap_ok heap addr (live(p \<mapsto> n)) s' \<and> same_pool s s')"
proof -
  obtain xs F where sh: "heap_shape heap addr xs F (in_use s) s" and ac: "accounted heap xs (in_use s) s"
    and last: "\<not> in_use s (last xs)" and lv: "live_blocks xs s live" using ok by (auto simp: heap_ok_def)
  have ch: "block_chain heap addr xs s" and rg: "free_ring heap F s" and F: "set F = {z \<in> set xs. \<not> in_use s z}"
    using sh by (simp_all add: heap_shape_def)
  have h0: "heap \<noteq> 0" using shape_addrs [OF sh] by simp
  have "find (\<lambda>x. n \<le> room s x) F \<noteq> None"
    using last_block [OF sh last f] by (auto simp: find_None_iff word_le_nat_alt)
  then obtain x where x: "find (\<lambda>x. n \<le> room s x) F = Some x" by auto
  then have xF: "x \<in> set F" "n \<le> room s x" by (auto simp: find_Some_iff in_set_conv_nth)
  then have xs': "x \<in> set xs" "\<not> in_use s x" using F by auto
  then obtain ls rs where xs: "xs = ls @ x # rs" by (auto dest: split_list)
  have x0: "x \<noteq> 0" "x \<noteq> heap" using chain_blocks [OF ch] xs by auto
  have place: "offset addr x + hdr s + unat n + hdr s \<le> unat (pool_size s heap)" by (rule fits_block [OF ch xs'(1) f xF(2)])
  have p: "item_to_data x s \<noteq> 0"
    by (rule block_nonzero [OF chain_geometry(1) [OF ch] _ hdr_simps(2)]) (use place data_offset [OF ch xs'(1)] in simp)
  have nowrap: "unat (n + item_size s) = unat n + hdr s"
    using room_bound [OF ch xs'(1)] xF(2) hdr_simps(2) [of s] by (intro unat_plus) (simp add: word_le_nat_alt)
  have fnd: "find_fit heap n (nf s heap) 0 s = Some (x, room s x)"
    using find_fit_ring [of s F heap n 0] rg x linked_around(2) [of "nf s" "pf s" "[]" heap "F @ [heap]"]
    by (auto simp: free_ring_def dest: linked_tl)
  define y where "y = item_split_at x n s"
  have steps: "nd_memheap_alloc heap n s = do {
      s' \<leftarrow> (if n + item_size s \<le> room s x then do {
          s \<leftarrow> item_init y heap s;
          s \<leftarrow> free_list_replace x y s;
          s \<leftarrow> phys_list_insert_after x y s;
          ITEM_SET_USED x (add_available heap (- (n + item_size s)) s)
        } else do {
          s1 \<leftarrow> free_list_remove x s;
          ITEM_SET_USED x (add_available heap (- room s x) s1)
        });
      Some (item_to_data x s', s') }"
    using h0 x0 by (simp add: nd_memheap_alloc_def memheap_alloc_def fnd Let_def y_def)
  show ?thesis
  proof (cases "n + item_size s \<le> room s x")
    case True
    then have r: "unat n + hdr s \<le> unat (room s x)" using nowrap by (simp add: word_le_nat_alt)
    have "wp (do {
          s \<leftarrow> item_init y heap s;
          s \<leftarrow> free_list_replace x y s;
          s \<leftarrow> phys_list_insert_after x y s;
          ITEM_SET_USED x (add_available heap (- (n + item_size s)) s)
        }) (cut heap addr ls x y rs s)"
      by (rule alloc_split_ok) (use sh ac xs xs'(2) r n place y_def in auto)
    then show ?thesis unfolding steps if_P [OF True] wp_bind wp_Some prod.case
      by (elim wp_mono) (use heap_ok_cut [OF lv [unfolded xs] xs'(2) last [unfolded xs] _ y_def] p in auto)
  next
    case False
    then have "x \<noteq> last xs" using last_block(2) [OF sh last f] nowrap by (auto simp: word_le_nat_alt)
    moreover have "wp (do { s1 \<leftarrow> free_list_remove x s; ITEM_SET_USED x (add_available heap (- room s x) s1) })
        (taken heap addr ls x rs s)"
      by (rule alloc_whole_ok) (use sh ac xs xs'(2) in auto)
    ultimately show ?thesis unfolding steps if_not_P [OF False] wp_bind wp_Some prod.case
      by (elim wp_mono) (use heap_ok_taken [OF lv [unfolded xs] xs'(2) last [unfolded xs] _ xF(2)] xs p in auto)
  qed
qed

end
