(* ===== verification/Nd_Memheap_Realloc.thy ===== *)
theory Nd_Memheap_Realloc
  imports Nd_Memheap_Inv
begin

text \<open>Changing the size of a block of a memory heap (\<^verbatim>\<open>nd_memheap_realloc\<close>): it is cut, or takes what it lacks from the free block
  behind it, or moves.\<close>

section \<open>What the invariant says to the program\<close>

lemma heap_blocks_apart:
  assumes ch: "block_chain heap addr xs s" and x: "x \<in> set xs" "x \<noteq> last xs" and y: "y \<in> set xs" "x \<noteq> y"
    and le: "offset addr x \<le> offset addr y"
  shows "offset addr x + hdr s + unat (room s x) \<le> offset addr y"
proof (rule inner_block [OF ch x])
  fix ls n rs
  assume xs: "xs = ls @ x # n # rs" and e: "offset addr x + hdr s + unat (room s x) = offset addr n"
  have "spaced (offset addr) (hdr s) (ls @ x # n # rs)" using ch xs by (simp add: block_chain_def laid_out_def)
  then have "spaced (offset addr) (hdr s) (ls @ [x])" "spaced (offset addr) (hdr s) (n # rs)"
    using spaced_append [of "offset addr" "hdr s" ls x "n # rs"] by auto
  with spaced_last [of "offset addr" "hdr s" ls x y] spaced_first [of "offset addr" "hdr s" n rs y] y le e xs hdr_simps(2) [of s]
  show ?thesis by fastforce
qed

lemma live_place:
  assumes "heap_ok heap addr live s" "live p = Some n"
  shows "hdr s \<le> offset addr p" "offset addr p + unat n + hdr s \<le> unat (pool_size s heap)"
    "live q = Some m \<Longrightarrow> p \<noteq> q \<Longrightarrow> offset addr p \<le> offset addr q \<Longrightarrow> offset addr p + unat n + hdr s \<le> offset addr q"
proof -
  let ?x = "data_to_item p s"
  obtain xs F where sh: "heap_shape heap addr xs F (in_use s) s" and last: "\<not> in_use s (last xs)" and lv: "live_blocks xs s live"
    and x: "?x \<in> set xs" "in_use s ?x" "n \<le> room s ?x" using live_item [OF assms] by blast
  have ch: "block_chain heap addr xs s" using sh by (simp add: heap_shape_def)
  have ne: "?x \<noteq> last xs" using x last by auto
  have p: "offset addr p = offset addr ?x + hdr s" using data_offset [OF ch x(1)] by simp
  then show "hdr s \<le> offset addr p" by simp
  show "offset addr p + unat n + hdr s \<le> unat (pool_size s heap)"
    by (rule inner_block [OF ch x(1) ne]) (use p x(3) in \<open>simp add: word_le_nat_alt\<close>)
  show "offset addr p + unat n + hdr s \<le> offset addr q" if q: "live q = Some m" "p \<noteq> q" "offset addr p \<le> offset addr q"
  proof -
    note y = live_blocksD(1) [OF lv q(1)]
    have "offset addr q = offset addr (data_to_item q s) + hdr s" using data_offset [OF ch y] by simp
    moreover have "?x \<noteq> data_to_item q s" using q(2) by (simp add: data_to_item_def)
    ultimately show ?thesis using heap_blocks_apart [OF ch x(1) ne y] p q(3) x(3) by (simp add: word_le_nat_alt)
  qed
qed

section \<open>Making a block smaller\<close>

lemma live_blocks_resize:
  assumes lv: "live_blocks xs s live" and st: "set (filter (in_use s') xs') = set (filter (in_use s) xs)"
    and rm: "\<And>z. z \<in> set xs \<Longrightarrow> in_use s z \<Longrightarrow> z \<noteq> x \<Longrightarrow> room s' z = room s z" and n: "n \<le> room s' x"
    and x: "x \<in> set xs" "in_use s x" and sp: "same_pool s s'"
  shows "live_blocks xs' s' (live(item_to_data x s \<mapsto> n))"
proof -
  have "m \<le> room s' (data_to_item q s')" if "(live(item_to_data x s \<mapsto> n)) q = Some m" for q m
  proof (cases "q = item_to_data x s")
    case True
    then show ?thesis using that n by (simp add: same_poolD [OF sp])
  next
    case False
    then have "data_to_item q s \<noteq> x" by auto
    then show ?thesis using that False live_blocksD [OF lv, of q m] rm by (simp add: same_poolD [OF sp])
  qed
  moreover have "item_to_data x s \<in> (\<lambda>x. item_to_data x s) ` set (filter (in_use s) xs)" using x by simp
  then have "insert (item_to_data x s) (dom live) = (\<lambda>x. item_to_data x s') ` set (filter (in_use s') xs')"
    using lv unfolding live_blocks_def st same_poolD [OF sp] by blast
  ultimately show ?thesis unfolding live_blocks_def by simp
qed

lemma heap_ok_resize:
  assumes ok: "heap_ok heap addr live s" and p: "live p = Some l" and n: "n \<le> room s (data_to_item p s)"
  shows "heap_ok heap addr (live(p \<mapsto> n)) s"
proof -
  obtain xs F where h: "heap_shape heap addr xs F (in_use s) s" "accounted heap xs (in_use s) s" "\<not> in_use s (last xs)"
    "live_blocks xs s live" and x: "data_to_item p s \<in> set xs" "in_use s (data_to_item p s)" using live_item [OF ok p] by blast
  have "live_blocks xs s (live(item_to_data (data_to_item p s) s \<mapsto> n))"
    by (rule live_blocks_resize [OF h(4) refl refl n x]) (simp add: same_pool_def)
  with h show ?thesis by (auto simp: heap_ok_def)
qed

lemma no_two_free_used:
  assumes "no_two_free u (ls @ x # rs)" "u x" "u y"
  shows "no_two_free u (ls @ x # y # rs)"
proof -
  have "no_two_free u (ls @ [x])" "no_two_free u (x # rs)" using assms(1) no_two_free_append by blast+
  moreover then have "no_two_free u (x # y # rs)" using assms(2,3) by (cases rs) auto
  ultimately show ?thesis using no_two_free_append by blast
qed

lemma accounted_cut:
  assumes ac: "accounted heap (ls @ x # rs) (in_use s) s" and x: "in_use s x" and y: "y = item_split_at x n s" "y \<notin> set (ls @ x # rs)"
    and nx: "nx s' = (nx s)(y := nx s x, x := y)" and d: "x \<notin> set ls" "x \<notin> set rs" and sp: "same_pool s s'"
    and av: "available_size s' heap = available_size s heap"
  shows "accounted heap (ls @ x # y # rs) ((in_use s)(y := True)) s'"
proof -
  let ?u = "(in_use s)(y := True)"
  note z = same_poolD [OF sp]
  have f: "filter ?u ls = filter (in_use s) ls" "filter ?u rs = filter (in_use s) rs"
    by (rule filter_cong [OF refl]; use y(2) in auto)+
  have m: "map (room s') (filter (in_use s) ls) = map (room s) (filter (in_use s) ls)"
    "map (room s') (filter (in_use s) rs) = map (room s) (filter (in_use s) rs)"
    by (rule map_cong [OF refl]; use y(2) d in \<open>auto simp: room_def z nx\<close>)+
  have "room s' x = n" "room s x = n + item_size s + room s' y"
    using y by (auto simp: room_def z nx item_split_at_def)
  then show ?thesis using ac x y(2) unfolding accounted_def
    by (simp add: z f m av algebra_simps del: map_eq_conv)
qed

lemma shrink_ok:
  assumes sh: "heap_shape heap addr (ls @ x # rs) F (in_use s) s" and ac: "accounted heap (ls @ x # rs) (in_use s) s"
    and lv: "live_blocks (ls @ x # rs) s live" and last: "\<not> in_use s (last (ls @ x # rs))" and x: "in_use s x"
    and n: "unat n + hdr s \<le> unat (room s x)" "even n" and y: "y = item_split_at x n s"
  shows "wp (do {
      s \<leftarrow> item_init y heap s;
      s \<leftarrow> phys_list_insert_after x y s;
      memheap_coalesce heap y s
    }) (\<lambda>s'. heap_ok heap addr (live(item_to_data x s \<mapsto> n)) s' \<and> same_pool s s')"
proof -
  have ch: "block_chain heap addr (ls @ x # rs) s" and rg: "free_ring heap F s"
    and F: "set F = {z \<in> set (ls @ x # rs). \<not> in_use s z}" using sh by (simp_all add: heap_shape_def)
  have d: "distinct (heap # (ls @ x # rs) @ [end_item heap s])" using chain_blocks [OF ch] by simp
  have xl: "x \<in> set (ls @ x # rs)" "x \<noteq> last (ls @ x # rs)" using last x by auto
  have rs: "rs \<noteq> []" "\<not> in_use s (last rs)" using last x by (auto split: if_splits)
  have f: "offset addr x + hdr s + unat n + hdr s \<le> unat (pool_size s heap)"
    by (rule inner_block [OF ch xl]) (use n in simp)
  note Y = split_place [OF ch n f, folded y]
  obtain s1 where s1: "item_init y heap s = Some s1" and r1: "owned heap y s1" "block_chain heap addr (ls @ x # rs) s1"
    "free_ring heap F s1" "same_pool s s1" "nx s1 = nx s" "in_use s1 = in_use s" "available_size s1 = available_size s"
    using item_init_chain [OF ch Y(4) _ rg] Y(5) by (auto simp: wp_iff)
  note z1 = same_poolD [OF r1(4)]
  obtain s2 where s2: "phys_list_insert_after x y s1 = Some s2" and r2: "block_chain heap addr (ls @ x # y # rs) s2" "same_ring s1 s2"
    "in_use s2 = (in_use s1)(y := False)" "nx s2 = (nx s1)(y := nx s1 x, x := y)"
    using chain_insert [OF r1(2), of y] Y f r1(1) by (auto simp: wp_iff z1)
  have h2: "same_heap s1 s2" using r2(2) by (simp add: same_ring_def)
  have sp2: "same_pool s s2" using r1(4) h2 by (meson same_heap_pool same_pool_trans)
  note z2 = same_poolD [OF sp2]
  let ?u = "(in_use s)(y := True)"
  have "no_two_free ?u (ls @ x # rs)" using sh Y(5) by (subst no_two_free_cong [where u = "in_use s"]) (auto simp: heap_shape_def)
  then have "no_two_free ?u (ls @ x # y # rs)" by (rule no_two_free_used) (use x in simp_all)
  moreover have "set F = {z \<in> set (ls @ x # y # rs). \<not> ?u z}" using F Y(5) by auto
  moreover have "free_ring heap F s2" using r1(3) r2(2) by (simp add: free_ring_def same_ring_def)
  ultimately have sh2: "heap_shape heap addr (ls @ x # y # rs) F ?u s2"
    using r2(1) sh by (simp add: heap_shape_def z2)
  have "agree heap (ls @ x # y # rs) y ?u s2" using r2(3) r1(6) by (simp add: agree_def)
  moreover have "accounted heap (ls @ x # y # rs) ?u s2"
    by (rule accounted_cut [OF ac x y]) (use Y(5) d r1 r2 sp2 in \<open>simp_all add: same_ring_def\<close>)
  moreover have "\<not> ?u (last rs)" using rs Y(5) last_in_set [of rs] by auto
  ultimately obtain s3 xs F3 where s3: "memheap_coalesce heap y s2 = Some s3" and h3: "heap_shape heap addr xs F3 (in_use s3) s3"
    "accounted heap xs (in_use s3) s3" "filter (in_use s3) xs = filter ?u (ls @ x # rs)" "\<not> in_use s3 (last xs)"
    "\<forall>z \<in> set (ls @ x # rs). ?u z \<longrightarrow> nx s3 z = nx s2 z" "same_heap s2 s3"
    using coalesce_ok [of heap addr "ls @ [x]" y rs F ?u s2] sh2 by (auto simp: wp_iff)
  have sp: "same_pool s s3" using sp2 h3(6) by (meson same_heap_pool same_pool_trans)
  have "set (filter (in_use s3) xs) = set (filter (in_use s) (ls @ x # rs))" using h3(3) Y(5) by auto
  then have "live_blocks xs s3 (live(item_to_data x s \<mapsto> n))"
  proof (rule live_blocks_resize [OF lv _ _ _ xl(1) x sp])
    show "room s3 z = room s z" if "z \<in> set (ls @ x # rs)" "in_use s z" "z \<noteq> x" for z
      using h3(5) that Y(5) r2(4) r1(5) by (auto simp: room_def same_poolD [OF sp])
    have "nx s3 x = y" using h3(5) x r2(4) by auto
    then show "n \<le> room s3 x" by (simp add: room_def same_poolD [OF sp] y item_split_at_def)
  qed
  then have "heap_ok heap addr (live(item_to_data x s \<mapsto> n)) s3" using h3 unfolding heap_ok_def by blast
  then show ?thesis using s1 s2 s3 sp by simp
qed

section \<open>Making a block larger in its place\<close>

lemma same_chainD: "same_chain s s' \<Longrightarrow> same_heap s s'"
  by (simp add: same_chain_def)

lemma no_two_free_move:
  assumes nf: "no_two_free u (ls @ x # nxt # rs)" and u: "u x" "\<not> u nxt" and y: "y \<notin> set (ls @ x # rs)" and eq: "\<And>z. z \<noteq> y \<Longrightarrow> u' z = u z"
  shows "no_two_free u' (ls @ x # y # rs)"
proof -
  have *: "no_two_free u (ls @ [x])" "no_two_free u (nxt # rs)"
    using nf no_two_free_append [of u ls x "nxt # rs"] no_two_free_append [of u "ls @ [x]" nxt rs] by auto
  have e: "u' z = u z" if "z \<in> set (ls @ x # rs)" for z
    by (rule eq) (use that y in blast)
  have "no_two_free u' (ls @ [x])" using *(1) by (subst no_two_free_cong [where u = u]) (use e in auto)
  moreover have "no_two_free u' rs"
    using *(2) by (subst no_two_free_cong [where u = u]) (use e in auto, cases rs, auto)
  then have "no_two_free u' (x # y # rs)" using *(2) u e by (cases rs) auto
  ultimately show ?thesis using no_two_free_append by blast
qed

text \<open>The free block \<open>nxt\<close> behind \<open>x\<close> gives what \<open>x\<close> lacks: its header moves to \<open>y\<close>.\<close>

lemma grow_ok:
  assumes sh: "heap_shape heap addr (ls @ x # nxt # rs) F (in_use s) s" and ac: "accounted heap (ls @ x # nxt # rs) (in_use s) s"
    and lv: "live_blocks (ls @ x # nxt # rs) s live" and last: "\<not> in_use s (last (ls @ x # nxt # rs))"
    and u: "in_use s x" "\<not> in_use s nxt" and y: "y = item_split_at x n s"
    and n: "room s x < n" "even n" "unat n + hdr s \<le> unat (room s x) + unat (room s nxt)"
    and f: "offset addr x + hdr s + unat n + hdr s \<le> unat (pool_size s heap)"
  shows "wp (do {
        s \<leftarrow> free_list_remove nxt s;
        s \<leftarrow> phys_list_remove nxt s;
        s \<leftarrow> item_init y heap s;
        s \<leftarrow> phys_list_insert_after x y s;
        free_list_insert_after heap y s
      }) (\<lambda>s'. heap_ok heap addr (live(item_to_data x s \<mapsto> n)) (add_available heap (- (n - room s x)) s') \<and> same_pool s s')"
proof -
  have ch: "block_chain heap addr (ls @ x # nxt # rs) s" and rg: "free_ring heap F s"
    and F: "set F = {z \<in> set (ls @ x # nxt # rs). \<not> in_use s z}" using sh by (simp_all add: heap_shape_def)
  have d: "distinct (heap # (ls @ x # nxt # rs) @ [end_item heap s])" using chain_blocks [OF ch] by simp
  have "nxt \<in> set F" using F u by simp
  then obtain F1 F2 where Fx: "F = F1 @ nxt # F2" by (auto dest: split_list)
  have o1: "offset addr x + hdr s + unat (room s x) = offset addr nxt"
    using room_offset [of heap addr ls x "nxt # rs" s] ch by simp
  have o2: "offset addr nxt + hdr s + unat (room s nxt) = offset addr (hd (rs @ [end_item heap s]))"
    using room_offset [of heap addr "ls @ [x]" nxt rs s] ch by simp
  note pl = chain_geometry(1) [OF ch]
  have oy: "offset addr y = offset addr x + hdr s + unat n"
    using data_offset [OF ch, of x] offset_add [of addr "item_to_data x s" n] f pl hdr_simps(2) [of s]
    by (simp add: y item_split_at_def item_to_data_def heap_place_def)
  have ey: "even y" using chain_blocks(2) [OF ch] n(2) hdr_simps(3) [of s] by (simp add: y item_split_at_def)
  have y0: "y \<noteq> 0" by (rule block_nonzero [OF pl _ hdr_simps(2)]) (use oy f in simp)
  have ub: "unat (room s x) < unat n" using n(1) by (simp add: word_less_nat_alt)
  have yr: "offset addr y + hdr s \<le> offset addr (hd rs)" if "rs \<noteq> []" using o1 o2 oy n(3) that by simp
  obtain s1 where s1: "free_list_remove nxt s = Some s1" and r1: "free_ring heap (F1 @ F2) s1" "same_chain s s1"
    "available_size s1 = available_size s"
    using ring_remove [OF rg [unfolded Fx]] by (auto simp: wp_iff)
  have h1: "same_heap s s1" using r1 by (simp add: same_chain_def)
  have "block_chain heap addr (ls @ x # nxt # rs) s1"
    unfolding chain_same [OF h1] using ch r1(2) by (simp add: block_chain_def same_chain_def)
  then obtain s2 where s2: "phys_list_remove nxt s1 = Some s2" and r2: "block_chain heap addr (ls @ x # rs) s2" "same_ring s1 s2"
    "in_use s2 = in_use s1" "nx s2 = (nx s1)(x := nx s1 nxt)" using chain_remove [of heap addr ls x nxt rs s1] by (auto simp: wp_iff)
  have h2: "same_heap s s2" and rg2: "free_ring heap (F1 @ F2) s2"
    using h1 r1(1) r2(2) by (auto simp: same_ring_def free_ring_def intro: same_heap_trans)
  note z2 = same_heapD(1,2,3) [OF h2]
  have lo: "laid_out (hdr s) addr (unat (pool_size s heap)) (ls @ x # rs)" using chain_geometry(2) [OF r2(1)] by (simp add: z2)
  have "laid_out (hdr s) addr (unat (pool_size s heap)) (ls @ x # y # rs)"
    by (rule laid_out_put [OF lo _ yr _ ey]) (use oy f in simp_all)
  then have "distinct (ls @ x # y # rs)" unfolding laid_out_def using spaced_distinct hdr_simps(2) [of s] by blast
  moreover have "y \<noteq> heap" "y \<noteq> end_item heap s"
    using oy f offset_end(1) [OF pl] pl hdr_simps(2) [of s] by (auto simp: heap_place_def)
  ultimately have Y: "y \<notin> set (heap # (ls @ x # rs) @ [end_item heap s])" by auto
  obtain s3 where s3: "item_init y heap s2 = Some s3" and r3: "owned heap y s3" "block_chain heap addr (ls @ x # rs) s3"
    "free_ring heap (F1 @ F2) s3" "same_pool s2 s3" "nx s3 = nx s2" "in_use s3 = in_use s2" "available_size s3 = available_size s2"
    using item_init_chain [OF r2(1) y0 _ rg2] Y by (auto simp: wp_iff)
  have p3: "same_pool s s3" using h2 r3(4) by (meson same_heap_pool same_pool_trans)
  note z3 = same_poolD [OF p3]
  obtain s4 where s4: "phys_list_insert_after x y s3 = Some s4" and r4: "block_chain heap addr (ls @ x # y # rs) s4" "same_ring s3 s4"
    "in_use s4 = (in_use s3)(y := False)" "nx s4 = (nx s3)(y := nx s3 x, x := y)"
    using chain_insert [OF r3(2), of y] yr f oy ey r3(1) by (auto simp: wp_iff z3)
  have rg4: "free_ring heap (F1 @ F2) s4" using r3(3) r4(2) by (simp add: free_ring_def same_ring_def)
  have "set (F1 @ F2) \<subseteq> set (ls @ x # rs)" using F rg unfolding Fx by (auto simp: free_ring_def)
  then have "y \<notin> set (heap # F1 @ F2)" using Y by auto
  then obtain s5 where s5: "free_list_insert_after heap y s4 = Some s5" and r5: "free_ring heap (y # F1 @ F2) s5" "same_chain s4 s5"
    "available_size s5 = available_size s4"
    using ring_insert [OF rg4 _ y0] by (auto simp: wp_iff)
  have h45: "same_heap s3 s5" using r4(2) r5(2) by (auto simp: same_ring_def same_chain_def intro: same_heap_trans)
  have sp: "same_pool s s5" using p3 h45 by (meson same_heap_pool same_pool_trans)
  note z5 = same_poolD [OF sp]
  have av: "available_size s5 = available_size s"
    using r1(3) r2(2) r3(7) r4(2) r5(3) by (simp add: same_ring_def)
  have iu: "in_use s5 = (in_use s)(y := False)"
    using r1(2) r2(3) r3(6) r4(3) r5(2) by (simp add: same_chain_def)
  have nx: "nx s5 = ((nx s)(x := nx s nxt))(y := nx s nxt, x := y)"
    using r1(2) r2(4) r3(5) r4(4) r5(2) by (simp add: same_chain_def)
  have "block_chain heap addr (ls @ x # y # rs) s5"
    using r4(1) r5(2) unfolding chain_same [OF same_chainD [OF r5(2)]] by (simp add: same_chain_def block_chain_def)
  moreover have "set (y # F1 @ F2) = {z \<in> set (ls @ x # y # rs). \<not> in_use s5 z}"
  proof -
    have "set (F1 @ F2) = set F - {nxt}" using rg unfolding Fx by (auto simp: free_ring_def)
    also have "\<dots> = {z \<in> set (ls @ x # rs). \<not> in_use s z}" using F d by auto
    finally have "set (y # F1 @ F2) = insert y {z \<in> set (ls @ x # rs). \<not> in_use s z}" by simp
    also have "\<dots> = {z \<in> set (ls @ x # y # rs). \<not> in_use s5 z}" using Y by (auto simp: iu)
    finally show ?thesis .
  qed
  moreover have "no_two_free (in_use s5) (ls @ x # y # rs)"
    by (rule no_two_free_move [of "in_use s" _ _ nxt]) (use sh u Y iu in \<open>auto simp: heap_shape_def\<close>)
  moreover have "in_use s5 heap" "in_use s5 (end_item heap s5)" using sh Y by (auto simp: heap_shape_def z5 iu)
  ultimately have sh5: "heap_shape heap addr (ls @ x # y # rs) (y # F1 @ F2) (in_use s5) s5"
    unfolding heap_shape_def using r5(1) by blast
  let ?s = "add_available heap (- (n - room s x)) s5"
  have rest: "in_use s5 z = in_use s z \<and> room s5 z = room s z" if "z \<in> set (ls @ rs)" for z
    using that Y d by (auto simp: iu nx room_def z5)
  have rx: "room s5 x = n" using Y by (auto simp: room_def nx z5 y item_split_at_def)
  have fl: "filter (in_use s5) ls = filter (in_use s) ls" "filter (in_use s5) rs = filter (in_use s) rs"
    by (rule filter_cong [OF refl]; use rest in simp)+
  have m: "map (room s5) (filter (in_use s) ls) = map (room s) (filter (in_use s) ls)"
    "map (room s5) (filter (in_use s) rs) = map (room s) (filter (in_use s) rs)"
    by (rule map_cong [OF refl]; use rest in simp)+
  have ix: "in_use s5 x" "\<not> in_use s5 y" using u Y by (auto simp: iu)
  have rm: "room (add_available heap k s5) = room s5" for k by (simp add: room_def fun_eq_iff)
  have ps: "pool_size (add_available heap k s5) heap = pool_size s heap" for k by (simp add: add_available_def z5)
  have ac': "pool_size s heap = available_size s heap + of_nat (length (ls @ x # nxt # rs)) * item_size s +
      sum_list (map (room s) (filter (in_use s) (ls @ x # nxt # rs)))" using ac by (simp add: accounted_def)
  have "accounted heap (ls @ x # y # rs) (in_use ?s) ?s"
    using u ix unfolding accounted_def ps ac'
    by (simp add: rm fl m rx z5 av algebra_simps del: map_eq_conv)
  moreover have "live_blocks (ls @ x # y # rs) ?s (live(item_to_data x s \<mapsto> n))"
  proof (rule live_blocks_resize [OF lv])
    show "set (filter (in_use ?s) (ls @ x # y # rs)) = set (filter (in_use s) (ls @ x # nxt # rs))"
      using ix u by (simp add: fl)
    show "room ?s z = room s z" if "z \<in> set (ls @ x # nxt # rs)" "in_use s z" "z \<noteq> x" for z
      using rest [of z] that u by (auto simp: rm)
    show "same_pool s ?s" using sp by (simp add: same_pool_def add_available_def)
  qed (use rx u rm in simp_all)
  moreover have "\<not> in_use ?s (last (ls @ x # y # rs))" using ix last rest by (cases rs rule: rev_cases) auto
  moreover have "heap_shape heap addr (ls @ x # y # rs) (y # F1 @ F2) (in_use ?s) ?s" using sh5 by simp
  ultimately have "heap_ok heap addr (live(item_to_data x s \<mapsto> n)) ?s" unfolding heap_ok_def by blast
  then show ?thesis using s1 s2 s3 s4 s5 sp by simp
qed

section \<open>Moving a block\<close>

lemma heap_ok_bytes [simp]: "heap_ok heap addr live (s\<lparr>bytes := m\<rparr>) = heap_ok heap addr live s"
proof -
  have f: "nx (s\<lparr>bytes := m\<rparr>) = nx s" "pv (s\<lparr>bytes := m\<rparr>) = pv s" "nf (s\<lparr>bytes := m\<rparr>) = nf s" "pf (s\<lparr>bytes := m\<rparr>) = pf s"
    "in_use (s\<lparr>bytes := m\<rparr>) = in_use s" "item_size (s\<lparr>bytes := m\<rparr>) = item_size s" "end_item heap (s\<lparr>bytes := m\<rparr>) = end_item heap s"
    "owned heap a (s\<lparr>bytes := m\<rparr>) = owned heap a s" "item_to_data a (s\<lparr>bytes := m\<rparr>) = item_to_data a s" 
    "data_to_item a (s\<lparr>bytes := m\<rparr>) = data_to_item a s" "room (s\<lparr>bytes := m\<rparr>) = room s" for a
    by (simp_all add: fields item_size_def end_item_def owned_def item_to_data_def data_to_item_def room_def fun_eq_iff)
  then show ?thesis
    by (simp add: heap_ok_def heap_shape_def block_chain_def free_ring_def accounted_def live_blocks_def)
qed

text \<open>What no operation changes but the bytes.\<close>

abbreviation same_conf :: "memheaps \<Rightarrow> memheaps \<Rightarrow> bool" where
  "same_conf s s' \<equiv> same_pool (s\<lparr>bytes := bytes s'\<rparr>) s'"

definition moved :: "u32 \<Rightarrow> u32 \<Rightarrow> u32 \<Rightarrow> memheaps \<Rightarrow> memheaps \<Rightarrow> bool" where
  "moved p q b s s' \<longleftrightarrow> (\<forall>a. bytes s' a = (if p \<noteq> q \<and> a - q < b then bytes s (p + (a - q)) else bytes s a))"

lemma live_apart:
  assumes ok: "heap_ok heap addr live s" and p: "live p = Some m" and q: "live q = Some n" and ne: "p \<noteq> q"
    and k: "i < unat m" "j < unat n"
  shows "q + of_nat j \<noteq> p + of_nat i"
proof -
  note P = live_place [OF ok p] and Q = live_place [OF ok q]
  have pl: "unat (pool_size s heap) < 2 ^ 32" using unsigned_less [of "pool_size s heap"] by simp
  have "unat (of_nat i :: u32) = i" "unat (of_nat j :: u32) = j"
    using k unat32 [of m] unat32 [of n] by (simp_all add: unat_of_nat)
  then have o: "offset addr (p + of_nat i) = offset addr p + i" "offset addr (q + of_nat j) = offset addr q + j"
    using offset_add [of addr p "of_nat i"] offset_add [of addr q "of_nat j"] P(2) Q(2) k pl by simp_all
  have "offset addr p + unat m \<le> offset addr q \<or> offset addr q + unat n \<le> offset addr p"
    using P(3) [OF q ne] Q(3) [OF p ne [symmetric]] by linarith
  with k o have "offset addr (q + of_nat j) \<noteq> offset addr (p + of_nat i)" by auto
  then show ?thesis by auto
qed

lemma live_nonzero: "heap_ok heap addr live s \<Longrightarrow> live p = Some n \<Longrightarrow> p \<noteq> 0"
  using live_place(2) [of heap addr live s p n] block_nonzero [of heap addr "unat (pool_size s heap)" "hdr s" p] hdr_simps(2) [of s]
  by (fastforce simp: heap_ok_def heap_shape_def dest: chain_geometry(1))

text \<open>The block moves.\<close>

lemma realloc_move_ok:
  assumes ok: "heap_ok heap addr live s" and p: "live p = Some l" and n: "even n" and fit: "fits heap addr n s"
    and b: "b = room s (data_to_item p s)" and bn: "b < n"
  shows "wp (do {
      (new_ptr, s) \<leftarrow> memheap_alloc heap n s;
      if new_ptr = 0 then Some (0, s)
      else do {
        (_, m) \<leftarrow> nd_memcpy new_ptr p b (bytes s);
        s \<leftarrow> memheap_free p (s\<lparr>bytes := m\<rparr>);
        Some (new_ptr, s)
      }
    }) (\<lambda>(q, s'). q \<noteq> 0 \<and> live q = None \<and> heap_ok heap addr (live(p := None, q \<mapsto> n)) s' \<and> same_conf s s' \<and> moved p q b s s')"
proof -
  have ok1: "heap_ok heap addr (live(p \<mapsto> b)) s" by (rule heap_ok_resize [OF ok p]) (simp add: b)
  obtain q s1 where s1: "memheap_alloc heap n s = Some (q, s1)" and q: "q \<noteq> 0" "(live(p \<mapsto> b)) q = None"
    "heap_ok heap addr (live(p \<mapsto> b, q \<mapsto> n)) s1" and sp1: "same_pool s s1"
    using memheap_alloc_ok [OF ok1 n fit] by (auto simp: wp_iff nd_memheap_alloc_def)
  have ne: "p \<noteq> q" using q(2) by auto
  have ap: "apart q p (unat b)"
    using live_apart [OF q(3), of p b q n] ne bn by (auto simp: apart_def word_less_nat_alt)
  define m where "m = (\<lambda>x. if x - q < b then bytes s1 (p + (x - q)) else bytes s1 x)"
  have cp: "nd_memcpy q p b (bytes s1) = Some (q, m)" using nd_memcpy_copied [OF ap, of "bytes s1"]
    by (simp add: m_def copied_def word_less_nat_alt)
  have "p \<noteq> 0" by (rule live_nonzero [OF ok p])
  moreover obtain s2 where s2: "nd_memheap_free p (s1\<lparr>bytes := m\<rparr>) = Some s2"
    and ok2: "heap_ok heap addr ((live(p \<mapsto> b, q \<mapsto> n))(p := None)) s2" and sp2: "same_heap (s1\<lparr>bytes := m\<rparr>) s2"
    using memheap_free_ok [of heap addr "live(p \<mapsto> b, q \<mapsto> n)" "s1\<lparr>bytes := m\<rparr>" p b] q(3) ne by (auto simp: wp_iff)
  moreover have "(live(p \<mapsto> b, q \<mapsto> n))(p := None) = live(p := None, q \<mapsto> n)" using ne by (auto simp: fun_eq_iff)
  moreover have "same_conf s s2" using sp1 sp2 by (simp add: same_pool_def same_heap_def)
  moreover have "moved p q b s s2" using sp1 sp2 ne by (simp add: moved_def same_pool_def same_heap_def m_def)
  ultimately show ?thesis using s1 q ne cp by (simp add: nd_memheap_free_def split: if_splits)
qed

section \<open>The operation\<close>

text \<open>The sizes a block can be brought to: any that is not larger; a larger one that fits, unless the free block behind it would
  be used up all but for less than a header.\<close>

definition resizable :: "u32 \<Rightarrow> u32 \<Rightarrow> u32 \<Rightarrow> u32 \<Rightarrow> memheaps \<Rightarrow> bool" where
  "resizable heap addr p n s \<longleftrightarrow> (let x = data_to_item p s; b = room s x; nxt = nx s x in
     b < n \<longrightarrow> fits heap addr n s \<and>
       (\<not> in_use s nxt \<longrightarrow> unat n + hdr s \<le> unat b + unat (room s nxt) \<or> unat b + hdr s + unat (room s nxt) < unat n))"

lemma live_then_next:
  assumes ok: "heap_ok heap addr live s" and p: "live p = Some l"
  defines "x \<equiv> data_to_item p s"
  obtains ls nxt rs F where "heap_shape heap addr (ls @ x # nxt # rs) F (in_use s) s"
    "accounted heap (ls @ x # nxt # rs) (in_use s) s" "\<not> in_use s (last (ls @ x # nxt # rs))" "live_blocks (ls @ x # nxt # rs) s live"
    "in_use s x" "nx s x = nxt" "unat (room s x) + hdr s + unat (room s nxt) < 2 ^ 32"
    "offset addr x < offset addr (last (ls @ x # nxt # rs))"
proof -
  obtain xs F where h: "heap_shape heap addr xs F (in_use s) s" "accounted heap xs (in_use s) s" "\<not> in_use s (last xs)"
    "live_blocks xs s live" and x: "x \<in> set xs" "in_use s x" using live_item [OF ok p] unfolding x_def by blast
  have ch: "block_chain heap addr xs s" using h(1) by (simp add: heap_shape_def)
  obtain ls r where xs0: "xs = ls @ x # r" using x by (auto dest: split_list)
  with h(3) x obtain nxt rs where r: "r = nxt # rs" by (cases r) auto
  have xs: "xs = ls @ x # nxt # rs" using xs0 r by simp
  have o1: "offset addr x + hdr s + unat (room s x) = offset addr nxt"
    using room_offset [of heap addr ls x "nxt # rs" s] ch xs by simp
  have o2: "offset addr nxt + hdr s + unat (room s nxt) = offset addr (hd (rs @ [end_item heap s]))"
    using room_offset [of heap addr "ls @ [x]" nxt rs s] ch xs by simp
  have "spaced (offset addr) (hdr s) (x # nxt # rs)"
    using chain_geometry(2) [OF ch] xs spaced_append [of "offset addr" "hdr s" ls x "nxt # rs"] by (simp add: laid_out_def)
  then have "offset addr x < offset addr (last (nxt # rs))"
    using spaced_first [of "offset addr" "hdr s" x "nxt # rs" "last (nxt # rs)"] hdr_simps(2) [of s] last_in_set [of "nxt # rs"] by auto
  moreover have "unat (room s x) + hdr s + unat (room s nxt) < 2 ^ 32"
    using o1 o2 unat32 [of "hd (rs @ [end_item heap s]) - addr"] by (simp add: offset_def)
  moreover have "nx s x = nxt" using chain_links(1) [of heap addr ls x "nxt # rs" s] ch xs by simp
  ultimately show thesis using that [of ls nxt rs F] h x(2) unfolding xs by simp
qed

lemma realloc_steps:
  fixes n :: u32
  assumes p: "p \<noteq> 0" "data_to_item p s \<noteq> 0" "nxt \<noteq> 0" "nx s (data_to_item p s) = nxt" and m: "check_magic (data_to_item p s) s = Some ()"
  defines "x \<equiv> data_to_item p s" and "y \<equiv> p + n"
  shows "nd_memheap_realloc heap p n s =
      (if n = room s x then Some (p, s)
       else if n < room s x then
         (if room s x - n \<ge> item_size s then
            Option.bind (do {
              s \<leftarrow> item_init y heap s;
              s \<leftarrow> phys_list_insert_after x y s;
              memheap_coalesce heap y s
            }) (\<lambda>s. Some (p, s))
          else Some (p, s))
       else if \<not> in_use s nxt \<and> n \<le> room s x + item_size s + room s nxt then do {
         s' \<leftarrow> (if room s x + room s nxt - n \<ge> item_size s then do {
              s \<leftarrow> free_list_remove nxt s;
              s \<leftarrow> phys_list_remove nxt s;
              s \<leftarrow> item_init y heap s;
              s \<leftarrow> phys_list_insert_after x y s;
              free_list_insert_after heap y s
            } else do {
              s \<leftarrow> free_list_remove nxt s;
              s \<leftarrow> phys_list_remove nxt s;
              Some (add_available heap (item_size s) s)
            });
         Some (p, add_available heap (- (n - room s x)) s')
       }
       else do {
         (new_ptr, s') \<leftarrow> memheap_alloc heap n s;
         if new_ptr = 0 then Some (0, s')
         else do {
           (_, m) \<leftarrow> nd_memcpy new_ptr p (room s x) (bytes s');
           s' \<leftarrow> memheap_free p (s'\<lparr>bytes := m\<rparr>);
           Some (new_ptr, s')
         }
       })"
proof -
  have y: "item_split_at x n s = y" by (simp add: x_def y_def item_split_at_def data_to_item_def)
  have "x \<noteq> 0" "nx s x = nxt" "check_magic x s = Some ()" using p m by (simp_all add: x_def)
  moreover from this have "item_data_size x s = Some (room s x)" "item_data_size nxt s = Some (room s nxt)"
    using p(3) by (simp_all add: room_def)
  ultimately show ?thesis using p(1,3)
    by (simp add: nd_memheap_realloc_def x_def [symmetric] y Let_def del: read_fields(6))
qed

text \<open>\<^verbatim>\<open>nd_memheap_realloc\<close> of a block in use.\<close>

lemma memheap_realloc_ok:
  assumes ok: "heap_ok heap addr live s" and p: "live p = Some l" and n: "even n" and rs: "resizable heap addr p n s"
  shows "wp (nd_memheap_realloc heap p n s) (\<lambda>(q, s'). q \<noteq> 0 \<and> (q = p \<or> live q = None \<and> room s (data_to_item p s) < n) \<and>
    heap_ok heap addr (live(p := None, q \<mapsto> n)) s' \<and> same_conf s s' \<and> moved p q (room s (data_to_item p s)) s s')"
proof -
  let ?x = "data_to_item p s" and ?b = "room s (data_to_item p s)" and ?y = "p + n"
  obtain ls nxt r F where sh: "heap_shape heap addr (ls @ ?x # nxt # r) F (in_use s) s"
    and ac: "accounted heap (ls @ ?x # nxt # r) (in_use s) s" and last: "\<not> in_use s (last (ls @ ?x # nxt # r))"
    and lv: "live_blocks (ls @ ?x # nxt # r) s live" and x: "in_use s ?x" and nxt: "nx s ?x = nxt"
    and lim: "unat ?b + hdr s + unat (room s nxt) < 2 ^ 32" and ol: "offset addr ?x < offset addr (last (ls @ ?x # nxt # r))"
    by (rule live_then_next [OF ok p])
  have ch: "block_chain heap addr (ls @ ?x # nxt # r) s" using sh by (simp add: heap_shape_def)
  have nz: "?x \<noteq> 0" "nxt \<noteq> 0" "p \<noteq> 0" using chain_blocks(2) [OF ch] live_nonzero [OF ok p] by auto
  have "check_magic ?x s = Some ()"
    using chain_geometry(4) [OF ch, of ?x] nz by (simp add: check_magic_def load_item_def owned_def)
  note steps = realloc_steps [OF nz(3,1,2) nxt this, of heap n]
  have y: "?y = item_split_at ?x n s" by (simp add: item_split_at_def data_to_item_def)
  have kept: "heap_ok heap addr (live(p := None, p \<mapsto> n)) s' \<and> same_conf s s' \<and> moved p p ?b s s'"
    if "heap_ok heap addr (live(p \<mapsto> n)) s'" "same_pool s s'" for s'
    using that by (simp add: moved_def same_pool_def)
  note small = heap_ok_resize [OF ok p]
  consider (same) "n = ?b" | (keep) "n < ?b" "\<not> item_size s \<le> ?b - n" | (shrink) "n < ?b" "item_size s \<le> ?b - n"
    | (grow) "?b < n" "\<not> in_use s nxt" "unat n + hdr s \<le> unat ?b + unat (room s nxt)"
    | (move) "?b < n" "\<not> in_use s nxt \<longrightarrow> unat ?b + hdr s + unat (room s nxt) < unat n"
    using rs nxt unfolding resizable_def Let_def by fastforce
  then show ?thesis
  proof cases
    case same
    have "heap_ok heap addr (live(p \<mapsto> n)) s" by (rule small) (simp add: same)
    moreover have "nd_memheap_realloc heap p n s = Some (p, s)" unfolding steps using same by simp
    ultimately show ?thesis using nz kept [of s] by (simp add: same_pool_def)
  next
    case keep
    have "heap_ok heap addr (live(p \<mapsto> n)) s" by (rule small) (use keep in simp)
    moreover have "nd_memheap_realloc heap p n s = Some (p, s)" unfolding steps using keep by simp
    ultimately show ?thesis using nz kept [of s] by (simp add: same_pool_def)
  next
    case shrink
    have "unat (?b - n) = unat ?b - unat n" by (rule unat_sub) (use shrink in simp)
    then have "unat n + hdr s \<le> unat ?b" using shrink by (simp add: word_le_nat_alt word_less_nat_alt)
    from shrink_ok [OF sh ac lv last x this n y] have "wp (do {
        s \<leftarrow> item_init ?y heap s;
        s \<leftarrow> phys_list_insert_after ?x ?y s;
        memheap_coalesce heap ?y s
      }) (\<lambda>s'. heap_ok heap addr (live(p \<mapsto> n)) s' \<and> same_pool s s')" by simp
    then obtain s' where "do {
        s \<leftarrow> item_init ?y heap s;
        s \<leftarrow> phys_list_insert_after ?x ?y s;
        memheap_coalesce heap ?y s
      } = Some s'" "heap_ok heap addr (live(p \<mapsto> n)) s'" "same_pool s s'" unfolding wp_iff by blast
    moreover from this have "nd_memheap_realloc heap p n s = Some (p, s')" unfolding steps using shrink by auto
    ultimately show ?thesis using nz kept [of s'] by simp
  next
    case grow
    have f: "offset addr ?x + hdr s + unat n + hdr s \<le> unat (pool_size s heap)"
      using rs grow(1) fits_last [OF ch, of n] ol by (simp add: resizable_def Let_def)
    have w: "unat (?b + room s nxt) = unat ?b + unat (room s nxt)" by (rule unat_plus) (use lim in simp)
    have "unat (?b + item_size s) = unat ?b + hdr s" by (rule unat_plus) (use lim in simp)
    then have w2: "unat (?b + item_size s + room s nxt) = unat ?b + hdr s + unat (room s nxt)"
      using unat_plus [of "?b + item_size s" "room s nxt"] lim by simp
    have "unat (?b + room s nxt - n) = unat (?b + room s nxt) - unat n"
      by (rule unat_sub) (use grow(3) w in \<open>simp add: word_le_nat_alt\<close>)
    then have c: "\<not> n < ?b" "n \<noteq> ?b" "n \<le> ?b + item_size s + room s nxt" "item_size s \<le> ?b + room s nxt - n"
      using grow(1,3) w w2 by (auto simp: word_le_nat_alt)
    from grow_ok [OF sh ac lv last x grow(2) y grow(1) n grow(3) f] obtain s' where "do {
        s \<leftarrow> free_list_remove nxt s;
        s \<leftarrow> phys_list_remove nxt s;
        s \<leftarrow> item_init ?y heap s;
        s \<leftarrow> phys_list_insert_after ?x ?y s;
        free_list_insert_after heap ?y s
      } = Some s'" and s': "heap_ok heap addr (live(p \<mapsto> n)) (add_available heap (- (n - ?b)) s')" "same_pool s s'"
      unfolding wp_iff by auto
    moreover have "same_pool s (add_available heap (- (n - ?b)) s')" using s'(2) by (simp add: same_pool_def add_available_def)
    moreover from calculation have "nd_memheap_realloc heap p n s = Some (p, add_available heap (- (n - ?b)) s')"
      unfolding steps using c grow(2) by simp
    ultimately show ?thesis using nz kept [of "add_available heap (- (n - ?b)) s'"] by simp
  next
    case move
    have w2: "unat (?b + item_size s + room s nxt) = unat ?b + hdr s + unat (room s nxt)"
    proof -
      have "unat (?b + item_size s) = unat ?b + hdr s" by (rule unat_plus) (use lim in simp)
      then show ?thesis using unat_plus [of "?b + item_size s" "room s nxt"] lim by simp
    qed
    have "fits heap addr n s" using rs move(1) by (simp add: resizable_def Let_def)
    moreover have c: "\<not> n < ?b" "n \<noteq> ?b" "\<not> (\<not> in_use s nxt \<and> n \<le> ?b + item_size s + room s nxt)"
      using move w2 by (auto simp: word_le_nat_alt)
    ultimately show ?thesis unfolding steps if_not_P [OF c(1)] if_not_P [OF c(2)] if_not_P [OF c(3)]
      by (intro wp_pair_mono [OF realloc_move_ok [OF ok p n _ refl move(1)]]) (use move(1) in auto)
  qed
qed

end
