(* ===== verification/Nd_Memheap_Run.thy ===== *)
theory Nd_Memheap_Run
  imports Nd_Memheap_Realloc
begin

text \<open>Initialisation of a memory heap, sequences of calls, and the properties, with what goes wrong in two cases.\<close>

section \<open>Initialisation\<close>

lemma heap_place_distinct:
  assumes "heap_place heap addr P (hdr s)" "hdr s \<le> P"
  shows "heap \<noteq> addr" "end_item heap s \<noteq> addr" "end_item heap s \<noteq> heap" "end_item heap s \<noteq> 0" "heap \<noteq> 0" "addr \<noteq> 0"
    "\<not> bit heap 0" "\<not> bit addr 0" "\<not> bit (end_item heap s) 0"
  using assms offset_end [OF assms(1)] hdr_simps(2) [of s] by (auto simp: heap_place_def bit_0)

lemma init_fields:
  assumes D: "heap \<noteq> addr" "end_item heap s \<noteq> addr" "end_item heap s \<noteq> heap" "end_item heap s \<noteq> 0" "heap \<noteq> 0" "addr \<noteq> 0"
    "\<not> bit heap 0" "\<not> bit addr 0" "\<not> bit (end_item heap s) 0"
  obtains s' where "nd_memheap_init heap addr sz s = Some (ND_EOK, s')" "nx s' heap = addr" "nx s' addr = end_item heap s"
      "pv s' addr = heap" "pv s' (end_item heap s) = addr" "nf s' heap = addr" "pf s' heap = addr"
      "nf s' addr = heap" "pf s' addr = heap" "in_use s' heap" "in_use s' (end_item heap s)" "\<not> in_use s' addr"
      "owned heap addr s'" "pool_size s' heap = sz" "debug s' = debug s" "available_size s' heap = sz - item_size s"
proof -
  let ?e = "end_item heap s"
  have "wp (nd_memheap_init heap addr sz s) (\<lambda>(r, s'). r = ND_EOK \<and> nx s' heap = addr \<and> nx s' addr = ?e \<and>
      pv s' addr = heap \<and> pv s' ?e = addr \<and> nf s' heap = addr \<and> pf s' heap = addr \<and>
      nf s' addr = heap \<and> pf s' addr = heap \<and> in_use s' heap \<and> in_use s' ?e \<and> \<not> in_use s' addr \<and> owned heap addr s' \<and>
      pool_size s' heap = sz \<and> debug s' = debug s \<and> available_size s' heap = sz - item_size s)"
    using D flag_words(7,4) [unfolded not_1]
    by (cases "debug s") (simp_all add: nd_memheap_init_def item_init_def store_item_def ITEM_SET_USED_def Let_def
      end_item_def item_size_def fields owned_def flag_words not_1 del: bit_0)
  then show thesis unfolding wp_iff by (auto intro!: that)
qed

lemma nd_memheap_init_ok:
  assumes pl: "heap_place heap addr (unat sz) (hdr s)" and sz: "hdr s \<le> unat sz"
  shows "wp (nd_memheap_init heap addr sz s) (\<lambda>(r, s'). r = ND_EOK \<and> heap_ok heap addr Map.empty s' \<and>
    pool_size s' heap = sz \<and> debug s' = debug s)"
proof (rule init_fields [OF heap_place_distinct [OF pl sz]])
  fix s'
  assume s': "nd_memheap_init heap addr sz s = Some (ND_EOK, s')"
    and f: "nx s' heap = addr" "nx s' addr = end_item heap s" "pv s' addr = heap" "pv s' (end_item heap s) = addr"
      "nf s' heap = addr" "pf s' heap = addr" "nf s' addr = heap" "pf s' addr = heap" "in_use s' heap"
      "in_use s' (end_item heap s)" "\<not> in_use s' addr" "owned heap addr s'"
      "pool_size s' heap = sz" "debug s' = debug s" "available_size s' heap = sz - item_size s"
  have i: "item_size s' = item_size s" "end_item heap s' = end_item heap s" using f by (simp_all add: item_size_def end_item_def)
  have "block_chain heap addr [addr] s'"
    using pl sz f by (simp add: block_chain_def i laid_out_def heap_place_def)
  moreover have "free_ring heap [addr] s'" using heap_place_distinct [OF pl sz] f by (simp add: free_ring_def)
  ultimately have "heap_shape heap addr [addr] [addr] (in_use s') s'" using f by (auto simp: heap_shape_def i)
  moreover have "accounted heap [addr] (in_use s') s'" using f by (simp add: accounted_def i)
  moreover have "live_blocks [addr] s' Map.empty" using f by (simp add: live_blocks_def)
  ultimately have "heap_ok heap addr Map.empty s'" using f unfolding heap_ok_def by fastforce
  then show ?thesis using s' f by simp
qed

section \<open>Sequences of calls\<close>

text \<open>
  The program allocates blocks of even size for which the last block has room (\<open>fits\<close>), frees what it has, changes sizes as
  \<open>resizable\<close> allows and writes into its blocks, in any order; \<open>live\<close> is what it has.
\<close>

inductive heap_run :: "u32 \<Rightarrow> u32 \<Rightarrow> memheaps \<Rightarrow> (u32 \<rightharpoonup> u32) \<Rightarrow> memheaps \<Rightarrow> bool" for heap addr s0 where
  heap_start: "heap_run heap addr s0 Map.empty s0"
| heap_alloc: "heap_run heap addr s0 live s \<Longrightarrow> even n \<Longrightarrow> fits heap addr n s \<Longrightarrow>
    nd_memheap_alloc heap n s = Some (p, s') \<Longrightarrow> heap_run heap addr s0 (live(p \<mapsto> n)) s'"
| heap_free: "heap_run heap addr s0 live s \<Longrightarrow> live p = Some n \<Longrightarrow> nd_memheap_free p s = Some s' \<Longrightarrow>
    heap_run heap addr s0 (live(p := None)) s'"
| heap_realloc: "heap_run heap addr s0 live s \<Longrightarrow> live p = Some m \<Longrightarrow> even n \<Longrightarrow> resizable heap addr p n s \<Longrightarrow>
    nd_memheap_realloc heap p n s = Some (q, s') \<Longrightarrow> heap_run heap addr s0 (live(p := None, q \<mapsto> n)) s'"
| heap_write: "heap_run heap addr s0 live s \<Longrightarrow> live p = Some n \<Longrightarrow> a - p < n \<Longrightarrow>
    heap_run heap addr s0 live (s\<lparr>bytes := (bytes s)(a := v)\<rparr>)"

lemma heap_run_ok:
  assumes "heap_run heap addr s0 live s" "heap_ok heap addr Map.empty s0"
  shows "heap_ok heap addr live s \<and> same_conf s0 s"
  using assms
proof induction
  case heap_start
  then show ?case by (simp add: same_pool_def)
next
  case (heap_alloc live s n p s')
  with memheap_alloc_ok [of heap addr live s n] show ?case by (auto simp: same_pool_def simp del: fun_upd_apply)
next
  case (heap_free live s p n s')
  with memheap_free_ok [of heap addr live s p n] show ?case by (auto simp: same_pool_def same_heap_def simp del: fun_upd_apply)
next
  case (heap_realloc live s p m n q s')
  with memheap_realloc_ok [of heap addr live s p m n] show ?case by (auto simp: same_pool_def simp del: fun_upd_apply)
next
  case (heap_write live s p n a v)
  then show ?case by (simp add: same_pool_def fun_upd_def)
qed

lemma nothing_live:
  assumes "heap_ok heap addr Map.empty s"
  shows "available_size s heap = pool_size s heap - item_size s" "pv s (end_item heap s) = addr"
proof -
  obtain xs F where sh: "heap_shape heap addr xs F (in_use s) s" and ac: "accounted heap xs (in_use s) s"
    and lv: "live_blocks xs s Map.empty" using assms by (auto simp: heap_ok_def)
  have ch: "block_chain heap addr xs s" using sh by (simp add: heap_shape_def)
  have free: "\<forall>x \<in> set xs. \<not> in_use s x" using lv by (auto simp: live_blocks_def)
  then have "filter (in_use s) xs = []" by (simp add: filter_empty_conv)
  moreover obtain x r where xs: "xs = x # r" using chain_geometry(2) [OF ch] by (cases xs) (auto simp: laid_out_def)
  have "no_two_free (in_use s) (x # r)" using sh xs by (simp add: heap_shape_def)
  then have "r = []" using free xs by (cases r) auto
  then have xs1: "xs = [addr]" using chain_geometry(2) [OF ch] xs by (simp add: laid_out_def)
  moreover have "pv s (end_item heap s) = addr"
    using chain_links(4) [of heap addr "[]" addr "[]" s] ch xs1 by simp
  ultimately show "available_size s heap = pool_size s heap - item_size s" "pv s (end_item heap s) = addr"
    using ac by (simp_all add: accounted_def eq_diff_eq)
qed

section \<open>Properties\<close>

text \<open>C26: the memory heap, within its limits. A program allocates blocks of even size for which the heap's last block has room
  inside the pool (\<open>fits\<close>: nothing in the code keeps a request from running past the pool, \<open>memheap_ignores_pool_size\<close>), frees
  them, writes into them, and changes their sizes to smaller even ones, or to larger even ones that fit and do not use up a free
  block behind but for less than a header (\<open>resizable\<close>: the others corrupt the heap or its accounts,
  \<open>memheap_realloc_wraps\<close>). Then after any such calls in any order its blocks are in the pool, behind their headers; any two are apart, with
  a header between them; a further allocation that \<open>fits\<close> succeeds with a new block, and every block can be freed.\<close>

theorem memheap_safe:
  assumes init: "nd_memheap_init heap addr sz s = Some (r, s0)"
    and place: "heap_place heap addr (unat sz) (hdr s)" "hdr s \<le> unat sz"
    and run: "heap_run heap addr s0 live s'"
  shows "(\<forall>p n. live p = Some n \<longrightarrow> hdr s \<le> offset addr p \<and> offset addr p + unat n + hdr s \<le> unat sz) \<and>
    (\<forall>p n q m. live p = Some n \<longrightarrow> live q = Some m \<longrightarrow> p \<noteq> q \<longrightarrow> offset addr p \<le> offset addr q \<longrightarrow>
      offset addr p + unat n + hdr s \<le> offset addr q) \<and>
    (\<forall>n. even n \<longrightarrow> fits heap addr n s' \<longrightarrow> wp (nd_memheap_alloc heap n s') (\<lambda>(p, _). p \<noteq> 0 \<and> live p = None)) \<and>
    (\<forall>p n. live p = Some n \<longrightarrow> wp (nd_memheap_free p s') (\<lambda>_. True))"
proof -
  have s0: "heap_ok heap addr Map.empty s0" "pool_size s0 heap = sz" "debug s0 = debug s"
    using nd_memheap_init_ok [OF place] init by simp_all
  note R = heap_run_ok [OF run s0(1)]
  then have z: "pool_size s' heap = sz" "hdr s' = hdr s" using s0 by (simp_all add: same_pool_def item_size_def)
  have ok: "heap_ok heap addr live s'" using R by simp
  note L = live_place [OF ok, unfolded z]
  have "wp (nd_memheap_alloc heap n s') (\<lambda>(p, _). p \<noteq> 0 \<and> live p = None)" if "even n" "fits heap addr n s'" for n
    by (rule wp_pair_mono [OF memheap_alloc_ok [OF ok that]]) simp
  moreover have "wp (nd_memheap_free p s') (\<lambda>_. True)" if "live p = Some n" for p n
    by (rule wp_mono [OF memheap_free_ok [OF ok that]]) simp
  ultimately show ?thesis using L(1,2) by (intro conjI allI impI) (simp, simp, rule L(3), simp_all)
qed

text \<open>C27: nothing is lost, within the same limits. When a program whose allocations had even sizes that \<open>fits\<close> and whose resizes were
  \<open>resizable\<close> has freed everything, the free blocks have merged into one again: \<^verbatim>\<open>available_size\<close> is that of a fresh heap, and
  a request fits exactly if it fits into a fresh heap. (After a resize that takes the whole next block and leaves a rest smaller than a
  header, which is not \<open>resizable\<close>, the code counts that rest twice, and the first part fails.)\<close>

theorem memheap_all_freed:
  assumes init: "nd_memheap_init heap addr sz s = Some (r, s0)"
    and place: "heap_place heap addr (unat sz) (hdr s)" "hdr s \<le> unat sz"
    and run: "heap_run heap addr s0 Map.empty s'"
  shows "available_size s' heap = available_size s0 heap \<and> available_size s0 heap = sz - item_size s \<and>
    (\<forall>n. fits heap addr n s' \<longleftrightarrow> unat n + 2 * hdr s \<le> unat sz)"
proof -
  have s0: "heap_ok heap addr Map.empty s0" "pool_size s0 heap = sz" "debug s0 = debug s"
    using nd_memheap_init_ok [OF place] init by simp_all
  have R: "heap_ok heap addr Map.empty s'" "same_conf s0 s'" using heap_run_ok [OF run s0(1)] by simp_all
  have "pool_size s' heap = sz" "item_size s' = item_size s" "item_size s0 = item_size s"
    using s0 R(2) by (simp_all add: same_pool_def item_size_def)
  then show ?thesis using nothing_live [OF R(1)] nothing_live [OF s0(1)] s0(2) by (auto simp: fits_def)
qed

definition fresh_heaps :: memheaps where
  "fresh_heaps = \<lparr>items = (\<lambda>_. \<lparr>magic = 0, item_pool = 0, next_item = 0, prev_item = 0, next_free = 0, prev_free = 0\<rparr>),
     start_addr = (\<lambda>_. 0), pool_size = (\<lambda>_. 0), available_size = (\<lambda>_. 0), heap_waiters = (\<lambda>_. []), bytes = (\<lambda>_. 0),
     debug = False\<rparr>"

lemma fresh_place: "heap_place 0x20001000 0x20000000 (unat (256 :: u32)) (hdr fresh_heaps)" "hdr fresh_heaps = 20"
  "debug fresh_heaps = False"
  by (simp_all add: heap_place_def fresh_heaps_def item_size_def offset_def)

lemma fresh_run:
  obtains s0 s1 p where "nd_memheap_init 0x20001000 0x20000000 256 fresh_heaps = Some (ND_EOK, s0)"
    "heap_run 0x20001000 0x20000000 s0 [p \<mapsto> 64] s1" "heap_ok 0x20001000 0x20000000 [p \<mapsto> 64] s1" "nd_memheap_alloc 0x20001000 64 s0 = Some (p, s1)"
proof -
  obtain s0 where i: "nd_memheap_init 0x20001000 0x20000000 256 fresh_heaps = Some (ND_EOK, s0)"
    and ok: "heap_ok 0x20001000 0x20000000 Map.empty s0" and z: "pool_size s0 0x20001000 = 256" "debug s0 = False"
    using nd_memheap_init_ok [OF fresh_place(1)] by (auto simp: wp_iff fresh_place)
  have "fits 0x20001000 0x20000000 64 s0" using nothing_live(2) [OF ok] z by (simp add: fits_def item_size_def)
  moreover obtain p s1 where a: "nd_memheap_alloc 0x20001000 64 s0 = Some (p, s1)"
      "heap_ok 0x20001000 0x20000000 [p \<mapsto> 64] s1"
    using memheap_alloc_ok [OF ok, of 64] calculation by (auto simp: wp_iff simp del: fun_upd_apply)
  ultimately show thesis using i by (intro that [of s0 p s1] heap_alloc [of _ _ _ Map.empty s0] heap_start) simp_all
qed

theorem memheap_safe_witness:
  "\<exists>s0 s1 p. nd_memheap_init 0x20001000 0x20000000 256 fresh_heaps = Some (ND_EOK, s0) \<and>
     nd_memheap_alloc 0x20001000 64 s0 = Some (p, s1) \<and>
     20 \<le> offset 0x20000000 p \<and> offset 0x20000000 p + 64 + 20 \<le> 256 \<and> wp (nd_memheap_free p s1) (\<lambda>_. True)"
proof (rule fresh_run)
  fix s0 s1 p
  assume h: "nd_memheap_init 0x20001000 0x20000000 256 fresh_heaps = Some (ND_EOK, s0)"
    "heap_run 0x20001000 0x20000000 s0 [p \<mapsto> 64] s1" "nd_memheap_alloc 0x20001000 64 s0 = Some (p, s1)"
  note T = memheap_safe [OF h(1) fresh_place(1) _ h(2), simplified fresh_place]
  have "20 \<le> offset 0x20000000 p \<and> offset 0x20000000 p + 64 + 20 \<le> 256"
    using T [THEN conjunct1, rule_format, of p 64] by simp
  moreover have "wp (nd_memheap_free p s1) (\<lambda>_. True)"
    using T [THEN conjunct2, THEN conjunct2, THEN conjunct2, rule_format, of p 64] by simp
  ultimately show ?thesis using h by blast
qed

theorem memheap_all_freed_witness:
  "\<exists>s0 s1 s2 p. nd_memheap_init 0x20001000 0x20000000 256 fresh_heaps = Some (ND_EOK, s0) \<and>
     nd_memheap_alloc 0x20001000 64 s0 = Some (p, s1) \<and> nd_memheap_free p s1 = Some s2 \<and>
     available_size s2 0x20001000 = 236"
proof (rule fresh_run)
  fix s0 s1 p
  assume h: "nd_memheap_init 0x20001000 0x20000000 256 fresh_heaps = Some (ND_EOK, s0)"
    "heap_run 0x20001000 0x20000000 s0 [p \<mapsto> 64] s1" "heap_ok 0x20001000 0x20000000 [p \<mapsto> 64] s1"
    "nd_memheap_alloc 0x20001000 64 s0 = Some (p, s1)"
  obtain s2 where f: "nd_memheap_free p s1 = Some s2" using memheap_free_ok [OF h(3), of p 64] by (auto simp: wp_iff)
  have "heap_run 0x20001000 0x20000000 s0 Map.empty s2" using heap_free [OF h(2) _ f] by simp
  from memheap_all_freed [OF h(1) fresh_place(1) _ this] show ?thesis
    using h f by (auto simp: fresh_place item_size_def)
qed

text \<open>C29: \<^verbatim>\<open>pool_size\<close> is never looked at. The sentinel behind the last block is in the \<^verbatim>\<open>nd_memheap_t\<close>, so the last block
  reaches from the pool to wherever that is: a fresh heap gives out a block of any (even) size that ends before the
  \<^verbatim>\<open>nd_memheap_t\<close>, however small the pool is, and \<^verbatim>\<open>available_size\<close> wraps below zero.\<close>

theorem memheap_ignores_pool_size:
  assumes place: "heap_place heap addr P (hdr s)" "hdr s \<le> P"
    and n: "even n" "unat n + 2 * hdr s \<le> P"
  shows "wp (do {
      (_, s0) \<leftarrow> nd_memheap_init heap addr sz s;
      nd_memheap_alloc heap n s0
    }) (\<lambda>(p, s'). p = addr + item_size s \<and> available_size s' heap = sz - item_size s - (n + item_size s))"
proof (rule init_fields [OF heap_place_distinct [OF place]])
  fix s0
  let ?e = "end_item heap s"
  assume s0: "nd_memheap_init heap addr sz s = Some (ND_EOK, s0)"
    and f: "nx s0 heap = addr" "nx s0 addr = ?e" "nf s0 heap = addr" "pf s0 heap = addr"
      "nf s0 addr = heap" "pf s0 addr = heap" "debug s0 = debug s" "available_size s0 heap = sz - item_size s"
  have i: "item_size s0 = item_size s" using f by (simp add: item_size_def)
  note D = heap_place_distinct [OF place]
  define y where "y = item_split_at addr n s"
  have nk: "unat (item_size s + n) = hdr s + unat n"
    using n(2) place hdr_simps(2) [of s] by (intro unat_plus) (simp add: heap_place_def)
  have oy: "offset addr y = hdr s + unat n"
    using offset_add [of addr addr "item_size s + n"] nk n(2) place(1) hdr_simps(2) [of s]
    by (simp add: y_def item_split_at_def heap_place_def add.assoc)
  then have "0 < offset addr y" "offset addr y < offset addr heap" "offset addr heap < offset addr ?e"
    using offset_end(1) [OF place(1)] n(2) place(1) hdr_simps(2) [of s] by (simp_all add: heap_place_def)
  then have y: "y \<noteq> addr" "y \<noteq> heap" "y \<noteq> ?e" by auto
  have ev: "\<not> bit y 0" using n(1) place(1) hdr_simps(3) [of s] by (simp add: heap_place_def y_def item_split_at_def bit_0)
  have y0: "y \<noteq> 0" by (rule block_nonzero [OF place(1) _ hdr_simps(2)]) (use oy n(2) in simp)
  have room: "?e - addr - item_size s = heap - addr" by (simp add: end_item_def)
  have le: "n + item_size s \<le> heap - addr" "n \<le> heap - addr"
    using nk n(2) place(1) by (simp_all add: word_le_nat_alt heap_place_def offset_def add.commute)
  have fnd: "find_fit heap n addr 0 s0 = Some (addr, heap - addr)"
    using D le f by (subst find_fit.simps) (simp add: i room)
  obtain s1 where s1: "item_init y heap s0 = Some s1" and e1: "nx s1 = nx s0" "nf s1 = nf s0" "pf s1 = pf s0" "debug s1 = debug s0"
      "available_size s1 = available_size s0" using item_init_ok [OF y0, of heap s0] by (auto simp: wp_iff)
  obtain s2 where s2: "free_list_replace addr y s1 = Some s2" and e2: "nx s2 = nx s1" "available_size s2 = available_size s1" "same_heap s1 s2"
    using free_list_replace_ok [of addr y s1] D y y0 f e1 by (auto simp: wp_iff put_links_def)
  obtain s3 where s3: "phys_list_insert_after addr y s2 = Some s3" and e3: "available_size s3 = available_size s2" "same_heap s2 s3"
    using phys_list_insert_after_ok [of addr y s2] D y ev y0 f e1 e2 by (auto simp: wp_iff put_links_def)
  have i3: "item_size s3 = item_size s" using e1(4) e2(3) e3(2) f(7) by (simp add: item_size_def same_heap_def)
  obtain s4 where s4: "ITEM_SET_USED addr (add_available heap (- (n + item_size s)) s3) = Some s4"
    and e4: "available_size s4 = available_size (add_available heap (- (n + item_size s)) s3)" "same_heap s3 s4"
    using set_fields(6) [OF D(6), of "add_available heap (- (n + item_size s)) s3"] by (auto simp: wp_iff put_links_def)
  have "item_size s4 = item_size s" using i3 e4(2) by (simp add: item_size_def same_heap_def)
  then show ?thesis
    using D f le e1 e2 e3 e4 s1 s2 s3 s4
    by (simp add: s0 nd_memheap_alloc_def memheap_alloc_def fnd i i3 y_def item_split_at_def item_to_data_def Let_def algebra_simps)
qed

theorem memheap_ignores_pool_size_witness:
  "wp (do {
      (_, s0) \<leftarrow> nd_memheap_init 0x20001000 0x20000000 24 fresh_heaps;
      nd_memheap_alloc 0x20001000 2000 s0
    }) (\<lambda>(p, s'). p = 0x20000014 \<and> available_size s' 0x20001000 = 24 - 20 - (2000 + 20))"
proof -
  have "item_size fresh_heaps = 20" by (simp add: fresh_heaps_def item_size_def)
  moreover have "heap_place 0x20001000 0x20000000 4096 (hdr fresh_heaps)"
    using fresh_place by (simp add: heap_place_def offset_def)
  ultimately show ?thesis
    using memheap_ignores_pool_size [of "0x20001000" "0x20000000" 4096 fresh_heaps 2000 24] by simp
qed

lemma chain_between:
  assumes ch: "block_chain heap addr (ls @ a # c # rs) s" and y: "offset addr a < offset addr y" "offset addr y < offset addr c"
  shows "y \<notin> set (heap # (ls @ a # c # rs) @ [end_item heap s])"
proof -
  note pl = chain_geometry(1) [OF ch]
  have sp: "spaced (offset addr) (hdr s) (ls @ [a])" "spaced (offset addr) (hdr s) (c # rs)"
    using chain_geometry(2) [OF ch] spaced_append [of "offset addr" "hdr s" ls a "c # rs"] by (auto simp: laid_out_def)
  have "offset addr c < offset addr heap" "offset addr heap < offset addr (end_item heap s)"
    using chain_geometry(3) [OF ch, of c] offset_end(1) [OF pl] pl hdr_simps(2) [of s] by (simp_all add: heap_place_def)
  then have "y \<noteq> heap" "y \<noteq> end_item heap s" "y \<noteq> a" "y \<noteq> c" using y by auto
  moreover have "y \<notin> set ls" using spaced_last [OF sp(1), of y] y by auto
  moreover have "y \<notin> set rs" using spaced_first [OF sp(2), of y] y by auto
  ultimately show ?thesis by auto
qed

lemma unat_uminus_le: "d \<noteq> 0 \<Longrightarrow> 2 ^ 32 \<le> unat (- d :: u32) + unat d"
  using unat_plus [of "- d" d] by (fastforce simp: unat_eq_0)

lemma move_block_ok:
  assumes sh: "heap_shape heap addr (ls @ x # nxt # z # rs) F (in_use s) s" and f: "\<not> in_use s nxt"
    and y: "y \<noteq> 0" "\<not> bit y 0" "y \<notin> set (heap # (ls @ x # nxt # z # rs) @ [end_item heap s])"
  shows "wp (do {
        s \<leftarrow> free_list_remove nxt s;
        s \<leftarrow> phys_list_remove nxt s;
        s \<leftarrow> item_init y heap s;
        s \<leftarrow> phys_list_insert_after x y s;
        free_list_insert_after heap y s
      }) (\<lambda>s'. nx s' y = z \<and> same_pool s s')"
proof -
  have ch: "block_chain heap addr (ls @ x # nxt # z # rs) s" and rg: "free_ring heap F s"
    and F: "set F = {z' \<in> set (ls @ x # nxt # z # rs). \<not> in_use s z'}" using sh by (simp_all add: heap_shape_def)
  have nz: "x \<noteq> 0" "z \<noteq> 0" using chain_blocks(2) [OF ch] by auto
  have z: "nx s nxt = z" using chain_links(1) [of heap addr "ls @ [x]" nxt "z # rs" s] ch by simp
  obtain F1 F2 where Fx: "F = F1 @ nxt # F2" using F f by (fastforce dest: split_list)
  obtain s1 where s1: "free_list_remove nxt s = Some s1" and r1: "free_ring heap (F1 @ F2) s1" "same_chain s s1"
    using ring_remove [OF rg [unfolded Fx]] by (auto simp: wp_iff)
  have h1: "same_heap s s1" using r1 by (simp add: same_chain_def)
  have "block_chain heap addr (ls @ x # nxt # z # rs) s1"
    unfolding chain_same [OF h1] using ch r1(2) by (simp add: block_chain_def same_chain_def)
  then obtain s2 where s2: "phys_list_remove nxt s1 = Some s2" and r2: "block_chain heap addr (ls @ x # z # rs) s2" "same_ring s1 s2"
    "nx s2 = (nx s1)(x := nx s1 nxt)" using chain_remove [of heap addr ls x nxt "z # rs" s1] by (auto simp: wp_iff)
  have h2: "same_heap s1 s2" and rg2: "free_ring heap (F1 @ F2) s2" using r1(1) r2(2) by (simp_all add: same_ring_def free_ring_def)
  obtain s3 where s3: "item_init y heap s2 = Some s3" and r3: "free_ring heap (F1 @ F2) s3" "same_pool s2 s3" "nx s3 = nx s2"
    using item_init_chain [OF r2(1) y(1) _ rg2] y(3) by (auto simp: wp_iff)
  have nx3: "nx s3 x = z" using r3(3) r2(3) r1(2) z by (simp add: same_chain_def)
  obtain s4 where s4: "phys_list_insert_after x y s3 = Some s4" and r4: "put_links ((nx s3)(y := z, x := y)) ((in_use s3)(y := False))
      ((pv s3)(y := x, z := y)) (nf s3) (pf s3) s3 s4"
    using phys_list_insert_after_ok [of x y s3] nz y nx3 by (auto simp: wp_iff)
  have rg4: "free_ring heap (F1 @ F2) s4" using r3(1) r4 by (simp add: free_ring_def put_links_def)
  have "y \<notin> set (heap # F1 @ F2)" using y(3) F Fx by auto
  then obtain s5 where s5: "free_list_insert_after heap y s4 = Some s5" and r5: "same_chain s4 s5"
    using ring_insert [OF rg4 _ y(1)] by (auto simp: wp_iff)
  have "nx s5 y = z" using r4 r5 y(3) by (auto simp: put_links_def same_chain_def)
  moreover have "same_pool s s5"
    using h1 h2 r3(2) r4 r5 by (meson put_linksD(7) same_chain_def same_heap_pool same_pool_trans)
  ultimately show ?thesis using s1 s2 s3 s4 s5 by simp
qed

lemma live_before_free:
  assumes ok: "heap_ok heap addr live s" and p: "live p = Some l"
    and nxt: "nxt = nx s (data_to_item p s)" "\<not> in_use s nxt" "nx s nxt \<noteq> end_item heap s"
  shows "\<exists>xs F ls z rs. heap_shape heap addr xs F (in_use s) s \<and> xs = ls @ data_to_item p s # nxt # z # rs \<and>
    in_use s (data_to_item p s) \<and> nx s nxt = z"
proof -
  let ?x = "data_to_item p s"
  obtain xs F where sh: "heap_shape heap addr xs F (in_use s) s" and last: "\<not> in_use s (last xs)"
    and x: "?x \<in> set xs" "in_use s ?x" using live_item [OF ok p] by metis
  have ch: "block_chain heap addr xs s" and rg: "free_ring heap F s" and F: "set F = {z \<in> set xs. \<not> in_use s z}"
    using sh by (simp_all add: heap_shape_def)
  have ne: "?x \<noteq> last xs" using x last by auto
  obtain ls r where xs0: "xs = ls @ ?x # r" using x by (auto dest: split_list)
  with ne obtain z' r' where r: "r = z' # r'" by (cases r) auto
  then have z': "z' = nxt" using chain_links(1) [of heap addr ls ?x r s] ch xs0 nxt(1) by simp
  obtain z rs where r': "r' = z # rs"
    using chain_links(1) [of heap addr "ls @ [?x]" nxt r' s] ch xs0 r z' nxt(3) by (cases r') auto
  have xs: "xs = ls @ ?x # nxt # z # rs" using xs0 r z' r' by simp
  have z: "nx s nxt = z" using chain_links(1) [of heap addr "ls @ [?x]" nxt r' s] ch xs0 r z' r' by simp
  show ?thesis using sh xs x(2) z by blast
qed

lemma remainder_wraps:
  assumes n: "unat b + unat m < unat n" "unat n < unat b + hdr s + unat m" and lim: "unat b + hdr s + unat m < 2 ^ 32"
  shows "2 ^ 32 - hdr s < unat (b + m - n)" "unat (b + item_size s + m) = unat b + hdr s + unat m"
proof -
  define d where "d = n - b - m"
  have "unat (n - b) = unat n - unat b" by (rule unat_sub) (use n in \<open>simp add: word_le_nat_alt\<close>)
  then have ud: "unat d = unat n - unat b - unat m"
    using unat_sub [of m "n - b"] n by (simp add: d_def word_le_nat_alt)
  then have "d \<noteq> 0" using n by auto
  then have "2 ^ 32 - hdr s < unat (- d)" using unat_uminus_le [of d] ud n hdr_simps(4) [of s] by simp
  moreover have "- d = b + m - n" by (simp add: d_def)
  ultimately show "2 ^ 32 - hdr s < unat (b + m - n)" by simp
  have "unat (b + item_size s) = unat b + hdr s" by (rule unat_plus) (use lim hdr_simps(2) [of s] in linarith)
  then show "unat (b + item_size s + m) = unat b + hdr s + unat m"
    using unat_plus [of "b + item_size s" m] lim by simp
qed

text \<open>C30: enlarging a block in place. When the free block behind it has not room for the rest (the sum of the two is
  smaller than the request) but nearly so (the header between them makes up for it), the test of
  \<^verbatim>\<open>nd_memheap_realloc\<close> for a remainder is made on a difference that has wrapped: the block is enlarged and a free block is
  made whose header runs into the next block, and whose size is nearly the whole address space.\<close>

theorem memheap_realloc_wraps:
  assumes ok: "heap_ok heap addr live s" and p: "live p = Some l"
    and nxt: "nxt = nx s (data_to_item p s)" "\<not> in_use s nxt" "nx s nxt \<noteq> end_item heap s"
    and b: "b = room s (data_to_item p s)" and m: "m = room s nxt"
    and n: "even n" "unat b + unat m < unat n" "unat n < unat b + hdr s + unat m"
  shows "wp (nd_memheap_realloc heap p n s) (\<lambda>(q, s'). q = p \<and> item_next (p + n) s' = Some (nx s nxt) \<and>
    offset addr (p + n) < offset addr (nx s nxt) \<and> offset addr (nx s nxt) < offset addr (p + n) + hdr s \<and>
    (\<exists>d. item_data_size (p + n) s' = Some d \<and> 2 ^ 32 - hdr s < unat d))"
proof -
  let ?x = "data_to_item p s" and ?y = "p + n"
  obtain xs F ls z rs where sh: "heap_shape heap addr xs F (in_use s) s" and xs: "xs = ls @ ?x # nxt # z # rs"
    and x: "in_use s ?x" and z: "nx s nxt = z" using live_before_free [OF ok p nxt] by blast
  have ch: "block_chain heap addr xs s" using sh by (simp add: heap_shape_def)
  have xx: "?x \<in> set xs" using xs by simp
  have o1: "offset addr ?x + hdr s + unat b = offset addr nxt"
    using room_offset [of heap addr ls ?x "nxt # z # rs" s] ch xs by (simp add: b)
  have o2: "offset addr nxt + hdr s + unat m = offset addr z"
    using room_offset [of heap addr "ls @ [?x]" nxt "z # rs" s] ch xs by (simp add: m)
  have zP: "offset addr z + hdr s \<le> unat (pool_size s heap)" using chain_geometry(3) [OF ch, of z] xs by simp
  note pl = chain_geometry(1) [OF ch]
  have P: "unat (pool_size s heap) + 2 * hdr s \<le> 2 ^ 32" using pl by (simp add: heap_place_def)
  have oy: "offset addr ?y = offset addr ?x + hdr s + unat n"
    using data_offset [OF ch xx] offset_add [of addr p n] n o1 o2 zP P by simp
  then have y: "offset addr nxt < offset addr ?y" "offset addr ?y < offset addr z" "offset addr z < offset addr ?y + hdr s"
    using n o1 o2 by simp_all
  have ynew: "?y \<notin> set (heap # xs @ [end_item heap s])"
    using chain_between [of heap addr "ls @ [?x]" nxt z rs s ?y] ch y xs by simp
  have y0: "?y \<noteq> 0" by (rule block_nonzero [OF pl _ hdr_simps(2)]) (use y zP in simp)
  have p0: "p \<noteq> 0" by (rule block_nonzero [OF pl _ hdr_simps(2)]) (use data_offset [OF ch xx] o1 o2 zP in simp)
  have nz: "?x \<noteq> 0" "nxt \<noteq> 0" "z \<noteq> 0" and dist: "distinct (heap # xs @ [end_item heap s])" and ev: "\<not> bit ?y 0"
    using chain_blocks [OF ch] xs n(1) hdr_simps(3) [of s] by (auto simp: data_to_item_def bit_0)
  obtain s' where mv: "do {
        s \<leftarrow> free_list_remove nxt s;
        s \<leftarrow> phys_list_remove nxt s;
        s \<leftarrow> item_init ?y heap s;
        s \<leftarrow> phys_list_insert_after ?x ?y s;
        free_list_insert_after heap ?y s
      } = Some s'" and nxy: "nx s' ?y = z" and sp: "same_pool s s'"
    using move_block_ok [of heap addr ls ?x nxt z rs F s ?y] sh xs nxt(2) y0 ev ynew by (auto simp: wp_iff)
  have "unat b + hdr s + unat m < 2 ^ 32" using o1 o2 zP P hdr_simps(2) [of s] by linarith
  note w = remainder_wraps [OF n(2,3) this]
  define e where "e = b + m - n"
  have eq: "z - ?y - item_size s = b + m - n"
    using z by (simp add: b m room_def data_to_item_def nxt(1))
  have "nd_memheap_realloc heap p n s = Some (p, add_available heap (- (n - b)) s')"
  proof -
    have "\<not> n < b" "n \<noteq> b" "n \<le> b + item_size s + m" "item_size s \<le> b + m - n"
      using n w hdr_simps(4) [of s] by (auto simp: word_less_nat_alt word_le_nat_alt)
    moreover have "check_magic ?x s = Some ()"
      using chain_geometry(4) [OF ch xx] nz by (simp add: check_magic_def load_item_def owned_def)
    moreover have "item_split_at ?x n s = ?y" by (simp add: item_split_at_def data_to_item_def)
    moreover have "nx s ?x - ?x - item_size s = b" "nx s nxt - nxt - item_size s = m" by (simp_all add: b m room_def)
    ultimately show ?thesis
      using p0 nz nxt(2) mv by (simp add: nd_memheap_realloc_def nxt(1) [symmetric] Let_def)
  qed
  moreover have "item_data_size ?y (add_available heap (- (n - b)) s') = Some e"
    using y0 nxy eq e_def same_poolD(1) [OF sp] by simp
  ultimately show ?thesis using y w(1) [folded e_def] z nxy y0 by simp
qed

text \<open>A heap with blocks of 64, 32 (free) and 32 bytes and the rest of its pool of 512 bytes.\<close>

definition some_heap :: memheaps where
  "some_heap = fresh_heaps\<lparr>pool_size := (\<lambda>_. 512), available_size := (\<lambda>_. 336), items := (\<lambda>_. undefined)(
     0x20001000 := \<lparr>magic = 0, item_pool = 0x20001000, next_item = 0x20000001, prev_item = 0x20000000, next_free = 0x20000054, prev_free = 0x200000BC\<rparr>,
     0x20000000 := \<lparr>magic = 0, item_pool = 0x20001000, next_item = 0x20000055, prev_item = 0x20001000, next_free = 0, prev_free = 0\<rparr>,
     0x20000054 := \<lparr>magic = 0, item_pool = 0x20001000, next_item = 0x20000088, prev_item = 0x20000000, next_free = 0x200000BC, prev_free = 0x20001000\<rparr>,
     0x20000088 := \<lparr>magic = 0, item_pool = 0x20001000, next_item = 0x200000BD, prev_item = 0x20000054, next_free = 0, prev_free = 0\<rparr>,
     0x200000BC := \<lparr>magic = 0, item_pool = 0x20001000, next_item = 0x20001014, prev_item = 0x20000088, next_free = 0x20001000, prev_free = 0x20000054\<rparr>,
     0x20001014 := \<lparr>magic = 0, item_pool = 0x20001000, next_item = 0x20001001, prev_item = 0x200000BC, next_free = 0, prev_free = 0\<rparr>)\<rparr>"

lemma some_heap_fields:
  "nx some_heap 0x20001000 = 0x20000000" "nx some_heap 0x20000000 = 0x20000054" "nx some_heap 0x20000054 = 0x20000088"
  "nx some_heap 0x20000088 = 0x200000BC" "nx some_heap 0x200000BC = 0x20001014"
  "in_use some_heap 0x20001000" "in_use some_heap 0x20000000" "\<not> in_use some_heap 0x20000054" "in_use some_heap 0x20000088"
  "\<not> in_use some_heap 0x200000BC" "in_use some_heap 0x20001014" "item_size some_heap = 20" "pool_size some_heap 0x20001000 = 512"
  "available_size some_heap 0x20001000 = 336" "end_item 0x20001000 some_heap = 0x20001014"
  by (simp_all add: some_heap_def fields item_size_def end_item_def fresh_heaps_def)

lemma some_heap_ok: "heap_ok 0x20001000 0x20000000 [0x20000014 \<mapsto> 64, 0x2000009C \<mapsto> 32] some_heap"
proof -
  let ?xs = "[0x20000000, 0x20000054, 0x20000088, 0x200000BC]"
  note f = some_heap_fields
  have "block_chain 0x20001000 0x20000000 ?xs some_heap"
    by (simp add: block_chain_def heap_place_def laid_out_def f offset_def owned_def)
      (simp add: some_heap_def fields fresh_heaps_def)
  moreover have "free_ring 0x20001000 [0x20000054, 0x200000BC] some_heap"
    by (simp add: free_ring_def some_heap_def fields fresh_heaps_def)
  ultimately have "heap_shape 0x20001000 0x20000000 ?xs [0x20000054, 0x200000BC] (in_use some_heap) some_heap"
    by (auto simp: heap_shape_def f)
  moreover have "accounted 0x20001000 ?xs (in_use some_heap) some_heap"
    by (simp add: accounted_def room_def f)
  moreover have "live_blocks ?xs some_heap [0x20000014 \<mapsto> 64, 0x2000009C \<mapsto> 32]"
    by (auto simp: live_blocks_def f room_def item_to_data_def data_to_item_def)
  ultimately show ?thesis unfolding heap_ok_def using f(10)
    by - (rule exI [of _ ?xs], rule exI [of _ "[0x20000054, 0x200000BC]"], simp)
qed

theorem memheap_realloc_wraps_witness:
  "\<exists>s' d. nd_memheap_realloc 0x20001000 0x20000014 106 some_heap = Some (0x20000014, s') \<and>
     item_data_size 0x2000007E s' = Some d \<and> 2 ^ 32 - 20 < unat d"
proof -
  have "wp (nd_memheap_realloc 0x20001000 0x20000014 106 some_heap) (\<lambda>(q, s'). q = 0x20000014 \<and>
      item_next (0x20000014 + 106) s' = Some (nx some_heap 0x20000054) \<and>
      offset 0x20000000 (0x20000014 + 106) < offset 0x20000000 (nx some_heap 0x20000054) \<and>
      offset 0x20000000 (nx some_heap 0x20000054) < offset 0x20000000 (0x20000014 + 106) + hdr some_heap \<and>
      (\<exists>d. item_data_size (0x20000014 + 106) s' = Some d \<and> 2 ^ 32 - hdr some_heap < unat d))"
    by (rule memheap_realloc_wraps [OF some_heap_ok, where l = 64 and b = 64 and m = 32])
      (simp_all add: some_heap_fields room_def data_to_item_def)
  then show ?thesis unfolding wp_iff by (auto simp: some_heap_fields)
qed

text \<open>C28: changing the size of a block. To a smaller size always, and to a larger one that fits unless less than a header
  would be left of the free block behind it: the block is where it was or where none of the program's blocks was, has the
  new size, and begins with what it held; the other blocks and their contents are as before, and the heap is well formed.\<close>

theorem memheap_realloc_correct:
  assumes ok: "heap_ok heap addr live s" and p: "live p = Some l" and n: "even n" and rs: "resizable heap addr p n s"
  shows "wp (nd_memheap_realloc heap p n s) (\<lambda>(q, s'). q \<noteq> 0 \<and> (q = p \<or> live q = None) \<and>
    heap_ok heap addr (live(p := None, q \<mapsto> n)) s' \<and>
    (\<forall>k. k < l \<and> k < n \<longrightarrow> bytes s' (q + k) = bytes s (p + k)) \<and>
    (\<forall>r m k. live r = Some m \<and> r \<noteq> p \<and> k < m \<longrightarrow> bytes s' (r + k) = bytes s (r + k)))"
proof (rule wp_pair_mono [OF memheap_realloc_ok [OF assms]], elim conjE)
  fix q s'
  let ?b = "room s (data_to_item p s)" and ?live = "live(p := None, q \<mapsto> n)"
  assume q: "q \<noteq> 0" "q = p \<or> live q = None \<and> ?b < n" "heap_ok heap addr ?live s'" and mv: "moved p q ?b s s'"
  have "l \<le> ?b" using live_item [OF ok p] by metis
  then have "bytes s' (q + k) = bytes s (p + k)" if "k < l" for k using mv that by (auto simp: moved_def)
  moreover have "bytes s' (r + k) = bytes s (r + k)" if r: "live r = Some m" "r \<noteq> p" "k < m" for r m k
  proof (cases "p \<noteq> q \<and> r + k - q < n")
    case True
    then have "q + of_nat (unat (r + k - q)) \<noteq> r + of_nat (unat k)"
      using r q(2) by (intro live_apart [OF q(3), of r m q n]) (auto simp: word_less_nat_alt)
    then show ?thesis by simp
  next
    case False
    then show ?thesis using mv q(2) by (auto simp: moved_def)
  qed
  ultimately show "q \<noteq> 0 \<and> (q = p \<or> live q = None) \<and> heap_ok heap addr ?live s' \<and>
    (\<forall>k. k < l \<and> k < n \<longrightarrow> bytes s' (q + k) = bytes s (p + k)) \<and>
    (\<forall>r m k. live r = Some m \<and> r \<noteq> p \<and> k < m \<longrightarrow> bytes s' (r + k) = bytes s (r + k))" using q by auto
qed


text \<open>A block of 64 bytes with a free one of 32 behind it: 70 fit there, for 200 the block moves.\<close>

theorem memheap_realloc_witness:
  "wp (nd_memheap_realloc 0x20001000 0x20000014 30 some_heap) (\<lambda>(q, s'). q \<noteq> 0 \<and>
     heap_ok 0x20001000 0x20000000 ([0x20000014 \<mapsto> 64, 0x2000009C \<mapsto> 32](0x20000014 := None, q \<mapsto> 30)) s') \<and>
   wp (nd_memheap_realloc 0x20001000 0x20000014 70 some_heap) (\<lambda>(q, s'). q \<noteq> 0 \<and>
     heap_ok 0x20001000 0x20000000 ([0x20000014 \<mapsto> 64, 0x2000009C \<mapsto> 32](0x20000014 := None, q \<mapsto> 70)) s') \<and>
   wp (nd_memheap_realloc 0x20001000 0x20000014 200 some_heap) (\<lambda>(q, s'). q \<noteq> 0 \<and>
     heap_ok 0x20001000 0x20000000 ([0x20000014 \<mapsto> 64, 0x2000009C \<mapsto> 32](0x20000014 := None, q \<mapsto> 200)) s')"
proof -
  have "pv some_heap 0x20001014 = 0x200000BC" by (simp add: some_heap_def fields)
  then have r: "resizable 0x20001000 0x20000000 0x20000014 n some_heap" if "n = 30 \<or> n = 70 \<or> n = 200" for n
    using that by (auto simp: resizable_def Let_def some_heap_fields room_def data_to_item_def fits_def offset_def)
  show ?thesis
    by (intro conjI; rule wp_pair_mono [OF memheap_realloc_correct [OF some_heap_ok, where p = "0x20000014", OF _ _ r]]) auto
qed

end
