(* ===== verification/Nd_Context.thy ===== *)
theory Nd_Context
  imports Nd_Strings Nd_State
begin

text \<open>
  What the ports have in common (\<^verbatim>\<open>arch/*\<close>): frames of words in the 32-bit memory, a switch of contexts that saves the
  registers of a thread on its stack and restores those of another, runs of threads on their own stacks, and the
  contracts \<open>port_context\<close> and \<open>port_boot\<close> with what follows from them for every run. \<open>thread_stack_init\<close> is the
  end of \<^verbatim>\<open>nd_thread_init\<close> in \<^verbatim>\<open>kernel/nd_thread.c\<close>. The frames of the C functions called during a switch, which lie on the
  outgoing stack below the saved context, are not modelled.
\<close>

section \<open>Frames in memory\<close>

text \<open>\<open>span a n\<close> are the addresses of the \<open>n\<close> bytes from \<open>a\<close> on.\<close>

definition span :: "u32 \<Rightarrow> nat \<Rightarrow> u32 set" where
  "span a n = {b. unat a \<le> unat b \<and> unat b < unat a + n}"

definition agree_on :: "u32 set \<Rightarrow> mem \<Rightarrow> mem \<Rightarrow> bool" where
  "agree_on A m m' \<longleftrightarrow> (\<forall>b \<in> A. m b = m' b)"

text \<open>Words stored at offsets from a base, in the order given, and registers loaded from such words.\<close>

fun store_at :: "u32 \<Rightarrow> (nat \<times> u32) list \<Rightarrow> mem \<Rightarrow> mem option" where
  "store_at base [] m = Some m"
| "store_at base ((off, v) # fs) m = Option.bind (store_word (base + of_nat off) v m) (store_at base fs)"

fun load_regs :: "u32 \<Rightarrow> (nat \<times> nat) list \<Rightarrow> mem \<Rightarrow> (nat \<Rightarrow> u32) \<Rightarrow> (nat \<Rightarrow> u32) option" where
  "load_regs base [] m r = Some r"
| "load_regs base ((off, i) # xs) m r =
     Option.bind (load_word (base + of_nat off) m) (\<lambda>v. load_regs base xs m (r(i := v)))"

lemma agree_on_refl [simp]: "agree_on A m m"
  by (simp add: agree_on_def)

lemma agree_on_sym: "agree_on A m m' \<Longrightarrow> agree_on A m' m"
  by (simp add: agree_on_def)

lemma agree_on_trans: "agree_on A m m1 \<Longrightarrow> agree_on A m1 m2 \<Longrightarrow> agree_on A m m2"
  by (simp add: agree_on_def)

lemma agree_on_mono: "agree_on B m m' \<Longrightarrow> A \<subseteq> B \<Longrightarrow> agree_on A m m'"
  by (auto simp: agree_on_def)

lemma span_0 [simp]: "span a 0 = {}"
  by (auto simp: span_def)

lemma unat_offset: "unat (a :: u32) + n < 2 ^ 32 \<Longrightarrow> unat (a + of_nat n) = unat a + n"
  by (simp add: unat_word_ariths unat_of_nat)

lemma span_sub: "unat a + n \<le> 2 ^ 32 \<Longrightarrow> off + k \<le> n \<Longrightarrow> 0 < k \<Longrightarrow> span (a + of_nat off) k \<subseteq> span a n"
  by (auto simp: span_def unat_offset)

lemma word_aligned_unat: "word_aligned a \<longleftrightarrow> 4 dvd unat a"
proof -
  have "word_aligned a \<longleftrightarrow> unat (a mod 4) = 0" by (simp add: word_aligned_def unat_eq_0)
  then show ?thesis by (simp add: unat_mod mod_eq_0_iff_dvd)
qed

lemma word_aligned_off: "word_aligned a \<Longrightarrow> 4 dvd off \<Longrightarrow> unat a + off < 2 ^ 32 \<Longrightarrow> word_aligned (a + of_nat off)"
  by (simp add: word_aligned_unat unat_offset)

lemma load32_agree:
  assumes "agree_on (span a 4) m m'" "unat a + 4 \<le> 2 ^ 32"
  shows "load32 m a = load32 m' a"
proof -
  have "m (a + of_nat k) = m' (a + of_nat k)" if "k < 4" for k
    using assms that by (simp add: agree_on_def span_def unat_offset)
  from this [of 0] this [of 1] this [of 2] this [of 3] show ?thesis by (simp add: load32_def)
qed

lemma store32_outside: "unat a + 4 \<le> 2 ^ 32 \<Longrightarrow> b \<notin> span a 4 \<Longrightarrow> store32 a v m b = m b"
proof -
  assume a: "unat a + 4 \<le> 2 ^ 32" "b \<notin> span a 4"
  have "b \<noteq> a + of_nat k" if "k < 4" for k
    using a that by (auto simp: span_def unat_offset)
  from this [of 0] this [of 1] this [of 2] this [of 3] show ?thesis by (simp add: store32_def)
qed

text \<open>What a frame of \<open>n\<close> bytes holds, whatever happens to the rest of the memory.\<close>

definition holds :: "u32 \<Rightarrow> nat \<Rightarrow> (nat \<times> u32) list \<Rightarrow> mem \<Rightarrow> bool" where
  "holds base n fs m \<longleftrightarrow> (\<forall>(off, v) \<in> set fs. load_word (base + of_nat off) m = Some v)"

definition frame_ok :: "u32 \<Rightarrow> nat \<Rightarrow> (nat \<times> u32) list \<Rightarrow> bool" where
  "frame_ok base n fs \<longleftrightarrow> word_aligned base \<and> unat base + n \<le> 2 ^ 32 \<and>
     (\<forall>off \<in> fst ` set fs. 4 dvd off \<and> off + 4 \<le> n) \<and> distinct (map fst fs)"

lemma holds_agree:
  assumes "holds base n fs m" "frame_ok base n fs" "agree_on (span base n) m m'"
  shows "holds base n fs m'"
proof -
  have "load_word (base + of_nat off) m' = load_word (base + of_nat off) m" if "(off, v) \<in> set fs" for off v
  proof -
    have o: "off + 4 \<le> n" "unat base + n \<le> 2 ^ 32" using assms(2) that by (force simp: frame_ok_def)+
    then have "agree_on (span (base + of_nat off) 4) m m'" by (intro agree_on_mono [OF assms(3)] span_sub) simp_all
    moreover have "unat (base + of_nat off) + 4 \<le> 2 ^ 32" using o by (simp add: unat_offset)
    ultimately show ?thesis by (simp add: load_word_def load32_agree)
  qed
  then show ?thesis using assms(1) unfolding holds_def by fastforce
qed

lemma load_store_at:
  assumes "store_at base fs m = Some m'" "\<forall>o' \<in> fst ` set fs. 4 dvd o' \<and> o' + 4 \<le> n \<and> o' \<noteq> off" "4 dvd off" "off + 4 \<le> n"
    "unat base + n \<le> 2 ^ 32"
  shows "load32 m' (base + of_nat off) = load32 m (base + of_nat off)"
  using assms
proof (induction fs arbitrary: m)
  case (Cons f fs)
  obtain o' v where f: "f = (o', v)" by (cases f)
  have "o' + 4 \<le> off \<or> off + 4 \<le> o'" using Cons.prems(2,3) f by (auto elim!: dvdE)
  moreover have "unat (base + of_nat o') = unat base + o'" "unat (base + of_nat off) = unat base + off"
    using Cons.prems f by (simp_all add: unat_offset)
  ultimately have "load32 (store32 (base + of_nat o') v m) (base + of_nat off) = load32 m (base + of_nat off)"
    using Cons.prems f by (intro load32_store32_far) auto
  then show ?case using Cons.IH Cons.prems f by (auto simp: bind_Some_iff store_word_def split: if_splits)
qed simp

lemma store_at_ok:
  assumes "frame_ok base n fs"
  shows "wp (store_at base fs m) (\<lambda>m'. holds base n fs m' \<and> agree_on (- span base n) m m')"
  using assms
proof (induction fs arbitrary: m)
  case (Cons f fs)
  obtain off v where f: "f = (off, v)" by (cases f)
  have o: "4 dvd off" "off + 4 \<le> n" "unat base + n \<le> 2 ^ 32" and al: "word_aligned base" and fs: "frame_ok base n fs"
    and ne: "\<forall>o' \<in> fst ` set fs. 4 dvd o' \<and> o' + 4 \<le> n \<and> o' \<noteq> off"
    using Cons.prems f by (auto simp: frame_ok_def)
  let ?m = "store32 (base + of_nat off) v m"
  have u: "unat (base + of_nat off) + 4 \<le> 2 ^ 32" using o by (simp add: unat_offset)
  have al': "word_aligned (base + of_nat off)" by (rule word_aligned_off [OF al o(1)]) (use o in simp)
  have ag: "agree_on (- span base n) m ?m"
    using span_sub [OF o(3,2)] by (auto simp: agree_on_def intro!: store32_outside [OF u, symmetric])
  obtain m' where m': "store_at base fs ?m = Some m'" "holds base n fs m'" "agree_on (- span base n) ?m m'"
    using Cons.IH [OF fs, of ?m] by (auto simp: wp_iff)
  have "load_word (base + of_nat off) m' = Some v"
    using load_store_at [OF m'(1) ne o] al' by (simp add: load_word_def)
  then show ?case using m' ag al' by (auto simp: f store_word_def holds_def intro: agree_on_trans)
qed (simp add: holds_def)

lemma load_regs_ok:
  assumes "\<forall>(off, i) \<in> set xs. load_word (base + of_nat off) m = Some (f i)"
  shows "load_regs base xs m r = Some (\<lambda>i. if i \<in> snd ` set xs then f i else r i)"
  using assms
proof (induction xs arbitrary: r)
  case (Cons x xs)
  then show ?case by (cases x) (auto simp: fun_eq_iff)
qed simp

lemma holds_over:
  assumes "holds base n fs m" "frame_ok base n fs" "frame_ok base n gs" "store_at base gs m = Some m'"
    "\<forall>(off, v) \<in> set fs. off \<notin> fst ` set gs"
  shows "holds base n fs m'"
proof -
  have "load_word (base + of_nat off) m' = Some v" if "(off, v) \<in> set fs" for off v
  proof -
    have "4 dvd off" "off + 4 \<le> n" "unat base + n \<le> 2 ^ 32" "load_word (base + of_nat off) m = Some v"
      using assms(1,2) that by (force simp: frame_ok_def holds_def)+
    moreover have "load32 m' (base + of_nat off) = load32 m (base + of_nat off)"
      by (rule load_store_at [OF assms(4)]) (use assms(3,5) that calculation in \<open>auto simp: frame_ok_def\<close>)
    ultimately show ?thesis by (simp add: load_word_def split: if_splits)
  qed
  then show ?thesis by (auto simp: holds_def)
qed

lemma unat_below:
  assumes "n \<le> unat (a :: u32)"
  shows "unat (a - of_nat n) = unat a - n"
proof -
  have "n < 2 ^ 32" using assms unat32 [of a] by simp
  then have n: "unat (of_nat n :: u32) = n" by (simp add: unat_of_nat)
  then have "(of_nat n :: u32) \<le> a" using assms by (simp add: word_le_nat_alt)
  then show ?thesis using n by (simp add: unat_sub)
qed

lemma frame_below:
  assumes "word_aligned a" "n \<le> unat a" "4 dvd n" "0 < n" "\<forall>off \<in> fst ` set fs. 4 dvd off \<and> off + 4 \<le> n" "distinct (map fst fs)"
  shows "frame_ok (a - of_nat n) n fs"
proof -
  have "unat (a - of_nat n) + n = unat a" using unat_below [OF assms(2)] assms(2) by simp
  moreover have "word_aligned (a - of_nat n)"
    using assms(1-3) by (simp add: word_aligned_unat unat_below dvd_diff_nat)
  ultimately show ?thesis using assms unat32 [of a] by (simp add: frame_ok_def)
qed

lemma unat_align_down: "unat ((x :: u32) AND NOT (mask n)) = unat x - unat x mod 2 ^ n"
proof -
  have "x AND NOT (mask n) = x AND NOT (take_bit n x)" by (rule bit_word_eqI) (auto simp: bit_simps)
  also have "\<dots> = x - take_bit n x"
    by (rule disjunctive_diff_eq_and_not [symmetric], rule bit_word_eqI) (auto simp: bit_simps)
  finally have "x AND NOT (mask n) = x - take_bit n x" .
  moreover have "unat (take_bit n x) = unat x mod 2 ^ n" by (simp add: unsigned_take_bit_eq flip: take_bit_eq_mod)
  ultimately show ?thesis by (metis mod_less_eq_dividend unat_sub word_le_nat_alt)
qed

lemma unat_ND_ALIGN_DOWN:
  "unat (ND_ALIGN_DOWN x 8) = unat x div 8 * 8" "unat (ND_ALIGN_DOWN x 16) = unat x div 16 * 16"
proof -
  have "ND_ALIGN_DOWN x 8 = x AND NOT (mask 3)" "ND_ALIGN_DOWN x 16 = x AND NOT (mask 4)"
    by (simp_all add: ND_ALIGN_DOWN_def mask_eq_exp_minus_1)
  then show "unat (ND_ALIGN_DOWN x 8) = unat x div 8 * 8" "unat (ND_ALIGN_DOWN x 16) = unat x div 16 * 16"
    by (simp_all add: unat_align_down minus_mod_eq_div_mult)
qed

text \<open>
  A stack of \<open>sz\<close> bytes has room for a frame of \<open>n\<close> bytes whose upper end is the end of the stack plus \<open>slack\<close>, aligned
  down to \<open>al\<close>.
\<close>

definition frame_room :: "nat \<Rightarrow> nat \<Rightarrow> nat \<Rightarrow> u32 \<Rightarrow> u32 \<Rightarrow> bool" where
  "frame_room al slack n stack sz \<longleftrightarrow> unat stack + unat sz + slack < 2 ^ 32 \<and>
     unat stack + n \<le> (unat stack + unat sz + slack) div al * al \<and>
     (unat stack + unat sz + slack) div al * al \<le> unat stack + unat sz"

lemma frame_room_top:
  assumes "frame_room al slack n stack sz" "unat tp = (unat stack + unat sz + slack) div al * al"
  shows "n \<le> unat tp" "span (tp - of_nat n) n \<subseteq> span stack (unat sz)"
proof -
  show n: "n \<le> unat tp" using assms by (simp add: frame_room_def)
  show "span (tp - of_nat n) n \<subseteq> span stack (unat sz)"
    using assms by (auto simp: span_def frame_room_def unat_below [OF n])
qed

section \<open>Switching between contexts\<close>

text \<open>Why a context was saved, and the word that says so in a frame (Cortex-A9 and RISC-V).\<close>

datatype frame_type = FRAME_TYPE_VOLUNTARY | FRAME_TYPE_PREEMPT

fun frame_word :: "frame_type \<Rightarrow> u32" where
  "frame_word FRAME_TYPE_VOLUNTARY = 1"
| "frame_word FRAME_TYPE_PREEMPT = 2"

text \<open>
  The processor, the memory and the \<^verbatim>\<open>sp\<close> of the control blocks. Switching is what the ports have in common: the
  context is saved on the stack, its address in the control block of the running thread, and the context of \<open>next\<close> is
  restored from where its control block says. \<open>restore\<close> also gives the \<^verbatim>\<open>sp\<close> of the thread that runs from now on.
\<close>

record 'c machine =
  running :: tid
  core :: 'c
  ram :: mem
  saved_sp :: "tid \<Rightarrow> u32"

definition switch_context ::
  "('k \<Rightarrow> 'c \<Rightarrow> mem \<Rightarrow> (u32 \<times> mem) option) \<Rightarrow> (u32 \<Rightarrow> mem \<Rightarrow> 'c \<Rightarrow> ('c \<times> u32) option) \<Rightarrow> 'k \<Rightarrow> tid \<Rightarrow>
   'c machine \<Rightarrow> 'c machine option" where
  "switch_context save restore k next M = do {
     (p, m) \<leftarrow> save k (core M) (ram M);
     let sps = (saved_sp M)(running M := p);
     (c, p') \<leftarrow> restore (sps next) m (core M);
     Some \<lparr>running = next, core = c, ram = m, saved_sp = sps(next := p')\<rparr>
   }"

text \<open>The frame of a context of kind \<open>k\<close> fits below its stack pointer, within the stack \<open>S\<close>.\<close>

definition frame_span :: "('k \<Rightarrow> nat) \<Rightarrow> ('c \<Rightarrow> u32) \<Rightarrow> 'k \<Rightarrow> 'c \<Rightarrow> u32 set" where
  "frame_span frame stk k c = span (stk c - of_nat (frame k)) (frame k)"

definition has_room :: "('k \<Rightarrow> nat) \<Rightarrow> ('c \<Rightarrow> u32) \<Rightarrow> 'k \<Rightarrow> 'c \<Rightarrow> u32 set \<Rightarrow> bool" where
  "has_room frame stk k c S \<longleftrightarrow> word_aligned (stk c) \<and> frame k \<le> unat (stk c) \<and> frame_span frame stk k c \<subseteq> S"

text \<open>The context \<open>c\<close> can be restored from \<open>p\<close>, whatever the memory outside its frame and the processor hold.\<close>

definition parked ::
  "(u32 \<Rightarrow> mem \<Rightarrow> 'c \<Rightarrow> ('c \<times> u32) option) \<Rightarrow> ('k \<Rightarrow> nat) \<Rightarrow> ('k \<Rightarrow> 'c \<Rightarrow> 'c \<Rightarrow> bool) \<Rightarrow> ('c \<Rightarrow> u32) \<Rightarrow>
   'k \<Rightarrow> 'c \<Rightarrow> u32 \<Rightarrow> mem \<Rightarrow> bool" where
  "parked restore frame same stk k c p m \<longleftrightarrow> p = stk c - of_nat (frame k) \<and>
     (\<forall>m' c'. agree_on (frame_span frame stk k c) m m' \<longrightarrow> wp (restore p m' c') (\<lambda>(c'', _). same k c c''))"

lemma parkedI:
  assumes f: "frame_ok p (frame k) fs" and p: "p = stk c - of_nat (frame k)" and h: "holds p (frame k) fs m"
    and r: "\<And>m' c'. holds p (frame k) fs m' \<Longrightarrow> wp (restore p m' c') (\<lambda>(c'', _). same k c c'')"
  shows "parked restore frame same stk k c p m"
  using assms unfolding parked_def frame_span_def by (metis holds_agree)

lemma store_parked:
  assumes f: "frame_ok p (frame k) fs" and p: "p = stk c - of_nat (frame k)"
    and r: "\<And>m' c'. holds p (frame k) fs m' \<Longrightarrow> wp (restore p m' c') (\<lambda>(c'', _). same k c c'')"
  shows "wp (store_at p fs m) (\<lambda>m'. parked restore frame same stk k c p m' \<and> agree_on (- frame_span frame stk k c) m m')"
proof (rule wp_mono [OF store_at_ok [OF f]])
  fix m'
  assume h: "holds p (frame k) fs m' \<and> agree_on (- span p (frame k)) m m'"
  have "parked restore frame same stk k c p m'" by (rule parkedI [where fs = fs]) (rule f, rule p, rule conjunct1 [OF h], rule r)
  then show "parked restore frame same stk k c p m' \<and> agree_on (- frame_span frame stk k c) m m'"
    using h p by (simp add: frame_span_def)
qed

lemma parked_restores: "parked restore frame same stk k c p m \<Longrightarrow> wp (restore p m c') (\<lambda>(c'', _). same k c c'')"
  unfolding parked_def by (blast intro: agree_on_refl)

text \<open>A frame that is stored below the stack pointer.\<close>

definition push_frame :: "u32 \<Rightarrow> (nat \<times> u32) list \<Rightarrow> mem \<Rightarrow> (u32 \<times> mem) option" where
  "push_frame p fs m = do {
     m \<leftarrow> store_at p fs m;
     Some (p, m)
   }"

lemma push_frame_ok:
  assumes "frame_ok p (frame k) fs" "p = stk c - of_nat (frame k)"
    "\<And>m' c'. holds p (frame k) fs m' \<Longrightarrow> wp (restore p m' c') (\<lambda>(c'', _). same k c c'')"
  shows "wp (push_frame p fs m) (\<lambda>(p, m'). parked restore frame same stk k c p m' \<and> agree_on (- frame_span frame stk k c) m m')"
  using store_parked [where fs = fs and restore = restore and frame = frame and same = same and stk = stk and k = k and c = c and p = p, OF assms] by (simp add: push_frame_def)

text \<open>
  A run of the threads: the running one computes and writes to its own stack \<open>S t\<close> (and to whatever is no stack),
  then a switch goes on with another or with itself. \<open>G\<close> keeps what a thread left behind.
\<close>

inductive mux :: "('k \<Rightarrow> 'c \<Rightarrow> mem \<Rightarrow> (u32 \<times> mem) option) \<Rightarrow> (u32 \<Rightarrow> mem \<Rightarrow> 'c \<Rightarrow> ('c \<times> u32) option) \<Rightarrow>
    ('k \<Rightarrow> nat) \<Rightarrow> ('c \<Rightarrow> u32) \<Rightarrow> (tid \<Rightarrow> u32 set) \<Rightarrow> 'c machine \<Rightarrow> (tid \<rightharpoonup> 'k \<times> 'c \<times> mem) \<Rightarrow>
    'c machine \<Rightarrow> (tid \<rightharpoonup> 'k \<times> 'c \<times> mem) \<Rightarrow> bool"
  for save restore frame stk S M0 G0 where
  mux_start: "mux save restore frame stk S M0 G0 M0 G0"
| mux_work: "mux save restore frame stk S M0 G0 M G \<Longrightarrow>
    (\<And>t. t \<noteq> running M \<Longrightarrow> agree_on (S t) (ram M) m) \<Longrightarrow>
    mux save restore frame stk S M0 G0 (M\<lparr>core := c, ram := m\<rparr>) G"
| mux_switch: "mux save restore frame stk S M0 G0 M G \<Longrightarrow> has_room frame stk k (core M) (S (running M)) \<Longrightarrow>
    next = running M \<or> next \<in> dom G \<Longrightarrow> switch_context save restore k next M = Some M' \<Longrightarrow>
    mux save restore frame stk S M0 G0 M' (G(running M \<mapsto> (k, core M, ram M), next := None))"

text \<open>What every other thread can rely on.\<close>

definition ctx_kept ::
  "(u32 \<Rightarrow> mem \<Rightarrow> 'c \<Rightarrow> ('c \<times> u32) option) \<Rightarrow> ('k \<Rightarrow> nat) \<Rightarrow> ('k \<Rightarrow> 'c \<Rightarrow> 'c \<Rightarrow> bool) \<Rightarrow> ('c \<Rightarrow> u32) \<Rightarrow>
   (tid \<Rightarrow> u32 set) \<Rightarrow> 'c machine \<Rightarrow> (tid \<rightharpoonup> 'k \<times> 'c \<times> mem) \<Rightarrow> bool" where
  "ctx_kept restore frame same stk S M G \<longleftrightarrow> G (running M) = None \<and>
     (\<forall>t k c m. G t = Some (k, c, m) \<longrightarrow> parked restore frame same stk k c (saved_sp M t) (ram M) \<and>
        frame_span frame stk k c \<subseteq> S t \<and> agree_on (S t - frame_span frame stk k c) m (ram M))"

text \<open>Thread \<open>t\<close> goes on in \<open>M\<close> where \<open>G\<close> says it stopped: its context, and what it had on its stack.\<close>

definition resumes ::
  "('k \<Rightarrow> 'c \<Rightarrow> 'c \<Rightarrow> bool) \<Rightarrow> ('k \<Rightarrow> nat) \<Rightarrow> ('c \<Rightarrow> u32) \<Rightarrow> (tid \<Rightarrow> u32 set) \<Rightarrow> (tid \<rightharpoonup> 'k \<times> 'c \<times> mem) \<Rightarrow> tid \<Rightarrow>
   'c machine \<Rightarrow> bool" where
  "resumes same frame stk S G t M \<longleftrightarrow> running M = t \<and> (\<forall>k c m. G t = Some (k, c, m) \<longrightarrow>
     same k c (core M) \<and> agree_on (S t - frame_span frame stk k c) m (ram M))"

text \<open>From \<open>M0\<close> on, in any run, every switch to a thread that can run returns and goes on where that thread stopped.\<close>

definition switches_ok ::
  "('k \<Rightarrow> 'c \<Rightarrow> mem \<Rightarrow> (u32 \<times> mem) option) \<Rightarrow> (u32 \<Rightarrow> mem \<Rightarrow> 'c \<Rightarrow> ('c \<times> u32) option) \<Rightarrow> ('k \<Rightarrow> nat) \<Rightarrow>
   ('k \<Rightarrow> 'c \<Rightarrow> 'c \<Rightarrow> bool) \<Rightarrow> ('c \<Rightarrow> u32) \<Rightarrow> (tid \<Rightarrow> u32 set) \<Rightarrow> 'c machine \<Rightarrow> (tid \<rightharpoonup> 'k \<times> 'c \<times> mem) \<Rightarrow> bool" where
  "switches_ok save restore frame same stk S M0 G0 \<longleftrightarrow>
     (\<forall>M G k next. mux save restore frame stk S M0 G0 M G \<longrightarrow> has_room frame stk k (core M) (S (running M)) \<longrightarrow>
        next = running M \<or> next \<in> dom G \<longrightarrow>
        wp (switch_context save restore k next M) (resumes same frame stk S (G(running M \<mapsto> (k, core M, ram M))) next))"

text \<open>The contract of a port.\<close>

locale port_context =
  fixes save :: "'k \<Rightarrow> 'c \<Rightarrow> mem \<Rightarrow> (u32 \<times> mem) option"
    and restore :: "u32 \<Rightarrow> mem \<Rightarrow> 'c \<Rightarrow> ('c \<times> u32) option"
    and frame :: "'k \<Rightarrow> nat" and same :: "'k \<Rightarrow> 'c \<Rightarrow> 'c \<Rightarrow> bool" and stk :: "'c \<Rightarrow> u32"
  assumes save_law: "word_aligned (stk c) \<Longrightarrow> frame k \<le> unat (stk c) \<Longrightarrow>
      wp (save k c m) (\<lambda>(p, m'). parked restore frame same stk k c p m' \<and> agree_on (- frame_span frame stk k c) m m')"
begin

lemma switch_ok:
  assumes kp: "ctx_kept restore frame same stk S M G" and room: "has_room frame stk k (core M) (S (running M))"
    and nxt: "next = running M \<or> next \<in> dom G" and disj: "\<And>t u. t \<noteq> u \<Longrightarrow> S t \<inter> S u = {}"
  shows "wp (switch_context save restore k next M) (\<lambda>M'.
    ctx_kept restore frame same stk S M' (G(running M \<mapsto> (k, core M, ram M), next := None)) \<and>
    resumes same frame stk S (G(running M \<mapsto> (k, core M, ram M))) next M')"
proof -
  let ?r = "running M" and ?c = "core M"
  let ?A = "frame_span frame stk k ?c"
  obtain p m where sv: "save k ?c (ram M) = Some (p, m)" and pk: "parked restore frame same stk k ?c p m"
    and ag: "agree_on (- ?A) (ram M) m"
    using save_law [of ?c k "ram M"] room by (auto simp: has_room_def wp_iff)
  have A: "?A \<subseteq> S ?r" using room by (simp add: has_room_def)
  define sps where "sps = (saved_sp M)(?r := p)"
  define G' where "G' = G(?r \<mapsto> (k, ?c, ram M))"
  have all: "parked restore frame same stk k' c' (sps t) m \<and> frame_span frame stk k' c' \<subseteq> S t \<and>
      agree_on (S t - frame_span frame stk k' c') m' m" if "G' t = Some (k', c', m')" for t k' c' m'
  proof (cases "t = ?r")
    case True
    then show ?thesis using that pk ag A by (auto simp: G'_def sps_def intro: agree_on_mono)
  next
    case False
    with that kp have g: "parked restore frame same stk k' c' (saved_sp M t) (ram M)" "frame_span frame stk k' c' \<subseteq> S t"
      "agree_on (S t - frame_span frame stk k' c') m' (ram M)" by (auto simp: G'_def ctx_kept_def)
    have st: "agree_on (S t) (ram M) m" using ag by (rule agree_on_mono) (use A disj [OF False] in blast)
    have "agree_on (frame_span frame stk k' c') (ram M) m" by (rule agree_on_mono [OF st g(2)])
    then have "parked restore frame same stk k' c' (saved_sp M t) m"
      using g(1) unfolding parked_def by (blast intro: agree_on_trans)
    moreover have "agree_on (S t - frame_span frame stk k' c') m' m"
      using agree_on_trans [OF g(3)] agree_on_mono [OF st] by blast
    ultimately show ?thesis using False g(2) by (simp add: sps_def)
  qed
  obtain k' c' m' where n: "G' next = Some (k', c', m')"
    using nxt by (cases "next = running M") (auto simp: G'_def)
  have "wp (restore (sps next) m ?c) (\<lambda>(c'', _). same k' c' c'')"
    using all [OF n] unfolding parked_def by (blast intro: agree_on_refl)
  then obtain c'' p' where rs: "restore (sps next) m ?c = Some (c'', p')" and sm: "same k' c' c''"
    by (auto simp: wp_iff)
  have "switch_context save restore k next M = Some \<lparr>running = next, core = c'', ram = m, saved_sp = sps(next := p')\<rparr>"
    using sv rs by (simp add: switch_context_def sps_def Let_def)
  then show ?thesis using all sm n by (auto simp: ctx_kept_def resumes_def simp flip: G'_def)
qed

lemma mux_kept:
  assumes "mux save restore frame stk S M0 G0 M G" "ctx_kept restore frame same stk S M0 G0" "\<And>t u. t \<noteq> u \<Longrightarrow> S t \<inter> S u = {}"
  shows "ctx_kept restore frame same stk S M G"
  using assms
proof induction
  case (mux_work M G m c)
  then have k: "ctx_kept restore frame same stk S M G" by simp
  have "parked restore frame same stk k' c' (saved_sp M t) m \<and> agree_on (S t - frame_span frame stk k' c') m' m"
    if g: "G t = Some (k', c', m')" for t k' c' m'
  proof -
    have "t \<noteq> running M" using k g by (auto simp: ctx_kept_def)
    then have "agree_on (S t) (ram M) m" by (rule mux_work(2))
    moreover have "parked restore frame same stk k' c' (saved_sp M t) (ram M)" "frame_span frame stk k' c' \<subseteq> S t"
      "agree_on (S t - frame_span frame stk k' c') m' (ram M)" using k g by (auto simp: ctx_kept_def)
    ultimately show ?thesis unfolding parked_def by (meson Diff_subset agree_on_mono agree_on_trans)
  qed
  with k show ?case by (auto simp: ctx_kept_def)
next
  case (mux_switch M G k "next" M')
  have "ctx_kept restore frame same stk S M G" by (rule mux_switch.IH [OF mux_switch.prems])
  from switch_ok [OF this mux_switch.hyps(2,3) mux_switch.prems(2)] mux_switch.hyps(4)
  show ?case by (simp del: fun_upd_apply)
qed

end

section \<open>Threads that have not run\<close>

text \<open>
  The end of \<^verbatim>\<open>nd_thread_init\<close> (\<^verbatim>\<open>kernel/nd_thread.c\<close>): the stack is painted and the first frame is put at its upper end;
  \<open>init\<close> is the port's \<^verbatim>\<open>nd_hw_stack_init\<close>. \<open>create_stacks\<close> does so for one thread after the other.
\<close>

definition thread_stack_init ::
  "(u32 \<Rightarrow> u32 \<Rightarrow> u32 \<Rightarrow> mem \<Rightarrow> (u32 \<times> mem) option) \<Rightarrow> u32 \<Rightarrow> u32 \<Rightarrow> u32 \<Rightarrow> u32 \<Rightarrow> mem \<Rightarrow> (u32 \<times> mem) option" where
  "thread_stack_init init entk par stack sz m = init entk par (stack + sz) (snd (nd_memset stack 0xAA sz m))"

type_synonym new_thread = "tid \<times> u32 \<times> u32 \<times> u32 \<times> u32"

fun create_stacks :: "(u32 \<Rightarrow> u32 \<Rightarrow> u32 \<Rightarrow> mem \<Rightarrow> (u32 \<times> mem) option) \<Rightarrow> new_thread list \<Rightarrow> mem \<Rightarrow> (tid \<Rightarrow> u32) \<Rightarrow>
    (mem \<times> (tid \<Rightarrow> u32)) option" where
  "create_stacks init [] m sps = Some (m, sps)"
| "create_stacks init ((t, entk, par, stack, sz) # ts) m sps = do {
     (p, m) \<leftarrow> thread_stack_init init entk par stack sz m;
     create_stacks init ts m (sps(t := p))
   }"

text \<open>What \<open>mux\<close> remembers of threads that have only been created: the context \<open>fresh\<close> of kind \<open>k0\<close>.\<close>

fun ctx_created :: "(u32 \<Rightarrow> u32 \<Rightarrow> u32 \<Rightarrow> mem \<Rightarrow> (u32 \<times> mem) option) \<Rightarrow> (u32 \<Rightarrow> u32 \<Rightarrow> u32 \<Rightarrow> mem \<Rightarrow> 'c) \<Rightarrow> 'k \<Rightarrow>
    new_thread list \<Rightarrow> mem \<Rightarrow> (tid \<rightharpoonup> 'k \<times> 'c \<times> mem)" where
  "ctx_created init fresh k0 [] m = Map.empty"
| "ctx_created init fresh k0 ((t, entk, par, stack, sz) # ts) m =
     (case thread_stack_init init entk par stack sz m of
        None \<Rightarrow> Map.empty
      | Some (p, m') \<Rightarrow> (ctx_created init fresh k0 ts m')(t \<mapsto> (k0, fresh entk par (stack + sz) m', m')))"

text \<open>The first switch has nothing to save.\<close>

definition switch_first :: "(u32 \<Rightarrow> mem \<Rightarrow> 'c \<Rightarrow> ('c \<times> u32) option) \<Rightarrow> tid \<Rightarrow> 'c \<Rightarrow> mem \<Rightarrow> (tid \<Rightarrow> u32) \<Rightarrow> 'c machine option" where
  "switch_first restore next c m sps = do {
     (c, p) \<leftarrow> restore (sps next) m c;
     Some \<lparr>running = next, core = c, ram = m, saved_sp = sps(next := p)\<rparr>
   }"

text \<open>The stacks the threads are created with: \<open>room\<close> is what the port needs of one.\<close>

definition stacks_ok :: "(u32 \<Rightarrow> u32 \<Rightarrow> bool) \<Rightarrow> (tid \<Rightarrow> u32 set) \<Rightarrow> new_thread list \<Rightarrow> bool" where
  "stacks_ok room S ts \<longleftrightarrow> distinct (map fst ts) \<and> (\<forall>t u. t \<noteq> u \<longrightarrow> S t \<inter> S u = {}) \<and>
     (\<forall>(t, entk, par, stack, sz) \<in> set ts. room stack sz \<and> S t = span stack (unat sz))"

lemma memset_outside:
  assumes "unat stack + unat sz < 2 ^ 32"
  shows "agree_on (- span stack (unat sz)) m (snd (nd_memset stack v sz m))"
proof -
  have "b \<in> span stack (unat sz)" if "b - stack < sz" for b
  proof -
    have d: "unat (b - stack) < unat sz" using that by (simp add: word_less_nat_alt)
    then have "unat (stack + of_nat (unat (b - stack))) = unat stack + unat (b - stack)"
      by (intro unat_offset) (use assms in simp)
    then show ?thesis using d by (simp add: span_def)
  qed
  then show ?thesis by (auto simp: agree_on_def nd_memset_at)
qed

lemma created_fresh:
  "ctx_created init fresh k0 ts m t = Some (k, c, mt) \<Longrightarrow> \<exists>entk par stack sz m0 p. (t, entk, par, stack, sz) \<in> set ts \<and>
     k = k0 \<and> c = fresh entk par (stack + sz) mt \<and> thread_stack_init init entk par stack sz m0 = Some (p, mt)"
proof (induction ts arbitrary: m)
  case (Cons x ts)
  obtain u entk par stack sz where x: "x = (u, entk, par, stack, sz)" by (cases x)
  show ?case
  proof (cases "thread_stack_init init entk par stack sz m")
    case (Some pm)
    then show ?thesis using Cons x by (cases pm) (auto split: if_splits; blast)
  qed (use Cons.prems x in simp)
qed simp

locale port_boot = port_context save restore frame same stk
  for save :: "'k \<Rightarrow> 'c \<Rightarrow> mem \<Rightarrow> (u32 \<times> mem) option"
    and restore :: "u32 \<Rightarrow> mem \<Rightarrow> 'c \<Rightarrow> ('c \<times> u32) option"
    and frame :: "'k \<Rightarrow> nat" and same :: "'k \<Rightarrow> 'c \<Rightarrow> 'c \<Rightarrow> bool" and stk :: "'c \<Rightarrow> u32" +
  fixes init :: "u32 \<Rightarrow> u32 \<Rightarrow> u32 \<Rightarrow> mem \<Rightarrow> (u32 \<times> mem) option"
    and fresh :: "u32 \<Rightarrow> u32 \<Rightarrow> u32 \<Rightarrow> mem \<Rightarrow> 'c" and k0 :: 'k and room :: "u32 \<Rightarrow> u32 \<Rightarrow> bool"
    and first :: "u32 \<Rightarrow> mem \<Rightarrow> 'c \<Rightarrow> ('c \<times> u32) option" and begun :: "u32 \<Rightarrow> u32 \<Rightarrow> u32 \<Rightarrow> 'c \<Rightarrow> bool"
  assumes room_end: "room stack sz \<Longrightarrow> unat stack + unat sz < 2 ^ 32"
    and init_law: "room stack sz \<Longrightarrow> wp (init entk par (stack + sz) m) (\<lambda>(p, m').
      parked restore frame same stk k0 (fresh entk par (stack + sz) m') p m' \<and>
      frame_span frame stk k0 (fresh entk par (stack + sz) m') \<subseteq> span stack (unat sz) \<and>
      agree_on (- span stack (unat sz)) m m')"
    and first_law: "parked restore frame same stk k0 (fresh entk par a m) p m' \<Longrightarrow>
      wp (first p m' c') (\<lambda>(c'', _). begun entk par a c'')"
begin

lemma thread_stack_init_ok:
  assumes "room stack sz"
  shows "wp (thread_stack_init init entk par stack sz m) (\<lambda>(p, m').
      parked restore frame same stk k0 (fresh entk par (stack + sz) m') p m' \<and>
      frame_span frame stk k0 (fresh entk par (stack + sz) m') \<subseteq> span stack (unat sz) \<and>
      agree_on (- span stack (unat sz)) m m')"
  unfolding thread_stack_init_def
  by (rule wp_mono [OF init_law [OF assms]]) (use memset_outside [OF room_end [OF assms]] in \<open>auto intro: agree_on_trans\<close>)

text \<open>Creating the threads returns, and leaves every one of them as \<open>ctx_kept\<close> wants it.\<close>

lemma create_ok:
  assumes "stacks_ok room S ts"
  shows "wp (create_stacks init ts m sps) (\<lambda>(m', sps'). dom (ctx_created init fresh k0 ts m) = fst ` set ts \<and>
    agree_on (- \<Union> (S ` fst ` set ts)) m m' \<and> (\<forall>t. t \<notin> fst ` set ts \<longrightarrow> sps' t = sps t) \<and>
    (\<forall>t k c mt. ctx_created init fresh k0 ts m t = Some (k, c, mt) \<longrightarrow>
      parked restore frame same stk k c (sps' t) m' \<and> frame_span frame stk k c \<subseteq> S t \<and> agree_on (S t) mt m'))"
  using assms
proof (induction ts arbitrary: m sps)
  case (Cons x ts)
  obtain t entk par stack sz where x: "x = (t, entk, par, stack, sz)" by (cases x)
  have ok: "stacks_ok room S ts" and t: "t \<notin> fst ` set ts" and r: "room stack sz" and S: "S t = span stack (unat sz)"
    using Cons.prems x by (auto simp: stacks_ok_def)
  have disj: "\<And>u. t \<noteq> u \<Longrightarrow> S t \<inter> S u = {}" using Cons.prems unfolding stacks_ok_def by blast
  obtain p m1 where i: "thread_stack_init init entk par stack sz m = Some (p, m1)"
    and pk: "parked restore frame same stk k0 (fresh entk par (stack + sz) m1) p m1"
    and fs: "frame_span frame stk k0 (fresh entk par (stack + sz) m1) \<subseteq> S t" and ag: "agree_on (- S t) m m1"
    using thread_stack_init_ok [OF r, of entk par m] by (auto simp: wp_iff S)
  obtain z where z: "create_stacks init ts m1 (sps(t := p)) = Some z"
    using Cons.IH [OF ok, of m1 "sps(t := p)"] unfolding wp_iff by blast
  obtain m2 sps2 where c: "create_stacks init ts m1 (sps(t := p)) = Some (m2, sps2)" using z by (cases z) simp
  note Q = Cons.IH [OF ok, of m1 "sps(t := p)", unfolded c wp_Some prod.case]
  have d: "dom (ctx_created init fresh k0 ts m1) = fst ` set ts" and a2: "agree_on (- \<Union> (S ` fst ` set ts)) m1 m2"
    and s2: "\<And>u. u \<notin> fst ` set ts \<Longrightarrow> sps2 u = (sps(t := p)) u"
    and k2: "\<And>u k c mt. ctx_created init fresh k0 ts m1 u = Some (k, c, mt) \<Longrightarrow>
      parked restore frame same stk k c (sps2 u) m2 \<and> frame_span frame stk k c \<subseteq> S u \<and> agree_on (S u) mt m2"
    using Q by blast+
  have "S t \<subseteq> - \<Union> (S ` fst ` set ts)" using disj t by fastforce
  then have at: "agree_on (S t) m1 m2" using a2 by (rule agree_on_mono [rotated])
  have "parked restore frame same stk k0 (fresh entk par (stack + sz) m1) p m2"
    using pk at fs unfolding parked_def by (meson agree_on_mono agree_on_trans)
  moreover have "agree_on (- \<Union> (S ` fst ` set (x # ts))) m m2"
    using agree_on_trans [OF agree_on_mono [OF ag] agree_on_mono [OF a2]] x by auto
  moreover have "dom (ctx_created init fresh k0 (x # ts) m) = fst ` set (x # ts)" using x i d by simp
  moreover have "parked restore frame same stk k c (sps2 u) m2 \<and> frame_span frame stk k c \<subseteq> S u \<and> agree_on (S u) mt m2"
    if u: "ctx_created init fresh k0 (x # ts) m u = Some (k, c, mt)" for u k c mt
  proof (cases "u = t")
    case True
    then show ?thesis using u x i fs at s2 [OF t] calculation(1) by auto
  next
    case False
    then show ?thesis using u x i by (intro k2) simp
  qed
  moreover have "create_stacks init (x # ts) m sps = Some (m2, sps2)" using x i c by simp
  moreover have "sps2 u = sps u" if "u \<notin> fst ` set (x # ts)" for u using s2 [of u] that x by auto
  ultimately show ?case by (simp only: wp_Some prod.case) blast
qed simp

text \<open>After the first switch the contract of \<open>mux\<close> holds.\<close>

lemma boot_kept:
  assumes "stacks_ok room S ts" "create_stacks init ts m sps = Some (m', sps')" "switch_first first f c m' sps' = Some M"
  shows "ctx_kept restore frame same stk S M ((ctx_created init fresh k0 ts m)(f := None))"
proof -
  have M: "running M = f" "ram M = m'" "\<And>t. t \<noteq> f \<Longrightarrow> saved_sp M t = sps' t"
    using assms(3) by (auto simp: switch_first_def bind_Some_iff)
  have "parked restore frame same stk k c (sps' t) m' \<and> frame_span frame stk k c \<subseteq> S t \<and> agree_on (S t) mt m'"
    if "ctx_created init fresh k0 ts m t = Some (k, c, mt)" for t k c mt
    using create_ok [OF assms(1), of m sps] assms(2) that by (simp add: wp_iff)
  then show ?thesis using M by (auto simp: ctx_kept_def intro: agree_on_mono [OF _ Diff_subset])
qed

lemma run_switches_ok:
  assumes ok: "stacks_ok room S ts" "create_stacks init ts m sps = Some (m', sps')" "switch_first first f c m' sps' = Some M0"
  shows "switches_ok save restore frame same stk S M0 ((ctx_created init fresh k0 ts m)(f := None))"
  unfolding switches_ok_def
proof (intro allI impI)
  fix M G k "next"
  assume run: "mux save restore frame stk S M0 ((ctx_created init fresh k0 ts m)(f := None)) M G"
    and sw: "has_room frame stk k (core M) (S (running M))" "next = running M \<or> next \<in> dom G"
  have disj: "\<And>t u. t \<noteq> u \<Longrightarrow> S t \<inter> S u = {}" using ok(1) by (simp add: stacks_ok_def)
  have "ctx_kept restore frame same stk S M G" by (rule mux_kept [OF run boot_kept [OF ok] disj])
  from this sw disj have "wp (switch_context save restore k next M) (\<lambda>M'.
    ctx_kept restore frame same stk S M' (G(running M \<mapsto> (k, core M, ram M), next := None)) \<and>
    resumes same frame stk S (G(running M \<mapsto> (k, core M, ram M))) next M')" by (rule switch_ok)
  then show "wp (switch_context save restore k next M) (resumes same frame stk S (G(running M \<mapsto> (k, core M, ram M))) next)"
    by (rule wp_mono) (erule conjunct2)
qed

lemma created_thread:
  assumes ok: "stacks_ok room S ts" and t: "(t, entk, par, stack, sz) \<in> set ts"
  shows "\<exists>mt m0 p. ctx_created init fresh k0 ts m t = Some (k0, fresh entk par (stack + sz) mt, mt) \<and>
    thread_stack_init init entk par stack sz m0 = Some (p, mt)"
proof -
  have "t \<in> fst ` set ts" using t by force
  then have "wp (create_stacks init ts m (\<lambda>_. 0)) (\<lambda>_. t \<in> dom (ctx_created init fresh k0 ts m))"
    using create_ok [OF ok, of m "\<lambda>_. 0"] by (elim wp_mono) (simp split: prod.splits)
  then obtain k c mt where g: "ctx_created init fresh k0 ts m t = Some (k, c, mt)" by (auto simp: wp_iff)
  obtain e' par' stack' sz' m0 p where u: "(t, e', par', stack', sz') \<in> set ts" "k = k0" "c = fresh e' par' (stack' + sz') mt"
    "thread_stack_init init e' par' stack' sz' m0 = Some (p, mt)" using created_fresh [OF g] by blast
  have "(e', par', stack', sz') = (entk, par, stack, sz)"
    using ok u(1) t by (auto simp: stacks_ok_def dest: eq_key_imp_eq_value)
  then show ?thesis using g u by auto
qed

lemma created_dom:
  assumes "stacks_ok room S ts"
  shows "dom (ctx_created init fresh k0 ts m) = fst ` set ts"
  using create_ok [OF assms, of m "\<lambda>_. 0"] by (auto simp: wp_iff)

lemma first_ok:
  assumes ok: "stacks_ok room S ts" and cr: "create_stacks init ts m sps = Some (m', sps')"
    and f: "(f, entk, par, stack, sz) \<in> set ts"
  shows "wp (switch_first first f c m' sps') (\<lambda>M. running M = f \<and> begun entk par (stack + sz) (core M) \<and>
    (\<exists>m0 p mt. thread_stack_init init entk par stack sz m0 = Some (p, mt) \<and> agree_on (S f) mt (ram M)))"
proof -
  obtain m0 p mt where g: "ctx_created init fresh k0 ts m f = Some (k0, fresh entk par (stack + sz) mt, mt)"
    and i: "thread_stack_init init entk par stack sz m0 = Some (p, mt)" using created_thread [OF ok f] by blast
  have pk: "parked restore frame same stk k0 (fresh entk par (stack + sz) mt) (sps' f) m'" "agree_on (S f) mt m'"
    using create_ok [OF ok, of m sps] g unfolding cr wp_Some prod.case by blast+
  from first_law [OF pk(1)] have "wp (first (sps' f) m' c) (\<lambda>(c'', _). begun entk par (stack + sz) c'')" .
  then obtain c'' p' where "first (sps' f) m' c = Some (c'', p')" "begun entk par (stack + sz) c''" by (auto simp: wp_iff)
  moreover have "\<exists>m0 p mt. thread_stack_init init entk par stack sz m0 = Some (p, mt) \<and> agree_on (S f) mt m'"
    using i pk(2) by blast
  ultimately show ?thesis by (simp add: switch_first_def)
qed

text \<open>All of it: creating the threads returns, the first switch returns, and so does every later one.\<close>

lemma threads_run:
  assumes "stacks_ok room S ts"
  shows "wp (create_stacks init ts m sps) (\<lambda>(m', sps'). \<forall>(f, entk, par, stack, sz) \<in> set ts.
    wp (switch_first first f c m' sps') (\<lambda>M0. running M0 = f \<and> begun entk par (stack + sz) (core M0) \<and>
      (\<exists>m0 p mt. thread_stack_init init entk par stack sz m0 = Some (p, mt) \<and> agree_on (S f) mt (ram M0)) \<and>
      switches_ok save restore frame same stk S M0 ((ctx_created init fresh k0 ts m)(f := None))))"
proof -
  obtain z where z: "create_stacks init ts m sps = Some z"
    using create_ok [OF assms, of m sps] unfolding wp_iff by blast
  obtain m' sps' where cr: "create_stacks init ts m sps = Some (m', sps')" using z by (cases z) simp
  have "wp (switch_first first f c m' sps') (\<lambda>M0. running M0 = f \<and> begun entk par (stack + sz) (core M0) \<and>
      (\<exists>m0 p mt. thread_stack_init init entk par stack sz m0 = Some (p, mt) \<and> agree_on (S f) mt (ram M0)) \<and>
      switches_ok save restore frame same stk S M0 ((ctx_created init fresh k0 ts m)(f := None)))"
    if "(f, entk, par, stack, sz) \<in> set ts" for f entk par stack sz
    by (rule wp_mono [OF first_ok [OF assms cr that, of c]]) (use run_switches_ok [OF assms cr] in blast)
  then show ?thesis unfolding cr wp_Some prod.case by blast
qed

end

text \<open>\<^verbatim>\<open>nd_thread_stack_used\<close>: how much of the stack has been written, by the paint that is left at its lower end.\<close>

fun unused_loop :: "nat \<Rightarrow> u32 \<Rightarrow> mem \<Rightarrow> u32 \<Rightarrow> u32" where
  "unused_loop 0 p m unused = unused"
| "unused_loop (Suc n) p m unused = (if m p = 0xAA then unused_loop n (p + 1) m (unused + 1) else unused)"

definition nd_thread_stack_used :: "u32 \<Rightarrow> u32 \<Rightarrow> mem \<Rightarrow> u32" where
  "nd_thread_stack_used stk_addr stk_size m = stk_size - unused_loop (unat stk_size) stk_addr m 0"

lemma unused_loop_at:
  "k \<le> n \<Longrightarrow> \<forall>i < k. m (p + of_nat i) = 0xAA \<Longrightarrow> k < n \<longrightarrow> m (p + of_nat k) \<noteq> 0xAA \<Longrightarrow>
     unused_loop n p m u = u + of_nat k"
proof (induction n arbitrary: p u k)
  case (Suc n)
  show ?case
  proof (cases k)
    case 0
    then show ?thesis using Suc.prems(3) by simp
  next
    case (Suc j)
    have "m p = 0xAA" using Suc.prems(2) [rule_format, of 0] Suc by simp
    moreover have "unused_loop n (p + 1) m (u + 1) = u + 1 + of_nat j"
    proof (rule Suc.IH)
      show "\<forall>i<j. m (p + 1 + of_nat i) = 0xAA"
      proof (intro allI impI)
        fix i assume "i < j"
        then have "m (p + of_nat (Suc i)) = 0xAA" using Suc.prems(2) Suc by blast
        then show "m (p + 1 + of_nat i) = 0xAA" by (simp add: ac_simps)
      qed
    qed (use Suc.prems Suc in \<open>simp_all add: ac_simps\<close>)
    ultimately show ?thesis using Suc by (simp add: ac_simps)
  qed
qed simp

lemma stack_used_high_water:
  assumes "lo \<le> unat sz" "\<forall>i < lo. m (stack + of_nat i) = 0xAA" "lo < unat sz \<longrightarrow> m (stack + of_nat lo) \<noteq> 0xAA"
  shows "unat (nd_thread_stack_used stack sz m) = unat sz - lo"
  using unused_loop_at [OF assms, of 0] unat_below [OF assms(1)] by (simp add: nd_thread_stack_used_def)

section \<open>Two threads\<close>

text \<open>Two stacks beside each other, for the witnesses, and what they show: a first switch and one more.\<close>

definition two_stacks :: "tid \<Rightarrow> u32 set" where
  "two_stacks t = (if t = 3 then span 0x20000400 512 else if t = 4 then span 0x20000600 512 else {})"

definition two_threads :: "new_thread list" where
  "two_threads = [(3, 0x8001, 7, 0x20000400, 512), (4, 0x8101, 9, 0x20000600, 512)]"

lemma span_disjoint: "unat a + n \<le> unat b \<Longrightarrow> span a n \<inter> span b k = {}"
  by (auto simp: span_def)

lemma two_stacks_ok: "frame_room al slack n 0x20000400 512 \<Longrightarrow> frame_room al slack n 0x20000600 512 \<Longrightarrow>
    stacks_ok (frame_room al slack n) two_stacks two_threads"
  using span_disjoint [of "0x20000400" 512 "0x20000600" 512]
  by (simp add: stacks_ok_def two_stacks_def two_threads_def Int_commute)

lemma two_stacks_room:
  assumes "stk c = 0x20000600 - of_nat d" "d + frame k \<le> 512" "4 dvd d"
  shows "has_room frame stk k c (two_stacks 3)"
proof -
  have n: "unat (0x20000600 :: u32) = 0x20000600" "unat (0x20000400 :: u32) = 0x20000400" by simp_all
  have u: "unat (stk c) = 0x20000600 - d" using assms unat_below [of d "0x20000600"] n by simp
  then have l: "frame k \<le> unat (stk c)" using assms(2) by simp
  have "4 dvd unat (stk c)" unfolding u using assms(3) by (intro dvd_diff_nat) simp_all
  moreover have "span (stk c - of_nat (frame k)) (frame k) \<subseteq> span 0x20000400 512"
    using assms(2) u unat_below [OF l] n by (auto simp: span_def)
  ultimately show ?thesis using l by (simp add: has_room_def frame_span_def two_stacks_def word_aligned_unat)
qed

lemma two_rooms: "frame_room 8 4 68 0x20000400 512" "frame_room 8 4 68 0x20000600 512" "frame_room 16 0 64 0x20000400 512"
  "frame_room 16 0 64 0x20000600 512"
  by (simp_all add: frame_room_def)

lemma run_two:
  assumes run: "wp (create_stacks init ts m sps) (\<lambda>(m', sps'). \<forall>(f, entk, par, stack, sz) \<in> set ts.
      wp (switch_first first f c m' sps') (\<lambda>M0. running M0 = f \<and> B entk par stack sz M0 \<and>
        switches_ok save restore frame same stk S M0 (G(f := None))))"
    and f: "(f, entk, par, stack, sz) \<in> set ts" and g: "g \<in> dom G" "g \<noteq> f"
    and room: "\<And>M0. running M0 = f \<Longrightarrow> B entk par stack sz M0 \<Longrightarrow> has_room frame stk k (core M0) (S f)"
  shows "\<exists>m' sps' M0 M. create_stacks init ts m sps = Some (m', sps') \<and> switch_first first f c m' sps' = Some M0 \<and>
    B entk par stack sz M0 \<and> switch_context save restore k g M0 = Some M \<and>
    resumes same frame stk S (G(f \<mapsto> (k, core M0, ram M0))) g M"
proof -
  obtain m' sps' where cr: "create_stacks init ts m sps = Some (m', sps')" using wp_pairD [OF run] by blast
  have "wp (switch_first first f c m' sps') (\<lambda>M0. running M0 = f \<and> B entk par stack sz M0 \<and>
      switches_ok save restore frame same stk S M0 (G(f := None)))"
    using wpD [OF run cr] f by fastforce
  then obtain M0 where M0: "switch_first first f c m' sps' = Some M0" "running M0 = f" "B entk par stack sz M0"
    "switches_ok save restore frame same stk S M0 (G(f := None))" by (auto simp: wp_iff)
  have "has_room frame stk k (core M0) (S (running M0))" using room [OF M0(2,3)] M0(2) by simp
  moreover have "g \<in> dom (G(f := None))" using g by simp
  ultimately have "wp (switch_context save restore k g M0) (resumes same frame stk S (G(f := None, running M0 \<mapsto> (k, core M0, ram M0))) g)"
    using M0(4) mux_start unfolding switches_ok_def by blast
  then have "wp (switch_context save restore k g M0) (resumes same frame stk S (G(f \<mapsto> (k, core M0, ram M0))) g)"
    by (simp add: M0(2))
  then show ?thesis using cr M0(1,3) unfolding wp_iff by blast
qed

end
