(* ===== verification/Nd_Port_A9.thy ===== *)
theory Nd_Port_A9
  imports Nd_Context
begin

text \<open>
  The Cortex-A9 port: \<^verbatim>\<open>arch/arm/a9/context.S\<close> and \<^verbatim>\<open>port.c\<close>. A frame is saved by \<^verbatim>\<open>nd_hw_do_switch\<close> (voluntary) or
  by \<^verbatim>\<open>vector_irq\<close> (preemption), and restored by \<^verbatim>\<open>restore_dispatch\<close> according to its first word. The core has the registers
  of system mode; \<open>a9_pc\<close> and \<open>a9_cpsr\<close> of an interrupted thread are what the hardware leaves in \<^verbatim>\<open>lr\<close> and \<^verbatim>\<open>SPSR\<close> for
  \<^verbatim>\<open>SRSDB\<close>.
\<close>

record a9_core =
  a9_r :: "nat \<Rightarrow> u32"
  a9_sp :: u32
  a9_lr :: u32
  a9_pc :: u32
  a9_cpsr :: u32

fun a9_frame :: "frame_type \<Rightarrow> nat" where
  "a9_frame FRAME_TYPE_VOLUNTARY = 48"
| "a9_frame FRAME_TYPE_PREEMPT = 68"

text \<open>
  The words that are stored, in the order of the instructions, by their offsets from where the stack pointer is in the
  end: \<^verbatim>\<open>STMDB\<close>, \<^verbatim>\<open>STR\<close> and \<^verbatim>\<open>PUSH\<close> of \<^verbatim>\<open>nd_hw_do_switch\<close>; \<^verbatim>\<open>SRSDB\<close> (the return address and the status of the interrupted
  thread) and \<^verbatim>\<open>PUSH\<close> of \<^verbatim>\<open>vector_irq\<close>.
\<close>

definition a9_voluntary_fields :: "a9_core \<Rightarrow> (nat \<times> u32) list" where
  "a9_voluntary_fields c =
     [(8, a9_r c 4), (12, a9_r c 5), (16, a9_r c 6), (20, a9_r c 7), (24, a9_r c 8), (28, a9_r c 9), (32, a9_r c 10),
      (36, a9_r c 11), (40, a9_r c 12), (44, a9_lr c), (4, a9_cpsr c), (0, frame_word FRAME_TYPE_VOLUNTARY)]"

definition a9_preempt_fields :: "a9_core \<Rightarrow> (nat \<times> u32) list" where
  "a9_preempt_fields c =
     [(60, a9_pc c), (64, a9_cpsr c), (4, a9_r c 0), (8, a9_r c 1), (12, a9_r c 2), (16, a9_r c 3), (20, a9_r c 4),
      (24, a9_r c 5), (28, a9_r c 6), (32, a9_r c 7), (36, a9_r c 8), (40, a9_r c 9), (44, a9_r c 10), (48, a9_r c 11),
      (52, a9_r c 12), (56, a9_lr c), (0, frame_word FRAME_TYPE_PREEMPT)]"

fun a9_fields :: "frame_type \<Rightarrow> a9_core \<Rightarrow> (nat \<times> u32) list" where
  "a9_fields FRAME_TYPE_VOLUNTARY c = a9_voluntary_fields c"
| "a9_fields FRAME_TYPE_PREEMPT c = a9_preempt_fields c"

definition a9_save :: "frame_type \<Rightarrow> a9_core \<Rightarrow> mem \<Rightarrow> (u32 \<times> mem) option" where
  "a9_save k c m = push_frame (a9_sp c - of_nat (a9_frame k)) (a9_fields k c) m"

definition a9_restore_voluntary :: "u32 \<Rightarrow> mem \<Rightarrow> a9_core \<Rightarrow> a9_core option" where
  "a9_restore_voluntary p m c = do {
     r2 \<leftarrow> load_word (p + 4) m;
     r \<leftarrow> load_regs p [(8, 4), (12, 5), (16, 6), (20, 7), (24, 8), (28, 9), (32, 10), (36, 11), (40, 12)] m ((a9_r c)(2 := r2));
     lr \<leftarrow> load_word (p + 44) m;
     Some (c\<lparr>a9_r := r, a9_sp := p + 48, a9_lr := lr, a9_pc := lr, a9_cpsr := (a9_cpsr c AND NOT 0xFF) OR (r2 AND 0xFF)\<rparr>)
   }"

definition a9_restore_preempt :: "u32 \<Rightarrow> mem \<Rightarrow> a9_core \<Rightarrow> a9_core option" where
  "a9_restore_preempt p m c = do {
     r \<leftarrow> load_regs p [(4, 0), (8, 1), (12, 2), (16, 3), (20, 4), (24, 5), (28, 6), (32, 7), (36, 8), (40, 9), (44, 10), (48, 11),
       (52, 12)] m (a9_r c);
     lr \<leftarrow> load_word (p + 56) m;
     pc \<leftarrow> load_word (p + 60) m;
     cpsr \<leftarrow> load_word (p + 64) m;
     Some (c\<lparr>a9_r := r, a9_sp := p + 68, a9_lr := lr, a9_pc := pc, a9_cpsr := cpsr\<rparr>)
   }"

definition a9_restore_dispatch :: "u32 \<Rightarrow> mem \<Rightarrow> a9_core \<Rightarrow> (a9_core \<times> u32) option" where
  "a9_restore_dispatch p m c = do {
     r0 \<leftarrow> load_word p m;
     let c = c\<lparr>a9_r := (a9_r c)(0 := r0)\<rparr>;
     c \<leftarrow> (if r0 = frame_word FRAME_TYPE_VOLUNTARY then a9_restore_voluntary p m c else a9_restore_preempt p m c);
     Some (c, p)
   }"

fun a9_same :: "frame_type \<Rightarrow> a9_core \<Rightarrow> a9_core \<Rightarrow> bool" where
  "a9_same FRAME_TYPE_VOLUNTARY c c' \<longleftrightarrow> (\<forall>i \<in> {4..12}. a9_r c' i = a9_r c i) \<and> a9_sp c' = a9_sp c \<and> a9_lr c' = a9_lr c \<and>
     a9_pc c' = a9_lr c \<and> a9_cpsr c' AND 0xFF = a9_cpsr c AND 0xFF"
| "a9_same FRAME_TYPE_PREEMPT c c' \<longleftrightarrow> (\<forall>i \<le> 12. a9_r c' i = a9_r c i) \<and> a9_sp c' = a9_sp c \<and> a9_lr c' = a9_lr c \<and>
     a9_pc c' = a9_pc c \<and> a9_cpsr c' = a9_cpsr c"

lemma set_mode: "((a AND NOT 0xFF) OR (b AND 0xFF)) AND 0xFF = (b AND 0xFF :: u32)"
  by (rule bit_word_eqI) (auto simp: bit_simps)

lemmas set_mode' = set_mode [simplified]

lemma upto_12:
  "i \<in> {4..12} \<Longrightarrow> i = 4 \<or> i = 5 \<or> i = 6 \<or> i = 7 \<or> i = 8 \<or> i = 9 \<or> i = 10 \<or> i = 11 \<or> i = (12 :: nat)"
  "i \<le> 12 \<Longrightarrow> i = 0 \<or> i = 1 \<or> i = 2 \<or> i = 3 \<or> i \<in> {4..12 :: nat}"
  unfolding atLeastAtMost_iff by presburger+

lemma a9_restores:
  assumes "holds p (a9_frame k) (a9_fields k c) m" "p = a9_sp c - of_nat (a9_frame k)"
  shows "wp (a9_restore_dispatch p m c') (\<lambda>(c'', _). a9_same k c c'')"
proof (cases k)
  case FRAME_TYPE_VOLUNTARY
  then show ?thesis using assms
    by (auto simp: holds_def a9_restore_dispatch_def a9_restore_voluntary_def a9_voluntary_fields_def set_mode' dest!: upto_12(1))
next
  case FRAME_TYPE_PREEMPT
  then show ?thesis using assms
    by (auto simp: holds_def a9_restore_dispatch_def a9_restore_preempt_def a9_preempt_fields_def dest!: upto_12)
qed

lemma a9_frame_ok: "word_aligned (a9_sp c) \<Longrightarrow> a9_frame k \<le> unat (a9_sp c) \<Longrightarrow>
    frame_ok (a9_sp c - of_nat (a9_frame k)) (a9_frame k) (a9_fields k c)"
  by (rule frame_below) (cases k; simp add: a9_voluntary_fields_def a9_preempt_fields_def)+

interpretation a9: port_context a9_save a9_restore_dispatch a9_frame a9_same a9_sp
  by unfold_locales (unfold a9_save_def, rule push_frame_ok, (rule a9_frame_ok; assumption), rule refl, rule a9_restores [OF _ refl])

section \<open>The first frame\<close>

definition a9_nd_hw_stack_init :: "u32 \<Rightarrow> u32 \<Rightarrow> u32 \<Rightarrow> u32 \<Rightarrow> mem \<Rightarrow> (u32 \<times> mem) option" where
  "a9_nd_hw_stack_init nd_thread_entry entk_fun par stk_addr m = do {
     let stk = stk_addr + 4;
     let stk = ND_ALIGN_DOWN stk 8;
     let stk = stk - 68;
     m \<leftarrow> store_at stk (map (\<lambda>i. (4 * i, 0)) [0..<17]) m;
     m \<leftarrow> store_at stk [(0, frame_word FRAME_TYPE_PREEMPT), (64, 0x1F), (60, nd_thread_entry), (4, entk_fun), (8, par)] m;
     Some (stk, m)
   }"

definition a9_start :: "u32 \<Rightarrow> u32 \<Rightarrow> u32 \<Rightarrow> u32 \<Rightarrow> a9_core" where
  "a9_start nd_thread_entry entk_fun par tp =
     \<lparr>a9_r = (\<lambda>_. 0)(0 := entk_fun, 1 := par), a9_sp = tp, a9_lr = 0, a9_pc = nd_thread_entry, a9_cpsr = 0x1F\<rparr>"

lemma a9_stack_init_ok:
  assumes tp: "tp = ND_ALIGN_DOWN (stk_addr + 4) 8" "68 \<le> unat tp"
  shows "wp (a9_nd_hw_stack_init nte e par stk_addr m) (\<lambda>(p, m').
    parked a9_restore_dispatch a9_frame a9_same a9_sp FRAME_TYPE_PREEMPT (a9_start nte e par tp) p m' \<and>
    agree_on (- span (tp - 68) 68) m m')"
proof -
  let ?zs = "map (\<lambda>i. (4 * i, 0 :: u32)) [0..<17]" and ?gs = "[(0, frame_word FRAME_TYPE_PREEMPT), (64, 0x1F), (60, nte), (4, e), (8, par)]"
  let ?p = "tp - of_nat 68" and ?c = "a9_start nte e par tp"
  have al: "word_aligned tp" using tp(1) dvd_mult [of "4 :: nat" 8] by (simp add: word_aligned_unat unat_ND_ALIGN_DOWN)
  have z: "frame_ok ?p 68 ?zs" by (rule frame_below) (use al tp(2) in \<open>auto simp: distinct_map inj_on_def\<close>)
  have g: "frame_ok ?p 68 ?gs" by (rule frame_below) (use al tp(2) in auto)
  obtain m1 where m1: "store_at ?p ?zs m = Some m1" "holds ?p 68 ?zs m1" "agree_on (- span ?p 68) m m1"
    using store_at_ok [OF z, of m] by (auto simp: wp_iff)
  obtain m2 where m2: "store_at ?p ?gs m1 = Some m2" "holds ?p 68 ?gs m2" "agree_on (- span ?p 68) m1 m2"
    using store_at_ok [OF g, of m1] by (auto simp: wp_iff)
  let ?rest = "filter (\<lambda>(off, _). off \<notin> fst ` set ?gs) ?zs"
  have "holds ?p 68 ?rest m1" using m1(2) by (auto simp: holds_def)
  moreover have "frame_ok ?p 68 ?rest" using z by (auto simp: frame_ok_def distinct_map inj_on_def)
  ultimately have "holds ?p 68 ?rest m2" by (rule holds_over [OF _ _ g m2(1)]) auto
  then have "holds ?p 68 (a9_fields FRAME_TYPE_PREEMPT ?c) m2"
    using m2(2) by (simp add: holds_def a9_preempt_fields_def a9_start_def upt_rec)
  then have "parked a9_restore_dispatch a9_frame a9_same a9_sp FRAME_TYPE_PREEMPT ?c ?p m2"
    by (intro parkedI [where fs = "a9_fields FRAME_TYPE_PREEMPT ?c"] a9_restores)
      (use a9_frame_ok [of ?c FRAME_TYPE_PREEMPT] al tp(2) in \<open>simp_all add: a9_start_def\<close>)
  moreover have "a9_nd_hw_stack_init nte e par stk_addr m = Some (?p, m2)"
    using m1(1) m2(1) tp(1) by (simp add: a9_nd_hw_stack_init_def Let_def del: store_at.simps)
  ultimately show ?thesis using agree_on_trans [OF m1(3) m2(3)] by simp
qed

definition a9_room :: "u32 \<Rightarrow> u32 \<Rightarrow> bool" where
  "a9_room = frame_room 8 4 68"

definition a9_fresh :: "u32 \<Rightarrow> u32 \<Rightarrow> u32 \<Rightarrow> u32 \<Rightarrow> mem \<Rightarrow> a9_core" where
  "a9_fresh nd_thread_entry entk_fun par stk_addr m = a9_start nd_thread_entry entk_fun par (ND_ALIGN_DOWN (stk_addr + 4) 8)"

lemma a9_stack_init_law:
  assumes "a9_room stack sz"
  shows "wp (a9_nd_hw_stack_init nte e par (stack + sz) m) (\<lambda>(p, m').
      parked a9_restore_dispatch a9_frame a9_same a9_sp FRAME_TYPE_PREEMPT (a9_fresh nte e par (stack + sz) m') p m' \<and>
      frame_span a9_frame a9_sp FRAME_TYPE_PREEMPT (a9_fresh nte e par (stack + sz) m') \<subseteq> span stack (unat sz) \<and>
      agree_on (- span stack (unat sz)) m m')"
proof -
  let ?tp = "ND_ALIGN_DOWN (stack + sz + 4) 8"
  have r: "frame_room 8 4 68 stack sz" using assms by (simp add: a9_room_def)
  then have "unat (stack + sz + 4) = unat stack + unat sz + 4"
    by (simp add: frame_room_def unat_word_ariths)
  then have "unat ?tp = (unat stack + unat sz + 4) div 8 * 8" by (simp add: unat_ND_ALIGN_DOWN)
  note top = frame_room_top [OF r this]
  show ?thesis
    by (rule wp_mono [OF a9_stack_init_ok [OF refl top(1)]])
      (use top(2) in \<open>auto simp: a9_fresh_def frame_span_def a9_start_def intro: agree_on_mono\<close>)
qed

definition a9_begun :: "u32 \<Rightarrow> u32 \<Rightarrow> u32 \<Rightarrow> u32 \<Rightarrow> a9_core \<Rightarrow> bool" where
  "a9_begun nd_thread_entry entk_fun par stk_addr c \<longleftrightarrow> a9_pc c = nd_thread_entry \<and> a9_r c 0 = entk_fun \<and> a9_r c 1 = par \<and>
     a9_sp c = ND_ALIGN_DOWN (stk_addr + 4) 8 \<and> a9_cpsr c = 0x1F"

lemma a9_first_law:
  assumes "parked a9_restore_dispatch a9_frame a9_same a9_sp FRAME_TYPE_PREEMPT (a9_fresh nte e par a m) p m'"
  shows "wp (a9_restore_dispatch p m' c') (\<lambda>(c'', _). a9_begun nte e par a c'')"
  by (rule wp_mono [OF parked_restores [OF assms]]) (auto simp: a9_fresh_def a9_start_def a9_begun_def)

interpretation a9_threads: port_boot a9_save a9_restore_dispatch a9_frame a9_same a9_sp
  "a9_nd_hw_stack_init nte" "a9_fresh nte" FRAME_TYPE_PREEMPT a9_room a9_restore_dispatch "a9_begun nte" for nte
  by unfold_locales (simp add: a9_room_def frame_room_def, erule a9_stack_init_law, erule a9_first_law)

section \<open>Properties\<close>

text \<open>C35: the threads of a program on the Cortex-A9. Putting the first frame on every stack returns, and
  \<^verbatim>\<open>nd_hw_do_switch_first\<close> goes to \<^verbatim>\<open>nd_thread_entry\<close> with the entry and the parameter of the thread it is given, on its
  stack, in system mode. From then on the threads compute on their own stacks and are switched between, by
  \<^verbatim>\<open>nd_hw_do_switch\<close> or by an interrupt, in any order: every switch returns, and the thread it goes to has the registers,
  the stack pointer and the stack it was interrupted with, or those of its first frame.\<close>

theorem a9_threads_run:
  assumes "stacks_ok a9_room S ts"
  shows "wp (create_stacks (a9_nd_hw_stack_init nte) ts m sps) (\<lambda>(m', sps'). \<forall>(f, entk, par, stack, sz) \<in> set ts.
    wp (switch_first a9_restore_dispatch f c m' sps') (\<lambda>M0. running M0 = f \<and> a9_begun nte entk par (stack + sz) (core M0) \<and>
      switches_ok a9_save a9_restore_dispatch a9_frame a9_same a9_sp S M0
        ((ctx_created (a9_nd_hw_stack_init nte) (a9_fresh nte) FRAME_TYPE_PREEMPT ts m)(f := None))))"
  by (rule wp_mono [OF a9_threads.threads_run [OF assms, of nte m sps c]]) (fastforce elim: wp_mono)

theorem a9_threads_run_witness:
  "\<forall>c. \<exists>m sps M0 M. create_stacks (a9_nd_hw_stack_init 0x9001) two_threads (\<lambda>_. 0) (\<lambda>_. 0) = Some (m, sps) \<and>
     switch_first a9_restore_dispatch 3 c m sps = Some M0 \<and> a9_begun 0x9001 0x8001 7 (0x20000400 + 512) (core M0) \<and>
     switch_context a9_save a9_restore_dispatch FRAME_TYPE_VOLUNTARY 4 M0 = Some M \<and> running M = 4"
proof
  fix c :: a9_core
  have ok: "stacks_ok a9_room two_stacks two_threads" by (simp add: a9_room_def two_stacks_ok two_rooms)
  have t: "(3, 0x8001, 7, 0x20000400, 512) \<in> set two_threads" "(4, 0x8101, 9, 0x20000600, 512) \<in> set two_threads"
    by (simp_all add: two_threads_def)
  have g: "4 \<in> dom (ctx_created (a9_nd_hw_stack_init 0x9001) (a9_fresh 0x9001) FRAME_TYPE_PREEMPT two_threads (\<lambda>_. 0))"
    using a9_threads.created_dom [OF ok] by (simp add: two_threads_def)
  have room: "has_room a9_frame a9_sp FRAME_TYPE_VOLUNTARY (core M0) (two_stacks 3)" if "a9_begun 0x9001 0x8001 7 (0x20000400 + 512) (core M0)" for M0
    by (rule two_stacks_room [where d = 0]) (use that in \<open>simp_all add: a9_begun_def ND_ALIGN_DOWN_def\<close>)
  show "\<exists>m sps M0 M. create_stacks (a9_nd_hw_stack_init 0x9001) two_threads (\<lambda>_. 0) (\<lambda>_. 0) = Some (m, sps) \<and>
     switch_first a9_restore_dispatch 3 c m sps = Some M0 \<and> a9_begun 0x9001 0x8001 7 (0x20000400 + 512) (core M0) \<and>
     switch_context a9_save a9_restore_dispatch FRAME_TYPE_VOLUNTARY 4 M0 = Some M \<and> running M = 4"
    using run_two [OF a9_threads_run [OF ok] t(1) g _ room] unfolding resumes_def by simp blast
qed

end
