(* ===== verification/Nd_Port_Cortex_M.thy ===== *)
theory Nd_Port_Cortex_M
  imports Nd_Context
begin

text \<open>
  The Cortex-M ports: \<^verbatim>\<open>isr_pendsv\<close> in \<^verbatim>\<open>arch/arm/*/context.S\<close> and \<^verbatim>\<open>nd_hw_stack_init\<close> in \<^verbatim>\<open>port.c\<close>.
\<close>

text \<open>
  What \<^verbatim>\<open>isr_pendsv\<close> finds: the registers the hardware has not stacked, the process stack pointer below the frame the
  hardware has stacked, and \<^verbatim>\<open>EXC_RETURN\<close> in \<^verbatim>\<open>lr\<close>. Its bit 4 is clear when the interrupted thread used the floating point
  unit; \<open>fpu\<close> says whether there is one (\<^verbatim>\<open>arch/arm/m4\<close>, \<^verbatim>\<open>m7\<close> and \<^verbatim>\<open>m33\<close>, whose code is the same) or not (\<^verbatim>\<open>arch/arm/m3\<close>).
  The kind of the frame comes from the \<^verbatim>\<open>EXC_RETURN\<close> the exception entry left, an argument here; \<open>cm_lr\<close> is what is restored.
\<close>

record cm_core =
  cm_r :: "nat \<Rightarrow> u32"
  cm_psp :: u32
  cm_lr :: u32
  cm_s :: "nat \<Rightarrow> u32"

definition fp_frame :: "bool \<Rightarrow> u32 \<Rightarrow> bool" where
  "fp_frame fpu lr \<longleftrightarrow> fpu \<and> lr AND 0x10 = 0"

definition cm_frame :: "bool \<Rightarrow> u32 \<Rightarrow> nat" where
  "cm_frame fpu lr = (if fp_frame fpu lr then 100 else 36)"

definition cm_core_regs :: "(nat \<times> nat) list" where
  "cm_core_regs = [(0, 4), (4, 5), (8, 6), (12, 7), (16, 8), (20, 9), (24, 10), (28, 11)]"

definition cm_fp_regs :: "(nat \<times> nat) list" where
  "cm_fp_regs = [(36, 16), (40, 17), (44, 18), (48, 19), (52, 20), (56, 21), (60, 22), (64, 23), (68, 24), (72, 25), (76, 26),
     (80, 27), (84, 28), (88, 29), (92, 30), (96, 31)]"

definition cm_fields :: "bool \<Rightarrow> u32 \<Rightarrow> cm_core \<Rightarrow> (nat \<times> u32) list" where
  "cm_fields fpu lr c =
     (if fp_frame fpu lr then map (\<lambda>(off, i). (off, cm_s c i)) cm_fp_regs else []) @
     map (\<lambda>(off, i). (off, cm_r c i)) cm_core_regs @ [(32, lr)]"

definition cm_save :: "bool \<Rightarrow> u32 \<Rightarrow> cm_core \<Rightarrow> mem \<Rightarrow> (u32 \<times> mem) option" where
  "cm_save fpu lr c m = push_frame (cm_psp c - of_nat (cm_frame fpu lr)) (cm_fields fpu lr c) m"

definition cm_restore :: "bool \<Rightarrow> u32 \<Rightarrow> mem \<Rightarrow> cm_core \<Rightarrow> (cm_core \<times> u32) option" where
  "cm_restore fpu p m c = do {
     r \<leftarrow> load_regs p cm_core_regs m (cm_r c);
     lr \<leftarrow> load_word (p + 32) m;
     if fp_frame fpu lr then do {
       s \<leftarrow> load_regs p cm_fp_regs m (cm_s c);
       Some (c\<lparr>cm_r := r, cm_lr := lr, cm_s := s, cm_psp := p + 100\<rparr>, p)
     }
     else Some (c\<lparr>cm_r := r, cm_lr := lr, cm_psp := p + 36\<rparr>, p)
   }"

definition cm_first_switch :: "u32 \<Rightarrow> mem \<Rightarrow> cm_core \<Rightarrow> (cm_core \<times> u32) option" where
  "cm_first_switch p m c = Some (c\<lparr>cm_psp := p + 36, cm_lr := 0xFFFFFFFD\<rparr>, p)"

definition cm_same :: "bool \<Rightarrow> u32 \<Rightarrow> cm_core \<Rightarrow> cm_core \<Rightarrow> bool" where
  "cm_same fpu lr c c' \<longleftrightarrow> (\<forall>i \<in> set [4..<12]. cm_r c' i = cm_r c i) \<and> cm_psp c' = cm_psp c \<and> cm_lr c' = lr \<and>
     (fp_frame fpu lr \<longrightarrow> (\<forall>i \<in> set [16..<32]. cm_s c' i = cm_s c i))"

lemma cm_core_regs_set: "snd ` set cm_core_regs = set [4..<12]"
  unfolding cm_core_regs_def by (simp add: insert_commute)

lemma cm_fp_regs_set: "snd ` set cm_fp_regs = set [16..<32]"
  unfolding cm_fp_regs_def by (simp add: insert_commute)

lemma cm_restores:
  assumes h: "holds p (cm_frame fpu lr) (cm_fields fpu lr c) m" and p: "p = cm_psp c - of_nat (cm_frame fpu lr)"
  shows "wp (cm_restore fpu p m c') (\<lambda>(c'', _). cm_same fpu lr c c'')"
proof -
  have lr: "load_word (p + 32) m = Some lr" using h by (simp add: holds_def cm_fields_def ball_Un)
  have "\<forall>(off, i) \<in> set cm_core_regs. load_word (p + of_nat off) m = Some (cm_r c i)"
    using h by (fastforce simp: holds_def cm_fields_def)
  note r = load_regs_ok [OF this, unfolded cm_core_regs_set]
  show ?thesis
  proof (cases "fp_frame fpu lr")
    case True
    then have "\<forall>(off, i) \<in> set cm_fp_regs. load_word (p + of_nat off) m = Some (cm_s c i)"
      using h by (fastforce simp: holds_def cm_fields_def)
    from load_regs_ok [OF this, unfolded cm_fp_regs_set] show ?thesis
      using True lr p r by (simp add: cm_restore_def cm_same_def cm_frame_def)
  next
    case False
    then show ?thesis using lr p r by (simp add: cm_restore_def cm_same_def cm_frame_def)
  qed
qed

lemma cm_frame_ok: "word_aligned (cm_psp c) \<Longrightarrow> cm_frame fpu lr \<le> unat (cm_psp c) \<Longrightarrow>
    frame_ok (cm_psp c - of_nat (cm_frame fpu lr)) (cm_frame fpu lr) (cm_fields fpu lr c)"
  by (rule frame_below) (cases "fp_frame fpu lr"; simp add: cm_frame_def cm_fields_def cm_fp_regs_def cm_core_regs_def)+

interpretation cm: port_context "cm_save fpu" "cm_restore fpu" "cm_frame fpu" "cm_same fpu" cm_psp for fpu
  by unfold_locales (unfold cm_save_def, rule push_frame_ok, (rule cm_frame_ok; assumption), rule refl, rule cm_restores [OF _ refl])

section \<open>The first frame\<close>

definition cm_nd_hw_stack_init :: "u32 \<Rightarrow> u32 \<Rightarrow> u32 \<Rightarrow> u32 \<Rightarrow> mem \<Rightarrow> (u32 \<times> mem) option" where
  "cm_nd_hw_stack_init nd_thread_entry entk_fun par stk_addr m = (
     let stk = stk_addr + 4;
         stk = ND_ALIGN_DOWN stk 8;
         stk = stk - 68
     in push_frame stk
          [(36, entk_fun), (40, par), (44, 0), (48, 0), (52, 0), (56, 0), (60, nd_thread_entry), (64, 0x01000000),
           (32, 0xFFFFFFFD)] m)"

text \<open>What the hardware pops on the return from the exception: \<open>r0\<close> to \<open>r3\<close>, \<open>r12\<close>, \<open>lr\<close>, \<open>pc\<close> and \<open>xpsr\<close>.\<close>

definition exception_frame :: "u32 \<Rightarrow> mem \<Rightarrow> u32 list" where
  "exception_frame psp m = map (\<lambda>i. load32 m (psp + of_nat (4 * i))) [0..<8]"

definition cm_fresh :: "u32 \<Rightarrow> u32 \<Rightarrow> u32 \<Rightarrow> mem \<Rightarrow> cm_core" where
  "cm_fresh entk_fun par stk_addr m =
     (let psp = ND_ALIGN_DOWN (stk_addr + 4) 8 - 32 in
      \<lparr>cm_r = (\<lambda>i. load32 m (psp - 36 + of_nat (4 * (i - 4)))), cm_psp = psp, cm_lr = 0xFFFFFFFD, cm_s = (\<lambda>_. 0)\<rparr>)"

definition cm_room :: "u32 \<Rightarrow> u32 \<Rightarrow> bool" where
  "cm_room = frame_room 8 4 68"

lemma cm_room_top:
  assumes "cm_room stack sz" "tp = ND_ALIGN_DOWN (stack + sz + 4) 8"
  shows "word_aligned tp" "68 \<le> unat tp" "span (tp - 68) 68 \<subseteq> span stack (unat sz)"
proof -
  have r: "frame_room 8 4 68 stack sz" using assms(1) by (simp add: cm_room_def)
  then have "unat (stack + sz + 4) = unat stack + unat sz + 4" by (simp add: frame_room_def unat_word_ariths)
  then have "unat tp = (unat stack + unat sz + 4) div 8 * 8" using assms(2) by (simp add: unat_ND_ALIGN_DOWN)
  note top = frame_room_top [OF r this]
  show "68 \<le> unat tp" "span (tp - 68) 68 \<subseteq> span stack (unat sz)" using top by simp_all
  show "word_aligned tp" using assms(2) dvd_mult [of "4 :: nat" 8] by (simp add: word_aligned_unat unat_ND_ALIGN_DOWN)
qed

lemma cm_stack_init_ok:
  assumes "word_aligned tp" "68 \<le> unat tp" "tp = ND_ALIGN_DOWN (a + 4) 8"
  shows "wp (cm_nd_hw_stack_init nte e par a m) (\<lambda>(p, m'). p = tp - 68 \<and> holds (tp - 68) 68
    [(36, e), (40, par), (44, 0), (48, 0), (52, 0), (56, 0), (60, nte), (64, 0x01000000), (32, 0xFFFFFFFD)] m' \<and>
    agree_on (- span (tp - 68) 68) m m')"
proof -
  let ?gs = "[(36, e), (40, par), (44, 0), (48, 0), (52, 0), (56, 0), (60, nte), (64, 0x01000000), (32, 0xFFFFFFFD)]"
  have "frame_ok (tp - of_nat 68) 68 ?gs" by (rule frame_below [OF assms(1,2)]) auto
  from store_at_ok [OF this, of m] show ?thesis
    unfolding cm_nd_hw_stack_init_def Let_def push_frame_def assms(3) [symmetric] wp_bind wp_Some prod.case by simp
qed

lemma cm_parked:
  assumes tp: "word_aligned tp" "68 \<le> unat tp" "tp = ND_ALIGN_DOWN (a + 4) 8" and h: "load_word (tp - 36) m = Some 0xFFFFFFFD"
  shows "parked (cm_restore fpu) (cm_frame fpu) (cm_same fpu) cm_psp 0xFFFFFFFD (cm_fresh e par a m) (tp - 68) m"
proof (rule parkedI)
  let ?c = "cm_fresh e par a m" and ?k = "0xFFFFFFFD :: u32"
  have k: "\<not> fp_frame fpu ?k" "cm_frame fpu ?k = 36" by (simp_all add: cm_frame_def fp_frame_def)
  have psp: "cm_psp ?c = tp - 32" by (simp add: cm_fresh_def tp(3))
  have u: "unat (tp - 32) = unat tp - 32" "unat (tp - 68) = unat tp - 68"
    using unat_below [of 32 tp] unat_below [of 68 tp] tp(2) by simp_all
  show f: "frame_ok (tp - 68) (cm_frame fpu ?k) (cm_fields fpu ?k ?c)"
    using cm_frame_ok [of ?c fpu ?k] u tp(1,2) k by (simp add: psp word_aligned_unat dvd_diff_nat)
  show "tp - 68 = cm_psp ?c - of_nat (cm_frame fpu ?k)" using k psp by simp
  have al: "word_aligned (tp - 68 + of_nat off)" if "off \<in> {0, 4, 8, 12, 16, 20, 24, 28}" for off
    by (rule word_aligned_off) (use that tp(1,2) u unat32 [of tp] in \<open>auto simp: word_aligned_unat dvd_diff_nat\<close>)
  show "holds (tp - 68) (cm_frame fpu ?k) (cm_fields fpu ?k ?c) m"
    using h al [of 0] al [of 4] al [of 8] al [of 12] al [of 16] al [of 20] al [of 24] al [of 28] k tp(3)
    by (simp add: holds_def cm_fields_def cm_core_regs_def load_word_def cm_fresh_def Let_def split: if_splits)
  show "wp (cm_restore fpu (tp - 68) m' c') (\<lambda>(c'', _). cm_same fpu ?k ?c c'')"
    if "holds (tp - 68) (cm_frame fpu ?k) (cm_fields fpu ?k ?c) m'" for m' c'
    using cm_restores [OF that] k psp by simp
qed

lemma cm_stack_init_law:
  assumes "cm_room stack sz"
  shows "wp (cm_nd_hw_stack_init nte e par (stack + sz) m) (\<lambda>(p, m').
      parked (cm_restore fpu) (cm_frame fpu) (cm_same fpu) cm_psp 0xFFFFFFFD (cm_fresh e par (stack + sz) m') p m' \<and>
      frame_span (cm_frame fpu) cm_psp 0xFFFFFFFD (cm_fresh e par (stack + sz) m') \<subseteq> span stack (unat sz) \<and>
      agree_on (- span stack (unat sz)) m m')"
proof -
  define tp where "tp = ND_ALIGN_DOWN (stack + sz + 4) 8"
  note tp = cm_room_top [OF assms tp_def]
  have k: "cm_frame fpu 0xFFFFFFFD = 36" by (simp add: cm_frame_def fp_frame_def)
  have u: "unat (tp - 68) = unat tp - 68" using unat_below [of 68 tp] tp(2) by simp
  have "frame_span (cm_frame fpu) cm_psp 0xFFFFFFFD (cm_fresh e par (stack + sz) m') = span (tp - 68) 36" for m'
    by (simp add: frame_span_def k cm_fresh_def tp_def)
  moreover have "span (tp - 68) 36 \<subseteq> span (tp - 68) 68" by (auto simp: span_def)
  ultimately have fs: "frame_span (cm_frame fpu) cm_psp 0xFFFFFFFD (cm_fresh e par (stack + sz) m') \<subseteq> span stack (unat sz)" for m'
    using tp(3) by simp
  show ?thesis
    by (rule wp_mono [OF cm_stack_init_ok [OF tp(1,2) tp_def]])
      (use fs cm_parked [OF tp(1,2) tp_def] agree_on_mono [OF _ Compl_anti_mono [OF tp(3)]] in \<open>auto simp: holds_def\<close>)
qed

definition cm_begun :: "u32 \<Rightarrow> u32 \<Rightarrow> u32 \<Rightarrow> cm_core \<Rightarrow> bool" where
  "cm_begun entk_fun par stk_addr c \<longleftrightarrow> cm_psp c = ND_ALIGN_DOWN (stk_addr + 4) 8 - 32 \<and> cm_lr c = 0xFFFFFFFD"

lemma cm_first_law:
  assumes "parked (cm_restore fpu) (cm_frame fpu) (cm_same fpu) cm_psp 0xFFFFFFFD (cm_fresh e par a m) p m'"
  shows "wp (cm_first_switch p m' c') (\<lambda>(c'', _). cm_begun e par a c'')"
  using assms by (simp add: parked_def cm_first_switch_def cm_begun_def cm_fresh_def Let_def cm_frame_def fp_frame_def)

interpretation cm_threads: port_boot "cm_save fpu" "cm_restore fpu" "cm_frame fpu" "cm_same fpu" cm_psp
  "cm_nd_hw_stack_init nte" cm_fresh "0xFFFFFFFD" cm_room cm_first_switch cm_begun for fpu nte
  by unfold_locales (simp add: cm_room_def frame_room_def, erule cm_stack_init_law, erule cm_first_law)

text \<open>The hardware frame of a new thread.\<close>

lemma cm_exception_frame:
  assumes r: "cm_room stack sz" and i: "thread_stack_init (cm_nd_hw_stack_init nte) e par stack sz m0 = Some (p, mt)"
    and ag: "agree_on (span stack (unat sz)) mt m" and psp: "psp = ND_ALIGN_DOWN (stack + sz + 4) 8 - 32"
  shows "exception_frame psp m = [e, par, 0, 0, 0, 0, nte, 0x01000000]"
proof -
  define tp where "tp = ND_ALIGN_DOWN (stack + sz + 4) 8"
  note tp = cm_room_top [OF r tp_def]
  let ?gs = "[(36, e), (40, par), (44, 0), (48, 0), (52, 0), (56, 0), (60, nte), (64, 0x01000000), (32, 0xFFFFFFFD)]"
  have "holds (tp - 68) 68 ?gs mt"
    using cm_stack_init_ok [OF tp(1,2) tp_def, of nte e par "snd (nd_memset stack 0xAA sz m0)"] i
    by (simp add: thread_stack_init_def)
  moreover have "frame_ok (tp - of_nat 68) 68 ?gs" by (rule frame_below [OF tp(1,2)]) auto
  moreover have "agree_on (span (tp - of_nat 68) 68) mt m" using agree_on_mono [OF ag] tp(3) by simp
  ultimately have "holds (tp - 68) 68 ?gs m" using holds_agree [of "tp - 68" 68 ?gs mt m] by simp
  then show ?thesis
    by (simp add: holds_def exception_frame_def psp tp_def load_word_def upt_rec split: if_splits)
qed

text \<open>When the end of the stack is 4 modulo 8 the frame reaches over it: the status register is behind the stack.\<close>

lemma cm_stack_overrun:
  assumes "8 dvd unat stk_addr + 4" "64 \<le> unat stk_addr" "unat stk_addr + 4 < 2 ^ 32"
  shows "wp (cm_nd_hw_stack_init nte e par stk_addr m) (\<lambda>(p, m'). load_word stk_addr m' = Some 0x01000000)"
proof -
  define tp where "tp = ND_ALIGN_DOWN (stk_addr + 4) 8"
  have "unat (stk_addr + 4) = unat stk_addr + 4" using assms(3) by (simp add: unat_word_ariths)
  then have "unat tp = unat (stk_addr + 4)" using assms(1) by (simp add: tp_def unat_ND_ALIGN_DOWN)
  then have tp: "tp = stk_addr + 4" by (simp add: word_unat_eq_iff)
  have al: "word_aligned tp" using dvd_mult [of "4 :: nat" 8] by (simp add: tp_def word_aligned_unat unat_ND_ALIGN_DOWN)
  have "68 \<le> unat tp" using tp assms by (simp add: unat_word_ariths)
  from cm_stack_init_ok [OF al this tp_def, of nte e par m] show ?thesis
    by (rule wp_mono) (simp add: holds_def tp split: prod.splits)
qed

section \<open>Properties\<close>

text \<open>C36: the same of the Cortex-M ports, with and without a floating point unit: the hardware pops the entry, the
  parameter and \<^verbatim>\<open>nd_thread_entry\<close> from the first frame; every later PendSV gives the next thread back the registers the
  hardware does not stack, its \<^verbatim>\<open>EXC_RETURN\<close>, its stack pointer and its stack, and the floating point registers if the
  thread has used them.\<close>

theorem cm_threads_run:
  assumes "stacks_ok cm_room S ts"
  shows "wp (create_stacks (cm_nd_hw_stack_init nte) ts m sps) (\<lambda>(m', sps'). \<forall>(f, entk, par, stack, sz) \<in> set ts.
    wp (switch_first cm_first_switch f c m' sps') (\<lambda>M0. running M0 = f \<and>
      (cm_begun entk par (stack + sz) (core M0) \<and>
       exception_frame (cm_psp (core M0)) (ram M0) = [entk, par, 0, 0, 0, 0, nte, 0x01000000]) \<and>
      switches_ok (cm_save fpu) (cm_restore fpu) (cm_frame fpu) (cm_same fpu) cm_psp S M0
        ((ctx_created (cm_nd_hw_stack_init nte) cm_fresh 0xFFFFFFFD ts m)(f := None))))"
proof -
  have e: "exception_frame (cm_psp C) M = [entk, par, 0, 0, 0, 0, nte, 0x01000000]"
    if "(f, entk, par, stack, sz) \<in> set ts" "cm_begun entk par (stack + sz) C"
      "\<exists>m0 p mt. thread_stack_init (cm_nd_hw_stack_init nte) entk par stack sz m0 = Some (p, mt) \<and> agree_on (S f) mt M"
    for f entk par stack sz C M
    using that assms cm_exception_frame by (fastforce simp: stacks_ok_def cm_begun_def)
  show ?thesis
    by (rule wp_mono [OF cm_threads.threads_run [OF assms, of nte m sps c fpu]]) (fastforce elim!: wp_mono dest: e)
qed

theorem cm_threads_run_witness:
  "\<forall>c. \<exists>m sps M0 M. create_stacks (cm_nd_hw_stack_init 0x9001) two_threads (\<lambda>_. 0) (\<lambda>_. 0) = Some (m, sps) \<and>
     switch_first cm_first_switch 3 c m sps = Some M0 \<and>
     exception_frame (cm_psp (core M0)) (ram M0) = [0x8001, 7, 0, 0, 0, 0, 0x9001, 0x01000000] \<and>
     switch_context (cm_save True) (cm_restore True) 0xFFFFFFED 4 M0 = Some M \<and> running M = 4"
proof
  fix c :: cm_core
  have ok: "stacks_ok cm_room two_stacks two_threads" by (simp add: cm_room_def two_stacks_ok two_rooms)
  have t: "(3, 0x8001, 7, 0x20000400, 512) \<in> set two_threads" "(4, 0x8101, 9, 0x20000600, 512) \<in> set two_threads"
    by (simp_all add: two_threads_def)
  have g: "4 \<in> dom (ctx_created (cm_nd_hw_stack_init 0x9001) cm_fresh (0xFFFFFFFD :: u32) two_threads (\<lambda>_. 0))"
    using cm_threads.created_dom [OF ok] by (simp add: two_threads_def)
  have room: "has_room (cm_frame True) cm_psp 0xFFFFFFED (core M0) (two_stacks 3)"
    if "cm_begun 0x8001 7 (0x20000400 + 512) (core M0) \<and>
      exception_frame (cm_psp (core M0)) (ram M0) = [0x8001, 7, 0, 0, 0, 0, 0x9001, 0x01000000]" for M0
    by (rule two_stacks_room [where d = 32]) (use that in \<open>simp_all add: cm_begun_def ND_ALIGN_DOWN_def cm_frame_def\<close>)
  show "\<exists>m sps M0 M. create_stacks (cm_nd_hw_stack_init 0x9001) two_threads (\<lambda>_. 0) (\<lambda>_. 0) = Some (m, sps) \<and>
     switch_first cm_first_switch 3 c m sps = Some M0 \<and>
     exception_frame (cm_psp (core M0)) (ram M0) = [0x8001, 7, 0, 0, 0, 0, 0x9001, 0x01000000] \<and>
     switch_context (cm_save True) (cm_restore True) 0xFFFFFFED 4 M0 = Some M \<and> running M = 4"
    using run_two [OF cm_threads_run [OF ok] t(1) g _ room] unfolding resumes_def by simp blast
qed

end
