(* ===== verification/Nd_Port_Riscv.thy ===== *)
theory Nd_Port_Riscv
  imports Nd_Context
begin

text \<open>
  The RISC-V port: \<^verbatim>\<open>context.S\<close>, \<^verbatim>\<open>port.c\<close> and the frames of \<^verbatim>\<open>trap.S\<close> in \<^verbatim>\<open>arch/riscv/rv32\<close>: voluntary and interrupt
  frames and the first frame with its trampoline.
\<close>

text \<open>
  The registers \<open>x1\<close> to \<open>x31\<close> by their numbers, without \<open>x2\<close>, which is \<open>rv_sp\<close>. In \<^verbatim>\<open>riscv_trap_entry\<close> the processor has
  already put the interrupted program counter in \<open>rv_mepc\<close> and pushed the interrupt enable bit of \<open>rv_mstatus\<close>; \<^verbatim>\<open>mret\<close> is
  the inverse of that, so \<open>rv_mstatus\<close> is compared as it is before \<^verbatim>\<open>mret\<close>.
\<close>

record rv_core =
  rv_x :: "nat \<Rightarrow> u32"
  rv_sp :: u32
  rv_pc :: u32
  rv_mstatus :: u32
  rv_mepc :: u32
  rv_meicontext :: u32

fun rv_frame :: "frame_type \<Rightarrow> nat" where
  "rv_frame FRAME_TYPE_VOLUNTARY = 64"
| "rv_frame FRAME_TYPE_PREEMPT = 160"

definition rv_voluntary_regs :: "(nat \<times> nat) list" where
  "rv_voluntary_regs = [(8, 1), (12, 8), (16, 9), (20, 18), (24, 19), (28, 20), (32, 21), (36, 22), (40, 23), (44, 24), (48, 25),
     (52, 26), (56, 27)]"

definition rv_irq_regs :: "(nat \<times> nat) list" where
  "rv_irq_regs = [(12, 1), (16, 3), (20, 4), (28, 6), (32, 7), (36, 8), (40, 9), (44, 10), (48, 11), (52, 12), (56, 13), (60, 14),
     (64, 15), (68, 16), (72, 17), (76, 18), (80, 19), (84, 20), (88, 21), (92, 22), (96, 23), (100, 24), (104, 25), (108, 26),
     (112, 27), (116, 28), (120, 29), (124, 30), (128, 31)]"

definition rv_voluntary_fields :: "rv_core \<Rightarrow> (nat \<times> u32) list" where
  "rv_voluntary_fields c = [(0, frame_word FRAME_TYPE_VOLUNTARY), (4, rv_mstatus c)] @ map (\<lambda>(off, i). (off, rv_x c i)) rv_voluntary_regs"

definition rv_irq_fields :: "rv_core \<Rightarrow> (nat \<times> u32) list" where
  "rv_irq_fields c =
     [(24, rv_x c 5), (0, frame_word FRAME_TYPE_PREEMPT), (4, rv_mstatus c), (8, rv_mepc c), (132, rv_meicontext c)] @
     map (\<lambda>(off, i). (off, rv_x c i)) rv_irq_regs"

fun rv_fields :: "frame_type \<Rightarrow> rv_core \<Rightarrow> (nat \<times> u32) list" where
  "rv_fields FRAME_TYPE_VOLUNTARY c = rv_voluntary_fields c"
| "rv_fields FRAME_TYPE_PREEMPT c = rv_irq_fields c"

definition rv_save :: "frame_type \<Rightarrow> rv_core \<Rightarrow> mem \<Rightarrow> (u32 \<times> mem) option" where
  "rv_save k c m = push_frame (rv_sp c - of_nat (rv_frame k)) (rv_fields k c) m"

definition RISCV_MEICONTEXT_FOREGROUND :: u32 where
  "RISCV_MEICONTEXT_FOREGROUND = 0x8000"

definition rv_restore_voluntary :: "u32 \<Rightarrow> mem \<Rightarrow> rv_core \<Rightarrow> (rv_core \<times> u32) option" where
  "rv_restore_voluntary p m c = do {
     t0 \<leftarrow> load_word (p + 4) m;
     r \<leftarrow> load_regs p rv_voluntary_regs m ((rv_x c)(5 := t0));
     Some (c\<lparr>rv_x := r, rv_sp := p + 64, rv_pc := r 1, rv_mstatus := t0, rv_meicontext := RISCV_MEICONTEXT_FOREGROUND\<rparr>, p)
   }"

definition rv_restore_irq :: "u32 \<Rightarrow> mem \<Rightarrow> rv_core \<Rightarrow> (rv_core \<times> u32) option" where
  "rv_restore_irq p m c = do {
     mepc \<leftarrow> load_word (p + 8) m;
     mst \<leftarrow> load_word (p + 4) m;
     mei \<leftarrow> load_word (p + 132) m;
     r \<leftarrow> load_regs p (rv_irq_regs @ [(24, 5)]) m (rv_x c);
     Some (c\<lparr>rv_x := r, rv_sp := p + 160, rv_pc := mepc, rv_mstatus := mst, rv_mepc := mepc, rv_meicontext := mei\<rparr>, p + 160)
   }"

definition rv_restore_dispatch :: "u32 \<Rightarrow> mem \<Rightarrow> rv_core \<Rightarrow> (rv_core \<times> u32) option" where
  "rv_restore_dispatch p m c = do {
     t0 \<leftarrow> load_word p m;
     let c = c\<lparr>rv_x := (rv_x c)(5 := t0, 6 := frame_word FRAME_TYPE_PREEMPT)\<rparr>;
     if t0 = frame_word FRAME_TYPE_PREEMPT then rv_restore_irq p m c else rv_restore_voluntary p m c
   }"

text \<open>The registers that a call preserves with the return address, and all but the stack pointer.\<close>

definition rv_callee_saved :: "nat set" where
  "rv_callee_saved = set ([1, 8, 9] @ [18..<28])"

definition rv_all :: "nat set" where
  "rv_all = set (1 # [3..<32])"

fun rv_same :: "frame_type \<Rightarrow> rv_core \<Rightarrow> rv_core \<Rightarrow> bool" where
  "rv_same FRAME_TYPE_VOLUNTARY c c' \<longleftrightarrow> (\<forall>i \<in> rv_callee_saved. rv_x c' i = rv_x c i) \<and> rv_sp c' = rv_sp c \<and>
     rv_pc c' = rv_x c 1 \<and> rv_mstatus c' = rv_mstatus c"
| "rv_same FRAME_TYPE_PREEMPT c c' \<longleftrightarrow> (\<forall>i \<in> rv_all. rv_x c' i = rv_x c i) \<and> rv_sp c' = rv_sp c \<and>
     rv_pc c' = rv_mepc c \<and> rv_mstatus c' = rv_mstatus c \<and> rv_meicontext c' = rv_meicontext c"

lemma rv_voluntary_set: "snd ` set rv_voluntary_regs = rv_callee_saved"
  unfolding rv_voluntary_regs_def rv_callee_saved_def by (simp add: insert_commute)

lemma rv_irq_set: "snd ` set (rv_irq_regs @ [(24, 5)]) = rv_all"
  unfolding rv_irq_regs_def rv_all_def by (simp add: insert_commute)

lemma rv_ra: "Suc 0 \<in> rv_callee_saved"
  by (simp add: rv_callee_saved_def)

lemma rv_restores:
  assumes "holds p (rv_frame k) (rv_fields k c) m" "p = rv_sp c - of_nat (rv_frame k)"
  shows "wp (rv_restore_dispatch p m c') (\<lambda>(c'', _). rv_same k c c'')"
proof (cases k)
  case FRAME_TYPE_VOLUNTARY
  have "\<forall>(off, i) \<in> set rv_voluntary_regs. load_word (p + of_nat off) m = Some (rv_x c i)"
    using assms(1) FRAME_TYPE_VOLUNTARY by (fastforce simp: holds_def rv_voluntary_fields_def)
  from load_regs_ok [OF this, unfolded rv_voluntary_set] show ?thesis using assms FRAME_TYPE_VOLUNTARY rv_ra
    by (simp add: holds_def rv_voluntary_fields_def rv_restore_dispatch_def rv_restore_voluntary_def)
next
  case FRAME_TYPE_PREEMPT
  have "\<forall>(off, i) \<in> set (rv_irq_regs @ [(24, 5)]). load_word (p + of_nat off) m = Some (rv_x c i)"
    using assms(1) FRAME_TYPE_PREEMPT by (fastforce simp: holds_def rv_irq_fields_def)
  from load_regs_ok [OF this, unfolded rv_irq_set] show ?thesis using assms FRAME_TYPE_PREEMPT
    by (simp add: holds_def rv_irq_fields_def rv_restore_dispatch_def rv_restore_irq_def)
qed

lemma rv_frame_ok: "word_aligned (rv_sp c) \<Longrightarrow> rv_frame k \<le> unat (rv_sp c) \<Longrightarrow>
    frame_ok (rv_sp c - of_nat (rv_frame k)) (rv_frame k) (rv_fields k c)"
  by (rule frame_below) (cases k; simp add: rv_voluntary_fields_def rv_irq_fields_def rv_voluntary_regs_def rv_irq_regs_def)+

interpretation rv: port_context rv_save rv_restore_dispatch rv_frame rv_same rv_sp
  by unfold_locales (unfold rv_save_def, rule push_frame_ok, (rule rv_frame_ok; assumption), rule refl, rule rv_restores [OF _ refl])

section \<open>The first frame\<close>

definition RISCV_MSTATUS_MIE :: u32 where
  "RISCV_MSTATUS_MIE = 8"

definition rv_nd_hw_stack_init :: "u32 \<Rightarrow> u32 \<Rightarrow> u32 \<Rightarrow> u32 \<Rightarrow> u32 \<Rightarrow> mem \<Rightarrow> (u32 \<times> mem) option" where
  "rv_nd_hw_stack_init nd_thread_entry trampoline entry_fun par stk_addr m =
     push_frame (ND_ALIGN_DOWN stk_addr 16 - 64)
       [(60, 0), (56, 0), (52, 0), (48, 0), (44, 0), (40, 0), (36, 0), (32, 0), (28, 0), (24, 0), (20, par), (16, entry_fun),
        (12, nd_thread_entry), (8, trampoline), (4, RISCV_MSTATUS_MIE), (0, frame_word FRAME_TYPE_VOLUNTARY)] m"

text \<open>The trampoline enables interrupts, moves \<open>s1\<close> and \<open>s2\<close> to the argument registers and jumps to \<open>s0\<close>.\<close>

definition task_entry_trampoline :: "rv_core \<Rightarrow> rv_core" where
  "task_entry_trampoline c = c\<lparr>rv_mstatus := rv_mstatus c OR RISCV_MSTATUS_MIE, rv_x := (rv_x c)(10 := rv_x c 9, 11 := rv_x c 18),
     rv_pc := rv_x c 8\<rparr>"

definition rv_fresh :: "u32 \<Rightarrow> u32 \<Rightarrow> u32 \<Rightarrow> u32 \<Rightarrow> u32 \<Rightarrow> mem \<Rightarrow> rv_core" where
  "rv_fresh nd_thread_entry trampoline entry_fun par stk_addr m =
     \<lparr>rv_x = (\<lambda>_. 0)(1 := trampoline, 8 := nd_thread_entry, 9 := entry_fun, 18 := par), rv_sp = ND_ALIGN_DOWN stk_addr 16,
      rv_pc = trampoline, rv_mstatus = RISCV_MSTATUS_MIE, rv_mepc = 0, rv_meicontext = 0\<rparr>"

definition rv_room :: "u32 \<Rightarrow> u32 \<Rightarrow> bool" where
  "rv_room = frame_room 16 0 64"

lemma rv_stack_init_law:
  assumes "rv_room stack sz"
  shows "wp (rv_nd_hw_stack_init nte tr e par (stack + sz) m) (\<lambda>(p, m').
      parked rv_restore_dispatch rv_frame rv_same rv_sp FRAME_TYPE_VOLUNTARY (rv_fresh nte tr e par (stack + sz) m') p m' \<and>
      frame_span rv_frame rv_sp FRAME_TYPE_VOLUNTARY (rv_fresh nte tr e par (stack + sz) m') \<subseteq> span stack (unat sz) \<and>
      agree_on (- span stack (unat sz)) m m')"
proof -
  let ?tp = "ND_ALIGN_DOWN (stack + sz) 16" and ?c = "rv_fresh nte tr e par (stack + sz) m"
  let ?p = "?tp - of_nat 64"
  let ?gs = "[(60, 0), (56, 0), (52, 0), (48, 0), (44, 0), (40, 0), (36, 0), (32, 0), (28, 0), (24, 0), (20, par), (16, e), (12, nte),
    (8, tr), (4, RISCV_MSTATUS_MIE), (0, frame_word FRAME_TYPE_VOLUNTARY)]"
  have r: "frame_room 16 0 64 stack sz" using assms by (simp add: rv_room_def)
  then have "unat (stack + sz) = unat stack + unat sz" by (simp add: frame_room_def unat_word_ariths)
  then have "unat ?tp = (unat stack + unat sz + 0) div 16 * 16" by (simp add: unat_ND_ALIGN_DOWN)
  note top = frame_room_top [OF r this]
  have al: "word_aligned ?tp" using dvd_mult [of "4 :: nat" 16] by (simp add: word_aligned_unat unat_ND_ALIGN_DOWN)
  have g: "frame_ok ?p 64 ?gs" by (rule frame_below [OF al top(1)]) auto
  have pk: "parked rv_restore_dispatch rv_frame rv_same rv_sp FRAME_TYPE_VOLUNTARY ?c ?p m'" if "holds ?p 64 ?gs m'" for m'
  proof (rule parkedI)
    show "holds ?p (rv_frame FRAME_TYPE_VOLUNTARY) (rv_fields FRAME_TYPE_VOLUNTARY ?c) m'"
      using that by (simp add: holds_def rv_voluntary_fields_def rv_voluntary_regs_def rv_fresh_def)
    show "frame_ok ?p (rv_frame FRAME_TYPE_VOLUNTARY) (rv_fields FRAME_TYPE_VOLUNTARY ?c)"
      using rv_frame_ok [of ?c FRAME_TYPE_VOLUNTARY] al top(1) by (simp add: rv_fresh_def)
  qed (use rv_restores [of ?p FRAME_TYPE_VOLUNTARY ?c] in \<open>simp_all add: rv_fresh_def\<close>)
  have fs: "frame_span rv_frame rv_sp FRAME_TYPE_VOLUNTARY ?c \<subseteq> span stack (unat sz)"
    using top(2) by (simp add: frame_span_def rv_fresh_def)
  have "wp (push_frame ?p ?gs m) (\<lambda>(p, m'). p = ?p \<and> holds ?p 64 ?gs m' \<and> agree_on (- span ?p 64) m m')"
    unfolding push_frame_def wp_bind wp_Some prod.case using store_at_ok [OF g] by simp
  then have "wp (push_frame ?p ?gs m) (\<lambda>(p, m').
      parked rv_restore_dispatch rv_frame rv_same rv_sp FRAME_TYPE_VOLUNTARY ?c p m' \<and>
      frame_span rv_frame rv_sp FRAME_TYPE_VOLUNTARY ?c \<subseteq> span stack (unat sz) \<and> agree_on (- span stack (unat sz)) m m')"
    by (rule wp_mono) (use pk fs agree_on_mono [OF _ Compl_anti_mono [OF top(2)]] in blast)
  then show ?thesis by (simp add: rv_nd_hw_stack_init_def rv_fresh_def del: store_at.simps)
qed

definition rv_begun :: "u32 \<Rightarrow> u32 \<Rightarrow> u32 \<Rightarrow> u32 \<Rightarrow> u32 \<Rightarrow> rv_core \<Rightarrow> bool" where
  "rv_begun nd_thread_entry trampoline entry_fun par stk_addr c \<longleftrightarrow> rv_pc c = trampoline \<and> rv_sp c = ND_ALIGN_DOWN stk_addr 16 \<and>
     (let c = task_entry_trampoline c in rv_pc c = nd_thread_entry \<and> rv_x c 10 = entry_fun \<and> rv_x c 11 = par)"

lemma rv_first_law:
  assumes "parked rv_restore_dispatch rv_frame rv_same rv_sp FRAME_TYPE_VOLUNTARY (rv_fresh nte tr e par a m) p m'"
  shows "wp (rv_restore_dispatch p m' c') (\<lambda>(c'', _). rv_begun nte tr e par a c'')"
  by (rule wp_mono [OF parked_restores [OF assms]]) (auto simp: rv_fresh_def rv_begun_def rv_callee_saved_def task_entry_trampoline_def)

interpretation rv_threads: port_boot rv_save rv_restore_dispatch rv_frame rv_same rv_sp
  "rv_nd_hw_stack_init nte tr" "rv_fresh nte tr" FRAME_TYPE_VOLUNTARY rv_room rv_restore_dispatch "rv_begun nte tr" for nte tr
  by unfold_locales (simp add: rv_room_def frame_room_def, erule rv_stack_init_law, erule rv_first_law)

section \<open>Properties\<close>

text \<open>C37: the same of the RISC-V port: the first switch goes to the trampoline, which goes on in
  \<^verbatim>\<open>nd_thread_entry\<close> with the entry and the parameter of the thread; later switches, voluntary or by an interrupt, give
  every thread back its registers (the ones a call preserves, or all of them) and its stack.\<close>

theorem rv_threads_run:
  assumes "stacks_ok rv_room S ts"
  shows "wp (create_stacks (rv_nd_hw_stack_init nte tr) ts m sps) (\<lambda>(m', sps'). \<forall>(f, entk, par, stack, sz) \<in> set ts.
    wp (switch_first rv_restore_dispatch f c m' sps') (\<lambda>M0. running M0 = f \<and> rv_begun nte tr entk par (stack + sz) (core M0) \<and>
      switches_ok rv_save rv_restore_dispatch rv_frame rv_same rv_sp S M0
        ((ctx_created (rv_nd_hw_stack_init nte tr) (rv_fresh nte tr) FRAME_TYPE_VOLUNTARY ts m)(f := None))))"
  by (rule wp_mono [OF rv_threads.threads_run [OF assms, of nte tr m sps c]]) (fastforce elim: wp_mono)

theorem rv_threads_run_witness:
  "\<forall>c. \<exists>m sps M0 M. create_stacks (rv_nd_hw_stack_init 0x9001 0x9101) two_threads (\<lambda>_. 0) (\<lambda>_. 0) = Some (m, sps) \<and>
     switch_first rv_restore_dispatch 3 c m sps = Some M0 \<and> rv_begun 0x9001 0x9101 0x8001 7 (0x20000400 + 512) (core M0) \<and>
     switch_context rv_save rv_restore_dispatch FRAME_TYPE_PREEMPT 4 M0 = Some M \<and> running M = 4"
proof
  fix c :: rv_core
  have ok: "stacks_ok rv_room two_stacks two_threads" by (simp add: rv_room_def two_stacks_ok two_rooms)
  have t: "(3, 0x8001, 7, 0x20000400, 512) \<in> set two_threads" "(4, 0x8101, 9, 0x20000600, 512) \<in> set two_threads"
    by (simp_all add: two_threads_def)
  have g: "4 \<in> dom (ctx_created (rv_nd_hw_stack_init 0x9001 0x9101) (rv_fresh 0x9001 0x9101) FRAME_TYPE_VOLUNTARY two_threads (\<lambda>_. 0))"
    using rv_threads.created_dom [OF ok] by (simp add: two_threads_def)
  have room: "has_room rv_frame rv_sp FRAME_TYPE_PREEMPT (core M0) (two_stacks 3)" if "rv_begun 0x9001 0x9101 0x8001 7 (0x20000400 + 512) (core M0)" for M0
    by (rule two_stacks_room [where d = 0]) (use that in \<open>simp_all add: rv_begun_def ND_ALIGN_DOWN_def\<close>)
  show "\<exists>m sps M0 M. create_stacks (rv_nd_hw_stack_init 0x9001 0x9101) two_threads (\<lambda>_. 0) (\<lambda>_. 0) = Some (m, sps) \<and>
     switch_first rv_restore_dispatch 3 c m sps = Some M0 \<and> rv_begun 0x9001 0x9101 0x8001 7 (0x20000400 + 512) (core M0) \<and>
     switch_context rv_save rv_restore_dispatch FRAME_TYPE_PREEMPT 4 M0 = Some M \<and> running M = 4"
    using run_two [OF rv_threads_run [OF ok] t(1) g _ room] unfolding resumes_def by simp blast
qed

end
