(* ===== verification/Nd_Riscv_Trap.thy ===== *)
theory Nd_Riscv_Trap
  imports Nd_Port_Riscv Nd_Sample
begin

text \<open>
  Traps of the RISC-V port (\<^verbatim>\<open>trap.S\<close>, \<^verbatim>\<open>trap.c\<close>): the path from \<^verbatim>\<open>riscv_trap_entry\<close> through \<^verbatim>\<open>riscv_trap_handler\<close>, for
  interrupts and for exceptions, and \<^verbatim>\<open>nd_schedule_irq_exit\<close> to the thread whose context is restored. It works on the
  registers, the memory and the kernel's state together; the \<^verbatim>\<open>sp\<close> of the control blocks is that of \<open>kstate\<close>.
\<close>

section \<open>The handlers\<close>

abbreviation (input) RISCV_MCAUSE_INTERRUPT :: u32 where
  "RISCV_MCAUSE_INTERRUPT \<equiv> 0x80000000"

abbreviation (input) RISCV_MEINEXT_NONE :: u32 where
  "RISCV_MEINEXT_NONE \<equiv> 0x80000000"

abbreviation RISCV_MCAUSE_CODE_MASK :: u32 where
  "RISCV_MCAUSE_CODE_MASK \<equiv> 0x7FFFFFFF"

definition riscv_handle_exception :: "u32 \<Rightarrow> u32 \<Rightarrow> mem \<Rightarrow> mem option" where
  "riscv_handle_exception irq_frame cause m =
     (let code = cause AND RISCV_MCAUSE_CODE_MASK in
      if code = 2 \<or> code = 11 then do {
        mepc \<leftarrow> load_word (irq_frame + 8) m;
        store_word (irq_frame + 8) (mepc + 4) m
      }
      else Some m)"

text \<open>
  What the SDK provides is a parameter: the number \<open>num\<close> of interrupts (\<^verbatim>\<open>NUM_IRQS\<close>) and the table \<open>vt\<close> of
  handlers (\<^verbatim>\<open>irq_get_vtable_handler\<close>). \<open>reads\<close> are the values that the register \<^verbatim>\<open>meinext\<close> gives, one after the other.
\<close>

type_synonym rv_vtable = "u32 \<Rightarrow> (kstate \<Rightarrow> kstate option) option"

fun riscv_machine_external_irq_dispatch :: "u32 \<Rightarrow> rv_vtable \<Rightarrow> u32 list \<Rightarrow> kstate \<Rightarrow> kstate option" where
  "riscv_machine_external_irq_dispatch num vt [] s = None"
| "riscv_machine_external_irq_dispatch num vt (nxt # reads) s =
     (if nxt AND RISCV_MEINEXT_NONE \<noteq> 0 then Some s
      else let irq = drop_bit 2 nxt in do {
        s \<leftarrow> (if irq < num then (case vt irq of None \<Rightarrow> Some s | Some handler \<Rightarrow> handler s) else Some s);
        riscv_machine_external_irq_dispatch num vt reads s
      })"

text \<open>The handlers of the software and the timer interrupt are the empty ones of \<^verbatim>\<open>trap.c\<close>.\<close>

definition riscv_handle_interrupt :: "u32 \<Rightarrow> rv_vtable \<Rightarrow> u32 list \<Rightarrow> u32 \<Rightarrow> kstate \<Rightarrow> kstate option" where
  "riscv_handle_interrupt num vt reads cause s0 =
     (let s = nd_enter_interrupt s0; code = cause AND RISCV_MCAUSE_CODE_MASK in do {
        s \<leftarrow> (if code = 3 then Some s
             else if code = 7 then Some s
             else if code = 11 then riscv_machine_external_irq_dispatch num vt reads s
             else Some s);
        Some (nd_exit_interrupt s)
      })"

definition riscv_trap_handler :: "u32 \<Rightarrow> rv_vtable \<Rightarrow> u32 list \<Rightarrow> u32 \<Rightarrow> u32 \<Rightarrow> mem \<Rightarrow> kstate \<Rightarrow> (mem \<times> kstate) option" where
  "riscv_trap_handler num vt reads frame cause m s =
     (if cause AND RISCV_MCAUSE_INTERRUPT \<noteq> 0 then do {
        s \<leftarrow> riscv_handle_interrupt num vt reads cause s;
        Some (m, s)
      }
      else do {
        m \<leftarrow> riscv_handle_exception frame cause m;
        Some (m, s)
      })"

text \<open>\<^verbatim>\<open>nd_current_thread->sp = p\<close>, if there is a current thread.\<close>

definition set_current_sp :: "u32 \<Rightarrow> kstate \<Rightarrow> kstate" where
  "set_current_sp p s = (case nd_current_thread s of None \<Rightarrow> s | Some t \<Rightarrow> upd_thread (sp_update (\<lambda>_. p)) t s)"

definition riscv_trap_entry ::
  "u32 \<Rightarrow> rv_vtable \<Rightarrow> u32 list \<Rightarrow> u32 \<Rightarrow> rv_core \<Rightarrow> mem \<Rightarrow> kstate \<Rightarrow> (rv_core \<times> mem \<times> kstate) option" where
  "riscv_trap_entry num vt reads cause c m s = do {
     (p, m) \<leftarrow> rv_save FRAME_TYPE_PREEMPT c m;
     (m, s) \<leftarrow> riscv_trap_handler num vt reads p cause m (set_current_sp p s);
     s \<leftarrow> nd_schedule_irq_exit s;
     let q = (case nd_current_thread s of None \<Rightarrow> p | Some t \<Rightarrow> sp (threads s t));
     (c, p') \<leftarrow> rv_restore_dispatch q m c;
     Some (c, m, set_current_sp p' s)
   }"

section \<open>The kernel's side\<close>

lemma set_current_sp_fields [simp]:
  "nd_current_thread (set_current_sp p s) = nd_current_thread s"
  "nd_interrupt_nest_count (set_current_sp p s) = nd_interrupt_nest_count s"
  "nd_interrupt_try_switch (set_current_sp p s) = nd_interrupt_try_switch s" "port (set_current_sp p s) = port s"
  "pendsv (set_current_sp p s) = pendsv s" "nd_thread_list (set_current_sp p s) = nd_thread_list s"
  "nd_next_thread (set_current_sp p s) = nd_next_thread s"
  "status (set_current_sp p s) u = status s u" "prio_of (set_current_sp p s) u = prio_of s u"
  "sp (threads (set_current_sp p s) u) = (if nd_current_thread s = Some u then p else sp (threads s u))"
  by (auto simp: set_current_sp_def upd_thread_def split: option.splits)

lemma scheduled_set_sp [simp]: "scheduled (set_current_sp p s) = scheduled s"
  by (simp add: scheduled_def highest_def)

lemma sp_views:
  "home_ok (th\<lparr>sp := p\<rparr>) h b = home_ok th h b" "timer_ok t (th\<lparr>sp := p\<rparr>) h tm b = timer_ok t th h tm b"
  "slice_ok t (th\<lparr>sp := p\<rparr>) tm b c = slice_ok t th tm b c"
  by (auto simp: home_ok_def timer_ok_def slice_ok_def split: option.splits list_head.splits)

lemma kernel_ok_set_sp [simp]: "kernel_ok i (set_current_sp p s) = kernel_ok i s"
proof (cases "nd_current_thread s")
  case (Some t)
  let ?s = "upd_thread (sp_update (\<lambda>_. p)) t s"
  have "base_ok ?s = base_ok s"
    by (simp add: base_ok_def lists_ok_def timers_ok_def bits_ok_def user_ok_def upd_thread_def)
  moreover have "thread_ok ?s u = thread_ok s u" for u
    by (cases "u = t") (simp_all add: thread_ok_def sp_views upd_thread_def)
  moreover have "nd_current_thread ?s = nd_current_thread s" "nd_interrupt_nest_count ?s = nd_interrupt_nest_count s"
    "nd_interrupt_try_switch ?s = nd_interrupt_try_switch s" "port ?s = port s" "pendsv ?s = pendsv s"
    "nd_next_thread ?s = nd_next_thread s" "\<And>u. status ?s u = status s u"
    by (simp_all add: upd_thread_def)
  ultimately have "kernel_ok i ?s = kernel_ok i s" by (simp only: kernel_ok_def kinv_def cur_ok_def cur_link_def)
  then show ?thesis using Some by (simp add: set_current_sp_def)
qed (simp add: set_current_sp_def)

text \<open>
  What a handler has to do: return and keep the invariant of the kernel, the nesting count, the current thread (in an
  interrupt the kernel's calls only ask for a switch) and the saved stack pointers, and create no thread.
\<close>

definition handler_frame :: "kstate \<Rightarrow> kstate \<Rightarrow> bool" where
  "handler_frame s s' \<longleftrightarrow> nd_interrupt_nest_count s' = nd_interrupt_nest_count s \<and> port s' = port s \<and>
     nd_current_thread s' = nd_current_thread s \<and> (\<forall>u. sp (threads s' u) = sp (threads s u)) \<and>
     set (nd_thread_list s') \<subseteq> set (nd_thread_list s)"

definition handlers_ok :: "tid \<Rightarrow> rv_vtable \<Rightarrow> bool" where
  "handlers_ok i vt \<longleftrightarrow> (\<forall>irq handler s. vt irq = Some handler \<longrightarrow> kernel_ok i s \<longrightarrow> scheduled s \<longrightarrow>
     nd_interrupt_nest_count s > 0 \<longrightarrow> wp (handler s) (\<lambda>s'. kernel_ok i s' \<and> scheduled s' \<and> handler_frame s s'))"

lemma dispatch_ok:
  assumes "handlers_ok i vt" and "\<exists>r \<in> set reads. r AND RISCV_MEINEXT_NONE \<noteq> 0"
    and "kernel_ok i s" and "scheduled s" and "nd_interrupt_nest_count s > 0"
  shows "wp (riscv_machine_external_irq_dispatch num vt reads s) (\<lambda>s'. kernel_ok i s' \<and> scheduled s' \<and> handler_frame s s')"
  using assms
proof (induction reads arbitrary: s)
  case (Cons r reads)
  let ?P = "\<lambda>s s'. kernel_ok i s' \<and> scheduled s' \<and> handler_frame s s'"
  show ?case
  proof (cases "r AND RISCV_MEINEXT_NONE \<noteq> 0")
    case True
    with Cons.prems show ?thesis by (simp add: handler_frame_def)
  next
    case False
    let ?irq = "drop_bit 2 r"
    have "wp (if ?irq < num then (case vt ?irq of None \<Rightarrow> Some s | Some handler \<Rightarrow> handler s) else Some s) (?P s)"
      using Cons.prems by (auto simp: handlers_ok_def handler_frame_def split: option.splits)
    then have "wp (if ?irq < num then (case vt ?irq of None \<Rightarrow> Some s | Some handler \<Rightarrow> handler s) else Some s)
        (\<lambda>s1. wp (riscv_machine_external_irq_dispatch num vt reads s1) (?P s))"
    proof (rule wp_mono, elim conjE)
      fix s1 assume s1: "kernel_ok i s1" "scheduled s1" "handler_frame s s1"
      have "wp (riscv_machine_external_irq_dispatch num vt reads s1) (?P s1)"
        by (rule Cons.IH) (use Cons.prems False s1 in \<open>auto simp: handler_frame_def\<close>)
      then show "wp (riscv_machine_external_irq_dispatch num vt reads s1) (?P s)"
        by (rule wp_mono) (use s1(3) in \<open>auto simp: handler_frame_def\<close>)
    qed
    with False show ?thesis by (simp add: Let_def wp_bind)
  qed
qed simp

section \<open>The frame's side\<close>

lemma rv_irq_fields_mepc:
  assumes "holds p 160 (rv_irq_fields c) m" "frame_ok p 160 (rv_irq_fields c)" "store_word (p + 8) v m = Some m'"
  shows "holds p 160 (rv_irq_fields (c\<lparr>rv_mepc := v\<rparr>)) m'"
proof -
  let ?fs = "filter (\<lambda>(off, _). off \<noteq> 8) (rv_irq_fields c)"
  have g: "frame_ok p 160 [(8, v)]" using assms(2) by (simp add: frame_ok_def)
  have s: "store_at p [(8, v)] m = Some m'" using assms(3) by (simp add: bind_Some_iff)
  have "holds p 160 ?fs m" using assms(1) by (auto simp: holds_def)
  moreover have "frame_ok p 160 ?fs" using assms(2) by (auto simp: frame_ok_def distinct_map inj_on_def)
  ultimately have "holds p 160 ?fs m'" by (rule holds_over [OF _ _ g s]) auto
  moreover have "load_word (p + 8) m' = Some v"
    using wpD [OF store_at_ok [OF g] s] by (simp add: holds_def)
  ultimately show ?thesis by (simp add: holds_def rv_irq_fields_def rv_irq_regs_def)
qed


text \<open>The registers a thread goes on with after an exception: behind the instruction for the two that are handled.\<close>

definition after_exception :: "u32 \<Rightarrow> rv_core \<Rightarrow> rv_core" where
  "after_exception cause c =
     (if cause AND RISCV_MCAUSE_CODE_MASK \<in> {2, 11} then c\<lparr>rv_mepc := rv_mepc c + 4\<rparr> else c)"

lemma after_exception_sp [simp]: "rv_sp (after_exception cause c) = rv_sp c"
  by (simp add: after_exception_def)

lemma rv_save_ok:
  assumes "word_aligned (rv_sp c)" "160 \<le> unat (rv_sp c)"
  obtains m1 where "rv_save FRAME_TYPE_PREEMPT c m = Some (rv_sp c - 160, m1)"
    "holds (rv_sp c - 160) 160 (rv_irq_fields c) m1" "agree_on (- span (rv_sp c - 160) 160) m m1"
proof -
  have f: "frame_ok (rv_sp c - 160) 160 (rv_irq_fields c)" using rv_frame_ok [of c FRAME_TYPE_PREEMPT] assms by simp
  from store_at_ok [OF f, of m] obtain m1 where "store_at (rv_sp c - 160) (rv_irq_fields c) m = Some m1"
    "holds (rv_sp c - 160) 160 (rv_irq_fields c) m1" "agree_on (- span (rv_sp c - 160) 160) m m1" by (auto simp: wp_iff)
  then show thesis by (intro that [of m1]) (simp_all add: rv_save_def push_frame_def)
qed

lemma handle_exception_ok:
  assumes f: "frame_ok p 160 (rv_irq_fields c)" and h: "holds p 160 (rv_irq_fields c) m"
  shows "wp (riscv_handle_exception p cause m) (\<lambda>m'. holds p 160 (rv_irq_fields (after_exception cause c)) m' \<and>
    agree_on (- span p 160) m m')"
proof (cases "cause AND RISCV_MCAUSE_CODE_MASK \<in> {2, 11}")
  case True
  have l: "load_word (p + 8) m = Some (rv_mepc c)" using h by (simp add: holds_def rv_irq_fields_def)
  have g: "frame_ok p 160 [(8, rv_mepc c + 4)]" using f by (simp add: frame_ok_def)
  have "wp (store_at p [(8, rv_mepc c + 4)] m) (\<lambda>m2. agree_on (- span p 160) m m2)"
    using store_at_ok [OF g, of m] by (rule wp_mono) blast
  then have "wp (store_word (p + 8) (rv_mepc c + 4) m) (\<lambda>m2. agree_on (- span p 160) m m2)" by simp
  then have "wp (store_word (p + 8) (rv_mepc c + 4) m) (\<lambda>m2. holds p 160 (rv_irq_fields (after_exception cause c)) m2 \<and>
      agree_on (- span p 160) m m2)"
    by (rule wp_mono) (use True rv_irq_fields_mepc [OF h f] in \<open>simp only: after_exception_def if_True\<close>)
  then show ?thesis using True l by (auto simp: riscv_handle_exception_def)
next
  case False
  then show ?thesis using h by (auto simp: riscv_handle_exception_def after_exception_def)
qed

section \<open>Properties\<close>

text \<open>The contexts of the other threads are on their stacks, where their control blocks say, apart from the new frame.\<close>

definition others_parked :: "tid \<Rightarrow> (tid \<Rightarrow> frame_type \<times> rv_core) \<Rightarrow> u32 set \<Rightarrow> mem \<Rightarrow> kstate \<Rightarrow> bool" where
  "others_parked t ctx A m s \<longleftrightarrow> (\<forall>u \<in> set (nd_thread_list s). u \<noteq> t \<longrightarrow>
     parked rv_restore_dispatch rv_frame rv_same rv_sp (fst (ctx u)) (snd (ctx u)) (sp (threads s u)) m \<and>
     frame_span rv_frame rv_sp (fst (ctx u)) (snd (ctx u)) \<inter> A = {})"

lemma parked_apart:
  assumes "parked restore frame same stk k c p m" and "frame_span frame stk k c \<inter> A = {}" and "agree_on (- A) m m'"
  shows "parked restore frame same stk k c p m'"
proof -
  have "agree_on (frame_span frame stk k c) m m'" by (rule agree_on_mono [OF assms(3)]) (use assms(2) in blast)
  then show ?thesis using assms(1) agree_on_trans unfolding parked_def by blast
qed

lemma rv_restore_preempt_sp:
  assumes "load_word p m = Some 2" and "rv_restore_dispatch p m c = Some (c', p')"
  shows "p' = p + 160"
proof -
  have "rv_restore_irq p m (c\<lparr>rv_x := (rv_x c)(5 := 2, 6 := 2)\<rparr>) = Some (c', p')"
    using assms by (simp add: rv_restore_dispatch_def Let_def)
  then show ?thesis unfolding rv_restore_irq_def bind_Some_iff by blast
qed

lemma parked_resumes:
  assumes "parked rv_restore_dispatch rv_frame rv_same rv_sp k c0 p m"
  obtains c' p' where "rv_restore_dispatch p m c = Some (c', p')" "rv_same k c0 c'"
proof -
  obtain x where "rv_restore_dispatch p m c = Some x" "case x of (c', _) \<Rightarrow> rv_same k c0 c'"
    using parked_restores [OF assms, of c] unfolding wp_iff by blast
  then show thesis by (cases x) (simp del: rv_same.simps add: that)
qed

lemma rv_resumes:
  assumes h: "holds p 160 (rv_irq_fields c0) m" and p: "p = rv_sp c0 - 160"
  obtains c' where "rv_restore_dispatch p m c = Some (c', rv_sp c0)" "rv_same FRAME_TYPE_PREEMPT c0 c'"
proof -
  obtain x where x: "rv_restore_dispatch p m c = Some x" "case x of (c', _) \<Rightarrow> rv_same FRAME_TYPE_PREEMPT c0 c'"
    using rv_restores [of p FRAME_TYPE_PREEMPT c0 m c] h p unfolding wp_iff by auto
  have "load_word p m = Some 2" using h by (simp add: holds_def rv_irq_fields_def)
  with x(1) have "snd x = p + 160" by (cases x) (simp add: rv_restore_preempt_sp)
  with x p show thesis by (cases x) (simp del: rv_same.simps add: that)
qed

lemma exception_ok:
  assumes ok: "kernel_ok i s" and t: "nd_current_thread s = Some t" "nd_interrupt_nest_count s = 0"
    and stk: "word_aligned (rv_sp c)" "160 \<le> unat (rv_sp c)" and x: "cause AND RISCV_MCAUSE_INTERRUPT = 0"
  shows "wp (riscv_trap_entry num vt reads cause c m s) (\<lambda>(c', m', s'). s' = set_current_sp (rv_sp c) s \<and>
    rv_same FRAME_TYPE_PREEMPT (after_exception cause c) c' \<and> agree_on (- span (rv_sp c - 160) 160) m m')"
proof -
  let ?p = "rv_sp c - 160"
  obtain m1 where m1: "rv_save FRAME_TYPE_PREEMPT c m = Some (?p, m1)" "holds ?p 160 (rv_irq_fields c) m1"
    "agree_on (- span ?p 160) m m1" by (rule rv_save_ok [OF stk])
  have f: "frame_ok ?p 160 (rv_irq_fields c)" using rv_frame_ok [of c FRAME_TYPE_PREEMPT] stk by simp
  obtain m2 where m2: "riscv_handle_exception ?p cause m1 = Some m2"
    "holds ?p 160 (rv_irq_fields (after_exception cause c)) m2" "agree_on (- span ?p 160) m1 m2"
    using handle_exception_ok [OF f m1(2), of cause] by (auto simp: wp_iff)
  have "\<not> nd_interrupt_try_switch s" using kernel_okD(2) [OF ok] t(2) by (auto simp: cur_link_def)
  then have ex: "nd_schedule_irq_exit (set_current_sp ?p s) = Some (set_current_sp ?p s)" by (simp add: nd_schedule_irq_exit_def)
  obtain c' where c': "rv_restore_dispatch ?p m2 c = Some (c', rv_sp c)" "rv_same FRAME_TYPE_PREEMPT (after_exception cause c) c'"
    by (rule rv_resumes [OF m2(2)]) simp_all
  have "set_current_sp (rv_sp c) (set_current_sp ?p s) = set_current_sp (rv_sp c) s"
    by (simp add: set_current_sp_def t(1) upd_thread_def)
  then show ?thesis using m1(1) m2(1) c' ex x t(1) agree_on_trans [OF m1(3) m2(3)]
    by (simp del: rv_same.simps add: riscv_trap_entry_def riscv_trap_handler_def)
qed

lemma handle_interrupt_ok:
  assumes ok: "kernel_ok i s" "scheduled s" and n: "nd_interrupt_nest_count s = 0"
    and h: "handlers_ok i vt" and ends: "\<exists>r \<in> set reads. r AND RISCV_MEINEXT_NONE \<noteq> 0"
  obtains s2 where "riscv_handle_interrupt num vt reads cause s = Some (nd_exit_interrupt s2)" "kernel_ok i s2" "scheduled s2"
    "handler_frame (nd_enter_interrupt s) s2"
proof -
  let ?e = "nd_enter_interrupt s"
  have "nd_interrupt_nest_count s \<noteq> - 1" by (simp add: n)
  note E = nd_enter_interrupt_ok [OF ok(1) this]
  have "wp (riscv_machine_external_irq_dispatch num vt reads ?e) (\<lambda>s'. kernel_ok i s' \<and> scheduled s' \<and> handler_frame ?e s')"
    by (rule dispatch_ok [OF h ends E(1) E(2) [OF ok(2)] E(3)])
  moreover have "handler_frame ?e ?e" by (simp add: handler_frame_def)
  ultimately have "wp (if cause AND RISCV_MCAUSE_CODE_MASK = 11 then riscv_machine_external_irq_dispatch num vt reads ?e else Some ?e)
      (\<lambda>s'. kernel_ok i s' \<and> scheduled s' \<and> handler_frame ?e s')"
    using E(1) E(2) [OF ok(2)] by simp
  then show thesis using that by (auto simp: wp_iff riscv_handle_interrupt_def Let_def split: if_splits)
qed

lemma interrupt_ok:
  assumes ok: "kernel_ok i s" "scheduled s" and im: "port s = SwitchImmediate"
    and t: "nd_current_thread s = Some t" and n: "nd_interrupt_nest_count s = 0"
    and stk: "word_aligned (rv_sp c)" "160 \<le> unat (rv_sp c)"
    and h: "handlers_ok i vt" and ends: "\<exists>r \<in> set reads. r AND RISCV_MEINEXT_NONE \<noteq> 0"
    and others: "others_parked t ctx (span (rv_sp c - 160) 160) m s" and x: "cause AND RISCV_MCAUSE_INTERRUPT \<noteq> 0"
  shows "wp (riscv_trap_entry num vt reads cause c m s) (\<lambda>(c', m', s'). \<exists>u. nd_current_thread s' = Some u \<and>
    kernel_ok i s' \<and> scheduled s' \<and> nd_interrupt_nest_count s' = 0 \<and> agree_on (- span (rv_sp c - 160) 160) m m' \<and>
    (if u = t then rv_same FRAME_TYPE_PREEMPT c c'
     else rv_same (fst (ctx u)) (snd (ctx u)) c' \<and> sp (threads s' t) = rv_sp c - 160 \<and>
       parked rv_restore_dispatch rv_frame rv_same rv_sp FRAME_TYPE_PREEMPT c (rv_sp c - 160) m'))"
proof -
  let ?p = "rv_sp c - 160" and ?s = "set_current_sp (rv_sp c - 160) s"
  obtain m1 where m1: "rv_save FRAME_TYPE_PREEMPT c m = Some (?p, m1)" "holds ?p 160 (rv_irq_fields c) m1"
    "agree_on (- span ?p 160) m m1" by (rule rv_save_ok [OF stk])
  have pt: "parked rv_restore_dispatch rv_frame rv_same rv_sp FRAME_TYPE_PREEMPT c ?p m1"
    using rv.save_law [of c FRAME_TYPE_PREEMPT m] stk m1(1) by (simp del: rv_same.simps)
  obtain s2 where s2: "riscv_handle_interrupt num vt reads cause ?s = Some (nd_exit_interrupt s2)" "kernel_ok i s2" "scheduled s2"
    "handler_frame (nd_enter_interrupt ?s) s2"
    by (rule handle_interrupt_ok [of i ?s vt reads num cause]) (use ok n h ends in simp_all)
  have f2: "nd_interrupt_nest_count s2 = 1" "port s2 = SwitchImmediate" "nd_current_thread s2 = Some t"
    "sp (threads s2 u) = (if u = t then ?p else sp (threads s u))" "set (nd_thread_list s2) \<subseteq> set (nd_thread_list s)" for u
    using s2(4) n im t by (auto simp: handler_frame_def nd_enter_interrupt_def)
  obtain s3 u where s3: "nd_schedule_irq_exit (nd_exit_interrupt s2) = Some s3" "kernel_ok i s3" "scheduled s3"
    "nd_interrupt_nest_count s3 = 0" "sched_frame (nd_exit_interrupt s2) s3"
    and u: "nd_current_thread s3 = Some u" "u \<in> set (nd_thread_list s2)"
    using irq_exit_ok [OF s2(2,3) f2(2,1,3)] unfolding wp_iff by blast
  have sp3: "sp (threads s3 v) = (if v = t then ?p else sp (threads s v))" for v
    using th_staticD(11) [OF sched_frameD(3) [OF s3(5), of v]] f2(4) by (simp add: nd_exit_interrupt_def)
  define k c0 where "k = (if u = t then FRAME_TYPE_PREEMPT else fst (ctx u))" and "c0 = (if u = t then c else snd (ctx u))"
  have pu: "parked rv_restore_dispatch rv_frame rv_same rv_sp k c0 (sp (threads s3 u)) m1"
  proof (cases "u = t")
    case True
    with pt show ?thesis by (simp add: sp3 k_def c0_def)
  next
    case False
    have "u \<in> set (nd_thread_list s)" using u(2) f2(5) by blast
    with others False have "parked rv_restore_dispatch rv_frame rv_same rv_sp (fst (ctx u)) (snd (ctx u)) (sp (threads s u)) m"
      "frame_span rv_frame rv_sp (fst (ctx u)) (snd (ctx u)) \<inter> span ?p 160 = {}" by (simp_all add: others_parked_def)
    from parked_apart [OF this m1(3)] False show ?thesis by (simp add: sp3 k_def c0_def)
  qed
  obtain c' p' where c': "rv_restore_dispatch (sp (threads s3 u)) m1 c = Some (c', p')" "rv_same k c0 c'"
    by (rule parked_resumes [OF pu])
  have "riscv_trap_entry num vt reads cause c m s = Some (c', m1, set_current_sp p' s3)"
    using m1(1) s2(1) s3(1) u(1) c'(1) x by (simp del: rv_same.simps add: riscv_trap_entry_def riscv_trap_handler_def)
  moreover have "if u = t then rv_same FRAME_TYPE_PREEMPT c c'
     else rv_same (fst (ctx u)) (snd (ctx u)) c' \<and> sp (threads (set_current_sp p' s3) t) = ?p \<and>
       parked rv_restore_dispatch rv_frame rv_same rv_sp FRAME_TYPE_PREEMPT c ?p m1"
    using c'(2) pt u(1) sp3 by (auto simp del: rv_same.simps simp: k_def c0_def)
  ultimately show ?thesis using s3(2-4) u(1) m1(3)
    by (simp del: rv_same.simps) 
qed


text \<open>Thread 1 of the sample state is interrupted; the saved contexts of all others are taken to be one at address 0.\<close>

definition sample_core :: rv_core where
  "sample_core = \<lparr>rv_x = (\<lambda>i. of_nat i), rv_sp = 0x20001000, rv_pc = 0x80, rv_mstatus = 0x1800, rv_mepc = 0x8000, rv_meicontext = 0\<rparr>"

definition saved_core :: rv_core where
  "saved_core = \<lparr>rv_x = (\<lambda>i. 0), rv_sp = 64, rv_pc = 0, rv_mstatus = 0, rv_mepc = 0, rv_meicontext = 0\<rparr>"

lemma sample_parked:
  "others_parked 1 (\<lambda>_. (FRAME_TYPE_VOLUNTARY, saved_core)) (span (rv_sp sample_core - 160) 160) ((\<lambda>_. 0)(0 := 1)) (sample pt)"
proof -
  have h: "holds 0 (rv_frame FRAME_TYPE_VOLUNTARY) (rv_fields FRAME_TYPE_VOLUNTARY saved_core) ((\<lambda>_. 0)(0 := 1))"
    by (simp add: holds_def rv_voluntary_fields_def rv_voluntary_regs_def saved_core_def load_word_def word_aligned_def load32_def)
  have f: "frame_ok 0 (rv_frame FRAME_TYPE_VOLUNTARY) (rv_fields FRAME_TYPE_VOLUNTARY saved_core)"
    using rv_frame_ok [of saved_core FRAME_TYPE_VOLUNTARY] by (simp add: saved_core_def word_aligned_def)
  have "parked rv_restore_dispatch rv_frame rv_same rv_sp FRAME_TYPE_VOLUNTARY saved_core 0 ((\<lambda>_. 0)(0 := 1))"
  proof (rule parkedI [where frame = rv_frame and k = FRAME_TYPE_VOLUNTARY and fs = "rv_fields FRAME_TYPE_VOLUNTARY saved_core"])
    show "wp (rv_restore_dispatch 0 m' c') (\<lambda>(c'', _). rv_same FRAME_TYPE_VOLUNTARY saved_core c'')"
      if "holds 0 (rv_frame FRAME_TYPE_VOLUNTARY) (rv_fields FRAME_TYPE_VOLUNTARY saved_core) m'" for m' c'
      by (rule rv_restores [OF that]) (simp add: saved_core_def)
  qed (use f h in \<open>simp_all add: saved_core_def\<close>)
  moreover have "frame_span rv_frame rv_sp FRAME_TYPE_VOLUNTARY saved_core \<inter> span (rv_sp sample_core - 160) 160 = {}"
    by (auto simp: frame_span_def span_def saved_core_def sample_core_def)
  moreover have "sp (threads (sample pt) u) = 0" for u by (simp add: sample_defs)
  ultimately show ?thesis by (simp add: others_parked_def)
qed


end
