(* ===== verification/Nd_Shell_Port.thy ===== *)
theory Nd_Shell_Port
  imports Nd_Kernel Nd_Fifo
begin

text \<open>
  The receiving side of the shell's UART (\<^verbatim>\<open>bsp/*/shell_port.c\<close>): the ring buffer, whose positions are bytes that
  wrap, as an instance of the contract of \<open>Nd_Fifo\<close>; the interrupt that fills it and counts the characters in a
  semaphore; the reader. The data register is the list of the characters it delivers until it is empty.
\<close>

section \<open>The receive ring\<close>

abbreviation BUF_SIZE :: nat where
  "BUF_SIZE \<equiv> 64"

record ring_buf =
  ring_bytes :: "u8 list"
  ring_head :: u8
  ring_tail :: u8

definition ring_full :: "ring_buf \<Rightarrow> bool" where
  "ring_full r \<longleftrightarrow> ring_head r - ring_tail r \<ge> of_nat BUF_SIZE"

definition rx_store :: "u8 \<Rightarrow> ring_buf \<Rightarrow> ring_buf option" where
  "rx_store ch r = do {
     let i = unat (ring_head r AND of_nat (BUF_SIZE - 1));
     assert_ok (i < length (ring_bytes r));
     Some (r\<lparr>ring_bytes := (ring_bytes r)[i := ch], ring_head := ring_head r + 1\<rparr>)
   }"

definition rx_fetch :: "ring_buf \<Rightarrow> (u8 \<times> ring_buf) option" where
  "rx_fetch r = do {
     let i = unat (ring_tail r AND of_nat (BUF_SIZE - 1));
     assert_ok (i < length (ring_bytes r));
     Some (ring_bytes r ! i, r\<lparr>ring_tail := ring_tail r + 1\<rparr>)
   }"

text \<open>The abstract view: the characters that have been stored and not fetched.\<close>

definition ring_ok :: "ring_buf \<Rightarrow> bool" where
  "ring_ok r \<longleftrightarrow> length (ring_bytes r) = BUF_SIZE \<and> unat (ring_head r - ring_tail r) \<le> BUF_SIZE"

definition ring_contents :: "ring_buf \<Rightarrow> u8 list" where
  "ring_contents r = map (\<lambda>i. ring_bytes r ! ((unat (ring_tail r) + i) mod BUF_SIZE)) [0..<unat (ring_head r - ring_tail r)]"

lemma ring_index: "unat ((x :: u8) AND of_nat (BUF_SIZE - 1)) = unat x mod BUF_SIZE"
proof -
  have "x AND 63 = take_bit 6 x" by (simp add: take_bit_eq_mask mask_eq_exp_minus_1)
  then show ?thesis by (simp add: take_bit_eq_mod unat_mod)
qed

lemma ring_full_iff: "ring_ok r \<Longrightarrow> ring_full r \<longleftrightarrow> length (ring_contents r) = BUF_SIZE"
  by (auto simp: ring_ok_def ring_full_def ring_contents_def word_le_nat_alt)

lemma unat_head: "unat (ring_head r) mod BUF_SIZE = (unat (ring_tail r) + unat (ring_head r - ring_tail r)) mod BUF_SIZE"
proof -
  have "unat (ring_head r) = unat (ring_tail r + (ring_head r - ring_tail r))" by simp
  also have "\<dots> = (unat (ring_tail r) + unat (ring_head r - ring_tail r)) mod 256" by (simp only: unat_word_ariths) simp
  finally show ?thesis by (simp add: mod_mod_cancel)
qed

lemma unat_Suc8: "unat (x :: u8) < 255 \<Longrightarrow> unat (x + 1) = Suc (unat x)"
  by (simp add: unat_word_ariths)

lemma other_slot: "i < n \<Longrightarrow> n < BUF_SIZE \<Longrightarrow> (t + i) mod BUF_SIZE \<noteq> (t + n) mod BUF_SIZE"
proof
  assume a: "i < n" "n < BUF_SIZE" "(t + i) mod BUF_SIZE = (t + n) mod BUF_SIZE"
  then have "BUF_SIZE dvd (t + n) - (t + i)" by (metis mod_eq_dvd_iff_nat add_le_cancel_left less_imp_le)
  then show False using a by (auto dest: dvd_imp_le)
qed

lemma rx_store_ok:
  assumes ok: "ring_ok r" and room: "length (ring_contents r) < BUF_SIZE"
  shows "wp (rx_store ch r) (\<lambda>r'. ring_ok r' \<and> ring_contents r' = ring_contents r @ [ch])"
proof -
  let ?n = "unat (ring_head r - ring_tail r)" and ?i = "unat (ring_head r AND of_nat (BUF_SIZE - 1))"
  have i: "?i = (unat (ring_tail r) + ?n) mod BUF_SIZE" using ring_index unat_head by simp
  have n: "?n < BUF_SIZE" using room by (simp add: ring_contents_def)
  have n': "unat (ring_head r + 1 - ring_tail r) = Suc ?n"
    using n unat_Suc8 [of "ring_head r - ring_tail r"] by (simp add: algebra_simps)
  have l: "?i < length (ring_bytes r)" using ok i by (simp add: ring_ok_def)
  have "(ring_bytes r)[?i := ch] ! ((unat (ring_tail r) + j) mod BUF_SIZE) =
      (if j = ?n then ch else ring_bytes r ! ((unat (ring_tail r) + j) mod BUF_SIZE))" if "j \<le> ?n" for j
    using that l other_slot [OF _ n, of j "unat (ring_tail r)"] i by (auto simp: nth_list_update)
  then have "map (\<lambda>j. (ring_bytes r)[?i := ch] ! ((unat (ring_tail r) + j) mod BUF_SIZE)) [0..<Suc ?n] = ring_contents r @ [ch]"
    by (simp add: ring_contents_def)
  then show ?thesis using ok l n n' by (simp add: rx_store_def Let_def ring_ok_def ring_contents_def)
qed

lemma rx_fetch_ok:
  assumes ok: "ring_ok r" and ne: "ring_contents r \<noteq> []"
  shows "wp (rx_fetch r) (\<lambda>(ch, r'). ring_ok r' \<and> ring_contents r = ch # ring_contents r')"
proof -
  let ?n = "unat (ring_head r - ring_tail r)" and ?i = "unat (ring_tail r AND of_nat (BUF_SIZE - 1))"
  have i: "?i = unat (ring_tail r) mod BUF_SIZE" by (rule ring_index)
  have n: "0 < ?n" "?n \<le> BUF_SIZE" using ne ok by (auto simp: ring_contents_def ring_ok_def)
  then have d: "ring_head r - ring_tail r \<noteq> 0" by (metis unat_0 less_irrefl)
  have n': "unat (ring_head r - (ring_tail r + 1)) = ?n - 1"
    using unat_minus_one [OF d] by (simp add: diff_diff_add)
  have t: "(unat (ring_tail r + 1) + j) mod BUF_SIZE = (unat (ring_tail r) + Suc j) mod BUF_SIZE" for j
  proof -
    have "unat (ring_tail r + 1) mod BUF_SIZE = (unat (ring_tail r) + 1) mod BUF_SIZE"
      by (simp add: unat_word_ariths mod_mod_cancel)
    then show ?thesis by (metis add_Suc_right add.commute mod_add_left_eq plus_1_eq_Suc)
  qed
  have "[0..<?n] = 0 # map Suc [0..<?n - 1]" using n(1) by (simp add: upt_conv_Cons map_Suc_upt)
  then have "ring_contents r = ring_bytes r ! ?i # ring_contents (r\<lparr>ring_tail := ring_tail r + 1\<rparr>)"
    using i n' t by (simp add: ring_contents_def)
  moreover have "?i < length (ring_bytes r)" using ok i by (simp add: ring_ok_def)
  ultimately show ?thesis using ok n n' by (simp add: rx_fetch_def Let_def ring_ok_def)
qed

interpretation rx: fifo ring_ok "\<lambda>_. BUF_SIZE" ring_contents "\<lambda>_ _. True" rx_store rx_fetch
proof
  show "wp (rx_store m q) (\<lambda>q'. ring_ok q' \<and> ring_contents q' = ring_contents q @ [m] \<and> BUF_SIZE = BUF_SIZE \<and> (\<lambda>_. True) = (\<lambda>_. True))"
    if "ring_ok q" "length (ring_contents q) < BUF_SIZE" for q m using rx_store_ok [OF that] by simp
  show "wp (rx_fetch q) (\<lambda>(m, q'). ring_ok q' \<and> ring_contents q = m # ring_contents q' \<and> BUF_SIZE = BUF_SIZE \<and> (\<lambda>_. True) = (\<lambda>_. True))"
    if "ring_ok q" "ring_contents q \<noteq> []" for q using rx_fetch_ok [OF that] by simp
  show "length (ring_contents q) \<le> BUF_SIZE" if "ring_ok q" for q using that by (simp add: ring_ok_def ring_contents_def)
qed

section \<open>The receive interrupt and the reader\<close>

fun rx_loop :: "nat \<Rightarrow> u8 list \<Rightarrow> ring_buf \<Rightarrow> kstate \<Rightarrow> (ring_buf \<times> kstate) option" where
  "rx_loop rx_sem [] r s = Some (r, s)"
| "rx_loop rx_sem (ch # dr) r s =
     (if ring_full r then rx_loop rx_sem dr r s
      else do {
        r \<leftarrow> rx_store ch r;
        (_, s) \<leftarrow> nd_sem_release rx_sem s;
        rx_loop rx_sem dr r s
      })"

definition uart_rx_isr :: "nat \<Rightarrow> u8 list \<Rightarrow> ring_buf \<Rightarrow> kstate \<Rightarrow> (ring_buf \<times> kstate) option" where
  "uart_rx_isr rx_sem dr r s = do {
     let s = nd_enter_interrupt s;
     (r, s) \<leftarrow> rx_loop rx_sem dr r s;
     s \<leftarrow> nd_try_schedule_irqsave (nd_exit_interrupt s);
     Some (r, s)
   }"

definition shell_getc :: "nat \<Rightarrow> ring_buf \<Rightarrow> kstate \<Rightarrow> (u8 option \<times> ring_buf \<times> kstate) option" where
  "shell_getc rx_sem r s = do {
     (res, s) \<leftarrow> nd_sem_take rx_sem ND_TIMEOUT_FOREVER s;
     case res of
       None \<Rightarrow> Some (None, r, s)
     | Some _ \<Rightarrow> do {
         (ch, r) \<leftarrow> rx_fetch r;
         Some (Some ch, r, s)
       }
   }"

lemma rx_release_ok:
  assumes ok: "kernel_ok i s" and nest: "nd_interrupt_nest_count s > 0" and sok: "sem_ok s" and sch: "scheduled s"
    and v: "sem_val (sems s m) < INT32_MAX" and W: "W = qlists s (SemWait m)"
  shows "wp (nd_sem_release m s) (\<lambda>(e, s'). kernel_ok i s' \<and> sem_ok s' \<and> scheduled s' \<and>
    nd_interrupt_nest_count s' = nd_interrupt_nest_count s \<and> nd_current_thread s' = nd_current_thread s \<and> port s' = port s \<and>
    qlists s' (SemWait m) = tl W \<and>
    sem_val (sems s' m) = sem_val (sems s m) + (if W = [] then 1 else 0) \<and>
    (\<forall>u. runnable (status s u) \<or> u \<in> set (take 1 W) \<longrightarrow> runnable (status s' u)))"
proof (cases W)
  case Nil
  then show ?thesis
    using wp_conj [OF sem_ok_release [OF sok ok v] nd_sem_release_ok [OF ok v]] sch W
    by (elim wp_mono) (auto simp: upd_sem_def)
next
  case (Cons t L)
  note K = kernel_okD [OF ok]
  have q: "qlists s (SemWait m) = t # L" using Cons W by simp
  obtain s1 where s1: "nd_thread_wakeup (SemWait m) s = Some (t, s1)" "rest s1 = rest s" "woken (SemWait m) t s s1"
    using wp_pairD [OF nd_thread_wakeup_ok [OF K(1-3) q]] by auto
  have f: "nd_interrupt_nest_count s1 = nd_interrupt_nest_count s" "nd_current_thread s1 = nd_current_thread s" "port s1 = port s"
    using restD [OF s1(2)] by simp_all
  then have e: "nd_sem_release m s = Some (ND_EOK, s1\<lparr>nd_interrupt_try_switch := True\<rparr>)"
    using s1(1) nest q f by (simp add: nd_sem_release_def q_is_empty_def nd_scheduler_def)
  have "runnable (status s1 u)" if "runnable (status s u) \<or> u = t" for u
    using that s1(3) by (auto simp: woken_def)
  moreover have "wp (nd_sem_release m s) (\<lambda>(e, s'). sem_ok s')" by (rule sem_ok_release [OF sok ok v])
  moreover have "wp (nd_sem_release m s) (\<lambda>(e, s'). kernel_ok i s' \<and> scheduled s' \<and> wait_frame (SemWait m) L s s')"
    using nd_sem_release_ok [OF ok v] sch q by (elim wp_mono) auto
  moreover have "wait_frame (SemWait m) L s s1" using wait_frame_woken [OF s1(3,2)] q by simp
  ultimately show ?thesis using Cons f by (simp add: e wait_frameD)
qed

text \<open>
  What the interrupt does for the shell: the characters that fit are stored in order, one waiting reader is woken for each
  as long as there are any, and the others add a token each.
\<close>

definition rx_done :: "nat \<Rightarrow> u8 list \<Rightarrow> ring_buf \<Rightarrow> kstate \<Rightarrow> ring_buf \<Rightarrow> kstate \<Rightarrow> bool" where
  "rx_done m dr r s r' s' \<longleftrightarrow> sem_ok s' \<and> ring_ok r' \<and>
     (let new = take (BUF_SIZE - length (ring_contents r)) dr; W = qlists s (SemWait m) in
       ring_contents r' = ring_contents r @ new \<and> qlists s' (SemWait m) = drop (length new) W \<and>
       sem_val (sems s' m) = sem_val (sems s m) + int (length new - length W) \<and>
       (\<forall>u. runnable (status s u) \<or> u \<in> set (take (length new) W) \<longrightarrow> runnable (status s' u)))"

lemma rx_loop_ok:
  assumes "kernel_ok i s" "nd_interrupt_nest_count s > 0" "sem_ok s" "scheduled s" "ring_ok r"
    "sem_val (sems s m) \<le> int (length (ring_contents r))"
  shows "wp (rx_loop m dr r s) (\<lambda>(r', s'). kernel_ok i s' \<and> scheduled s' \<and>
    nd_interrupt_nest_count s' = nd_interrupt_nest_count s \<and> nd_current_thread s' = nd_current_thread s \<and> port s' = port s \<and>
    rx_done m dr r s r' s')"
  using assms
proof (induction dr arbitrary: r s)
  case (Cons ch dr)
  have cap: "length (ring_contents r) \<le> BUF_SIZE" using rx.bounded Cons.prems(5) by blast
  show ?case
  proof (cases "ring_full r")
    case True
    then have "rx_done m (ch # dr) r s = rx_done m dr r s"
      using ring_full_iff [OF Cons.prems(5)] by (simp add: rx_done_def fun_eq_iff)
    then show ?thesis using Cons.IH [OF Cons.prems] True by simp
  next
    case False
    then have l: "length (ring_contents r) < BUF_SIZE" using ring_full_iff [OF Cons.prems(5)] cap by simp
    obtain r1 where r1: "rx_store ch r = Some r1" "ring_ok r1" "ring_contents r1 = ring_contents r @ [ch]"
      using rx_store_ok [OF Cons.prems(5) l, of ch] by (auto simp: wp_iff)
    define W where "W = qlists s (SemWait m)"
    have v: "sem_val (sems s m) < INT32_MAX" using Cons.prems(6) l by (simp add: INT32_MAX_def)
    obtain e s1 where s1: "nd_sem_release m s = Some (e, s1)" "kernel_ok i s1" "sem_ok s1" "scheduled s1"
      "nd_interrupt_nest_count s1 = nd_interrupt_nest_count s" "qlists s1 (SemWait m) = tl W"
      and cur: "nd_current_thread s1 = nd_current_thread s" "port s1 = port s" and
      v1: "sem_val (sems s1 m) = sem_val (sems s m) + (if W = [] then 1 else 0)"
      and run: "\<And>u. runnable (status s u) \<or> u \<in> set (take 1 W) \<Longrightarrow> runnable (status s1 u)"
      using wp_pairD [OF rx_release_ok [OF Cons.prems(1-4) v W_def]] by blast
    let ?new = "take (BUF_SIZE - length (ring_contents r)) (ch # dr)" and ?new1 = "take (BUF_SIZE - length (ring_contents r1)) dr"
    have new: "?new = ch # ?new1" using l r1(3) by (simp add: take_Cons')
    have "wp (rx_loop m dr r1 s1) (\<lambda>(r', s'). kernel_ok i s' \<and> scheduled s' \<and>
      nd_interrupt_nest_count s' = nd_interrupt_nest_count s1 \<and> nd_current_thread s' = nd_current_thread s1 \<and> port s' = port s1 \<and>
      rx_done m dr r1 s1 r' s')"
      using Cons.IH [of s1 r1] s1 v1 r1 Cons.prems by simp
    moreover have "rx_done m (ch # dr) r s r' s'" if "rx_done m dr r1 s1 r' s'" for r' s'
      unfolding rx_done_def new Let_def
      using that s1(6) v1 r1(3) run by (cases W; fastforce simp: rx_done_def Let_def W_def [symmetric])
    ultimately have "wp (rx_loop m dr r1 s1) (\<lambda>(r', s'). kernel_ok i s' \<and> scheduled s' \<and>
      nd_interrupt_nest_count s' = nd_interrupt_nest_count s \<and> nd_current_thread s' = nd_current_thread s \<and> port s' = port s \<and>
      rx_done m (ch # dr) r s r' s')" using s1(5) cur by (elim wp_mono) auto
    then show ?thesis using False r1(1) s1(1) by simp
  qed
qed (simp add: rx_done_def)

lemma rx_done_exit:
  assumes "rx_done m dr r s r' s1" "sched_frame (nd_exit_interrupt s1) s'"
  shows "rx_done m dr r s r' s'"
proof -
  have x: "qlists (nd_exit_interrupt s1) = qlists s1" "sems (nd_exit_interrupt s1) = sems s1"
    "status (nd_exit_interrupt s1) = status s1" by (simp_all add: nd_exit_interrupt_def fun_eq_iff)
  have "sem_ok (nd_exit_interrupt s1)" using assms(1) by (auto simp: rx_done_def sem_ok_def x)
  then have "sem_ok s'" by (rule sem_ok_sync [OF _ sync_frame_sched [OF assms(2)]])
  moreover have "qlists s' (SemWait m) = qlists s1 (SemWait m)" using sched_frameD(2) [OF assms(2)] x by simp
  moreover have "sems s' = sems s1" using sync_frameD(1) [OF sync_frame_sched [OF assms(2)]] x by simp
  moreover have "runnable (status s1 u) \<Longrightarrow> runnable (status s' u)" for u by (metis runnable_frame assms(2) x(3))
  ultimately show ?thesis using assms(1) by (simp add: rx_done_def Let_def)
qed

lemma rx_enter: "sem_ok s \<Longrightarrow> sem_ok (nd_enter_interrupt s)" "sems (nd_enter_interrupt s) = sems s"
  "rx_done m dr r (nd_enter_interrupt s) r' s' = rx_done m dr r s r' s'"
  "nd_interrupt_nest_count (nd_enter_interrupt s) = nd_interrupt_nest_count s + 1"
  by (simp_all add: sem_ok_def rx_done_def nd_enter_interrupt_def)

lemma uart_rx_correct:
  assumes ok: "kernel_ok i s" and sch: "scheduled s" and nest: "nd_interrupt_nest_count s \<noteq> - 1" and sok: "sem_ok s"
    and rok: "ring_ok r" and tokens: "sem_val (sems s m) \<le> int (length (ring_contents r))"
  shows "wp (uart_rx_isr m dr r s) (\<lambda>(r', s'). kernel_ok i s' \<and> rx_done m dr r s r' s' \<and>
    (nd_interrupt_nest_count s = 0 \<longrightarrow> scheduled s'))"
proof -
  note E = nd_enter_interrupt_ok [OF ok nest]
  obtain r1 s1 where L: "rx_loop m dr r (nd_enter_interrupt s) = Some (r1, s1)" "kernel_ok i s1" "scheduled s1"
    "nd_interrupt_nest_count s1 = nd_interrupt_nest_count s + 1" "rx_done m dr r s r1 s1"
    using wp_pairD [OF rx_loop_ok [OF E(1,3) rx_enter(1) [OF sok] E(2) [OF sch] rok, of m dr]] tokens
    unfolding rx_enter by blast
  have "wp (nd_try_schedule_irqsave (nd_exit_interrupt s1)) (\<lambda>s'. kernel_ok i s' \<and> sync_frame (nd_exit_interrupt s1) s' \<and>
      sched_frame (nd_exit_interrupt s1) s' \<and> (nd_interrupt_try_switch s' \<longrightarrow> nd_interrupt_nest_count s' \<noteq> 0) \<and>
      (\<not> nd_interrupt_try_switch s' \<longrightarrow> scheduled s'))"
    by (rule exit_then_try_schedule_ok [OF L(2)]) (use L(3,4) E(3) in \<open>simp_all add: nd_enter_interrupt_def\<close>)
  moreover have "nd_interrupt_nest_count (nd_exit_interrupt s1) = nd_interrupt_nest_count s"
    using L(4) by (simp add: nd_exit_interrupt_def)
  ultimately have "wp (nd_try_schedule_irqsave (nd_exit_interrupt s1)) (\<lambda>s'. kernel_ok i s' \<and> rx_done m dr r s r1 s' \<and>
      (nd_interrupt_nest_count s = 0 \<longrightarrow> scheduled s'))"
    by (elim wp_mono) (auto simp: sync_frameD(10) intro: rx_done_exit [OF L(5)])
  then show ?thesis using L(1) by (simp add: uart_rx_isr_def Let_def)
qed

text \<open>\<dots> the reader: with a token it gets the oldest character.\<close>

lemma shell_getc_correct:
  assumes C: "calling i c s" and ci: "c \<noteq> i" and sok: "sem_ok s" and rok: "ring_ok r"
    and tokens: "sem_val (sems s m) \<le> int (length (ring_contents r))"
  shows "wp (shell_getc m r s) (\<lambda>(res, r', s'). ring_ok r' \<and> sem_ok s' \<and>
    (if sem_val (sems s m) > 0
     then ring_contents r = the res # ring_contents r' \<and> res \<noteq> None \<and>
       s' = upd_sem (\<lambda>x. x\<lparr>sem_val := sem_val x - 1\<rparr>) m s
     else res = None \<and> r' = r \<and> kernel_ok i s' \<and> scheduled s' \<and> waits (SemWait m) ND_TIMEOUT_FOREVER c s s' \<and>
       qlists s' (SemWait m) = insort_after (prio_of s) c (qlists s (SemWait m)) \<and> sems s' = sems s))"
proof -
  have nb: "ND_TIMEOUT_FOREVER \<noteq> ND_TIMEOUT_NOWAIT" by (simp add: ND_TIMEOUT_FOREVER_def ND_TIMEOUT_NOWAIT_def)
  note T = wp_conj [OF sem_ok_take [OF sok C ci, of m ND_TIMEOUT_FOREVER] nd_sem_take_ok [OF C ci, of m ND_TIMEOUT_FOREVER]]
  show ?thesis
  proof (cases "sem_val (sems s m) > 0")
    case True
    then have "ring_contents r \<noteq> []" using tokens by auto
    from rx_fetch_ok [OF rok this] show ?thesis unfolding shell_getc_def wp_bind
      by (intro wp_mono [OF T]) (use True in \<open>auto simp: wp_iff\<close>)
  next
    case False
    then show ?thesis unfolding shell_getc_def wp_bind
      by (intro wp_mono [OF T]) (use nb rok in \<open>auto simp: wait_frameD\<close>)
  qed
qed

end
