(* ===== verification/Nd_Gic.thy ===== *)
theory Nd_Gic
  imports Nd_Shell_Port Nd_Sample
begin

text \<open>
  The interrupt controller of the Cortex-A9 board (\<^verbatim>\<open>bsp/vexpress-a9-qemu/gic.c\<close>): its table of handlers and the dispatch,
  between the interrupt entry and \<^verbatim>\<open>nd_schedule_irq_exit\<close> in \<^verbatim>\<open>arch/arm/a9/context.S\<close>. The word read from \<^verbatim>\<open>GICC_IAR\<close> is an
  argument.
\<close>

record ('h, 'a) gic_isr_entry =
  handler :: "'h option"
  isr_arg :: 'a

abbreviation GIC_MAX_INTERRUPTS :: nat where
  "GIC_MAX_INTERRUPTS \<equiv> 128"

definition gic_register_handler :: "u32 \<Rightarrow> 'h \<Rightarrow> 'a \<Rightarrow> ('h, 'a) gic_isr_entry list \<Rightarrow> ('h, 'a) gic_isr_entry list" where
  "gic_register_handler irq_id h a isr_table =
     (if irq_id \<ge> of_nat GIC_MAX_INTERRUPTS then isr_table
      else isr_table[unat irq_id := \<lparr>handler = Some h, isr_arg = a\<rparr>])"

text \<open>\<open>run\<close> calls a handler; \<open>w\<close> is what belongs to the drivers. The result begins with the word written to \<^verbatim>\<open>GICC_EOIR\<close>.\<close>

definition gic_dispatch :: "('h \<Rightarrow> 'a \<Rightarrow> 'w \<Rightarrow> kstate \<Rightarrow> ('w \<times> kstate) option) \<Rightarrow> u32 \<Rightarrow> ('h, 'a) gic_isr_entry list \<Rightarrow>
    'w \<Rightarrow> kstate \<Rightarrow> (u32 \<times> 'w \<times> kstate) option" where
  "gic_dispatch run iar isr_table w s = do {
     let s = nd_enter_interrupt s;
     let irq_id = iar AND 0x3FF;
     (w, s) \<leftarrow> (if irq_id < of_nat GIC_MAX_INTERRUPTS then
                  (case handler (isr_table ! unat irq_id) of
                     None \<Rightarrow> Some (w, s)
                   | Some h \<Rightarrow> run h (isr_arg (isr_table ! unat irq_id)) w s)
                else Some (w, s));
     Some (iar, w, nd_exit_interrupt s)
   }"

text \<open>The calls of \<^verbatim>\<open>vector_irq\<close> between saving and restoring the registers.\<close>

definition vector_irq :: "('h \<Rightarrow> 'a \<Rightarrow> 'w \<Rightarrow> kstate \<Rightarrow> ('w \<times> kstate) option) \<Rightarrow> u32 \<Rightarrow> ('h, 'a) gic_isr_entry list \<Rightarrow>
    'w \<Rightarrow> kstate \<Rightarrow> (u32 \<times> 'w \<times> kstate) option" where
  "vector_irq run iar isr_table w s = do {
     (eoir, w, s) \<leftarrow> gic_dispatch run iar isr_table w s;
     s \<leftarrow> nd_schedule_irq_exit s;
     Some (eoir, w, s)
   }"

text \<open>What the kernel needs of a handler and gets back from the interrupt.\<close>

definition in_irq :: "tid \<Rightarrow> tid \<Rightarrow> kstate \<Rightarrow> bool" where
  "in_irq i c s \<longleftrightarrow> kernel_ok i s \<and> scheduled s \<and> nd_interrupt_nest_count s = 1 \<and> nd_current_thread s = Some c \<and>
     port s = SwitchImmediate"

lemma vector_irq_ok:
  assumes ok: "kernel_ok i s" and sch: "scheduled s" and nest: "nd_interrupt_nest_count s = 0"
    and cur: "nd_current_thread s = Some c" and im: "port s = SwitchImmediate"
    and idle: "\<not> (iar AND 0x3FF < 128) \<or> handler (tbl ! unat (iar AND 0x3FF)) = None \<Longrightarrow> Q w (nd_enter_interrupt s)"
    and run: "\<And>h. iar AND 0x3FF < 128 \<Longrightarrow> handler (tbl ! unat (iar AND 0x3FF)) = Some h \<Longrightarrow> in_irq i c (nd_enter_interrupt s) \<Longrightarrow>
      wp (run h (isr_arg (tbl ! unat (iar AND 0x3FF))) w (nd_enter_interrupt s)) (\<lambda>(w', s'). in_irq i c s' \<and> Q w' s')"
  shows "wp (vector_irq run iar tbl w s) (\<lambda>(eoir, w', s'). eoir = iar \<and> kernel_ok i s' \<and> scheduled s' \<and>
    nd_interrupt_nest_count s' = 0 \<and> (\<exists>s1. Q w' s1 \<and> sched_frame (nd_exit_interrupt s1) s'))"
proof -
  let ?s = "nd_enter_interrupt s"
  have n: "nd_interrupt_nest_count s \<noteq> - 1" using nest by simp
  note E = nd_enter_interrupt_ok [OF ok n]
  have e: "in_irq i c ?s"
    using E(1) E(2) [OF sch] nest cur im by (simp add: in_irq_def nd_enter_interrupt_def)
  have "wp (if iar AND 0x3FF < of_nat GIC_MAX_INTERRUPTS then
                  (case handler (tbl ! unat (iar AND 0x3FF)) of
                     None \<Rightarrow> Some (w, ?s)
                   | Some h \<Rightarrow> run h (isr_arg (tbl ! unat (iar AND 0x3FF))) w ?s)
                else Some (w, ?s)) (\<lambda>(w', s'). in_irq i c s' \<and> Q w' s')"
    using e idle run by (auto split: option.splits)
  then obtain w1 s1 where d: "gic_dispatch run iar tbl w s = Some (iar, w1, nd_exit_interrupt s1)"
    and s1: "in_irq i c s1" "Q w1 s1"
    unfolding gic_dispatch_def Let_def by (auto simp: wp_iff)
  have k: "kernel_ok i s1" "scheduled s1" "nd_interrupt_nest_count s1 = 1" "nd_current_thread s1 = Some c" "port s1 = SwitchImmediate"
    using s1(1) by (simp_all add: in_irq_def)
  note irq_exit_ok [OF k(1,2,5,3,4)]
  then show ?thesis using d s1(2) by (auto simp: vector_irq_def elim!: wp_mono)
qed

text \<open>
  The private timer's interrupt (\<^verbatim>\<open>arch/arm/a9/timer.c\<close>). \<^verbatim>\<open>nd_tick_count\<close> is the time base of the configuration with ticks; in
  the tickless one the counter is, and nobody reads \<^verbatim>\<open>nd_tick_count\<close>.
\<close>

definition clocked :: "kstate \<Rightarrow> kstate" where
  "clocked s = (if tickless s then s else nd_hw_tick_update s)"

definition isr_ptimer :: "user_callback \<Rightarrow> kstate \<Rightarrow> kstate option" where
  "isr_ptimer ucb s = nd_timer_process ucb (clocked s)"

text \<open>While an interrupt is served no thread is switched to.\<close>

definition stay :: "kstate \<Rightarrow> kstate \<Rightarrow> bool" where
  "stay s s' \<longleftrightarrow> nd_current_thread s' = nd_current_thread s \<and> nd_interrupt_nest_count s' = nd_interrupt_nest_count s"

lemma stay_trans: "stay s s1 \<Longrightarrow> stay s1 s2 \<Longrightarrow> stay s s2"
  by (simp add: stay_def)

lemma stay_ready_add_tail: "nd_thread_ready_add_tail t s = Some s' \<Longrightarrow> stay s s'"
  by (auto simp: nd_thread_ready_add_tail_def q_insert_tail_def bind_Some_iff assert_ok_def Let_def stay_def
      split: if_splits)

lemma stay_remove: "q_remove t s = Some s' \<Longrightarrow> stay s s'"
  by (auto simp: q_remove_def bind_Some_iff stay_def)

lemma stay_scheduler: "nd_scheduler s = Some s' \<Longrightarrow> nd_interrupt_nest_count s > 0 \<Longrightarrow> stay s s'"
  by (auto simp: nd_scheduler_def stay_def split: if_splits)

definition stays :: "user_callback \<Rightarrow> bool" where
  "stays ucb \<longleftrightarrow> (\<forall>n a s s'. ucb n a s = Some s' \<longrightarrow> nd_interrupt_nest_count s > 0 \<longrightarrow> stay s s')"

lemma stay_upd [simp]: "stay s (upd_thread f t s)" "stay s (if b then upd_thread f t s else s)" "stay s s"
  "stay s (upd_timer g r s)"
  by (simp_all add: stay_def upd_thread_def upd_timer_def)

lemma run_callback_stays:
  assumes cb: "run_callback ucb cb a s = Some s'" and n: "nd_interrupt_nest_count s > 0" and q: "stays ucb"
  shows "stay s s'"
proof (cases cb)
  case CB_delay
  with cb obtain t s2 where s2: "nd_thread_ready_add_tail t (let s1 = upd_thread (stat_update (\<lambda>_. ND_THREAD_STAT_READY)) t s
        in if time_slice (threads s1 t) \<noteq> 0 then upd_thread refill_slice t s1 else s1) = Some s2"
    and s': "nd_scheduler s2 = Some s'"
    by (auto simp: run_callback_def thread_timer_callback_def bind_Some_iff Let_def)
  have "stay s s2" using stay_ready_add_tail [OF s2] by (simp add: stay_def Let_def upd_thread_def split: if_splits)
  then show ?thesis using stay_trans stay_scheduler [OF s'] n by (simp add: stay_def)
next
  case CB_pend
  with cb obtain t s1 s2 where
    s1: "q_remove t (upd_thread (\<lambda>th. th\<lparr>stat := ND_THREAD_STAT_READY, error := ND_ETIMEOUT\<rparr>) t s) = Some s1"
    and s2: "nd_thread_ready_add_tail t s1 = Some s2" and s': "nd_scheduler s2 = Some s'"
    by (auto simp: run_callback_def nd_thread_pend_timeout_def bind_Some_iff Let_def)
  have "stay s s2" using stay_remove [OF s1] stay_ready_add_tail [OF s2] by (simp add: stay_def upd_thread_def)
  then show ?thesis using stay_scheduler [OF s'] n by (simp add: stay_def)
next
  case CB_slice
  with cb n show ?thesis
    by (auto simp: run_callback_def nd_thread_slice_timeout_def nd_scheduler_def upd_thread_def stay_def
        split: if_splits option.splits)
next
  case (CB_user k)
  with cb q n show ?thesis by (auto simp: run_callback_def stays_def)
qed

lemma stay_timer: "timer_node_erase r s = Some s1 \<Longrightarrow> stay s s1" "timer_node_insert r s = Some s1 \<Longrightarrow> stay s s1"
  by (auto simp: timer_node_erase_def timer_node_insert_def assert_ok_def upd_timer_def Let_def stay_def split: if_splits)

lemma expire_one_stays:
  assumes e: "expire_one ucb r s = Some s'" and n: "nd_interrupt_nest_count s > 0" and q: "stays ucb"
  shows "stay s s'"
proof -
  from e obtain s1 s2 where s1: "timer_node_erase r s = Some s1"
    and s2: "(if timer_type (timers s1 r) = ND_TIMER_TYPE_PERIODIC
            then timer_node_insert r (upd_timer (\<lambda>t. t\<lparr>expire_time := expire_time t + timeout t\<rparr>) r s1)
            else Some s1) = Some s2"
    and s': "(case callback (timers s2 r) of None \<Rightarrow> Some s2 | Some cb \<Rightarrow> run_callback ucb cb (arg (timers s2 r)) s2) = Some s'"
    by (auto simp: expire_one_def bind_Some_iff)
  have "stay s1 s2"
    using s2 stay_trans [OF stay_upd(4) stay_timer(2)] by (auto simp: stay_def split: if_splits)
  then have "stay s s2" using stay_timer(1) [OF s1] stay_trans by blast
  then show ?thesis using s' n run_callback_stays [of ucb _ _ s2 s'] q
    by (auto simp: stay_def split: option.splits)
qed

lemma timer_expired_stays:
  assumes "timer_expired ucb s = Some s'" and "nd_interrupt_nest_count s > 0" and "stays ucb"
  shows "stay s s'"
  using assms
proof (induction rule: timer_expired.raw_induct [rotated, consumes 1])
  case (1 te ucb s s')
  show ?case
  proof (cases "get_leftmost_timer s")
    case None
    with 1(2) show ?thesis by (auto simp: nd_hw_hrtimer_trigger_clear_def stay_def split: if_splits)
  next
    case (Some r)
    show ?thesis
    proof (cases "now s < expire_time (timers s r)")
      case True
      with 1(2) Some have "s' = timer_rearm s" by (simp add: nd_hw_get_current_def)
      then show ?thesis using timer_rearm_eq [of s] by (auto simp: stay_def)
    next
      case False
      with 1(2) Some obtain s1 where s1: "expire_one ucb r s = Some s1" and te: "te ucb s1 = Some s'"
        by (auto simp: nd_hw_get_current_def bind_Some_iff)
      have "stay s s1" by (rule expire_one_stays [OF s1 1(3,4)])
      moreover from this have "stay s1 s'" using 1(1) [OF te _ 1(4)] 1(3) by (simp add: stay_def)
      ultimately show ?thesis by (rule stay_trans)
    qed
  qed
qed


lemma clocked_fields [simp]:
  "kernel_ok i (clocked s) = kernel_ok i s" "scheduled (clocked s) = scheduled s"
  "nd_interrupt_nest_count (clocked s) = nd_interrupt_nest_count s" "nd_current_thread (clocked s) = nd_current_thread s"
  "port (clocked s) = port s" "rbtree (clocked s) = rbtree s" "timers (clocked s) = timers s" "threads (clocked s) = threads s"
  "now (clocked s) = (if tickless s then now s else now s + 1)"
  by (cases "tickless s"; simp add: clocked_def kernel_ok_tick; simp add: nd_hw_tick_update_def)+

lemma isr_ptimer_ok:
  assumes e: "in_irq i c s" and cb: "callbacks_ok i (\<lambda>s. port s = SwitchImmediate) ucb" and q: "quiet ucb" and st: "stays ucb"
    and sd: "steady (clocked s)"
  shows "wp (isr_ptimer ucb s) (\<lambda>s'. in_irq i c s' \<and> now s' = now (clocked s) \<and> (\<forall>r. \<not> due s' r) \<and>
    (\<forall>t. due (clocked s) (ThreadTimer t) \<or> runnable (status s t) \<longrightarrow> runnable (status s' t)))"
proof -
  let ?s = "clocked s"
  have k: "kernel_ok i ?s" "scheduled ?s" "nd_interrupt_nest_count ?s > 0" "port ?s = SwitchImmediate"
    using e by (simp_all add: in_irq_def)
  obtain s1 where s1: "timer_expired ucb ?s = Some s1" and w: "now s1 = now ?s"
      "\<forall>t. due ?s (ThreadTimer t) \<or> runnable (status s t) \<longrightarrow> runnable (status s1 t)"
    using timer_expired_total [OF k(1) k(4) cb q k(3) sd] by (auto simp: wp_iff)
  have "kernel_ok i s1 \<and> port s1 = SwitchImmediate \<and> scheduled s1 \<and> (\<forall>r. \<not> due s1 r)"
    using timer_expired_ok [OF s1 k(1) k(4) cb] k(2) by simp
  moreover have "stay ?s s1" by (rule timer_expired_stays [OF s1 k(3) st])
  ultimately have "in_irq i c s1 \<and> (\<forall>r. \<not> due s1 r)" using e by (simp add: in_irq_def stay_def)
  then show ?thesis using w s1 by (simp add: isr_ptimer_def nd_timer_process_def)
qed


text \<open>The UART of the shell behind the interrupt controller (\<^verbatim>\<open>bsp/vexpress-a9-qemu\<close>).\<close>

datatype a9_handler = H_uart_rx_isr | H_isr_ptimer

fun run_handler :: "nat \<Rightarrow> user_callback \<Rightarrow> a9_handler \<Rightarrow> u32 \<Rightarrow> u8 list \<times> ring_buf \<Rightarrow> kstate \<Rightarrow> ((u8 list \<times> ring_buf) \<times> kstate) option" where
  "run_handler rx_sem ucb H_uart_rx_isr a (dr, r) s = do {
     (r, s) \<leftarrow> rx_loop rx_sem dr r s;
     Some (([], r), s)
   }"
| "run_handler rx_sem ucb H_isr_ptimer a (dr, r) s = do {
     s \<leftarrow> isr_ptimer ucb s;
     Some ((dr, r), s)
   }"

abbreviation IRQ_UART0 :: u32 where
  "IRQ_UART0 \<equiv> 37"

abbreviation IRQ_PRIVATE_TIMER :: u32 where
  "IRQ_PRIVATE_TIMER \<equiv> 29"

text \<open>The private timer's interrupt, from \<^verbatim>\<open>vector_irq\<close> to the resumed thread: whoever's deadline has passed is ready, nobody
  who was ready stops being so, no deadline is left in the past but that of a time slice, and a most urgent thread runs.\<close>

lemma a9_timer_irq_wakes_due:
  assumes ok: "kernel_ok i s" and sch: "scheduled s" and nest: "nd_interrupt_nest_count s = 0"
    and cur: "nd_current_thread s = Some c" and im: "port s = SwitchImmediate"
    and cb: "callbacks_ok i (\<lambda>s. port s = SwitchImmediate) ucb" and q: "quiet ucb" and st: "stays ucb" and sd: "steady (clocked s)"
    and tbl: "length tbl = GIC_MAX_INTERRUPTS" and iar: "iar AND 0x3FF = IRQ_PRIVATE_TIMER"
  shows "wp (vector_irq (run_handler m ucb) iar (gic_register_handler IRQ_PRIVATE_TIMER H_isr_ptimer 0 tbl) w s)
    (\<lambda>(eoir, w', s'). eoir = iar \<and> w' = w \<and> kernel_ok i s' \<and> scheduled s' \<and> nd_interrupt_nest_count s' = 0 \<and>
      now s' = now (clocked s) \<and> (\<forall>t. due (clocked s) (ThreadTimer t) \<or> runnable (status s t) \<longrightarrow> runnable (status s' t)) \<and>
      (\<forall>r. (\<forall>t. r \<noteq> SliceTimer t) \<longrightarrow> \<not> due s' r))"
proof -
  let ?tbl = "gic_register_handler IRQ_PRIVATE_TIMER H_isr_ptimer 0 tbl" and ?s = "nd_enter_interrupt s"
  define Q where "Q = (\<lambda>w' s'. w' = w \<and> now s' = now (clocked s) \<and> (\<forall>r. \<not> due s' r) \<and>
    (\<forall>t. due (clocked s) (ThreadTimer t) \<or> runnable (status s t) \<longrightarrow> runnable (status s' t)))"
  have h: "handler (?tbl ! unat IRQ_PRIVATE_TIMER) = Some H_isr_ptimer" using tbl by (simp add: gic_register_handler_def)
  have en: "now (clocked ?s) = now (clocked s)" "due (clocked ?s) = due (clocked s)" "steady (clocked ?s)" "threads ?s = threads s"
    "now ?s = now s" "tickless ?s = tickless s"
    using sd by (auto simp: due_def steady_def nd_enter_interrupt_def fun_eq_iff)
  have run: "wp (run_handler m ucb H_isr_ptimer a w ?s) (\<lambda>(w', s'). in_irq i c s' \<and> Q w' s')" if e: "in_irq i c ?s" for a
  proof -
    obtain s1 where "isr_ptimer ucb ?s = Some s1" "in_irq i c s1" "Q w s1"
      using isr_ptimer_ok [OF e cb q st en(3)] by (auto simp: wp_iff Q_def en)
    then show ?thesis by (cases w) simp
  qed
  have "wp (vector_irq (run_handler m ucb) iar ?tbl w s) (\<lambda>(eoir, w', s'). eoir = iar \<and> kernel_ok i s' \<and> scheduled s' \<and>
      nd_interrupt_nest_count s' = 0 \<and> (\<exists>s1. Q w' s1 \<and> sched_frame (nd_exit_interrupt s1) s'))"
    by (rule vector_irq_ok [OF ok sch nest cur im]) (use iar h run in auto)
  then show ?thesis
  proof (rule wp_mono, clarify)
    fix w' s' s1
    assume s1: "Q w' s1" and fr: "sched_frame (nd_exit_interrupt s1) s'"
      and k: "kernel_ok i s'" "scheduled s'" "nd_interrupt_nest_count s' = 0"
    have a: "now s' = now s1" using sync_frameD(9) [OF sync_frame_sched [OF fr]] by (simp add: nd_exit_interrupt_def)
    have b: "runnable (status s' t)" if "runnable (status s1 t)" for t
      using runnable_frame [OF fr, of t] that by (simp add: nd_exit_interrupt_def)
    have c: "\<not> due s' r" if "\<forall>t. r \<noteq> SliceTimer t" for r
      using sched_frameD(5,6) [OF fr, of r] that s1 a by (auto simp: Q_def due_def nd_exit_interrupt_def)
    show "iar = iar \<and> w' = w \<and> kernel_ok i s' \<and> scheduled s' \<and> nd_interrupt_nest_count s' = 0 \<and>
      now s' = now (clocked s) \<and> (\<forall>t. due (clocked s) (ThreadTimer t) \<or> runnable (status s t) \<longrightarrow> runnable (status s' t)) \<and>
      (\<forall>r. (\<forall>t. r \<noteq> SliceTimer t) \<longrightarrow> \<not> due s' r)"
      using k s1 a b c by (simp add: Q_def)
  qed
qed

section \<open>Properties\<close>

text \<open>C39: an interrupt of the UART on the Cortex-A9, from \<^verbatim>\<open>vector_irq\<close> through the interrupt controller to the shell's
  driver and back: all characters are read, those that fit are stored behind the others in order, a waiting reader is
  woken for each or a token is left for it, the interrupt is acknowledged, and the kernel is well formed with a most
  urgent thread running.\<close>

theorem a9_uart_irq_correct:
  assumes ok: "kernel_ok i s" and sch: "scheduled s" and nest: "nd_interrupt_nest_count s = 0"
    and cur: "nd_current_thread s = Some c" and im: "port s = SwitchImmediate" and sok: "sem_ok s" and rok: "ring_ok r"
    and tokens: "sem_val (sems s m) \<le> int (length (ring_contents r))"
    and tbl: "length tbl = GIC_MAX_INTERRUPTS" and iar: "iar AND 0x3FF = IRQ_UART0"
  shows "wp (vector_irq (run_handler m ucb) iar (gic_register_handler IRQ_UART0 H_uart_rx_isr 0 tbl) (dr, r) s)
    (\<lambda>(eoir, (dr', r'), s'). eoir = iar \<and> dr' = [] \<and> kernel_ok i s' \<and> scheduled s' \<and> nd_interrupt_nest_count s' = 0 \<and>
      rx_done m dr r s r' s')"
proof -
  let ?tbl = "gic_register_handler IRQ_UART0 H_uart_rx_isr 0 tbl"
  define Q where "Q = (\<lambda>(dr' :: u8 list, r') s'. dr' = [] \<and> rx_done m dr r s r' s')"
  have h: "handler (?tbl ! unat IRQ_UART0) = Some H_uart_rx_isr" using tbl by (simp add: gic_register_handler_def)
  have run: "wp (run_handler m ucb H_uart_rx_isr a (dr, r) (nd_enter_interrupt s)) (\<lambda>(w', s'). in_irq i c s' \<and> Q w' s')"
    if e: "in_irq i c (nd_enter_interrupt s)" for a
  proof -
    have "wp (rx_loop m dr r (nd_enter_interrupt s)) (\<lambda>(r', s'). in_irq i c s' \<and> Q ([], r') s')"
      by (rule wp_pair_mono [OF rx_loop_ok [OF _ _ rx_enter(1) [OF sok] _ rok]])
        (use e tokens in \<open>auto simp: in_irq_def Q_def rx_enter\<close>)
    then show ?thesis by (auto simp: elim!: wp_mono)
  qed
  have "wp (vector_irq (run_handler m ucb) iar ?tbl (dr, r) s) (\<lambda>(eoir, w', s'). eoir = iar \<and> kernel_ok i s' \<and> scheduled s' \<and>
      nd_interrupt_nest_count s' = 0 \<and> (\<exists>s1. Q w' s1 \<and> sched_frame (nd_exit_interrupt s1) s'))"
    by (rule vector_irq_ok [OF ok sch nest cur im]) (use iar h run in auto)
  then show ?thesis by (rule wp_mono) (auto simp: Q_def intro: rx_done_exit)
qed

theorem a9_uart_irq_witness:
  "\<forall>ucb. wp (vector_irq (run_handler 0 ucb) 37 (gic_register_handler IRQ_UART0 H_uart_rx_isr 0 (replicate 128 \<lparr>handler = None, isr_arg = 0\<rparr>))
      ([0x61, 0x62], \<lparr>ring_bytes = replicate 64 0, ring_head = 0, ring_tail = 0\<rparr>) (sample SwitchImmediate))
    (\<lambda>(eoir, (dr', r'), s'). eoir = 37 \<and> ring_contents r' = [0x61, 0x62] \<and> runnable (status s' 3) \<and>
      sem_val (sems s' 0) = 1 \<and> scheduled s')"
  by (rule allI, rule wp_mono [OF a9_uart_irq_correct [OF sample_ok sample_scheduled _ _ _ sample_sem_ok, where c = 1]])
    (auto simp: sample_def sample_lists_def ring_ok_def ring_contents_def rx_done_def)

end
