(* ===== verification/Nd_A9_Timer.thy ===== *)
theory Nd_A9_Timer
  imports Nd_State
begin

text \<open>
  The tickless time base of the Cortex-A9 (\<^verbatim>\<open>arch/arm/a9/timer.c\<close>): the 64-bit global counter, read in two halves, and the
  private timer that is programmed for the next deadline.
\<close>

text \<open>
  \<open>cnt i\<close> is the 64-bit counter at the moment of the \<open>i\<close>-th access to one of its two halves. It never runs backwards.
\<close>

definition counter_ok :: "(nat \<Rightarrow> u64) \<Rightarrow> bool" where
  "counter_ok cnt \<longleftrightarrow> (\<forall>i. cnt i \<le> cnt (Suc i))"

definition GTIMER_COUNT_LO :: "u64 \<Rightarrow> u32" where
  "GTIMER_COUNT_LO c = ucast c"

definition GTIMER_COUNT_HI :: "u64 \<Rightarrow> u32" where
  "GTIMER_COUNT_HI c = ucast (drop_bit 32 c)"

partial_function (option) gtimer_read :: "(nat \<Rightarrow> u64) \<Rightarrow> nat \<Rightarrow> (u64 \<times> nat) option" where
  "gtimer_read cnt i =
     (let hi = GTIMER_COUNT_HI (cnt i); lo = GTIMER_COUNT_LO (cnt (i + 1)); hi2 = GTIMER_COUNT_HI (cnt (i + 2)) in
      if hi \<noteq> hi2 then gtimer_read cnt (i + 3)
      else Some (push_bit 32 (ucast hi) OR ucast lo, i + 3))"

abbreviation ND_CPU_CLOCK_HZ :: u64 where
  "ND_CPU_CLOCK_HZ \<equiv> 24000000"

abbreviation ND_TICKLESS_FREQ :: u64 where
  "ND_TICKLESS_FREQ \<equiv> 1000000"

definition a9_hrtimer_get_current :: "(nat \<Rightarrow> u64) \<Rightarrow> nat \<Rightarrow> (u64 \<times> nat) option" where
  "a9_hrtimer_get_current cnt i = do {
     (c, j) \<leftarrow> gtimer_read cnt i;
     Some (c div (ND_CPU_CLOCK_HZ div ND_TICKLESS_FREQ), j)
   }"

record ptimer =
  PTIMER_LOAD :: u32
  PTIMER_COUNTER :: u32
  PTIMER_CTRL :: u32

definition a9_hrtimer_set_expire :: "(nat \<Rightarrow> u64) \<Rightarrow> nat \<Rightarrow> u64 \<Rightarrow> ptimer \<Rightarrow> ptimer option" where
  "a9_hrtimer_set_expire cnt i expire p = do {
     (now, j) \<leftarrow> a9_hrtimer_get_current cnt i;
     let p = (if expire \<le> now then p\<lparr>PTIMER_LOAD := 1\<rparr>
              else (let delta = expire - now;
                        delta = delta * (ND_CPU_CLOCK_HZ div ND_TICKLESS_FREQ)
                    in p\<lparr>PTIMER_LOAD := if delta > 0xFFFFFFFF then 0xFFFFFFFF else ucast delta\<rparr>));
         p = p\<lparr>PTIMER_COUNTER := PTIMER_LOAD p\<rparr>
     in Some (p\<lparr>PTIMER_CTRL := 1 OR 4\<rparr>)
   }"

lemma counter_mono: "counter_ok cnt \<Longrightarrow> i \<le> j \<Longrightarrow> cnt i \<le> cnt j"
  by (rule lift_Suc_mono_le [of cnt]) (simp_all add: counter_ok_def)

lemma unat_hi: "unat (GTIMER_COUNT_HI c) = unat c div 2 ^ 32"
proof -
  have "unat c div 2 ^ 32 < 2 ^ 32" using unsigned_less [of c, where 'a = nat] by (simp add: less_mult_imp_div_less)
  then show ?thesis by (simp add: GTIMER_COUNT_HI_def unsigned_ucast_eq unsigned_drop_bit_eq drop_bit_eq_div take_bit_eq_mod unat_div)
qed

lemma hi_lo: "push_bit 32 (ucast (GTIMER_COUNT_HI c)) OR ucast (GTIMER_COUNT_LO c) = c"
  unfolding GTIMER_COUNT_HI_def GTIMER_COUNT_LO_def
  by (rule bit_word_eqI) (auto simp: bit_simps)

section \<open>Properties\<close>

text \<open>C40: reading the 64-bit counter in two halves ends, and gives a value the counter has had while it was
  read, even when the lower half runs over in between.\<close>

theorem gtimer_read_correct:
  assumes "counter_ok cnt"
  shows "wp (gtimer_read cnt i) (\<lambda>(v, j). i < j \<and> v \<in> cnt ` {i..<j})"
  using assms
proof (induction "2 ^ 32 - unat (GTIMER_COUNT_HI (cnt i))" arbitrary: i rule: less_induct)
  case less
  note mono = counter_mono [OF less.prems]
  have le: "unat (GTIMER_COUNT_HI (cnt a)) \<le> unat (GTIMER_COUNT_HI (cnt b))" if "a \<le> b" for a b
    using mono [OF that] by (simp add: unat_hi div_le_mono word_le_nat_alt)
  show ?case
  proof (cases "GTIMER_COUNT_HI (cnt i) = GTIMER_COUNT_HI (cnt (i + 2))")
    case True
    then have "GTIMER_COUNT_HI (cnt (i + 1)) = GTIMER_COUNT_HI (cnt i)"
      using le [of i "i + 1"] le [of "i + 1" "i + 2"] by (simp add: word_unat_eq_iff)
    then have "push_bit 32 (ucast (GTIMER_COUNT_HI (cnt i))) OR ucast (GTIMER_COUNT_LO (cnt (i + 1))) = cnt (i + 1)"
      using hi_lo [of "cnt (i + 1)"] by simp
    then show ?thesis using True by (subst gtimer_read.simps) (auto simp: Let_def)
  next
    case False
    have "unat (GTIMER_COUNT_HI (cnt i)) \<noteq> unat (GTIMER_COUNT_HI (cnt (i + 2)))" using False by (simp add: word_unat_eq_iff)
    then have "unat (GTIMER_COUNT_HI (cnt i)) < unat (GTIMER_COUNT_HI (cnt (i + 3)))"
      using le [of i "i + 2"] le [of "i + 2" "i + 3"] by simp
    moreover have "unat (GTIMER_COUNT_HI (cnt i)) < 2 ^ 32" using unsigned_less [of "GTIMER_COUNT_HI (cnt i)", where 'a = nat] by simp
    ultimately have "wp (gtimer_read cnt (i + 3)) (\<lambda>(v, j). i + 3 < j \<and> v \<in> cnt ` {i + 3..<j})"
      by (intro less.hyps) (use less.prems in simp_all)
    then have "wp (gtimer_read cnt (i + 3)) (\<lambda>(v, j). i < j \<and> v \<in> cnt ` {i..<j})"
      by (rule wp_pair_mono) auto
    then show ?thesis using False by (subst gtimer_read.simps) simp
  qed
qed

theorem gtimer_read_witness:
  "wp (gtimer_read (\<lambda>i. if i = 0 then 0xFFFFFFFF else 0x100000001) 0) (\<lambda>(v, j). v = 0xFFFFFFFF \<or> v = 0x100000001)"
  by (rule wp_mono [OF gtimer_read_correct]) (auto simp: counter_ok_def)

text \<open>The private timer is programmed for the deadline of the kernel's timer: it runs out not before the deadline
  and less than one tick behind it, at once if the deadline has passed; a deadline too far away is cut to the longest
  time the timer can run, never beyond the deadline.\<close>

theorem a9_hrtimer_on_time:
  assumes cnt: "counter_ok cnt" and e: "unat expire * 24 < 2 ^ 64"
  shows "wp (a9_hrtimer_set_expire cnt i expire p) (\<lambda>p'. \<exists>k \<ge> i. PTIMER_COUNTER p' = PTIMER_LOAD p' \<and> PTIMER_CTRL p' = 5 \<and>
    (if unat expire \<le> unat (cnt k) div 24 then PTIMER_LOAD p' = 1
     else unat (cnt k) + unat (PTIMER_LOAD p') < unat expire * 24 + 24 \<and>
       (PTIMER_LOAD p' = 0xFFFFFFFF \<or> unat expire * 24 \<le> unat (cnt k) + unat (PTIMER_LOAD p'))))"
proof -
  obtain v j k where r: "gtimer_read cnt i = Some (v, j)" "i \<le> k" "v = cnt k"
    using wp_pairD [OF gtimer_read_correct [OF cnt, of i]] by auto
  have d: "24000000 div 1000000 = (24 :: u64)" by (simp add: word_arith_wis)
  let ?now = "cnt k div 24"
  have n: "unat ?now = unat (cnt k) div 24" by (simp add: unat_div)
  show ?thesis
  proof (cases "expire \<le> ?now")
    case True
    then show ?thesis using r n d
      by (auto simp: a9_hrtimer_set_expire_def a9_hrtimer_get_current_def word_le_nat_alt intro!: exI [of _ k])
  next
    case False
    then have lt: "unat ?now < unat expire" by (simp add: word_le_nat_alt)
    define d where "d = expire - ?now"
    have d': "unat d = unat expire - unat (cnt k) div 24" using lt n by (simp add: d_def unat_sub word_le_nat_alt)
    then have "unat d * 24 < 2 ^ 64" using e by (simp add: diff_mult_distrib)
    then have u: "unat (d * 24) = unat d * 24" by (simp add: unat_word_ariths)
    have ex: "a9_hrtimer_set_expire cnt i expire p =
        Some (let l = if d * 24 > 0xFFFFFFFF then 0xFFFFFFFF else ucast (d * 24) in
          p\<lparr>PTIMER_LOAD := l, PTIMER_COUNTER := l, PTIMER_CTRL := 5\<rparr>)"
      using r False d by (simp add: a9_hrtimer_set_expire_def a9_hrtimer_get_current_def Let_def d_def)
    have m: "unat (cnt k) < (unat (cnt k) div 24) * 24 + 24" "unat (cnt k) div 24 * 24 \<le> unat (cnt k)" by simp_all
    have "unat (ucast (d * 24) :: u32) = unat d * 24" if "\<not> d * 24 > 0xFFFFFFFF"
      using that u by (simp add: unsigned_ucast_eq take_bit_eq_mod word_less_nat_alt)
    moreover have "unat d + unat (cnt k) div 24 = unat expire" using d' lt n by simp
    then have "unat (cnt k) + unat d * 24 < unat expire * 24 + 24" "unat expire * 24 \<le> unat (cnt k) + unat d * 24"
      using m by linarith+
    ultimately show ?thesis using r(2) lt n u by (auto simp: ex Let_def word_less_nat_alt intro!: exI [of _ k])
  qed
qed

theorem a9_hrtimer_witness:
  "\<forall>p. wp (a9_hrtimer_set_expire (\<lambda>_. 30) 0 100 p) (\<lambda>p'. 2400 \<le> 30 + unat (PTIMER_LOAD p') \<and> 30 + unat (PTIMER_LOAD p') < 2424)"
  by (rule allI, rule wp_mono [OF a9_hrtimer_on_time]) (auto simp: counter_ok_def)

end
