(* ===== verification/Spec2Isabelle.thy ===== *)
theory Spec2Isabelle
  imports Nd_Startup Nd_Timer_Tree Nd_Memcpy Nd_Shell Nd_Memheap_Run Nd_Port_A9 Nd_Port_Cortex_M
    Nd_Riscv_Trap Nd_Gic Nd_A9_Timer
begin

text \<open>
  NerdRTOS, a small real-time kernel for 32-bit microcontrollers (\<^verbatim>\<open>src/\<close> is the repository).

  The program. Threads (\<^verbatim>\<open>kernel/nd_thread.c\<close>) are run by a preemptive scheduler with 32 priorities and time
  slices (\<^verbatim>\<open>kernel/nd_scheduler.c\<close>); they wait for semaphores, mutexes with priority inheritance, event groups,
  message queues and memory pools (\<^verbatim>\<open>kernel/nd_sem.c\<close>, \<^verbatim>\<open>nd_mutex.c\<close>, \<^verbatim>\<open>nd_event.c\<close>, \<^verbatim>\<open>nd_queue.c\<close>,
  \<^verbatim>\<open>nd_mempool.c\<close>), with timeouts that software timers (\<^verbatim>\<open>kernel/nd_timer.c\<close>) bring about from the tick or a one-shot
  hardware timer. Lists are intrusive and doubly linked (\<^verbatim>\<open>include/nd_list.h\<close>), timers are in a red-black tree
  (\<^verbatim>\<open>lib/rbtree.c\<close>), ready priorities in a bitmap searched with \<^verbatim>\<open>nd_ffs\<close> (\<^verbatim>\<open>include/nd_bitops.h\<close>); strings, copying
  and formatted output are the kernel's own (\<^verbatim>\<open>kernel/nd_klibc.c\<close>). A port (\<^verbatim>\<open>arch/*\<close>) switches the processor from the
  stack of one thread to that of another; a board (\<^verbatim>\<open>bsp/*\<close>) brings the timer, the interrupt controller and the UART
  of the shell.

  How it is modelled. An operation is a function with the name of the C function, from its arguments and the
  state to an option: \<open>None\<close> is undefined behaviour (a null or dangling link, a failed assertion, an unaligned word where it is
  accessed with \<open>load_word\<close> or \<open>store_word\<close>; the pools' \<open>load32\<close> and \<open>store32\<close> take any address) or a
  loop that does not end; \<open>wp m Q\<close> says that \<open>m\<close> returns with \<open>Q\<close>. The kernel's state is the record \<open>kstate\<close>:
  control blocks, the lists by their heads, the timer queue, the bitmap and the globals of the scheduler. Machine
  integers are words of their width. Three layers are below \<open>kstate\<close>, each with the proof that it implements what
  is above: the pointer lists (\<open>Nd_List\<close>: list operations on a heap of nodes refine those on sequences), the
  pointer tree (\<open>Nd_Rbtree\<close> and on: the red-black tree refines the sorted timer sequence), and byte memory
  (\<open>Nd_Memory\<close>). A port of the kernel either switches threads at once or defers the switch to an exception (\<open>SwitchImmediate\<close>,
  \<open>SwitchDeferred\<close>: Cortex-M with PendSV); \<open>tickless\<close> selects the timer configuration. A call that blocks returns
  \<open>None\<close> as its C result, with the state at the moment the caller is off the processor; what the caller does when it runs
  again is a definition of its own (\<open>nd_wait_result\<close>, \<open>queue_send_resume\<close>, \<open>mempool_alloc_resume\<close>).

  The theories.
  \<^item> \<open>Nd_Prelude\<close>: types, error codes, the \<open>wp\<close> calculus and its rule collections, lemmas on sequences.
  \<^item> \<open>Nd_List\<close>, \<open>Nd_Bitops\<close>: the pointer lists with the contract \<open>list_system\<close>; find-first-set, both versions.
  \<^item> \<open>Nd_State\<close>, \<open>Nd_Timer\<close>, \<open>Nd_Scheduler\<close>: the data, the timers, every function of the scheduler.
  \<^item> \<open>Nd_Invariant\<close>, \<open>Nd_Scheduling\<close>, \<open>Nd_Calls\<close>: the invariant \<open>kernel_ok\<close>, its preservation by the scheduler, and
    the frames (\<open>rest\<close>, \<open>sync_frame\<close>) that say what an operation leaves alone.
  \<^item> \<open>Nd_Thread\<close>, \<open>Nd_Sem\<close>, \<open>Nd_Mutex\<close>, \<open>Nd_Event\<close>, \<open>Nd_Expiry\<close>: the calls, with their functional properties, and the
    expiry of timers in the tick interrupt.
  \<^item> \<open>Nd_Fifo\<close>, \<open>Nd_Queue\<close>: the contract of a bounded buffer, and message queues, whose ring satisfies it; the pass of a
    loop that waits, which the pools share.
  \<^item> \<open>Nd_Memory\<close>, \<open>Nd_Mempool\<close>: bytes and words, and the memory pools, whose free list is in the blocks themselves.
  \<^item> \<open>Nd_Rbtree\<close> (the code), \<open>Nd_Rbtree_Rep\<close> (trees in the heap, focus and rotation), \<open>Nd_Rbtree_Insert\<close>,
    \<open>Nd_Rbtree_Erase\<close> (both repairs), \<open>Nd_Timer_Tree\<close> (the contract \<open>timer_tree\<close>, satisfied by the model's queue and by
    the pointer tree).
  \<^item> \<open>Nd_Memcpy\<close>, \<open>Nd_Strings\<close>, \<open>Nd_Printf\<close>: the C library.
  \<^item> \<open>Nd_Memheap\<close> (the code), \<open>Nd_Memheap_Chain\<close> (its lists as sequences), \<open>Nd_Memheap_Inv\<close> (the invariant, kept by allocating and
    freeing), \<open>Nd_Memheap_Realloc\<close> (changing sizes), \<open>Nd_Memheap_Run\<close> (sequences of calls): the memory heap (\<^verbatim>\<open>kernel/nd_memheap.c\<close>, \<^verbatim>\<open>kernel/nd_mem.c\<close>).
  \<^item> \<open>Nd_Shell\<close>: the line editor, the history and the command parser of the shell (\<^verbatim>\<open>components/shell/src/nd_shell.c\<close>).
  \<^item> \<open>Nd_Context\<close>: stacks and frames in memory, a switch of contexts, runs of threads (\<open>mux\<close>), and the contracts
    \<open>port_context\<close> (what is saved is restored) and \<open>port_boot\<close> (a first frame is a context to go on from); \<open>Nd_Port_A9\<close>,
    \<open>Nd_Port_Cortex_M\<close>, \<open>Nd_Port_Riscv\<close>: the ports, which satisfy them, frame by frame as their assembly stores and loads
    it (\<^verbatim>\<open>context.S\<close>, \<^verbatim>\<open>port.c\<close>); \<open>Nd_Riscv_Trap\<close>: interrupts and exceptions of RISC-V from the entry of the trap through the handlers and
    the scheduler to the context that goes on (\<^verbatim>\<open>trap.S\<close>, \<^verbatim>\<open>trap.c\<close>).
  \<^item> \<open>Nd_Shell_Port\<close>, \<open>Nd_Gic\<close>: the shell's receive interrupt, ring and reader on top of the semaphores, and the interrupt
    dispatch of the Cortex-A9 board around it; \<open>Nd_A9_Timer\<close>: its tickless time base.
  \<^item> \<open>Nd_Sample\<close>: a state with threads in every situation, at which the theorems are instantiated.
  \<^item> \<open>Nd_Kernel\<close>: the calls on threads, timers, semaphores, mutexes, event groups, queues and pools, initialisations included, as one type
    \<open>kcall\<close> with their conditions \<open>legal\<close>, and the step relation \<open>kstep\<close>: calls of the running thread, calls in interrupt handlers,
    stores into pool blocks, PendSV, ticks, entry of interrupts and both ways out of them, in any order.
  \<^item> \<open>Nd_Startup\<close> and this theory: runs from power on through the application's set-up (\<open>kernel_run\<close>), and the properties of the whole.

  What is proved. The invariant of the whole kernel holds in every run from power on and implies that no legal call faults
  (\<open>kernel_invariant\<close>, \<open>kernel_calls_return\<close>, \<open>kernel_run_means\<close>); each call does what it should on every
  branch (\<open>..._correct\<close>); timers expire in time (\<open>systick_wakes_due\<close>); the pointer structures refine the sequences
  (\<open>relink_refines\<close>, \<open>wait_insert_refines\<close>, \<open>timer_queue_refines\<close>); optimised code equals plain code
  (\<open>nd_ffs_table_eq\<close>, \<open>memcpy_correct\<close>); in every run of threads on stacks apart from each other each thread is resumed
  with its registers and its stack (\<open>a9_threads_run\<close>, \<open>rv_threads_run\<close>, \<open>cm_threads_run\<close>), and so it is by a trap of RISC-V that may
  have switched threads (\<open>riscv_trap_correct\<close>); an interrupt of the UART reaches the
  reader (\<open>a9_uart_irq_correct\<close>); where the code goes wrong the theorem says how (\<open>queue_wait_faults_deferred\<close>, the last part of
  \<open>mempool_alloc_correct\<close>, \<open>mutex_trylock_boosts\<close>, \<open>memheap_ignores_pool_size\<close>, \<open>memheap_realloc_wraps\<close>).

  What is assumed. Where the code leaves something unchecked the condition is a definition with a text of its own: \<open>legal\<close> for the kernel's calls,
  \<open>callbacks_ok\<close>, \<open>quiet\<close> and \<open>steady\<close> for the application's timers, \<open>fits\<close> and \<open>resizable\<close> for the memory heap, \<open>commands_rely\<close> for the
  functions of the shell's commands, \<open>handlers_ok\<close> for the interrupt handlers of the RISC-V vector table.

  Bounds. No fuel is used: loops are structural, have a measure, or are partial functions that are proved to return on
  every state with the invariant. Pointers and sizes are 32 bits, timeouts and ticks 64.

  The two views of a switch. In \<open>kstate\<close> a switch is the change of the current thread and of the queues; in \<open>Nd_Context\<close>
  it is the change of registers and stacks, for any choice of the next thread. The C function between saving and
  restoring (\<^verbatim>\<open>nd_context_switch_cb\<close>) belongs to the first view; the stack it uses below the saved frame is left out of the
  second.

  Not modelled. The hardware's own stacking of registers on Cortex-M (what is on the stack when PendSV begins is just the
  thread's stack), the lazy saving of floating point registers, the start-up code, the locks (\<^verbatim>\<open>nd_kernel_lock\<close> disables interrupts: each call
  is one step), hardware registers and vendor libraries, tests, linker scripts. Application callbacks and the
  contents of memory the kernel does not own are parameters or arbitrary.
\<close>

section \<open>Properties of the whole kernel\<close>




lemma sample_buffers_ok: "buffers_ok (sample pt)"
  unfolding buffers_ok_def using sample_queue_ok by (simp add: sample_def)

lemma sample_sys_ok: "sys_ok 0 (sample pt)"
  by (rule sys_okI [OF sample_ok sample_sem_ok sample_mutex_ok sample_event_ok sample_buffers_ok])


lemma thread_views:
  assumes k: "kernel_ok i s"
  shows "(\<forall>t u. status s t = ND_THREAD_STAT_RUNNING \<and> status s u = ND_THREAD_STAT_RUNNING \<longrightarrow> t = u) \<and>
    (\<forall>t. status s t = ND_THREAD_STAT_READY \<longleftrightarrow> t \<in> set (qlists s (ReadyList (prio_of s t)))) \<and>
    (\<forall>p<32. bit (k_thread_ready_bit s) p \<longleftrightarrow> (\<exists>t. status s t = ND_THREAD_STAT_READY \<and> prio_of s t = p)) \<and>
    (\<forall>t k. t \<in> set (qlists s k) \<and> \<not> is_ready k \<longrightarrow> status s t = ND_THREAD_STAT_BLOCK) \<and>
    (\<forall>t. ThreadTimer t \<in> set (rbtree s) \<longrightarrow> status s t = ND_THREAD_STAT_BLOCK)"
proof (intro conjI allI impI)
  note T = kernel_okD(5) [OF k] and B = kernel_okD(4) [OF k]
  note D = lists_okD(1) [OF base_ok_lists [OF B]]
  show ready: "status s t = ND_THREAD_STAT_READY \<longleftrightarrow> t \<in> set (qlists s (ReadyList (prio_of s t)))" for t
    using ready_home [OF T] D by simp
  show "t = u" if "status s t = ND_THREAD_STAT_RUNNING \<and> status s u = ND_THREAD_STAT_RUNNING" for t u
    using that T [of t] T [of u] by (simp add: thread_ok_def)
  show "bit (k_thread_ready_bit s) p \<longleftrightarrow> (\<exists>t. status s t = ND_THREAD_STAT_READY \<and> prio_of s t = p)"
    if "p < 32" for p
  proof -
    have "bit (k_thread_ready_bit s) p \<longleftrightarrow> qlists s (ReadyList p) \<noteq> []"
      using base_ok_bits [OF B] that by simp
    also have "\<dots> \<longleftrightarrow> (\<exists>t. t \<in> set (qlists s (ReadyList p)))" by (metis list.set_intros(1) list.exhaust length_pos_if_in_set list.size(3) less_nat_zero_code)
    also have "\<dots> \<longleftrightarrow> (\<exists>t. status s t = ND_THREAD_STAT_READY \<and> prio_of s t = p)"
      using ready ready_home_prio [OF T] D by metis
    finally show ?thesis .
  qed
  show "status s t = ND_THREAD_STAT_BLOCK" if "t \<in> set (qlists s k) \<and> \<not> is_ready k" for t k
    using that D [of t k] T [of t]
    by (cases k) (auto simp: thread_ok_def home_ok_def is_ready_def)
  show "status s t = ND_THREAD_STAT_BLOCK" if "ThreadTimer t \<in> set (rbtree s)" for t
    using that T [of t] by (auto simp: thread_ok_def timer_ok_def)
qed

lemma buffer_views:
  assumes b: "buffers_ok s"
  shows "used_msg (queues s j) \<le> max_msgs (queues s j) \<or> max_msgs (queues s j) = 0"
    and "block_count (pools s j) = 0 \<or> distinct (free_blocks (pools s j)) \<and>
      set (free_blocks (pools s j)) \<subseteq> set (pool_blocks (pools s j))"
  using b by (auto simp: buffers_ok_def queue_ok_def pool_ok_def)



end
